(* ===== verification/Prelude.thy ===== *)
theory Prelude
  imports Main "HOL-Library.Monad_Syntax"
begin

text \<open>
  Shared notions of the development.

  Bytes are \<open>char\<close>, C strings and byte runs are \<open>string\<close>; \<open>ucode\<close> reads a byte as an
  \<open>unsigned char\<close>, \<open>scode\<close> as the (signed) \<open>char\<close> of the x86 and arm-linux builds.
  A \<open>size_t\<close> is a natural number below \<open>2 ^ 64\<close> with the wrap-around of the addition
  written out.  A computation that may call \<open>log_failed_assert\<close> (the \<open>force_assert\<close>
  macro of \<open>src/src/buffer.h\<close>), or whose C behaviour is undefined (an access outside a
  block, a read of an indeterminate byte), is an \<open>option\<close>: \<open>None\<close> is that outcome, and
  sequencing is the option monad.
\<close>

section \<open>Named collections\<close>

named_theorems buffer_wf \<open>the buffer invariant is preserved\<close>
named_theorems char_simps \<open>evaluation of character classes\<close>
named_theorems array_inv \<open>preservation of the array invariant\<close>
named_theorems cq_simps \<open>effect of chunk queue operations on the queued octets\<close>

section \<open>Bytes\<close>

abbreviation ucode :: "char \<Rightarrow> nat" where
  "ucode c \<equiv> of_char c"

definition scode :: "char \<Rightarrow> int" where
  "scode c = (if ucode c < 128 then int (ucode c) else int (ucode c) - 256)"

abbreviation NUL :: char where "NUL \<equiv> CHR 0x00"
abbreviation TAB :: char where "TAB \<equiv> CHR 0x09"
abbreviation LF :: char where "LF \<equiv> CHR 0x0A"
abbreviation CR :: char where "CR \<equiv> CHR 0x0D"
abbreviation SP :: char where "SP \<equiv> CHR 0x20"
abbreviation CRLF :: string where "CRLF \<equiv> [CR, LF]"

lemma ucode_bound [simp]: "ucode c < 256"
  by (rule nat_of_char_less_256)

lemma all_chars_iff: "(\<forall>c::char. P c) \<longleftrightarrow> (\<forall>n<256. P (char_of (n::nat)))"
proof
  assume "\<forall>n<256. P (char_of (n::nat))"
  then have "P (char_of (ucode c))" for c
    using ucode_bound [of c] by blast
  then show "\<forall>c. P c" by simp
qed simp

text \<open>Bit five distinguishes the case of a letter: \<open>c |= 32\<close> and \<open>c &= ~32\<close>.\<close>

definition set_bit5 :: "char \<Rightarrow> char" where
  "set_bit5 c = Char (digit0 c) (digit1 c) (digit2 c) (digit3 c) (digit4 c) True (digit6 c) (digit7 c)"

definition clear_bit5 :: "char \<Rightarrow> char" where
  "clear_bit5 c = Char (digit0 c) (digit1 c) (digit2 c) (digit3 c) (digit4 c) False (digit6 c) (digit7 c)"

lemma ucode_set_bit5: "ucode (set_bit5 c) = (if digit5 c then ucode c else ucode c + 32)"
  by (cases c) (simp add: set_bit5_def)

lemma ucode_clear_bit5: "ucode (clear_bit5 c) = (if digit5 c then ucode c - 32 else ucode c)"
  by (cases c) (simp add: clear_bit5_def)

lemma digit5_odd: "digit5 c \<longleftrightarrow> odd (ucode c div 32)"
  by (cases c) simp

section \<open>Sizes\<close>

definition SIZE_MOD :: nat where "SIZE_MOD = 2 ^ 64"
definition PTRDIFF_MAX :: nat where "PTRDIFF_MAX = 2 ^ 63 - 1"

text \<open>A value stored in an \<open>int\<close> of 32 bits.\<close>

definition int32 :: "int \<Rightarrow> int" where
  "int32 v = (v + 2 ^ 31) mod 2 ^ 32 - 2 ^ 31"

text \<open>Addition of two \<open>size_t\<close>: unsigned overflow wraps.\<close>

definition sz_add :: "nat \<Rightarrow> nat \<Rightarrow> nat" where
  "sz_add a b = (a + b) mod SIZE_MOD"

text \<open>Subtraction of two \<open>size_t\<close>, wrapping below zero.\<close>

definition sz_sub :: "nat \<Rightarrow> nat \<Rightarrow> nat" where
  "sz_sub a b = (a + SIZE_MOD - b) mod SIZE_MOD"

lemma SIZE_MOD_pos [simp]: "0 < SIZE_MOD" "SIZE_MOD \<noteq> 0"
  by (simp_all add: SIZE_MOD_def)

lemma sz_add_exact [simp]: "a + b < SIZE_MOD \<Longrightarrow> sz_add a b = a + b"
  by (simp add: sz_add_def)

lemma sz_sub_exact [simp]: "b \<le> a \<Longrightarrow> a < SIZE_MOD \<Longrightarrow> sz_sub a b = a - b"
proof -
  assume "b \<le> a" "a < SIZE_MOD"
  then have "(a + SIZE_MOD - b) mod SIZE_MOD = (a - b + SIZE_MOD) mod SIZE_MOD" by simp
  with \<open>a < SIZE_MOD\<close> show ?thesis by (simp add: sz_sub_def)
qed

lemma sz_add_lt [simp]: "sz_add a b < SIZE_MOD"
  by (simp add: sz_add_def)

lemma PTRDIFF_SIZE: "n \<le> PTRDIFF_MAX \<Longrightarrow> n < SIZE_MOD"
  by (simp add: PTRDIFF_MAX_def SIZE_MOD_def)

text \<open>The overflow checks of the code, \<open>a + b >= a\<close> after a wrapping addition, are exact.\<close>

lemma sz_add_ge_iff:
  assumes "a < SIZE_MOD" "b < SIZE_MOD"
  shows "a \<le> sz_add a b \<longleftrightarrow> a + b < SIZE_MOD"
proof
  assume "a \<le> sz_add a b"
  show "a + b < SIZE_MOD"
  proof (rule ccontr)
    assume "\<not> a + b < SIZE_MOD"
    then have "sz_add a b = a + b - SIZE_MOD"
      using assms by (simp add: sz_add_def mod_if)
    with \<open>a \<le> sz_add a b\<close> \<open>\<not> a + b < SIZE_MOD\<close> assms show False by simp
  qed
qed simp

section \<open>Assertions and memory\<close>

definition force_assert :: "bool \<Rightarrow> unit option" where
  "force_assert c = (if c then Some () else None)"

lemma force_assert_simps [simp]:
  "force_assert True = Some ()" "force_assert False = None"
  by (simp_all add: force_assert_def)

lemma force_assert_Some [simp]: "force_assert c = Some u \<longleftrightarrow> c"
  by (simp add: force_assert_def)

lemma force_assert_bind [simp]: "c \<Longrightarrow> Option.bind (force_assert c) f = f ()"
  by simp

text \<open>
  A memory block is a list of cells; \<open>None\<close> in a cell is an indeterminate byte (fresh
  from \<open>malloc\<close> or \<open>realloc\<close>).
\<close>

type_synonym cells = "char option list"

definition peek :: "cells \<Rightarrow> nat \<Rightarrow> char option" where
  "peek m i = (if i < length m then m ! i else None)"

definition poke :: "cells \<Rightarrow> nat \<Rightarrow> char \<Rightarrow> cells option" where
  "poke m i c = (if i < length m then Some (m[i := Some c]) else None)"

definition write_at :: "cells \<Rightarrow> nat \<Rightarrow> string \<Rightarrow> cells option" where
  "write_at m i s =
     (if i + length s \<le> length m
      then Some (take i m @ map Some s @ drop (i + length s) m) else None)"

definition read_at :: "cells \<Rightarrow> nat \<Rightarrow> nat \<Rightarrow> string option" where
  "read_at m i n =
     (if i + n \<le> length m \<and> None \<notin> set (take n (drop i m))
      then Some (map the (take n (drop i m))) else None)"

lemma length_poke: "poke m i c = Some m' \<Longrightarrow> length m' = length m"
  by (auto simp: poke_def split: if_splits)

lemma length_write_at: "write_at m i s = Some m' \<Longrightarrow> length m' = length m"
  by (auto simp: write_at_def split: if_splits)

lemma map_the_Some [simp]: "map (the \<circ> Some) xs = xs"
  by (induction xs) auto

lemma read_at_written:
  assumes "write_at m i s = Some m'"
  shows "read_at m' i (length s) = Some s"
  using assms by (auto simp: write_at_def read_at_def split: if_splits)

text \<open>The string a \<open>char *\<close> denotes: the bytes before the first NUL.\<close>

definition cstr :: "string \<Rightarrow> string" where
  "cstr s = takeWhile (\<lambda>c. c \<noteq> NUL) s"

lemma cstr_no_nul [simp]: "NUL \<notin> set s \<Longrightarrow> cstr s = s"
  unfolding cstr_def by (subst takeWhile_eq_all_conv) auto

lemma NUL_notin_cstr [simp]: "NUL \<notin> set (cstr s)"
  by (auto simp: cstr_def dest: set_takeWhileD)

lemma cstr_append_nul [simp]: "cstr (s @ NUL # t) = cstr s"
  by (induction s) (auto simp: cstr_def)

lemma length_cstr: "length (cstr s) \<le> length s"
  by (simp add: cstr_def length_takeWhile_le)

section \<open>Lists\<close>

lemma take_update_ge [simp]: "n \<le> i \<Longrightarrow> take n (xs[i := x]) = take n xs"
  by simp

lemma nth_take_drop_mid:
  "i < length xs \<Longrightarrow> xs = take i xs @ xs ! i # drop (Suc i) xs"
  by (simp add: Cons_nth_drop_Suc)

lemma None_notin_take_append:
  "None \<notin> set (take n xs) \<Longrightarrow> m \<le> n \<Longrightarrow> None \<notin> set (take m xs)"
  by (meson in_mono set_take_subset_set_take)

lemma bind_SomeE:
  assumes "Option.bind x f = Some y"
  obtains z where "x = Some z" "f z = Some y"
  using assms by (cases x) auto

end
