(* ===== verification/Chars.thy ===== *)
theory Chars
  imports Prelude "HOL-Library.List_Lexorder"
begin

text \<open>
  Character classes, case folding, hexadecimal digits and the case-insensitive comparison
  of \<open>src/src/buffer.c\<close>.
\<close>

section \<open>Character classes\<close>

definition light_isdigit :: "char \<Rightarrow> bool" where
  "light_isdigit c \<longleftrightarrow> 48 \<le> ucode c \<and> ucode c \<le> 57"

definition light_isxdigit :: "char \<Rightarrow> bool" where
  "light_isxdigit c \<longleftrightarrow>
     (if light_isdigit c then True
      else 97 \<le> ucode (set_bit5 c) \<and> ucode (set_bit5 c) \<le> 102)"

definition light_isalpha :: "char \<Rightarrow> bool" where
  "light_isalpha c \<longleftrightarrow> 97 \<le> ucode (set_bit5 c) \<and> ucode (set_bit5 c) \<le> 122"

definition light_isalnum :: "char \<Rightarrow> bool" where
  "light_isalnum c \<longleftrightarrow> light_isdigit c \<or> light_isalpha c"

definition is_upper :: "char \<Rightarrow> bool" where
  "is_upper c \<longleftrightarrow> 65 \<le> ucode c \<and> ucode c \<le> 90"

definition to_lower :: "char \<Rightarrow> char" where
  "to_lower c = (if is_upper c then set_bit5 c else c)"

text \<open>\<open>buffer_to_lower\<close> and \<open>buffer_to_upper\<close> as they act on the bytes of a buffer.\<close>

definition bytes_to_lower :: "string \<Rightarrow> string" where
  "bytes_to_lower s = map (\<lambda>c. if is_upper c then set_bit5 c else c) s"

definition bytes_to_upper :: "string \<Rightarrow> string" where
  "bytes_to_upper s = map (\<lambda>c. if is_upper c then clear_bit5 c else c) s"

section \<open>Hexadecimal digits\<close>

definition hex_chars :: string where
  "hex_chars = ''0123456789abcdef''"

definition int2hex :: "nat \<Rightarrow> char" where
  "int2hex n = hex_chars ! (n mod 16)"

text \<open>
  \<open>hex2int\<close>: the subtractions are on \<open>unsigned char\<close>, so they wrap modulo 256; the
  result 255 (\<open>0xFF\<close>) reports a byte that is no hexadecimal digit.
\<close>

definition hex2int :: "char \<Rightarrow> nat" where
  "hex2int hex =
     (let value = (ucode hex + 256 - 48) mod 256;
          value = (if 9 < value
                   then (let v = (ucode (set_bit5 hex) + 256 - 97 + 10) mod 256
                         in if v < 10 then 255 else v)
                   else value)
      in if 15 < value then 255 else value)"

section \<open>Comparison without case\<close>

text \<open>
  \<open>buffer_caseless_compare\<close>: the loop runs over the common length of the two byte runs;
  what is left decides by length.
\<close>

fun buffer_caseless_compare :: "string \<Rightarrow> string \<Rightarrow> int" where
  "buffer_caseless_compare (a # as) (b # bs) =
     (if a = b then buffer_caseless_compare as bs
      else if to_lower a = to_lower b then buffer_caseless_compare as bs
      else int (ucode (to_lower a)) - int (ucode (to_lower b)))"
| "buffer_caseless_compare [] [] = 0"
| "buffer_caseless_compare [] (b # bs) = -1"
| "buffer_caseless_compare (a # as) [] = 1"

text \<open>The C library's \<open>strcasecmp\<close> and \<open>strncasecmp\<close>, as tests for equality.\<close>

definition strcasecmp_eq :: "string \<Rightarrow> string \<Rightarrow> bool" where
  "strcasecmp_eq a b \<longleftrightarrow> map to_lower (cstr a) = map to_lower (cstr b)"

definition strncasecmp_eq :: "string \<Rightarrow> string \<Rightarrow> nat \<Rightarrow> bool" where
  "strncasecmp_eq a b n \<longleftrightarrow> map to_lower (take n (cstr a)) = map to_lower (take n (cstr b))"

section \<open>Facts\<close>

lemma digit5_iff: "digit5 c \<longleftrightarrow> 32 \<le> ucode c mod 64"
proof -
  have "ucode c mod 64 = 32 * (ucode c div 32 mod 2) + ucode c mod 32"
    using mod_mult2_eq [of "ucode c" 32 2] by simp
  moreover have "ucode c mod 32 < 32" by simp
  ultimately show ?thesis
    by (cases "odd (ucode c div 32)") (auto simp: digit5_odd odd_iff_mod_2_eq_one)
qed

lemma digit5_upper_half: "64 \<le> ucode c \<Longrightarrow> ucode c < 128 \<Longrightarrow> digit5 c \<longleftrightarrow> 96 \<le> ucode c"
  by (auto simp: digit5_iff le_mod_geq)

lemma light_isalpha_iff:
  "light_isalpha c \<longleftrightarrow> (65 \<le> ucode c \<and> ucode c \<le> 90) \<or> (97 \<le> ucode c \<and> ucode c \<le> 122)"
  using digit5_upper_half [of c] by (auto simp: light_isalpha_def ucode_set_bit5)

lemma light_isxdigit_iff:
  "light_isxdigit c \<longleftrightarrow>
     (48 \<le> ucode c \<and> ucode c \<le> 57) \<or> (65 \<le> ucode c \<and> ucode c \<le> 70)
      \<or> (97 \<le> ucode c \<and> ucode c \<le> 102)"
  using digit5_upper_half [of c]
  by (auto simp: light_isxdigit_def light_isdigit_def ucode_set_bit5)

lemma is_upper_no_bit5: "is_upper c \<Longrightarrow> \<not> digit5 c"
  using digit5_upper_half [of c] by (auto simp: is_upper_def)

lemma ucode_to_lower: "ucode (to_lower c) = (if is_upper c then ucode c + 32 else ucode c)"
  by (simp add: to_lower_def ucode_set_bit5 is_upper_no_bit5)

lemma not_upper_to_lower [simp]: "\<not> is_upper (to_lower c)"
  by (auto simp: is_upper_def ucode_to_lower split: if_splits)

lemma to_lower_idem [simp]: "to_lower (to_lower c) = to_lower c"
  by (subst to_lower_def) simp

lemma clear_bit5_upper: "is_upper c \<Longrightarrow> clear_bit5 c = c"
  by (drule is_upper_no_bit5) (cases c, simp add: clear_bit5_def)

lemma ucode_zero_iff: "ucode c = 0 \<longleftrightarrow> c = NUL"
  by (cases c) auto

lemma to_lower_NUL [simp]: "to_lower c = NUL \<longleftrightarrow> c = NUL"
  by (auto simp: ucode_zero_iff [symmetric] ucode_to_lower is_upper_def)

subsection \<open>Hexadecimal digits\<close>

lemma hex2int_value:
  "hex2int c = (if 48 \<le> ucode c \<and> ucode c \<le> 57 then ucode c - 48
                else if 97 \<le> ucode c \<and> ucode c \<le> 102 then ucode c - 87
                else if 65 \<le> ucode c \<and> ucode c \<le> 70 then ucode c - 55
                else 255)"
proof -
  define n where "n = ucode c"
  define m where "m = ucode (set_bit5 c)"
  have bounds: "n < 256" "m < 256" by (simp_all add: n_def m_def)
  have v1: "(n + 256 - 48) mod 256 = (if 48 \<le> n then n - 48 else n + 208)"
    using bounds by (auto simp: mod_if)
  have v2: "(m + 256 - 97 + 10) mod 256 = (if 87 \<le> m then m - 87 else m + 169)"
    using bounds by (auto simp: mod_if)
  have m: "m = (if digit5 c then n else n + 32)"
    by (simp add: n_def m_def ucode_set_bit5)
  have half: "64 \<le> n \<Longrightarrow> n < 128 \<Longrightarrow> digit5 c \<longleftrightarrow> 96 \<le> n"
    unfolding n_def by (rule digit5_upper_half)
  show ?thesis
    unfolding hex2int_def Let_def n_def [symmetric] m_def [symmetric] v1 v2
    using half bounds by (cases "digit5 c") (auto simp: m)
qed

lemma hex2int_range: "hex2int c < 16 \<or> hex2int c = 255"
  by (auto simp: hex2int_value)

lemma hex2int_valid_iff: "hex2int c \<noteq> 255 \<longleftrightarrow> light_isxdigit c"
  by (auto simp: hex2int_value light_isxdigit_iff)

lemma hex2int_int2hex: "hex2int (int2hex n) = n mod 16"
proof -
  have "\<forall>k<16. hex2int (hex_chars ! k) = k" by code_simp
  then show ?thesis by (simp add: int2hex_def)
qed

lemma int2hex_not_NUL [simp]: "int2hex n \<noteq> NUL"
proof -
  have "\<forall>k<16. hex_chars ! k \<noteq> NUL" by code_simp
  then show ?thesis by (simp add: int2hex_def)
qed

subsection \<open>The comparison orders byte runs by their lower-case bytes\<close>

definition ckey :: "string \<Rightarrow> nat list" where
  "ckey s = map (\<lambda>c. ucode (to_lower c)) s"

lemma ckey_simps [simp]: "ckey [] = []" "ckey (c # s) = ucode (to_lower c) # ckey s"
  by (simp_all add: ckey_def)

lemma compare_less_iff: "buffer_caseless_compare a b < 0 \<longleftrightarrow> ckey a < ckey b"
  by (induction a b rule: buffer_caseless_compare.induct) auto

lemma compare_zero_iff: "buffer_caseless_compare a b = 0 \<longleftrightarrow> ckey a = ckey b"
  by (induction a b rule: buffer_caseless_compare.induct) auto

lemma compare_greater_iff: "buffer_caseless_compare a b > 0 \<longleftrightarrow> ckey b < ckey a"
  by (induction a b rule: buffer_caseless_compare.induct) auto

lemma ckey_eq_iff: "ckey a = ckey b \<longleftrightarrow> map to_lower a = map to_lower b"
  by (auto simp: ckey_def list_eq_iff_nth_eq)

lemma compare_refl [simp]: "buffer_caseless_compare a a = 0"
  by (simp add: compare_zero_iff)

end
