(* ===== verification/Buffer.thy ===== *)
theory Buffer
  imports Prelude
begin

text \<open>
  The string container of \<open>src/src/buffer.c\<close> and \<open>src/src/buffer.h\<close>, at the level of
  its memory: \<open>b_ptr\<close> is the allocated block (\<open>[]\<close> for the NULL pointer, which the code
  keeps exactly while \<open>b_size\<close> is 0), \<open>b_used\<close> counts the terminating NUL, \<open>b_used = 0\<close>
  is the "unset" state.  Every operation is total in the option monad: \<open>None\<close> is an
  abort by \<open>force_assert\<close> or an access outside the block.  \<open>malloc\<close> and
  \<open>realloc\<close> fail, as the C library's do, on requests above \<open>PTRDIFF_MAX\<close>; running out
  of memory below that bound is not modelled.
\<close>

record buffer =
  b_ptr :: cells
  b_used :: nat
  b_size :: nat

section \<open>Operations\<close>

definition BUFFER_MAX_REUSE_SIZE :: nat where
  "BUFFER_MAX_REUSE_SIZE = 4 * 1024"

definition BUFFER_PIECE_SIZE :: nat where
  "BUFFER_PIECE_SIZE = 64"

definition buffer_init :: buffer where
  "buffer_init = \<lparr>b_ptr = [], b_used = 0, b_size = 0\<rparr>"

definition buffer_reset :: "buffer \<Rightarrow> buffer" where
  "buffer_reset b =
     (if BUFFER_MAX_REUSE_SIZE < b_size b then b\<lparr>b_ptr := [], b_size := 0, b_used := 0\<rparr>
      else if 0 < b_size b then b\<lparr>b_ptr := (b_ptr b)[0 := Some NUL], b_used := 0\<rparr>
      else b\<lparr>b_used := 0\<rparr>)"

text \<open>\<open>buffer_move (b, src)\<close>: either pointer may be NULL; the result holds both buffers.\<close>

definition buffer_move :: "buffer option \<Rightarrow> buffer option \<Rightarrow> buffer option \<times> buffer option" where
  "buffer_move b src =
     (case b of
        None \<Rightarrow> (None, map_option buffer_reset src)
      | Some b' \<Rightarrow>
          (case src of
             None \<Rightarrow> (Some (buffer_reset b'), None)
           | Some s \<Rightarrow> (Some s, Some (buffer_reset b'))))"

definition buffer_align_size :: "nat \<Rightarrow> nat" where
  "buffer_align_size sz =
     (let align = BUFFER_PIECE_SIZE - (sz mod BUFFER_PIECE_SIZE)
      in if sz_add sz align < sz then sz else sz_add sz align)"

text \<open>A fresh block of \<open>n\<close> bytes, or a block enlarged to \<open>n\<close> bytes.\<close>

definition malloc_cells :: "nat \<Rightarrow> cells option" where
  "malloc_cells n = (if n \<le> PTRDIFF_MAX then Some (replicate n None) else None)"

definition realloc_cells :: "cells \<Rightarrow> nat \<Rightarrow> cells option" where
  "realloc_cells m n =
     (if n \<le> PTRDIFF_MAX then Some (take n m @ replicate (n - length m) None) else None)"

definition buffer_alloc :: "buffer \<Rightarrow> nat \<Rightarrow> buffer option" where
  "buffer_alloc b sz0 =
     (let sz = (if sz0 = 0 then 1 else sz0)
      in if sz \<le> b_size b then Some b
         else do {
           let n = buffer_align_size sz;
           m \<leftarrow> malloc_cells n;
           Some \<lparr>b_ptr = m, b_used = 0, b_size = n\<rparr>
         })"

definition buffer_realloc :: "buffer \<Rightarrow> nat \<Rightarrow> buffer option" where
  "buffer_realloc b sz0 =
     (let sz = (if sz0 = 0 then 1 else sz0)
      in if sz \<le> b_size b then Some b
         else do {
           let n = buffer_align_size sz;
           m \<leftarrow> realloc_cells (b_ptr b) n;
           Some (b\<lparr>b_ptr := m, b_size := n\<rparr>)
         })"

text \<open>The functions that return a pointer into the block return its offset here.\<close>

definition buffer_string_prepare_copy :: "buffer \<Rightarrow> nat \<Rightarrow> (buffer \<times> nat) option" where
  "buffer_string_prepare_copy b sz = do {
     force_assert (sz_add sz 1 > sz);
     b \<leftarrow> buffer_alloc b (sz_add sz 1);
     m \<leftarrow> poke (b_ptr b) 0 NUL;
     Some (b\<lparr>b_ptr := m, b_used := 1\<rparr>, 0)
   }"

definition buffer_is_empty :: "buffer \<Rightarrow> bool" where
  "buffer_is_empty b \<longleftrightarrow> b_used b = 0"

definition buffer_string_is_empty :: "buffer \<Rightarrow> bool" where
  "buffer_string_is_empty b \<longleftrightarrow> b_used b < 2"

definition buffer_string_length :: "buffer \<Rightarrow> nat" where
  "buffer_string_length b = (if b_used b \<noteq> 0 then b_used b - 1 else 0)"

definition buffer_string_space :: "buffer \<Rightarrow> nat" where
  "buffer_string_space b =
     (if b_size b = 0 then 0 else if b_used b = 0 then b_size b - 1 else b_size b - b_used b)"

definition buffer_string_prepare_append :: "buffer \<Rightarrow> nat \<Rightarrow> (buffer \<times> nat) option" where
  "buffer_string_prepare_append b sz =
     (if buffer_string_is_empty b then buffer_string_prepare_copy b sz
      else do {
        let req_size = sz_add (b_used b) sz;
        force_assert (b_used b \<le> req_size);
        b' \<leftarrow> buffer_realloc b req_size;
        Some (b', b_used b' - 1)
      })"

definition buffer_string_set_length :: "buffer \<Rightarrow> nat \<Rightarrow> buffer option" where
  "buffer_string_set_length b len = do {
     force_assert (sz_add len 1 > len);
     b \<leftarrow> buffer_realloc b (sz_add len 1);
     m \<leftarrow> poke (b_ptr b) len NUL;
     Some (b\<lparr>b_used := len + 1, b_ptr := m\<rparr>)
   }"

definition buffer_commit :: "buffer \<Rightarrow> nat \<Rightarrow> buffer option" where
  "buffer_commit b sz = do {
     force_assert (b_size b > 0);
     let b = (if b_used b = 0 then b\<lparr>b_used := 1\<rparr> else b);
     b \<leftarrow> (if 0 < sz then do {
              force_assert (b_used b < sz_add (b_used b) sz);
              force_assert (sz_add (b_used b) sz \<le> b_size b);
              Some (b\<lparr>b_used := b_used b + sz\<rparr>)
            } else Some b);
     m \<leftarrow> poke (b_ptr b) (b_used b - 1) NUL;
     Some (b\<lparr>b_ptr := m\<rparr>)
   }"

text \<open>
  A \<open>(const char *s, size_t s_len)\<close> pair is the run of its \<open>s_len\<close> bytes; the NULL
  pointer is admitted by the assertion only with \<open>s_len = 0\<close>, the empty run.
\<close>

definition buffer_copy_string_len :: "buffer \<Rightarrow> string \<Rightarrow> buffer option" where
  "buffer_copy_string_len b s = do {
     (b, pos) \<leftarrow> buffer_string_prepare_copy b (length s);
     m \<leftarrow> (if length s \<noteq> 0 then write_at (b_ptr b) 0 s else Some (b_ptr b));
     buffer_commit (b\<lparr>b_ptr := m\<rparr>) (length s)
   }"

text \<open>\<open>s\<close> is the array the \<open>char *\<close> points into, \<open>None\<close> the NULL pointer.\<close>

definition buffer_copy_string :: "buffer \<Rightarrow> string option \<Rightarrow> buffer option" where
  "buffer_copy_string b s =
     buffer_copy_string_len b (case s of None \<Rightarrow> [] | Some t \<Rightarrow> cstr t)"

definition buffer_copy_buffer :: "buffer \<Rightarrow> buffer option \<Rightarrow> buffer option" where
  "buffer_copy_buffer b src =
     (if src = None \<or> b_used (the src) = 0 then do {
        (b, pos) \<leftarrow> buffer_string_prepare_copy b 0;
        Some (b\<lparr>b_used := 0\<rparr>)
      } else do {
        s \<leftarrow> read_at (b_ptr (the src)) 0 (buffer_string_length (the src));
        buffer_copy_string_len b s
      })"

definition buffer_append_string_len :: "buffer \<Rightarrow> string \<Rightarrow> buffer option" where
  "buffer_append_string_len b s = do {
     (b, pos) \<leftarrow> buffer_string_prepare_append b (length s);
     if length s = 0 then Some b
     else do {
       m \<leftarrow> write_at (b_ptr b) pos s;
       buffer_commit (b\<lparr>b_ptr := m\<rparr>) (length s)
     }
   }"

definition buffer_append_string :: "buffer \<Rightarrow> string option \<Rightarrow> buffer option" where
  "buffer_append_string b s =
     buffer_append_string_len b (case s of None \<Rightarrow> [] | Some t \<Rightarrow> cstr t)"

definition buffer_append_string_buffer :: "buffer \<Rightarrow> buffer option \<Rightarrow> buffer option" where
  "buffer_append_string_buffer b src =
     (case src of
        None \<Rightarrow> buffer_append_string_len b []
      | Some s \<Rightarrow> do {
          t \<leftarrow> read_at (b_ptr s) 0 (buffer_string_length s);
          buffer_append_string_len b t
        })"

definition buffer_init_buffer :: "buffer option \<Rightarrow> buffer option" where
  "buffer_init_buffer src = buffer_copy_buffer buffer_init src"

definition buffer_init_string :: "string option \<Rightarrow> buffer option" where
  "buffer_init_string s = buffer_copy_string buffer_init s"

definition buffer_append_slash :: "buffer \<Rightarrow> buffer option" where
  "buffer_append_slash b =
     (let len = buffer_string_length b
      in if 0 < len then do {
           c \<leftarrow> peek (b_ptr b) (len - 1);
           if c \<noteq> CHR ''/'' then buffer_append_string_len b ''/'' else Some b
         } else Some b)"

definition buffer_is_equal :: "buffer \<Rightarrow> buffer \<Rightarrow> bool option" where
  "buffer_is_equal a b =
     (if b_used a \<noteq> b_used b then Some False
      else if b_used a = 0 then Some True
      else do {
        s \<leftarrow> read_at (b_ptr a) 0 (b_used a);
        t \<leftarrow> read_at (b_ptr b) 0 (b_used b);
        Some (s = t)
      })"

definition buffer_is_equal_string :: "buffer \<Rightarrow> string \<Rightarrow> bool option" where
  "buffer_is_equal_string a s = do {
     force_assert (sz_add (length s) 1 > length s);
     if b_used a \<noteq> length s + 1 then Some False
     else do {
       t \<leftarrow> read_at (b_ptr a) 0 (length s);
       if t \<noteq> s then Some False
       else do {
         c \<leftarrow> peek (b_ptr a) (b_used a - 1);
         Some (c = NUL)
       }
     }
   }"

definition buffer_is_equal_right_len :: "buffer \<Rightarrow> buffer \<Rightarrow> nat \<Rightarrow> bool option" where
  "buffer_is_equal_right_len b1 b2 len =
     (if len = 0 then Some True
      else if b_used b1 = 0 \<or> b_used b2 = 0 then Some False
      else if b_used b1 - 1 < len \<or> b_used b2 - 1 < len then Some False
      else do {
        s \<leftarrow> read_at (b_ptr b1) (b_used b1 - 1 - len) len;
        t \<leftarrow> read_at (b_ptr b2) (b_used b2 - 1 - len) len;
        Some (s = t)
      })"

definition buffer_substr_replace :: "buffer \<Rightarrow> nat \<Rightarrow> nat \<Rightarrow> buffer \<Rightarrow> buffer option" where
  "buffer_substr_replace b offset len replace = do {
     let blen = buffer_string_length b;
     let rlen = buffer_string_length replace;
     let tail = sz_sub (sz_sub blen offset) len;
     b \<leftarrow> (if len < rlen then do {
              b \<leftarrow> buffer_string_set_length b (sz_add (sz_sub blen len) rlen);
              t \<leftarrow> read_at (b_ptr b) (offset + len) tail;
              m \<leftarrow> write_at (b_ptr b) (offset + rlen) t;
              Some (b\<lparr>b_ptr := m\<rparr>)
            } else Some b);
     r \<leftarrow> read_at (b_ptr replace) 0 rlen;
     m \<leftarrow> write_at (b_ptr b) offset r;
     let b = b\<lparr>b_ptr := m\<rparr>;
     if rlen < len then do {
       t \<leftarrow> read_at (b_ptr b) (offset + len) tail;
       m \<leftarrow> write_at (b_ptr b) (offset + rlen) t;
       buffer_string_set_length (b\<lparr>b_ptr := m\<rparr>) (sz_add (sz_sub blen len) rlen)
     } else Some b
   }"

section \<open>The invariant and the contents\<close>

definition buffer_wf :: "buffer \<Rightarrow> bool" where
  "buffer_wf b \<longleftrightarrow>
     length (b_ptr b) = b_size b \<and> b_size b \<le> PTRDIFF_MAX \<and> b_used b \<le> b_size b \<and>
     None \<notin> set (take (b_used b) (b_ptr b)) \<and>
     (0 < b_used b \<longrightarrow> b_ptr b ! (b_used b - 1) = Some NUL)"

definition buffer_content :: "buffer \<Rightarrow> string" where
  "buffer_content b = map the (take (b_used b - 1) (b_ptr b))"

text \<open>What a client sees of a buffer: unset, or a run of bytes.\<close>

definition buffer_abs :: "buffer \<Rightarrow> string option" where
  "buffer_abs b = (if b_used b = 0 then None else Some (buffer_content b))"

lemma buffer_wfD:
  assumes "buffer_wf b"
  shows "length (b_ptr b) = b_size b" "b_size b \<le> PTRDIFF_MAX" "b_used b \<le> b_size b"
  using assms by (auto simp: buffer_wf_def)

text \<open>A size the allocator serves: aligning it up stays below \<open>PTRDIFF_MAX\<close>.\<close>

definition fits :: "nat \<Rightarrow> bool" where
  "fits n \<longleftrightarrow> n + 65 \<le> PTRDIFF_MAX"

lemma fits_mono: "fits n \<Longrightarrow> m \<le> n \<Longrightarrow> fits m"
  by (simp add: fits_def)

lemma fits_small: "n < 2 ^ 62 \<Longrightarrow> fits n"
  by (simp add: fits_def PTRDIFF_MAX_def)

lemma buffer_content_cells:
  assumes "buffer_wf b" "0 < b_used b"
  shows "take (b_used b) (b_ptr b) = map Some (buffer_content b) @ [Some NUL]"
proof -
  have u: "b_used b = Suc (b_used b - 1)" "b_used b - 1 < length (b_ptr b)"
    using assms by (auto simp: buffer_wf_def)
  have "take (b_used b) (b_ptr b) = take (b_used b - 1) (b_ptr b) @ [b_ptr b ! (b_used b - 1)]"
    using u by (metis take_Suc_conv_app_nth)
  moreover have "b_ptr b ! (b_used b - 1) = Some NUL"
    using assms by (simp add: buffer_wf_def)
  moreover have "map Some (map the (take (b_used b - 1) (b_ptr b))) = take (b_used b - 1) (b_ptr b)"
  proof -
    have "None \<notin> set (take (b_used b - 1) (b_ptr b))"
      using assms None_notin_take_append [of "b_used b" "b_ptr b" "b_used b - 1"]
      by (simp add: buffer_wf_def)
    then have "map (Some \<circ> the) (take (b_used b - 1) (b_ptr b)) = take (b_used b - 1) (b_ptr b)"
      by (intro map_idI) (metis comp_apply option.collapse)
    then show ?thesis by simp
  qed
  ultimately show ?thesis by (simp add: buffer_content_def)
qed

lemma length_buffer_content:
  "buffer_wf b \<Longrightarrow> length (buffer_content b) = b_used b - 1"
  by (auto simp: buffer_content_def buffer_wf_def)

lemma buffer_string_length_content:
  "buffer_wf b \<Longrightarrow> buffer_string_length b = length (buffer_content b)"
  by (simp add: length_buffer_content buffer_string_length_def)

text \<open>A block whose first \<open>n + 1\<close> cells are a run of bytes and its terminator.\<close>

lemma buffer_wfI:
  assumes "b_ptr b = map Some s @ Some NUL # rest" "b_used b = Suc (length s)"
    "b_size b = length (b_ptr b)" "b_size b \<le> PTRDIFF_MAX"
  shows "buffer_wf b" "buffer_content b = s" "buffer_abs b = Some s"
  using assms by (auto simp: buffer_wf_def buffer_content_def buffer_abs_def nth_append)

lemma buffer_wfE:
  assumes "buffer_wf b" "0 < b_used b"
  obtains rest where
    "b_ptr b = map Some (buffer_content b) @ Some NUL # rest"
    "b_used b = Suc (length (buffer_content b))"
    "b_size b = Suc (length (buffer_content b)) + length rest"
proof
  show 1: "b_ptr b = map Some (buffer_content b) @ Some NUL # drop (b_used b) (b_ptr b)"
    using buffer_content_cells [OF assms] append_take_drop_id [of "b_used b" "b_ptr b"] by simp
  show "b_used b = Suc (length (buffer_content b))"
    using assms by (simp add: length_buffer_content)
  then show "b_size b = Suc (length (buffer_content b)) + length (drop (b_used b) (b_ptr b))"
    using assms by (simp add: buffer_wf_def)
qed

lemma read_at_content:
  assumes "buffer_wf b"
  shows "read_at (b_ptr b) 0 (buffer_string_length b) = Some (buffer_content b)"
proof (cases "b_used b = 0")
  case True
  then show ?thesis by (simp add: read_at_def buffer_string_length_def buffer_content_def)
next
  case False
  then obtain rest where "b_ptr b = map Some (buffer_content b) @ Some NUL # rest"
    using assms buffer_wfE by blast
  then show ?thesis
    using assms by (auto simp: buffer_string_length_content read_at_def)
qed

section \<open>Allocation\<close>

lemma align_exact:
  assumes "sz + 64 < SIZE_MOD"
  shows "buffer_align_size sz = sz + (64 - sz mod 64)"
proof -
  have "sz + (64 - sz mod 64) < SIZE_MOD" using assms by simp
  then show ?thesis by (simp add: buffer_align_size_def BUFFER_PIECE_SIZE_def Let_def)
qed

text \<open>
  The aligned size is the next multiple of 64 above the requested one; close to the end
  of the address space, where that would wrap, it is the requested size.
\<close>

lemma buffer_align_size_bounds:
  assumes "sz < SIZE_MOD"
  shows "sz \<le> buffer_align_size sz \<and> buffer_align_size sz \<le> sz + 64
    \<and> buffer_align_size sz < SIZE_MOD
    \<and> (buffer_align_size sz = sz \<or> buffer_align_size sz mod 64 = 0)"
proof -
  define al where "al = 64 - sz mod 64"
  have al: "0 < al" "al \<le> 64" by (simp_all add: al_def)
  have m: "(sz + al) mod 64 = 0"
  proof -
    have "sz mod 64 + al = 64" by (simp add: al_def)
    then show ?thesis by (metis mod_add_left_eq mod_self)
  qed
  have al_mod: "al < SIZE_MOD" using al by (simp add: SIZE_MOD_def)
  show ?thesis
  proof (cases "sz + al < SIZE_MOD")
    case True
    then show ?thesis
      using al m by (simp add: buffer_align_size_def BUFFER_PIECE_SIZE_def Let_def al_def [symmetric])
  next
    case False
    then have "\<not> sz \<le> sz_add sz al" using sz_add_ge_iff [OF assms al_mod] by simp
    then show ?thesis
      using assms by (simp add: buffer_align_size_def BUFFER_PIECE_SIZE_def Let_def al_def [symmetric])
  qed
qed

lemma buffer_realloc_ok:
  assumes "length (b_ptr b) = b_size b" "b_size b \<le> PTRDIFF_MAX" "0 < sz" "sz + 64 \<le> PTRDIFF_MAX"
  shows "\<exists>b' ext. buffer_realloc b sz = Some b' \<and> b_ptr b' = b_ptr b @ ext \<and> b_used b' = b_used b
           \<and> b_size b' = length (b_ptr b') \<and> sz \<le> b_size b' \<and> b_size b' \<le> PTRDIFF_MAX"
proof (cases "sz \<le> b_size b")
  case True
  then have "buffer_realloc b sz = Some b" using assms(3) by (simp add: buffer_realloc_def)
  with True assms show ?thesis by fastforce
next
  case False
  have lt: "sz + 64 < SIZE_MOD" using assms(4) by (simp add: PTRDIFF_SIZE)
  define n where "n = sz + (64 - sz mod 64)"
  have n: "buffer_align_size sz = n" "sz \<le> n" "n \<le> PTRDIFF_MAX"
    using align_exact [OF lt] assms(4) by (simp_all add: n_def)
  have "buffer_realloc b sz =
      Some (b\<lparr>b_ptr := b_ptr b @ replicate (n - b_size b) None, b_size := n\<rparr>)"
    using False assms n by (simp add: buffer_realloc_def realloc_cells_def)
  then show ?thesis using False assms n by fastforce
qed

lemma buffer_alloc_ok:
  assumes "length (b_ptr b) = b_size b" "b_size b \<le> PTRDIFF_MAX" "0 < sz" "sz + 64 \<le> PTRDIFF_MAX"
  shows "\<exists>b'. buffer_alloc b sz = Some b' \<and> b_size b' = length (b_ptr b') \<and> sz \<le> b_size b'
           \<and> b_size b' \<le> PTRDIFF_MAX \<and> (sz \<le> b_size b \<longrightarrow> b' = b)"
proof (cases "sz \<le> b_size b")
  case True
  then have "buffer_alloc b sz = Some b" using assms(3) by (simp add: buffer_alloc_def)
  with True assms show ?thesis by simp
next
  case False
  have lt: "sz + 64 < SIZE_MOD" using assms(4) by (simp add: PTRDIFF_SIZE)
  define n where "n = sz + (64 - sz mod 64)"
  have n: "buffer_align_size sz = n" "sz \<le> n" "n \<le> PTRDIFF_MAX"
    using align_exact [OF lt] assms(4) by (simp_all add: n_def)
  have "buffer_alloc b sz = Some \<lparr>b_ptr = replicate n None, b_used = 0, b_size = n\<rparr>"
    using False assms n by (simp add: buffer_alloc_def malloc_cells_def)
  then show ?thesis using False n by simp
qed

section \<open>Effect of the operations on the contents\<close>

lemma buffer_init_wf [simp]: "buffer_wf buffer_init" "buffer_abs buffer_init = None"
  by (simp_all add: buffer_init_def buffer_wf_def buffer_abs_def)

lemma buffer_reset_wf [buffer_wf]:
  "buffer_wf b \<Longrightarrow> buffer_wf (buffer_reset b)"
  by (auto simp: buffer_reset_def buffer_wf_def)

lemma buffer_reset_abs [simp]: "buffer_abs (buffer_reset b) = None"
  by (simp add: buffer_reset_def buffer_abs_def)

lemma buffer_reset_keeps_small:
  "b_size b \<le> BUFFER_MAX_REUSE_SIZE \<Longrightarrow> b_size (buffer_reset b) = b_size b"
  by (simp add: buffer_reset_def)

lemma poke_0: "0 < length m \<Longrightarrow> poke m 0 c = Some (Some c # tl m)"
  by (cases m) (auto simp: poke_def)

lemma buffer_prepare_copy_ok:
  assumes "buffer_wf b" "fits n"
  shows "\<exists>b' rest. buffer_string_prepare_copy b n = Some (b', 0) \<and> b_used b' = 1
           \<and> b_ptr b' = Some NUL # rest \<and> b_size b' = length (b_ptr b') \<and> n < b_size b'
           \<and> b_size b' \<le> PTRDIFF_MAX"
proof -
  have n: "sz_add n 1 = n + 1" "n + 1 + 64 \<le> PTRDIFF_MAX"
    using assms(2) PTRDIFF_SIZE [of "n + 1"] by (auto simp: fits_def)
  obtain b1 where b1: "buffer_alloc b (n + 1) = Some b1" "b_size b1 = length (b_ptr b1)"
      "n + 1 \<le> b_size b1" "b_size b1 \<le> PTRDIFF_MAX"
    using buffer_alloc_ok [OF buffer_wfD(1,2) [OF assms(1)] _ n(2)] by auto
  then have ne: "0 < length (b_ptr b1)" by linarith
  then have "buffer_string_prepare_copy b n =
      Some (b1\<lparr>b_ptr := Some NUL # tl (b_ptr b1), b_used := 1\<rparr>, 0)"
    using b1(1) n by (simp add: buffer_string_prepare_copy_def poke_0)
  moreover have "length (Some NUL # tl (b_ptr b1)) = length (b_ptr b1)"
    using ne by simp
  ultimately show ?thesis
    using b1(2-4) by fastforce
qed

text \<open>Committing bytes already written after the contents.\<close>

lemma buffer_commit_ok:
  assumes "b_ptr b = map Some s @ rest" "b_size b = length (b_ptr b)" "b_size b \<le> PTRDIFF_MAX"
    "b_used b + n = Suc (length s)" "0 < b_used b" "length s < b_size b"
  shows "\<exists>b'. buffer_commit b n = Some b' \<and> buffer_wf b' \<and> buffer_abs b' = Some s
           \<and> b_size b' = b_size b"
proof -
  have lt: "b_used b + n < SIZE_MOD"
    using assms(3,4,6) by (intro PTRDIFF_SIZE) linarith
  obtain x rest' where rest: "rest = x # rest'"
    using assms by (cases rest) auto
  define b1 where "b1 = b\<lparr>b_used := Suc (length s)\<rparr>"
  have p: "poke (b_ptr b) (length s) NUL = Some (map Some s @ Some NUL # rest')"
    using assms(1,2,6) by (simp add: poke_def rest list_update_append)
  have "buffer_commit b n = Some (b1\<lparr>b_ptr := map Some s @ Some NUL # rest'\<rparr>)"
    using assms lt p rest by (auto simp: buffer_commit_def b1_def)
  moreover have "buffer_wf (b1\<lparr>b_ptr := map Some s @ Some NUL # rest'\<rparr>)"
      "buffer_abs (b1\<lparr>b_ptr := map Some s @ Some NUL # rest'\<rparr>) = Some s"
    by (rule buffer_wfI [where rest = rest' and s = s],
        use assms rest in \<open>simp_all add: b1_def\<close>)+
  ultimately show ?thesis by (auto simp: b1_def)
qed

theorem buffer_copy_string_len_ok:
  assumes "buffer_wf b" "fits (length s)"
  shows "\<exists>b'. buffer_copy_string_len b s = Some b' \<and> buffer_wf b' \<and> buffer_abs b' = Some s"
proof -
  obtain b1 rest where b1: "buffer_string_prepare_copy b (length s) = Some (b1, 0)"
      "b_used b1 = 1" "b_ptr b1 = Some NUL # rest" "b_size b1 = length (b_ptr b1)"
      "length s < b_size b1" "b_size b1 \<le> PTRDIFF_MAX"
    using buffer_prepare_copy_ok [OF assms] by blast
  define m where "m = map Some s @ drop (length s) (b_ptr b1)"
  have w: "(if length s \<noteq> 0 then write_at (b_ptr b1) 0 s else Some (b_ptr b1)) = Some m"
    using b1 by (auto simp: write_at_def m_def)
  have "\<exists>b'. buffer_commit (b1\<lparr>b_ptr := m\<rparr>) (length s) = Some b' \<and> buffer_wf b'
          \<and> buffer_abs b' = Some s \<and> b_size b' = b_size (b1\<lparr>b_ptr := m\<rparr>)"
    by (rule buffer_commit_ok [where rest = "drop (length s) (b_ptr b1)"])
       (use b1 in \<open>auto simp: m_def\<close>)
  with b1(1) w show ?thesis
    by (auto simp: buffer_copy_string_len_def simp del: length_0_conv)
qed

lemma buffer_prepare_append_ok:
  assumes "buffer_wf b" "fits (length (buffer_content b) + n)"
  shows "\<exists>b' rest. buffer_string_prepare_append b n = Some (b', length (buffer_content b))
           \<and> b_ptr b' = map Some (buffer_content b) @ Some NUL # rest
           \<and> b_used b' = Suc (length (buffer_content b)) \<and> b_size b' = length (b_ptr b')
           \<and> b_size b' \<le> PTRDIFF_MAX \<and> length (buffer_content b) + n < b_size b'"
proof (cases "buffer_string_is_empty b")
  case True
  then have e: "buffer_content b = []"
    by (simp add: buffer_content_def buffer_string_is_empty_def)
  then have "fits n" using assms(2) by simp
  from buffer_prepare_copy_ok [OF assms(1) this] show ?thesis
    using True e by (auto simp: buffer_string_prepare_append_def)
next
  case False
  then have u: "0 < b_used b" by (simp add: buffer_string_is_empty_def)
  then obtain rest where rest: "b_ptr b = map Some (buffer_content b) @ Some NUL # rest"
      "b_used b = Suc (length (buffer_content b))"
    using assms(1) by (elim buffer_wfE) auto
  have req: "sz_add (b_used b) n = b_used b + n" "b_used b + n + 64 \<le> PTRDIFF_MAX"
    using assms(2) rest(2) PTRDIFF_SIZE [of "b_used b + n"] by (auto simp: fits_def)
  obtain b' ext where b': "buffer_realloc b (b_used b + n) = Some b'" "b_ptr b' = b_ptr b @ ext"
      "b_used b' = b_used b" "b_size b' = length (b_ptr b')" "b_used b + n \<le> b_size b'"
      "b_size b' \<le> PTRDIFF_MAX"
    using buffer_realloc_ok [OF buffer_wfD(1,2) [OF assms(1)] _ req(2)] u by auto
  have "buffer_string_prepare_append b n = Some (b', length (buffer_content b))"
    using False b'(1,3) req(1) rest(2) by (simp add: buffer_string_prepare_append_def)
  with b' rest show ?thesis by auto
qed

theorem buffer_append_string_len_ok:
  assumes "buffer_wf b" "fits (length (buffer_content b) + length s)"
  shows "\<exists>b'. buffer_append_string_len b s = Some b' \<and> buffer_wf b'
           \<and> buffer_abs b' = Some (buffer_content b @ s)"
proof -
  let ?c = "buffer_content b"
  obtain b1 rest where b1: "buffer_string_prepare_append b (length s) = Some (b1, length ?c)"
      "b_ptr b1 = map Some ?c @ Some NUL # rest" "b_used b1 = Suc (length ?c)"
      "b_size b1 = length (b_ptr b1)" "b_size b1 \<le> PTRDIFF_MAX" "length ?c + length s < b_size b1"
    using buffer_prepare_append_ok [OF assms] by blast
  show ?thesis
  proof (cases "s = []")
    case True
    have "buffer_wf b1" "buffer_abs b1 = Some ?c"
      using b1 by (auto intro: buffer_wfI)
    with True b1(1) show ?thesis by (simp add: buffer_append_string_len_def)
  next
    case False
    define rest' where "rest' = drop (length ?c + length s) (b_ptr b1)"
    define m where "m = map Some (?c @ s) @ rest'"
    have w: "write_at (b_ptr b1) (length ?c) s = Some m"
      using b1 by (auto simp: write_at_def m_def rest'_def)
    have "\<exists>b'. buffer_commit (b1\<lparr>b_ptr := m\<rparr>) (length s) = Some b' \<and> buffer_wf b'
            \<and> buffer_abs b' = Some (?c @ s) \<and> b_size b' = b_size (b1\<lparr>b_ptr := m\<rparr>)"
      by (rule buffer_commit_ok [where rest = rest'])
         (use b1 in \<open>auto simp: m_def rest'_def\<close>)
    with b1(1) w False show ?thesis by (auto simp: buffer_append_string_len_def)
  qed
qed

text \<open>The same facts from the client's side, with the abstract value as the interface.\<close>

definition abs_bytes :: "string option \<Rightarrow> string" where
  "abs_bytes v = (case v of None \<Rightarrow> [] | Some s \<Rightarrow> s)"

lemma abs_bytes_simps [simp]: "abs_bytes None = []" "abs_bytes (Some s) = s"
  by (simp_all add: abs_bytes_def)

lemma abs_bytes_content: "buffer_wf b \<Longrightarrow> abs_bytes (buffer_abs b) = buffer_content b"
  by (auto simp: buffer_abs_def buffer_content_def)

lemma buffer_content_abs: "buffer_abs b = Some s \<Longrightarrow> buffer_content b = s"
  by (auto simp: buffer_abs_def split: if_splits)

lemma buffer_copy_buffer_ok:
  assumes "buffer_wf b" "\<And>s. src = Some s \<Longrightarrow> buffer_wf s \<and> fits (length (buffer_content s))"
  shows "\<exists>b'. buffer_copy_buffer b src = Some b' \<and> buffer_wf b'
           \<and> buffer_abs b' = (case src of None \<Rightarrow> None | Some s \<Rightarrow> buffer_abs s)"
proof (cases "src = None \<or> b_used (the src) = 0")
  case True
  have "fits 0" by (simp add: fits_def PTRDIFF_MAX_def)
  then obtain b1 rest where b1: "buffer_string_prepare_copy b 0 = Some (b1, 0)" "b_used b1 = 1"
      "b_ptr b1 = Some NUL # rest" "b_size b1 = length (b_ptr b1)" "b_size b1 \<le> PTRDIFF_MAX"
    using buffer_prepare_copy_ok [OF assms(1)] by blast
  then have "buffer_wf (b1\<lparr>b_used := 0\<rparr>)" by (simp add: buffer_wf_def)
  moreover have "(case src of None \<Rightarrow> None | Some s \<Rightarrow> buffer_abs s) = None"
    using True by (auto simp: buffer_abs_def split: option.split)
  ultimately show ?thesis
    using True b1(1) by (auto simp: buffer_copy_buffer_def buffer_abs_def)
next
  case False
  then obtain s where s: "src = Some s" "b_used s \<noteq> 0" by auto
  with assms(2) have w: "buffer_wf s" "fits (length (buffer_content s))" by auto
  from buffer_copy_string_len_ok [OF assms(1) w(2)] s w show ?thesis
    by (auto simp: buffer_copy_buffer_def read_at_content buffer_abs_def)
qed

lemma buffer_append_string_buffer_ok:
  assumes "buffer_wf b" "buffer_wf s" "fits (length (buffer_content b) + length (buffer_content s))"
  shows "\<exists>b'. buffer_append_string_buffer b (Some s) = Some b' \<and> buffer_wf b'
           \<and> buffer_abs b' = Some (buffer_content b @ buffer_content s)"
  using buffer_append_string_len_ok [OF assms(1,3)] assms(2)
  by (simp add: buffer_append_string_buffer_def read_at_content)

section \<open>Comparison, slash, replacement\<close>

lemma read_at_used:
  assumes "buffer_wf b" "0 < b_used b"
  shows "read_at (b_ptr b) 0 (b_used b) = Some (buffer_content b @ [NUL])"
  using buffer_content_cells [OF assms] buffer_wfD [OF assms(1)] by (simp add: read_at_def)

text \<open>On well-formed buffers equality of buffers is equality of what they hold, unset included.\<close>

theorem buffer_is_equal_abs:
  assumes "buffer_wf a" "buffer_wf b"
  shows "buffer_is_equal a b = Some (buffer_abs a = buffer_abs b)"
proof (cases "b_used a = b_used b \<and> b_used a \<noteq> 0")
  case True
  then have u: "b_used a = b_used b" "0 < b_used a" "0 < b_used b" by auto
  have "read_at (b_ptr a) 0 (b_used b) = Some (buffer_content a @ [NUL])"
    using read_at_used [OF assms(1) u(2)] u(1) by simp
  then show ?thesis
    using u read_at_used [OF assms(2) u(3)] by (simp add: buffer_is_equal_def buffer_abs_def)
next
  case False
  then show ?thesis
    using assms length_buffer_content [of a] length_buffer_content [of b]
    by (auto simp: buffer_is_equal_def buffer_abs_def)
qed

theorem buffer_is_equal_string_abs:
  assumes "buffer_wf a" "length s + 1 < SIZE_MOD"
  shows "buffer_is_equal_string a s = Some (buffer_abs a = Some s)"
proof (cases "b_used a = length s + 1")
  case True
  then have "0 < b_used a" by simp
  then obtain rest where r: "b_ptr a = map Some (buffer_content a) @ Some NUL # rest"
    using assms(1) buffer_wfE by blast
  have l: "length (buffer_content a) = length s"
    using True length_buffer_content [OF assms(1)] by simp
  have "read_at (b_ptr a) 0 (length s) = Some (buffer_content a)"
    by (subst r) (simp add: read_at_def l [symmetric])
  moreover have "peek (b_ptr a) (length s) = Some NUL"
    by (subst r) (simp add: peek_def nth_append l)
  ultimately show ?thesis
    using True assms(2) by (auto simp: buffer_is_equal_string_def buffer_abs_def)
next
  case False
  then show ?thesis
    using assms length_buffer_content [OF assms(1)]
    by (auto simp: buffer_is_equal_string_def buffer_abs_def)
qed

definition ends_equal :: "string \<Rightarrow> string \<Rightarrow> nat \<Rightarrow> bool" where
  "ends_equal s t n \<longleftrightarrow>
     n \<le> length s \<and> n \<le> length t \<and> drop (length s - n) s = drop (length t - n) t"

lemma read_at_tail:
  assumes "buffer_wf b" "0 < b_used b" "n \<le> b_used b - 1"
  shows "read_at (b_ptr b) (b_used b - 1 - n) n
       = Some (drop (length (buffer_content b) - n) (buffer_content b))"
proof -
  let ?c = "buffer_content b"
  obtain rest where r: "b_ptr b = map Some ?c @ Some NUL # rest"
    using assms buffer_wfE by blast
  have n: "n \<le> length ?c" "b_used b - 1 - n = length ?c - n"
    using assms by (auto simp: length_buffer_content)
  have "take n (drop (length ?c - n) (b_ptr b)) = map Some (drop (length ?c - n) ?c)"
    using n by (subst r) (simp add: drop_map)
  moreover have "length ?c - n + n \<le> length (b_ptr b)"
    using n by (subst r) simp
  ultimately show ?thesis
    unfolding read_at_def n(2) by auto
qed

theorem buffer_is_equal_right_len_ok:
  assumes "buffer_wf a" "buffer_wf b"
  shows "buffer_is_equal_right_len a b n = Some (ends_equal (buffer_content a) (buffer_content b) n)"
proof (cases "n = 0 \<or> b_used a = 0 \<or> b_used b = 0 \<or> b_used a - 1 < n \<or> b_used b - 1 < n")
  case True
  then show ?thesis
    using length_buffer_content [OF assms(1)] length_buffer_content [OF assms(2)]
    by (auto simp: buffer_is_equal_right_len_def ends_equal_def)
next
  case False
  then have "0 < b_used a" "0 < b_used b" "n \<le> b_used a - 1" "n \<le> b_used b - 1" by auto
  note t = read_at_tail [OF assms(1) this(1,3)] read_at_tail [OF assms(2) this(2,4)]
  show ?thesis
    using False length_buffer_content [OF assms(1)] length_buffer_content [OF assms(2)]
    unfolding buffer_is_equal_right_len_def t ends_equal_def by simp
qed

lemma buffer_append_slash_ok:
  assumes "buffer_wf b" "fits (length (buffer_content b) + 1)"
  shows "\<exists>b'. buffer_append_slash b = Some b' \<and> buffer_wf b' \<and>
           buffer_content b' =
             (if buffer_content b \<noteq> [] \<and> last (buffer_content b) \<noteq> CHR ''/''
              then buffer_content b @ ''/'' else buffer_content b)"
proof (cases "buffer_content b = []")
  case True
  then show ?thesis
    using assms by (simp add: buffer_append_slash_def buffer_string_length_content)
next
  case False
  let ?c = "buffer_content b"
  have u: "0 < b_used b"
    using False length_buffer_content [OF assms(1)] by (cases "b_used b") auto
  then obtain rest where r: "b_ptr b = map Some ?c @ Some NUL # rest"
    using assms(1) buffer_wfE by blast
  have "peek (b_ptr b) (length ?c - 1) = Some (last ?c)"
    using False r by (simp add: peek_def nth_append last_conv_nth)
  then show ?thesis
    using False assms buffer_append_string_len_ok [of b "''/''"]
    by (auto simp: buffer_append_slash_def buffer_string_length_content dest: buffer_content_abs)
qed

lemma buffer_set_length_ok:
  assumes "length (b_ptr b) = b_size b" "b_size b \<le> PTRDIFF_MAX" "n + 65 \<le> PTRDIFF_MAX"
  shows "\<exists>b' ext. buffer_string_set_length b n = Some b' \<and> b_used b' = n + 1
           \<and> b_ptr b' = (b_ptr b @ ext)[n := Some NUL] \<and> b_size b' = length (b_ptr b')
           \<and> n < b_size b' \<and> b_size b' \<le> PTRDIFF_MAX"
proof -
  have n: "sz_add n 1 = n + 1" "0 < n + 1" "n + 1 + 64 \<le> PTRDIFF_MAX"
    using assms(3) PTRDIFF_SIZE [of "n + 1"] by auto
  obtain b1 ext where b1: "buffer_realloc b (n + 1) = Some b1" "b_ptr b1 = b_ptr b @ ext"
      "b_used b1 = b_used b" "b_size b1 = length (b_ptr b1)" "n + 1 \<le> b_size b1"
      "b_size b1 \<le> PTRDIFF_MAX"
    using buffer_realloc_ok [OF assms(1,2) n(2,3)] by blast
  have "poke (b_ptr b1) n NUL = Some ((b_ptr b @ ext)[n := Some NUL])"
    using b1(2,4,5) by (simp add: poke_def)
  then have "buffer_string_set_length b n =
      Some (b1\<lparr>b_used := n + 1, b_ptr := (b_ptr b @ ext)[n := Some NUL]\<rparr>)"
    using b1(1) n(1) by (simp add: buffer_string_set_length_def)
  then show ?thesis using b1 by fastforce
qed

text \<open>Cutting a buffer: the bytes kept are unchanged.\<close>

lemma buffer_truncate_ok:
  assumes "buffer_wf b" "0 < b_used b" "n \<le> length (buffer_content b)" "fits n"
  shows "\<exists>b'. buffer_string_set_length b n = Some b' \<and> buffer_wf b'
           \<and> buffer_abs b' = Some (take n (buffer_content b)) \<and> b_used b' = n + 1"
proof -
  obtain rest where r: "b_ptr b = map Some (buffer_content b) @ Some NUL # rest"
    using assms buffer_wfE by blast
  obtain b' ext where b': "buffer_string_set_length b n = Some b'" "b_used b' = n + 1"
      "b_ptr b' = (b_ptr b @ ext)[n := Some NUL]" "b_size b' = length (b_ptr b')"
      "b_size b' \<le> PTRDIFF_MAX"
    using buffer_set_length_ok [of b n] buffer_wfD [OF assms(1)] assms(4) by (auto simp: fits_def)
  have len: "n < length (b_ptr b @ ext)" using r assms(3) by simp
  have "b_ptr b' = take n (b_ptr b @ ext) @ Some NUL # drop (Suc n) (b_ptr b @ ext)"
    using b'(3) len by (simp add: upd_conv_take_nth_drop)
  moreover have "take n (b_ptr b @ ext) = map Some (take n (buffer_content b))"
    using r assms(3) by (simp add: take_map)
  ultimately have p: "b_ptr b' = map Some (take n (buffer_content b)) @ Some NUL # drop (Suc n) (b_ptr b @ ext)"
    by simp
  have u: "b_used b' = Suc (length (take n (buffer_content b)))"
    using b'(2) assms(3) by simp
  show ?thesis
    using buffer_wfI [OF p u b'(4,5)] b'(1,2) by blast
qed

section \<open>Replacement of a part of the contents\<close>

lemma read_at_mid:
  "length a = i \<Longrightarrow> n = length s \<Longrightarrow> read_at (a @ map Some s @ t) i n = Some s"
  by (auto simp: read_at_def)

lemma write_at_mid:
  "length x = i \<Longrightarrow> length y = length s \<Longrightarrow> write_at (x @ y @ z) i s = Some (x @ map Some s @ z)"
  by (auto simp: write_at_def)

text \<open>
  In all three cases (longer, equal, shorter replacement) the buffer ends up holding the
  contents with \<open>len\<close> bytes at \<open>offset\<close> exchanged for the replacement.
\<close>

theorem buffer_substr_replace_ok:
  assumes wf: "buffer_wf b" "0 < b_used b" "buffer_wf r"
    and c: "buffer_content b = p @ m @ q" and off: "offset = length p" "len = length m"
    and fit: "fits (length (p @ buffer_content r @ q))"
  shows "\<exists>b'. buffer_substr_replace b offset len r = Some b' \<and> buffer_wf b'
           \<and> buffer_abs b' = Some (p @ buffer_content r @ q)"
proof -
  let ?r = "buffer_content r"
  obtain rest where ptr: "b_ptr b = map Some (p @ m @ q) @ Some NUL # rest"
      and used: "b_used b = Suc (length (p @ m @ q))"
    using wf(1,2) c by (metis buffer_wfE)
  have lt: "length (p @ m @ q) < SIZE_MOD" "length (p @ ?r @ q) < SIZE_MOD"
    using buffer_wfD [OF wf(1)] used fit by (auto intro: PTRDIFF_SIZE simp: fits_def)
  have blen: "buffer_string_length b = length (p @ m @ q)"
    using used by (simp add: buffer_string_length_def)
  have rlen: "buffer_string_length r = length ?r"
    using wf(3) by (simp add: buffer_string_length_content)
  have tail: "sz_sub (sz_sub (length p + (length m + length q)) (length p)) (length m) = length q"
    using lt by simp
  have newlen: "sz_add (sz_sub (length p + (length m + length q)) (length m)) (length ?r)
      = length p + (length ?r + length q)"
    using lt by simp
  have rd: "read_at (b_ptr r) 0 (length ?r) = Some ?r"
    using read_at_content [OF wf(3)] rlen by simp
  note def = buffer_substr_replace_def blen rlen Let_def tail newlen rd off
  consider (grow) "length m < length ?r" | (same) "length m = length ?r"
    | (shrink) "length ?r < length m" by linarith
  then show ?thesis
  proof cases
    case grow
    obtain b1 ext where b1: "buffer_string_set_length b (length (p @ ?r @ q)) = Some b1"
        "b_used b1 = length (p @ ?r @ q) + 1"
        "b_ptr b1 = (b_ptr b @ ext)[length (p @ ?r @ q) := Some NUL]"
        "b_size b1 = length (b_ptr b1)" "length (p @ ?r @ q) < b_size b1" "b_size b1 \<le> PTRDIFF_MAX"
      using buffer_set_length_ok [of b "length (p @ ?r @ q)"] buffer_wfD [OF wf(1)] fit
      unfolding fits_def by blast
    define n where "n = length (p @ ?r @ q)"
    have cells: "b_ptr b1 = map Some p @ map Some m @ map Some q @ drop (length (p @ m @ q)) (b_ptr b1)"
    proof -
      have "take (length (p @ m @ q)) (b_ptr b1) = take (length (p @ m @ q)) (b_ptr b @ ext)"
        using b1(3) grow by simp
      also have "\<dots> = map Some p @ map Some m @ map Some q" by (simp add: ptr)
      finally show ?thesis by (metis append.assoc append_take_drop_id)
    qed
    define rest1 where "rest1 = drop (length (p @ m @ q)) (b_ptr b1)"
    have len1: "length (p @ m @ q) + length rest1 = length (b_ptr b1)"
      using b1(4,5) grow by (simp add: rest1_def)
    define k where "k = length ?r - length m"
    have k: "k + length q \<le> length (map Some q @ rest1)" "length ?r = length m + k"
      using b1(4,5) len1 grow by (auto simp: k_def)
    have nulcell: "drop (length p + length ?r + length q) (b_ptr b1) =
        Some NUL # drop (Suc n) (b_ptr b1)"
      using b1(3,4,5) by (simp add: n_def Cons_nth_drop_Suc [symmetric] add.assoc)
    have t: "read_at (b_ptr b1) (offset + len) (length q) = Some q"
      using read_at_mid [of "map Some p @ map Some m" "offset + len" "length q" q rest1]
        cells off by (simp add: rest1_def)
    have w: "write_at (b_ptr b1) (offset + length ?r) q =
        Some (take (offset + length ?r) (b_ptr b1) @ map Some q @ Some NUL # drop (Suc n) (b_ptr b1))"
      using b1(4,5) nulcell off by (simp add: write_at_def add.assoc)
    have pre: "take (offset + length ?r) (b_ptr b1) = map Some p @ take (length ?r) (drop (length p) (b_ptr b1))"
      using cells off by (metis append_eq_conv_conj length_map take_add)
    have wr: "write_at (take (offset + length ?r) (b_ptr b1) @ map Some q @ Some NUL # drop (Suc n) (b_ptr b1)) offset ?r
        = Some (map Some p @ map Some ?r @ map Some q @ Some NUL # drop (Suc n) (b_ptr b1))"
      unfolding pre using off b1(4,5)
      by (simp add: write_at_mid)
    have "buffer_substr_replace b offset len r =
        Some (b1\<lparr>b_ptr := map Some p @ map Some ?r @ map Some q @ Some NUL # drop (Suc n) (b_ptr b1)\<rparr>)"
      using grow b1(1) t w wr by (simp add: def)
    moreover have "buffer_wf (b1\<lparr>b_ptr := map Some p @ map Some ?r @ map Some q @ Some NUL # drop (Suc n) (b_ptr b1)\<rparr>)"
        "buffer_abs (b1\<lparr>b_ptr := map Some p @ map Some ?r @ map Some q @ Some NUL # drop (Suc n) (b_ptr b1)\<rparr>) = Some (p @ ?r @ q)"
      by (rule buffer_wfI [where rest = "drop (Suc n) (b_ptr b1)" and s = "p @ ?r @ q"],
          use b1(2,4,5,6) in \<open>simp_all add: n_def\<close>)+
    ultimately show ?thesis by blast
  next
    case same
    have "write_at (b_ptr b) offset ?r = Some (map Some p @ map Some ?r @ map Some q @ Some NUL # rest)"
      using write_at_mid [of "map Some p" offset "map Some m" ?r] off same by (simp add: ptr)
    then have "buffer_substr_replace b offset len r =
        Some (b\<lparr>b_ptr := map Some p @ map Some ?r @ map Some q @ Some NUL # rest\<rparr>)"
      using same by (simp add: def)
    moreover have "buffer_wf (b\<lparr>b_ptr := map Some p @ map Some ?r @ map Some q @ Some NUL # rest\<rparr>)"
        "buffer_abs (b\<lparr>b_ptr := map Some p @ map Some ?r @ map Some q @ Some NUL # rest\<rparr>) = Some (p @ ?r @ q)"
      by (rule buffer_wfI [where rest = rest and s = "p @ ?r @ q"],
          use used ptr same buffer_wfD [OF wf(1)] in \<open>simp_all\<close>)+
    ultimately show ?thesis by blast
  next
    case shrink
    define m1 m2 where "m1 = take (length ?r) m" and "m2 = drop (length ?r) m"
    have m: "m = m1 @ m2" "length m1 = length ?r"
      using shrink by (simp_all add: m1_def m2_def)
    define cells1 where "cells1 = map Some p @ map Some ?r @ map Some m2 @ map Some q @ Some NUL # rest"
    have w1: "write_at (b_ptr b) offset ?r = Some cells1"
      using write_at_mid [of "map Some p" offset "map Some m1" ?r] off m by (simp add: ptr cells1_def)
    have t: "read_at cells1 (offset + len) (length q) = Some q"
      using read_at_mid [of "map Some p @ map Some ?r @ map Some m2" "offset + len" "length q" q]
        off m by (simp add: cells1_def)
    define rest2 where "rest2 = drop (length q) (map Some m2 @ map Some q @ Some NUL # rest)"
    have w2: "write_at cells1 (offset + length ?r) q = Some (map Some p @ map Some ?r @ map Some q @ rest2)"
      using off by (simp add: write_at_def cells1_def rest2_def)
    define b2 where "b2 = b\<lparr>b_ptr := map Some p @ map Some ?r @ map Some q @ rest2\<rparr>"
    have l2: "length (b_ptr b2) = b_size b2" "b_size b2 \<le> PTRDIFF_MAX"
      using buffer_wfD [OF wf(1)] m by (auto simp: b2_def rest2_def ptr)
    obtain b3 ext where b3: "buffer_string_set_length b2 (length (p @ ?r @ q)) = Some b3"
        "b_used b3 = length (p @ ?r @ q) + 1"
        "b_ptr b3 = (b_ptr b2 @ ext)[length (p @ ?r @ q) := Some NUL]"
        "b_size b3 = length (b_ptr b3)" "length (p @ ?r @ q) < b_size b3" "b_size b3 \<le> PTRDIFF_MAX"
      using buffer_set_length_ok [OF l2, of "length (p @ ?r @ q)"] fit unfolding fits_def by blast
    have "buffer_substr_replace b offset len r = Some b3"
      using shrink w1 t w2 b3(1) by (simp add: def b2_def)
    moreover obtain x rest3 where rest3: "rest2 @ ext = x # rest3"
      using b3(3,4,5) by (cases "rest2 @ ext") (auto simp: b2_def)
    moreover have p3: "b_ptr b3 = map Some (p @ ?r @ q) @ Some NUL # rest3"
    proof -
      have "b_ptr b2 @ ext = map Some (p @ ?r @ q) @ x # rest3"
        using rest3 by (simp add: b2_def)
      then show ?thesis using b3(3) by (simp add: list_update_append)
    qed
    ultimately show ?thesis
      using buffer_wfI [OF p3 _ b3(4,6)] b3(2) by auto
  qed
qed

section \<open>The interface the rest of the server uses\<close>

text \<open>
  Reset, assignment and extension of a text store, seen through \<open>view\<close>.  Everything that
  assembles a header line, a chunk-size line or an error page is a sequence of these.
\<close>

fun append_all :: "('b \<Rightarrow> string \<Rightarrow> 'b option) \<Rightarrow> 'b \<Rightarrow> string list \<Rightarrow> 'b option" where
  "append_all ext b [] = Some b"
| "append_all ext b (s # ss) = do { b \<leftarrow> ext b s; append_all ext b ss }"

locale text_store =
  fixes inv :: "'b \<Rightarrow> bool"
    and view :: "'b \<Rightarrow> string option"
    and clear :: "'b \<Rightarrow> 'b"
    and assign :: "'b \<Rightarrow> string \<Rightarrow> 'b option"
    and ext :: "'b \<Rightarrow> string \<Rightarrow> 'b option"
  assumes clear_inv: "inv b \<Longrightarrow> inv (clear b)"
    and clear_view: "view (clear b) = None"
    and assign_ok: "inv b \<Longrightarrow> fits (length s) \<Longrightarrow>
          \<exists>b'. assign b s = Some b' \<and> inv b' \<and> view b' = Some s"
    and ext_ok: "inv b \<Longrightarrow> fits (length (abs_bytes (view b)) + length s) \<Longrightarrow>
          \<exists>b'. ext b s = Some b' \<and> inv b' \<and> view b' = Some (abs_bytes (view b) @ s)"
begin

lemma append_all_ok:
  assumes "inv b" "fits (length (abs_bytes (view b)) + length (concat ss))" "ss \<noteq> []"
  shows "\<exists>b'. append_all ext b ss = Some b' \<and> inv b'
           \<and> view b' = Some (abs_bytes (view b) @ concat ss)"
  using assms
proof (induction ss arbitrary: b)
  case (Cons s ss)
  have "fits (length (abs_bytes (view b)) + length s)"
    using Cons.prems(2) by (rule fits_mono) simp
  then obtain b1 where b1: "ext b s = Some b1" "inv b1" "view b1 = Some (abs_bytes (view b) @ s)"
    using ext_ok [OF Cons.prems(1)] by blast
  show ?case
  proof (cases "ss = []")
    case True
    with b1 show ?thesis by simp
  next
    case False
    have "fits (length (abs_bytes (view b1)) + length (concat ss))"
      using Cons.prems(2) b1(3) by (simp add: add.assoc)
    from Cons.IH [OF b1(2) this False] b1 show ?thesis by auto
  qed
qed simp

lemma assign_then_append_all_ok:
  assumes "inv b" "fits (length s + length (concat ss))"
  shows "\<exists>b'. Option.bind (assign b s) (\<lambda>b. append_all ext b ss) = Some b' \<and> inv b'
           \<and> view b' = Some (s @ concat ss)"
proof -
  have "fits (length s)" using assms(2) by (rule fits_mono) simp
  then obtain b1 where b1: "assign b s = Some b1" "inv b1" "view b1 = Some s"
    using assign_ok [OF assms(1)] by blast
  show ?thesis
  proof (cases "ss = []")
    case True
    with b1 show ?thesis by simp
  next
    case False
    have "fits (length (abs_bytes (view b1)) + length (concat ss))"
      using assms(2) b1(3) by simp
    from append_all_ok [OF b1(2) this False] b1 show ?thesis by auto
  qed
qed

end

interpretation buf: text_store buffer_wf buffer_abs buffer_reset
  buffer_copy_string_len buffer_append_string_len
proof unfold_locales
  show "buffer_wf b \<Longrightarrow> buffer_wf (buffer_reset b)" for b by (rule buffer_reset_wf)
  show "buffer_abs (buffer_reset b) = None" for b by simp
  show "\<exists>b'. buffer_copy_string_len b s = Some b' \<and> buffer_wf b' \<and> buffer_abs b' = Some s"
    if "buffer_wf b" "fits (length s)" for b s
    using that by (rule buffer_copy_string_len_ok)
  show "\<exists>b'. buffer_append_string_len b s = Some b' \<and> buffer_wf b'
          \<and> buffer_abs b' = Some (abs_bytes (buffer_abs b) @ s)"
    if "buffer_wf b" "fits (length (abs_bytes (buffer_abs b)) + length s)" for b s
    using buffer_append_string_len_ok [of b s] that by (simp add: abs_bytes_content)
qed

section \<open>Properties\<close>

text \<open>A text in a block of exactly the right size.\<close>

definition buffer_of :: "string \<Rightarrow> buffer" where
  "buffer_of s = \<lparr>b_ptr = map Some s @ [Some NUL], b_used = Suc (length s), b_size = Suc (length s)\<rparr>"

lemma buffer_init_content [simp]: "buffer_content buffer_init = []" "b_used buffer_init = 0"
  by (simp_all add: buffer_init_def buffer_content_def)

lemma buffer_of_wf [simp]:
  "length s < 2 ^ 62 \<Longrightarrow> buffer_wf (buffer_of s)"
  "buffer_content (buffer_of s) = s" "b_used (buffer_of s) = Suc (length s)"
proof -
  show c: "buffer_content (buffer_of s) = s" "b_used (buffer_of s) = Suc (length s)"
    by (simp_all add: buffer_of_def buffer_content_def comp_def)
  show "length s < 2 ^ 62 \<Longrightarrow> buffer_wf (buffer_of s)"
    using buffer_wfI(1) [of "buffer_of s" s "[]"] by (simp add: buffer_of_def PTRDIFF_MAX_def)
qed

text \<open>
  C28. Assigning a text to a well-formed buffer and appending any sequence of texts to it
  succeeds as long as the result fits the address space; the buffer stays well formed (the
  block has the recorded size, the text and its terminator lie inside it) and holds exactly
  the concatenation.  Reallocation and the reuse of the old block do not show.
\<close>

theorem buffer_copy_append_refines:
  assumes "buffer_wf b" "fits (length s + length (concat ss))"
  shows "\<exists>b'. Option.bind (buffer_copy_string_len b s)
                (\<lambda>b. append_all buffer_append_string_len b ss) = Some b'
           \<and> buffer_wf b' \<and> buffer_abs b' = Some (s @ concat ss)"
  using assms by (rule buf.assign_then_append_all_ok)

theorem buffer_copy_append_refines_witness:
  "\<exists>b'. Option.bind (buffer_copy_string_len buffer_init ''GET'')
          (\<lambda>b. append_all buffer_append_string_len b ['' '', [], ''/'']) = Some b'
     \<and> buffer_wf b' \<and> buffer_abs b' = Some ''GET /''"
  using buffer_copy_append_refines [of buffer_init "''GET''" "['' '', [], ''/'']"]
  by (simp add: fits_def PTRDIFF_MAX_def)

text \<open>
  \<open>buffer_substr_replace\<close> cuts the given range out of the text and puts the other
  text in its place, whether the replacement is shorter, longer or of the same length; the
  bytes that are moved up or down are not clobbered on the way.
\<close>

theorem buffer_substr_replace_correct:
  assumes "buffer_wf b" "0 < b_used b" "buffer_wf r" "offset + len \<le> length (buffer_content b)"
    "fits (length (buffer_content b) + length (buffer_content r))"
  shows "\<exists>b'. buffer_substr_replace b offset len r = Some b' \<and> buffer_wf b'
           \<and> buffer_abs b' = Some (take offset (buffer_content b) @ buffer_content r
                                   @ drop (offset + len) (buffer_content b))"
proof (rule buffer_substr_replace_ok [OF assms(1-3)])
  show "buffer_content b = take offset (buffer_content b)
      @ take len (drop offset (buffer_content b)) @ drop (offset + len) (buffer_content b)"
    by (metis append_take_drop_id drop_drop add.commute)
  show "fits (length (take offset (buffer_content b) @ buffer_content r @ drop (offset + len) (buffer_content b)))"
    using assms(5) by (rule fits_mono) simp
qed (use assms(4) in simp_all)

theorem buffer_substr_replace_correct_witness:
  "\<exists>b'. buffer_substr_replace (buffer_of ''/a/%s/b'') 3 2 (buffer_of ''long'') = Some b' \<and> buffer_wf b'
     \<and> buffer_abs b' = Some ''/a/long/b''"
  using buffer_substr_replace_correct [of "buffer_of ''/a/%s/b''" "buffer_of ''long''" 3 2]
  by (simp add: fits_def PTRDIFF_MAX_def)

end
