(* ===== verification/Format.thy ===== *)
theory Format
  imports Buffer Chars
begin

text \<open>
  Numbers and hexadecimal runs written into buffers: \<open>buffer_append_uint_hex\<close>,
  \<open>utostr\<close>, \<open>itostr\<close>, \<open>buffer_append_int\<close>, \<open>li_itostrn\<close>, \<open>li_tohex\<close> and
  \<open>buffer_copy_string_hex\<close> of \<open>src/src/buffer.c\<close>.
\<close>

section \<open>Reserving space and filling it afterwards\<close>

text \<open>
  \<open>buffer_append_uint_hex\<close> and the encoders reserve and commit \<open>n\<close> bytes first and write
  them afterwards; between the two steps the bytes are indeterminate.
\<close>

definition buffer_reserve :: "buffer \<Rightarrow> nat \<Rightarrow> (buffer \<times> nat) option" where
  "buffer_reserve b n = do {
     (b, pos) \<leftarrow> buffer_string_prepare_append b n;
     b \<leftarrow> buffer_commit b n;
     Some (b, pos)
   }"

lemma buffer_reserve_ok:
  assumes "buffer_wf b" "fits (length (buffer_content b) + n)" "0 < n"
  shows "\<exists>b' gap rest. buffer_reserve b n = Some (b', length (buffer_content b))
           \<and> b_ptr b' = map Some (buffer_content b) @ gap @ Some NUL # rest
           \<and> length gap = n \<and> gap ! 0 = Some NUL
           \<and> b_used b' = Suc (length (buffer_content b) + n)
           \<and> b_size b' = length (b_ptr b') \<and> b_size b' \<le> PTRDIFF_MAX"
proof -
  let ?c = "buffer_content b"
  obtain b1 rest where b1: "buffer_string_prepare_append b n = Some (b1, length ?c)"
      "b_ptr b1 = map Some ?c @ Some NUL # rest" "b_used b1 = Suc (length ?c)"
      "b_size b1 = length (b_ptr b1)" "b_size b1 \<le> PTRDIFF_MAX" "length ?c + n < b_size b1"
    using buffer_prepare_append_ok [OF assms(1,2)] by blast
  have lt: "Suc (length ?c) + n < SIZE_MOD"
    using b1(5,6) by (intro PTRDIFF_SIZE) linarith
  define gap where "gap = take n (Some NUL # rest)"
  define tl' where "tl' = drop (Suc n) (Some NUL # rest)"
  have n: "n < length (Some NUL # rest)" using b1(2,4,6) by simp
  have "(b_ptr b1)[length ?c + n := Some NUL] = map Some ?c @ (Some NUL # rest)[n := Some NUL]"
    using b1(2) by (simp add: list_update_append)
  also have "(Some NUL # rest)[n := Some NUL] = gap @ Some NUL # tl'"
    using n unfolding gap_def tl'_def by (rule upd_conv_take_nth_drop)
  finally have upd: "(b_ptr b1)[length ?c + n := Some NUL] = map Some ?c @ gap @ Some NUL # tl'" .
  have "buffer_commit b1 n = Some (b1\<lparr>b_used := Suc (length ?c) + n,
          b_ptr := map Some ?c @ gap @ Some NUL # tl'\<rparr>)"
    using b1(2,3,4,6) lt assms(3) upd by (auto simp: buffer_commit_def poke_def)
  then have "buffer_reserve b n = Some (b1\<lparr>b_used := Suc (length ?c) + n,
          b_ptr := map Some ?c @ gap @ Some NUL # tl'\<rparr>, length ?c)"
    using b1(1) by (simp add: buffer_reserve_def)
  moreover have "length gap = n" "gap ! 0 = Some NUL"
    using n assms(3) by (simp_all add: gap_def)
  moreover have "b_size b1 = length (map Some ?c @ gap @ Some NUL # tl')"
    using b1(4) upd by (metis length_list_update)
  ultimately show ?thesis using b1(5) by fastforce
qed

lemma filled_gap:
  assumes "b_ptr b = map Some c @ gap @ Some NUL # rest" "length gap = length s"
    "b_used b = Suc (length c + length gap)" "b_size b = length (b_ptr b)" "b_size b \<le> PTRDIFF_MAX"
  defines "b' \<equiv> b\<lparr>b_ptr := map Some c @ map Some s @ Some NUL # rest\<rparr>"
  shows "buffer_wf b'" "buffer_abs b' = Some (c @ s)"
  unfolding b'_def
  by (rule buffer_wfI [where s = "c @ s" and rest = rest], use assms in \<open>simp_all\<close>)+

section \<open>Hexadecimal numbers\<close>

text \<open>The first loop counts the bits of \<open>value\<close>, a byte at a time and at least one byte.\<close>

function hex_shift :: "nat \<Rightarrow> nat" where
  "hex_shift copy = (if copy div 256 \<noteq> 0 then 8 + hex_shift (copy div 256) else 8)"
  by pat_completeness auto
termination
  by (relation "measure id") (auto simp: div_eq_0_iff)

declare hex_shift.simps [simp del]

text \<open>The second loop writes one digit per nibble, from the top (\<open>n\<close> nibbles are left).\<close>

fun hex_fill :: "cells \<Rightarrow> nat \<Rightarrow> nat \<Rightarrow> nat \<Rightarrow> cells option" where
  "hex_fill m pos v 0 = Some m"
| "hex_fill m pos v (Suc n) = do {
     m \<leftarrow> poke m pos (hex_chars ! ((v div 2 ^ (4 * n)) mod 16));
     hex_fill m (Suc pos) v n
   }"

definition buffer_append_uint_hex :: "buffer \<Rightarrow> nat \<Rightarrow> buffer option" where
  "buffer_append_uint_hex b v = do {
     let shift = hex_shift v;
     (b, pos) \<leftarrow> buffer_reserve b (shift div 4);
     m \<leftarrow> hex_fill (b_ptr b) pos v (shift div 4);
     Some (b\<lparr>b_ptr := m\<rparr>)
   }"

text \<open>The digits that get written, and their value.\<close>

fun hex_digits :: "nat \<Rightarrow> nat \<Rightarrow> string" where
  "hex_digits v 0 = []"
| "hex_digits v (Suc n) = int2hex (v div 2 ^ (4 * n)) # hex_digits v n"

definition hex_string :: "nat \<Rightarrow> string" where
  "hex_string v = hex_digits v (hex_shift v div 4)"

definition hex_value :: "string \<Rightarrow> nat" where
  "hex_value s = foldl (\<lambda>a c. 16 * a + hex2int c) 0 s"

lemma length_hex_digits [simp]: "length (hex_digits v n) = n"
  by (induction n) auto

lemma hex_fill_cells:
  "length gap = n \<Longrightarrow> length c = pos \<Longrightarrow>
   hex_fill (c @ gap @ rest) pos v n = Some (c @ map Some (hex_digits v n) @ rest)"
proof (induction n arbitrary: c gap pos)
  case (Suc n)
  then obtain x gap' where gap: "gap = x # gap'" "length gap' = n" by (cases gap) auto
  let ?d = "Some (hex_chars ! ((v div 2 ^ (4 * n)) mod 16))"
  have "hex_fill (c @ gap @ rest) pos v (Suc n) = hex_fill ((c @ [?d]) @ gap' @ rest) (Suc pos) v n"
    using Suc.prems gap by (simp add: poke_def list_update_append)
  also have "\<dots> = Some ((c @ [?d]) @ map Some (hex_digits v n) @ rest)"
    using Suc.prems gap by (intro Suc.IH) auto
  finally show ?case by (simp add: int2hex_def)
qed simp

lemma hex_value_Cons:
  "foldl (\<lambda>a c. 16 * a + hex2int c) k s = 16 ^ length s * k + hex_value s"
proof (induction s arbitrary: k)
  case (Cons c s)
  show ?case
    using Cons [of "16 * k + hex2int c"] Cons [of "hex2int c"]
    by (simp add: hex_value_def algebra_simps)
qed (simp add: hex_value_def)

lemma hex_value_digits: "hex_value (hex_digits v n) = v mod 16 ^ n"
proof (induction n)
  case (Suc n)
  have "hex_value (hex_digits v (Suc n)) = 16 ^ n * (v div 16 ^ n mod 16) + v mod 16 ^ n"
    using hex_value_Cons [of "hex2int (int2hex (v div 2 ^ (4 * n)))" "hex_digits v n"] Suc
    by (simp add: hex_value_def hex2int_int2hex power_mult)
  also have "\<dots> = v mod 16 ^ Suc n"
    using mod_mult2_eq [of v "16 ^ n" 16] by (simp add: mult.commute)
  finally show ?case .
qed (simp add: hex_value_def)

lemma hex_shift_bound: "8 \<le> hex_shift v \<and> hex_shift v mod 8 = 0 \<and> v < 2 ^ hex_shift v"
proof (induction v rule: hex_shift.induct)
  case (1 v)
  show ?case
  proof (cases "v div 256 = 0")
    case True
    then have "v < 256" by (simp add: div_eq_0_iff)
    then show ?thesis using True by (simp add: hex_shift.simps [of v])
  next
    case False
    with 1 have ih: "8 \<le> hex_shift (v div 256)" "hex_shift (v div 256) mod 8 = 0"
      "v div 256 < 2 ^ hex_shift (v div 256)" by auto
    have "v = 256 * (v div 256) + v mod 256" by simp
    also have "\<dots> < 256 * (v div 256 + 1)" by simp
    also have "\<dots> \<le> 256 * 2 ^ hex_shift (v div 256)"
      using ih(3) by (intro mult_left_mono) auto
    also have "\<dots> = 2 ^ hex_shift v"
      using False by (simp add: hex_shift.simps [of v] power_add)
    finally show ?thesis using ih False by (simp add: hex_shift.simps [of v])
  qed
qed

lemma hex_shift_small: "v < 2 ^ (8 * k) \<Longrightarrow> 0 < k \<Longrightarrow> hex_shift v \<le> 8 * k"
proof (induction v arbitrary: k rule: hex_shift.induct)
  case (1 v)
  show ?case
  proof (cases "v div 256 = 0")
    case True
    then show ?thesis using "1.prems" by (simp add: hex_shift.simps [of v])
  next
    case False
    obtain j where k: "k = Suc j" using "1.prems"(2) by (cases k) auto
    have "v div 256 < 2 ^ (8 * j)"
      using "1.prems"(1) by (simp add: k power_add less_mult_imp_div_less mult.commute)
    moreover have "0 < j"
    proof (rule ccontr)
      assume "\<not> 0 < j"
      with "1.prems"(1) k have "v < 256" by simp
      with False show False by simp
    qed
    ultimately have "hex_shift (v div 256) \<le> 8 * j" using "1.IH" [OF False] by blast
    then show ?thesis using False k by (simp add: hex_shift.simps [of v])
  qed
qed

text \<open>Every hexadecimal number the code prints reads back as the number.\<close>

lemma hex_value_string: "hex_value (hex_string v) = v"
proof -
  have s: "hex_shift v = 4 * (hex_shift v div 4)"
    using hex_shift_bound [of v] by presburger
  have "v < 2 ^ (4 * (hex_shift v div 4))" using hex_shift_bound [of v] s by simp
  then show ?thesis by (simp add: hex_string_def hex_value_digits power_mult)
qed

lemma hex_string_digits: "c \<in> set (hex_string v) \<Longrightarrow> hex2int c < 16"
proof -
  have "c \<in> set (hex_digits w n) \<Longrightarrow> hex2int c < 16" for w n
    by (induction n) (auto simp: hex2int_int2hex)
  then show "c \<in> set (hex_string v) \<Longrightarrow> hex2int c < 16" by (simp add: hex_string_def)
qed

lemma hex_string_length:
  "v < 2 ^ 64 \<Longrightarrow> 2 \<le> length (hex_string v) \<and> length (hex_string v) \<le> 16"
proof -
  assume "v < 2 ^ 64"
  then have "hex_shift v \<le> 64" "8 \<le> hex_shift v"
    using hex_shift_small [of v 8] hex_shift_bound [of v] by auto
  then show ?thesis unfolding hex_string_def length_hex_digits by linarith
qed

lemma buffer_append_uint_hex_ok:
  assumes "buffer_wf b" "v < 2 ^ 64" "fits (length (buffer_content b) + 16)"
  shows "\<exists>b'. buffer_append_uint_hex b v = Some b' \<and> buffer_wf b'
           \<and> buffer_abs b' = Some (buffer_content b @ hex_string v)"
proof -
  let ?n = "hex_shift v div 4"
  have n: "0 < ?n" "?n \<le> 16"
    using hex_string_length [OF assms(2)] by (auto simp: hex_string_def)
  have "fits (length (buffer_content b) + ?n)" using assms(3) by (rule fits_mono) (use n in simp)
  then obtain b1 gap rest where b1: "buffer_reserve b ?n = Some (b1, length (buffer_content b))"
      "b_ptr b1 = map Some (buffer_content b) @ gap @ Some NUL # rest" "length gap = ?n"
      "b_used b1 = Suc (length (buffer_content b) + ?n)" "b_size b1 = length (b_ptr b1)"
      "b_size b1 \<le> PTRDIFF_MAX"
    using buffer_reserve_ok [OF assms(1) _ n(1)] by blast
  have "hex_fill (b_ptr b1) (length (buffer_content b)) v ?n
      = Some (map Some (buffer_content b) @ map Some (hex_digits v ?n) @ Some NUL # rest)"
    using hex_fill_cells [OF b1(3), of "map Some (buffer_content b)"] b1(2) by simp
  then have "buffer_append_uint_hex b v = Some (b1\<lparr>b_ptr := map Some (buffer_content b)
      @ map Some (hex_digits v ?n) @ Some NUL # rest\<rparr>)"
    using b1(1) by (simp add: buffer_append_uint_hex_def)
  moreover note filled_gap [OF b1(2), of "hex_digits v ?n"]
  ultimately show ?thesis
    using b1(3-6) by (simp add: hex_string_def)
qed

section \<open>Decimal numbers\<close>

definition LI_ITOSTRING_LENGTH :: nat where
  "LI_ITOSTRING_LENGTH = 2 + (8 * 8 * 31 + 99) div 100"

text \<open>
  \<open>utostr\<close> prepends digits in front of \<open>buf_end\<close>; \<open>cur\<close> is what stands between the
  current position and \<open>buf_end\<close>.
\<close>

function utostr :: "string \<Rightarrow> nat \<Rightarrow> string" where
  "utostr cur v =
     (let cur' = char_of (48 + v mod 10) # cur
      in if v div 10 \<noteq> 0 then utostr cur' (v div 10) else cur')"
  by pat_completeness auto
termination
  by (relation "measure snd") auto

declare utostr.simps [simp del]

text \<open>The absolute value is taken through the complement, which INTMAX_MIN needs.\<close>

definition itostr :: "string \<Rightarrow> int \<Rightarrow> string" where
  "itostr cur val =
     (let uval = (if 0 \<le> val then nat val else sz_add (nat (- val - 1)) 1);
          cur' = utostr cur uval
      in if val < 0 then CHR ''-'' # cur' else cur')"

definition buffer_append_int :: "buffer \<Rightarrow> int \<Rightarrow> buffer option" where
  "buffer_append_int b val = do {
     let str = itostr [] val;
     force_assert (0 < length str \<and> length str \<le> LI_ITOSTRING_LENGTH);
     buffer_append_string_len b str
   }"

definition buffer_copy_int :: "buffer \<Rightarrow> int \<Rightarrow> buffer option" where
  "buffer_copy_int b val = buffer_append_int (b\<lparr>b_used := 0\<rparr>) val"

text \<open>The bytes stored in the caller's array, the terminator included.\<close>

definition li_itostrn :: "nat \<Rightarrow> int \<Rightarrow> string option" where
  "li_itostrn buf_len val = do {
     let str = itostr [NUL] val;
     force_assert (0 < length str \<and> length str \<le> LI_ITOSTRING_LENGTH);
     force_assert (length str \<le> buf_len);
     Some str
   }"

definition li_utostrn :: "nat \<Rightarrow> nat \<Rightarrow> string option" where
  "li_utostrn buf_len val = do {
     let str = utostr [NUL] val;
     force_assert (0 < length str \<and> length str \<le> LI_ITOSTRING_LENGTH);
     force_assert (length str \<le> buf_len);
     Some str
   }"

definition dec_value :: "string \<Rightarrow> nat" where
  "dec_value s = foldl (\<lambda>a c. 10 * a + (ucode c - 48)) 0 s"

definition int_value :: "string \<Rightarrow> int" where
  "int_value s = (case s of [] \<Rightarrow> 0
     | c # t \<Rightarrow> if c = CHR ''-'' then - int (dec_value t) else int (dec_value s))"

lemma utostr_cur: "utostr cur v = utostr [] v @ cur"
proof (induction v arbitrary: cur rule: less_induct)
  case (less v)
  show ?case
  proof (cases "v div 10 = 0")
    case True
    then show ?thesis by (simp add: utostr.simps [of cur v] utostr.simps [of "[]" v] Let_def)
  next
    case False
    then have lt: "v div 10 < v" by simp
    let ?d = "char_of (48 + v mod 10) :: char"
    have "utostr cur v = utostr [] (v div 10) @ ?d # cur"
      using False less [OF lt, of "?d # cur"] by (simp add: utostr.simps [of cur v] Let_def)
    moreover have "utostr [] v = utostr [] (v div 10) @ [?d]"
      using False less [OF lt, of "[?d]"] by (simp add: utostr.simps [of "[]" v] Let_def)
    ultimately show ?thesis by simp
  qed
qed

lemma utostr_rec:
  "utostr [] v = (if v < 10 then [char_of (48 + v)]
                  else utostr [] (v div 10) @ [char_of (48 + v mod 10)])"
  using utostr_cur [of "[char_of (48 + v mod 10)]" "v div 10"]
  by (auto simp: utostr.simps [of "[]" v] Let_def)

lemma ucode_digit: "d < 10 \<Longrightarrow> ucode (char_of (48 + d)) = 48 + d"
  by simp

lemma utostr_digits: "c \<in> set (utostr [] v) \<Longrightarrow> light_isdigit c"
proof (induction v rule: less_induct)
  case (less v)
  show ?case
  proof (cases "v < 10")
    case True
    with less.prems show ?thesis by (auto simp: utostr_rec [of v] light_isdigit_def)
  next
    case False
    then consider "c \<in> set (utostr [] (v div 10))" | "c = char_of (48 + v mod 10)"
      using less.prems by (auto simp: utostr_rec [of v])
    then show ?thesis
    proof cases
      case 1
      with False less.IH [of "v div 10"] show ?thesis by auto
    next
      case 2
      with ucode_digit [of "v mod 10"] show ?thesis by (auto simp: light_isdigit_def)
    qed
  qed
qed

lemma utostr_nonempty [simp]: "utostr [] v \<noteq> []"
  by (subst utostr_rec) auto

lemma dec_value_snoc: "dec_value (s @ [c]) = 10 * dec_value s + (ucode c - 48)"
  by (simp add: dec_value_def)

lemma dec_value_utostr: "dec_value (utostr [] v) = v"
proof (induction v rule: less_induct)
  case (less v)
  show ?case
  proof (cases "v < 10")
    case True
    then show ?thesis by (simp add: utostr_rec [of v] dec_value_def)
  next
    case False
    then have "dec_value (utostr [] (v div 10)) = v div 10" using less by simp
    moreover have "dec_value (utostr [] v) =
        10 * dec_value (utostr [] (v div 10)) + (ucode (char_of (48 + v mod 10)) - 48)"
      using False by (subst utostr_rec) (simp only: if_False dec_value_snoc)
    moreover have "ucode (char_of (48 + v mod 10)) = 48 + v mod 10"
      by (rule ucode_digit) simp
    ultimately show ?thesis by simp
  qed
qed

lemma length_utostr: "v < 10 ^ n \<Longrightarrow> 0 < n \<Longrightarrow> length (utostr [] v) \<le> n"
proof (induction n arbitrary: v)
  case (Suc n)
  show ?case
  proof (cases "v < 10")
    case False
    have "v div 10 < 10 ^ n" using Suc.prems(1) by (simp add: less_mult_imp_div_less mult.commute)
    moreover have "0 < n" using False Suc.prems(1) by (cases n) auto
    ultimately show ?thesis using Suc.IH [of "v div 10"] False by (subst utostr_rec) simp
  qed (simp add: utostr_rec [of v])
qed simp

text \<open>Every \<open>intmax_t\<close>, INTMAX_MIN included, prints as its decimal representation.\<close>

lemma itostr_abs:
  assumes "- (2 ^ 63) \<le> val" "val < 2 ^ 63"
  shows "itostr cur val = (if val < 0 then ''-'' else []) @ utostr [] (nat \<bar>val\<bar>) @ cur"
proof (cases "val < 0")
  case True
  have "nat (- val - 1) + 1 < SIZE_MOD" using True assms by (simp add: SIZE_MOD_def)
  then have "sz_add (nat (- val - 1)) 1 = nat \<bar>val\<bar>" using True by simp
  then show ?thesis using True utostr_cur [of cur] by (simp add: itostr_def Let_def)
next
  case False
  then show ?thesis using utostr_cur [of cur] by (simp add: itostr_def Let_def)
qed

lemma not_digit_minus: "utostr [] v \<noteq> CHR ''-'' # t"
  using utostr_digits [of "CHR ''-''" v] by (auto simp: light_isdigit_def)

lemma int_value_itostr:
  assumes "- (2 ^ 63) \<le> val" "val < 2 ^ 63"
  shows "int_value (itostr [] val) = val"
proof (cases "val < 0")
  case True
  then show ?thesis using itostr_abs [OF assms, of "[]"] by (simp add: int_value_def dec_value_utostr)
next
  case False
  obtain c t where u: "utostr [] (nat \<bar>val\<bar>) = c # t" by (cases "utostr [] (nat \<bar>val\<bar>)") auto
  then have "c \<noteq> CHR ''-''" using not_digit_minus by auto
  then show ?thesis
    using itostr_abs [OF assms, of "[]"] False u dec_value_utostr [of "nat \<bar>val\<bar>"]
    by (simp add: int_value_def)
qed

lemma itostr_length:
  assumes "- (2 ^ 63) \<le> val" "val < 2 ^ 63"
  shows "0 < length (itostr [] val) \<and> length (itostr [] val) \<le> 20"
proof -
  have "nat \<bar>val\<bar> < 10 ^ 19" using assms by auto
  then have "length (utostr [] (nat \<bar>val\<bar>)) \<le> 19" by (rule length_utostr) simp
  then show ?thesis
    using itostr_abs [OF assms, of "[]"] by (cases "val < 0") simp_all
qed

text \<open>The assertions on the local array never fail: 22 bytes are enough for any value.\<close>

lemma buffer_append_int_ok:
  assumes "buffer_wf b" "- (2 ^ 63) \<le> val" "val < 2 ^ 63" "fits (length (buffer_content b) + 20)"
  shows "\<exists>b'. buffer_append_int b val = Some b' \<and> buffer_wf b'
           \<and> buffer_abs b' = Some (buffer_content b @ itostr [] val)"
proof -
  have l: "0 < length (itostr [] val)" "length (itostr [] val) \<le> 20"
    using itostr_length [OF assms(2,3)] by auto
  have "fits (length (buffer_content b) + length (itostr [] val))"
    using assms(4) by (rule fits_mono) (use l in simp)
  from buffer_append_string_len_ok [OF assms(1) this] l show ?thesis
    by (simp add: buffer_append_int_def LI_ITOSTRING_LENGTH_def)
qed

lemma li_itostrn_ok:
  assumes "- (2 ^ 63) \<le> val" "val < 2 ^ 63"
  shows "li_itostrn n val = (if length (itostr [] val) < n then Some (itostr [] val @ [NUL]) else None)"
  using itostr_abs [OF assms, of "[NUL]"] itostr_abs [OF assms, of "[]"] itostr_length [OF assms]
  by (auto simp: li_itostrn_def LI_ITOSTRING_LENGTH_def)

section \<open>Byte runs in hexadecimal\<close>

fun tohex_fill :: "cells \<Rightarrow> nat \<Rightarrow> string \<Rightarrow> cells option" where
  "tohex_fill m pos [] = poke m pos NUL"
| "tohex_fill m pos (c # s) = do {
     m \<leftarrow> poke m pos (hex_chars ! ((ucode c div 16) mod 16));
     m \<leftarrow> poke m (pos + 1) (hex_chars ! (ucode c mod 16));
     tohex_fill m (pos + 2) s
   }"

definition li_tohex :: "cells \<Rightarrow> nat \<Rightarrow> string \<Rightarrow> cells option" where
  "li_tohex buf buf_len s = do {
     force_assert ((2 * length s) mod SIZE_MOD > length s);
     force_assert ((2 * length s) mod SIZE_MOD < buf_len);
     tohex_fill buf 0 s
   }"

definition buffer_copy_string_hex :: "buffer \<Rightarrow> string \<Rightarrow> buffer option" where
  "buffer_copy_string_hex b s = do {
     force_assert ((length s * 2) mod SIZE_MOD > length s);
     b \<leftarrow> buffer_string_set_length b (2 * length s);
     m \<leftarrow> li_tohex (b_ptr b) (buffer_string_length b + 1) s;
     Some (b\<lparr>b_ptr := m\<rparr>)
   }"

definition hex_pairs :: "string \<Rightarrow> string" where
  "hex_pairs s = concat (map (\<lambda>c. [int2hex (ucode c div 16), int2hex (ucode c)]) s)"

lemma length_hex_pairs [simp]: "length (hex_pairs s) = 2 * length s"
  by (induction s) (auto simp: hex_pairs_def)

lemma tohex_fill_cells:
  "length gap = 2 * length s \<Longrightarrow> length c = pos \<Longrightarrow>
   tohex_fill (c @ gap @ x # rest) pos s = Some (c @ map Some (hex_pairs s) @ Some NUL # rest)"
proof (induction s arbitrary: c gap pos)
  case Nil
  then show ?case by (simp add: poke_def hex_pairs_def list_update_append)
next
  case (Cons d s)
  then obtain g1 g2 gap' where gap: "gap = g1 # g2 # gap'" "length gap' = 2 * length s"
    by (cases gap; cases "tl gap") auto
  let ?h = "Some (hex_chars ! ((ucode d div 16) mod 16))" and ?l = "Some (hex_chars ! (ucode d mod 16))"
  have "tohex_fill (c @ gap @ x # rest) pos (d # s)
      = tohex_fill ((c @ [?h, ?l]) @ gap' @ x # rest) (pos + 2) s"
    using Cons.prems gap by (simp add: poke_def list_update_append)
  also have "\<dots> = Some ((c @ [?h, ?l]) @ map Some (hex_pairs s) @ Some NUL # rest)"
    using Cons.prems gap by (intro Cons.IH) auto
  finally show ?case by (simp add: hex_pairs_def int2hex_def)
qed

text \<open>The overflow check of \<open>buffer_copy_string_hex\<close> also rejects the empty run.\<close>

lemma buffer_copy_string_hex_empty: "buffer_copy_string_hex b [] = None"
  by (simp add: buffer_copy_string_hex_def)

lemma buffer_copy_string_hex_ok:
  assumes "buffer_wf b" "s \<noteq> []" "fits (2 * length s)"
  shows "\<exists>b'. buffer_copy_string_hex b s = Some b' \<and> buffer_wf b'
           \<and> buffer_abs b' = Some (hex_pairs s)"
proof -
  let ?n = "2 * length s"
  have lt: "?n < SIZE_MOD" using assms(3) by (auto intro: PTRDIFF_SIZE simp: fits_def)
  obtain b1 ext where b1: "buffer_string_set_length b ?n = Some b1" "b_used b1 = ?n + 1"
      "b_ptr b1 = (b_ptr b @ ext)[?n := Some NUL]" "b_size b1 = length (b_ptr b1)"
      "?n < b_size b1" "b_size b1 \<le> PTRDIFF_MAX"
    using buffer_set_length_ok [of b ?n] buffer_wfD [OF assms(1)] assms(3)
    unfolding fits_def by blast
  define gap rest where "gap = take ?n (b_ptr b1)" and "rest = drop (Suc ?n) (b_ptr b1)"
  have cells: "b_ptr b1 = [] @ gap @ Some NUL # rest"
  proof -
    have n: "?n < length (b_ptr b @ ext)" using b1(3-5) by simp
    have "gap = take ?n (b_ptr b @ ext)" "rest = drop (Suc ?n) (b_ptr b @ ext)"
      by (simp_all add: gap_def rest_def b1(3))
    then show ?thesis using b1(3) upd_conv_take_nth_drop [OF n] by simp
  qed
  have len: "length gap = ?n" using b1(4,5) by (simp add: gap_def)
  have fill: "tohex_fill (b_ptr b1) 0 s = Some (map Some (hex_pairs s) @ Some NUL # rest)"
    using tohex_fill_cells [OF len, of "[]" 0 "Some NUL" rest] cells by simp
  have "buffer_copy_string_hex b s = Some (b1\<lparr>b_ptr := map Some (hex_pairs s) @ Some NUL # rest\<rparr>)"
    using b1(1,2) lt assms(2) fill
    by (simp add: buffer_copy_string_hex_def li_tohex_def buffer_string_length_def mult.commute)
  moreover have "buffer_wf (b1\<lparr>b_ptr := map Some (hex_pairs s) @ Some NUL # rest\<rparr>)"
      "buffer_abs (b1\<lparr>b_ptr := map Some (hex_pairs s) @ Some NUL # rest\<rparr>) = Some (hex_pairs s)"
    by (rule buffer_wfI [where rest = rest and s = "hex_pairs s"],
        use b1(2,4,6) cells len in \<open>simp_all\<close>)+
  ultimately show ?thesis by blast
qed

section \<open>Properties\<close>

lemma hex_shift_dvd: "8 dvd hex_shift n"
  by (induction n rule: hex_shift.induct) (subst hex_shift.simps, simp)

lemma hex_string_even: "even (length (hex_string v))"
  using hex_shift_dvd [of v] by (auto simp: hex_string_def)

text \<open>
  \<open>buffer_append_int\<close> appends a decimal numeral that reads back as the value it was
  given, for every value of the 64 bit type, the least one (whose negation overflows) included.
\<close>

theorem buffer_append_int_reads_back:
  assumes "buffer_wf b" "- (2 ^ 63) \<le> val" "val < 2 ^ 63" "fits (length (buffer_content b) + 20)"
  shows "\<exists>b' ds. buffer_append_int b val = Some b' \<and> buffer_wf b'
           \<and> buffer_abs b' = Some (buffer_content b @ ds) \<and> length ds \<le> 20 \<and> int_value ds = val"
  using buffer_append_int_ok [OF assms] int_value_itostr [OF assms(2,3)] itostr_length [OF assms(2,3)] by blast

theorem buffer_append_int_reads_back_witness:
  "\<exists>b' ds. buffer_append_int buffer_init (- 9223372036854775808) = Some b' \<and> buffer_wf b'
     \<and> buffer_abs b' = Some ds \<and> length ds \<le> 20 \<and> int_value ds = - 9223372036854775808"
  using buffer_append_int_reads_back [of buffer_init "- 9223372036854775808"]
  by (simp add: fits_def PTRDIFF_MAX_def)

text \<open>
  \<open>buffer_append_uint_hex\<close> appends between 2 and 16 hexadecimal digits, an even number
  of them, that read back as the value, for every 64 bit value.
\<close>

theorem buffer_append_uint_hex_reads_back:
  assumes "buffer_wf b" "v < 2 ^ 64" "fits (length (buffer_content b) + 16)"
  shows "\<exists>b' ds. buffer_append_uint_hex b v = Some b' \<and> buffer_wf b'
           \<and> buffer_abs b' = Some (buffer_content b @ ds) \<and> 2 \<le> length ds \<and> length ds \<le> 16
           \<and> even (length ds) \<and> (\<forall>c\<in>set ds. hex2int c < 16) \<and> hex_value ds = v"
  using buffer_append_uint_hex_ok [OF assms] hex_value_string [of v] hex_string_length [OF assms(2)]
    hex_string_digits [of _ v] hex_string_even [of v] by blast

theorem buffer_append_uint_hex_reads_back_witness:
  "\<exists>b' ds. buffer_append_uint_hex buffer_init 4096 = Some b' \<and> buffer_wf b'
     \<and> buffer_abs b' = Some ds \<and> 2 \<le> length ds \<and> length ds \<le> 16
     \<and> even (length ds) \<and> (\<forall>c\<in>set ds. hex2int c < 16) \<and> hex_value ds = 4096"
  using buffer_append_uint_hex_reads_back [of buffer_init 4096] by (simp add: fits_def PTRDIFF_MAX_def)

end
