(* ===== verification/Encode.thy ===== *)
theory Encode
  imports Format
begin

text \<open>
  The encoders and decoders of \<open>src/src/buffer.c\<close>: \<open>buffer_append_string_encoded\<close> with
  its six byte tables, \<open>buffer_append_string_c_escaped\<close>, the CGI variable names, the
  in-place URL decoder, and the case folding of whole buffers.  Each routine that works on
  memory is shown to compute a function on byte runs; the properties of the encodings
  (round trip, absence of markup, of control bytes) are then about those functions.
\<close>

section \<open>The byte tables\<close>

definition encoded_chars_rel_uri_part :: "nat list" where
  "encoded_chars_rel_uri_part =
    [1, 1, 1, 1, 1, 1, 1, 1, 1, 1, 1, 1, 1, 1, 1, 1,
     1, 1, 1, 1, 1, 1, 1, 1, 1, 1, 1, 1, 1, 1, 1, 1,
     1, 0, 1, 1, 1, 1, 1, 1, 0, 0, 0, 1, 1, 0, 0, 1,
     0, 0, 0, 0, 0, 0, 0, 0, 0, 0, 1, 1, 1, 1, 1, 1,
     1, 0, 0, 0, 0, 0, 0, 0, 0, 0, 0, 0, 0, 0, 0, 0,
     0, 0, 0, 0, 0, 0, 0, 0, 0, 0, 0, 1, 1, 1, 1, 0,
     1, 0, 0, 0, 0, 0, 0, 0, 0, 0, 0, 0, 0, 0, 0, 0,
     0, 0, 0, 0, 0, 0, 0, 0, 0, 0, 0, 1, 1, 1, 0, 1,
     1, 1, 1, 1, 1, 1, 1, 1, 1, 1, 1, 1, 1, 1, 1, 1,
     1, 1, 1, 1, 1, 1, 1, 1, 1, 1, 1, 1, 1, 1, 1, 1,
     1, 1, 1, 1, 1, 1, 1, 1, 1, 1, 1, 1, 1, 1, 1, 1,
     1, 1, 1, 1, 1, 1, 1, 1, 1, 1, 1, 1, 1, 1, 1, 1,
     1, 1, 1, 1, 1, 1, 1, 1, 1, 1, 1, 1, 1, 1, 1, 1,
     1, 1, 1, 1, 1, 1, 1, 1, 1, 1, 1, 1, 1, 1, 1, 1,
     1, 1, 1, 1, 1, 1, 1, 1, 1, 1, 1, 1, 1, 1, 1, 1,
     1, 1, 1, 1, 1, 1, 1, 1, 1, 1, 1, 1, 1, 1, 1, 1]"

definition encoded_chars_rel_uri :: "nat list" where
  "encoded_chars_rel_uri =
    [1, 1, 1, 1, 1, 1, 1, 1, 1, 1, 1, 1, 1, 1, 1, 1,
     1, 1, 1, 1, 1, 1, 1, 1, 1, 1, 1, 1, 1, 1, 1, 1,
     1, 0, 1, 1, 1, 1, 1, 1, 0, 0, 0, 1, 1, 0, 0, 0,
     0, 0, 0, 0, 0, 0, 0, 0, 0, 0, 1, 1, 1, 1, 1, 1,
     1, 0, 0, 0, 0, 0, 0, 0, 0, 0, 0, 0, 0, 0, 0, 0,
     0, 0, 0, 0, 0, 0, 0, 0, 0, 0, 0, 1, 1, 1, 1, 0,
     1, 0, 0, 0, 0, 0, 0, 0, 0, 0, 0, 0, 0, 0, 0, 0,
     0, 0, 0, 0, 0, 0, 0, 0, 0, 0, 0, 1, 1, 1, 0, 1,
     1, 1, 1, 1, 1, 1, 1, 1, 1, 1, 1, 1, 1, 1, 1, 1,
     1, 1, 1, 1, 1, 1, 1, 1, 1, 1, 1, 1, 1, 1, 1, 1,
     1, 1, 1, 1, 1, 1, 1, 1, 1, 1, 1, 1, 1, 1, 1, 1,
     1, 1, 1, 1, 1, 1, 1, 1, 1, 1, 1, 1, 1, 1, 1, 1,
     1, 1, 1, 1, 1, 1, 1, 1, 1, 1, 1, 1, 1, 1, 1, 1,
     1, 1, 1, 1, 1, 1, 1, 1, 1, 1, 1, 1, 1, 1, 1, 1,
     1, 1, 1, 1, 1, 1, 1, 1, 1, 1, 1, 1, 1, 1, 1, 1,
     1, 1, 1, 1, 1, 1, 1, 1, 1, 1, 1, 1, 1, 1, 1, 1]"

definition encoded_chars_html :: "nat list" where
  "encoded_chars_html =
    [1, 1, 1, 1, 1, 1, 1, 1, 1, 1, 1, 1, 1, 1, 1, 1,
     1, 1, 1, 1, 1, 1, 1, 1, 1, 1, 1, 1, 1, 1, 1, 1,
     0, 0, 1, 0, 0, 0, 1, 1, 0, 0, 0, 0, 0, 0, 0, 0,
     0, 0, 0, 0, 0, 0, 0, 0, 0, 0, 0, 0, 1, 0, 1, 0,
     0, 0, 0, 0, 0, 0, 0, 0, 0, 0, 0, 0, 0, 0, 0, 0,
     0, 0, 0, 0, 0, 0, 0, 0, 0, 0, 0, 0, 0, 0, 0, 0,
     1, 0, 0, 0, 0, 0, 0, 0, 0, 0, 0, 0, 0, 0, 0, 0,
     0, 0, 0, 0, 0, 0, 0, 0, 0, 0, 0, 0, 0, 0, 0, 1,
     1, 1, 1, 1, 1, 1, 1, 1, 1, 1, 1, 1, 1, 1, 1, 1,
     1, 1, 1, 1, 1, 1, 1, 1, 1, 1, 1, 1, 1, 1, 1, 1,
     1, 1, 1, 1, 1, 1, 1, 1, 1, 1, 1, 1, 1, 1, 1, 1,
     1, 1, 1, 1, 1, 1, 1, 1, 1, 1, 1, 1, 1, 1, 1, 1,
     1, 1, 1, 1, 1, 1, 1, 1, 1, 1, 1, 1, 1, 1, 1, 1,
     1, 1, 1, 1, 1, 1, 1, 1, 1, 1, 1, 1, 1, 1, 1, 1,
     1, 1, 1, 1, 1, 1, 1, 1, 1, 1, 1, 1, 1, 1, 1, 1,
     1, 1, 1, 1, 1, 1, 1, 1, 1, 1, 1, 1, 1, 1, 1, 1]"

definition encoded_chars_minimal_xml :: "nat list" where
  "encoded_chars_minimal_xml =
    [1, 1, 1, 1, 1, 1, 1, 1, 1, 1, 1, 1, 1, 1, 1, 1,
     1, 1, 1, 1, 1, 1, 1, 1, 1, 1, 1, 1, 1, 1, 1, 1,
     0, 0, 1, 0, 0, 0, 1, 1, 0, 0, 0, 0, 0, 0, 0, 0,
     0, 0, 0, 0, 0, 0, 0, 0, 0, 0, 0, 0, 1, 0, 1, 0,
     0, 0, 0, 0, 0, 0, 0, 0, 0, 0, 0, 0, 0, 0, 0, 0,
     0, 0, 0, 0, 0, 0, 0, 0, 0, 0, 0, 0, 0, 0, 0, 0,
     1, 0, 0, 0, 0, 0, 0, 0, 0, 0, 0, 0, 0, 0, 0, 0,
     0, 0, 0, 0, 0, 0, 0, 0, 0, 0, 0, 0, 0, 0, 0, 1,
     0, 0, 0, 0, 0, 0, 0, 0, 0, 0, 0, 0, 0, 0, 0, 0,
     0, 0, 0, 0, 0, 0, 0, 0, 0, 0, 0, 0, 0, 0, 0, 0,
     0, 0, 0, 0, 0, 0, 0, 0, 0, 0, 0, 0, 0, 0, 0, 0,
     0, 0, 0, 0, 0, 0, 0, 0, 0, 0, 0, 0, 0, 0, 0, 0,
     0, 0, 0, 0, 0, 0, 0, 0, 0, 0, 0, 0, 0, 0, 0, 0,
     0, 0, 0, 0, 0, 0, 0, 0, 0, 0, 0, 0, 0, 0, 0, 0,
     0, 0, 0, 0, 0, 0, 0, 0, 0, 0, 0, 0, 0, 0, 0, 0,
     0, 0, 0, 0, 0, 0, 0, 0, 0, 0, 0, 0, 0, 0, 0, 0]"

definition encoded_chars_hex :: "nat list" where
  "encoded_chars_hex =
    [1, 1, 1, 1, 1, 1, 1, 1, 1, 1, 1, 1, 1, 1, 1, 1,
     1, 1, 1, 1, 1, 1, 1, 1, 1, 1, 1, 1, 1, 1, 1, 1,
     1, 1, 1, 1, 1, 1, 1, 1, 1, 1, 1, 1, 1, 1, 1, 1,
     1, 1, 1, 1, 1, 1, 1, 1, 1, 1, 1, 1, 1, 1, 1, 1,
     1, 1, 1, 1, 1, 1, 1, 1, 1, 1, 1, 1, 1, 1, 1, 1,
     1, 1, 1, 1, 1, 1, 1, 1, 1, 1, 1, 1, 1, 1, 1, 1,
     1, 1, 1, 1, 1, 1, 1, 1, 1, 1, 1, 1, 1, 1, 1, 1,
     1, 1, 1, 1, 1, 1, 1, 1, 1, 1, 1, 1, 1, 1, 1, 1,
     1, 1, 1, 1, 1, 1, 1, 1, 1, 1, 1, 1, 1, 1, 1, 1,
     1, 1, 1, 1, 1, 1, 1, 1, 1, 1, 1, 1, 1, 1, 1, 1,
     1, 1, 1, 1, 1, 1, 1, 1, 1, 1, 1, 1, 1, 1, 1, 1,
     1, 1, 1, 1, 1, 1, 1, 1, 1, 1, 1, 1, 1, 1, 1, 1,
     1, 1, 1, 1, 1, 1, 1, 1, 1, 1, 1, 1, 1, 1, 1, 1,
     1, 1, 1, 1, 1, 1, 1, 1, 1, 1, 1, 1, 1, 1, 1, 1,
     1, 1, 1, 1, 1, 1, 1, 1, 1, 1, 1, 1, 1, 1, 1, 1,
     1, 1, 1, 1, 1, 1, 1, 1, 1, 1, 1, 1, 1, 1, 1, 1]"

definition encoded_chars_http_header :: "nat list" where
  "encoded_chars_http_header =
    [0, 0, 0, 0, 0, 0, 0, 0, 0, 0, 1, 0, 0, 0, 0, 0,
     0, 0, 0, 0, 0, 0, 0, 0, 0, 0, 0, 0, 0, 0, 0, 0,
     0, 0, 0, 0, 0, 0, 0, 0, 0, 0, 0, 0, 0, 0, 0, 0,
     0, 0, 0, 0, 0, 0, 0, 0, 0, 0, 0, 0, 0, 0, 0, 0,
     0, 0, 0, 0, 0, 0, 0, 0, 0, 0, 0, 0, 0, 0, 0, 0,
     0, 0, 0, 0, 0, 0, 0, 0, 0, 0, 0, 0, 0, 0, 0, 0,
     0, 0, 0, 0, 0, 0, 0, 0, 0, 0, 0, 0, 0, 0, 0, 0,
     0, 0, 0, 0, 0, 0, 0, 0, 0, 0, 0, 0, 0, 0, 0, 0,
     0, 0, 0, 0, 0, 0, 0, 0, 0, 0, 0, 0, 0, 0, 0, 0,
     0, 0, 0, 0, 0, 0, 0, 0, 0, 0, 0, 0, 0, 0, 0, 0,
     0, 0, 0, 0, 0, 0, 0, 0, 0, 0, 0, 0, 0, 0, 0, 0,
     0, 0, 0, 0, 0, 0, 0, 0, 0, 0, 0, 0, 0, 0, 0, 0,
     0, 0, 0, 0, 0, 0, 0, 0, 0, 0, 0, 0, 0, 0, 0, 0,
     0, 0, 0, 0, 0, 0, 0, 0, 0, 0, 0, 0, 0, 0, 0, 0,
     0, 0, 0, 0, 0, 0, 0, 0, 0, 0, 0, 0, 0, 0, 0, 0,
     0, 0, 0, 0, 0, 0, 0, 0, 0, 0, 0, 0, 0, 0, 0, 0]"


section \<open>Appending an encoded byte run\<close>

datatype buffer_encoding_t =
    ENCODING_REL_URI | ENCODING_REL_URI_PART | ENCODING_HTML | ENCODING_MINIMAL_XML
  | ENCODING_HEX | ENCODING_HTTP_HEADER

fun encoding_map :: "buffer_encoding_t \<Rightarrow> nat list" where
  "encoding_map ENCODING_REL_URI = encoded_chars_rel_uri"
| "encoding_map ENCODING_REL_URI_PART = encoded_chars_rel_uri_part"
| "encoding_map ENCODING_HTML = encoded_chars_html"
| "encoding_map ENCODING_MINIMAL_XML = encoded_chars_minimal_xml"
| "encoding_map ENCODING_HEX = encoded_chars_hex"
| "encoding_map ENCODING_HTTP_HEADER = encoded_chars_http_header"

fun encoded_width :: "buffer_encoding_t \<Rightarrow> nat" where
  "encoded_width ENCODING_REL_URI = 3"
| "encoded_width ENCODING_REL_URI_PART = 3"
| "encoded_width ENCODING_HTML = 6"
| "encoded_width ENCODING_MINIMAL_XML = 6"
| "encoded_width ENCODING_HTTP_HEADER = 2"
| "encoded_width ENCODING_HEX = 2"

definition hex_pair :: "char \<Rightarrow> string" where
  "hex_pair c = [hex_chars ! ((ucode c div 16) mod 16), hex_chars ! (ucode c mod 16)]"

fun encoded_char :: "buffer_encoding_t \<Rightarrow> char \<Rightarrow> string" where
  "encoded_char ENCODING_REL_URI c = CHR ''%'' # hex_pair c"
| "encoded_char ENCODING_REL_URI_PART c = CHR ''%'' # hex_pair c"
| "encoded_char ENCODING_HTML c = ''&#x'' @ hex_pair c @ '';''"
| "encoded_char ENCODING_MINIMAL_XML c = ''&#x'' @ hex_pair c @ '';''"
| "encoded_char ENCODING_HEX c = hex_pair c"
| "encoded_char ENCODING_HTTP_HEADER c = [c, TAB]"

text \<open>What the second loop stores for one byte, and what the first loop counts for it.\<close>

definition encode_piece :: "buffer_encoding_t \<Rightarrow> char \<Rightarrow> string" where
  "encode_piece e c = (if encoding_map e ! ucode c \<noteq> 0 then encoded_char e c else [c])"

definition encode_width :: "buffer_encoding_t \<Rightarrow> char \<Rightarrow> nat" where
  "encode_width e c = (if encoding_map e ! ucode c \<noteq> 0 then encoded_width e else 1)"

text \<open>The two loops over the input, shared by both encoders.\<close>

fun count_loop :: "(char \<Rightarrow> nat) \<Rightarrow> nat \<Rightarrow> string \<Rightarrow> nat" where
  "count_loop w d_len [] = d_len"
| "count_loop w d_len (c # s) = count_loop w (sz_add d_len (w c)) s"

fun fill_loop :: "(char \<Rightarrow> string) \<Rightarrow> cells \<Rightarrow> nat \<Rightarrow> string \<Rightarrow> cells option" where
  "fill_loop p m d [] = Some m"
| "fill_loop p m d (c # s) = do {
     m \<leftarrow> write_at m d (p c);
     fill_loop p m (d + length (p c)) s
   }"

definition buffer_append_string_encoded ::
    "buffer \<Rightarrow> string \<Rightarrow> buffer_encoding_t \<Rightarrow> buffer option" where
  "buffer_append_string_encoded b s e =
     (if s = [] then Some b
      else do {
        let d_len = count_loop (encode_width e) 0 s;
        (b, d) \<leftarrow> buffer_reserve b d_len;
        z \<leftarrow> peek (b_ptr b) d;
        force_assert (z = NUL);
        m \<leftarrow> fill_loop (encode_piece e) (b_ptr b) d s;
        Some (b\<lparr>b_ptr := m\<rparr>)
      })"

definition c_escape_width :: "char \<Rightarrow> nat" where
  "c_escape_width c =
     (if ucode c < 32 \<or> 127 \<le> ucode c
      then (if c = TAB \<or> c = CR \<or> c = LF then 2 else 4) else 1)"

definition c_escape_piece :: "char \<Rightarrow> string" where
  "c_escape_piece c =
     (if ucode c < 32 \<or> 127 \<le> ucode c
      then CHR 0x5C #
        (if c = TAB then ''t'' else if c = CR then ''r'' else if c = LF then ''n''
         else CHR ''x'' # hex_pair c)
      else [c])"

definition buffer_append_string_c_escaped :: "buffer \<Rightarrow> string \<Rightarrow> buffer option" where
  "buffer_append_string_c_escaped b s =
     (if s = [] then Some b
      else do {
        let d_len = count_loop c_escape_width 0 s;
        (b, d) \<leftarrow> buffer_reserve b d_len;
        z \<leftarrow> peek (b_ptr b) d;
        force_assert (z = NUL);
        m \<leftarrow> fill_loop c_escape_piece (b_ptr b) d s;
        Some (b\<lparr>b_ptr := m\<rparr>)
      })"

subsection \<open>Both encoders append the concatenation of their pieces\<close>

definition encode :: "buffer_encoding_t \<Rightarrow> string \<Rightarrow> string" where
  "encode e s = concat (map (encode_piece e) s)"

definition c_escape :: "string \<Rightarrow> string" where
  "c_escape s = concat (map c_escape_piece s)"

lemma count_loop_sum:
  assumes "\<And>c. w c = length (p c)" "d + length (concat (map p s)) < SIZE_MOD"
  shows "count_loop w d s = d + length (concat (map p s))"
  using assms(2) by (induction s arbitrary: d) (auto simp: assms(1))

lemma fill_loop_cells:
  assumes "length gap = length (concat (map p s))" "length c = d"
  shows "fill_loop p (c @ gap @ rest) d s = Some (c @ map Some (concat (map p s)) @ rest)"
  using assms
proof (induction s arbitrary: c gap d)
  case (Cons x s)
  define g1 g2 where "g1 = take (length (p x)) gap" and "g2 = drop (length (p x)) gap"
  have gap: "gap = g1 @ g2" "length g1 = length (p x)" "length g2 = length (concat (map p s))"
    using Cons.prems(1) by (auto simp: g1_def g2_def)
  have "fill_loop p (c @ gap @ rest) d (x # s)
      = fill_loop p ((c @ map Some (p x)) @ g2 @ rest) (d + length (p x)) s"
    using write_at_mid [of c d g1 "p x" "g2 @ rest"] Cons.prems(2) gap by simp
  also have "\<dots> = Some ((c @ map Some (p x)) @ map Some (concat (map p s)) @ rest)"
    using Cons.prems(2) gap by (intro Cons.IH) auto
  finally show ?case by simp
qed simp

lemma append_pieces_ok:
  assumes "buffer_wf b" "s \<noteq> []" "\<And>c. w c = length (p c)" "\<And>c. p c \<noteq> []"
    "fits (length (buffer_content b) + length (concat (map p s)))"
  shows "\<exists>b1 m. buffer_reserve b (count_loop w 0 s) = Some (b1, length (buffer_content b))
           \<and> peek (b_ptr b1) (length (buffer_content b)) = Some NUL
           \<and> fill_loop p (b_ptr b1) (length (buffer_content b)) s = Some m
           \<and> buffer_wf (b1\<lparr>b_ptr := m\<rparr>)
           \<and> buffer_abs (b1\<lparr>b_ptr := m\<rparr>) = Some (buffer_content b @ concat (map p s))"
proof -
  let ?n = "length (concat (map p s))" and ?c = "buffer_content b"
  have n: "count_loop w 0 s = ?n" "0 < ?n"
  proof -
    have "?n < SIZE_MOD" using assms(5) by (auto intro!: PTRDIFF_SIZE simp: fits_def)
    then show "count_loop w 0 s = ?n" using count_loop_sum [of w p 0 s] assms(3) by simp
    show "0 < ?n" using assms(2,4) by (cases s) auto
  qed
  obtain b1 gap rest where b1: "buffer_reserve b ?n = Some (b1, length ?c)"
      "b_ptr b1 = map Some ?c @ gap @ Some NUL # rest" "length gap = ?n" "gap ! 0 = Some NUL"
      "b_used b1 = Suc (length ?c + ?n)" "b_size b1 = length (b_ptr b1)" "b_size b1 \<le> PTRDIFF_MAX"
    using buffer_reserve_ok [OF assms(1,5) n(2)] by blast
  have fill: "fill_loop p (b_ptr b1) (length ?c) s
      = Some (map Some ?c @ map Some (concat (map p s)) @ Some NUL # rest)"
    using fill_loop_cells [OF b1(3), of "map Some ?c"] b1(2) by simp
  have pk: "peek (b_ptr b1) (length ?c) = Some NUL"
    using b1(2-4) n(2) by (simp add: peek_def nth_append)
  from filled_gap [OF b1(2), of "concat (map p s)"] b1 fill pk n show ?thesis by simp
qed

lemma length_hex_pair [simp]: "length (hex_pair c) = 2"
  by (simp add: hex_pair_def)

lemma encode_width_piece: "encode_width e c = length (encode_piece e c)"
  by (cases e) (auto simp: encode_width_def encode_piece_def)

lemma encode_piece_nonempty [simp]: "encode_piece e c \<noteq> []"
  by (cases e) (auto simp: encode_piece_def hex_pair_def)

lemma c_escape_width_piece: "c_escape_width c = length (c_escape_piece c)"
  by (simp add: c_escape_width_def c_escape_piece_def)

lemma c_escape_piece_nonempty [simp]: "c_escape_piece c \<noteq> []"
  by (simp add: c_escape_piece_def)

lemma buffer_append_string_encoded_ok:
  assumes "buffer_wf b" "s \<noteq> []" "fits (length (buffer_content b) + length (encode e s))"
  shows "\<exists>b'. buffer_append_string_encoded b s e = Some b' \<and> buffer_wf b'
           \<and> buffer_abs b' = Some (buffer_content b @ encode e s)"
  using append_pieces_ok [of b s "encode_width e" "encode_piece e"] assms
  by (auto simp: buffer_append_string_encoded_def encode_def encode_width_piece)

lemma buffer_append_string_c_escaped_ok:
  assumes "buffer_wf b" "s \<noteq> []" "fits (length (buffer_content b) + length (c_escape s))"
  shows "\<exists>b'. buffer_append_string_c_escaped b s = Some b' \<and> buffer_wf b'
           \<and> buffer_abs b' = Some (buffer_content b @ c_escape s)"
  using append_pieces_ok [of b s c_escape_width c_escape_piece] assms
  by (auto simp: buffer_append_string_c_escaped_def c_escape_def c_escape_width_piece)

section \<open>What the encodings guarantee\<close>

subsection \<open>The tables, as sets of bytes\<close>

definition unreserved :: "nat \<Rightarrow> bool" where
  "unreserved n \<longleftrightarrow> n = 33 \<or> n = 40 \<or> n = 41 \<or> n = 42 \<or> n = 45 \<or> n = 46 \<or> (48 \<le> n \<and> n \<le> 57)
     \<or> (65 \<le> n \<and> n \<le> 90) \<or> n = 95 \<or> (97 \<le> n \<and> n \<le> 122) \<or> n = 126"

definition markup :: "nat \<Rightarrow> bool" where
  "markup n \<longleftrightarrow> n < 32 \<or> n = 34 \<or> n = 38 \<or> n = 39 \<or> n = 60 \<or> n = 62 \<or> n = 96 \<or> n = 127"

lemma upt256: "[0..<256] = 0 # 1 # [2..<256]"
  by (simp add: upt_conv_Cons numeral_2_eq_2)

lemma table_lookup: "t = map f [0..<256] \<Longrightarrow> t ! ucode c = f (ucode c)"
  by simp

lemma rel_uri_table: "encoded_chars_rel_uri = map (\<lambda>n. if \<not> unreserved n \<and> n \<noteq> 47 then 1 else 0) [0..<256]"
  unfolding upt256 by (simp add: encoded_chars_rel_uri_def unreserved_def upt_rec_numeral)

lemma rel_uri_part_table: "encoded_chars_rel_uri_part = map (\<lambda>n. if \<not> unreserved n then 1 else 0) [0..<256]"
  unfolding upt256 by (simp add: encoded_chars_rel_uri_part_def unreserved_def upt_rec_numeral)

lemma html_table: "encoded_chars_html = map (\<lambda>n. if markup n \<or> 128 \<le> n then 1 else 0) [0..<256]"
  unfolding upt256 by (simp add: encoded_chars_html_def markup_def upt_rec_numeral)

lemma minimal_xml_table: "encoded_chars_minimal_xml = map (\<lambda>n. if markup n then 1 else 0) [0..<256]"
  unfolding upt256 by (simp add: encoded_chars_minimal_xml_def markup_def upt_rec_numeral)

lemma hex_table: "encoded_chars_hex = map (\<lambda>n. 1) [0..<256]"
  unfolding upt256 by (simp add: encoded_chars_hex_def upt_rec_numeral)

lemma http_header_table: "encoded_chars_http_header = map (\<lambda>n. if n = 10 then 1 else 0) [0..<256]"
  unfolding upt256 by (simp add: encoded_chars_http_header_def upt_rec_numeral)

lemmas table_lookups [simp] =
  table_lookup [OF rel_uri_table] table_lookup [OF rel_uri_part_table] table_lookup [OF html_table]
  table_lookup [OF minimal_xml_table] table_lookup [OF hex_table] table_lookup [OF http_header_table]

lemma LF_iff: "ucode c = 10 \<longleftrightarrow> c = LF"
  by (cases c) auto

lemma encode_simps [simp]: "encode e [] = []" "encode e (c # s) = encode_piece e c @ encode e s"
  by (simp_all add: encode_def)

lemma hex_pair_int2hex: "hex_pair c = [int2hex (ucode c div 16), int2hex (ucode c)]"
  by (simp add: hex_pair_def int2hex_def)

lemma int2hex_char: "int2hex n \<in> set hex_chars"
proof -
  have "length hex_chars = 16" by (simp add: hex_chars_def)
  then show ?thesis unfolding int2hex_def by (metis mod_less_divisor nth_mem zero_less_numeral)
qed

lemma hex_pair_chars: "x \<in> set (hex_pair c) \<Longrightarrow> x \<in> set hex_chars"
  by (auto simp: hex_pair_int2hex int2hex_char)

lemma encode_piece_html:
  assumes "e = ENCODING_HTML \<or> e = ENCODING_MINIMAL_XML" "x \<in> set (encode_piece e c)"
  shows "x \<in> set hex_chars \<or> x \<in> set ''&#x;'' \<or> \<not> markup (ucode x)"
  using assms hex_pair_chars [of x c] by (auto simp: encode_piece_def split: if_splits)

text \<open>No byte that could open markup or close an attribute survives the HTML encoding.\<close>

lemma encode_html_no_markup:
  assumes "e = ENCODING_HTML \<or> e = ENCODING_MINIMAL_XML" "x \<in> set (encode e s)" "markup (ucode x)"
  shows "x = CHR ''&''"
  using assms(2)
proof (induction s)
  case (Cons c s)
  have "\<forall>y\<in>set hex_chars. \<not> markup (ucode y)" "\<forall>y\<in>set ''#x;''. \<not> markup (ucode y)"
    by (simp_all add: hex_chars_def markup_def)
  then have "x \<in> set (encode_piece e c) \<Longrightarrow> x = CHR ''&''"
    using encode_piece_html [OF assms(1), of x c] assms(3) by auto
  with Cons show ?case by auto
qed simp

text \<open>A line feed that is written as part of a header value is continued on the next line.\<close>

lemma encode_piece_http_header:
  "encode_piece ENCODING_HTTP_HEADER c = (if c = LF then [LF, TAB] else [c])"
  by (simp add: encode_piece_def LF_iff)

lemma encode_http_header_folds:
  "i < length (encode ENCODING_HTTP_HEADER s) \<Longrightarrow> encode ENCODING_HTTP_HEADER s ! i = LF \<Longrightarrow>
   Suc i < length (encode ENCODING_HTTP_HEADER s) \<and> encode ENCODING_HTTP_HEADER s ! Suc i = TAB"
proof (induction s arbitrary: i)
  case (Cons c s)
  show ?case
  proof (cases "c = LF")
    case True
    then have enc: "encode ENCODING_HTTP_HEADER (c # s) = LF # TAB # encode ENCODING_HTTP_HEADER s"
      by (simp add: encode_piece_http_header)
    consider "i = 0" | "i = 1" | j where "i = Suc (Suc j)" by (metis One_nat_def not0_implies_Suc)
    then show ?thesis using Cons enc by cases simp_all
  next
    case False
    then have "encode ENCODING_HTTP_HEADER (c # s) = c # encode ENCODING_HTTP_HEADER s"
      by (simp add: encode_piece_http_header)
    with False Cons show ?thesis by (cases i) auto
  qed
qed simp

text \<open>Escaped strings are printable ASCII.\<close>

lemma c_escape_printable: "x \<in> set (c_escape s) \<Longrightarrow> 32 \<le> ucode x \<and> ucode x < 127"
proof (induction s)
  case (Cons c s)
  have hex: "\<forall>y\<in>set hex_chars. 32 \<le> ucode y \<and> ucode y < 127"
    by (simp add: hex_chars_def)
  have "x \<in> set (c_escape_piece c) \<Longrightarrow> 32 \<le> ucode x \<and> ucode x < 127"
    using hex hex_pair_chars [of x c] by (auto simp: c_escape_piece_def split: if_splits)
  with Cons show ?case by (auto simp: c_escape_def)
qed (simp add: c_escape_def)

section \<open>Decoding URLs\<close>

text \<open>
  One turn of the second loop at a byte that is not the terminator: the byte is decoded
  into \<open>dst\<close> and the number of input bytes it took is returned.  The look-ahead reads the
  block after the store to \<open>*dst\<close>, as the code does.
\<close>

definition urldecode_step :: "bool \<Rightarrow> cells \<Rightarrow> nat \<Rightarrow> nat \<Rightarrow> char \<Rightarrow> (cells \<times> nat) option" where
  "urldecode_step is_query m src dst c =
     (if is_query \<and> c = CHR ''+'' then do { m \<leftarrow> poke m dst SP; Some (m, 1) }
      else if c = CHR ''%'' then do {
        m \<leftarrow> poke m dst CHR ''%'';
        h \<leftarrow> peek m (src + 1);
        let high = hex2int h;
        if high \<noteq> 255 then do {
          l \<leftarrow> peek m (src + 2);
          let low = hex2int l;
          if low \<noteq> 255 then do {
            let high = ((high * 16) mod 256) + low;
            let high = (if high < 32 \<or> high = 127 then ucode (CHR ''_'') else high);
            m \<leftarrow> poke m dst (char_of high);
            Some (m, 3)
          } else Some (m, 1)
        } else Some (m, 1)
      } else do { m \<leftarrow> poke m dst c; Some (m, 1) })"

lemma urldecode_step_length:
  "urldecode_step q m src dst c = Some (m', n) \<Longrightarrow> length m' = length m \<and> 0 < n"
  by (auto simp: urldecode_step_def Let_def dest!: length_poke split: if_splits bind_splits)

function urldecode_loop :: "bool \<Rightarrow> cells \<Rightarrow> nat \<Rightarrow> nat \<Rightarrow> (cells \<times> nat) option" where
  "urldecode_loop is_query m src dst =
     (case peek m src of
        None \<Rightarrow> None
      | Some c \<Rightarrow>
          if c = NUL then Some (m, dst)
          else (case urldecode_step is_query m src dst c of
                  None \<Rightarrow> None
                | Some (m, n) \<Rightarrow> urldecode_loop is_query m (src + n) (dst + 1)))"
  by pat_completeness auto
termination
proof (relation "measure (\<lambda>(q, m, src, dst). length m - src)")
  fix q m src dst c r m' n
  assume "peek m src = Some c" "urldecode_step q m src dst c = Some r" "(m', n) = r"
  then have "src < length m" "length m' = length m" "0 < n"
    using urldecode_step_length [of q m src dst c m' n] by (auto simp: peek_def split: if_splits)
  then show "((q, m', src + n, dst + 1), q, m, src, dst) \<in> measure (\<lambda>(q, m, src, dst). length m - src)"
    by simp
qed simp

declare urldecode_loop.simps [simp del]

text \<open>The first loop runs to the first byte that has to be decoded.\<close>

function urldecode_skip :: "bool \<Rightarrow> cells \<Rightarrow> nat \<Rightarrow> (cells \<times> nat) option" where
  "urldecode_skip is_query m src =
     (case peek m src of
        None \<Rightarrow> None
      | Some c \<Rightarrow>
          if c = NUL \<or> c = CHR ''%'' then Some (m, src)
          else urldecode_skip is_query
                 (if is_query \<and> c = CHR ''+'' then m[src := Some SP] else m) (src + 1))"
  by pat_completeness auto
termination
  by (relation "measure (\<lambda>(q, m, src). length m - src)")
    (auto simp: peek_def split: if_splits)

declare urldecode_skip.simps [simp del]

definition buffer_urldecode_internal :: "buffer \<Rightarrow> bool \<Rightarrow> buffer option" where
  "buffer_urldecode_internal url is_query =
     (if buffer_string_is_empty url then Some url
      else do {
        z \<leftarrow> peek (b_ptr url) (b_used url - 1);
        force_assert (z = NUL);
        (m, src) \<leftarrow> urldecode_skip is_query (b_ptr url) 0;
        (m, dst) \<leftarrow> urldecode_loop is_query m src src;
        m \<leftarrow> poke m dst NUL;
        Some (url\<lparr>b_ptr := m, b_used := dst + 1\<rparr>)
      })"

definition buffer_urldecode_path :: "buffer \<Rightarrow> buffer option" where
  "buffer_urldecode_path url = buffer_urldecode_internal url False"

definition buffer_urldecode_query :: "buffer \<Rightarrow> buffer option" where
  "buffer_urldecode_query url = buffer_urldecode_internal url True"

subsection \<open>The decoder on byte runs\<close>

definition unprintable :: "nat \<Rightarrow> bool" where
  "unprintable n \<longleftrightarrow> n < 32 \<or> n = 127"

definition hex_byte :: "char \<Rightarrow> char \<Rightarrow> char" where
  "hex_byte h l = (let n = 16 * hex2int h + hex2int l
     in if unprintable n then CHR ''_'' else char_of n)"

fun urldecode :: "bool \<Rightarrow> string \<Rightarrow> string" where
  "urldecode q [] = []"
| "urldecode q (c # s) =
     (if q \<and> c = CHR ''+'' then SP # urldecode q s
      else if c = CHR ''%'' \<and> 2 \<le> length s \<and> light_isxdigit (s ! 0) \<and> light_isxdigit (s ! 1)
      then hex_byte (s ! 0) (s ! 1) # urldecode q (drop 2 s)
      else c # urldecode q s)"

lemma hex_byte_wrap:
  assumes "light_isxdigit h" "light_isxdigit l"
  shows "(hex2int h * 16) mod 256 + hex2int l = 16 * hex2int h + hex2int l"
  using assms hex2int_range [of h] by (simp add: hex2int_valid_iff [symmetric])

lemma not_xdigit_NUL [simp]: "\<not> light_isxdigit NUL"
  by (simp add: light_isxdigit_iff)

lemma urldecode_step_cells:
  assumes "length dn = dst" "src = dst + length gap" "c \<noteq> NUL" "NUL \<notin> set s"
  shows "\<exists>gap' d k. urldecode_step q (map Some dn @ gap @ map Some (c # s) @ Some NUL # rest) src dst c
            = Some (map Some (dn @ [d]) @ gap' @ map Some (drop k s) @ Some NUL # rest, Suc k)
          \<and> k \<le> length s \<and> src + Suc k = Suc dst + length gap'
          \<and> urldecode q (c # s) = d # urldecode q (drop k s)"
proof -
  define w where "w x = map Some (dn @ [x]) @ tl (gap @ [Some c]) @ map Some s @ Some NUL # rest" for x
  have w: "poke (map Some dn @ gap @ map Some (c # s) @ Some NUL # rest) dst x = Some (w x)" for x
    using assms(1) by (cases gap) (auto simp: poke_def w_def list_update_append)
  have pk: "peek (w x) (src + 1) = Some ((s @ [NUL]) ! 0)"
      "s \<noteq> [] \<Longrightarrow> peek (w x) (src + 2) = Some ((s @ [NUL]) ! 1)" for x
    using assms(1,2) by (cases gap; cases s; cases "tl s";
        auto simp: peek_def w_def nth_append nth_Cons numeral_2_eq_2)+
  have len: "src + Suc 0 = Suc dst + length (tl (gap @ [Some c]))"
    using assms(2) by (cases gap) auto
  consider (plus) "q \<and> c = CHR ''+''"
    | (hex) "\<not> (q \<and> c = CHR ''+'')" "c = CHR ''%''" "2 \<le> length s" "light_isxdigit (s ! 0)"
        "light_isxdigit (s ! 1)"
    | (other) "\<not> (q \<and> c = CHR ''+'')"
        "\<not> (c = CHR ''%'' \<and> 2 \<le> length s \<and> light_isxdigit (s ! 0) \<and> light_isxdigit (s ! 1))"
    by blast
  then show ?thesis
  proof cases
    case plus
    with w len show ?thesis
      by (intro exI [of _ "tl (gap @ [Some c])"] exI [of _ SP] exI [of _ 0])
        (simp add: urldecode_step_def w_def)
  next
    case hex
    then obtain h l t where s: "s = h # l # t" by (cases s; cases "tl s") auto
    let ?d = "hex_byte h l"
    have xd: "hex2int h \<noteq> 255" "hex2int l \<noteq> 255" using hex s by (simp_all add: hex2int_valid_iff)
    have wr: "poke (w CHR ''%'') dst x = Some (w x)" for x
      using assms(1) by (simp add: poke_def w_def list_update_append)
    have "peek (w CHR ''%'') (src + 1) = Some h" "peek (w CHR ''%'') (src + 2) = Some l"
      using pk s by simp_all
    moreover have "(char_of (95 :: nat) :: char) = CHR ''_''" by code_simp
    ultimately have "urldecode_step q (map Some dn @ gap @ map Some (c # s) @ Some NUL # rest) src dst c = Some (w ?d, 3)"
      using hex(1,2) w wr xd hex_byte_wrap [of h l] hex(4,5) s
      by (simp add: urldecode_step_def hex_byte_def unprintable_def Let_def)
    moreover have "w ?d = map Some (dn @ [?d]) @ (tl (gap @ [Some c]) @ [Some h, Some l]) @ map Some t @ Some NUL # rest"
      by (simp add: w_def s)
    ultimately show ?thesis using hex s len
      by (intro exI [of _ "tl (gap @ [Some c]) @ [Some h, Some l]"] exI [of _ ?d] exI [of _ 2]) simp
  next
    case other
    have "urldecode_step q (map Some dn @ gap @ map Some (c # s) @ Some NUL # rest) src dst c = Some (w c, 1)"
    proof (cases "c = CHR ''%''")
      case True
      then have bad: "\<not> light_isxdigit ((s @ [NUL]) ! 0) \<or>
          (s \<noteq> [] \<and> \<not> light_isxdigit ((s @ [NUL]) ! 1))"
        using other(2) by (cases s; cases "tl s") auto
      show ?thesis
        using True other(1) w pk bad
        by (auto simp: urldecode_step_def Let_def hex2int_valid_iff)
    next
      case False
      then show ?thesis using other w by (auto simp: urldecode_step_def)
    qed
    moreover have "urldecode q (c # s) = c # urldecode q s" using other by auto
    ultimately show ?thesis using len
      by (intro exI [of _ "tl (gap @ [Some c])"] exI [of _ c] exI [of _ 0])
        (simp add: w_def del: urldecode.simps)
  qed
qed

lemma urldecode_loop_cells:
  assumes "length dn = dst" "src = dst + length gap" "NUL \<notin> set s"
  shows "\<exists>gap'. urldecode_loop q (map Some dn @ gap @ map Some s @ Some NUL # rest) src dst
           = Some (map Some (dn @ urldecode q s) @ gap' @ Some NUL # rest, dst + length (urldecode q s))
         \<and> length (urldecode q s) + length gap' = length gap + length s"
  using assms
proof (induction s arbitrary: dn gap src dst rule: length_induct)
  case (1 s)
  show ?case
  proof (cases s)
    case Nil
    have "peek (map Some dn @ gap @ Some NUL # rest) src = Some NUL"
      using 1 by (simp add: peek_def nth_append)
    then show ?thesis using Nil by (simp add: urldecode_loop.simps)
  next
    case (Cons c t)
    then have c: "c \<noteq> NUL" "NUL \<notin> set t" using 1 by auto
    obtain gap1 d k where st: "urldecode_step q (map Some dn @ gap @ map Some (c # t) @ Some NUL # rest) src dst c
            = Some (map Some (dn @ [d]) @ gap1 @ map Some (drop k t) @ Some NUL # rest, Suc k)"
        "k \<le> length t" "src + Suc k = Suc dst + length gap1"
        "urldecode q (c # t) = d # urldecode q (drop k t)"
      using urldecode_step_cells [OF 1(2,3) c] by blast
    have pk: "peek (map Some dn @ gap @ map Some (c # t) @ Some NUL # rest) src = Some c"
      using 1 by (simp add: peek_def nth_append)
    have "length (drop k t) < length s" "length (dn @ [d]) = Suc dst" "NUL \<notin> set (drop k t)"
      using Cons 1 c by (auto dest: in_set_dropD)
    with 1(1) st(3) obtain gap2 where
      "urldecode_loop q (map Some (dn @ [d]) @ gap1 @ map Some (drop k t) @ Some NUL # rest) (src + Suc k) (Suc dst)
        = Some (map Some ((dn @ [d]) @ urldecode q (drop k t)) @ gap2 @ Some NUL # rest,
                Suc dst + length (urldecode q (drop k t)))"
      "length (urldecode q (drop k t)) + length gap2 = length gap1 + length (drop k t)"
      by blast
    then show ?thesis
      using Cons c pk st 1(3)
      by (subst urldecode_loop.simps) (auto simp del: urldecode.simps)
  qed
qed

text \<open>The first loop leaves a prefix on which the decoder is the identity, up to \<open>+\<close>.\<close>

lemma urldecode_skip_cells:
  assumes "length dn = src" "NUL \<notin> set s"
  shows "\<exists>p t. urldecode_skip q (map Some dn @ map Some s @ Some NUL # rest) src
            = Some (map Some (dn @ urldecode q p) @ map Some t @ Some NUL # rest, src + length p)
          \<and> s = p @ t \<and> length (urldecode q p) = length p \<and> urldecode q s = urldecode q p @ urldecode q t"
  using assms
proof (induction s arbitrary: dn src)
  case Nil
  have "peek (map Some dn @ Some NUL # rest) src = Some NUL"
    using Nil by (simp add: peek_def nth_append)
  then show ?case by (simp add: urldecode_skip.simps)
next
  case (Cons c s)
  let ?m = "map Some dn @ map Some (c # s) @ Some NUL # rest"
  have pk: "peek ?m src = Some c" using Cons by (simp add: peek_def nth_append)
  have nz: "c \<noteq> NUL" using Cons by auto
  show ?case
  proof (cases "c = CHR ''%''")
    case True
    with pk show ?thesis
      by (intro exI [of _ "[]"] exI [of _ "c # s"]) (simp add: urldecode_skip.simps)
  next
    case False
    let ?d = "if q \<and> c = CHR ''+'' then SP else c"
    have upd: "(if q \<and> c = CHR ''+'' then ?m[src := Some SP] else ?m)
        = map Some (dn @ [?d]) @ map Some s @ Some NUL # rest"
      using Cons.prems by (simp add: list_update_append)
    obtain p t where IH: "urldecode_skip q (map Some (dn @ [?d]) @ map Some s @ Some NUL # rest) (Suc src)
            = Some (map Some ((dn @ [?d]) @ urldecode q p) @ map Some t @ Some NUL # rest, Suc src + length p)"
        "s = p @ t" "length (urldecode q p) = length p" "urldecode q s = urldecode q p @ urldecode q t"
      using Cons.IH [of "dn @ [?d]" "Suc src"] Cons.prems by auto
    have "urldecode_skip q ?m src = urldecode_skip q (map Some (dn @ [?d]) @ map Some s @ Some NUL # rest) (Suc src)"
      using pk False nz upd by (subst urldecode_skip.simps) simp
    with IH False show ?thesis
      by (intro exI [of _ "c # p"] exI [of _ t]) auto
  qed
qed

text \<open>
  The in-place decoder leaves the decoding of the C string in the buffer: the output never
  overtakes the input, and nothing behind the terminator is read.
\<close>

lemma buffer_urldecode_ok:
  assumes "buffer_wf b" "0 < b_used b"
  shows "\<exists>b'. buffer_urldecode_internal b q = Some b' \<and> buffer_wf b' \<and> b_size b' = b_size b
           \<and> buffer_abs b' = Some (urldecode q (cstr (buffer_content b)))"
proof (cases "b_used b < 2")
  case True
  then have "b_used b = 1" using assms(2) by simp
  then have "buffer_content b = []" by (simp add: buffer_content_def)
  with True assms show ?thesis
    by (simp add: buffer_urldecode_internal_def buffer_string_is_empty_def buffer_abs_def cstr_def)
next
  case False
  let ?s = "cstr (buffer_content b)"
  obtain rest0 where r0: "b_ptr b = map Some (buffer_content b) @ Some NUL # rest0"
      "b_used b = Suc (length (buffer_content b))"
    using assms buffer_wfE by blast
  obtain rest where r: "b_ptr b = map Some ?s @ Some NUL # rest"
  proof (cases "NUL \<in> set (buffer_content b)")
    case True
    then obtain u v where "buffer_content b = u @ NUL # v" "NUL \<notin> set u" by (meson split_list_first)
    with r0 that show ?thesis by auto
  next
    case False
    with r0 that show ?thesis by auto
  qed
  have z: "peek (b_ptr b) (b_used b - 1) = Some NUL"
    using r0 by (simp add: peek_def nth_append)
  obtain p t where sk: "urldecode_skip q (b_ptr b) 0
        = Some (map Some (urldecode q p) @ map Some t @ Some NUL # rest, length p)"
      "?s = p @ t" "length (urldecode q p) = length p" "urldecode q ?s = urldecode q p @ urldecode q t"
    using urldecode_skip_cells [of "[]" 0 ?s q rest] r by auto
  have "NUL \<notin> set t" using sk(2) NUL_notin_cstr [of "buffer_content b"] by auto
  then obtain gap where lp: "urldecode_loop q (map Some (urldecode q p) @ map Some t @ Some NUL # rest) (length p) (length p)
        = Some (map Some (urldecode q ?s) @ gap @ Some NUL # rest, length (urldecode q ?s))"
      "length (urldecode q t) + length gap = length t"
    using urldecode_loop_cells [of "urldecode q p" "length p" "length p" "[]" t q rest] sk by auto
  obtain rest' where rest': "(map Some (urldecode q ?s) @ gap @ Some NUL # rest)[length (urldecode q ?s) := Some NUL]
      = map Some (urldecode q ?s) @ Some NUL # rest'"
      "Suc (length rest') = length gap + Suc (length rest)"
    by (cases gap) (auto simp: list_update_append)
  define b' where "b' = b\<lparr>b_ptr := map Some (urldecode q ?s) @ Some NUL # rest',
      b_used := length (urldecode q ?s) + 1\<rparr>"
  have run: "buffer_urldecode_internal b q = Some b'"
    using False z sk(1) lp(1) rest'(1)
    by (simp add: buffer_urldecode_internal_def buffer_string_is_empty_def poke_def b'_def)
  have sz: "b_size b' = length (b_ptr b')"
    using buffer_wfD [OF assms(1)] r rest'(2) lp(2) sk(2-4) by (simp add: b'_def)
  have ptr: "b_ptr b' = map Some (urldecode q ?s) @ Some NUL # rest'"
      "b_used b' = Suc (length (urldecode q ?s))" "b_size b' \<le> PTRDIFF_MAX"
    using buffer_wfD [OF assms(1)] by (simp_all add: b'_def)
  have "buffer_wf b'" "buffer_abs b' = Some (urldecode q ?s)"
    using buffer_wfI [OF ptr(1,2) sz ptr(3)] by auto
  with run show ?thesis by (simp add: b'_def)
qed

lemma urldecode_length: "length (urldecode q s) \<le> length s"
  by (induction q s rule: urldecode.induct) (auto split: if_splits)

text \<open>A decoded path holds no control byte that came from an escape.\<close>

lemma urldecode_printable:
  "x \<in> set (urldecode q s) \<Longrightarrow> x \<in> set s \<or> \<not> unprintable (ucode x)"
proof (induction q s rule: urldecode.induct)
  case (2 q c s)
  have "\<not> unprintable (ucode (hex_byte h l))" if "light_isxdigit h" "light_isxdigit l" for h l
  proof -
    have "16 * hex2int h + hex2int l < 256"
      using that hex2int_range [of h] hex2int_range [of l] by (auto simp: hex2int_valid_iff [symmetric])
    then show ?thesis by (auto simp: hex_byte_def Let_def unprintable_def)
  qed
  then show ?case using 2 by (auto split: if_splits simp: unprintable_def dest: in_set_dropD)
qed simp

subsection \<open>Encoding and decoding\<close>

lemma hex_byte_pair: "hex_byte (int2hex (ucode c div 16)) (int2hex (ucode c))
    = (if unprintable (ucode c) then CHR ''_'' else c)"
proof -
  have "ucode c div 16 < 16" using ucode_bound [of c] by (simp add: less_mult_imp_div_less)
  then have "16 * (ucode c div 16 mod 16) + ucode c mod 16 = ucode c" by simp
  with \<open>ucode c div 16 < 16\<close> show ?thesis by (simp add: hex_byte_def hex2int_int2hex)
qed

lemma light_isxdigit_int2hex [simp]: "light_isxdigit (int2hex n)"
proof -
  have "n mod 16 < 16" by simp
  then have "n mod 16 \<noteq> 255" by linarith
  then show ?thesis by (simp add: hex2int_valid_iff [symmetric] hex2int_int2hex)
qed

text \<open>Decoding an encoded path gives the path back, with control bytes blanked out.\<close>

lemma urldecode_encode:
  assumes "e = ENCODING_REL_URI \<or> e = ENCODING_REL_URI_PART"
  shows "urldecode q (encode e s) = map (\<lambda>c. if unprintable (ucode c) then CHR ''_'' else c) s"
proof (induction s)
  case (Cons c s)
  have "encode_piece e c = [c] \<Longrightarrow> unreserved (ucode c) \<or> ucode c = 47"
    using assms by (auto simp: encode_piece_def hex_pair_def split: if_splits)
  then have plus: "encode_piece e c = [c] \<Longrightarrow> c \<noteq> CHR ''+'' \<and> c \<noteq> CHR ''%'' \<and> \<not> unprintable (ucode c)"
    by (auto simp: unreserved_def unprintable_def)
  have "encode_piece e c = [c] \<or>
      encode_piece e c = [CHR ''%'', int2hex (ucode c div 16), int2hex (ucode c)]"
    using assms by (auto simp: encode_piece_def hex_pair_int2hex)
  then show ?case
    using plus Cons by (auto simp: hex_byte_pair)
qed simp

section \<open>CGI variable names\<close>

definition cgi_char :: "char \<Rightarrow> char" where
  "cgi_char c = (if light_isalpha c then clear_bit5 c
     else if \<not> light_isdigit c then CHR ''_'' else c)"

fun cgi_fill :: "cells \<Rightarrow> nat \<Rightarrow> string \<Rightarrow> (cells \<times> nat) option" where
  "cgi_fill m j [] = Some (m, j)"
| "cgi_fill m j (c # s) = do { m \<leftarrow> poke m j (cgi_char c); cgi_fill m (j + 1) s }"

text \<open>
  \<open>s\<close> is the array the name starts in and \<open>s_len\<close> the length of the name: the comparison
  with \<open>CONTENT-TYPE\<close> reads up to the NUL, not \<open>s_len\<close> bytes.
\<close>

definition buffer_copy_string_encoded_cgi_varnames ::
    "buffer \<Rightarrow> string \<Rightarrow> nat \<Rightarrow> bool \<Rightarrow> buffer option" where
  "buffer_copy_string_encoded_cgi_varnames b s s_len is_http_header = do {
     let b = buffer_reset b;
     b \<leftarrow> (if is_http_header \<and> \<not> strcasecmp_eq s ''CONTENT-TYPE'' then do {
              (b, p) \<leftarrow> buffer_string_prepare_append b (sz_add s_len 5);
              buffer_copy_string_len b ''HTTP_''
            } else do {
              (b, p) \<leftarrow> buffer_string_prepare_append b s_len;
              Some b
            });
     (m, j) \<leftarrow> cgi_fill (b_ptr b) (buffer_string_length b) (take s_len s);
     m \<leftarrow> poke m j NUL;
     Some (b\<lparr>b_ptr := m, b_used := j + 1\<rparr>)
   }"

definition cgi_varname :: "string \<Rightarrow> nat \<Rightarrow> bool \<Rightarrow> string" where
  "cgi_varname s s_len is_http_header =
     (if is_http_header \<and> \<not> strcasecmp_eq s ''CONTENT-TYPE'' then ''HTTP_'' else [])
       @ map cgi_char (take s_len s)"

lemma cgi_fill_cells:
  "length c = j \<Longrightarrow> length gap = length s \<Longrightarrow>
   cgi_fill (c @ gap @ rest) j s = Some (c @ map (Some \<circ> cgi_char) s @ rest, j + length s)"
proof (induction s arbitrary: c gap j)
  case (Cons x s)
  then obtain g gap' where gap: "gap = g # gap'" "length gap' = length s" by (cases gap) auto
  have "cgi_fill (c @ gap @ rest) j (x # s) = cgi_fill ((c @ [Some (cgi_char x)]) @ gap' @ rest) (Suc j) s"
    using Cons.prems gap by (simp add: poke_def list_update_append)
  also have "\<dots> = Some ((c @ [Some (cgi_char x)]) @ map (Some \<circ> cgi_char) s @ rest, Suc j + length s)"
    using Cons.prems gap by (intro Cons.IH) auto
  finally show ?case by simp
qed simp

text \<open>A block with \<open>n\<close> free bytes behind the contents is filled by the loop.\<close>

lemma cgi_finish:
  assumes "b_ptr b = map Some pre @ after" "b_size b = length (b_ptr b)" "b_size b \<le> PTRDIFF_MAX"
    "length pre + length s < b_size b"
  shows "\<exists>m m'. cgi_fill (b_ptr b) (length pre) s = Some (m, length pre + length s)
     \<and> poke m (length pre + length s) NUL = Some m'
     \<and> buffer_wf (b\<lparr>b_ptr := m', b_used := length pre + length s + 1\<rparr>)
     \<and> buffer_abs (b\<lparr>b_ptr := m', b_used := length pre + length s + 1\<rparr>) = Some (pre @ map cgi_char s)"
proof -
  define gap rest where "gap = take (length s) after" and "rest = drop (length s) after"
  have after: "after = gap @ rest" "length gap = length s" "rest \<noteq> []"
    using assms by (auto simp: gap_def rest_def)
  then obtain x rest' where rest: "rest = x # rest'" by (cases rest) auto
  let ?m = "map Some pre @ map (Some \<circ> cgi_char) s @ rest"
  let ?m' = "map Some (pre @ map cgi_char s) @ Some NUL # rest'"
  have fill: "cgi_fill (b_ptr b) (length pre) s = Some (?m, length pre + length s)"
    using cgi_fill_cells [of "map Some pre" "length pre" gap s rest] after assms(1) by simp
  have nul: "poke ?m (length pre + length s) NUL = Some ?m'"
    by (simp add: poke_def rest list_update_append)
  define b' where "b' = b\<lparr>b_ptr := ?m', b_used := length pre + length s + 1\<rparr>"
  have b': "b_ptr b' = ?m'" "b_used b' = Suc (length (pre @ map cgi_char s))"
      "b_size b' = length (b_ptr b')" "b_size b' \<le> PTRDIFF_MAX"
    using assms(1-3) after rest by (simp_all add: b'_def)
  show ?thesis
    using fill nul buffer_wfI [OF b'] unfolding b'_def by blast
qed

text \<open>Copying into a block that is large enough keeps the block.\<close>

lemma buffer_copy_string_len_room:
  assumes "buffer_wf b" "length s < b_size b"
  shows "\<exists>b'. buffer_copy_string_len b s = Some b' \<and> buffer_wf b' \<and> buffer_abs b' = Some s
           \<and> b_size b' = b_size b"
proof -
  note wf = buffer_wfD [OF assms(1)]
  have lt: "length s + 1 < SIZE_MOD" using wf assms(2) by (intro PTRDIFF_SIZE) linarith
  have "0 < length (b_ptr b)" using wf assms(2) by linarith
  then have prep: "buffer_string_prepare_copy b (length s) =
      Some (b\<lparr>b_ptr := Some NUL # tl (b_ptr b), b_used := 1\<rparr>, 0)"
    using assms(2) lt by (simp add: buffer_string_prepare_copy_def buffer_alloc_def poke_0)
  define m where "m = map Some s @ drop (length s) (Some NUL # tl (b_ptr b))"
  have w: "(if length s \<noteq> 0 then write_at (Some NUL # tl (b_ptr b)) 0 s
      else Some (Some NUL # tl (b_ptr b))) = Some m"
    using wf assms(2) by (auto simp: write_at_def m_def)
  have "\<exists>b'. buffer_commit (b\<lparr>b_used := 1, b_ptr := m\<rparr>) (length s) = Some b' \<and> buffer_wf b'
          \<and> buffer_abs b' = Some s \<and> b_size b' = b_size (b\<lparr>b_used := 1, b_ptr := m\<rparr>)"
    by (rule buffer_commit_ok [where rest = "drop (length s) (Some NUL # tl (b_ptr b))"])
       (use wf assms(2) in \<open>auto simp: m_def\<close>)
  with prep w show ?thesis
    by (auto simp: buffer_copy_string_len_def simp del: length_0_conv)
qed

lemma buffer_copy_string_encoded_cgi_varnames_ok:
  assumes "buffer_wf b" "s_len \<le> length s" "fits (s_len + 5)"
  shows "\<exists>b'. buffer_copy_string_encoded_cgi_varnames b s s_len h = Some b' \<and> buffer_wf b'
           \<and> buffer_abs b' = Some (cgi_varname s s_len h)"
proof -
  let ?r = "buffer_reset b"
  have wf: "buffer_wf ?r" "buffer_content ?r = []"
    using buffer_reset_wf [OF assms(1)] by (simp, simp add: buffer_content_def buffer_reset_def)
  have take: "length (take s_len s) = s_len" using assms(2) by simp
  show ?thesis
  proof (cases "h \<and> \<not> strcasecmp_eq s ''CONTENT-TYPE''")
    case True
    have lt: "sz_add s_len 5 = s_len + 5"
      using assms(3) by (intro sz_add_exact) (auto intro!: PTRDIFF_SIZE simp: fits_def)
    obtain b1 rest where b1: "buffer_string_prepare_append ?r (s_len + 5) = Some (b1, 0)"
        "b_ptr b1 = Some NUL # rest" "b_used b1 = 1" "b_size b1 = length (b_ptr b1)"
        "b_size b1 \<le> PTRDIFF_MAX" "s_len + 5 < b_size b1"
      using buffer_prepare_append_ok [OF wf(1), of "s_len + 5"] wf(2) assms(3) by auto
    have wf1: "buffer_wf b1" using buffer_wfI [of b1 "[]" rest] b1 by simp
    obtain b2 where b2: "buffer_copy_string_len b1 ''HTTP_'' = Some b2" "buffer_wf b2"
        "buffer_abs b2 = Some ''HTTP_''" "b_size b2 = b_size b1"
      using buffer_copy_string_len_room [OF wf1, of "''HTTP_''"] b1(6) by auto
    have used: "0 < b_used b2" "buffer_content b2 = ''HTTP_''"
      using b2(3) by (auto simp: buffer_abs_def split: if_splits)
    then obtain rest2 where ptr2: "b_ptr b2 = map Some ''HTTP_'' @ Some NUL # rest2"
      using b2(2) by (metis buffer_wfE)
    have sz: "b_size b2 = length (b_ptr b2)" "b_size b2 \<le> PTRDIFF_MAX"
        "buffer_string_length b2 = 5"
      using b2(2) used by (simp_all add: buffer_wf_def buffer_string_length_content)
    have l5: "length ''HTTP_'' = 5" by simp
    have "5 + s_len < b_size b2" using b1(6) b2(4) by simp
    note fin = cgi_finish [OF ptr2 sz(1,2), of "take s_len s", unfolded l5 take, OF this]
    obtain m m' where m: "cgi_fill (b_ptr b2) 5 (take s_len s) = Some (m, 5 + s_len)"
        "poke m (5 + s_len) NUL = Some m'"
        "buffer_wf (b2\<lparr>b_ptr := m', b_used := 5 + s_len + 1\<rparr>)"
        "buffer_abs (b2\<lparr>b_ptr := m', b_used := 5 + s_len + 1\<rparr>)
          = Some (''HTTP_'' @ map cgi_char (take s_len s))"
      using fin by blast
    with b1 b2 sz True lt show ?thesis
      by (auto simp: buffer_copy_string_encoded_cgi_varnames_def cgi_varname_def)
  next
    case False
    obtain b1 rest where b1: "buffer_string_prepare_append ?r s_len = Some (b1, 0)"
        "b_ptr b1 = Some NUL # rest" "b_used b1 = 1" "b_size b1 = length (b_ptr b1)"
        "b_size b1 \<le> PTRDIFF_MAX" "s_len < b_size b1"
      using buffer_prepare_append_ok [OF wf(1), of s_len] wf(2) assms(3)
        fits_mono [of "s_len + 5" s_len] by auto
    obtain m m' where m: "cgi_fill (b_ptr b1) 0 (take s_len s) = Some (m, s_len)" "poke m s_len NUL = Some m'"
       "buffer_wf (b1\<lparr>b_ptr := m', b_used := s_len + 1\<rparr>)"
       "buffer_abs (b1\<lparr>b_ptr := m', b_used := s_len + 1\<rparr>) = Some (map cgi_char (take s_len s))"
      using cgi_finish [of b1 "[]" _ "take s_len s"] b1 take by auto
    with b1 False show ?thesis
      by (auto simp: buffer_copy_string_encoded_cgi_varnames_def cgi_varname_def buffer_string_length_def)
  qed
qed

text \<open>The name of a CGI variable is made of capital letters, digits and underscores.\<close>

lemma cgi_varname_chars:
  assumes "x \<in> set (cgi_varname s s_len h)"
  shows "is_upper x \<or> light_isdigit x \<or> x = CHR ''_''"
proof -
  have "is_upper (cgi_char c) \<or> light_isdigit (cgi_char c) \<or> cgi_char c = CHR ''_''" for c
    using digit5_upper_half [of c]
    by (auto simp: cgi_char_def light_isalpha_iff is_upper_def ucode_clear_bit5)
  then show ?thesis using assms by (auto simp: cgi_varname_def is_upper_def split: if_splits)
qed

section \<open>Case\<close>

text \<open>Both functions run over \<open>used\<close> bytes, the terminator included.\<close>

definition map_used :: "(char \<Rightarrow> char) \<Rightarrow> buffer \<Rightarrow> buffer option" where
  "map_used f b =
     (if None \<in> set (take (b_used b) (b_ptr b)) then None
      else Some (b\<lparr>b_ptr := map (map_option f) (take (b_used b) (b_ptr b)) @ drop (b_used b) (b_ptr b)\<rparr>))"

definition buffer_to_lower :: "buffer \<Rightarrow> buffer option" where
  "buffer_to_lower b = map_used (\<lambda>c. if is_upper c then set_bit5 c else c) b"

definition buffer_to_upper :: "buffer \<Rightarrow> buffer option" where
  "buffer_to_upper b = map_used (\<lambda>c. if is_upper c then clear_bit5 c else c) b"

definition buffer_is_equal_caseless_string :: "buffer \<Rightarrow> string \<Rightarrow> nat \<Rightarrow> bool option" where
  "buffer_is_equal_caseless_string a s b_len =
     (if b_used a \<noteq> b_len + 1 then Some False
      else do {
        z \<leftarrow> peek (b_ptr a) (b_used a - 1);
        force_assert (z = NUL);
        t \<leftarrow> read_at (b_ptr a) 0 (b_used a);
        Some (strcasecmp_eq t s)
      })"

lemma map_used_ok:
  assumes "buffer_wf b" "0 < b_used b" "f NUL = NUL"
  shows "\<exists>b'. map_used f b = Some b' \<and> buffer_wf b' \<and> buffer_abs b' = Some (map f (buffer_content b))"
proof -
  let ?c = "buffer_content b"
  obtain rest where r: "b_ptr b = map Some ?c @ Some NUL # rest" "b_used b = Suc (length ?c)"
    using assms by (elim buffer_wfE) auto
  define b' where "b' = b\<lparr>b_ptr := map Some (map f ?c) @ Some NUL # rest\<rparr>"
  have "map_used f b = Some b'" using r assms(3) by (auto simp: map_used_def b'_def)
  moreover have "b_ptr b' = map Some (map f ?c) @ Some NUL # rest" "b_used b' = Suc (length (map f ?c))"
      "b_size b' = length (b_ptr b')" "b_size b' \<le> PTRDIFF_MAX"
    using buffer_wfD [OF assms(1)] r by (simp_all add: b'_def)
  note buffer_wfI [OF this]
  ultimately show ?thesis by blast
qed

lemma buffer_to_lower_ok:
  "buffer_wf b \<Longrightarrow> 0 < b_used b \<Longrightarrow>
   \<exists>b'. buffer_to_lower b = Some b' \<and> buffer_wf b' \<and> buffer_abs b' = Some (map to_lower (buffer_content b))"
  using map_used_ok [of b to_lower] unfolding buffer_to_lower_def to_lower_def [abs_def]
  by (simp add: is_upper_def)

text \<open>\<open>buffer_to_upper\<close> tests for capital letters, and so changes nothing.\<close>

lemma buffer_to_upper_id:
  assumes "buffer_wf b"
  shows "buffer_to_upper b = Some b"
proof -
  have f: "(\<lambda>c. if is_upper c then clear_bit5 c else c) = id" by (auto simp: clear_bit5_upper)
  have "None \<notin> set (take (b_used b) (b_ptr b))" using assms by (simp add: buffer_wf_def)
  then show ?thesis unfolding buffer_to_upper_def map_used_def f by (simp add: option.map_id0)
qed

section \<open>Properties\<close>

lemma encode_uri_no_nul:
  assumes "e = ENCODING_REL_URI \<or> e = ENCODING_REL_URI_PART"
  shows "NUL \<notin> set (encode e s)"
proof -
  have "NUL \<notin> set (encode_piece e c)" for c
  proof -
    have "\<not> light_isxdigit NUL" by code_simp
    then have "NUL \<noteq> int2hex n" for n using light_isxdigit_int2hex [of n] by metis
    moreover have "encode_piece e c = [c] \<Longrightarrow> c \<noteq> NUL"
      using assms table_lookup [OF rel_uri_table, of NUL] table_lookup [OF rel_uri_part_table, of NUL]
      by (auto simp: encode_piece_def hex_pair_def unreserved_def split: if_splits)
    moreover have "encode_piece e c = [c] \<or> encode_piece e c = [CHR ''%'', int2hex (ucode c div 16), int2hex (ucode c)]"
      using assms by (auto simp: encode_piece_def hex_pair_int2hex)
    ultimately show ?thesis by auto
  qed
  then show ?thesis by (auto simp: encode_def)
qed

lemma cgi_varname_length: "s_len \<le> length s \<Longrightarrow> length (cgi_varname s s_len h) \<le> s_len + 5"
  by (simp add: cgi_varname_def)

text \<open>
  In the HTML and XML encodings \<open>buffer_append_string_encoded\<close> appends to what the
  buffer holds, and no character of the appended text is markup, the ampersand of a character
  reference apart: text from a request cannot open a tag or close an attribute.
\<close>

theorem html_encoding_is_inert:
  assumes "buffer_wf b" "s \<noteq> []" "e = ENCODING_HTML \<or> e = ENCODING_MINIMAL_XML"
    "fits (length (buffer_content b) + length (encode e s))"
  shows "\<exists>b' t. buffer_append_string_encoded b s e = Some b' \<and> buffer_wf b'
           \<and> buffer_abs b' = Some (buffer_content b @ t) \<and> (\<forall>x\<in>set t. markup (ucode x) \<longrightarrow> x = CHR ''&'')"
  using buffer_append_string_encoded_ok [OF assms(1,2,4)] encode_html_no_markup [OF assms(3)] by blast

theorem html_encoding_is_inert_witness:
  "\<exists>b' t. buffer_append_string_encoded (buffer_of ''x'') ''<b>&'' ENCODING_HTML = Some b' \<and> buffer_wf b'
     \<and> buffer_abs b' = Some (''x'' @ t) \<and> (\<forall>x\<in>set t. markup (ucode x) \<longrightarrow> x = CHR ''&'')"
proof -
  have "fits (length (buffer_content (buffer_of ''x'')) + length (encode ENCODING_HTML ''<b>&''))"
    by (simp add: encode_def encode_piece_def encoded_chars_html_def fits_def PTRDIFF_MAX_def)
  then show ?thesis using html_encoding_is_inert [of "buffer_of ''x''" "''<b>&''" ENCODING_HTML] by simp
qed

text \<open>
  In the header encoding every line feed that \<open>buffer_append_string_encoded\<close> appends is
  followed by a tab, so the text stays one (folded) header field.
\<close>

theorem header_encoding_folds:
  assumes "buffer_wf b" "s \<noteq> []" "fits (length (buffer_content b) + length (encode ENCODING_HTTP_HEADER s))"
  shows "\<exists>b' t. buffer_append_string_encoded b s ENCODING_HTTP_HEADER = Some b' \<and> buffer_wf b'
           \<and> buffer_abs b' = Some (buffer_content b @ t)
           \<and> (\<forall>i<length t. t ! i = LF \<longrightarrow> Suc i < length t \<and> t ! Suc i = TAB)"
  using buffer_append_string_encoded_ok [OF assms] encode_http_header_folds by blast

theorem header_encoding_folds_witness:
  "\<exists>b' t. buffer_append_string_encoded buffer_init [CHR ''a'', LF, CHR ''b''] ENCODING_HTTP_HEADER = Some b'
     \<and> buffer_wf b' \<and> buffer_abs b' = Some t \<and> (\<forall>i<length t. t ! i = LF \<longrightarrow> Suc i < length t \<and> t ! Suc i = TAB)"
proof -
  have "fits (length (encode ENCODING_HTTP_HEADER [CHR ''a'', LF, CHR ''b'']))"
    by (simp add: encode_piece_http_header fits_def PTRDIFF_MAX_def)
  then show ?thesis
    using header_encoding_folds [of buffer_init "[CHR ''a'', LF, CHR ''b'']"] by (simp del: encode_simps)
qed

text \<open>
  C34. Decoding percent escapes in place computes the decoder \<open>urldecode\<close> of the text up to
  its first NUL: the writer never overtakes the reader, the block is not grown and the result
  is terminated inside it.
\<close>

theorem urldecode_in_place:
  assumes "buffer_wf b" "0 < b_used b"
  shows "\<exists>b'. buffer_urldecode_internal b q = Some b' \<and> buffer_wf b' \<and> b_size b' = b_size b
           \<and> buffer_abs b' = Some (urldecode q (cstr (buffer_content b)))
           \<and> length (buffer_content b') \<le> length (buffer_content b)"
proof -
  have "length (cstr (buffer_content b)) \<le> length (buffer_content b)"
    unfolding cstr_def by (rule length_takeWhile_le)
  then show ?thesis
    using buffer_urldecode_ok [OF assms, of q] urldecode_length [of q "cstr (buffer_content b)"]
    using buffer_content_abs by fastforce
qed

theorem urldecode_in_place_witness:
  "\<exists>b'. buffer_urldecode_internal (buffer_of ''a%2Fb+c'') True = Some b' \<and> buffer_wf b' \<and> b_size b' = 8
     \<and> buffer_abs b' = Some ''a/b c'' \<and> length (buffer_content b') \<le> 7"
proof -
  let ?s = "''a%2Fb+c''"
  have wf: "buffer_wf (buffer_of ?s)" "0 < b_used (buffer_of ?s)" by simp_all
  have c: "buffer_content (buffer_of ?s) = ?s" "cstr ?s = ?s" by simp_all
  have n: "b_size (buffer_of ?s) = 8" "length ?s = 7" by (simp_all add: buffer_of_def)
  have d: "urldecode True ?s = ''a/b c''" by code_simp
  show ?thesis using urldecode_in_place [OF wf, of True] unfolding c d n .
qed

text \<open>
  C37. Encoding a text for a URI and decoding the buffer again gives the text back, with every
  unprintable character replaced by an underscore; in particular printable texts round trip.
\<close>

theorem uri_encode_then_decode:
  assumes "e = ENCODING_REL_URI \<or> e = ENCODING_REL_URI_PART" "s \<noteq> []" "fits (length (encode e s))"
  shows "\<exists>b b'. buffer_append_string_encoded buffer_init s e = Some b \<and> buffer_urldecode_internal b q = Some b'
           \<and> buffer_wf b' \<and> buffer_abs b' = Some (map (\<lambda>c. if unprintable (ucode c) then CHR ''_'' else c) s)"
proof -
  obtain b where b: "buffer_append_string_encoded buffer_init s e = Some b" "buffer_wf b"
      "buffer_abs b = Some (encode e s)"
    using buffer_append_string_encoded_ok [of buffer_init s e] assms(2,3) by auto
  have c: "buffer_content b = encode e s" "0 < b_used b"
    using buffer_content_abs [OF b(3)] b(3) by (auto simp: buffer_abs_def split: if_splits)
  have "cstr (encode e s) = encode e s" using encode_uri_no_nul [OF assms(1)] by simp
  then show ?thesis
    using buffer_urldecode_ok [OF b(2) c(2), of q] b(1) c(1) urldecode_encode [OF assms(1)] by auto
qed

theorem uri_encode_then_decode_witness:
  "\<exists>b b'. buffer_append_string_encoded buffer_init ''a b%'' ENCODING_REL_URI = Some b
     \<and> buffer_urldecode_internal b False = Some b' \<and> buffer_wf b' \<and> buffer_abs b' = Some ''a b%''"
proof -
  have "fits (length (encode ENCODING_REL_URI ''a b%''))"
    by (simp add: encode_def encode_piece_def encoded_chars_rel_uri_def fits_def PTRDIFF_MAX_def)
  moreover have "map (\<lambda>c. if unprintable (ucode c) then CHR ''_'' else c) ''a b%'' = ''a b%''"
    by (simp add: unprintable_def)
  ultimately show ?thesis using uri_encode_then_decode [of ENCODING_REL_URI "''a b%''" False] by simp
qed

text \<open>
  The name of an environment variable made from a header name consists of upper case
  letters, digits and underscores only, whatever bytes the client sent.
\<close>

theorem cgi_varname_is_safe:
  assumes "buffer_wf b" "s_len \<le> length s" "fits (s_len + 5)"
  shows "\<exists>b'. buffer_copy_string_encoded_cgi_varnames b s s_len h = Some b' \<and> buffer_wf b'
           \<and> length (buffer_content b') \<le> s_len + 5
           \<and> (\<forall>x\<in>set (buffer_content b'). is_upper x \<or> light_isdigit x \<or> x = CHR ''_'')"
  using buffer_copy_string_encoded_cgi_varnames_ok [OF assms, of h] cgi_varname_chars [of _ s s_len h]
    cgi_varname_length [OF assms(2), of h] by (auto dest!: buffer_content_abs)

theorem cgi_varname_is_safe_witness:
  "\<exists>b'. buffer_copy_string_encoded_cgi_varnames buffer_init ''x-a$(rm)'' 8 True = Some b' \<and> buffer_wf b'
     \<and> length (buffer_content b') \<le> 13
     \<and> (\<forall>x\<in>set (buffer_content b'). is_upper x \<or> light_isdigit x \<or> x = CHR ''_'')"
  using cgi_varname_is_safe [of buffer_init 8 "''x-a$(rm)''" True] by (simp add: fits_def PTRDIFF_MAX_def)

end
