(* ===== verification/PathSimplify.thy ===== *)
theory PathSimplify
  imports Encode
begin

text \<open>
  \<open>buffer_path_simplify\<close> of \<open>src/src/buffer.c\<close>, which the server applies to every
  request path before it is mapped to a file.  The loop is modelled on memory, for a
  separate destination and in place (\<open>src == dest\<close>, where the output is written over the
  input that was read); both compute the same stack machine over path components.
\<close>

section \<open>The loop\<close>

text \<open>Pointers into \<open>src\<close> and \<open>dest\<close> are offsets; \<open>start\<close> is offset 0.\<close>

definition path_read :: "bool \<Rightarrow> cells \<Rightarrow> cells \<Rightarrow> nat \<Rightarrow> char option" where
  "path_read inpl ms md i = peek (if inpl then md else ms) i"

text \<open>\<open>while (out > start && *out != '/') out--;\<close>\<close>

fun path_back :: "cells \<Rightarrow> nat \<Rightarrow> nat option" where
  "path_back m 0 = Some 0"
| "path_back m (Suc out) = do {
     c \<leftarrow> peek m (Suc out);
     if c \<noteq> CHR ''/'' then path_back m out else Some (Suc out)
   }"

text \<open>The end of a token: where the output continues.\<close>

definition path_cut :: "cells \<Rightarrow> nat \<Rightarrow> nat \<Rightarrow> char \<Rightarrow> char \<Rightarrow> char \<Rightarrow> nat option" where
  "path_cut md slash out c pre1 pre2 =
     (let toklen = out - slash
      in if toklen = 3 \<and> pre2 = CHR ''.'' \<and> pre1 = CHR ''.'' then do {
           out \<leftarrow> (if 0 < slash then path_back md (slash - 1) else Some slash);
           Some (if c = NUL then out + 1 else out)
         }
         else if toklen = 1 \<or> (pre2 = CHR ''/'' \<and> pre1 = CHR ''.'')
         then Some (if c = NUL then slash + 1 else slash)
         else Some out)"

function path_loop ::
    "bool \<Rightarrow> cells \<Rightarrow> cells \<Rightarrow> nat \<Rightarrow> nat \<Rightarrow> nat \<Rightarrow> char \<Rightarrow> char \<Rightarrow> (cells \<times> nat) option" where
  "path_loop inpl ms md walk out slash c pre1 =
     (if c = NUL then Some (md, out)
      else (case path_read inpl ms md walk of
              None \<Rightarrow> None
            | Some c' \<Rightarrow>
                (case poke md out c of
                   None \<Rightarrow> None
                 | Some md' \<Rightarrow>
                     if c' = CHR ''/'' \<or> c' = NUL
                     then (case path_cut md' slash (out + 1) c' c pre1 of
                             None \<Rightarrow> None
                           | Some out' \<Rightarrow> path_loop inpl ms md' (walk + 1) out' out' c' c)
                     else path_loop inpl ms md' (walk + 1) (out + 1) slash c' c)))"
  by pat_completeness auto
termination
proof (relation "measure (\<lambda>(inpl, ms, md, walk, rest). length (if inpl then md else ms) - walk)")
  have lt: "length (if inpl then md' else ms) - (walk + 1) < length (if inpl then md else ms) - walk"
    if "path_read inpl ms md walk = Some c'" "poke md out c = Some md'"
    for inpl ms md walk c' out c md'
    using that length_poke [of md out c md']
    by (auto simp: path_read_def peek_def split: if_splits)
  show "\<And>inpl ms md walk out slash c pre1 c' md' out'.
      path_read inpl ms md walk = Some c' \<Longrightarrow> poke md out c = Some md' \<Longrightarrow>
      ((inpl, ms, md', walk + 1, out', out', c', c), inpl, ms, md, walk, out, slash, c, pre1)
        \<in> measure (\<lambda>(inpl, ms, md, walk, rest). length (if inpl then md else ms) - walk)"
    using lt by simp
  show "\<And>inpl ms md walk out slash c pre1 c' md'.
      path_read inpl ms md walk = Some c' \<Longrightarrow> poke md out c = Some md' \<Longrightarrow>
      ((inpl, ms, md', walk + 1, out + 1, slash, c', c), inpl, ms, md, walk, out, slash, c, pre1)
        \<in> measure (\<lambda>(inpl, ms, md, walk, rest). length (if inpl then md else ms) - walk)"
    using lt by simp
qed simp

declare path_loop.simps [simp del]

text \<open>\<open>while (*walk == ' ') walk++;\<close>\<close>

function skip_spaces :: "cells \<Rightarrow> nat \<Rightarrow> nat option" where
  "skip_spaces m walk =
     (case peek m walk of
        None \<Rightarrow> None
      | Some c \<Rightarrow> if c = SP then skip_spaces m (walk + 1) else Some walk)"
  by pat_completeness auto
termination
  by (relation "measure (\<lambda>(m, walk). length m - walk)") (auto simp: peek_def split: if_splits)

declare skip_spaces.simps [simp del]

text \<open>What both calls do once \<open>dest\<close> has room for one byte more than the source.\<close>

definition path_simplify_body :: "bool \<Rightarrow> cells \<Rightarrow> buffer \<Rightarrow> buffer option" where
  "path_simplify_body inpl ms dest = do {
     walk \<leftarrow> skip_spaces (if inpl then b_ptr dest else ms) 0;
     c \<leftarrow> path_read inpl ms (b_ptr dest) walk;
     (md, out, pre1) \<leftarrow> (if c \<noteq> CHR ''/''
        then do { md \<leftarrow> poke (b_ptr dest) 0 CHR ''/''; Some (md, 1, CHR ''/'') }
        else Some (b_ptr dest, 0, NUL));
     (md, out) \<leftarrow> path_loop inpl ms md (walk + 1) out 0 c pre1;
     buffer_string_set_length (dest\<lparr>b_ptr := md\<rparr>) out
   }"

definition buffer_path_simplify :: "buffer \<Rightarrow> buffer \<Rightarrow> buffer option" where
  "buffer_path_simplify dest src =
     (if buffer_string_is_empty src then do {
        (dest, p) \<leftarrow> buffer_string_prepare_copy dest 0;
        Some dest
      } else do {
        z \<leftarrow> peek (b_ptr src) (b_used src - 1);
        force_assert (z = NUL);
        (dest, p) \<leftarrow> buffer_string_prepare_copy dest (sz_add (buffer_string_length src) 1);
        path_simplify_body False (b_ptr src) dest
      })"

definition buffer_path_simplify_inplace :: "buffer \<Rightarrow> buffer option" where
  "buffer_path_simplify_inplace b =
     (if buffer_string_is_empty b then do {
        (b, p) \<leftarrow> buffer_string_prepare_copy b 0;
        Some b
      } else do {
        z \<leftarrow> peek (b_ptr b) (b_used b - 1);
        force_assert (z = NUL);
        (b, p) \<leftarrow> buffer_string_prepare_append b 1;
        path_simplify_body True (b_ptr b) b
      })"

section \<open>The stack machine\<close>

text \<open>\<open>st\<close> holds the components written so far, the last one first; \<open>x\<close> is the current one.\<close>

definition path_render :: "string list \<Rightarrow> string" where
  "path_render st = concat (map ((#) CHR ''/'') (rev st))"

definition path_push :: "string list \<Rightarrow> string \<Rightarrow> string list" where
  "path_push st x =
     (if x = ''..'' then drop 1 st else if x = [] \<or> x = ''.'' then st else x # st)"

definition path_last :: "string list \<Rightarrow> string \<Rightarrow> string list" where
  "path_last st x =
     (if x = ''..'' then [] # drop 1 st else if x = [] \<or> x = ''.'' then [] # st else x # st)"

fun path_run :: "string list \<Rightarrow> string \<Rightarrow> string \<Rightarrow> string list" where
  "path_run st x [] = path_last st x"
| "path_run st x (c # s) =
     (if c = CHR ''/'' then path_run (path_push st x) [] s else path_run st (x @ [c]) s)"

definition path_components :: "string \<Rightarrow> string list" where
  "path_components s =
     (case dropWhile (\<lambda>c. c = SP) s of
        [] \<Rightarrow> path_run [] [] []
      | c # r \<Rightarrow> path_run [] [] (if c = CHR ''/'' then r else c # r))"

definition path_simplify :: "string \<Rightarrow> string" where
  "path_simplify s = path_render (path_components s)"

section \<open>The loop computes the stack machine\<close>

lemma path_render_simps [simp]:
  "path_render [] = []" "path_render (x # st) = path_render st @ CHR ''/'' # x"
  by (simp_all add: path_render_def)

lemma path_back_finds:
  assumes "take (length u + Suc (length y)) m = map Some (u @ CHR ''/'' # y)" "CHR ''/'' \<notin> set y"
  shows "path_back m (length u + length y) = Some (length u)"
  using assms
proof (induction y rule: rev_induct)
  case Nil
  then have "m ! length u = Some CHR ''/''" "length u < length m"
    by (auto dest: arg_cong [where f = "\<lambda>l. l ! length u"] arg_cong [where f = length]
        simp: nth_append min_def split: if_splits)
  then show ?case by (cases "length u") (simp_all add: peek_def)
next
  case (snoc d y)
  have len: "length u + Suc (length y) < length m"
    using snoc.prems(1) by (auto dest!: arg_cong [where f = length] simp: min_def split: if_splits)
  have "m ! (length u + Suc (length y)) = Some d"
    using arg_cong [OF snoc.prems(1), of "\<lambda>l. l ! (length u + Suc (length y))"]
    by (simp add: nth_append)
  moreover have "take (length u + Suc (length y)) m = map Some (u @ CHR ''/'' # y)"
    using arg_cong [OF snoc.prems(1), of "take (length u + Suc (length y))"] by simp
  moreover have "d \<noteq> CHR ''/''" using snoc.prems(2) by auto
  ultimately show ?case using snoc len by (simp add: peek_def)
qed

text \<open>The token in the output is \<open>/\<close> and \<open>x\<close>; \<open>pre1\<close> and \<open>pre2\<close> are its last two bytes.\<close>

lemma path_cut_ok:
  assumes m: "take (length w) m = map Some w" and w: "w = path_render st @ CHR ''/'' # x"
    and x: "CHR ''/'' \<notin> set x" and st: "\<forall>y\<in>set st. CHR ''/'' \<notin> set y"
    and pre1: "pre1 = last (CHR ''/'' # x)" and pre2: "x \<noteq> [] \<Longrightarrow> pre2 = last (CHR ''/'' # butlast x)"
  shows "\<exists>w' w''. path_cut m (length (path_render st)) (length w) c pre1 pre2 = Some (length w')
     \<and> w = w' @ w''
     \<and> w' = path_render (if c = NUL then path_last st x else path_push st x)"
proof -
  have tok: "length w - length (path_render st) = Suc (length x)" using w by simp
  consider (up) "x = ''..''" | (skip) "x = [] \<or> x = ''.''" | (keep) "x \<noteq> ''..''" "x \<noteq> []" "x \<noteq> ''.''"
    by blast
  then show ?thesis
  proof cases
    case up
    then have pre: "pre1 = CHR ''.''" "pre2 = CHR ''.''" using pre1 pre2 by auto
    show ?thesis
    proof (cases st)
      case Nil
      then show ?thesis
        using up pre tok w by (auto simp: path_cut_def path_last_def path_push_def)
    next
      case (Cons y st')
      have "take (length (path_render st)) m = map Some (path_render st)"
        using arg_cong [OF m, of "take (length (path_render st))"] w by simp
      then have "path_back m (length (path_render st) - 1) = Some (length (path_render st'))"
        using path_back_finds [of "path_render st'" y m] Cons st by simp
      then show ?thesis
        using up pre tok w Cons by (auto simp: path_cut_def path_last_def path_push_def)
    qed
  next
    case skip
    then have "\<not> (Suc (length x) = 3 \<and> pre2 = CHR ''.'' \<and> pre1 = CHR ''.'')" by auto
    moreover have "Suc (length x) = 1 \<or> (pre2 = CHR ''/'' \<and> pre1 = CHR ''.'')"
      using skip pre1 pre2 by auto
    ultimately show ?thesis
      using skip tok w by (auto simp: path_cut_def path_last_def path_push_def Let_def)
  next
    case keep
    have "\<not> (Suc (length x) = 3 \<and> pre2 = CHR ''.'' \<and> pre1 = CHR ''.'')"
      using keep pre1 pre2 by (auto simp: numeral_3_eq_3 length_Suc_conv)
    moreover have "\<not> (pre2 = CHR ''/'' \<and> pre1 = CHR ''.'')"
    proof
      assume a: "pre2 = CHR ''/'' \<and> pre1 = CHR ''.''"
      have "butlast x = []"
      proof (rule ccontr)
        assume "butlast x \<noteq> []"
        then have "pre2 \<in> set x" using pre2 keep(2) by (auto dest: in_set_butlastD last_in_set)
        with x a show False by simp
      qed
      with a keep pre1 show False by (cases x rule: rev_cases) auto
    qed
    ultimately show ?thesis
      using keep tok w by (auto simp: path_cut_def path_last_def path_push_def Let_def)
  qed
qed

text \<open>
  The invariant of the loop.  \<open>w\<close> is the output so far, \<open>t\<close> the input that was not read
  yet; in place, the output does not overtake the input.
\<close>

definition path_inv :: "bool \<Rightarrow> cells \<Rightarrow> cells \<Rightarrow> nat \<Rightarrow> string \<Rightarrow> string \<Rightarrow> bool" where
  "path_inv inpl ms md walk w t \<longleftrightarrow>
     take (length w) md = map Some w \<and>
     take (Suc (length t)) (drop walk (if inpl then md else ms)) = map Some t @ [Some NUL] \<and>
     (inpl \<longrightarrow> length w \<le> walk) \<and> length w + length t < length md"

lemma path_inv_read:
  "path_inv inpl ms md walk w t \<Longrightarrow> path_read inpl ms md walk = Some (hd (t @ [NUL]))"
proof -
  assume inv: "path_inv inpl ms md walk w t"
  let ?src = "if inpl then md else ms"
  have t: "take (Suc (length t)) (drop walk ?src) = map Some t @ [Some NUL]"
    using inv by (simp only: path_inv_def)
  then have "drop walk ?src \<noteq> []" by auto
  moreover have "hd (drop walk ?src) = Some (hd (t @ [NUL]))"
    using t by (cases t; cases "drop walk ?src") auto
  ultimately show ?thesis
    by (auto simp: path_read_def peek_def hd_drop_conv_nth split: if_splits)
qed

lemma path_inv_write:
  assumes inv: "path_inv inpl ms md walk w t"
  shows "poke md (length w) c = Some (md[length w := Some c])"
    "take (length (w @ [c])) (md[length w := Some c]) = map Some (w @ [c])"
    "t \<noteq> [] \<Longrightarrow> path_inv inpl ms (md[length w := Some c]) (Suc walk) (w @ [c]) (tl t)"
proof -
  have lt: "length w < length md" using inv by (simp add: path_inv_def)
  then show "poke md (length w) c = Some (md[length w := Some c])" by (simp add: poke_def)
  show tk: "take (length (w @ [c])) (md[length w := Some c]) = map Some (w @ [c])"
    using inv lt by (simp add: path_inv_def take_Suc_conv_app_nth)
  assume t: "t \<noteq> []"
  have src: "take (Suc (length t)) (drop walk (if inpl then md else ms)) = map Some t @ [Some NUL]"
    using inv by (simp add: path_inv_def)
  have "take (Suc (length (tl t))) (drop (Suc walk) (if inpl then md else ms)) = map Some (tl t) @ [Some NUL]"
    using arg_cong [OF src, of tl] t by (cases t) (simp_all add: tl_take drop_Suc tl_drop)
  moreover have "inpl \<Longrightarrow> drop (Suc walk) (md[length w := Some c]) = drop (Suc walk) md"
    using inv by (intro drop_update_cancel) (simp add: path_inv_def)
  ultimately show "path_inv inpl ms (md[length w := Some c]) (Suc walk) (w @ [c]) (tl t)"
    using inv tk t by (cases t) (auto simp: path_inv_def split: if_splits)
qed

lemma path_inv_cut:
  assumes "path_inv inpl ms md walk (w @ v) t"
  shows "path_inv inpl ms md walk w t"
proof -
  have "take (length w + length v) md = map Some w @ map Some v"
    using assms by (simp add: path_inv_def)
  from arg_cong [OF this, of "take (length w)"] have "take (length w) md = map Some w"
    by (simp add: min_def)
  then show ?thesis using assms by (auto simp: path_inv_def)
qed

definition slash_free :: "string list \<Rightarrow> bool" where
  "slash_free st \<longleftrightarrow> (\<forall>y\<in>set st. CHR ''/'' \<notin> set y)"

lemma slash_free_simps [simp]:
  "slash_free []" "slash_free (x # st) \<longleftrightarrow> CHR ''/'' \<notin> set x \<and> slash_free st"
  by (auto simp: slash_free_def)

lemma slash_free_step:
  assumes "slash_free st" "CHR ''/'' \<notin> set x"
  shows "slash_free (path_push st x)" "slash_free (path_last st x)"
  using assms by (cases st; auto simp: path_push_def path_last_def)+

text \<open>\<open>c\<close> is the byte in hand: with it the current token is \<open>/\<close> followed by \<open>x\<close>.\<close>

lemma path_loop_ok:
  assumes "path_inv inpl ms md walk w t" "w @ [c] = path_render st @ CHR ''/'' # x"
    "NUL \<notin> set t" "c \<noteq> NUL" "slash_free st" "CHR ''/'' \<notin> set x"
    "x \<noteq> [] \<Longrightarrow> pre1 = last (CHR ''/'' # butlast x)"
  shows "\<exists>md'. path_loop inpl ms md walk (length w) (length (path_render st)) c pre1
            = Some (md', length (path_render (path_run st x t)))
          \<and> length md' = length md
          \<and> take (length (path_render (path_run st x t))) md' = map Some (path_render (path_run st x t))"
  using assms
proof (induction t arbitrary: md walk w c st x pre1)
  case Nil
  let ?md = "md[length w := Some c]"
  have rd: "path_read inpl ms md walk = Some NUL" using path_inv_read [OF Nil.prems(1)] by simp
  have last: "c = last (CHR ''/'' # x)" using Nil.prems(2) by (metis last_appendR last_snoc list.distinct(1))
  have st: "\<forall>y\<in>set st. CHR ''/'' \<notin> set y" using Nil.prems(5) by (simp add: slash_free_def)
  obtain w' w'' where cut: "path_cut ?md (length (path_render st)) (length (w @ [c])) NUL c pre1 = Some (length w')"
      "w @ [c] = w' @ w''" "w' = path_render (path_last st x)"
    using path_cut_ok [OF path_inv_write(2) [OF Nil.prems(1), of c] Nil.prems(2,6) st last Nil.prems(7), of NUL]
    unfolding simp_thms if_True by blast
  have "take (length w') ?md = map Some w'"
    using arg_cong [OF path_inv_write(2) [OF Nil.prems(1), of c], of "take (length w')"] cut(2) by simp
  then show ?case
    using rd path_inv_write(1) [OF Nil.prems(1), of c] cut(1,3) Nil.prems(4)
    by (simp add: path_loop.simps [of _ _ _ walk] path_loop.simps [of _ _ _ "walk + 1"]
        path_loop.simps [of _ _ _ "Suc walk"])
next
  case (Cons d t)
  let ?md = "md[length w := Some c]"
  have rd: "path_read inpl ms md walk = Some d" using path_inv_read [OF Cons.prems(1)] by simp
  have wr: "poke md (length w) c = Some ?md" by (rule path_inv_write(1) [OF Cons.prems(1)])
  have inv: "path_inv inpl ms ?md (Suc walk) (w @ [c]) t"
    using path_inv_write(3) [OF Cons.prems(1), of c] by simp
  have last: "c = last (CHR ''/'' # x)" using Cons.prems(2) by (metis last_appendR last_snoc list.distinct(1))
  have st: "\<forall>y\<in>set st. CHR ''/'' \<notin> set y" using Cons.prems(5) by (simp add: slash_free_def)
  have d: "d \<noteq> NUL" "NUL \<notin> set t" using Cons.prems(3) by auto
  show ?case
  proof (cases "d = CHR ''/''")
    case True
    obtain w' w'' where cut: "path_cut ?md (length (path_render st)) (length (w @ [c])) d c pre1 = Some (length w')"
        "w @ [c] = w' @ w''" "w' = path_render (path_push st x)"
      using path_cut_ok [OF path_inv_write(2) [OF Cons.prems(1), of c] Cons.prems(2,6) st last Cons.prems(7), of d]
      unfolding if_not_P [OF d(1)] by blast
    have inv': "path_inv inpl ms ?md (Suc walk) w' t"
      by (rule path_inv_cut [of _ _ _ _ w' w'']) (use inv cut(2) in simp)
    have st': "slash_free (path_push st x)" using slash_free_step Cons.prems(5,6) by blast
    have "\<exists>md'. path_loop inpl ms ?md (Suc walk) (length w') (length (path_render (path_push st x))) d c
            = Some (md', length (path_render (path_run (path_push st x) [] t)))
          \<and> length md' = length ?md
          \<and> take (length (path_render (path_run (path_push st x) [] t))) md'
              = map Some (path_render (path_run (path_push st x) [] t))"
      by (rule Cons.IH [OF inv']) (use True cut(3) d st' in auto)
    then show ?thesis
      using True rd wr cut(1,3) Cons.prems(4) by (simp add: path_loop.simps [of _ _ _ walk])
  next
    case False
    have "(w @ [c]) @ [d] = path_render st @ CHR ''/'' # (x @ [d])" using Cons.prems(2) by simp
    moreover have "CHR ''/'' \<notin> set (x @ [d])" using Cons.prems(6) False by auto
    moreover have "c = last (CHR ''/'' # butlast (x @ [d]))" using last by simp
    ultimately have "\<exists>md'. path_loop inpl ms ?md (Suc walk) (length (w @ [c])) (length (path_render st)) d c
            = Some (md', length (path_render (path_run st (x @ [d]) t)))
          \<and> length md' = length ?md
          \<and> take (length (path_render (path_run st (x @ [d]) t))) md'
              = map Some (path_render (path_run st (x @ [d]) t))"
      using inv d Cons.prems(5) by (intro Cons.IH) auto
    then show ?thesis
      using False rd wr d Cons.prems(4) by (simp add: path_loop.simps [of _ _ _ walk])
  qed
qed

section \<open>The two calls\<close>

lemma path_run_length:
  "length (path_render (path_run st x t)) \<le> length (path_render st) + length x + length t + 1"
proof (induction t arbitrary: st x)
  case Nil
  show ?case by (cases st) (auto simp: path_last_def)
next
  case (Cons c t)
  have "length (path_render (path_push st x)) \<le> length (path_render st) + length x + 1"
    by (cases st) (auto simp: path_push_def)
  then show ?case
    using Cons [of "path_push st x" "[]"] Cons [of st "x @ [c]"] by auto
qed

lemma path_simplify_length: "length (path_simplify s) \<le> length s + 1"
proof (cases "dropWhile (\<lambda>c. c = SP) s")
  case Nil
  then show ?thesis
    by (simp only: path_simplify_def path_components_def list.case) (simp add: path_last_def)
next
  case (Cons c r)
  then have "length (c # r) \<le> length s" by (metis length_dropWhile_le)
  with Cons show ?thesis
    using path_run_length [of "[]" "[]" r] path_run_length [of "[]" "[c]" r]
    by (auto simp: path_simplify_def path_components_def)
qed

lemma drop_eq_Cons: "drop n xs = x # l \<Longrightarrow> n < length xs \<and> xs ! n = x"
  by (metis drop_eq_Nil hd_drop_conv_nth leI list.distinct(1) list.sel(1))

lemma skip_spaces_ok:
  "take (Suc (length s)) (drop walk m) = map Some s @ [Some NUL] \<Longrightarrow>
   skip_spaces m walk = Some (walk + length (takeWhile (\<lambda>c. c = SP) s))"
proof (induction s arbitrary: walk)
  case Nil
  then have "peek m walk = Some NUL"
    by (cases "drop walk m") (auto simp: peek_def dest!: drop_eq_Cons)
  then show ?case by (simp add: skip_spaces.simps)
next
  case (Cons c s)
  then have "peek m walk = Some c"
    by (cases "drop walk m") (auto simp: peek_def dest!: drop_eq_Cons)
  moreover have "take (Suc (length s)) (drop (Suc walk) m) = map Some s @ [Some NUL]"
    using arg_cong [OF Cons.prems, of tl] by (simp add: tl_take drop_Suc tl_drop)
  ultimately show ?case using Cons.IH [of "Suc walk"] by (simp add: skip_spaces.simps [of m walk])
qed

lemma path_inv_start:
  assumes "take (Suc (length s)) (if inpl then md else ms) = map Some s @ [Some NUL]"
    "length s + 1 < length md" "s = p @ c # t" "length w \<le> 1" "take (length w) md = map Some w"
    "walk = length p + 1"
  shows "path_inv inpl ms md walk w t"
proof -
  have "take (Suc (length t)) (drop walk (if inpl then md else ms)) = map Some t @ [Some NUL]"
    using arg_cong [OF assms(1), of "drop walk"] assms(3,6) by (simp add: drop_take)
  then show ?thesis using assms by (auto simp: path_inv_def)
qed

lemma path_simplify_body_ok:
  assumes src: "take (Suc (length s)) (if inpl then b_ptr dest else ms) = map Some s @ [Some NUL]"
    and nul: "NUL \<notin> set s" and sz: "length (b_ptr dest) = b_size dest" "b_size dest \<le> PTRDIFF_MAX"
    and room: "length s + 1 < b_size dest" "fits (length s + 1)"
  shows "\<exists>b'. path_simplify_body inpl ms dest = Some b' \<and> buffer_wf b' \<and> buffer_abs b' = Some (path_simplify s)"
proof -
  define p r where "p = takeWhile (\<lambda>c. c = SP) s" and "r = dropWhile (\<lambda>c. c = SP) s"
  have s: "s = p @ r" by (simp add: p_def r_def)
  have walk: "skip_spaces (if inpl then b_ptr dest else ms) 0 = Some (length p)"
    using skip_spaces_ok [of s 0] src by (simp add: p_def)
  have rd: "path_read inpl ms (b_ptr dest) (length p) = Some (hd (r @ [NUL]))"
  proof -
    have "take (Suc (length r)) (drop (length p) (if inpl then b_ptr dest else ms)) = map Some r @ [Some NUL]"
      using arg_cong [OF src, of "drop (length p)"] s by (simp add: drop_take)
    then have "path_inv inpl ms (b_ptr dest) (length p) [] r"
      using sz room s by (simp add: path_inv_def)
    then show ?thesis by (rule path_inv_read)
  qed
  have w1: "take 1 ((b_ptr dest)[0 := Some CHR ''/'']) = map Some ''/''"
      "poke (b_ptr dest) 0 CHR ''/'' = Some ((b_ptr dest)[0 := Some CHR ''/''])"
    using sz room by (cases "b_ptr dest"; auto simp: poke_def)+
  define n where "n = length (path_simplify s)"
  obtain md where md: "path_simplify_body inpl ms dest
        = buffer_string_set_length (dest\<lparr>b_ptr := md\<rparr>) n"
      "length md = b_size dest" "take n md = map Some (path_simplify s)"
  proof (cases r)
    case Nil
    have res: "path_simplify s = ''/''"
      using Nil by (simp add: path_simplify_def path_components_def r_def [symmetric] path_last_def)
    show ?thesis
      using that [of "(b_ptr dest)[0 := Some CHR ''/'']"] walk rd w1 sz(1) Nil res
      by (simp add: path_simplify_body_def path_loop.simps n_def)
  next
    case (Cons c t)
    then have ct: "c \<noteq> NUL" "NUL \<notin> set t" "s = p @ c # t" using nul s by auto
    have comps: "path_simplify s = path_render (path_run [] [] (if c = CHR ''/'' then t else c # t))"
      using Cons by (simp add: path_simplify_def path_components_def r_def [symmetric])
    show ?thesis
    proof (cases "c = CHR ''/''")
      case True
      have "path_inv inpl ms (b_ptr dest) (length p + 1) [] t"
        by (rule path_inv_start [OF src _ ct(3)]) (use room sz in auto)
      from path_loop_ok [OF this, of c "[]" "[]" NUL] True ct(2)
      obtain md where "path_loop inpl ms (b_ptr dest) (length p + 1) 0 0 c NUL = Some (md, n)"
          "length md = length (b_ptr dest)" "take n md = map Some (path_simplify s)"
        by (auto simp: n_def comps)
      then show ?thesis
        using that [of md] walk rd sz(1) Cons True by (simp add: path_simplify_body_def)
    next
      case False
      have inv0: "path_inv inpl ms (b_ptr dest) (length p + 1) [] t"
        by (rule path_inv_start [OF src _ ct(3)]) (use room sz in auto)
      have "path_inv inpl ms ((b_ptr dest)[0 := Some CHR ''/'']) (length p + 1) ''/'' t"
        using inv0 w1(1) room sz s Cons by (auto simp: path_inv_def split: if_splits)
      from path_loop_ok [OF this, of c "[]" "[c]" "CHR ''/''"] False ct(1,2)
      obtain md where "path_loop inpl ms ((b_ptr dest)[0 := Some CHR ''/'']) (length p + 1) 1 0 c CHR ''/'' = Some (md, n)"
          "length md = length (b_ptr dest)" "take n md = map Some (path_simplify s)"
        by (auto simp: n_def comps)
      then show ?thesis
        using that [of md] walk rd w1(2) sz(1) Cons False by (simp add: path_simplify_body_def)
    qed
  qed
  have "n + 65 \<le> PTRDIFF_MAX"
    using path_simplify_length [of s] room(2) by (simp add: n_def fits_def)
  then obtain b' ext where b': "buffer_string_set_length (dest\<lparr>b_ptr := md\<rparr>) n = Some b'"
      "b_used b' = n + 1" "b_ptr b' = (md @ ext)[n := Some NUL]" "b_size b' = length (b_ptr b')"
      "n < b_size b'" "b_size b' \<le> PTRDIFF_MAX"
    using buffer_set_length_ok [of "dest\<lparr>b_ptr := md\<rparr>" n] md(2) sz(2) by auto
  have "n \<le> length md" using arg_cong [OF md(3), of length] by (simp add: n_def min_def split: if_splits)
  then have tk: "take n (md @ ext) = map Some (path_simplify s)" using md(3) by simp
  have "n < length (md @ ext)" using b'(3,4,5) by simp
  then have "b_ptr b' = map Some (path_simplify s) @ Some NUL # drop (Suc n) (md @ ext)"
    using b'(3) tk by (simp add: upd_conv_take_nth_drop)
  from buffer_wfI [OF this _ b'(4,6)] b'(1,2) md(1) show ?thesis by (auto simp: n_def)
qed

text \<open>Simplifying into another buffer and in place give the same path.\<close>

definition simplified :: "buffer \<Rightarrow> string" where
  "simplified b = (if buffer_content b = [] then [] else path_simplify (cstr (buffer_content b)))"

lemma buffer_cstr_cells:
  assumes "buffer_wf b" "0 < b_used b"
  shows "take (Suc (length (cstr (buffer_content b)))) (b_ptr b) = map Some (cstr (buffer_content b)) @ [Some NUL]"
proof -
  obtain rest where r: "b_ptr b = map Some (buffer_content b) @ Some NUL # rest"
    using assms by (elim buffer_wfE) auto
  show ?thesis
  proof (cases "NUL \<in> set (buffer_content b)")
    case True
    then obtain u v where "buffer_content b = u @ NUL # v" "NUL \<notin> set u" by (meson split_list_first)
    with r show ?thesis by simp
  next
    case False
    with r show ?thesis by simp
  qed
qed

lemma buffer_path_simplify_ok:
  assumes "buffer_wf dest" "buffer_wf src" "fits (length (buffer_content src) + 1)"
  shows "\<exists>b'. buffer_path_simplify dest src = Some b' \<and> buffer_wf b' \<and> buffer_abs b' = Some (simplified src)"
proof (cases "buffer_string_is_empty src")
  case True
  then have "buffer_content src = []" by (simp add: buffer_string_is_empty_def buffer_content_def)
  moreover obtain b1 rest where b1: "buffer_string_prepare_copy dest 0 = Some (b1, 0)" "b_used b1 = 1"
      "b_ptr b1 = Some NUL # rest" "b_size b1 = length (b_ptr b1)" "b_size b1 \<le> PTRDIFF_MAX"
    using buffer_prepare_copy_ok [OF assms(1), of 0] by (auto simp: fits_def PTRDIFF_MAX_def)
  ultimately show ?thesis
    using True buffer_wfI [of b1 "[]" rest] by (simp add: buffer_path_simplify_def simplified_def)
next
  case False
  then have used: "0 < b_used src" "buffer_content src \<noteq> []"
    using length_buffer_content [OF assms(2)] by (auto simp: buffer_string_is_empty_def)
  then have z: "peek (b_ptr src) (b_used src - 1) = Some NUL"
    using assms(2) by (auto simp: peek_def buffer_wf_def)
  let ?n = "length (buffer_content src) + 1"
  have add: "sz_add (buffer_string_length src) 1 = ?n"
    using assms(2,3) PTRDIFF_SIZE [of ?n] by (auto simp: buffer_string_length_content fits_def)
  obtain b1 where b1: "buffer_string_prepare_copy dest ?n = Some (b1, 0)" "b_size b1 = length (b_ptr b1)"
      "?n < b_size b1" "b_size b1 \<le> PTRDIFF_MAX"
    using buffer_prepare_copy_ok [OF assms(1,3)] by auto
  let ?s = "cstr (buffer_content src)"
  have "length ?s \<le> length (buffer_content src)" by (rule length_cstr)
  then have "\<exists>b'. path_simplify_body False (b_ptr src) b1 = Some b' \<and> buffer_wf b'
      \<and> buffer_abs b' = Some (path_simplify ?s)"
    using b1 assms(3) buffer_cstr_cells [OF assms(2) used(1)]
    by (intro path_simplify_body_ok) (auto elim: fits_mono)
  with False used(2) z add b1(1) show ?thesis
    by (simp add: buffer_path_simplify_def simplified_def)
qed

lemma buffer_path_simplify_inplace_ok:
  assumes "buffer_wf b" "fits (length (buffer_content b) + 1)"
  shows "\<exists>b'. buffer_path_simplify_inplace b = Some b' \<and> buffer_wf b' \<and> buffer_abs b' = Some (simplified b)"
proof (cases "buffer_string_is_empty b")
  case True
  then have "buffer_content b = []" by (simp add: buffer_string_is_empty_def buffer_content_def)
  moreover obtain b1 rest where b1: "buffer_string_prepare_copy b 0 = Some (b1, 0)" "b_used b1 = 1"
      "b_ptr b1 = Some NUL # rest" "b_size b1 = length (b_ptr b1)" "b_size b1 \<le> PTRDIFF_MAX"
    using buffer_prepare_copy_ok [OF assms(1), of 0] by (auto simp: fits_def PTRDIFF_MAX_def)
  ultimately show ?thesis
    using True buffer_wfI [of b1 "[]" rest] by (simp add: buffer_path_simplify_inplace_def simplified_def)
next
  case False
  then have used: "0 < b_used b" "buffer_content b \<noteq> []"
    using length_buffer_content [OF assms(1)] by (auto simp: buffer_string_is_empty_def)
  then have z: "peek (b_ptr b) (b_used b - 1) = Some NUL"
    using assms(1) by (auto simp: peek_def buffer_wf_def)
  obtain b1 rest where b1: "buffer_string_prepare_append b 1 = Some (b1, length (buffer_content b))"
      "b_ptr b1 = map Some (buffer_content b) @ Some NUL # rest"
      "b_used b1 = Suc (length (buffer_content b))" "b_size b1 = length (b_ptr b1)"
      "b_size b1 \<le> PTRDIFF_MAX" "length (buffer_content b) + 1 < b_size b1"
    using buffer_prepare_append_ok [OF assms(1), of 1] assms(2) by blast
  let ?s = "cstr (buffer_content b)"
  have wf1: "buffer_wf b1" "buffer_content b1 = buffer_content b"
    using buffer_wfI [OF b1(2,3,4,5)] by simp_all
  have "length ?s \<le> length (buffer_content b)" by (rule length_cstr)
  then have "\<exists>b'. path_simplify_body True (b_ptr b1) b1 = Some b' \<and> buffer_wf b'
      \<and> buffer_abs b' = Some (path_simplify ?s)"
    using b1(3-6) assms(2) buffer_cstr_cells [OF wf1(1)] wf1(2)
    by (intro path_simplify_body_ok) (auto elim: fits_mono)
  with False used(2) z b1(1) show ?thesis
    by (simp add: buffer_path_simplify_inplace_def simplified_def)
qed

section \<open>Simplified paths\<close>

definition plain_component :: "string \<Rightarrow> bool" where
  "plain_component x \<longleftrightarrow> x \<noteq> ''.'' \<and> x \<noteq> ''..'' \<and> CHR ''/'' \<notin> set x"

text \<open>
  The shape of a simplified path: components that are not empty, not \<open>.\<close> and not
  \<open>..\<close>, and a last one that may be empty (the trailing slash).
\<close>

definition canonical_path :: "string list \<Rightarrow> bool" where
  "canonical_path st \<longleftrightarrow> st \<noteq> [] \<and> (\<forall>y\<in>set st. plain_component y) \<and> [] \<notin> set (tl st)"

lemma path_run_canonical:
  assumes "\<forall>y\<in>set st. plain_component y \<and> y \<noteq> []" "CHR ''/'' \<notin> set x"
  shows "canonical_path (path_run st x t)"
  using assms
proof (induction st x t rule: path_run.induct)
  case (1 st x)
  then show ?case
    by (cases st) (auto simp: path_last_def canonical_path_def plain_component_def)
next
  case (2 st x c s)
  have "\<forall>y\<in>set (path_push st x). plain_component y \<and> y \<noteq> []"
    using 2(3,4) by (cases st) (auto simp: path_push_def plain_component_def)
  with 2 show ?case by auto
qed

lemma path_components_canonical: "canonical_path (path_components s)"
  unfolding path_components_def
  by (split list.split) (intro conjI allI impI path_run_canonical; simp)

lemma path_simplify_slash: "\<exists>t. path_simplify s = CHR ''/'' # t"
proof -
  have "path_components s \<noteq> []" using path_components_canonical by (simp add: canonical_path_def)
  then have "rev (path_components s) \<noteq> []" by simp
  then show ?thesis
    by (cases "rev (path_components s)") (auto simp: path_simplify_def path_render_def)
qed

lemma path_run_append:
  "CHR ''/'' \<notin> set z \<Longrightarrow> path_run st x (z @ s) = path_run st (x @ z) s"
  by (induction z arbitrary: x) auto

lemma path_run_render:
  "\<forall>y\<in>set (ys @ [z]). plain_component y \<Longrightarrow> [] \<notin> set ys \<Longrightarrow>
   path_run st [] (tl (concat (map ((#) CHR ''/'') (ys @ [z])))) = z # rev ys @ st"
proof (induction ys arbitrary: st)
  case Nil
  then show ?case
    using path_run_append [of z st "[]" "[]"]
    by (auto simp: plain_component_def path_last_def)
next
  case (Cons y ys)
  obtain t where t: "concat (map ((#) CHR ''/'') (ys @ [z])) = CHR ''/'' # t" by (cases ys) auto
  have "path_push st y = y # st" using Cons.prems by (auto simp: path_push_def plain_component_def)
  then show ?case
    using Cons path_run_append [of y st "[]" "CHR ''/'' # t"] t
    by (auto simp: plain_component_def)
qed

text \<open>Simplifying twice changes nothing.\<close>

lemma path_simplify_idem: "path_simplify (path_simplify s) = path_simplify s"
proof -
  obtain z st where comps: "path_components s = z # st"
    using path_components_canonical [of s] by (cases "path_components s") (auto simp: canonical_path_def)
  then have can: "\<forall>y\<in>set (rev st @ [z]). plain_component y" "[] \<notin> set (rev st)"
    using path_components_canonical [of s] by (auto simp: canonical_path_def)
  have p: "path_simplify s = concat (map ((#) CHR ''/'') (rev st @ [z]))"
    by (simp add: path_simplify_def path_render_def comps)
  obtain t where t: "path_simplify s = CHR ''/'' # t" using path_simplify_slash by blast
  have "path_components (path_simplify s) = path_run [] [] (tl (path_simplify s))"
    by (simp add: t path_components_def)
  also have "\<dots> = z # st" unfolding p using path_run_render [OF can, of "[]"] by simp
  finally show ?thesis by (simp add: path_simplify_def comps)
qed

section \<open>Properties\<close>

lemma path_run_no_nul:
  "\<forall>y\<in>set st. NUL \<notin> set y \<Longrightarrow> NUL \<notin> set x \<Longrightarrow> NUL \<notin> set s \<Longrightarrow> \<forall>y\<in>set (path_run st x s). NUL \<notin> set y"
proof (induction st x s rule: path_run.induct)
  case (1 st x)
  then show ?case by (cases st) (auto simp: path_last_def)
next
  case (2 st x c s)
  moreover have "\<forall>y\<in>set (path_push st x). NUL \<notin> set y" using 2(3,4) by (cases st) (auto simp: path_push_def)
  ultimately show ?case by auto
qed

lemma path_simplify_no_nul:
  assumes "NUL \<notin> set s"
  shows "NUL \<notin> set (path_simplify s)"
proof -
  have run: "NUL \<notin> set x \<Longrightarrow> NUL \<notin> set r \<Longrightarrow> y \<in> set (path_run [] x r) \<Longrightarrow> NUL \<notin> set y" for x r y
    using path_run_no_nul [of "[]" x r] by (metis empty_iff list.set(1))
  have "NUL \<notin> set (dropWhile (\<lambda>c. c = SP) s)" using assms by (auto dest: set_dropWhileD)
  then obtain x r where "path_components s = path_run [] x r" "NUL \<notin> set x" "NUL \<notin> set r"
  proof (cases "dropWhile (\<lambda>c. c = SP) s")
    case Nil
    have "path_components s = path_run [] [] []" by (simp only: path_components_def Nil list.case)
    then show ?thesis using that [of "[]" "[]"] by simp
  next
    case (Cons c r)
    have "path_components s = path_run [] (if c = CHR ''/'' then [] else [c]) r"
      unfolding path_components_def Cons by simp
    moreover assume "NUL \<notin> set (dropWhile (\<lambda>c. c = SP) s)"
    ultimately show ?thesis using that [of "if c = CHR ''/'' then [] else [c]" r] unfolding Cons by auto
  qed
  then have "\<forall>y\<in>set (path_components s). NUL \<notin> set y" using run by metis
  then show ?thesis by (auto simp: path_simplify_def path_render_def)
qed

text \<open>
  C31. Simplifying a path in place and into another buffer both succeed and give the path of
  the stack machine \<open>path_simplify\<close>, up to the first NUL of the text: the in-place loop, which
  reads and writes the same cells, does not read what it has overwritten.
\<close>

theorem path_simplify_refines:
  assumes "buffer_wf dest" "buffer_wf src" "fits (length (buffer_content src) + 1)"
  shows "\<exists>b1 b2. buffer_path_simplify dest src = Some b1 \<and> buffer_path_simplify_inplace src = Some b2
           \<and> buffer_wf b1 \<and> buffer_wf b2 \<and> buffer_abs b1 = Some (simplified src)
           \<and> buffer_abs b2 = Some (simplified src)"
  using buffer_path_simplify_ok [OF assms] buffer_path_simplify_inplace_ok [OF assms(2,3)] by blast

theorem path_simplify_refines_witness:
  "\<exists>b1 b2. buffer_path_simplify buffer_init (buffer_of ''/a/../../b/./c'') = Some b1
     \<and> buffer_path_simplify_inplace (buffer_of ''/a/../../b/./c'') = Some b2
     \<and> buffer_wf b1 \<and> buffer_wf b2 \<and> buffer_abs b1 = Some ''/b/c'' \<and> buffer_abs b2 = Some ''/b/c''"
proof -
  have "path_simplify (cstr ''/a/../../b/./c'') = ''/b/c''"
    by (simp add: path_simplify_def path_components_def path_push_def path_last_def)
  then have "simplified (buffer_of ''/a/../../b/./c'') = ''/b/c''" by (simp add: simplified_def)
  moreover have "fits (length (buffer_content (buffer_of ''/a/../../b/./c'')) + 1)"
    by (simp add: fits_def PTRDIFF_MAX_def)
  ultimately show ?thesis
    using path_simplify_refines [of buffer_init "buffer_of ''/a/../../b/./c''"] by simp
qed

text \<open>
  C30. A simplified path cannot leave the document root: it is a sequence of components, each
  after a slash, none of which is \<open>.\<close> or \<open>..\<close> or contains a slash, and only the last may
  be empty.  Simplifying it again changes nothing.
\<close>

theorem path_simplify_no_traversal:
  assumes "buffer_wf b" "buffer_content b \<noteq> []" "fits (length (buffer_content b) + 1)"
  shows "\<exists>b' st. buffer_path_simplify_inplace b = Some b' \<and> buffer_wf b'
           \<and> buffer_abs b' = Some (concat (map ((#) CHR ''/'') (rev st)))
           \<and> st \<noteq> [] \<and> [] \<notin> set (tl st)
           \<and> (\<forall>y\<in>set st. y \<noteq> ''.'' \<and> y \<noteq> ''..'' \<and> CHR ''/'' \<notin> set y)
           \<and> simplified b' = buffer_content b'"
proof -
  let ?s = "cstr (buffer_content b)" let ?st = "path_components ?s"
  obtain b' where b': "buffer_path_simplify_inplace b = Some b'" "buffer_wf b'"
      "buffer_abs b' = Some (path_simplify ?s)"
    using buffer_path_simplify_inplace_ok [OF assms(1,3)] assms(2) by (auto simp: simplified_def)
  have c: "buffer_content b' = path_simplify ?s" using b'(3) by (rule buffer_content_abs)
  have "NUL \<notin> set (path_simplify ?s)" by (rule path_simplify_no_nul) simp
  moreover have "path_simplify ?s \<noteq> []" using path_simplify_slash [of ?s] by auto
  ultimately have "simplified b' = buffer_content b'"
    by (simp add: simplified_def c path_simplify_idem)
  moreover have "canonical_path ?st" by (rule path_components_canonical)
  moreover have "path_simplify ?s = concat (map ((#) CHR ''/'') (rev ?st))"
    by (simp add: path_simplify_def path_render_def)
  ultimately show ?thesis using b' unfolding canonical_path_def plain_component_def by auto
qed

theorem path_simplify_no_traversal_witness:
  "\<exists>b' st. buffer_path_simplify_inplace (buffer_of ''/../../etc//passwd'') = Some b' \<and> buffer_wf b'
     \<and> buffer_abs b' = Some (concat (map ((#) CHR ''/'') (rev st)))
     \<and> st \<noteq> [] \<and> [] \<notin> set (tl st)
     \<and> (\<forall>y\<in>set st. y \<noteq> ''.'' \<and> y \<noteq> ''..'' \<and> CHR ''/'' \<notin> set y)
     \<and> simplified b' = buffer_content b'"
  using path_simplify_no_traversal [of "buffer_of ''/../../etc//passwd''"]
  by (simp add: fits_def PTRDIFF_MAX_def)

end
