(* ===== verification/Arrays.thy ===== *)
theory Arrays
  imports Format
begin

text \<open>
  The keyed arrays of \<open>src/src/array.c\<close> with the entry types of
  \<open>src/src/data_string.c\<close> and \<open>src/src/data_integer.c\<close>: request and response headers,
  environments and configuration values.  Entries stand in insertion order in \<open>data\<close>;
  \<open>sorted\<close> lists their indices by key, compared without case, for a binary search.

  Keys and values are buffers seen through \<open>buffer_abs\<close>: \<open>None\<close> is an unset buffer.  The
  entries of nested arrays and configurations (\<open>TYPE_ARRAY\<close>, \<open>TYPE_CONFIG\<close>) carry no
  payload here.  \<open>a_data\<close> has all \<open>size\<close> slots (\<open>None\<close> is a NULL slot); slots from
  \<open>used\<close> on hold entries kept for reuse.  \<open>a_sorted\<close> is the part of the index in use.
\<close>

section \<open>Entries\<close>

datatype data_type_t =
    TYPE_UNSET | TYPE_STRING | TYPE_RESPONSE | TYPE_FIXED_HEADER | TYPE_AUTH
  | TYPE_ARRAY | TYPE_INTEGER | TYPE_CONFIG

record data_unset =
  du_type :: data_type_t
  du_key :: "string option"
  du_is_index_key :: bool
  du_value :: "string option"
  du_int :: int

definition data_string_init :: data_unset where
  "data_string_init = \<lparr>du_type = TYPE_STRING, du_key = None, du_is_index_key = False,
     du_value = None, du_int = 0\<rparr>"

definition data_integer_init :: data_unset where
  "data_integer_init = \<lparr>du_type = TYPE_INTEGER, du_key = None, du_is_index_key = False,
     du_value = None, du_int = 0\<rparr>"

text \<open>The \<open>reset\<close> methods; fixed headers are shared and keep their contents.\<close>

definition data_string_reset :: "data_unset \<Rightarrow> data_unset" where
  "data_string_reset ds = ds\<lparr>du_key := None, du_value := None\<rparr>"

definition data_response_reset :: "data_unset \<Rightarrow> data_unset" where
  "data_response_reset ds = ds\<lparr>du_value := None\<rparr>"

definition data_integer_reset :: "data_unset \<Rightarrow> data_unset" where
  "data_integer_reset ds = ds\<lparr>du_key := None, du_int := 0\<rparr>"

fun data_reset_as :: "data_type_t \<Rightarrow> data_unset \<Rightarrow> data_unset" where
  "data_reset_as TYPE_STRING d = data_string_reset d"
| "data_reset_as TYPE_RESPONSE d = data_response_reset d"
| "data_reset_as TYPE_INTEGER d = data_integer_reset d"
| "data_reset_as TYPE_FIXED_HEADER d = d"
| "data_reset_as t d = d\<lparr>du_key := None\<rparr>"

definition data_reset :: "data_unset \<Rightarrow> data_unset" where
  "data_reset d = data_reset_as (du_type d) d"

text \<open>
  The \<open>insert_dup\<close> methods combine an entry with a second one of the same key.
  \<open>buffer_copy_buffer\<close> from an unset buffer leaves the empty string, not an unset buffer.
\<close>

definition buffer_copied :: "string option \<Rightarrow> string option" where
  "buffer_copied s = Some (abs_bytes s)"

definition buffer_joined :: "string option \<Rightarrow> string list \<Rightarrow> string option" where
  "buffer_joined s ts = Some (abs_bytes s @ concat ts)"

definition data_string_insert_dup :: "data_unset \<Rightarrow> data_unset \<Rightarrow> data_unset" where
  "data_string_insert_dup dst src =
     (if du_value dst \<noteq> None
      then dst\<lparr>du_value := buffer_joined (du_value dst) ['', '', abs_bytes (du_value src)]\<rparr>
      else dst\<lparr>du_value := buffer_copied (du_value src)\<rparr>)"

definition data_response_insert_dup :: "data_unset \<Rightarrow> data_unset \<Rightarrow> data_unset" where
  "data_response_insert_dup dst src =
     (if du_value dst \<noteq> None
      then dst\<lparr>du_value := buffer_joined (du_value dst)
             [CRLF, abs_bytes (du_key dst), '': '', abs_bytes (du_value src)]\<rparr>
      else dst\<lparr>du_value := buffer_copied (du_value src)\<rparr>)"

definition data_integer_insert_dup :: "data_unset \<Rightarrow> data_unset \<Rightarrow> data_unset" where
  "data_integer_insert_dup dst src = dst"

fun insert_dup_as :: "data_type_t \<Rightarrow> data_unset \<Rightarrow> data_unset \<Rightarrow> data_unset" where
  "insert_dup_as TYPE_STRING dst src = data_string_insert_dup dst src"
| "insert_dup_as TYPE_RESPONSE dst src = data_response_insert_dup dst src"
| "insert_dup_as TYPE_FIXED_HEADER dst src = data_response_insert_dup dst src"
| "insert_dup_as t dst src = data_integer_insert_dup dst src"

section \<open>Arrays\<close>

record array =
  a_data :: "data_unset option list"
  a_sorted :: "nat list"
  a_used :: nat
  a_size :: nat
  a_unique_ndx :: nat

definition array_init :: array where
  "array_init = \<lparr>a_data = [], a_sorted = [], a_used = 0, a_size = 0, a_unique_ndx = 0\<rparr>"

text \<open>\<open>array_reset\<close> resets the entries in use and keeps them as unused slots.\<close>

definition array_reset :: "array \<Rightarrow> array" where
  "array_reset a = a\<lparr>a_data := map (map_option data_reset) (take (a_used a) (a_data a)) @ drop (a_used a) (a_data a),
     a_sorted := [], a_used := 0, a_unique_ndx := 0\<rparr>"

definition nth_opt :: "'a list \<Rightarrow> nat \<Rightarrow> 'a option" where
  "nth_opt xs i = (if i < length xs then Some (xs ! i) else None)"

definition array_pop :: "array \<Rightarrow> (data_unset option \<times> array) option" where
  "array_pop a = do {
     force_assert (a_used a \<noteq> 0);
     let n = a_used a - 1;
     du \<leftarrow> nth_opt (a_data a) n;
     s \<leftarrow> nth_opt (a_sorted a) n;
     force_assert (s = n);
     Some (du, a\<lparr>a_used := n, a_sorted := take n (a_sorted a), a_data := (a_data a)[n := None]\<rparr>)
   }"

text \<open>
  The binary search of \<open>array_get_index\<close>: the index of the entry (\<open>None\<close> is
  \<open>ARRAY_NOT_FOUND\<close>) and the position in \<open>sorted\<close>.
\<close>

function array_search ::
    "data_unset option list \<Rightarrow> nat list \<Rightarrow> string \<Rightarrow> nat \<Rightarrow> nat \<Rightarrow> (nat option \<times> nat) option" where
  "array_search data index key lower upper =
     (if lower = upper then Some (None, lower)
      else if upper < lower then None
      else (let probe = (lower + upper) div 2 in
        (case nth_opt index probe of
           None \<Rightarrow> None
         | Some ndx \<Rightarrow>
           (case nth_opt data ndx of
              Some (Some du) \<Rightarrow>
                (let cmp = buffer_caseless_compare key (abs_bytes (du_key du)) in
                 if cmp = 0 then Some (Some ndx, probe)
                 else if cmp < 0 then array_search data index key lower probe
                 else array_search data index key (probe + 1) upper)
            | _ \<Rightarrow> None))))"
  by pat_completeness auto
termination
  by (relation "measure (\<lambda>(data, index, key, lower, upper). upper - lower)") auto

declare array_search.simps [simp del]

definition array_get_index :: "array \<Rightarrow> string \<Rightarrow> (nat option \<times> nat) option" where
  "array_get_index a key = array_search (a_data a) (a_sorted a) key 0 (a_used a)"

definition array_get_element_klen :: "array \<Rightarrow> string \<Rightarrow> data_unset option option" where
  "array_get_element_klen a key = do {
     (ndx, pos) \<leftarrow> array_get_index a key;
     case ndx of None \<Rightarrow> Some None
     | Some i \<Rightarrow> nth_opt (a_data a) i
   }"

definition array_extract_element_klen :: "array \<Rightarrow> string \<Rightarrow> (data_unset option \<times> array) option" where
  "array_extract_element_klen a key = do {
     (ndx, pos) \<leftarrow> array_get_index a key;
     case ndx of None \<Rightarrow> Some (None, a)
     | Some ndx \<Rightarrow> do {
         let last_ndx = a_used a - 1;
         entry \<leftarrow> nth_opt (a_data a) ndx;
         (data, index) \<leftarrow>
           (if ndx \<noteq> last_ndx then do {
              last \<leftarrow> nth_opt (a_data a) last_ndx;
              last \<leftarrow> last;
              (i, last_elem_pos) \<leftarrow> array_get_index a (abs_bytes (du_key last));
              force_assert (i = Some last_ndx);
              Some ((a_data a)[ndx := Some last, last_ndx := None],
                    (a_sorted a)[last_elem_pos := ndx])
            } else Some ((a_data a)[ndx := None], a_sorted a));
         Some (entry, a\<lparr>a_data := data, a_sorted := take pos index @ drop (pos + 1) index,
                        a_used := last_ndx\<rparr>)
       }
   }"

definition array_get_unused_element :: "array \<Rightarrow> data_type_t \<Rightarrow> data_unset option \<times> array" where
  "array_get_unused_element a t =
     (case List.find (\<lambda>i. case a_data a ! i of Some d \<Rightarrow> du_type d = t | None \<Rightarrow> False) [a_used a..<a_size a] of
        None \<Rightarrow> (None, a)
      | Some i \<Rightarrow> (a_data a ! i, a\<lparr>a_data := (a_data a)[i := a_data a ! a_used a, a_used a := None]\<rparr>))"

text \<open>Room for one more entry: 16 slots at a time.\<close>

definition array_grow :: "array \<Rightarrow> array" where
  "array_grow a =
     (if a_size a = 0 then a\<lparr>a_size := 16, a_data := replicate 16 None\<rparr>
      else if a_size a = a_used a then a\<lparr>a_size := a_size a + 16, a_data := a_data a @ replicate 16 None\<rparr>
      else a)"

text \<open>\<open>(intmax_t)\<close> of a \<open>size_t\<close>, as \<open>buffer_copy_int\<close> receives the index.\<close>

definition size_to_int :: "nat \<Rightarrow> int" where
  "size_to_int n = (if n < 2 ^ 63 then int n else int n - 2 ^ 64)"

text \<open>
  The result holds the entry with its generated key, and the index of an entry that is
  already there (\<open>None\<close> is the NULL result: the entry was inserted).
\<close>

definition array_find_or_insert :: "array \<Rightarrow> data_unset \<Rightarrow> (nat option \<times> data_unset \<times> array) option" where
  "array_find_or_insert a entry = do {
     let (entry, a) =
       (if du_key entry = None \<or> du_is_index_key entry
        then (entry\<lparr>du_key := Some (itostr [] (size_to_int (a_unique_ndx a))), du_is_index_key := True\<rparr>,
              a\<lparr>a_unique_ndx := sz_add (a_unique_ndx a) 1\<rparr>)
        else (entry, a));
     (found, pos) \<leftarrow> array_get_index a (abs_bytes (du_key entry));
     case found of
       Some ndx \<Rightarrow> Some (Some ndx, entry, a)
     | None \<Rightarrow> do {
         let a = array_grow a;
         let ndx = a_used a;
         Some (None, entry,
           a\<lparr>a_data := (a_data a)[ndx := Some entry], a_used := ndx + 1,
             a_sorted := take pos (a_sorted a) @ ndx # drop pos (a_sorted a)\<rparr>)
       }
   }"

definition array_replace :: "array \<Rightarrow> data_unset \<Rightarrow> array option" where
  "array_replace a entry = do {
     (old, entry, a) \<leftarrow> array_find_or_insert a entry;
     case old of None \<Rightarrow> Some a
     | Some ndx \<Rightarrow> Some (a\<lparr>a_data := (a_data a)[ndx := Some entry]\<rparr>)
   }"

definition array_insert_unique :: "array \<Rightarrow> data_unset \<Rightarrow> array option" where
  "array_insert_unique a entry = do {
     (old, entry, a) \<leftarrow> array_find_or_insert a entry;
     case old of None \<Rightarrow> Some a
     | Some ndx \<Rightarrow> do {
         d \<leftarrow> nth_opt (a_data a) ndx;
         d \<leftarrow> d;
         force_assert (du_type d = du_type entry);
         Some (a\<lparr>a_data := (a_data a)[ndx := Some (insert_dup_as (du_type entry) d entry)]\<rparr>)
       }
   }"

definition array_set_key_value :: "array \<Rightarrow> string \<Rightarrow> string \<Rightarrow> array option" where
  "array_set_key_value hdrs key value = do {
     (ndx, pos) \<leftarrow> array_get_index hdrs key;
     case ndx of
       Some i \<Rightarrow> do {
         d \<leftarrow> nth_opt (a_data hdrs) i;
         d \<leftarrow> d;
         Some (hdrs\<lparr>a_data := (a_data hdrs)[i := Some (d\<lparr>du_value := Some value\<rparr>)]\<rparr>)
       }
     | None \<Rightarrow> do {
         let (unused, hdrs) = array_get_unused_element hdrs TYPE_STRING;
         let ds = (case unused of None \<Rightarrow> data_string_init | Some d \<Rightarrow> d);
         array_insert_unique hdrs (ds\<lparr>du_key := Some key, du_value := Some value\<rparr>)
       }
   }"

text \<open>The entries in use, in insertion order, and the tests on configuration lists.\<close>

definition array_entries :: "array \<Rightarrow> data_unset list" where
  "array_entries a = map the (take (a_used a) (a_data a))"

definition array_is_vlist :: "array \<Rightarrow> bool" where
  "array_is_vlist a \<longleftrightarrow> list_all (\<lambda>du. du_is_index_key du \<and> du_type du = TYPE_STRING) (array_entries a)"

definition array_is_kvany :: "array \<Rightarrow> bool" where
  "array_is_kvany a \<longleftrightarrow> list_all (\<lambda>du. \<not> du_is_index_key du) (array_entries a)"

definition array_is_kvarray :: "array \<Rightarrow> bool" where
  "array_is_kvarray a \<longleftrightarrow> list_all (\<lambda>du. \<not> du_is_index_key du \<and> du_type du = TYPE_ARRAY) (array_entries a)"

definition array_is_kvstring :: "array \<Rightarrow> bool" where
  "array_is_kvstring a \<longleftrightarrow> list_all (\<lambda>du. \<not> du_is_index_key du \<and> du_type du = TYPE_STRING) (array_entries a)"

definition array_get_max_key_length :: "array \<Rightarrow> nat" where
  "array_get_max_key_length a = foldl (\<lambda>maxlen du. max maxlen (length (abs_bytes (du_key du)))) 0 (array_entries a)"

section \<open>The invariant\<close>

definition entry_key :: "data_unset \<Rightarrow> nat list" where
  "entry_key d = ckey (abs_bytes (du_key d))"

definition key_at :: "array \<Rightarrow> nat \<Rightarrow> nat list" where
  "key_at a i = entry_key (the (a_data a ! i))"

text \<open>
  \<open>sorted\<close> is a permutation of the used indices in strictly ascending order of their
  keys; so no two entries have the same key, up to case.
\<close>

definition array_wf :: "array \<Rightarrow> bool" where
  "array_wf a \<longleftrightarrow>
     length (a_data a) = a_size a \<and> a_used a \<le> a_size a \<and>
     distinct (a_sorted a) \<and> set (a_sorted a) = {..<a_used a} \<and>
     (\<forall>i<a_used a. a_data a ! i \<noteq> None) \<and>
     sorted_wrt (<) (map (key_at a) (a_sorted a))"

text \<open>What an array is to its clients: a map from folded keys to entries.\<close>

definition array_view :: "array \<Rightarrow> nat list \<Rightarrow> data_unset option" where
  "array_view a = map_of (map (\<lambda>d. (entry_key d, d)) (array_entries a))"

lemma array_wfD:
  assumes "array_wf a"
  shows "length (a_data a) = a_size a" "a_used a \<le> a_size a" "distinct (a_sorted a)"
    "set (a_sorted a) = {..<a_used a}" "length (a_sorted a) = a_used a"
    "\<And>i. i < a_used a \<Longrightarrow> a_data a ! i \<noteq> None"
    "sorted_wrt (<) (map (key_at a) (a_sorted a))"
  using assms distinct_card [of "a_sorted a"] by (auto simp: array_wf_def)

lemma array_init_wf [simp, array_inv]: "array_wf array_init" "array_view array_init = Map.empty"
  by (simp_all add: array_wf_def array_init_def array_view_def array_entries_def)

lemma array_reset_wf [array_inv]:
  "array_wf a \<Longrightarrow> array_wf (array_reset a)" "array_view (array_reset a) = Map.empty"
  by (auto simp: array_wf_def array_reset_def array_view_def array_entries_def)

lemma entries_nth:
  "i < a_used a \<Longrightarrow> a_used a \<le> length (a_data a) \<Longrightarrow> array_entries a ! i = the (a_data a ! i)"
  by (simp add: array_entries_def)

lemma length_entries: "array_wf a \<Longrightarrow> length (array_entries a) = a_used a"
  by (simp add: array_entries_def array_wf_def)

lemma key_at_inj:
  assumes "array_wf a" "i < a_used a" "j < a_used a" "key_at a i = key_at a j"
  shows "i = j"
proof -
  note wf = array_wfD [OF assms(1)]
  have "distinct (map (key_at a) (a_sorted a))"
    using wf(7) strict_sorted_iff by auto
  then have "inj_on (key_at a) {..<a_used a}" using wf(4) by (simp add: distinct_map)
  then show ?thesis using assms by (auto dest: inj_onD)
qed

lemma distinct_keys:
  assumes "array_wf a"
  shows "distinct (map entry_key (array_entries a))"
  using key_at_inj [OF assms] array_wfD(1,2) [OF assms] length_entries [OF assms]
  by (auto simp: distinct_conv_nth key_at_def entries_nth)

lemma array_view_iff:
  assumes "array_wf a"
  shows "array_view a k = Some d \<longleftrightarrow> (\<exists>i<a_used a. a_data a ! i = Some d \<and> entry_key d = k)"
proof -
  have "distinct (map fst (map (\<lambda>d. (entry_key d, d)) (array_entries a)))"
    using distinct_keys [OF assms] by (simp add: comp_def)
  then have "array_view a k = Some d \<longleftrightarrow> d \<in> set (array_entries a) \<and> entry_key d = k"
    unfolding array_view_def by (subst map_of_eq_Some_iff) auto
  then show ?thesis
    using array_wfD(1,2,6) [OF assms] length_entries [OF assms]
    by (auto simp: in_set_conv_nth entries_nth)
qed

lemma array_view_None:
  assumes "array_wf a"
  shows "array_view a k = None \<longleftrightarrow> (\<forall>i<a_used a. key_at a i \<noteq> k)"
proof -
  have "array_view a k \<noteq> None \<longleftrightarrow> (\<exists>i<a_used a. \<exists>d. a_data a ! i = Some d \<and> entry_key d = k)"
    using array_view_iff [OF assms, of k] by auto
  also have "\<dots> \<longleftrightarrow> (\<exists>i<a_used a. key_at a i = k)"
    using array_wfD(6) [OF assms] by (force simp: key_at_def)
  finally show ?thesis by blast
qed

text \<open>Two arrays with the same lookups have the same view.\<close>

lemma array_view_eqI:
  assumes "array_wf a" "\<And>k d. m k = Some d \<longleftrightarrow> (\<exists>i<a_used a. a_data a ! i = Some d \<and> entry_key d = k)"
  shows "array_view a = m"
proof
  fix k show "array_view a k = m k"
    using array_view_iff [OF assms(1), of k] assms(2) [of k] by (metis not_Some_eq)
qed

section \<open>Searching\<close>

text \<open>
  A hit has the key; a miss reports the position in front of which the key belongs.
\<close>

definition search_result :: "array \<Rightarrow> string \<Rightarrow> nat option \<Rightarrow> nat \<Rightarrow> bool" where
  "search_result a key ndx pos \<longleftrightarrow>
     (case ndx of
        Some i \<Rightarrow> pos < a_used a \<and> a_sorted a ! pos = i \<and> i < a_used a \<and> key_at a i = ckey key
      | None \<Rightarrow> pos \<le> a_used a \<and>
          (\<forall>i<pos. key_at a (a_sorted a ! i) < ckey key) \<and>
          (\<forall>i<a_used a. pos \<le> i \<longrightarrow> ckey key < key_at a (a_sorted a ! i)))"

lemma array_search_ok:
  assumes "array_wf a" "lower \<le> upper" "upper \<le> a_used a"
    "\<forall>i<lower. key_at a (a_sorted a ! i) < ckey key"
    "\<forall>i<a_used a. upper \<le> i \<longrightarrow> ckey key < key_at a (a_sorted a ! i)"
  shows "\<exists>ndx pos. array_search (a_data a) (a_sorted a) key lower upper = Some (ndx, pos)
           \<and> search_result a key ndx pos"
  using assms(2-)
proof (induction "upper - lower" arbitrary: lower upper rule: less_induct)
  case less
  note wf = array_wfD [OF assms(1)]
  show ?case
  proof (cases "lower = upper")
    case True
    with less.prems show ?thesis by (simp add: array_search.simps search_result_def)
  next
    case False
    define probe where "probe = (lower + upper) div 2"
    have probe: "lower \<le> probe" "probe < upper" "probe < a_used a"
      using False less.prems(1,2) by (auto simp: probe_def)
    define ndx where "ndx = a_sorted a ! probe"
    have ndx: "ndx < a_used a" using probe(3) wf(4,5) nth_mem [of probe "a_sorted a"] by (auto simp: ndx_def)
    then obtain d where d: "a_data a ! ndx = Some d" using wf(6) by blast
    have kd: "entry_key d = key_at a ndx" by (simp add: key_at_def d)
    have asc: "key_at a (a_sorted a ! i) < key_at a (a_sorted a ! j)" if "i < j" "j < a_used a" for i j
      using wf(5,7) that by (auto simp: sorted_wrt_iff_nth_less)
    define cmp where "cmp = buffer_caseless_compare key (abs_bytes (du_key d))"
    have step: "array_search (a_data a) (a_sorted a) key lower upper =
        (if cmp = 0 then Some (Some ndx, probe)
         else if cmp < 0 then array_search (a_data a) (a_sorted a) key lower probe
         else array_search (a_data a) (a_sorted a) key (probe + 1) upper)"
      using False less.prems(1) probe wf(1,2,5) ndx d
      by (subst array_search.simps)
        (simp add: nth_opt_def probe_def [symmetric] ndx_def [symmetric] cmp_def)
    consider "cmp = 0" | "cmp < 0" | "0 < cmp" by linarith
    then show ?thesis
    proof cases
      case 1
      then have "key_at a ndx = ckey key"
        using kd by (simp add: cmp_def compare_zero_iff entry_key_def)
      then show ?thesis
        using step 1 probe(3) ndx by (simp add: search_result_def ndx_def)
    next
      case 2
      then have "ckey key < key_at a ndx"
        using kd by (simp add: cmp_def compare_less_iff entry_key_def)
      then have "\<forall>i<a_used a. probe \<le> i \<longrightarrow> ckey key < key_at a (a_sorted a ! i)"
        using asc [of probe] by (metis le_neq_implies_less ndx_def order.strict_trans)
      then show ?thesis
        using less.hyps [of probe lower] less.prems probe step 2 by auto
    next
      case 3
      then have "key_at a ndx < ckey key"
        using kd by (simp add: cmp_def compare_greater_iff entry_key_def)
      then have "\<forall>i<probe + 1. key_at a (a_sorted a ! i) < ckey key"
        using asc [of _ probe] probe(3) by (metis less_Suc_eq ndx_def order.strict_trans Suc_eq_plus1)
      then show ?thesis
        using less.hyps [of upper "probe + 1"] less.prems probe step 3 by auto
    qed
  qed
qed

lemma array_get_index_ok:
  assumes "array_wf a"
  obtains ndx pos where "array_get_index a key = Some (ndx, pos)" "search_result a key ndx pos"
  using array_search_ok [OF assms, of 0 "a_used a" key] by (auto simp: array_get_index_def)

lemma search_result_view:
  assumes "array_wf a" "search_result a key ndx pos"
  shows "array_view a (ckey key) = (case ndx of None \<Rightarrow> None | Some i \<Rightarrow> a_data a ! i)"
proof (cases ndx)
  case None
  have "key_at a i \<noteq> ckey key" if "i < a_used a" for i
  proof -
    have "i \<in> set (a_sorted a)" using that array_wfD(4) [OF assms(1)] by simp
    then obtain p where p: "p < a_used a" "a_sorted a ! p = i"
      unfolding in_set_conv_nth array_wfD(5) [OF assms(1)] by blast
    have lt: "\<forall>j<pos. key_at a (a_sorted a ! j) < ckey key"
        and gt: "\<forall>j<a_used a. pos \<le> j \<longrightarrow> ckey key < key_at a (a_sorted a ! j)"
      using assms(2) None by (simp_all add: search_result_def)
    show ?thesis
    proof (cases "p < pos")
      case True
      then have "key_at a (a_sorted a ! p) < ckey key" using lt by blast
      then show ?thesis by (simp add: p(2))
    next
      case False
      then have "ckey key < key_at a (a_sorted a ! p)" using gt p(1) by simp
      then show ?thesis by (simp add: p(2))
    qed
  qed
  then show ?thesis using None array_view_None [OF assms(1)] by simp
next
  case (Some i)
  then have i: "i < a_used a" "key_at a i = ckey key" using assms(2) by (auto simp: search_result_def)
  then obtain d where d: "a_data a ! i = Some d" using array_wfD(6) [OF assms(1)] by blast
  then have "array_view a (ckey key) = Some d"
    using i by (subst array_view_iff [OF assms(1)]) (auto simp: key_at_def)
  then show ?thesis using d Some by simp
qed

text \<open>A successful search for the key of an entry finds its position.\<close>

lemma search_result_entry:
  assumes "array_wf a" "search_result a key ndx pos" "i < a_used a" "key_at a i = ckey key"
  shows "ndx = Some i" "a_sorted a ! pos = i" "pos < a_used a"
proof -
  have "array_view a (ckey key) \<noteq> None" using array_view_None [OF assms(1)] assms(3,4) by blast
  then obtain j where ndx: "ndx = Some j"
    using search_result_view [OF assms(1,2)] by (cases ndx) auto
  then have j: "j < a_used a" "key_at a j = ckey key" "a_sorted a ! pos = j" "pos < a_used a"
    using assms(2) by (simp_all add: search_result_def)
  then have "j = i" using key_at_inj [OF assms(1) j(1) assms(3)] assms(4) by simp
  with j ndx show "ndx = Some i" "a_sorted a ! pos = i" "pos < a_used a" by auto
qed

lemma array_get_element_ok:
  assumes "array_wf a"
  shows "array_get_element_klen a key = Some (array_view a (ckey key))"
proof -
  obtain ndx pos where r: "array_get_index a key = Some (ndx, pos)" "search_result a key ndx pos"
    using array_get_index_ok [OF assms] by blast
  then show ?thesis
    using search_result_view [OF assms r(2)] array_wfD(1,2) [OF assms]
    by (cases ndx) (auto simp: array_get_element_klen_def nth_opt_def search_result_def)
qed

section \<open>Inserting\<close>

lemma nth_opt_Some [simp]: "nth_opt xs i = Some x \<longleftrightarrow> i < length xs \<and> xs ! i = x"
  by (simp add: nth_opt_def)

lemma nth_opt_in [simp]: "i < length xs \<Longrightarrow> nth_opt xs i = Some (xs ! i)"
  by simp

lemma array_grow_wf:
  assumes "array_wf a"
  shows "array_wf (array_grow a)" "a_used (array_grow a) < a_size (array_grow a)"
    "a_used (array_grow a) = a_used a" "a_sorted (array_grow a) = a_sorted a"
    "\<And>i. i < a_used a \<Longrightarrow> a_data (array_grow a) ! i = a_data a ! i"
    "set (a_data (array_grow a)) \<subseteq> insert None (set (a_data a))"
proof -
  note wf = array_wfD [OF assms]
  show data: "\<And>i. i < a_used a \<Longrightarrow> a_data (array_grow a) ! i = a_data a ! i"
    using wf(1,2) by (auto simp: array_grow_def nth_append)
  show used: "a_used (array_grow a) = a_used a" "a_sorted (array_grow a) = a_sorted a"
    by (auto simp: array_grow_def)
  show "a_used (array_grow a) < a_size (array_grow a)"
    using wf(2) by (auto simp: array_grow_def)
  show "set (a_data (array_grow a)) \<subseteq> insert None (set (a_data a))"
    by (auto simp: array_grow_def)
  have "length (a_data (array_grow a)) = a_size (array_grow a)"
    using wf(1) by (auto simp: array_grow_def)
  moreover have "a_used (array_grow a) \<le> a_size (array_grow a)"
    using wf(2) by (auto simp: array_grow_def)
  moreover have "map (key_at (array_grow a)) (a_sorted a) = map (key_at a) (a_sorted a)"
    using data wf(4) by (auto simp: key_at_def)
  then have "sorted_wrt (<) (map (key_at (array_grow a)) (a_sorted a))" by (simp only: wf(7))
  ultimately show "array_wf (array_grow a)"
    using wf data used unfolding array_wf_def by simp
qed

lemma sorted_wrt_insert_at:
  fixes ks :: "'a::linorder list"
  assumes "sorted_wrt (<) ks" "\<forall>i<pos. ks ! i < k" "\<forall>i<length ks. pos \<le> i \<longrightarrow> k < ks ! i"
    "pos \<le> length ks"
  shows "sorted_wrt (<) (take pos ks @ k # drop pos ks)"
proof -
  have "\<forall>x\<in>set (take pos ks). x < k" using assms(2,4) by (auto simp: in_set_conv_nth)
  moreover have "\<forall>y\<in>set (drop pos ks). k < y" using assms(3) by (auto simp: in_set_conv_nth)
  moreover have "sorted_wrt (<) (take pos ks @ drop pos ks)" using assms(1) by simp
  ultimately show ?thesis unfolding sorted_wrt_append sorted_wrt.simps by fastforce
qed

text \<open>Putting a new entry behind the others, with its index at the place the search reported.\<close>

definition array_put :: "array \<Rightarrow> nat \<Rightarrow> data_unset \<Rightarrow> array" where
  "array_put a pos entry =
     a\<lparr>a_data := (a_data a)[a_used a := Some entry], a_used := a_used a + 1,
       a_sorted := take pos (a_sorted a) @ a_used a # drop pos (a_sorted a)\<rparr>"

lemma array_put_wf:
  assumes "array_wf a" "a_used a < a_size a" "search_result a key None pos" "ckey key = entry_key entry"
  shows "array_wf (array_put a pos entry)"
    "array_view (array_put a pos entry) = (array_view a)(entry_key entry \<mapsto> entry)"
proof -
  let ?a = "array_put a pos entry" and ?n = "a_used a"
  note wf = array_wfD [OF assms(1)]
  have pos: "pos \<le> ?n" using assms(3) by (simp add: search_result_def)
  have keys: "key_at ?a i = (if i = ?n then entry_key entry else key_at a i)" for i
    using wf(1) assms(2) by (simp add: key_at_def array_put_def)
  have n: "?n \<notin> set (a_sorted a)" using wf(4) by simp
  have srt: "a_sorted ?a = take pos (a_sorted a) @ ?n # drop pos (a_sorted a)"
    by (simp add: array_put_def)
  have "map (key_at ?a) (a_sorted ?a) =
      take pos (map (key_at a) (a_sorted a)) @ entry_key entry # drop pos (map (key_at a) (a_sorted a))"
    unfolding srt using n by (auto simp: keys take_map drop_map dest: in_set_takeD in_set_dropD)
  moreover have "sorted_wrt (<) \<dots>"
    by (rule sorted_wrt_insert_at)
      (use assms(3,4) wf(5,7) in \<open>auto simp: search_result_def\<close>)
  ultimately have sorted: "sorted_wrt (<) (map (key_at ?a) (a_sorted ?a))" by simp
  have "set (a_sorted ?a) = insert ?n (set (take pos (a_sorted a) @ drop pos (a_sorted a)))"
    unfolding srt by (simp del: append_take_drop_id)
  also have "\<dots> = insert ?n {..<?n}" by (simp only: append_take_drop_id wf(4))
  also have "\<dots> = {..<a_used ?a}" by (simp add: lessThan_Suc array_put_def)
  finally have set: "set (a_sorted ?a) = {..<a_used ?a}" .
  have dist: "distinct (a_sorted ?a)"
  proof -
    have "distinct (?n # take pos (a_sorted a) @ drop pos (a_sorted a))" using wf(3) n by simp
    then show ?thesis unfolding srt by (auto simp del: append_take_drop_id)
  qed
  show wf': "array_wf ?a"
    unfolding array_wf_def
    using sorted set dist wf(1,6) assms(2) by (auto simp: array_put_def less_Suc_eq)
  show "array_view ?a = (array_view a)(entry_key entry \<mapsto> entry)"
  proof (rule array_view_eqI [OF wf'])
    fix k d
    have none: "array_view a (entry_key entry) = None"
      using search_result_view [OF assms(1,3)] assms(4) by simp
    show "((array_view a)(entry_key entry \<mapsto> entry)) k = Some d \<longleftrightarrow>
        (\<exists>i<a_used ?a. a_data ?a ! i = Some d \<and> entry_key d = k)"
    proof (cases "k = entry_key entry")
      case True
      have "\<not> (\<exists>i<?n. a_data a ! i = Some d \<and> entry_key d = k)"
        using none True array_view_iff [OF assms(1), of k d] by simp
      then show ?thesis
        using True wf(1) assms(2) by (auto simp: array_put_def less_Suc_eq)
    next
      case False
      then show ?thesis
        using array_view_iff [OF assms(1), of k d] wf(1) assms(2)
        by (auto simp: array_put_def less_Suc_eq)
    qed
  qed
qed

text \<open>Exchanging an entry for one with the same key.\<close>

lemma array_update_wf:
  assumes "array_wf a" "i < a_used a" "entry_key d = key_at a i"
  shows "array_wf (a\<lparr>a_data := (a_data a)[i := Some d]\<rparr>)"
    "array_view (a\<lparr>a_data := (a_data a)[i := Some d]\<rparr>) = (array_view a)(entry_key d \<mapsto> d)"
proof -
  let ?a = "a\<lparr>a_data := (a_data a)[i := Some d]\<rparr>"
  note wf = array_wfD [OF assms(1)]
  have len: "i < length (a_data a)" using wf(1,2) assms(2) by simp
  have keys: "key_at ?a j = key_at a j" for j
    using assms(3) len by (cases "j = i") (auto simp: key_at_def)
  then have "map (key_at ?a) (a_sorted a) = map (key_at a) (a_sorted a)" by simp
  then have "sorted_wrt (<) (map (key_at ?a) (a_sorted a))" by (simp only: wf(7))
  then show wf': "array_wf ?a"
    using wf len unfolding array_wf_def by (auto simp: nth_list_update)
  show "array_view ?a = (array_view a)(entry_key d \<mapsto> d)"
  proof (rule array_view_eqI [OF wf'])
    fix k e
    have other: "j = i" if "j < a_used a" "key_at a j = entry_key d" for j
      using key_at_inj [OF assms(1) that(1) assms(2)] that(2) assms(3) by simp
    show "((array_view a)(entry_key d \<mapsto> d)) k = Some e \<longleftrightarrow>
        (\<exists>j<a_used ?a. a_data ?a ! j = Some e \<and> entry_key e = k)"
    proof (cases "k = entry_key d")
      case True
      have "a_data a ! j = Some e \<Longrightarrow> j < a_used a \<Longrightarrow> entry_key e = entry_key d \<Longrightarrow> j = i" for j
        using other [of j] by (simp add: key_at_def)
      then show ?thesis using True assms(2) len by (auto simp: nth_list_update)
    next
      case False
      have "a_data a ! i = Some e \<Longrightarrow> entry_key e = entry_key d" using assms(3) by (simp add: key_at_def)
      then show ?thesis
        using False array_view_iff [OF assms(1), of k e] len
        by (auto simp: nth_list_update)
    qed
  qed
qed

lemma array_search_cong:
  assumes "array_wf a" "array_wf b" "a_used b = a_used a" "a_sorted b = a_sorted a"
    "\<And>i. i < a_used a \<Longrightarrow> a_data b ! i = a_data a ! i" "search_result a key ndx pos"
  shows "search_result b key ndx pos"
proof -
  have "key_at b i = key_at a i" if "i < a_used a" for i using assms(5) that by (simp add: key_at_def)
  moreover have "a_sorted a ! i < a_used a" if "i < a_used a" for i
    using that array_wfD(4,5) [OF assms(1)] nth_mem [of i "a_sorted a"] by auto
  ultimately show ?thesis
    using assms(3,4,6) unfolding search_result_def by (cases ndx) auto
qed

lemma array_grow_view: "array_wf a \<Longrightarrow> array_view (array_grow a) = array_view a"
  using array_view_iff [of a] array_grow_wf(1,3,5) [of a]
  by (intro array_view_eqI) auto

definition keyed :: "data_unset \<Rightarrow> bool" where
  "keyed d \<longleftrightarrow> du_key d \<noteq> None \<and> \<not> du_is_index_key d"

lemma array_find_or_insert_ok:
  assumes "array_wf a" "keyed entry"
  shows "case array_view a (entry_key entry) of
      Some d \<Rightarrow> \<exists>ndx. array_find_or_insert a entry = Some (Some ndx, entry, a)
        \<and> ndx < a_used a \<and> a_data a ! ndx = Some d \<and> entry_key entry = key_at a ndx
    | None \<Rightarrow> \<exists>a'. array_find_or_insert a entry = Some (None, entry, a') \<and> array_wf a'
        \<and> array_view a' = (array_view a)(entry_key entry \<mapsto> entry)
        \<and> set (a_data a') \<subseteq> insert (Some entry) (insert None (set (a_data a)))"
proof -
  let ?key = "abs_bytes (du_key entry)"
  have ck: "ckey ?key = entry_key entry" by (simp add: entry_key_def)
  obtain ndx pos where r: "array_get_index a ?key = Some (ndx, pos)" "search_result a ?key ndx pos"
    using array_get_index_ok [OF assms(1)] by blast
  note view = search_result_view [OF assms(1) r(2), unfolded ck]
  show ?thesis
  proof (cases ndx)
    case None
    let ?g = "array_grow a"
    note g = array_grow_wf [OF assms(1)]
    have "search_result ?g ?key None pos"
      using array_search_cong [OF assms(1) g(1,3,4)] g(5) r(2) None by blast
    note put = array_put_wf [OF g(1,2) this ck]
    have run: "array_find_or_insert a entry = Some (None, entry, array_put ?g pos entry)"
      using r(1) None assms(2) by (auto simp: array_find_or_insert_def array_put_def keyed_def Let_def)
    have "set (a_data (array_put ?g pos entry)) \<subseteq> insert (Some entry) (set (a_data ?g))"
      by (simp add: array_put_def set_update_subset_insert)
    then have "set (a_data (array_put ?g pos entry)) \<subseteq> insert (Some entry) (insert None (set (a_data a)))"
      using g(6) by blast
    then show ?thesis
      using view None run put array_grow_view [OF assms(1)] by simp
  next
    case (Some i)
    then have i: "i < a_used a" "key_at a i = entry_key entry"
      using r(2) ck by (simp_all add: search_result_def)
    have "array_find_or_insert a entry = Some (Some i, entry, a)"
      using r(1) Some assms(2) by (auto simp: array_find_or_insert_def keyed_def)
    moreover obtain d where "a_data a ! i = Some d" using array_wfD(6) [OF assms(1) i(1)] by blast
    ultimately show ?thesis using view Some i by simp
  qed
qed

lemma entry_key_insert_dup [simp]: "entry_key (insert_dup_as t d e) = entry_key d"
  by (cases t) (simp_all add: entry_key_def data_string_insert_dup_def data_response_insert_dup_def
      data_integer_insert_dup_def)

text \<open>
  \<open>array_replace\<close> keeps the last entry of a key, \<open>array_insert_unique\<close> combines the
  entries, and refuses to combine entries of different types.
\<close>

lemma array_replace_ok:
  assumes "array_wf a" "keyed entry"
  shows "\<exists>a'. array_replace a entry = Some a' \<and> array_wf a'
           \<and> array_view a' = (array_view a)(entry_key entry \<mapsto> entry)"
proof (cases "array_view a (entry_key entry)")
  case None
  then show ?thesis
    using array_find_or_insert_ok [OF assms] by (auto simp: array_replace_def)
next
  case (Some d)
  then obtain ndx where "array_find_or_insert a entry = Some (Some ndx, entry, a)"
      "ndx < a_used a" "entry_key entry = key_at a ndx"
    using array_find_or_insert_ok [OF assms] by auto
  then show ?thesis
    using array_update_wf [OF assms(1)] by (auto simp: array_replace_def)
qed

definition combined :: "data_unset option \<Rightarrow> data_unset \<Rightarrow> data_unset" where
  "combined old entry = (case old of None \<Rightarrow> entry | Some d \<Rightarrow> insert_dup_as (du_type entry) d entry)"

lemma array_insert_unique_ok:
  assumes "array_wf a" "keyed entry"
    "\<And>d. array_view a (entry_key entry) = Some d \<Longrightarrow> du_type d = du_type entry"
  shows "\<exists>a'. array_insert_unique a entry = Some a' \<and> array_wf a'
           \<and> array_view a' = (array_view a)(entry_key entry \<mapsto> combined (array_view a (entry_key entry)) entry)
           \<and> set (a_data a') \<subseteq> insert (Some (combined (array_view a (entry_key entry)) entry)) (insert None (set (a_data a)))"
proof (cases "array_view a (entry_key entry)")
  case None
  then show ?thesis
    using array_find_or_insert_ok [OF assms(1,2)] by (auto simp: array_insert_unique_def combined_def)
next
  case (Some d)
  then obtain ndx where f: "array_find_or_insert a entry = Some (Some ndx, entry, a)"
      "ndx < a_used a" "a_data a ! ndx = Some d" "entry_key entry = key_at a ndx"
    using array_find_or_insert_ok [OF assms(1,2)] by auto
  let ?d = "insert_dup_as (du_type entry) d entry"
  have k: "entry_key ?d = key_at a ndx" using f(3) by (simp add: key_at_def)
  have "ndx < length (a_data a)" using f(2) array_wfD(1,2) [OF assms(1)] by simp
  then have "array_insert_unique a entry = Some (a\<lparr>a_data := (a_data a)[ndx := Some ?d]\<rparr>)"
    using f assms(3) [OF Some] by (simp add: array_insert_unique_def)
  then show ?thesis
    using array_update_wf [OF assms(1) f(2) k] k f(4) Some set_update_subset_insert [of "a_data a" ndx "Some ?d"]
    by (auto simp: combined_def)
qed

lemma array_insert_unique_type_mismatch:
  assumes "array_wf a" "keyed entry" "array_view a (entry_key entry) = Some d" "du_type d \<noteq> du_type entry"
  shows "array_insert_unique a entry = None"
  using array_find_or_insert_ok [OF assms(1,2)] assms(3,4) array_wfD(1,2) [OF assms(1)]
  by (auto simp: array_insert_unique_def)

section \<open>Removing\<close>

text \<open>
  The entry at \<open>ndx\<close> is taken out and the last one moved into its place; \<open>f\<close> is what
  that does to the indices.
\<close>

lemma array_remove_wf:
  assumes wf: "array_wf a" and pos: "pos < a_used a" "a_sorted a ! pos = ndx"
    and lst: "lst = a_used a - 1"
    and f: "\<And>i. f i = (if i = lst then ndx else i)"
    and D: "length D = a_size a" "\<And>i. i < lst \<Longrightarrow> D ! i = (if i = ndx then a_data a ! lst else a_data a ! i)"
  defines "a' \<equiv> a\<lparr>a_data := D, a_sorted := map f (take pos (a_sorted a) @ drop (pos + 1) (a_sorted a)), a_used := lst\<rparr>"
  shows "array_wf a'" "array_view a' = (array_view a)(key_at a ndx := None)"
proof -
  note wfD = array_wfD [OF wf]
  define s' where "s' = take pos (a_sorted a) @ drop (pos + 1) (a_sorted a)"
  have split: "a_sorted a = take pos (a_sorted a) @ ndx # drop (pos + 1) (a_sorted a)"
    using pos wfD(5) id_take_nth_drop [of pos "a_sorted a"] by simp
  have ndx: "ndx < a_used a" using pos wfD(4,5) nth_mem [of pos "a_sorted a"] by auto
  have dist: "distinct (ndx # s')"
    using wfD(3) by (subst (asm) split) (auto simp: s'_def)
  have "set (a_sorted a) = insert ndx (set s')"
    by (subst split) (auto simp: s'_def)
  then have set: "set s' = {..<a_used a} - {ndx}" using wfD(4) dist by auto
  have img: "f ` ({..<a_used a} - {ndx}) = {..<lst}"
  proof
    show "f ` ({..<a_used a} - {ndx}) \<subseteq> {..<lst}" using ndx lst f by auto
    show "{..<lst} \<subseteq> f ` ({..<a_used a} - {ndx})"
    proof
      fix i assume i: "i \<in> {..<lst}"
      show "i \<in> f ` ({..<a_used a} - {ndx})"
      proof (cases "i = ndx")
        case True
        then have "f lst = i" "lst \<in> {..<a_used a} - {ndx}" using i ndx lst f by auto
        then show ?thesis by blast
      next
        case False
        then have "f i = i" "i \<in> {..<a_used a} - {ndx}" using i lst f by auto
        then show ?thesis by (metis imageI)
      qed
    qed
  qed
  have inj: "inj_on f ({..<a_used a} - {ndx})" using f by (auto simp: inj_on_def split: if_splits)
  have data: "D ! f i = a_data a ! i" if "i < a_used a" "i \<noteq> ndx" for i
  proof -
    have "f i < lst" using that img by (metis Diff_iff imageI lessThan_iff singletonD)
    then show ?thesis using D(2) [of "f i"] that(2) f [of i] by (auto split: if_splits)
  qed
  have "map (key_at a') (map f s') = map (key_at a) s'"
    using data set by (auto simp: key_at_def a'_def)
  moreover have "sorted_wrt (<) (map (key_at a) s')"
    using wfD(7) by (subst (asm) split) (auto simp: s'_def sorted_wrt_append)
  ultimately have srt: "sorted_wrt (<) (map (key_at a') (map f s'))" by (simp only:)
  have a': "a_sorted a' = map f s'" "a_used a' = lst" "a_data a' = D" "a_size a' = a_size a"
    by (simp_all add: a'_def s'_def)
  have "set (map f s') = {..<lst}" using set img by (simp only: set_map)
  moreover have "distinct (map f s')" using dist inj set by (simp add: distinct_map)
  moreover have "D ! i \<noteq> None" if "i < lst" for i
  proof -
    have "i \<in> f ` ({..<a_used a} - {ndx})" unfolding img using that by simp
    then obtain j where "j < a_used a" "j \<noteq> ndx" "i = f j" by auto
    then show ?thesis using data [of j] wfD(6) by simp
  qed
  moreover have "lst \<le> a_size a" using lst wfD(2) by simp
  ultimately show wf': "array_wf a'"
    using srt D(1) unfolding array_wf_def a' by blast
  show "array_view a' = (array_view a)(key_at a ndx := None)"
  proof (rule array_view_eqI [OF wf'])
    fix k d
    have "(\<exists>i<lst. D ! i = Some d \<and> entry_key d = k)
        \<longleftrightarrow> (\<exists>i\<in>f ` ({..<a_used a} - {ndx}). D ! i = Some d \<and> entry_key d = k)"
      unfolding img by auto
    also have "\<dots> \<longleftrightarrow> (\<exists>j<a_used a. j \<noteq> ndx \<and> a_data a ! j = Some d \<and> entry_key d = k)"
      using data by auto
    also have "\<dots> \<longleftrightarrow> ((array_view a)(key_at a ndx := None)) k = Some d"
      using array_view_iff [OF wf, of k d] key_at_inj [OF wf _ ndx]
      by (auto simp: key_at_def)
    finally show "((array_view a)(key_at a ndx := None)) k = Some d \<longleftrightarrow>
        (\<exists>i<a_used a'. a_data a' ! i = Some d \<and> entry_key d = k)" by (simp add: a')
  qed
qed

lemma array_extract_ok:
  assumes "array_wf a"
  shows "\<exists>a'. array_extract_element_klen a key = Some (array_view a (ckey key), a') \<and> array_wf a'
           \<and> array_view a' = (array_view a)(ckey key := None)"
proof -
  note wfD = array_wfD [OF assms]
  obtain ndx pos where r: "array_get_index a key = Some (ndx, pos)" "search_result a key ndx pos"
    using array_get_index_ok [OF assms] by blast
  note view = search_result_view [OF assms r(2)]
  show ?thesis
  proof (cases ndx)
    case None
    then have "(array_view a)(ckey key := None) = array_view a" using view by (auto simp: fun_eq_iff)
    then show ?thesis using None r(1) view assms by (simp add: array_extract_element_klen_def)
  next
    case (Some i)
    define lst where "lst = a_used a - 1"
    define f where "f j = (if j = lst then i else j)" for j
    have i: "pos < a_used a" "a_sorted a ! pos = i" "i < a_used a" "key_at a i = ckey key"
      using r(2) Some by (simp_all add: search_result_def)
    have lst: "lst < a_used a" using i(1) by (simp add: lst_def)
    have used: "a_used a - Suc 0 = lst" by (simp add: lst_def)
    have len: "length (a_data a) = a_size a" "lst < a_size a" "i < a_size a"
      using wfD(1,2) lst i(3) by auto
    obtain D srt where run: "array_extract_element_klen a key = Some (a_data a ! i,
          a\<lparr>a_data := D, a_sorted := take pos srt @ drop (pos + 1) srt, a_used := lst\<rparr>)"
        "srt = map f (a_sorted a)" "length D = a_size a"
        "\<And>j. j < lst \<Longrightarrow> D ! j = (if j = i then a_data a ! lst else a_data a ! j)"
    proof (cases "i = lst")
      case True
      then have "f = id" by (auto simp: f_def)
      then show ?thesis
        using that [where D = "(a_data a)[i := None]" and srt = "a_sorted a"] True r(1) Some len
        by (simp add: array_extract_element_klen_def used Let_def)
    next
      case False
      obtain dl where dl: "a_data a ! lst = Some dl" using wfD(6) [OF lst] by blast
      have kl: "key_at a lst = ckey (abs_bytes (du_key dl))" by (simp add: key_at_def dl entry_key_def)
      obtain j p where s: "array_get_index a (abs_bytes (du_key dl)) = Some (j, p)"
          "search_result a (abs_bytes (du_key dl)) j p"
        using array_get_index_ok [OF assms] by blast
      note e = search_result_entry [OF assms s(2) lst kl]
      have "(a_sorted a)[p := i] = map f (a_sorted a)"
        using e wfD(3,5) by (auto simp: list_eq_iff_nth_eq nth_list_update f_def nth_eq_iff_index_eq)
      then show ?thesis
        using that [where D = "(a_data a)[i := Some dl, lst := None]" and srt = "(a_sorted a)[p := i]"]
          False r(1) Some len dl s(1) e(1)
        by (simp add: array_extract_element_klen_def used Let_def nth_list_update)
    qed
    have "array_wf (a\<lparr>a_data := D, a_sorted := map f (take pos (a_sorted a) @ drop (pos + 1) (a_sorted a)), a_used := lst\<rparr>)"
      "array_view (a\<lparr>a_data := D, a_sorted := map f (take pos (a_sorted a) @ drop (pos + 1) (a_sorted a)), a_used := lst\<rparr>)
        = (array_view a)(key_at a i := None)"
      by (rule array_remove_wf [OF assms i(1,2) lst_def f_def run(3,4)]; assumption)+
    then show ?thesis using run view Some i(4) by (auto simp: take_map drop_map)
  qed
qed

section \<open>Headers\<close>

text \<open>
  An array of strings under given keys, with no entry left over from a list: what request
  and response headers are.  \<open>array_reset\<close> keeps the index flag of the entries it keeps.
\<close>

definition header_array :: "array \<Rightarrow> bool" where
  "header_array a \<longleftrightarrow> array_wf a \<and>
     (\<forall>d. Some d \<in> set (a_data a) \<longrightarrow> du_type d = TYPE_STRING \<and> \<not> du_is_index_key d)"

definition header_view :: "array \<Rightarrow> nat list \<Rightarrow> string option" where
  "header_view a k = Option.bind (array_view a k) du_value"

lemma header_arrayD:
  assumes "header_array a"
  shows "array_wf a" "\<And>d. Some d \<in> set (a_data a) \<Longrightarrow> du_type d = TYPE_STRING \<and> \<not> du_is_index_key d"
  using assms by (auto simp: header_array_def)

lemma array_view_mem:
  assumes "array_wf a" "array_view a k = Some d"
  shows "Some d \<in> set (a_data a)" "entry_key d = k"
proof -
  obtain i where i: "i < a_used a" "a_data a ! i = Some d" "entry_key d = k"
    using assms array_view_iff by blast
  then have "i < length (a_data a)" using array_wfD(1,2) [OF assms(1)] by simp
  then show "Some d \<in> set (a_data a)" using i(2) nth_mem by metis
  show "entry_key d = k" by (rule i(3))
qed

lemma array_get_unused_ok:
  fixes t :: data_type_t
  assumes "array_wf a"
  defines "r \<equiv> array_get_unused_element a t"
  shows "array_wf (snd r)" "array_view (snd r) = array_view a"
    "set (a_data (snd r)) \<subseteq> insert None (set (a_data a))"
    "\<And>d. fst r = Some d \<Longrightarrow> Some d \<in> set (a_data a) \<and> du_type d = t"
proof -
  note wf = array_wfD [OF assms(1)]
  let ?P = "\<lambda>i. case a_data a ! i of Some d \<Rightarrow> du_type d = t | None \<Rightarrow> False"
  have "array_wf (snd r) \<and> array_view (snd r) = array_view a
      \<and> set (a_data (snd r)) \<subseteq> insert None (set (a_data a))
      \<and> (\<forall>d. fst r = Some d \<longrightarrow> Some d \<in> set (a_data a) \<and> du_type d = t)"
  proof (cases "List.find ?P [a_used a..<a_size a]")
    case None
    then show ?thesis using assms(1) by (auto simp: r_def array_get_unused_element_def)
  next
    case (Some i)
    then have i: "a_used a \<le> i" "i < length (a_data a)" "?P i"
      unfolding find_Some_iff using wf(1) by auto
    let ?a = "a\<lparr>a_data := (a_data a)[i := a_data a ! a_used a, a_used a := None]\<rparr>"
    have r: "r = (a_data a ! i, ?a)" using Some by (simp add: r_def array_get_unused_element_def)
    have same: "a_data ?a ! j = a_data a ! j" if "j < a_used a" for j
      using that i(1) by (simp add: nth_list_update)
    have "map (key_at ?a) (a_sorted a) = map (key_at a) (a_sorted a)"
      using same wf(4) by (auto simp: key_at_def)
    then have "sorted_wrt (<) (map (key_at ?a) (a_sorted a))" by (simp only: wf(7))
    then have wf': "array_wf ?a"
      unfolding array_wf_def using wf same by auto
    have "array_view ?a = array_view a"
      using array_view_iff [OF assms(1)] same by (intro array_view_eqI [OF wf']) auto
    moreover have "a_data a ! a_used a \<in> set (a_data a)" "a_data a ! i \<in> set (a_data a)" using i by auto
    then have "set (a_data ?a) \<subseteq> insert None (set (a_data a))"
      using set_update_subset_insert [of "(a_data a)[i := a_data a ! a_used a]" "a_used a" None]
        set_update_subset_insert [of "a_data a" i "a_data a ! a_used a"] by auto
    moreover obtain d where d: "a_data a ! i = Some d" "du_type d = t"
      using i(3) by (auto split: option.splits)
    then have "Some d \<in> set (a_data a)" using \<open>a_data a ! i \<in> set (a_data a)\<close> by simp
    ultimately show ?thesis using r wf' d by simp
  qed
  then show "array_wf (snd r)" "array_view (snd r) = array_view a"
    "set (a_data (snd r)) \<subseteq> insert None (set (a_data a))"
    "\<And>d. fst r = Some d \<Longrightarrow> Some d \<in> set (a_data a) \<and> du_type d = t" by auto
qed

lemma array_set_key_value_ok:
  assumes "header_array a"
  shows "\<exists>a'. array_set_key_value a key value = Some a' \<and> header_array a'
           \<and> header_view a' = (header_view a)(ckey key \<mapsto> value)"
proof -
  note h = header_arrayD [OF assms]
  obtain ndx pos where r: "array_get_index a key = Some (ndx, pos)" "search_result a key ndx pos"
    using array_get_index_ok [OF h(1)] by blast
  note view = search_result_view [OF h(1) r(2)]
  show ?thesis
  proof (cases ndx)
    case (Some i)
    then have i: "i < a_used a" "key_at a i = ckey key" using r(2) by (simp_all add: search_result_def)
    then have len: "i < length (a_data a)" using array_wfD(1,2) [OF h(1)] by simp
    obtain d where d: "a_data a ! i = Some d" using array_wfD(6) [OF h(1) i(1)] by blast
    let ?d = "d\<lparr>du_value := Some value\<rparr>"
    let ?a = "a\<lparr>a_data := (a_data a)[i := Some ?d]\<rparr>"
    have k: "entry_key ?d = key_at a i" "key_at a i = ckey key" using d i(2) by (simp_all add: key_at_def entry_key_def)
    have "Some d \<in> set (a_data a)" using d len nth_mem by metis
    then have hd: "header_array ?a"
      using array_update_wf(1) [OF h(1) i(1) k(1)] h(2) set_update_subset_insert [of "a_data a" i "Some ?d"]
      by (auto simp: header_array_def)
    have "array_set_key_value a key value = Some ?a"
      using r(1) Some len d by (simp add: array_set_key_value_def)
    moreover have "header_view ?a = (header_view a)(ckey key \<mapsto> value)"
      using array_update_wf(2) [OF h(1) i(1) k(1)] k by (auto simp: header_view_def fun_eq_iff)
    ultimately show ?thesis using hd by blast
  next
    case None
    define r1 where "r1 = array_get_unused_element a TYPE_STRING"
    note un = array_get_unused_ok [OF h(1), of TYPE_STRING, folded r1_def]
    define ds where "ds = (case fst r1 of None \<Rightarrow> data_string_init | Some d \<Rightarrow> d)"
    have ds: "du_type ds = TYPE_STRING \<and> \<not> du_is_index_key ds"
    proof (cases "fst r1")
      case (Some d)
      then show ?thesis using un(4) [OF Some] h(2) [of d] by (simp add: ds_def)
    qed (simp add: ds_def data_string_init_def)
    let ?e = "ds\<lparr>du_key := Some key, du_value := Some value\<rparr>"
    have e: "keyed ?e" "entry_key ?e = ckey key" using ds by (simp_all add: keyed_def entry_key_def)
    have none: "array_view (snd r1) (ckey key) = None" "array_view a (ckey key) = None"
      using view None un(2) by simp_all
    have "\<exists>a'. array_insert_unique (snd r1) ?e = Some a' \<and> array_wf a'
        \<and> array_view a' = (array_view (snd r1))(entry_key ?e \<mapsto> combined (array_view (snd r1) (entry_key ?e)) ?e)
        \<and> set (a_data a') \<subseteq> insert (Some (combined (array_view (snd r1) (entry_key ?e)) ?e)) (insert None (set (a_data (snd r1))))"
      by (rule array_insert_unique_ok [OF un(1) e(1)]) (simp add: e(2) none)
    then obtain a' where a': "array_insert_unique (snd r1) ?e = Some a'" "array_wf a'"
        "array_view a' = (array_view a)(ckey key \<mapsto> ?e)"
        "set (a_data a') \<subseteq> insert (Some ?e) (insert None (set (a_data (snd r1))))"
      by (auto simp: e(2) none combined_def un(2))
    have "header_array a'"
      unfolding header_array_def
    proof (intro conjI allI impI a'(2))
      fix d assume "Some d \<in> set (a_data a')"
      then have "d = ?e \<or> Some d \<in> set (a_data a)" using a'(4) un(3) by auto
      then show "du_type d = TYPE_STRING" "\<not> du_is_index_key d" using ds h(2) by auto
    qed
    moreover have "array_set_key_value a key value = Some a'"
      using r(1) None a'(1) by (simp add: array_set_key_value_def r1_def [symmetric] ds_def [symmetric]
          case_prod_beta Let_def)
    moreover have "header_view a' = (header_view a)(ckey key \<mapsto> value)"
      using a'(3) by (auto simp: header_view_def fun_eq_iff)
    ultimately show ?thesis by blast
  qed
qed

definition header_get :: "array \<Rightarrow> string \<Rightarrow> string option option" where
  "header_get a key = map_option (\<lambda>d. Option.bind d du_value) (array_get_element_klen a key)"

definition header_remove :: "array \<Rightarrow> string \<Rightarrow> array option" where
  "header_remove a key = map_option snd (array_extract_element_klen a key)"

lemma header_get_ok: "header_array a \<Longrightarrow> header_get a key = Some (header_view a (ckey key))"
  using array_get_element_ok [of a key] by (simp add: header_get_def header_view_def header_array_def)

lemma header_remove_ok:
  assumes "header_array a"
  shows "\<exists>a'. header_remove a key = Some a' \<and> header_array a'
           \<and> header_view a' = (header_view a)(ckey key := None)"
proof -
  note h = header_arrayD [OF assms]
  obtain a' where a': "array_extract_element_klen a key = Some (array_view a (ckey key), a')" "array_wf a'"
      "array_view a' = (array_view a)(ckey key := None)"
    using array_extract_ok [OF h(1)] by blast
  have mem: "Some x \<in> set xs" if "j < length xs" "xs ! j = Some x" for j x and xs :: "data_unset option list"
    using that by (metis nth_mem)
  have "set (a_data a') \<subseteq> insert None (set (a_data a))"
    using a'(1) mem
    by (auto simp: array_extract_element_klen_def Let_def split: bind_splits option.splits if_splits
        dest!: set_update_subset_insert [THEN subsetD])
  then have "header_array a'" using a'(2) h(2) by (auto simp: header_array_def)
  moreover have "header_view a' = (header_view a)(ckey key := None)"
    using a'(3) by (auto simp: header_view_def fun_eq_iff)
  ultimately show ?thesis using a'(1) by (simp add: header_remove_def)
qed

section \<open>The interface of keyed stores\<close>

text \<open>
  What the request parser and the response writer rely on: setting, reading and removing
  act on a map whose keys are names up to case.
\<close>

fun set_all :: "('s \<Rightarrow> 'n \<Rightarrow> 'v \<Rightarrow> 's option) \<Rightarrow> 's \<Rightarrow> ('n \<times> 'v) list \<Rightarrow> 's option" where
  "set_all put s [] = Some s"
| "set_all put s ((n, v) # r) = do { s \<leftarrow> put s n v; set_all put s r }"

locale keyed_store =
  fixes inv :: "'s \<Rightarrow> bool"
    and view :: "'s \<Rightarrow> 'k \<Rightarrow> 'v option"
    and fold_name :: "'n \<Rightarrow> 'k"
    and put :: "'s \<Rightarrow> 'n \<Rightarrow> 'v \<Rightarrow> 's option"
    and look :: "'s \<Rightarrow> 'n \<Rightarrow> 'v option option"
    and remove :: "'s \<Rightarrow> 'n \<Rightarrow> 's option"
  assumes put_ok: "inv s \<Longrightarrow> \<exists>s'. put s n v = Some s' \<and> inv s' \<and> view s' = (view s)(fold_name n \<mapsto> v)"
    and look_ok: "inv s \<Longrightarrow> look s n = Some (view s (fold_name n))"
    and remove_ok: "inv s \<Longrightarrow> \<exists>s'. remove s n = Some s' \<and> inv s' \<and> view s' = (view s)(fold_name n := None)"
begin

lemma look_put:
  "inv s \<Longrightarrow> \<exists>s'. put s n v = Some s' \<and> inv s'
     \<and> look s' m = Some (if fold_name m = fold_name n then Some v else view s (fold_name m))"
  using put_ok [of s n v] look_ok by auto

lemma look_remove:
  "inv s \<Longrightarrow> \<exists>s'. remove s n = Some s' \<and> inv s'
     \<and> look s' m = Some (if fold_name m = fold_name n then None else view s (fold_name m))"
  using remove_ok [of s n] look_ok by auto

lemma set_all_ok:
  "inv s \<Longrightarrow> \<exists>s'. set_all put s nvs = Some s' \<and> inv s'
     \<and> view s' = view s ++ map_of (rev (map (\<lambda>(n, v). (fold_name n, v)) nvs))"
proof (induction nvs arbitrary: s)
  case (Cons nv nvs)
  obtain n v where nv: "nv = (n, v)" by (cases nv)
  obtain s1 where s1: "put s n v = Some s1" "inv s1" "view s1 = (view s)(fold_name n \<mapsto> v)"
    using put_ok [OF Cons.prems] by blast
  obtain s' where "set_all put s1 nvs = Some s'" "inv s'"
      "view s' = view s1 ++ map_of (rev (map (\<lambda>(n, v). (fold_name n, v)) nvs))"
    using Cons.IH [OF s1(2)] by blast
  then show ?case using s1 nv by (simp add: map_add_assoc)
qed simp

end

interpretation hdr: keyed_store header_array header_view ckey array_set_key_value header_get header_remove
  by unfold_locales (rule array_set_key_value_ok header_get_ok header_remove_ok, assumption)+

lemma header_array_init: "header_array array_init" "header_view array_init = Map.empty"
  by (simp_all add: header_array_def header_view_def fun_eq_iff) (simp add: array_init_def)

text \<open>
  An entry that was part of a list keeps its index flag when it is reset, so that a later
  \<open>array_set_key_value\<close> that reuses it loses the key it was given.
\<close>

definition reused_list :: "array option" where
  "reused_list = do {
     a \<leftarrow> array_insert_unique array_init (data_string_init\<lparr>du_value := Some ''x''\<rparr>);
     array_set_key_value (array_reset a) ''Host'' ''h''
   }"

lemma reused_list_loses_key:
  "\<exists>a. reused_list = Some a \<and> header_get a ''Host'' = Some None
     \<and> header_get a ''0'' = Some (Some ''h'')"
proof -
  have "(char_of (48 :: nat) :: char) = CHR ''0''" by code_simp
  then have n: "itostr [] (size_to_int 0) = ''0''" by (simp add: itostr_def size_to_int_def utostr_rec)
  let ?d = "\<lambda>k v. \<lparr>du_type = TYPE_STRING, du_key = k, du_is_index_key = True, du_value = v, du_int = 0\<rparr>"
  have slots: "(replicate 16 None)[0 := x] = x # replicate 15 None"
    "replicate 15 None = None # replicate 14 (None :: data_unset option)" for x :: "data_unset option"
    by (simp_all add: numeral_eq_Suc)
  define a1 where "a1 = \<lparr>a_data = Some (?d (Some ''0'') (Some ''x'')) # replicate 15 None,
    a_sorted = [0], a_used = 1, a_size = 16, a_unique_ndx = sz_add 0 1\<rparr>"
  define a2 where "a2 = \<lparr>a_data = Some (?d None None) # replicate 15 None,
    a_sorted = [], a_used = 0, a_size = 16, a_unique_ndx = 0\<rparr>"
  define a3 where "a3 = \<lparr>a_data = Some (?d (Some ''0'') (Some ''h'')) # replicate 15 None,
    a_sorted = [0], a_used = 1, a_size = 16, a_unique_ndx = sz_add 0 1\<rparr>"
  have 1: "array_insert_unique array_init (data_string_init\<lparr>du_value := Some ''x''\<rparr>) = Some a1"
    by (simp add: array_insert_unique_def array_find_or_insert_def array_init_def data_string_init_def
        n array_get_index_def array_search.simps array_grow_def slots a1_def)
  have 2: "array_reset a1 = a2"
    by (simp add: array_reset_def a1_def a2_def data_reset_def data_string_reset_def)
  have un: "array_get_unused_element a2 TYPE_STRING = (Some (?d None None), a2\<lparr>a_data := None # replicate 15 None\<rparr>)"
    by (simp add: array_get_unused_element_def a2_def upt_conv_Cons)
  have ix: "array_get_index a2 k = Some (None, 0)" "array_get_index (a2\<lparr>a_data := d, a_unique_ndx := u\<rparr>) k = Some (None, 0)" for k d u
    by (simp_all add: array_get_index_def array_search.simps a2_def)
  have f: "a_unique_ndx a2 = 0" "a_used a2 = 0" "a_size a2 = 16" "a_sorted a2 = []"
    by (simp_all add: a2_def)
  have 3: "array_set_key_value a2 ''Host'' ''h'' = Some a3"
    using f by (simp add: array_set_key_value_def ix un array_insert_unique_def array_find_or_insert_def
        array_grow_def n) (simp add: a2_def a3_def)
  have "header_get a3 ''Host'' = Some None" "header_get a3 ''0'' = Some (Some ''h'')"
    by (simp_all add: a3_def header_get_def array_get_element_klen_def array_get_index_def
        array_search.simps to_lower_def is_upper_def set_bit5_def)
  with 1 2 3 show ?thesis by (simp add: reused_list_def)
qed

section \<open>Properties\<close>

text \<open>
  C32. A header table built by any sequence of \<open>array_set_key_value\<close> calls from the empty
  array answers every lookup with the value set last under a name that differs from the one
  asked for in case only, and with nothing when there was none.  The index of sorted positions and
  the growth of the two parallel tables do not show.
\<close>

theorem header_table_refines_map:
  "\<exists>a. set_all array_set_key_value array_init nvs = Some a \<and> array_wf a
     \<and> header_get a key = Some (map_of (rev (map (\<lambda>(n, v). (ckey n, v)) nvs)) (ckey key))"
proof -
  obtain a where a: "set_all array_set_key_value array_init nvs = Some a" "header_array a"
      "header_view a = map_of (rev (map (\<lambda>(n, v). (ckey n, v)) nvs))"
    using hdr.set_all_ok [OF header_array_init(1), of nvs] header_array_init(2) by auto
  then show ?thesis using hdr.look_ok [OF a(2), of key] header_arrayD(1) by auto
qed

text \<open>
  Removing a header (\<open>array_extract_element_klen\<close>) hands out the entry of that name,
  leaves a well-formed array and every other name as it was, although the last entry is moved
  into the gap and the index renumbered.
\<close>

theorem array_extract_removes_only_key:
  assumes "array_wf a"
  shows "\<exists>a'. array_extract_element_klen a key = Some (array_view a (ckey key), a') \<and> array_wf a'
           \<and> array_get_element_klen a' key = Some None
           \<and> (\<forall>other. ckey other \<noteq> ckey key \<longrightarrow>
                array_get_element_klen a' other = array_get_element_klen a other)"
proof -
  obtain a' where a': "array_extract_element_klen a key = Some (array_view a (ckey key), a')" "array_wf a'"
      "array_view a' = (array_view a)(ckey key := None)"
    using array_extract_ok [OF assms, of key] by blast
  then show ?thesis using array_get_element_ok [OF assms] array_get_element_ok [OF a'(2)] by simp
qed

theorem array_extract_removes_only_key_witness:
  "\<exists>a a'. set_all array_set_key_value array_init [(''Host'', ''h''), (''X'', ''y'')] = Some a
     \<and> array_extract_element_klen a ''host'' = Some (array_view a (ckey ''host''), a') \<and> array_wf a'
     \<and> array_get_element_klen a' ''host'' = Some None
     \<and> array_get_element_klen a' ''x'' = array_get_element_klen a ''x''"
proof -
  obtain a where a: "set_all array_set_key_value array_init [(''Host'', ''h''), (''X'', ''y'')] = Some a"
      "header_array a"
    using hdr.set_all_ok [OF header_array_init(1)] by blast
  have "ckey ''x'' \<noteq> ckey ''host''" by (simp add: ckey_def)
  then show ?thesis
    using array_extract_removes_only_key [OF header_arrayD(1) [OF a(2)], of "''host''"] a(1) by blast
qed

text \<open>
  \<open>array_insert_unique\<close> adds an entry under a new name and otherwise lets the type of
  the entry combine the two (a string entry appends the new value after a comma, an integer
  entry takes it over); all other names keep their entries.
\<close>

theorem array_insert_unique_combines:
  assumes "array_wf a" "keyed entry"
    "\<And>d. array_view a (entry_key entry) = Some d \<Longrightarrow> du_type d = du_type entry"
  shows "\<exists>a'. array_insert_unique a entry = Some a' \<and> array_wf a'
           \<and> array_view a' = (array_view a)(entry_key entry \<mapsto> combined (array_view a (entry_key entry)) entry)"
  using array_insert_unique_ok [OF assms] by blast

theorem array_insert_unique_combines_witness:
  "\<exists>a'. array_insert_unique array_init (data_string_init\<lparr>du_key := Some ''via'', du_value := Some ''p''\<rparr>) = Some a'
     \<and> array_wf a' \<and> array_view a' (ckey ''VIA'') = Some (data_string_init\<lparr>du_key := Some ''via'', du_value := Some ''p''\<rparr>)"
proof -
  let ?d = "data_string_init\<lparr>du_key := Some ''via'', du_value := Some ''p''\<rparr>"
  have "keyed ?d" "entry_key ?d = ckey ''VIA''"
    by (simp_all add: keyed_def data_string_init_def entry_key_def ckey_def to_lower_def is_upper_def set_bit5_def)
  then show ?thesis
    using array_insert_unique_combines [of array_init ?d] by (auto simp: combined_def)
qed

text \<open>
  An entry of the request parser that has been used for a value without a name, as
  \<open>array_insert_unique\<close> does for lists, keeps its mark when the array is reset, so a header
  stored in it by \<open>array_set_key_value\<close> is filed under a number instead of its name.
\<close>

theorem reset_keeps_index_mark:
  "\<exists>a. reused_list = Some a \<and> header_get a ''Host'' = Some None
     \<and> header_get a ''0'' = Some (Some ''h'')"
  by (rule reused_list_loses_key)

end
