(* ===== verification/Chunk.thy ===== *)
theory Chunk
  imports Arrays
begin

text \<open>
  The chunk queues of \<open>src/src/chunk.c\<close>: what a connection has read and not yet parsed,
  the request body, and the response on its way to the socket.  A chunk is a piece of
  memory or a piece of a file.  The linked list from \<open>first\<close> to \<open>last\<close> is a HOL list; the
  stack of unused chunks too.

  \<open>cq_trace\<close> records the system calls made for the queue (files closed, unlinked and
  written).  The outcomes of system calls are arguments of the operations.  \<open>off_t\<close>
  values are integers: sums of lengths beyond \<open>2 ^ 63\<close> are not modelled.
\<close>

section \<open>Chunks\<close>

datatype chunk_type = MEM_CHUNK | FILE_CHUNK

datatype sys_event =
    Unlink string | Close int | Munmap nat | Written int string

record chunk =
  c_type :: chunk_type
  c_mem :: buffer
  c_name :: "string option"
  c_start :: int
  c_length :: int
  c_fd :: int
  c_mmap :: "nat option"
  c_is_temp :: bool
  c_offset :: int

definition chunk_init :: chunk where
  "chunk_init = \<lparr>c_type = MEM_CHUNK, c_mem = buffer_init, c_name = None, c_start = 0, c_length = 0,
     c_fd = -1, c_mmap = None, c_is_temp = False, c_offset = 0\<rparr>"

definition chunk_reset :: "chunk \<Rightarrow> chunk \<times> sys_event list" where
  "chunk_reset c =
     (\<lparr>c_type = MEM_CHUNK, c_mem = buffer_reset (c_mem c), c_name = None, c_start = 0, c_length = 0,
        c_fd = -1, c_mmap = None, c_is_temp = False, c_offset = 0\<rparr>,
      (if c_is_temp c \<and> abs_bytes (c_name c) \<noteq> [] then [Unlink (cstr (abs_bytes (c_name c)))] else [])
      @ (if c_fd c \<noteq> -1 then [Close (c_fd c)] else [])
      @ (case c_mmap c of None \<Rightarrow> [] | Some n \<Rightarrow> [Munmap n]))"

definition chunk_free :: "chunk \<Rightarrow> sys_event list" where
  "chunk_free c = snd (chunk_reset c)"

definition chunk_size :: "chunk \<Rightarrow> int" where
  "chunk_size c = (case c_type c of MEM_CHUNK \<Rightarrow> int (buffer_string_length (c_mem c)) | FILE_CHUNK \<Rightarrow> c_length c)"

definition chunk_remaining_length :: "chunk \<Rightarrow> int option" where
  "chunk_remaining_length c = do {
     let len = chunk_size c;
     force_assert (c_offset c \<le> len);
     Some (len - c_offset c)
   }"

section \<open>Queues\<close>

record chunkqueue =
  cq_chunks :: "chunk list"
  cq_unused :: "chunk list"
  cq_unused_chunks :: nat
  cq_bytes_in :: int
  cq_bytes_out :: int
  cq_tempdirs :: "string option list option"
  cq_upload_temp_file_size :: nat
  cq_tempdir_idx :: nat
  cq_trace :: "sys_event list"

definition DEFAULT_TEMPFILE_SIZE :: nat where "DEFAULT_TEMPFILE_SIZE = 1 * 1024 * 1024"
definition MAX_TEMPFILE_SIZE :: nat where "MAX_TEMPFILE_SIZE = 128 * 1024 * 1024"

text \<open>The two defaults are the file's static variables, here a pair.\<close>

definition chunkqueue_set_tempdirs_default ::
    "string option list option \<Rightarrow> nat \<Rightarrow> string option list option \<times> nat" where
  "chunkqueue_set_tempdirs_default tempdirs upload_temp_file_size =
     (tempdirs,
      if upload_temp_file_size = 0 then DEFAULT_TEMPFILE_SIZE
      else if MAX_TEMPFILE_SIZE < upload_temp_file_size then MAX_TEMPFILE_SIZE
      else upload_temp_file_size)"

definition chunkqueue_set_tempdirs_default_reset :: "string option list option \<times> nat" where
  "chunkqueue_set_tempdirs_default_reset = (None, DEFAULT_TEMPFILE_SIZE)"

definition chunkqueue_init :: "string option list option \<times> nat \<Rightarrow> chunkqueue" where
  "chunkqueue_init defaults = \<lparr>cq_chunks = [], cq_unused = [], cq_unused_chunks = 0, cq_bytes_in = 0,
     cq_bytes_out = 0, cq_tempdirs = fst defaults, cq_upload_temp_file_size = snd defaults,
     cq_tempdir_idx = 0, cq_trace = []\<rparr>"

definition chunkqueue_free :: "chunkqueue \<Rightarrow> sys_event list" where
  "chunkqueue_free cq = cq_trace cq @ concat (map chunk_free (cq_chunks cq)) @ concat (map chunk_free (cq_unused cq))"

definition chunkqueue_push_unused_chunk :: "chunkqueue \<Rightarrow> chunk \<Rightarrow> chunkqueue" where
  "chunkqueue_push_unused_chunk cq c =
     (let (c', ev) = chunk_reset c
      in if 4 < cq_unused_chunks cq then cq\<lparr>cq_trace := cq_trace cq @ ev\<rparr>
         else cq\<lparr>cq_unused := c' # cq_unused cq, cq_unused_chunks := cq_unused_chunks cq + 1,
                 cq_trace := cq_trace cq @ ev\<rparr>)"

definition chunkqueue_get_unused_chunk :: "chunkqueue \<Rightarrow> chunk \<times> chunkqueue" where
  "chunkqueue_get_unused_chunk cq =
     (case cq_unused cq of
        [] \<Rightarrow> (chunk_init, cq)
      | c # r \<Rightarrow> (c, cq\<lparr>cq_unused := r, cq_unused_chunks := cq_unused_chunks cq - 1\<rparr>))"

definition chunkqueue_prepend_chunk :: "chunkqueue \<Rightarrow> chunk \<Rightarrow> chunkqueue option" where
  "chunkqueue_prepend_chunk cq c = do {
     n \<leftarrow> chunk_remaining_length c;
     Some (cq\<lparr>cq_chunks := c # cq_chunks cq, cq_bytes_in := cq_bytes_in cq + n\<rparr>)
   }"

definition chunkqueue_append_chunk :: "chunkqueue \<Rightarrow> chunk \<Rightarrow> chunkqueue option" where
  "chunkqueue_append_chunk cq c = do {
     n \<leftarrow> chunk_remaining_length c;
     Some (cq\<lparr>cq_chunks := cq_chunks cq @ [c], cq_bytes_in := cq_bytes_in cq + n\<rparr>)
   }"

definition chunkqueue_reset :: "chunkqueue \<Rightarrow> chunkqueue" where
  "chunkqueue_reset cq =
     (foldl chunkqueue_push_unused_chunk (cq\<lparr>cq_chunks := []\<rparr>) (cq_chunks cq))
       \<lparr>cq_bytes_in := 0, cq_bytes_out := 0, cq_tempdir_idx := 0\<rparr>"

definition chunkqueue_append_file_fd ::
    "chunkqueue \<Rightarrow> string option \<Rightarrow> int \<Rightarrow> int \<Rightarrow> int \<Rightarrow> chunkqueue option" where
  "chunkqueue_append_file_fd cq fn fd offset len =
     (if len = 0 then Some (cq\<lparr>cq_trace := cq_trace cq @ [Close fd]\<rparr>)
      else let (c, cq) = chunkqueue_get_unused_chunk cq
           in chunkqueue_append_chunk cq
                (c\<lparr>c_type := FILE_CHUNK, c_name := buffer_copied fn, c_start := offset,
                   c_length := len, c_fd := fd, c_offset := 0\<rparr>))"

definition chunkqueue_append_file ::
    "chunkqueue \<Rightarrow> string option \<Rightarrow> int \<Rightarrow> int \<Rightarrow> chunkqueue option" where
  "chunkqueue_append_file cq fn offset len =
     (if len = 0 then Some cq
      else let (c, cq) = chunkqueue_get_unused_chunk cq
           in chunkqueue_append_chunk cq
                (c\<lparr>c_type := FILE_CHUNK, c_name := buffer_copied fn, c_start := offset,
                   c_length := len, c_offset := 0\<rparr>))"

text \<open>Both buffer operations hand the caller's buffer over and give it the chunk's.\<close>

definition chunkqueue_append_buffer :: "chunkqueue \<Rightarrow> buffer \<Rightarrow> (chunkqueue \<times> buffer) option" where
  "chunkqueue_append_buffer cq mem =
     (if buffer_string_is_empty mem then Some (cq, mem)
      else do {
        let (c, cq) = chunkqueue_get_unused_chunk cq;
        let (b, m) = buffer_move (Some (c_mem c)) (Some mem);
        cq \<leftarrow> chunkqueue_append_chunk cq (c\<lparr>c_type := MEM_CHUNK, c_mem := the b\<rparr>);
        Some (cq, the m)
      })"

definition chunkqueue_prepend_buffer :: "chunkqueue \<Rightarrow> buffer \<Rightarrow> (chunkqueue \<times> buffer) option" where
  "chunkqueue_prepend_buffer cq mem =
     (if buffer_string_is_empty mem then Some (cq, mem)
      else do {
        let (c, cq) = chunkqueue_get_unused_chunk cq;
        let (b, m) = buffer_move (Some (c_mem c)) (Some mem);
        cq \<leftarrow> chunkqueue_prepend_chunk cq (c\<lparr>c_type := MEM_CHUNK, c_mem := the b\<rparr>);
        Some (cq, the m)
      })"

definition chunkqueue_append_mem :: "chunkqueue \<Rightarrow> string \<Rightarrow> chunkqueue option" where
  "chunkqueue_append_mem cq mem =
     (if mem = [] then Some cq
      else do {
        let (c, cq) = chunkqueue_get_unused_chunk cq;
        b \<leftarrow> buffer_copy_string_len (c_mem c) mem;
        chunkqueue_append_chunk cq (c\<lparr>c_type := MEM_CHUNK, c_mem := b\<rparr>)
      })"

text \<open>The result holds both queues.\<close>

definition chunkqueue_append_chunkqueue :: "chunkqueue \<Rightarrow> chunkqueue \<Rightarrow> chunkqueue \<times> chunkqueue" where
  "chunkqueue_append_chunkqueue cq src =
     (if cq_chunks src = [] then (cq, src)
      else (cq\<lparr>cq_chunks := cq_chunks cq @ cq_chunks src,
               cq_bytes_in := cq_bytes_in cq + (cq_bytes_in src - cq_bytes_out src)\<rparr>,
            src\<lparr>cq_chunks := [], cq_bytes_out := cq_bytes_in src\<rparr>))"

subsection \<open>Reading into the last chunk\<close>

definition REALLOC_MAX_SIZE :: nat where "REALLOC_MAX_SIZE = 256"

definition set_last_mem :: "chunkqueue \<Rightarrow> chunk \<Rightarrow> buffer \<Rightarrow> chunkqueue" where
  "set_last_mem cq c b = cq\<lparr>cq_chunks := butlast (cq_chunks cq) @ [c\<lparr>c_mem := b\<rparr>]\<rparr>"

text \<open>The buffer of the last chunk, made larger when it is unused or small.\<close>

definition memory_in_last :: "buffer \<Rightarrow> nat \<Rightarrow> nat \<Rightarrow> buffer option" where
  "memory_in_last b min_size alloc_size =
     (let have_len = buffer_string_space b
      in if buffer_string_is_empty b then do {
           (b, p) \<leftarrow> buffer_string_prepare_copy b alloc_size;
           Some b
         }
         else if have_len < min_size \<and> b_size b \<le> REALLOC_MAX_SIZE then
           (let cur_len = buffer_string_length b;
                new_size = sz_add cur_len min_size;
                new_size = (if new_size < alloc_size then alloc_size else new_size);
                append = sz_sub new_size cur_len
            in if min_size \<le> append then do {
                 (b, p) \<leftarrow> buffer_string_prepare_append b append;
                 Some b
               } else Some b)
         else Some b)"

text \<open>The result holds the offset of the area in the last chunk's buffer, and its size.\<close>

definition chunkqueue_get_memory :: "chunkqueue \<Rightarrow> nat \<Rightarrow> nat \<Rightarrow> (chunkqueue \<times> nat \<times> nat) option" where
  "chunkqueue_get_memory cq min_size alloc_size = do {
     let min_size = (if min_size = 0 then 1024 else min_size);
     let alloc_size = (if alloc_size = 0 then 4096 else alloc_size);
     let alloc_size = (if alloc_size < min_size then min_size else alloc_size);
     (cq, found) \<leftarrow>
       (if cq_chunks cq \<noteq> [] \<and> c_type (last (cq_chunks cq)) = MEM_CHUNK then do {
          let c = last (cq_chunks cq);
          b \<leftarrow> memory_in_last (c_mem c) min_size alloc_size;
          Some (set_last_mem cq c b,
                if min_size \<le> buffer_string_space b
                then Some (buffer_string_length b, buffer_string_space b) else None)
        } else Some (cq, None));
     case found of
       Some (pos, len) \<Rightarrow> Some (cq, pos, len)
     | None \<Rightarrow> do {
         let (c, cq) = chunkqueue_get_unused_chunk cq;
         let c = c\<lparr>c_type := MEM_CHUNK\<rparr>;
         cq \<leftarrow> chunkqueue_append_chunk cq c;
         (b, p) \<leftarrow> buffer_string_prepare_append (c_mem c) alloc_size;
         Some (set_last_mem cq c b, buffer_string_length b, buffer_string_space b)
       }
   }"

definition chunkqueue_use_memory :: "chunkqueue \<Rightarrow> nat \<Rightarrow> chunkqueue option" where
  "chunkqueue_use_memory cq len = do {
     force_assert (cq_chunks cq \<noteq> [] \<and> c_type (last (cq_chunks cq)) = MEM_CHUNK);
     let c = last (cq_chunks cq);
     let b = c_mem c;
     if 0 < len then do {
       b \<leftarrow> buffer_commit b len;
       Some ((set_last_mem cq c b)\<lparr>cq_bytes_in := cq_bytes_in cq + int len\<rparr>)
     } else if buffer_string_is_empty b then Some (set_last_mem cq c (buffer_reset b))
     else Some cq
   }"

text \<open>What the caller does between the two: it stores bytes in the area it was given.\<close>

definition store_memory :: "chunkqueue \<Rightarrow> nat \<Rightarrow> string \<Rightarrow> chunkqueue option" where
  "store_memory cq pos s = do {
     let c = last (cq_chunks cq);
     m \<leftarrow> write_at (b_ptr (c_mem c)) pos s;
     Some (set_last_mem cq c ((c_mem c)\<lparr>b_ptr := m\<rparr>))
   }"

subsection \<open>Taking octets out\<close>

function chunkqueue_steal :: "chunkqueue \<Rightarrow> chunkqueue \<Rightarrow> int \<Rightarrow> (chunkqueue \<times> chunkqueue) option" where
  "chunkqueue_steal dest src len =
     (if len \<le> 0 then Some (dest, src)
      else case cq_chunks src of
        [] \<Rightarrow> Some (dest, src)
      | c # r \<Rightarrow>
          (case chunk_remaining_length c of
             None \<Rightarrow> None
           | Some clen \<Rightarrow>
               if clen = 0 then
                 chunkqueue_steal dest (chunkqueue_push_unused_chunk (src\<lparr>cq_chunks := r\<rparr>) c) len
               else if clen \<le> len then
                 (case chunkqueue_append_chunk dest c of
                    None \<Rightarrow> None
                  | Some dest \<Rightarrow>
                      chunkqueue_steal dest
                        (src\<lparr>cq_chunks := r, cq_bytes_out := cq_bytes_out src + clen\<rparr>) (len - clen))
               else do {
                 dest \<leftarrow> (case c_type c of
                     MEM_CHUNK \<Rightarrow> do {
                       s \<leftarrow> read_at (b_ptr (c_mem c)) (nat (c_offset c)) (nat len);
                       chunkqueue_append_mem dest s
                     }
                   | FILE_CHUNK \<Rightarrow> chunkqueue_append_file dest (c_name c) (c_start c + c_offset c) len);
                 Some (dest, src\<lparr>cq_chunks := c\<lparr>c_offset := c_offset c + len\<rparr> # r,
                                 cq_bytes_out := cq_bytes_out src + len\<rparr>)
               }))"
  by pat_completeness auto
termination
  by (relation "measure (\<lambda>(dest, src, len). length (cq_chunks src))")
    (auto simp: chunkqueue_push_unused_chunk_def split: prod.splits)

declare chunkqueue_steal.simps [simp del]

definition chunkqueue_length :: "chunkqueue \<Rightarrow> int option" where
  "chunkqueue_length cq = fold (\<lambda>c len. do { l \<leftarrow> len; n \<leftarrow> chunk_remaining_length c; Some (l + n) })
     (cq_chunks cq) (Some 0)"

function mark_written_loop :: "chunkqueue \<Rightarrow> int \<Rightarrow> (chunkqueue \<times> int) option" where
  "mark_written_loop cq written =
     (case cq_chunks cq of
        [] \<Rightarrow> Some (cq, written)
      | c # r \<Rightarrow>
          (case chunk_remaining_length c of
             None \<Rightarrow> None
           | Some c_len \<Rightarrow>
               if written = 0 \<and> c_len \<noteq> 0 then Some (cq, written)
               else if c_len \<le> written then
                 mark_written_loop
                   (chunkqueue_push_unused_chunk (cq\<lparr>cq_chunks := r\<rparr>) (c\<lparr>c_offset := c_offset c + c_len\<rparr>))
                   (written - c_len)
               else Some (cq\<lparr>cq_chunks := c\<lparr>c_offset := c_offset c + written\<rparr> # r\<rparr>, 0)))"
  by pat_completeness auto
termination
  by (relation "measure (\<lambda>(cq, written). length (cq_chunks cq))")
    (auto simp: chunkqueue_push_unused_chunk_def split: prod.splits)

declare mark_written_loop.simps [simp del]

definition chunkqueue_mark_written :: "chunkqueue \<Rightarrow> int \<Rightarrow> chunkqueue option" where
  "chunkqueue_mark_written cq len = do {
     force_assert (0 \<le> len);
     (cq, written) \<leftarrow> mark_written_loop cq len;
     force_assert (written = 0);
     Some (cq\<lparr>cq_bytes_out := cq_bytes_out cq + len\<rparr>)
   }"

function chunkqueue_remove_finished_chunks :: "chunkqueue \<Rightarrow> chunkqueue option" where
  "chunkqueue_remove_finished_chunks cq =
     (case cq_chunks cq of
        [] \<Rightarrow> Some cq
      | c # r \<Rightarrow>
          (case chunk_remaining_length c of
             None \<Rightarrow> None
           | Some n \<Rightarrow>
               if n \<noteq> 0 then Some cq
               else chunkqueue_remove_finished_chunks (chunkqueue_push_unused_chunk (cq\<lparr>cq_chunks := r\<rparr>) c)))"
  by pat_completeness auto
termination
  by (relation "measure (\<lambda>cq. length (cq_chunks cq))")
    (auto simp: chunkqueue_push_unused_chunk_def split: prod.splits)

declare chunkqueue_remove_finished_chunks.simps [simp del]

text \<open>
  The loop over the chunks behind the first: \<open>pre\<close> are the chunks up to and including
  \<open>c\<close>, \<open>rest\<close> those behind it.  After an empty chunk was taken out, the loop goes on with
  the chunk that follows it, which it does not look at.
\<close>

fun remove_empty_loop :: "chunkqueue \<Rightarrow> chunk list \<Rightarrow> chunk list \<Rightarrow> chunkqueue option" where
  "remove_empty_loop cq pre [] = Some (cq\<lparr>cq_chunks := pre\<rparr>)"
| "remove_empty_loop cq pre [e] = do {
     n \<leftarrow> chunk_remaining_length e;
     if n = 0 then Some ((chunkqueue_push_unused_chunk cq e)\<lparr>cq_chunks := pre\<rparr>)
     else Some (cq\<lparr>cq_chunks := pre @ [e]\<rparr>)
   }"
| "remove_empty_loop cq pre (e # d # rest) = do {
     n \<leftarrow> chunk_remaining_length e;
     if n = 0 then remove_empty_loop (chunkqueue_push_unused_chunk cq e) (pre @ [d]) rest
     else remove_empty_loop cq (pre @ [e]) (d # rest)
   }"

definition chunkqueue_remove_empty_chunks :: "chunkqueue \<Rightarrow> chunkqueue option" where
  "chunkqueue_remove_empty_chunks cq = do {
     cq \<leftarrow> chunkqueue_remove_finished_chunks cq;
     case cq_chunks cq of [] \<Rightarrow> Some cq | c # r \<Rightarrow> remove_empty_loop cq [c] r
   }"

text \<open>
  \<open>opened\<close> is the result of \<open>open\<close> on the name, \<open>st_size\<close> that of \<open>fstat\<close>; \<open>None\<close> is a
  failure.  The result is the code's return value.
\<close>

definition chunkqueue_open_file_chunk ::
    "chunkqueue \<Rightarrow> int option \<Rightarrow> int option \<Rightarrow> (chunkqueue \<times> int) option" where
  "chunkqueue_open_file_chunk cq opened st_size = do {
     (c, r) \<leftarrow> (case cq_chunks cq of [] \<Rightarrow> None | c # r \<Rightarrow> Some (c, r));
     force_assert (c_type c = FILE_CHUNK);
     force_assert (0 \<le> c_offset c \<and> c_offset c \<le> c_length c);
     let offset = c_start c + c_offset c;
     let toSend = c_length c - c_offset c;
     let fd = (if c_fd c = -1 then opened else Some (c_fd c));
     case fd of
       None \<Rightarrow> Some (cq, -1)
     | Some fd \<Rightarrow>
         (let c = c\<lparr>c_fd := fd\<rparr>; cq = cq\<lparr>cq_chunks := c # r\<rparr>
          in if c_is_temp c then Some (cq, 0)
             else case st_size of
               None \<Rightarrow> Some (cq, -1)
             | Some sz \<Rightarrow>
                 if sz < offset \<or> sz < toSend \<or> sz - toSend < offset then Some (cq, -1)
                 else Some (cq, 0))
   }"

section \<open>What a queue holds\<close>

text \<open>A queue is a sequence of octets, each a byte of memory or a position in a named file.\<close>

datatype octet = MemByte char | FileByte string int

definition chunk_bytes :: "chunk \<Rightarrow> octet list" where
  "chunk_bytes c =
     (case c_type c of
        MEM_CHUNK \<Rightarrow> map MemByte (buffer_content (c_mem c))
      | FILE_CHUNK \<Rightarrow> map (FileByte (abs_bytes (c_name c))) [c_start c..c_start c + c_length c - 1])"

definition chunk_octets :: "chunk \<Rightarrow> octet list" where
  "chunk_octets c = drop (nat (c_offset c)) (chunk_bytes c)"

definition cq_octets :: "chunkqueue \<Rightarrow> octet list" where
  "cq_octets cq = concat (map chunk_octets (cq_chunks cq))"

definition chunk_wf :: "chunk \<Rightarrow> bool" where
  "chunk_wf c \<longleftrightarrow> buffer_wf (c_mem c) \<and> 0 \<le> c_offset c \<and> c_offset c \<le> chunk_size c"

definition chunk_clean :: "chunk \<Rightarrow> bool" where
  "chunk_clean c \<longleftrightarrow> buffer_wf (c_mem c) \<and> b_used (c_mem c) = 0 \<and> c_type c = MEM_CHUNK \<and> c_name c = None
     \<and> c_start c = 0 \<and> c_length c = 0 \<and> c_fd c = -1 \<and> c_mmap c = None \<and> \<not> c_is_temp c \<and> c_offset c = 0"

text \<open>
  The counters agree with the contents: what came in and did not go out is in the queue.
  At most five unused chunks are kept, all of them reset.
\<close>

definition cq_wf :: "chunkqueue \<Rightarrow> bool" where
  "cq_wf cq \<longleftrightarrow>
     (\<forall>c\<in>set (cq_chunks cq). chunk_wf c) \<and> (\<forall>c\<in>set (cq_unused cq). chunk_clean c) \<and>
     cq_unused_chunks cq = length (cq_unused cq) \<and> length (cq_unused cq) \<le> 5 \<and>
     cq_bytes_in cq - cq_bytes_out cq = int (length (cq_octets cq))"

lemma cq_octets_simps [simp]:
  "cq_octets (cq\<lparr>cq_chunks := []\<rparr>) = []"
  "cq_octets (cq\<lparr>cq_chunks := c # r\<rparr>) = chunk_octets c @ cq_octets (cq\<lparr>cq_chunks := r\<rparr>)"
  "cq_octets (cq\<lparr>cq_chunks := r @ r'\<rparr>) = cq_octets (cq\<lparr>cq_chunks := r\<rparr>) @ cq_octets (cq\<lparr>cq_chunks := r'\<rparr>)"
  "cq_octets (cq\<lparr>cq_chunks := cq_chunks cq\<rparr>) = cq_octets cq"
  by (simp_all add: cq_octets_def)

lemma cq_octets_cong: "cq_chunks a = cq_chunks b \<Longrightarrow> cq_octets a = cq_octets b"
  by (simp add: cq_octets_def)

lemma length_chunk_bytes:
  "chunk_wf c \<Longrightarrow> int (length (chunk_bytes c)) = chunk_size c"
  by (cases "c_type c")
    (auto simp: chunk_wf_def chunk_size_def chunk_bytes_def buffer_string_length_content)

lemma length_chunk_octets: "chunk_wf c \<Longrightarrow> int (length (chunk_octets c)) = chunk_size c - c_offset c"
  using length_chunk_bytes [of c]
  by (auto simp: chunk_octets_def chunk_wf_def of_nat_diff nat_le_iff)

lemma remaining_ok [simp]: "chunk_wf c \<Longrightarrow> chunk_remaining_length c = Some (int (length (chunk_octets c)))"
  using length_chunk_octets [of c] by (simp add: chunk_remaining_length_def chunk_wf_def)

lemma chunk_init_clean [simp]: "chunk_clean chunk_init"
  by (simp add: chunk_clean_def chunk_init_def)

lemma chunk_reset_clean: "chunk_wf c \<Longrightarrow> chunk_clean (fst (chunk_reset c))"
  by (simp add: chunk_clean_def chunk_reset_def chunk_wf_def buffer_reset_wf)
    (simp add: buffer_reset_def)

lemma clean_content [simp]: "chunk_clean c \<Longrightarrow> buffer_content (c_mem c) = []"
  by (simp add: chunk_clean_def buffer_content_def)

lemma clean_wf: "chunk_clean c \<Longrightarrow> chunk_wf c \<and> chunk_octets c = []"
  by (auto simp: chunk_clean_def chunk_wf_def chunk_size_def chunk_octets_def chunk_bytes_def
      buffer_string_length_def buffer_content_def)

text \<open>The stack of unused chunks.\<close>

lemma push_unused_same [simp]:
  "cq_chunks (chunkqueue_push_unused_chunk cq c) = cq_chunks cq"
  "cq_bytes_in (chunkqueue_push_unused_chunk cq c) = cq_bytes_in cq"
  "cq_bytes_out (chunkqueue_push_unused_chunk cq c) = cq_bytes_out cq"
  "cq_octets (chunkqueue_push_unused_chunk cq c) = cq_octets cq"
  "(chunkqueue_push_unused_chunk cq c)\<lparr>cq_bytes_out := n\<rparr> = chunkqueue_push_unused_chunk (cq\<lparr>cq_bytes_out := n\<rparr>) c"
  by (simp_all add: chunkqueue_push_unused_chunk_def cq_octets_def split: prod.splits)

definition unused_ok :: "chunkqueue \<Rightarrow> bool" where
  "unused_ok cq \<longleftrightarrow> (\<forall>c\<in>set (cq_unused cq). chunk_clean c) \<and>
     cq_unused_chunks cq = length (cq_unused cq) \<and> length (cq_unused cq) \<le> 5"

lemma cq_wf_iff:
  "cq_wf cq \<longleftrightarrow> (\<forall>c\<in>set (cq_chunks cq). chunk_wf c) \<and> unused_ok cq
     \<and> cq_bytes_in cq - cq_bytes_out cq = int (length (cq_octets cq))"
  by (auto simp: cq_wf_def unused_ok_def)

lemma unused_ok_cong [simp]:
  "unused_ok (cq\<lparr>cq_chunks := x\<rparr>) = unused_ok cq" "unused_ok (cq\<lparr>cq_bytes_in := n\<rparr>) = unused_ok cq"
  "unused_ok (cq\<lparr>cq_bytes_out := n\<rparr>) = unused_ok cq" "unused_ok (cq\<lparr>cq_trace := t\<rparr>) = unused_ok cq"
  "unused_ok (cq\<lparr>cq_tempdir_idx := i\<rparr>) = unused_ok cq"
  by (simp_all add: unused_ok_def)

lemma push_unused_ok: "unused_ok cq \<Longrightarrow> chunk_wf c \<Longrightarrow> unused_ok (chunkqueue_push_unused_chunk cq c)"
  using chunk_reset_clean [of c]
  by (auto simp: chunkqueue_push_unused_chunk_def unused_ok_def split: prod.splits)

lemma get_unused_ok:
  assumes "unused_ok cq"
  shows "chunk_clean (fst (chunkqueue_get_unused_chunk cq))"
    "unused_ok (snd (chunkqueue_get_unused_chunk cq))"
    "cq_chunks (snd (chunkqueue_get_unused_chunk cq)) = cq_chunks cq"
    "cq_bytes_in (snd (chunkqueue_get_unused_chunk cq)) = cq_bytes_in cq"
    "cq_bytes_out (snd (chunkqueue_get_unused_chunk cq)) = cq_bytes_out cq"
    "cq_trace (snd (chunkqueue_get_unused_chunk cq)) = cq_trace cq"
  using assms by (auto simp: chunkqueue_get_unused_chunk_def unused_ok_def split: list.splits)

text \<open>Taking a chunk from the stack and linking it in at the end.\<close>

lemma append_chunk_ok:
  assumes "cq_wf cq" "chunk_wf c"
  shows "\<exists>cq'. chunkqueue_append_chunk cq c = Some cq' \<and> cq_wf cq'
           \<and> cq_octets cq' = cq_octets cq @ chunk_octets c
           \<and> cq_chunks cq' = cq_chunks cq @ [c] \<and> cq_bytes_out cq' = cq_bytes_out cq
           \<and> cq_bytes_in cq' = cq_bytes_in cq + int (length (chunk_octets c))"
  using assms by (auto simp: chunkqueue_append_chunk_def cq_wf_iff cq_octets_def)

lemma prepend_chunk_ok:
  assumes "cq_wf cq" "chunk_wf c"
  shows "\<exists>cq'. chunkqueue_prepend_chunk cq c = Some cq' \<and> cq_wf cq'
           \<and> cq_octets cq' = chunk_octets c @ cq_octets cq
           \<and> cq_chunks cq' = c # cq_chunks cq \<and> cq_bytes_out cq' = cq_bytes_out cq
           \<and> cq_bytes_in cq' = cq_bytes_in cq + int (length (chunk_octets c))"
  using assms by (auto simp: chunkqueue_prepend_chunk_def cq_wf_iff cq_octets_def)

lemma get_unused_wf: "cq_wf cq \<Longrightarrow> cq_wf (snd (chunkqueue_get_unused_chunk cq))"
  using get_unused_ok [of cq] by (auto simp: cq_wf_iff cq_octets_def)

lemma get_unused_octets [simp]:
  "cq_wf cq \<Longrightarrow> cq_octets (snd (chunkqueue_get_unused_chunk cq)) = cq_octets cq"
  using get_unused_ok(3) [of cq] by (auto simp: cq_wf_iff cq_octets_def)

lemma mem_chunk:
  assumes "chunk_clean c" "buffer_wf b"
  shows "chunk_wf (c\<lparr>c_type := MEM_CHUNK, c_mem := b\<rparr>)"
    "chunk_octets (c\<lparr>c_type := MEM_CHUNK, c_mem := b\<rparr>) = map MemByte (buffer_content b)"
  using assms by (auto simp: chunk_clean_def chunk_wf_def chunk_size_def chunk_octets_def chunk_bytes_def)

lemma file_chunk:
  assumes "chunk_clean c" "0 \<le> len"
  shows "chunk_wf (c\<lparr>c_type := FILE_CHUNK, c_name := fn, c_start := start, c_length := len, c_offset := 0\<rparr>)"
    "chunk_octets (c\<lparr>c_type := FILE_CHUNK, c_name := fn, c_start := start, c_length := len, c_offset := 0\<rparr>)
       = map (FileByte (abs_bytes fn)) [start..start + len - 1]"
  using assms by (auto simp: chunk_clean_def chunk_wf_def chunk_size_def chunk_octets_def chunk_bytes_def)

section \<open>Putting octets in\<close>

lemma append_mem_ok:
  assumes "cq_wf cq" "fits (length s)"
  shows "\<exists>cq'. chunkqueue_append_mem cq s = Some cq' \<and> cq_wf cq'
           \<and> cq_octets cq' = cq_octets cq @ map MemByte s \<and> cq_bytes_out cq' = cq_bytes_out cq"
proof (cases "s = []")
  case True
  then show ?thesis using assms(1) by (simp add: chunkqueue_append_mem_def)
next
  case False
  let ?c = "fst (chunkqueue_get_unused_chunk cq)" and ?cq = "snd (chunkqueue_get_unused_chunk cq)"
  have un: "unused_ok cq" using assms(1) by (simp add: cq_wf_iff)
  note gu = get_unused_ok [OF un]
  have wfm: "buffer_wf (c_mem ?c)" using gu(1) by (simp add: chunk_clean_def)
  obtain b where b: "buffer_copy_string_len (c_mem ?c) s = Some b" "buffer_wf b" "buffer_abs b = Some s"
    using buffer_copy_string_len_ok [OF wfm assms(2)] by blast
  note mc = mem_chunk [OF gu(1) b(2)]
  obtain cq' where "chunkqueue_append_chunk ?cq (?c\<lparr>c_type := MEM_CHUNK, c_mem := b\<rparr>) = Some cq'" "cq_wf cq'"
      "cq_octets cq' = cq_octets ?cq @ map MemByte (buffer_content b)" "cq_bytes_out cq' = cq_bytes_out ?cq"
    using append_chunk_ok [OF get_unused_wf [OF assms(1)] mc(1)] mc(2) by auto
  then show ?thesis
    using False b(1) buffer_content_abs [OF b(3)] assms(1) gu(5)
    by (auto simp: chunkqueue_append_mem_def case_prod_beta)
qed

lemma buffer_move_some:
  "buffer_move (Some b) (Some m) = (Some m, Some (buffer_reset b))"
  by (simp add: buffer_move_def)

lemma append_buffer_ok:
  assumes "cq_wf cq" "buffer_wf m"
  shows "\<exists>cq' m'. chunkqueue_append_buffer cq m = Some (cq', m') \<and> cq_wf cq' \<and> buffer_wf m'
           \<and> cq_octets cq' = cq_octets cq @ map MemByte (buffer_content m) \<and> cq_bytes_out cq' = cq_bytes_out cq"
proof (cases "buffer_string_is_empty m")
  case True
  then have "buffer_content m = []" by (simp add: buffer_string_is_empty_def buffer_content_def)
  then show ?thesis using assms True by (simp add: chunkqueue_append_buffer_def)
next
  case False
  let ?c = "fst (chunkqueue_get_unused_chunk cq)" and ?cq = "snd (chunkqueue_get_unused_chunk cq)"
  have un: "unused_ok cq" using assms(1) by (simp add: cq_wf_iff)
  note gu = get_unused_ok [OF un]
  note mc = mem_chunk [OF gu(1) assms(2)]
  have "buffer_wf (buffer_reset (c_mem ?c))" using gu(1) by (simp add: chunk_clean_def buffer_reset_wf)
  then show ?thesis
    using append_chunk_ok [OF get_unused_wf [OF assms(1)] mc(1)] mc(2) False assms(1) gu(5)
    by (auto simp: chunkqueue_append_buffer_def case_prod_beta buffer_move_some)
qed

lemma prepend_buffer_ok:
  assumes "cq_wf cq" "buffer_wf m"
  shows "\<exists>cq' m'. chunkqueue_prepend_buffer cq m = Some (cq', m') \<and> cq_wf cq' \<and> buffer_wf m'
           \<and> cq_octets cq' = map MemByte (buffer_content m) @ cq_octets cq \<and> cq_bytes_out cq' = cq_bytes_out cq"
proof (cases "buffer_string_is_empty m")
  case True
  then have "buffer_content m = []" by (simp add: buffer_string_is_empty_def buffer_content_def)
  then show ?thesis using assms True by (simp add: chunkqueue_prepend_buffer_def)
next
  case False
  let ?c = "fst (chunkqueue_get_unused_chunk cq)" and ?cq = "snd (chunkqueue_get_unused_chunk cq)"
  have un: "unused_ok cq" using assms(1) by (simp add: cq_wf_iff)
  note gu = get_unused_ok [OF un]
  note mc = mem_chunk [OF gu(1) assms(2)]
  have "buffer_wf (buffer_reset (c_mem ?c))" using gu(1) by (simp add: chunk_clean_def buffer_reset_wf)
  then show ?thesis
    using prepend_chunk_ok [OF get_unused_wf [OF assms(1)] mc(1)] mc(2) False assms(1) gu(5)
    by (auto simp: chunkqueue_prepend_buffer_def case_prod_beta buffer_move_some)
qed

lemma append_file_ok:
  assumes "cq_wf cq" "0 \<le> len"
  shows "\<exists>cq'. chunkqueue_append_file cq fn start len = Some cq' \<and> cq_wf cq'
           \<and> cq_octets cq' = cq_octets cq @ map (FileByte (abs_bytes fn)) [start..start + len - 1]
           \<and> cq_bytes_out cq' = cq_bytes_out cq"
proof (cases "len = 0")
  case True
  then show ?thesis using assms by (simp add: chunkqueue_append_file_def)
next
  case False
  have un: "unused_ok cq" using assms(1) by (simp add: cq_wf_iff)
  note gu = get_unused_ok [OF un]
  note fc = file_chunk [OF gu(1) assms(2), where fn = "buffer_copied fn" and start = start]
  show ?thesis
    using append_chunk_ok [OF get_unused_wf [OF assms(1)] fc(1)] fc(2) False assms(1) gu(5)
    by (auto simp: chunkqueue_append_file_def case_prod_beta buffer_copied_def)
qed

lemma append_file_fd_ok:
  assumes "cq_wf cq" "0 \<le> len"
  shows "\<exists>cq'. chunkqueue_append_file_fd cq fn fd start len = Some cq' \<and> cq_wf cq'
           \<and> cq_octets cq' = cq_octets cq @ map (FileByte (abs_bytes fn)) [start..start + len - 1]
           \<and> cq_bytes_out cq' = cq_bytes_out cq"
proof (cases "len = 0")
  case True
  then show ?thesis using assms by (simp add: chunkqueue_append_file_fd_def cq_wf_iff cq_octets_def)
next
  case False
  have un: "unused_ok cq" using assms(1) by (simp add: cq_wf_iff)
  note gu = get_unused_ok [OF un]
  let ?c = "(fst (chunkqueue_get_unused_chunk cq))\<lparr>c_type := FILE_CHUNK, c_name := buffer_copied fn,
      c_start := start, c_length := len, c_fd := fd, c_offset := 0\<rparr>"
  have fc: "chunk_wf ?c" "chunk_octets ?c = map (FileByte (abs_bytes fn)) [start..start + len - 1]"
    using file_chunk [OF gu(1) assms(2), where fn = "buffer_copied fn" and start = start]
    by (auto simp: chunk_wf_def chunk_size_def chunk_octets_def chunk_bytes_def buffer_copied_def)
  show ?thesis
    using append_chunk_ok [OF get_unused_wf [OF assms(1)] fc(1)] fc(2) False assms(1) gu(5)
    by (auto simp: chunkqueue_append_file_fd_def case_prod_beta)
qed

lemma append_chunkqueue_ok:
  assumes "cq_wf cq" "cq_wf src"
  shows "case chunkqueue_append_chunkqueue cq src of (cq', src') \<Rightarrow>
           cq_wf cq' \<and> cq_wf src' \<and> cq_octets cq' = cq_octets cq @ cq_octets src \<and> cq_octets src' = []"
  using assms by (auto simp: chunkqueue_append_chunkqueue_def cq_wf_iff cq_octets_def)

section \<open>Taking octets out\<close>

lemma chunk_advance:
  assumes "chunk_wf c" "0 \<le> n" "n \<le> int (length (chunk_octets c))"
  shows "chunk_wf (c\<lparr>c_offset := c_offset c + n\<rparr>)"
    "chunk_octets (c\<lparr>c_offset := c_offset c + n\<rparr>) = drop (nat n) (chunk_octets c)"
proof -
  show "chunk_wf (c\<lparr>c_offset := c_offset c + n\<rparr>)"
    using assms length_chunk_octets [OF assms(1)]
    by (cases "c_type c") (simp_all add: chunk_wf_def chunk_size_def)
  have "nat (c_offset c + n) = nat n + nat (c_offset c)"
    using assms(1,2) by (simp add: chunk_wf_def nat_add_distrib)
  then show "chunk_octets (c\<lparr>c_offset := c_offset c + n\<rparr>) = drop (nat n) (chunk_octets c)"
    by (cases "c_type c") (simp_all add: chunk_octets_def chunk_bytes_def)
qed

text \<open>The part of a chunk that a partial move takes.\<close>

lemma upto_take: "0 \<le> n \<Longrightarrow> n \<le> len \<Longrightarrow> take (nat n) [a..a + len - 1] = [a..a + n - 1]"
proof (induction "nat n" arbitrary: n)
  case (Suc k)
  then have IH: "take (nat (n - 1)) [a..a + len - 1] = [a..a + (n - 1) - 1]" by simp
  have k: "nat n = Suc (nat (n - 1))" using Suc by simp
  have "nat (n - 1) < length [a..a + len - 1]" using Suc by simp
  then have "take (nat n) [a..a + len - 1] = take (nat (n - 1)) [a..a + len - 1] @ [[a..a + len - 1] ! nat (n - 1)]"
    unfolding k by (rule take_Suc_conv_app_nth)
  moreover have "[a..a + len - 1] ! nat (n - 1) = a + n - 1" using Suc by (subst nth_upto) auto
  moreover have "[a..a + (n - 1) - 1] @ [a + n - 1] = [a..a + n - 1]"
    using Suc upto_rec2 [of a "a + n - 1"] by simp
  ultimately show ?case using IH by simp
qed simp

lemma upto_drop: "0 \<le> n \<Longrightarrow> n \<le> len \<Longrightarrow> drop (nat n) [a..a + len - 1] = [a + n..a + len - 1]"
proof (induction "nat n" arbitrary: n a len)
  case (Suc k)
  then have "k = nat (n - 1)" "0 \<le> n - 1" "n - 1 \<le> len - 1" by simp_all
  from Suc.hyps(1) [OF this, of "a + 1"]
  have IH: "drop (nat (n - 1)) [a + 1..a + len - 1] = [a + n..a + len - 1]" by (simp add: algebra_simps)
  have "[a..a + len - 1] = a # [a + 1..a + len - 1]" using Suc by (simp add: upto_rec1)
  moreover have "nat n = Suc (nat (n - 1))" using Suc by simp
  ultimately show ?case using IH by simp
qed simp

lemma file_octets:
  assumes "chunk_wf c" "c_type c = FILE_CHUNK"
  shows "chunk_octets c = map (FileByte (abs_bytes (c_name c))) [c_start c + c_offset c..c_start c + c_length c - 1]"
  using assms upto_drop [of "c_offset c" "c_length c" "c_start c"]
  by (simp add: chunk_octets_def chunk_bytes_def chunk_wf_def chunk_size_def drop_map)

lemma file_octets_take:
  assumes "chunk_wf c" "c_type c = FILE_CHUNK" "0 \<le> n" "n \<le> int (length (chunk_octets c))"
  shows "take (nat n) (chunk_octets c)
    = map (FileByte (abs_bytes (c_name c))) [c_start c + c_offset c..c_start c + c_offset c + n - 1]"
proof -
  have "n \<le> c_length c - c_offset c"
    using assms(2,4) length_chunk_octets [OF assms(1)] by (simp add: chunk_size_def)
  then have "take (nat n) [c_start c + c_offset c..c_start c + c_offset c + (c_length c - c_offset c) - 1]
      = [c_start c + c_offset c..c_start c + c_offset c + n - 1]"
    using assms(3) by (rule upto_take [rotated])
  then show ?thesis using file_octets [OF assms(1,2)] by (simp add: take_map)
qed

lemma read_at_iff:
  "read_at m i n = Some s \<longleftrightarrow> i + n \<le> length m \<and> take n (drop i m) = map Some s"
proof -
  have "map Some (map the l) = l" if "None \<notin> set l" for l :: cells
    using that by (induction l) auto
  then show ?thesis by (fastforce simp: read_at_def split: if_splits)
qed

lemma mem_octets_read:
  assumes "chunk_wf c" "c_type c = MEM_CHUNK" "0 \<le> n" "n \<le> int (length (chunk_octets c))"
  shows "\<exists>s. read_at (b_ptr (c_mem c)) (nat (c_offset c)) (nat n) = Some s
           \<and> map MemByte s = take (nat n) (chunk_octets c) \<and> length s \<le> b_size (c_mem c)"
proof -
  let ?c = "buffer_content (c_mem c)"
  have wf: "buffer_wf (c_mem c)" using assms(1) by (simp add: chunk_wf_def)
  have oct: "chunk_octets c = map MemByte (drop (nat (c_offset c)) ?c)"
    using assms(2) by (simp add: chunk_octets_def chunk_bytes_def drop_map)
  let ?s = "take (nat n) (drop (nat (c_offset c)) ?c)"
  have "c_offset c + n \<le> int (length ?c)" "0 \<le> c_offset c"
    using assms(1,4) length_chunk_octets [OF assms(1)] assms(2)
    by (simp_all add: chunk_wf_def chunk_size_def buffer_string_length_content)
  then have "int (nat (c_offset c) + nat n) \<le> int (length ?c)" using assms(3) by simp
  then have len: "nat (c_offset c) + nat n \<le> length ?c" by (simp only: of_nat_le_iff)
  have "read_at (b_ptr (c_mem c)) 0 (length ?c) = Some ?c"
    using read_at_content [OF wf] wf by (simp add: buffer_string_length_content)
  then have cells: "take (length ?c) (b_ptr (c_mem c)) = map Some ?c" "length ?c \<le> length (b_ptr (c_mem c))"
    by (simp_all add: read_at_iff)
  have "take (nat n) (drop (nat (c_offset c)) (b_ptr (c_mem c))) = map Some ?s"
    using len arg_cong [OF cells(1), of "\<lambda>l. take (nat n) (drop (nat (c_offset c)) l)"]
    by (simp add: take_map drop_map drop_take min.absorb1)
  then have "read_at (b_ptr (c_mem c)) (nat (c_offset c)) (nat n) = Some ?s"
    using len cells(2) by (auto simp: read_at_def)
  moreover have "length ?s \<le> b_size (c_mem c)"
    using cells(2) buffer_wfD(1) [OF wf] by simp
  ultimately show ?thesis using oct by (simp add: take_map)
qed

text \<open>Moving: the destination gets the first \<open>len\<close> octets, the source keeps the rest.\<close>

lemma cq_wf_cons:
  assumes "cq_wf cq" "cq_chunks cq = c # r"
  shows "chunk_wf c" "unused_ok cq" "cq_octets cq = chunk_octets c @ cq_octets (cq\<lparr>cq_chunks := r\<rparr>)"
    "cq_bytes_in cq - cq_bytes_out cq = int (length (chunk_octets c)) + int (length (cq_octets (cq\<lparr>cq_chunks := r\<rparr>)))"
    "\<forall>c\<in>set r. chunk_wf c"
  using assms by (auto simp: cq_wf_iff cq_octets_def)

lemma drop_first_wf:
  assumes "cq_wf cq" "cq_chunks cq = c # r" "chunk_wf c'"
  shows "chunk_octets c = [] \<Longrightarrow> cq_wf (chunkqueue_push_unused_chunk (cq\<lparr>cq_chunks := r\<rparr>) c')"
    "cq_wf (cq\<lparr>cq_chunks := r, cq_bytes_out := cq_bytes_out cq + int (length (chunk_octets c))\<rparr>)"
    "cq_wf ((chunkqueue_push_unused_chunk (cq\<lparr>cq_chunks := r\<rparr>) c')
       \<lparr>cq_bytes_out := cq_bytes_out cq + int (length (chunk_octets c))\<rparr>)"
  using cq_wf_cons [OF assms(1,2)] push_unused_ok [of "cq\<lparr>cq_chunks := r\<rparr>" c'] assms(3)
    push_unused_ok [of "cq\<lparr>cq_chunks := r, cq_bytes_out := cq_bytes_out cq + int (length (chunk_octets c))\<rparr>" c']
  by (auto simp: cq_wf_iff cq_octets_def)

lemma advance_first_wf:
  assumes "cq_wf cq" "cq_chunks cq = c # r" "0 \<le> n" "n \<le> int (length (chunk_octets c))"
  defines "cq' \<equiv> cq\<lparr>cq_chunks := c\<lparr>c_offset := c_offset c + n\<rparr> # r, cq_bytes_out := cq_bytes_out cq + n\<rparr>"
  shows "cq_wf cq'" "cq_octets cq' = drop (nat n) (cq_octets cq)"
proof -
  note adv = chunk_advance [OF cq_wf_cons(1) [OF assms(1,2)] assms(3,4)]
  show oct: "cq_octets cq' = drop (nat n) (cq_octets cq)"
    using assms(2,4) adv(2) by (simp add: cq'_def cq_octets_def nat_le_iff)
  have "int (length (cq_octets cq')) = int (length (cq_octets cq)) - n"
    using assms(3,4) cq_wf_cons(3) [OF assms(1,2)] unfolding oct by (simp add: of_nat_diff nat_le_iff)
  then show "cq_wf cq'"
    using assms(1) adv(1) cq_wf_cons(5) [OF assms(1,2)] by (auto simp: cq_wf_iff cq'_def)
qed

text \<open>Every piece of memory in the queue is small enough to be copied.\<close>

definition cq_small :: "chunkqueue \<Rightarrow> bool" where
  "cq_small cq \<longleftrightarrow> (\<forall>c\<in>set (cq_chunks cq). c_type c = MEM_CHUNK \<longrightarrow> fits (length (chunk_octets c)))"

lemma steal_ok:
  assumes "cq_wf dest" "cq_wf src" "cq_small src"
  shows "\<exists>dest' src'. chunkqueue_steal dest src len = Some (dest', src') \<and> cq_wf dest' \<and> cq_wf src'
           \<and> cq_octets dest' = cq_octets dest @ take (nat len) (cq_octets src)
           \<and> cq_octets src' = drop (nat len) (cq_octets src) \<and> cq_bytes_out dest' = cq_bytes_out dest"
  using assms
proof (induction dest src len rule: chunkqueue_steal.induct)
  case (1 dest src len)
  show ?case
  proof (cases "len \<le> 0 \<or> cq_chunks src = []")
    case True
    then show ?thesis
      using 1(3,4) by (auto simp: chunkqueue_steal.simps [of dest src] cq_octets_def split: list.split)
  next
    case False
    then obtain c r where c: "cq_chunks src = c # r" and len: "0 < len" by (cases "cq_chunks src") auto
    note w = cq_wf_cons [OF 1(4) c]
    define n where "n = int (length (chunk_octets c))"
    have rem: "chunk_remaining_length c = Some n" using w(1) by (simp add: n_def)
    have step: "chunkqueue_steal dest src len =
        (if n = 0 then chunkqueue_steal dest (chunkqueue_push_unused_chunk (src\<lparr>cq_chunks := r\<rparr>) c) len
         else if n \<le> len then
           (case chunkqueue_append_chunk dest c of None \<Rightarrow> None
            | Some dest \<Rightarrow> chunkqueue_steal dest
                (src\<lparr>cq_chunks := r, cq_bytes_out := cq_bytes_out src + n\<rparr>) (len - n))
         else do {
           dest \<leftarrow> (case c_type c of
               MEM_CHUNK \<Rightarrow> do {
                 s \<leftarrow> read_at (b_ptr (c_mem c)) (nat (c_offset c)) (nat len);
                 chunkqueue_append_mem dest s
               }
             | FILE_CHUNK \<Rightarrow> chunkqueue_append_file dest (c_name c) (c_start c + c_offset c) len);
           Some (dest, src\<lparr>cq_chunks := c\<lparr>c_offset := c_offset c + len\<rparr> # r,
                           cq_bytes_out := cq_bytes_out src + len\<rparr>)
         })"
      using len by (subst chunkqueue_steal.simps) (simp add: c rem)
    consider (empty) "n = 0" | (whole) "n \<noteq> 0" "n \<le> len" | (part) "n \<noteq> 0" "len < n" by linarith
    then show ?thesis
    proof cases
      case empty
      then have e: "chunk_octets c = []" by (simp add: n_def)
      have "\<exists>dest' src'. chunkqueue_steal dest (chunkqueue_push_unused_chunk (src\<lparr>cq_chunks := r\<rparr>) c) len = Some (dest', src')
          \<and> cq_wf dest' \<and> cq_wf src'
          \<and> cq_octets dest' = cq_octets dest @ take (nat len) (cq_octets (chunkqueue_push_unused_chunk (src\<lparr>cq_chunks := r\<rparr>) c))
          \<and> cq_octets src' = drop (nat len) (cq_octets (chunkqueue_push_unused_chunk (src\<lparr>cq_chunks := r\<rparr>) c))
          \<and> cq_bytes_out dest' = cq_bytes_out dest"
        using len c rem empty 1(5) drop_first_wf(1) [OF 1(4) c w(1) e] by (intro 1(1) 1(3)) (auto simp: cq_small_def)
      then show ?thesis using step empty e w(3) by simp
    next
      case whole
      obtain d where d: "chunkqueue_append_chunk dest c = Some d" "cq_wf d"
          "cq_octets d = cq_octets dest @ chunk_octets c" "cq_bytes_out d = cq_bytes_out dest"
        using append_chunk_ok [OF 1(3) w(1)] by blast
      let ?src = "src\<lparr>cq_chunks := r, cq_bytes_out := cq_bytes_out src + n\<rparr>"
      have oct: "cq_octets ?src = cq_octets (src\<lparr>cq_chunks := r\<rparr>)" by (simp add: cq_octets_def)
      have "\<exists>dest' src'. chunkqueue_steal d ?src (len - n) = Some (dest', src')
          \<and> cq_wf dest' \<and> cq_wf src'
          \<and> cq_octets dest' = cq_octets d @ take (nat (len - n)) (cq_octets ?src)
          \<and> cq_octets src' = drop (nat (len - n)) (cq_octets ?src) \<and> cq_bytes_out dest' = cq_bytes_out d"
        using len c rem whole d(1,2) 1(5) drop_first_wf(2) [OF 1(4) c w(1)]
        by (intro 1(2)) (auto simp: n_def cq_small_def)
      moreover have "nat len = length (chunk_octets c) + nat (len - n)"
        using whole(2) by (simp add: n_def)
      ultimately show ?thesis using step whole d(1,3,4) w(3) oct by simp
    next
      case part
      note adv = advance_first_wf [OF 1(4) c, of len]
      have tk: "take (nat len) (cq_octets src) = take (nat len) (chunk_octets c)"
        using part len w(3) by (simp add: n_def nat_le_iff)
      have "\<exists>d. (case c_type c of
               MEM_CHUNK \<Rightarrow> do {
                 s \<leftarrow> read_at (b_ptr (c_mem c)) (nat (c_offset c)) (nat len);
                 chunkqueue_append_mem dest s
               }
             | FILE_CHUNK \<Rightarrow> chunkqueue_append_file dest (c_name c) (c_start c + c_offset c) len) = Some d
           \<and> cq_wf d \<and> cq_octets d = cq_octets dest @ take (nat len) (chunk_octets c) \<and> cq_bytes_out d = cq_bytes_out dest"
      proof (cases "c_type c")
        case MEM_CHUNK
        obtain s where s: "read_at (b_ptr (c_mem c)) (nat (c_offset c)) (nat len) = Some s"
            "map MemByte s = take (nat len) (chunk_octets c)"
          using mem_octets_read [OF w(1) MEM_CHUNK, of len] part len by (auto simp: n_def)
        have "fits (length s)" using arg_cong [OF s(2), of length] 1(5) c MEM_CHUNK by (auto simp: cq_small_def elim: fits_mono)
        then show ?thesis using append_mem_ok [OF 1(3), of s] s MEM_CHUNK by auto
      next
        case FILE_CHUNK
        then show ?thesis
          using append_file_ok [OF 1(3), of len "c_name c" "c_start c + c_offset c"] len
            file_octets_take [OF w(1) FILE_CHUNK, of len] part by (auto simp: n_def)
      qed
      then show ?thesis
        using step part adv len tk by (auto simp: n_def)
    qed
  qed
qed

lemma chunkqueue_length_ok:
  assumes "cq_wf cq"
  shows "chunkqueue_length cq = Some (int (length (cq_octets cq)))"
proof -
  have "fold (\<lambda>c len. do { l \<leftarrow> len; n \<leftarrow> chunk_remaining_length c; Some (l + n) }) cs (Some k)
      = Some (k + int (length (concat (map chunk_octets cs))))" if "\<forall>c\<in>set cs. chunk_wf c" for cs k
    using that by (induction cs arbitrary: k) auto
  then show ?thesis using assms by (simp add: chunkqueue_length_def cq_wf_def cq_octets_def)
qed

text \<open>The octets removed so far are \<open>k\<close>; the counter is brought up to date at the end.\<close>

lemma mark_written_loop_ok:
  assumes "cq_wf (cq\<lparr>cq_bytes_out := cq_bytes_out cq + k\<rparr>)" "0 \<le> w"
  shows "\<exists>cq' rest. mark_written_loop cq w = Some (cq', rest)
     \<and> cq_bytes_out cq' = cq_bytes_out cq
     \<and> cq_wf (cq'\<lparr>cq_bytes_out := cq_bytes_out cq + k + (w - rest)\<rparr>)
     \<and> cq_octets cq' = drop (nat w) (cq_octets cq)
     \<and> rest = max 0 (w - int (length (cq_octets cq)))
     \<and> (cq_chunks cq' = [] \<or> chunk_octets (hd (cq_chunks cq')) \<noteq> [])"
  using assms
proof (induction cq w arbitrary: k rule: mark_written_loop.induct)
  case (1 cq w)
  let ?cq = "cq\<lparr>cq_bytes_out := cq_bytes_out cq + k\<rparr>"
  show ?case
  proof (cases "cq_chunks cq")
    case Nil
    then show ?thesis using 1(2,3) by (simp add: mark_written_loop.simps [of cq] cq_octets_def)
  next
    case (Cons c r)
    then have c: "cq_chunks ?cq = c # r" by simp
    note w = cq_wf_cons [OF 1(2) c]
    define n where "n = int (length (chunk_octets c))"
    have rem: "chunk_remaining_length c = Some n" using w(1) by (simp add: n_def)
    have oct: "cq_octets cq = chunk_octets c @ cq_octets (cq\<lparr>cq_chunks := r\<rparr>)"
      using Cons by (simp add: cq_octets_def)
    consider (stop) "w = 0" "n \<noteq> 0" | (fin) "\<not> (w = 0 \<and> n \<noteq> 0)" "n \<le> w" | (part) "w \<noteq> 0" "w < n" by linarith
    then show ?thesis
    proof cases
      case stop
      then show ?thesis
        using Cons rem 1(2) by (auto simp: mark_written_loop.simps [of cq] n_def max_def)
    next
      case fin
      let ?c = "c\<lparr>c_offset := c_offset c + n\<rparr>"
      let ?next = "chunkqueue_push_unused_chunk (cq\<lparr>cq_chunks := r\<rparr>) ?c"
      have c': "chunk_wf ?c" using chunk_advance(1) [OF w(1), of n] by (simp add: n_def)
      have "cq_wf ((chunkqueue_push_unused_chunk (?cq\<lparr>cq_chunks := r\<rparr>) ?c)
          \<lparr>cq_bytes_out := cq_bytes_out ?cq + int (length (chunk_octets c))\<rparr>)"
        by (rule drop_first_wf(3) [OF 1(2) c c'])
      then have "cq_wf (?next\<lparr>cq_bytes_out := cq_bytes_out ?next + (k + n)\<rparr>)"
        by (simp add: n_def add.assoc)
      then have "\<exists>cq' rest. mark_written_loop ?next (w - n) = Some (cq', rest)
         \<and> cq_bytes_out cq' = cq_bytes_out ?next
         \<and> cq_wf (cq'\<lparr>cq_bytes_out := cq_bytes_out ?next + (k + n) + ((w - n) - rest)\<rparr>)
         \<and> cq_octets cq' = drop (nat (w - n)) (cq_octets ?next)
         \<and> rest = max 0 ((w - n) - int (length (cq_octets ?next)))
         \<and> (cq_chunks cq' = [] \<or> chunk_octets (hd (cq_chunks cq')) \<noteq> [])"
        using fin Cons rem by (intro 1(1)) auto
      moreover have "mark_written_loop cq w = mark_written_loop ?next (w - n)"
        using fin Cons rem by (subst mark_written_loop.simps) auto
      moreover have "nat w = length (chunk_octets c) + nat (w - n)" using fin(2) by (simp add: n_def)
      moreover have "(w - n) - int (length (cq_octets ?next)) = w - int (length (cq_octets cq))"
        using oct by (simp add: n_def)
      ultimately show ?thesis using oct by (simp add: algebra_simps)
    next
      case part
      note adv = advance_first_wf [OF 1(2) c, of w]
      have "mark_written_loop cq w = Some (cq\<lparr>cq_chunks := c\<lparr>c_offset := c_offset c + w\<rparr> # r\<rparr>, 0)"
        using part Cons rem by (subst mark_written_loop.simps) auto
      moreover have "chunk_octets (c\<lparr>c_offset := c_offset c + w\<rparr>) \<noteq> []"
        using chunk_advance(2) [OF w(1), of w] part 1(3) by (simp add: n_def)
      moreover have "max 0 (w - int (length (cq_octets cq))) = 0" using part oct by (simp add: n_def)
      ultimately show ?thesis
        using adv part 1(3) by (auto simp: n_def cq_octets_def)
    qed
  qed
qed

lemma mark_written_ok:
  assumes "cq_wf cq" "0 \<le> len" "len \<le> int (length (cq_octets cq))"
  shows "\<exists>cq'. chunkqueue_mark_written cq len = Some cq' \<and> cq_wf cq'
           \<and> cq_octets cq' = drop (nat len) (cq_octets cq) \<and> cq_bytes_out cq' = cq_bytes_out cq + len
           \<and> (cq_chunks cq' = [] \<or> chunk_octets (hd (cq_chunks cq')) \<noteq> [])"
proof -
  have "max 0 (len - int (length (cq_octets cq))) = 0" using assms(3) by simp
  then obtain cq' where "mark_written_loop cq len = Some (cq', 0)" "cq_bytes_out cq' = cq_bytes_out cq"
      "cq_wf (cq'\<lparr>cq_bytes_out := cq_bytes_out cq + len\<rparr>)" "cq_octets cq' = drop (nat len) (cq_octets cq)"
      "cq_chunks cq' = [] \<or> chunk_octets (hd (cq_chunks cq')) \<noteq> []"
    using mark_written_loop_ok [of cq 0 len] assms(1,2) by auto
  then show ?thesis using assms(2) by (auto simp: chunkqueue_mark_written_def cq_octets_def)
qed

lemma mark_written_too_much:
  assumes "cq_wf cq" "len < 0 \<or> int (length (cq_octets cq)) < len"
  shows "chunkqueue_mark_written cq len = None"
  using mark_written_loop_ok [of cq 0 len] assms
  by (cases "len < 0") (auto simp: chunkqueue_mark_written_def max_def)

lemma remove_finished_ok:
  assumes "cq_wf cq"
  shows "\<exists>cq'. chunkqueue_remove_finished_chunks cq = Some cq' \<and> cq_wf cq' \<and> cq_octets cq' = cq_octets cq
           \<and> (cq_chunks cq' = [] \<or> chunk_octets (hd (cq_chunks cq')) \<noteq> [])"
  using assms
proof (induction cq rule: chunkqueue_remove_finished_chunks.induct)
  case (1 cq)
  show ?case
  proof (cases "cq_chunks cq")
    case Nil
    then show ?thesis using 1(2) by (simp add: chunkqueue_remove_finished_chunks.simps [of cq])
  next
    case (Cons c r)
    note w = cq_wf_cons [OF 1(2) Cons]
    show ?thesis
    proof (cases "chunk_octets c = []")
      case False
      then show ?thesis
        using 1(2) Cons w(1) by (simp add: chunkqueue_remove_finished_chunks.simps [of cq])
    next
      case True
      let ?next = "chunkqueue_push_unused_chunk (cq\<lparr>cq_chunks := r\<rparr>) c"
      have wf: "cq_wf ?next" by (rule drop_first_wf(1) [OF 1(2) Cons w(1) True])
      have "chunkqueue_remove_finished_chunks cq = chunkqueue_remove_finished_chunks ?next"
        using Cons w(1) True by (simp add: chunkqueue_remove_finished_chunks.simps [of cq])
      moreover have "cq_octets ?next = cq_octets cq" using w(3) True by simp
      moreover note 1(1) [OF Cons _ _ wf]
      ultimately show ?thesis using w(1) True by simp
    qed
  qed
qed

text \<open>Removing empty chunks does not change what is queued.\<close>

lemma remove_empty_loop_ok:
  assumes "unused_ok cq" "\<forall>c\<in>set pre \<union> set rest. chunk_wf c"
  shows "\<exists>cq'. remove_empty_loop cq pre rest = Some cq' \<and> unused_ok cq'
     \<and> (\<forall>c\<in>set (cq_chunks cq'). chunk_wf c) \<and> cq_bytes_in cq' = cq_bytes_in cq \<and> cq_bytes_out cq' = cq_bytes_out cq
     \<and> cq_octets cq' = concat (map chunk_octets (pre @ rest))"
  using assms
proof (induction cq pre rest rule: remove_empty_loop.induct)
  case (1 cq pre)
  then show ?case by (simp add: cq_octets_def)
next
  case (2 cq pre e)
  then show ?case using push_unused_ok [of cq e] by (auto simp: cq_octets_def)
next
  case (3 cq pre e d rest)
  show ?case
  proof (cases "chunk_octets e = []")
    case True
    have "unused_ok (chunkqueue_push_unused_chunk cq e)" using 3(3,4) by (intro push_unused_ok) auto
    then show ?thesis using 3(1) [of 0] 3(4) True by auto
  next
    case False
    then show ?thesis using 3(2) [of "int (length (chunk_octets e))"] 3(3,4) by auto
  qed
qed

lemma remove_empty_ok:
  assumes "cq_wf cq"
  shows "\<exists>cq'. chunkqueue_remove_empty_chunks cq = Some cq' \<and> cq_wf cq' \<and> cq_octets cq' = cq_octets cq"
proof -
  obtain cq1 where cq1: "chunkqueue_remove_finished_chunks cq = Some cq1" "cq_wf cq1" "cq_octets cq1 = cq_octets cq"
    using remove_finished_ok [OF assms] by blast
  show ?thesis
  proof (cases "cq_chunks cq1")
    case Nil
    then show ?thesis using cq1 by (simp add: chunkqueue_remove_empty_chunks_def)
  next
    case (Cons c r)
    then obtain cq' where "remove_empty_loop cq1 [c] r = Some cq'" "unused_ok cq'"
        "\<forall>c\<in>set (cq_chunks cq'). chunk_wf c" "cq_bytes_in cq' = cq_bytes_in cq1" "cq_bytes_out cq' = cq_bytes_out cq1"
        "cq_octets cq' = cq_octets cq1"
      using remove_empty_loop_ok [of cq1 "[c]" r] cq1(2) by (auto simp: cq_wf_iff cq_octets_def)
    then show ?thesis using cq1 Cons by (auto simp: chunkqueue_remove_empty_chunks_def cq_wf_iff)
  qed
qed

lemma reset_ok:
  assumes "cq_wf cq"
  shows "cq_wf (chunkqueue_reset cq)" "cq_octets (chunkqueue_reset cq) = []"
proof -
  have "unused_ok (foldl chunkqueue_push_unused_chunk q cs) \<and> cq_chunks (foldl chunkqueue_push_unused_chunk q cs) = cq_chunks q"
    if "unused_ok q" "\<forall>c\<in>set cs. chunk_wf c" for q cs
    using that by (induction cs arbitrary: q) (auto simp: push_unused_ok)
  from this [of "cq\<lparr>cq_chunks := []\<rparr>" "cq_chunks cq"] assms
  show "cq_wf (chunkqueue_reset cq)" "cq_octets (chunkqueue_reset cq) = []"
    by (auto simp: chunkqueue_reset_def cq_wf_iff cq_octets_def)
qed

lemma init_ok: "cq_wf (chunkqueue_init d)" "cq_octets (chunkqueue_init d) = []"
  by (simp_all add: chunkqueue_init_def cq_wf_def cq_octets_def)

section \<open>Reading into a queue\<close>

lemma set_last_wf:
  assumes "cq_wf cq" "cq_chunks cq = pre @ [c]" "chunk_wf (c\<lparr>c_mem := b\<rparr>)"
    "chunk_octets (c\<lparr>c_mem := b\<rparr>) = chunk_octets c @ x"
  shows "cq_wf ((set_last_mem cq c b)\<lparr>cq_bytes_in := cq_bytes_in cq + int (length x)\<rparr>)"
    "cq_octets (set_last_mem cq c b) = cq_octets cq @ x"
    "cq_chunks (set_last_mem cq c b) = pre @ [c\<lparr>c_mem := b\<rparr>]"
  using assms by (auto simp: set_last_mem_def cq_wf_iff cq_octets_def)

lemma mem_chunk_same:
  assumes "chunk_wf c" "c_type c = MEM_CHUNK" "buffer_wf b" "buffer_content b = buffer_content (c_mem c)"
  shows "chunk_wf (c\<lparr>c_mem := b\<rparr>)" "chunk_octets (c\<lparr>c_mem := b\<rparr>) = chunk_octets c"
  using assms by (auto simp: chunk_wf_def chunk_size_def chunk_octets_def chunk_bytes_def buffer_string_length_content)

lemma mem_chunk_more:
  assumes "chunk_wf c" "c_type c = MEM_CHUNK" "buffer_wf b" "buffer_content b = buffer_content (c_mem c) @ s"
  shows "chunk_wf (c\<lparr>c_mem := b\<rparr>)" "chunk_octets (c\<lparr>c_mem := b\<rparr>) = chunk_octets c @ map MemByte s"
  using assms
  by (auto simp: chunk_wf_def chunk_size_def chunk_octets_def chunk_bytes_def buffer_string_length_content nat_le_iff)

text \<open>A buffer that has room behind its contents.\<close>

definition has_room :: "buffer \<Rightarrow> nat \<Rightarrow> bool" where
  "has_room b n \<longleftrightarrow> buffer_wf b \<and> 0 < b_used b \<and> buffer_string_space b = n"

lemma memory_in_last_ok:
  assumes "buffer_wf b" "fits (length (buffer_content b) + min_size + alloc_size)" "0 < min_size" "min_size \<le> alloc_size"
  shows "\<exists>b'. memory_in_last b min_size alloc_size = Some b' \<and> buffer_wf b' \<and> 0 < b_used b'
           \<and> buffer_content b' = buffer_content b"
proof (cases "buffer_string_is_empty b")
  case True
  then have e: "buffer_content b = []" by (simp add: buffer_string_is_empty_def buffer_content_def)
  obtain b1 rest where b1: "buffer_string_prepare_copy b alloc_size = Some (b1, 0)" "b_used b1 = 1"
      "b_ptr b1 = Some NUL # rest" "b_size b1 = length (b_ptr b1)" "b_size b1 \<le> PTRDIFF_MAX"
    using buffer_prepare_copy_ok [OF assms(1), of alloc_size]
      fits_mono [OF assms(2), of alloc_size] by auto
  with True e show ?thesis
    using buffer_wfI [of b1 "[]" rest] by (simp add: memory_in_last_def)
next
  case False
  let ?n = "length (buffer_content b)"
  have used: "0 < b_used b" using False by (simp add: buffer_string_is_empty_def)
  have lt: "?n + min_size + alloc_size < SIZE_MOD"
    using assms(2) by (intro PTRDIFF_SIZE) (simp add: fits_def)
  define new where "new = (if ?n + min_size < alloc_size then alloc_size else ?n + min_size)"
  have new: "?n \<le> new" "new < SIZE_MOD" "new - ?n \<le> min_size + alloc_size"
    using lt by (auto simp: new_def)
  then have sub: "sz_sub new ?n = new - ?n" by simp
  have "fits (?n + (new - ?n))" using assms(2) new by (auto elim: fits_mono)
  then obtain b1 rest where b1: "buffer_string_prepare_append b (new - ?n) = Some (b1, ?n)"
      "b_ptr b1 = map Some (buffer_content b) @ Some NUL # rest"
      "b_used b1 = Suc ?n" "b_size b1 = length (b_ptr b1)" "b_size b1 \<le> PTRDIFF_MAX"
    using buffer_prepare_append_ok [OF assms(1)] by blast
  have eqs: "buffer_string_length b = ?n" "sz_add ?n min_size = ?n + min_size"
    using assms(1) lt by (auto simp: buffer_string_length_content)
  have "memory_in_last b min_size alloc_size =
      (if buffer_string_space b < min_size \<and> b_size b \<le> REALLOC_MAX_SIZE
       then if min_size \<le> sz_sub new ?n then do {
           (b, p) \<leftarrow> buffer_string_prepare_append b (sz_sub new ?n);
           Some b
         } else Some b
       else Some b)"
    using False by (simp only: memory_in_last_def Let_def eqs new_def [symmetric] if_False)
  then have "memory_in_last b min_size alloc_size = Some b \<or> memory_in_last b min_size alloc_size = Some b1"
    using b1(1) sub by simp
  then show ?thesis using buffer_wfI [OF b1(2-5)] b1(3) assms(1) used by auto
qed

text \<open>
  \<open>chunkqueue_get_memory\<close> leaves the queued octets alone and returns an area at the end of
  the last chunk of at least \<open>min_size\<close> bytes.
\<close>

lemma buffer_room:
  assumes "buffer_wf b" "0 < b_used b"
  shows "buffer_string_length b + buffer_string_space b < b_size b"
  using assms buffer_wfD(3) [OF assms(1)] by (auto simp: buffer_string_length_def buffer_string_space_def)

text \<open>What is known of a chunk from outside: its kind, its offset and its bytes.\<close>

definition chunk_shape :: "chunk \<Rightarrow> chunk_type \<times> int \<times> string" where
  "chunk_shape c = (c_type c, c_offset c, buffer_content (c_mem c))"

lemma set_last_shape:
  assumes "cq_chunks cq = pre @ [c]" "buffer_content b = buffer_content (c_mem c) @ s"
  shows "map chunk_shape (cq_chunks (set_last_mem cq c b))
      = map chunk_shape pre @ [(c_type c, c_offset c, buffer_content (c_mem c) @ s)]"
    "cq_bytes_out (set_last_mem cq c b) = cq_bytes_out cq"
  using assms by (simp_all add: set_last_mem_def chunk_shape_def)

lemma set_last_same_shape:
  assumes "cq_chunks cq = pre @ [c]" "buffer_content b = buffer_content (c_mem c)"
  shows "map chunk_shape (cq_chunks (set_last_mem cq c b)) = map chunk_shape (cq_chunks cq)"
  using set_last_shape(1) [OF assms(1), of b "[]"] assms by (simp add: chunk_shape_def)

definition more_shapes :: "chunkqueue \<Rightarrow> chunkqueue \<Rightarrow> bool" where
  "more_shapes cq cq' \<longleftrightarrow> cq_bytes_out cq' = cq_bytes_out cq
     \<and> (map chunk_shape (cq_chunks cq') = map chunk_shape (cq_chunks cq) \<and> cq_chunks cq \<noteq> []
        \<or> map chunk_shape (cq_chunks cq') = map chunk_shape (cq_chunks cq) @ [(MEM_CHUNK, 0, [])])"

definition memory_result :: "chunkqueue \<Rightarrow> nat \<Rightarrow> chunkqueue \<Rightarrow> nat \<Rightarrow> nat \<Rightarrow> bool" where
  "memory_result cq min_size cq' pos len \<longleftrightarrow>
     cq_wf cq' \<and> cq_octets cq' = cq_octets cq \<and> cq_chunks cq' \<noteq> [] \<and> more_shapes cq cq' \<and>
     (let c = last (cq_chunks cq'); b = c_mem c in
        c_type c = MEM_CHUNK \<and> 0 < b_used b \<and> pos = length (buffer_content b) \<and>
        len = buffer_string_space b \<and> min_size \<le> len)"

definition memory_min :: "nat \<Rightarrow> nat" where
  "memory_min min_size = (if min_size = 0 then 1024 else min_size)"

definition memory_alloc :: "nat \<Rightarrow> nat \<Rightarrow> nat" where
  "memory_alloc min_size alloc_size = max (memory_min min_size) (if alloc_size = 0 then 4096 else alloc_size)"

text \<open>The second half of \<open>chunkqueue_get_memory\<close>: a new chunk.\<close>

definition memory_in_new :: "chunkqueue \<Rightarrow> nat \<Rightarrow> (chunkqueue \<times> nat \<times> nat) option" where
  "memory_in_new cq alloc_size = do {
     let (c, cq) = chunkqueue_get_unused_chunk cq;
     let c = c\<lparr>c_type := MEM_CHUNK\<rparr>;
     cq \<leftarrow> chunkqueue_append_chunk cq c;
     (b, p) \<leftarrow> buffer_string_prepare_append (c_mem c) alloc_size;
     Some (set_last_mem cq c b, buffer_string_length b, buffer_string_space b)
   }"

lemma get_memory_eq:
  "chunkqueue_get_memory cq n m =
     (if cq_chunks cq \<noteq> [] \<and> c_type (last (cq_chunks cq)) = MEM_CHUNK then
        (case memory_in_last (c_mem (last (cq_chunks cq))) (memory_min n) (memory_alloc n m) of
           None \<Rightarrow> None
         | Some b \<Rightarrow>
             if memory_min n \<le> buffer_string_space b
             then Some (set_last_mem cq (last (cq_chunks cq)) b, buffer_string_length b, buffer_string_space b)
             else memory_in_new (set_last_mem cq (last (cq_chunks cq)) b) (memory_alloc n m))
      else memory_in_new cq (memory_alloc n m))"
proof -
  have al: "(let a = (if m = 0 then 4096 else m) in if a < memory_min n then memory_min n else a) = memory_alloc n m"
    by (simp add: memory_alloc_def Let_def max_def)
  show ?thesis
    unfolding chunkqueue_get_memory_def memory_in_new_def memory_min_def [symmetric] Let_def
      al [unfolded Let_def]
    by (simp split: option.split)
qed

lemma memory_in_new_ok:
  assumes "cq_wf cq" "fits alloc_size"
  shows "\<exists>cq' pos len. memory_in_new cq alloc_size = Some (cq', pos, len) \<and> memory_result cq alloc_size cq' pos len"
proof -
  define c where "c = fst (chunkqueue_get_unused_chunk cq)"
  define q where "q = snd (chunkqueue_get_unused_chunk cq)"
  have gu: "chunkqueue_get_unused_chunk cq = (c, q)" by (simp add: c_def q_def)
  have clean: "chunk_clean c" using get_unused_ok(1) [of cq] assms(1) by (simp add: c_def cq_wf_iff)
  have q: "cq_wf q" "cq_octets q = cq_octets cq" using assms(1) get_unused_wf by (auto simp: q_def)
  have q': "cq_chunks q = cq_chunks cq" "cq_bytes_out q = cq_bytes_out cq"
    by (simp_all add: q_def chunkqueue_get_unused_chunk_def split: list.split)
  have c: "c\<lparr>c_type := MEM_CHUNK\<rparr> = c" "chunk_wf c" "chunk_octets c = []" "buffer_content (c_mem c) = []"
      "c_type c = MEM_CHUNK" "buffer_wf (c_mem c)" "c_offset c = 0"
    using clean_wf [OF clean] clean by (auto simp: chunk_clean_def buffer_content_def)
  obtain q1 where q1: "chunkqueue_append_chunk q c = Some q1" "cq_wf q1" "cq_octets q1 = cq_octets cq"
      "cq_chunks q1 = cq_chunks q @ [c]" "cq_bytes_out q1 = cq_bytes_out q"
    using append_chunk_ok [OF q(1) c(2)] c(3) q(2) by auto
  obtain b rest where b: "buffer_string_prepare_append (c_mem c) alloc_size = Some (b, 0)"
      "b_ptr b = Some NUL # rest" "b_used b = 1" "b_size b = length (b_ptr b)" "b_size b \<le> PTRDIFF_MAX"
      "alloc_size < b_size b"
    using buffer_prepare_append_ok [OF c(6), of alloc_size] c(4) assms(2) by auto
  have bw: "buffer_wf b" "buffer_content b = []" using buffer_wfI [of b "[]" rest] b by simp_all
  have wf': "chunk_wf (c\<lparr>c_mem := b\<rparr>)" "chunk_octets (c\<lparr>c_mem := b\<rparr>) = chunk_octets c @ []"
    using mem_chunk_same [OF c(2,5) bw(1)] bw(2) c(4) by simp_all
  note upd = set_last_wf [OF q1(2,4) wf']
  have same: "(set_last_mem q1 c b)\<lparr>cq_bytes_in := cq_bytes_in q1 + int (length [])\<rparr> = set_last_mem q1 c b"
    by (simp add: set_last_mem_def)
  have "more_shapes cq (set_last_mem q1 c b)"
    using set_last_same_shape [OF q1(4), of b] bw(2) c(4,5,7) q1(4,5) q'
    by (simp add: more_shapes_def chunk_shape_def set_last_mem_def)
  moreover have "alloc_size \<le> buffer_string_space b" using b(3,6) by (simp add: buffer_string_space_def)
  ultimately have "memory_result cq alloc_size (set_last_mem q1 c b) 0 (buffer_string_space b)"
    using upd(1) [unfolded same] upd(2,3) q1(3) c(5) b(3) bw(2) by (simp add: memory_result_def)
  moreover have "memory_in_new cq alloc_size = Some (set_last_mem q1 c b, 0, buffer_string_space b)"
    using b(3) by (simp add: memory_in_new_def gu c(1) q1(1) b(1) buffer_string_length_def)
  ultimately show ?thesis by blast
qed

lemma get_memory_ok:
  assumes "cq_wf cq"
    "\<forall>c\<in>set (cq_chunks cq). fits (length (buffer_content (c_mem c)) + memory_min n + memory_alloc n m)"
    "fits (memory_alloc n m)"
  shows "\<exists>cq' pos len. chunkqueue_get_memory cq n m = Some (cq', pos, len)
           \<and> memory_result cq (memory_min n) cq' pos len"
proof -
  let ?mn = "memory_min n" and ?al = "memory_alloc n m"
  have le: "0 < ?mn" "?mn \<le> ?al" by (simp_all add: memory_min_def memory_alloc_def)
  have fresh: "\<exists>cq' pos len. memory_in_new q ?al = Some (cq', pos, len) \<and> memory_result cq ?mn cq' pos len"
    if "cq_wf q" "cq_octets q = cq_octets cq" "map chunk_shape (cq_chunks q) = map chunk_shape (cq_chunks cq)"
      "cq_bytes_out q = cq_bytes_out cq" for q
    using memory_in_new_ok [OF that(1) assms(3)] that(2-4) le(2)
    by (auto simp: memory_result_def more_shapes_def Let_def)
  show ?thesis
  proof (cases "cq_chunks cq \<noteq> [] \<and> c_type (last (cq_chunks cq)) = MEM_CHUNK")
    case False
    then show ?thesis using fresh [OF assms(1) refl refl refl] by (simp only: get_memory_eq if_False)
  next
    case True
    define c where "c = last (cq_chunks cq)"
    define pre where "pre = butlast (cq_chunks cq)"
    have cs: "cq_chunks cq = pre @ [c]" using True by (simp add: c_def pre_def)
    have mem: "last (cq_chunks cq) \<in> set (cq_chunks cq)" using True by simp
    have c: "chunk_wf c" "c_type c = MEM_CHUNK" "buffer_wf (c_mem c)"
      using assms(1) mem True unfolding c_def by (simp_all add: cq_wf_iff chunk_wf_def)
    have "fits (length (buffer_content (c_mem c)) + ?mn + ?al)" using assms(2) cs by simp
    then obtain b where b: "memory_in_last (c_mem c) ?mn ?al = Some b" "buffer_wf b" "0 < b_used b"
        "buffer_content b = buffer_content (c_mem c)"
      using memory_in_last_ok [OF c(3) _ le] by blast
    note same = mem_chunk_same [OF c(1,2) b(2,4)]
    have "chunk_octets (c\<lparr>c_mem := b\<rparr>) = chunk_octets c @ []" using same(2) by simp
    note upd = set_last_wf [OF assms(1) cs same(1) this]
    have "(set_last_mem cq c b)\<lparr>cq_bytes_in := cq_bytes_in cq + int (length [])\<rparr> = set_last_mem cq c b"
      by (simp add: set_last_mem_def)
    note wf = upd(1) [unfolded this]
    have sh: "map chunk_shape (cq_chunks (set_last_mem cq c b)) = map chunk_shape (cq_chunks cq)"
      "cq_bytes_out (set_last_mem cq c b) = cq_bytes_out cq"
      using set_last_same_shape [OF cs b(4)] by (simp_all add: set_last_mem_def)
    show ?thesis
    proof (cases "?mn \<le> buffer_string_space b")
      case True
      then have "memory_result cq ?mn (set_last_mem cq c b) (buffer_string_length b) (buffer_string_space b)"
        using wf upd(2,3) c(2) b(2,3) sh cs by (simp add: memory_result_def more_shapes_def buffer_string_length_content)
      then show ?thesis using True \<open>cq_chunks cq \<noteq> [] \<and> _\<close> b(1) by (simp add: get_memory_eq c_def)
    next
      case False
      then show ?thesis
        using fresh [OF wf _ sh] upd(2) \<open>cq_chunks cq \<noteq> [] \<and> _\<close> b(1) by (simp add: get_memory_eq c_def)
    qed
  qed
qed

text \<open>Bytes stored in the area and announced are appended to the queue.\<close>

lemma store_use_memory_ok:
  assumes "memory_result cq0 k cq pos len" "length s \<le> len"
  shows "\<exists>cq1 cq2. store_memory cq pos s = Some cq1 \<and> chunkqueue_use_memory cq1 (length s) = Some cq2
           \<and> cq_wf cq2 \<and> cq_octets cq2 = cq_octets cq0 @ map MemByte s
           \<and> (s \<noteq> [] \<longrightarrow> cq_bytes_out cq2 = cq_bytes_out cq \<and> map chunk_shape (cq_chunks cq2)
                = (let c = last (cq_chunks cq) in map chunk_shape (butlast (cq_chunks cq))
                     @ [(c_type c, c_offset c, buffer_content (c_mem c) @ s)]))"
proof -
  define c where "c = last (cq_chunks cq)"
  define b where "b = c_mem c"
  have m: "cq_wf cq" "cq_octets cq = cq_octets cq0" "cq_chunks cq \<noteq> []" "c_type c = MEM_CHUNK"
      "0 < b_used b" "pos = length (buffer_content b)" "len = buffer_string_space b"
    using assms(1) by (simp_all add: memory_result_def c_def b_def Let_def)
  have cs: "cq_chunks cq = butlast (cq_chunks cq) @ [c]" using m(3) by (simp add: c_def)
  have "last (cq_chunks cq) \<in> set (cq_chunks cq)" using m(3) by simp
  then have c: "chunk_wf c" "buffer_wf b"
    using m(1) unfolding c_def b_def by (simp_all add: cq_wf_iff chunk_wf_def)
  obtain rest where r: "b_ptr b = map Some (buffer_content b) @ Some NUL # rest"
      "b_used b = Suc (length (buffer_content b))" "b_size b = Suc (length (buffer_content b)) + length rest"
    using buffer_wfE [OF c(2) m(5)] by blast
  have len: "pos + length s < b_size b"
    using assms(2) m(6,7) r(2,3) by (auto simp: buffer_string_space_def split: if_splits)
  define mem where "mem = map Some (buffer_content b @ s) @ drop (length s) (Some NUL # rest)"
  have w: "write_at (b_ptr b) pos s = Some mem"
    using len r m(6) by (simp add: write_at_def mem_def)
  define cq1 where "cq1 = set_last_mem cq c (b\<lparr>b_ptr := mem\<rparr>)"
  have st: "store_memory cq pos s = Some cq1"
    using w by (simp add: store_memory_def c_def [symmetric] b_def [symmetric] cq1_def)
  have last1: "cq_chunks cq1 = butlast (cq_chunks cq) @ [c\<lparr>c_mem := b\<lparr>b_ptr := mem\<rparr>\<rparr>]"
    by (simp add: cq1_def set_last_mem_def)
  show ?thesis
  proof (cases "s = []")
    case True
    then have mem: "mem = b_ptr b" using r(1) by (simp add: mem_def)
    then have cq1: "cq1 = cq" using cs by (simp add: cq1_def set_last_mem_def b_def)
    show ?thesis
    proof (cases "buffer_string_is_empty b")
      case False
      then have "chunkqueue_use_memory cq 0 = Some cq"
        using m(3,4) by (simp add: chunkqueue_use_memory_def c_def [symmetric] b_def [symmetric])
      then show ?thesis using st cq1 True m(1,2) by simp
    next
      case emp: True
      then have e: "buffer_content b = []" by (simp add: buffer_string_is_empty_def buffer_content_def)
      have run: "chunkqueue_use_memory cq 0 = Some (set_last_mem cq c (buffer_reset b))"
        using emp m(3,4) by (simp add: chunkqueue_use_memory_def c_def [symmetric] b_def [symmetric])
      have re: "buffer_wf (buffer_reset b)" "buffer_content (buffer_reset b) = buffer_content (c_mem c)"
        using buffer_reset_wf [OF c(2)] e by (simp_all add: b_def) (simp add: buffer_content_def buffer_reset_def)
      note same = mem_chunk_same [OF c(1) m(4) re]
      have "chunk_octets (c\<lparr>c_mem := buffer_reset b\<rparr>) = chunk_octets c @ []" using same(2) by simp
      note upd = set_last_wf [OF m(1) cs same(1) this]
      have "(set_last_mem cq c (buffer_reset b))\<lparr>cq_bytes_in := cq_bytes_in cq + int (length [])\<rparr>
          = set_last_mem cq c (buffer_reset b)"
        by (simp add: set_last_mem_def)
      with upd have "cq_wf (set_last_mem cq c (buffer_reset b))" "cq_octets (set_last_mem cq c (buffer_reset b)) = cq_octets cq"
        by simp_all
      then show ?thesis using st cq1 True run m(2) by simp
    qed
  next
    case False
    have "\<exists>b'. buffer_commit (b\<lparr>b_ptr := mem\<rparr>) (length s) = Some b' \<and> buffer_wf b'
        \<and> buffer_abs b' = Some (buffer_content b @ s) \<and> b_size b' = b_size (b\<lparr>b_ptr := mem\<rparr>)"
      by (rule buffer_commit_ok [where rest = "drop (length s) (Some NUL # rest)"])
        (use r len m(5,6) c(2) buffer_wfD(2) [OF c(2)] in \<open>auto simp: mem_def\<close>)
    then obtain b' where b': "buffer_commit (b\<lparr>b_ptr := mem\<rparr>) (length s) = Some b'" "buffer_wf b'"
        "buffer_content b' = buffer_content (c_mem c) @ s"
      by (auto simp: b_def dest: buffer_content_abs)
    note more = mem_chunk_more [OF c(1) m(4) b'(2,3)]
    note upd = set_last_wf [OF m(1) cs more]
    have "chunkqueue_use_memory cq1 (length s)
        = Some ((set_last_mem cq1 (c\<lparr>c_mem := b\<lparr>b_ptr := mem\<rparr>\<rparr>) b')\<lparr>cq_bytes_in := cq_bytes_in cq1 + int (length s)\<rparr>)"
      using False m(4) b'(1) last1 by (simp add: chunkqueue_use_memory_def)
    also have "\<dots> = Some ((set_last_mem cq c b')\<lparr>cq_bytes_in := cq_bytes_in cq + int (length (map MemByte s))\<rparr>)"
      by (simp add: cq1_def set_last_mem_def)
    finally show ?thesis
      using st upd(1,2) m(2) set_last_shape [OF cs b'(3)]
      by (simp add: cq_octets_def c_def [symmetric])
  qed
qed

section \<open>Opening the first file\<close>

text \<open>
  A file chunk may be sent when the part it names lies within the file; a file that has
  become shorter is reported.
\<close>

lemma open_file_chunk_ok:
  assumes "cq_wf cq" "cq_chunks cq = c # r" "c_type c = FILE_CHUNK" "c_fd c = -1 \<longrightarrow> opened \<noteq> None"
    "\<not> c_is_temp c" "0 \<le> c_start c"
  shows "\<exists>cq' rc. chunkqueue_open_file_chunk cq opened (Some sz) = Some (cq', rc) \<and> cq_wf cq'
     \<and> cq_octets cq' = cq_octets cq \<and> (rc = 0 \<or> rc = -1)
     \<and> (rc = 0 \<longleftrightarrow> (\<forall>n i. FileByte n i \<in> set (chunk_octets c) \<longrightarrow> i < sz) \<and> c_start c + c_offset c \<le> sz)"
proof -
  note w = cq_wf_cons [OF assms(1,2)]
  have bounds: "0 \<le> c_offset c" "c_offset c \<le> c_length c"
    using w(1) assms(3) by (simp_all add: chunk_wf_def chunk_size_def)
  obtain fd where fd: "(if c_fd c = -1 then opened else Some (c_fd c)) = Some fd"
    using assms(4) by (cases "c_fd c = -1") auto
  let ?c = "c\<lparr>c_fd := fd\<rparr>" and ?lo = "c_start c + c_offset c" and ?n = "c_length c - c_offset c"
  have c': "chunk_wf ?c" "chunk_octets ?c = chunk_octets c"
    using w(1) by (cases "c_type c"; simp add: chunk_wf_def chunk_size_def chunk_octets_def chunk_bytes_def)+
  have wf': "cq_wf (cq\<lparr>cq_chunks := ?c # r\<rparr>)" "cq_octets (cq\<lparr>cq_chunks := ?c # r\<rparr>) = cq_octets cq"
    using assms(1,2) c' by (auto simp: cq_wf_iff cq_octets_def)
  have run: "chunkqueue_open_file_chunk cq opened (Some sz) = Some (cq\<lparr>cq_chunks := ?c # r\<rparr>,
      if sz < ?lo \<or> sz < ?n \<or> sz - ?n < ?lo then -1 else 0)"
    using assms(2,3,5) bounds fd by (simp add: chunkqueue_open_file_chunk_def Let_def)
  have "(\<forall>n i. FileByte n i \<in> set (chunk_octets c) \<longrightarrow> i < sz) \<longleftrightarrow> (?n = 0 \<or> ?lo + ?n \<le> sz)"
  proof -
    have "set (chunk_octets c) = FileByte (abs_bytes (c_name c)) ` {?lo..c_start c + c_length c - 1}"
      unfolding file_octets [OF w(1) assms(3)] by simp
    moreover have "(\<forall>i\<in>{?lo..c_start c + c_length c - 1}. i < sz) \<longleftrightarrow> (?n = 0 \<or> ?lo + ?n \<le> sz)"
    proof (cases "?n = 0")
      case False
      then have "c_start c + c_length c - 1 \<in> {?lo..c_start c + c_length c - 1}" using bounds by simp
      then show ?thesis using False by fastforce
    qed simp
    ultimately show ?thesis by auto
  qed
  then show ?thesis using run wf' bounds assms(6) by auto
qed

section \<open>The interface of byte queues\<close>

text \<open>
  What the connection code relies on: octets come out in the order they went in, whichever
  way they were appended and moved.
\<close>

locale byte_queue =
  fixes inv :: "'q \<Rightarrow> bool"
    and held :: "'q \<Rightarrow> 'o list"
    and emb :: "char \<Rightarrow> 'o"
    and small :: "'q \<Rightarrow> bool"
    and put :: "'q \<Rightarrow> string \<Rightarrow> 'q option"
    and move :: "'q \<Rightarrow> 'q \<Rightarrow> int \<Rightarrow> ('q \<times> 'q) option"
    and discard :: "'q \<Rightarrow> int \<Rightarrow> 'q option"
  assumes put_ok: "inv q \<Longrightarrow> fits (length s) \<Longrightarrow>
          \<exists>q'. put q s = Some q' \<and> inv q' \<and> held q' = held q @ map emb s"
    and move_ok: "inv d \<Longrightarrow> inv e \<Longrightarrow> small e \<Longrightarrow>
          \<exists>d' e'. move d e n = Some (d', e') \<and> inv d' \<and> inv e'
            \<and> held d' = held d @ take (nat n) (held e) \<and> held e' = drop (nat n) (held e)"
    and discard_ok: "inv q \<Longrightarrow> 0 \<le> n \<Longrightarrow> n \<le> int (length (held q)) \<Longrightarrow>
          \<exists>q'. discard q n = Some q' \<and> inv q' \<and> held q' = drop (nat n) (held q)"
begin

lemma put_all_ok:
  "inv q \<Longrightarrow> \<forall>s\<in>set ss. fits (length s) \<Longrightarrow>
   \<exists>q'. append_all put q ss = Some q' \<and> inv q' \<and> held q' = held q @ map emb (concat ss)"
proof (induction ss arbitrary: q)
  case (Cons s ss)
  obtain q1 where "put q s = Some q1" "inv q1" "held q1 = held q @ map emb s"
    using put_ok [OF Cons.prems(1)] Cons.prems(2) by auto
  then show ?case using Cons.IH [of q1] Cons.prems(2) by auto
qed simp

text \<open>Moving and then discarding what was moved leaves the two queues as one stream.\<close>

lemma move_preserves_stream:
  assumes "inv d" "inv s" "small s"
  shows "\<exists>d' s'. move d s n = Some (d', s') \<and> held d' @ held s' = held d @ held s"
  using move_ok [OF assms, of n] by auto

lemma move_then_discard:
  assumes "inv d" "inv s" "small s" "held d = []" "0 \<le> n" "n \<le> int (length (held s))"
  shows "\<exists>d' s' d''. move d s n = Some (d', s') \<and> discard d' n = Some d'' \<and> held d'' = []
     \<and> held s' = drop (nat n) (held s)"
proof -
  obtain d' s' where m: "move d s n = Some (d', s')" "inv d'" "held d' = take (nat n) (held s)"
      "held s' = drop (nat n) (held s)"
    using move_ok [OF assms(1-3), of n] assms(4) by auto
  have "length (held d') = nat n" using m(3) assms(6) by (simp add: nat_le_iff)
  then have "n \<le> int (length (held d'))" using assms(5) by simp
  then obtain d'' where "discard d' n = Some d''" "held d'' = drop (nat n) (held d')"
    using discard_ok [OF m(2) assms(5)] by blast
  then show ?thesis using m \<open>length (held d') = nat n\<close> by simp
qed

end

interpretation cq: byte_queue cq_wf cq_octets MemByte cq_small
  chunkqueue_append_mem chunkqueue_steal chunkqueue_mark_written
proof unfold_locales
  show "\<exists>q'. chunkqueue_append_mem q s = Some q' \<and> cq_wf q' \<and> cq_octets q' = cq_octets q @ map MemByte s"
    if "cq_wf q" "fits (length s)" for q s
    using append_mem_ok [OF that] by blast
  show "\<exists>d' s'. chunkqueue_steal d s n = Some (d', s') \<and> cq_wf d' \<and> cq_wf s'
            \<and> cq_octets d' = cq_octets d @ take (nat n) (cq_octets s) \<and> cq_octets s' = drop (nat n) (cq_octets s)"
    if "cq_wf d" "cq_wf s" "cq_small s" for d s n
    using steal_ok [OF that] by blast
  show "\<exists>q'. chunkqueue_mark_written q n = Some q' \<and> cq_wf q' \<and> cq_octets q' = drop (nat n) (cq_octets q)"
    if "cq_wf q" "0 \<le> n" "n \<le> int (length (cq_octets q))" for q n
    using mark_written_ok [OF that] by blast
qed

section \<open>Properties\<close>

text \<open>A queue that holds one range of a file.\<close>

definition file_queue :: chunkqueue where
  "file_queue = (chunkqueue_init (None, 0))\<lparr>cq_bytes_in := 10,
     cq_chunks := [chunk_init\<lparr>c_type := FILE_CHUNK, c_name := Some ''f'', c_length := 10, c_fd := 7\<rparr>]\<rparr>"

lemma file_queue:
  "cq_wf file_queue" "chunkqueue_append_file_fd (chunkqueue_init (None, 0)) (Some ''f'') 7 0 10 = Some file_queue"
  "cq_octets file_queue = map (FileByte ''f'') [0..9]" "cq_small file_queue"
proof -
  show "chunkqueue_append_file_fd (chunkqueue_init (None, 0)) (Some ''f'') 7 0 10 = Some file_queue"
    by (simp add: chunkqueue_append_file_fd_def chunkqueue_get_unused_chunk_def chunkqueue_append_chunk_def
        chunkqueue_init_def file_queue_def chunk_init_def chunk_remaining_length_def
        chunk_size_def force_assert_def buffer_copied_def)
  then show "cq_wf file_queue" "cq_octets file_queue = map (FileByte ''f'') [0..9]"
    using append_file_fd_ok [of "chunkqueue_init (None, 0)" 10 "Some ''f''" 7 0] by (auto simp: init_ok)
  show "cq_small file_queue" by (simp add: file_queue_def cq_small_def)
qed

text \<open>
  Appending any sequence of texts to a queue succeeds and adds their concatenation at the
  end of its stream; the byte counters keep agreeing with the stream (\<open>cq_wf\<close>), whether chunks
  are allocated or taken from the store of unused ones.
\<close>

theorem append_mem_refines_stream:
  assumes "cq_wf q" "\<forall>s\<in>set ss. fits (length s)"
  shows "\<exists>q'. append_all chunkqueue_append_mem q ss = Some q' \<and> cq_wf q'
           \<and> cq_octets q' = cq_octets q @ map MemByte (concat ss)"
  using assms by (rule cq.put_all_ok)

theorem append_mem_refines_stream_witness:
  "\<exists>q'. append_all chunkqueue_append_mem (chunkqueue_init (None, 0)) [''HTTP'', [], ''/1.1''] = Some q' \<and> cq_wf q'
     \<and> cq_octets q' = map MemByte ''HTTP/1.1''"
  using append_mem_refines_stream [of "chunkqueue_init (None, 0)" "[''HTTP'', [], ''/1.1'']"]
  by (simp add: init_ok fits_def PTRDIFF_MAX_def)

text \<open>
  C33. \<open>chunkqueue_steal\<close> moves exactly the first \<open>len\<close> octets from one queue to the end of
  another, behind what is there, splitting the chunk at the border, and \<open>chunkqueue_mark_written\<close> then drops
  any number \<open>n\<close> of octets from the front of that queue: nothing is lost, duplicated or reordered, both queues keep
  their counters right (\<open>cq_wf\<close>), and what is acknowledged is added to \<open>cq_bytes_out\<close>. The
  length asked for is at most what the source holds, and each of its memory chunks is small enough to be
  copied into a buffer (\<open>cq_small\<close>).
\<close>

theorem steal_then_mark_written:
  assumes "cq_wf dest" "cq_wf src" "0 \<le> len" "len \<le> int (length (cq_octets src))" "cq_small src"
    "0 \<le> n" "n \<le> int (length (cq_octets dest)) + len"
  shows "\<exists>dest' src' dest''. chunkqueue_steal dest src len = Some (dest', src') \<and> cq_wf dest' \<and> cq_wf src'
           \<and> cq_octets dest' = cq_octets dest @ take (nat len) (cq_octets src)
           \<and> cq_octets src' = drop (nat len) (cq_octets src)
           \<and> chunkqueue_mark_written dest' n = Some dest'' \<and> cq_wf dest''
           \<and> cq_octets dest'' = drop (nat n) (cq_octets dest @ take (nat len) (cq_octets src))
           \<and> cq_bytes_out dest'' = cq_bytes_out dest + n"
proof -
  obtain d s where ds: "chunkqueue_steal dest src len = Some (d, s)" "cq_wf d" "cq_wf s"
      "cq_octets d = cq_octets dest @ take (nat len) (cq_octets src)" "cq_octets s = drop (nat len) (cq_octets src)"
      "cq_bytes_out d = cq_bytes_out dest"
    using steal_ok [OF assms(1,2,5), of len] by auto
  have "n \<le> int (length (cq_octets d))" using ds(4) assms(3,4,7) by simp
  then show ?thesis using mark_written_ok [OF ds(2) assms(6)] ds by fastforce
qed

theorem steal_then_mark_written_witness:
  "\<exists>q dest' src' dest''. chunkqueue_append_file_fd (chunkqueue_init (None, 0)) (Some ''f'') 7 0 10 = Some q
     \<and> chunkqueue_steal (chunkqueue_init (None, 0)) q 3 = Some (dest', src')
     \<and> cq_octets dest' @ cq_octets src' = cq_octets q \<and> length (cq_octets dest') = 3
     \<and> chunkqueue_mark_written dest' 2 = Some dest'' \<and> cq_octets dest'' = [FileByte ''f'' 2]"
proof -
  note q = file_queue
  have t: "[0..9 :: int] = [0, 1, 2, 3, 4, 5, 6, 7, 8, 9]" by code_simp
  have "length (cq_octets file_queue) = 10" using q(3) by simp
  then show ?thesis
    using steal_then_mark_written [of "chunkqueue_init (None, 0)" file_queue 3 2] q t by (auto simp: init_ok)
qed

text \<open>
  Acknowledging more than the queue holds, or a negative amount, trips the assertion
  in \<open>chunkqueue_mark_written\<close>; any amount in between is dropped from the front of the stream.
\<close>

theorem mark_written_exact:
  assumes "cq_wf cq"
  shows "case chunkqueue_mark_written cq len of
      None \<Rightarrow> len < 0 \<or> int (length (cq_octets cq)) < len
    | Some cq' \<Rightarrow> 0 \<le> len \<and> cq_wf cq' \<and> cq_octets cq' = drop (nat len) (cq_octets cq)
        \<and> cq_bytes_out cq' = cq_bytes_out cq + len"
proof (cases "len < 0 \<or> int (length (cq_octets cq)) < len")
  case True
  then show ?thesis using mark_written_too_much [OF assms True] by simp
next
  case False
  then show ?thesis using mark_written_ok [OF assms, of len] by auto
qed

theorem mark_written_exact_witness:
  "case chunkqueue_mark_written (chunkqueue_init (None, 0)) 1 of None \<Rightarrow> True | Some cq' \<Rightarrow> cq_octets cq' = []"
  using mark_written_exact [of "chunkqueue_init (None, 0)" 1] by (simp add: init_ok split: option.splits)

text \<open>
  Reading into the queue: \<open>chunkqueue_get_memory\<close> offers room of at least the size asked
  for at the end of the last memory chunk, and after a read of \<open>s\<close> bytes into it
  \<open>chunkqueue_use_memory\<close> makes exactly these bytes the end of the stream.
\<close>

theorem read_into_queue:
  assumes "cq_wf cq"
    "\<forall>c\<in>set (cq_chunks cq). fits (length (buffer_content (c_mem c)) + memory_min n + memory_alloc n m)"
    "fits (memory_alloc n m)" "length s \<le> memory_min n"
  shows "\<exists>cq0 pos len cq1 cq2. chunkqueue_get_memory cq n m = Some (cq0, pos, len) \<and> memory_min n \<le> len
           \<and> store_memory cq0 pos s = Some cq1 \<and> chunkqueue_use_memory cq1 (length s) = Some cq2
           \<and> cq_wf cq2 \<and> cq_octets cq2 = cq_octets cq @ map MemByte s"
proof -
  obtain cq0 pos len where g: "chunkqueue_get_memory cq n m = Some (cq0, pos, len)"
      "memory_result cq (memory_min n) cq0 pos len"
    using get_memory_ok [OF assms(1-3)] by blast
  have "memory_min n \<le> len" using g(2) by (simp add: memory_result_def Let_def)
  then show ?thesis using store_use_memory_ok [OF g(2), of s] g(1) assms(4) by fastforce
qed

theorem read_into_queue_witness:
  "\<exists>cq0 pos len cq1 cq2. chunkqueue_get_memory (chunkqueue_init (None, 0)) 16 64 = Some (cq0, pos, len) \<and> 16 \<le> len
     \<and> store_memory cq0 pos ''GET / HTTP/1.0'' = Some cq1
     \<and> chunkqueue_use_memory cq1 (length ''GET / HTTP/1.0'') = Some cq2
     \<and> cq_wf cq2 \<and> cq_octets cq2 = map MemByte ''GET / HTTP/1.0''"
proof -
  let ?s = "''GET / HTTP/1.0''"
  have c: "cq_chunks (chunkqueue_init (None, 0)) = []" by (simp add: chunkqueue_init_def)
  have m: "memory_min 16 = 16" "memory_alloc 16 64 \<le> 4096" "length ?s \<le> 16"
    by (simp_all add: memory_min_def memory_alloc_def)
  have "fits (memory_alloc 16 64)" using m(2) by (simp add: fits_def PTRDIFF_MAX_def)
  then show ?thesis
    using read_into_queue [of "chunkqueue_init (None, 0)" 16 64 ?s] m(1,3) unfolding c m(1) init_ok(2)
    by (simp only: init_ok list.set ball_empty append.simps simp_thms)
qed

text \<open>
  Opening the file of the first chunk succeeds exactly when the file is still long enough
  for everything the chunk refers to, so no octet past the end of a file that was cut since can
  be asked for; the stream is unchanged either way.
\<close>

theorem open_file_chunk_detects_shrink:
  assumes "cq_wf cq" "cq_chunks cq = c # r" "c_type c = FILE_CHUNK" "c_fd c = -1 \<longrightarrow> opened \<noteq> None"
    "\<not> c_is_temp c" "0 \<le> c_start c"
  shows "\<exists>cq' rc. chunkqueue_open_file_chunk cq opened (Some sz) = Some (cq', rc) \<and> cq_wf cq'
     \<and> cq_octets cq' = cq_octets cq
     \<and> (rc = 0 \<longleftrightarrow> (\<forall>n i. FileByte n i \<in> set (chunk_octets c) \<longrightarrow> i < sz) \<and> c_start c + c_offset c \<le> sz)
     \<and> (rc \<noteq> 0 \<longrightarrow> rc = -1)"
  using open_file_chunk_ok [OF assms, of sz] by auto

theorem open_file_chunk_detects_shrink_witness:
  "\<exists>cq' rc. chunkqueue_open_file_chunk file_queue None (Some 4) = Some (cq', rc) \<and> rc = -1"
proof -
  obtain c where c: "cq_chunks file_queue = [c]" "c_type c = FILE_CHUNK" "c_fd c = 7" "\<not> c_is_temp c"
      "c_start c = 0"
    by (simp add: file_queue_def chunk_init_def)
  have "chunk_octets c = map (FileByte ''f'') [0..9]" using file_queue(3) c(1) by (simp add: cq_octets_def)
  then have "FileByte ''f'' 9 \<in> set (chunk_octets c)" by simp
  then show ?thesis
    using open_file_chunk_detects_shrink [OF file_queue(1) c(1,2), of None 4] c(3-5) by force
qed

end
