(* ===== verification/Tempfile.thy ===== *)
theory Tempfile
  imports Chunk
begin

text \<open>
  Request bodies and large responses in temporary files: \<open>chunkqueue_get_append_tempfile\<close>,
  \<open>chunkqueue_append_mem_to_tempfile\<close> and \<open>chunkqueue_steal_with_tempfiles\<close> of
  \<open>src/src/chunk.c\<close>.

  The answers of the operating system are the lists of \<open>os_env\<close>, used up one by one; when
  a list is exhausted, \<open>mkstemp\<close> and \<open>write\<close> fail and the other calls succeed.
\<close>

datatype write_result = Wrote nat | W_EINTR | W_ENOSPC | W_ERROR

record os_env =
  env_mkstemp :: "(int \<times> string) option list"
  env_write :: "write_result list"
  env_close :: "bool list"
  env_fcntl :: "bool list"

definition os_mkstemp :: "os_env \<Rightarrow> (int \<times> string) option \<times> os_env" where
  "os_mkstemp e = (case env_mkstemp e of [] \<Rightarrow> (None, e) | r # rs \<Rightarrow> (r, e\<lparr>env_mkstemp := rs\<rparr>))"

definition os_close :: "os_env \<Rightarrow> bool \<times> os_env" where
  "os_close e = (case env_close e of [] \<Rightarrow> (True, e) | r # rs \<Rightarrow> (r, e\<lparr>env_close := rs\<rparr>))"

definition os_fcntl :: "os_env \<Rightarrow> bool \<times> os_env" where
  "os_fcntl e = (case env_fcntl e of [] \<Rightarrow> (True, e) | r # rs \<Rightarrow> (r, e\<lparr>env_fcntl := rs\<rparr>))"

section \<open>Creating a temporary file\<close>

definition append_slash :: "string \<Rightarrow> string" where
  "append_slash s = (if s \<noteq> [] \<and> last s \<noteq> CHR ''/'' then s @ ''/'' else s)"

definition tempfile_template :: "string option \<Rightarrow> string" where
  "tempfile_template dir = append_slash (abs_bytes dir) @ ''lighttpd-upload-XXXXXX''"

text \<open>The loop over the configured directories, from \<open>tempdir_idx\<close> on.\<close>

fun tempdir_loop :: "string option list \<Rightarrow> nat \<Rightarrow> os_env \<Rightarrow> (int \<times> string) option \<times> nat \<times> os_env" where
  "tempdir_loop [] idx e = (None, idx, e)"
| "tempdir_loop (d # ds) idx e =
     (let (r, e) = os_mkstemp e
      in case r of Some f \<Rightarrow> (Some f, idx, e) | None \<Rightarrow> tempdir_loop ds (idx + 1) e)"

text \<open>The new chunk becomes the last one of the queue; \<open>False\<close> is the NULL result.\<close>

definition chunkqueue_get_append_tempfile :: "os_env \<Rightarrow> chunkqueue \<Rightarrow> (bool \<times> chunkqueue \<times> os_env) option" where
  "chunkqueue_get_append_tempfile e cq = do {
     let (f, cq, e) =
       (case cq_tempdirs cq of
          Some dirs \<Rightarrow>
            if dirs \<noteq> [] then
              (let (f, idx, e) = tempdir_loop (drop (cq_tempdir_idx cq) dirs) (cq_tempdir_idx cq) e
               in (f, cq\<lparr>cq_tempdir_idx := idx\<rparr>, e))
            else (let (f, e) = os_mkstemp e in (f, cq, e))
        | None \<Rightarrow> (let (f, e) = os_mkstemp e in (f, cq, e)));
     case f of
       None \<Rightarrow> Some (False, cq, e)
     | Some (fd, name) \<Rightarrow>
         if fd < 0 then Some (False, cq, e)
         else (let (ok, e) = os_fcntl e
               in if \<not> ok then
                    (let (r, e) = os_close e
                     in Some (False, cq\<lparr>cq_trace := cq_trace cq @ [Close fd]\<rparr>, e))
                  else do {
                    let (c, cq) = chunkqueue_get_unused_chunk cq;
                    cq \<leftarrow> chunkqueue_append_chunk cq
                      (c\<lparr>c_type := FILE_CHUNK, c_fd := fd, c_is_temp := True,
                         c_name := buffer_copied (Some name), c_length := 0\<rparr>);
                    Some (True, cq, e)
                  })
   }"

section \<open>Appending to the last temporary file\<close>

definition set_last :: "chunkqueue \<Rightarrow> chunk \<Rightarrow> chunkqueue" where
  "set_last cq c = cq\<lparr>cq_chunks := butlast (cq_chunks cq) @ [c]\<rparr>"

definition last_tempfile :: "chunkqueue \<Rightarrow> chunk option" where
  "last_tempfile cq =
     (if cq_chunks cq = [] then None
      else let c = last (cq_chunks cq)
           in if c_type c = FILE_CHUNK \<and> c_is_temp c \<and> 0 \<le> c_fd c \<and> c_offset c = 0 then Some c else None)"

text \<open>
  The first half of the loop body: after it (result \<open>True\<close>) the last chunk of the queue is
  the one to write to.
\<close>

definition select_tempfile :: "os_env \<Rightarrow> chunkqueue \<Rightarrow> (bool \<times> chunkqueue \<times> os_env) option" where
  "select_tempfile e dest =
     (case last_tempfile dest of
        None \<Rightarrow> chunkqueue_get_append_tempfile e dest
      | Some c \<Rightarrow>
          if int (cq_upload_temp_file_size dest) \<le> c_length c then
            (let (ok, e) = os_close e;
                 dest = (set_last dest (c\<lparr>c_fd := -1\<rparr>))\<lparr>cq_trace := cq_trace dest @ [Close (c_fd c)]\<rparr>
             in if \<not> ok then Some (False, dest, e) else chunkqueue_get_append_tempfile e dest)
          else Some (True, dest, e))"

text \<open>\<open>write\<close> stored the bytes \<open>s\<close> in the file of the last chunk.\<close>

definition written_to_last :: "chunkqueue \<Rightarrow> string \<Rightarrow> chunkqueue" where
  "written_to_last dest s =
     (let c = last (cq_chunks dest)
      in (set_last dest (c\<lparr>c_length := c_length c + int (length s)\<rparr>))
           \<lparr>cq_bytes_in := cq_bytes_in dest + int (length s),
            cq_trace := cq_trace dest @ [Written (c_fd c) s]\<rparr>)"

text \<open>
  The branch for a failed \<open>write\<close>.  The first component of the result says whether the
  loop goes on, the second whether it left with \<open>-1\<close> at once.
\<close>

definition write_failed :: "bool \<Rightarrow> chunkqueue \<Rightarrow> os_env \<Rightarrow> (bool \<times> bool \<times> chunkqueue \<times> os_env) option" where
  "write_failed enospc dest e = do {
     let (retry, dest) =
       (if enospc \<and> cq_tempdirs dest \<noteq> None
        then (cq_tempdir_idx dest + 1 < length (the (cq_tempdirs dest)),
              dest\<lparr>cq_tempdir_idx := cq_tempdir_idx dest + 1\<rparr>)
        else (False, dest));
     let c = last (cq_chunks dest);
     n \<leftarrow> chunk_remaining_length c;
     if n = 0 then do {
       dest \<leftarrow> chunkqueue_remove_empty_chunks dest;
       Some (retry, False, dest, e)
     } else
       (let (ok, e) = os_close e;
            dest = (set_last dest (c\<lparr>c_fd := -1\<rparr>))\<lparr>cq_trace := cq_trace dest @ [Close (c_fd c)]\<rparr>
        in if \<not> ok then Some (False, True, dest, e) else Some (retry, False, dest, e))
   }"

fun append_to_tempfile_loop ::
    "write_result list \<Rightarrow> os_env \<Rightarrow> chunkqueue \<Rightarrow> string \<Rightarrow> (int \<times> chunkqueue \<times> os_env) option" where
  "append_to_tempfile_loop [] e dest mem = do {
     (ok, dest, e) \<leftarrow> select_tempfile e dest;
     if \<not> ok then Some (-1, dest, e)
     else do {
       (retry, failed, dest, e) \<leftarrow> write_failed False dest e;
       Some (-1, dest, e)
     }
   }"
| "append_to_tempfile_loop (w # ws) e dest mem = do {
     (ok, dest, e) \<leftarrow> select_tempfile e dest;
     if \<not> ok then Some (-1, dest, e)
     else let e = e\<lparr>env_write := ws\<rparr> in
       (case w of
          Wrote n \<Rightarrow>
            if length mem \<le> n then Some (0, written_to_last dest mem, e)
            else append_to_tempfile_loop ws e (written_to_last dest (take n mem)) (drop n mem)
        | W_EINTR \<Rightarrow> append_to_tempfile_loop ws e dest mem
        | _ \<Rightarrow> do {
            (retry, failed, dest, e) \<leftarrow> write_failed (w = W_ENOSPC) dest e;
            if retry \<and> \<not> failed then append_to_tempfile_loop ws e dest mem
            else Some (-1, dest, e)
          })
   }"

definition chunkqueue_append_mem_to_tempfile ::
    "os_env \<Rightarrow> chunkqueue \<Rightarrow> string \<Rightarrow> (int \<times> chunkqueue \<times> os_env) option" where
  "chunkqueue_append_mem_to_tempfile e dest mem = append_to_tempfile_loop (env_write e) e dest mem"

section \<open>Moving a queue into temporary files\<close>

function chunkqueue_steal_with_tempfiles ::
    "os_env \<Rightarrow> chunkqueue \<Rightarrow> chunkqueue \<Rightarrow> int \<Rightarrow> (int \<times> chunkqueue \<times> chunkqueue \<times> os_env) option" where
  "chunkqueue_steal_with_tempfiles e dest src len =
     (if len \<le> 0 then Some (0, dest, src, e)
      else case cq_chunks src of
        [] \<Rightarrow> Some (0, dest, src, e)
      | c # r \<Rightarrow>
          (case chunk_remaining_length c of
             None \<Rightarrow> None
           | Some clen \<Rightarrow>
               if clen = 0 then
                 chunkqueue_steal_with_tempfiles e dest
                   (chunkqueue_push_unused_chunk (src\<lparr>cq_chunks := r\<rparr>) c) len
               else
                 (case c_type c of
                    FILE_CHUNK \<Rightarrow>
                      if clen \<le> len then
                        (case chunkqueue_append_chunk dest c of
                           None \<Rightarrow> None
                         | Some dest \<Rightarrow>
                             chunkqueue_steal_with_tempfiles e dest
                               (src\<lparr>cq_chunks := r, cq_bytes_out := cq_bytes_out src + clen\<rparr>) (len - clen))
                      else do {
                        dest \<leftarrow> chunkqueue_append_file dest (c_name c) (c_start c + c_offset c) len;
                        Some (0, dest, src\<lparr>cq_chunks := c\<lparr>c_offset := c_offset c + len\<rparr> # r,
                                           cq_bytes_out := cq_bytes_out src + len\<rparr>, e)
                      }
                  | MEM_CHUNK \<Rightarrow>
                      (case read_at (b_ptr (c_mem c)) (nat (c_offset c)) (nat (min clen len)) of
                         None \<Rightarrow> None
                       | Some s \<Rightarrow>
                           (case chunkqueue_append_mem_to_tempfile e dest s of
                              None \<Rightarrow> None
                            | Some (rc, dest, e) \<Rightarrow>
                                if rc \<noteq> 0 then Some (-1, dest, src, e)
                                else if clen \<le> len then
                                  chunkqueue_steal_with_tempfiles e dest
                                    ((chunkqueue_push_unused_chunk (src\<lparr>cq_chunks := r\<rparr>) c)
                                       \<lparr>cq_bytes_out := cq_bytes_out src + clen\<rparr>) (len - clen)
                                else Some (0, dest, src\<lparr>cq_chunks := c\<lparr>c_offset := c_offset c + len\<rparr> # r,
                                                        cq_bytes_out := cq_bytes_out src + len\<rparr>, e))))))"
  by pat_completeness auto
termination
  by (relation "measure (\<lambda>(e, dest, src, len). length (cq_chunks src))")
    (auto simp: chunkqueue_push_unused_chunk_def split: prod.splits)

declare chunkqueue_steal_with_tempfiles.simps [simp del]

section \<open>What is written\<close>

text \<open>The bytes that went to files, in order.\<close>

fun event_bytes :: "sys_event \<Rightarrow> string" where
  "event_bytes (Written fd s) = s"
| "event_bytes _ = []"

definition written_bytes :: "sys_event list \<Rightarrow> string" where
  "written_bytes tr = concat (map event_bytes tr)"

lemma written_bytes_simps [simp]:
  "written_bytes [] = []" "written_bytes (ev # t) = event_bytes ev @ written_bytes t"
  "written_bytes (t @ t') = written_bytes t @ written_bytes t'"
  by (simp_all add: written_bytes_def)

lemma reset_writes_nothing: "written_bytes (snd (chunk_reset c)) = []"
  by (simp add: chunk_reset_def split: option.split)

lemma push_unused_trace:
  "written_bytes (cq_trace (chunkqueue_push_unused_chunk cq c)) = written_bytes (cq_trace cq)"
  using reset_writes_nothing [of c] by (auto simp: chunkqueue_push_unused_chunk_def split: prod.splits)

text \<open>
  The steps between two writes keep the queue well formed, write nothing and leave the
  octets unchanged.
\<close>

definition quiet :: "chunkqueue \<Rightarrow> chunkqueue \<Rightarrow> bool" where
  "quiet cq cq' \<longleftrightarrow> cq_wf cq' \<and> cq_octets cq' = cq_octets cq
     \<and> cq_bytes_out cq' = cq_bytes_out cq
     \<and> written_bytes (cq_trace cq') = written_bytes (cq_trace cq)"

lemma quietD:
  "quiet cq cq' \<Longrightarrow> cq_wf cq'" "quiet cq cq' \<Longrightarrow> cq_wf cq \<Longrightarrow> cq_bytes_in cq' = cq_bytes_in cq"
  by (auto simp: quiet_def cq_wf_def)

lemma quiet_trans: "quiet a b \<Longrightarrow> quiet b c \<Longrightarrow> quiet a c"
  by (simp add: quiet_def)

lemma quiet_refl: "cq_wf cq \<Longrightarrow> quiet cq cq"
  by (simp add: quiet_def)

lemma unused_ok_fields [simp]:
  "unused_ok (cq\<lparr>cq_tempdir_idx := i\<rparr>) = unused_ok cq"
  by (simp add: unused_ok_def)

lemma quiet_fields:
  "cq_wf cq \<Longrightarrow> quiet cq (cq\<lparr>cq_tempdir_idx := i\<rparr>)"
  "cq_wf cq \<Longrightarrow> written_bytes ev = [] \<Longrightarrow> quiet cq (cq\<lparr>cq_trace := cq_trace cq @ ev\<rparr>)"
  by (auto simp: quiet_def cq_wf_iff cq_octets_def)

lemma tempfile_chunk:
  assumes "chunk_clean c"
  shows "chunk_wf (c\<lparr>c_type := FILE_CHUNK, c_fd := fd, c_is_temp := True, c_name := n, c_length := 0\<rparr>)"
    "chunk_octets (c\<lparr>c_type := FILE_CHUNK, c_fd := fd, c_is_temp := True, c_name := n, c_length := 0\<rparr>) = []"
  using assms by (auto simp: chunk_clean_def chunk_wf_def chunk_size_def chunk_octets_def chunk_bytes_def)

lemma env_write_kept [simp]:
  "env_write (snd (os_mkstemp e)) = env_write e" "env_write (snd (os_close e)) = env_write e"
  "env_write (snd (os_fcntl e)) = env_write e"
  by (auto simp: os_mkstemp_def os_close_def os_fcntl_def split: list.split)

definition selected :: "bool \<Rightarrow> chunkqueue \<Rightarrow> bool" where
  "selected ok cq \<longleftrightarrow> (ok \<longrightarrow> last_tempfile cq \<noteq> None)"

lemma new_tempfile_ok:
  assumes "cq_wf cq" "0 \<le> fd"
  shows "\<exists>cq'. (case chunkqueue_get_unused_chunk cq of (c, cq) \<Rightarrow>
            chunkqueue_append_chunk cq (c\<lparr>c_type := FILE_CHUNK, c_fd := fd, c_is_temp := True, c_name := n, c_length := 0\<rparr>))
          = Some cq' \<and> quiet cq cq' \<and> last_tempfile cq' \<noteq> None"
proof -
  have un: "unused_ok cq" using assms(1) by (simp add: cq_wf_iff)
  note gu = get_unused_ok [OF un]
  let ?c = "(fst (chunkqueue_get_unused_chunk cq))\<lparr>c_type := FILE_CHUNK, c_fd := fd, c_is_temp := True, c_name := n, c_length := 0\<rparr>"
  note tc = tempfile_chunk [OF gu(1), where fd = fd and n = n]
  obtain cq' where a: "chunkqueue_append_chunk (snd (chunkqueue_get_unused_chunk cq)) ?c = Some cq'" "cq_wf cq'"
      "cq_octets cq' = cq_octets cq" "cq_chunks cq' = cq_chunks cq @ [?c]" "cq_bytes_out cq' = cq_bytes_out cq"
    using append_chunk_ok [OF get_unused_wf [OF assms(1)] tc(1)] tc(2) assms(1) gu(3,5) by auto
  have "cq_trace cq' = cq_trace cq"
    using a(1) gu(6) by (auto simp: chunkqueue_append_chunk_def split: bind_splits)
  moreover have "last_tempfile cq' \<noteq> None"
    using a(4) assms(2) gu(1) by (simp add: last_tempfile_def chunk_clean_def)
  ultimately show ?thesis using a by (simp add: case_prod_beta quiet_def)
qed

lemma tempdir_loop_write:
  "tempdir_loop ds i e = (f, j, e') \<Longrightarrow> env_write e' = env_write e"
proof (induction ds i e rule: tempdir_loop.induct)
  case (2 d ds idx e)
  obtain r e1 where "os_mkstemp e = (r, e1)" by (cases "os_mkstemp e")
  moreover from this have "env_write e1 = env_write e" using env_write_kept(1) [of e] by simp
  ultimately show ?case using 2 by (auto split: option.splits)
qed simp

lemma get_append_tempfile_ok:
  assumes "cq_wf cq"
  shows "\<exists>ok cq' e'. chunkqueue_get_append_tempfile e cq = Some (ok, cq', e') \<and> quiet cq cq'
           \<and> selected ok cq' \<and> env_write e' = env_write e"
proof -
  obtain f cq1 e1 where first:
    "(case cq_tempdirs cq of
          Some dirs \<Rightarrow>
            if dirs \<noteq> [] then
              (let (f, idx, e) = tempdir_loop (drop (cq_tempdir_idx cq) dirs) (cq_tempdir_idx cq) e
               in (f, cq\<lparr>cq_tempdir_idx := idx\<rparr>, e))
            else (let (f, e) = os_mkstemp e in (f, cq, e))
        | None \<Rightarrow> (let (f, e) = os_mkstemp e in (f, cq, e))) = (f, cq1, e1)"
    and q1: "quiet cq cq1" "env_write e1 = env_write e"
  proof (cases "\<exists>dirs. cq_tempdirs cq = Some dirs \<and> dirs \<noteq> []")
    case True
    then obtain dirs where dirs: "cq_tempdirs cq = Some dirs" "dirs \<noteq> []" by blast
    obtain f idx e1 where t: "tempdir_loop (drop (cq_tempdir_idx cq) dirs) (cq_tempdir_idx cq) e = (f, idx, e1)"
      by (rule prod_cases3)
    show ?thesis
      by (rule that [of f "cq\<lparr>cq_tempdir_idx := idx\<rparr>" e1])
        (use dirs t quiet_fields(1) [OF assms] tempdir_loop_write [OF t] in simp_all)
  next
    case False
    obtain f e1 where m: "os_mkstemp e = (f, e1)" by (cases "os_mkstemp e")
    then have "env_write e1 = env_write e" using env_write_kept(1) [of e] by simp
    then show ?thesis
      using that [of f cq e1] False m quiet_refl [OF assms] by (simp split: option.split)
  qed
  show ?thesis
  proof (cases f)
    case None
    then have "chunkqueue_get_append_tempfile e cq = Some (False, cq1, e1)"
      using first by (simp add: chunkqueue_get_append_tempfile_def)
    then show ?thesis using q1 by (auto simp: selected_def)
  next
    case (Some p)
    then obtain fd name where f: "f = Some (fd, name)" by (cases p) auto
    obtain ok2 e2 where fc: "os_fcntl e1 = (ok2, e2)" by (cases "os_fcntl e1")
    then have w2: "env_write e2 = env_write e" using q1(2) env_write_kept(3) [of e1] by simp
    obtain ok3 e3 where cl: "os_close e2 = (ok3, e3)" by (cases "os_close e2")
    then have w3: "env_write e3 = env_write e" using w2 env_write_kept(2) [of e2] by simp
    consider "fd < 0" | "0 \<le> fd" "\<not> ok2" | "0 \<le> fd" ok2 by linarith
    then show ?thesis
    proof cases
      case 1
      then have "chunkqueue_get_append_tempfile e cq = Some (False, cq1, e1)"
        using first f by (simp add: chunkqueue_get_append_tempfile_def)
      then show ?thesis using q1 by (auto simp: selected_def)
    next
      case 2
      have "quiet cq (cq1\<lparr>cq_trace := cq_trace cq1 @ [Close fd]\<rparr>)"
        using quiet_trans [OF q1(1) quiet_fields(2) [OF quietD(1) [OF q1(1)], of "[Close fd]"]] by simp
      moreover have "chunkqueue_get_append_tempfile e cq
          = Some (False, cq1\<lparr>cq_trace := cq_trace cq1 @ [Close fd]\<rparr>, e3)"
        using 2 first f fc cl by (simp add: chunkqueue_get_append_tempfile_def)
      ultimately show ?thesis using w3 by (auto simp: selected_def)
    next
      case 3
      obtain cq2 where n: "(case chunkqueue_get_unused_chunk cq1 of (c, cq) \<Rightarrow>
            chunkqueue_append_chunk cq (c\<lparr>c_type := FILE_CHUNK, c_fd := fd, c_is_temp := True,
              c_name := buffer_copied (Some name), c_length := 0\<rparr>)) = Some cq2"
          "quiet cq1 cq2" "last_tempfile cq2 \<noteq> None"
        using new_tempfile_ok [OF quietD(1) [OF q1(1)] 3(1)] by blast
      have "chunkqueue_get_append_tempfile e cq = Some (True, cq2, e2)"
        using 3 first f fc n(1) by (simp add: chunkqueue_get_append_tempfile_def Let_def case_prod_beta)
      then show ?thesis using quiet_trans [OF q1(1) n(2)] n(3) w2 by (auto simp: selected_def)
    qed
  qed
qed

lemma last_tempfileD:
  assumes "last_tempfile cq = Some c"
  shows "cq_chunks cq = butlast (cq_chunks cq) @ [c]" "c_type c = FILE_CHUNK" "c_offset c = 0"
    "c \<in> set (cq_chunks cq)"
  using assms by (auto simp: last_tempfile_def Let_def split: if_splits)

text \<open>Exchanging the last chunk for one with the same octets, or with more.\<close>

lemma set_last_ok:
  assumes "cq_wf cq" "cq_chunks cq = pre @ [c]" "chunk_wf c'" "chunk_octets c' = chunk_octets c @ os"
  shows "cq_wf ((set_last cq c')\<lparr>cq_bytes_in := cq_bytes_in cq + int (length os), cq_trace := t\<rparr>)"
    "cq_octets ((set_last cq c')\<lparr>cq_bytes_in := b, cq_trace := t\<rparr>) = cq_octets cq @ os"
    "cq_octets ((set_last cq c')\<lparr>cq_trace := t\<rparr>) = cq_octets cq @ os"
  using assms by (auto simp: set_last_def cq_wf_iff cq_octets_def)

lemma close_last_quiet:
  assumes "cq_wf cq" "last_tempfile cq = Some c"
  shows "quiet cq ((set_last cq (c\<lparr>c_fd := fd\<rparr>))\<lparr>cq_trace := cq_trace cq @ [Close x]\<rparr>)"
proof -
  note l = last_tempfileD [OF assms(2)]
  have "chunk_wf c" using assms(1) l(4) by (simp add: cq_wf_iff)
  then have "chunk_wf (c\<lparr>c_fd := fd\<rparr>)" "chunk_octets (c\<lparr>c_fd := fd\<rparr>) = chunk_octets c @ []"
    using l(2) by (simp_all add: chunk_wf_def chunk_size_def chunk_octets_def chunk_bytes_def)
  note s = set_last_ok [OF assms(1) l(1) this, of "cq_trace cq @ [Close x]"]
  have "(set_last cq (c\<lparr>c_fd := fd\<rparr>))\<lparr>cq_bytes_in := cq_bytes_in cq + int (length ([] :: octet list)), cq_trace := cq_trace cq @ [Close x]\<rparr>
      = (set_last cq (c\<lparr>c_fd := fd\<rparr>))\<lparr>cq_trace := cq_trace cq @ [Close x]\<rparr>"
    by (simp add: set_last_def)
  then show ?thesis using s by (simp add: quiet_def) (simp add: set_last_def)
qed

lemma select_tempfile_ok:
  assumes "cq_wf cq"
  shows "\<exists>ok cq' e'. select_tempfile e cq = Some (ok, cq', e') \<and> quiet cq cq' \<and> selected ok cq'
           \<and> env_write e' = env_write e"
proof (cases "last_tempfile cq")
  case None
  then show ?thesis using get_append_tempfile_ok [OF assms] by (simp add: select_tempfile_def)
next
  case (Some c)
  show ?thesis
  proof (cases "int (cq_upload_temp_file_size cq) \<le> c_length c")
    case False
    then have "select_tempfile e cq = Some (True, cq, e)" using Some by (simp add: select_tempfile_def)
    then show ?thesis using Some quiet_refl [OF assms] by (auto simp: selected_def)
  next
    case True
    obtain ok e1 where cl: "os_close e = (ok, e1)" by (cases "os_close e")
    then have w: "env_write e1 = env_write e" using env_write_kept(2) [of e] by simp
    let ?cq = "(set_last cq (c\<lparr>c_fd := -1\<rparr>))\<lparr>cq_trace := cq_trace cq @ [Close (c_fd c)]\<rparr>"
    have q: "quiet cq ?cq" by (rule close_last_quiet [OF assms Some])
    obtain ok2 cq2 e2 where "chunkqueue_get_append_tempfile e1 ?cq = Some (ok2, cq2, e2)" "quiet ?cq cq2"
        "selected ok2 cq2" "env_write e2 = env_write e1"
      using get_append_tempfile_ok [OF quietD(1) [OF q]] by blast
    then show ?thesis
      using Some True cl q w quiet_trans [OF q] by (cases ok) (auto simp: select_tempfile_def selected_def)
  qed
qed

text \<open>The octets of a written piece are positions in a file.\<close>

definition in_file :: "octet \<Rightarrow> bool" where
  "in_file x = (case x of FileByte _ _ \<Rightarrow> True | MemByte _ \<Rightarrow> False)"

lemma written_to_last_ok:
  assumes "cq_wf cq" "last_tempfile cq = Some c"
  shows "cq_wf (written_to_last cq s)"
    "\<exists>os. cq_octets (written_to_last cq s) = cq_octets cq @ os \<and> length os = length s \<and> (\<forall>x \<in> set os. in_file x)"
    "cq_bytes_out (written_to_last cq s) = cq_bytes_out cq"
    "written_bytes (cq_trace (written_to_last cq s)) = written_bytes (cq_trace cq) @ s"
proof -
  note l = last_tempfileD [OF assms(2)]
  have c: "last (cq_chunks cq) = c" using l(1) by (metis last_snoc)
  have wf: "chunk_wf c" using assms(1) l(4) by (simp add: cq_wf_iff)
  let ?c = "c\<lparr>c_length := c_length c + int (length s)\<rparr>"
  have wf': "chunk_wf ?c" using wf l(2,3) by (simp add: chunk_wf_def chunk_size_def)
  define os where "os = map (FileByte (abs_bytes (c_name c))) [c_start c + c_length c..c_start c + c_length c + int (length s) - 1]"
  have "0 \<le> c_length c" using wf l(2) by (simp add: chunk_wf_def chunk_size_def)
  then have "[c_start c..c_start c + (c_length c + int (length s)) - 1]
      = [c_start c..c_start c + c_length c - 1] @ [c_start c + c_length c..c_start c + c_length c + int (length s) - 1]"
    using upto_split1 [of "c_start c" "c_start c + c_length c" "c_start c + (c_length c + int (length s)) - 1"]
    by (cases "length s = 0") (simp_all add: algebra_simps)
  then have oct: "chunk_octets ?c = chunk_octets c @ os"
    using l(2,3) by (simp add: chunk_octets_def chunk_bytes_def os_def)
  have n: "length os = length s" by (simp add: os_def)
  note s = set_last_ok [OF assms(1) l(1) wf' oct]
  show "cq_wf (written_to_last cq s)" using s(1) by (simp add: written_to_last_def c n)
  have "cq_octets (written_to_last cq s) = cq_octets cq @ os" using s(2) by (simp add: written_to_last_def c)
  moreover have "\<forall>x \<in> set os. in_file x" by (auto simp: os_def in_file_def)
  ultimately show "\<exists>os. cq_octets (written_to_last cq s) = cq_octets cq @ os \<and> length os = length s \<and> (\<forall>x \<in> set os. in_file x)"
    using n by blast
  show "cq_bytes_out (written_to_last cq s) = cq_bytes_out cq"
    by (simp add: written_to_last_def set_last_def Let_def)
  show "written_bytes (cq_trace (written_to_last cq s)) = written_bytes (cq_trace cq) @ s"
    by (simp add: written_to_last_def Let_def)
qed

text \<open>Dropping chunks writes nothing.\<close>

lemma remove_finished_trace:
  "chunkqueue_remove_finished_chunks cq = Some cq' \<Longrightarrow>
   cq_bytes_out cq' = cq_bytes_out cq \<and> written_bytes (cq_trace cq') = written_bytes (cq_trace cq)"
proof (induction cq arbitrary: cq' rule: chunkqueue_remove_finished_chunks.induct)
  case (1 cq)
  show ?case
  proof (cases "cq_chunks cq")
    case Nil
    then show ?thesis using 1(2) by (simp add: chunkqueue_remove_finished_chunks.simps [of cq])
  next
    case (Cons c r)
    then obtain n where n: "chunk_remaining_length c = Some n"
      using 1(2) by (cases "chunk_remaining_length c") (simp_all add: chunkqueue_remove_finished_chunks.simps [of cq])
    show ?thesis
      using 1(2) 1(1) [OF Cons n] Cons n push_unused_trace [of "cq\<lparr>cq_chunks := r\<rparr>" c]
      by (cases "n = 0") (auto simp: chunkqueue_remove_finished_chunks.simps [of cq])
  qed
qed

lemma remove_empty_loop_trace:
  "remove_empty_loop cq pre rest = Some cq' \<Longrightarrow>
   cq_bytes_out cq' = cq_bytes_out cq \<and> written_bytes (cq_trace cq') = written_bytes (cq_trace cq)"
proof (induction cq pre rest arbitrary: cq' rule: remove_empty_loop.induct)
  case (3 cq pre e d rest)
  then obtain n where "chunk_remaining_length e = Some n" by (auto split: bind_splits)
  then show ?case using 3 push_unused_trace [of cq e] by (cases "n = 0") auto
qed (auto split: bind_splits if_splits simp: push_unused_trace)

lemma remove_empty_quiet:
  assumes "cq_wf cq"
  shows "\<exists>cq'. chunkqueue_remove_empty_chunks cq = Some cq' \<and> quiet cq cq'"
proof -
  obtain cq' where r: "chunkqueue_remove_empty_chunks cq = Some cq'" "cq_wf cq'" "cq_octets cq' = cq_octets cq"
    using remove_empty_ok [OF assms] by blast
  have "cq_bytes_out cq' = cq_bytes_out cq \<and> written_bytes (cq_trace cq') = written_bytes (cq_trace cq)"
    using r(1) by (auto simp: chunkqueue_remove_empty_chunks_def split: bind_splits list.splits
        dest!: remove_finished_trace remove_empty_loop_trace)
  with r show ?thesis by (simp add: quiet_def)
qed

lemma write_failed_ok:
  assumes "cq_wf cq" "last_tempfile cq \<noteq> None"
  shows "\<exists>retry failed cq' e'. write_failed enospc cq e = Some (retry, failed, cq', e') \<and> quiet cq cq'"
proof -
  obtain c where c: "last_tempfile cq = Some c" using assms(2) by blast
  define retry where "retry = (enospc \<and> cq_tempdirs cq \<noteq> None
      \<and> cq_tempdir_idx cq + 1 < length (the (cq_tempdirs cq)))"
  define cq1 where "cq1 = (if enospc \<and> cq_tempdirs cq \<noteq> None
      then cq\<lparr>cq_tempdir_idx := cq_tempdir_idx cq + 1\<rparr> else cq)"
  have q1: "quiet cq cq1" using quiet_fields(1) [OF assms(1)] quiet_refl [OF assms(1)] by (simp add: cq1_def)
  have "last_tempfile (cq\<lparr>cq_tempdir_idx := i\<rparr>) = last_tempfile cq" for i by (simp add: last_tempfile_def)
  then have c1: "last_tempfile cq1 = Some c" using c by (simp add: cq1_def)
  have l1: "last (cq_chunks cq1) = c" using last_tempfileD(1) [OF c1] by (metis last_snoc)
  have rem: "chunk_remaining_length c = Some (int (length (chunk_octets c)))"
    using quietD(1) [OF q1] last_tempfileD(4) [OF c1] by (simp add: cq_wf_iff)
  have pair: "(if enospc \<and> cq_tempdirs cq \<noteq> None
        then (cq_tempdir_idx cq + 1 < length (the (cq_tempdirs cq)),
              cq\<lparr>cq_tempdir_idx := cq_tempdir_idx cq + 1\<rparr>)
        else (False, cq)) = (retry, cq1)"
    by (auto simp: retry_def cq1_def)
  show ?thesis
  proof (cases "chunk_octets c = []")
    case True
    obtain cq2 where "chunkqueue_remove_empty_chunks cq1 = Some cq2" "quiet cq1 cq2"
      using remove_empty_quiet [OF quietD(1) [OF q1]] by blast
    then show ?thesis
      using True rem l1 quiet_trans [OF q1] unfolding write_failed_def pair by auto
  next
    case False
    obtain ok e1 where cl: "os_close e = (ok, e1)" by (cases "os_close e")
    note q2 = close_last_quiet [OF quietD(1) [OF q1] c1, where fd = "-1" and x = "c_fd c"]
    show ?thesis
      using False rem l1 cl quiet_trans [OF q1 q2] unfolding write_failed_def pair
      by (cases ok) (auto simp: Let_def)
  qed
qed

text \<open>
  Whatever the system answers, a prefix of the bytes reached the files and is counted in
  the queue; it is all of them when the call succeeds.
\<close>

definition stored :: "chunkqueue \<Rightarrow> string \<Rightarrow> int \<Rightarrow> chunkqueue \<Rightarrow> bool" where
  "stored cq mem rc cq' \<longleftrightarrow> cq_wf cq' \<and> cq_bytes_out cq' = cq_bytes_out cq \<and> (rc = 0 \<or> rc = -1) \<and>
     (\<exists>os. length os \<le> length mem \<and> (rc = 0 \<longrightarrow> length os = length mem)
        \<and> written_bytes (cq_trace cq') = written_bytes (cq_trace cq) @ take (length os) mem
        \<and> cq_octets cq' = cq_octets cq @ os \<and> (\<forall>x \<in> set os. in_file x))"

lemma stored_quiet: "quiet cq cq' \<Longrightarrow> stored cq mem (-1) cq'"
  by (auto simp: stored_def quiet_def intro!: exI [of _ "[]"])

lemma stored_after_quiet: "quiet cq cq1 \<Longrightarrow> stored cq1 mem rc cq' \<Longrightarrow> stored cq mem rc cq'"
  by (simp add: stored_def quiet_def)

lemma stored_after_write:
  assumes "cq_bytes_out cq1 = cq_bytes_out cq" "n \<le> length mem"
    "written_bytes (cq_trace cq1) = written_bytes (cq_trace cq) @ take n mem"
    "cq_octets cq1 = cq_octets cq @ os1" "length os1 = n" "\<forall>x \<in> set os1. in_file x" "stored cq1 (drop n mem) rc cq'"
  shows "stored cq mem rc cq'"
proof -
  obtain os where k: "length os \<le> length (drop n mem)" "rc = 0 \<longrightarrow> length os = length (drop n mem)"
      "written_bytes (cq_trace cq') = written_bytes (cq_trace cq1) @ take (length os) (drop n mem)"
      "cq_octets cq' = cq_octets cq1 @ os" "\<forall>x \<in> set os. in_file x"
    using assms(7) by (auto simp: stored_def)
  have "cq_wf cq'" "cq_bytes_out cq' = cq_bytes_out cq" "rc = 0 \<or> rc = -1" using assms(1,7) by (auto simp: stored_def)
  moreover have "length (os1 @ os) \<le> length mem" "rc = 0 \<longrightarrow> length (os1 @ os) = length mem"
      "written_bytes (cq_trace cq') = written_bytes (cq_trace cq) @ take (length (os1 @ os)) mem"
      "cq_octets cq' = cq_octets cq @ os1 @ os" "\<forall>x \<in> set (os1 @ os). in_file x"
    using assms(2-6) k by (auto simp: take_add)
  ultimately show ?thesis unfolding stored_def by blast
qed

lemma append_to_tempfile_loop_ok:
  assumes "cq_wf dest"
  shows "\<exists>rc dest' e'. append_to_tempfile_loop ws e dest mem = Some (rc, dest', e') \<and> stored dest mem rc dest'"
  using assms
proof (induction ws arbitrary: e dest mem)
  case Nil
  obtain ok d1 e1 where sel: "select_tempfile e dest = Some (ok, d1, e1)" "quiet dest d1" "selected ok d1"
    using select_tempfile_ok [OF Nil] by blast
  show ?case
  proof (cases ok)
    case True
    then obtain r f d2 e2 where wf: "write_failed False d1 e1 = Some (r, f, d2, e2)" "quiet d1 d2"
      using write_failed_ok [OF quietD(1) [OF sel(2)], of False e1] sel(3) by (auto simp: selected_def)
    then show ?thesis using sel(1) True stored_quiet [OF quiet_trans [OF sel(2) wf(2)]] by simp
  qed (use sel(1) stored_quiet [OF sel(2)] in simp)
next
  case (Cons w ws)
  obtain ok d1 e1 where sel: "select_tempfile e dest = Some (ok, d1, e1)" "quiet dest d1" "selected ok d1"
    using select_tempfile_ok [OF Cons.prems] by blast
  show ?case
  proof (cases ok)
    case False
    then show ?thesis using sel(1) stored_quiet [OF sel(2)] by simp
  next
    case True
    then obtain c where c: "last_tempfile d1 = Some c" using sel(3) by (auto simp: selected_def)
    note wf1 = quietD(1) [OF sel(2)]
    have failed: "\<exists>rc dest' e'. do {
            (retry, failed, dest, e) \<leftarrow> write_failed b d1 (e1\<lparr>env_write := ws\<rparr>);
            if retry \<and> \<not> failed then append_to_tempfile_loop ws e dest mem
            else Some (-1, dest, e)
          } = Some (rc, dest', e') \<and> stored dest mem rc dest'" for b
    proof -
      obtain r f d2 e2 where w: "write_failed b d1 (e1\<lparr>env_write := ws\<rparr>) = Some (r, f, d2, e2)" "quiet d1 d2"
        using write_failed_ok [OF wf1, of b "e1\<lparr>env_write := ws\<rparr>"] c by auto
      note q = quiet_trans [OF sel(2) w(2)]
      show ?thesis
      proof (cases "r \<and> \<not> f")
        case True
        then show ?thesis using w Cons.IH [OF quietD(1) [OF q], of e2 mem] stored_after_quiet [OF q] by auto
      qed (use w stored_quiet [OF q] in auto)
    qed
    show ?thesis
    proof (cases w)
      case (Wrote n)
      show ?thesis
      proof (cases "length mem \<le> n")
        case all: True
        have "stored d1 mem 0 (written_to_last d1 mem)"
          using written_to_last_ok [OF wf1 c, of mem] by (auto simp: stored_def)
        then show ?thesis
          using sel(1) True Wrote all stored_after_quiet [OF sel(2)] by simp
      next
        case part: False
        let ?d = "written_to_last d1 (take n mem)"
        note wl = written_to_last_ok [OF wf1 c, of "take n mem"]
        obtain rc d' e' where r: "append_to_tempfile_loop ws (e1\<lparr>env_write := ws\<rparr>) ?d (drop n mem) = Some (rc, d', e')"
            "stored ?d (drop n mem) rc d'"
          using Cons.IH [OF wl(1)] by blast
        have "stored d1 mem rc d'"
          using part wl(2) stored_after_write [OF wl(3) _ wl(4) _ _ _ r(2)] by fastforce
        then show ?thesis
          using sel(1) True Wrote part r(1) stored_after_quiet [OF sel(2)] by auto
      qed
    next
      case W_EINTR
      then show ?thesis
        using sel(1) True Cons.IH [OF wf1, of "e1\<lparr>env_write := ws\<rparr>" mem] stored_after_quiet [OF sel(2)] by auto
    next
      case W_ENOSPC
      then show ?thesis using sel(1) True failed [of True] by simp
    next
      case W_ERROR
      then show ?thesis using sel(1) True failed [of False] by simp
    qed
  qed
qed

lemma append_mem_to_tempfile_ok:
  "cq_wf dest \<Longrightarrow> \<exists>rc dest' e'. chunkqueue_append_mem_to_tempfile e dest mem = Some (rc, dest', e')
     \<and> stored dest mem rc dest'"
  using append_to_tempfile_loop_ok by (simp add: chunkqueue_append_mem_to_tempfile_def)

text \<open>When a file can be had and \<open>write\<close> takes everything, the call succeeds.\<close>

lemma append_mem_to_tempfile_succeeds:
  assumes "cq_wf dest" "env_write e = Wrote n # ws" "length mem \<le> n"
    "select_tempfile e dest = Some (True, d1, e1)"
  shows "\<exists>dest' e'. chunkqueue_append_mem_to_tempfile e dest mem = Some (0, dest', e')"
  using assms by (simp add: chunkqueue_append_mem_to_tempfile_def)

text \<open>
  Moving octets into a queue of files: what leaves the source is a prefix of what it held,
  and on success it is everything that was asked for and it arrived. An octet of a file arrives as
  the same octet of that file, one of memory as a position in a temporary file, and the bytes
  of memory are written in order.
\<close>

definition arrived :: "octet \<Rightarrow> octet \<Rightarrow> bool" where
  "arrived x y = (case x of FileByte _ _ \<Rightarrow> y = x | MemByte _ \<Rightarrow> in_file y)"

fun mem_bytes :: "octet list \<Rightarrow> string" where
  "mem_bytes [] = []"
| "mem_bytes (MemByte b # xs) = b # mem_bytes xs"
| "mem_bytes (FileByte f p # xs) = mem_bytes xs"

lemma mem_bytes_simps [simp]:
  "mem_bytes (xs @ ys) = mem_bytes xs @ mem_bytes ys" "mem_bytes (map MemByte s) = s" "mem_bytes (map (FileByte f) ps) = []"
proof -
  show "mem_bytes (xs @ ys) = mem_bytes xs @ mem_bytes ys" by (induction xs rule: mem_bytes.induct) simp_all
  show "mem_bytes (map MemByte s) = s" by (induction s) simp_all
  show "mem_bytes (map (FileByte f) ps) = []" by (induction ps) simp_all
qed

lemma file_bytes_only: "c_type c = FILE_CHUNK \<Longrightarrow> \<exists>f ps. chunk_octets c = map (FileByte f) ps"
  by (auto simp: chunk_octets_def chunk_bytes_def drop_map)

lemma file_arrives:
  assumes "c_type c = FILE_CHUNK"
  shows "list_all2 arrived (take n (chunk_octets c)) (take n (chunk_octets c))" "mem_bytes (take n (chunk_octets c)) = []"
proof -
  obtain f ps where c: "chunk_octets c = map (FileByte f) ps" using file_bytes_only [OF assms] by blast
  have "list_all2 arrived (map (FileByte f) qs) (map (FileByte f) qs)" for qs by (induction qs) (simp_all add: arrived_def)
  then show "list_all2 arrived (take n (chunk_octets c)) (take n (chunk_octets c))" by (simp add: c take_map)
  show "mem_bytes (take n (chunk_octets c)) = []" by (simp add: c take_map)
qed

lemma mem_arrives:
  "length os = length s \<Longrightarrow> \<forall>x \<in> set os. in_file x \<Longrightarrow> list_all2 arrived (map MemByte s) os"
  by (induction s os rule: list_induct2') (simp_all add: arrived_def)

text \<open>The octets \<open>os\<close> have come from the front of \<open>xs\<close>.\<close>

definition carried :: "octet list \<Rightarrow> octet list \<Rightarrow> chunkqueue \<Rightarrow> chunkqueue \<Rightarrow> bool" where
  "carried xs os dest dest' \<longleftrightarrow> length os \<le> length xs \<and> cq_octets dest' = cq_octets dest @ os
     \<and> list_all2 arrived (take (length os) xs) os
     \<and> written_bytes (cq_trace dest') = written_bytes (cq_trace dest) @ mem_bytes (take (length os) xs)"

lemma carried_trans:
  assumes "carried xs os dest d" "length os = m" "carried (drop m xs) os' d dest'"
  shows "carried xs (os @ os') dest dest'"
proof -
  have "take (length (os @ os')) xs = take m xs @ take (length os') (drop m xs)" using assms(2) by (simp add: take_add)
  then show ?thesis using assms by (auto simp: carried_def intro: list_all2_appendI)
qed

definition moved :: "chunkqueue \<Rightarrow> chunkqueue \<Rightarrow> int \<Rightarrow> int \<Rightarrow> chunkqueue \<Rightarrow> chunkqueue \<Rightarrow> bool" where
  "moved dest src len rc dest' src' \<longleftrightarrow> cq_wf dest' \<and> cq_wf src' \<and> (rc = 0 \<or> rc = -1) \<and>
     cq_bytes_out dest' = cq_bytes_out dest \<and>
     (\<exists>k os. k \<le> length os \<and> length os \<le> min (nat len) (length (cq_octets src)) \<and> cq_octets src' = drop k (cq_octets src)
        \<and> carried (cq_octets src) os dest dest'
        \<and> (rc = 0 \<longrightarrow> k = length os \<and> k = min (nat len) (length (cq_octets src))))"

lemma movedD:
  assumes "moved dest src len rc dest' src'"
  shows "\<exists>k\<le>min (nat len) (length (cq_octets src)). cq_octets src' = drop k (cq_octets src) \<and>
        (rc = 0 \<longrightarrow> k = min (nat len) (length (cq_octets src))
           \<and> length (cq_octets dest') = length (cq_octets dest) + k)"
proof -
  obtain k os where k: "k \<le> length os" "length os \<le> min (nat len) (length (cq_octets src))" "cq_octets src' = drop k (cq_octets src)"
      "carried (cq_octets src) os dest dest'" "rc = 0 \<longrightarrow> k = length os \<and> k = min (nat len) (length (cq_octets src))"
    using assms unfolding moved_def by blast
  have "k \<le> min (nat len) (length (cq_octets src))" "length (cq_octets dest') = length (cq_octets dest) + length os"
    using k by (auto simp: carried_def)
  then show ?thesis using k(3,5) by metis
qed

lemma moved_step:
  assumes "moved dest1 src1 (len - int m) rc dest' src'" "int m \<le> len" "m \<le> length (cq_octets src)"
    "cq_octets src1 = drop m (cq_octets src)" "carried (cq_octets src) os dest dest1" "length os = m"
    "cq_bytes_out dest1 = cq_bytes_out dest"
  shows "moved dest src len rc dest' src'"
proof -
  obtain k os' where k: "k \<le> length os'" "length os' \<le> min (nat (len - int m)) (length (cq_octets src1))" "cq_octets src' = drop k (cq_octets src1)"
      "carried (cq_octets src1) os' dest1 dest'" "rc = 0 \<longrightarrow> k = length os' \<and> k = min (nat (len - int m)) (length (cq_octets src1))"
    using assms(1) unfolding moved_def by blast
  have eq: "min (nat len) (length (cq_octets src)) = m + min (nat (len - int m)) (length (cq_octets src1))"
    using assms(2,3,4) by (auto simp: min_def nat_diff_distrib)
  have c: "carried (cq_octets src) (os @ os') dest dest'" using carried_trans [OF assms(5,6)] k(4) assms(4) by simp
  have w: "cq_wf dest'" "cq_wf src'" "rc = 0 \<or> rc = -1" "cq_bytes_out dest' = cq_bytes_out dest" using assms(1,7) by (auto simp: moved_def)
  have "m + k \<le> length (os @ os')" "length (os @ os') \<le> m + min (nat (len - int m)) (length (cq_octets src1))"
      "cq_octets src' = drop (m + k) (cq_octets src)"
      "rc = 0 \<longrightarrow> m + k = length (os @ os') \<and> m + k = m + min (nat (len - int m)) (length (cq_octets src1))"
    using k assms(4,6) by (auto simp: add.commute)
  then show ?thesis using w c unfolding moved_def eq by blast
qed

lemma moved_last:
  assumes "cq_wf dest'" "cq_wf src'" "0 \<le> len" "nat len \<le> length (cq_octets src)"
    "cq_octets src' = drop (nat len) (cq_octets src)" "carried (cq_octets src) os dest dest'" "length os = nat len"
    "cq_bytes_out dest' = cq_bytes_out dest"
  shows "moved dest src len 0 dest' src'"
  using assms unfolding moved_def by (auto simp: min_def intro!: exI [of _ "nat len"] exI [of _ os])

lemma moved_nothing:
  assumes "cq_wf dest'" "cq_wf src" "cq_bytes_out dest' = cq_bytes_out dest" "carried (cq_octets src) os dest dest'" "length os \<le> nat len"
  shows "moved dest src len (-1) dest' src"
  using assms unfolding moved_def by (auto simp: carried_def intro!: exI [of _ 0] exI [of _ os])

lemma append_chunk_trace: "chunkqueue_append_chunk cq c = Some cq' \<Longrightarrow> cq_trace cq' = cq_trace cq"
  by (auto simp: chunkqueue_append_chunk_def split: bind_splits)

lemma append_file_trace:
  assumes "cq_wf cq" "chunkqueue_append_file cq fn start len = Some cq'"
  shows "cq_trace cq' = cq_trace cq"
proof -
  have "unused_ok cq" using assms(1) by (simp add: cq_wf_iff)
  note gu = get_unused_ok [OF this]
  show ?thesis using assms(2) gu(6) by (auto simp: chunkqueue_append_file_def Let_def case_prod_beta dest!: append_chunk_trace split: if_splits)
qed

lemma steal_with_tempfiles_ok:
  assumes "cq_wf dest" "cq_wf src"
  shows "\<exists>rc dest' src' e'. chunkqueue_steal_with_tempfiles e dest src len = Some (rc, dest', src', e')
     \<and> moved dest src len rc dest' src'"
  using assms
proof (induction e dest src len rule: chunkqueue_steal_with_tempfiles.induct)
  case (1 e dest src len)
  note unfold = chunkqueue_steal_with_tempfiles.simps [of e dest src len]
  show ?case
  proof (cases "len \<le> 0 \<or> cq_chunks src = []")
    case True
    then have "min (nat len) (length (cq_octets src)) = 0" by (auto simp: cq_octets_def)
    then have "moved dest src len 0 dest src" using 1(4,5) unfolding moved_def by (auto simp: carried_def intro!: exI [of _ 0] exI [of _ "[]"])
    moreover have "chunkqueue_steal_with_tempfiles e dest src len = Some (0, dest, src, e)"
      using True by (auto simp: unfold split: list.split)
    ultimately show ?thesis by blast
  next
    case False
    then obtain c r where c: "cq_chunks src = c # r" and len: "\<not> len \<le> 0" by (cases "cq_chunks src") auto
    note w = cq_wf_cons [OF 1(5) c]
    define n where "n = length (chunk_octets c)"
    have rem: "chunk_remaining_length c = Some (int n)" using w(1) by (simp add: n_def)
    have total: "n \<le> length (cq_octets src)" "drop n (cq_octets src) = cq_octets (src\<lparr>cq_chunks := r\<rparr>)"
      using w(3) by (simp_all add: n_def)
    consider (empty) "n = 0" | (fil) "n \<noteq> 0" "c_type c = FILE_CHUNK" | (mem) "n \<noteq> 0" "c_type c = MEM_CHUNK"
      by (cases "c_type c") auto
    then show ?thesis
    proof cases
      case empty
      let ?src = "chunkqueue_push_unused_chunk (src\<lparr>cq_chunks := r\<rparr>) c"
      have e: "chunk_octets c = []" using empty by (simp add: n_def)
      obtain rc d' s' e' where "chunkqueue_steal_with_tempfiles e dest ?src len = Some (rc, d', s', e')"
          "moved dest ?src len rc d' s'"
        using 1(1) [OF len c rem _ 1(4) drop_first_wf(1) [OF 1(5) c w(1) e]] empty by auto
      then show ?thesis
        using len c rem empty w(3) e by (auto simp: unfold moved_def)
    next
      case fil
      show ?thesis
      proof (cases "int n \<le> len")
        case True
        obtain d where d: "chunkqueue_append_chunk dest c = Some d" "cq_wf d"
            "cq_octets d = cq_octets dest @ chunk_octets c" "cq_bytes_out d = cq_bytes_out dest"
          using append_chunk_ok [OF 1(4) w(1)] by blast
        let ?src = "src\<lparr>cq_chunks := r, cq_bytes_out := cq_bytes_out src + int n\<rparr>"
        have wf: "cq_wf ?src" using drop_first_wf(2) [OF 1(5) c w(1)] by (simp add: n_def)
        obtain rc d' s' e' where r: "chunkqueue_steal_with_tempfiles e d ?src (len - int n) = Some (rc, d', s', e')"
            "moved d ?src (len - int n) rc d' s'"
          using 1(3) [OF len c rem _ fil(2) True d(1) d(2) wf] fil(1) by auto
        have oct: "cq_octets ?src = drop n (cq_octets src)" unfolding total(2) by (simp add: cq_octets_def)
        have "take n (cq_octets src) = chunk_octets c" using w(3) by (simp add: n_def)
        then have "carried (cq_octets src) (chunk_octets c) dest d"
          using d(3) total(1) file_arrives [OF fil(2), of n] append_chunk_trace [OF d(1)] by (simp add: carried_def n_def)
        then have "moved dest src len rc d' s'"
          using r(2) True total(1) d(4) oct by (intro moved_step [of d ?src len n rc d' s' src "chunk_octets c"]) (auto simp: n_def)
        then show ?thesis
          using len c rem fil True d(1) r(1) by (auto simp: unfold)
      next
        case False
        have l: "0 \<le> len" "len \<le> int (length (chunk_octets c))" using len False by (simp_all add: n_def)
        obtain d where d: "chunkqueue_append_file dest (c_name c) (c_start c + c_offset c) len = Some d" "cq_wf d"
            "cq_octets d = cq_octets dest @ take (nat len) (chunk_octets c)" "cq_bytes_out d = cq_bytes_out dest"
          using append_file_ok [OF 1(4) l(1)] file_octets_take [OF w(1) fil(2) l] by metis
        note adv = advance_first_wf [OF 1(5) c l]
        have ln: "nat len \<le> n" using l by (simp add: n_def)
        then have tk: "take (nat len) (cq_octets src) = take (nat len) (chunk_octets c)" using w(3) by (simp add: n_def)
        have lt: "length (take (nat len) (chunk_octets c)) = nat len" using ln by (simp add: n_def)
        have "carried (cq_octets src) (take (nat len) (chunk_octets c)) dest d"
          unfolding carried_def lt tk
          using d(3) ln total(1) file_arrives [OF fil(2), of "nat len"] append_file_trace [OF 1(4) d(1)] by simp
        then have "moved dest src len 0 d (src\<lparr>cq_chunks := c\<lparr>c_offset := c_offset c + len\<rparr> # r,
              cq_bytes_out := cq_bytes_out src + len\<rparr>)"
          using d adv l total lt ln by (intro moved_last [where os = "take (nat len) (chunk_octets c)"]) (auto simp: n_def)
        then show ?thesis using len c rem fil False d by (auto simp: unfold)
      qed
    next
      case mem
      define use where "use = min (int n) len"
      have use: "0 \<le> use" "use \<le> int (length (chunk_octets c))" "nat use \<le> n" "use \<le> len"
        using len by (auto simp: use_def n_def)
      obtain s where s: "read_at (b_ptr (c_mem c)) (nat (c_offset c)) (nat use) = Some s"
          "map MemByte s = take (nat use) (chunk_octets c)"
        using mem_octets_read [OF w(1) mem(2) use(1,2)] by blast
      have ls: "length s = nat use" using arg_cong [OF s(2), of length] use(3) by (simp add: n_def)
      obtain rc d e1 where a: "chunkqueue_append_mem_to_tempfile e dest s = Some (rc, d, e1)" "stored dest s rc d"
        using append_mem_to_tempfile_ok [OF 1(4)] by blast
      obtain os where os: "length os \<le> length s" "rc = 0 \<longrightarrow> length os = length s" "\<forall>x \<in> set os. in_file x"
          "written_bytes (cq_trace d) = written_bytes (cq_trace dest) @ take (length os) s" "cq_octets d = cq_octets dest @ os"
        using a(2) by (auto simp: stored_def)
      have wfd: "cq_wf d" "rc = 0 \<or> rc = -1" "cq_bytes_out d = cq_bytes_out dest"
        using a(2) by (auto simp: stored_def)
      have tk: "take (length os) (cq_octets src) = map MemByte (take (length os) s)"
      proof -
        have "take (length os) (cq_octets src) = take (length os) (take (nat use) (chunk_octets c))"
          using w(3) os(1) ls use(3) by (simp add: n_def min_def)
        then show ?thesis by (simp add: s(2) [symmetric] take_map)
      qed
      have car: "carried (cq_octets src) os dest d"
        unfolding carried_def tk using os mem_arrives [of os "take (length os) s"] ls use(3) total(1) by simp
      have nl: "length os \<le> nat len" using os(1) ls use by linarith
      show ?thesis
      proof (cases "rc = 0")
        case False
        then show ?thesis
          using len c rem mem s(1) a(1) moved_nothing [OF wfd(1) 1(5) wfd(3) car nl]
          by (auto simp: unfold use_def [symmetric])
      next
        case ok: True
        show ?thesis
        proof (cases "int n \<le> len")
          case True
          then have un: "use = int n" by (simp add: use_def)
          let ?src = "(chunkqueue_push_unused_chunk (src\<lparr>cq_chunks := r\<rparr>) c)\<lparr>cq_bytes_out := cq_bytes_out src + int n\<rparr>"
          have wf: "cq_wf ?src" using drop_first_wf(3) [OF 1(5) c w(1)] by (simp add: n_def)
          have oct: "cq_octets ?src = drop n (cq_octets src)" unfolding total(2) by (simp add: cq_octets_def)
          have "\<exists>rc' d' s' e'. chunkqueue_steal_with_tempfiles e1 d ?src (len - int n) = Some (rc', d', s', e')
              \<and> moved d ?src (len - int n) rc' d' s'"
            by (rule 1(2) [OF len c rem _ mem(2) _ _ refl refl _ True wfd(1) wf])
              (use mem(1) s(1) a(1) ok in \<open>auto simp: use_def [symmetric]\<close>)
          then obtain rc' d' s' e' where "chunkqueue_steal_with_tempfiles e1 d ?src (len - int n) = Some (rc', d', s', e')"
              "moved d ?src (len - int n) rc' d' s'" by blast
          moreover have "moved dest src len rc' d' s'" if "moved d ?src (len - int n) rc' d' s'"
            using that True total(1) oct wfd(3) un os(2) ok ls car by (intro moved_step [of d ?src len n rc' d' s' src os]) auto
          ultimately show ?thesis
            using len c rem mem s(1) a(1) ok True by (auto simp: unfold use_def [symmetric])
        next
          case False
          then have ul: "use = len" by (simp add: use_def)
          note adv = advance_first_wf [OF 1(5) c use(1,2)]
          have "moved dest src len 0 d (src\<lparr>cq_chunks := c\<lparr>c_offset := c_offset c + use\<rparr> # r,
              cq_bytes_out := cq_bytes_out src + use\<rparr>)"
            using adv wfd ok use(1,3) ul total(1) car os(2) ls by (intro moved_last [where os = os]) auto
          then show ?thesis
            using len c rem mem s(1) a(1) ok False ul by (auto simp: unfold use_def [symmetric])
        qed
      qed
    qed
  qed
qed

section \<open>Properties\<close>

text \<open>
  C35. Whatever \<open>mkstemp\<close> and \<open>write\<close> answer (full disks, interrupted calls, partial
  writes), \<open>chunkqueue_append_mem_to_tempfile\<close> returns, a prefix of the text has reached the
  temporary files in order, the queue counts exactly this prefix, and the prefix is the whole
  text when the call reports success.
\<close>

theorem append_mem_to_tempfile_no_loss:
  assumes "cq_wf dest"
  shows "\<exists>rc dest' e' k. chunkqueue_append_mem_to_tempfile e dest mem = Some (rc, dest', e')
     \<and> cq_wf dest' \<and> (rc = 0 \<or> rc = -1) \<and> k \<le> length mem \<and> (rc = 0 \<longrightarrow> k = length mem)
     \<and> written_bytes (cq_trace dest') = written_bytes (cq_trace dest) @ take k mem
     \<and> length (cq_octets dest') = length (cq_octets dest) + k"
proof -
  obtain rc dest' e' where r: "chunkqueue_append_mem_to_tempfile e dest mem = Some (rc, dest', e')" "stored dest mem rc dest'"
    using append_mem_to_tempfile_ok [OF assms, of e mem] by blast
  then obtain os where "length os \<le> length mem" "rc = 0 \<longrightarrow> length os = length mem"
      "written_bytes (cq_trace dest') = written_bytes (cq_trace dest) @ take (length os) mem" "cq_octets dest' = cq_octets dest @ os"
    by (auto simp: stored_def)
  moreover have "cq_wf dest'" "rc = 0 \<or> rc = -1" using r(2) by (simp_all add: stored_def)
  ultimately show ?thesis using r(1) by (intro exI [of _ rc] exI [of _ dest'] exI [of _ e'] exI [of _ "length os"]) simp
qed

text \<open>A system that creates one file, stores three bytes and then has no space left.\<close>

definition full_disk :: os_env where
  "full_disk = \<lparr>env_mkstemp = [Some (5, ''/t/x'')], env_write = [Wrote 3, W_ENOSPC], env_close = [], env_fcntl = []\<rparr>"

theorem append_mem_to_tempfile_no_loss_witness:
  "\<exists>rc dest' e' k. chunkqueue_append_mem_to_tempfile full_disk (chunkqueue_init (None, 0)) ''abcdef'' = Some (rc, dest', e')
     \<and> k \<le> 6 \<and> (rc = 0 \<longrightarrow> k = 6) \<and> length (cq_octets dest') = k"
  using append_mem_to_tempfile_no_loss [of "chunkqueue_init (None, 0)" full_disk "''abcdef''"]
  by (auto simp: init_ok)

text \<open>
  C36. Moving part of a queue into temporary files (a request body that is too large for
  memory) takes a prefix of the source away, in order, and on success that prefix is the
  requested length or all there was. What it appends to the destination is, octet for octet, a prefix
  of the source: an octet of a file stays the same octet of the same file, an octet of memory
  becomes a position in a temporary file, and the bytes written to these files are exactly the bytes
  of memory in that prefix, in order. On success the two prefixes are the same; when a write fails,
  what was taken away is part of what was appended, so no octet is lost, whatever the system answers.
\<close>

theorem steal_with_tempfiles_conserves:
  assumes "cq_wf dest" "cq_wf src"
  shows "\<exists>rc dest' src' e' k os. chunkqueue_steal_with_tempfiles e dest src len = Some (rc, dest', src', e')
     \<and> cq_wf dest' \<and> cq_wf src' \<and> (rc = 0 \<or> rc = -1)
     \<and> k \<le> length os \<and> length os \<le> min (nat len) (length (cq_octets src))
     \<and> cq_octets src' = drop k (cq_octets src)
     \<and> cq_octets dest' = cq_octets dest @ os \<and> list_all2 arrived (take (length os) (cq_octets src)) os
     \<and> written_bytes (cq_trace dest') = written_bytes (cq_trace dest) @ mem_bytes (take (length os) (cq_octets src))
     \<and> (rc = 0 \<longrightarrow> k = length os \<and> k = min (nat len) (length (cq_octets src)))"
  using steal_with_tempfiles_ok [OF assms, of e len] unfolding moved_def carried_def by blast

theorem steal_with_tempfiles_conserves_witness:
  "\<exists>rc dest' src' e' k. chunkqueue_steal_with_tempfiles full_disk (chunkqueue_init (None, 0)) file_queue 4
       = Some (rc, dest', src', e')
     \<and> k \<le> 4 \<and> cq_octets src' = drop k (map (FileByte ''f'') [0..9]) \<and> (rc = 0 \<longrightarrow> k = 4 \<and> cq_octets dest' = map (FileByte ''f'') [0..3])"
proof -
  have q: "length (cq_octets file_queue) = 10" using file_queue(3) by simp
  obtain rc dest' src' e' k os where r: "chunkqueue_steal_with_tempfiles full_disk (chunkqueue_init (None, 0)) file_queue 4 = Some (rc, dest', src', e')"
      "k \<le> length os" "length os \<le> 4" "cq_octets src' = drop k (cq_octets file_queue)"
      "cq_octets dest' = os" "list_all2 arrived (take (length os) (cq_octets file_queue)) os" "rc = 0 \<longrightarrow> k = length os \<and> k = 4"
  proof -
    from steal_with_tempfiles_conserves [OF init_ok(1) file_queue(1), of full_disk "(None, 0)" 4]
    obtain rc dest' src' e' k os where r: "chunkqueue_steal_with_tempfiles full_disk (chunkqueue_init (None, 0)) file_queue 4 = Some (rc, dest', src', e')"
        "k \<le> length os" "length os \<le> min (nat 4) (length (cq_octets file_queue))" "cq_octets src' = drop k (cq_octets file_queue)"
        "cq_octets dest' = cq_octets (chunkqueue_init (None, 0)) @ os" "list_all2 arrived (take (length os) (cq_octets file_queue)) os"
        "rc = 0 \<longrightarrow> k = length os \<and> k = min (nat 4) (length (cq_octets file_queue))"
      by blast
    show ?thesis by (rule that [OF r(1,2) _ r(4) _ r(6)]) (use r(3,5,7) q in \<open>auto simp: init_ok\<close>)
  qed
  have arr: "list_all2 arrived (map (FileByte f) ps) ys \<Longrightarrow> ys = map (FileByte f) ps" for f ps ys
    by (induction ps arbitrary: ys) (auto simp: list_all2_Cons1 arrived_def)
  have "os = map (FileByte ''f'') (take (length os) [0..9])"
    by (rule arr) (use r(6) in \<open>simp only: file_queue(3) take_map\<close>)
  moreover have "take 4 [0..9] = [0..3 :: int]" by code_simp
  ultimately have "rc = 0 \<longrightarrow> k = 4 \<and> cq_octets dest' = map (FileByte ''f'') [0..3]" using r(5,7) by auto
  moreover have "k \<le> 4" using r(2,3) by simp
  ultimately show ?thesis using r(1,4) unfolding file_queue(3) by blast
qed

end
