(* ===== verification/HttpChunk.thy ===== *)
theory HttpChunk
  imports Tempfile
begin

text \<open>
  Response bodies on the write queue, \<open>src/src/http_chunk.c\<close>: with chunked transfer
  coding every piece is framed by its length in hexadecimal.  The part of \<open>connection\<close>
  these functions use is the record \<open>out\<close>.  Opening the file through the stat cache is a
  parameter: \<open>opened\<close> is the descriptor and the st_size of the file, or \<open>None\<close>.
\<close>

record out =
  o_queue :: chunkqueue
  o_tmp :: buffer
  o_chunked :: bool
  o_bufmin :: bool

section \<open>Operations\<close>

text \<open>The line in front of a chunk, built in \<open>con->tmp_chunk_len\<close>.\<close>

definition chunk_len_line :: "buffer \<Rightarrow> nat \<Rightarrow> buffer option" where
  "chunk_len_line b len = do {
     b \<leftarrow> buffer_string_set_length b 0;
     b \<leftarrow> buffer_append_uint_hex b len;
     buffer_append_string_len b CRLF
   }"

definition http_chunk_append_len :: "out \<Rightarrow> nat \<Rightarrow> out option" where
  "http_chunk_append_len con len = do {
     b \<leftarrow> chunk_len_line (o_tmp con) len;
     (cq, b) \<leftarrow> chunkqueue_append_buffer (o_queue con) b;
     Some (con\<lparr>o_queue := cq, o_tmp := b\<rparr>)
   }"

definition append_crlf :: "out \<Rightarrow> out option" where
  "append_crlf con = do {
     cq \<leftarrow> chunkqueue_append_mem (o_queue con) CRLF;
     Some (con\<lparr>o_queue := cq\<rparr>)
   }"

definition http_chunk_append_file_fd_range ::
    "out \<Rightarrow> string option \<Rightarrow> int \<Rightarrow> int \<Rightarrow> int \<Rightarrow> out option" where
  "http_chunk_append_file_fd_range con fn fd offset len = do {
     con \<leftarrow> (if o_chunked con then http_chunk_append_len con (nat len) else Some con);
     cq \<leftarrow> chunkqueue_append_file_fd (o_queue con) fn fd offset len;
     let con = con\<lparr>o_queue := cq\<rparr>;
     if o_chunked con then append_crlf con else Some con
   }"

definition close_unused :: "out \<Rightarrow> int \<Rightarrow> out" where
  "close_unused con fd = con\<lparr>o_queue := (o_queue con)\<lparr>cq_trace := cq_trace (o_queue con) @ [Close fd]\<rparr>\<rparr>"

definition http_chunk_append_file_range ::
    "out \<Rightarrow> string option \<Rightarrow> int \<Rightarrow> int \<Rightarrow> (int \<times> int) option \<Rightarrow> (int \<times> out) option" where
  "http_chunk_append_file_range con fn offset len opened =
     (case opened of
        None \<Rightarrow> Some (-1, con)
      | Some (fd, st_size) \<Rightarrow>
          if len = -1 then
            (if st_size \<le> offset
             then Some (if offset = st_size then 0 else -1, close_unused con fd)
             else do {
               con \<leftarrow> http_chunk_append_file_fd_range con fn fd offset (st_size - offset);
               Some (0, con)
             })
          else if st_size - offset < len then Some (-1, close_unused con fd)
          else do {
            con \<leftarrow> http_chunk_append_file_fd_range con fn fd offset len;
            Some (0, con)
          })"

definition http_chunk_append_file ::
    "out \<Rightarrow> string option \<Rightarrow> (int \<times> int) option \<Rightarrow> (int \<times> out) option" where
  "http_chunk_append_file con fn opened =
     (case opened of
        None \<Rightarrow> Some (-1, con)
      | Some (fd, st_size) \<Rightarrow>
          if st_size \<noteq> 0 then do {
            con \<leftarrow> http_chunk_append_file_fd_range con fn fd 0 st_size;
            Some (0, con)
          } else Some (0, close_unused con fd))"

definition http_chunk_append_to_tempfile :: "os_env \<Rightarrow> out \<Rightarrow> string \<Rightarrow> (int \<times> out \<times> os_env) option" where
  "http_chunk_append_to_tempfile e con mem = do {
     (rc, con, e) \<leftarrow> (if o_chunked con then do {
         b \<leftarrow> chunk_len_line (o_tmp con) (length mem);
         (rc, cq, e) \<leftarrow> chunkqueue_append_mem_to_tempfile e (o_queue con) (buffer_content b);
         Some (rc, con\<lparr>o_queue := cq, o_tmp := b\<rparr>, e)
       } else Some (0, con, e));
     if rc \<noteq> 0 then Some (-1, con, e)
     else do {
       (rc, cq, e) \<leftarrow> chunkqueue_append_mem_to_tempfile e (o_queue con) mem;
       let con = con\<lparr>o_queue := cq\<rparr>;
       if rc \<noteq> 0 then Some (-1, con, e)
       else if o_chunked con then do {
         (rc, cq, e) \<leftarrow> chunkqueue_append_mem_to_tempfile e (o_queue con) CRLF;
         Some (if rc \<noteq> 0 then -1 else 0, con\<lparr>o_queue := cq\<rparr>, e)
       } else Some (0, con, e)
     }
   }"

text \<open>
  Large responses, and responses that already went to a file, go to temporary files.  The sum
  is unsigned: \<open>len\<close> is a \<open>size_t\<close>.
\<close>

definition to_tempfile :: "out \<Rightarrow> nat \<Rightarrow> bool" where
  "to_tempfile con len \<longleftrightarrow>
     (let cq = o_queue con in
        (cq_chunks cq \<noteq> [] \<and> c_type (last (cq_chunks cq)) = FILE_CHUNK \<and> c_is_temp (last (cq_chunks cq)))
        \<or> 1024 * (if o_bufmin con then 128 else 64)
             < (cq_bytes_in cq - cq_bytes_out cq + int len) mod 2 ^ 64)"

definition http_chunk_append_mem :: "os_env \<Rightarrow> out \<Rightarrow> string \<Rightarrow> (int \<times> out \<times> os_env) option" where
  "http_chunk_append_mem e con mem =
     (if mem = [] then Some (0, con, e)
      else if to_tempfile con (length mem) then http_chunk_append_to_tempfile e con mem
      else do {
        con \<leftarrow> (if o_chunked con then http_chunk_append_len con (length mem) else Some con);
        cq \<leftarrow> chunkqueue_append_mem (o_queue con) mem;
        let con = con\<lparr>o_queue := cq\<rparr>;
        con \<leftarrow> (if o_chunked con then append_crlf con else Some con);
        Some (0, con, e)
      })"

text \<open>The caller's buffer may be handed over; the result holds what the caller gets back.\<close>

definition http_chunk_append_buffer ::
    "os_env \<Rightarrow> out \<Rightarrow> buffer \<Rightarrow> (int \<times> out \<times> buffer \<times> os_env) option" where
  "http_chunk_append_buffer e con b =
     (let len = buffer_string_length b
      in if len = 0 then Some (0, con, b, e)
         else if to_tempfile con len then do {
           mem \<leftarrow> read_at (b_ptr b) 0 len;
           (rc, con, e) \<leftarrow> http_chunk_append_to_tempfile e con mem;
           Some (rc, con, b, e)
         }
         else do {
           con \<leftarrow> (if o_chunked con then http_chunk_append_len con len else Some con);
           (cq, b) \<leftarrow> chunkqueue_append_buffer (o_queue con) b;
           let con = con\<lparr>o_queue := cq\<rparr>;
           con \<leftarrow> (if o_chunked con then append_crlf con else Some con);
           Some (0, con, b, e)
         })"

definition http_chunk_close :: "out \<Rightarrow> out option" where
  "http_chunk_close con =
     (if o_chunked con then do {
        cq \<leftarrow> chunkqueue_append_mem (o_queue con) (''0'' @ CRLF @ CRLF);
        Some (con\<lparr>o_queue := cq\<rparr>)
      } else Some con)"

section \<open>Framing\<close>

definition out_wf :: "out \<Rightarrow> bool" where
  "out_wf con \<longleftrightarrow> cq_wf (o_queue con) \<and> buffer_wf (o_tmp con)"

definition out_octets :: "out \<Rightarrow> octet list" where
  "out_octets con = cq_octets (o_queue con)"

text \<open>A piece of the body as it goes on the wire.\<close>

definition frame :: "bool \<Rightarrow> octet list \<Rightarrow> octet list" where
  "frame chunked s =
     (if chunked then map MemByte (hex_string (length s) @ CRLF) @ s @ map MemByte CRLF else s)"

lemma fits_18: "fits 18"
  by (simp add: fits_def PTRDIFF_MAX_def)

lemma chunk_len_line_ok:
  assumes "buffer_wf b" "n < 2 ^ 64"
  shows "\<exists>b'. chunk_len_line b n = Some b' \<and> buffer_wf b' \<and> buffer_content b' = hex_string n @ CRLF"
proof -
  have "0 + 65 \<le> PTRDIFF_MAX" by (simp add: PTRDIFF_MAX_def)
  from buffer_set_length_ok [OF buffer_wfD(1,2) [OF assms(1)] this]
  obtain b1 ext where b1: "buffer_string_set_length b 0 = Some b1" "b_used b1 = 1"
      "b_ptr b1 = (b_ptr b @ ext)[0 := Some NUL]" "b_size b1 = length (b_ptr b1)" "0 < b_size b1"
      "b_size b1 \<le> PTRDIFF_MAX" by auto
  then obtain rest where "b_ptr b1 = map Some [] @ Some NUL # rest" by (cases "b_ptr b @ ext") auto
  note wf1 = buffer_wfI [OF this _ b1(4,6)]
  have wf: "buffer_wf b1" "buffer_content b1 = []" using wf1 b1(2) by simp_all
  obtain b2 where b2: "buffer_append_uint_hex b1 n = Some b2" "buffer_wf b2" "buffer_abs b2 = Some (hex_string n)"
    using buffer_append_uint_hex_ok [OF wf(1) assms(2)] wf(2) fits_mono [OF fits_18, of 16] by auto
  have c2: "buffer_content b2 = hex_string n" by (rule buffer_content_abs [OF b2(3)])
  have "fits (length (buffer_content b2) + length CRLF)"
    using fits_mono [OF fits_18] hex_string_length [OF assms(2)] c2 by simp
  then obtain b3 where "buffer_append_string_len b2 CRLF = Some b3" "buffer_wf b3"
      "buffer_abs b3 = Some (hex_string n @ CRLF)"
    using buffer_append_string_len_ok [OF b2(2), of CRLF] unfolding c2 by blast
  then show ?thesis using b1(1) b2(1) buffer_content_abs by (simp add: chunk_len_line_def)
qed

lemma append_len_ok:
  assumes "out_wf con" "n < 2 ^ 64"
  shows "\<exists>con'. http_chunk_append_len con n = Some con' \<and> out_wf con'
           \<and> out_octets con' = out_octets con @ map MemByte (hex_string n @ CRLF)
           \<and> o_chunked con' = o_chunked con \<and> o_bufmin con' = o_bufmin con"
proof -
  obtain b where b: "chunk_len_line (o_tmp con) n = Some b" "buffer_wf b" "buffer_content b = hex_string n @ CRLF"
    using chunk_len_line_ok assms by (auto simp: out_wf_def)
  obtain cq' b' where "chunkqueue_append_buffer (o_queue con) b = Some (cq', b')" "cq_wf cq'" "buffer_wf b'"
      "cq_octets cq' = cq_octets (o_queue con) @ map MemByte (hex_string n @ CRLF)"
    using append_buffer_ok [of "o_queue con" b] assms b by (auto simp: out_wf_def)
  then show ?thesis using b(1) by (auto simp: http_chunk_append_len_def out_wf_def out_octets_def)
qed

lemma append_crlf_ok:
  assumes "out_wf con"
  shows "\<exists>con'. append_crlf con = Some con' \<and> out_wf con' \<and> out_octets con' = out_octets con @ map MemByte CRLF
           \<and> o_chunked con' = o_chunked con \<and> o_bufmin con' = o_bufmin con"
proof -
  have "fits (length CRLF)" using fits_mono [OF fits_18] by simp
  then obtain cq' where "chunkqueue_append_mem (o_queue con) CRLF = Some cq'" "cq_wf cq'"
      "cq_octets cq' = cq_octets (o_queue con) @ map MemByte CRLF"
    using append_mem_ok [of "o_queue con" CRLF] assms by (auto simp: out_wf_def)
  then show ?thesis using assms by (auto simp: append_crlf_def out_wf_def out_octets_def)
qed

text \<open>The two steps around a piece, whatever puts the piece itself into the queue.\<close>

lemma framed:
  assumes "out_wf con" "length s < 2 ^ 64"
    "\<And>c. out_wf c \<Longrightarrow> o_chunked c = o_chunked con \<Longrightarrow> o_bufmin c = o_bufmin con \<Longrightarrow>
       \<exists>c'. put c = Some c' \<and> out_wf c' \<and> out_octets c' = out_octets c @ s
         \<and> o_chunked c' = o_chunked con \<and> o_bufmin c' = o_bufmin con"
  shows "\<exists>con'. do {
       con \<leftarrow> (if o_chunked con then http_chunk_append_len con (length s) else Some con);
       con \<leftarrow> put con;
       if o_chunked con then append_crlf con else Some con
     } = Some con' \<and> out_wf con' \<and> out_octets con' = out_octets con @ frame (o_chunked con) s
       \<and> o_chunked con' = o_chunked con \<and> o_bufmin con' = o_bufmin con"
proof (cases "o_chunked con")
  case False
  then show ?thesis using assms(3) [OF assms(1)] by (auto simp: frame_def)
next
  case True
  obtain c1 where c1: "http_chunk_append_len con (length s) = Some c1" "out_wf c1"
      "out_octets c1 = out_octets con @ map MemByte (hex_string (length s) @ CRLF)"
      "o_chunked c1 = o_chunked con" "o_bufmin c1 = o_bufmin con"
    using append_len_ok [OF assms(1,2)] by blast
  obtain c2 where c2: "put c1 = Some c2" "out_wf c2" "out_octets c2 = out_octets c1 @ s"
      "o_chunked c2 = o_chunked con" "o_bufmin c2 = o_bufmin con"
    using assms(3) [OF c1(2,4,5)] by blast
  show ?thesis
    using append_crlf_ok [OF c2(2)] c1 c2 True by (auto simp: frame_def)
qed

lemma http_chunk_append_mem_ok:
  assumes "out_wf con" "s \<noteq> []" "\<not> to_tempfile con (length s)" "fits (length s)"
  shows "\<exists>con'. http_chunk_append_mem e con s = Some (0, con', e) \<and> out_wf con'
           \<and> out_octets con' = out_octets con @ frame (o_chunked con) (map MemByte s)
           \<and> o_chunked con' = o_chunked con \<and> o_bufmin con' = o_bufmin con"
proof -
  let ?put = "\<lambda>c. do { cq \<leftarrow> chunkqueue_append_mem (o_queue c) s; Some (c\<lparr>o_queue := cq\<rparr>) }"
  have "length (map MemByte s) < 2 ^ 64" using PTRDIFF_SIZE [of "length s"] assms(4) by (simp add: fits_def SIZE_MOD_def)
  moreover have "\<exists>c'. ?put c = Some c' \<and> out_wf c' \<and> out_octets c' = out_octets c @ map MemByte s
         \<and> o_chunked c' = o_chunked con \<and> o_bufmin c' = o_bufmin con"
    if "out_wf c" "o_chunked c = o_chunked con" "o_bufmin c = o_bufmin con" for c
    using append_mem_ok [of "o_queue c" s] assms(4) that by (auto simp: out_wf_def out_octets_def)
  ultimately obtain con' where r: "do {
       con \<leftarrow> (if o_chunked con then http_chunk_append_len con (length (map MemByte s)) else Some con);
       con \<leftarrow> ?put con;
       if o_chunked con then append_crlf con else Some con
     } = Some con'" "out_wf con'" "out_octets con' = out_octets con @ frame (o_chunked con) (map MemByte s)"
     "o_chunked con' = o_chunked con" "o_bufmin con' = o_bufmin con"
    using framed [OF assms(1), of "map MemByte s" ?put] by blast
  have "http_chunk_append_mem e con s = Some (0, con', e)"
    using r(1) assms(2,3) by (auto simp: http_chunk_append_mem_def Let_def split: bind_splits if_splits)
  then show ?thesis using r by blast
qed


lemma http_chunk_append_buffer_ok:
  assumes "out_wf con" "buffer_wf b" "buffer_content b \<noteq> []"
    "\<not> to_tempfile con (length (buffer_content b))"
  shows "\<exists>con' b'. http_chunk_append_buffer e con b = Some (0, con', b', e) \<and> out_wf con' \<and> buffer_wf b'
           \<and> out_octets con' = out_octets con @ frame (o_chunked con) (map MemByte (buffer_content b))"
proof -
  let ?s = "buffer_content b"
  have len: "buffer_string_length b = length (buffer_content b)"
    by (rule buffer_string_length_content [OF assms(2)])
  have "length (buffer_content b) \<le> PTRDIFF_MAX"
    using buffer_wfD(2,3) [OF assms(2)] length_buffer_content [OF assms(2)] by linarith
  then have n: "length (buffer_content b) < 2 ^ 64" by (simp add: PTRDIFF_MAX_def)
  let ?len = "if o_chunked con then http_chunk_append_len con (length (buffer_content b)) else Some con"
  obtain c1 where c1: "?len = Some c1" "out_wf c1" "o_chunked c1 = o_chunked con" "out_octets c1 = out_octets con
      @ (if o_chunked con then map MemByte (hex_string (length (buffer_content b)) @ CRLF) else [])"
    using append_len_ok [OF assms(1) n] assms(1) by (cases "o_chunked con") auto
  obtain cq m where cq: "chunkqueue_append_buffer (o_queue c1) b = Some (cq, m)" "buffer_wf m" "cq_wf cq"
      "cq_octets cq = out_octets c1 @ map MemByte (buffer_content b)"
    using append_buffer_ok [of "o_queue c1" b] assms(2) c1(2) by (auto simp: out_wf_def out_octets_def)
  have c2: "out_wf (c1\<lparr>o_queue := cq\<rparr>)" using c1(2) cq(3) by (simp add: out_wf_def)
  show ?thesis
    using append_crlf_ok [OF c2] c1 cq assms(3,4) c2
    by (cases "o_chunked con") (auto simp: http_chunk_append_buffer_def len frame_def out_octets_def)
qed

text \<open>A non-empty range of a file becomes one framed piece of references to its octets.\<close>

definition file_piece :: "string option \<Rightarrow> int \<Rightarrow> int \<Rightarrow> octet list" where
  "file_piece fn offset len = map (FileByte (abs_bytes fn)) [offset..offset + len - 1]"

lemma file_fd_range_ok:
  assumes "out_wf con" "0 \<le> len" "len < 2 ^ 64"
  shows "\<exists>con'. http_chunk_append_file_fd_range con fn fd offset len = Some con' \<and> out_wf con'
           \<and> out_octets con' = out_octets con @ frame (o_chunked con) (file_piece fn offset len)"
proof -
  let ?put = "\<lambda>c. do { cq \<leftarrow> chunkqueue_append_file_fd (o_queue c) fn fd offset len; Some (c\<lparr>o_queue := cq\<rparr>) }"
  have len: "length (file_piece fn offset len) = nat len" using assms(2) by (simp add: file_piece_def)
  then have "length (file_piece fn offset len) < 2 ^ 64" using assms(3) by (simp add: nat_less_iff)
  moreover have "\<exists>c'. ?put c = Some c' \<and> out_wf c' \<and> out_octets c' = out_octets c @ file_piece fn offset len
         \<and> o_chunked c' = o_chunked con \<and> o_bufmin c' = o_bufmin con"
    if "out_wf c" "o_chunked c = o_chunked con" "o_bufmin c = o_bufmin con" for c
    using append_file_fd_ok [of "o_queue c" len fn fd offset] assms(2) that
    by (auto simp: out_wf_def out_octets_def file_piece_def)
  ultimately obtain con' where r: "do {
       con \<leftarrow> (if o_chunked con then http_chunk_append_len con (length (file_piece fn offset len)) else Some con);
       con \<leftarrow> ?put con;
       if o_chunked con then append_crlf con else Some con
     } = Some con'" "out_wf con'" "out_octets con' = out_octets con @ frame (o_chunked con) (file_piece fn offset len)"
    using framed [OF assms(1), of "file_piece fn offset len" ?put] by blast
  have "http_chunk_append_file_fd_range con fn fd offset len = Some con'"
    using r(1) unfolding len http_chunk_append_file_fd_range_def
    by (auto simp: Let_def split: bind_splits if_splits)
  then show ?thesis using r by blast
qed

text \<open>What the call promises for a file of st_size \<open>st_size\<close>: the range, cut at the end of the file.\<close>

lemma http_chunk_append_file_range_ok:
  assumes "out_wf con" "0 \<le> offset" "offset < st_size" "len = -1 \<or> 0 \<le> len \<and> len \<le> st_size - offset" "st_size < 2 ^ 63"
  shows "\<exists>con'. http_chunk_append_file_range con fn offset len (Some (fd, st_size)) = Some (0, con') \<and> out_wf con'
           \<and> out_octets con' = out_octets con
               @ frame (o_chunked con) (file_piece fn offset (if len = -1 then st_size - offset else len))"
proof (cases "len = -1")
  case True
  have "0 \<le> st_size - offset" "st_size - offset < 2 ^ 64" using assms by simp_all
  then show ?thesis using True assms(3) file_fd_range_ok [OF assms(1), of "st_size - offset" fn fd offset]
    by (auto simp: http_chunk_append_file_range_def)
next
  case False
  then have "0 \<le> len" "len < 2 ^ 64" using assms by auto
  then show ?thesis using False assms(4) file_fd_range_ok [OF assms(1), of len fn fd offset]
    by (auto simp: http_chunk_append_file_range_def)
qed

lemma http_chunk_append_file_range_outside:
  assumes "len \<noteq> -1" "st_size - offset < len"
  shows "\<exists>con'. http_chunk_append_file_range con fn offset len (Some (fd, st_size)) = Some (-1, con')
           \<and> out_octets con' = out_octets con \<and> cq_trace (o_queue con') = cq_trace (o_queue con) @ [Close fd]"
  using assms by (simp add: http_chunk_append_file_range_def close_unused_def out_octets_def cq_octets_def)

lemma http_chunk_append_file_ok:
  assumes "out_wf con" "0 \<le> st_size" "st_size < 2 ^ 63"
  shows "\<exists>con'. http_chunk_append_file con fn (Some (fd, st_size)) = Some (0, con')
           \<and> out_octets con' = out_octets con
               @ (if st_size = 0 then [] else frame (o_chunked con) (file_piece fn 0 st_size))"
proof (cases "st_size = 0")
  case True
  then show ?thesis by (simp add: http_chunk_append_file_def close_unused_def out_octets_def cq_octets_def)
next
  case False
  have "st_size < 2 ^ 64" using assms(3) by simp
  then show ?thesis using False file_fd_range_ok [OF assms(1,2), of fn fd 0]
    by (auto simp: http_chunk_append_file_def)
qed

lemma http_chunk_close_ok:
  assumes "out_wf con"
  shows "\<exists>con'. http_chunk_close con = Some con' \<and> out_wf con'
           \<and> out_octets con' = out_octets con
               @ (if o_chunked con then map MemByte (''0'' @ CRLF @ CRLF) else [])"
proof -
  have "fits (length (''0'' @ CRLF @ CRLF))" using fits_mono [OF fits_18] by simp
  then show ?thesis using append_mem_ok [of "o_queue con" "''0'' @ CRLF @ CRLF"] assms
    by (auto simp: http_chunk_close_def out_wf_def out_octets_def)
qed

section \<open>A receiver\<close>

text \<open>
  A decoder of the chunked coding (without extensions and trailers), as the specification of
  what the sender has to produce: it returns the body and what follows the last chunk.
\<close>

fun chunk_size_line :: "nat option \<Rightarrow> octet list \<Rightarrow> (nat \<times> octet list) option" where
  "chunk_size_line n (MemByte c # xs) =
     (if hex2int c < 16 then chunk_size_line (Some (16 * (case n of None \<Rightarrow> 0 | Some k \<Rightarrow> k) + hex2int c)) xs
      else if c = CHR 0x0D \<and> xs \<noteq> [] \<and> hd xs = MemByte (CHR 0x0A)
      then map_option (\<lambda>k. (k, drop 1 xs)) n else None)"
| "chunk_size_line n _ = None"

lemma chunk_size_line_shorter: "chunk_size_line n xs = Some (k, ys) \<Longrightarrow> length ys < length xs"
  by (induction n xs rule: chunk_size_line.induct) (fastforce split: if_splits)+

function dechunk :: "octet list \<Rightarrow> (octet list \<times> octet list) option" where
  "dechunk xs =
     (case chunk_size_line None xs of
        None \<Rightarrow> None
      | Some (n, ys) \<Rightarrow>
          if take 2 (drop n ys) \<noteq> map MemByte CRLF then None
          else if n = 0 then Some ([], drop 2 ys)
          else map_option (\<lambda>(body, rest). (take n ys @ body, rest)) (dechunk (drop (n + 2) ys)))"
  by pat_completeness auto
termination
  by (relation "measure length") (auto dest!: chunk_size_line_shorter)

declare dechunk.simps [simp del]

lemma chunk_size_line_digits:
  assumes "\<And>c. c \<in> set s \<Longrightarrow> hex2int c < 16"
  shows "chunk_size_line (Some k) (map MemByte (s @ CRLF) @ xs)
           = Some (foldl (\<lambda>a c. 16 * a + hex2int c) k s, xs)"
  using assms by (induction s arbitrary: k) (simp_all add: hex2int_value)

lemma chunk_size_line_ok:
  "n < 2 ^ 64 \<Longrightarrow> chunk_size_line None (map MemByte (hex_string n @ CRLF) @ xs) = Some (n, xs)"
proof -
  assume "n < 2 ^ 64"
  from hex_string_length [OF this] obtain c s where cs: "hex_string n = c # s" by (cases "hex_string n") auto
  have d: "hex2int x < 16" if "x \<in> set (c # s)" for x using that hex_string_digits [of x n] cs by simp
  have "hex_value (c # s) = n" using hex_value_string [of n] cs by simp
  then show ?thesis
    using chunk_size_line_digits [of s "hex2int c" xs] d unfolding cs by (simp add: hex_value_def)
qed

lemma dechunk_frame:
  assumes "s \<noteq> []" "length s < 2 ^ 64"
  shows "dechunk (frame True s @ xs) = map_option (\<lambda>(body, rest). (s @ body, rest)) (dechunk xs)"
proof -
  have "frame True s @ xs = map MemByte (hex_string (length s) @ CRLF) @ (s @ map MemByte CRLF @ xs)"
    by (simp add: frame_def)
  then have "chunk_size_line None (frame True s @ xs) = Some (length s, s @ map MemByte CRLF @ xs)"
    using chunk_size_line_ok [OF assms(2)] by metis
  then show ?thesis using assms(1) by (subst dechunk.simps) simp
qed

lemma dechunk_last: "dechunk (map MemByte (''0'' @ CRLF @ CRLF) @ xs) = Some ([], xs)"
  by (subst dechunk.simps) (simp add: hex2int_value numeral_2_eq_2)

lemma dechunk_frames:
  "(\<And>s. s \<in> set ss \<Longrightarrow> s \<noteq> [] \<and> length s < 2 ^ 64) \<Longrightarrow>
   dechunk (concat (map (frame True) ss) @ map MemByte (''0'' @ CRLF @ CRLF) @ xs) = Some (concat ss, xs)"
proof (induction ss)
  case Nil
  show ?case using dechunk_last [of xs] by (simp del: map_append)
next
  case (Cons s ss)
  then show ?case using dechunk_frame [of s "concat (map (frame True) ss) @ map MemByte (''0'' @ CRLF @ CRLF) @ xs"]
    by (simp del: map_append)
qed

text \<open>A response body, one call per piece, then the close.\<close>

fun send_all :: "os_env \<Rightarrow> out \<Rightarrow> string list \<Rightarrow> out option" where
  "send_all e con [] = http_chunk_close con"
| "send_all e con (s # ss) =
     (case http_chunk_append_mem e con s of
        Some (_, con', e') \<Rightarrow> send_all e' con' ss
      | None \<Rightarrow> None)"

text \<open>Queues that hold no file, so that no piece goes to a temporary file while they are short.\<close>

definition mem_only :: "out \<Rightarrow> bool" where
  "mem_only con \<longleftrightarrow> (\<forall>c\<in>set (cq_chunks (o_queue con)). c_type c = MEM_CHUNK)"

lemma get_unused_chunks [simp]: "cq_chunks (snd (chunkqueue_get_unused_chunk cq)) = cq_chunks cq"
  by (simp add: chunkqueue_get_unused_chunk_def split: list.split)

lemma mem_only_append_mem:
  "chunkqueue_append_mem (o_queue con) s = Some cq \<Longrightarrow> mem_only con \<Longrightarrow> mem_only (con\<lparr>o_queue := cq\<rparr>)"
  by (auto simp: chunkqueue_append_mem_def chunkqueue_append_chunk_def case_prod_beta mem_only_def
      split: if_splits bind_splits)

lemma mem_only_append_len:
  "http_chunk_append_len con n = Some con' \<Longrightarrow> mem_only con \<Longrightarrow> mem_only con'"
  by (auto simp: http_chunk_append_len_def chunkqueue_append_buffer_def chunkqueue_append_chunk_def
      case_prod_beta mem_only_def split: if_splits bind_splits)

lemma mem_only_append:
  assumes "http_chunk_append_mem e con s = Some (rc, con', e')" "mem_only con" "\<not> to_tempfile con (length s)"
  shows "mem_only con'"
proof (cases "s = []")
  case True
  then show ?thesis using assms by (simp add: http_chunk_append_mem_def)
next
  case False
  let ?len = "if o_chunked con then http_chunk_append_len con (length s) else Some con"
  obtain c1 cq where c: "?len = Some c1" "chunkqueue_append_mem (o_queue c1) s = Some cq"
      "(if o_chunked c1 then append_crlf (c1\<lparr>o_queue := cq\<rparr>) else Some (c1\<lparr>o_queue := cq\<rparr>)) = Some con'"
    using assms(1,3) False by (auto simp: http_chunk_append_mem_def Let_def split: bind_splits)
  have "mem_only c1" using c(1) assms(2) mem_only_append_len by (auto split: if_splits)
  then have "mem_only (c1\<lparr>o_queue := cq\<rparr>)" using mem_only_append_mem c(2) by blast
  then show ?thesis using c(3) mem_only_append_mem [of "c1\<lparr>o_queue := cq\<rparr>"]
    by (auto simp: append_crlf_def split: if_splits bind_splits)
qed

lemma mem_only_short:
  assumes "out_wf con" "mem_only con" "length (out_octets con) + n \<le> 65536"
  shows "\<not> to_tempfile con n"
proof -
  have d: "cq_bytes_in (o_queue con) - cq_bytes_out (o_queue con) + int n = int (length (out_octets con) + n)"
    using assms(1) by (simp add: out_wf_def cq_wf_def out_octets_def)
  have "int (length (out_octets con) + n) mod 2 ^ 64 = int (length (out_octets con) + n)"
    using assms(3) by (intro mod_pos_pos_trivial) simp_all
  moreover have "c_type (last (cq_chunks (o_queue con))) = MEM_CHUNK" if "cq_chunks (o_queue con) \<noteq> []"
    using assms(2) last_in_set [OF that] by (simp add: mem_only_def)
  ultimately show ?thesis using assms(3) unfolding to_tempfile_def Let_def d by auto
qed

lemma frame_length: "length s < 2 ^ 64 \<Longrightarrow> length (frame True s) \<le> length s + 20"
  using hex_string_length [of "length s"] by (simp add: frame_def)

lemma send_all_ok:
  assumes "out_wf con" "mem_only con" "o_chunked con" "\<And>s. s \<in> set ss \<Longrightarrow> s \<noteq> []"
    "length (out_octets con) + (\<Sum>s\<leftarrow>ss. length s + 20) \<le> 65536"
  shows "\<exists>con'. send_all e con ss = Some con' \<and> out_wf con' \<and> out_octets con' = out_octets con
           @ concat (map (frame True) (map (map MemByte) ss)) @ map MemByte (''0'' @ CRLF @ CRLF)"
  using assms
proof (induction ss arbitrary: con)
  case Nil
  then show ?case using http_chunk_close_ok [of con] by simp
next
  case (Cons s ss)
  have short: "\<not> to_tempfile con (length s)" "fits (length s)" "length s < 2 ^ 64"
    using mem_only_short [OF Cons.prems(1,2), of "length s"] Cons.prems(5) by (simp_all add: fits_def PTRDIFF_MAX_def)
  obtain con1 where c1: "http_chunk_append_mem e con s = Some (0, con1, e)" "out_wf con1"
      "out_octets con1 = out_octets con @ frame True (map MemByte s)" "o_chunked con1"
    using http_chunk_append_mem_ok [OF Cons.prems(1) _ short(1,2), of e] Cons.prems(3,4) by auto
  have "length (out_octets con1) + (\<Sum>s\<leftarrow>ss. length s + 20) \<le> 65536"
    using frame_length [of "map MemByte s"] c1(3) short(3) Cons.prems(5) by simp
  then obtain con' where "send_all e con1 ss = Some con'" "out_wf con'" "out_octets con' = out_octets con1
        @ concat (map (frame True) (map (map MemByte) ss)) @ map MemByte (''0'' @ CRLF @ CRLF)"
    using Cons.IH [OF c1(2) mem_only_append [OF c1(1) Cons.prems(2) short(1)] c1(4)] Cons.prems(4) by auto
  then show ?case using c1(1,3) by auto
qed

lemma send_all_dechunk:
  assumes "out_wf con" "mem_only con" "o_chunked con" "\<And>s. s \<in> set ss \<Longrightarrow> s \<noteq> []"
    "length (out_octets con) + (\<Sum>s\<leftarrow>ss. length s + 20) \<le> 65536"
  shows "\<exists>con'. send_all e con ss = Some con' \<and> take (length (out_octets con)) (out_octets con') = out_octets con
           \<and> dechunk (drop (length (out_octets con)) (out_octets con')) = Some (map MemByte (concat ss), [])"
proof -
  have "length s < 2 ^ 64" if "s \<in> set ss" for s
  proof -
    have "length s + 20 \<le> (\<Sum>s\<leftarrow>ss. length s + 20)" using that by (intro member_le_sum_list) auto
    then show ?thesis using assms(5) by simp
  qed
  then have "dechunk (concat (map (frame True) (map (map MemByte) ss)) @ map MemByte (''0'' @ CRLF @ CRLF) @ [])
      = Some (concat (map (map MemByte) ss), [])"
    using assms(4) by (intro dechunk_frames) auto
  then show ?thesis using send_all_ok [OF assms, of e] by (auto simp: map_concat)
qed

text \<open>Empty pieces are not framed: they would end the body.\<close>

lemma send_all_nonempty: "send_all e con ss = send_all e con (filter (\<lambda>s. s \<noteq> []) ss)"
proof (induction ss arbitrary: e con)
  case (Cons s ss)
  show ?case
  proof (cases "s = []")
    case True
    then show ?thesis using Cons [of e con] by (simp add: http_chunk_append_mem_def)
  next
    case False
    then show ?thesis using Cons by (simp split: option.split)
  qed
qed simp

lemma send_all_dechunk_all:
  assumes "out_wf con" "mem_only con" "o_chunked con" "length (out_octets con) + (\<Sum>s\<leftarrow>ss. length s + 20) \<le> 65536"
  shows "\<exists>con'. send_all e con ss = Some con' \<and> take (length (out_octets con)) (out_octets con') = out_octets con
           \<and> dechunk (drop (length (out_octets con)) (out_octets con')) = Some (map MemByte (concat ss), [])"
proof -
  let ?ss = "filter (\<lambda>s. s \<noteq> []) ss"
  have "(\<Sum>s\<leftarrow>?ss. length s + 20) \<le> (\<Sum>s\<leftarrow>ss. length s + 20)" by (induction ss) auto
  then have n: "length (out_octets con) + (\<Sum>s\<leftarrow>?ss. length s + 20) \<le> 65536" using assms(4) by simp
  have "concat ?ss = concat ss" by (induction ss) auto
  moreover have "\<And>s. s \<in> set ?ss \<Longrightarrow> s \<noteq> []" by simp
  ultimately show ?thesis using send_all_dechunk [OF assms(1-3) _ n, of e] unfolding send_all_nonempty [of e con ss] by metis
qed

text \<open>
  A file range of length 0 does reach the queue under chunked coding: its frame is that of the
  last chunk, so the receiver takes the body to be over.
\<close>

lemma empty_range_ends_body:
  assumes "out_wf con" "o_chunked con" "0 \<le> offset" "offset \<le> st_size"
  shows "\<exists>con'. http_chunk_append_file_range con fn offset 0 (Some (fd, st_size)) = Some (0, con')
           \<and> out_octets con' = out_octets con @ map MemByte (hex_string 0 @ CRLF @ CRLF)
           \<and> dechunk (map MemByte (hex_string 0 @ CRLF @ CRLF) @ xs) = Some ([], xs)"
proof -
  obtain con' where "http_chunk_append_file_fd_range con fn fd offset 0 = Some con'"
      "out_octets con' = out_octets con @ frame True (file_piece fn offset 0)"
    using file_fd_range_ok [OF assms(1), of 0 fn fd offset] assms(2) by auto
  moreover have "dechunk (map MemByte (hex_string 0 @ CRLF) @ map MemByte CRLF @ xs) = Some ([], xs)"
    using chunk_size_line_ok [of 0 "map MemByte CRLF @ xs"] by (subst dechunk.simps) simp
  ultimately show ?thesis using assms(4)
    by (simp add: http_chunk_append_file_range_def frame_def file_piece_def)
qed

section \<open>Properties\<close>

text \<open>
  C29. A response body sent piece by piece from memory under chunked coding and then closed is, on the
  write queue, a message that a decoder of the coding reads back as the concatenation of the
  pieces, to its very end; pieces may be empty (\<open>http_chunk_append_mem\<close> drops them, where a frame of
  length 0 would end the body early).  The queue holds nothing but memory before, and with 20 octets for
  the frame of each piece the body is at most 65536 octets, so that it stays in memory.
\<close>

theorem chunked_body_round_trip:
  assumes "out_wf con" "mem_only con" "o_chunked con" "length (out_octets con) + (\<Sum>s\<leftarrow>ss. length s + 20) \<le> 65536"
  shows "\<exists>con'. send_all e con ss = Some con' \<and> take (length (out_octets con)) (out_octets con') = out_octets con
           \<and> dechunk (drop (length (out_octets con)) (out_octets con')) = Some (map MemByte (concat ss), [])"
  using assms by (rule send_all_dechunk_all)

definition out_init :: "bool \<Rightarrow> out" where
  "out_init chunked = \<lparr>o_queue = chunkqueue_init (None, 0), o_tmp = buffer_init, o_chunked = chunked, o_bufmin = False\<rparr>"

lemma out_init_ok:
  "out_wf (out_init c)" "mem_only (out_init c)" "o_chunked (out_init c) = c" "out_octets (out_init c) = []"
  by (simp_all add: out_init_def out_wf_def init_ok mem_only_def out_octets_def) (simp add: chunkqueue_init_def)

theorem chunked_body_round_trip_witness:
  "\<exists>con'. send_all full_disk (out_init True) [''<html>'', [], ''</html>''] = Some con'
     \<and> dechunk (out_octets con') = Some (map MemByte ''<html></html>'', [])"
  using chunked_body_round_trip [of "out_init True" "[''<html>'', [], ''</html>'']" full_disk]
  by (auto simp: out_init_ok)

text \<open>
  A range of length 0 of a file, which the interface accepts, is framed like any other
  piece under chunked coding, and its frame is the last chunk: the receiver takes the body to
  have ended there.
\<close>

theorem empty_file_range_ends_body:
  assumes "out_wf con" "o_chunked con" "0 \<le> offset" "offset \<le> st_size"
  shows "\<exists>con'. http_chunk_append_file_range con fn offset 0 (Some (fd, st_size)) = Some (0, con')
           \<and> out_octets con' = out_octets con @ map MemByte (hex_string 0 @ CRLF @ CRLF)
           \<and> dechunk (map MemByte (hex_string 0 @ CRLF @ CRLF) @ xs) = Some ([], xs)"
  using assms by (rule empty_range_ends_body)

theorem empty_file_range_ends_body_witness:
  "\<exists>con'. http_chunk_append_file_range (out_init True) None 5 0 (Some (7, 5)) = Some (0, con')
     \<and> out_octets con' = map MemByte (hex_string 0 @ CRLF @ CRLF)"
  using empty_file_range_ends_body [of "out_init True" 5 5 None 7 "[]"] by (auto simp: out_init_ok)

text \<open>
  Appending a file range checks it against the size of the file: a range that does not
  fit is refused and the descriptor closed, a length of \<open>-1\<close> means the rest of the file, and
  otherwise exactly the requested octets are queued (framed under chunked coding).
\<close>

theorem file_range_checked:
  assumes "out_wf con" "0 \<le> offset" "st_size < 2 ^ 63" "len = -1 \<or> 0 < len"
  shows "\<exists>rc con'. http_chunk_append_file_range con fn offset len (Some (fd, st_size)) = Some (rc, con')
           \<and> (let want = (if len = -1 then st_size - offset else len)
              in if 0 < want \<and> offset + want \<le> st_size
                 then rc = 0 \<and> out_octets con' = out_octets con @ frame (o_chunked con) (file_piece fn offset want)
                 else out_octets con' = out_octets con
                      \<and> cq_trace (o_queue con') = cq_trace (o_queue con) @ [Close fd]
                      \<and> rc = (if len = -1 \<and> offset = st_size then 0 else -1))"
proof (cases "0 < (if len = -1 then st_size - offset else len) \<and>
    offset + (if len = -1 then st_size - offset else len) \<le> st_size")
  case True
  then have "offset < st_size" "len = -1 \<or> 0 \<le> len \<and> len \<le> st_size - offset" using assms(4) by (auto split: if_splits)
  then show ?thesis using http_chunk_append_file_range_ok [OF assms(1,2) _ _ assms(3), of len fn fd] True
    by (auto simp: Let_def)
next
  case False
  then show ?thesis using assms(4)
    by (auto simp: http_chunk_append_file_range_def close_unused_def out_octets_def cq_octets_def Let_def split: if_splits)
qed

theorem file_range_checked_witness:
  "\<exists>rc con'. http_chunk_append_file_range (out_init False) (Some ''f'') 2 3 (Some (7, 10)) = Some (rc, con')
     \<and> rc = 0 \<and> out_octets con' = file_piece (Some ''f'') 2 3"
  using file_range_checked [of "out_init False" 2 10 3 "Some ''f''" 7] by (auto simp: out_init_ok frame_def)

end
