(* ===== verification/Base64.thy ===== *)
theory Base64
  imports Format
begin

text \<open>
  Base64, \<open>src/src/base64.c\<close>: the two alphabets with their reverse tables, the decoder that
  appends to a buffer while it reads digits one at a time, and the encoder that works on groups
  of three bytes.  The specification works on lists of digits (numbers below 64) and octets.
\<close>

datatype base64_charset = BASE64_STANDARD | BASE64_URL

definition base64_standard_table :: string where
  "base64_standard_table = ''ABCDEFGHIJKLMNOPQRSTUVWXYZabcdefghijklmnopqrstuvwxyz0123456789+/=''"

definition base64_url_table :: string where
  "base64_url_table = ''ABCDEFGHIJKLMNOPQRSTUVWXYZabcdefghijklmnopqrstuvwxyz0123456789-_.''"

definition base64_standard_reverse_table :: "int list" where
  "base64_standard_reverse_table =
    [-1, -2, -2, -2, -2, -2, -2, -2, -2, -2, -2, -2, -2, -2, -2, -2,
     -2, -2, -2, -2, -2, -2, -2, -2, -2, -2, -2, -2, -2, -2, -2, -2,
     -2, -1, -1, -1, -1, -1, -1, -1, -1, -1, -1, 62, -1, -1, -1, 63,
     52, 53, 54, 55, 56, 57, 58, 59, 60, 61, -1, -1, -1, -3, -1, -1,
     -1,  0,  1,  2,  3,  4,  5,  6,  7,  8,  9, 10, 11, 12, 13, 14,
     15, 16, 17, 18, 19, 20, 21, 22, 23, 24, 25, -1, -1, -1, -1, -1,
     -1, 26, 27, 28, 29, 30, 31, 32, 33, 34, 35, 36, 37, 38, 39, 40,
     41, 42, 43, 44, 45, 46, 47, 48, 49, 50, 51, -1, -1, -1, -1, -1]"

definition base64_url_reverse_table :: "int list" where
  "base64_url_reverse_table =
    [-1, -2, -2, -2, -2, -2, -2, -2, -2, -2, -2, -2, -2, -2, -2, -2,
     -2, -2, -2, -2, -2, -2, -2, -2, -2, -2, -2, -2, -2, -2, -2, -2,
     -2, -1, -1, -1, -1, -1, -1, -1, -1, -1, -1, -1, -1, 62, -3, -1,
     52, 53, 54, 55, 56, 57, 58, 59, 60, 61, -1, -1, -1, -1, -1, -1,
     -1,  0,  1,  2,  3,  4,  5,  6,  7,  8,  9, 10, 11, 12, 13, 14,
     15, 16, 17, 18, 19, 20, 21, 22, 23, 24, 25, -1, -1, -1, -1, 63,
     -1, 26, 27, 28, 29, 30, 31, 32, 33, 34, 35, 36, 37, 38, 39, 40,
     41, 42, 43, 44, 45, 46, 47, 48, 49, 50, 51, -1, -1, -1, -1, -1]"

fun base64_table :: "base64_charset \<Rightarrow> string" where
  "base64_table BASE64_STANDARD = base64_standard_table"
| "base64_table BASE64_URL = base64_url_table"

fun base64_reverse_table :: "base64_charset \<Rightarrow> int list" where
  "base64_reverse_table BASE64_STANDARD = base64_standard_reverse_table"
| "base64_reverse_table BASE64_URL = base64_url_reverse_table"

section \<open>Decoding\<close>

text \<open>
  One digit: \<open>result\<close> starts at the cell \<open>base\<close>.  The \<open>|=\<close> reads the cell the previous digit
  of the group has set, so it must not be indeterminate.  A shift to the left keeps the low
  eight bits.
\<close>

definition or_poke :: "cells \<Rightarrow> nat \<Rightarrow> nat \<Rightarrow> cells option" where
  "or_poke m i v = do { c \<leftarrow> peek m i; poke m i (char_of (or (ucode c) v)) }"

definition decode_digit :: "cells \<Rightarrow> nat \<Rightarrow> nat \<Rightarrow> nat \<Rightarrow> nat \<Rightarrow> (cells \<times> nat \<times> nat) option" where
  "decode_digit m base out_pos grp ch =
     (if grp = 0 then do {
        m \<leftarrow> poke m (base + out_pos) (char_of (4 * ch));
        Some (m, out_pos, 1)
      }
      else if grp = 1 then do {
        m \<leftarrow> or_poke m (base + out_pos) (ch div 16);
        m \<leftarrow> poke m (base + out_pos + 1) (char_of (16 * (ch mod 16)));
        Some (m, out_pos + 1, 2)
      }
      else if grp = 2 then do {
        m \<leftarrow> or_poke m (base + out_pos) (ch div 4);
        m \<leftarrow> poke m (base + out_pos + 1) (char_of (64 * (ch mod 4)));
        Some (m, out_pos + 1, 3)
      }
      else do {
        m \<leftarrow> or_poke m (base + out_pos) ch;
        Some (m, out_pos + 1, 0)
      })"

text \<open>
  The loop over the input.  The inner \<open>None\<close> of the result is \<open>return NULL\<close>; the memory has
  been written to in that case too.
\<close>

fun decode_loop :: "base64_charset \<Rightarrow> cells \<Rightarrow> nat \<Rightarrow> nat \<Rightarrow> nat \<Rightarrow> string
    \<Rightarrow> (cells \<times> (nat \<times> nat) option) option" where
  "decode_loop cs m base out_pos grp [] = Some (m, Some (out_pos, grp))"
| "decode_loop cs m base out_pos grp (c # s) =
     (if c = NUL then Some (m, Some (out_pos, grp))
      else if 128 \<le> ucode c then Some (m, None)
      else let ch = base64_reverse_table cs ! ucode c
           in if ch = -3 then (if grp < 2 then Some (m, None) else Some (m, Some (out_pos, grp)))
              else if ch = -2 then decode_loop cs m base out_pos grp s
              else if ch < 0 then Some (m, None)
              else (case decode_digit m base out_pos grp (nat ch) of
                      None \<Rightarrow> None
                    | Some (m, out_pos, grp) \<Rightarrow> decode_loop cs m base out_pos grp s))"

text \<open>The result is the buffer and the position of what was appended, or \<open>None\<close> for \<open>NULL\<close>.\<close>

definition buffer_append_base64_decode :: "buffer \<Rightarrow> string \<Rightarrow> base64_charset \<Rightarrow> (buffer \<times> nat option) option" where
  "buffer_append_base64_decode out s cs = do {
     (out, base) \<leftarrow> buffer_string_prepare_append out (3 * (length s div 4) + 3);
     (m, r) \<leftarrow> decode_loop cs (b_ptr out) base 0 0 s;
     let out = out\<lparr>b_ptr := m\<rparr>;
     case r of
       None \<Rightarrow> Some (out, None)
     | Some (out_pos, grp) \<Rightarrow>
         if grp = 1 then Some (out, None)
         else do {
           bad \<leftarrow> (if grp = 0 then Some False
                   else do { c \<leftarrow> peek m (base + out_pos); Some (c \<noteq> NUL) });
           if bad then Some (out, None)
           else do {
             out \<leftarrow> buffer_commit out out_pos;
             Some (out, Some base)
           }
         }
   }"

section \<open>Encoding\<close>

definition b64_char :: "base64_charset \<Rightarrow> nat \<Rightarrow> char" where
  "b64_char cs v = base64_table cs ! (v mod 64)"

text \<open>\<open>i\<close> is the index of the last byte of the group; the result holds its final value.\<close>

function encode_loop :: "base64_charset \<Rightarrow> cells \<Rightarrow> nat \<Rightarrow> string \<Rightarrow> nat \<Rightarrow> (cells \<times> nat \<times> nat) option" where
  "encode_loop cs m out_pos s i =
     (if i < length s then
        (let v = 65536 * ucode (s ! (i - 2)) + 256 * ucode (s ! (i - 1)) + ucode (s ! i)
         in case write_at m out_pos
                   [b64_char cs (v div 262144), b64_char cs (v div 4096), b64_char cs (v div 64), b64_char cs v] of
              None \<Rightarrow> None
            | Some m \<Rightarrow> encode_loop cs m (out_pos + 4) s (i + 3))
      else Some (m, out_pos, i))"
  by pat_completeness auto
termination
  by (relation "measure (\<lambda>(cs, m, out_pos, s, i). length s - i)") auto

declare encode_loop.simps [simp del]

text \<open>The one or two bytes after the last full group.\<close>

definition encode_tail :: "base64_charset \<Rightarrow> cells \<Rightarrow> nat \<Rightarrow> string \<Rightarrow> nat \<Rightarrow> (cells \<times> nat) option" where
  "encode_tail cs m out_pos s i =
     (if length s mod 3 = 0 then Some (m, out_pos)
      else if length s mod 3 = 1 then do {
        let v = 16 * ucode (s ! (i - 2));
        m \<leftarrow> write_at m out_pos [b64_char cs (v div 64), b64_char cs v];
        Some (m, out_pos + 2)
      }
      else do {
        let v = 1024 * ucode (s ! (i - 2)) + 4 * ucode (s ! (i - 1));
        m \<leftarrow> write_at m out_pos [b64_char cs (v div 4096), b64_char cs (v div 64), b64_char cs v];
        Some (m, out_pos + 3)
      })"

text \<open>\<open>out\<close> is the cell \<open>base\<close> of the memory \<open>m\<close>; the result holds the new value of \<open>out_pos\<close>.\<close>

definition li_to_base64_no_padding :: "cells \<Rightarrow> nat \<Rightarrow> nat \<Rightarrow> string \<Rightarrow> base64_charset \<Rightarrow> (cells \<times> nat) option" where
  "li_to_base64_no_padding m base out_length s cs = do {
     let full_tuples = length s div 3;
     let in_tuple_remainder = length s mod 3;
     let out_tuple_remainder = (if in_tuple_remainder \<noteq> 0 then 1 + in_tuple_remainder else 0);
     let require_space = sz_add (4 * full_tuples) out_tuple_remainder;
     force_assert (full_tuples \<le> (2 * full_tuples) mod SIZE_MOD);
     force_assert (full_tuples \<le> (4 * full_tuples) mod SIZE_MOD);
     force_assert ((4 * full_tuples) mod SIZE_MOD \<le> require_space);
     force_assert (require_space \<le> out_length);
     (m, out_pos, i) \<leftarrow> encode_loop cs m base s 2;
     (m, out_pos) \<leftarrow> encode_tail cs m out_pos s i;
     force_assert (out_pos - base \<le> out_length);
     Some (m, out_pos - base)
   }"

definition li_to_base64 :: "cells \<Rightarrow> nat \<Rightarrow> nat \<Rightarrow> string \<Rightarrow> base64_charset \<Rightarrow> (cells \<times> nat) option" where
  "li_to_base64 m base out_length s cs = do {
     let padding_length = (if length s mod 3 \<noteq> 0 then 3 - length s mod 3 else 0);
     let padding = base64_table cs ! 64;
     force_assert (padding_length \<le> out_length);
     (m, out_pos) \<leftarrow> li_to_base64_no_padding m base (out_length - padding_length) s cs;
     m \<leftarrow> write_at m (base + out_pos) (replicate padding_length padding);
     force_assert (out_pos + padding_length \<le> out_length);
     Some (m, out_pos + padding_length)
   }"

definition buffer_append_base64_encode_no_padding :: "buffer \<Rightarrow> string \<Rightarrow> base64_charset \<Rightarrow> (buffer \<times> nat) option" where
  "buffer_append_base64_encode_no_padding out s cs = do {
     let reserve = 4 * (length s div 3) + 4;
     (out, result) \<leftarrow> buffer_string_prepare_append out reserve;
     (m, out_pos) \<leftarrow> li_to_base64_no_padding (b_ptr out) result reserve s cs;
     out \<leftarrow> buffer_commit (out\<lparr>b_ptr := m\<rparr>) out_pos;
     Some (out, result)
   }"

definition buffer_append_base64_encode :: "buffer \<Rightarrow> string \<Rightarrow> base64_charset \<Rightarrow> (buffer \<times> nat) option" where
  "buffer_append_base64_encode out s cs = do {
     let reserve = 4 * (length s div 3) + 4;
     (out, result) \<leftarrow> buffer_string_prepare_append out reserve;
     (m, out_pos) \<leftarrow> li_to_base64 (b_ptr out) result reserve s cs;
     out \<leftarrow> buffer_commit (out\<lparr>b_ptr := m\<rparr>) out_pos;
     Some (out, result)
   }"

section \<open>Specification\<close>

fun octets_of_digits :: "nat list \<Rightarrow> nat list option" where
  "octets_of_digits (a # b # c # d # r) =
     map_option ((@) [4 * a + b div 16, 16 * (b mod 16) + c div 4, 64 * (c mod 4) + d]) (octets_of_digits r)"
| "octets_of_digits [a, b, c] = (if c mod 4 = 0 then Some [4 * a + b div 16, 16 * (b mod 16) + c div 4] else None)"
| "octets_of_digits [a, b] = (if b mod 16 = 0 then Some [4 * a + b div 16] else None)"
| "octets_of_digits [a] = None"
| "octets_of_digits [] = Some []"

fun digits_of_octets :: "nat list \<Rightarrow> nat list" where
  "digits_of_octets (x # y # z # r) =
     [x div 4, 16 * (x mod 4) + y div 16, 4 * (y mod 16) + z div 64, z mod 64] @ digits_of_octets r"
| "digits_of_octets [x, y] = [x div 4, 16 * (x mod 4) + y div 16, 4 * (y mod 16)]"
| "digits_of_octets [x] = [x div 4, 16 * (x mod 4)]"
| "digits_of_octets [] = []"

lemma octets_of_digits_of_octets:
  "\<forall>x\<in>set bs. x < 256 \<Longrightarrow> octets_of_digits (digits_of_octets bs) = Some bs"
  by (induction bs rule: digits_of_octets.induct) (auto simp: less_mult_imp_div_less div_add1_eq mod_simps)

text \<open>The digits of an input: control characters and blanks are skipped, a pad character
  ends the input if the group has two digits.\<close>

fun scan_digits :: "base64_charset \<Rightarrow> nat \<Rightarrow> string \<Rightarrow> nat list option" where
  "scan_digits cs n [] = Some []"
| "scan_digits cs n (c # s) =
     (if c = NUL then Some []
      else if 128 \<le> ucode c then None
      else let ch = base64_reverse_table cs ! ucode c
           in if ch = -3 then (if n mod 4 < 2 then None else Some [])
              else if ch = -2 then scan_digits cs n s
              else if ch < 0 then None
              else map_option ((#) (nat ch)) (scan_digits cs (n + 1) s))"

definition base64_decode :: "base64_charset \<Rightarrow> string \<Rightarrow> string option" where
  "base64_decode cs s = map_option (map char_of) (Option.bind (scan_digits cs 0 s) octets_of_digits)"

definition base64_encode :: "base64_charset \<Rightarrow> string \<Rightarrow> string" where
  "base64_encode cs s = map (\<lambda>d. base64_table cs ! d) (digits_of_octets (map ucode s))"

definition base64_padding :: "base64_charset \<Rightarrow> string \<Rightarrow> string" where
  "base64_padding cs s = replicate (if length s mod 3 \<noteq> 0 then 3 - length s mod 3 else 0) (base64_table cs ! 64)"

section \<open>The decoder meets the specification\<close>

lemma reverse_table_range:
  assumes "ucode c < 128"
  shows "nat (base64_reverse_table cs ! ucode c) < 64"
proof -
  have "list_all (\<lambda>v. nat v < 64) (base64_reverse_table cs)" "length (base64_reverse_table cs) = 128"
    by (cases cs; simp add: base64_standard_reverse_table_def base64_url_reverse_table_def)+
  then show ?thesis using assms by (simp add: list_all_length)
qed

lemma or_low_bits:
  assumes "p mod 2 ^ k = 0" "v < 2 ^ k"
  shows "or p v = p + (v::nat)"
proof -
  obtain q where "p = push_bit k q" using assms(1) by (auto simp: push_bit_eq_mult mult.commute)
  moreover have "v = take_bit k v" using assms(2) by (simp add: take_bit_nat_eq_self)
  ultimately have "and p v = 0" by (intro bit_eqI) (metis bit_and_iff bit_push_bit_iff bit_take_bit_iff bit_0_eq bot_apply bot_bool_def leD)
  then show ?thesis by (simp add: disjunctive_add_eq_or)
qed

text \<open>The open group: \<open>g\<close> digits have been read and the octet at hand is \<open>p\<close> so far.\<close>

fun group_run :: "nat \<Rightarrow> nat \<Rightarrow> nat list \<Rightarrow> nat list option" where
  "group_run g p [] = (if g = 0 then Some [] else if g = 1 then None else if p = 0 then Some [] else None)"
| "group_run g p (d # ds) =
     (if g = 0 then group_run 1 (4 * d) ds
      else if g = 1 then map_option (Cons (p + d div 16)) (group_run 2 (16 * (d mod 16)) ds)
      else if g = 2 then map_option (Cons (p + d div 4)) (group_run 3 (64 * (d mod 4)) ds)
      else map_option (Cons (p + d)) (group_run 0 0 ds))"

lemma append_fun: "(@) (x # xs) = (\<lambda>ys. x # xs @ ys)" "(@) [] = (\<lambda>ys. ys)"
  by (simp_all add: fun_eq_iff)

lemma octets_group_run: "octets_of_digits ds = group_run 0 0 ds"
  by (induction ds rule: octets_of_digits.induct) (auto simp: option.map_comp comp_def append_fun)

definition group_cur :: "nat \<Rightarrow> nat \<Rightarrow> cells" where
  "group_cur g p = (if g = 0 then [] else [Some (char_of p)])"

definition group_ok :: "nat \<Rightarrow> nat \<Rightarrow> bool" where
  "group_ok g p \<longleftrightarrow> g < 4 \<and> p < 256 \<and> p mod 4 ^ g = 0"

lemma group_step:
  assumes "group_ok g p" "d < 64" "length pre = base + out"
    "length (group_cur g p) + length rest \<ge> (if g = 1 \<or> g = 2 then 2 else 1)"
  shows "\<exists>bs g' p' rest'. decode_digit (pre @ group_cur g p @ rest) base out g d
           = Some (pre @ map (Some \<circ> char_of) bs @ group_cur g' p' @ rest', out + length bs, g')
         \<and> group_ok g' p' \<and> g' = (g + 1) mod 4
         \<and> (\<forall>ds. group_run g p (d # ds) = map_option ((@) bs) (group_run g' p' ds))
         \<and> length bs + length (group_cur g' p') + length rest' = length (group_cur g p) + length rest
         \<and> length bs = (if g = 0 then 0 else 1)"
proof -
  have Cons: "map_option ((@) []) = (\<lambda>x. x)" "(@) [b] = Cons b" for b :: nat
    by (auto simp: append_fun option.map_ident)
  consider "g = 0" | "g = 1" | "g = 2" | "g = 3" using assms(1) by (force simp: group_ok_def)
  then show ?thesis
  proof cases
    case 1
    then obtain x r where "rest = x # r" using assms(4) by (cases rest) (auto simp: group_cur_def)
    then show ?thesis using 1 assms(2,3)
      by (intro exI [of _ "[]"] exI [of _ 1] exI [of _ "4 * d"] exI [of _ r])
        (simp add: decode_digit_def group_cur_def group_ok_def poke_def list_update_append Cons)
  next
    case 2
    then obtain x r where r: "rest = x # r" using assms(4) by (cases rest) (auto simp: group_cur_def)
    have "d div 16 < 2 ^ 2" "p mod 2 ^ 2 = 0" "p < 256" using 2 assms(1,2) by (auto simp: group_ok_def)
    then have "or p (d div 16) = p + d div 16" using or_low_bits [of p 2 "d div 16"] by simp
    then show ?thesis using 2 r assms(2,3) \<open>p < 256\<close>
      by (intro exI [of _ "[p + d div 16]"] exI [of _ 2] exI [of _ "16 * (d mod 16)"] exI [of _ r])
        (simp add: decode_digit_def or_poke_def peek_def group_cur_def group_ok_def poke_def
          list_update_append nth_append Cons)
  next
    case 3
    then obtain x r where r: "rest = x # r" using assms(4) by (cases rest) (auto simp: group_cur_def)
    have "d div 4 < 2 ^ 4" "p mod 2 ^ 4 = 0" "p < 256" using 3 assms(1,2) by (auto simp: group_ok_def)
    then have "or p (d div 4) = p + d div 4" using or_low_bits [of p 4 "d div 4"] by simp
    then show ?thesis using 3 r assms(2,3) \<open>p < 256\<close>
      by (intro exI [of _ "[p + d div 4]"] exI [of _ 3] exI [of _ "64 * (d mod 4)"] exI [of _ r])
        (simp add: decode_digit_def or_poke_def peek_def group_cur_def group_ok_def poke_def
          list_update_append nth_append Cons)
  next
    case 4
    have "d < 2 ^ 6" "p mod 2 ^ 6 = 0" "p < 256" using 4 assms(1,2) by (auto simp: group_ok_def)
    then have "or p d = p + d" using or_low_bits [of p 6 "d"] by simp
    then show ?thesis using 4 assms(2,3) \<open>p < 256\<close>
      by (intro exI [of _ "[p + d]"] exI [of _ 0] exI [of _ 0] exI [of _ rest])
        (simp add: decode_digit_def or_poke_def peek_def group_cur_def group_ok_def poke_def
          list_update_append nth_append Cons)
  qed
qed

text \<open>The cells that \<open>t\<close> digits need.\<close>

definition cells_for :: "nat \<Rightarrow> nat" where
  "cells_for t = 3 * (t div 4) + t mod 4"

lemma cells_for_facts:
  "min t 3 \<le> cells_for t" "cells_for t \<le> cells_for (Suc t)" "cells_for (t + 4) = cells_for t + 3"
  "cells_for t \<le> 3 * (t div 4) + 3"
proof -
  have t: "cells_for u + u div 4 = u" for u by (simp add: cells_for_def)
  show "min t 3 \<le> cells_for t"
  proof (cases "t < 4")
    case False
    then have "1 \<le> t div 4" by (simp add: Suc_le_eq div_greater_zero_iff)
    then show ?thesis by (simp add: cells_for_def)
  qed (simp add: cells_for_def)
  have "Suc t div 4 \<le> (t + 4) div 4" by (rule div_le_mono) simp
  then have "Suc t div 4 \<le> t div 4 + 1" by simp
  then show "cells_for t \<le> cells_for (Suc t)" using t [of t] t [of "Suc t"] by linarith
  have "(t + 4) div 4 = t div 4 + 1" by simp
  then show "cells_for (t + 4) = cells_for t + 3" by (simp add: cells_for_def)
  have "t mod 4 < 4" by simp
  then show "cells_for t \<le> 3 * (t div 4) + 3" unfolding cells_for_def by linarith
qed

lemma group_run_comp:
  assumes "\<forall>ds. group_run g p (d # ds) = map_option ((@) bs) (group_run g' p' ds)"
    "group_run g' p' ds = map_option ((@) bs') x"
  shows "group_run g p (d # ds) = map_option ((@) (bs @ bs')) x"
  unfolding assms(1) [rule_format] assms(2) by (cases x) simp_all

text \<open>What the loop leaves: the octets that are complete, the open group and at least one cell.\<close>

definition decode_result :: "nat list option \<Rightarrow> nat \<Rightarrow> nat \<Rightarrow> cells \<Rightarrow> nat \<Rightarrow> cells \<Rightarrow> (nat \<times> nat) option \<Rightarrow> bool" where
  "decode_result digits g p pre out m r =
     (case digits of None \<Rightarrow> r = None
      | Some ds \<Rightarrow> \<exists>bs g' p' rest. r = Some (out + length bs, g') \<and> group_ok g' p'
          \<and> m = pre @ map (Some \<circ> char_of) bs @ group_cur g' p' @ rest
          \<and> 1 \<le> length (group_cur g' p') + length rest
          \<and> group_run g p ds = map_option ((@) bs) (group_run g' p' []))"

lemma decode_result_stop:
  assumes "group_ok g p" "cells_for (g + k) + 1 \<le> length (group_cur g p) + length rest + (g - 1)"
  shows "decode_result (Some []) g p pre out (pre @ group_cur g p @ rest) (Some (out, g))"
proof -
  have "1 \<le> length (group_cur g p) + length rest"
    using assms(2) cells_for_facts(1) [of "g + k"] assms(1) by (auto simp: group_ok_def)
  then show ?thesis unfolding decode_result_def option.case
    using assms(1) by (intro exI [of _ "[]"] exI [of _ g] exI [of _ p] exI [of _ rest])
      (simp add: append_fun option.map_ident)
qed

lemma decode_result_none: "decode_result None g p pre out m None"
  by (simp add: decode_result_def)

lemma decode_result_step:
  assumes "decode_result digits g1 p1 (pre @ map (Some \<circ> char_of) bs) (out + length bs) m r"
    "\<forall>ds. group_run g p (d # ds) = map_option ((@) bs) (group_run g1 p1 ds)"
  shows "decode_result (map_option ((#) d) digits) g p pre out m r"
proof (cases digits)
  case None
  then show ?thesis using assms(1) by (simp add: decode_result_def)
next
  case (Some ds)
  then obtain bs' g' p' rest' where b: "r = Some (out + length bs + length bs', g')" "group_ok g' p'"
      "m = (pre @ map (Some \<circ> char_of) bs) @ map (Some \<circ> char_of) bs' @ group_cur g' p' @ rest'"
      "1 \<le> length (group_cur g' p') + length rest'"
      "group_run g1 p1 ds = map_option ((@) bs') (group_run g' p' [])"
    using assms(1) unfolding decode_result_def option.case Some by blast
  have "group_run g p (d # ds) = map_option ((@) (bs @ bs')) (group_run g' p' [])"
    by (rule group_run_comp [OF assms(2) b(5)])
  then show ?thesis unfolding Some option.map decode_result_def option.case
    using b(1-4) by (intro exI [of _ "bs @ bs'"] exI [of _ g'] exI [of _ p'] exI [of _ rest']) simp
qed

lemma decode_loop_ok:
  assumes "group_ok g p" "length pre = base + out" "g = n mod 4"
    "cells_for (g + length s) + 1 \<le> length (group_cur g p) + length rest + (g - 1)"
  shows "\<exists>m' r. decode_loop cs (pre @ group_cur g p @ rest) base out g s = Some (m', r)
      \<and> length m' = length (pre @ group_cur g p @ rest) \<and> decode_result (scan_digits cs n s) g p pre out m' r"
  using assms
proof (induction s arbitrary: g p pre out n rest)
  case Nil
  then show ?case using decode_result_stop [of g p 0 rest] by simp
next
  case (Cons c s)
  let ?ch = "base64_reverse_table cs ! ucode c"
  consider "c = NUL \<or> 128 \<le> ucode c \<or> ?ch = -3 \<or> ?ch < 0 \<and> ?ch \<noteq> -2"
    | "c \<noteq> NUL" "ucode c < 128" "?ch = -2" | "c \<noteq> NUL" "ucode c < 128" "0 \<le> ?ch" by linarith
  then show ?case
  proof cases
    case 1
    then show ?thesis
      using decode_result_stop [OF Cons.prems(1,4)] decode_result_none Cons.prems(3) by (auto simp: Let_def)
  next
    case 2
    have "cells_for (g + length s) + 1 \<le> length (group_cur g p) + length rest + (g - 1)"
      using Cons.prems(4) cells_for_facts(2) [of "g + length s"] by simp
    from Cons.IH [OF Cons.prems(1-3) this] show ?thesis using 2 by simp
  next
    case 3
    have d: "nat ?ch < 64" using reverse_table_range 3(2) by blast
    have g4: "g < 4" using Cons.prems(1) by (simp add: group_ok_def)
    have "length (group_cur g p) + length rest \<ge> (if g = 1 \<or> g = 2 then 2 else 1)"
    proof (cases "g = 3")
      case True
      then show ?thesis using Cons.prems(4) cells_for_facts(1) [of "g + length (c # s)"] by simp
    next
      case False
      then show ?thesis using Cons.prems(4) cells_for_facts(1) [of "g + length (c # s)"] g4 by auto
    qed
    from group_step [OF Cons.prems(1) d Cons.prems(2) this]
    obtain bs g1 p1 rest1 where st: "decode_digit (pre @ group_cur g p @ rest) base out g (nat ?ch)
        = Some (pre @ map (Some \<circ> char_of) bs @ group_cur g1 p1 @ rest1, out + length bs, g1)"
        "group_ok g1 p1" "g1 = (g + 1) mod 4"
        "\<forall>ds. group_run g p (nat ?ch # ds) = map_option ((@) bs) (group_run g1 p1 ds)"
        "length bs + length (group_cur g1 p1) + length rest1 = length (group_cur g p) + length rest"
        "length bs = (if g = 0 then 0 else 1)" by blast
    let ?pre = "pre @ map (Some \<circ> char_of) bs"
    have 1: "length ?pre = base + (out + length bs)" "g1 = (n + 1) mod 4"
      using Cons.prems(2,3) st(3) by (simp_all add: mod_simps)
    have 2: "cells_for (g1 + length s) + 1 \<le> length (group_cur g1 p1) + length rest1 + (g1 - 1)"
    proof (cases "g = 3")
      case True
      then show ?thesis using Cons.prems(4) st(3,5,6) cells_for_facts(3) [of "length s"] by (simp add: add.commute)
    next
      case False
      then have "g1 = g + 1" using g4 st(3) by auto
      then show ?thesis using Cons.prems(4) st(5,6) by (auto split: if_splits)
    qed
    from Cons.IH [OF st(2) 1 2] obtain m' r where r: "decode_loop cs (?pre @ group_cur g1 p1 @ rest1) base (out + length bs) g1 s = Some (m', r)"
        "length m' = length (?pre @ group_cur g1 p1 @ rest1)"
        "decode_result (scan_digits cs (n + 1) s) g1 p1 ?pre (out + length bs) m' r" by blast
    have "scan_digits cs n (c # s) = map_option ((#) (nat ?ch)) (scan_digits cs (n + 1) s)"
      using 3 by (simp add: Let_def)
    then show ?thesis using 3 st(1,5) r(1,2) decode_result_step [OF r(3) st(4)] by (simp add: Let_def)
  qed
qed

lemma buffer_append_base64_decode_ok:
  assumes "buffer_wf out" "fits (length (buffer_content out) + 3 * (length s div 4) + 3)"
  shows "\<exists>out' r. buffer_append_base64_decode out s cs = Some (out', r)
      \<and> (case base64_decode cs s of
           None \<Rightarrow> r = None
         | Some t \<Rightarrow> r = Some (length (buffer_content out)) \<and> buffer_wf out'
             \<and> buffer_abs out' = Some (buffer_content out @ t))"
proof -
  let ?c = "buffer_content out"
  obtain b rest where b: "buffer_string_prepare_append out (3 * (length s div 4) + 3) = Some (b, length ?c)"
      "b_ptr b = map Some ?c @ Some NUL # rest" "b_used b = Suc (length ?c)" "b_size b = length (b_ptr b)"
      "b_size b \<le> PTRDIFF_MAX" "length ?c + (3 * (length s div 4) + 3) < b_size b"
    using buffer_prepare_append_ok [OF assms(1), of "3 * (length s div 4) + 3"] assms(2) by (auto simp: add.assoc)
  have g: "group_ok 0 0" "length (map Some ?c) = length ?c + 0" "0 = 0 mod (4::nat)"
      "cells_for (0 + length s) + 1 \<le> length (group_cur 0 0) + length (Some NUL # rest) + (0 - 1)"
    using b(2,4,6) cells_for_facts(4) [of "length s"] by (simp_all add: group_ok_def)
  obtain m r where r: "decode_loop cs (b_ptr b) (length ?c) 0 0 s = Some (m, r)" "length m = length (b_ptr b)"
      "decode_result (scan_digits cs 0 s) 0 0 (map Some ?c) 0 m r"
    using decode_loop_ok [OF g, of cs] b(2) by (auto simp: group_cur_def)
  show ?thesis
  proof (cases "scan_digits cs 0 s")
    case None
    then show ?thesis using b(1) r by (simp add: buffer_append_base64_decode_def base64_decode_def decode_result_def)
  next
    case (Some ds)
    then obtain bs g p rest' where e: "r = Some (length bs, g)" "group_ok g p"
        "m = map Some ?c @ map (Some \<circ> char_of) bs @ group_cur g p @ rest'"
        "1 \<le> length (group_cur g p) + length rest'"
        "group_run 0 0 ds = map_option ((@) bs) (group_run g p [])"
      using r(3) unfolding decode_result_def by auto
    have dec: "base64_decode cs s = map_option (\<lambda>x. map char_of (bs @ x)) (group_run g p [])"
      using Some e(5) by (simp add: base64_decode_def octets_group_run option.map_comp comp_def del: group_run.simps)
    have peek: "peek m (length ?c + length bs) = Some (char_of p)" if "g \<noteq> 0"
      using that e(3) by (simp add: peek_def group_cur_def nth_append)
    have "p < 256" using e(2) by (simp add: group_ok_def)
    then have "ucode (char_of p) = p" by simp
    moreover have "char_of (0::nat) = NUL" by (simp add: char_of_def)
    ultimately have nul: "char_of p = NUL \<longleftrightarrow> p = 0" by (auto dest: arg_cong [of _ _ ucode])
    let ?s = "?c @ map char_of bs" and ?b = "b\<lparr>b_ptr := m\<rparr>"
    have "b_ptr ?b = map Some ?s @ group_cur g p @ rest'" using e(3) by simp
    then have "\<exists>b'. buffer_commit ?b (length bs) = Some b' \<and> buffer_wf b' \<and> buffer_abs b' = Some ?s \<and> b_size b' = b_size ?b"
      by (rule buffer_commit_ok) (use b(3-5) r(2) e(3,4) in simp_all)
    then obtain b' where "buffer_commit ?b (length bs) = Some b'" "buffer_wf b'" "buffer_abs b' = Some ?s" by blast
    then show ?thesis
      using b(1) r(1) e(1) dec peek nul by (auto simp: buffer_append_base64_decode_def)
  qed
qed

section \<open>The encoder meets the specification\<close>

lemma split_digits:
  fixes a b c d :: nat
  assumes "a < 64" "b < 64" "c < 64" "d < 64" and v: "v = 262144 * a + 4096 * b + 64 * c + d"
  shows "v mod 64 = d" "v div 64 mod 64 = c" "v div 4096 mod 64 = b" "v div 262144 mod 64 = a"
proof -
  have 1: "v = d + (c + (b + a * 64) * 64) * 64" using v by simp
  have 2: "v div 64 = c + (b + a * 64) * 64" unfolding 1 using assms(4) by (subst div_mult_self1) simp_all
  have "v div 4096 = v div 64 div 64" by (simp add: div_mult2_eq [symmetric])
  also have "\<dots> = b + a * 64" unfolding 2 using assms(3) by (subst div_mult_self1) simp_all
  finally have 3: "v div 4096 = b + a * 64" .
  have "v div 262144 = v div 4096 div 64" by (simp add: div_mult2_eq [symmetric])
  also have "\<dots> = a" unfolding 3 using assms(2) by (subst div_mult_self1) simp_all
  finally have 4: "v div 262144 = a" .
  show "v mod 64 = d" unfolding 1 using assms(4) by (subst mod_mult_self1) simp
  show "v div 64 mod 64 = c" unfolding 2 using assms(3) by (subst mod_mult_self1) simp
  show "v div 4096 mod 64 = b" unfolding 3 using assms(2) by (subst mod_mult_self1) simp
  show "v div 262144 mod 64 = a" unfolding 4 using assms(1) by simp
qed

lemma octet_split:
  fixes x y z :: nat
  assumes "x < 256" "y < 256" "z < 256"
  defines "v \<equiv> 65536 * x + 256 * y + z"
  shows "v mod 64 = z mod 64" "v div 64 mod 64 = 4 * (y mod 16) + z div 64"
    "v div 4096 mod 64 = 16 * (x mod 4) + y div 16" "v div 262144 mod 64 = x div 4"
proof -
  define x1 x0 where "x1 = x div 4" "x0 = x mod 4"
  define y1 y0 where "y1 = y div 16" "y0 = y mod 16"
  define z1 z0 where "z1 = z div 64" "z0 = z mod 64"
  note parts = x1_x0_def y1_y0_def z1_z0_def
  have "x = 4 * x1 + x0" "y = 16 * y1 + y0" "z = 64 * z1 + z0" by (simp_all add: parts)
  then have "v = 262144 * x1 + 4096 * (16 * x0 + y1) + 64 * (4 * y0 + z1) + z0"
    unfolding v_def by (simp add: algebra_simps)
  then have "v = 262144 * (x div 4) + 4096 * (16 * (x mod 4) + y div 16) + 64 * (4 * (y mod 16) + z div 64) + z mod 64"
    unfolding parts .
  note v = this
  have "x div 4 < 64" "y div 16 < 16" "x mod 4 < 4" "y mod 16 < 16" "z div 64 < 4" using assms by auto
  then have b: "x div 4 < 64" "16 * (x mod 4) + y div 16 < 64" "4 * (y mod 16) + z div 64 < 64" "z mod 64 < 64"
    by simp_all
  show "v mod 64 = z mod 64" "v div 64 mod 64 = 4 * (y mod 16) + z div 64"
      "v div 4096 mod 64 = 16 * (x mod 4) + y div 16" "v div 262144 mod 64 = x div 4"
    by (rule split_digits [OF b v])+
qed

lemma octet_split2:
  "(1024 * ucode a + 4 * ucode b) mod 64 = 4 * (ucode b mod 16)"
  "(1024 * ucode a + 4 * ucode b) div 64 mod 64 = 16 * (ucode a mod 4) + ucode b div 16"
  "(1024 * ucode a + 4 * ucode b) div 4096 mod 64 = ucode a div 4"
proof -
  have b: "0 < (64::nat)" "ucode a div 4 < 64" "16 * (ucode a mod 4) + ucode b div 16 < 64" "4 * (ucode b mod 16) < 64"
  proof -
    have "ucode a mod 4 < 4" "ucode b div 16 < 16" "ucode b mod 16 < 16" by (simp_all add: less_mult_imp_div_less)
    then show "16 * (ucode a mod 4) + ucode b div 16 < 64" "4 * (ucode b mod 16) < 64" by simp_all
  qed (simp_all add: less_mult_imp_div_less)
  define x1 x0 where "x1 = ucode a div 4" "x0 = ucode a mod 4"
  define y1 y0 where "y1 = ucode b div 16" "y0 = ucode b mod 16"
  note parts = x1_x0_def y1_y0_def
  have "ucode a = 4 * x1 + x0" "ucode b = 16 * y1 + y0" by (simp_all add: parts)
  then have v: "1024 * ucode a + 4 * ucode b = 262144 * 0 + 4096 * (ucode a div 4) + 64 * (16 * (ucode a mod 4) + ucode b div 16) + 4 * (ucode b mod 16)"
    unfolding parts [symmetric] by (simp only: distrib_left mult.assoc [symmetric])
  show "(1024 * ucode a + 4 * ucode b) mod 64 = 4 * (ucode b mod 16)"
    "(1024 * ucode a + 4 * ucode b) div 64 mod 64 = 16 * (ucode a mod 4) + ucode b div 16"
    "(1024 * ucode a + 4 * ucode b) div 4096 mod 64 = ucode a div 4"
    by (rule split_digits [OF b v])+
qed

lemma octet_split1:
  "(16 * ucode a) mod 64 = 16 * (ucode a mod 4)" "(16 * ucode a) div 64 mod 64 = ucode a div 4"
proof -
  have b: "0 < (64::nat)" "0 < (64::nat)" "ucode a div 4 < 64" "16 * (ucode a mod 4) < 64"
  proof -
    have "ucode a mod 4 < 4" by simp
    then show "16 * (ucode a mod 4) < 64" by simp
  qed (simp_all add: less_mult_imp_div_less)
  have "4 * (ucode a div 4) + ucode a mod 4 = ucode a" by simp
  then have v: "16 * ucode a = 262144 * 0 + 4096 * 0 + 64 * (ucode a div 4) + 16 * (ucode a mod 4)" by linarith
  show "(16 * ucode a) mod 64 = 16 * (ucode a mod 4)" "(16 * ucode a) div 64 mod 64 = ucode a div 4"
    by (rule split_digits [OF b v])+
qed

lemma mod3_facts: "n mod 3 = 0 \<Longrightarrow> Suc n mod 3 = 1 \<and> Suc (Suc n) mod 3 = (2::nat)"
  by presburger

lemma write_at_gap:
  "length pre = i \<Longrightarrow> length gap = length s \<Longrightarrow> write_at (pre @ gap @ rest) i s = Some (pre @ map Some s @ rest)"
  by (rule write_at_mid)

lemma encode_groups_ok:
  assumes "s = a @ r" "length a mod 3 = 0" "i = length a + 2" "length pre = out"
    "length gap = length (digits_of_octets (map ucode r))"
  shows "Option.bind (encode_loop cs (pre @ gap @ rest) out s i) (\<lambda>(m, out, i). encode_tail cs m out s i)
     = Some (pre @ map Some (base64_encode cs r) @ rest, out + length gap)"
  using assms
proof (induction "map ucode r" arbitrary: a r i pre out gap rule: digits_of_octets.induct)
  case (1 x y z ns)
  then obtain c1 c2 c3 r' where r: "r = c1 # c2 # c3 # r'" "x = ucode c1" "y = ucode c2" "z = ucode c3"
      "ns = map ucode r'" by (cases r; cases "tl r"; cases "tl (tl r)") auto
  obtain g1 g2 g3 g4 gap' where g: "gap = [g1, g2, g3, g4] @ gap'" "length gap' = length (digits_of_octets (map ucode r'))"
    using 1(7) r(1) by (auto simp: length_Suc_conv)
  let ?w = "map (\<lambda>d. base64_table cs ! d) [x div 4, 16 * (x mod 4) + y div 16, 4 * (y mod 16) + z div 64, z mod 64]"
  have idx: "s ! (i - 2) = c1" "s ! (i - 1) = c2" "s ! i = c3" "i < length s"
    using 1(3,5) r(1) by (simp_all add: nth_append)
  have "Option.bind (encode_loop cs ((pre @ map Some ?w) @ gap' @ rest) (out + 4) s (i + 3)) (\<lambda>(m, out, i). encode_tail cs m out s i)
      = Some ((pre @ map Some ?w) @ map Some (base64_encode cs r') @ rest, out + 4 + length gap')"
    by (rule 1(1) [OF r(5), of "a @ [c1, c2, c3]"]) (use 1(3-6) r(1) g(2) in simp_all)
  moreover have "write_at (pre @ gap @ rest) out ?w = Some (pre @ map Some ?w @ gap' @ rest)"
    using write_at_gap [of pre out "[g1, g2, g3, g4]" ?w "gap' @ rest"] 1(6) g(1) by simp
  moreover have "[b64_char cs ((65536 * x + 256 * y + z) div 262144), b64_char cs ((65536 * x + 256 * y + z) div 4096),
      b64_char cs ((65536 * x + 256 * y + z) div 64), b64_char cs (65536 * x + 256 * y + z)] = ?w"
    unfolding r(2-4) b64_char_def octet_split [OF ucode_bound ucode_bound ucode_bound] by (simp only: list.map)
  ultimately show ?case
    using idx r(1-4) g(1) by (subst encode_loop.simps) (simp add: Let_def base64_encode_def)
next
  case (2 x y)
  then obtain c1 c2 where r: "r = [c1, c2]" "x = ucode c1" "y = ucode c2"
    by (cases r; cases "tl r"; cases "tl (tl r)") auto
  have idx: "\<not> i < length s" "length s mod 3 = 2" "s ! (i - 2) = c1" "s ! (i - 1) = c2"
    using 2(2-4) r(1) by (simp_all add: nth_append mod3_facts)
  let ?w = "map (\<lambda>d. base64_table cs ! d) [x div 4, 16 * (x mod 4) + y div 16, 4 * (y mod 16)]"
  have "[b64_char cs ((1024 * x + 4 * y) div 4096), b64_char cs ((1024 * x + 4 * y) div 64), b64_char cs (1024 * x + 4 * y)] = ?w"
    unfolding r(2,3) b64_char_def octet_split2 by (simp only: list.map)
  moreover have "write_at (pre @ gap @ rest) out ?w = Some (pre @ map Some ?w @ rest)"
    using write_at_gap [of pre out gap ?w rest] 2(5,6) r by simp
  ultimately show ?case using idx r 2(6)
    by (subst encode_loop.simps) (simp add: encode_tail_def Let_def base64_encode_def)
next
  case (3 x)
  then obtain c1 where r: "r = [c1]" "x = ucode c1" by (cases r; cases "tl r") auto
  have idx: "\<not> i < length s" "length s mod 3 = 1" "s ! (i - 2) = c1"
    using 3(2-4) r(1) by (simp_all add: nth_append mod3_facts)
  let ?w = "map (\<lambda>d. base64_table cs ! d) [x div 4, 16 * (x mod 4)]"
  have "[b64_char cs ((16 * x) div 64), b64_char cs (16 * x)] = ?w"
    unfolding r(2) b64_char_def octet_split1 by (simp only: list.map)
  moreover have "write_at (pre @ gap @ rest) out ?w = Some (pre @ map Some ?w @ rest)"
    using write_at_gap [of pre out gap ?w rest] 3(5,6) r by simp
  ultimately show ?case using idx r 3(6)
    by (subst encode_loop.simps) (simp add: encode_tail_def Let_def base64_encode_def)
next
  case 4
  then show ?case by (subst encode_loop.simps) (simp add: encode_tail_def base64_encode_def)
qed

lemma length_digits: "length (digits_of_octets bs)
    = 4 * (length bs div 3) + (if length bs mod 3 = 0 then 0 else 1 + length bs mod 3)"
proof (induction bs rule: digits_of_octets.induct)
  case (1 x y z r)
  have "length (x # y # z # r) div 3 = Suc (length r div 3)" "length (x # y # z # r) mod 3 = length r mod 3" by simp_all
  with 1 show ?case unfolding digits_of_octets.simps length_append by simp
qed auto

lemma length_base64_encode: "length (base64_encode cs s)
    = 4 * (length s div 3) + (if length s mod 3 = 0 then 0 else 1 + length s mod 3)"
  by (simp add: base64_encode_def length_digits)

lemma li_to_base64_no_padding_ok:
  assumes "length pre = base" "length gap = length (base64_encode cs s)" "length gap \<le> out_length"
    "4 * length s + 4 < SIZE_MOD"
  shows "li_to_base64_no_padding (pre @ gap @ rest) base out_length s cs
     = Some (pre @ map Some (base64_encode cs s) @ rest, length gap)"
proof -
  let ?f = "length s div 3" and ?r = "if length s mod 3 \<noteq> 0 then 1 + length s mod 3 else 0"
  have n: "length gap = 4 * ?f + ?r" using assms(2) by (simp add: length_base64_encode)
  have small: "2 * ?f < SIZE_MOD" "4 * ?f < SIZE_MOD" "4 * ?f + ?r < SIZE_MOD"
  proof -
    have "?r \<le> 3" using mod_less_divisor [of 3 "length s"] by auto
    moreover have "3 * ?f \<le> length s" by simp
    ultimately show "2 * ?f < SIZE_MOD" "4 * ?f < SIZE_MOD" "4 * ?f + ?r < SIZE_MOD" using assms(4) by linarith+
  qed
  have "Option.bind (encode_loop cs (pre @ gap @ rest) base s 2) (\<lambda>(m, out, i). encode_tail cs m out s i)
      = Some (pre @ map Some (base64_encode cs s) @ rest, base + length gap)"
    by (rule encode_groups_ok [of s "[]" s]) (use assms(1,2) in \<open>simp_all add: base64_encode_def\<close>)
  then obtain m out i where "encode_loop cs (pre @ gap @ rest) base s 2 = Some (m, out, i)"
      "encode_tail cs m out s i = Some (pre @ map Some (base64_encode cs s) @ rest, base + length gap)"
    by (auto simp: bind_eq_Some_conv)
  then show ?thesis
    using small n assms(3) by (simp add: li_to_base64_no_padding_def Let_def)
qed

lemma li_to_base64_ok:
  assumes "length pre = base" "length gap = length (base64_encode cs s)"
    "length gap2 = length (base64_padding cs s)" "length gap + length gap2 \<le> out_length" "4 * length s + 4 < SIZE_MOD"
  shows "li_to_base64 (pre @ gap @ gap2 @ rest) base out_length s cs
     = Some (pre @ map Some (base64_encode cs s @ base64_padding cs s) @ rest, length gap + length gap2)"
proof -
  let ?p = "if length s mod 3 \<noteq> 0 then 3 - length s mod 3 else 0"
  have p: "length gap2 = ?p" using assms(3) by (simp add: base64_padding_def)
  have "li_to_base64_no_padding (pre @ gap @ gap2 @ rest) base (out_length - ?p) s cs
      = Some (pre @ map Some (base64_encode cs s) @ gap2 @ rest, length gap)"
    by (rule li_to_base64_no_padding_ok) (use assms p in simp_all)
  moreover have "write_at ((pre @ map Some (base64_encode cs s)) @ gap2 @ rest) (base + length gap) (base64_padding cs s)
      = Some ((pre @ map Some (base64_encode cs s)) @ map Some (base64_padding cs s) @ rest)"
    by (rule write_at_gap) (use assms(1-3) in simp_all)
  moreover have "replicate ?p (base64_table cs ! 64) = base64_padding cs s" by (simp only: base64_padding_def)
  ultimately show ?thesis using assms(4) p unfolding li_to_base64_def by (simp only: Let_def) simp
qed

lemma room_split:
  assumes "length c + n < length m" "m = map Some c @ rest" "k \<le> n"
  obtains gap rest' where "m = map Some c @ gap @ rest'" "length gap = k" "rest' \<noteq> []"
proof
  show "m = map Some c @ take k rest @ drop k rest" "length (take k rest) = k" "drop k rest \<noteq> []"
    using assms by auto
qed

lemma encode_reserve:
  "length (base64_encode cs s) \<le> 4 * (length s div 3) + 4"
  "length (base64_encode cs s @ base64_padding cs s) \<le> 4 * (length s div 3) + 4"
  by (simp_all add: length_base64_encode base64_padding_def)

lemma fits_SIZE: "fits n \<Longrightarrow> n + 65 < SIZE_MOD"
  by (simp add: fits_def PTRDIFF_SIZE)

text \<open>Writing the digits into the room that was prepared, then committing them.\<close>

lemma append_written:
  assumes "buffer_wf out" "fits (length (buffer_content out) + n)" "length t \<le> n"
    "\<And>gap rest. length gap = length t \<Longrightarrow>
       f (map Some (buffer_content out) @ gap @ rest) (length (buffer_content out)) n
       = Some (map Some (buffer_content out) @ map Some t @ rest, length t)"
  shows "\<exists>b' b1 m. buffer_string_prepare_append out n = Some (b1, length (buffer_content out))
      \<and> f (b_ptr b1) (length (buffer_content out)) n = Some (m, length t)
      \<and> buffer_commit (b1\<lparr>b_ptr := m\<rparr>) (length t) = Some b' \<and> buffer_wf b'
      \<and> buffer_abs b' = Some (buffer_content out @ t)"
proof -
  let ?c = "buffer_content out"
  obtain b rest where b: "buffer_string_prepare_append out n = Some (b, length ?c)"
      "b_ptr b = map Some ?c @ Some NUL # rest" "b_used b = Suc (length ?c)" "b_size b = length (b_ptr b)"
      "b_size b \<le> PTRDIFF_MAX" "length ?c + n < b_size b"
    using buffer_prepare_append_ok [OF assms(1,2)] by blast
  obtain gap rest' where g: "b_ptr b = map Some ?c @ gap @ rest'" "length gap = length t" "rest' \<noteq> []"
    using room_split [of ?c n "b_ptr b" "Some NUL # rest" "length t"] b(2,4,6) assms(3) by auto
  let ?b = "b\<lparr>b_ptr := map Some ?c @ map Some t @ rest'\<rparr>"
  have "\<exists>b'. buffer_commit ?b (length t) = Some b' \<and> buffer_wf b' \<and> buffer_abs b' = Some (?c @ t) \<and> b_size b' = b_size ?b"
    by (rule buffer_commit_ok [where rest = rest']) (use b(3-5) g in \<open>simp_all add: g(1)\<close>)
  then show ?thesis using b(1) assms(4) [OF g(2), of rest'] g(1) by auto
qed

lemma buffer_append_base64_encode_no_padding_ok:
  assumes "buffer_wf out" "fits (length (buffer_content out) + 4 * length s + 4)"
  shows "\<exists>out'. buffer_append_base64_encode_no_padding out s cs = Some (out', length (buffer_content out))
      \<and> buffer_wf out' \<and> buffer_abs out' = Some (buffer_content out @ base64_encode cs s)"
proof -
  let ?n = "4 * (length s div 3) + 4"
  have "length s div 3 \<le> length s" by simp
  then have fit: "fits (length (buffer_content out) + ?n)" using assms(2) by (elim fits_mono) linarith
  have big: "4 * length s + 4 < SIZE_MOD" using fits_SIZE [OF assms(2)] by simp
  let ?t = "base64_encode cs s"
  have "li_to_base64_no_padding (map Some (buffer_content out) @ gap @ rest) (length (buffer_content out)) ?n s cs
      = Some (map Some (buffer_content out) @ map Some ?t @ rest, length ?t)" if "length gap = length ?t" for gap rest
    using li_to_base64_no_padding_ok [of "map Some (buffer_content out)", OF _ that _ big] that encode_reserve(1) [of cs s] by simp
  then obtain b' b1 m where "buffer_string_prepare_append out ?n = Some (b1, length (buffer_content out))"
      "li_to_base64_no_padding (b_ptr b1) (length (buffer_content out)) ?n s cs = Some (m, length ?t)"
      "buffer_commit (b1\<lparr>b_ptr := m\<rparr>) (length ?t) = Some b'" "buffer_wf b'" "buffer_abs b' = Some (buffer_content out @ ?t)"
    using append_written [OF assms(1) fit encode_reserve(1) [of cs s], of "\<lambda>m base n. li_to_base64_no_padding m base n s cs"] by auto
  then show ?thesis by (simp add: buffer_append_base64_encode_no_padding_def Let_def)
qed

lemma buffer_append_base64_encode_ok:
  assumes "buffer_wf out" "fits (length (buffer_content out) + 4 * length s + 4)"
  shows "\<exists>out'. buffer_append_base64_encode out s cs = Some (out', length (buffer_content out))
      \<and> buffer_wf out' \<and> buffer_abs out' = Some (buffer_content out @ base64_encode cs s @ base64_padding cs s)"
proof -
  let ?n = "4 * (length s div 3) + 4" and ?t = "base64_encode cs s @ base64_padding cs s"
  have "length s div 3 \<le> length s" by simp
  then have fit: "fits (length (buffer_content out) + ?n)" using assms(2) by (elim fits_mono) linarith
  have big: "4 * length s + 4 < SIZE_MOD" using fits_SIZE [OF assms(2)] by simp
  have "li_to_base64 (map Some (buffer_content out) @ gap @ rest) (length (buffer_content out)) ?n s cs
      = Some (map Some (buffer_content out) @ map Some ?t @ rest, length ?t)" if "length gap = length ?t" for gap rest
  proof -
    define g1 g2 where "g1 = take (length (base64_encode cs s)) gap" "g2 = drop (length (base64_encode cs s)) gap"
    then have g: "gap = g1 @ g2" "length g1 = length (base64_encode cs s)" "length g2 = length (base64_padding cs s)"
      using that by simp_all
    then show ?thesis
      using li_to_base64_ok [of "map Some (buffer_content out)", OF _ g(2,3) _ big, of _ ?n rest] encode_reserve(2) [of cs s]
      by simp
  qed
  then obtain b' b1 m where "buffer_string_prepare_append out ?n = Some (b1, length (buffer_content out))"
      "li_to_base64 (b_ptr b1) (length (buffer_content out)) ?n s cs = Some (m, length ?t)"
      "buffer_commit (b1\<lparr>b_ptr := m\<rparr>) (length ?t) = Some b'" "buffer_wf b'" "buffer_abs b' = Some (buffer_content out @ ?t)"
    using append_written [OF assms(1) fit encode_reserve(2) [of cs s], of "\<lambda>m base n. li_to_base64 m base n s cs"] by auto
  then show ?thesis by (simp add: buffer_append_base64_encode_def Let_def)
qed

section \<open>Round trip\<close>

lemma table_inverse:
  assumes "d < 64"
  shows "base64_table cs ! d \<noteq> NUL" "ucode (base64_table cs ! d) < 128"
    "base64_reverse_table cs ! ucode (base64_table cs ! d) = int d"
proof -
  have "list_all (\<lambda>d. base64_table BASE64_STANDARD ! d \<noteq> NUL \<and> ucode (base64_table BASE64_STANDARD ! d) < 128
      \<and> base64_reverse_table BASE64_STANDARD ! ucode (base64_table BASE64_STANDARD ! d) = int d) [0..<64]"
    "list_all (\<lambda>d. base64_table BASE64_URL ! d \<noteq> NUL \<and> ucode (base64_table BASE64_URL ! d) < 128
      \<and> base64_reverse_table BASE64_URL ! ucode (base64_table BASE64_URL ! d) = int d) [0..<64]"
    by code_simp+
  then have "\<forall>d\<in>set [0..<64]. base64_table cs ! d \<noteq> NUL \<and> ucode (base64_table cs ! d) < 128
      \<and> base64_reverse_table cs ! ucode (base64_table cs ! d) = int d" by (cases cs) (simp_all only: list_all_iff)
  moreover have "d \<in> set [0..<64]" using assms by simp
  ultimately show "base64_table cs ! d \<noteq> NUL" "ucode (base64_table cs ! d) < 128"
    "base64_reverse_table cs ! ucode (base64_table cs ! d) = int d" by blast+
qed

lemma pad_char:
  "base64_table cs ! 64 \<noteq> NUL" "ucode (base64_table cs ! 64) < 128"
  "base64_reverse_table cs ! ucode (base64_table cs ! 64) = -3"
proof -
  have "base64_table BASE64_STANDARD ! 64 = CHR ''=''" "base64_table BASE64_URL ! 64 = CHR ''.''" by code_simp+
  moreover have "base64_reverse_table BASE64_STANDARD ! ucode (CHR ''='') = -3" "base64_reverse_table BASE64_URL ! ucode (CHR ''.'') = -3"
    by code_simp+
  ultimately show "base64_table cs ! 64 \<noteq> NUL" "ucode (base64_table cs ! 64) < 128"
    "base64_reverse_table cs ! ucode (base64_table cs ! 64) = -3"
    by (cases cs; simp only:; simp)+
qed

lemma digits_lt: "\<forall>x\<in>set bs. x < 256 \<Longrightarrow> d \<in> set (digits_of_octets bs) \<Longrightarrow> d < 64"
proof (induction bs rule: digits_of_octets.induct)
  case (1 x y z r)
  have "y div 16 < 16" "z div 64 < 4" "x div 4 < 64" using 1(2) by auto
  moreover have "x mod 4 < 4" "y mod 16 < 16" "z mod 64 < 64" by simp_all
  ultimately have "x div 4 < 64" "16 * (x mod 4) + y div 16 < 64" "4 * (y mod 16) + z div 64 < 64" "z mod 64 < 64" by linarith+
  then show ?case using 1 by auto
next
  case (2 x y)
  have "y div 16 < 16" "x div 4 < 64" using 2(1) by auto
  moreover have "x mod 4 < 4" "y mod 16 < 16" by simp_all
  ultimately have "x div 4 < 64" "16 * (x mod 4) + y div 16 < 64" "4 * (y mod 16) < 64" by linarith+
  then show ?case using 2 by auto
next
  case (3 x)
  have "x div 4 < 64" using 3(1) by auto
  moreover have "x mod 4 < 4" by simp
  ultimately have "x div 4 < 64" "16 * (x mod 4) < 64" by linarith+
  then show ?case using 3 by auto
qed simp

lemma scan_digits_encoded:
  assumes "\<forall>d\<in>set ds. d < 64" "t = [] \<or> t = replicate k (base64_table cs ! 64) \<and> 2 \<le> (n + length ds) mod 4"
  shows "scan_digits cs n (map (\<lambda>d. base64_table cs ! d) ds @ t) = Some ds"
  using assms
proof (induction ds arbitrary: n)
  case Nil
  then show ?case using pad_char [of cs] by (cases k) auto
next
  case (Cons d ds)
  have "d < 64" using Cons.prems(1) by simp
  note t = table_inverse [OF this, of cs]
  then show ?case using Cons.IH [of "n + 1"] Cons.prems by (auto simp: Let_def)
qed

lemma base64_decode_encode:
  "base64_decode cs (base64_encode cs s) = Some s"
  "base64_decode cs (base64_encode cs s @ base64_padding cs s) = Some s"
proof -
  let ?ds = "digits_of_octets (map ucode s)"
  have b: "\<forall>x\<in>set (map ucode s). x < 256" by auto
  have d: "\<forall>d\<in>set ?ds. d < 64" using digits_lt [OF b] by blast
  have "octets_of_digits ?ds = Some (map ucode s)" by (rule octets_of_digits_of_octets [OF b])
  moreover have "map (char_of \<circ> ucode) s = s" by (simp add: comp_def)
  ultimately have f: "map_option (map char_of) (Option.bind (Some ?ds) octets_of_digits) = Some s" by simp
  show "base64_decode cs (base64_encode cs s) = Some s"
    using scan_digits_encoded [OF d, of "[]" 0 cs 0] f by (simp add: base64_decode_def base64_encode_def)
  have "base64_padding cs s = [] \<or> (base64_padding cs s = replicate (length (base64_padding cs s)) (base64_table cs ! 64)
      \<and> 2 \<le> (0 + length ?ds) mod 4)"
  proof (cases "length s mod 3 = 0")
    case False
    then have "length s mod 3 = 1 \<or> length s mod 3 = 2" by presburger
    then show ?thesis by (auto simp: base64_padding_def length_digits)
  qed (simp add: base64_padding_def)
  then show "base64_decode cs (base64_encode cs s @ base64_padding cs s) = Some s"
    using scan_digits_encoded [OF d] f unfolding base64_decode_def base64_encode_def by metis
qed

section \<open>Properties\<close>

text \<open>
  C4. Decoding appends exactly the octets the specification \<open>base64_decode\<close> gives, and returns
  \<open>NULL\<close> exactly when the text is not valid base64 (a foreign character, a single digit in the
  last group, a pad character too early, bits that do not fit).  The loop never leaves the room
  that was reserved and never reads a cell it has not set.
\<close>

theorem base64_decode_refines:
  assumes "buffer_wf out" "fits (length (buffer_content out) + 3 * (length s div 4) + 3)"
  shows "\<exists>out' r. buffer_append_base64_decode out s cs = Some (out', r)
      \<and> (case base64_decode cs s of
           None \<Rightarrow> r = None
         | Some t \<Rightarrow> r = Some (length (buffer_content out)) \<and> buffer_wf out'
             \<and> buffer_abs out' = Some (buffer_content out @ t))"
  using assms by (rule buffer_append_base64_decode_ok)

theorem base64_decode_refines_witness:
  "\<exists>out' r. buffer_append_base64_decode (buffer_of ''u'') ''bGln aHQ='' BASE64_STANDARD = Some (out', r)
     \<and> r = Some 1 \<and> buffer_wf out' \<and> buffer_abs out' = Some ''ulight''"
proof -
  have "base64_decode BASE64_STANDARD ''bGln aHQ='' = Some ''light''" by code_simp
  moreover have "fits (length (buffer_content (buffer_of ''u'')) + 3 * (length ''bGln aHQ='' div 4) + 3)"
    by (simp add: fits_def PTRDIFF_MAX_def)
  ultimately show ?thesis
    using base64_decode_refines [of "buffer_of ''u''" "''bGln aHQ=''" BASE64_STANDARD] by simp
qed

text \<open>
  C5. Encoding any bytes into a buffer, with padding, and decoding the text gives the bytes
  back, in both alphabets.
\<close>

theorem base64_round_trip:
  assumes "fits (8 * length s + 16)"
  shows "\<exists>b b'. buffer_append_base64_encode buffer_init s cs = Some (b, 0)
      \<and> buffer_append_base64_decode buffer_init (buffer_content b) cs = Some (b', Some 0)
      \<and> buffer_wf b' \<and> buffer_abs b' = Some s"
proof -
  let ?t = "base64_encode cs s @ base64_padding cs s"
  have "fits (length (buffer_content buffer_init) + 4 * length s + 4)" using assms by (elim fits_mono) simp
  then obtain b where b: "buffer_append_base64_encode buffer_init s cs = Some (b, 0)" "buffer_wf b" "buffer_abs b = Some ?t"
    using buffer_append_base64_encode_ok [of buffer_init s cs] by auto
  have c: "buffer_content b = ?t" by (rule buffer_content_abs [OF b(3)])
  have "length ?t \<le> 4 * length s + 4" using encode_reserve(2) [of cs s] div_le_dividend [of "length s" 3] by linarith
  then have "length ?t div 4 \<le> length s + 1" by simp
  then have "fits (length (buffer_content buffer_init) + 3 * (length ?t div 4) + 3)" using assms by (elim fits_mono) simp
  then show ?thesis
    using buffer_append_base64_decode_ok [of buffer_init ?t cs] base64_decode_encode(2) [of cs s] b(1) c by auto
qed

theorem base64_round_trip_witness:
  "\<exists>b b'. buffer_append_base64_encode buffer_init ''user:pass'' BASE64_URL = Some (b, 0)
     \<and> buffer_append_base64_decode buffer_init (buffer_content b) BASE64_URL = Some (b', Some 0)
     \<and> buffer_wf b' \<and> buffer_abs b' = Some ''user:pass''"
  using base64_round_trip [of "''user:pass''" BASE64_URL] by (simp add: fits_def PTRDIFF_MAX_def)

text \<open>
  A failed call leaves its mark: the first digit is stored over the terminator of the text, and
  the error return does not put it back.
\<close>

lemma failed_decode_loses_terminator:
  "\<exists>b. buffer_append_base64_decode (buffer_of ''u'') ''B!'' BASE64_STANDARD = Some (b, None)
     \<and> b_used b = 2 \<and> \<not> buffer_wf b"
proof -
  obtain b rest where b: "buffer_string_prepare_append (buffer_of ''u'') 3 = Some (b, 1)"
      "b_ptr b = map Some ''u'' @ Some NUL # rest" "b_used b = 2"
    using buffer_prepare_append_ok [of "buffer_of ''u''" 3] by (auto simp: fits_def PTRDIFF_MAX_def)
  have t: "base64_reverse_table BASE64_STANDARD ! ucode (CHR ''B'') = 1"
    "base64_reverse_table BASE64_STANDARD ! ucode (CHR ''!'') = -1" by code_simp+
  have "decode_loop BASE64_STANDARD (b_ptr b) 1 0 0 ''B!'' = Some (map Some ''u'' @ Some (char_of (4::nat)) # rest, None)"
    using t b(2) by (simp add: decode_digit_def poke_def del: base64_reverse_table.simps)
  then have "buffer_append_base64_decode (buffer_of ''u'') ''B!'' BASE64_STANDARD
      = Some (b\<lparr>b_ptr := map Some ''u'' @ Some (char_of (4::nat)) # rest\<rparr>, None)"
    using b(1) by (simp add: buffer_append_base64_decode_def)
  moreover have "char_of (4::nat) \<noteq> NUL" by (simp add: char_of_def bit_iff_odd)
  ultimately show ?thesis using b(3) by (simp add: buffer_wf_def)
qed

end
