(* ===== verification/RequestHost.thy ===== *)
theory RequestHost
  imports Keyvalue
begin

text \<open>
  The \<open>Host\<close> of a request, \<open>src/src/request.c\<close> lines 14 to 333: the syntax check
  \<open>request_check_hostname\<close>, the canonical form \<open>http_request_host_normalize\<close> and the policy
  that combines them.  A buffer is its text here, and reading one past the end gives the
  terminator.  The number parsers of the C library are defined below; its address parsers and
  printers, called through \<open>src/src/sock_addr.c\<close>, are the parameter \<open>libc\<close>.
\<close>

section \<open>C library\<close>

definition at :: "string \<Rightarrow> nat \<Rightarrow> char" where
  "at s i = (if i < length s then s ! i else NUL)"

text \<open>\<open>memchr\<close> and \<open>strchr\<close>: the first position of a character.\<close>

definition index_of :: "char \<Rightarrow> string \<Rightarrow> nat option" where
  "index_of c s = (if c \<in> set s then Some (length (takeWhile (\<lambda>x. x \<noteq> c) s)) else None)"

definition is_space :: "char \<Rightarrow> bool" where
  "is_space c \<longleftrightarrow> ucode c = 32 \<or> (9 \<le> ucode c \<and> ucode c \<le> 13)"

definition starts_with :: "string \<Rightarrow> string \<Rightarrow> bool" where
  "starts_with p s \<longleftrightarrow> take (length p) s = p"

text \<open>
  \<open>strtol\<close> and \<open>strtoll\<close> (both types have 64 bits): the value, clamped to the range of the
  type, and the rest of the text (\<open>*endptr\<close>).  Base 0 asks for the C notation.
\<close>

definition clamp64 :: "int \<Rightarrow> int" where
  "clamp64 v = max (- (2 ^ 63)) (min (2 ^ 63 - 1) v)"

definition strtol :: "nat \<Rightarrow> string \<Rightarrow> int \<times> string" where
  "strtol base s =
     (let t = dropWhile is_space s;
          neg = (t \<noteq> [] \<and> hd t = CHR ''-'');
          u = (if t \<noteq> [] \<and> (hd t = CHR ''-'' \<or> hd t = CHR ''+'') then tl t else t);
          hex = (2 < length u \<and> u ! 0 = CHR ''0'' \<and> (u ! 1 = CHR ''x'' \<or> u ! 1 = CHR ''X'') \<and> hex2int (u ! 2) < 16);
          b = (if base = 0 then (if hex then 16 else if u \<noteq> [] \<and> hd u = CHR ''0'' then 8 else 10) else base);
          v = (if base = 0 \<and> hex then drop 2 u else u);
          ds = takeWhile (\<lambda>c. hex2int c < b) v;
          n = foldl (\<lambda>a c. int b * a + int (hex2int c)) 0 ds
      in if ds = [] then (0, s) else (clamp64 (if neg then - n else n), drop (length ds) v))"

text \<open>Addresses: numbers of 32 and 128 bits.\<close>

record libc =
  inet_aton :: "string \<Rightarrow> nat option"
  inet_pton6 :: "string \<Rightarrow> nat option"
  inet_ntop4 :: "nat \<Rightarrow> string"
  inet_ntop6 :: "nat \<Rightarrow> string"

datatype sock_addr = IPv4 nat | IPv6 nat

definition sock_addr_inet_pton4 :: "libc \<Rightarrow> string \<Rightarrow> sock_addr option" where
  "sock_addr_inet_pton4 lc str = map_option IPv4 (inet_aton lc str)"

definition sock_addr_inet_pton6 :: "libc \<Rightarrow> string \<Rightarrow> sock_addr option" where
  "sock_addr_inet_pton6 lc str = map_option IPv6 (inet_pton6 lc str)"

fun sock_addr_inet_ntop :: "libc \<Rightarrow> sock_addr \<Rightarrow> string" where
  "sock_addr_inet_ntop lc (IPv4 a) = inet_ntop4 lc a"
| "sock_addr_inet_ntop lc (IPv6 a) = inet_ntop6 lc a"

definition INET6_ADDRSTRLEN :: nat where "INET6_ADDRSTRLEN = 46"

section \<open>Checking a host name\<close>

text \<open>The text after \<open>[\<close>: digits, dots and at most seven colons up to \<open>]\<close>, then a port or nothing.\<close>

fun check_port_digits :: "string \<Rightarrow> bool" where
  "check_port_digits [] = True"
| "check_port_digits (c # s) = (if c = NUL then True else if \<not> light_isdigit c then False else check_port_digits s)"

fun check_ipv6 :: "nat \<Rightarrow> string \<Rightarrow> int" where
  "check_ipv6 colon_cnt [] = -1"
| "check_ipv6 colon_cnt (c # s) =
     (if c = NUL then -1
      else if c = CHR '']'' then
        (if at s 0 = CHR '':'' then (if check_port_digits (drop 1 s) then 0 else -1)
         else if at s 0 \<noteq> NUL then -1 else 0)
      else if c = CHR '':'' then (if 7 < colon_cnt + 1 then -1 else check_ipv6 (colon_cnt + 1) s)
      else if \<not> light_isxdigit c \<and> c \<noteq> CHR ''.'' then -1
      else check_ipv6 colon_cnt s)"

datatype hostname_stage = DOMAINLABEL | TOPLABEL

record hostname_state =
  hn_stage :: hostname_stage
  hn_is_ip :: int
  hn_label_len :: nat
  hn_level :: nat

text \<open>The scan goes from right to left; \<open>None\<close> is \<open>return -1\<close>.\<close>

definition toplabel_step :: "string \<Rightarrow> nat \<Rightarrow> nat \<Rightarrow> hostname_state \<Rightarrow> hostname_state option" where
  "toplabel_step h host_len i st =
     (let c = at h i; r = at h (i + 1)
      in if c = CHR ''.'' then
           (if i \<noteq> host_len - 1 then
              (if hn_label_len st = 0 then None
               else if hn_is_ip st = 0 \<and> \<not> light_isalnum r then None
               else if hn_is_ip st \<noteq> 0 \<and> light_isdigit r \<and> r = CHR ''-'' then None
               else Some (st\<lparr>hn_is_ip := (if hn_is_ip st = 0 then 0 else if \<not> light_isdigit r then 0 else 1),
                            hn_stage := DOMAINLABEL, hn_label_len := 0, hn_level := hn_level st + 1\<rparr>))
            else if i = 0 then None else Some st)
         else if i = 0 then
           (if \<not> light_isalnum c then None else Some (st\<lparr>hn_label_len := hn_label_len st + 1\<rparr>))
         else if c \<noteq> CHR ''-'' \<and> \<not> light_isalnum c then None
         else Some (st\<lparr>hn_is_ip := (if hn_is_ip st = -1 \<and> \<not> light_isdigit c then 0 else hn_is_ip st),
                      hn_label_len := hn_label_len st + 1\<rparr>))"

definition domainlabel_step :: "string \<Rightarrow> nat \<Rightarrow> hostname_state \<Rightarrow> hostname_state option" where
  "domainlabel_step h i st =
     (let c = at h i
      in if hn_is_ip st = 1 then
           (if c = CHR ''.'' then
              (if hn_label_len st = 0 then None
               else Some (st\<lparr>hn_label_len := 0, hn_level := hn_level st + 1\<rparr>))
            else if \<not> light_isdigit c then None
            else Some (st\<lparr>hn_label_len := hn_label_len st + 1\<rparr>))
         else if c = CHR ''.'' then
           (if hn_label_len st = 0 then None
            else if at h (i + 1) = CHR ''-'' then None
            else Some (st\<lparr>hn_label_len := 0, hn_level := hn_level st + 1\<rparr>))
         else if i = 0 then
           (if \<not> light_isalnum c then None else Some (st\<lparr>hn_label_len := hn_label_len st + 1\<rparr>))
         else if c \<noteq> CHR ''-'' \<and> \<not> light_isalnum c then None
         else Some (st\<lparr>hn_label_len := hn_label_len st + 1\<rparr>))"

fun hostname_loop :: "string \<Rightarrow> nat \<Rightarrow> nat \<Rightarrow> hostname_state \<Rightarrow> hostname_state option" where
  "hostname_loop h host_len 0 st = Some st"
| "hostname_loop h host_len (Suc i) st =
     (case (case hn_stage st of TOPLABEL \<Rightarrow> toplabel_step h host_len i st | DOMAINLABEL \<Rightarrow> domainlabel_step h i st) of
        None \<Rightarrow> None
      | Some st \<Rightarrow> hostname_loop h host_len i st)"

definition hostname_scan :: "string \<Rightarrow> nat \<Rightarrow> int" where
  "hostname_scan h host_len =
     (case hostname_loop h host_len host_len \<lparr>hn_stage = TOPLABEL, hn_is_ip = -1, hn_label_len = 0, hn_level = 0\<rparr> of
        None \<Rightarrow> -1
      | Some st \<Rightarrow>
          if hn_is_ip st = 1 \<and> hn_level st \<noteq> 3 then -1
          else if hn_label_len st = 0 then -1 else 0)"

text \<open>The result is the return value and the text, from which a final dot has been removed.\<close>

definition request_check_hostname :: "string \<Rightarrow> int \<times> string" where
  "request_check_hostname host =
     (if at host 0 = CHR ''['' then (check_ipv6 0 (drop 1 host), host)
      else
        (let colon = index_of (CHR '':'') host;
             host_len = (case colon of None \<Rightarrow> length host | Some p \<Rightarrow> p)
         in if (case colon of None \<Rightarrow> False | Some p \<Rightarrow> \<not> check_port_digits (drop (p + 1) host)) then (-1, host)
            else if host_len = 0 then (-1, host)
            else if at host (host_len - 1) = CHR ''.'' then
              (let host' = take (host_len - 1) host @ drop host_len host
               in if host_len - 1 = 0 then (-1, host') else (hostname_scan host' (host_len - 1), host'))
            else (hostname_scan host host_len, host)))"

section \<open>The canonical form\<close>

definition valid_port :: "int \<times> string \<Rightarrow> bool" where
  "valid_port r \<longleftrightarrow> 0 < fst r \<and> fst r \<le> 65535 \<and> snd r = []"

text \<open>Names and IPv4 addresses: the port (0 if none) and the new text, or \<open>None\<close> for \<open>return -1\<close>.\<close>

definition normalize_name :: "libc \<Rightarrow> string \<Rightarrow> (int \<times> string) option" where
  "normalize_name lc b = do {
     (port, b) \<leftarrow>
       (case index_of (CHR '':'') b of
          None \<Rightarrow> Some (0, b)
        | Some p \<Rightarrow>
            if p = 0 then None
            else if at b (p + 1) \<noteq> NUL then
              (let r = strtol 0 (cstr (drop (p + 1) b))
               in if valid_port r then Some (fst r, take p b) else None)
            else Some (0, take p b));
     Some (port,
       if light_isdigit (at b 0) then
         (case sock_addr_inet_pton4 lc (cstr b) of
            None \<Rightarrow> b | Some addr \<Rightarrow> cstr (sock_addr_inet_ntop lc addr))
       else b)
   }"

definition normalize_ipv6 :: "libc \<Rightarrow> string \<Rightarrow> (int \<times> string) option" where
  "normalize_ipv6 lc b = do {
     let blen = length b;
     let percent = map_option Suc (index_of (CHR ''%'') (cstr (drop 1 b)));
     (bracket, port) \<leftarrow>
       (if blen \<le> 2 then None
        else if at b (blen - 1) = CHR '']'' then Some (blen - 1, 0)
        else (case map_option Suc (index_of (CHR '']'') (drop 1 b)) of
                None \<Rightarrow> None
              | Some q \<Rightarrow>
                  if at b (q + 1) \<noteq> CHR '':'' \<or> q = 1 then None
                  else if at b (q + 2) \<noteq> NUL then
                    (let r = strtol 0 (cstr (drop (q + 2) b))
                     in if valid_port r then Some (q, fst r) else None)
                  else Some (q, 0)));
     let stop = (case percent of None \<Rightarrow> bracket | Some p \<Rightarrow> min p bracket);
     addr \<leftarrow> sock_addr_inet_pton6 lc (cstr (take (stop - 1) (drop 1 b)));
     let buf = cstr (sock_addr_inet_ntop lc addr);
     buf \<leftarrow>
       (case percent of
          None \<Rightarrow> Some buf
        | Some p \<Rightarrow>
            if bracket < p then None
            else if INET6_ADDRSTRLEN + 16 \<le> length buf + (bracket - p) then None
            else Some (buf @ take (bracket - p) (drop p b)));
     Some (port, ''['' @ buf @ '']'')
   }"

definition http_request_host_normalize :: "libc \<Rightarrow> string \<Rightarrow> int \<Rightarrow> string option" where
  "http_request_host_normalize lc b scheme_port = do {
     (port, b) \<leftarrow> (if at b 0 \<noteq> CHR ''['' then normalize_name lc b else normalize_ipv6 lc b);
     Some (if port \<noteq> 0 \<and> port \<noteq> scheme_port then b @ '':'' @ itostr [] port else b)
   }"

definition scheme_port :: "string \<Rightarrow> int" where
  "scheme_port scheme = (if scheme = ''https'' then 443 else 80)"

record parse_conf =
  header_strict :: bool
  host_strict :: bool
  host_normalize :: bool
  allow_http11 :: bool

text \<open>The result says whether the host is refused; the text is what is left in the buffer.\<close>

definition http_request_host_policy :: "parse_conf \<Rightarrow> libc \<Rightarrow> string \<Rightarrow> string \<Rightarrow> bool \<times> string" where
  "http_request_host_policy conf lc b scheme =
     (let (bad, b) = (if host_strict conf then
                        (case request_check_hostname b of (rc, b) \<Rightarrow> (rc \<noteq> 0, b)) else (False, b))
      in if bad then (True, b)
         else if host_normalize conf then
           (case http_request_host_normalize lc b (scheme_port scheme) of
              None \<Rightarrow> (True, b) | Some b \<Rightarrow> (False, b))
         else (False, b))"

section \<open>What a checked host consists of\<close>

definition hostname_char :: "char \<Rightarrow> bool" where
  "hostname_char c \<longleftrightarrow> light_isalnum c \<or> c = CHR ''-'' \<or> c = CHR ''.''"

lemma toplabel_char: "toplabel_step h n i st = Some st' \<Longrightarrow> hostname_char (at h i)"
  by (auto simp: toplabel_step_def hostname_char_def Let_def split: if_splits)

lemma domainlabel_char: "domainlabel_step h i st = Some st' \<Longrightarrow> hostname_char (at h i)"
  by (auto simp: domainlabel_step_def hostname_char_def light_isalnum_def Let_def split: if_splits)

lemma hostname_loop_chars:
  "hostname_loop h n i st = Some st' \<Longrightarrow> j < i \<Longrightarrow> hostname_char (at h j)"
proof (induction i arbitrary: st)
  case (Suc i)
  then show ?case
    by (cases "j = i") (auto split: option.splits hostname_stage.splits dest: toplabel_char domainlabel_char)
qed simp

lemma scan_chars:
  assumes "hostname_scan h n = 0" "n \<le> length h"
  shows "x \<in> set (take n h) \<Longrightarrow> hostname_char x" "0 < n"
proof -
  obtain st where st: "hostname_loop h n n \<lparr>hn_stage = TOPLABEL, hn_is_ip = -1, hn_label_len = 0, hn_level = 0\<rparr> = Some st"
      "hn_label_len st \<noteq> 0"
    using assms(1) by (auto simp: hostname_scan_def split: option.splits if_splits)
  then show "0 < n" by (cases n) auto
  assume "x \<in> set (take n h)"
  then obtain j where "j < n" "x = h ! j" using assms(2) by (auto simp: in_set_conv_nth)
  then show "hostname_char x" using hostname_loop_chars [OF st(1), of j] assms(2) by (simp add: at_def)
qed

lemma check_port_digits_chars:
  "check_port_digits s \<Longrightarrow> NUL \<notin> set s \<Longrightarrow> x \<in> set s \<Longrightarrow> light_isdigit x"
  by (induction s) (auto split: if_splits)

lemma check_ipv6_chars:
  "check_ipv6 n s = 0 \<Longrightarrow> NUL \<notin> set s \<Longrightarrow> x \<in> set s \<Longrightarrow>
   light_isxdigit x \<or> x = CHR ''.'' \<or> x = CHR '':'' \<or> x = CHR '']''"
proof (induction n s rule: check_ipv6.induct)
  case (2 n c s)
  show ?case
  proof (cases "c = CHR '']''")
    case True
    have d: "light_isdigit y \<Longrightarrow> light_isxdigit y" for y by (simp add: light_isdigit_def light_isxdigit_iff)
    show ?thesis
    proof (cases s)
      case Nil
      then show ?thesis using 2(5) True by simp
    next
      case (Cons y r)
      then have "y = CHR '':''" "check_port_digits r" using 2(3,4) True by (auto simp: at_def split: if_splits)
      then show ?thesis using check_port_digits_chars [of r x] 2(4,5) True Cons d by auto
    qed
  next
    case False
    then show ?thesis using 2 by (auto split: if_splits)
  qed
qed simp

text \<open>The characters of a host that has passed, and of the text that is left of it.\<close>

definition host_char :: "char \<Rightarrow> bool" where
  "host_char c \<longleftrightarrow> light_isalnum c \<or> c \<in> set ''-.:[]''"

lemma request_check_hostname_chars:
  assumes "request_check_hostname host = (0, host')" "NUL \<notin> set host" "x \<in> set host'"
  shows "host_char x"
proof (cases "at host 0 = CHR ''[''")
  case True
  then have h: "host = CHR ''['' # drop 1 host" by (cases host) (auto simp: at_def)
  then have "NUL \<notin> set (drop 1 host)" using assms(2) by (metis in_set_dropD)
  moreover have "check_ipv6 0 (drop 1 host) = 0" "host' = host" using assms(1) True by (auto simp: request_check_hostname_def)
  ultimately have "x \<in> set (drop 1 host) \<Longrightarrow> light_isxdigit x \<or> x = CHR ''.'' \<or> x = CHR '':'' \<or> x = CHR '']''"
    using check_ipv6_chars by blast
  moreover have "x = CHR ''['' \<or> x \<in> set (drop 1 host)" using assms(3) \<open>host' = host\<close> h by (metis set_ConsD)
  moreover have "light_isxdigit x \<Longrightarrow> light_isalnum x" by (auto simp: light_isxdigit_iff light_isalnum_def light_isalpha_iff light_isdigit_def)
  ultimately show ?thesis by (auto simp: host_char_def)
next
  case False
  define n where "n = (case index_of (CHR '':'') host of None \<Rightarrow> length host | Some p \<Rightarrow> p)"
  have split: "host = take n host @ drop n host" "n \<le> length host" by (auto simp: n_def index_of_def length_takeWhile_le split: option.split)
  have rest: "host_char y" if "y \<in> set (drop n host)" for y
  proof (cases "index_of (CHR '':'') host")
    case None
    then show ?thesis using that by (simp add: n_def)
  next
    case (Some p)
    have "check_port_digits (drop (p + 1) host)"
      using assms(1) False Some by (auto simp: request_check_hostname_def split: if_splits)
    moreover have "NUL \<notin> set (drop (p + 1) host)" using assms(2) by (meson in_set_dropD)
    moreover have "drop p host = CHR '':'' # drop (p + 1) host"
    proof -
      have p: "p = length (takeWhile (\<lambda>x. x \<noteq> CHR '':'') host)" "CHR '':'' \<in> set host"
        using Some by (auto simp: index_of_def split: if_splits)
      then have "p < length host" "host ! p = CHR '':''"
        using length_takeWhile_le [of "\<lambda>x. x \<noteq> CHR '':''" host] takeWhile_eq_all_conv [of "\<lambda>x. x \<noteq> CHR '':''" host]
          nth_length_takeWhile [of "\<lambda>x. x \<noteq> CHR '':''" host]
        by (metis order_le_less takeWhile_eq_take take_all_iff order_refl, metis order_le_less takeWhile_eq_take take_all_iff order_refl)
      then show ?thesis by (metis Cons_nth_drop_Suc Suc_eq_plus1)
    qed
    ultimately show ?thesis using that Some check_port_digits_chars [of "drop (p + 1) host" y]
      by (auto simp: n_def host_char_def light_isalnum_def)
  qed
  have hc: "hostname_char y \<Longrightarrow> host_char y" for y by (auto simp: hostname_char_def host_char_def)
  have n0: "n \<noteq> 0" using assms(1) False by (auto simp: request_check_hostname_def n_def split: if_splits option.splits)
  show ?thesis
  proof (cases "at host (n - 1) = CHR ''.''")
    case True
    have h': "host' = take (n - 1) host @ drop n host" "hostname_scan host' (n - 1) = 0"
      using assms(1) False True n0 by (auto simp: request_check_hostname_def n_def Let_def split: if_splits option.splits)
    have "take (n - 1) host' = take (n - 1) host" using h'(1) split(2) by simp
    then have "y \<in> set (take (n - 1) host) \<Longrightarrow> hostname_char y" for y
      using scan_chars(1) [OF h'(2), of y] h'(1) split(2) by simp
    then show ?thesis using assms(3) h'(1) rest hc by auto
  next
    case f: False
    then have "host' = host" "hostname_scan host n = 0"
      using assms(1) False n0 by (auto simp: request_check_hostname_def n_def Let_def split: if_splits option.splits)
    then have "y \<in> set (take n host) \<Longrightarrow> hostname_char y" for y using scan_chars(1) split(2) by blast
    moreover have "x \<in> set (take n host) \<or> x \<in> set (drop n host)"
      using assms(3) \<open>host' = host\<close> split(1) by (metis Un_iff set_append)
    ultimately show ?thesis using rest hc by blast
  qed
qed

section \<open>Properties\<close>

text \<open>
  C7. A \<open>Host\<close> that passes the strict check consists of letters, digits, \<open>-\<close>, \<open>.\<close>, \<open>:\<close> and
  brackets only, in the form in which it is kept (a final dot removed): it holds no slash, no
  percent sign, no blank, quote or control character that could get into a path or a log line.
\<close>

theorem checked_host_is_safe:
  assumes "request_check_hostname host = (0, host')" "NUL \<notin> set host"
  shows "\<forall>x\<in>set host'. light_isalnum x \<or> x \<in> set ''-.:[]''"
  using request_check_hostname_chars [OF assms] by (auto simp: host_char_def)

theorem checked_host_is_safe_witness:
  "request_check_hostname ''www.example.org.:8080'' = (0, ''www.example.org:8080'')
   \<and> set ''www.example.org:8080'' \<subseteq> {x. light_isalnum x \<or> x \<in> set ''-.:[]''}"
proof -
  have "request_check_hostname ''www.example.org.:8080'' = (0, ''www.example.org:8080'')" by code_simp
  moreover have "NUL \<notin> set ''www.example.org.:8080''" by simp
  ultimately show ?thesis using checked_host_is_safe [of "''www.example.org.:8080''" "''www.example.org:8080''"] by blast
qed

end
