(* ===== verification/Request.thy ===== *)
theory Request
  imports Arrays RequestHost
begin

text \<open>
  The request parser \<open>http_request_parse\<close> of \<open>src/src/request.c\<close>, lines 335 to 1325.  It
  works in place on a copy of the request head, \<open>mem\<close>, which ends in a terminator; the
  pointers into it (\<open>method\<close>, \<open>uri\<close>, \<open>proto\<close>, \<open>key\<close>, \<open>value\<close>) are positions.  Every access
  to \<open>mem\<close> is checked: the outer \<open>None\<close> of a result is an access out of bounds or through a
  dangling pointer.  Inside, \<open>Inl\<close> is a \<open>return 0\<close> on an error and \<open>Inr\<close> goes on.
\<close>

section \<open>The request\<close>

text \<open>
  The fields \<open>http_host\<close> (a buffer) and \<open>http_content_type\<close>, \<open>http_if_modified_since\<close>,
  \<open>http_if_none_match\<close>, \<open>http_range\<close> (characters) point at the value of the header entry of
  that name.  \<open>Pending\<close> is an entry not yet put among the headers, \<open>Freed\<close> memory that is no
  longer its value.
\<close>

datatype vref = Pending | Live | Freed

record request =
  rq_method :: http_method_t
  rq_version :: http_version_t
  rq_uri :: string
  rq_orig_uri :: string
  rq_line :: string
  rq_headers :: array
  rq_split_vals :: array
  rq_host :: "vref option"
  rq_content_type :: "vref option"
  rq_if_modified_since :: "vref option"
  rq_if_none_match :: "vref option"
  rq_range :: "vref option"
  rq_content_length :: int
  rq_status :: int
  rq_keep_alive :: bool
  rq_resp_keep_alive :: bool
  rq_header_len :: nat

definition bad_request :: "int \<Rightarrow> request \<Rightarrow> request" where
  "bad_request status rq = rq\<lparr>rq_status := status, rq_keep_alive := False, rq_resp_keep_alive := False\<rparr>"

definition refuse :: "int \<Rightarrow> request \<Rightarrow> request" where
  "refuse status rq = rq\<lparr>rq_status := status, rq_keep_alive := False\<rparr>"

definition http_request_missing_CR_before_LF :: "request \<Rightarrow> request" where
  "http_request_missing_CR_before_LF rq = bad_request 400 rq"

text \<open>Checked access to the request head.\<close>

definition mwrite :: "string \<Rightarrow> nat \<Rightarrow> char \<Rightarrow> string option" where
  "mwrite mem i c = (if i < length mem then Some (mem[i := c]) else None)"

definition mslice :: "string \<Rightarrow> nat \<Rightarrow> nat \<Rightarrow> string option" where
  "mslice mem p n = (if p + n \<le> length mem then Some (take n (drop p mem)) else None)"

definition cstr_at :: "string \<Rightarrow> nat \<Rightarrow> string option" where
  "cstr_at mem p = (if NUL \<in> set (drop p mem) then Some (cstr (drop p mem)) else None)"

section \<open>Lists of options\<close>

text \<open>
  \<open>http_request_split_value\<close>: the text with its terminator, and the token that has begun
  (its first and its last position that is not blank).
\<close>

fun split_loop :: "array \<Rightarrow> string \<Rightarrow> nat \<Rightarrow> (nat \<times> nat) option \<Rightarrow> string \<Rightarrow> array option" where
  "split_loop vals b i tok [] = Some vals"
| "split_loop vals b i None (c # cs) =
     (if c = SP \<or> c = TAB \<or> c = CHR '','' then split_loop vals b (i + 1) None cs
      else if c = NUL then Some vals
      else split_loop vals b (i + 1) (Some (i, i)) cs)"
| "split_loop vals b i (Some (s, e)) (c # cs) =
     (if c = SP \<or> c = TAB then split_loop vals b (i + 1) (Some (s, e)) cs
      else if c = CHR '','' \<or> c = NUL then do {
        let (unused, vals) = array_get_unused_element vals TYPE_STRING;
        let ds = (case unused of None \<Rightarrow> data_string_init | Some d \<Rightarrow> d);
        vals \<leftarrow> array_insert_unique vals (ds\<lparr>du_value := Some (take (e - s + 1) (drop s b))\<rparr>);
        split_loop vals b (i + 1) None cs
      }
      else split_loop vals b (i + 1) (Some (s, i)) cs)"

definition http_request_split_value :: "array \<Rightarrow> string option \<Rightarrow> array option" where
  "http_request_split_value vals b =
     (if abs_bytes b = [] then Some vals else split_loop vals (abs_bytes b) 0 None (abs_bytes b @ [NUL]))"

section \<open>The request line\<close>

definition request_uri_is_valid_char :: "char \<Rightarrow> bool" where
  "request_uri_is_valid_char c \<longleftrightarrow> \<not> ucode c \<le> 32 \<and> ucode c \<noteq> 127 \<and> ucode c \<noteq> 255"

definition request_uri_ok :: "bool \<Rightarrow> string \<Rightarrow> bool" where
  "request_uri_ok strict uri \<longleftrightarrow> (if strict then list_all request_uri_is_valid_char uri else NUL \<notin> set uri)"

definition request_version :: "bool \<Rightarrow> string \<Rightarrow> (request \<Rightarrow> request) + http_version_t" where
  "request_version http11 proto =
     (if starts_with ''HTTP/'' proto then
        (let major = drop 5 proto in
         case index_of (CHR ''.'') major of
           None \<Rightarrow> Inl (refuse 400)
         | Some p \<Rightarrow>
             (let minor = drop (p + 1) major;
                  (major_num, err1) = strtol 10 (take p major);
                  (minor_num, err2) = strtol 10 minor
              in if p = 0 \<or> minor = [] \<or> err1 \<noteq> [] \<or> err2 \<noteq> [] then Inl (refuse 400)
                 else if int32 major_num = 1 \<and> int32 minor_num = 1 then
                   Inr (if http11 then HTTP_VERSION_1_1 else HTTP_VERSION_1_0)
                 else if int32 major_num = 1 \<and> int32 minor_num = 0 then Inr HTTP_VERSION_1_0
                 else Inl (\<lambda>rq. rq\<lparr>rq_status := 505\<rparr>)))
      else Inl (refuse 400))"

text \<open>
  Where the path begins in the target \<open>u\<close> (a C string), and position and length of the host
  of a target with a scheme; \<open>None\<close> is the parse error.
\<close>

definition request_target :: "bool \<Rightarrow> http_method_t \<Rightarrow> string \<Rightarrow> (nat \<times> (nat \<times> nat) option) option" where
  "request_target strict m u =
     (let plain = (if \<not> strict
                      \<or> (m = HTTP_METHOD_CONNECT \<and> (at u 0 = CHR '':'' \<or> light_isdigit (at u 0)))
                      \<or> (m = HTTP_METHOD_OPTIONS \<and> at u 0 = CHR ''*'' \<and> at u 1 = NUL)
                   then Some (0, None) else None);
          host_from = (\<lambda>n. map_option (\<lambda>k. (n + k, Some (n, k))) (index_of (CHR ''/'') (drop n u)))
      in if at u 0 = CHR ''/'' then Some (0, None)
         else if strncasecmp_eq u ''http://'' 7 \<and> host_from 7 \<noteq> None then host_from 7
         else if strncasecmp_eq u ''https://'' 8 \<and> host_from 8 \<noteq> None then host_from 8
         else plain)"

record line_state =
  ls_mem :: string
  ls_i :: nat
  ls_first :: nat
  ls_stage :: nat
  ls_method :: "nat option"
  ls_uri :: "nat option"
  ls_host :: "(nat \<times> nat) option"
  ls_line :: bool
  ls_req :: request

text \<open>The rest of the line's end, once its \<open>CR LF\<close> or \<open>LF\<close> is overwritten and \<open>i\<close> is at the last of them.\<close>

definition parse_request_line :: "bool \<Rightarrow> bool \<Rightarrow> line_state \<Rightarrow> (request + line_state) option" where
  "parse_request_line strict http11 st =
     (let rq = ls_req st; proto = ls_first st in
      if ls_stage st \<noteq> 2 then Some (Inl (bad_request 400 rq))
      else do {
        uri \<leftarrow> ls_uri st;
        method \<leftarrow> ls_method st;
        force_assert (0 < uri \<and> 0 < proto);
        mem \<leftarrow> mwrite (ls_mem st) (uri - 1) NUL;
        mem \<leftarrow> mwrite mem (proto - 1) NUL;
        method_text \<leftarrow> cstr_at mem method;
        proto_text \<leftarrow> cstr_at mem proto;
        uri_text \<leftarrow> cstr_at mem uri;
        let m = get_http_method_key method_text;
        if m = HTTP_METHOD_UNSET then Some (Inl (bad_request 501 rq))
        else (let rq = rq\<lparr>rq_method := m\<rparr> in
          case request_version http11 proto_text of
            Inl fail \<Rightarrow> Some (Inl (fail rq))
          | Inr version \<Rightarrow>
              (let rq = rq\<lparr>rq_version := version\<rparr> in
               case request_target strict m uri_text of
                 None \<Rightarrow> Some (Inl (refuse 400 rq))
               | Some (path, host) \<Rightarrow> do {
                   text \<leftarrow> mslice mem (uri + path) (proto - (uri + path) - 1);
                   let rq = rq\<lparr>rq_uri := text\<rparr>;
                   if \<not> request_uri_ok strict text then Some (Inl (refuse 400 rq))
                   else Some (Inr (st\<lparr>ls_mem := mem, ls_first := ls_i st + 1, ls_line := True,
                          ls_host := map_option (\<lambda>(p, n). (uri + p, n)) host,
                          ls_req := rq\<lparr>rq_orig_uri := text, rq_status := 0\<rparr>\<rparr>))
                 }))
      })"

definition request_line_step :: "bool \<Rightarrow> bool \<Rightarrow> line_state \<Rightarrow> (request + line_state) option" where
  "request_line_step strict http11 st = do {
     let (mem, i) = (ls_mem st, ls_i st);
     c \<leftarrow> nth_opt mem i;
     n \<leftarrow> nth_opt mem (i + 1);
     if (c = CR \<and> n = LF) \<or> c = LF then do {
       text \<leftarrow> mslice mem 0 i;
       let rq = (ls_req st)\<lparr>rq_line := text\<rparr>;
       if c = CR then do {
         mem \<leftarrow> mwrite mem i NUL;
         mem \<leftarrow> mwrite mem (i + 1) NUL;
         parse_request_line strict http11 (st\<lparr>ls_mem := mem, ls_i := i + 1, ls_req := rq\<rparr>)
       }
       else if strict then Some (Inl (http_request_missing_CR_before_LF rq))
       else do {
         mem \<leftarrow> mwrite mem i NUL;
         parse_request_line strict http11 (st\<lparr>ls_mem := mem, ls_req := rq\<rparr>)
       }
     }
     else if c = SP then
       (if ls_stage st = 0 then
          Some (Inr (st\<lparr>ls_method := Some (ls_first st), ls_first := i + 1, ls_stage := 1\<rparr>))
        else if ls_stage st = 1 then
          Some (Inr (st\<lparr>ls_uri := Some (ls_first st), ls_first := i + 1, ls_stage := 2\<rparr>))
        else Some (Inl (bad_request 400 (ls_req st))))
     else Some (Inr st)
   }"

lemma parse_request_line_i: "parse_request_line strict http11 st = Some (Inr st') \<Longrightarrow> ls_i st' = ls_i st"
  by (auto simp: parse_request_line_def Let_def split: if_splits bind_splits sum.splits option.splits)

lemma request_line_step_i: "request_line_step strict http11 st = Some (Inr st') \<Longrightarrow> ls_i st \<le> ls_i st'"
  by (auto simp: request_line_step_def Let_def split: if_splits bind_splits dest!: parse_request_line_i)

function request_line_loop :: "bool \<Rightarrow> bool \<Rightarrow> nat \<Rightarrow> line_state \<Rightarrow> (request + line_state) option" where
  "request_line_loop strict http11 ilen st =
     (if ls_i st < ilen \<and> \<not> ls_line st then
        (case request_line_step strict http11 st of
           Some (Inr st) \<Rightarrow> request_line_loop strict http11 ilen (st\<lparr>ls_i := ls_i st + 1\<rparr>)
         | r \<Rightarrow> r)
      else Some (Inr st))"
  by pat_completeness auto
termination
  by (relation "measure (\<lambda>(strict, http11, ilen, st). ilen - ls_i st)") (auto dest!: request_line_step_i)

declare request_line_loop.simps [simp del]

section \<open>Header lines\<close>

datatype keep_alive_t = HTTP_CONNECTION_UNSET | HTTP_CONNECTION_KEEPALIVE | HTTP_CONNECTION_CLOSE

record header_state =
  hs_mem :: string
  hs_i :: nat
  hs_first :: nat
  hs_is_key :: bool
  hs_key_len :: nat
  hs_ws_after_key :: bool
  hs_in_folding :: bool
  hs_value :: "nat option"
  hs_key :: "nat option"
  hs_con_length_set :: bool
  hs_keep_alive_set :: keep_alive_t
  hs_done :: bool
  hs_req :: request

definition key_separators :: string where
  "key_separators = [CHR ''('', CHR '')'', CHR ''<'', CHR ''>'', CHR ''@'', CHR '','', CHR '';'', CHR 0x5C,
     CHR 0x22, CHR ''/'', CHR ''['', CHR '']'', CHR ''?'', CHR ''='', CHR ''{'', CHR ''}'']"

text \<open>How far away the colon is behind blanks; the inner \<open>None\<close> is another character.\<close>

fun find_colon :: "string \<Rightarrow> nat option option" where
  "find_colon [] = None"
| "find_colon (c # s) =
     (if c = SP \<or> c = TAB then map_option (map_option Suc) (find_colon s)
      else if c = CHR '':'' then Some (Some 0)
      else Some None)"

definition header_key_step :: "bool \<Rightarrow> header_state \<Rightarrow> (request + header_state) option" where
  "header_key_step strict st = do {
     let (mem, i) = (hs_mem st, hs_i st);
     let bad = Some (Inl (bad_request 400 (hs_req st)));
     c \<leftarrow> nth_opt mem i;
     if c = CHR '':'' then
       Some (Inr (st\<lparr>hs_is_key := False, hs_value := Some (i + 1),
              hs_key_len := (if hs_ws_after_key st then hs_key_len st else i - hs_first st),
              hs_ws_after_key := False\<rparr>))
     else if c \<in> set key_separators then bad
     else if c = SP \<or> c = TAB then
       (if i = hs_first st then
          Some (Inr (st\<lparr>hs_is_key := False, hs_in_folding := True, hs_value := Some i\<rparr>))
        else
          (case find_colon (drop (i + 1) mem) of
             None \<Rightarrow> None
           | Some None \<Rightarrow> bad
           | Some (Some j) \<Rightarrow>
               Some (Inr (st\<lparr>hs_key_len := i - hs_first st, hs_i := i + j, hs_ws_after_key := True\<rparr>))))
     else if c = CR then do {
       n \<leftarrow> nth_opt mem (i + 1);
       if n = LF \<and> i = hs_first st then do {
         mem \<leftarrow> mwrite mem i NUL;
         mem \<leftarrow> mwrite mem (i + 1) NUL;
         Some (Inr (st\<lparr>hs_mem := mem, hs_i := i + 1, hs_done := True\<rparr>))
       }
       else bad
     }
     else if c = LF \<and> strict then Some (Inl (http_request_missing_CR_before_LF (hs_req st)))
     else if c = LF \<and> i = hs_first st then do {
       mem \<leftarrow> mwrite mem i NUL;
       Some (Inr (st\<lparr>hs_mem := mem, hs_done := True\<rparr>))
     }
     else if (if strict then scode c < 32 \<or> 127 \<le> ucode c else c = NUL) then bad
     else Some (Inr st)
   }"

text \<open>
  Putting an entry among the headers.  A second entry of a name is appended to the first, and
  freed; \<open>moves v t\<close> says whether the buffer with the text \<open>v\<close> is reallocated when \<open>t\<close> is
  appended to it, so that pointers into it dangle.
\<close>

definition map_refs :: "(string \<Rightarrow> vref \<Rightarrow> vref) \<Rightarrow> request \<Rightarrow> request" where
  "map_refs f rq = rq\<lparr>
     rq_content_type := map_option (f ''Content-Type'') (rq_content_type rq),
     rq_if_modified_since := map_option (f ''If-Modified-Since'') (rq_if_modified_since rq),
     rq_if_none_match := map_option (f ''If-None-Match'') (rq_if_none_match rq),
     rq_range := map_option (f ''Range'') (rq_range rq)\<rparr>"

definition stale_refs :: "string \<Rightarrow> request \<Rightarrow> request" where
  "stale_refs key rq = map_refs (\<lambda>name r. if r = Live \<and> buffer_caseless_compare name key = 0 then Freed else r) rq"

definition settle_refs :: "vref \<Rightarrow> request \<Rightarrow> request" where
  "settle_refs to rq = (map_refs (\<lambda>name r. if r = Pending then to else r) rq)
     \<lparr>rq_host := map_option (\<lambda>r. if r = Pending then to else r) (rq_host rq)\<rparr>"

definition put_header :: "(string \<Rightarrow> string \<Rightarrow> bool) \<Rightarrow> request \<Rightarrow> data_unset \<Rightarrow> request option" where
  "put_header moves rq ds = do {
     let key = abs_bytes (du_key ds);
     old \<leftarrow> array_get_element_klen (rq_headers rq) key;
     hdrs \<leftarrow> array_insert_unique (rq_headers rq) ds;
     let rq = rq\<lparr>rq_headers := hdrs\<rparr>;
     case old of
       None \<Rightarrow> Some (settle_refs Live rq)
     | Some d \<Rightarrow>
         (let rq = (if moves (abs_bytes (du_value d)) ('', '' @ abs_bytes (du_value ds))
                    then stale_refs key rq else rq)
          in Some (settle_refs Freed rq))
   }"

text \<open>Writing to the value of the entry \<open>ds\<close> that \<open>array_get_element\<close> has found.\<close>

definition array_set_value :: "array \<Rightarrow> string \<Rightarrow> string option \<Rightarrow> array option" where
  "array_set_value a key value = do {
     (ndx, pos) \<leftarrow> array_get_index a key;
     i \<leftarrow> ndx;
     d \<leftarrow> nth_opt (a_data a) i;
     d \<leftarrow> d;
     Some (a\<lparr>a_data := (a_data a)[i := Some (d\<lparr>du_value := value\<rparr>)]\<rparr>)
   }"

text \<open>The text behind such a pointer.\<close>

definition deref :: "request \<Rightarrow> string \<Rightarrow> vref \<Rightarrow> string option" where
  "deref rq name r = do {
     force_assert (r = Live);
     d \<leftarrow> array_get_element_klen (rq_headers rq) name;
     d \<leftarrow> d;
     du_value d
   }"

text \<open>
  The headers the parser looks at, in the order in which it compares; the chain of
  comparisons stops at the first name that is greater than the key.
\<close>

fun special_name :: "string \<Rightarrow> string list \<Rightarrow> string option" where
  "special_name key [] = None"
| "special_name key (name # names) =
     (let cmp = buffer_caseless_compare key name
      in if cmp = 0 then Some name else if cmp > 0 then special_name key names else None)"

definition special_names :: "string list" where
  "special_names = [''Connection'', ''Content-Length'', ''Content-Type'', ''Host'',
     ''If-Modified-Since'', ''If-None-Match'', ''Range'']"

fun connection_option :: "string list \<Rightarrow> keep_alive_t \<Rightarrow> keep_alive_t" where
  "connection_option [] old = old"
| "connection_option (v # vs) old =
     (if buffer_caseless_compare v ''keep-alive'' = 0 then HTTP_CONNECTION_KEEPALIVE
      else if buffer_caseless_compare v ''close'' = 0 then HTTP_CONNECTION_CLOSE
      else connection_option vs old)"

text \<open>\<open>keep\<close> says whether the entry is to be put among the headers; otherwise it has been freed.\<close>

definition special_header ::
    "bool \<Rightarrow> (string \<Rightarrow> string \<Rightarrow> bool) \<Rightarrow> header_state \<Rightarrow> data_unset \<Rightarrow> (request + bool \<times> header_state) option" where
  "special_header has_reqline_host moves st ds =
     (let rq = hs_req st;
          value = abs_bytes (du_value ds);
          reject = map_option Inl (put_header moves (refuse 400 rq) ds);
          keep = (\<lambda>rq. Some (Inr (True, st\<lparr>hs_req := rq\<rparr>)));
          skip = Some (Inr (False, st));
          name = special_name (abs_bytes (du_key ds)) special_names
      in if name = Some ''Connection'' then do {
           vals \<leftarrow> http_request_split_value (array_reset (rq_split_vals rq)) (du_value ds);
           Some (Inr (True, st\<lparr>hs_req := rq\<lparr>rq_split_vals := vals\<rparr>,
             hs_keep_alive_set := connection_option (map (abs_bytes \<circ> du_value) (array_entries vals)) (hs_keep_alive_set st)\<rparr>))
         }
         else if name = Some ''Content-Length'' then
           (if hs_con_length_set st then reject
            else (case strtol 10 (cstr value) of (r, err) \<Rightarrow>
              if err = [] \<and> 0 \<le> r
              then Some (Inr (True, st\<lparr>hs_con_length_set := True, hs_req := rq\<lparr>rq_content_length := r\<rparr>\<rparr>))
              else reject))
         else if name = Some ''Content-Type'' then
           (if rq_content_type rq = None then keep (rq\<lparr>rq_content_type := Some Pending\<rparr>) else reject)
         else if name = Some ''Host'' then
           (if has_reqline_host then skip
            else if rq_host rq = None then keep (rq\<lparr>rq_host := Some Pending\<rparr>) else reject)
         else if name = Some ''If-Modified-Since'' then
           (case rq_if_modified_since rq of
              None \<Rightarrow> keep (rq\<lparr>rq_if_modified_since := Some Pending\<rparr>)
            | Some r \<Rightarrow> do {
                old \<leftarrow> deref rq ''If-Modified-Since'' r;
                if strcasecmp_eq old value then skip else reject
              })
         else if name = Some ''If-None-Match'' then
           (if rq_if_none_match rq = None then keep (rq\<lparr>rq_if_none_match := Some Pending\<rparr>) else skip)
         else if name = Some ''Range'' then
           (if rq_range rq = None then
              (if strncasecmp_eq value ''bytes='' 6 \<and> index_of (CHR ''-'') (cstr (drop 6 value)) \<noteq> None
               then keep (rq\<lparr>rq_range := Some Pending\<rparr>) else keep rq)
            else reject)
         else keep rq)"

definition is_blank :: "char \<Rightarrow> bool" where
  "is_blank c \<longleftrightarrow> c = SP \<or> c = TAB"

definition strip_trailing :: "string \<Rightarrow> string" where
  "strip_trailing s = rev (dropWhile is_blank (rev s))"

text \<open>A header line that ends at \<open>cur\<close>: a field, or the continuation of the one before it.\<close>

definition header_field ::
    "bool \<Rightarrow> (string \<Rightarrow> string \<Rightarrow> bool) \<Rightarrow> nat \<Rightarrow> header_state \<Rightarrow> (request + header_state) option" where
  "header_field has_reqline_host moves cur st = do {
     let key = hs_first st;
     value \<leftarrow> hs_value st;
     force_assert (value \<le> cur);
     text \<leftarrow> mslice (hs_mem st) value (cur - value);
     let text = strip_trailing text;
     mem \<leftarrow> mwrite (hs_mem st) (value + length text) NUL;
     let st = st\<lparr>hs_mem := mem, hs_key := Some key\<rparr>;
     if text = [] then Some (Inr st)
     else do {
       name \<leftarrow> mslice mem key (hs_key_len st);
       let (unused, hdrs) = array_get_unused_element (rq_headers (hs_req st)) TYPE_STRING;
       let ds = (case unused of None \<Rightarrow> data_string_init | Some d \<Rightarrow> d)\<lparr>du_key := Some name, du_value := Some text\<rparr>;
       r \<leftarrow> special_header has_reqline_host moves (st\<lparr>hs_req := (hs_req st)\<lparr>rq_headers := hdrs\<rparr>\<rparr>) ds;
       case r of
         Inl rq \<Rightarrow> Some (Inl rq)
       | Inr (keep, st) \<Rightarrow>
           if keep then do {
             rq \<leftarrow> put_header moves (hs_req st) ds;
             Some (Inr (st\<lparr>hs_req := rq\<rparr>))
           }
           else Some (Inr st)
     }
   }"

definition header_fold :: "(string \<Rightarrow> string \<Rightarrow> bool) \<Rightarrow> header_state \<Rightarrow> (request + header_state) option" where
  "header_fold moves st =
     (let rq = hs_req st in
      case hs_key st of
        None \<Rightarrow> Some (Inl (bad_request 400 rq))
      | Some key \<Rightarrow>
          if hs_key_len st = 0 then Some (Inl (bad_request 400 rq))
          else do {
            name \<leftarrow> mslice (hs_mem st) key (hs_key_len st);
            ds \<leftarrow> array_get_element_klen (rq_headers rq) name;
            case ds of
              None \<Rightarrow> Some (Inr st)
            | Some ds \<Rightarrow> do {
                value \<leftarrow> hs_value st;
                text \<leftarrow> cstr_at (hs_mem st) value;
                let old = abs_bytes (du_value ds);
                hdrs \<leftarrow> array_set_value (rq_headers rq) name (Some (old @ text));
                let rq = rq\<lparr>rq_headers := hdrs\<rparr>;
                Some (Inr (st\<lparr>hs_req := (if moves old text then stale_refs name rq else rq)\<rparr>))
              }
          })"

text \<open>The end of a header line; the next one begins behind \<open>hs_i\<close>.\<close>

definition header_line_end ::
    "bool \<Rightarrow> (string \<Rightarrow> string \<Rightarrow> bool) \<Rightarrow> nat \<Rightarrow> header_state \<Rightarrow> (request + header_state) option" where
  "header_line_end has_reqline_host moves cur st = do {
     r \<leftarrow> (if hs_in_folding st then header_fold moves st else header_field has_reqline_host moves cur st);
     case r of
       Inl rq \<Rightarrow> Some (Inl rq)
     | Inr st \<Rightarrow> Some (Inr (st\<lparr>hs_first := hs_i st + 1, hs_is_key := True, hs_value := None, hs_in_folding := False\<rparr>))
   }"

definition header_value_step ::
    "bool \<Rightarrow> bool \<Rightarrow> (string \<Rightarrow> string \<Rightarrow> bool) \<Rightarrow> header_state \<Rightarrow> (request + header_state) option" where
  "header_value_step strict has_reqline_host moves st = do {
     let (mem, i) = (hs_mem st, hs_i st);
     c \<leftarrow> nth_opt mem i;
     if c = CR \<or> c = LF then do {
       crlf \<leftarrow> (if c = LF then Some False else map_option (\<lambda>n. n = LF) (nth_opt mem (i + 1)));
       if c = LF \<and> strict then Some (Inl (http_request_missing_CR_before_LF (hs_req st)))
       else if c = LF \<or> crlf then do {
         mem \<leftarrow> mwrite mem i NUL;
         let e = (if crlf then i + 1 else i);
         mem \<leftarrow> mwrite mem e NUL;
         header_line_end has_reqline_host moves i (st\<lparr>hs_mem := mem, hs_i := e\<rparr>)
       }
       else Some (Inl (bad_request 400 (hs_req st)))
     }
     else if is_blank c then
       Some (Inr (if hs_value st = Some i then st\<lparr>hs_value := Some (i + 1)\<rparr> else st))
     else if (if strict then 0 \<le> scode c \<and> scode c < 32 else c = NUL) then Some (Inl (refuse 400 (hs_req st)))
     else Some (Inr st)
   }"

definition header_step ::
    "bool \<Rightarrow> bool \<Rightarrow> (string \<Rightarrow> string \<Rightarrow> bool) \<Rightarrow> header_state \<Rightarrow> (request + header_state) option" where
  "header_step strict has_reqline_host moves st =
     (if hs_is_key st then header_key_step strict st else header_value_step strict has_reqline_host moves st)"

lemma header_fold_i: "header_fold moves st = Some (Inr st') \<Longrightarrow> hs_i st' = hs_i st"
  by (auto simp: header_fold_def Let_def split: if_splits bind_splits option.splits)

lemma special_header_i: "special_header h moves st ds = Some (Inr (keep, st')) \<Longrightarrow> hs_i st' = hs_i st"
  by (auto simp: special_header_def Let_def split: if_splits bind_splits option.splits prod.splits)

lemma header_field_i: "header_field h moves cur st = Some (Inr st') \<Longrightarrow> hs_i st' = hs_i st"
  by (auto simp: header_field_def Let_def split: if_splits bind_splits sum.splits prod.splits dest!: special_header_i)

lemma header_key_step_i: "header_key_step strict st = Some (Inr st') \<Longrightarrow> hs_i st \<le> hs_i st'"
  unfolding header_key_step_def Let_def prod.case
  by (elim bind_SomeE) (auto split: if_splits bind_splits option.splits)

lemma header_line_end_i: "header_line_end h moves cur st = Some (Inr st') \<Longrightarrow> hs_i st' = hs_i st"
  by (auto simp: header_line_end_def split: if_splits bind_splits sum.splits dest!: header_fold_i header_field_i)

lemma header_value_step_i: "header_value_step strict h moves st = Some (Inr st') \<Longrightarrow> hs_i st \<le> hs_i st'"
  unfolding header_value_step_def Let_def prod.case
  by (elim bind_SomeE) (auto split: if_splits bind_splits dest!: header_line_end_i)

lemma header_step_i: "header_step strict h moves st = Some (Inr st') \<Longrightarrow> hs_i st \<le> hs_i st'"
  by (auto simp: header_step_def split: if_splits dest: header_key_step_i header_value_step_i)

function header_loop ::
    "bool \<Rightarrow> bool \<Rightarrow> (string \<Rightarrow> string \<Rightarrow> bool) \<Rightarrow> nat \<Rightarrow> header_state \<Rightarrow> (request + header_state) option" where
  "header_loop strict has_reqline_host moves ilen st =
     (if hs_i st \<le> ilen \<and> \<not> hs_done st then
        (case header_step strict has_reqline_host moves st of
           Some (Inr st) \<Rightarrow> header_loop strict has_reqline_host moves ilen (st\<lparr>hs_i := hs_i st + 1\<rparr>)
         | r \<Rightarrow> r)
      else Some (Inr st))"
  by pat_completeness auto
termination
  by (relation "measure (\<lambda>(strict, h, moves, ilen, st). ilen + 1 - hs_i st)") (auto dest!: header_step_i)

declare header_loop.simps [simp del]

section \<open>After the headers\<close>

definition keep_alive_default :: "keep_alive_t \<Rightarrow> request \<Rightarrow> request" where
  "keep_alive_default asked rq =
     rq\<lparr>rq_keep_alive := (if rq_version rq = HTTP_VERSION_1_1 then asked \<noteq> HTTP_CONNECTION_CLOSE
                          else asked = HTTP_CONNECTION_KEEPALIVE)\<rparr>"

text \<open>\<open>con\<rightarrow>request.http_host\<close>: \<open>None\<close> is the NULL pointer.\<close>

definition host_value :: "request \<Rightarrow> string option option" where
  "host_value rq = (case rq_host rq of None \<Rightarrow> Some None | Some r \<Rightarrow> map_option Some (deref rq ''Host'' r))"

definition check_host :: "parse_conf \<Rightarrow> libc \<Rightarrow> string \<Rightarrow> request \<Rightarrow> (request + request) option" where
  "check_host conf lc scheme rq = do {
     host \<leftarrow> host_value rq;
     if rq_version rq = HTTP_VERSION_1_1 \<and> (host = None \<or> host = Some []) then Some (Inl (bad_request 400 rq))
     else (case host of
         None \<Rightarrow> Some (Inr rq)
       | Some text \<Rightarrow>
           (case http_request_host_policy conf lc text scheme of
              (refused, text') \<Rightarrow> do {
                hdrs \<leftarrow> array_set_value (rq_headers rq) ''Host'' (Some text');
                let rq = rq\<lparr>rq_headers := hdrs\<rparr>;
                Some (if refused then Inl (bad_request 400 rq) else Inr rq)
              }))
   }"

text \<open>The flag is \<open>con_length_set\<close>.\<close>

definition check_transfer_encoding :: "bool \<Rightarrow> request \<Rightarrow> (request + bool \<times> request) option" where
  "check_transfer_encoding con_length_set rq = do {
     ds \<leftarrow> array_get_element_klen (rq_headers rq) ''Transfer-Encoding'';
     case ds of
       None \<Rightarrow> Some (Inr (con_length_set, rq))
     | Some ds \<Rightarrow>
         if rq_version rq = HTTP_VERSION_1_0 then Some (Inl (refuse 400 rq))
         else if \<not> strcasecmp_eq (abs_bytes (du_value ds)) ''chunked'' then Some (Inl (refuse 501 rq))
         else do {
           hdrs \<leftarrow> array_set_value (rq_headers rq) ''Transfer-Encoding'' None;
           ds \<leftarrow> array_get_element_klen hdrs ''Content-Length'';
           hdrs \<leftarrow> (if ds = None then Some hdrs else array_set_value hdrs ''Content-Length'' None);
           Some (Inr (True, rq\<lparr>rq_headers := hdrs, rq_content_length := -1\<rparr>))
         }
   }"

definition check_method :: "bool \<Rightarrow> request \<Rightarrow> int \<times> request" where
  "check_method con_length_set rq =
     (if rq_method rq \<in> {HTTP_METHOD_GET, HTTP_METHOD_HEAD} \<and> con_length_set \<and> rq_content_length rq \<noteq> 0
      then (0, refuse 400 rq)
      else if rq_method rq = HTTP_METHOD_POST \<and> \<not> con_length_set then (0, refuse 411 rq)
      else (if con_length_set \<and> rq_content_length rq \<noteq> 0 then 1 else 0, rq))"

definition post_process :: "parse_conf \<Rightarrow> libc \<Rightarrow> string \<Rightarrow> header_state \<Rightarrow> (int \<times> request) option" where
  "post_process conf lc scheme st = do {
     let rq = keep_alive_default (hs_keep_alive_set st) ((hs_req st)\<lparr>rq_header_len := hs_i st\<rparr>);
     r \<leftarrow> check_host conf lc scheme rq;
     case r of
       Inl rq \<Rightarrow> Some (0, rq)
     | Inr rq \<Rightarrow> do {
         r \<leftarrow> check_transfer_encoding (hs_con_length_set st) rq;
         Some (case r of Inl rq \<Rightarrow> (0, rq) | Inr (con_length_set, rq) \<Rightarrow> check_method con_length_set rq)
       }
   }"

section \<open>The parser\<close>

text \<open>A blank line before the request, from the end of a previous POST; \<open>None\<close> is the strict error.\<close>

definition request_text :: "bool \<Rightarrow> nat \<Rightarrow> string \<Rightarrow> string option option" where
  "request_text strict request_count text = do {
     c0 \<leftarrow> nth_opt (text @ [NUL]) 0;
     if 1 < request_count \<and> c0 = CR \<and> at text 1 = LF then Some (Some (drop 2 text))
     else do {
       c1 \<leftarrow> (if 0 < request_count then nth_opt (text @ [NUL]) 1 else Some NUL);
       if 0 < request_count \<and> c1 = LF then Some (if strict then None else Some (drop 1 text))
       else Some (Some text)
     }
   }"

text \<open>A host in the request line becomes the \<open>Host\<close> header.\<close>

definition insert_reqline_host :: "(string \<Rightarrow> string \<Rightarrow> bool) \<Rightarrow> line_state \<Rightarrow> request option" where
  "insert_reqline_host moves ls =
     (let rq = ls_req ls in
      case ls_host ls of
        None \<Rightarrow> Some rq
      | Some (p, n) \<Rightarrow> do {
          host \<leftarrow> mslice (ls_mem ls) p n;
          let (unused, hdrs) = array_get_unused_element (rq_headers rq) TYPE_STRING;
          let ds = (case unused of None \<Rightarrow> data_string_init | Some d \<Rightarrow> d)\<lparr>du_key := Some ''Host'', du_value := Some host\<rparr>;
          put_header moves (rq\<lparr>rq_headers := hdrs, rq_host := Some Pending\<rparr>) ds
        })"

definition line_start :: "string \<Rightarrow> request \<Rightarrow> line_state" where
  "line_start text rq = \<lparr>ls_mem = text @ [NUL], ls_i = 0, ls_first = 0, ls_stage = 0, ls_method = None,
     ls_uri = None, ls_host = None, ls_line = False, ls_req = rq\<rparr>"

definition header_start :: "line_state \<Rightarrow> request \<Rightarrow> header_state" where
  "header_start ls rq = \<lparr>hs_mem = ls_mem ls, hs_i = ls_i ls, hs_first = ls_first ls, hs_is_key = True,
     hs_key_len = 0, hs_ws_after_key = False, hs_in_folding = False, hs_value = None, hs_key = None,
     hs_con_length_set = False, hs_keep_alive_set = HTTP_CONNECTION_UNSET, hs_done = False, hs_req = rq\<rparr>"

definition http_request_parse ::
    "parse_conf \<Rightarrow> libc \<Rightarrow> (string \<Rightarrow> string \<Rightarrow> bool) \<Rightarrow> string \<Rightarrow> nat \<Rightarrow> string \<Rightarrow> request \<Rightarrow> (int \<times> request) option" where
  "http_request_parse conf lc moves scheme request_count text rq = do {
     let strict = header_strict conf;
     text \<leftarrow> request_text strict request_count text;
     case text of
       None \<Rightarrow> Some (0, http_request_missing_CR_before_LF rq)
     | Some text \<Rightarrow> do {
         r \<leftarrow> request_line_loop strict (allow_http11 conf) (length text) (line_start text rq);
         case r of
           Inl rq \<Rightarrow> Some (0, rq)
         | Inr ls \<Rightarrow>
             if rq_uri (ls_req ls) = [] then Some (0, bad_request 400 (ls_req ls))
             else do {
               rq \<leftarrow> insert_reqline_host moves ls;
               r \<leftarrow> header_loop strict (ls_host ls \<noteq> None) moves (length text) (header_start ls rq);
               case r of
                 Inl rq \<Rightarrow> Some (0, rq)
               | Inr st \<Rightarrow> post_process conf lc scheme st
             }
       }
   }"
end
