(* ===== verification/RequestTokens.thy ===== *)
theory RequestTokens
  imports Request
begin

text \<open>
  The list of options that \<open>http_request_split_value\<close> splits off (\<open>src/src/request.c\<close>, lines 335
  to 393): the loop over positions computes the non-empty pieces between commas.
\<close>

section \<open>Splitting a list of options\<close>

text \<open>The list that \<open>http_request_split_value\<close> computes: the non-empty pieces between commas, without blanks around them.\<close>

fun comma_pieces :: "string \<Rightarrow> string list" where
  "comma_pieces [] = [[]]"
| "comma_pieces (c # s) =
     (if c = CHR '','' then [] # comma_pieces s
      else (case comma_pieces s of [] \<Rightarrow> [[c]] | p # ps \<Rightarrow> (c # p) # ps))"

definition trim_blanks :: "string \<Rightarrow> string" where
  "trim_blanks s = strip_trailing (dropWhile is_blank s)"

definition list_tokens :: "string \<Rightarrow> string list" where
  "list_tokens s = filter (\<lambda>t. t \<noteq> []) (map trim_blanks (comma_pieces s))"

lemma comma_pieces_not_Nil [simp]: "comma_pieces s \<noteq> []"
  by (cases s) (auto split: list.split)

lemma comma_pieces_append:
  "CHR '','' \<notin> set w \<Longrightarrow> comma_pieces (w @ CHR '','' # r) = w # comma_pieces r"
  by (induction w) auto

lemma comma_pieces_single: "CHR '','' \<notin> set w \<Longrightarrow> comma_pieces w = [w]"
  by (induction w) auto

lemma strip_trailing_simps:
  "strip_trailing [] = []"
  "strip_trailing (s @ [c]) = (if is_blank c then strip_trailing s else s @ [c])"
  by (simp_all add: strip_trailing_def)

lemma list_tokens_skip:
  "is_blank c \<Longrightarrow> list_tokens (c # s) = list_tokens s"
  "list_tokens (CHR '','' # s) = list_tokens s"
  "list_tokens [] = []"
proof -
  assume c: "is_blank c"
  then have "c \<noteq> CHR '',''" by (auto simp: is_blank_def)
  moreover obtain p ps where "comma_pieces s = p # ps" using comma_pieces_not_Nil [of s] by (cases "comma_pieces s") auto
  moreover have "trim_blanks (c # p) = trim_blanks p" using c by (simp add: trim_blanks_def)
  ultimately show "list_tokens (c # s) = list_tokens s" by (simp add: list_tokens_def)
qed (simp_all add: list_tokens_def trim_blanks_def strip_trailing_def)

lemma strip_trailing_nonempty: "w \<noteq> [] \<Longrightarrow> \<not> is_blank (hd w) \<Longrightarrow> strip_trailing w \<noteq> []"
  unfolding strip_trailing_def
  by (metis dropWhile_eq_Nil_conv hd_in_set rev_is_Nil_conv set_rev)

lemma list_tokens_word:
  assumes "w \<noteq> []" "\<not> is_blank (hd w)" "CHR '','' \<notin> set w"
  shows "list_tokens (w @ CHR '','' # r) = strip_trailing w # list_tokens r"
    "list_tokens w = [strip_trailing w]"
proof -
  have "trim_blanks w = strip_trailing w" using assms(1,2) by (cases w) (simp_all add: trim_blanks_def)
  then show "list_tokens (w @ CHR '','' # r) = strip_trailing w # list_tokens r"
    "list_tokens w = [strip_trailing w]"
    using strip_trailing_nonempty [OF assms(1,2)] assms(3)
    by (simp_all add: list_tokens_def comma_pieces_append comma_pieces_single)
qed

text \<open>The array of tokens: entries under generated keys, and unused entries without a key.\<close>

definition token_entry :: "nat \<Rightarrow> string \<Rightarrow> data_unset \<Rightarrow> bool" where
  "token_entry i t d \<longleftrightarrow> du_type d = TYPE_STRING \<and> du_key d = Some (itostr [] (int i)) \<and> du_value d = Some t"

definition token_array :: "array \<Rightarrow> string list \<Rightarrow> bool" where
  "token_array a ts \<longleftrightarrow> array_wf a \<and> a_unique_ndx a = length ts \<and> a_used a = length ts
     \<and> (\<forall>i<length ts. \<exists>d. a_data a ! i = Some d \<and> token_entry i (ts ! i) d)
     \<and> (\<forall>i d. length ts \<le> i \<longrightarrow> i < length (a_data a) \<longrightarrow> a_data a ! i = Some d \<longrightarrow> du_type d = TYPE_STRING \<and> du_key d = None)"

lemma token_arrayD:
  assumes "token_array a ts"
  shows "array_wf a" "a_unique_ndx a = length ts" "a_used a = length ts"
    "\<And>i. i < length ts \<Longrightarrow> \<exists>d. a_data a ! i = Some d \<and> token_entry i (ts ! i) d"
    "\<And>i d. length ts \<le> i \<Longrightarrow> i < length (a_data a) \<Longrightarrow> a_data a ! i = Some d \<Longrightarrow> du_type d = TYPE_STRING \<and> du_key d = None"
  using assms by (auto simp: token_array_def)

lemma token_entries:
  assumes "token_array a ts"
  shows "map (abs_bytes \<circ> du_value) (array_entries a) = ts"
proof (rule nth_equalityI)
  note t = token_arrayD [OF assms]
  show "length (map (abs_bytes \<circ> du_value) (array_entries a)) = length ts"
    using length_entries [OF t(1)] t(3) by simp
  fix i assume "i < length (map (abs_bytes \<circ> du_value) (array_entries a))"
  then have i: "i < length ts" using length_entries [OF t(1)] t(3) by simp
  then obtain d where "a_data a ! i = Some d" "token_entry i (ts ! i) d" using t(4) by blast
  then show "map (abs_bytes \<circ> du_value) (array_entries a) ! i = ts ! i"
    using i t(3) length_entries [OF t(1)] array_wfD(1,2) [OF t(1)] entries_nth [of i a]
    by (simp add: token_entry_def abs_bytes_def)
qed

lemma ckey_digits: "\<forall>c\<in>set s. light_isdigit c \<Longrightarrow> ckey s = map of_char s"
  by (auto simp: ckey_def ucode_to_lower light_isdigit_def is_upper_def)

lemma itostr_key_inj:
  assumes "i < 2 ^ 63" "j < 2 ^ 63" "ckey (itostr [] (int i)) = ckey (itostr [] (int j))"
  shows "i = j"
proof -
  have eq: "itostr [] (int k) = utostr [] k" if "k < 2 ^ 63" for k
  proof -
    have "int k < 2 ^ 63" using that by (metis of_nat_less_iff of_nat_numeral of_nat_power)
    then show ?thesis using itostr_abs [of "int k" "[]"] by simp
  qed
  have "ckey (utostr [] k) = map of_char (utostr [] k)" for k
    using ckey_digits utostr_digits by blast
  then have "map (of_char :: char \<Rightarrow> nat) (utostr [] i) = map of_char (utostr [] j)"
    using assms(3) eq [OF assms(1)] eq [OF assms(2)] by simp
  moreover have "inj (of_char :: char \<Rightarrow> nat)" by (simp add: inj_on_def)
  ultimately have "utostr [] i = utostr [] j" by (metis map_injective)
  then show ?thesis by (metis dec_value_utostr)
qed

text \<open>Taking an unused slot does not touch the tokens; adding one appends it.\<close>

lemma token_array_unused:
  assumes "token_array a ts"
  defines "r \<equiv> array_get_unused_element a TYPE_STRING"
  shows "token_array (snd r) ts" "\<And>d. fst r = Some d \<Longrightarrow> du_type d = TYPE_STRING \<and> du_key d = None"
proof -
  note t = token_arrayD [OF assms(1)]
  note wf = array_wfD [OF t(1)]
  let ?P = "\<lambda>i. case a_data a ! i of Some d \<Rightarrow> du_type d = TYPE_STRING | None \<Rightarrow> False"
  have "token_array (snd r) ts \<and> (\<forall>d. fst r = Some d \<longrightarrow> du_type d = TYPE_STRING \<and> du_key d = None)"
  proof (cases "List.find ?P [a_used a..<a_size a]")
    case None
    then show ?thesis using assms(1) by (auto simp: r_def array_get_unused_element_def)
  next
    case (Some i)
    then have i: "a_used a \<le> i" "i < length (a_data a)" "?P i"
      unfolding find_Some_iff using wf(1) by auto
    have r: "r = (a_data a ! i, a\<lparr>a_data := (a_data a)[i := a_data a ! a_used a, a_used a := None]\<rparr>)"
      using Some by (simp add: r_def array_get_unused_element_def)
    have "array_wf (snd r)" unfolding r_def by (rule array_get_unused_ok(1) [OF t(1)])
    then have "token_array (snd r) ts"
      unfolding token_array_def using r t i t(5) [of "length ts"] by (auto simp: nth_list_update split: if_splits)
    then show ?thesis using r t(5) [of i] i(1,2) t(3) by auto
  qed
  then show "token_array (snd r) ts" "\<And>d. fst r = Some d \<Longrightarrow> du_type d = TYPE_STRING \<and> du_key d = None" by auto
qed

lemma token_array_insert:
  assumes "token_array a ts" "length ts < 2 ^ 62" "du_type d = TYPE_STRING" "du_key d = None" "du_value d = Some t"
  shows "\<exists>a'. array_insert_unique a d = Some a' \<and> token_array a' (ts @ [t])"
proof -
  note t = token_arrayD [OF assms(1)]
  note wf = array_wfD [OF t(1)]
  let ?n = "length ts"
  let ?key = "itostr [] (int ?n)"
  define e where "e = d\<lparr>du_key := Some ?key, du_is_index_key := True\<rparr>"
  define b where "b = a\<lparr>a_unique_ndx := ?n + 1\<rparr>"
  have n: "size_to_int (a_unique_ndx a) = int ?n" "sz_add ?n 1 = ?n + 1"
    using assms(2) t(2) by (auto simp: size_to_int_def sz_add_def SIZE_MOD_def)
  have key_b: "key_at b i = key_at a i" for i by (simp add: key_at_def b_def)
  then have wfb: "array_wf b" using t(1) unfolding array_wf_def b_def by (simp add: key_at_def cong: map_cong)
  have none: "array_view b (ckey ?key) = None"
    unfolding array_view_None [OF wfb]
  proof (intro allI impI notI)
    fix i assume i: "i < a_used b" "key_at b i = ckey ?key"
    then have "i < ?n" using t(3) by (simp add: b_def)
    then obtain d where "a_data a ! i = Some d" "token_entry i (ts ! i) d" using t(4) by blast
    then have "ckey (itostr [] (int i)) = ckey ?key"
      using i(2) key_b by (simp add: key_at_def entry_key_def token_entry_def)
    then show False using itostr_key_inj [of i ?n] \<open>i < ?n\<close> assms(2) by simp
  qed
  obtain ndx pos where r: "array_get_index b ?key = Some (ndx, pos)" "search_result b ?key ndx pos"
    using array_get_index_ok [OF wfb] by blast
  have "ndx = None"
  proof (cases ndx)
    case (Some i)
    then have "i < a_used b" using r(2) by (simp add: search_result_def)
    then show ?thesis using search_result_view [OF wfb r(2)] none Some array_wfD(6) [OF wfb, of i] by simp
  qed
  note g = array_grow_wf [OF wfb]
  have sr: "search_result (array_grow b) ?key None pos"
    using array_search_cong [OF wfb g(1,3,4)] g(5) r(2) \<open>ndx = None\<close> by blast
  let ?a = "array_put (array_grow b) pos e"
  have wf': "array_wf ?a" by (rule array_put_wf [OF g(1,2) sr]) (simp add: e_def entry_key_def)
  have run: "array_insert_unique a d = Some ?a"
    using r(1) \<open>ndx = None\<close> assms(4) n t(2)
    by (simp add: array_insert_unique_def array_find_or_insert_def array_put_def b_def e_def Let_def)
  have len: "?n < length (a_data (array_grow b))" using g(2,3) array_wfD(1) [OF g(1)] t(3) by (simp add: b_def)
  have used: "a_used (array_grow b) = ?n" using g(3) t(3) by (simp add: b_def)
  have old: "a_data (array_grow b) ! i = a_data a ! i" if "i < ?n" for i
    using g(5) [of i] that t(3) by (simp add: b_def)
  have unused: "du_type x = TYPE_STRING \<and> du_key x = None"
    if "?n \<le> i" "i < length (a_data (array_grow b))" "a_data (array_grow b) ! i = Some x" for i x
    using that t(5) [of i x] wf(1,2) t(3)
    by (auto simp: array_grow_def b_def nth_append split: if_splits)
  have "token_array ?a (ts @ [t])"
    unfolding token_array_def
  proof (intro conjI allI impI wf')
    show "a_unique_ndx ?a = length (ts @ [t])" by (simp add: array_put_def array_grow_def b_def)
    show "a_used ?a = length (ts @ [t])" by (simp add: array_put_def used)
    fix i
    show "\<exists>x. a_data ?a ! i = Some x \<and> token_entry i ((ts @ [t]) ! i) x" if "i < length (ts @ [t])"
      using that old [of i] t(4) [of i] len assms(3,5)
      by (cases "i < ?n"; cases "i = ?n") (auto simp: array_put_def used nth_append e_def token_entry_def nth_list_update)
    fix x assume "length (ts @ [t]) \<le> i" "i < length (a_data ?a)" "a_data ?a ! i = Some x"
    then have "du_type x = TYPE_STRING \<and> du_key x = None" using unused [of i x] by (simp add: array_put_def used nth_list_update)
    then show "du_type x = TYPE_STRING" "du_key x = None" by simp_all
  qed
  then show ?thesis using run by blast
qed

lemma strip_trailing_unique:
  assumes "e < length w" "\<not> is_blank (w ! e)" "\<forall>j. e < j \<longrightarrow> j < length w \<longrightarrow> is_blank (w ! j)"
  shows "strip_trailing w = take (e + 1) w"
  using assms
proof (induction w rule: rev_induct)
  case (snoc c w)
  show ?case
  proof (cases "e = length w")
    case True
    then show ?thesis using snoc.prems by (simp add: strip_trailing_simps)
  next
    case False
    then have "e < length w" using snoc.prems(1) by simp
    moreover have "is_blank c" using snoc.prems(3) \<open>e < length w\<close> by (metis lessI length_append_singleton nth_append_length)
    moreover have "\<forall>j. e < j \<longrightarrow> j < length w \<longrightarrow> is_blank (w ! j)"
      using snoc.prems(3) by (metis length_append_singleton less_SucI nth_append)
    ultimately show ?thesis using snoc.IH snoc.prems(2) by (simp add: strip_trailing_simps nth_append)
  qed
qed simp

text \<open>The loop adds the tokens of what is left of the text, the begun token included.\<close>

definition token_begun :: "string \<Rightarrow> nat \<Rightarrow> nat \<Rightarrow> nat \<Rightarrow> bool" where
  "token_begun b i s e \<longleftrightarrow> s \<le> e \<and> e < i \<and> \<not> is_blank (b ! s) \<and> \<not> is_blank (b ! e)
     \<and> CHR '','' \<notin> set (take (i - s) (drop s b)) \<and> (\<forall>j. e < j \<longrightarrow> j < i \<longrightarrow> is_blank (b ! j))"

lemma token_begun_text:
  assumes "token_begun b i s e" "i \<le> length b"
  defines "w \<equiv> take (i - s) (drop s b)"
  shows "w \<noteq> []" "\<not> is_blank (hd w)" "CHR '','' \<notin> set w" "strip_trailing w = take (e - s + 1) (drop s b)"
    "drop s b = w @ drop i b"
proof -
  note t = assms(1) [unfolded token_begun_def]
  have len: "length w = i - s" using assms(2) by (simp add: w_def)
  then show ne: "w \<noteq> []" using t by auto
  have nth: "w ! j = b ! (s + j)" if "j < i - s" for j using that assms(2) by (simp add: w_def)
  show "\<not> is_blank (hd w)" using ne t nth [of 0] by (simp add: hd_conv_nth)
  show "CHR '','' \<notin> set w" using t by (simp add: w_def)
  have "strip_trailing w = take (e - s + 1) w"
  proof (rule strip_trailing_unique)
    show "e - s < length w" using t unfolding len by (intro diff_less_mono) auto
    show "\<not> is_blank (w ! (e - s))" using t nth [of "e - s"] diff_less_mono [of e i s] by simp
    show "\<forall>j. e - s < j \<longrightarrow> j < length w \<longrightarrow> is_blank (w ! j)" using t nth len by auto
  qed
  then show "strip_trailing w = take (e - s + 1) (drop s b)"
    using t diff_less_mono [of e i s] by (simp add: w_def min_absorb2 Suc_leI)
  show "drop s b = w @ drop i b" using t by (metis w_def append_take_drop_id drop_drop le_add_diff_inverse2 less_imp_le order_trans)
qed

lemma token_begun_step:
  assumes "i < length b" "b ! i \<noteq> CHR '',''"
  shows "token_begun b i s e \<Longrightarrow> is_blank (b ! i) \<Longrightarrow> token_begun b (i + 1) s e"
    "token_begun b i s e \<Longrightarrow> \<not> is_blank (b ! i) \<Longrightarrow> token_begun b (i + 1) s i"
    "\<not> is_blank (b ! i) \<Longrightarrow> token_begun b (i + 1) i i"
proof -
  have more: "take (i + 1 - s) (drop s b) = take (i - s) (drop s b) @ [b ! i]" if "s \<le> i" for s
    using that assms(1) by (simp add: Suc_diff_le take_Suc_conv_app_nth)
  show "token_begun b (i + 1) s e" if "token_begun b i s e" "is_blank (b ! i)"
    using that more [of s] assms(2) by (auto simp: token_begun_def less_Suc_eq)
  show "token_begun b (i + 1) s i" if "token_begun b i s e" "\<not> is_blank (b ! i)"
    using that more [of s] assms(2) by (auto simp: token_begun_def less_Suc_eq)
  show "token_begun b (i + 1) i i" if "\<not> is_blank (b ! i)"
    using that more [of i] assms(2) by (auto simp: token_begun_def)
qed

lemma put_token:
  assumes "token_array vals ts" "length ts < 2 ^ 62"
  shows "\<exists>vals'. (let (unused, vals) = array_get_unused_element vals TYPE_STRING;
                     ds = (case unused of None \<Rightarrow> data_string_init | Some d \<Rightarrow> d)
                 in array_insert_unique vals (ds\<lparr>du_value := Some t\<rparr>)) = Some vals' \<and> token_array vals' (ts @ [t])"
proof -
  define r where "r = array_get_unused_element vals TYPE_STRING"
  define ds where "ds = (case fst r of None \<Rightarrow> data_string_init | Some d \<Rightarrow> d)"
  have "du_type ds = TYPE_STRING \<and> du_key ds = None"
    using token_array_unused(2) [OF assms(1)] by (auto simp: ds_def r_def data_string_init_def split: option.split)
  then show ?thesis
    using token_array_insert [OF token_array_unused(1) [OF assms(1)] assms(2), of "ds\<lparr>du_value := Some t\<rparr>" t]
    by (simp add: r_def ds_def case_prod_beta Let_def)
qed

lemma split_loop_tokens:
  assumes "NUL \<notin> set b" "length b < 2 ^ 62"
  shows "i \<le> length b \<Longrightarrow> length b - i = n \<Longrightarrow> token_array vals ts \<Longrightarrow> length ts \<le> i \<Longrightarrow>
     (\<exists>vals'. split_loop vals b i None (drop i b @ [NUL]) = Some vals' \<and> token_array vals' (ts @ list_tokens (drop i b)))
     \<and> (\<forall>s e. length ts \<le> s \<longrightarrow> token_begun b i s e \<longrightarrow>
         (\<exists>vals'. split_loop vals b i (Some (s, e)) (drop i b @ [NUL]) = Some vals'
            \<and> token_array vals' (ts @ list_tokens (drop s b))))"
proof (induction n arbitrary: i vals ts)
  case 0
  then have i: "drop i b = []" "length ts < 2 ^ 62" using assms(2) by simp_all
  have "\<exists>vals'. split_loop vals b i (Some (s, e)) (drop i b @ [NUL]) = Some vals'
      \<and> token_array vals' (ts @ list_tokens (drop s b))" if "token_begun b i s e" for s e
  proof -
    note w = token_begun_text [OF that 0(1)]
    have "list_tokens (drop s b) = [take (e - s + 1) (drop s b)]"
      using list_tokens_word(2) [OF w(1-3)] w(4,5) i(1) by simp
    then show ?thesis
      using put_token [OF 0(3) i(2), of "take (e - s + 1) (drop s b)"] i(1)
      by (auto simp: Let_def split: prod.splits option.splits)
  qed
  then show ?case using i 0(3) by (auto simp: list_tokens_skip)
next
  case (Suc n)
  then have i: "i < length b" and n: "length b - (i + 1) = n" "i + 1 \<le> length b" by simp_all
  have d: "drop i b = b ! i # drop (i + 1) b" using i by (simp add: Cons_nth_drop_Suc)
  have nn: "b ! i \<noteq> NUL" using assms(1) i nth_mem by metis
  note IH = Suc.IH [OF n(2,1)]
  have one: "\<exists>vals'. split_loop vals b i None (drop i b @ [NUL]) = Some vals' \<and> token_array vals' (ts @ list_tokens (drop i b))"
  proof (cases "is_blank (b ! i) \<or> b ! i = CHR '',''")
    case True
    then have "list_tokens (drop i b) = list_tokens (drop (i + 1) b)"
      unfolding d using list_tokens_skip by metis
    moreover have "split_loop vals b i None (drop i b @ [NUL]) = split_loop vals b (i + 1) None (drop (i + 1) b @ [NUL])"
      using True unfolding d by (auto simp: is_blank_def)
    ultimately show ?thesis using IH [OF Suc.prems(3)] Suc.prems(4) by simp
  next
    case False
    then have "token_begun b (i + 1) i i" using token_begun_step(3) [OF i] by blast
    moreover have "split_loop vals b i None (drop i b @ [NUL]) = split_loop vals b (i + 1) (Some (i, i)) (drop (i + 1) b @ [NUL])"
      using False nn unfolding d by (auto simp: is_blank_def)
    ultimately show ?thesis using IH [OF Suc.prems(3)] Suc.prems(4) by simp
  qed
  have "\<exists>vals'. split_loop vals b i (Some (s, e)) (drop i b @ [NUL]) = Some vals'
      \<and> token_array vals' (ts @ list_tokens (drop s b))" if s: "length ts \<le> s" and t: "token_begun b i s e" for s e
  proof (cases "b ! i = CHR '',''")
    case True
    note w = token_begun_text [OF t Suc.prems(1)]
    have lt: "list_tokens (drop s b) = take (e - s + 1) (drop s b) # list_tokens (drop (i + 1) b)"
      using list_tokens_word(1) [OF w(1-3)] w(4,5) d True by metis
    have lts: "length ts < 2 ^ 62" using s t assms(2) i by (simp add: token_begun_def)
    obtain vals1 where v: "(let (unused, vals) = array_get_unused_element vals TYPE_STRING;
            ds = (case unused of None \<Rightarrow> data_string_init | Some d \<Rightarrow> d)
        in array_insert_unique vals (ds\<lparr>du_value := Some (take (e - s + 1) (drop s b))\<rparr>)) = Some vals1"
        "token_array vals1 (ts @ [take (e - s + 1) (drop s b)])"
      using put_token [OF Suc.prems(3) lts] by blast
    have "split_loop vals b i (Some (s, e)) (drop i b @ [NUL]) = split_loop vals1 b (i + 1) None (drop (i + 1) b @ [NUL])"
      using v(1) True unfolding d by (auto simp: Let_def split: prod.splits)
    moreover have "length (ts @ [take (e - s + 1) (drop s b)]) \<le> i + 1" using Suc.prems(4) by simp
    ultimately show ?thesis using IH [OF v(2)] lt by simp
  next
    case False
    show ?thesis
    proof (cases "is_blank (b ! i)")
      case True
      then have "split_loop vals b i (Some (s, e)) (drop i b @ [NUL]) = split_loop vals b (i + 1) (Some (s, e)) (drop (i + 1) b @ [NUL])"
        unfolding d by (auto simp: is_blank_def)
      then show ?thesis using IH [OF Suc.prems(3)] Suc.prems(4) s token_begun_step(1) [OF i False t True] by simp
    next
      case nb: False
      then have "split_loop vals b i (Some (s, e)) (drop i b @ [NUL]) = split_loop vals b (i + 1) (Some (s, i)) (drop (i + 1) b @ [NUL])"
        using False nn unfolding d by (auto simp: is_blank_def)
      then show ?thesis using IH [OF Suc.prems(3)] Suc.prems(4) s token_begun_step(2) [OF i False t nb] by simp
    qed
  qed
  then show ?case using one by blast
qed

lemma split_value_tokens:
  assumes "token_array vals []" "NUL \<notin> set b" "length b < 2 ^ 62"
  shows "\<exists>vals'. http_request_split_value vals (Some b) = Some vals' \<and> token_array vals' (list_tokens b)"
  using split_loop_tokens [OF assms(2,3), of 0 "length b" vals "[]"] assms(1)
  by (auto simp: http_request_split_value_def list_tokens_skip)

lemma token_array_reset:
  assumes "token_array a ts"
  shows "token_array (array_reset a) []"
proof -
  note t = token_arrayD [OF assms]
  note wf = array_wfD [OF t(1)]
  have "du_type x = TYPE_STRING \<and> du_key x = None" if "i < length (a_data (array_reset a))" "a_data (array_reset a) ! i = Some x" for i x
  proof (cases "i < length ts")
    case True
    then obtain d where d: "a_data a ! i = Some d" "token_entry i (ts ! i) d" using t(4) by blast
    then have "x = data_string_reset d"
      using that True t(3) wf(1,2) by (auto simp: array_reset_def nth_append data_reset_def token_entry_def)
    then show ?thesis using d(2) by (simp add: data_string_reset_def token_entry_def)
  next
    case False
    then have "a_data (array_reset a) ! i = a_data a ! i" "i < length (a_data a)"
      using that(1) t(3) wf(1,2) by (simp_all add: array_reset_def nth_append min_absorb2)
    then show ?thesis using that(2) t(5) [of i x] False by simp
  qed
  then show ?thesis using array_reset_wf(1) [OF t(1)] by (auto simp: token_array_def array_reset_def)
qed

lemma token_array_init: "token_array array_init []"
  by (simp add: token_array_def) (simp add: array_init_def)

section \<open>Properties\<close>

text \<open>
  C3. \<open>http_request_split_value\<close> computes the list of options of a header: whatever the array held
  before, after \<open>array_reset\<close> and the split its entries are the non-empty pieces of the text
  between commas, in order and without the blanks around them, each under a key of its own.
\<close>

theorem split_value_refines:
  assumes "token_array vals ts" "NUL \<notin> set b" "length b < 2 ^ 62"
  shows "\<exists>vals'. http_request_split_value (array_reset vals) (Some b) = Some vals'
     \<and> map (abs_bytes \<circ> du_value) (array_entries vals') = list_tokens b \<and> array_wf vals'"
  using split_value_tokens [OF token_array_reset [OF assms(1)] assms(2,3)] token_entries token_arrayD(1) by blast

theorem split_value_refines_witness:
  "\<exists>vals'. http_request_split_value (array_reset array_init) (Some '' keep-alive,, b c ,'') = Some vals'
     \<and> map (abs_bytes \<circ> du_value) (array_entries vals') = [''keep-alive'', ''b c''] \<and> array_wf vals'"
proof -
  have "list_tokens '' keep-alive,, b c ,'' = [''keep-alive'', ''b c'']"
    by (simp add: list_tokens_def trim_blanks_def strip_trailing_def is_blank_def)
  then show ?thesis using split_value_refines [OF token_array_init, of "'' keep-alive,, b c ,''"] by simp
qed

end
