(* ===== verification/RequestSafe.thy ===== *)
theory RequestSafe
  imports RequestTokens
begin

text \<open>
  The request parser of theory \<open>Request\<close> stays inside its memory: an invariant of the state
  between two characters, kept by every step of the request line and of the header lines, and
  the invariant of the pointers a request holds into its headers.
\<close>

section \<open>Memory and header entries\<close>

lemma mwrite_ok [simp]: "i < length mem \<Longrightarrow> mwrite mem i c = Some (mem[i := c])"
  by (simp add: mwrite_def)

lemma mslice_ok [simp]: "p + n \<le> length mem \<Longrightarrow> mslice mem p n = Some (take n (drop p mem))"
  by (simp add: mslice_def)

lemma cstr_at_ok: "p \<le> n \<Longrightarrow> n < length mem \<Longrightarrow> mem ! n = NUL \<Longrightarrow> cstr_at mem p = Some (cstr (drop p mem))"
proof -
  assume "p \<le> n" "n < length mem" "mem ! n = NUL"
  then have "drop p mem ! (n - p) = NUL" "n - p < length (drop p mem)" by simp_all
  then have "NUL \<in> set (drop p mem)" by (metis nth_mem)
  then show "cstr_at mem p = Some (cstr (drop p mem))" by (simp add: cstr_at_def)
qed

text \<open>A request head of \<open>n\<close> characters and its terminator.\<close>

definition head_mem :: "nat \<Rightarrow> string \<Rightarrow> bool" where
  "head_mem n mem \<longleftrightarrow> length mem = n + 1 \<and> mem ! n = NUL"

lemma head_memD: "head_mem n mem \<Longrightarrow> length mem = n + 1 \<and> mem ! n = NUL"
  by (simp add: head_mem_def)

lemma head_mem_write: "head_mem n mem \<Longrightarrow> i \<le> n \<Longrightarrow> mwrite mem i NUL = Some (mem[i := NUL]) \<and> head_mem n (mem[i := NUL])"
  by (auto simp: head_mem_def nth_list_update)

lemma head_mem_start: "head_mem (length s) (s @ [NUL])"
  by (simp add: head_mem_def)

text \<open>A new entry for the headers, and what becomes of it.\<close>

definition fresh_entry :: "data_unset \<Rightarrow> string \<Rightarrow> string \<Rightarrow> bool" where
  "fresh_entry ds k v \<longleftrightarrow> du_type ds = TYPE_STRING \<and> \<not> du_is_index_key ds \<and> du_key ds = Some k \<and> du_value ds = Some v"

lemma fresh_entryI:
  assumes "header_array a"
  defines "r \<equiv> array_get_unused_element a TYPE_STRING"
  shows "header_array (snd r)" "array_view (snd r) = array_view a"
    "fresh_entry ((case fst r of None \<Rightarrow> data_string_init | Some d \<Rightarrow> d)\<lparr>du_key := Some k, du_value := Some v\<rparr>) k v"
proof -
  note h = header_arrayD [OF assms(1)]
  note un = array_get_unused_ok [OF h(1), of TYPE_STRING, folded r_def]
  show "header_array (snd r)" using un(1,3) h(2) by (auto simp: header_array_def)
  show "array_view (snd r) = array_view a" by (rule un(2))
  show "fresh_entry ((case fst r of None \<Rightarrow> data_string_init | Some d \<Rightarrow> d)\<lparr>du_key := Some k, du_value := Some v\<rparr>) k v"
  proof (cases "fst r")
    case (Some d)
    then show ?thesis using un(4) [OF Some] h(2) [of d] by (simp add: fresh_entry_def)
  qed (simp add: fresh_entry_def data_string_init_def)
qed

definition merged_value :: "string option option \<Rightarrow> string \<Rightarrow> string" where
  "merged_value old v = (case old of Some (Some u) \<Rightarrow> u @ '', '' @ v | _ \<Rightarrow> v)"

lemma insert_entry_ok:
  assumes "header_array a" "fresh_entry ds k v"
  shows "\<exists>a' d. array_insert_unique a ds = Some a' \<and> header_array a'
     \<and> array_view a' = (array_view a)(ckey k \<mapsto> d)
     \<and> du_value d = Some (merged_value (map_option du_value (array_view a (ckey k))) v)"
proof -
  note h = header_arrayD [OF assms(1)]
  note f = assms(2) [unfolded fresh_entry_def]
  let ?old = "array_view a (ckey k)"
  have e: "keyed ds" "entry_key ds = ckey k" using f by (simp_all add: keyed_def entry_key_def)
  have ty: "du_type d = TYPE_STRING \<and> \<not> du_is_index_key d" if "?old = Some d" for d
    using array_view_mem(1) [OF h(1) that] h(2) by blast
  have "\<And>d. array_view a (entry_key ds) = Some d \<Longrightarrow> du_type d = du_type ds" using ty f e(2) by simp
  from array_insert_unique_ok [OF h(1) e(1) this] obtain a' where
      a': "array_insert_unique a ds = Some a'" "array_wf a'" "array_view a' = (array_view a)(ckey k \<mapsto> combined ?old ds)"
      "set (a_data a') \<subseteq> insert (Some (combined ?old ds)) (insert None (set (a_data a)))"
    unfolding e(2) by auto
  have c: "du_type (combined ?old ds) = TYPE_STRING \<and> \<not> du_is_index_key (combined ?old ds)
    \<and> du_value (combined ?old ds) = Some (merged_value (map_option du_value ?old) v)"
  proof (cases ?old)
    case (Some d)
    then show ?thesis using ty [OF Some] f
      by (cases "du_value d") (simp_all add: combined_def merged_value_def data_string_insert_dup_def buffer_copied_def buffer_joined_def)
  qed (use f in \<open>simp add: combined_def merged_value_def\<close>)
  have "header_array a'" unfolding header_array_def using a'(2,4) c h(2) by blast
  then show ?thesis using a' c by blast
qed

lemma set_value_ok:
  assumes "header_array a" "array_view a (ckey k) = Some d"
  shows "\<exists>a'. array_set_value a k v = Some a' \<and> header_array a' \<and> array_view a' = (array_view a)(ckey k \<mapsto> d\<lparr>du_value := v\<rparr>)"
proof -
  note h = header_arrayD [OF assms(1)]
  obtain ndx pos where r: "array_get_index a k = Some (ndx, pos)" "search_result a k ndx pos"
    using array_get_index_ok [OF h(1)] by blast
  note view = search_result_view [OF h(1) r(2), unfolded assms(2)]
  then obtain i where Some: "ndx = Some i" "a_data a ! i = Some d" by (cases ndx) auto
  then have i: "i < a_used a" "key_at a i = ckey k" using r(2) by (simp_all add: search_result_def)
  then have len: "i < length (a_data a)" using array_wfD(1,2) [OF h(1)] by simp
  let ?d = "d\<lparr>du_value := v\<rparr>"
  let ?a = "a\<lparr>a_data := (a_data a)[i := Some ?d]\<rparr>"
  have k: "entry_key ?d = key_at a i" using Some by (simp add: key_at_def entry_key_def)
  have "Some d \<in> set (a_data a)" using Some(2) len nth_mem by metis
  then have "header_array ?a"
    using array_update_wf(1) [OF h(1) i(1) k] h(2) set_update_subset_insert [of "a_data a" i "Some ?d"]
    by (auto simp: header_array_def)
  moreover have "array_set_value a k v = Some ?a" using r(1) Some len by (simp add: array_set_value_def)
  ultimately show ?thesis using array_update_wf(2) [OF h(1) i(1) k] k i(2) by auto
qed

text \<open>
  The pointers of a request: one that is set points at the value of its header, and one that is
  not set has no such header.
\<close>

definition ref_ok :: "array \<Rightarrow> string \<Rightarrow> vref option \<Rightarrow> bool" where
  "ref_ok a name r \<longleftrightarrow>
     (case r of None \<Rightarrow> array_view a (ckey name) = None
      | Some r \<Rightarrow> r = Live \<and> header_view a (ckey name) \<noteq> None)"

definition refs_ok :: "request \<Rightarrow> bool" where
  "refs_ok rq \<longleftrightarrow> ref_ok (rq_headers rq) ''Host'' (rq_host rq)
     \<and> ref_ok (rq_headers rq) ''Content-Type'' (rq_content_type rq)
     \<and> ref_ok (rq_headers rq) ''If-Modified-Since'' (rq_if_modified_since rq)
     \<and> ref_ok (rq_headers rq) ''If-None-Match'' (rq_if_none_match rq)"

definition request_ok :: "request \<Rightarrow> bool" where
  "request_ok rq \<longleftrightarrow> header_array (rq_headers rq) \<and> (\<exists>ts. token_array (rq_split_vals rq) ts) \<and> refs_ok rq"

lemma deref_ok:
  assumes "header_array (rq_headers rq)" "ref_ok (rq_headers rq) name (Some r)"
  shows "\<exists>v. deref rq name r = Some v"
  using assms array_get_element_ok [OF header_arrayD(1) [OF assms(1)]]
  by (auto simp: deref_def ref_ok_def header_view_def)

section \<open>The names the parser looks at\<close>

lemma special_name_find:
  "sorted_wrt (<) (map ckey names) \<Longrightarrow> special_name key names = List.find (\<lambda>n. ckey n = ckey key) names"
proof (induction names)
  case (Cons n ns)
  have "List.find (\<lambda>n. ckey n = ckey key) ns = None" if "ckey key < ckey n"
    using Cons.prems that by (fastforce simp: find_None_iff)
  then show ?case
    using Cons compare_zero_iff [of key n] compare_greater_iff [of key n] by (auto simp: Let_def)
qed simp

lemma special_names_sorted: "sorted_wrt (<) (map ckey special_names)"
  by (simp add: special_names_def to_lower_def is_upper_def set_bit5_def)

lemma known_names_sorted: "sorted_wrt (<) (map ckey (special_names @ [''Transfer-Encoding'']))"
  by (simp add: special_names_def to_lower_def is_upper_def set_bit5_def)

declare ckey_simps [simp del]

lemma special_name_special:
  "special_name key special_names = List.find (\<lambda>n. ckey n = ckey key) special_names"
  by (rule special_name_find [OF special_names_sorted])

lemma special_name_Some: "special_name key special_names = Some n \<Longrightarrow> ckey n = ckey key"
  by (auto simp: special_name_special find_Some_iff)

lemma special_name_other:
  "special_name key special_names \<noteq> Some n \<Longrightarrow> n \<in> set special_names \<Longrightarrow> ckey key \<noteq> ckey n"
proof -
  assume ne: "special_name key special_names \<noteq> Some n" and n: "n \<in> set special_names"
  have d: "distinct (map ckey special_names)" using special_names_sorted strict_sorted_iff by blast
  show "ckey key \<noteq> ckey n"
  proof
    assume eq: "ckey key = ckey n"
    obtain m where m: "List.find (\<lambda>n. ckey n = ckey key) special_names = Some m"
      using n eq by (cases "List.find (\<lambda>n. ckey n = ckey key) special_names") (auto simp: find_None_iff)
    then have "m \<in> set special_names" "ckey m = ckey key" by (auto simp: find_Some_iff)
    then have "m = n" using d n eq by (metis distinct_map inj_onD)
    then show False using ne m by (simp add: special_name_special)
  qed
qed

section \<open>The header lines stay inside the memory\<close>

lemma ref_ok_mono:
  assumes "ref_ok a name r" "array_view a' (ckey name) = array_view a (ckey name)"
  shows "ref_ok a' name r"
  using assms by (auto simp: ref_ok_def header_view_def split: option.splits)

lemma map_refs_id: "(\<And>name. f name = id) \<Longrightarrow> map_refs f rq = rq"
  by (simp add: map_refs_def option.map_id)

lemma map_refs_headers [simp]:
  "rq_headers (map_refs f rq) = rq_headers rq" "rq_headers (settle_refs to rq) = rq_headers rq"
  "rq_headers (stale_refs key rq) = rq_headers rq"
  "rq_split_vals (map_refs f rq) = rq_split_vals rq" "rq_split_vals (settle_refs to rq) = rq_split_vals rq"
  "rq_split_vals (stale_refs key rq) = rq_split_vals rq"
  by (simp_all add: map_refs_def settle_refs_def stale_refs_def)

text \<open>A request into which the entry for \<open>k\<close> is about to go: pointers under that name may be pending.\<close>

definition ref_pending :: "array \<Rightarrow> string \<Rightarrow> string \<Rightarrow> vref option \<Rightarrow> bool" where
  "ref_pending a k name r \<longleftrightarrow>
     (if r = Some Pending then ckey name = ckey k \<and> array_view a (ckey name) = None
      else ref_ok a name r \<and> (r = None \<longrightarrow> ckey name \<noteq> ckey k))"

definition refs_pending :: "request \<Rightarrow> string \<Rightarrow> bool" where
  "refs_pending rq k \<longleftrightarrow> ref_pending (rq_headers rq) k ''Host'' (rq_host rq)
     \<and> ref_pending (rq_headers rq) k ''Content-Type'' (rq_content_type rq)
     \<and> ref_pending (rq_headers rq) k ''If-Modified-Since'' (rq_if_modified_since rq)
     \<and> ref_pending (rq_headers rq) k ''If-None-Match'' (rq_if_none_match rq)"

lemma ref_pending_settle:
  assumes "ref_pending a k name r" "array_view a' = (array_view a)(ckey k \<mapsto> d)" "du_value d = Some v"
    "to = (if array_view a (ckey k) = None then Live else Freed)"
  shows "ref_ok a' name (map_option (\<lambda>r. if r = Pending then to else r) r)"
  using assms by (auto simp: ref_pending_def ref_ok_def header_view_def split: if_splits option.splits)

lemma put_header_ok:
  assumes "header_array (rq_headers rq)" "fresh_entry ds k v" "\<forall>v t. \<not> moves v t"
  shows "\<exists>rq'. put_header moves rq ds = Some rq' \<and> header_array (rq_headers rq') \<and> rq_split_vals rq' = rq_split_vals rq
     \<and> (refs_pending rq k \<longrightarrow> refs_ok rq')"
proof -
  note h = header_arrayD [OF assms(1)]
  let ?view = "array_view (rq_headers rq)"
  obtain a' d where a': "array_insert_unique (rq_headers rq) ds = Some a'" "header_array a'"
      "array_view a' = ?view(ckey k \<mapsto> d)" "du_value d = Some (merged_value (map_option du_value (?view (ckey k))) v)"
    using insert_entry_ok [OF assms(1,2)] by blast
  have key: "abs_bytes (du_key ds) = k" using assms(2) by (simp add: fresh_entry_def)
  define to where "to = (if ?view (ckey k) = None then Live else Freed)"
  have run: "put_header moves rq ds = Some (settle_refs to (rq\<lparr>rq_headers := a'\<rparr>))"
    using a'(1) key array_get_element_ok [OF h(1), of k] assms(3)
    by (cases "?view (ckey k)") (simp_all add: put_header_def to_def Let_def)
  have "refs_ok (settle_refs to (rq\<lparr>rq_headers := a'\<rparr>))" if "refs_pending rq k"
    using that ref_pending_settle [OF _ a'(3,4) to_def]
    by (auto simp: refs_ok_def refs_pending_def settle_refs_def map_refs_def)
  then show ?thesis using run a'(2) by auto
qed

lemma ref_pending_keep: "ref_ok a name r \<Longrightarrow> (r = None \<Longrightarrow> ckey name \<noteq> ckey k) \<Longrightarrow> ref_pending a k name r"
  by (auto simp: ref_pending_def ref_ok_def)

lemma ref_pending_new: "ref_ok a name None \<Longrightarrow> ckey name = ckey k \<Longrightarrow> ref_pending a k name (Some Pending)"
  by (auto simp: ref_pending_def ref_ok_def)

definition same_line :: "request \<Rightarrow> request \<Rightarrow> bool" where
  "same_line rq rq' \<longleftrightarrow> rq_method rq' = rq_method rq \<and> rq_version rq' = rq_version rq \<and> rq_uri rq' = rq_uri rq
     \<and> rq_orig_uri rq' = rq_orig_uri rq \<and> rq_status rq' = rq_status rq"

lemma same_line_refl [simp]: "same_line rq rq"
  by (simp add: same_line_def)

lemma same_line_trans: "same_line a b \<Longrightarrow> same_line b c \<Longrightarrow> same_line a c"
  by (simp add: same_line_def)

text \<open>The parts of the state that a special header may change.\<close>

definition same_scan :: "header_state \<Rightarrow> header_state \<Rightarrow> bool" where
  "same_scan st st' \<longleftrightarrow> st' = st\<lparr>hs_req := hs_req st', hs_con_length_set := hs_con_length_set st',
     hs_keep_alive_set := hs_keep_alive_set st'\<rparr>"

lemma same_scanD:
  "same_scan st st' \<Longrightarrow> hs_mem st' = hs_mem st \<and> hs_i st' = hs_i st \<and> hs_key st' = hs_key st
     \<and> hs_key_len st' = hs_key_len st \<and> hs_ws_after_key st' = hs_ws_after_key st \<and> hs_done st' = hs_done st"
  by (cases st; cases st') (simp add: same_scan_def)

definition special_result :: "header_state \<Rightarrow> string \<Rightarrow> request + bool \<times> header_state \<Rightarrow> bool" where
  "special_result st k r \<longleftrightarrow>
     (case r of Inl rq \<Rightarrow> True
      | Inr (keep, st') \<Rightarrow> rq_headers (hs_req st') = rq_headers (hs_req st)
          \<and> (\<exists>ts. token_array (rq_split_vals (hs_req st')) ts)
          \<and> (if keep then refs_pending (hs_req st') k else refs_ok (hs_req st')))"

lemma special_header_ok:
  assumes "request_ok (hs_req st)" "fresh_entry ds k v" "\<forall>v t. \<not> moves v t" "NUL \<notin> set v" "length v < 2 ^ 62"
  shows "\<exists>r. special_header h moves st ds = Some r \<and> special_result st k r"
proof -
  let ?rq = "hs_req st"
  let ?n = "special_name k special_names"
  obtain ts where ok: "header_array (rq_headers ?rq)" "token_array (rq_split_vals ?rq) ts" "refs_ok ?rq"
    using assms(1) by (auto simp: request_ok_def)
  have ds: "abs_bytes (du_key ds) = k" "du_value ds = Some v" using assms(2) by (simp_all add: fresh_entry_def)
  have "header_array (rq_headers (refuse 400 ?rq))" using ok(1) by (simp add: refuse_def)
  then obtain rej where rej: "put_header moves (refuse 400 ?rq) ds = Some rej"
    using put_header_ok [OF _ assms(2,3)] by blast
  have same: "ckey m = ckey k" if "?n = Some m" for m using special_name_Some that by blast
  have other: "ckey m \<noteq> ckey k" if "?n \<noteq> Some m" "m \<in> set special_names" for m
    using special_name_other [OF that] by simp
  have mem: "''Host'' \<in> set special_names" "''Content-Type'' \<in> set special_names"
    "''If-Modified-Since'' \<in> set special_names" "''If-None-Match'' \<in> set special_names"
    by (simp_all add: special_names_def)
  note refs = ok(3) [unfolded refs_ok_def]
  have keep: "refs_pending ?rq k"
    if "?n = Some ''Host'' \<Longrightarrow> rq_host ?rq \<noteq> None" "?n = Some ''Content-Type'' \<Longrightarrow> rq_content_type ?rq \<noteq> None"
      "?n = Some ''If-Modified-Since'' \<Longrightarrow> rq_if_modified_since ?rq \<noteq> None" "?n = Some ''If-None-Match'' \<Longrightarrow> rq_if_none_match ?rq \<noteq> None"
    unfolding refs_pending_def
  proof (intro conjI)
    show "ref_pending (rq_headers ?rq) k ''Host'' (rq_host ?rq)"
      by (rule ref_pending_keep) (use refs that(1) other [OF _ mem(1)] in blast)+
    show "ref_pending (rq_headers ?rq) k ''Content-Type'' (rq_content_type ?rq)"
      by (rule ref_pending_keep) (use refs that(2) other [OF _ mem(2)] in blast)+
    show "ref_pending (rq_headers ?rq) k ''If-Modified-Since'' (rq_if_modified_since ?rq)"
      by (rule ref_pending_keep) (use refs that(3) other [OF _ mem(3)] in blast)+
    show "ref_pending (rq_headers ?rq) k ''If-None-Match'' (rq_if_none_match ?rq)"
      by (rule ref_pending_keep) (use refs that(4) other [OF _ mem(4)] in blast)+
  qed
  consider "?n = Some ''Connection''" | "?n = Some ''Content-Length''" | "?n = Some ''Content-Type''" | "?n = Some ''Host''"
    | "?n = Some ''If-Modified-Since''" | "?n = Some ''If-None-Match''" | "?n = Some ''Range''"
    | "?n \<notin> Some ` set special_names"
    by (auto simp: special_names_def)
  then show ?thesis
  proof cases
    case 1
    obtain vals where vals: "http_request_split_value (array_reset (rq_split_vals ?rq)) (Some v) = Some vals"
        "token_array vals (list_tokens v)"
      using split_value_tokens [OF token_array_reset [OF ok(2)] assms(4,5)] by blast
    have "refs_pending (?rq\<lparr>rq_split_vals := vals\<rparr>) k" using keep 1 by (simp add: refs_pending_def)
    then show ?thesis using 1 vals ds by (auto simp: special_header_def special_result_def Let_def)
  next
    case 2
    have "refs_pending (?rq\<lparr>rq_content_length := r\<rparr>) k" for r using keep 2 by (simp add: refs_pending_def)
    then show ?thesis using 2 ds rej ok(2)
      by (cases "strtol 10 (cstr v)") (auto simp: special_header_def special_result_def Let_def)
  next
    case 3
    have "refs_pending (?rq\<lparr>rq_content_type := Some Pending\<rparr>) k" if "rq_content_type ?rq = None"
      using refs that 3 same [OF 3] other mem by (auto simp: refs_pending_def intro!: ref_pending_keep ref_pending_new)
    then show ?thesis using 3 ds rej ok(2) by (auto simp: special_header_def special_result_def Let_def)
  next
    case 4
    have "refs_pending (?rq\<lparr>rq_host := Some Pending\<rparr>) k" if "rq_host ?rq = None"
      using refs that 4 same [OF 4] other mem by (auto simp: refs_pending_def intro!: ref_pending_keep ref_pending_new)
    then show ?thesis using 4 ds rej ok(2,3) by (auto simp: special_header_def special_result_def Let_def)
  next
    case 5
    show ?thesis
    proof (cases "rq_if_modified_since ?rq")
      case None
      then have "refs_pending (?rq\<lparr>rq_if_modified_since := Some Pending\<rparr>) k"
        using refs 5 same [OF 5] other mem by (auto simp: refs_pending_def intro!: ref_pending_keep ref_pending_new)
      then show ?thesis using 5 ds None ok(2) by (auto simp: special_header_def special_result_def Let_def)
    next
      case (Some r)
      then obtain old where "deref ?rq ''If-Modified-Since'' r = Some old" using deref_ok [OF ok(1)] refs by metis
      then show ?thesis using 5 ds rej Some ok(2,3) by (auto simp: special_header_def special_result_def Let_def)
    qed
  next
    case 6
    have "refs_pending (?rq\<lparr>rq_if_none_match := Some Pending\<rparr>) k" if "rq_if_none_match ?rq = None"
      using refs that 6 same [OF 6] other mem by (auto simp: refs_pending_def intro!: ref_pending_keep ref_pending_new)
    then show ?thesis using 6 ds rej ok(2,3) by (auto simp: special_header_def special_result_def Let_def)
  next
    case 7
    have "refs_pending (?rq\<lparr>rq_range := Some Pending\<rparr>) k" "refs_pending ?rq k" using keep 7 by (simp_all add: refs_pending_def)
    then show ?thesis using 7 ds rej ok(2) by (auto simp: special_header_def special_result_def Let_def)
  next
    case 8
    then have "refs_pending ?rq k" using keep by (metis imageI mem)
    moreover have "?n \<noteq> Some m" if "m \<in> set special_names" for m using 8 that by auto
    then have "special_header h moves st ds = Some (Inr (True, st))"
      using ds by (simp add: special_header_def special_names_def)
    ultimately show ?thesis using ok(2) by (auto simp: special_result_def)
  qed
qed

lemma special_header_scan: "special_header h moves st ds = Some (Inr (keep, st')) \<Longrightarrow> same_scan st st'"
  by (auto simp: special_header_def same_scan_def Let_def split: if_splits bind_splits option.splits prod.splits)

lemma special_header_line:
  "special_header h moves st ds = Some (Inr (keep, st')) \<Longrightarrow> same_line (hs_req st) (hs_req st')"
  by (auto simp: special_header_def same_line_def Let_def split: if_splits bind_splits option.splits prod.splits)

lemma put_header_line: "put_header moves rq ds = Some rq' \<Longrightarrow> same_line rq rq'"
  by (auto simp: put_header_def same_line_def settle_refs_def map_refs_def stale_refs_def Let_def
      split: if_splits bind_splits option.splits)

text \<open>
  The state between two characters of a head of \<open>n\<close> characters: the key and value positions
  lie inside the memory, and the value so far has no terminator in it.
\<close>

definition value_ok :: "header_state \<Rightarrow> bool" where
  "value_ok st \<longleftrightarrow> (\<exists>v. hs_value st = Some v \<and> v \<le> hs_i st \<and> NUL \<notin> set (take (hs_i st - v) (drop v (hs_mem st))))"

definition hs_ok :: "nat \<Rightarrow> header_state \<Rightarrow> bool" where
  "hs_ok n st \<longleftrightarrow> head_mem n (hs_mem st) \<and> hs_first st \<le> hs_i st \<and> request_ok (hs_req st)
     \<and> (\<forall>k. hs_key st = Some k \<longrightarrow> k + hs_key_len st \<le> n + 1 \<and> k \<le> hs_first st)
     \<and> (hs_ws_after_key st \<longrightarrow> hs_is_key st \<and> hs_first st + hs_key_len st \<le> hs_i st \<and> hs_first st < hs_i st)
     \<and> (\<not> hs_is_key st \<longrightarrow> value_ok st \<and> (\<not> hs_in_folding st \<longrightarrow> hs_first st + hs_key_len st \<le> hs_i st))"

lemma hs_okD:
  assumes "hs_ok n st"
  shows "head_mem n (hs_mem st)" "hs_first st \<le> hs_i st" "request_ok (hs_req st)"
    "\<And>k. hs_key st = Some k \<Longrightarrow> k + hs_key_len st \<le> n + 1 \<and> k \<le> hs_first st"
    "hs_ws_after_key st \<Longrightarrow> hs_is_key st \<and> hs_first st + hs_key_len st \<le> hs_i st \<and> hs_first st < hs_i st"
    "\<not> hs_is_key st \<Longrightarrow> value_ok st"
    "\<not> hs_is_key st \<Longrightarrow> \<not> hs_in_folding st \<Longrightarrow> hs_first st + hs_key_len st \<le> hs_i st"
  using assms by (auto simp: hs_ok_def)

definition step_ok :: "nat \<Rightarrow> (request + header_state) option \<Rightarrow> bool" where
  "step_ok n r \<longleftrightarrow> (case r of None \<Rightarrow> False | Some (Inl rq) \<Rightarrow> True | Some (Inr st) \<Rightarrow> hs_ok n (st\<lparr>hs_i := hs_i st + 1\<rparr>))"

lemma step_ok_simps [simp]:
  "step_ok n (Some (Inl rq))" "step_ok n (Some (Inr st)) = hs_ok n (st\<lparr>hs_i := hs_i st + 1\<rparr>)" "\<not> step_ok n None"
  by (simp_all add: step_ok_def)

lemma find_colon_ok: "NUL \<in> set s \<Longrightarrow> \<exists>r. find_colon s = Some r"
  by (induction s) auto

lemma key_step_ok:
  assumes "hs_ok n st" "hs_i st \<le> n" "hs_is_key st"
  shows "step_ok n (header_key_step strict st)"
proof -
  note ok = hs_okD [OF assms(1)]
  let ?mem = "hs_mem st" and ?i = "hs_i st"
  have mem: "length ?mem = n + 1" "?mem ! n = NUL" using head_memD [OF ok(1)] by simp_all
  let ?c = "?mem ! ?i"
  have c: "nth_opt ?mem ?i = Some ?c" using mem assms(2) by simp
  have more: "?i < n" if "?c \<noteq> NUL" using that assms(2) mem(2) by (cases "?i = n") auto
  have next1: "nth_opt ?mem (?i + 1) = Some (?mem ! (?i + 1))" if "?c \<noteq> NUL" using more [OF that] mem(1) by simp
  note w1 = head_mem_write [OF ok(1) assms(2)]
  consider "?c = CHR '':''" | "?c \<in> set key_separators" "?c \<noteq> CHR '':''"
    | "is_blank ?c" | "?c = CR" | "?c = LF"
    | "?c \<noteq> CHR '':''" "?c \<notin> set key_separators" "\<not> is_blank ?c" "?c \<noteq> CR" "?c \<noteq> LF"
    by blast
  then show ?thesis
  proof cases
    case 1
    then show ?thesis using c ok(1-5) mem assms(2,3)
      by (fastforce simp: header_key_step_def hs_ok_def value_ok_def)
  next
    case 2
    then show ?thesis using c by (simp add: header_key_step_def)
  next
    case 3
    then have nn: "?c \<noteq> NUL" "?c \<noteq> CHR '':''" "?c \<notin> set key_separators" "?c = SP \<or> ?c = TAB"
      by (auto simp: is_blank_def key_separators_def)
    show ?thesis
    proof (cases "?i = hs_first st")
      case True
      have "hs_ok n (st\<lparr>hs_is_key := False, hs_in_folding := True, hs_value := Some ?i, hs_i := ?i + 1\<rparr>)"
        using ok(1-5) nn(1) mem assms(2) True by (auto simp: hs_ok_def value_ok_def take_Suc hd_drop_conv_nth)
      then show ?thesis using c nn True by (auto simp: header_key_step_def)
    next
      case False
      have "drop (?i + 1) ?mem ! (n - (?i + 1)) = NUL" "n - (?i + 1) < length (drop (?i + 1) ?mem)"
        using more [OF nn(1)] mem by auto
      then have "NUL \<in> set (drop (?i + 1) ?mem)" by (metis nth_mem)
      then obtain r where r: "find_colon (drop (?i + 1) ?mem) = Some r" using find_colon_ok by blast
      have "hs_ok n (st\<lparr>hs_key_len := ?i - hs_first st, hs_ws_after_key := True, hs_i := Suc (?i + j)\<rparr>)" for j
        using ok(1-4) assms(2,3) by (fastforce simp: hs_ok_def)
      then show ?thesis using c nn False r by (cases r) (auto simp: header_key_step_def)
    qed
  next
    case 4
    then have "?c \<notin> set key_separators" by (simp add: key_separators_def)
    moreover have "?i + 1 \<le> n" using more 4 by simp
    then have w2: "mwrite (?mem[?i := NUL]) (?i + 1) NUL = Some (?mem[?i := NUL, ?i + 1 := NUL]) \<and> head_mem n (?mem[?i := NUL, ?i + 1 := NUL])"
      using head_mem_write [of n "?mem[?i := NUL]" "?i + 1"] w1 by simp
    moreover have "hs_ok n (st\<lparr>hs_mem := ?mem[?i := NUL, ?i + 1 := NUL], hs_done := True, hs_i := Suc (Suc ?i)\<rparr>)"
      using ok w2 assms(3) by (auto simp: hs_ok_def)
    ultimately show ?thesis using 4 c next1 w1 by (cases "?i = hs_first st") (simp_all add: header_key_step_def)
  next
    case 5
    then have "?c \<notin> set key_separators" by (simp add: key_separators_def)
    moreover have "hs_ok n (st\<lparr>hs_mem := ?mem[?i := NUL], hs_done := True, hs_i := Suc ?i\<rparr>)" "hs_ok n (st\<lparr>hs_i := ?i + 1\<rparr>)"
      using ok w1 assms(3) by (auto simp: hs_ok_def)
    ultimately show ?thesis using 5 c w1 by (cases "?i = hs_first st") (simp_all add: header_key_step_def)
  next
    case 6
    have "hs_ok n (st\<lparr>hs_i := ?i + 1\<rparr>)" using ok assms(3) by (auto simp: hs_ok_def)
    then show ?thesis using 6 c by (simp add: header_key_step_def is_blank_def)
  qed
qed

text \<open>What \<open>hs_ok\<close> needs once a line has ended at \<open>i\<close>.\<close>

definition line_ended :: "nat \<Rightarrow> nat \<Rightarrow> header_state \<Rightarrow> bool" where
  "line_ended n i st \<longleftrightarrow> head_mem n (hs_mem st) \<and> request_ok (hs_req st) \<and> hs_i st = i \<and> \<not> hs_ws_after_key st
     \<and> (\<forall>k. hs_key st = Some k \<longrightarrow> k + hs_key_len st \<le> n + 1 \<and> k \<le> i)"

lemma fold_ok:
  assumes "line_ended n i st" "hs_value st = Some v" "v \<le> n" "\<forall>v t. \<not> moves v t"
  shows "\<exists>r. header_fold moves st = Some r \<and> (\<forall>st'. r = Inr st' \<longrightarrow> line_ended n i st')"
proof (cases "hs_key st = None \<or> hs_key_len st = 0")
  case True
  then show ?thesis by (cases "hs_key st") (auto simp: header_fold_def Let_def)
next
  case False
  then obtain k where k: "hs_key st = Some k" by auto
  let ?rq = "hs_req st"
  have m: "head_mem n (hs_mem st)" "request_ok ?rq" "k + hs_key_len st \<le> n + 1"
    using assms(1) k by (auto simp: line_ended_def)
  note mem = head_memD [OF m(1)]
  define name where "name = take (hs_key_len st) (drop k (hs_mem st))"
  have sl: "mslice (hs_mem st) k (hs_key_len st) = Some name" using m(3) mem by (simp add: name_def)
  have h: "header_array (rq_headers ?rq)" using m(2) by (simp add: request_ok_def)
  note get = array_get_element_ok [OF header_arrayD(1) [OF h], of name]
  have cs: "cstr_at (hs_mem st) v = Some (cstr (drop v (hs_mem st)))" using cstr_at_ok [of v n] assms(3) mem by simp
  show ?thesis
  proof (cases "array_view (rq_headers ?rq) (ckey name)")
    case None
    then show ?thesis using assms(1) k False sl get by (auto simp: header_fold_def)
  next
    case (Some d)
    let ?v = "abs_bytes (du_value d) @ cstr (drop v (hs_mem st))"
    obtain a' where a': "array_set_value (rq_headers ?rq) name (Some ?v) = Some a'" "header_array a'"
        "array_view a' = (array_view (rq_headers ?rq))(ckey name \<mapsto> d\<lparr>du_value := Some ?v\<rparr>)"
      using set_value_ok [OF h Some] by blast
    have run: "header_fold moves st = Some (Inr (st\<lparr>hs_req := ?rq\<lparr>rq_headers := a'\<rparr>\<rparr>))"
      using k False sl get Some assms(2,4) cs a'(1) by (simp add: header_fold_def Let_def)
    have "ref_ok a' m r" if "ref_ok (rq_headers ?rq) m r" for m r
      using that a'(3) Some by (auto simp: ref_ok_def header_view_def split: option.splits if_splits)
    then have "request_ok (?rq\<lparr>rq_headers := a'\<rparr>)"
      using m(2) a'(2) by (auto simp: request_ok_def refs_ok_def)
    then show ?thesis using run assms(1) by (auto simp: line_ended_def)
  qed
qed

lemma strip_trailing_prefix: "\<exists>t. s = strip_trailing s @ t"
  unfolding strip_trailing_def by (metis rev_append rev_rev_ident takeWhile_dropWhile_id)

lemma strip_trailing_le: "length (strip_trailing s) \<le> length s"
  by (metis strip_trailing_prefix le_add1 length_append)

lemma strip_trailing_set: "set (strip_trailing s) \<subseteq> set s"
  by (metis strip_trailing_prefix Un_upper1 set_append)

lemma field_ok:
  assumes "line_ended n i st" "hs_value st = Some v" "v \<le> cur" "cur \<le> n" "NUL \<notin> set (take (cur - v) (drop v (hs_mem st)))"
    "hs_first st + hs_key_len st \<le> cur" "hs_first st \<le> i" "\<forall>v t. \<not> moves v t" "n < 2 ^ 62"
  shows "\<exists>r. header_field h moves cur st = Some r \<and> (\<forall>st'. r = Inr st' \<longrightarrow> line_ended n i st')"
proof -
  have m: "head_mem n (hs_mem st)" "request_ok (hs_req st)" using assms(1) by (auto simp: line_ended_def)
  note mem = head_memD [OF m(1)]
  define body where "body = strip_trailing (take (cur - v) (drop v (hs_mem st)))"
  have sl: "mslice (hs_mem st) v (cur - v) = Some (take (cur - v) (drop v (hs_mem st)))" using assms(3,4) mem by simp
  have len: "length body \<le> cur - v" using strip_trailing_le [of "take (cur - v) (drop v (hs_mem st))"] by (simp add: body_def)
  then have fit: "v + length body \<le> n" using assms(3,4) by simp
  have "NUL \<notin> set body" using assms(5) strip_trailing_set by (auto simp: body_def)
  note w = head_mem_write [OF m(1) fit]
  define mem' where "mem' = (hs_mem st)[v + length body := NUL]"
  define st1 where "st1 = st\<lparr>hs_mem := mem', hs_key := Some (hs_first st)\<rparr>"
  have e1: "line_ended n i st1" using assms(1,4,6,7) w by (auto simp: line_ended_def st1_def mem'_def)
  show ?thesis
  proof (cases "body = []")
    case True
    then have "header_field h moves cur st = Some (Inr st1)"
      using assms(2,3) sl w by (simp add: header_field_def body_def st1_def mem'_def Let_def)
    then show ?thesis using e1 by simp
  next
    case False
    define name where "name = take (hs_key_len st) (drop (hs_first st) mem')"
    have nm: "mslice mem' (hs_first st) (hs_key_len st) = Some name"
      using assms(4,6) mem by (simp add: name_def mem'_def)
    have hd: "header_array (rq_headers (hs_req st))" using m(2) by (simp add: request_ok_def)
    define un where "un = array_get_unused_element (rq_headers (hs_req st)) TYPE_STRING"
    define ds where "ds = (case fst un of None \<Rightarrow> data_string_init | Some d \<Rightarrow> d)\<lparr>du_key := Some name, du_value := Some body\<rparr>"
    note fe = fresh_entryI(1,2) [OF hd, folded un_def] fresh_entryI(3) [OF hd, where k = name and v = body, folded un_def, folded ds_def]
    define st2 where "st2 = st1\<lparr>hs_req := (hs_req st1)\<lparr>rq_headers := snd un\<rparr>\<rparr>"
    have "refs_ok (hs_req st2)" using m(2) fe(2)
      by (auto simp: request_ok_def refs_ok_def st2_def st1_def elim!: ref_ok_mono)
    then have ok2: "request_ok (hs_req st2)" using m(2) fe(1) by (simp add: request_ok_def st2_def st1_def)
    have "length body < 2 ^ 62" using fit assms(9) by simp
    then obtain r where r: "special_header h moves st2 ds = Some r" "special_result st2 name r"
      using special_header_ok [OF ok2 fe(3) assms(8) \<open>NUL \<notin> set body\<close>] by blast
    have run: "header_field h moves cur st = (case r of Inl rq \<Rightarrow> Some (Inl rq)
       | Inr (keep, st) \<Rightarrow> if keep then do { rq \<leftarrow> put_header moves (hs_req st) ds; Some (Inr (st\<lparr>hs_req := rq\<rparr>)) }
                          else Some (Inr st))"
      using assms(2,3) sl w False nm r(1)
      by (cases r) (simp_all add: header_field_def body_def [symmetric] st2_def st1_def mem'_def [symmetric] ds_def [symmetric]
          un_def [symmetric] Let_def case_prod_beta)
    show ?thesis
    proof (cases r)
      case (Inl rq)
      then show ?thesis using run by simp
    next
      case (Inr p)
      obtain keep st3 where p: "p = (keep, st3)" by (cases p)
      have "same_scan st2 st3" using special_header_scan r(1) Inr p by blast
      then have scan: "hs_mem st3 = mem'" "hs_i st3 = hs_i st" "hs_key st3 = Some (hs_first st)" "hs_key_len st3 = hs_key_len st"
        "hs_ws_after_key st3 = hs_ws_after_key st"
        using same_scanD [of st2 st3] by (simp_all add: st1_def st2_def)
      have h3: "header_array (rq_headers (hs_req st3))" "\<exists>ts. token_array (rq_split_vals (hs_req st3)) ts"
        using r(2) Inr p fe(1) by (auto simp: special_result_def st2_def)
      have ended: "line_ended n i (st3\<lparr>hs_req := rq\<rparr>)" if "request_ok rq" for rq
        using that e1 scan by (simp add: line_ended_def st1_def)
      show ?thesis
      proof (cases keep)
        case True
        obtain rq' where rq': "put_header moves (hs_req st3) ds = Some rq'" "header_array (rq_headers rq')"
            "rq_split_vals rq' = rq_split_vals (hs_req st3)" "refs_pending (hs_req st3) name \<longrightarrow> refs_ok rq'"
          using put_header_ok [OF h3(1) fe(3) assms(8)] by blast
        have "request_ok rq'" using rq' h3(2) r(2) Inr p True by (simp add: request_ok_def special_result_def)
        then show ?thesis using run Inr p True rq'(1) ended by simp
      next
        case False
        then have "request_ok (hs_req st3)" using h3 r(2) Inr p by (simp add: request_ok_def special_result_def)
        then show ?thesis using run Inr p False ended [of "hs_req st3"] by simp
      qed
    qed
  qed
qed

lemma value_step_ok:
  assumes "hs_ok n st" "hs_i st \<le> n" "\<not> hs_is_key st" "\<forall>v t. \<not> moves v t" "n < 2 ^ 62"
  shows "step_ok n (header_value_step strict h moves st)"
proof -
  note ok = hs_okD [OF assms(1)]
  let ?mem = "hs_mem st" and ?i = "hs_i st"
  have mem: "length ?mem = n + 1" "?mem ! n = NUL" using head_memD [OF ok(1)] by simp_all
  let ?c = "?mem ! ?i"
  have c: "nth_opt ?mem ?i = Some ?c" using mem assms(2) by simp
  have more: "?i < n" if "?c \<noteq> NUL" using that assms(2) mem(2) by (cases "?i = n") auto
  obtain v where v: "hs_value st = Some v" "v \<le> ?i" "NUL \<notin> set (take (?i - v) (drop v ?mem))"
    using ok(6) [OF assms(3)] by (auto simp: value_ok_def)
  have ext: "take (?i + 1 - v) (drop v ?mem) = take (?i - v) (drop v ?mem) @ [?c]"
    using v(2) assms(2) mem by (simp add: Suc_diff_le take_Suc_conv_app_nth)
  have go: "hs_ok n (st\<lparr>hs_i := ?i + 1\<rparr>)" if "?c \<noteq> NUL"
    using ok v ext that assms(3) by (auto simp: hs_ok_def value_ok_def)
  consider "?c = CR \<or> ?c = LF" | "is_blank ?c" | "?c \<noteq> CR" "?c \<noteq> LF" "\<not> is_blank ?c" by blast
  then show ?thesis
  proof cases
    case 1
    then have less: "?i < n" using more by auto
    define crlf where "crlf = (?c = CR \<and> ?mem ! (?i + 1) = LF)"
    have crlf: "(if ?c = LF then Some False else map_option (\<lambda>n. n = LF) (nth_opt ?mem (?i + 1))) = Some crlf"
      using less mem 1 by (auto simp: crlf_def)
    show ?thesis
    proof (cases "(?c = LF \<and> \<not> strict) \<or> crlf")
      case False
      then show ?thesis using 1 c crlf by (auto simp: header_value_step_def Let_def)
    next
      case True
      define e where "e = (if crlf then ?i + 1 else ?i)"
      define mem2 where "mem2 = ?mem[?i := NUL, e := NUL]"
      have e: "e \<le> n" "?i \<le> e" using less by (simp_all add: e_def)
      note w1 = head_mem_write [OF ok(1) assms(2)]
      then have w2: "mwrite (?mem[?i := NUL]) e NUL = Some mem2" "head_mem n mem2"
        using head_mem_write [of n "?mem[?i := NUL]" e] e(1) by (simp_all add: mem2_def)
      define st1 where "st1 = st\<lparr>hs_mem := mem2, hs_i := e\<rparr>"
      have ended: "line_ended n e st1" using ok(2-5) assms(3) w2(2) e(2) by (fastforce simp: line_ended_def st1_def)
      have "\<exists>r. (if hs_in_folding st1 then header_fold moves st1 else header_field h moves ?i st1) = Some r
          \<and> (\<forall>st'. r = Inr st' \<longrightarrow> line_ended n e st')"
      proof (cases "hs_in_folding st1")
        case True
        have "hs_value st1 = Some v" "v \<le> n" using v less by (simp_all add: st1_def)
        from fold_ok [OF ended this assms(4)] show ?thesis using True by simp
      next
        case False
        have "take (?i - v) (drop v mem2) = take (?i - v) (drop v ?mem)"
          using e(2) v(2) by (simp add: mem2_def drop_update_swap)
        then have "NUL \<notin> set (take (?i - v) (drop v (hs_mem st1)))" using v(3) by (simp add: st1_def)
        moreover have "hs_first st1 + hs_key_len st1 \<le> ?i" using ok(7) [OF assms(3)] False by (simp add: st1_def)
        moreover have "hs_value st1 = Some v" "hs_first st1 \<le> e" using v ok(2) e(2) by (simp_all add: st1_def)
        ultimately show ?thesis using field_ok [OF ended, of v ?i moves h] v(2) assms(2,4,5) False by simp
      qed
      then obtain r where r: "(if hs_in_folding st1 then header_fold moves st1 else header_field h moves ?i st1) = Some r"
          "\<And>st'. r = Inr st' \<Longrightarrow> line_ended n e st'" by blast
      have "header_value_step strict h moves st = header_line_end h moves ?i st1"
        using 1 True c crlf w1 w2(1) by (auto simp: header_value_step_def Let_def e_def [symmetric] st1_def)
      then have run: "header_value_step strict h moves st = (case r of Inl rq \<Rightarrow> Some (Inl rq)
          | Inr st \<Rightarrow> Some (Inr (st\<lparr>hs_first := hs_i st + 1, hs_is_key := True, hs_value := None, hs_in_folding := False\<rparr>)))"
        using r(1) by (simp add: header_line_end_def)
      show ?thesis
      proof (cases r)
        case (Inr st')
        then have le: "line_ended n e st'" using r(2) by blast
        have "hs_ok n (st'\<lparr>hs_first := Suc e, hs_is_key := True, hs_value := None, hs_in_folding := False, hs_i := Suc e\<rparr>)"
          using le by (auto simp: line_ended_def hs_ok_def)
        then show ?thesis using run Inr le by (simp add: line_ended_def)
      qed (use run in simp)
    qed
  next
    case 2
    then have nn: "?c \<noteq> NUL" "?c \<noteq> CR" "?c \<noteq> LF" by (auto simp: is_blank_def)
    have "hs_ok n (st\<lparr>hs_value := Some (?i + 1), hs_i := ?i + 1\<rparr>)" using ok assms(3) by (auto simp: hs_ok_def value_ok_def)
    then show ?thesis using 2 c nn go by (auto simp: header_value_step_def)
  next
    case 3
    then show ?thesis
      using c go by (cases "?c = NUL") (auto simp: header_value_step_def is_blank_def scode_def)
  qed
qed

lemma header_step_ok:
  assumes "hs_ok n st" "hs_i st \<le> n" "\<forall>v t. \<not> moves v t" "n < 2 ^ 62"
  shows "step_ok n (header_step strict h moves st)"
  using key_step_ok [OF assms(1,2)] value_step_ok [OF assms(1,2) _ assms(3,4)] by (simp add: header_step_def)

lemma header_loop_ok:
  "hs_ok n st \<Longrightarrow> \<forall>v t. \<not> moves v t \<Longrightarrow> n < 2 ^ 62 \<Longrightarrow>
     \<exists>r. header_loop strict h moves n st = Some r \<and> (\<forall>st'. r = Inr st' \<longrightarrow> request_ok (hs_req st'))"
proof (induction strict h moves n st rule: header_loop.induct)
  case (1 strict h moves n st)
  show ?case
  proof (cases "hs_i st \<le> n \<and> \<not> hs_done st")
    case True
    then have step: "step_ok n (header_step strict h moves st)" using header_step_ok [OF 1(2)] 1(3,4) by blast
    then obtain r where r: "header_step strict h moves st = Some r" by (cases "header_step strict h moves st") auto
    show ?thesis
    proof (cases r)
      case (Inl rq)
      then show ?thesis using r True by (simp add: header_loop.simps [of strict h moves n st])
    next
      case (Inr st')
      then have "hs_ok n (st'\<lparr>hs_i := hs_i st' + 1\<rparr>)" using step r by simp
      note IH = 1(1) [OF True r Inr this 1(3,4)]
      have "header_loop strict h moves n st = header_loop strict h moves n (st'\<lparr>hs_i := hs_i st' + 1\<rparr>)"
        using r Inr True by (simp add: header_loop.simps [of strict h moves n st])
      then show ?thesis using IH by metis
    qed
  next
    case False
    then show ?thesis using 1(2) by (auto simp: header_loop.simps [of strict h moves n st] dest: hs_okD(3))
  qed
qed

section \<open>The request line stays inside the memory\<close>

lemma index_of_less: "index_of c s = Some k \<Longrightarrow> k < length s"
proof -
  assume "index_of c s = Some k"
  then have k: "k = length (takeWhile (\<lambda>x. x \<noteq> c) s)" "c \<in> set s" by (auto simp: index_of_def split: if_splits)
  show "k < length s"
  proof (rule ccontr)
    assume "\<not> k < length s"
    then have "takeWhile (\<lambda>x. x \<noteq> c) s = s" using k(1) by (metis leI le_antisym length_takeWhile_le take_all takeWhile_eq_take)
    then show False using k(2) by (metis (mono_tags, lifting) set_takeWhileD)
  qed
qed

lemma request_target_bound:
  assumes "request_target strict m u = Some (path, host)"
  shows "path \<le> length u" "\<And>p k. host = Some (p, k) \<Longrightarrow> p + k \<le> length u"
proof -
  have "path \<le> length u \<and> (\<forall>p k. host = Some (p, k) \<longrightarrow> p + k \<le> length u)"
    using assms index_of_less [of _ "drop 7 u"] index_of_less [of _ "drop 8 u"]
    by (fastforce simp: request_target_def Let_def split: if_splits)
  then show "path \<le> length u" "\<And>p k. host = Some (p, k) \<Longrightarrow> p + k \<le> length u" by auto
qed

lemma cstr_length_le:
  assumes "p \<le> q" "q < length mem" "mem ! q = NUL"
  shows "length (cstr (drop p mem)) \<le> q - p"
proof -
  have "drop p mem = take (q - p) (drop p mem) @ NUL # drop (q + 1) mem"
    using assms by (metis Cons_nth_drop_Suc Suc_eq_plus1 append_take_drop_id drop_drop le_add_diff_inverse2)
  then have "cstr (drop p mem) = cstr (take (q - p) (drop p mem))" by (metis cstr_append_nul)
  then show ?thesis using length_cstr [of "take (q - p) (drop p mem)"] by simp
qed

definition line_fields :: "line_state \<Rightarrow> bool" where
  "line_fields st \<longleftrightarrow>
     (ls_stage st = 0
      \<or> (ls_stage st = 1 \<and> 0 < ls_first st \<and> (\<exists>m. ls_method st = Some m \<and> m < ls_first st))
      \<or> (ls_stage st = 2 \<and> (\<exists>m u. ls_method st = Some m \<and> ls_uri st = Some u \<and> m < u \<and> u < ls_first st)))"

definition host_in :: "nat \<Rightarrow> (nat \<times> nat) option \<Rightarrow> bool" where
  "host_in n h \<longleftrightarrow> (\<forall>p k. h = Some (p, k) \<longrightarrow> p + k \<le> n)"

text \<open>What an accepted request line leaves.\<close>

definition line_done :: "bool \<Rightarrow> request \<Rightarrow> bool" where
  "line_done strict rq \<longleftrightarrow> rq_method rq \<noteq> HTTP_METHOD_UNSET \<and> rq_version rq \<in> {HTTP_VERSION_1_0, HTTP_VERSION_1_1}
     \<and> request_uri_ok strict (rq_uri rq) \<and> rq_orig_uri rq = rq_uri rq \<and> rq_status rq = 0"

text \<open>The fields that the request line does not touch.\<close>

definition line_only :: "request \<Rightarrow> request \<Rightarrow> bool" where
  "line_only rq rq' \<longleftrightarrow> rq_headers rq' = rq_headers rq \<and> rq_split_vals rq' = rq_split_vals rq \<and> rq_host rq' = rq_host rq
     \<and> rq_content_type rq' = rq_content_type rq \<and> rq_if_modified_since rq' = rq_if_modified_since rq
     \<and> rq_if_none_match rq' = rq_if_none_match rq \<and> rq_range rq' = rq_range rq \<and> rq_content_length rq' = rq_content_length rq"

definition ls_ok :: "bool \<Rightarrow> nat \<Rightarrow> request \<Rightarrow> line_state \<Rightarrow> bool" where
  "ls_ok strict n rq st \<longleftrightarrow> head_mem n (ls_mem st) \<and> ls_first st \<le> ls_i st \<and> ls_i st \<le> n \<and> host_in n (ls_host st)
     \<and> line_only rq (ls_req st)
     \<and> (if ls_line st then line_done strict (ls_req st) else ls_host st = None \<and> rq_uri (ls_req st) = rq_uri rq \<and> line_fields st)"

lemma parse_request_line_ok:
  assumes "head_mem n (ls_mem st)" "ls_first st \<le> ls_i st" "ls_i st < n + 1" "line_fields st" "ls_host st = None"
    "line_only rq (ls_req st)"
  shows "\<exists>r. parse_request_line strict http11 st = Some r
     \<and> (\<forall>st'. r = Inr st' \<longrightarrow> ls_line st' \<and> ls_i st' = ls_i st \<and> ls_first st' = ls_i st + 1 \<and> head_mem n (ls_mem st')
          \<and> host_in n (ls_host st') \<and> line_done strict (ls_req st')
          \<and> line_only rq (ls_req st'))"
proof (cases "ls_stage st = 2")
  case False
  then show ?thesis by (simp add: parse_request_line_def)
next
  case True
  let ?proto = "ls_first st"
  obtain m u where f: "ls_method st = Some m" "ls_uri st = Some u" "m < u" "u < ?proto"
    using assms(4) True by (auto simp: line_fields_def)
  define mem1 where "mem1 = (ls_mem st)[u - 1 := NUL]"
  define mem where "mem = mem1[?proto - 1 := NUL]"
  have w1: "mwrite (ls_mem st) (u - 1) NUL = Some mem1" "head_mem n mem1"
    using head_mem_write [OF assms(1), of "u - 1"] f assms(2,3) by (simp_all add: mem1_def)
  have w2: "mwrite mem1 (?proto - 1) NUL = Some mem" "head_mem n mem"
    using head_mem_write [OF w1(2), of "?proto - 1"] f assms(2,3) by (simp_all add: mem_def)
  note mem = head_memD [OF w2(2)]
  have cs: "cstr_at mem p = Some (cstr (drop p mem))" if "p \<le> n" for p using cstr_at_ok [of p n mem] that mem by simp
  have ends: "mem ! (?proto - 1) = NUL" "?proto - 1 < length mem"
    using mem f assms(2,3) by (simp_all add: mem_def mem1_def)
  have ul: "length (cstr (drop u mem)) \<le> ?proto - 1 - u" using cstr_length_le [of u "?proto - 1" mem] ends f by simp
  let ?meth = "get_http_method_key (cstr (drop m mem))"
  show ?thesis
  proof (cases "?meth = HTTP_METHOD_UNSET")
    case bad: True
    then show ?thesis
      using True f w1(1) w2(1) cs [of m] cs [of u] cs [of ?proto] assms(2,3) by (simp add: parse_request_line_def Let_def)
  next
    case good: False
    show ?thesis
    proof (cases "request_version http11 (cstr (drop ?proto mem))")
      case (Inl fail)
      then show ?thesis
        using True f w1(1) w2(1) cs [of m] cs [of u] cs [of ?proto] assms(2,3) good by (simp add: parse_request_line_def Let_def)
    next
      case (Inr version)
      show ?thesis
      proof (cases "request_target strict ?meth (cstr (drop u mem))")
        case None
        then show ?thesis
          using True f w1(1) w2(1) cs [of m] cs [of u] cs [of ?proto] assms(2,3) good Inr by (simp add: parse_request_line_def Let_def)
      next
        case (Some t)
        obtain path host where t: "t = (path, host)" by (cases t)
        note b = request_target_bound [OF Some [unfolded t]]
        have "u + path + (?proto - (u + path) - 1) \<le> length mem" using b(1) ul f assms(2,3) mem by simp
        then have sl: "mslice mem (u + path) (?proto - (u + path) - 1) = Some (take (?proto - (u + path) - 1) (drop (u + path) mem))"
          by simp
        let ?text = "take (?proto - (u + path) - 1) (drop (u + path) mem)"
        have ver: "version \<in> {HTTP_VERSION_1_0, HTTP_VERSION_1_1}"
          using Inr by (auto simp: request_version_def Let_def split: if_splits option.splits prod.splits)
        have hi: "host_in n (map_option (\<lambda>(p, k). (u + p, k)) host)"
          using b(2) ul f assms(2,3) by (fastforce simp: host_in_def)
        have run: "parse_request_line strict http11 st =
            (if \<not> request_uri_ok strict ?text
             then Some (Inl (refuse 400 ((ls_req st)\<lparr>rq_method := ?meth, rq_version := version, rq_uri := ?text\<rparr>)))
             else Some (Inr (st\<lparr>ls_mem := mem, ls_first := ls_i st + 1, ls_line := True,
               ls_host := map_option (\<lambda>(p, n). (u + p, n)) host,
               ls_req := (ls_req st)\<lparr>rq_method := ?meth, rq_version := version, rq_uri := ?text, rq_orig_uri := ?text, rq_status := 0\<rparr>\<rparr>)))"
          using True f w1(1) w2(1) cs [of m] cs [of u] cs [of ?proto] assms(2,3) good Inr Some t sl
          by (simp add: parse_request_line_def Let_def)
        show ?thesis
          using run w2(2) hi ver good assms(6) by (auto simp: line_done_def line_only_def)
      qed
    qed
  qed
qed

lemma request_line_step_ok:
  assumes "ls_ok strict n rq st" "ls_i st < n" "\<not> ls_line st"
  shows "\<exists>r. request_line_step strict http11 st = Some r \<and> (\<forall>st'. r = Inr st' \<longrightarrow>
     ls_ok strict n rq (st'\<lparr>ls_i := ls_i st' + 1\<rparr>))"
proof -
  let ?mem = "ls_mem st" and ?i = "ls_i st"
  have ok: "head_mem n ?mem" "ls_first st \<le> ?i" "ls_host st = None" "line_fields st" "rq_uri (ls_req st) = rq_uri rq"
    "line_only rq (ls_req st)"
    using assms(1,3) by (auto simp: ls_ok_def)
  note mem = head_memD [OF ok(1)]
  let ?c = "?mem ! ?i" and ?d = "?mem ! (?i + 1)"
  have c: "nth_opt ?mem ?i = Some ?c" "nth_opt ?mem (?i + 1) = Some ?d" using mem assms(2) by simp_all
  have sl: "mslice ?mem 0 ?i = Some (take ?i ?mem)" using mem assms(2) by simp
  consider "?c = CR" "?d = LF" | "?c = LF" | "?c = SP" | "\<not> (?c = CR \<and> ?d = LF)" "?c \<noteq> LF" "?c \<noteq> SP" by blast
  then show ?thesis
  proof cases
    case 1
    define mem2 where "mem2 = ?mem[?i := NUL, ?i + 1 := NUL]"
    have w: "mwrite ?mem ?i NUL = Some (?mem[?i := NUL])" "mwrite (?mem[?i := NUL]) (?i + 1) NUL = Some mem2" "head_mem n mem2"
      using head_mem_write [OF ok(1), of ?i] head_mem_write [of n "?mem[?i := NUL]" "?i + 1"] assms(2)
      by (simp_all add: mem2_def)
    define st2 where "st2 = st\<lparr>ls_mem := mem2, ls_i := ?i + 1, ls_req := (ls_req st)\<lparr>rq_line := take ?i ?mem\<rparr>\<rparr>"
    obtain r where r: "parse_request_line strict http11 st2 = Some r" "\<And>st'. r = Inr st' \<Longrightarrow>
        ls_line st' \<and> ls_i st' = ?i + 1 \<and> ls_first st' = ?i + 2 \<and> head_mem n (ls_mem st')
          \<and> host_in n (ls_host st') \<and> line_done strict (ls_req st')
          \<and> line_only rq (ls_req st')"
      using parse_request_line_ok [of n st2 rq strict http11] ok w(3) assms(2)
      by (auto simp: st2_def line_fields_def line_only_def)
    have "?i + 1 \<noteq> n" using 1 mem by auto
    then have "?i + 2 \<le> n" using assms(2) by simp
    then have "ls_ok strict n rq (st'\<lparr>ls_i := ls_i st' + 1\<rparr>)" if "r = Inr st'" for st'
      using r(2) [OF that] by (simp add: ls_ok_def)
    moreover have "request_line_step strict http11 st = Some r"
      using 1 c sl w r(1) by (simp add: request_line_step_def Let_def st2_def)
    ultimately show ?thesis by blast
  next
    case 2
    define mem2 where "mem2 = ?mem[?i := NUL]"
    have w: "mwrite ?mem ?i NUL = Some mem2" "head_mem n mem2"
      using head_mem_write [OF ok(1), of ?i] assms(2) by (simp_all add: mem2_def)
    define st2 where "st2 = st\<lparr>ls_mem := mem2, ls_req := (ls_req st)\<lparr>rq_line := take ?i ?mem\<rparr>\<rparr>"
    obtain r where r: "parse_request_line strict http11 st2 = Some r" "\<And>st'. r = Inr st' \<Longrightarrow>
        ls_line st' \<and> ls_i st' = ?i \<and> ls_first st' = ?i + 1 \<and> head_mem n (ls_mem st')
          \<and> host_in n (ls_host st') \<and> line_done strict (ls_req st') \<and> line_only rq (ls_req st')"
      using parse_request_line_ok [of n st2 rq strict http11] ok w(2) assms(2)
      by (auto simp: st2_def line_fields_def line_only_def)
    have "ls_ok strict n rq (st'\<lparr>ls_i := ls_i st' + 1\<rparr>)" if "r = Inr st'" for st'
      using r(2) [OF that] assms(2) by (simp add: ls_ok_def)
    moreover have "request_line_step strict http11 st = (if strict then
        Some (Inl (http_request_missing_CR_before_LF ((ls_req st)\<lparr>rq_line := take ?i ?mem\<rparr>))) else Some r)"
      using 2 c sl w r(1) by (cases strict) (simp_all add: request_line_step_def Let_def st2_def)
    ultimately show ?thesis by auto
  next
    case 3
    have "ls_ok strict n rq (st\<lparr>ls_method := Some (ls_first st), ls_first := ?i + 1, ls_stage := 1, ls_i := ?i + 1\<rparr>)"
      using ok assms(2,3) by (auto simp: ls_ok_def line_fields_def host_in_def)
    moreover have "ls_ok strict n rq (st\<lparr>ls_uri := Some (ls_first st), ls_first := ?i + 1, ls_stage := 2, ls_i := ?i + 1\<rparr>)"
      if "ls_stage st = 1"
      using ok assms(2,3) that by (auto simp: ls_ok_def line_fields_def host_in_def)
    ultimately show ?thesis using 3 c by (auto simp: request_line_step_def Let_def)
  next
    case 4
    then show ?thesis using c assms by (auto simp: request_line_step_def Let_def ls_ok_def line_fields_def)
  qed
qed

lemma request_line_loop_ok:
  "ls_ok strict n rq st \<Longrightarrow> \<exists>r. request_line_loop strict http11 n st = Some r
     \<and> (\<forall>st'. r = Inr st' \<longrightarrow> ls_ok strict n rq st')"
proof (induction strict http11 n st rule: request_line_loop.induct)
  case (1 strict http11 n st)
  show ?case
  proof (cases "ls_i st < n \<and> \<not> ls_line st")
    case True
    then obtain r where r: "request_line_step strict http11 st = Some r"
        "\<And>st'. r = Inr st' \<Longrightarrow> ls_ok strict n rq (st'\<lparr>ls_i := ls_i st' + 1\<rparr>)"
      using request_line_step_ok [OF 1(2)] by blast
    show ?thesis
    proof (cases r)
      case (Inl rq)
      then show ?thesis using r True by (simp add: request_line_loop.simps [of strict http11 n st])
    next
      case (Inr st')
      then show ?thesis using 1(1) [OF True r(1) Inr r(2)] r True by (simp add: request_line_loop.simps [of strict http11 n st])
    qed
  next
    case False
    then have "request_line_loop strict http11 n st = Some (Inr st)"
      by (subst request_line_loop.simps) auto
    then show ?thesis using 1(2) by simp
  qed
qed

lemma line_start_ok: "ls_ok strict (length s) rq (line_start s rq)"
  by (simp add: ls_ok_def line_start_def head_mem_start host_in_def line_fields_def line_only_def)

section \<open>The whole parser\<close>

text \<open>A connection as \<open>connection_reset\<close> leaves it.\<close>

definition fresh_request :: "request \<Rightarrow> bool" where
  "fresh_request rq \<longleftrightarrow> header_array (rq_headers rq) \<and> array_view (rq_headers rq) = Map.empty
     \<and> (\<exists>ts. token_array (rq_split_vals rq) ts) \<and> rq_host rq = None \<and> rq_content_type rq = None
     \<and> rq_if_modified_since rq = None \<and> rq_if_none_match rq = None \<and> rq_range rq = None
     \<and> rq_uri rq = [] \<and> rq_content_length rq = 0"

lemma fresh_line_only: "fresh_request rq \<Longrightarrow> line_only rq rq' \<Longrightarrow> request_ok rq' \<and> rq_host rq' = None \<and> array_view (rq_headers rq') = Map.empty"
  by (auto simp: fresh_request_def line_only_def request_ok_def refs_ok_def ref_ok_def)

lemma known_keys_distinct:
  "n \<in> set (special_names @ [''Transfer-Encoding'']) \<Longrightarrow> m \<in> set (special_names @ [''Transfer-Encoding'']) \<Longrightarrow>
     n \<noteq> m \<Longrightarrow> ckey n \<noteq> ckey m"
  using known_names_sorted by (metis distinct_map inj_onD strict_sorted_iff)

lemma insert_reqline_host_ok:
  assumes "fresh_request rq" "ls_ok strict n rq ls" "\<forall>v t. \<not> moves v t"
  shows "\<exists>rq'. insert_reqline_host moves ls = Some rq' \<and> request_ok rq'"
proof (cases "ls_host ls")
  case None
  then show ?thesis using assms(2) fresh_line_only [OF assms(1)] by (auto simp: insert_reqline_host_def ls_ok_def)
next
  case (Some p)
  let ?rq = "ls_req ls"
  have fresh: "request_ok ?rq" "array_view (rq_headers ?rq) = Map.empty"
    using assms(2) fresh_line_only [OF assms(1)] by (auto simp: ls_ok_def)
  then have h: "header_array (rq_headers ?rq)" by (simp add: request_ok_def)
  obtain a k where p: "p = (a, k)" by (cases p)
  have "a + k \<le> n" "length (ls_mem ls) = n + 1" using assms(2) Some p by (auto simp: ls_ok_def host_in_def head_mem_def)
  then have sl: "mslice (ls_mem ls) a k = Some (take k (drop a (ls_mem ls)))" by simp
  define un where "un = array_get_unused_element (rq_headers ?rq) TYPE_STRING"
  define ds where "ds = (case fst un of None \<Rightarrow> data_string_init | Some d \<Rightarrow> d)\<lparr>du_key := Some ''Host'', du_value := Some (take k (drop a (ls_mem ls)))\<rparr>"
  note fe = fresh_entryI(1,2) [OF h, folded un_def]
    fresh_entryI(3) [OF h, where k = "''Host''" and v = "take k (drop a (ls_mem ls))", folded un_def, folded ds_def]
  define rq1 where "rq1 = ?rq\<lparr>rq_headers := snd un, rq_host := Some Pending\<rparr>"
  have refs: "rq_content_type ?rq = None" "rq_if_modified_since ?rq = None" "rq_if_none_match ?rq = None"
    using fresh_line_only [OF assms(1)] assms(1,2) by (auto simp: ls_ok_def line_only_def fresh_request_def)
  have "ckey m \<noteq> ckey ''Host''" if "m \<in> {''Content-Type'', ''If-Modified-Since'', ''If-None-Match''}" for m
    by (rule known_keys_distinct) (use that in \<open>auto simp: special_names_def\<close>)
  then have pend: "refs_pending rq1 ''Host''"
    using refs fresh(2) fe(2) by (auto simp: refs_pending_def rq1_def ref_pending_def ref_ok_def)
  obtain rq' where rq': "put_header moves rq1 ds = Some rq'" "header_array (rq_headers rq')"
      "rq_split_vals rq' = rq_split_vals rq1" "refs_ok rq'"
    using put_header_ok [OF _ fe(3) assms(3), of rq1] fe(1) pend by (auto simp: rq1_def)
  have "insert_reqline_host moves ls = Some rq'"
    using Some p sl rq'(1) by (simp add: insert_reqline_host_def un_def [symmetric] ds_def [symmetric] rq1_def Let_def case_prod_beta)
  moreover have "request_ok rq'" using rq' fresh(1) by (auto simp: request_ok_def rq1_def)
  ultimately show ?thesis by blast
qed

definition ref_names :: "string list" where
  "ref_names = [''Host'', ''Content-Type'', ''If-Modified-Since'', ''If-None-Match'']"

lemma set_value_refs:
  assumes "request_ok rq" "array_view (rq_headers rq) (ckey k) = Some d"
    "v \<noteq> None \<or> ckey k \<notin> ckey ` set ref_names"
  shows "\<exists>a'. array_set_value (rq_headers rq) k v = Some a' \<and> request_ok (rq\<lparr>rq_headers := a', rq_content_length := c\<rparr>)
     \<and> request_ok (rq\<lparr>rq_headers := a'\<rparr>) \<and> array_view a' = (array_view (rq_headers rq))(ckey k \<mapsto> d\<lparr>du_value := v\<rparr>)"
proof -
  have h: "header_array (rq_headers rq)" using assms(1) by (simp add: request_ok_def)
  obtain a' where a': "array_set_value (rq_headers rq) k v = Some a'" "header_array a'"
      "array_view a' = (array_view (rq_headers rq))(ckey k \<mapsto> d\<lparr>du_value := v\<rparr>)"
    using set_value_ok [OF h assms(2)] by blast
  have "ref_ok a' m r" if "ref_ok (rq_headers rq) m r" "m \<in> set ref_names" for m r
  proof (cases "ckey m = ckey k")
    case True
    then have "v \<noteq> None" using assms(3) that(2) by (metis imageI)
    then show ?thesis using True that(1) a'(3) assms(2) by (auto simp: ref_ok_def header_view_def split: option.splits)
  qed (use that(1) a'(3) in \<open>auto elim!: ref_ok_mono\<close>)
  then have "refs_ok (rq\<lparr>rq_headers := a'\<rparr>)" using assms(1)
    by (auto simp: request_ok_def refs_ok_def ref_names_def)
  then show ?thesis using a' assms(1) by (auto simp: request_ok_def refs_ok_def)
qed

lemma check_host_ok:
  assumes "request_ok rq"
  shows "\<exists>r. check_host conf lc scheme rq = Some r \<and> (\<forall>rq'. r = Inr rq' \<longrightarrow> request_ok rq' \<and> same_line rq rq'
     \<and> (rq_version rq = HTTP_VERSION_1_1 \<longrightarrow> rq_host rq' \<noteq> None) \<and> rq_content_length rq' = rq_content_length rq)"
proof (cases "rq_host rq")
  case None
  then show ?thesis using assms by (auto simp: check_host_def host_value_def)
next
  case (Some p)
  have h: "header_array (rq_headers rq)" "ref_ok (rq_headers rq) ''Host'' (Some p)"
    using assms Some by (auto simp: request_ok_def refs_ok_def)
  obtain host where host: "host_value rq = Some (Some host)"
    using deref_ok [OF h] Some by (auto simp: host_value_def)
  obtain d where "array_view (rq_headers rq) (ckey ''Host'') = Some d" using h(2)
    by (cases "array_view (rq_headers rq) (ckey ''Host'')") (auto simp: ref_ok_def header_view_def)
  then have sv: "\<exists>a'. array_set_value (rq_headers rq) ''Host'' (Some t) = Some a' \<and> request_ok (rq\<lparr>rq_headers := a'\<rparr>)" for t
    using set_value_refs [OF assms, of "''Host''" d "Some t"] by blast
  obtain bad t where pol: "http_request_host_policy conf lc host scheme = (bad, t)"
    by (cases "http_request_host_policy conf lc host scheme")
  obtain a' where "array_set_value (rq_headers rq) ''Host'' (Some t) = Some a'" "request_ok (rq\<lparr>rq_headers := a'\<rparr>)"
    using sv by blast
  then show ?thesis using host pol Some by (auto simp: check_host_def same_line_def Let_def)
qed

lemma check_transfer_encoding_ok:
  assumes "request_ok rq" "0 \<le> rq_content_length rq" "\<not> cls \<longrightarrow> rq_content_length rq = 0"
  shows "\<exists>r. check_transfer_encoding cls rq = Some r \<and> (\<forall>cls' rq'. r = Inr (cls', rq') \<longrightarrow> request_ok rq' \<and> same_line rq rq'
     \<and> rq_host rq' = rq_host rq \<and> (\<not> cls' \<longrightarrow> rq_content_length rq' = 0) \<and> - 1 \<le> rq_content_length rq'
     \<and> (rq_content_length rq' = - 1 \<longrightarrow> rq_version rq' \<noteq> HTTP_VERSION_1_0
          \<and> header_view (rq_headers rq') (ckey ''Transfer-Encoding'') = None
          \<and> header_view (rq_headers rq') (ckey ''Content-Length'') = None))"
proof -
  have h: "header_array (rq_headers rq)" using assms(1) by (simp add: request_ok_def)
  note get = array_get_element_ok [OF header_arrayD(1) [OF h]]
  let ?te = "ckey ''Transfer-Encoding''" and ?cl = "ckey ''Content-Length''"
  have "ckey n \<noteq> ckey m" if "n \<in> {''Transfer-Encoding'', ''Content-Length''}" "m \<in> set ref_names \<union> {''Transfer-Encoding'', ''Content-Length''}" "n \<noteq> m" for n m
    by (rule known_keys_distinct) (use that in \<open>auto simp: special_names_def ref_names_def\<close>)
  then have keys: "?te \<notin> ckey ` set ref_names" "?cl \<notin> ckey ` set ref_names" "?cl \<noteq> ?te"
    by (auto simp: ref_names_def)
  show ?thesis
  proof (cases "array_view (rq_headers rq) ?te")
    case None
    then show ?thesis using assms get by (auto simp: check_transfer_encoding_def)
  next
    case (Some d)
    obtain a1 where a1: "array_set_value (rq_headers rq) ''Transfer-Encoding'' None = Some a1"
        "request_ok (rq\<lparr>rq_headers := a1\<rparr>)" "array_view a1 = (array_view (rq_headers rq))(?te \<mapsto> d\<lparr>du_value := None\<rparr>)"
      using set_value_refs [OF assms(1) Some, of None] keys(1) by blast
    have h1: "header_array a1" using a1(2) by (simp add: request_ok_def)
    obtain a2 where a2: "do { ds \<leftarrow> array_get_element_klen a1 ''Content-Length'';
          if ds = None then Some a1 else array_set_value a1 ''Content-Length'' None } = Some a2"
        "request_ok (rq\<lparr>rq_headers := a2, rq_content_length := - 1\<rparr>)" "header_view a2 ?te = None" "header_view a2 ?cl = None"
    proof (cases "array_view a1 ?cl")
      case None
      have "request_ok (rq\<lparr>rq_headers := a1, rq_content_length := - 1\<rparr>)" using a1(2) by (simp add: request_ok_def refs_ok_def)
      then show ?thesis using None a1(3) array_get_element_ok [OF header_arrayD(1) [OF h1]] that [of a1]
        by (simp add: header_view_def)
    next
      case (Some e)
      obtain a2 where "array_set_value a1 ''Content-Length'' None = Some a2"
          "request_ok (rq\<lparr>rq_headers := a2, rq_content_length := - 1\<rparr>)" "array_view a2 = (array_view a1)(?cl \<mapsto> e\<lparr>du_value := None\<rparr>)"
        using set_value_refs [OF a1(2), of "''Content-Length''" e None] Some keys(2) by (auto simp: request_ok_def refs_ok_def)
      then show ?thesis using Some a1(3) keys(3) array_get_element_ok [OF header_arrayD(1) [OF h1]] that [of a2]
        by (simp add: header_view_def)
    qed
    have run: "check_transfer_encoding cls rq =
        (if rq_version rq = HTTP_VERSION_1_0 then Some (Inl (refuse 400 rq))
         else if \<not> strcasecmp_eq (abs_bytes (du_value d)) ''chunked'' then Some (Inl (refuse 501 rq))
         else Some (Inr (True, rq\<lparr>rq_headers := a2, rq_content_length := - 1\<rparr>)))"
      using get Some a1(1) a2(1) array_get_element_ok [OF header_arrayD(1) [OF h1]]
      by (auto simp: check_transfer_encoding_def split: if_splits)
    then show ?thesis using a2 by (auto simp: same_line_def)
  qed
qed

end
