(* ===== verification/RequestRules.thy ===== *)
theory RequestRules
  imports RequestSafe
begin

text \<open>
  What a request that \<open>http_request_parse\<close> accepts satisfies, and the properties of the parser.
\<close>

section \<open>What the header lines change\<close>

text \<open>
  What the header lines change: an error sets a status; otherwise the request line stays and the
  content length is the one announced.
\<close>

definition length_ok :: "header_state \<Rightarrow> bool" where
  "length_ok st \<longleftrightarrow> 0 \<le> rq_content_length (hs_req st) \<and> (\<not> hs_con_length_set st \<longrightarrow> rq_content_length (hs_req st) = 0)"

definition lines_kept :: "header_state \<Rightarrow> request + header_state \<Rightarrow> bool" where
  "lines_kept st r \<longleftrightarrow>
     (case r of Inl rq \<Rightarrow> rq_status rq \<noteq> 0
      | Inr st' \<Rightarrow> same_line (hs_req st) (hs_req st') \<and> (length_ok st \<longrightarrow> length_ok st'))"

lemma lines_kept_simps [simp]:
  "lines_kept st (Inl rq) \<longleftrightarrow> rq_status rq \<noteq> 0"
  "lines_kept st (Inr st') \<longleftrightarrow> same_line (hs_req st) (hs_req st') \<and> (length_ok st \<longrightarrow> length_ok st')"
  by (simp_all add: lines_kept_def)

lemma error_status [simp]:
  "rq_status (bad_request s rq) = s" "rq_status (refuse s rq) = s"
  "rq_status (http_request_missing_CR_before_LF rq) = 400"
  by (simp_all add: bad_request_def refuse_def http_request_missing_CR_before_LF_def)

lemma key_step_kept: "header_key_step strict st = Some r \<Longrightarrow> lines_kept st r"
  unfolding header_key_step_def Let_def prod.case
  by (elim bind_SomeE) (auto simp: length_ok_def split: if_splits bind_splits option.splits)

lemma put_header_length: "put_header moves rq ds = Some rq' \<Longrightarrow> rq_content_length rq' = rq_content_length rq"
  by (auto simp: put_header_def settle_refs_def map_refs_def stale_refs_def Let_def split: if_splits bind_splits option.splits)

lemma special_header_kept:
  "special_header h moves st ds = Some r \<Longrightarrow> lines_kept st (case r of Inl rq \<Rightarrow> Inl rq | Inr (keep, st') \<Rightarrow> Inr st')"
  by (auto simp: special_header_def same_line_def length_ok_def Let_def
      split: if_splits bind_splits option.splits prod.splits dest!: put_header_line)

lemma header_fold_kept: "header_fold moves st = Some r \<Longrightarrow> lines_kept st r"
  by (auto simp: header_fold_def length_ok_def stale_refs_def map_refs_def same_line_def Let_def
      split: if_splits bind_splits option.splits)

lemma length_ok_cong:
  "length_ok (st\<lparr>hs_mem := m, hs_key := k, hs_req := (hs_req st)\<lparr>rq_headers := a\<rparr>\<rparr>) = length_ok st"
  "length_ok (st\<lparr>hs_mem := m, hs_key := k\<rparr>) = length_ok st"
  "length_ok (st\<lparr>hs_mem := m, hs_i := e\<rparr>) = length_ok st"
  "length_ok (st\<lparr>hs_value := v\<rparr>) = length_ok st" "length_ok (st\<lparr>hs_mem := m\<rparr>) = length_ok st"
  "length_ok (st\<lparr>hs_first := e, hs_is_key := b, hs_value := v, hs_in_folding := f\<rparr>) = length_ok st"
  "rq_content_length rq = rq_content_length (hs_req st) \<Longrightarrow> length_ok (st\<lparr>hs_req := rq\<rparr>) = length_ok st"
  by (simp_all add: length_ok_def)

lemma special_header_field:
  "special_header h moves (st\<lparr>hs_mem := m, hs_key := k, hs_req := (hs_req st)\<lparr>rq_headers := a\<rparr>\<rparr>) ds = Some (Inl rq) \<Longrightarrow> rq_status rq \<noteq> 0"
  "special_header h moves (st\<lparr>hs_mem := m, hs_key := k, hs_req := (hs_req st)\<lparr>rq_headers := a\<rparr>\<rparr>) ds = Some (Inr (keep, st')) \<Longrightarrow>
     same_line (hs_req st) (hs_req st') \<and> (length_ok st \<longrightarrow> length_ok st')"
  using special_header_kept by (fastforce simp: length_ok_cong same_line_def)+

lemma put_header_kept:
  "put_header moves rq ds = Some rq' \<Longrightarrow> same_line rq rq' \<and> rq_content_length rq' = rq_content_length rq"
  using put_header_line put_header_length by blast

lemma header_field_kept: "header_field h moves cur st = Some r \<Longrightarrow> lines_kept st r"
  by (auto simp: header_field_def Let_def case_prod_beta length_ok_cong
      split: if_splits bind_splits sum.splits dest!: special_header_field put_header_kept intro: same_line_trans)

lemma header_line_end_kept: "header_line_end h moves cur st = Some r \<Longrightarrow> lines_kept st r"
  by (auto simp: header_line_end_def length_ok_cong split: if_splits bind_splits sum.splits
      dest!: header_fold_kept header_field_kept)

lemma value_step_line:
  "header_line_end h moves i (st\<lparr>hs_mem := m, hs_i := e\<rparr>) = Some r \<Longrightarrow> lines_kept st r"
  "header_line_end h moves i (st\<lparr>hs_mem := m\<rparr>) = Some r \<Longrightarrow> lines_kept st r"
  using header_line_end_kept by (cases r; fastforce simp: length_ok_cong)+

lemma value_step_kept: "header_value_step strict h moves st = Some r \<Longrightarrow> lines_kept st r"
  unfolding header_value_step_def Let_def prod.case
  by (elim bind_SomeE) (auto simp: length_ok_cong split: if_splits bind_splits dest!: value_step_line)

lemma header_loop_kept: "header_loop strict h moves n st = Some r \<Longrightarrow> lines_kept st r"
proof (induction strict h moves n st rule: header_loop.induct)
  case (1 strict h moves n st)
  show ?case
  proof (cases "hs_i st \<le> n \<and> \<not> hs_done st")
    case True
    then obtain x where x: "header_step strict h moves st = Some x"
      using 1(2) by (cases "header_step strict h moves st") (auto simp: header_loop.simps [of strict h moves n st])
    then have kept: "lines_kept st x" using key_step_kept value_step_kept by (auto simp: header_step_def split: if_splits)
    show ?thesis
    proof (cases x)
      case (Inl rq)
      then show ?thesis using 1(2) x True kept by (simp add: header_loop.simps [of strict h moves n st])
    next
      case (Inr st')
      then have "header_loop strict h moves n (st'\<lparr>hs_i := hs_i st' + 1\<rparr>) = Some r"
        using 1(2) x True by (simp add: header_loop.simps [of strict h moves n st])
      from 1(1) [OF True x Inr this] show ?thesis
        using kept Inr by (cases r) (auto simp: length_ok_def intro: same_line_trans)
    qed
  next
    case False
    then have "header_loop strict h moves n st = Some (Inr st)" by (subst header_loop.simps) auto
    then show ?thesis using 1(2) by auto
  qed
qed

section \<open>Accepted requests\<close>

text \<open>
  What an accepted request satisfies, as the rest of the server relies on it.  A content length
  of -1 stands for a chunked body.
\<close>

definition accepted_request :: "bool \<Rightarrow> int \<Rightarrow> request \<Rightarrow> bool" where
  "accepted_request strict rc rq \<longleftrightarrow>
     rq_method rq \<noteq> HTTP_METHOD_UNSET
     \<and> rq_version rq \<in> {HTTP_VERSION_1_0, HTTP_VERSION_1_1}
     \<and> rq_uri rq \<noteq> [] \<and> request_uri_ok strict (rq_uri rq) \<and> rq_orig_uri rq = rq_uri rq
     \<and> (rq_version rq = HTTP_VERSION_1_1 \<longrightarrow> rq_host rq \<noteq> None)
     \<and> (rq_method rq \<in> {HTTP_METHOD_GET, HTTP_METHOD_HEAD} \<longrightarrow> rq_content_length rq = 0)
     \<and> - 1 \<le> rq_content_length rq
     \<and> (rq_content_length rq = - 1 \<longrightarrow> rq_version rq = HTTP_VERSION_1_1
          \<and> header_view (rq_headers rq) (ckey ''Transfer-Encoding'') = None
          \<and> header_view (rq_headers rq) (ckey ''Content-Length'') = None)
     \<and> rc = (if rq_content_length rq = 0 then 0 else 1)"

definition parse_outcome :: "bool \<Rightarrow> (int \<times> request) option \<Rightarrow> bool" where
  "parse_outcome strict r \<longleftrightarrow>
     (\<exists>rc rq. r = Some (rc, rq) \<and> (if rq_status rq = 0 then accepted_request strict rc rq \<and> request_ok rq else rc = 0))"

lemma parse_outcome_error: "rq_status rq \<noteq> 0 \<Longrightarrow> parse_outcome strict (Some (0, rq))"
  by (simp add: parse_outcome_def)

lemma check_host_error: "check_host conf lc scheme rq = Some (Inl rq') \<Longrightarrow> rq_status rq' \<noteq> 0"
  by (auto simp: check_host_def Let_def split: if_splits bind_splits option.splits prod.splits)

lemma check_transfer_encoding_error: "check_transfer_encoding cls rq = Some (Inl rq') \<Longrightarrow> rq_status rq' \<noteq> 0"
  by (auto simp: check_transfer_encoding_def split: if_splits bind_splits option.splits)

lemma request_ok_keep [simp]:
  "request_ok (keep_alive_default a rq) = request_ok rq" "request_ok (rq\<lparr>rq_header_len := n\<rparr>) = request_ok rq"
  by (simp_all add: request_ok_def refs_ok_def keep_alive_default_def)

lemma post_process_outcome:
  assumes "request_ok (hs_req st)" "line_done strict (hs_req st)" "rq_uri (hs_req st) \<noteq> []" "length_ok st"
  shows "parse_outcome strict (post_process conf lc scheme st)"
proof -
  define rq1 where "rq1 = keep_alive_default (hs_keep_alive_set st) ((hs_req st)\<lparr>rq_header_len := hs_i st\<rparr>)"
  have rq1: "request_ok rq1" "same_line (hs_req st) rq1" "rq_content_length rq1 = rq_content_length (hs_req st)"
    using assms(1) by (simp_all add: rq1_def same_line_def) (simp_all add: keep_alive_default_def)
  obtain r where r: "check_host conf lc scheme rq1 = Some r" "\<And>rq'. r = Inr rq' \<Longrightarrow> request_ok rq' \<and> same_line rq1 rq'
     \<and> (rq_version rq1 = HTTP_VERSION_1_1 \<longrightarrow> rq_host rq' \<noteq> None) \<and> rq_content_length rq' = rq_content_length rq1"
    using check_host_ok [OF rq1(1)] by blast
  show ?thesis
  proof (cases r)
    case (Inl rq')
    then show ?thesis using r(1) check_host_error [of conf lc scheme rq1 rq']
      by (simp add: post_process_def rq1_def [symmetric] parse_outcome_error)
  next
    case (Inr rq2)
    note rq2 = r(2) [OF Inr]
    let ?cls = "hs_con_length_set st"
    have "0 \<le> rq_content_length rq2" "\<not> ?cls \<longrightarrow> rq_content_length rq2 = 0"
      using rq2 rq1(3) assms(4) by (auto simp: length_ok_def)
    then obtain q where q: "check_transfer_encoding ?cls rq2 = Some q" "\<And>cls' rq'. q = Inr (cls', rq') \<Longrightarrow> request_ok rq' \<and> same_line rq2 rq'
     \<and> rq_host rq' = rq_host rq2 \<and> (\<not> cls' \<longrightarrow> rq_content_length rq' = 0) \<and> - 1 \<le> rq_content_length rq'
     \<and> (rq_content_length rq' = - 1 \<longrightarrow> rq_version rq' \<noteq> HTTP_VERSION_1_0
          \<and> header_view (rq_headers rq') (ckey ''Transfer-Encoding'') = None
          \<and> header_view (rq_headers rq') (ckey ''Content-Length'') = None)"
      using check_transfer_encoding_ok [of rq2 ?cls] rq2 by blast
    have run: "post_process conf lc scheme st = Some (case q of Inl rq \<Rightarrow> (0, rq) | Inr (cls, rq) \<Rightarrow> check_method cls rq)"
      using r(1) Inr q(1) by (simp add: post_process_def rq1_def [symmetric])
    show ?thesis
    proof (cases q)
      case (Inl rq')
      then show ?thesis using run q(1) check_transfer_encoding_error [of ?cls rq2 rq'] by (simp add: parse_outcome_error)
    next
      case (Inr p)
      obtain cls' rq3 where p: "p = (cls', rq3)" by (cases p)
      note rq3 = q(2) [OF Inr [unfolded p]]
      have line3: "same_line (hs_req st) rq3" using rq1(2) rq2 rq3 by (meson same_line_trans)
      moreover have "rq_version rq3 = HTTP_VERSION_1_1 \<longrightarrow> rq_host rq3 \<noteq> None"
        using rq2 rq3 by (auto simp: same_line_def)
      ultimately have "accepted_request strict (if rq_content_length rq3 = 0 then 0 else 1) rq3"
        if "rq_method rq3 \<in> {HTTP_METHOD_GET, HTTP_METHOD_HEAD} \<longrightarrow> rq_content_length rq3 = 0"
        using that rq3 assms(2,3) by (auto simp: accepted_request_def line_done_def same_line_def)
      moreover have "rq_status rq3 = 0" using line3 assms(2) by (simp add: same_line_def line_done_def)
      ultimately have "parse_outcome strict (Some (check_method cls' rq3))"
        using rq3 by (auto simp: check_method_def parse_outcome_def)
      then show ?thesis using run Inr p by simp
    qed
  qed
qed

lemma request_version_error: "request_version http11 proto = Inl fail \<Longrightarrow> rq_status (fail rq) \<noteq> 0"
  by (auto simp: request_version_def Let_def split: if_splits option.splits prod.splits)

lemma parse_request_line_error: "parse_request_line strict http11 st = Some (Inl rq) \<Longrightarrow> rq_status rq \<noteq> 0"
  by (auto simp: parse_request_line_def Let_def split: if_splits bind_splits sum.splits option.splits dest: request_version_error)

lemma request_line_step_error: "request_line_step strict http11 st = Some (Inl rq) \<Longrightarrow> rq_status rq \<noteq> 0"
  by (auto simp: request_line_step_def Let_def split: if_splits bind_splits dest: parse_request_line_error)

lemma request_line_loop_error: "request_line_loop strict http11 n st = Some (Inl rq) \<Longrightarrow> rq_status rq \<noteq> 0"
proof (induction strict http11 n st rule: request_line_loop.induct)
  case (1 strict http11 n st)
  then have c: "ls_i st < n \<and> \<not> ls_line st" by (auto simp: request_line_loop.simps [of strict http11 n st] split: if_splits)
  then obtain x where x: "request_line_step strict http11 st = Some x"
    using 1(2) by (cases "request_line_step strict http11 st") (auto simp: request_line_loop.simps [of strict http11 n st])
  show ?case
  proof (cases x)
    case (Inl rq')
    then show ?thesis using 1(2) x c request_line_step_error by (auto simp: request_line_loop.simps [of strict http11 n st])
  next
    case (Inr st')
    then show ?thesis using 1(1) [OF c x Inr] 1(2) x c by (simp add: request_line_loop.simps [of strict http11 n st])
  qed
qed

lemma insert_reqline_host_kept:
  "insert_reqline_host moves ls = Some rq' \<Longrightarrow> same_line (ls_req ls) rq' \<and> rq_content_length rq' = rq_content_length (ls_req ls)"
  by (auto simp: insert_reqline_host_def Let_def same_line_def split: option.splits bind_splits prod.splits dest!: put_header_kept)

lemma request_text_ok:
  "text \<noteq> [] \<Longrightarrow> \<exists>t. request_text strict n text = Some t \<and> (\<forall>s. t = Some s \<longrightarrow> length s \<le> length text)"
  by (cases "text") (auto simp: request_text_def nth_opt_def)

lemma http_request_parse_outcome:
  assumes "fresh_request rq" "text \<noteq> []" "length text < 2 ^ 62" "\<forall>v t. \<not> moves v t"
  shows "parse_outcome (header_strict conf) (http_request_parse conf lc moves scheme request_count text rq)"
proof -
  let ?strict = "header_strict conf"
  obtain t where t: "request_text ?strict request_count text = Some t" "\<And>s. t = Some s \<Longrightarrow> length s < 2 ^ 62"
    using request_text_ok [OF assms(2)] assms(3) by (metis le_less_trans)
  show ?thesis
  proof (cases t)
    case None
    then show ?thesis using t by (simp add: http_request_parse_def parse_outcome_error)
  next
    case (Some s)
    let ?n = "length s"
    note len = t(2) [OF Some]
    obtain r where r: "request_line_loop ?strict (allow_http11 conf) ?n (line_start s rq) = Some r"
        "\<And>ls. r = Inr ls \<Longrightarrow> ls_ok ?strict ?n rq ls"
      using request_line_loop_ok [OF line_start_ok] by blast
    show ?thesis
    proof (cases r)
      case (Inl rq')
      have "rq_status rq' \<noteq> 0" using request_line_loop_error r(1) Inl by blast
      then show ?thesis using t Some r Inl by (simp add: http_request_parse_def parse_outcome_error)
    next
      case (Inr ls)
      note ls = r(2) [OF Inr]
      show ?thesis
      proof (cases "rq_uri (ls_req ls) = []")
        case True
        then show ?thesis using t Some r Inr by (simp add: http_request_parse_def parse_outcome_error)
      next
        case False
        have "rq_uri rq = []" using assms(1) by (simp add: fresh_request_def)
        then have dn: "line_done ?strict (ls_req ls)" using ls False by (auto simp: ls_ok_def split: if_splits)
        obtain rq1 where rq1: "insert_reqline_host moves ls = Some rq1" "request_ok rq1"
          using insert_reqline_host_ok [OF assms(1) ls assms(4)] by blast
        have kept1: "same_line (ls_req ls) rq1" "rq_content_length rq1 = 0"
          using insert_reqline_host_kept [OF rq1(1)] ls assms(1) by (auto simp: ls_ok_def line_only_def fresh_request_def)
        have st0: "hs_ok ?n (header_start ls rq1)" "length_ok (header_start ls rq1)"
          using ls rq1(2) kept1(2) by (simp_all add: hs_ok_def header_start_def ls_ok_def length_ok_def)
        obtain q where q: "header_loop ?strict (ls_host ls \<noteq> None) moves ?n (header_start ls rq1) = Some q"
            "\<And>st. q = Inr st \<Longrightarrow> request_ok (hs_req st)"
          using header_loop_ok [OF st0(1) assms(4) len] by blast
        note kept = header_loop_kept [OF q(1)]
        show ?thesis
        proof (cases q)
          case ql: (Inl rq')
          then show ?thesis using t Some r Inr False rq1(1) q(1) kept by (simp add: http_request_parse_def parse_outcome_error)
        next
          case qr: (Inr st)
          have "same_line (ls_req ls) (hs_req st)" "length_ok st"
            using kept qr st0(2) kept1(1) by (auto simp: header_start_def intro: same_line_trans)
          then have "line_done ?strict (hs_req st)" "rq_uri (hs_req st) \<noteq> []"
            using dn False by (auto simp: line_done_def same_line_def)
          then show ?thesis
            using t Some r Inr False rq1(1) q qr post_process_outcome [OF q(2) [OF qr]] \<open>length_ok st\<close>
            by (simp add: http_request_parse_def)
        qed
      qed
    qed
  qed
qed

section \<open>Properties\<close>

text \<open>A request on a new connection, and a C library without network addresses, for the examples.\<close>

definition empty_request :: request where
  "empty_request = \<lparr>rq_method = HTTP_METHOD_UNSET, rq_version = HTTP_VERSION_UNSET, rq_uri = [], rq_orig_uri = [],
     rq_line = [], rq_headers = array_init, rq_split_vals = array_init, rq_host = None, rq_content_type = None,
     rq_if_modified_since = None, rq_if_none_match = None, rq_range = None, rq_content_length = 0, rq_status = 0,
     rq_keep_alive = False, rq_resp_keep_alive = True, rq_header_len = 0\<rparr>"

definition plain_libc :: libc where
  "plain_libc = \<lparr>inet_aton = (\<lambda>_. None), inet_pton6 = (\<lambda>_. None), inet_ntop4 = (\<lambda>_. []), inet_ntop6 = (\<lambda>_. [])\<rparr>"

definition default_conf :: parse_conf where
  "default_conf = \<lparr>header_strict = True, host_strict = True, host_normalize = True, allow_http11 = True\<rparr>"

lemma empty_request_fresh: "fresh_request empty_request"
  using token_array_init header_array_init(1) by (auto simp: fresh_request_def empty_request_def)

text \<open>
  C1. The parser stays inside its memory on every request head: whatever the bytes, every read
  and write is within the head and its terminator, every use of a pointer into the headers finds
  a live value, and the result is 0 or 1.  After an accepted request the pointers to \<open>Host\<close>,
  \<open>Content-Type\<close>, \<open>If-Modified-Since\<close> and \<open>If-None-Match\<close> are NULL or point at the value of that
  header.  The hypothesis on \<open>moves\<close> is that no folded line outgrows the buffer it is appended to.
\<close>

theorem request_parse_in_bounds:
  assumes "fresh_request rq" "text \<noteq> []" "length text < 2 ^ 62" "\<forall>v t. \<not> moves v t"
  shows "\<exists>rc rq'. http_request_parse conf lc moves scheme request_count text rq = Some (rc, rq')
    \<and> rc \<in> {0, 1} \<and> (rq_status rq' = 0 \<longrightarrow> refs_ok rq')"
  using http_request_parse_outcome [OF assms, of conf lc scheme request_count]
  by (auto simp: parse_outcome_def accepted_request_def request_ok_def split: if_splits)

theorem request_parse_in_bounds_witness:
  "\<exists>rc rq'. http_request_parse default_conf plain_libc (\<lambda>_ _. False) ''http'' 1 ''GET  / HTTP'' empty_request = Some (rc, rq') \<and> rc \<in> {0, 1}"
  using request_parse_in_bounds [OF empty_request_fresh, of "''GET  / HTTP''" "\<lambda>_ _. False" default_conf plain_libc "''http''" 1]
  by auto

text \<open>
  C2. A request that is accepted (no error status) has a known method and version 1.0 or 1.1, a
  target free of blanks and control characters (in strict mode), a \<open>Host\<close> if it is HTTP/1.1, and a
  body only if its method allows one: none for GET and HEAD.  The parser returns 1 exactly when a
  body follows; a chunked body is announced by HTTP/1.1 only, and \<open>Transfer-Encoding\<close> and
  \<open>Content-Length\<close> are then reset, so that no two of them reach a backend.
\<close>

theorem accepted_request_rules:
  assumes "fresh_request rq" "text \<noteq> []" "length text < 2 ^ 62" "\<forall>v t. \<not> moves v t"
    "http_request_parse conf lc moves scheme request_count text rq = Some (rc, rq')" "rq_status rq' = 0"
  shows "accepted_request (header_strict conf) rc rq'"
  using http_request_parse_outcome [OF assms(1-4), of conf lc scheme request_count] assms(5,6)
  by (auto simp: parse_outcome_def)

definition chunked_post :: string where
  "chunked_post = ''POST /u HTTP/1.1'' @ CRLF @ ''Host: a'' @ CRLF @ ''Transfer-Encoding: Chunked'' @ CRLF @ CRLF"

lemma chunked_post_parsed:
  "map_option (\<lambda>(rc, rq). (rc, rq_status rq, rq_content_length rq))
     (http_request_parse default_conf plain_libc (\<lambda>_ _. False) ''http'' 1 chunked_post empty_request) = Some (1, 0, - 1)"
  by code_simp

theorem accepted_request_rules_witness:
  "\<exists>rc rq'. http_request_parse default_conf plain_libc (\<lambda>_ _. False) ''http'' 1 chunked_post empty_request = Some (rc, rq')
     \<and> rq_content_length rq' = - 1 \<and> accepted_request True rc rq'"
proof -
  obtain rc rq' where r: "http_request_parse default_conf plain_libc (\<lambda>_ _. False) ''http'' 1 chunked_post empty_request = Some (rc, rq')"
      "rq_status rq' = 0" "rq_content_length rq' = - 1"
    using chunked_post_parsed by auto
  have "accepted_request (header_strict default_conf) rc rq'"
    by (rule accepted_request_rules [OF empty_request_fresh _ _ _ r(1,2)]) (simp_all add: chunked_post_def)
  then show ?thesis using r by (auto simp: default_conf_def)
qed

text \<open>
  A \<open>Range\<close> header that is not a byte range followed by one that is leaves \<open>http_range\<close>
  dangling: the pointer is set to the value of the second entry, which
  \<open>array_insert_unique\<close> then appends to the first one and frees.
\<close>

theorem second_range_dangles:
  "map_option (\<lambda>(rc, rq). (rq_status rq, rq_range rq))
     (http_request_parse default_conf plain_libc (\<lambda>_ _. False) ''http'' 1
       (''GET / HTTP/1.0'' @ CRLF @ ''Range: x'' @ CRLF @ ''Range: bytes=0-'' @ CRLF @ CRLF) empty_request)
   = Some (0, Some Freed)"
  by code_simp

text \<open>
  A folded \<open>If-Modified-Since\<close> line that makes its buffer move leaves \<open>http_if_modified_since\<close>
  dangling; a second header of that name compares with it.
\<close>

lemma folded_date_dangles:
  "map_option (\<lambda>(rc, rq). (rq_status rq, rq_if_modified_since rq))
     (http_request_parse default_conf plain_libc (\<lambda>_ _. True) ''http'' 1
       (''GET / HTTP/1.0'' @ CRLF @ ''If-Modified-Since: a'' @ CRLF @ '' b'' @ CRLF @ CRLF) empty_request)
   = Some (0, Some Freed)"
  by code_simp

lemma dangling_date_read: "deref rq ''If-Modified-Since'' Freed = None"
  by (simp add: deref_def)

text \<open>The version numbers are \<open>long\<close>s stored in \<open>int\<close>s.\<close>

lemma version_number_wraps: "(case request_version True ''HTTP/4294967297.1'' of Inl _ \<Rightarrow> None | Inr v \<Rightarrow> Some v) = Some HTTP_VERSION_1_1"
  by code_simp

end
