(* ===== verification/TextQueue.thy ===== *)
theory TextQueue
  imports Tempfile
begin

text \<open>
  Read queues: queues of memory chunks with something left in each, seen as a text.  The request
  head (\<open>src/src/connections.c\<close>) and chunked request bodies (\<open>src/src/connections-glue.c\<close>) are
  parsed where they stand in the chunks; here are the accesses they make and what these see.
\<close>

section \<open>The text of a chunk\<close>

text \<open>\<open>c->mem->ptr + c->offset + k\<close> as a C string: there has to be a terminator.\<close>

definition cells_cstr :: "cells \<Rightarrow> nat \<Rightarrow> string option" where
  "cells_cstr m p =
     (let s = takeWhile (\<lambda>x. x \<noteq> Some NUL) (drop p m)
      in if length s < length (drop p m) \<and> None \<notin> set s then Some (map the s) else None)"

definition chunk_cstr :: "chunk \<Rightarrow> nat \<Rightarrow> string option" where
  "chunk_cstr c k = cells_cstr (b_ptr (c_mem c)) (nat (c_offset c) + k)"

definition strchr :: "string \<Rightarrow> char \<Rightarrow> nat option" where
  "strchr s c = (if c \<in> set s then Some (length (takeWhile (\<lambda>x. x \<noteq> c) s)) else None)"

fun strstr :: "string \<Rightarrow> string \<Rightarrow> nat option" where
  "strstr s pat =
     (if take (length pat) s = pat then Some 0
      else case s of [] \<Rightarrow> None | c # r \<Rightarrow> map_option Suc (strstr r pat))"

declare strstr.simps [simp del]

text \<open>\<open>buffer_string_length(c->mem) - (size_t)c->offset\<close>.\<close>

definition chunk_avail :: "chunk \<Rightarrow> nat" where
  "chunk_avail c = sz_sub (buffer_string_length (c_mem c)) (nat (c_offset c))"


section \<open>Chunks of text\<close>

definition mem_text :: "chunk \<Rightarrow> string" where
  "mem_text c = drop (nat (c_offset c)) (buffer_content (c_mem c))"

definition live :: "chunk \<Rightarrow> bool" where
  "live c \<longleftrightarrow> chunk_wf c \<and> c_type c = MEM_CHUNK \<and> mem_text c \<noteq> []"

lemma live_octets: "c_type c = MEM_CHUNK \<Longrightarrow> chunk_octets c = map MemByte (mem_text c)"
  by (simp add: chunk_octets_def chunk_bytes_def mem_text_def drop_map)

lemma live_cells:
  assumes "live c"
  obtains rest where "b_ptr (c_mem c) = map Some (buffer_content (c_mem c)) @ Some NUL # rest"
    "nat (c_offset c) + length (mem_text c) = length (buffer_content (c_mem c))" "0 \<le> c_offset c"
proof -
  have c: "buffer_wf (c_mem c)" "0 \<le> c_offset c" "mem_text c \<noteq> []" using assms by (simp_all add: live_def chunk_wf_def)
  then have "0 < b_used (c_mem c)" by (cases "b_used (c_mem c)") (auto simp: mem_text_def buffer_content_def)
  then obtain rest where "b_ptr (c_mem c) = map Some (buffer_content (c_mem c)) @ Some NUL # rest"
    using buffer_wfE [OF c(1)] by blast
  moreover have "nat (c_offset c) + length (mem_text c) = length (buffer_content (c_mem c))"
    using c(3) by (simp add: mem_text_def)
  ultimately show thesis using c(2) that by blast
qed

lemma live_avail:
  assumes "live c"
  shows "chunk_avail c = length (mem_text c)" "0 < chunk_avail c"
    "int (buffer_string_length (c_mem c)) - c_offset c = int (length (mem_text c))"
proof -
  have wf: "buffer_wf (c_mem c)" using assms by (simp add: live_def chunk_wf_def)
  obtain rest where r: "nat (c_offset c) + length (mem_text c) = length (buffer_content (c_mem c))" "0 \<le> c_offset c"
    using live_cells [OF assms] by blast
  have "length (buffer_content (c_mem c)) < SIZE_MOD"
    using buffer_wfD [OF wf] length_buffer_content [OF wf] PTRDIFF_SIZE [of "length (buffer_content (c_mem c))"] by linarith
  then show a: "chunk_avail c = length (mem_text c)"
    using r by (simp add: chunk_avail_def buffer_string_length_content [OF wf])
  then show "0 < chunk_avail c" using assms by (simp add: live_def)
  show "int (buffer_string_length (c_mem c)) - c_offset c = int (length (mem_text c))"
    using r by (simp add: buffer_string_length_content [OF wf])
qed

lemma live_peek:
  assumes "live c" "k \<le> length (mem_text c)"
  shows "peek (b_ptr (c_mem c)) (nat (c_offset c) + k) = Some (if k < length (mem_text c) then mem_text c ! k else NUL)"
proof -
  obtain rest where r: "b_ptr (c_mem c) = map Some (buffer_content (c_mem c)) @ Some NUL # rest"
    "nat (c_offset c) + length (mem_text c) = length (buffer_content (c_mem c))"
    using live_cells [OF assms(1)] by blast
  show ?thesis
  proof (cases "k < length (mem_text c)")
    case True
    then have "nat (c_offset c) + k < length (buffer_content (c_mem c))" using r(2) by simp
    then show ?thesis using True r(1) by (simp add: peek_def nth_append) (simp add: mem_text_def)
  next
    case False
    then have "nat (c_offset c) + k = length (buffer_content (c_mem c))" using assms(2) r(2) by simp
    then show ?thesis using False r(1) by (simp add: peek_def nth_append)
  qed
qed

lemma cells_cstr_text: "cells_cstr (map Some s @ Some NUL # rest) p = Some (cstr (drop p s))" if "p \<le> length s"
proof -
  have d: "drop p (map Some s @ Some NUL # rest) = map Some (drop p s) @ Some NUL # rest"
    using that by (simp add: drop_map)
  have t: "takeWhile (\<lambda>x. x \<noteq> Some NUL) (map Some t @ Some NUL # rest) = map Some (cstr t)" for t
    by (induction t) (auto simp: cstr_def)
  show ?thesis unfolding cells_cstr_def d t Let_def
    using length_cstr [of "drop p s"] by (auto simp: length_cstr le_imp_less_Suc)
qed

lemma live_cstr:
  assumes "live c" "k \<le> length (mem_text c)"
  shows "chunk_cstr c k = Some (cstr (drop k (mem_text c)))"
proof -
  obtain rest where r: "b_ptr (c_mem c) = map Some (buffer_content (c_mem c)) @ Some NUL # rest"
    "nat (c_offset c) + length (mem_text c) = length (buffer_content (c_mem c))"
    using live_cells [OF assms(1)] by blast
  then show ?thesis using assms(2) cells_cstr_text [of "nat (c_offset c) + k" "buffer_content (c_mem c)" rest]
    by (simp add: chunk_cstr_def mem_text_def add.commute)
qed

section \<open>Queues of text\<close>

definition text_queue :: "chunkqueue \<Rightarrow> bool" where
  "text_queue cq \<longleftrightarrow> cq_wf cq \<and> (\<forall>c\<in>set (cq_chunks cq). live c)"

definition queue_text :: "chunkqueue \<Rightarrow> string" where
  "queue_text cq = concat (map mem_text (cq_chunks cq))"

text \<open>The bytes the chunks take up, with those already read.\<close>

definition stored_bytes :: "chunkqueue \<Rightarrow> nat" where
  "stored_bytes cq = (\<Sum>c\<leftarrow>cq_chunks cq. length (buffer_content (c_mem c)))"

lemma text_octets: "text_queue cq \<Longrightarrow> cq_octets cq = map MemByte (queue_text cq)"
proof -
  have "(\<forall>c\<in>set cs. live c) \<Longrightarrow> concat (map chunk_octets cs) = map MemByte (concat (map mem_text cs))" for cs
    by (induction cs) (auto simp: live_octets live_def)
  then show "text_queue cq \<Longrightarrow> cq_octets cq = map MemByte (queue_text cq)"
    by (auto simp: text_queue_def cq_octets_def queue_text_def)
qed

lemma text_count: "text_queue cq \<Longrightarrow> cq_bytes_in cq - cq_bytes_out cq = int (length (queue_text cq))"
  using text_octets [of cq] by (simp add: text_queue_def cq_wf_def)

lemma text_empty: "text_queue cq \<Longrightarrow> queue_text cq = [] \<longleftrightarrow> cq_chunks cq = []"
  by (cases "cq_chunks cq") (auto simp: queue_text_def text_queue_def live_def)

lemma MemByte_inj: "map MemByte s = map MemByte t \<longleftrightarrow> s = t"
  by (simp add: inj_map_eq_map inj_def)

lemma text_cons:
  assumes "text_queue cq" "cq_chunks cq = c # r"
  shows "live c" "queue_text cq = mem_text c @ concat (map mem_text r)" "mem_text c \<noteq> []"
    "length (buffer_content (c_mem c)) \<le> stored_bytes cq" "c_type c = MEM_CHUNK"
  using assms by (auto simp: text_queue_def queue_text_def stored_bytes_def live_def)

subsection \<open>What taking octets out leaves\<close>

text \<open>The chunks that are left: some at the front are gone, and of the next one a part.\<close>

inductive tail_chunks :: "chunk list \<Rightarrow> chunk list \<Rightarrow> bool" where
  tail_same: "tail_chunks cs cs"
| tail_part: "c_offset c \<le> d \<Longrightarrow> d < chunk_size c \<Longrightarrow> tail_chunks (c # r) (c\<lparr>c_offset := d\<rparr> # r)"
| tail_drop: "tail_chunks r cs \<Longrightarrow> tail_chunks (c # r) cs"

lemma tail_live:
  "tail_chunks cs cs' \<Longrightarrow> \<forall>c\<in>set cs. live c \<Longrightarrow> (\<forall>c\<in>set cs'. live c)
     \<and> (\<Sum>c\<leftarrow>cs'. length (buffer_content (c_mem c))) \<le> (\<Sum>c\<leftarrow>cs. length (buffer_content (c_mem c)))"
proof (induction rule: tail_chunks.induct)
  case (tail_part c d r)
  have wf: "buffer_wf (c_mem c)" "0 \<le> c_offset c" "c_type c = MEM_CHUNK" using tail_part(3) by (simp_all add: live_def chunk_wf_def)
  then have "d < int (length (buffer_content (c_mem c)))"
    using tail_part(2) by (simp add: chunk_size_def buffer_string_length_content)
  then have "live (c\<lparr>c_offset := d\<rparr>)"
    using wf tail_part(1) by (auto simp: live_def chunk_wf_def mem_text_def chunk_size_def buffer_string_length_content)
  then show ?case using tail_part(3) by simp
qed auto

lemma tail_text:
  assumes "text_queue cq" "tail_chunks (cq_chunks cq) (cq_chunks cq')" "cq_wf cq'"
  shows "text_queue cq'" "stored_bytes cq' \<le> stored_bytes cq"
  using tail_live [OF assms(2)] assms(1,3) by (simp_all add: text_queue_def stored_bytes_def)

lemma remaining_SomeD: "chunk_remaining_length c = Some l \<Longrightarrow> l = chunk_size c - c_offset c \<and> 0 \<le> l"
  by (auto simp: chunk_remaining_length_def Let_def split: bind_splits)

lemma mark_written_loop_tail:
  "mark_written_loop cq w = Some (cq', n) \<Longrightarrow> 0 \<le> w \<Longrightarrow> tail_chunks (cq_chunks cq) (cq_chunks cq')"
proof (induction cq w rule: mark_written_loop.induct)
  case (1 cq w)
  show ?case
  proof (cases "cq_chunks cq")
    case (Cons c r)
    then obtain l where l: "chunk_remaining_length c = Some l" using 1(2) by (auto simp: mark_written_loop.simps [of cq] split: option.splits)
    then have sz: "l = chunk_size c - c_offset c" by (simp add: remaining_SomeD)
    show ?thesis
    proof (cases "w = 0 \<and> l \<noteq> 0 \<or> w < l")
      case True
      then show ?thesis using 1(2,3) Cons l sz
        by (auto simp: mark_written_loop.simps [of cq] split: if_splits intro!: tail_same tail_part)
    next
      case False
      then show ?thesis using 1 Cons l
        by (auto simp: mark_written_loop.simps [of cq] split: if_splits intro!: tail_drop)
    qed
  qed (use 1 in \<open>auto simp: mark_written_loop.simps [of cq] intro: tail_same\<close>)
qed

lemma mark_written_text:
  assumes "text_queue cq" "n \<le> length (queue_text cq)"
  shows "\<exists>cq'. chunkqueue_mark_written cq (int n) = Some cq' \<and> text_queue cq' \<and> queue_text cq' = drop n (queue_text cq)
           \<and> stored_bytes cq' \<le> stored_bytes cq"
proof -
  have wf: "cq_wf cq" "int n \<le> int (length (cq_octets cq))"
    using assms text_octets [OF assms(1)] by (simp_all add: text_queue_def)
  obtain cq' where cq': "chunkqueue_mark_written cq (int n) = Some cq'" "cq_wf cq'" "cq_octets cq' = drop n (cq_octets cq)"
    using mark_written_ok [OF wf(1) _ wf(2)] by auto
  have "tail_chunks (cq_chunks cq) (cq_chunks cq')"
    using cq'(1) mark_written_loop_tail [of cq "int n"] by (auto simp: chunkqueue_mark_written_def split: bind_splits)
  note t = tail_text [OF assms(1) this cq'(2)]
  then show ?thesis using cq'(1,3) text_octets [OF assms(1)] text_octets [OF t(1)]
    by (auto simp: drop_map MemByte_inj)
qed

lemma steal_tail:
  "chunkqueue_steal dest src len = Some (dest', src') \<Longrightarrow> tail_chunks (cq_chunks src) (cq_chunks src')"
proof (induction dest src len rule: chunkqueue_steal.induct)
  case (1 dest src len)
  show ?case
  proof (cases "cq_chunks src")
    case (Cons c r)
    show ?thesis
    proof (cases "len \<le> 0")
      case False
      then obtain l where l: "chunk_remaining_length c = Some l"
        using 1(3) Cons by (auto simp: chunkqueue_steal.simps [of _ src] split: option.splits)
      then have sz: "l = chunk_size c - c_offset c" by (simp add: remaining_SomeD)
      consider "l = 0" | "l \<noteq> 0" "l \<le> len" | "len < l" by linarith
      then show ?thesis
      proof cases
        case 3
        then show ?thesis using 1(3) False Cons l sz
          by (auto simp: chunkqueue_steal.simps [of _ src] split: bind_splits intro!: tail_part)
      qed (use 1 False Cons l in \<open>auto simp: chunkqueue_steal.simps [of _ src] split: option.splits intro!: tail_drop\<close>)
    qed (use 1(3) in \<open>auto simp: chunkqueue_steal.simps [of _ src] intro: tail_same\<close>)
  qed (use 1(3) in \<open>auto simp: chunkqueue_steal.simps [of _ src] intro: tail_same split: if_splits\<close>)
qed


lemma steal_with_tempfiles_tail:
  "chunkqueue_steal_with_tempfiles e dest src len = Some (rc, dest', src', e') \<Longrightarrow>
   tail_chunks (cq_chunks src) (cq_chunks src')"
proof (induction e dest src len rule: chunkqueue_steal_with_tempfiles.induct)
  case (1 e dest src len)
  note unfold = chunkqueue_steal_with_tempfiles.simps [of e dest src len]
  show ?case
  proof (cases "len \<le> 0 \<or> cq_chunks src = []")
    case True
    then show ?thesis using 1(4) by (auto simp: unfold split: list.splits if_splits intro: tail_same)
  next
    case False
    then obtain c r where c: "cq_chunks src = c # r" and len: "\<not> len \<le> 0" by (cases "cq_chunks src") auto
    obtain l where l: "chunk_remaining_length c = Some l" using 1(4) c len by (auto simp: unfold split: option.splits)
    note sz = remaining_SomeD [OF l]
    show ?thesis
    proof (cases "l = 0 \<or> l \<le> len")
      case True
      have "tail_chunks r (cq_chunks src') \<or> cq_chunks src' = c # r"
        using 1 True c len l by (auto simp: unfold split: chunk_type.splits option.splits if_splits bind_splits)
      then show ?thesis using c by (auto intro: tail_same tail_drop)
    next
      case False
      then have "cq_chunks src' = c # r \<or> cq_chunks src' = c\<lparr>c_offset := c_offset c + len\<rparr> # r"
        using 1(4) c len l by (auto simp: unfold split: chunk_type.splits option.splits if_splits bind_splits)
      then show ?thesis using c False len sz tail_part [of c "c_offset c + len" r] by (auto intro: tail_same)
    qed
  qed
qed

text \<open>A queue whose stored bytes are few enough for a buffer.\<close>

lemma text_small: "text_queue cq \<Longrightarrow> fits (stored_bytes cq) \<Longrightarrow> cq_small cq"
proof -
  assume q: "text_queue cq" "fits (stored_bytes cq)"
  have "length (chunk_octets c) \<le> stored_bytes cq" if "c \<in> set (cq_chunks cq)" for c
  proof -
    have "c_type c = MEM_CHUNK" using q(1) that by (simp add: text_queue_def live_def)
    then have "length (chunk_octets c) \<le> length (buffer_content (c_mem c))" by (simp add: live_octets mem_text_def)
    also have "\<dots> \<le> stored_bytes cq" unfolding stored_bytes_def using that by (intro member_le_sum_list) auto
    finally show ?thesis .
  qed
  then show ?thesis using q(2) by (auto simp: cq_small_def elim: fits_mono)
qed

lemma steal_text:
  assumes "text_queue src" "cq_wf dest" "fits (stored_bytes src)"
  shows "\<exists>dest' src'. chunkqueue_steal dest src (int n) = Some (dest', src') \<and> cq_wf dest' \<and> text_queue src'
           \<and> cq_octets dest' = cq_octets dest @ map MemByte (take n (queue_text src))
           \<and> queue_text src' = drop n (queue_text src) \<and> stored_bytes src' \<le> stored_bytes src
           \<and> cq_bytes_out dest' = cq_bytes_out dest"
proof -
  obtain dest' src' where s: "chunkqueue_steal dest src (int n) = Some (dest', src')" "cq_wf dest'" "cq_wf src'"
      "cq_octets dest' = cq_octets dest @ take n (cq_octets src)" "cq_octets src' = drop n (cq_octets src)"
      "cq_bytes_out dest' = cq_bytes_out dest"
    using steal_ok [OF assms(2) _ text_small [OF assms(1,3)], of "int n"] assms(1) by (auto simp: text_queue_def)
  note t = tail_text [OF assms(1) steal_tail [OF s(1)] s(3)]
  show ?thesis using s t text_octets [OF assms(1)] text_octets [OF t(1)]
    by (auto simp: drop_map take_map MemByte_inj)
qed

lemma steal_tempfiles_text:
  assumes "text_queue src" "cq_wf dest"
  shows "\<exists>rc dest' src' e'. chunkqueue_steal_with_tempfiles e dest src (int n) = Some (rc, dest', src', e')
           \<and> cq_wf dest' \<and> text_queue src' \<and> stored_bytes src' \<le> stored_bytes src
           \<and> cq_bytes_out dest' = cq_bytes_out dest
           \<and> (rc = 0 \<longrightarrow> queue_text src' = drop n (queue_text src)
                \<and> length (cq_octets dest') = length (cq_octets dest) + min n (length (queue_text src)))"
proof -
  have "cq_wf src" using assms(1) by (simp add: text_queue_def)
  then obtain rc dest' src' e' where s: "chunkqueue_steal_with_tempfiles e dest src (int n) = Some (rc, dest', src', e')"
      "moved dest src (int n) rc dest' src'"
    using steal_with_tempfiles_ok [OF assms(2), of src e "int n"] by blast
  have wf: "cq_wf dest'" "cq_wf src'" "cq_bytes_out dest' = cq_bytes_out dest" using s(2) by (simp_all add: moved_def)
  note t = tail_text [OF assms(1) steal_with_tempfiles_tail [OF s(1)] wf(2)]
  have "queue_text src' = drop n (queue_text src)
      \<and> length (cq_octets dest') = length (cq_octets dest) + min n (length (queue_text src))" if "rc = 0"
  proof -
    have o: "cq_octets src = map MemByte (queue_text src)" "cq_octets src' = map MemByte (queue_text src')"
      by (rule text_octets [OF assms(1)]) (rule text_octets [OF t(1)])
    have "map MemByte (queue_text src') = map MemByte (drop (min n (length (queue_text src))) (queue_text src))"
      "length (cq_octets dest') = length (cq_octets dest) + min n (length (queue_text src))"
      using movedD [OF s(2)] that unfolding o by (auto simp: drop_map)
    then show ?thesis by (simp add: MemByte_inj min_def split: if_splits)
  qed
  then show ?thesis using s(1) wf t by blast
qed

text \<open>Finished chunks: there are none in a text queue.\<close>

lemma remove_finished_text [simp]: "text_queue cq \<Longrightarrow> chunkqueue_remove_finished_chunks cq = Some cq"
  by (cases "cq_chunks cq") (auto simp: chunkqueue_remove_finished_chunks.simps [of cq] text_queue_def live_def live_octets)


text \<open>Text that comes in behind.\<close>

lemma append_mem_text:
  assumes "text_queue cq" "x \<noteq> []" "fits (length x)"
  shows "\<exists>cq'. chunkqueue_append_mem cq x = Some cq' \<and> text_queue cq' \<and> queue_text cq' = queue_text cq @ x
           \<and> stored_bytes cq' = stored_bytes cq + length x \<and> cq_bytes_out cq' = cq_bytes_out cq"
proof -
  let ?c = "fst (chunkqueue_get_unused_chunk cq)" and ?cq = "snd (chunkqueue_get_unused_chunk cq)"
  have wf: "cq_wf cq" using assms(1) by (simp add: text_queue_def)
  note gu = get_unused_ok [of cq]
  have un: "unused_ok cq" using wf by (simp add: cq_wf_iff)
  have "buffer_wf (c_mem ?c)" using gu(1) [OF un] by (simp add: chunk_clean_def)
  then obtain b where b: "buffer_copy_string_len (c_mem ?c) x = Some b" "buffer_wf b" "buffer_abs b = Some x"
    using buffer_copy_string_len_ok assms(3) by blast
  note bc = buffer_content_abs [OF b(3)]
  note mc = mem_chunk [OF gu(1) [OF un] b(2)]
  let ?n = "?c\<lparr>c_type := MEM_CHUNK, c_mem := b\<rparr>"
  have off: "c_offset ?c = 0" using gu(1) [OF un] by (simp add: chunk_clean_def)
  obtain cq' where cq': "chunkqueue_append_chunk ?cq ?n = Some cq'" "cq_wf cq'" "cq_chunks cq' = cq_chunks ?cq @ [?n]"
      "cq_bytes_out cq' = cq_bytes_out ?cq"
    using append_chunk_ok [OF get_unused_wf [OF wf] mc(1)] by blast
  have t: "mem_text ?n = x" using off bc by (simp add: mem_text_def)
  have ch: "cq_chunks ?cq = cq_chunks cq" by (simp add: chunkqueue_get_unused_chunk_def split: list.split)
  have "live ?n" using mc(1) t assms(2) by (simp add: live_def)
  then have "text_queue cq'" using cq'(2,3) ch assms(1) by (auto simp: text_queue_def)
  moreover have "queue_text cq' = queue_text cq @ x" using cq'(3) ch t by (simp add: queue_text_def)
  moreover have "stored_bytes cq' = stored_bytes cq + length x" using cq'(3) ch bc by (simp add: stored_bytes_def)
  ultimately show ?thesis using cq'(1,4) b(1) assms(2) gu(5) [OF un]
    by (auto simp: chunkqueue_append_mem_def case_prod_beta)
qed

lemma init_text [simp]: "text_queue (chunkqueue_init d)" "queue_text (chunkqueue_init d) = []" "stored_bytes (chunkqueue_init d) = 0"
  using init_ok [of d] by (simp_all add: text_queue_def queue_text_def stored_bytes_def) (simp_all add: chunkqueue_init_def)

end
