(* ===== verification/RequestBody.thy ===== *)
theory RequestBody
  imports Keyvalue TextQueue
begin

text \<open>
  Reading the request body, \<open>src/src/connections-glue.c\<close>: bodies of a known length and bodies
  under chunked coding move from the read queue of a connection to its content queue.  The part
  of \<open>connection\<close> these functions and the reading of headers use is the record \<open>connection\<close>; the two function pointers
  \<open>network_read\<close> and \<open>network_write\<close> are arguments.

  As elsewhere the outer \<open>None\<close> is a failed assertion or undefined behaviour: a read outside a
  buffer, arithmetic on a null pointer, a signed overflow.
\<close>

section \<open>The connection\<close>

datatype handler_t =
    HANDLER_UNSET | HANDLER_GO_ON | HANDLER_FINISHED | HANDLER_COMEBACK | HANDLER_WAIT_FOR_EVENT
  | HANDLER_ERROR | HANDLER_WAIT_FOR_FD

datatype connection_state_t =
    CON_STATE_CONNECT | CON_STATE_REQUEST_START | CON_STATE_READ | CON_STATE_REQUEST_END
  | CON_STATE_READ_POST | CON_STATE_HANDLE_REQUEST | CON_STATE_RESPONSE_START | CON_STATE_WRITE
  | CON_STATE_RESPONSE_END | CON_STATE_ERROR | CON_STATE_CLOSE

datatype con_mode = DIRECT | Plugin nat

record connection =
  cn_state :: connection_state_t
  cn_read_queue :: chunkqueue
  cn_request_content_queue :: chunkqueue
  cn_write_queue :: chunkqueue
  cn_content_length :: int
  cn_te_chunked :: int
  cn_http_version :: http_version_t
  cn_headers :: array
  cn_http_status :: int
  cn_mode :: con_mode
  cn_keep_alive :: bool
  cn_is_readable :: bool
  cn_is_writable :: bool
  cn_bytes_header :: int
  cn_bytes_written :: int
  cn_bytes_written_cur_second :: int
  cn_traffic_limit_reached :: bool
  cn_read_idle_ts :: int
  cn_request_start :: int
  cn_request_count :: nat
  cn_request :: buffer
  cn_bytes_read :: int
  cn_uri_authority :: buffer
  cn_uri_path :: buffer
  cn_uri_query :: buffer

text \<open>
  The configuration: sizes in kBytes, and the two flags of \<open>stream_request_body\<close> these
  functions look at.  The counter of all connections of a host is \<open>cf_global_bytes\<close>.
\<close>

record con_conf =
  cf_max_request_size :: nat
  cf_max_request_field_size :: nat
  cf_kbytes_per_second :: nat
  cf_global_kbytes_per_second :: nat
  cf_global_bytes :: int
  cf_stream_request :: bool
  cf_stream_request_pollin :: bool

section \<open>Operations\<close>

text \<open>
  The first chunk takes over what the next one that is not empty holds; the result tells whether there
  was one.  \<open>compact_step\<close> is one round of the loop, with the length of what was taken over.
\<close>

definition compact_step :: "chunkqueue \<Rightarrow> chunk \<Rightarrow> chunk \<Rightarrow> chunk list \<Rightarrow> (nat \<times> chunkqueue) option" where
  "compact_step cq c d r = do {
     let mem = c_mem d;
     let offset = c_offset d;
     let blen = chunk_avail d;
     force_assert (c_type c = MEM_CHUNK);
     force_assert (c_type d = MEM_CHUNK);
     s \<leftarrow> read_at (b_ptr mem) (nat offset) blen;
     b \<leftarrow> buffer_append_string_len (c_mem c) s;
     let d' = d\<lparr>c_offset := c_offset c, c_mem := b\<rparr>;
     let c' = c\<lparr>c_mem := mem, c_offset := offset + int blen\<rparr>;
     cq \<leftarrow> chunkqueue_remove_finished_chunks (cq\<lparr>cq_chunks := c' # d' # r\<rparr>);
     Some (blen, cq)
   }"

partial_function (option) connection_handle_read_post_cq_compact :: "chunkqueue \<Rightarrow> (bool \<times> chunkqueue) option" where
  "connection_handle_read_post_cq_compact cq =
     (case cq_chunks cq of
        [] \<Rightarrow> Some (False, cq)
      | [c] \<Rightarrow> Some (False, cq)
      | c # d # r \<Rightarrow>
          Option.bind (compact_step cq c d r) (\<lambda>(blen, cq).
          if blen \<noteq> 0 then Some (True, cq) else connection_handle_read_post_cq_compact cq))"

text \<open>The line end after the data of a chunk: 1 when it is there, 0 when it is incomplete.\<close>

fun crlf_in_next :: "chunk list \<Rightarrow> int option" where
  "crlf_in_next [] = Some 0"
| "crlf_in_next (c # r) =
     (if chunk_avail c = 0 then crlf_in_next r
      else do {
        p \<leftarrow> peek (b_ptr (c_mem c)) (nat (c_offset c));
        Some (if p = LF then 1 else -1)
      })"

definition connection_handle_read_post_chunked_crlf :: "chunkqueue \<Rightarrow> int option" where
  "connection_handle_read_post_chunked_crlf cq =
     (case cq_chunks cq of
        [] \<Rightarrow> Some 0
      | c # r \<Rightarrow> do {
          p \<leftarrow> peek (b_ptr (c_mem c)) (nat (c_offset c));
          if p \<noteq> CR then Some (-1)
          else do {
            q \<leftarrow> peek (b_ptr (c_mem c)) (nat (c_offset c) + 1);
            if q = LF then Some 1
            else if chunk_avail c \<noteq> 1 then Some (-1)
            else crlf_in_next r
          }
        })"

definition connection_handle_read_post_error :: "connection \<Rightarrow> int \<Rightarrow> handler_t \<times> connection" where
  "connection_handle_read_post_error con status =
     (let con = con\<lparr>cn_keep_alive := False\<rparr>
      in if cn_bytes_header con \<noteq> 0 then (HANDLER_ERROR, con)
         else (HANDLER_FINISHED, con\<lparr>cn_http_status := status, cn_mode := DIRECT,
                 cn_write_queue := chunkqueue_reset (cn_write_queue con)\<rparr>))"

text \<open>
  The size of a chunk: hexadecimal digits as long as the shift does not overflow, then blanks and
  a carriage return or an extension.  \<open>None\<close> is the answer 400.
\<close>

fun te_digits :: "int \<Rightarrow> string \<Rightarrow> (int \<times> string) option" where
  "te_digits te [] = Some (te, [])"
| "te_digits te (c # s) =
     (if hex2int c = 0xFF then Some (te, c # s)
      else if 2 ^ 59 - 1 < te then None
      else te_digits (te * 16 + int (hex2int c)) s)"

definition te_size :: "string \<Rightarrow> int option" where
  "te_size s =
     (case te_digits 0 s of
        None \<Rightarrow> None
      | Some (te, r) \<Rightarrow>
          (case dropWhile (\<lambda>c. c = SP \<or> c = TAB) r of
             [] \<Rightarrow> None
           | c # _ \<Rightarrow> if c \<noteq> CR \<and> c \<noteq> CHR '';'' then None else Some te))"

text \<open>
  The end of the trailers, as a position after the offset of the first chunk; chunks are merged
  until it is found.
\<close>

partial_function (option) find_trailer_end :: "nat \<Rightarrow> chunkqueue \<Rightarrow> (nat option \<times> chunkqueue) option" where
  "find_trailer_end hsz cq =
     (case cq_chunks cq of
        [] \<Rightarrow> None
      | c # r \<Rightarrow>
          Option.bind (chunk_cstr c hsz) (\<lambda>s.
            case strstr s (CRLF @ CRLF) of
              Some p \<Rightarrow> Some (Some (hsz + p), cq)
            | None \<Rightarrow>
                Option.bind (connection_handle_read_post_cq_compact cq) (\<lambda>(more, cq).
                  if more then find_trailer_end hsz cq else Some (None, cq))))"

text \<open>
  The last chunk, of size 0: \<open>hsz\<close> is the length of its line.  Without the end of the trailers
  nothing is consumed; when the trailers have grown too long, the code computes with the null
  pointer \<open>p\<close>.
\<close>

definition read_last_chunk :: "con_conf \<Rightarrow> nat \<Rightarrow> connection \<Rightarrow> connection option" where
  "read_last_chunk cf hsz con = do {
     (p, cq) \<leftarrow> find_trailer_end (hsz - 2) (cn_read_queue con);
     let con = con\<lparr>cn_read_queue := cq\<rparr>;
     case p of
       Some p \<Rightarrow> do {
         cq \<leftarrow> chunkqueue_mark_written cq (int (p + 4));
         Some (con\<lparr>cn_read_queue := cq, cn_content_length := cq_bytes_in (cn_request_content_queue con)\<rparr>)
       }
     | None \<Rightarrow> do {
         force_assert (cq_chunks cq \<noteq> []);
         let c = hd (cq_chunks cq);
         if int (buffer_string_length (c_mem c)) - c_offset c < int (cf_max_request_field_size cf)
         then Some con else None
       }
   }"

text \<open>
  A chunk with data: its line is consumed, and its size checked against the limit of the request.
  The result is an error status or what is left of the chunk with its line end.
\<close>

definition off_add :: "int \<Rightarrow> int \<Rightarrow> int option" where
  "off_add a b = (if a + b < 2 ^ 63 then Some (a + b) else None)"

definition read_data_chunk ::
    "con_conf \<Rightarrow> nat \<Rightarrow> int \<Rightarrow> connection \<Rightarrow> ((int + int) \<times> connection) option" where
  "read_data_chunk cf hsz te con = do {
     cq \<leftarrow> chunkqueue_mark_written (cn_read_queue con) (int hsz);
     let con = con\<lparr>cn_read_queue := cq\<rparr>;
     let max_request_size = int (cf_max_request_size cf) * 1024;
     if max_request_size \<noteq> 0
       \<and> (max_request_size < te \<or> max_request_size - te < cq_bytes_in (cn_request_content_queue con))
     then Some (Inl 413, con)
     else do {
       te \<leftarrow> off_add te 2;
       Some (Inr te, con)
     }
   }"

text \<open>The loop \<open>while (0 == te_chunked)\<close>: the line in front of a chunk.\<close>

partial_function (option) read_chunk_header ::
    "con_conf \<Rightarrow> connection \<Rightarrow> ((int + int) \<times> connection) option" where
  "read_chunk_header cf con =
     (case cq_chunks (cn_read_queue con) of
        [] \<Rightarrow> Some (Inr 0, con)
      | c # r \<Rightarrow>
          if c_type c \<noteq> MEM_CHUNK then None
          else Option.bind (chunk_cstr c 0) (\<lambda>s.
            case strchr s LF of
              Some p \<Rightarrow>
                (case te_size s of
                   None \<Rightarrow> Some (Inl 400, con)
                 | Some te \<Rightarrow>
                     if 1024 \<le> p + 1 then Some (Inl 400, con)
                     else if te = 0 then map_option (\<lambda>con. (Inr 0, con)) (read_last_chunk cf (p + 1) con)
                     else read_data_chunk cf (p + 1) te con)
            | None \<Rightarrow>
                if 1024 \<le> int (buffer_string_length (c_mem c)) - c_offset c then Some (Inl 400, con)
                else Option.bind (connection_handle_read_post_cq_compact (cn_read_queue con)) (\<lambda>(more, cq).
                  let con = con\<lparr>cn_read_queue := cq\<rparr>
                  in if more then read_chunk_header cf con else Some (Inr 0, con))))"

text \<open>Data of the current chunk goes to the content queue; \<open>False\<close> is a failure of the temporary files.\<close>

definition read_chunk_data ::
    "os_env \<Rightarrow> int \<Rightarrow> connection \<Rightarrow> (bool \<times> int \<times> connection \<times> os_env) option" where
  "read_chunk_data e te con =
     (if te \<le> 2 then Some (True, te, con, e)
      else do {
        let cq = cn_read_queue con;
        let dst = cn_request_content_queue con;
        let len = min (cq_bytes_in cq - cq_bytes_out cq) (te - 2);
        n \<leftarrow> off_add (cq_bytes_in dst) te;
        if n \<le> 64 * 1024 then do {
          (dst, cq) \<leftarrow> chunkqueue_steal dst cq len;
          Some (True, te - len, con\<lparr>cn_read_queue := cq, cn_request_content_queue := dst\<rparr>, e)
        } else do {
          (rc, dst, cq, e) \<leftarrow> chunkqueue_steal_with_tempfiles e dst cq len;
          Some (rc = 0, te - len, con\<lparr>cn_read_queue := cq, cn_request_content_queue := dst\<rparr>, e)
        }
      })"

text \<open>The line end after the data.  \<open>None\<close> inside is the answer 400.\<close>

definition read_chunk_end :: "int \<Rightarrow> connection \<Rightarrow> (int \<times> connection) option option" where
  "read_chunk_end te con =
     (if te \<noteq> 2 then Some (Some (te, con))
      else do {
        r \<leftarrow> connection_handle_read_post_chunked_crlf (cn_read_queue con);
        if r = -1 then Some None
        else do {
          cq \<leftarrow> chunkqueue_mark_written (cn_read_queue con) 2;
          Some (Some (te - 2, con\<lparr>cn_read_queue := cq\<rparr>))
        }
      })"

definition read_post_reply :: "os_env \<Rightarrow> int \<Rightarrow> connection \<Rightarrow> (handler_t \<times> connection \<times> os_env) option" where
  "read_post_reply e status con =
     (let (rc, con) = connection_handle_read_post_error con status in Some (rc, con, e))"

partial_function (option) read_chunks ::
    "con_conf \<Rightarrow> os_env \<Rightarrow> int \<Rightarrow> connection \<Rightarrow> (handler_t \<times> connection \<times> os_env) option" where
  "read_chunks cf e te con =
     Option.bind (if te = 0 then read_chunk_header cf con else Some (Inr te, con)) (\<lambda>(r, con).
       case r of
         Inl status \<Rightarrow> read_post_reply e status con
       | Inr te \<Rightarrow>
           if te = 0 then Some (HANDLER_GO_ON, con\<lparr>cn_te_chunked := te\<rparr>, e)
           else Option.bind (read_chunk_data e te con) (\<lambda>(good, te, con, e).
             if \<not> good then read_post_reply e 500 con
             else if cq_bytes_in (cn_read_queue con) - cq_bytes_out (cn_read_queue con) < te
             then Some (HANDLER_GO_ON, con\<lparr>cn_te_chunked := te\<rparr>, e)
             else Option.bind (read_chunk_end te con) (\<lambda>r.
               case r of
                 None \<Rightarrow> read_post_reply e 400 con
               | Some (te, con) \<Rightarrow>
                   if cq_chunks (cn_read_queue con) = []
                   then Some (HANDLER_GO_ON, con\<lparr>cn_te_chunked := te\<rparr>, e)
                   else read_chunks cf e te con)))"

definition connection_handle_read_post_chunked ::
    "con_conf \<Rightarrow> os_env \<Rightarrow> connection \<Rightarrow> (handler_t \<times> connection \<times> os_env) option" where
  "connection_handle_read_post_chunked cf e con = read_chunks cf e (cn_te_chunked con) con"

definition connection_handle_read_body_unknown :: "con_conf \<Rightarrow> connection \<Rightarrow> handler_t \<times> connection" where
  "connection_handle_read_body_unknown cf con =
     (let max_request_size = int (cf_max_request_size cf) * 1024;
          (dst, cq) = chunkqueue_append_chunkqueue (cn_request_content_queue con) (cn_read_queue con);
          con = con\<lparr>cn_request_content_queue := dst, cn_read_queue := cq\<rparr>
      in if max_request_size \<noteq> 0 \<and> max_request_size < cq_bytes_in dst
         then connection_handle_read_post_error con 413 else (HANDLER_GO_ON, con))"


section \<open>Writing\<close>

text \<open>The bytes that may be sent, with the limits of the host and of the connection.\<close>

definition connection_write_throttle :: "con_conf \<Rightarrow> connection \<Rightarrow> int \<Rightarrow> int \<times> connection" where
  "connection_write_throttle cf con max_bytes =
     (let limit = int (cf_global_kbytes_per_second cf) * 1024 - cf_global_bytes cf
      in if cf_global_kbytes_per_second cf \<noteq> 0 \<and> limit \<le> 0 then (0, con\<lparr>cn_traffic_limit_reached := True\<rparr>)
         else (let max_bytes = (if cf_global_kbytes_per_second cf \<noteq> 0 then min max_bytes limit else max_bytes);
                   limit = int (cf_kbytes_per_second cf) * 1024 - cn_bytes_written_cur_second con
               in if cf_kbytes_per_second cf \<noteq> 0 \<and> limit \<le> 0 then (0, con\<lparr>cn_traffic_limit_reached := True\<rparr>)
                  else (if cf_kbytes_per_second cf \<noteq> 0 then min max_bytes limit else max_bytes, con)))"

text \<open>\<open>network_write\<close> sends from the write queue: its result, and the connection afterwards.\<close>

type_synonym network_write_fn = "connection \<Rightarrow> int \<Rightarrow> int \<times> connection"

definition count_written :: "int \<Rightarrow> connection \<Rightarrow> con_conf \<Rightarrow> connection \<times> con_conf" where
  "count_written written con cf =
     (con\<lparr>cn_bytes_written := cn_bytes_written con + written,
          cn_bytes_written_cur_second := cn_bytes_written_cur_second con + written\<rparr>,
      cf\<lparr>cf_global_bytes := cf_global_bytes cf + written\<rparr>)"

definition connection_write_chunkqueue ::
    "network_write_fn \<Rightarrow> con_conf \<Rightarrow> connection \<Rightarrow> int \<Rightarrow> (int \<times> connection \<times> con_conf) option" where
  "connection_write_chunkqueue network_write cf con max_bytes =
     (let (max_bytes, con) = connection_write_throttle cf con max_bytes
      in if max_bytes = 0 then Some (1, con, cf)
         else do {
           let written = cq_bytes_out (cn_write_queue con);
           let (ret, con) = network_write con max_bytes;
           (ret, con) \<leftarrow> (if 0 \<le> ret then do {
               cq \<leftarrow> chunkqueue_remove_finished_chunks (cn_write_queue con);
               Some (if cq_chunks cq = [] then 0 else 1, con\<lparr>cn_write_queue := cq\<rparr>)
             } else Some (ret, con));
           let (con, cf) = count_written (cq_bytes_out (cn_write_queue con) - written) con cf;
           Some (ret, con, cf)
         })"

definition http_100_continue :: string where
  "http_100_continue = ''HTTP/1.1 100 Continue'' @ CRLF @ CRLF"

definition connection_write_100_continue ::
    "network_write_fn \<Rightarrow> con_conf \<Rightarrow> connection \<Rightarrow> (bool \<times> connection \<times> con_conf) option" where
  "connection_write_100_continue network_write cf con =
     (let len = int (length http_100_continue);
          (max_bytes, con) = connection_write_throttle cf con len
      in if max_bytes < len then Some (True, con, cf)
         else do {
           let written = cq_bytes_out (cn_write_queue con);
           cq \<leftarrow> chunkqueue_append_mem (cn_write_queue con) http_100_continue;
           let (rc, con) = network_write (con\<lparr>cn_write_queue := cq\<rparr>) len;
           let written = cq_bytes_out (cn_write_queue con) - written;
           let (con, cf) = count_written written con cf;
           if rc < 0 then Some (False, con\<lparr>cn_state := CON_STATE_ERROR\<rparr>, cf)
           else if written = len then do {
             cq \<leftarrow> chunkqueue_remove_finished_chunks (cn_write_queue con);
             Some (True, con\<lparr>cn_write_queue := cq\<rparr>, cf)
           }
           else if written = 0 then do {
             cq \<leftarrow> chunkqueue_mark_written (cn_write_queue con) len;
             Some (True, con\<lparr>cn_write_queue := cq, cn_is_writable := False\<rparr>, cf)
           }
           else Some (True, con, cf)
         })"

section \<open>The state that reads the body\<close>

text \<open>\<open>Expect: 100-continue\<close>: answered once, and the header is unset.\<close>

definition expect_continue :: "network_write_fn \<Rightarrow> con_conf \<Rightarrow> connection \<Rightarrow> (bool \<times> connection \<times> con_conf) option" where
  "expect_continue network_write cf con =
     (if cq_chunks (cn_read_queue con) = [] \<and> cq_bytes_in (cn_request_content_queue con) = 0
         \<and> cn_http_version con \<noteq> HTTP_VERSION_1_0
         \<and> cq_chunks (cn_write_queue con) = [] \<and> cn_is_writable con
      then do {
        (ndx, pos) \<leftarrow> array_get_index (cn_headers con) ''Expect'';
        case ndx of
          None \<Rightarrow> Some (True, con, cf)
        | Some i \<Rightarrow> do {
            ds \<leftarrow> nth_opt (a_data (cn_headers con)) i;
            ds \<leftarrow> ds;
            if buffer_caseless_compare (abs_bytes (du_value ds)) ''100-continue'' = 0
            then connection_write_100_continue network_write cf
                   (con\<lparr>cn_headers := (cn_headers con)
                          \<lparr>a_data := (a_data (cn_headers con))[i := Some (ds\<lparr>du_value := None\<rparr>)]\<rparr>\<rparr>)
            else Some (True, con, cf)
          }
      } else Some (True, con, cf))"

text \<open>The part of the state that moves what has been read; the third case is a body of unknown length.\<close>

definition read_body ::
    "con_conf \<Rightarrow> os_env \<Rightarrow> connection \<Rightarrow> (handler_t \<times> connection \<times> os_env) option" where
  "read_body cf e con =
     (let cq = cn_read_queue con; dst = cn_request_content_queue con;
          rest = cn_content_length con - cq_bytes_in dst
      in if cn_content_length con = -1 then connection_handle_read_post_chunked cf e con
         else if cn_content_length con < 0
         then (let (rc, con) = connection_handle_read_body_unknown cf con in Some (rc, con, e))
         else if cn_content_length con \<le> 64 * 1024
         then do {
           (dst, cq) \<leftarrow> chunkqueue_steal dst cq rest;
           Some (HANDLER_GO_ON, con\<lparr>cn_read_queue := cq, cn_request_content_queue := dst\<rparr>, e)
         }
         else do {
           (rc, dst, cq, e) \<leftarrow> chunkqueue_steal_with_tempfiles e dst cq rest;
           let con = con\<lparr>cn_read_queue := cq, cn_request_content_queue := dst\<rparr>;
           if rc \<noteq> 0 then read_post_reply e 500 con else Some (HANDLER_GO_ON, con, e)
         })"

definition body_read :: "bool \<Rightarrow> con_conf \<Rightarrow> connection \<Rightarrow> handler_t \<times> connection \<times> con_conf" where
  "body_read is_closed cf con =
     (if cq_bytes_in (cn_request_content_queue con) = cn_content_length con
      then (HANDLER_GO_ON,
            (if cn_state con = CON_STATE_READ_POST then con\<lparr>cn_state := CON_STATE_HANDLE_REQUEST\<rparr> else con),
            cf\<lparr>cf_stream_request_pollin := False\<rparr>)
      else if is_closed then (HANDLER_ERROR, con, cf)
      else (if cf_stream_request cf then HANDLER_GO_ON else HANDLER_WAIT_FOR_EVENT, con,
            cf\<lparr>cf_stream_request_pollin := True\<rparr>))"

text \<open>\<open>network_read\<close> appends to the read queue: its result, and the connection afterwards.\<close>

type_synonym network_read_fn = "connection \<Rightarrow> (int \<times> connection) option"

definition connection_handle_read_post_state ::
    "int \<Rightarrow> network_read_fn \<Rightarrow> network_write_fn \<Rightarrow> con_conf \<Rightarrow> os_env \<Rightarrow> connection \<Rightarrow>
     (handler_t \<times> connection \<times> con_conf \<times> os_env) option" where
  "connection_handle_read_post_state now network_read network_write cf e con =
     do {
       (rc, con) \<leftarrow> (if cn_is_readable con then network_read (con\<lparr>cn_read_idle_ts := now\<rparr>) else Some (0, con));
       if rc = -1 then Some (HANDLER_ERROR, con\<lparr>cn_state := CON_STATE_ERROR\<rparr>, cf, e)
         else do {
           cq \<leftarrow> chunkqueue_remove_finished_chunks (cn_read_queue con);
           (good, con, cf) \<leftarrow> expect_continue network_write cf (con\<lparr>cn_read_queue := cq\<rparr>);
           if \<not> good then Some (HANDLER_ERROR, con, cf, e)
           else do {
             (r, con, e) \<leftarrow> read_body cf e con;
             if r \<noteq> HANDLER_GO_ON then Some (r, con, cf, e)
             else do {
               cq \<leftarrow> chunkqueue_remove_finished_chunks (cn_read_queue con);
               let (r, con, cf) = body_read (rc = -2) cf (con\<lparr>cn_read_queue := cq\<rparr>);
               Some (r, con, cf, e)
             }
           }
         }
     }"

end
