(* ===== verification/BodyRead.thy ===== *)
theory BodyRead
  imports RequestBody
begin

text \<open>
  What the body reader of \<open>RequestBody\<close> does with a queue of text: it works for every way the
  bytes are spread over chunks, and stays within the memory of the chunks.
\<close>

section \<open>Merging chunks\<close>

lemma compact_text:
  assumes "text_queue cq" "cq_chunks cq = c # d # r" "fits (stored_bytes cq)"
  shows "\<exists>cq' d'. connection_handle_read_post_cq_compact cq = Some (True, cq') \<and> text_queue cq'
    \<and> cq_chunks cq' = d' # r \<and> mem_text d' = mem_text c @ mem_text d \<and> queue_text cq' = queue_text cq
    \<and> stored_bytes cq' \<le> stored_bytes cq \<and> cq_bytes_in cq' = cq_bytes_in cq \<and> cq_bytes_out cq' = cq_bytes_out cq"
proof -
  have lc: "live c" and ld: "live d" and lr: "\<forall>c\<in>set r. live c" using assms(1,2) by (simp_all add: text_queue_def)
  have wf: "buffer_wf (c_mem c)" "buffer_wf (c_mem d)" "0 \<le> c_offset c" "0 \<le> c_offset d"
    "c_type c = MEM_CHUNK" "c_type d = MEM_CHUNK" using lc ld by (simp_all add: live_def chunk_wf_def)
  note ad = live_avail [OF ld]
  obtain rc where rc: "nat (c_offset c) + length (mem_text c) = length (buffer_content (c_mem c))"
    using live_cells [OF lc] by blast
  obtain rd where rd: "b_ptr (c_mem d) = map Some (buffer_content (c_mem d)) @ rd"
    "nat (c_offset d) + length (mem_text d) = length (buffer_content (c_mem d))"
    using live_cells [OF ld] by metis
  have rd': "read_at (b_ptr (c_mem d)) (nat (c_offset d)) (chunk_avail d) = Some (mem_text d)"
    using ad(1) rd by (simp add: read_at_iff) (simp add: mem_text_def drop_map)
  have "length (buffer_content (c_mem c)) + length (mem_text d) \<le> stored_bytes cq"
    using assms(2) by (simp add: stored_bytes_def mem_text_def)
  then have "fits (length (buffer_content (c_mem c)) + length (mem_text d))" using fits_mono [OF assms(3)] by blast
  then obtain b where b: "buffer_append_string_len (c_mem c) (mem_text d) = Some b" "buffer_wf b"
      "buffer_content b = buffer_content (c_mem c) @ mem_text d"
    using buffer_append_string_len_ok [OF wf(1)] buffer_content_abs by metis
  let ?d = "d\<lparr>c_offset := c_offset c, c_mem := b\<rparr>"
  let ?c = "c\<lparr>c_mem := c_mem d, c_offset := c_offset d + int (chunk_avail d)\<rparr>"
  let ?q = "cq\<lparr>cq_chunks := ?c # ?d # r\<rparr>"
  have td: "mem_text ?d = mem_text c @ mem_text d" using b(3) rc by (simp add: mem_text_def)
  have ld': "live ?d" using td lc b(2) wf rc
    by (auto simp: live_def chunk_wf_def chunk_size_def buffer_string_length_content b(3))
  have off: "c_offset d + int (chunk_avail d) = int (length (buffer_content (c_mem d)))"
    using rd(2) ad(1) wf(4) by simp
  have lc': "chunk_wf ?c" "chunk_octets ?c = []" using wf off
    by (simp_all add: chunk_wf_def chunk_size_def buffer_string_length_content chunk_octets_def chunk_bytes_def)
  have oc: "chunk_octets ?d = chunk_octets c @ chunk_octets d"
    using td wf by (simp add: live_octets)
  have q: "cq_wf ?q"
    using assms(1,2) lc' ld' lr oc unfolding text_queue_def cq_wf_iff
    by (auto simp: cq_octets_def live_def)
  define cq' where "cq' = chunkqueue_push_unused_chunk (?q\<lparr>cq_chunks := ?d # r\<rparr>) ?c"
  have wf': "cq_wf cq'"
    using drop_first_wf(1) [OF q, of ?c "?d # r" ?c] lc' by (simp add: cq'_def)
  have "chunkqueue_remove_finished_chunks ?q = Some cq'"
    using lc' ld' by (simp add: chunkqueue_remove_finished_chunks.simps [of ?q] cq'_def)
      (simp add: chunkqueue_remove_finished_chunks.simps live_def live_octets)
  moreover have "text_queue cq'" using wf' ld' lr by (simp add: text_queue_def cq'_def)
  moreover have "queue_text cq' = queue_text cq" using assms(2) td by (simp add: queue_text_def cq'_def)
  moreover have "stored_bytes cq' \<le> stored_bytes cq"
    using assms(2) b(3) rd(2) by (simp add: stored_bytes_def cq'_def)
  ultimately show ?thesis
    using assms(2) wf(5,6) rd' b(1) td ad(2)
    by (intro exI [of _ cq'] exI [of _ ?d])
      (simp add: connection_handle_read_post_cq_compact.simps [of cq] compact_step_def cq'_def Let_def)
qed


section \<open>Searching\<close>

lemma strchr_Some:
  assumes "strchr s c = Some p"
  shows "p < length s" "s ! p = c" "c \<notin> set (take p s)"
proof -
  have "c \<in> set s" "p = length (takeWhile (\<lambda>x. x \<noteq> c) s)" using assms by (auto simp: strchr_def split: if_splits)
  then show "p < length s" "s ! p = c" "c \<notin> set (take p s)"
    by (induction s arbitrary: p) auto
qed

lemma strchr_first: "c \<notin> set a \<Longrightarrow> strchr (a @ c # b) c = Some (length a)"
proof -
  assume "c \<notin> set a"
  then have "length (takeWhile (\<lambda>x. x \<noteq> c) (a @ c # b)) = length a" by (induction a) auto
  then show ?thesis by (simp add: strchr_def)
qed

lemma strstr_Some: "strstr s pat = Some p \<Longrightarrow> p + length pat \<le> length s \<and> take (length pat) (drop p s) = pat"
proof (induction s arbitrary: p)
  case Nil
  then show ?case by (simp add: strstr.simps split: if_splits)
next
  case (Cons c r)
  have "length pat \<le> length (c # r)" if "take (length pat) (c # r) = pat"
    using arg_cong [OF that, of length] by simp
  then show ?case using Cons by (auto simp: strstr.simps [of "c # r"] split: if_splits)
qed

lemma strstr_short: "length s < length pat \<Longrightarrow> strstr s pat = None"
  using strstr_Some [of s pat] by (cases "strstr s pat") auto

lemma strstr_here: "strstr (pat @ s) pat = Some 0"
  by (simp add: strstr.simps [of "pat @ s"])

text \<open>The size line.\<close>

lemma te_digits_bound: "te_digits te s = Some (v, r) \<Longrightarrow> 0 \<le> te \<Longrightarrow> te < 2 ^ 63 \<Longrightarrow> 0 \<le> v \<and> v < 2 ^ 63 \<and> (\<exists>u. s = u @ r)"
proof (induction te s rule: te_digits.induct)
  case (2 te c s)
  show ?case
  proof (cases "hex2int c = 0xFF")
    case True
    then show ?thesis using 2(2-4) by (auto intro: exI [of _ "[]"])
  next
    case False
    then have h: "hex2int c < 16" using hex2int_range by auto
    have t: "\<not> 2 ^ 59 - 1 < te" using False 2(2) by (auto split: if_splits)
    have "te_digits (te * 16 + int (hex2int c)) s = Some (v, r)" using False t 2(2) by simp
    from 2(1) [OF False t this] have "0 \<le> v \<and> v < 2 ^ 63 \<and> (\<exists>u. s = u @ r)" using h t 2(3) by simp
    then show ?thesis by (metis append_Cons)
  qed
qed simp

lemma te_digits_hex:
  assumes "\<And>c. c \<in> set s \<Longrightarrow> hex2int c < 16" "foldl (\<lambda>a c. 16 * a + hex2int c) k s < 2 ^ 63"
  shows "te_digits (int k) (s @ CR # t) = Some (int (foldl (\<lambda>a c. 16 * a + hex2int c) k s), CR # t)"
  using assms
proof (induction s arbitrary: k)
  case Nil
  then show ?case by (simp add: hex2int_value)
next
  case (Cons c s)
  have mono: "a \<le> foldl (\<lambda>a c. 16 * a + hex2int c) a s" for a
  proof (induction s arbitrary: a)
    case (Cons x s)
    have "a \<le> 16 * a + hex2int x" by simp
    also have "\<dots> \<le> foldl (\<lambda>a c. 16 * a + hex2int c) (16 * a + hex2int x) s" by (rule Cons.IH)
    finally show ?case by simp
  qed simp
  have "16 * k + hex2int c < 2 ^ 63" using mono [of "16 * k + hex2int c"] Cons.prems(2) by simp
  then have "\<not> 2 ^ 59 - 1 < int k" by simp
  moreover have "hex2int c \<noteq> 0xFF" using Cons.prems(1) [of c] by simp
  moreover have "int k * 16 + int (hex2int c) = int (16 * k + hex2int c)" by simp
  ultimately show ?case using Cons.IH [of "16 * k + hex2int c"] Cons.prems
    by (simp add: mult.commute [of "int k" 16])
qed

text \<open>The digits of a size, as any sender may write them.\<close>

definition size_digits :: "string \<Rightarrow> bool" where
  "size_digits ds \<longleftrightarrow> (\<forall>c\<in>set ds. hex2int c < 16) \<and> hex_value ds < 2 ^ 63 \<and> length ds < 1000"

lemma te_size_digits: "size_digits ds \<Longrightarrow> te_size (ds @ CR # t) = Some (int (hex_value ds))"
  using te_digits_hex [of ds 0 t] by (simp add: te_size_def size_digits_def hex_value_def)

lemma size_digits_hex: "n < 2 ^ 63 \<Longrightarrow> size_digits (hex_string n) \<and> hex_value (hex_string n) = n"
  using hex_string_length [of n] hex_string_digits hex_value_string [of n] by (auto simp: size_digits_def)

lemma size_digits_zero: "size_digits ''0'' \<and> hex_value ''0'' = 0"
  by (simp add: size_digits_def hex_value_def hex2int_value)

section \<open>One line\<close>

text \<open>A connection between two reads; \<open>keep\<close> says what reading a body does not change.\<close>

definition reading :: "connection \<Rightarrow> bool" where
  "reading con \<longleftrightarrow> text_queue (cn_read_queue con) \<and> fits (stored_bytes (cn_read_queue con))
     \<and> cq_wf (cn_request_content_queue con)"

abbreviation pending_text :: "connection \<Rightarrow> string" where
  "pending_text con \<equiv> queue_text (cn_read_queue con)"

lemma reading_step:
  assumes "reading con" "text_queue cq" "stored_bytes cq \<le> stored_bytes (cn_read_queue con)"
  shows "reading (con\<lparr>cn_read_queue := cq\<rparr>)"
  using assms fits_mono [of "stored_bytes (cn_read_queue con)" "stored_bytes cq"] by (simp add: reading_def)

text \<open>One round of the header loop, with the merge of two chunks made explicit.\<close>

lemma read_chunk_header_step:
  assumes "reading con" "cq_chunks (cn_read_queue con) = c # r"
  shows "read_chunk_header cf con =
     (let s = cstr (mem_text c) in case strchr s LF of
        Some p \<Rightarrow>
          (case te_size s of
             None \<Rightarrow> Some (Inl 400, con)
           | Some te \<Rightarrow>
               if 1024 \<le> p + 1 then Some (Inl 400, con)
               else if te = 0 then map_option (\<lambda>con. (Inr 0, con)) (read_last_chunk cf (p + 1) con)
               else read_data_chunk cf (p + 1) te con)
      | None \<Rightarrow>
          if 1024 \<le> length (mem_text c) then Some (Inl 400, con)
          else (case r of
             [] \<Rightarrow> Some (Inr 0, con)
           | d # r' \<Rightarrow> read_chunk_header cf (con\<lparr>cn_read_queue :=
               snd (the (connection_handle_read_post_cq_compact (cn_read_queue con)))\<rparr>)))"
proof -
  have q: "text_queue (cn_read_queue con)" "fits (stored_bytes (cn_read_queue con))" using assms(1) by (simp_all add: reading_def)
  note c = text_cons [OF q(1) assms(2)]
  show ?thesis
  proof (cases r)
    case Nil
    then show ?thesis using assms(2) c(5) live_cstr [OF c(1), of 0] live_avail(3) [OF c(1)]
      by (subst read_chunk_header.simps)
        (simp add: connection_handle_read_post_cq_compact.simps Let_def split: option.splits)
  next
    case (Cons d r')
    then obtain cq' where "connection_handle_read_post_cq_compact (cn_read_queue con) = Some (True, cq')"
      using compact_text [OF q(1) _ q(2)] assms(2) by blast
    then show ?thesis using assms(2) c(5) live_cstr [OF c(1), of 0] live_avail(3) [OF c(1)] Cons
      by (subst read_chunk_header.simps) (simp add: Let_def split: option.splits)
  qed
qed

text \<open>Merging is what the loop does, and it changes the chunks only.\<close>

lemma merged:
  assumes "reading con" "cq_chunks (cn_read_queue con) = c # d # r"
  shows "\<exists>con' d'. con' = con\<lparr>cn_read_queue := snd (the (connection_handle_read_post_cq_compact (cn_read_queue con)))\<rparr>
    \<and> reading con' \<and> cq_chunks (cn_read_queue con') = d' # r \<and> mem_text d' = mem_text c @ mem_text d
    \<and> pending_text con' = pending_text con \<and> stored_bytes (cn_read_queue con') \<le> stored_bytes (cn_read_queue con)"
proof -
  have q: "text_queue (cn_read_queue con)" "fits (stored_bytes (cn_read_queue con))" using assms(1) by (simp_all add: reading_def)
  obtain cq' d' where c: "connection_handle_read_post_cq_compact (cn_read_queue con) = Some (True, cq')" "text_queue cq'"
      "cq_chunks cq' = d' # r" "mem_text d' = mem_text c @ mem_text d" "queue_text cq' = pending_text con"
      "stored_bytes cq' \<le> stored_bytes (cn_read_queue con)"
    using compact_text [OF q(1) assms(2) q(2)] by blast
  then show ?thesis using reading_step [OF assms(1) c(2,6)] by simp
qed

text \<open>What is to come starts with a line \<open>h\<close>; the queue holds the whole line or less.\<close>

lemma line_cases:
  assumes "x @ y @ z = h @ w"
  obtains (whole) t where "x = h @ t" | (part) u where "h = x @ u" "u \<noteq> []"
proof -
  from assms obtain v where "x = h @ v \<or> h = x @ v" by (auto simp: append_eq_append_conv2)
  then show thesis using that by (cases "v = []") auto
qed

lemma line_whole:
  assumes "x @ y = h @ z" "length h \<le> length x"
  obtains t where "x = h @ t" "t @ y = z"
proof -
  have "take (length h) x = h" using arg_cong [OF assms(1), of "take (length h)"] assms(2) by simp
  then have "x = h @ drop (length h) x" by (metis append_take_drop_id)
  then show thesis using that [of "drop (length h) x"] assms(1) by (metis append.assoc same_append_eq)
qed

definition size_line :: "string \<Rightarrow> string" where
  "size_line ds = ds @ CRLF"

lemma size_line:
  assumes "size_digits ds"
  shows "NUL \<notin> set (size_line ds)" "size_line ds = butlast (size_line ds) @ [LF]" "LF \<notin> set (butlast (size_line ds))"
    "2 \<le> length (size_line ds)" "length (size_line ds) < 1002" "te_size (size_line ds @ t) = Some (int (hex_value ds))"
proof -
  have "\<not> hex2int NUL < 16" "\<not> hex2int LF < 16" by (simp_all add: hex2int_value)
  then have "NUL \<notin> set ds" "LF \<notin> set ds" using assms unfolding size_digits_def by blast+
  then show "NUL \<notin> set (size_line ds)" "size_line ds = butlast (size_line ds) @ [LF]" "LF \<notin> set (butlast (size_line ds))"
    by (auto simp: size_line_def butlast_append)
  show "2 \<le> length (size_line ds)" "length (size_line ds) < 1002"
    using assms by (simp_all add: size_line_def size_digits_def)
  show "te_size (size_line ds @ t) = Some (int (hex_value ds))" using te_size_digits [OF assms] by (simp add: size_line_def)
qed

lemma cstr_after: "NUL \<notin> set s \<Longrightarrow> cstr (s @ t) = s @ cstr t"
  by (induction s) (auto simp: cstr_def)

lemma header_step_whole:
  assumes "reading con" "cq_chunks (cn_read_queue con) = c # r" "size_digits ds" "mem_text c = size_line ds @ t"
  shows "read_chunk_header cf con =
    (if hex_value ds = 0 then map_option (\<lambda>con. (Inr 0, con)) (read_last_chunk cf (length (size_line ds)) con)
     else read_data_chunk cf (length (size_line ds)) (int (hex_value ds)) con)"
proof -
  note sl = size_line [OF assms(3)]
  have cs: "cstr (mem_text c) = size_line ds @ cstr t"
    unfolding assms(4) by (rule cstr_after [OF sl(1)])
  obtain p where p: "length (size_line ds) = p + 1" "length (butlast (size_line ds)) = p"
    using sl(4) by (cases "length (size_line ds)") auto
  have "strchr (cstr (mem_text c)) LF = Some p"
    unfolding cs p(2) [symmetric] by (subst sl(2)) (use strchr_first [OF sl(3), of "cstr t"] in simp)
  moreover have "p + 1 < 1024" using sl(5) p(1) by simp
  moreover have "te_size (cstr (mem_text c)) = Some (int (hex_value ds))" unfolding cs by (rule sl(6))
  ultimately show ?thesis using read_chunk_header_step [OF assms(1,2), of cf] unfolding p(1) by (auto simp: Let_def)
qed

lemma header_part:
  assumes "mem_text c @ u = size_line ds" "u \<noteq> []" "size_digits ds"
  shows "strchr (cstr (mem_text c)) LF = None" "length (mem_text c) < 1024"
proof -
  note sl = size_line [OF assms(3)]
  have "mem_text c @ butlast u = butlast (size_line ds)" using assms(1,2) by (metis butlast_append)
  then have "LF \<notin> set (mem_text c)" using sl(3) by (metis Un_iff set_append)
  moreover have "NUL \<notin> set (mem_text c)" using sl(1) assms(1) by (metis Un_iff set_append)
  ultimately show "strchr (cstr (mem_text c)) LF = None" by (simp add: strchr_def)
  show "length (mem_text c) < 1024" using sl(5) arg_cong [OF assms(1), of length] by simp
qed

definition merge_step :: "connection \<Rightarrow> connection \<Rightarrow> bool" where
  "merge_step con con' \<longleftrightarrow> reading con' \<and> pending_text con' = pending_text con
     \<and> con' = con\<lparr>cn_read_queue := cn_read_queue con'\<rparr>
     \<and> stored_bytes (cn_read_queue con') \<le> stored_bytes (cn_read_queue con)"

lemma merge_step_refl: "reading con \<Longrightarrow> merge_step con con"
  by (simp add: merge_step_def)

lemma merge_step_trans: "merge_step a b \<Longrightarrow> merge_step b c \<Longrightarrow> merge_step a c"
proof -
  assume m: "merge_step a b" "merge_step b c"
  have b: "b = a\<lparr>cn_read_queue := cn_read_queue b\<rparr>" and c: "c = b\<lparr>cn_read_queue := cn_read_queue c\<rparr>"
    using m unfolding merge_step_def by blast+
  have "c = a\<lparr>cn_read_queue := cn_read_queue c\<rparr>" by (subst c, subst b) simp
  then show ?thesis using m by (simp add: merge_step_def)
qed

lemma merge_same:
  assumes "merge_step con con'"
  shows "cn_request_content_queue con' = cn_request_content_queue con" "cn_content_length con' = cn_content_length con"
    "cn_te_chunked con' = cn_te_chunked con" "reading con'" "pending_text con' = pending_text con"
proof -
  have e: "con' = con\<lparr>cn_read_queue := cn_read_queue con'\<rparr>" using assms unfolding merge_step_def by blast
  show "cn_request_content_queue con' = cn_request_content_queue con" "cn_content_length con' = cn_content_length con"
    "cn_te_chunked con' = cn_te_chunked con" by (subst e, simp)+
qed (use assms in \<open>simp_all add: merge_step_def\<close>)

text \<open>
  The header loop: chunks are merged until the first one has the whole line, or there is no
  further chunk.
\<close>

lemma read_chunk_header_line:
  assumes "reading con" "pending_text con @ y = size_line ds @ w" "size_digits ds"
  shows "(length (pending_text con) < length (size_line ds)
      \<and> (\<exists>con'. read_chunk_header cf con = Some (Inr 0, con') \<and> merge_step con con'))
    \<or> (\<exists>con' c r t. read_chunk_header cf con = read_chunk_header cf con' \<and> merge_step con con'
          \<and> cq_chunks (cn_read_queue con') = c # r \<and> mem_text c = size_line ds @ t)"
  using assms
proof (induction "length (cq_chunks (cn_read_queue con))" arbitrary: con)
  case 0
  then show ?case using size_line(4) [OF assms(3)]
    by (subst (1 2) read_chunk_header.simps) (auto simp: queue_text_def merge_step_refl)
next
  case (Suc k)
  then obtain c r where c: "cq_chunks (cn_read_queue con) = c # r" by (cases "cq_chunks (cn_read_queue con)") auto
  have tq: "text_queue (cn_read_queue con)" using Suc.prems(1) by (simp add: reading_def)
  note t = text_cons [OF tq c]
  have "mem_text c @ concat (map mem_text r) @ y = size_line ds @ w" using Suc.prems(2) t(2) by simp
  then show ?case
  proof (cases rule: line_cases)
    case (whole t')
    then show ?thesis using merge_step_refl [OF Suc.prems(1)] c by (intro disjI2 exI [of _ con]) auto
  next
    case (part u)
    note hp = header_part [OF part(1) [symmetric] part(2) assms(3)]
    show ?thesis
    proof (cases r)
      case Nil
      have "length (pending_text con) < length (size_line ds)" using t(2) Nil part by simp
      then show ?thesis using read_chunk_header_step [OF Suc.prems(1) c, of cf] hp Nil merge_step_refl [OF Suc.prems(1)]
        by (intro disjI1 conjI exI [of _ con]) (auto simp: Let_def)
    next
      case (Cons d r')
      obtain con1 d' where con1: "con1 = con\<lparr>cn_read_queue := snd (the (connection_handle_read_post_cq_compact (cn_read_queue con)))\<rparr>"
          "reading con1" "cq_chunks (cn_read_queue con1) = d' # r'" "pending_text con1 = pending_text con"
          "stored_bytes (cn_read_queue con1) \<le> stored_bytes (cn_read_queue con)"
        using merged [OF Suc.prems(1)] c Cons by metis
      have e: "read_chunk_header cf con = read_chunk_header cf con1"
        using read_chunk_header_step [OF Suc.prems(1) c, of cf] hp Cons con1(1) by (simp add: Let_def)
      have m: "merge_step con con1" using con1 by (simp add: merge_step_def)
      have "k = length (cq_chunks (cn_read_queue con1))" using Suc.hyps(2) c Cons con1(3) by simp
      note IH = Suc.hyps(1) [OF this con1(2) _ assms(3)]
      have "pending_text con1 @ y = size_line ds @ w" using Suc.prems(2) con1(4) by simp
      from IH [OF this] show ?thesis unfolding e con1(4) using merge_step_trans [OF m] by blast
    qed
  qed
qed

section \<open>The last chunk\<close>

text \<open>A queue with the same text in fewer chunks.\<close>

definition same_text :: "chunkqueue \<Rightarrow> chunkqueue \<Rightarrow> bool" where
  "same_text cq cq' \<longleftrightarrow> text_queue cq' \<and> queue_text cq' = queue_text cq \<and> stored_bytes cq' \<le> stored_bytes cq
     \<and> cq_bytes_in cq' = cq_bytes_in cq \<and> cq_bytes_out cq' = cq_bytes_out cq"

lemma same_text_refl: "text_queue cq \<Longrightarrow> same_text cq cq"
  by (simp add: same_text_def)

lemma same_text_trans: "same_text a b \<Longrightarrow> same_text b c \<Longrightarrow> same_text a c"
  by (simp add: same_text_def)

lemma find_trailer_step:
  assumes "text_queue cq" "fits (stored_bytes cq)" "cq_chunks cq = c # r" "hsz \<le> length (mem_text c)"
  obtains (found) p where "strstr (cstr (drop hsz (mem_text c))) (CRLF @ CRLF) = Some p"
      "find_trailer_end hsz cq = Some (Some (hsz + p), cq)" "hsz + p + 4 \<le> length (mem_text c)"
    | (none) "strstr (cstr (drop hsz (mem_text c))) (CRLF @ CRLF) = None" "r = []" "find_trailer_end hsz cq = Some (None, cq)"
        "mem_text c = queue_text cq"
    | (more) d r' cq' d' where "strstr (cstr (drop hsz (mem_text c))) (CRLF @ CRLF) = None" "r = d # r'" "same_text cq cq'"
        "cq_chunks cq' = d' # r'" "mem_text d' = mem_text c @ mem_text d" "find_trailer_end hsz cq = find_trailer_end hsz cq'"
proof -
  note c = text_cons [OF assms(1,3)]
  note s = live_cstr [OF c(1) assms(4)]
  show thesis
  proof (cases "strstr (cstr (drop hsz (mem_text c))) (CRLF @ CRLF)")
    case (Some p)
    have "p + 4 \<le> length (cstr (drop hsz (mem_text c)))" using strstr_Some [OF Some] by simp
    also have "\<dots> \<le> length (mem_text c) - hsz" using length_cstr [of "drop hsz (mem_text c)"] by simp
    finally have "hsz + p + 4 \<le> length (mem_text c)" using assms(4) by simp
    moreover have "find_trailer_end hsz cq = Some (Some (hsz + p), cq)"
      using Some s assms(3) by (subst find_trailer_end.simps) simp
    ultimately show thesis by (rule found [OF Some, rotated])
  next
    case None
    show thesis
    proof (cases r)
      case Nil
      then have "find_trailer_end hsz cq = Some (None, cq)"
        using None s assms(3) by (subst find_trailer_end.simps) (simp add: connection_handle_read_post_cq_compact.simps)
      moreover have "mem_text c = queue_text cq" using c(2) Nil by simp
      ultimately show thesis by (rule none [OF None Nil])
    next
      case (Cons d r')
      obtain cq' d' where cq': "connection_handle_read_post_cq_compact cq = Some (True, cq')" "text_queue cq'"
          "cq_chunks cq' = d' # r'" "mem_text d' = mem_text c @ mem_text d" "queue_text cq' = queue_text cq"
          "stored_bytes cq' \<le> stored_bytes cq" "cq_bytes_in cq' = cq_bytes_in cq" "cq_bytes_out cq' = cq_bytes_out cq"
        using compact_text [OF assms(1) _ assms(2)] assms(3) Cons by blast
      have "find_trailer_end hsz cq = find_trailer_end hsz cq'"
        using None s assms(3) cq'(1) by (subst find_trailer_end.simps) simp
      moreover have "same_text cq cq'" using cq' by (simp add: same_text_def)
      ultimately show thesis using more [OF None Cons _ cq'(3,4)] by blast
    qed
  qed
qed

definition trailer_found :: "nat \<Rightarrow> string \<Rightarrow> nat option \<Rightarrow> chunkqueue \<Rightarrow> bool" where
  "trailer_found hsz txt p cq \<longleftrightarrow> cq_chunks cq \<noteq> [] \<and>
     (case p of Some p \<Rightarrow> hsz \<le> p \<and> p + 4 \<le> length txt | None \<Rightarrow> \<exists>c. cq_chunks cq = [c] \<and> mem_text c = txt)"

lemma find_trailer_end_ok:
  assumes "text_queue cq" "fits (stored_bytes cq)" "cq_chunks cq = c # r" "hsz \<le> length (mem_text c)"
  shows "\<exists>p cq'. find_trailer_end hsz cq = Some (p, cq') \<and> same_text cq cq' \<and> trailer_found hsz (queue_text cq) p cq'"
  using assms
proof (induction r arbitrary: cq c)
  case Nil
  have q: "queue_text cq = mem_text c" using text_cons(2) [OF Nil(1,3)] by simp
  show ?case
  proof (rule find_trailer_step [OF Nil])
    fix p assume f: "find_trailer_end hsz cq = Some (Some (hsz + p), cq)" "hsz + p + 4 \<le> length (mem_text c)"
    then have "trailer_found hsz (queue_text cq) (Some (hsz + p)) cq" using Nil(3) q by (simp add: trailer_found_def)
    then show ?thesis using f(1) same_text_refl [OF Nil(1)] by blast
  next
    assume f: "find_trailer_end hsz cq = Some (None, cq)"
    have "trailer_found hsz (queue_text cq) None cq" using Nil(3) q by (simp add: trailer_found_def)
    then show ?thesis using f same_text_refl [OF Nil(1)] by blast
  qed simp
next
  case (Cons d r)
  show ?case
  proof (rule find_trailer_step [OF Cons.prems])
    fix p assume f: "find_trailer_end hsz cq = Some (Some (hsz + p), cq)" "hsz + p + 4 \<le> length (mem_text c)"
    then have "trailer_found hsz (queue_text cq) (Some (hsz + p)) cq"
      using Cons.prems(3) text_cons(2) [OF Cons.prems(1,3)] by (simp add: trailer_found_def)
    then show ?thesis using f(1) same_text_refl [OF Cons.prems(1)] by blast
  next
    fix d0 r' cq' d' assume m: "d # r = d0 # r'" "same_text cq cq'" "cq_chunks cq' = d' # r'"
      "mem_text d' = mem_text c @ mem_text d0" "find_trailer_end hsz cq = find_trailer_end hsz cq'"
    have f: "fits (stored_bytes cq')" using m(2) fits_mono [OF Cons.prems(2)] by (simp add: same_text_def)
    have q: "text_queue cq'" "queue_text cq' = queue_text cq" using m(2) by (simp_all add: same_text_def)
    have r: "cq_chunks cq' = d' # r" "hsz \<le> length (mem_text d')" using m(1,3,4) Cons.prems(4) by simp_all
    show ?thesis
      using Cons.IH [OF q(1) f r] same_text_trans [OF m(2)] unfolding m(5) q(2) by blast
  qed simp
qed

text \<open>The end of the trailers right behind the line of the last chunk.\<close>

lemma find_trailer_end_here:
  assumes "text_queue cq" "fits (stored_bytes cq)" "cq_chunks cq = c # r" "hsz \<le> length (mem_text c)"
    "drop hsz (queue_text cq) = CRLF @ CRLF @ t"
  shows "\<exists>cq'. find_trailer_end hsz cq = Some (Some hsz, cq') \<and> same_text cq cq'"
  using assms
proof (induction r arbitrary: cq c)
  case Nil
  have e: "drop hsz (mem_text c) = (CRLF @ CRLF) @ t" using Nil(5) text_cons(2) [OF Nil(1,3)] by simp
  have "strstr (cstr (drop hsz (mem_text c))) (CRLF @ CRLF) = Some 0"
    unfolding e using strstr_here [of "CRLF @ CRLF" "cstr t"] cstr_after [of "CRLF @ CRLF" t] by simp
  then show ?case
    using find_trailer_step [OF Nil(1-4), of ?case] same_text_refl [OF Nil(1)] by fastforce
next
  case (Cons d r)
  have qt: "queue_text cq = mem_text c @ concat (map mem_text (d # r))" by (rule text_cons(2) [OF Cons.prems(1,3)])
  show ?case
  proof (cases "hsz + 4 \<le> length (mem_text c)")
    case True
    have "take 4 (drop hsz (mem_text c)) = take 4 (drop hsz (queue_text cq))" using True Cons.prems(4) by (simp add: qt)
    then have "take 4 (drop hsz (mem_text c)) = CRLF @ CRLF" using Cons.prems(5) by simp
    then obtain t' where e: "drop hsz (mem_text c) = (CRLF @ CRLF) @ t'" by (metis append_take_drop_id)
    have "strstr (cstr (drop hsz (mem_text c))) (CRLF @ CRLF) = Some 0"
      unfolding e using strstr_here [of "CRLF @ CRLF" "cstr t'"] cstr_after [of "CRLF @ CRLF" t'] by simp
    then show ?thesis
      using find_trailer_step [OF Cons.prems(1-4), of ?thesis] same_text_refl [OF Cons.prems(1)] by fastforce
  next
    case False
    have "length (cstr (drop hsz (mem_text c))) < length (CRLF @ CRLF)"
      using False length_cstr [of "drop hsz (mem_text c)"] Cons.prems(4) by simp
    then have none: "strstr (cstr (drop hsz (mem_text c))) (CRLF @ CRLF) = None" by (rule strstr_short)
    show ?thesis
    proof (rule find_trailer_step [OF Cons.prems(1-4)])
      fix d0 r' cq' d' assume m: "d # r = d0 # r'" "same_text cq cq'" "cq_chunks cq' = d' # r'"
        "mem_text d' = mem_text c @ mem_text d0" "find_trailer_end hsz cq = find_trailer_end hsz cq'"
      have "fits (stored_bytes cq')" using m(2) fits_mono [OF Cons.prems(2)] by (simp add: same_text_def)
      moreover have "text_queue cq'" "queue_text cq' = queue_text cq" using m(2) by (simp_all add: same_text_def)
      moreover have "r' = r" "hsz \<le> length (mem_text d')" using m(1,4) Cons.prems(4) by simp_all
      ultimately obtain cq2 where "find_trailer_end hsz cq' = Some (Some hsz, cq2)" "same_text cq' cq2"
        using Cons.IH [of cq' d'] Cons.prems(5) m(3) by auto
      then show ?thesis unfolding m(5) using same_text_trans [OF m(2)] by blast
    qed (use none in simp_all)
  qed
qed


lemma fits_step: "fits (stored_bytes q) \<Longrightarrow> stored_bytes q' \<le> stored_bytes q \<Longrightarrow> fits (stored_bytes q')"
  by (rule fits_mono)

lemma read_last_chunk_here:
  assumes "reading con" "cq_chunks (cn_read_queue con) = c # r" "mem_text c = size_line ds @ t" "size_digits ds"
    "pending_text con = size_line ds @ CRLF @ w"
  shows "\<exists>con'. read_last_chunk cf (length (size_line ds)) con = Some con' \<and> reading con' \<and> pending_text con' = w
    \<and> con' = con\<lparr>cn_read_queue := cn_read_queue con', cn_content_length := cq_bytes_in (cn_request_content_queue con)\<rparr>
    \<and> stored_bytes (cn_read_queue con') \<le> stored_bytes (cn_read_queue con)"
proof -
  have q: "text_queue (cn_read_queue con)" "fits (stored_bytes (cn_read_queue con))" using assms(1) by (simp_all add: reading_def)
  have len: "length (size_line ds) = length ds + 2" by (simp add: size_line_def)
  have "length ds \<le> length (mem_text c)" unfolding assms(3) by (simp add: size_line_def)
  moreover have "drop (length ds) (pending_text con) = CRLF @ CRLF @ w" unfolding assms(5) by (simp add: size_line_def)
  ultimately obtain cq where cq: "find_trailer_end (length ds) (cn_read_queue con) = Some (Some (length ds), cq)"
      "same_text (cn_read_queue con) cq"
    using find_trailer_end_here [OF q assms(2)] by blast
  have tq: "text_queue cq" "queue_text cq = pending_text con" using cq(2) by (simp_all add: same_text_def)
  have "length ds + 4 \<le> length (queue_text cq)" unfolding tq(2) assms(5) by (simp add: size_line_def)
  then obtain cq' where cq': "chunkqueue_mark_written cq (int (length ds + 4)) = Some cq'" "text_queue cq'"
      "queue_text cq' = drop (length ds + 4) (pending_text con)" "stored_bytes cq' \<le> stored_bytes cq"
    using mark_written_text [OF tq(1)] tq(2) by metis
  have "queue_text cq' = w" using cq'(3) by (simp add: assms(5) size_line_def)
  then show ?thesis using cq cq' assms(1) fits_step [OF q(2)]
    by (auto simp: read_last_chunk_def len same_text_def reading_def)
qed

lemma read_last_chunk_short:
  assumes "reading con" "cq_chunks (cn_read_queue con) = c # r" "mem_text c = size_line ds @ t"
    "length (pending_text con) < length (size_line ds) + 2" "length (size_line ds) + 1 < cf_max_request_field_size cf"
  shows "\<exists>con'. read_last_chunk cf (length (size_line ds)) con = Some con' \<and> reading con' \<and> pending_text con' = pending_text con
    \<and> con' = con\<lparr>cn_read_queue := cn_read_queue con'\<rparr> \<and> stored_bytes (cn_read_queue con') \<le> stored_bytes (cn_read_queue con)"
proof -
  have q: "text_queue (cn_read_queue con)" "fits (stored_bytes (cn_read_queue con))" using assms(1) by (simp_all add: reading_def)
  have len: "length (size_line ds) = length ds + 2" by (simp add: size_line_def)
  have pl: "length (pending_text con) < length ds + 4" using assms(4) len by simp
  have l0: "length ds \<le> length (mem_text c)" unfolding assms(3) by (simp add: size_line_def)
  obtain p cq where cq: "find_trailer_end (length ds) (cn_read_queue con) = Some (p, cq)" "same_text (cn_read_queue con) cq"
      "trailer_found (length ds) (pending_text con) p cq"
    using find_trailer_end_ok [OF q assms(2) l0] by blast
  show ?thesis
  proof (cases p)
    case None
    then obtain d where d: "cq_chunks cq = [d]" "mem_text d = pending_text con"
      using cq(3) by (auto simp: trailer_found_def)
    have "live d" using cq(2) d(1) by (simp add: same_text_def text_queue_def)
    note a = live_avail(3) [OF this]
    have "reading (con\<lparr>cn_read_queue := cq\<rparr>)" using reading_step [OF assms(1)] cq(2) by (simp add: same_text_def)
    then show ?thesis using cq(1,2) None d a pl assms(5) by (simp add: read_last_chunk_def len same_text_def)
  next
    case (Some p')
    then show ?thesis using cq(3) pl by (simp add: trailer_found_def)
  qed
qed


section \<open>The data of a chunk and its end\<close>

text \<open>Reading changes the two queues and the two counters of the body, and keeps what the body queue has given away.\<close>

definition body_step :: "connection \<Rightarrow> connection \<Rightarrow> bool" where
  "body_step con con' \<longleftrightarrow> reading con'
     \<and> con' = con\<lparr>cn_read_queue := cn_read_queue con', cn_request_content_queue := cn_request_content_queue con',
                  cn_te_chunked := cn_te_chunked con', cn_content_length := cn_content_length con'\<rparr>
     \<and> stored_bytes (cn_read_queue con') \<le> stored_bytes (cn_read_queue con)
     \<and> cq_bytes_out (cn_request_content_queue con') = cq_bytes_out (cn_request_content_queue con)"

lemma body_step_refl: "reading con \<Longrightarrow> body_step con con"
  by (simp add: body_step_def)

lemma body_step_trans: "body_step a b \<Longrightarrow> body_step b c \<Longrightarrow> body_step a c"
proof -
  assume "body_step a b" "body_step b c"
  then have b: "b = a\<lparr>cn_read_queue := cn_read_queue b, cn_request_content_queue := cn_request_content_queue b,
                  cn_te_chunked := cn_te_chunked b, cn_content_length := cn_content_length b\<rparr>"
    and c: "c = b\<lparr>cn_read_queue := cn_read_queue c, cn_request_content_queue := cn_request_content_queue c,
                  cn_te_chunked := cn_te_chunked c, cn_content_length := cn_content_length c\<rparr>"
    unfolding body_step_def by blast+
  have "c = a\<lparr>cn_read_queue := cn_read_queue c, cn_request_content_queue := cn_request_content_queue c,
                  cn_te_chunked := cn_te_chunked c, cn_content_length := cn_content_length c\<rparr>"
    by (subst c, subst b) simp
  then show ?thesis using \<open>body_step a b\<close> \<open>body_step b c\<close> by (simp add: body_step_def)
qed

lemma reading_count:
  "reading con \<Longrightarrow> cq_bytes_in (cn_read_queue con) - cq_bytes_out (cn_read_queue con) = int (length (pending_text con))"
  using text_count by (simp add: reading_def)

abbreviation body_octets :: "connection \<Rightarrow> octet list" where
  "body_octets con \<equiv> cq_octets (cn_request_content_queue con)"

abbreviation body_bytes :: "connection \<Rightarrow> int" where
  "body_bytes con \<equiv> cq_bytes_in (cn_request_content_queue con)"

lemma body_bytes_octets:
  "reading con \<Longrightarrow> body_bytes con = cq_bytes_out (cn_request_content_queue con) + int (length (body_octets con))"
  by (simp add: reading_def cq_wf_def)

lemma read_chunk_data_ok:
  assumes "reading con" "te = int (length s) + 2" "body_bytes con + te \<le> 65536"
    "k = min (length s) (length (pending_text con))" "take k (pending_text con) = take k s"
  shows "\<exists>con'. read_chunk_data e te con = Some (True, te - int k, con', e) \<and> body_step con con'
    \<and> pending_text con' = drop k (pending_text con) \<and> body_octets con' = body_octets con @ map MemByte (take k s)
    \<and> cn_content_length con' = cn_content_length con"
proof (cases "s = []")
  case True
  then show ?thesis using assms body_step_refl [OF assms(1)] by (auto simp: read_chunk_data_def)
next
  case False
  have q: "text_queue (cn_read_queue con)" "fits (stored_bytes (cn_read_queue con))" "cq_wf (cn_request_content_queue con)"
    using assms(1) by (simp_all add: reading_def)
  have k: "min (cq_bytes_in (cn_read_queue con) - cq_bytes_out (cn_read_queue con)) (te - 2) = int k"
    using reading_count [OF assms(1)] assms(2,4) by (simp add: min_def)
  obtain dst cq where s: "chunkqueue_steal (cn_request_content_queue con) (cn_read_queue con) (int k) = Some (dst, cq)"
      "cq_wf dst" "text_queue cq" "cq_octets dst = body_octets con @ map MemByte (take k (pending_text con))"
      "queue_text cq = drop k (pending_text con)" "stored_bytes cq \<le> stored_bytes (cn_read_queue con)"
      "cq_bytes_out dst = cq_bytes_out (cn_request_content_queue con)"
    using steal_text [OF q(1,3,2)] by blast
  let ?con = "con\<lparr>cn_read_queue := cq, cn_request_content_queue := dst\<rparr>"
  have "read_chunk_data e te con = Some (True, te - int k, ?con, e)"
    using False assms(2,3) k s(1) by (simp add: read_chunk_data_def off_add_def Let_def)
  moreover have "body_step con ?con"
    using s q(2) fits_step [OF q(2)] by (simp add: body_step_def reading_def)
  ultimately show ?thesis using s assms(5) by auto
qed

text \<open>The line end, in one chunk or in two.\<close>

lemma crlf_total:
  assumes "text_queue cq"
  shows "\<exists>r. connection_handle_read_post_chunked_crlf cq = Some r"
proof (cases "cq_chunks cq")
  case (Cons c r)
  note c = text_cons [OF assms Cons]
  have "\<exists>v. crlf_in_next r = Some v"
  proof (cases r)
    case (Cons d r')
    then have "live d" using assms \<open>cq_chunks cq = c # r\<close> by (simp add: text_queue_def)
    then show ?thesis using live_peek [of d 0] live_avail [of d] Cons by simp
  qed simp
  moreover have "1 \<le> length (mem_text c)" using c(3) by (cases "mem_text c") auto
  ultimately show ?thesis
    using live_peek [OF c(1), of 0] live_peek [OF c(1), of 1] Cons
    by (auto simp: connection_handle_read_post_chunked_crlf_def)
qed (simp add: connection_handle_read_post_chunked_crlf_def)

lemma crlf_present:
  assumes "text_queue cq" "queue_text cq = CRLF @ t"
  shows "connection_handle_read_post_chunked_crlf cq = Some 1"
proof -
  obtain c r where ch: "cq_chunks cq = c # r" using text_empty [OF assms(1)] assms(2) by (cases "cq_chunks cq") auto
  note c = text_cons [OF assms(1) ch]
  obtain u where u: "mem_text c = CR # u" "u @ concat (map mem_text r) = LF # t"
    using c(2,3) assms(2) by (cases "mem_text c") auto
  have p0: "peek (b_ptr (c_mem c)) (nat (c_offset c)) = Some CR" using live_peek [OF c(1), of 0] u(1) by simp
  show ?thesis
  proof (cases u)
    case (Cons x v)
    then have "peek (b_ptr (c_mem c)) (nat (c_offset c) + 1) = Some LF" using live_peek [OF c(1), of 1] u by simp
    then show ?thesis using p0 ch by (simp add: connection_handle_read_post_chunked_crlf_def)
  next
    case Nil
    then have p1: "peek (b_ptr (c_mem c)) (nat (c_offset c) + 1) = Some NUL" using live_peek [OF c(1), of 1] u by simp
    obtain d r' where d: "r = d # r'" using u(2) Nil by (cases r) auto
    have ld: "live d" using assms(1) ch d by (simp add: text_queue_def)
    then have "hd (mem_text d) = LF" "mem_text d \<noteq> []" using u(2) Nil d by (auto simp: live_def) (cases "mem_text d", auto)
    then have "peek (b_ptr (c_mem d)) (nat (c_offset d)) = Some LF"
      using live_peek [OF ld, of 0] by (cases "mem_text d") auto
    then show ?thesis using p0 p1 ch d live_avail [OF ld] live_avail [OF c(1)] u(1) Nil
      by (simp add: connection_handle_read_post_chunked_crlf_def)
  qed
qed

lemma read_chunk_end_ok:
  assumes "reading con" "pending_text con = CRLF @ t"
  shows "\<exists>con'. read_chunk_end 2 con = Some (Some (0, con')) \<and> body_step con con' \<and> pending_text con' = t
    \<and> body_octets con' = body_octets con \<and> cn_content_length con' = cn_content_length con"
proof -
  have q: "text_queue (cn_read_queue con)" "fits (stored_bytes (cn_read_queue con))" using assms(1) by (simp_all add: reading_def)
  have "2 \<le> length (pending_text con)" unfolding assms(2) by simp
  then obtain cq where cq: "chunkqueue_mark_written (cn_read_queue con) 2 = Some cq" "text_queue cq"
      "queue_text cq = drop 2 (pending_text con)" "stored_bytes cq \<le> stored_bytes (cn_read_queue con)"
    using mark_written_text [OF q(1), of 2] by auto
  have "reading (con\<lparr>cn_read_queue := cq\<rparr>)" by (rule reading_step [OF assms(1) cq(2,4)])
  then show ?thesis using cq crlf_present [OF q(1) assms(2)] assms(2)
    by (simp add: read_chunk_end_def body_step_def)
qed


section \<open>Whole messages\<close>

text \<open>
  A body as it is sent under chunked coding: pieces with the digits of their sizes, and the
  digits of the last size.
\<close>

fun chunked_text :: "(string \<times> string) list \<Rightarrow> string \<Rightarrow> string" where
  "chunked_text [] z = size_line z @ CRLF"
| "chunked_text ((ds, s) # ss) z = size_line ds @ s @ CRLF @ chunked_text ss z"

definition pieces_ok :: "(string \<times> string) list \<Rightarrow> string \<Rightarrow> bool" where
  "pieces_ok ss z \<longleftrightarrow> (\<forall>(ds, s)\<in>set ss. size_digits ds \<and> hex_value ds = length s \<and> s \<noteq> [])
     \<and> size_digits z \<and> hex_value z = 0"

abbreviation body_of :: "(string \<times> string) list \<Rightarrow> string" where
  "body_of ss \<equiv> concat (map snd ss)"

lemma merge_body: "merge_step con con' \<Longrightarrow> body_step con con'"
proof -
  assume m: "merge_step con con'"
  then have e: "con' = con\<lparr>cn_read_queue := cn_read_queue con'\<rparr>" unfolding merge_step_def by blast
  show ?thesis unfolding body_step_def
  proof (intro conjI)
    show "con' = con\<lparr>cn_read_queue := cn_read_queue con', cn_request_content_queue := cn_request_content_queue con',
                  cn_te_chunked := cn_te_chunked con', cn_content_length := cn_content_length con'\<rparr>"
      unfolding merge_same(1-3) [OF m] by (subst e) simp
  qed (use m merge_same(1) [OF m] in \<open>simp_all add: merge_step_def\<close>)
qed

text \<open>
  What is still to come: \<open>s\<close> is left of the current piece, if \<open>te_chunked\<close> says that there is
  one.
\<close>

definition to_come :: "int \<Rightarrow> string \<Rightarrow> (string \<times> string) list \<Rightarrow> string \<Rightarrow> string" where
  "to_come te s ss z = (if te = 0 then chunked_text ss z else s @ CRLF @ chunked_text ss z)"

definition piece_left :: "int \<Rightarrow> string \<Rightarrow> bool" where
  "piece_left te s \<longleftrightarrow> (if te = 0 then s = [] else te = int (length s) + 2)"

definition body_done :: "connection \<Rightarrow> connection \<Rightarrow> string \<Rightarrow> string \<Rightarrow> string \<Rightarrow> bool" where
  "body_done con con' bdy y w \<longleftrightarrow> cn_te_chunked con' = 0 \<and> cn_content_length con' = body_bytes con'
     \<and> body_octets con' = body_octets con @ map MemByte bdy \<and> pending_text con' @ y = w"

definition body_waits :: "connection \<Rightarrow> connection \<Rightarrow> string \<Rightarrow> string \<Rightarrow> string \<Rightarrow> string \<Rightarrow> bool" where
  "body_waits con con' bdy y z w \<longleftrightarrow> cn_content_length con' = cn_content_length con
     \<and> (\<exists>s ss. pieces_ok ss z \<and> piece_left (cn_te_chunked con') s
          \<and> pending_text con' @ y = to_come (cn_te_chunked con') s ss z @ w
          \<and> length (pending_text con') < length (to_come (cn_te_chunked con') s ss z)
          \<and> body_octets con' @ map MemByte (s @ body_of ss) = body_octets con @ map MemByte bdy)"

text \<open>
  The message fits: the body stays in memory, is within the limit of the request, and the
  trailers within the limit of a header.
\<close>

definition body_fits :: "con_conf \<Rightarrow> connection \<Rightarrow> string \<Rightarrow> string \<Rightarrow> bool" where
  "body_fits cf con bdy z \<longleftrightarrow> body_bytes con + int (length bdy) + 2 \<le> 65536
     \<and> (cf_max_request_size cf = 0 \<or> body_bytes con + int (length bdy) \<le> int (cf_max_request_size cf) * 1024)
     \<and> length (size_line z) + 1 < cf_max_request_field_size cf"

lemma read_data_chunk_ok:
  assumes "reading con" "pending_text con = h @ t" "length h = hsz" "0 < n" "n < 2 ^ 62"
    "cf_max_request_size cf = 0 \<or> body_bytes con + n \<le> int (cf_max_request_size cf) * 1024"
    "0 \<le> body_bytes con"
  shows "\<exists>con'. read_data_chunk cf hsz n con = Some (Inr (n + 2), con') \<and> body_step con con'
    \<and> pending_text con' = t \<and> cn_request_content_queue con' = cn_request_content_queue con
    \<and> cn_content_length con' = cn_content_length con \<and> cn_te_chunked con' = cn_te_chunked con"
proof -
  have q: "text_queue (cn_read_queue con)" "fits (stored_bytes (cn_read_queue con))" using assms(1) by (simp_all add: reading_def)
  have "hsz \<le> length (pending_text con)" using assms(2,3) by simp
  then obtain cq where cq: "chunkqueue_mark_written (cn_read_queue con) (int hsz) = Some cq" "text_queue cq"
      "queue_text cq = drop hsz (pending_text con)" "stored_bytes cq \<le> stored_bytes (cn_read_queue con)"
    using mark_written_text [OF q(1)] by blast
  have "reading (con\<lparr>cn_read_queue := cq\<rparr>)" by (rule reading_step [OF assms(1) cq(2,4)])
  then show ?thesis using cq assms(2-7)
    by (auto simp: read_data_chunk_def body_step_def off_add_def Let_def)
qed

text \<open>The header of the next chunk: it is consumed, or the message is over, or more has to come.\<close>

lemma header_stage:
  assumes "reading con" "pieces_ok ss z" "pending_text con @ y = chunked_text ss z @ w"
    "body_fits cf con (body_of ss) z" "0 \<le> body_bytes con"
  obtains (wait) con' where "read_chunk_header cf con = Some (Inr 0, con')" "body_step con con'"
      "pending_text con' = pending_text con" "cn_request_content_queue con' = cn_request_content_queue con"
      "cn_content_length con' = cn_content_length con"
      "length (pending_text con) < length (chunked_text ss z)"
    | (over) con' where "read_chunk_header cf con = Some (Inr 0, con')" "body_step con con'" "ss = []"
      "pending_text con' @ y = w" "cn_request_content_queue con' = cn_request_content_queue con"
      "cn_content_length con' = body_bytes con"
    | (piece) con' ds s ss' where "read_chunk_header cf con = Some (Inr (int (length s) + 2), con')" "body_step con con'"
      "ss = (ds, s) # ss'" "s \<noteq> []" "pending_text con' @ y = s @ CRLF @ chunked_text ss' z @ w"
      "length (pending_text con') < length (pending_text con)"
      "cn_request_content_queue con' = cn_request_content_queue con"
      "cn_content_length con' = cn_content_length con"
proof -
  obtain ds v where v: "chunked_text ss z = size_line ds @ v" "size_digits ds"
      "ss = [] \<and> ds = z \<and> v = CRLF \<and> hex_value ds = 0
       \<or> (\<exists>s ss'. ss = (ds, s) # ss' \<and> v = s @ CRLF @ chunked_text ss' z \<and> hex_value ds = length s \<and> s \<noteq> [])"
    using assms(2) by (cases ss) (auto simp: pieces_ok_def)
  have p: "pending_text con @ y = size_line ds @ v @ w" using assms(3) v(1) by simp
  have vl: "2 \<le> length v" using v(3) by auto
  show thesis
  proof (cases "length (pending_text con) < length (size_line ds) + (if ss = [] then 2 else 0)")
    case short: True
    have "length (chunked_text ss z) \<ge> length (size_line ds) + 2" using v(1) vl by simp
    then have l: "length (pending_text con) < length (chunked_text ss z)" using short by (auto split: if_splits)
    from read_chunk_header_line [OF assms(1) p v(2), of cf] show thesis
    proof (elim disjE conjE exE)
      fix con' assume c: "read_chunk_header cf con = Some (Inr 0, con')" "merge_step con con'"
      then show thesis using wait [OF c(1) merge_body [OF c(2)]] merge_same [OF c(2)] l by blast
    next
      fix con' c r t assume c: "read_chunk_header cf con = read_chunk_header cf con'" "merge_step con con'"
        "cq_chunks (cn_read_queue con') = c # r" "mem_text c = size_line ds @ t"
      have r': "reading con'" "pending_text con' = pending_text con" using c(2) by (simp_all add: merge_step_def)
      have tq: "text_queue (cn_read_queue con')" using r'(1) by (simp add: reading_def)
      have "length (size_line ds) \<le> length (pending_text con)"
        using text_cons(2) [OF tq c(3)] c(4) r'(2) by (metis append.assoc le_add1 length_append)
      then have ss: "ss = []" using short by (auto split: if_splits)
      then have z: "hex_value ds = 0" "ds = z" using v(3) by auto
      have "length (size_line ds) + 1 < cf_max_request_field_size cf" using assms(4) z by (simp add: body_fits_def)
      moreover have "length (pending_text con') < length (size_line ds) + 2" using short ss r'(2) by simp
      ultimately obtain con2 where l2: "read_last_chunk cf (length (size_line ds)) con' = Some con2" "reading con2"
          "pending_text con2 = pending_text con'" "con2 = con'\<lparr>cn_read_queue := cn_read_queue con2\<rparr>"
          "stored_bytes (cn_read_queue con2) \<le> stored_bytes (cn_read_queue con')"
        using read_last_chunk_short [OF r'(1) c(3,4)] by blast
      have m: "merge_step con con2"
        using merge_step_trans [OF c(2)] l2 unfolding merge_step_def by blast
      have "read_chunk_header cf con = Some (Inr 0, con2)"
        using header_step_whole [OF r'(1) c(3) v(2) c(4), of cf] z l2(1) c(1) by simp
      then show thesis using wait [OF _ merge_body [OF m]] merge_same [OF m] l by blast
    qed
  next
    case long: False
    from read_chunk_header_line [OF assms(1) p v(2), of cf] obtain con' c r t where
      c: "read_chunk_header cf con = read_chunk_header cf con'" "merge_step con con'"
        "cq_chunks (cn_read_queue con') = c # r" "mem_text c = size_line ds @ t"
      using long by (auto split: if_splits)
    have r': "reading con'" "pending_text con' = pending_text con" using c(2) by (simp_all add: merge_step_def)
    note hs = header_step_whole [OF r'(1) c(3) v(2) c(4), of cf]
    have pp: "pending_text con' @ y = size_line ds @ v @ w" using p r'(2) by simp
    have "length (size_line ds) \<le> length (pending_text con')" using long r'(2) by simp
    then obtain t' where t': "pending_text con' = size_line ds @ t'" "t' @ y = v @ w" using line_whole [OF pp] by blast
    note ms = merge_same [OF c(2)] and mb = merge_body [OF c(2)]
    from v(3) show thesis
    proof (elim disjE conjE exE)
      assume e: "ss = []" "ds = z" "v = CRLF" "hex_value ds = 0"
      have "length CRLF \<le> length t'" using long e(1) t'(1) r'(2) by simp
      then obtain u where u: "t' = CRLF @ u" "u @ y = w" using line_whole [OF t'(2) [unfolded e(3)]] by blast
      obtain con2 where l2: "read_last_chunk cf (length (size_line ds)) con' = Some con2" "reading con2" "pending_text con2 = u"
          "con2 = con'\<lparr>cn_read_queue := cn_read_queue con2, cn_content_length := body_bytes con'\<rparr>"
          "stored_bytes (cn_read_queue con2) \<le> stored_bytes (cn_read_queue con')"
        using read_last_chunk_here [OF r'(1) c(3,4) v(2)] t'(1) u(1) by blast
      have f: "cn_request_content_queue con2 = cn_request_content_queue con'" "cn_te_chunked con2 = cn_te_chunked con'"
        "cn_content_length con2 = body_bytes con'" by (subst l2(4), simp)+
      have "body_step con' con2" unfolding body_step_def f using l2(2,4,5) by simp
      then have "body_step con con2" using body_step_trans [OF mb] by blast
      moreover have "read_chunk_header cf con = Some (Inr 0, con2)" using hs e(4) l2(1) c(1) by simp
      ultimately show thesis using over [of con2] e(1) l2(3) u(2) f ms(1) by simp
    next
      fix s ss' assume e: "ss = (ds, s) # ss'" "v = s @ CRLF @ chunked_text ss' z" "hex_value ds = length s" "s \<noteq> []"
      have n: "0 < int (length s)" "int (length s) < 2 ^ 62" using e(1,4) assms(4,5) by (simp_all add: body_fits_def)
      have lim: "cf_max_request_size cf = 0 \<or> body_bytes con' + int (length s) \<le> int (cf_max_request_size cf) * 1024"
        using assms(4) e(1) ms(1) by (auto simp: body_fits_def)
      obtain con2 where d2: "read_data_chunk cf (length (size_line ds)) (int (length s)) con' = Some (Inr (int (length s) + 2), con2)"
          "body_step con' con2" "pending_text con2 = t'" "cn_request_content_queue con2 = cn_request_content_queue con'"
          "cn_content_length con2 = cn_content_length con'"
        using read_data_chunk_ok [OF r'(1) t'(1) refl n lim] assms(5) ms(1) by auto
      have "read_chunk_header cf con = Some (Inr (int (length s) + 2), con2)" using hs e(3,4) d2(1) c(1) by simp
      moreover have "length (pending_text con2) < length (pending_text con)"
        using d2(3) t'(1) r'(2) size_line(4) [OF v(2)] by (metis add_less_cancel_right add_0 length_append less_le_trans zero_less_numeral)
      ultimately show thesis
        using piece [OF _ body_step_trans [OF mb d2(2)] e(1,4)] t'(2) e(2) d2(3-5) ms(1,2) by simp
    qed
  qed
qed


text \<open>The loop as a whole.\<close>

lemma body_octets_same: "cn_request_content_queue a = cn_request_content_queue b \<Longrightarrow> body_octets a = body_octets b"
  by simp

text \<open>With part of a piece to come: its data, and then its line end.\<close>

lemma piece_stage:
  assumes "reading con" "te = int (length s) + 2" "pending_text con @ y = s @ CRLF @ v" "body_bytes con + te \<le> 65536"
  obtains (wait) con' s' where "\<And>cf. read_chunks cf e te con = Some (HANDLER_GO_ON, con', e)" "body_step con con'"
      "cn_te_chunked con' = int (length s') + 2" "pending_text con' @ y = s' @ CRLF @ v"
      "length (pending_text con') < length s' + 2"
      "body_octets con' @ map MemByte s' = body_octets con @ map MemByte s" "cn_content_length con' = cn_content_length con"
    | (more) con' where "\<And>cf. read_chunks cf e te con =
        (if cq_chunks (cn_read_queue con') = [] then Some (HANDLER_GO_ON, con'\<lparr>cn_te_chunked := 0\<rparr>, e)
         else read_chunks cf e 0 con')" "body_step con con'"
      "pending_text con' @ y = v" "length (pending_text con') < length (pending_text con)"
      "body_octets con' = body_octets con @ map MemByte s" "cn_content_length con' = cn_content_length con"
proof -
  define k where "k = min (length s) (length (pending_text con))"
  have tk: "take k (pending_text con) = take k s"
    using arg_cong [OF assms(3), of "take k"] by (simp add: k_def)
  obtain con1 where d: "read_chunk_data e te con = Some (True, te - int k, con1, e)" "body_step con con1"
      "pending_text con1 = drop k (pending_text con)" "body_octets con1 = body_octets con @ map MemByte (take k s)"
      "cn_content_length con1 = cn_content_length con"
    using read_chunk_data_ok [OF assms(1,2,4) k_def tk] by blast
  have r1: "reading con1" using d(2) by (simp add: body_step_def)
  have p1: "pending_text con1 @ y = drop k s @ CRLF @ v"
    using arg_cong [OF assms(3), of "drop k"] d(3) by (simp add: k_def)
  have te1: "te - int k = int (length (drop k s)) + 2" using assms(2) by (simp add: k_def of_nat_diff)
  have te0: "te \<noteq> 0" using assms(2) by simp
  note rc = reading_count [OF r1]
  show thesis
  proof (cases "int (length (pending_text con1)) < te - int k")
    case True
    let ?con = "con1\<lparr>cn_te_chunked := te - int k\<rparr>"
    have "read_chunks cf e te con = Some (HANDLER_GO_ON, ?con, e)" for cf
      using te0 d(1) rc True by (subst read_chunks.simps) simp
    moreover have "body_step con1 ?con" using r1 by (simp add: body_step_def reading_def)
    then have "body_step con ?con" using body_step_trans [OF d(2)] by blast
    moreover have "length (pending_text con1) < length (drop k s) + 2" using True te1 by linarith
    ultimately show thesis using wait [of ?con "drop k s"] te1 p1 d(4,5) by (simp flip: map_append)
  next
    case False
    have "drop k s = []"
    proof (rule ccontr)
      assume "drop k s \<noteq> []"
      then have "k < length s" by simp
      then have "pending_text con1 = []" using d(3) by (simp add: k_def min_def split: if_splits)
      then show False using False te1 by simp
    qed
    then have ks: "take k s = s" "te - int k = 2" using te1 by simp_all
    have "length CRLF \<le> length (pending_text con1)" using False ks(2) by simp
    then obtain t where t: "pending_text con1 = CRLF @ t" "t @ y = v"
      using line_whole [of "pending_text con1" y CRLF v] p1 \<open>drop k s = []\<close> by auto
    obtain con2 where c2: "read_chunk_end 2 con1 = Some (Some (0, con2))" "body_step con1 con2" "pending_text con2 = t"
        "body_octets con2 = body_octets con1" "cn_content_length con2 = cn_content_length con1"
      using read_chunk_end_ok [OF r1 t(1)] by blast
    have "read_chunks cf e te con =
        (if cq_chunks (cn_read_queue con2) = [] then Some (HANDLER_GO_ON, con2\<lparr>cn_te_chunked := 0\<rparr>, e)
         else read_chunks cf e 0 con2)" for cf
      using te0 d(1) rc False ks(2) c2(1) by (subst read_chunks.simps) simp
    moreover have "length (pending_text con2) < length (pending_text con)"
    proof -
      have "length (pending_text con1) = length t + 2" unfolding t(1) by simp
      moreover have "length (pending_text con1) \<le> length (pending_text con)" unfolding d(3) by simp
      ultimately show ?thesis using c2(3) by simp
    qed
    ultimately show thesis
      using more [of con2] body_step_trans [OF d(2) c2(2)] c2 t(2) d(4,5) ks(1) by simp
  qed
qed

lemma te_step: "reading con \<Longrightarrow> body_step con (con\<lparr>cn_te_chunked := te\<rparr>)"
  by (simp add: body_step_def reading_def)

lemma te_step_trans: "body_step con con' \<Longrightarrow> body_step con (con'\<lparr>cn_te_chunked := te\<rparr>)"
  using te_step body_step_trans unfolding body_step_def by blast

lemma chunked_text_length: "4 \<le> length (chunked_text ss z)"
  by (cases ss) (auto simp: size_line_def)

lemma body_done_trans:
  assumes "body_done b c bdy y w" "body_octets b = body_octets a @ map MemByte s"
  shows "body_done a c (s @ bdy) y w"
  using assms by (simp add: body_done_def)

lemma body_waits_trans:
  assumes "body_waits b c bdy y z w" "body_octets b = body_octets a @ map MemByte s" "cn_content_length b = cn_content_length a"
  shows "body_waits a c (s @ bdy) y z w"
  using assms by (simp add: body_waits_def)

lemma body_waitsI:
  assumes "cn_content_length con' = cn_content_length con" "pieces_ok ss z" "piece_left (cn_te_chunked con') s"
    "pending_text con' @ y = to_come (cn_te_chunked con') s ss z @ w"
    "length (pending_text con') < length (to_come (cn_te_chunked con') s ss z)"
    "body_octets con' @ map MemByte (s @ body_of ss) = body_octets con @ map MemByte bdy"
  shows "body_waits con con' bdy y z w"
  using assms unfolding body_waits_def by blast

lemma body_fits_bytes:
  assumes "reading a" "body_step a b" "body_octets b = body_octets a @ map MemByte s" "body_fits cf a (s @ bdy) z"
  shows "body_fits cf b bdy z" "0 \<le> body_bytes a \<Longrightarrow> 0 \<le> body_bytes b"
proof -
  have "reading b" using assms(2) by (simp add: body_step_def)
  then have "body_bytes b = body_bytes a + int (length s)"
    using body_bytes_octets [OF assms(1)] body_bytes_octets [of b] assms(2,3) by (simp add: body_step_def)
  then show "body_fits cf b bdy z" "0 \<le> body_bytes a \<Longrightarrow> 0 \<le> body_bytes b"
    using assms(4) by (auto simp: body_fits_def)
qed

lemma read_chunks_ok:
  assumes "reading con" "pieces_ok ss z" "piece_left te s" "pending_text con @ y = to_come te s ss z @ w"
    "body_fits cf con (s @ body_of ss) z" "0 \<le> body_bytes con"
  shows "\<exists>con'. read_chunks cf e te con = Some (HANDLER_GO_ON, con', e) \<and> body_step con con'
    \<and> (body_done con con' (s @ body_of ss) y w \<or> body_waits con con' (s @ body_of ss) y z w)"
  using assms
proof (induction "length (pending_text con)" arbitrary: con ss te s rule: less_induct)
  case less
  show ?case
  proof (cases "te = 0")
    case True
    then have s: "s = []" using less.prems(3) by (simp add: piece_left_def)
    have p: "pending_text con @ y = chunked_text ss z @ w" using less.prems(4) True by (simp add: to_come_def)
    have f: "body_fits cf con (body_of ss) z" using less.prems(5) s by simp
    show ?thesis
    proof (rule header_stage [OF less.prems(1,2) p f less.prems(6)])
      fix con' assume h: "read_chunk_header cf con = Some (Inr 0, con')" "body_step con con'" "pending_text con' = pending_text con"
        "cn_request_content_queue con' = cn_request_content_queue con" "cn_content_length con' = cn_content_length con"
        "length (pending_text con) < length (chunked_text ss z)"
      let ?con = "con'\<lparr>cn_te_chunked := 0\<rparr>"
      have "read_chunks cf e te con = Some (HANDLER_GO_ON, ?con, e)" using h(1) True by (subst read_chunks.simps) simp
      moreover have "body_step con ?con" by (rule te_step_trans [OF h(2)])
      moreover have "body_waits con ?con (s @ body_of ss) y z w"
        using h(3-6) less.prems(2) p s by (intro body_waitsI [where s = "[]" and ss = ss]) (simp_all add: piece_left_def to_come_def)
      ultimately show ?thesis by blast
    next
      fix con' assume h: "read_chunk_header cf con = Some (Inr 0, con')" "body_step con con'" "ss = []" "pending_text con' @ y = w"
        "cn_request_content_queue con' = cn_request_content_queue con" "cn_content_length con' = body_bytes con"
      let ?con = "con'\<lparr>cn_te_chunked := 0\<rparr>"
      have "read_chunks cf e te con = Some (HANDLER_GO_ON, ?con, e)" using h(1) True by (subst read_chunks.simps) simp
      moreover have "body_step con ?con" by (rule te_step_trans [OF h(2)])
      moreover have "body_done con ?con (s @ body_of ss) y w" using h(3-6) s by (simp add: body_done_def)
      ultimately show ?thesis by blast
    next
      fix con' ds s1 ss1 assume h: "read_chunk_header cf con = Some (Inr (int (length s1) + 2), con')" "body_step con con'"
        "ss = (ds, s1) # ss1" "s1 \<noteq> []" "pending_text con' @ y = s1 @ CRLF @ chunked_text ss1 z @ w"
        "length (pending_text con') < length (pending_text con)"
        "cn_request_content_queue con' = cn_request_content_queue con" "cn_content_length con' = cn_content_length con"
      have r: "reading con'" using h(2) by (simp add: body_step_def)
      have eq: "read_chunks cf e te con = read_chunks cf e (int (length s1) + 2) con'"
        using h(1) True by (subst (1 2) read_chunks.simps) simp
      have "pieces_ok ss1 z" using less.prems(2) h(3) by (simp add: pieces_ok_def)
      moreover have "piece_left (int (length s1) + 2) s1" by (simp add: piece_left_def)
      moreover have "pending_text con' @ y = to_come (int (length s1) + 2) s1 ss1 z @ w" using h(5) by (simp add: to_come_def)
      moreover have "body_fits cf con' (s1 @ body_of ss1) z" "0 \<le> body_bytes con'"
        using less.prems(6) f h(3,7) by (simp_all add: body_fits_def)
      ultimately obtain con2 where "read_chunks cf e (int (length s1) + 2) con' = Some (HANDLER_GO_ON, con2, e)" "body_step con' con2"
          "body_done con' con2 (s1 @ body_of ss1) y w \<or> body_waits con' con2 (s1 @ body_of ss1) y z w"
        using less.hyps [OF h(6) r] by blast
      then show ?thesis
        using eq body_step_trans [OF h(2)] body_done_trans [of con' con2 _ y w con "[]"]
          body_waits_trans [of con' con2 _ y z w con "[]"] h(3,7,8) s by auto
    qed
  next
    case False
    then have te: "te = int (length s) + 2" using less.prems(3) by (simp add: piece_left_def)
    have p: "pending_text con @ y = s @ CRLF @ chunked_text ss z @ w" using less.prems(4) False by (simp add: to_come_def)
    have b: "body_bytes con + te \<le> 65536" using less.prems(5) te by (simp add: body_fits_def)
    show ?thesis
    proof (rule piece_stage [OF less.prems(1) te p b, of e])
      fix con' s' assume h: "\<And>cf. read_chunks cf e te con = Some (HANDLER_GO_ON, con', e)" "body_step con con'"
        "cn_te_chunked con' = int (length s') + 2" "pending_text con' @ y = s' @ CRLF @ chunked_text ss z @ w"
        "length (pending_text con') < length s' + 2"
        "body_octets con' @ map MemByte s' = body_octets con @ map MemByte s" "cn_content_length con' = cn_content_length con"
      have "body_waits con con' (s @ body_of ss) y z w"
        using h(3-7) less.prems(2)
        by (intro body_waitsI [where s = s' and ss = ss]) (simp_all add: piece_left_def to_come_def flip: append_assoc)
      then show ?thesis using h(1,2) by blast
    next
      fix con' assume h: "\<And>cf. read_chunks cf e te con =
          (if cq_chunks (cn_read_queue con') = [] then Some (HANDLER_GO_ON, con'\<lparr>cn_te_chunked := 0\<rparr>, e)
           else read_chunks cf e 0 con')" "body_step con con'"
        "pending_text con' @ y = chunked_text ss z @ w" "length (pending_text con') < length (pending_text con)"
        "body_octets con' = body_octets con @ map MemByte s" "cn_content_length con' = cn_content_length con"
      have r: "reading con'" using h(2) by (simp add: body_step_def)
      show ?thesis
      proof (cases "cq_chunks (cn_read_queue con') = []")
        case True
        let ?con = "con'\<lparr>cn_te_chunked := 0\<rparr>"
        have "pending_text con' = []" using True by (simp add: queue_text_def)
        then have "body_waits con ?con (s @ body_of ss) y z w"
          using h(3,5,6) less.prems(2) chunked_text_length [of ss z]
          by (intro body_waitsI [where s = "[]" and ss = ss]) (auto simp: piece_left_def to_come_def)
        moreover have "body_step con ?con" by (rule te_step_trans [OF h(2)])
        ultimately show ?thesis using h(1) True by auto
      next
        case False
        have "piece_left 0 []" by (simp add: piece_left_def)
        moreover have "pending_text con' @ y = to_come 0 [] ss z @ w" using h(3) by (simp add: to_come_def)
        moreover have "body_fits cf con' ([] @ body_of ss) z" "0 \<le> body_bytes con'"
          using body_fits_bytes [OF less.prems(1) h(2,5)] less.prems(5,6) by simp_all
        ultimately obtain con2 where "read_chunks cf e 0 con' = Some (HANDLER_GO_ON, con2, e)" "body_step con' con2"
            "body_done con' con2 ([] @ body_of ss) y w \<or> body_waits con' con2 ([] @ body_of ss) y z w"
          using less.hyps [OF h(4) r less.prems(2)] by blast
        then show ?thesis
          using h(1) False body_step_trans [OF h(2)] body_done_trans [OF _ h(5)] body_waits_trans [OF _ h(5,6)] by auto
      qed
    qed
  qed
qed

end
