(* ===== verification/NetRead.thy ===== *)
theory NetRead
  imports RequestBody
begin

text \<open>
  Reading from the socket, \<open>connection_read_cq\<close> of \<open>src/src/connections.c\<close>, and what its callers
  rely on: the locale \<open>socket_reader\<close>.  The answers of \<open>ioctl(FIONREAD)\<close> and \<open>read\<close> are parameters.
\<close>

section \<open>Reading into the queue\<close>

datatype read_answer = ReadBytes string | ReadAgain | ReadInterrupted | ReadFailed

definition MAX_READ_LIMIT :: nat where
  "MAX_READ_LIMIT = 256 * 1024"

text \<open>The kernel stores at most as many bytes as it is asked for; more has no behaviour here.\<close>

definition connection_read_cq :: "int option \<Rightarrow> read_answer \<Rightarrow> network_read_fn" where
  "connection_read_cq fionread answer con = do {
     let toread = (case fionread of None \<Rightarrow> 4096
                   | Some n \<Rightarrow> if n \<le> 4096 then 4096 else if int MAX_READ_LIMIT < n then MAX_READ_LIMIT else nat n);
     (cq, mem, mem_len) \<leftarrow> chunkqueue_get_memory (cn_read_queue con) 0 toread;
     case answer of
       ReadBytes s \<Rightarrow> do {
         force_assert (length s \<le> mem_len);
         cq \<leftarrow> store_memory cq mem s;
         cq \<leftarrow> chunkqueue_use_memory cq (length s);
         let con = con\<lparr>cn_read_queue := cq\<rparr>;
         if s = [] then Some (-2, con\<lparr>cn_is_readable := False\<rparr>)
         else Some (0, con\<lparr>cn_is_readable := (cn_is_readable con \<and> length s = mem_len),
                           cn_bytes_read := cn_bytes_read con + int (length s)\<rparr>)
       }
     | _ \<Rightarrow> do {
         cq \<leftarrow> chunkqueue_use_memory cq 0;
         let con = con\<lparr>cn_read_queue := cq, cn_is_readable := False\<rparr>;
         case answer of
           ReadAgain \<Rightarrow> Some (0, con)
         | ReadInterrupted \<Rightarrow> Some (0, con\<lparr>cn_is_readable := True\<rparr>)
         | _ \<Rightarrow> Some (-1, con\<lparr>cn_state := CON_STATE_ERROR\<rparr>)
       }
   }"

section \<open>The text it leaves\<close>

lemma shape_text:
  assumes "chunk_shape c = (MEM_CHUNK, off, s)"
  shows "c_type c = MEM_CHUNK" "mem_text c = drop (nat off) s" "buffer_content (c_mem c) = s"
  using assms by (simp_all add: chunk_shape_def mem_text_def)

text \<open>A queue all of whose chunks are in memory; some may be used up.\<close>

definition shape_mem :: "chunk_type \<times> int \<times> string \<Rightarrow> string" where
  "shape_mem sh = drop (nat (fst (snd sh))) (snd (snd sh))"

lemma shape_mem: "mem_text c = shape_mem (chunk_shape c)"
  by (simp add: shape_mem_def chunk_shape_def mem_text_def)

lemma queue_text_shapes: "queue_text cq = concat (map shape_mem (map chunk_shape (cq_chunks cq)))"
proof -
  have "mem_text = shape_mem \<circ> chunk_shape" by (rule ext) (simp add: shape_mem)
  then show ?thesis by (simp add: queue_text_def)
qed

lemma stored_bytes_shapes: "stored_bytes cq = (\<Sum>sh\<leftarrow>map chunk_shape (cq_chunks cq). length (snd (snd sh)))"
  by (simp add: stored_bytes_def chunk_shape_def comp_def)

lemma text_queue_shapes:
  "text_queue cq \<longleftrightarrow> cq_wf cq \<and> (\<forall>sh \<in> set (map chunk_shape (cq_chunks cq)). fst sh = MEM_CHUNK \<and> shape_mem sh \<noteq> [])"
  by (auto simp: text_queue_def live_def shape_mem cq_wf_iff) (auto simp: chunk_shape_def)

lemma read_text:
  assumes "text_queue cq" "s \<noteq> []" "length s \<le> 1024" "m \<le> MAX_READ_LIMIT" "fits (stored_bytes cq + 2 ^ 20)"
  shows "\<exists>cq0 pos len cq1 cq2. chunkqueue_get_memory cq 0 m = Some (cq0, pos, len) \<and> 1024 \<le> len
    \<and> store_memory cq0 pos s = Some cq1 \<and> chunkqueue_use_memory cq1 (length s) = Some cq2
    \<and> text_queue cq2 \<and> queue_text cq2 = queue_text cq @ s \<and> stored_bytes cq2 = stored_bytes cq + length s
    \<and> cq_bytes_out cq2 = cq_bytes_out cq"
proof -
  have wf: "cq_wf cq" using assms(1) by (simp add: text_queue_def)
  have mm: "memory_min 0 = 1024" "memory_alloc 0 m \<le> 256 * 1024"
    using assms(4) by (simp_all add: memory_min_def memory_alloc_def MAX_READ_LIMIT_def)
  have "fits (memory_alloc 0 m)" using fits_mono [OF assms(5)] mm(2) by simp
  moreover have "fits (length (buffer_content (c_mem c)) + memory_min 0 + memory_alloc 0 m)" if "c \<in> set (cq_chunks cq)" for c
  proof (rule fits_mono [OF assms(5)])
    have "length (buffer_content (c_mem c)) \<le> stored_bytes cq"
      unfolding stored_bytes_def using that by (intro member_le_sum_list) auto
    then show "length (buffer_content (c_mem c)) + memory_min 0 + memory_alloc 0 m \<le> stored_bytes cq + 2 ^ 20" using mm by simp
  qed
  ultimately obtain cq0 pos len where g: "chunkqueue_get_memory cq 0 m = Some (cq0, pos, len)"
      "memory_result cq (memory_min 0) cq0 pos len"
    using get_memory_ok [OF wf] by blast
  have l: "1024 \<le> len" "length s \<le> len" using g(2) assms(3) mm(1) by (simp_all add: memory_result_def Let_def)
  obtain cq1 cq2 where u: "store_memory cq0 pos s = Some cq1" "chunkqueue_use_memory cq1 (length s) = Some cq2" "cq_wf cq2"
      "cq_bytes_out cq2 = cq_bytes_out cq0"
      "map chunk_shape (cq_chunks cq2) = (let c = last (cq_chunks cq0) in map chunk_shape (butlast (cq_chunks cq0))
                     @ [(c_type c, c_offset c, buffer_content (c_mem c) @ s)])"
    using store_use_memory_ok [OF g(2) l(2)] assms(2) by blast
  have ne: "cq_chunks cq0 \<noteq> []" "more_shapes cq cq0" using g(2) by (simp_all add: memory_result_def)
  then have cs: "cq_chunks cq0 = butlast (cq_chunks cq0) @ [last (cq_chunks cq0)]" by simp
  define pre where "pre = map chunk_shape (butlast (cq_chunks cq0))"
  obtain ty off t where sh: "chunk_shape (last (cq_chunks cq0)) = (ty, off, t)" by (cases "chunk_shape (last (cq_chunks cq0))")
  have c0: "map chunk_shape (cq_chunks cq0) = pre @ [(ty, off, t)]"
    unfolding pre_def by (subst cs) (simp add: sh)
  have c2: "map chunk_shape (cq_chunks cq2) = pre @ [(ty, off, t @ s)]"
    using u(5) sh by (simp add: pre_def chunk_shape_def Let_def)
  have out: "cq_bytes_out cq2 = cq_bytes_out cq" using u(4) ne(2) by (simp add: more_shapes_def)
  note tq = text_queue_shapes queue_text_shapes stored_bytes_shapes
  from ne(2) consider "map chunk_shape (cq_chunks cq) = pre @ [(ty, off, t)]"
    | "map chunk_shape (cq_chunks cq) = pre" "ty = MEM_CHUNK" "off = 0" "t = []"
    using c0 by (auto simp: more_shapes_def)
  then have "text_queue cq2 \<and> queue_text cq2 = queue_text cq @ s \<and> stored_bytes cq2 = stored_bytes cq + length s"
  proof cases
    case 1
    then show ?thesis using assms(1) u(3) unfolding tq c2 by (auto simp: shape_mem_def)
  next
    case 2
    then show ?thesis using assms(1,2) u(3) unfolding tq c2 by (auto simp: shape_mem_def)
  qed
  then show ?thesis using g(1) l(1) u(1,2) out by blast
qed

section \<open>What the callers rely on\<close>

text \<open>
  \<open>rd x\<close> is \<open>network_read\<close> when \<open>x\<close> has arrived: it appends \<open>x\<close> to the read queue and changes
  nothing else but the counter of its own and the flag, which tells that there is no more to read.
\<close>

definition read_room :: "connection \<Rightarrow> nat \<Rightarrow> bool" where
  "read_room con n \<longleftrightarrow> fits (stored_bytes (cn_read_queue con) + n + 2 ^ 20)"

locale socket_reader =
  fixes rd :: "string \<Rightarrow> network_read_fn" and piece :: "string \<Rightarrow> bool"
  assumes reads: "text_queue (cn_read_queue con) \<Longrightarrow> piece x \<Longrightarrow> read_room con (length x) \<Longrightarrow>
    \<exists>q n. rd x con = Some (0, con\<lparr>cn_read_queue := q, cn_is_readable := False, cn_bytes_read := n\<rparr>)
      \<and> text_queue q \<and> queue_text q = queue_text (cn_read_queue con) @ x
      \<and> stored_bytes q = stored_bytes (cn_read_queue con) + length x \<and> cq_bytes_out q = cq_bytes_out (cn_read_queue con)"
    and pieces: "piece x \<Longrightarrow> x \<noteq> []"

definition socket_piece :: "string \<Rightarrow> bool" where
  "socket_piece x \<longleftrightarrow> x \<noteq> [] \<and> length x < 1024"

definition socket_read :: "int option \<Rightarrow> string \<Rightarrow> network_read_fn" where
  "socket_read fionread x = connection_read_cq fionread (ReadBytes x)"

lemma socket_read_ok:
  assumes "text_queue (cn_read_queue con)" "socket_piece x" "read_room con (length x)"
  shows "\<exists>q n. socket_read fionread x con = Some (0, con\<lparr>cn_read_queue := q, cn_is_readable := False, cn_bytes_read := n\<rparr>)
      \<and> text_queue q \<and> queue_text q = queue_text (cn_read_queue con) @ x
      \<and> stored_bytes q = stored_bytes (cn_read_queue con) + length x \<and> cq_bytes_out q = cq_bytes_out (cn_read_queue con)"
proof -
  define m where "m = (case fionread of None \<Rightarrow> 4096
    | Some n \<Rightarrow> if n \<le> 4096 then 4096 else if int MAX_READ_LIMIT < n then MAX_READ_LIMIT else nat n)"
  have "m \<le> MAX_READ_LIMIT" by (auto simp: m_def MAX_READ_LIMIT_def split: option.split)
  moreover have "fits (stored_bytes (cn_read_queue con) + 2 ^ 20)" using assms(3) fits_mono by (fastforce simp: read_room_def)
  ultimately obtain cq0 pos len cq1 cq2 where r: "chunkqueue_get_memory (cn_read_queue con) 0 m = Some (cq0, pos, len)"
      "1024 \<le> len" "store_memory cq0 pos x = Some cq1" "chunkqueue_use_memory cq1 (length x) = Some cq2"
      "text_queue cq2" "queue_text cq2 = queue_text (cn_read_queue con) @ x"
      "stored_bytes cq2 = stored_bytes (cn_read_queue con) + length x" "cq_bytes_out cq2 = cq_bytes_out (cn_read_queue con)"
    using read_text [OF assms(1), of x m] assms(2) by (auto simp: socket_piece_def)
  then show ?thesis using assms(2)
    by (auto simp: socket_read_def connection_read_cq_def m_def [symmetric] Let_def socket_piece_def)
qed

interpretation sock: socket_reader "socket_read fionread" socket_piece for fionread
  by unfold_locales (use socket_read_ok in \<open>blast, simp add: socket_piece_def\<close>)

end
