(* ===== verification/BodyRules.thy ===== *)
theory BodyRules
  imports BodyRead NetRead HttpChunk
begin

text \<open>
  Request bodies under chunked coding, from the network to the content queue: a message is read
  back whichever way the network cuts it up, what the server itself sends can be read by it, and
  no input makes the reader fail or exceed the limit of the request, when there is a limit.
\<close>

section \<open>A message that comes in pieces\<close>

text \<open>
  One event \<open>FDEVENT_IN\<close> and one call of \<open>connection_handle_read_post_state\<close> for each piece that
  arrives; \<open>rd x\<close> is a \<open>network_read\<close> that finds \<open>x\<close>.
\<close>

fun deliver ::
    "(string \<Rightarrow> network_read_fn) \<Rightarrow> int \<Rightarrow> network_write_fn \<Rightarrow> con_conf \<Rightarrow> os_env \<Rightarrow> connection \<Rightarrow> string list \<Rightarrow>
     (handler_t \<times> connection \<times> con_conf \<times> os_env) option" where
  "deliver rd now nw cf e con [] = Some (HANDLER_WAIT_FOR_EVENT, con, cf, e)"
| "deliver rd now nw cf e con (x # xs) = do {
     (r, con, cf, e) \<leftarrow> connection_handle_read_post_state now (rd x) nw cf e (con\<lparr>cn_is_readable := True\<rparr>);
     if xs = [] then Some (r, con, cf, e) else deliver rd now nw cf e con xs
   }"

text \<open>A connection in \<open>CON_STATE_READ_POST\<close> whose request announced a chunked body.\<close>

definition awaiting :: "connection \<Rightarrow> bool" where
  "awaiting con \<longleftrightarrow> reading con \<and> cn_state con = CON_STATE_READ_POST
     \<and> cn_content_length con = -1 \<and> 0 \<le> cq_bytes_out (cn_request_content_queue con)"

lemma queue_self [simp]: "con\<lparr>cn_read_queue := cn_read_queue con\<rparr> = con"
  by (cases con) simp

lemma body_step_fields:
  assumes "body_step con con'"
  shows "cn_state con' = cn_state con" "reading con'"
    "stored_bytes (cn_read_queue con') \<le> stored_bytes (cn_read_queue con)"
    "cq_bytes_out (cn_request_content_queue con') = cq_bytes_out (cn_request_content_queue con)"
proof -
  have e: "con' = con\<lparr>cn_read_queue := cn_read_queue con', cn_request_content_queue := cn_request_content_queue con',
                  cn_te_chunked := cn_te_chunked con', cn_content_length := cn_content_length con'\<rparr>"
    using assms unfolding body_step_def by blast
  show "cn_state con' = cn_state con" by (subst e, simp)
qed (use assms in \<open>simp_all add: body_step_def\<close>)

text \<open>The state of a connection after the event.\<close>

lemma event_awaiting: "awaiting (con\<lparr>cn_is_readable := r, cn_read_idle_ts := now\<rparr>) = awaiting con"
  by (simp add: awaiting_def reading_def)

text \<open>What was sent, and what the receiver has of it.\<close>

definition expects :: "con_conf \<Rightarrow> connection \<Rightarrow> string \<Rightarrow> string \<Rightarrow> string \<Rightarrow> bool" where
  "expects cf con y z bdy \<longleftrightarrow> awaiting con \<and> (\<exists>s ss. pieces_ok ss z \<and> piece_left (cn_te_chunked con) s
     \<and> pending_text con @ y = to_come (cn_te_chunked con) s ss z
     \<and> body_octets con @ map MemByte (s @ body_of ss) = map MemByte bdy
     \<and> body_fits cf con (s @ body_of ss) z)"

definition received :: "connection \<Rightarrow> string \<Rightarrow> bool" where
  "received con bdy \<longleftrightarrow> cn_state con = CON_STATE_HANDLE_REQUEST \<and> body_octets con = map MemByte bdy
     \<and> cn_content_length con = body_bytes con \<and> cn_te_chunked con = 0 \<and> cq_chunks (cn_read_queue con) = []"

text \<open>What one call makes of the text that is there.\<close>

lemma body_call_ok:
  assumes "expects cf con1 y z bdy"
  shows "\<exists>con2 r con' cf'. read_body cf e con1 = Some (HANDLER_GO_ON, con2, e) \<and> text_queue (cn_read_queue con2)
    \<and> body_read False cf con2 = (r, con', cf')
    \<and> (y = [] \<and> r = HANDLER_GO_ON \<and> received con' bdy
       \<or> y \<noteq> [] \<and> expects cf' con' y z bdy
          \<and> stored_bytes (cn_read_queue con') \<le> stored_bytes (cn_read_queue con1))"
proof -
  from assms obtain s ss where ss: "awaiting con1" "pieces_ok ss z" "piece_left (cn_te_chunked con1) s"
      "pending_text con1 @ y = to_come (cn_te_chunked con1) s ss z @ []"
      "body_octets con1 @ map MemByte (s @ body_of ss) = map MemByte bdy" "body_fits cf con1 (s @ body_of ss) z"
    by (auto simp: expects_def)
  have r1: "reading con1" "0 \<le> cq_bytes_out (cn_request_content_queue con1)" using ss(1) by (simp_all add: awaiting_def)
  have b1: "0 \<le> body_bytes con1" using body_bytes_octets [OF r1(1)] r1(2) by simp
  obtain con2 where c2: "read_chunks cf e (cn_te_chunked con1) con1 = Some (HANDLER_GO_ON, con2, e)" "body_step con1 con2"
      "body_done con1 con2 (s @ body_of ss) y [] \<or> body_waits con1 con2 (s @ body_of ss) y z []"
    using read_chunks_ok [OF r1(1) ss(2,3,4,6) b1] by blast
  note bs = body_step_fields [OF c2(2)]
  have rb: "read_body cf e con1 = Some (HANDLER_GO_ON, con2, e)"
    using ss(1) c2(1) by (simp add: read_body_def awaiting_def connection_handle_read_post_chunked_def Let_def)
  have tq: "text_queue (cn_read_queue con2)" using bs(2) by (simp add: reading_def)
  note o1 = ss(5)
  from c2(3) show ?thesis
  proof
    assume d: "body_done con1 con2 (s @ body_of ss) y []"
    then have y: "y = []" "pending_text con2 = []" by (simp_all add: body_done_def)
    have "cq_chunks (cn_read_queue con2) = []" using y(2) text_empty tq by simp
    then show ?thesis using rb tq d y(1) bs(1) ss(1) o1
      by (simp add: body_read_def body_done_def received_def awaiting_def)
  next
    assume w: "body_waits con1 con2 (s @ body_of ss) y z []"
    then obtain s' ss' where s': "pieces_ok ss' z" "piece_left (cn_te_chunked con2) s'"
        "pending_text con2 @ y = to_come (cn_te_chunked con2) s' ss' z"
        "length (pending_text con2) < length (to_come (cn_te_chunked con2) s' ss' z)"
        "body_octets con2 @ map MemByte (s' @ body_of ss') = map MemByte bdy" "cn_content_length con2 = -1"
      using ss(1) o1 by (auto simp: body_waits_def awaiting_def)
    have y: "y \<noteq> []" using s'(3,4) by (metis append_Nil2 less_irrefl)
    have aw: "awaiting con2" using ss(1) bs s'(6) by (simp add: awaiting_def)
    have b2: "0 \<le> body_bytes con2" using body_bytes_octets [OF bs(2)] aw by (simp add: awaiting_def)
    have "length (body_octets con2) + length (s' @ body_of ss') = length (body_octets con1) + length (s @ body_of ss)"
      using arg_cong [OF s'(5), of length] arg_cong [OF o1, of length] by simp
    then have "body_bytes con2 + int (length (s' @ body_of ss')) = body_bytes con1 + int (length (s @ body_of ss))"
      using body_bytes_octets [OF bs(2)] body_bytes_octets [OF r1(1)] bs(4) by simp
    then have f2: "body_fits cf con2 (s' @ body_of ss') z" using ss(6) by (simp add: body_fits_def)
    let ?cf = "cf\<lparr>cf_stream_request_pollin := True\<rparr>"
    have "expects ?cf con2 y z bdy"
      unfolding expects_def using aw s'(1,2,3,5) f2 by (intro conjI exI [of _ s'] exI [of _ ss']) (simp_all add: body_fits_def)
    then show ?thesis using rb tq y b2 s'(6) bs(3) by (simp add: body_read_def)
  qed
qed

context socket_reader begin

lemma arrives_ok:
  assumes "awaiting con" "piece x" "read_room con (length x)"
  obtains con1 where "rd x (con\<lparr>cn_is_readable := True, cn_read_idle_ts := now\<rparr>) = Some (0, con1)" "awaiting con1"
    "pending_text con1 = pending_text con @ x" "cn_te_chunked con1 = cn_te_chunked con"
    "cn_request_content_queue con1 = cn_request_content_queue con"
    "stored_bytes (cn_read_queue con1) = stored_bytes (cn_read_queue con) + length x"
proof -
  let ?con = "con\<lparr>cn_is_readable := True, cn_read_idle_ts := now\<rparr>"
  have "text_queue (cn_read_queue ?con)" "read_room ?con (length x)"
    using assms(1,3) by (simp_all add: awaiting_def reading_def read_room_def)
  from reads [OF this(1) assms(2) this(2)] obtain q n where
      q: "rd x ?con = Some (0, ?con\<lparr>cn_read_queue := q, cn_is_readable := False, cn_bytes_read := n\<rparr>)"
      "text_queue q" "queue_text q = pending_text con @ x" "stored_bytes q = stored_bytes (cn_read_queue con) + length x"
      "cq_bytes_out q = cq_bytes_out (cn_read_queue con)" by auto
  have "fits (stored_bytes q)" using assms(3) q(4) by (auto simp: read_room_def elim: fits_mono)
  then show thesis using that [OF q(1)] q(2-5) assms(1) by (simp add: awaiting_def reading_def)
qed

lemma deliver_step:
  assumes "expects cf con (x @ y) z bdy" "piece x" "read_room con (length x)"
  shows "\<exists>r con' cf'. connection_handle_read_post_state now (rd x) nw cf e (con\<lparr>cn_is_readable := True\<rparr>) = Some (r, con', cf', e)
    \<and> (y = [] \<and> r = HANDLER_GO_ON \<and> received con' bdy
       \<or> y \<noteq> [] \<and> expects cf' con' y z bdy
          \<and> stored_bytes (cn_read_queue con') \<le> stored_bytes (cn_read_queue con) + length x)"
proof -
  have aw: "awaiting con" using assms(1) by (simp add: expects_def)
  obtain con1 where a: "rd x (con\<lparr>cn_is_readable := True, cn_read_idle_ts := now\<rparr>) = Some (0, con1)" "awaiting con1"
      "pending_text con1 = pending_text con @ x" "cn_te_chunked con1 = cn_te_chunked con"
      "cn_request_content_queue con1 = cn_request_content_queue con"
      "stored_bytes (cn_read_queue con1) = stored_bytes (cn_read_queue con) + length x"
    by (rule arrives_ok [OF aw assms(2,3)])
  have x1: "expects cf con1 y z bdy"
    using assms(1) a(2-5) by (simp add: expects_def body_fits_def)
  have q1: "text_queue (cn_read_queue con1)" using a(2) by (simp add: awaiting_def reading_def)
  have "cq_chunks (cn_read_queue con1) \<noteq> []" using text_empty [OF q1] a(3) pieces [OF assms(2)] by auto
  then have "expect_continue nw cf con1 = Some (True, con1, cf)" by (simp add: expect_continue_def)
  then show ?thesis
    using body_call_ok [OF x1, of e] a(1,6) q1
    by (auto simp: connection_handle_read_post_state_def)
qed

lemma deliver_ok:
  assumes "expects cf con (concat xs) z bdy" "xs \<noteq> []" "\<forall>x\<in>set xs. piece x"
    "read_room con (length (concat xs))"
  shows "\<exists>con' cf'. deliver rd now nw cf e con xs = Some (HANDLER_GO_ON, con', cf', e) \<and> received con' bdy"
  using assms
proof (induction xs arbitrary: cf con)
  case (Cons x xs)
  have f: "read_room con (length x)"
    using Cons.prems(4) unfolding read_room_def by (rule fits_mono) simp
  have px: "piece x" using Cons.prems(3) by simp
  obtain r con' cf' where st: "connection_handle_read_post_state now (rd x) nw cf e (con\<lparr>cn_is_readable := True\<rparr>) = Some (r, con', cf', e)"
      "concat xs = [] \<and> r = HANDLER_GO_ON \<and> received con' bdy
       \<or> concat xs \<noteq> [] \<and> expects cf' con' (concat xs) z bdy
          \<and> stored_bytes (cn_read_queue con') \<le> stored_bytes (cn_read_queue con) + length x"
  proof -
    have "expects cf con (x @ concat xs) z bdy" using Cons.prems(1) by simp
    from deliver_step [OF this px f, of now nw e] show thesis using that by blast
  qed
  show ?case
  proof (cases "xs = []")
    case True
    then show ?thesis using st by auto
  next
    case False
    then have "concat xs \<noteq> []" using Cons.prems(3) pieces by (cases xs) auto
    then have c: "expects cf' con' (concat xs) z bdy"
        "stored_bytes (cn_read_queue con') \<le> stored_bytes (cn_read_queue con) + length x" using st(2) by auto
    have "read_room con' (length (concat xs))"
      using Cons.prems(4) unfolding read_room_def by (rule fits_mono) (use c(2) in simp)
    then obtain con2 cf2 where "deliver rd now nw cf' e con' xs = Some (HANDLER_GO_ON, con2, cf2, e)" "received con2 bdy"
      using Cons.IH [OF c(1) False] Cons.prems(3) by auto
    then show ?thesis using st(1) False by simp
  qed
qed simp

end

section \<open>Any input\<close>

lemma te_size_line:
  assumes "te_size s = Some te" "strchr s LF = Some p"
  shows "1 \<le> p" "0 \<le> te" "te < 2 ^ 63"
proof -
  obtain r where r: "te_digits 0 s = Some (te, r)" using assms(1) by (auto simp: te_size_def split: option.splits list.splits if_splits)
  then show "0 \<le> te" "te < 2 ^ 63" using te_digits_bound [OF r] by simp_all
  show "1 \<le> p"
  proof (rule ccontr)
    assume "\<not> 1 \<le> p"
    then have "p = 0" by simp
    then obtain t where "s = LF # t" using strchr_Some(1,2) [OF assms(2)] by (cases s) auto
    then show False using assms(1) by (auto simp: te_size_def hex2int_value)
  qed
qed

text \<open>A limit, and the trailers below the limit of a header.\<close>

definition limited :: "con_conf \<Rightarrow> connection \<Rightarrow> bool" where
  "limited cf con \<longleftrightarrow> 0 < cf_max_request_size cf \<and> cf_max_request_size cf < 2 ^ 32
     \<and> length (pending_text con) < cf_max_request_field_size cf"

definition te_ok :: "con_conf \<Rightarrow> connection \<Rightarrow> int \<Rightarrow> bool" where
  "te_ok cf con te \<longleftrightarrow> 0 \<le> body_bytes con \<and> (te = 0 \<or> 2 \<le> te) \<and>
     max 0 (te - 2) + body_bytes con \<le> int (cf_max_request_size cf) * 1024"

definition shrinks :: "connection \<Rightarrow> connection \<Rightarrow> bool" where
  "shrinks con con' \<longleftrightarrow> body_step con con' \<and> length (pending_text con') \<le> length (pending_text con)"

lemma shrinks_trans: "shrinks a b \<Longrightarrow> shrinks b c \<Longrightarrow> shrinks a c"
  using body_step_trans by (auto simp: shrinks_def)

lemma shrinks_limited: "shrinks a b \<Longrightarrow> limited cf a \<Longrightarrow> limited cf b"
  by (simp add: shrinks_def limited_def)

lemma merge_shrinks: "merge_step a b \<Longrightarrow> shrinks a b"
  by (simp add: shrinks_def merge_body merge_same)

lemma shrinksI:
  assumes "reading con" "text_queue cq" "stored_bytes cq \<le> stored_bytes (cn_read_queue con)"
    "length (queue_text cq) \<le> length (pending_text con)"
  shows "shrinks con (con\<lparr>cn_read_queue := cq, cn_content_length := n\<rparr>)" "shrinks con (con\<lparr>cn_read_queue := cq\<rparr>)"
  using reading_step [OF assms(1-3)] assms(3,4) by (simp_all add: shrinks_def body_step_def reading_def)

lemma read_last_chunk_total:
  assumes "reading con" "cq_chunks (cn_read_queue con) = c # r" "2 \<le> hsz" "hsz \<le> length (mem_text c)" "limited cf con"
  shows "\<exists>con'. read_last_chunk cf hsz con = Some con' \<and> shrinks con con'
    \<and> cn_request_content_queue con' = cn_request_content_queue con"
proof -
  have q: "text_queue (cn_read_queue con)" "fits (stored_bytes (cn_read_queue con))" using assms(1) by (simp_all add: reading_def)
  have h: "hsz - 2 \<le> length (mem_text c)" using assms(4) by simp
  obtain p cq where cq: "find_trailer_end (hsz - 2) (cn_read_queue con) = Some (p, cq)" "same_text (cn_read_queue con) cq"
      "trailer_found (hsz - 2) (pending_text con) p cq"
    using find_trailer_end_ok [OF q assms(2) h] by blast
  have t: "text_queue cq" "queue_text cq = pending_text con" "stored_bytes cq \<le> stored_bytes (cn_read_queue con)"
    using cq(2) by (simp_all add: same_text_def)
  show ?thesis
  proof (cases p)
    case None
    then obtain d where d: "cq_chunks cq = [d]" "mem_text d = pending_text con" using cq(3) by (auto simp: trailer_found_def)
    have "live d" using t(1) d(1) by (simp add: text_queue_def)
    note a = live_avail(3) [OF this]
    have "shrinks con (con\<lparr>cn_read_queue := cq\<rparr>)" using shrinksI(2) [OF assms(1) t(1,3)] t(2) by simp
    then show ?thesis using cq(1) None d a assms(5) by (simp add: read_last_chunk_def limited_def)
  next
    case (Some p')
    then have "p' + 4 \<le> length (queue_text cq)" using cq(3) t(2) by (simp add: trailer_found_def)
    then obtain cq' where cq': "chunkqueue_mark_written cq (int (p' + 4)) = Some cq'" "text_queue cq'"
        "queue_text cq' = drop (p' + 4) (queue_text cq)" "stored_bytes cq' \<le> stored_bytes cq"
      using mark_written_text [OF t(1)] by blast
    have "shrinks con (con\<lparr>cn_read_queue := cq', cn_content_length := body_bytes con\<rparr>)"
      using shrinksI(1) [OF assms(1) cq'(2)] cq'(3,4) t(2,3) by simp
    then show ?thesis using cq(1) Some cq'(1) by (simp add: read_last_chunk_def)
  qed
qed

lemma read_data_chunk_total:
  assumes "reading con" "hsz \<le> length (pending_text con)" "0 < te" "te < 2 ^ 63" "limited cf con" "0 \<le> body_bytes con"
  shows "\<exists>r con'. read_data_chunk cf hsz te con = Some (r, con') \<and> shrinks con con'
    \<and> (case r of Inl st \<Rightarrow> st = 413 | Inr te' \<Rightarrow> te' = te + 2 \<and> te_ok cf con' te')"
proof -
  have q: "text_queue (cn_read_queue con)" using assms(1) by (simp add: reading_def)
  obtain cq where cq: "chunkqueue_mark_written (cn_read_queue con) (int hsz) = Some cq" "text_queue cq"
      "queue_text cq = drop hsz (pending_text con)" "stored_bytes cq \<le> stored_bytes (cn_read_queue con)"
    using mark_written_text [OF q assms(2)] by blast
  have "shrinks con (con\<lparr>cn_read_queue := cq\<rparr>)" using shrinksI(2) [OF assms(1) cq(2,4)] cq(3) by simp
  then show ?thesis using cq(1) assms(3,5,6)
    by (auto simp: read_data_chunk_def off_add_def limited_def te_ok_def Let_def)
qed

lemma header_total:
  assumes "reading con" "limited cf con" "te_ok cf con 0"
  shows "\<exists>r con'. read_chunk_header cf con = Some (r, con') \<and> shrinks con con'
    \<and> (case r of Inl st \<Rightarrow> st = 400 \<or> st = 413 | Inr te \<Rightarrow> te_ok cf con' te)"
  using assms
proof (induction "length (cq_chunks (cn_read_queue con))" arbitrary: con)
  case 0
  then show ?case by (subst read_chunk_header.simps) (auto simp: shrinks_def body_step_refl)
next
  case (Suc k)
  have self: "shrinks con con" using Suc.prems(1) by (simp add: shrinks_def body_step_refl)
  obtain c r where c: "cq_chunks (cn_read_queue con) = c # r" using Suc.hyps(2) by (cases "cq_chunks (cn_read_queue con)") auto
  have tq: "text_queue (cn_read_queue con)" using Suc.prems(1) by (simp add: reading_def)
  note t = text_cons [OF tq c]
  note step = read_chunk_header_step [OF Suc.prems(1) c, of cf]
  show ?case
  proof (cases "strchr (cstr (mem_text c)) LF")
    case (Some p)
    note sp = strchr_Some(1) [OF Some]
    show ?thesis
    proof (cases "te_size (cstr (mem_text c)) = None \<or> 1024 \<le> p + 1")
      case True
      then show ?thesis using step Some self by (auto simp: Let_def split: option.splits)
    next
      case False
      then obtain te where te: "te_size (cstr (mem_text c)) = Some te" by auto
      note tb = te_size_line [OF te Some]
      have h: "2 \<le> p + 1" "p + 1 \<le> length (mem_text c)" using tb(1) sp length_cstr [of "mem_text c"] by simp_all
      then have h': "p + 1 \<le> length (pending_text con)" using t(2) by simp
      show ?thesis
      proof (cases "te = 0")
        case True
        obtain con' where "read_last_chunk cf (p + 1) con = Some con'" "shrinks con con'"
            "cn_request_content_queue con' = cn_request_content_queue con"
          using read_last_chunk_total [OF Suc.prems(1) c h Suc.prems(2)] by blast
        then show ?thesis using step Some te True False Suc.prems(3) by (simp add: Let_def te_ok_def)
      next
        case nz: False
        have "0 < te" using nz tb(2) by simp
        then obtain r con' where "read_data_chunk cf (p + 1) te con = Some (r, con')" "shrinks con con'"
            "case r of Inl st \<Rightarrow> st = 413 | Inr te' \<Rightarrow> te' = te + 2 \<and> te_ok cf con' te'"
          using read_data_chunk_total [OF Suc.prems(1) h' _ tb(3) Suc.prems(2)] Suc.prems(3) by (auto simp: te_ok_def)
        then show ?thesis using step Some te nz False by (auto simp: Let_def split: sum.splits)
      qed
    qed
  next
    case None
    show ?thesis
    proof (cases "1024 \<le> length (mem_text c) \<or> r = []")
      case True
      then show ?thesis using step None self Suc.prems(3) by (auto simp: Let_def)
    next
      case False
      then obtain d r' where d: "r = d # r'" by (cases r) auto
      obtain con1 d' where con1: "con1 = con\<lparr>cn_read_queue := snd (the (connection_handle_read_post_cq_compact (cn_read_queue con)))\<rparr>"
          "reading con1" "cq_chunks (cn_read_queue con1) = d' # r'" "pending_text con1 = pending_text con"
          "stored_bytes (cn_read_queue con1) \<le> stored_bytes (cn_read_queue con)"
        using merged [OF Suc.prems(1)] c d by metis
      have e: "read_chunk_header cf con = read_chunk_header cf con1"
        using step None False d con1(1) by (simp add: Let_def)
      have "merge_step con con1" using con1 by (simp add: merge_step_def)
      note m = merge_shrinks [OF this] merge_same(1) [OF this]
      have "k = length (cq_chunks (cn_read_queue con1))" using Suc.hyps(2) c d con1(3) by simp
      from Suc.hyps(1) [OF this con1(2) shrinks_limited [OF m(1) Suc.prems(2)]]
      have "\<exists>r con'. read_chunk_header cf con1 = Some (r, con') \<and> shrinks con1 con'
        \<and> (case r of Inl st \<Rightarrow> st = 400 \<or> st = 413 | Inr te \<Rightarrow> te_ok cf con' te)"
        using Suc.prems(3) m(2) by (simp add: te_ok_def)
      then show ?thesis unfolding e using shrinks_trans [OF m(1)] by blast
    qed
  qed
qed


lemma read_chunk_data_total:
  assumes "reading con" "te_ok cf con te" "te \<noteq> 0" "limited cf con"
  shows "\<exists>good te' con' e'. read_chunk_data e te con = Some (good, te', con', e') \<and> shrinks con con'
    \<and> (good \<longrightarrow> te' \<noteq> 0 \<and> te_ok cf con' te' \<and> (te' = 2 \<or> int (length (pending_text con')) < te'))"
proof (cases "te \<le> 2")
  case True
  then have "te = 2" using assms(2,3) by (simp add: te_ok_def)
  then show ?thesis using assms body_step_refl [OF assms(1)]
    by (intro exI [of _ True]) (simp add: read_chunk_data_def shrinks_def)
next
  case False
  then have "te = int (nat (te - 2)) + 2" by simp
  then obtain m where m: "te = int m + 2" by blast
  define k where "k = min m (length (pending_text con))"
  have km: "min (cq_bytes_in (cn_read_queue con) - cq_bytes_out (cn_read_queue con)) (te - 2) = int k"
    using reading_count [OF assms(1)] m by (simp add: k_def min_def)
  have q: "text_queue (cn_read_queue con)" "fits (stored_bytes (cn_read_queue con))" "cq_wf (cn_request_content_queue con)"
    using assms(1) by (simp_all add: reading_def)
  have b: "0 \<le> body_bytes con" "int m + body_bytes con \<le> int (cf_max_request_size cf) * 1024"
    using assms(2) m by (simp_all add: te_ok_def)
  have "body_bytes con + te < 2 ^ 63" using b m assms(4) by (simp add: limited_def)
  then have o: "off_add (body_bytes con) te = Some (body_bytes con + te)" by (simp add: off_add_def)
  have done_: "shrinks con (con\<lparr>cn_read_queue := cq, cn_request_content_queue := dst\<rparr>)
      \<and> (ok \<longrightarrow> te - int k \<noteq> 0 \<and> te_ok cf (con\<lparr>cn_read_queue := cq, cn_request_content_queue := dst\<rparr>) (te - int k)
            \<and> (te - int k = 2 \<or> int (length (queue_text cq)) < te - int k))"
    if "cq_wf dst" "text_queue cq" "stored_bytes cq \<le> stored_bytes (cn_read_queue con)"
      "length (queue_text cq) \<le> length (pending_text con)"
      "cq_bytes_out dst = cq_bytes_out (cn_request_content_queue con)"
      "ok \<longrightarrow> length (cq_octets dst) = length (body_octets con) + k"
      "ok \<longrightarrow> queue_text cq = drop k (pending_text con)" for dst cq ok
  proof -
    let ?con = "con\<lparr>cn_read_queue := cq, cn_request_content_queue := dst\<rparr>"
    have r: "reading ?con" using that(1-3) fits_step [OF q(2)] by (simp add: reading_def)
    then have "shrinks con ?con" using that by (simp add: shrinks_def body_step_def)
    moreover have "te_ok cf ?con (te - int k)" if "ok"
      using body_bytes_octets [OF r] body_bytes_octets [OF assms(1)] b m that
        \<open>ok \<longrightarrow> length _ = _\<close> \<open>cq_bytes_out dst = _\<close> by (simp add: te_ok_def k_def)
    moreover have "te - int k = 2 \<or> int (length (queue_text cq)) < te - int k" if "ok"
      using that \<open>ok \<longrightarrow> queue_text cq = _\<close> m by (auto simp: k_def min_def split: if_splits)
    moreover have "te - int k \<noteq> 0" using m by (simp add: k_def)
    ultimately show ?thesis by blast
  qed
  show ?thesis
  proof (cases "body_bytes con + te \<le> 64 * 1024")
    case True
    obtain dst cq where s: "chunkqueue_steal (cn_request_content_queue con) (cn_read_queue con) (int k) = Some (dst, cq)"
        "cq_wf dst" "text_queue cq" "cq_octets dst = body_octets con @ map MemByte (take k (pending_text con))"
        "queue_text cq = drop k (pending_text con)" "stored_bytes cq \<le> stored_bytes (cn_read_queue con)"
        "cq_bytes_out dst = cq_bytes_out (cn_request_content_queue con)"
      using steal_text [OF q(1,3,2)] by blast
    have "length (cq_octets dst) = length (body_octets con) + k" using s(4) by (simp add: k_def)
    then show ?thesis using done_ [OF s(2,3,6) _ s(7), of True] s(1,5) False o True km
      by (intro exI [of _ True]) (simp add: read_chunk_data_def Let_def)
  next
    case big: False
    obtain rc dst cq e' where s: "chunkqueue_steal_with_tempfiles e (cn_request_content_queue con) (cn_read_queue con) (int k)
          = Some (rc, dst, cq, e')" "cq_wf dst" "text_queue cq" "stored_bytes cq \<le> stored_bytes (cn_read_queue con)"
        "cq_bytes_out dst = cq_bytes_out (cn_request_content_queue con)"
        "rc = 0 \<longrightarrow> queue_text cq = drop k (pending_text con)
           \<and> length (cq_octets dst) = length (body_octets con) + min k (length (pending_text con))"
      using steal_tempfiles_text [OF q(1,3), of e k] by blast
    have "cq_wf (cn_read_queue con)" using q(1) by (simp add: text_queue_def)
    then have "length (cq_octets cq) \<le> length (cq_octets (cn_read_queue con))"
      using steal_with_tempfiles_ok [OF q(3), of "cn_read_queue con" e "int k"] s(1) by (auto dest!: movedD)
    then have "length (queue_text cq) \<le> length (pending_text con)" using text_octets [OF q(1)] text_octets [OF s(3)] by simp
    moreover have "rc = 0 \<longrightarrow> length (cq_octets dst) = length (body_octets con) + k" using s(6) by (simp add: k_def)
    ultimately show ?thesis using done_ [OF s(2-4) _ s(5), of "rc = 0"] s(1,6) False o big km
      by (simp add: read_chunk_data_def Let_def)
  qed
qed

lemma read_chunk_end_total:
  assumes "reading con" "te_ok cf con te" "te \<le> int (length (pending_text con))" "te \<noteq> 0"
  shows "\<exists>r. read_chunk_end te con = Some r
    \<and> (case r of None \<Rightarrow> True | Some (te', con') \<Rightarrow> shrinks con con' \<and> te_ok cf con' te'
         \<and> (te \<noteq> 2 \<longrightarrow> te' = te \<and> con' = con) \<and> (te = 2 \<longrightarrow> te' = 0 \<and> length (pending_text con') < length (pending_text con)))"
proof (cases "te = 2")
  case False
  then show ?thesis using assms body_step_refl [OF assms(1)] by (simp add: read_chunk_end_def shrinks_def)
next
  case True
  have q: "text_queue (cn_read_queue con)" using assms(1) by (simp add: reading_def)
  obtain r where r: "connection_handle_read_post_chunked_crlf (cn_read_queue con) = Some r" using crlf_total [OF q] by blast
  have "2 \<le> length (pending_text con)" using assms(3) True by simp
  then obtain cq where cq: "chunkqueue_mark_written (cn_read_queue con) 2 = Some cq" "text_queue cq"
      "queue_text cq = drop 2 (pending_text con)" "stored_bytes cq \<le> stored_bytes (cn_read_queue con)"
    using mark_written_text [OF q, of 2] by auto
  have "shrinks con (con\<lparr>cn_read_queue := cq\<rparr>)" using shrinksI(2) [OF assms(1) cq(2,4)] cq(3) by simp
  then show ?thesis using r cq(1,3) True assms(2,3) by (auto simp: read_chunk_end_def te_ok_def)
qed

lemma read_chunks_total:
  assumes "reading con" "limited cf con" "te_ok cf con te"
  shows "\<exists>r con' e'. read_chunks cf e te con = Some (r, con', e') \<and>
    (r = HANDLER_GO_ON \<and> shrinks con con' \<and> te_ok cf con' (cn_te_chunked con')
     \<or> (r = HANDLER_FINISHED \<or> r = HANDLER_ERROR) \<and> \<not> cn_keep_alive con')"
  using assms
proof (induction "length (pending_text con)" arbitrary: con te e rule: less_induct)
  case less
  let ?goal = "\<exists>r con' e'. read_chunks cf e te con = Some (r, con', e') \<and>
    (r = HANDLER_GO_ON \<and> shrinks con con' \<and> te_ok cf con' (cn_te_chunked con')
     \<or> (r = HANDLER_FINISHED \<or> r = HANDLER_ERROR) \<and> \<not> cn_keep_alive con')"
  have reply: ?goal if "read_chunks cf e te con = read_post_reply e1 st con1" for e1 st con1
    unfolding that by (simp add: read_post_reply_def connection_handle_read_post_error_def Let_def)
  have stop: "shrinks con (con1\<lparr>cn_te_chunked := t\<rparr>) \<and> te_ok cf (con1\<lparr>cn_te_chunked := t\<rparr>) t"
    if "shrinks con con1" "te_ok cf con1 t" for con1 t
    using that te_step_trans [of con con1 t] by (simp add: shrinks_def te_ok_def)
  have "\<exists>r con1. (if te = 0 then read_chunk_header cf con else Some (Inr te, con)) = Some (r, con1) \<and> shrinks con con1
    \<and> (case r of Inl st \<Rightarrow> st = 400 \<or> st = 413 | Inr te \<Rightarrow> te_ok cf con1 te)"
    using header_total [OF less.prems(1,2)] less.prems(3) body_step_refl [OF less.prems(1)]
    by (cases "te = 0") (auto simp: shrinks_def)
  then obtain r con1 where h: "(if te = 0 then read_chunk_header cf con else Some (Inr te, con)) = Some (r, con1)" "shrinks con con1"
      "case r of Inl st \<Rightarrow> st = 400 \<or> st = 413 | Inr te \<Rightarrow> te_ok cf con1 te" by blast
  show ?case
  proof (cases r)
    case (Inl st)
    then have "read_chunks cf e te con = read_post_reply e st con1" using h(1) by (subst read_chunks.simps) simp
    then show ?thesis by (rule reply)
  next
    case (Inr te1)
    have ok1: "te_ok cf con1 te1" using h(3) Inr by simp
    show ?thesis
    proof (cases "te1 = 0")
      case True
      then show ?thesis using h(1) Inr stop [OF h(2), of 0] ok1 by (subst read_chunks.simps) simp
    next
      case nz: False
      have r1: "reading con1" "limited cf con1" using h(2) shrinks_limited [OF h(2) less.prems(2)] by (simp_all add: shrinks_def body_step_def)
      obtain good te2 con2 e2 where d: "read_chunk_data e te1 con1 = Some (good, te2, con2, e2)" "shrinks con1 con2"
          "good \<longrightarrow> te2 \<noteq> 0 \<and> te_ok cf con2 te2 \<and> (te2 = 2 \<or> int (length (pending_text con2)) < te2)"
        using read_chunk_data_total [OF r1(1) ok1 nz r1(2)] by blast
      note s2 = shrinks_trans [OF h(2) d(2)]
      have r2: "reading con2" using d(2) by (simp add: shrinks_def body_step_def)
      note c2 = reading_count [OF r2]
      show ?thesis
      proof (cases "good \<and> te2 \<le> int (length (pending_text con2))")
        case False
        show ?thesis
        proof (cases good)
          case True
          then have "read_chunks cf e te con = Some (HANDLER_GO_ON, con2\<lparr>cn_te_chunked := te2\<rparr>, e2)"
            using False h(1) Inr nz d(1) c2 by (subst read_chunks.simps) simp
          then show ?thesis using stop [OF s2, of te2] d(3) True by simp
        next
          case bad: False
          then have "read_chunks cf e te con = read_post_reply e2 500 con2"
            using h(1) Inr nz d(1) by (subst read_chunks.simps) simp
          then show ?thesis by (rule reply)
        qed
      next
        case True
        then have ok2: "te2 = 2" "te2 \<noteq> 0" "te_ok cf con2 te2" "te2 \<le> int (length (pending_text con2))" using d(3) by auto
        obtain r3 where e3: "read_chunk_end te2 con2 = Some r3"
            "case r3 of None \<Rightarrow> True | Some (te', con') \<Rightarrow> shrinks con2 con' \<and> te_ok cf con' te'
             \<and> (te2 \<noteq> 2 \<longrightarrow> te' = te2 \<and> con' = con2) \<and> (te2 = 2 \<longrightarrow> te' = 0 \<and> length (pending_text con') < length (pending_text con2))"
          using read_chunk_end_total [OF r2 ok2(3,4,2)] by blast
        have unfold: "read_chunks cf e te con = (case r3 of None \<Rightarrow> read_post_reply e2 400 con2
            | Some (te, con) \<Rightarrow> if cq_chunks (cn_read_queue con) = [] then Some (HANDLER_GO_ON, con\<lparr>cn_te_chunked := te\<rparr>, e2)
                else read_chunks cf e2 te con)"
          using h(1) Inr nz d(1) True c2 e3(1) by (subst read_chunks.simps) simp
        show ?thesis
        proof (cases r3)
          case None
          then have "read_chunks cf e te con = read_post_reply e2 400 con2" using unfold by simp
          then show ?thesis by (rule reply)
        next
          case (Some p)
          then obtain con3 where c3: "r3 = Some (0, con3)" "shrinks con2 con3" "te_ok cf con3 0"
              "length (pending_text con3) < length (pending_text con2)" using e3(2) ok2(1) by (cases p) auto
          note s3 = shrinks_trans [OF s2 c3(2)]
          show ?thesis
          proof (cases "cq_chunks (cn_read_queue con3) = []")
            case True
            then show ?thesis using unfold c3(1) stop [OF s3 c3(3)] by simp
          next
            case False
            have l: "length (pending_text con3) < length (pending_text con)" using c3(4) s2 by (simp add: shrinks_def)
            have r3: "reading con3" using c3(2) by (simp add: shrinks_def body_step_def)
            from less.hyps [OF l r3 shrinks_limited [OF s3 less.prems(2)] c3(3), of e2] show ?thesis
              using unfold c3(1) False shrinks_trans [OF s3] by auto
          qed
        qed
      qed
    qed
  qed
qed


section \<open>Properties\<close>

lemma chunked_text_hex:
  "map MemByte (chunked_text (map (\<lambda>s. (hex_string (length s), s)) ss) ''0'')
     = concat (map (frame True) (map (map MemByte) ss)) @ map MemByte (''0'' @ CRLF @ CRLF)"
  by (induction ss) (simp_all add: frame_def size_line_def)

lemma pieces_ok_hex:
  "(\<And>s. s \<in> set ss \<Longrightarrow> s \<noteq> [] \<and> length s < 2 ^ 63) \<Longrightarrow> pieces_ok (map (\<lambda>s. (hex_string (length s), s)) ss) ''0''"
  using size_digits_hex size_digits_zero by (auto simp: pieces_ok_def)

lemma body_of_hex: "body_of (map (\<lambda>s. (hex_string (length s), s)) ss) = concat ss"
  by (induction ss) auto

text \<open>
  C24. A request body under chunked coding is read back whole.  The body is cut into non-empty chunks in any
  way, their sizes are written in hexadecimal without extensions, and no trailer fields follow; with its
  line end it fits into 64 KiB, the part of a body that is kept in memory, and into the configured
  limit.  Then for every way the network cuts the message into pieces of 1 to 1023 bytes the calls
  of \<open>connection_handle_read_post_state\<close> end in the state that handles the request, with the content
  queue holding the body, \<open>content_length\<close> its length, and nothing left on the read queue.
\<close>

theorem chunked_request_body:
  assumes "awaiting con" "cn_te_chunked con = 0" "cq_chunks (cn_read_queue con) = []"
    "cq_octets (cn_request_content_queue con) = []" "pieces_ok ss z" "concat xs = chunked_text ss z"
    "\<forall>x\<in>set xs. socket_piece x" "body_fits cf con (concat (map snd ss)) z" "length (chunked_text ss z) < 2 ^ 61"
  shows "\<exists>con' cf'. deliver (socket_read fionread) now nw cf e con xs = Some (HANDLER_GO_ON, con', cf', e)
    \<and> received con' (concat (map snd ss))"
proof -
  have x: "xs \<noteq> []" using assms(6) chunked_text_length [of ss z] by auto
  have p: "pending_text con = []" "stored_bytes (cn_read_queue con) = 0"
    using assms(3) by (simp_all add: queue_text_def stored_bytes_def)
  have "expects cf con (concat xs) z (body_of ss)"
    unfolding expects_def using assms p
    by (intro conjI exI [of _ "[]"] exI [of _ ss]) (simp_all add: piece_left_def to_come_def)
  moreover have "read_room con (length (concat xs))"
    using p(2) assms(6,9) by (simp add: read_room_def fits_small)
  ultimately show ?thesis using sock.deliver_ok [OF _ x assms(7)] by simp
qed

definition post_request :: connection where
  "post_request = \<lparr>cn_state = CON_STATE_READ_POST, cn_read_queue = chunkqueue_init (None, 0),
     cn_request_content_queue = chunkqueue_init (None, 0), cn_write_queue = chunkqueue_init (None, 0),
     cn_content_length = -1, cn_te_chunked = 0, cn_http_version = HTTP_VERSION_1_1, cn_headers = array_init,
     cn_http_status = 0, cn_mode = DIRECT, cn_keep_alive = True, cn_is_readable = True, cn_is_writable = True,
     cn_bytes_header = 0, cn_bytes_written = 0, cn_bytes_written_cur_second = 0, cn_traffic_limit_reached = False,
     cn_read_idle_ts = 0, cn_request_start = 0, cn_request_count = 1, cn_request = buffer_init, cn_bytes_read = 0,
     cn_uri_authority = buffer_init, cn_uri_path = buffer_init, cn_uri_query = buffer_init\<rparr>"

definition small_limits :: con_conf where
  "small_limits = \<lparr>cf_max_request_size = 1, cf_max_request_field_size = 8192, cf_kbytes_per_second = 0,
     cf_global_kbytes_per_second = 0, cf_global_bytes = 0, cf_stream_request = False, cf_stream_request_pollin = True\<rparr>"

lemma post_request:
  "awaiting post_request" "cn_te_chunked post_request = 0" "cq_chunks (cn_read_queue post_request) = []"
  "cq_octets (cn_request_content_queue post_request) = []" "cq_bytes_in (cn_request_content_queue post_request) = 0"
  "queue_text (cn_read_queue post_request) = []" "reading post_request" "cn_content_length post_request = -1"
proof -
  have i: "text_queue (chunkqueue_init (None, 0))" "queue_text (chunkqueue_init (None, 0)) = []"
    "stored_bytes (chunkqueue_init (None, 0)) = 0" "cq_wf (chunkqueue_init (None, 0))" "cq_octets (chunkqueue_init (None, 0)) = []"
    "fits 0"
    by (simp_all add: init_ok fits_def PTRDIFF_MAX_def)
  have j: "cq_chunks (chunkqueue_init (None, 0)) = []" "cq_bytes_in (chunkqueue_init (None, 0)) = 0"
    "cq_bytes_out (chunkqueue_init (None, 0)) = 0" by (simp_all add: chunkqueue_init_def)
  show "awaiting post_request" "cn_te_chunked post_request = 0" "cq_chunks (cn_read_queue post_request) = []"
    "cq_octets (cn_request_content_queue post_request) = []" "cq_bytes_in (cn_request_content_queue post_request) = 0"
    "queue_text (cn_read_queue post_request) = []" "reading post_request" "cn_content_length post_request = -1"
    using i j by (simp_all add: post_request_def awaiting_def reading_def)
qed

lemma chunked_request_body_witness:
  "\<exists>con' cf'. deliver (socket_read None) 7 (\<lambda>con n. (0, con)) small_limits full_disk post_request
       [''5'' @ [CR], [LF] @ ''hel'', ''lo'' @ CRLF @ ''0A'', CRLF @ '' and world'' @ CRLF @ ''0'' @ CRLF, CRLF]
       = Some (HANDLER_GO_ON, con', cf', full_disk) \<and> received con' ''hello and world''"
proof -
  have d: "size_digits ''5'' \<and> hex_value ''5'' = 5" "size_digits ''0A'' \<and> hex_value ''0A'' = 10"
    by (auto simp: size_digits_def hex_value_def hex2int_value)
  show ?thesis
    using chunked_request_body [of post_request "[(''5'', ''hello''), (''0A'', '' and world'')]" "''0''"
        "[''5'' @ [CR], [LF] @ ''hel'', ''lo'' @ CRLF @ ''0A'', CRLF @ '' and world'' @ CRLF @ ''0'' @ CRLF, CRLF]"
        small_limits None 7 "\<lambda>con n. (0, con)" full_disk]
    using d size_digits_zero by (simp add: post_request pieces_ok_def size_line_def body_fits_def small_limits_def socket_piece_def)
qed

text \<open>
  C26. The server can read what it sends: a body of non-empty texts that \<open>http_chunk.c\<close> frames piece by piece and
  closes, with 20 bytes for each frame no more than 64 KiB and within the configured limit, is on the
  wire a message from which the body reader of a connection recovers the concatenation of the
  texts, for every way the bytes arrive in pieces of 1 to 1023 bytes.
\<close>

theorem sent_body_is_received:
  assumes "out_wf out" "mem_only out" "o_chunked out" "out_octets out = []" "\<And>s. s \<in> set ss \<Longrightarrow> s \<noteq> []"
    "(\<Sum>s\<leftarrow>ss. length s + 20) \<le> 65536"
    "awaiting con" "cn_te_chunked con = 0" "cq_chunks (cn_read_queue con) = []"
    "cq_octets (cn_request_content_queue con) = []" "cq_bytes_in (cn_request_content_queue con) = 0"
    "cf_max_request_size cf = 0 \<or> length (concat ss) \<le> cf_max_request_size cf * 1024" "4 < cf_max_request_field_size cf"
    "map MemByte (concat xs) = out_octets (the (send_all e0 out ss))" "\<forall>x\<in>set xs. socket_piece x"
  shows "\<exists>con' cf'. send_all e0 out ss \<noteq> None \<and> deliver (socket_read fionread) now nw cf e con xs = Some (HANDLER_GO_ON, con', cf', e)
    \<and> received con' (concat ss)"
proof -
  let ?ps = "map (\<lambda>s. (hex_string (length s), s)) ss"
  obtain out' where out': "send_all e0 out ss = Some out'"
      "out_octets out' = concat (map (frame True) (map (map MemByte) ss)) @ map MemByte (''0'' @ CRLF @ CRLF)"
    using send_all_ok [OF assms(1-3,5), where e = e0] assms(4,6) by auto
  then have x: "concat xs = chunked_text ?ps ''0''"
    using assms(14) chunked_text_hex [of ss] MemByte_inj by (metis option.sel)
  have len: "length s + 20 \<le> 65536" if "s \<in> set ss" for s
  proof -
    have "length s + 20 \<le> (\<Sum>s\<leftarrow>ss. length s + 20)" using that by (intro member_le_sum_list) auto
    then show ?thesis using assms(6) by simp
  qed
  have "length s < 2 ^ 63" if "s \<in> set ss" for s using len [OF that] by simp
  then have p: "pieces_ok ?ps ''0''" using assms(5) by (intro pieces_ok_hex) auto
  have cl: "length (concat ss) + 20 * length ss \<le> 65536"
  proof -
    have "(\<Sum>s\<leftarrow>ss. length s + 20) = length (concat ss) + 20 * length ss" by (induction ss) auto
    then show ?thesis using assms(6) by simp
  qed
  have "length (concat ss) + 2 \<le> 65536" using cl by (cases ss) auto
  then have f: "body_fits cf con (body_of ?ps) ''0''"
    unfolding body_of_hex using assms(11,12,13) by (auto simp: body_fits_def size_line_def)
  have tl: "length (chunked_text ?ps ''0'') \<le> length (concat ss) + 20 * length ss + 5"
    using len
  proof (induction ss)
    case (Cons s ss)
    have "length s < 2 ^ 64" using Cons.prems [of s] by simp
    then show ?case using Cons hex_string_length [of "length s"] by (simp add: size_line_def)
  qed (simp add: size_line_def)
  have "length (chunked_text ?ps ''0'') < 2 ^ 61" using tl cl by simp
  from chunked_request_body [OF assms(7-10) p x assms(15) f this] show ?thesis
    using out'(1) by (simp add: o_def)
qed

lemma sent_body_is_received_witness:
  "\<exists>con' cf'. send_all full_disk (out_init True) [''ab''] \<noteq> None
     \<and> deliver (socket_read None) 7 (\<lambda>con n. (0, con)) small_limits full_disk post_request
          [''02'' @ CRLF @ ''a'', ''b'' @ CRLF @ ''0'' @ CRLF @ CRLF] = Some (HANDLER_GO_ON, con', cf', full_disk)
     \<and> received con' ''ab''"
proof -
  have o: "out_wf (out_init True)" "mem_only (out_init True)" "o_chunked (out_init True)" "out_octets (out_init True) = []"
    by (simp_all add: out_init_ok)
  obtain out' where o': "send_all full_disk (out_init True) [''ab''] = Some out'"
      "out_octets out' = concat (map (frame True) (map (map MemByte) [''ab''])) @ map MemByte (''0'' @ CRLF @ CRLF)"
    using send_all_ok [OF o(1-3), where ss = "[''ab'']" and e = full_disk] o(4) by auto
  have h: "hex_string (length ''ab'') = ''02''" by code_simp
  let ?xs = "[''02'' @ CRLF @ ''a'', ''b'' @ CRLF @ ''0'' @ CRLF @ CRLF]"
  have x: "map MemByte (concat ?xs) = out_octets (the (send_all full_disk (out_init True) [''ab'']))"
    using o' h by (simp del: send_all.simps add: frame_def)
  have l: "(\<Sum>s\<leftarrow>[''ab'']. length s + 20) \<le> 65536"
    "cf_max_request_size small_limits = 0 \<or> length (concat [''ab'']) \<le> cf_max_request_size small_limits * 1024"
    "4 < cf_max_request_field_size small_limits" by (simp_all add: small_limits_def)
  have "\<exists>con' cf'. send_all full_disk (out_init True) [''ab''] \<noteq> None
     \<and> deliver (socket_read None) 7 (\<lambda>con n. (0, con)) small_limits full_disk post_request ?xs = Some (HANDLER_GO_ON, con', cf', full_disk)
     \<and> received con' (concat [''ab''])"
    by (rule sent_body_is_received [OF o _ l(1) post_request(1-5) l(2,3) x]) (auto simp: socket_piece_def)
  then show ?thesis by (simp only: concat.simps append_Nil2)
qed

text \<open>
  C25. Whatever text of non-empty memory chunks is on the read queue, the chunked reader returns: no assertion fails, no read
  leaves a chunk and no arithmetic overflows, provided that a request size limit is configured and the
  unread bytes are fewer than the limit of a header.  The content queue never grows beyond the
  limit, counting what has been announced of the current chunk; an answer that is not
  \<open>HANDLER_GO_ON\<close> ends the connection after its response.
\<close>

theorem chunked_reader_total:
  assumes "reading con" "0 < cf_max_request_size cf" "cf_max_request_size cf < 2 ^ 32"
    "length (queue_text (cn_read_queue con)) < cf_max_request_field_size cf" "te_ok cf con (cn_te_chunked con)"
  shows "\<exists>r con' e'. connection_handle_read_post_chunked cf e con = Some (r, con', e') \<and>
    (if r = HANDLER_GO_ON
     then reading con' \<and> te_ok cf con' (cn_te_chunked con')
       \<and> cq_bytes_in (cn_request_content_queue con') \<le> int (cf_max_request_size cf) * 1024
     else (r = HANDLER_FINISHED \<or> r = HANDLER_ERROR) \<and> \<not> cn_keep_alive con')"
proof -
  have "limited cf con" using assms(2-4) by (simp add: limited_def)
  then obtain r con' e' where r: "read_chunks cf e (cn_te_chunked con) con = Some (r, con', e')"
      "r = HANDLER_GO_ON \<and> shrinks con con' \<and> te_ok cf con' (cn_te_chunked con')
       \<or> (r = HANDLER_FINISHED \<or> r = HANDLER_ERROR) \<and> \<not> cn_keep_alive con'"
    using read_chunks_total [OF assms(1) _ assms(5)] by blast
  then show ?thesis
    by (auto simp: connection_handle_read_post_chunked_def shrinks_def body_step_def te_ok_def)
qed

definition garbage :: connection where
  "garbage = post_request\<lparr>cn_read_queue := the (chunkqueue_append_mem (chunkqueue_init (None, 0)) (''5 ;'' @ [LF, CHR 0x00, CR]))\<rparr>"

lemma garbage: "reading garbage" "queue_text (cn_read_queue garbage) = ''5 ;'' @ [LF, CHR 0x00, CR]"
  "te_ok small_limits garbage (cn_te_chunked garbage)"
proof -
  let ?x = "''5 ;'' @ [LF, CHR 0x00, CR]"
  have i: "text_queue (chunkqueue_init (None, 0))" "queue_text (chunkqueue_init (None, 0)) = []"
    "stored_bytes (chunkqueue_init (None, 0)) = 0"
    by (simp_all add: init_ok)
  have f: "fits (length ?x)" "?x \<noteq> []" by (simp_all add: fits_def PTRDIFF_MAX_def)
  from append_mem_text [OF i(1) f(2,1)] obtain cq where "chunkqueue_append_mem (chunkqueue_init (None, 0)) ?x = Some cq"
    "text_queue cq" "queue_text cq = ?x" "stored_bytes cq = length ?x"
    using i(2,3) by auto
  then show "reading garbage" "queue_text (cn_read_queue garbage) = ?x"
    using f(1) post_request(7) by (simp_all add: garbage_def reading_def)
  show "te_ok small_limits garbage (cn_te_chunked garbage)"
    using post_request(2,5) by (simp add: garbage_def te_ok_def small_limits_def)
qed

lemma chunked_reader_total_witness:
  "\<exists>r con' e'. connection_handle_read_post_chunked small_limits full_disk garbage = Some (r, con', e')"
  using chunked_reader_total [OF garbage(1), of small_limits full_disk] garbage(2,3) by (auto simp: small_limits_def)

section \<open>Where the reader goes wrong\<close>

text \<open>
  Without a limit (the default), the largest size that passes the test of the digits overflows
  when the two bytes of the line end are added to it.
\<close>

lemma te_size_overflows: "te_size (''7fffffffffffffff'' @ CRLF) = Some (2 ^ 63 - 1) \<and> off_add (2 ^ 63 - 1) 2 = None"
  by (simp add: te_size_def hex2int_value off_add_def)

text \<open>A line without any digit is taken for the last chunk.\<close>

lemma te_size_empty: "te_size CRLF = Some 0 \<and> size_digits [] \<and> hex_value [] = 0"
  by (simp add: te_size_def hex2int_value size_digits_def hex_value_def)

text \<open>Trailers that reach the limit of a header make the code compute with a null pointer.\<close>

lemma long_trailers_crash:
  assumes "text_queue (cn_read_queue con)" "cq_chunks (cn_read_queue con) = [c]" "mem_text c = ''0'' @ CRLF @ t"
    "strstr (cstr (CRLF @ t)) (CRLF @ CRLF) = None" "cf_max_request_field_size cf \<le> length (mem_text c)"
  shows "read_last_chunk cf 3 con = None"
proof -
  have c: "live c" using assms(1,2) by (simp add: text_queue_def)
  have "chunk_cstr c 1 = Some (cstr (CRLF @ t))" using live_cstr [OF c, of 1] assms(3) by simp
  then have "find_trailer_end 1 (cn_read_queue con) = Some (None, cn_read_queue con)"
    using assms(2,4) by (subst find_trailer_end.simps) (simp add: connection_handle_read_post_cq_compact.simps)
  then show ?thesis using assms(2,5) live_avail(3) [OF c] by (simp add: read_last_chunk_def)
qed

end
