(* ===== verification/SplayTree.thy ===== *)
theory SplayTree
  imports Prelude "HOL-Library.Word"
begin

unbundle bit_operations_syntax

text \<open>
  The splay trees of \<open>src/src/splaytree.c\<close>, which index the stat cache by a hash.  The top-down
  splay of the source takes the tree apart while it goes down: the nodes it leaves to the left
  and to the right hang below one another in two chains, which are put back together at the
  end.  Here the chains are lists, from the top node to the bottom one; a pointer to a node is
  the tree below it.
\<close>

section \<open>The code\<close>

datatype 'd splay_tree =
    Leaf
  | Node (left: "'d splay_tree") (key: int) (size: int) (data: 'd) (right: "'d splay_tree")
  where "left Leaf = Leaf" | "right Leaf = Leaf"

text \<open>\<open>splaytree_size\<close>, and the comparison, a subtraction of two \<open>int\<close>s.\<close>

fun node_size :: "'d splay_tree \<Rightarrow> int" where
  "node_size Leaf = 0"
| "node_size (Node l k s d r) = s"

definition compare :: "int \<Rightarrow> int \<Rightarrow> int" where
  "compare i j = int32 (i - j)"

text \<open>A node whose right (left) child is the next one of its chain.\<close>

type_synonym 'd left_link = "'d splay_tree \<times> int \<times> 'd"
type_synonym 'd right_link = "int \<times> 'd \<times> 'd splay_tree"

type_synonym 'd splay_state = "'d splay_tree \<times> 'd left_link list \<times> 'd right_link list \<times> int \<times> int"

text \<open>One round of the loop; the flag is \<open>break\<close>.\<close>

fun splay_step :: "int \<Rightarrow> 'd splay_state \<Rightarrow> bool \<times> 'd splay_state" where
  "splay_step i (Leaf, st) = (True, Leaf, st)"
| "splay_step i (Node lt k s d rt, ls, rs, l_size, r_size) =
     (let t = Node lt k s d rt; comp = compare i k
      in if comp < 0 then
           (case lt of
              Leaf \<Rightarrow> (True, t, ls, rs, l_size, r_size)
            | Node ll lk lsz ld lr \<Rightarrow>
                if compare i lk < 0 then
                  (let y = Node lr k (node_size lr + node_size rt + 1) d rt
                   in if ll = Leaf then (True, Node ll lk lsz ld y, ls, rs, l_size, r_size)
                      else (False, ll, ls, rs @ [(lk, ld, y)], l_size, r_size + (1 + node_size y)))
                else (False, lt, ls, rs @ [(k, d, rt)], l_size, r_size + (1 + node_size rt)))
         else if 0 < comp then
           (case rt of
              Leaf \<Rightarrow> (True, t, ls, rs, l_size, r_size)
            | Node rl rk rsz rd rr \<Rightarrow>
                if 0 < compare i rk then
                  (let y = Node lt k (node_size lt + node_size rl + 1) d rl
                   in if rr = Leaf then (True, Node y rk rsz rd rr, ls, rs, l_size, r_size)
                      else (False, rr, ls @ [(y, rk, rd)], rs, l_size + (1 + node_size y), r_size))
                else (False, rt, ls @ [(lt, k, d)], rs, l_size + (1 + node_size lt), r_size))
         else (True, t, ls, rs, l_size, r_size))"

lemma splay_step_smaller:
  "splay_step i (t, u) = (False, t', u') \<Longrightarrow> size_splay_tree (\<lambda>_. 0) t' < size_splay_tree (\<lambda>_. 0) t"
  by (cases u; cases t) (auto simp: Let_def split: if_splits splay_tree.splits)

function splay_loop :: "int \<Rightarrow> 'd splay_state \<Rightarrow> 'd splay_state" where
  "splay_loop i st = (case splay_step i st of (stop, st') \<Rightarrow> if stop then st' else splay_loop i st')"
  by pat_completeness auto
termination
  by (relation "measure (\<lambda>(i, st). size_splay_tree (\<lambda>_. 0) (fst st))")
    (auto dest!: splay_step_smaller [OF sym] simp del: splay_step.simps)

declare splay_loop.simps [simp del]

lemma splay_loop_rule:
  "P st \<Longrightarrow> (\<And>st st'. P st \<Longrightarrow> splay_step i st = (False, st') \<Longrightarrow> P st') \<Longrightarrow>
   (\<And>st st'. P st \<Longrightarrow> splay_step i st = (True, st') \<Longrightarrow> Q st') \<Longrightarrow> Q (splay_loop i st)"
proof (induction i st rule: splay_loop.induct)
  case (1 i st)
  obtain stop st' where s: "splay_step i st = (stop, st')" by (cases "splay_step i st")
  show ?case
  proof (cases stop)
    case True
    then have "splay_loop i st = st'" using s by (simp add: splay_loop.simps [of i st])
    then show ?thesis using 1(4) [OF 1(2)] s True by simp
  next
    case False
    then have "splay_loop i st = splay_loop i st'" using s by (simp add: splay_loop.simps [of i st])
    moreover have "P st'" using 1(3) [OF 1(2)] s False by simp
    ultimately show ?thesis using 1(1) [OF s [symmetric] False _ 1(3) 1(4)] by simp
  qed
qed

text \<open>The chains with their sizes corrected, and the tree that goes below the last node.\<close>

fun build_left :: "int \<Rightarrow> 'd left_link list \<Rightarrow> 'd splay_tree \<Rightarrow> 'd splay_tree" where
  "build_left l_size [] t = t"
| "build_left l_size ((l, k, d) # ls) t = Node l k l_size d (build_left (l_size - (1 + node_size l)) ls t)"

fun build_right :: "int \<Rightarrow> 'd right_link list \<Rightarrow> 'd splay_tree \<Rightarrow> 'd splay_tree" where
  "build_right r_size [] t = t"
| "build_right r_size ((k, d, r) # rs) t = Node (build_right (r_size - (1 + node_size r)) rs t) k r_size d r"

definition splaytree_splay :: "'d splay_tree \<Rightarrow> int \<Rightarrow> 'd splay_tree" where
  "splaytree_splay t i =
     (case splay_loop i (t, [], [], 0, 0) of
        (Leaf, _) \<Rightarrow> Leaf
      | (Node lt k s d rt, ls, rs, l_size, r_size) \<Rightarrow>
          (let l_size = l_size + node_size lt; r_size = r_size + node_size rt
           in Node (build_left l_size ls lt) k (l_size + r_size + 1) d (build_right r_size rs rt)))"

definition splaytree_insert :: "'d splay_tree \<Rightarrow> int \<Rightarrow> 'd \<Rightarrow> 'd splay_tree" where
  "splaytree_insert t i v =
     (case splaytree_splay t i of
        Leaf \<Rightarrow> Node Leaf i 1 v Leaf
      | Node l k s d r \<Rightarrow>
          if compare i k = 0 then Node l k s d r
          else if compare i k < 0 then
            (let t = Node Leaf k (1 + node_size r) d r
             in Node l i (1 + node_size l + node_size t) v t)
          else
            (let t = Node l k (1 + node_size l) d Leaf
             in Node t i (1 + node_size t + node_size r) v r))"

definition splaytree_delete :: "'d splay_tree \<Rightarrow> int \<Rightarrow> 'd splay_tree" where
  "splaytree_delete t i =
     (case splaytree_splay t i of
        Leaf \<Rightarrow> Leaf
      | Node l k s d r \<Rightarrow>
          if compare i k = 0 then
            (case l of
               Leaf \<Rightarrow> (case r of Leaf \<Rightarrow> Leaf | Node rl rk rs rd rr \<Rightarrow> Node rl rk (node_size t - 1) rd rr)
             | _ \<Rightarrow>
                 (case splaytree_splay l i of
                    Leaf \<Rightarrow> Leaf
                  | Node xl xk xs xd xr \<Rightarrow> Node xl xk (node_size t - 1) xd r))
          else Node l k s d r)"

section \<open>What a tree holds\<close>

fun entries :: "'d splay_tree \<Rightarrow> (int \<times> 'd) list" where
  "entries Leaf = []"
| "entries (Node l k s d r) = entries l @ (k, d) # entries r"

text \<open>The sizes count the nodes, and the keys ascend and are apart by less than \<open>2 ^ 31\<close>.\<close>

fun sizes_ok :: "'d splay_tree \<Rightarrow> bool" where
  "sizes_ok Leaf \<longleftrightarrow> True"
| "sizes_ok (Node l k s d r) \<longleftrightarrow> sizes_ok l \<and> sizes_ok r \<and> s = int (length (entries l)) + int (length (entries r)) + 1"

definition key_ok :: "int \<Rightarrow> bool" where
  "key_ok k \<longleftrightarrow> 0 \<le> k \<and> k < 2 ^ 31"

definition tree_ok :: "'d splay_tree \<Rightarrow> bool" where
  "tree_ok t \<longleftrightarrow> sizes_ok t \<and> sorted_wrt (<) (map fst (entries t)) \<and> (\<forall>e\<in>set (entries t). key_ok (fst e))"

definition tree_map :: "'d splay_tree \<Rightarrow> int \<Rightarrow> 'd option" where
  "tree_map t = map_of (entries t)"

lemma compare_sign:
  assumes "key_ok i" "key_ok j"
  shows "compare i j = i - j"
  using assms by (simp add: compare_def key_ok_def int32_def)

lemma node_size_entries: "sizes_ok t \<Longrightarrow> node_size t = int (length (entries t))"
  by (cases t) auto

lemma entries_Nil [simp]: "entries t = [] \<longleftrightarrow> t = Leaf"
  by (cases t) auto

text \<open>The entries to the left and to the right of the tree that is being splayed.\<close>

definition left_entries :: "'d left_link list \<Rightarrow> (int \<times> 'd) list" where
  "left_entries ls = concat (map (\<lambda>(l, k, d). entries l @ [(k, d)]) ls)"

definition right_entries :: "'d right_link list \<Rightarrow> (int \<times> 'd) list" where
  "right_entries rs = concat (rev (map (\<lambda>(k, d, r). (k, d) # entries r) rs))"

lemma chain_entries [simp]:
  "left_entries [] = []" "left_entries (ls @ [(l, k, d)]) = left_entries ls @ entries l @ [(k, d)]"
  "left_entries ((l, k, d) # ls) = entries l @ (k, d) # left_entries ls"
  "right_entries [] = []" "right_entries (rs @ [(k, d, r)]) = (k, d) # entries r @ right_entries rs"
  "right_entries ((k, d, r) # rs) = right_entries rs @ (k, d) # entries r"
  by (simp_all add: left_entries_def right_entries_def)

lemma build_entries [simp]:
  "entries (build_left n ls t) = left_entries ls @ entries t"
  "entries (build_right n rs t) = entries t @ right_entries rs"
  by (induction n ls t rule: build_left.induct; simp) (induction n rs t rule: build_right.induct; simp)

section \<open>Splaying\<close>

text \<open>
  The state of the splay: the entries it holds, the sizes of the chains, and the key between
  the chains.
\<close>

fun state_entries :: "'d splay_state \<Rightarrow> (int \<times> 'd) list" where
  "state_entries (t, ls, rs, m, n) = left_entries ls @ entries t @ right_entries rs"

fun links_ok :: "'d splay_state \<Rightarrow> bool" where
  "links_ok (t, ls, rs, m, n) \<longleftrightarrow> (\<forall>x\<in>set ls. sizes_ok (fst x)) \<and> (\<forall>x\<in>set rs. sizes_ok (snd (snd x)))
     \<and> m = int (length (left_entries ls)) \<and> n = int (length (right_entries rs)) \<and> sizes_ok (left t) \<and> sizes_ok (right t)"

definition below :: "int \<Rightarrow> (int \<times> 'd) list \<Rightarrow> bool" where
  "below i es \<longleftrightarrow> (\<forall>e\<in>set es. fst e < i)"

definition beyond :: "int \<Rightarrow> (int \<times> 'd) list \<Rightarrow> bool" where
  "beyond i es \<longleftrightarrow> (\<forall>e\<in>set es. i < fst e)"

lemma below_simps [simp]:
  "below i []" "below i (e # es) \<longleftrightarrow> fst e < i \<and> below i es" "below i (es @ fs) \<longleftrightarrow> below i es \<and> below i fs"
  by (auto simp: below_def)

lemma beyond_simps [simp]:
  "beyond i []" "beyond i (e # es) \<longleftrightarrow> i < fst e \<and> beyond i es" "beyond i (es @ fs) \<longleftrightarrow> beyond i es \<and> beyond i fs"
  by (auto simp: beyond_def)

lemma below_trans: "below i es \<Longrightarrow> i \<le> j \<Longrightarrow> below j es"
  by (auto simp: below_def)

lemma beyond_trans: "beyond i es \<Longrightarrow> j \<le> i \<Longrightarrow> beyond j es"
  by (auto simp: beyond_def)

fun around :: "int \<Rightarrow> 'd splay_state \<Rightarrow> bool" where
  "around i (t, ls, rs, m, n) \<longleftrightarrow> below i (left_entries ls) \<and> beyond i (right_entries rs)"

definition sorted_tree :: "'d splay_tree \<Rightarrow> bool" where
  "sorted_tree t \<longleftrightarrow> sorted_wrt (<) (map fst (entries t)) \<and> (\<forall>e\<in>set (entries t). key_ok (fst e))"

lemma sorted_tree_simps [simp]:
  "sorted_tree Leaf"
  "sorted_tree (Node l k s d r) \<longleftrightarrow> sorted_tree l \<and> sorted_tree r \<and> key_ok k
     \<and> below k (entries l) \<and> beyond k (entries r)"
  by (auto simp: sorted_tree_def sorted_wrt_append below_def beyond_def intro: less_trans)

fun at_root :: "int \<Rightarrow> 'd splay_tree \<Rightarrow> bool" where
  "at_root i Leaf \<longleftrightarrow> True"
| "at_root i (Node l k s d r) \<longleftrightarrow> i = k \<or> (i < k \<and> l = Leaf) \<or> (k < i \<and> r = Leaf)"

lemma step_entries: "splay_step i st = (b, st') \<Longrightarrow> state_entries st' = state_entries st"
  by (cases "(i, st)" rule: splay_step.cases) (auto simp: Let_def split: if_splits splay_tree.splits)

lemma sizes_ok_children: "sizes_ok t \<Longrightarrow> sizes_ok (left t)" "sizes_ok t \<Longrightarrow> sizes_ok (right t)"
  by (cases t; simp)+

lemma step_links: "splay_step i st = (b, st') \<Longrightarrow> sizes_ok (fst st) \<Longrightarrow> links_ok st \<Longrightarrow> links_ok st' \<and> (\<not> b \<longrightarrow> sizes_ok (fst st'))"
  by (cases "(i, st)" rule: splay_step.cases)
    (auto simp: Let_def node_size_entries sizes_ok_children split: if_splits splay_tree.splits)

lemma step_root:
  assumes "splay_step i st = (b, st')" "key_ok i" "sorted_tree (fst st)" "around i st"
  shows "around i st' \<and> sorted_tree (fst st') \<and> (b \<longrightarrow> at_root i (fst st'))"
  using assms
  by (cases "(i, st)" rule: splay_step.cases)
    (auto simp: Let_def compare_sign split: if_splits splay_tree.splits, (erule below_trans beyond_trans; simp)+)

lemma build_sizes:
  "sizes_ok t \<Longrightarrow> \<forall>x\<in>set ls. sizes_ok (fst x) \<Longrightarrow> m = int (length (left_entries ls)) + node_size t \<Longrightarrow> sizes_ok (build_left m ls t)"
  "sizes_ok t \<Longrightarrow> \<forall>x\<in>set rs. sizes_ok (snd (snd x)) \<Longrightarrow> n = int (length (right_entries rs)) + node_size t \<Longrightarrow> sizes_ok (build_right n rs t)"
  by (induction m ls t rule: build_left.induct; simp add: node_size_entries)
    (induction n rs t rule: build_right.induct; simp add: node_size_entries)

lemma step_keeps: "splay_step i st = (b, st') \<Longrightarrow> fst st \<noteq> Leaf \<Longrightarrow> fst st' \<noteq> Leaf"
  by (cases "(i, st)" rule: splay_step.cases) (auto simp: Let_def split: if_splits splay_tree.splits)

text \<open>What the loop leaves, from which the result is put together.\<close>

lemma splay_loop_ok:
  fixes t :: "'d splay_tree"
  assumes "t \<noteq> Leaf"
  obtains lt k s d rt ls rs m n where
    "splaytree_splay t i = Node (build_left (m + node_size lt) ls lt) k (m + node_size lt + (n + node_size rt) + 1) d (build_right (n + node_size rt) rs rt)"
    "left_entries ls @ entries lt @ (k, d) # entries rt @ right_entries rs = entries t"
    "sizes_ok t \<Longrightarrow> links_ok (Node lt k s d rt, ls, rs, m, n)"
    "key_ok i \<Longrightarrow> sorted_tree t \<Longrightarrow> around i (Node lt k s d rt, ls, rs, m, n) \<and> at_root i (Node lt k s d rt) \<and> sorted_tree (Node lt k s d rt)"
proof -
  let ?st = "(t, [], [], 0, 0) :: 'd splay_state"
  obtain t' ls rs m n where r: "splay_loop i ?st = (t', ls, rs, m, n)" by (cases "splay_loop i ?st")
  have e: "state_entries (splay_loop i ?st) = entries t \<and> fst (splay_loop i ?st) \<noteq> Leaf"
    by (rule splay_loop_rule [where P = "\<lambda>st. state_entries st = entries t \<and> fst st \<noteq> Leaf"])
      (use assms in \<open>auto simp: step_entries step_keeps\<close>)
  then obtain lt k s d rt where t': "t' = Node lt k s d rt" using r by (cases t') auto
  have l: "links_ok (splay_loop i ?st)" if "sizes_ok t"
  proof (rule splay_loop_rule [where P = "\<lambda>st. sizes_ok (fst st) \<and> links_ok st"])
    show "sizes_ok (fst ?st) \<and> links_ok ?st" using that by (simp add: sizes_ok_children)
  qed (use step_links in blast)+
  have o: "around i (splay_loop i ?st) \<and> at_root i (fst (splay_loop i ?st)) \<and> sorted_tree (fst (splay_loop i ?st))"
    if "key_ok i" "sorted_tree t"
  proof (rule splay_loop_rule [where P = "\<lambda>st. sorted_tree (fst st) \<and> around i st"])
    show "sorted_tree (fst ?st) \<and> around i ?st" using that by simp
  qed (use step_root that(1) in blast)+
  show ?thesis
    by (rule that [of m lt ls k n rt d rs s])
      (use e l o r t' in \<open>simp_all add: splaytree_splay_def Let_def\<close>)
qed

lemma splay_sizes: "sizes_ok t \<Longrightarrow> sizes_ok (splaytree_splay t i)"
proof (cases "t = Leaf")
  case False
  assume t: "sizes_ok t"
  obtain lt k s d rt ls rs m n where r:
    "splaytree_splay t i = Node (build_left (m + node_size lt) ls lt) k (m + node_size lt + (n + node_size rt) + 1) d (build_right (n + node_size rt) rs rt)"
    "links_ok (Node lt k s d rt, ls, rs, m, n)"
    using splay_loop_ok [OF False, of i] t by metis
  then show ?thesis by (simp add: build_sizes node_size_entries)
qed (simp add: splaytree_splay_def splay_loop.simps)

lemma splay_Leaf [simp]: "splaytree_splay t i = Leaf \<longleftrightarrow> t = Leaf"
proof (cases "t = Leaf")
  case False
  show ?thesis by (rule splay_loop_ok [OF False, of i]) (use False in auto)
qed (simp add: splaytree_splay_def splay_loop.simps)

lemma splay_of_Leaf [simp]: "splaytree_splay Leaf i = Leaf"
  by (simp add: splaytree_splay_def splay_loop.simps)

lemma splay_entries [simp]: "entries (splaytree_splay t i) = entries t"
proof (cases "t = Leaf")
  case False
  then obtain lt k s d rt ls rs m n where
    "splaytree_splay t i = Node (build_left (m + node_size lt) ls lt) k (m + node_size lt + (n + node_size rt) + 1) d (build_right (n + node_size rt) rs rt)"
    "left_entries ls @ entries lt @ (k, d) # entries rt @ right_entries rs = entries t"
    using splay_loop_ok [OF False, of i] by metis
  then show ?thesis by simp
qed simp

lemma splay_root:
  assumes "splaytree_splay t i = Node l k s d r" "key_ok i" "sorted_tree t"
  shows "below i (entries l)" "beyond i (entries r)" "key_ok k" "below k (entries l)" "beyond k (entries r)"
proof -
  have ne: "t \<noteq> Leaf" using assms(1) splay_Leaf [of t i] by auto
  obtain lt k' s' d' rt ls rs m n where
    r: "splaytree_splay t i = Node (build_left (m + node_size lt) ls lt) k' (m + node_size lt + (n + node_size rt) + 1) d' (build_right (n + node_size rt) rs rt)"
    "around i (Node lt k' s' d' rt, ls, rs, m, n) \<and> at_root i (Node lt k' s' d' rt) \<and> sorted_tree (Node lt k' s' d' rt)"
    using splay_loop_ok [OF ne, of i] assms(2,3) by metis
  have eq: "l = build_left (m + node_size lt) ls lt" "r = build_right (n + node_size rt) rs rt" "k = k'"
    using r(1) assms(1) by simp_all
  have ks: "sorted_tree (Node l k s d r)"
    using assms(1,3) splay_entries [of t i] by (metis sorted_tree_def)
  then show "key_ok k" "below k (entries l)" "beyond k (entries r)" by simp_all
  show "below i (entries l)"
    using r(2) eq(1) below_trans [of k' "entries lt" i] by auto
  show "beyond i (entries r)"
    using r(2) eq(2) beyond_trans [of k' "entries rt" i] by auto
qed

section \<open>Inserting and deleting\<close>

lemma tree_ok_iff: "tree_ok t \<longleftrightarrow> sizes_ok t \<and> sorted_tree t"
  by (simp add: tree_ok_def sorted_tree_def)

lemma map_of_below: "below i es \<Longrightarrow> i \<le> j \<Longrightarrow> map_of es j = None"
  by (induction es) auto

lemma map_of_beyond: "beyond i es \<Longrightarrow> j \<le> i \<Longrightarrow> map_of es j = None"
  by (induction es) auto

lemma splay_ok: "tree_ok t \<Longrightarrow> tree_ok (splaytree_splay t i) \<and> tree_map (splaytree_splay t i) = tree_map t"
  by (simp add: tree_ok_iff splay_sizes sorted_tree_def tree_map_def)

text \<open>\<open>i\<close> is found exactly at the root.\<close>

lemma splay_finds:
  assumes "splaytree_splay t i = Node l k s d r" "key_ok i" "tree_ok t"
  shows "tree_map t i = (if i = k then Some d else None)"
proof -
  note r = splay_root [OF assms(1,2)] assms(3)
  have "map_of (entries l) i = None" "map_of (entries r) i = None"
    using r map_of_below [of i "entries l" i] map_of_beyond [of i "entries r" i] by (auto simp: tree_ok_iff)
  moreover have "tree_map t = tree_map (Node l k s d r)" using splay_ok [OF assms(3), of i] assms(1) by simp
  ultimately show ?thesis by (simp add: tree_map_def map_add_def)
qed

lemma insert_ok:
  assumes "tree_ok t" "key_ok i"
  shows "tree_ok (splaytree_insert t i v)"
    "tree_map (splaytree_insert t i v) = (if tree_map t i = None then (tree_map t)(i \<mapsto> v) else tree_map t)"
proof -
  have "tree_ok (splaytree_insert t i v) \<and>
    tree_map (splaytree_insert t i v) = (if tree_map t i = None then (tree_map t)(i \<mapsto> v) else tree_map t)"
  proof (cases "splaytree_splay t i")
    case Leaf
    then have "t = Leaf" by simp
    then show ?thesis using assms(2) by (auto simp: splaytree_insert_def tree_ok_iff tree_map_def)
  next
    case (Node l k s d r)
    have ok: "sizes_ok l" "sizes_ok r" "s = int (length (entries l)) + int (length (entries r)) + 1" "sorted_tree l" "sorted_tree r"
      "entries t = entries l @ (k, d) # entries r"
      using splay_ok [OF assms(1), of i] Node splay_entries [of t i] by (simp_all add: tree_ok_iff)
    have st: "sorted_tree t" using assms(1) by (simp add: tree_ok_iff)
    note root = splay_root [OF Node assms(2) st]
    have c: "compare i k = i - k" using assms(2) root(3) by (simp add: compare_sign)
    note f = splay_finds [OF Node assms(2,1)]
    have nl: "map_of (entries l) i = None" using map_of_below root(1) by blast
    consider "i = k" | "i < k" | "k < i" by linarith
    then show ?thesis
    proof cases
      case 1
      then show ?thesis using Node c f ok splay_ok [OF assms(1), of i] by (simp add: splaytree_insert_def)
    next
      case 2
      then show ?thesis using Node c f ok root assms(2) nl
        by (auto simp: splaytree_insert_def tree_ok_iff node_size_entries tree_map_def map_add_def fun_eq_iff Let_def split: option.split)
    next
      case 3
      then show ?thesis using Node c f ok root assms(2) nl map_of_beyond [OF root(2)]
        by (auto simp: splaytree_insert_def tree_ok_iff node_size_entries tree_map_def map_add_def fun_eq_iff Let_def split: option.split)
    qed
  qed
  then show "tree_ok (splaytree_insert t i v)"
    "tree_map (splaytree_insert t i v) = (if tree_map t i = None then (tree_map t)(i \<mapsto> v) else tree_map t)" by auto
qed

text \<open>All keys of the left subtree are below \<open>i\<close>: splaying it for \<open>i\<close> brings up its largest key, and
  nothing is lost when its right child is overwritten.\<close>

lemma splay_max:
  assumes "splaytree_splay l i = Node xl xk xs xd xr" "key_ok i" "sorted_tree l" "below i (entries l)"
  shows "xr = Leaf"
proof -
  have "entries (Node xl xk xs xd xr) = entries l" using splay_entries [of l i] assms(1) by simp
  then have "below i (entries xr)" using assms(4) by (metis below_simps(2,3) entries.simps(2))
  moreover have "beyond i (entries xr)" by (rule splay_root(2) [OF assms(1-3)])
  ultimately have "entries xr = []" by (cases "entries xr") auto
  then show ?thesis by (cases xr) auto
qed

lemma delete_ok:
  assumes "tree_ok t" "key_ok i"
  shows "tree_ok (splaytree_delete t i) \<and> tree_map (splaytree_delete t i) = (tree_map t)(i := None)"
proof (cases "splaytree_splay t i")
  case Leaf
  then have "t = Leaf" by simp
  then show ?thesis using assms by (simp add: splaytree_delete_def tree_map_def tree_ok_iff)
next
  case (Node l k s d r)
  have et: "entries t = entries l @ (k, d) # entries r" using Node splay_entries [of t i] by simp
  have ok: "sizes_ok l" "sizes_ok r" "sorted_tree l" "sorted_tree r"
    "node_size t = int (length (entries l)) + int (length (entries r)) + 1"
    using splay_ok [OF assms(1), of i] Node assms(1) by (simp_all add: tree_ok_iff node_size_entries et)
  have st: "sorted_tree t" using assms(1) by (simp add: tree_ok_iff)
  note root = splay_root [OF Node assms(2) st]
  have c: "compare i k = i - k" using assms(2) root(3) by (simp add: compare_sign)
  show ?thesis
  proof (cases "i = k")
    case False
    then show ?thesis using Node c splay_ok [OF assms(1), of i] splay_finds [OF Node assms(2,1)]
      by (simp add: splaytree_delete_def fun_upd_idem)
  next
    case True
    note none = map_of_below [OF root(1), of i] map_of_beyond [OF root(2), of i]
    show ?thesis
    proof (cases l)
      case Leaf
      then show ?thesis using Node c True ok et none
        by (cases r) (auto simp: splaytree_delete_def tree_ok_iff tree_map_def node_size_entries fun_eq_iff map_add_def split: option.splits)
    next
      case ll: (Node ll lk ls ld lr)
      then obtain xl xk xs xd xr where x: "splaytree_splay l i = Node xl xk xs xd xr"
        by (cases "splaytree_splay l i") auto
      have xr: "xr = Leaf" by (rule splay_max [OF x assms(2) ok(3) root(1)])
      have e: "entries l = entries xl @ [(xk, xd)]" using splay_entries [of l i] x xr by simp
      have d: "splaytree_delete t i = Node xl xk (node_size t - 1) xd r"
        using Node c True ll x by (simp add: splaytree_delete_def)
      have "sizes_ok xl" using splay_sizes [OF ok(1), of i] x by simp
      moreover have "sorted_tree (Node xl xk (node_size t - 1) xd r)"
      proof -
        have "sorted_tree (splaytree_splay l i)" using ok(3) by (simp add: sorted_tree_def)
        moreover have "xk < i" using root(1) e by simp
        ultimately show ?thesis using x ok(4) beyond_trans [OF root(2), of xk] by simp
      qed
      ultimately show ?thesis using d e ok et True none
        by (auto simp: tree_ok_iff tree_map_def node_size_entries fun_eq_iff map_add_def split: option.splits)
    qed
  qed
qed


section \<open>The trees as maps\<close>

lemma tree_size:
  assumes "tree_ok t"
  shows "node_size t = int (card (dom (tree_map t)))"
proof -
  have "distinct (map fst (entries t))"
    using assms by (simp add: tree_ok_def strict_sorted_iff)
  then have "card (dom (tree_map t)) = length (entries t)"
    by (metis dom_map_of_conv_image_fst length_map list.set_map distinct_card tree_map_def)
  then show ?thesis using assms by (simp add: tree_ok_iff node_size_entries)
qed

text \<open>
  What a user of the trees relies on: the lookup that a splay followed by a look at the root
  is, and the sizes that \<open>stat_cache.c\<close> asserts around its calls.
\<close>

definition root_lookup :: "'d splay_tree \<Rightarrow> int \<Rightarrow> 'd option" where
  "root_lookup t i = (case splaytree_splay t i of Leaf \<Rightarrow> None | Node l k s d r \<Rightarrow> if k = i then Some d else None)"

locale sized_map =
  fixes ok :: "'t \<Rightarrow> bool" and keys :: "int \<Rightarrow> bool" and content :: "'t \<Rightarrow> int \<Rightarrow> 'd option"
    and count :: "'t \<Rightarrow> int" and lookup :: "'t \<Rightarrow> int \<Rightarrow> 'd option"
    and add :: "'t \<Rightarrow> int \<Rightarrow> 'd \<Rightarrow> 't" and remove :: "'t \<Rightarrow> int \<Rightarrow> 't"
  assumes lookup: "ok t \<Longrightarrow> keys i \<Longrightarrow> lookup t i = content t i"
    and finite: "ok t \<Longrightarrow> finite (dom (content t)) \<and> count t = int (card (dom (content t)))"
    and add: "ok t \<Longrightarrow> keys i \<Longrightarrow>
      ok (add t i d) \<and> content (add t i d) = (if content t i = None then (content t)(i \<mapsto> d) else content t)"
    and remove: "ok t \<Longrightarrow> keys i \<Longrightarrow> ok (remove t i) \<and> content (remove t i) = (content t)(i := None)"
begin

lemma add_count:
  assumes "ok t" "keys i" "lookup t i = None"
  shows "count (add t i d) = count t + 1" "lookup (add t i d) i = Some d"
proof -
  have "i \<notin> dom (content t)" using lookup assms by (simp add: domIff)
  then show "count (add t i d) = count t + 1" using finite add assms lookup by simp
  show "lookup (add t i d) i = Some d" using lookup add assms by simp
qed

lemma remove_count:
  assumes "ok t" "keys i" "lookup t i \<noteq> None"
  shows "count (remove t i) = count t - 1" "lookup (remove t i) i = None"
proof -
  have "i \<in> dom (content t)" using lookup assms by (simp add: domIff)
  moreover from this have "0 < card (dom (content t))" using finite [OF assms(1)] card_gt_0_iff by blast
  ultimately show "count (remove t i) = count t - 1" using finite remove assms by (simp add: of_nat_diff)
  show "lookup (remove t i) i = None" using lookup remove assms by simp
qed

lemma add_remove:
  assumes "ok t" "keys i" "lookup t i = None" "keys j"
  shows "lookup (remove (add t i d) i) j = lookup t j"
  using assms lookup [of t i] lookup [of t j] add [of t i d] remove [of "add t i d" i]
    lookup [of "remove (add t i d) i" j] by (auto simp: fun_upd_idem)

end

interpretation splay: sized_map tree_ok key_ok tree_map node_size root_lookup splaytree_insert splaytree_delete
proof
  fix t :: "'d splay_tree" and i :: int and d :: 'd
  assume ok: "tree_ok t"
  show "finite (dom (tree_map t)) \<and> node_size t = int (card (dom (tree_map t)))"
    using tree_size [OF ok] by (simp add: tree_map_def finite_dom_map_of)
  assume k: "key_ok i"
  show "root_lookup t i = tree_map t i"
    using splay_finds [OF _ k ok] splay_Leaf [of t i]
    by (cases "splaytree_splay t i") (auto simp: root_lookup_def tree_map_def)
  show "tree_ok (splaytree_insert t i d) \<and> tree_map (splaytree_insert t i d) =
      (if tree_map t i = None then (tree_map t)(i \<mapsto> d) else tree_map t)"
    using insert_ok [OF ok k] by simp
  show "tree_ok (splaytree_delete t i) \<and> tree_map (splaytree_delete t i) = (tree_map t)(i := None)"
    by (rule delete_ok [OF ok k])
qed

text \<open>C27.
  A splay tree with the counts its nodes carry is a finite map from the hashes to the data.
  Splaying a well-formed tree keeps the map and the counts, and brings the entry sought to the
  root if there is one; \<open>splaytree_insert\<close> adds an entry and keeps the one the tree
  already has, \<open>splaytree_delete\<close> removes exactly the entry of its key, and all three return
  well-formed trees.
\<close>

theorem splay_tree_refines_map:
  assumes "tree_ok t" "key_ok i"
  shows "tree_ok (splaytree_splay t i) \<and> tree_map (splaytree_splay t i) = tree_map t
    \<and> root_lookup t i = tree_map t i
    \<and> tree_ok (splaytree_insert t i d)
    \<and> tree_map (splaytree_insert t i d) = (if tree_map t i = None then (tree_map t)(i \<mapsto> d) else tree_map t)
    \<and> tree_ok (splaytree_delete t i) \<and> tree_map (splaytree_delete t i) = (tree_map t)(i := None)"
  using splay_ok [OF assms(1)] splay.lookup [OF assms] splay.add [OF assms] splay.remove [OF assms] by simp

definition three_files :: "string splay_tree" where
  "three_files = splaytree_insert (splaytree_insert (splaytree_insert Leaf 5 ''a'') 9 ''b'') 7 ''c''"

lemma three_files_ok: "tree_ok three_files"
  using insert_ok(1) [of Leaf 5 "''a''"] insert_ok(1) [of "splaytree_insert Leaf 5 ''a''" 9 "''b''"]
    insert_ok(1) [of "splaytree_insert (splaytree_insert Leaf 5 ''a'') 9 ''b''" 7 "''c''"]
  by (simp add: three_files_def key_ok_def tree_ok_iff)

lemma splay_tree_refines_map_witness:
  "tree_ok (splaytree_delete three_files 5) \<and> root_lookup three_files 9 = tree_map three_files 9
    \<and> tree_map (splaytree_delete three_files 5) = (tree_map three_files)(5 := None)"
  using splay_tree_refines_map [OF three_files_ok, of 5] splay_tree_refines_map [OF three_files_ok, of 9]
  by (simp add: key_ok_def)

text \<open>The assertions the stat cache makes: when the entry is not at the root after a splay, an insertion
  makes the size that the root carries one larger and the entry is found afterwards; when it is,
  a deletion makes it one smaller and the entry is not found any more; and the size of the
  root is always the number of entries.
\<close>

theorem stat_cache_sizes:
  assumes "tree_ok t" "key_ok i"
  shows "node_size t = int (card (dom (tree_map t)))
    \<and> (if root_lookup t i = None
       then node_size (splaytree_insert t i d) = node_size t + 1 \<and> root_lookup (splaytree_insert t i d) i = Some d
       else node_size (splaytree_delete t i) = node_size t - 1 \<and> root_lookup (splaytree_delete t i) i = None)"
  using tree_size [OF assms(1)] splay.add_count [OF assms, of d] splay.remove_count [OF assms]
  by (cases "root_lookup t i") simp_all

lemma stat_cache_sizes_witness:
  "node_size (splaytree_insert three_files 8 ''d'') = 4 \<and> node_size (splaytree_delete three_files 5) = 2"
proof -
  have "root_lookup three_files 8 = None" "root_lookup three_files 5 \<noteq> None" "node_size three_files = 3" by code_simp+
  then show ?thesis
    using stat_cache_sizes [OF three_files_ok, of 8 "''d''"] stat_cache_sizes [OF three_files_ok, of 5] by (simp add: key_ok_def)
qed

text \<open>
  The comparison is only an order on keys that are less than \<open>2 ^ 31\<close> apart, which the hash of
  the stat cache provides by its mask.
\<close>

lemma compare_wraps: "compare (- 1) (2 ^ 31 - 1) < 0 \<and> 0 < compare (- 2) (2 ^ 31 - 1)"
  by code_simp

section \<open>The keys of the stat cache\<close>

text \<open>The bytes up to the terminator are the hashed string.\<close>

fun hash_loop :: "32 word \<Rightarrow> string \<Rightarrow> 32 word" where
  "hash_loop hash [] = hash"
| "hash_loop hash (s # ss) = hash_loop ((push_bit 5 hash + hash) XOR of_char s) ss"

definition hashme :: "string \<Rightarrow> 32 word" where
  "hashme s = hash_loop 5381 s AND NOT (push_bit 31 1)"

lemma hashme_key: "key_ok (sint (hashme s))"
proof -
  have "\<not> bit (hashme s) 31" by (simp add: hashme_def bit_simps)
  then have "0 \<le> sint (hashme s)" using bit_last_iff [of "hashme s"] by simp
  moreover have "sint (hashme s) < 2 ^ 31" using sint_lt [of "hashme s"] by simp
  ultimately show ?thesis by (simp add: key_ok_def)
qed

end
