(* ===== verification/JobList.thy ===== *)
theory JobList
  imports Prelude "HOL-Library.Multiset"
begin

text \<open>
  The job list and the queue of connections that wait for a file descriptor, \<open>src/src/joblist.c\<close>.
  Both are guarded by one mutex, \<open>joblist_lock\<close>, which is not recursive.  A thread is a stack of
  frames, one for each function it is in; a step of the system is a step of the top frame of any
  thread.  \<open>connection_state_machine\<close> is a parameter: \<open>asks con\<close> tells whether the call, before it
  returns, finds that the connection has to wait for a descriptor (\<open>HANDLER_WAIT_FOR_FD\<close>).
\<close>

section \<open>Queues of connections\<close>

type_synonym con = nat

record connections =
  cs_ptr :: "con option list"
  cs_size :: nat
  cs_used :: nat

definition connections_grow :: "connections \<Rightarrow> connections" where
  "connections_grow q =
     (if cs_size q = 0 then q\<lparr>cs_size := 16, cs_ptr := replicate 16 None\<rparr>
      else if cs_used q = cs_size q
      then q\<lparr>cs_size := cs_size q + 16, cs_ptr := cs_ptr q @ replicate 16 None\<rparr>
      else q)"

definition connections_put :: "con \<Rightarrow> connections \<Rightarrow> connections option" where
  "connections_put con q =
     (if cs_used q < length (cs_ptr q)
      then Some (q\<lparr>cs_ptr := (cs_ptr q)[cs_used q := Some con], cs_used := cs_used q + 1\<rparr>) else None)"

definition connections_get :: "connections \<Rightarrow> nat \<Rightarrow> con option" where
  "connections_get q i = (if i < length (cs_ptr q) then cs_ptr q ! i else None)"

text \<open>The first entry is taken out and the others are moved down.\<close>

definition connections_shift :: "connections \<Rightarrow> (con option \<times> connections) option" where
  "connections_shift q =
     (if cs_used q = 0 then Some (None, q)
      else case connections_get q 0 of
        None \<Rightarrow> None
      | Some con \<Rightarrow>
          let used = cs_used q - 1
          in if used < length (cs_ptr q)
             then Some (Some con, q\<lparr>cs_ptr := take used (drop 1 (cs_ptr q)) @ drop used (cs_ptr q), cs_used := used\<rparr>)
             else None)"

definition connections_init :: connections where
  "connections_init = \<lparr>cs_ptr = [], cs_size = 0, cs_used = 0\<rparr>"

definition queue_ok :: "connections \<Rightarrow> bool" where
  "queue_ok q \<longleftrightarrow> length (cs_ptr q) = cs_size q \<and> cs_used q \<le> cs_size q \<and> None \<notin> set (take (cs_used q) (cs_ptr q))"

definition queued :: "connections \<Rightarrow> con list" where
  "queued q = map the (take (cs_used q) (cs_ptr q))"

lemma init_queue: "queue_ok connections_init" "queued connections_init = []"
  by (simp_all add: connections_init_def queue_ok_def queued_def)

lemma queued_length: "queue_ok q \<Longrightarrow> length (queued q) = cs_used q"
  by (simp add: queue_ok_def queued_def)

lemma queue_get: "queue_ok q \<Longrightarrow> i < cs_used q \<Longrightarrow> connections_get q i = Some (queued q ! i)"
  by (auto simp: queue_ok_def queued_def connections_get_def in_set_conv_nth)

lemma queue_grow:
  assumes "queue_ok q"
  shows "queue_ok (connections_grow q)" "queued (connections_grow q) = queued q"
    "cs_used (connections_grow q) < cs_size (connections_grow q)"
  using assms by (auto simp: queue_ok_def queued_def connections_grow_def)

lemma queue_put:
  assumes "queue_ok q" "cs_used q < cs_size q"
  obtains q' where "connections_put con q = Some q'" "queue_ok q'" "queued q' = queued q @ [con]"
    "cs_used q' = cs_used q + 1"
  using assms by (auto simp: queue_ok_def queued_def connections_put_def take_Suc_conv_app_nth take_update_cancel)

lemma queue_shift:
  assumes "queue_ok q"
  obtains q' where "connections_shift q = Some (if queued q = [] then None else Some (hd (queued q)), q')" "queue_ok q'"
    "queued q' = tl (queued q)"
proof (cases "cs_used q")
  case 0
  then show thesis using that [of q] assms by (simp add: connections_shift_def queued_def)
next
  case (Suc n)
  have l: "length (cs_ptr q) = cs_size q" "n < cs_size q" "None \<notin> set (take (Suc n) (cs_ptr q))"
    using assms Suc by (simp_all add: queue_ok_def)
  obtain x r where p: "cs_ptr q = Some x # r"
  proof (cases "cs_ptr q")
    case (Cons a r)
    then show thesis using that l(3) by (cases a) auto
  qed (use l in auto)
  have r: "n \<le> length r" "None \<notin> set (take n r)" using l p by auto
  let ?q = "q\<lparr>cs_ptr := take n r @ drop n (Some x # r), cs_used := n\<rparr>"
  have "connections_shift q = Some (Some x, ?q)"
    using Suc l p by (simp add: connections_shift_def connections_get_def)
  moreover have "queue_ok ?q" "queued ?q = map the (take n r)"
    using r l p by (simp_all add: queue_ok_def queued_def)
  ultimately show thesis using that [of ?q] Suc p by (simp add: queued_def)
qed

section \<open>Threads\<close>

datatype which = JOBS | FDS

text \<open>
  \<open>Append\<close> is \<open>joblist_append\<close> or \<open>fdwaitqueue_append\<close> in front of its \<open>JOB_LOCK\<close>, followed by
  \<open>Grow\<close>, \<open>Put\<close> and \<open>Unlock\<close>; \<open>Call\<close> is \<open>joblist_call\<close>, with its loop; \<open>FdCall\<close> is
  \<open>fdwaitqueue_call\<close>, with its test, its loop and the body after \<open>fdwaitqueue_unshift\<close>, which is
  \<open>Unshift\<close> and \<open>Shift\<close>.  \<open>Machine\<close> is \<open>connection_state_machine\<close> and \<open>AskFd\<close> the case
  \<open>HANDLER_WAIT_FOR_FD\<close> in it.
\<close>

datatype frame =
    Append which con | Grow which con | Put which con | Unlock
  | Call | CallLoop nat
  | FdCall | FdTest | FdLoop int | FdGot int | Unshift | Shift
  | Machine con | AskFd con

record job_state =
  js_lock :: bool
  js_jobs :: connections
  js_waiting :: connections
  js_want_fds :: int
  js_max_fds :: int
  js_cur_fds :: int
  js_ran :: "con list"

datatype outcome = Blocked | Crash | Go "frame list" "con option" job_state

definition queue_of :: "which \<Rightarrow> job_state \<Rightarrow> connections" where
  "queue_of w s = (case w of JOBS \<Rightarrow> js_jobs s | FDS \<Rightarrow> js_waiting s)"

definition set_queue :: "which \<Rightarrow> connections \<Rightarrow> job_state \<Rightarrow> job_state" where
  "set_queue w q s = (case w of JOBS \<Rightarrow> s\<lparr>js_jobs := q\<rparr> | FDS \<Rightarrow> s\<lparr>js_waiting := q\<rparr>)"

definition job_lock :: "frame list \<Rightarrow> con option \<Rightarrow> job_state \<Rightarrow> outcome" where
  "job_lock fs r s = (if js_lock s then Blocked else Go fs r (s\<lparr>js_lock := True\<rparr>))"

text \<open>One step of a frame: the frames that take its place, the value returned, the state.\<close>

fun exec :: "(con \<Rightarrow> bool) \<Rightarrow> frame \<Rightarrow> con option \<Rightarrow> job_state \<Rightarrow> outcome" where
  "exec asks (Append w con) r s = job_lock [Grow w con] r s"
| "exec asks (Grow w con) r s = Go [Put w con] r (set_queue w (connections_grow (queue_of w s)) s)"
| "exec asks (Put w con) r s =
     (case connections_put con (queue_of w s) of
        None \<Rightarrow> Crash
      | Some q \<Rightarrow> Go [Unlock] r (set_queue w q s))"
| "exec asks Unlock r s = Go [] r (s\<lparr>js_lock := False\<rparr>)"
| "exec asks Call r s = job_lock [CallLoop 0] r s"
| "exec asks (CallLoop ndx) r s =
     (if ndx < cs_used (js_jobs s)
      then (case connections_get (js_jobs s) ndx of
              None \<Rightarrow> Crash
            | Some con \<Rightarrow> Go [Machine con, CallLoop (ndx + 1)] r (s\<lparr>js_ran := js_ran s @ [con]\<rparr>))
      else Go [Unlock] r (s\<lparr>js_jobs := (js_jobs s)\<lparr>cs_used := 0\<rparr>\<rparr>))"
| "exec asks FdCall r s = job_lock [FdTest] r s"
| "exec asks FdTest r s =
     Go (if js_want_fds s \<noteq> 0 then [FdLoop (js_max_fds s - js_cur_fds s - 16)] else [Unlock]) r s"
| "exec asks (FdLoop free) r s = Go (if 0 < free then [Unshift, FdGot free] else [Unlock]) r s"
| "exec asks (FdGot free) r s =
     (case r of
        None \<Rightarrow> Go [Unlock] r s
      | Some con \<Rightarrow> Go [Machine con, FdLoop (free - 1)] r (s\<lparr>js_want_fds := js_want_fds s - 1\<rparr>))"
| "exec asks Unshift r s = job_lock [Shift] r s"
| "exec asks Shift r s =
     (case connections_shift (js_waiting s) of
        None \<Rightarrow> Crash
      | Some (con, q) \<Rightarrow> Go [Unlock] con (s\<lparr>js_waiting := q\<rparr>))"
| "exec asks (Machine con) r s = Go (if asks con then [AskFd con] else []) r s"
| "exec asks (AskFd con) r s = Go [Append FDS con] r (s\<lparr>js_want_fds := js_want_fds s + 1\<rparr>)"

record job_sys =
  threads :: "(frame list \<times> con option) list"
  shared :: job_state

inductive job_step :: "(con \<Rightarrow> bool) \<Rightarrow> job_sys \<Rightarrow> job_sys \<Rightarrow> bool" for asks where
  run: "i < length (threads s) \<Longrightarrow> threads s ! i = (f # fs, r) \<Longrightarrow> exec asks f r (shared s) = Go fs' r' sh \<Longrightarrow>
    job_step asks s (s\<lparr>threads := (threads s)[i := (fs' @ fs, r')], shared := sh\<rparr>)"

text \<open>The same step for a given thread, to compute with, and a schedule of threads.\<close>

definition thread_step :: "(con \<Rightarrow> bool) \<Rightarrow> nat \<Rightarrow> job_sys \<Rightarrow> job_sys option" where
  "thread_step asks i s =
     (if i < length (threads s)
      then (case threads s ! i of
              (f # fs, r) \<Rightarrow>
                (case exec asks f r (shared s) of
                   Go fs' r' sh \<Rightarrow> Some (s\<lparr>threads := (threads s)[i := (fs' @ fs, r')], shared := sh\<rparr>)
                 | _ \<Rightarrow> None)
            | _ \<Rightarrow> None)
      else None)"

fun run_schedule :: "(con \<Rightarrow> bool) \<Rightarrow> nat list \<Rightarrow> job_sys \<Rightarrow> job_sys option" where
  "run_schedule asks [] s = Some s"
| "run_schedule asks (i # is) s = Option.bind (thread_step asks i s) (run_schedule asks is)"

lemma thread_step_Some:
  "thread_step asks i s = Some s' \<longleftrightarrow>
     (\<exists>f fs r fs' r' sh. i < length (threads s) \<and> threads s ! i = (f # fs, r) \<and> exec asks f r (shared s) = Go fs' r' sh
        \<and> s' = s\<lparr>threads := (threads s)[i := (fs' @ fs, r')], shared := sh\<rparr>)"
  by (cases "threads s ! i"; cases "fst (threads s ! i)")
    (auto simp: thread_step_def split: outcome.splits)

lemma thread_step_iff: "job_step asks s s' \<longleftrightarrow> (\<exists>i. thread_step asks i s = Some s')"
  unfolding job_step.simps thread_step_Some by metis

definition all_frames :: "job_sys \<Rightarrow> frame multiset" where
  "all_frames s = mset (concat (map fst (threads s)))"

lemma job_step_frames:
  assumes "job_step asks s s'"
  obtains f fs r fs' r' sh G i where "exec asks f r (shared s) = Go fs' r' sh" "shared s' = sh"
    "all_frames s = add_mset f G" "all_frames s' = mset fs' + G"
    "i < length (threads s)" "threads s ! i = (f # fs, r)" "threads s' = (threads s)[i := (fs' @ fs, r')]"
  using assms
proof (cases rule: job_step.cases)
  case (run i f fs r fs' r' sh)
  let ?t = "threads s"
  have t: "?t = take i ?t @ (f # fs, r) # drop (Suc i) ?t"
    "?t[i := (fs' @ fs, r')] = take i ?t @ (fs' @ fs, r') # drop (Suc i) ?t"
    using run(2,3) id_take_nth_drop [of i ?t] upd_conv_take_nth_drop [of i ?t] by simp_all
  let ?G = "mset (concat (map fst (take i ?t))) + mset fs + mset (concat (map fst (drop (Suc i) ?t)))"
  have "all_frames s = add_mset f ?G" unfolding all_frames_def by (subst t(1)) simp
  moreover have "all_frames s' = mset fs' + ?G" unfolding all_frames_def run(1) by (simp add: t(2))
  ultimately show thesis using that [of f r fs' r' sh ?G i fs] run by simp
qed

section \<open>The mutex protects the queues\<close>

fun holding :: "frame \<Rightarrow> bool" where
  "holding (Grow w con) = True"
| "holding (Put w con) = True"
| "holding Unlock = True"
| "holding (CallLoop ndx) = True"
| "holding FdTest = True"
| "holding (FdLoop free) = True"
| "holding (FdGot free) = True"
| "holding Shift = True"
| "holding f = False"

fun frame_ok :: "job_state \<Rightarrow> frame \<Rightarrow> bool" where
  "frame_ok s (Put w con) = (cs_used (queue_of w s) < cs_size (queue_of w s))"
| "frame_ok s (CallLoop ndx) = (ndx \<le> cs_used (js_jobs s))"
| "frame_ok s f = True"

definition queues_ok :: "job_state \<Rightarrow> bool" where
  "queues_ok s \<longleftrightarrow> queue_ok (js_jobs s) \<and> queue_ok (js_waiting s)"

definition jobs_ok :: "job_sys \<Rightarrow> bool" where
  "jobs_ok s \<longleftrightarrow> queues_ok (shared s) \<and> size (filter_mset holding (all_frames s)) = of_bool (js_lock (shared s))
     \<and> (\<forall>f. f \<in># all_frames s \<longrightarrow> frame_ok (shared s) f)"

lemmas frame_defs = job_lock_def queue_of_def set_queue_def

lemma frame_free: "\<not> holding f \<Longrightarrow> frame_ok s f"
  by (cases f) (simp_all add: frame_defs)

lemma exec_ok:
  assumes "queues_ok s" "frame_ok s f" "holding f \<longrightarrow> js_lock s" "exec asks f r s = Go fs' r' s'"
  shows "queues_ok s'" "f' \<in> set fs' \<Longrightarrow> frame_ok s' f'"
    "of_bool (holding f) + of_bool (js_lock s') = length (filter holding fs') + (of_bool (js_lock s) :: nat)"
    "\<not> holding f \<Longrightarrow> js_jobs s' = js_jobs s \<and> js_waiting s' = js_waiting s"
proof -
  have q: "queue_ok (queue_of w s)" for w using assms(1) by (cases w) (simp_all add: queues_ok_def queue_of_def)
  have *: "queues_ok s' \<and> (\<forall>f' \<in> set fs'. frame_ok s' f')
    \<and> of_bool (holding f) + of_bool (js_lock s') = length (filter holding fs') + (of_bool (js_lock s) :: nat)
    \<and> (\<not> holding f \<longrightarrow> js_jobs s' = js_jobs s \<and> js_waiting s' = js_waiting s)"
  proof (cases f)
    case (Grow w con)
    then show ?thesis using assms queue_grow [OF q [of w]] by (cases w) (auto simp: frame_defs queues_ok_def)
  next
    case (Put w con)
    then have "cs_used (queue_of w s) < cs_size (queue_of w s)" using assms(2) by simp
    then obtain q' where "connections_put con (queue_of w s) = Some q'" "queue_ok q'"
      by (rule queue_put [OF q])
    then show ?thesis using Put assms by (cases w) (auto simp: frame_defs queues_ok_def)
  next
    case (CallLoop ndx)
    then have "ndx < cs_used (js_jobs s) \<Longrightarrow> connections_get (js_jobs s) ndx = Some (queued (js_jobs s) ! ndx)"
      using assms(1) queue_get by (simp add: queues_ok_def)
    then show ?thesis using CallLoop assms
      by (auto simp: frame_defs queues_ok_def queue_ok_def split: if_splits)
  next
    case Shift
    have "queue_ok (js_waiting s)" using q [of FDS] by (simp add: queue_of_def)
    then obtain q' where "connections_shift (js_waiting s)
        = Some (if queued (js_waiting s) = [] then None else Some (hd (queued (js_waiting s))), q')" "queue_ok q'"
      by (rule queue_shift)
    then show ?thesis using Shift assms by (auto simp: frame_defs queues_ok_def)
  qed (use assms(1,3,4) in \<open>simp_all add: job_lock_def split: if_splits option.splits, auto simp: queues_ok_def\<close>)
  then show "queues_ok s'" "f' \<in> set fs' \<Longrightarrow> frame_ok s' f'"
    "of_bool (holding f) + of_bool (js_lock s') = length (filter holding fs') + (of_bool (js_lock s) :: nat)"
    "\<not> holding f \<Longrightarrow> js_jobs s' = js_jobs s \<and> js_waiting s' = js_waiting s" by blast+
qed

lemma exec_no_crash:
  assumes "queues_ok s" "frame_ok s f"
  shows "exec asks f r s \<noteq> Crash"
proof -
  have q: "queue_ok (queue_of w s)" for w using assms(1) by (cases w) (simp_all add: queues_ok_def queue_of_def)
  show ?thesis
  proof (cases f)
    case (Put w con)
    then have "cs_used (queue_of w s) < cs_size (queue_of w s)" using assms(2) by simp
    then obtain q' where "connections_put con (queue_of w s) = Some q'" by (rule queue_put [OF q])
    then show ?thesis using Put by simp
  next
    case (CallLoop ndx)
    then have "ndx < cs_used (js_jobs s) \<Longrightarrow> connections_get (js_jobs s) ndx = Some (queued (js_jobs s) ! ndx)"
      using assms(1) queue_get by (simp add: queues_ok_def)
    then show ?thesis using CallLoop by simp
  next
    case Shift
    have "queue_ok (js_waiting s)" using q [of FDS] by (simp add: queue_of_def)
    then obtain q' where "connections_shift (js_waiting s)
        = Some (if queued (js_waiting s) = [] then None else Some (hd (queued (js_waiting s))), q')"
      by (rule queue_shift)
    then show ?thesis using Shift by simp
  qed (simp_all add: job_lock_def split: option.splits)
qed

text \<open>Only one thread is between \<open>JOB_LOCK\<close> and \<open>JOB_UNLOCK\<close>, so what a frame there relies on stays true.\<close>

lemma one_holder:
  assumes "jobs_ok s" "all_frames s = add_mset f G" "holding f"
  shows "js_lock (shared s)" "\<And>g. g \<in># G \<Longrightarrow> \<not> holding g"
proof -
  have c: "size (filter_mset holding (add_mset f G)) = of_bool (js_lock (shared s))"
    using assms(1,2) by (simp add: jobs_ok_def)
  then show l: "js_lock (shared s)" using assms(3) by (simp add: of_bool_def split: if_splits)
  have "filter_mset holding G = {#}" using c assms(3) l by simp
  then show "\<And>g. g \<in># G \<Longrightarrow> \<not> holding g" by (auto simp: filter_mset_eq_conv)
qed

lemma job_step_ok:
  assumes "job_step asks s s'" "jobs_ok s"
  shows "jobs_ok s'"
  using assms(1)
proof (cases rule: job_step_frames)
  case (1 f fs r fs' r' sh G i)
  have q: "queues_ok (shared s)" and fo: "frame_ok (shared s) f" using assms(2) 1(3) by (simp_all add: jobs_ok_def)
  have hl: "holding f \<longrightarrow> js_lock (shared s)" using one_holder(1) [OF assms(2) 1(3)] by blast
  note e = exec_ok [OF q fo hl 1(1)]
  have c: "size (filter_mset holding (add_mset f G)) = of_bool (js_lock (shared s))"
    using assms(2) 1(3) by (simp add: jobs_ok_def)
  have "size (filter_mset holding (mset fs')) = length (filter holding fs')" by (metis mset_filter size_mset)
  then have "size (filter_mset holding (all_frames s')) = of_bool (js_lock sh)"
    using c e(3) 1(4) by (cases "holding f") simp_all
  moreover have "frame_ok sh g" if "g \<in># G" for g
  proof (cases "holding f")
    case True
    then show ?thesis using one_holder(2) [OF assms(2) 1(3) True that] frame_free by blast
  next
    case False
    have "frame_ok (shared s) g" using assms(2) 1(3) that by (simp add: jobs_ok_def)
    then show ?thesis using e(4) [OF False] by (cases g) (auto simp: frame_defs split: which.splits)
  qed
  ultimately show ?thesis using e(1,2) 1(2,4) by (auto simp: jobs_ok_def)
qed

inductive job_steps :: "(con \<Rightarrow> bool) \<Rightarrow> job_sys \<Rightarrow> job_sys \<Rightarrow> bool" for asks where
  none: "job_steps asks s s"
| more: "job_steps asks s s' \<Longrightarrow> job_step asks s' s'' \<Longrightarrow> job_steps asks s s''"

lemma job_steps_ok: "job_steps asks s s' \<Longrightarrow> jobs_ok s \<Longrightarrow> jobs_ok s'"
  by (induction rule: job_steps.induct) (auto intro: job_step_ok)

lemma init_ok_jobs: "jobs_ok \<lparr>threads = ts, shared = sh\<rparr>"
  if "queues_ok sh" "\<not> js_lock sh" "\<forall>(fs, r) \<in> set ts. \<forall>f \<in> set fs. \<not> holding f"
  using that by (auto simp: jobs_ok_def all_frames_def frame_free filter_mset_eq_conv)

section \<open>Each job is run once, in order\<close>

text \<open>The connections that still have to be put on the job list, and those on it that have not been run.\<close>

fun inflight :: "frame \<Rightarrow> con multiset" where
  "inflight (Append JOBS con) = {#con#}"
| "inflight (Grow JOBS con) = {#con#}"
| "inflight (Put JOBS con) = {#con#}"
| "inflight f = {#}"

fun loop_pos :: "frame \<Rightarrow> nat" where
  "loop_pos (CallLoop ndx) = ndx"
| "loop_pos f = 0"

definition to_append :: "job_sys \<Rightarrow> con multiset" where
  "to_append s = (\<Sum>f\<in>#all_frames s. inflight f)"

definition job_position :: "job_sys \<Rightarrow> nat" where
  "job_position s = (\<Sum>f\<in>#all_frames s. loop_pos f)"

definition handed_over :: "job_sys \<Rightarrow> con list" where
  "handed_over s = js_ran (shared s) @ drop (job_position s) (queued (js_jobs (shared s)))"

lemma loop_pos_free: "\<not> holding f \<Longrightarrow> loop_pos f = 0"
  by (cases f) simp_all

lemma exec_jobs:
  assumes "queues_ok s" "frame_ok s f" "exec asks f r s = Go fs' r' s'" "holding f \<Longrightarrow> p = 0"
  shows "\<exists>new. js_ran s' @ drop (sum_list (map loop_pos fs') + p) (queued (js_jobs s'))
      = js_ran s @ drop (loop_pos f + p) (queued (js_jobs s)) @ new
    \<and> mset new + sum_list (map inflight fs') = inflight f"
proof -
  have q: "queue_ok (queue_of w s)" for w using assms(1) by (cases w) (simp_all add: queues_ok_def queue_of_def)
  have j: "queue_ok (js_jobs s)" using assms(1) by (simp add: queues_ok_def)
  show ?thesis
  proof (cases f)
    case (Append w con)
    then show ?thesis using assms by (cases w) (auto simp: job_lock_def split: if_splits)
  next
    case (Grow w con)
    then show ?thesis using assms queue_grow(2) [OF j] by (cases w) (auto simp: queue_of_def set_queue_def)
  next
    case (Put w con)
    then have "cs_used (queue_of w s) < cs_size (queue_of w s)" using assms(2) by simp
    then obtain q' where "connections_put con (queue_of w s) = Some q'" "queued q' = queued (queue_of w s) @ [con]"
      by (rule queue_put [OF q])
    then show ?thesis using Put assms
      by (cases w) (auto simp: queue_of_def set_queue_def)
  next
    case (CallLoop ndx)
    show ?thesis
    proof (cases "ndx < cs_used (js_jobs s)")
      case True
      then have "drop ndx (queued (js_jobs s)) = queued (js_jobs s) ! ndx # drop (Suc ndx) (queued (js_jobs s))"
        using queued_length [OF j] by (simp add: Cons_nth_drop_Suc)
      then show ?thesis using CallLoop True assms queue_get [OF j True] by auto
    next
      case False
      then have "drop ndx (queued (js_jobs s)) = []" using queued_length [OF j] by simp
      then show ?thesis using CallLoop False assms by (auto simp: queued_def)
    qed
  next
    case Shift
    then show ?thesis using assms by (auto split: option.splits prod.splits)
  qed (use assms(3) in \<open>simp_all add: job_lock_def split: if_splits option.splits, auto\<close>)
qed

lemma job_step_jobs:
  assumes "job_step asks s s'" "jobs_ok s"
  shows "\<exists>new. handed_over s' = handed_over s @ new \<and> mset new + to_append s' = to_append s"
  using assms(1)
proof (cases rule: job_step_frames)
  case (1 f fs r fs' r' sh G i)
  have q: "queues_ok (shared s)" and fo: "frame_ok (shared s) f" using assms(2) 1(3) by (simp_all add: jobs_ok_def)
  let ?p = "\<Sum>g\<in>#G. loop_pos g"
  have p: "holding f \<Longrightarrow> ?p = 0"
    using one_holder(2) [OF assms(2) 1(3)] by (auto simp: loop_pos_free)
  have m: "(\<Sum>g\<in>#mset fs'. loop_pos g) = sum_list (map loop_pos fs')"
    "(\<Sum>g\<in>#mset fs'. inflight g) = sum_list (map inflight fs')" by (simp_all flip: sum_mset_sum_list)
  obtain new where n: "js_ran sh @ drop (sum_list (map loop_pos fs') + ?p) (queued (js_jobs sh))
      = js_ran (shared s) @ drop (loop_pos f + ?p) (queued (js_jobs (shared s))) @ new"
      "mset new + sum_list (map inflight fs') = inflight f"
    using exec_jobs [OF q fo 1(1), of ?p] p by blast
  have "handed_over s' = handed_over s @ new"
    using n(1) 1(2-4) m(1) by (simp add: handed_over_def job_position_def)
  moreover have "mset new + to_append s' = to_append s"
    using 1(3,4) m(2) by (simp add: to_append_def flip: n(2))
  ultimately show ?thesis by blast
qed

lemma job_steps_jobs:
  assumes "job_steps asks s s'" "jobs_ok s"
  shows "\<exists>new. handed_over s' = handed_over s @ new \<and> mset new + to_append s' = to_append s"
  using assms
proof (induction rule: job_steps.induct)
  case (more s s' s'')
  obtain a where a: "handed_over s' = handed_over s @ a" "mset a + to_append s' = to_append s" using more by blast
  obtain b where b: "handed_over s'' = handed_over s' @ b" "mset b + to_append s'' = to_append s'"
    using job_step_jobs [OF more(2) job_steps_ok [OF more(1) more.prems]] by blast
  show ?case using a b by (intro exI [of _ "a @ b"]) (simp add: union_assoc)
qed simp

section \<open>When every call returns\<close>

definition quiescent :: "job_sys \<Rightarrow> bool" where
  "quiescent s \<longleftrightarrow> (\<forall>t \<in> set (threads s). fst t = [])"

text \<open>
  No connection on the job list asks for a descriptor while it is run, and there is none to give
  away; connections that are run by other threads may ask.
\<close>

fun frame_calm :: "(con \<Rightarrow> bool) \<Rightarrow> job_state \<Rightarrow> frame \<Rightarrow> bool" where
  "frame_calm asks s (Append JOBS con) = (\<not> asks con)"
| "frame_calm asks s (Grow JOBS con) = (\<not> asks con)"
| "frame_calm asks s (Put JOBS con) = (\<not> asks con)"
| "frame_calm asks s (FdLoop free) = (free \<le> 0)"
| "frame_calm asks s (FdGot free) = False"
| "frame_calm asks s Unshift = False"
| "frame_calm asks s Shift = False"
| "frame_calm asks s f = True"

fun stack_calm :: "(con \<Rightarrow> bool) \<Rightarrow> frame list \<Rightarrow> bool" where
  "stack_calm asks [] = True"
| "stack_calm asks (f # fs) =
     (stack_calm asks fs \<and> (list_ex holding fs \<longrightarrow> (case f of Machine con \<Rightarrow> \<not> asks con | _ \<Rightarrow> False)))"

definition calm :: "(con \<Rightarrow> bool) \<Rightarrow> job_sys \<Rightarrow> bool" where
  "calm asks s \<longleftrightarrow> jobs_ok s \<and> js_max_fds (shared s) - js_cur_fds (shared s) \<le> 16
     \<and> (\<forall>con \<in> set (queued (js_jobs (shared s))). \<not> asks con)
     \<and> (\<forall>f. f \<in># all_frames s \<longrightarrow> frame_calm asks (shared s) f) \<and> (\<forall>t \<in> set (threads s). stack_calm asks (fst t))"

fun weight :: "frame \<Rightarrow> nat" where
  "weight (Append w con) = (case w of JOBS \<Rightarrow> 11 | FDS \<Rightarrow> 4)"
| "weight (Grow w con) = (case w of JOBS \<Rightarrow> 10 | FDS \<Rightarrow> 3)"
| "weight (Put w con) = (case w of JOBS \<Rightarrow> 9 | FDS \<Rightarrow> 2)"
| "weight Unlock = 1"
| "weight Call = 3"
| "weight (CallLoop ndx) = 2"
| "weight FdCall = 4"
| "weight FdTest = 3"
| "weight (FdLoop free) = 2"
| "weight (Machine con) = 6"
| "weight (AskFd con) = 5"
| "weight f = 0"

definition job_measure :: "job_sys \<Rightarrow> nat" where
  "job_measure s = (\<Sum>f\<in>#all_frames s. weight f) + 7 * length (drop (job_position s) (queued (js_jobs (shared s))))"

lemma exec_calm:
  assumes "queues_ok s" "frame_ok s f" "exec asks f r s = Go fs' r' s'" "holding f \<longrightarrow> p = 0"
    "frame_calm asks s f" "js_max_fds s - js_cur_fds s \<le> 16" "\<forall>con \<in> set (queued (js_jobs s)). \<not> asks con"
  shows "js_max_fds s' - js_cur_fds s' \<le> 16" "\<forall>con \<in> set (queued (js_jobs s')). \<not> asks con"
    "\<forall>g \<in> set fs'. frame_calm asks s' g" "stack_calm asks fs'"
    "sum_list (map weight fs') + 7 * length (drop (sum_list (map loop_pos fs') + p) (queued (js_jobs s')))
       < weight f + 7 * length (drop (loop_pos f + p) (queued (js_jobs s)))"
proof -
  have q: "queue_ok (queue_of w s)" for w using assms(1) by (cases w) (simp_all add: queues_ok_def queue_of_def)
  have j: "queue_ok (js_jobs s)" using assms(1) by (simp add: queues_ok_def)
  have *: "js_max_fds s' - js_cur_fds s' \<le> 16 \<and> (\<forall>con \<in> set (queued (js_jobs s')). \<not> asks con)
    \<and> (\<forall>g \<in> set fs'. frame_calm asks s' g) \<and> stack_calm asks fs'
    \<and> sum_list (map weight fs') + 7 * length (drop (sum_list (map loop_pos fs') + p) (queued (js_jobs s')))
       < weight f + 7 * length (drop (loop_pos f + p) (queued (js_jobs s)))"
  proof (cases f)
    case (Append w con)
    then show ?thesis using assms by (cases w) (auto simp: job_lock_def split: if_splits)
  next
    case (Grow w con)
    then show ?thesis using assms queue_grow(2) [OF j] by (cases w) (auto simp: queue_of_def set_queue_def)
  next
    case (Put w con)
    then have "cs_used (queue_of w s) < cs_size (queue_of w s)" using assms(2) by simp
    then obtain q' where "connections_put con (queue_of w s) = Some q'" "queued q' = queued (queue_of w s) @ [con]"
      by (rule queue_put [OF q])
    then show ?thesis using Put assms by (cases w) (auto simp: queue_of_def set_queue_def)
  next
    case (CallLoop ndx)
    show ?thesis
    proof (cases "ndx < cs_used (js_jobs s)")
      case True
      then have "queued (js_jobs s) ! ndx \<in> set (queued (js_jobs s))" using queued_length [OF j] by simp
      then show ?thesis using CallLoop True assms queue_get [OF j True] queued_length [OF j] by auto
    next
      case False
      then show ?thesis using CallLoop assms by (auto simp: queued_def)
    qed
  qed (use assms in \<open>simp_all add: job_lock_def split: if_splits option.splits, auto\<close>)
  then show "js_max_fds s' - js_cur_fds s' \<le> 16" "\<forall>con \<in> set (queued (js_jobs s')). \<not> asks con"
    "\<forall>g \<in> set fs'. frame_calm asks s' g" "stack_calm asks fs'"
    "sum_list (map weight fs') + 7 * length (drop (sum_list (map loop_pos fs') + p) (queued (js_jobs s')))
       < weight f + 7 * length (drop (loop_pos f + p) (queued (js_jobs s)))" by blast+
qed

lemma stack_calm_append:
  "stack_calm asks (f # fs) \<Longrightarrow> stack_calm asks fs' \<Longrightarrow> exec asks f r s = Go fs' r' s' \<Longrightarrow> stack_calm asks (fs' @ fs)"
proof (cases "list_ex holding fs")
  case True
  assume "stack_calm asks (f # fs)" "exec asks f r s = Go fs' r' s'"
  then show ?thesis using True by (cases f) auto
next
  case False
  assume "stack_calm asks (f # fs)" "stack_calm asks fs'"
  then have "stack_calm asks fs" by simp
  then show ?thesis using \<open>stack_calm asks fs'\<close> False by (induction fs') auto
qed

lemma calm_frame: "frame_calm asks s f \<Longrightarrow> frame_calm asks s' f"
  by (induction asks s f rule: frame_calm.induct) auto

lemma job_step_calm:
  assumes "job_step asks s s'" "calm asks s"
  shows "calm asks s'" "job_measure s' < job_measure s"
proof -
  have ok: "jobs_ok s" using assms(2) by (simp add: calm_def)
  have "calm asks s' \<and> job_measure s' < job_measure s"
    using assms(1)
  proof (cases rule: job_step_frames)
    case (1 f fs r fs' r' sh G i)
    have q: "queues_ok (shared s)" and fo: "frame_ok (shared s) f" using ok 1(3) by (simp_all add: jobs_ok_def)
    let ?p = "\<Sum>g\<in>#G. loop_pos g"
    have p: "holding f \<longrightarrow> ?p = 0"
      using one_holder(2) [OF ok 1(3)] by (auto simp: loop_pos_free)
    have m: "(\<Sum>g\<in>#mset fs'. loop_pos g) = sum_list (map loop_pos fs')"
      "(\<Sum>g\<in>#mset fs'. weight g) = sum_list (map weight fs')" by (simp_all flip: sum_mset_sum_list)
    have c: "frame_calm asks (shared s) f" "js_max_fds (shared s) - js_cur_fds (shared s) \<le> 16"
      "\<forall>con \<in> set (queued (js_jobs (shared s))). \<not> asks con"
      using assms(2) 1(3) by (simp_all add: calm_def)
    note e = exec_calm [OF q fo 1(1) p c]
    have "job_measure s' < job_measure s"
      using e(5) 1(2-4) m by (simp add: job_measure_def job_position_def)
    moreover have "frame_calm asks sh g" if "g \<in># all_frames s'" for g
    proof -
      have "g \<in> set fs' \<or> g \<in># all_frames s" using that 1(3,4) by auto
      then show ?thesis using e(3) assms(2) calm_frame by (auto simp: calm_def)
    qed
    moreover have "stack_calm asks (fst t)" if "t \<in> set (threads s')" for t
    proof -
      have "stack_calm asks (f # fs)" using assms(2) 1(5,6) nth_mem [OF 1(5)] by (auto simp: calm_def)
      then have "stack_calm asks (fs' @ fs)" by (rule stack_calm_append [OF _ e(4) 1(1)])
      moreover have "t = (fs' @ fs, r') \<or> t \<in> set (threads s)"
        using that 1(5,7) set_update_subset_insert [of "threads s" i "(fs' @ fs, r')"] by auto
      ultimately show ?thesis using assms(2) by (auto simp: calm_def)
    qed
    ultimately show ?thesis using e(1,2) 1(2) job_step_ok [OF assms(1) ok] by (simp add: calm_def)
  qed
  then show "calm asks s'" "job_measure s' < job_measure s" by blast+
qed

lemma job_steps_calm: "job_steps asks s s' \<Longrightarrow> calm asks s \<Longrightarrow> calm asks s' \<and> job_measure s' \<le> job_measure s"
  by (induction rule: job_steps.induct) (use job_step_calm in \<open>fastforce+\<close>)

lemma exec_blocked: "exec asks f r s = Blocked \<Longrightarrow> js_lock s \<and> \<not> holding f \<and> (\<forall>con. f \<noteq> Machine con)"
  by (cases f) (auto simp: job_lock_def split: if_splits option.splits)

lemma thread_can_step:
  assumes "jobs_ok s" "(f # fs, r) \<in> set (threads s)" "exec asks f r (shared s) \<noteq> Blocked"
  shows "\<exists>s'. job_step asks s s'"
proof -
  obtain i where i: "i < length (threads s)" "threads s ! i = (f # fs, r)" using assms(2) by (auto simp: in_set_conv_nth)
  have "f \<in># all_frames s" using assms(2) by (force simp: all_frames_def)
  then have "exec asks f r (shared s) \<noteq> Crash" using assms(1) exec_no_crash by (simp add: jobs_ok_def)
  then obtain fs' r' sh where "exec asks f r (shared s) = Go fs' r' sh"
    using assms(3) by (cases "exec asks f r (shared s)") auto
  then show ?thesis using job_step.run [OF i] by blast
qed

lemma calm_progress:
  assumes "calm asks s" "\<not> quiescent s"
  shows "\<exists>s'. job_step asks s s'"
proof (cases "js_lock (shared s)")
  case False
  obtain f fs r where "(f # fs, r) \<in> set (threads s)"
    using assms(2) by (auto simp: quiescent_def neq_Nil_conv)
  then show ?thesis using thread_can_step assms(1) exec_blocked False by (metis calm_def)
next
  case True
  have "size (filter_mset holding (all_frames s)) = 1" using assms(1) True by (simp add: calm_def jobs_ok_def)
  then have "filter_mset holding (all_frames s) \<noteq> {#}" by (metis size_empty zero_neq_one)
  then obtain h where "h \<in># filter_mset holding (all_frames s)" by (rule multiset_nonemptyE)
  then have h: "h \<in># all_frames s" "holding h" by simp_all
  then obtain t where t: "t \<in> set (threads s)" "h \<in> set (fst t)" by (auto simp: all_frames_def)
  obtain gs r where g: "t = (gs, r)" by (cases t)
  with t(2) obtain f fs where e: "t = (f # fs, r)" by (cases gs) auto
  have "stack_calm asks (f # fs)" using assms(1) t(1) e by (auto simp: calm_def)
  moreover have "holding f \<or> list_ex holding fs" using t(2) e h(2) by (auto simp: list_ex_iff)
  ultimately have "holding f \<or> (\<exists>con. f = Machine con)" by (auto split: frame.splits)
  then show ?thesis using thread_can_step [of s f fs r asks] exec_blocked assms(1) t(1) e by (metis calm_def)
qed

lemma schedule_steps: "run_schedule asks is s = Some s' \<Longrightarrow> job_steps asks s0 s \<Longrightarrow> job_steps asks s0 s'"
proof (induction "is" arbitrary: s)
  case (Cons i "is")
  then obtain s1 where "thread_step asks i s = Some s1" "run_schedule asks is s1 = Some s'"
    by (auto simp: bind_eq_Some_conv)
  then show ?case using Cons.IH Cons.prems(2) job_steps.more thread_step_iff by blast
qed simp

lemma schedule_length:
  "run_schedule asks is s = Some s' \<Longrightarrow> calm asks s \<Longrightarrow> length is + job_measure s' \<le> job_measure s \<and> calm asks s'"
proof (induction "is" arbitrary: s)
  case (Cons i "is")
  then obtain s1 where s1: "thread_step asks i s = Some s1" "run_schedule asks is s1 = Some s'"
    by (auto simp: bind_eq_Some_conv)
  then have st: "job_step asks s s1" using thread_step_iff by blast
  then show ?case using Cons.IH [OF s1(2) job_step_calm(1) [OF st Cons.prems(2)]] job_step_calm(2) [OF st Cons.prems(2)] by simp
qed simp

section \<open>When a call never returns\<close>

definition waits_for_itself :: "nat \<Rightarrow> frame list \<Rightarrow> job_sys \<Rightarrow> bool" where
  "waits_for_itself i fs s \<longleftrightarrow> jobs_ok s \<and> i < length (threads s) \<and>
     (\<exists>r free. 0 < free \<and> (threads s ! i = (FdLoop free # fs, r) \<or> threads s ! i = (Unshift # FdGot free # fs, r)))"

lemma thread_frames: "i < length (threads s) \<Longrightarrow> f \<in> set (fst (threads s ! i)) \<Longrightarrow> f \<in># all_frames s"
  by (force simp: all_frames_def)

lemma holding_lock: "jobs_ok s \<Longrightarrow> f \<in># all_frames s \<Longrightarrow> holding f \<Longrightarrow> js_lock (shared s)"
  using one_holder(1) by (metis multi_member_split)

lemma waits_lock: "waits_for_itself i fs s \<Longrightarrow> js_lock (shared s)"
  unfolding waits_for_itself_def using thread_frames holding_lock by fastforce

lemma waits_step:
  assumes "job_step asks s s'" "waits_for_itself i fs s"
  shows "waits_for_itself i fs s'"
  using assms(1)
proof (cases rule: job_step.cases)
  case (run j f gs r fs' r' sh)
  have ok: "jobs_ok s'" using job_step_ok [OF assms(1)] assms(2) by (simp add: waits_for_itself_def)
  show ?thesis
  proof (cases "j = i")
    case False
    then show ?thesis using run ok assms(2) by (simp add: waits_for_itself_def)
  next
    case True
    then show ?thesis using run ok assms(2) waits_lock [OF assms(2)]
      by (auto simp: waits_for_itself_def job_lock_def split: if_splits)
  qed
qed

lemma waits_forever: "job_steps asks s s' \<Longrightarrow> waits_for_itself i fs s \<Longrightarrow> waits_for_itself i fs s'"
  by (induction rule: job_steps.induct) (auto intro: waits_step)

section \<open>Properties\<close>

text \<open>C23.
  The mutex makes the job list a queue of which nothing is lost: in every interleaving of any
  number of threads that append to the list, run it, or wait for descriptors, no step of
  \<open>joblist.c\<close> reads an entry that is not there or writes outside its array, and the connections
  handed to \<open>connection_state_machine\<close> followed by those still queued are those of the start, in
  their order, followed by the appended ones, each once.
\<close>

theorem jobs_run_in_order:
  assumes "jobs_ok s" "job_steps asks s s'"
  shows "\<exists>new. handed_over s' = handed_over s @ new \<and> mset new + to_append s' = to_append s
    \<and> (\<forall>t f fs r. t \<in> set (threads s') \<and> t = (f # fs, r) \<longrightarrow> exec asks f r (shared s') \<noteq> Crash)"
proof -
  have ok: "jobs_ok s'" using job_steps_ok [OF assms(2,1)] .
  have "exec asks f r (shared s') \<noteq> Crash" if "(f # fs, r) \<in> set (threads s')" for f fs r
  proof (rule exec_no_crash)
    show "queues_ok (shared s')" using ok by (simp add: jobs_ok_def)
    have "f \<in># all_frames s'" using that by (force simp: all_frames_def)
    then show "frame_ok (shared s') f" using ok by (simp add: jobs_ok_def)
  qed
  then show ?thesis using job_steps_jobs [OF assms(2,1)] by blast
qed

definition idle_jobs :: job_state where
  "idle_jobs = \<lparr>js_lock = False, js_jobs = connections_init, js_waiting = connections_init, js_want_fds = 0,
     js_max_fds = 100, js_cur_fds = 90, js_ran = []\<rparr>"

text \<open>Two threads append connections while a third one runs the list.\<close>

definition three_threads :: job_sys where
  "three_threads = \<lparr>threads = [([Append JOBS 4], None), ([Call], None), ([Machine 7, Append JOBS 5], None)], shared = idle_jobs\<rparr>"

lemma three_threads: "jobs_ok three_threads" "calm (\<lambda>con. con = 7) three_threads"
proof -
  show "jobs_ok three_threads"
    unfolding three_threads_def by (rule init_ok_jobs) (simp_all add: idle_jobs_def queues_ok_def init_queue)
  then show "calm (\<lambda>con. con = 7) three_threads"
    by (auto simp: calm_def three_threads_def idle_jobs_def init_queue all_frames_def)
qed

definition three_threads_run :: "nat list" where
  "three_threads_run = [0, 0, 2, 2, 0, 0, 1, 1, 1, 1, 1, 2, 2, 2, 2, 2, 2, 2, 2]"

lemma jobs_run_in_order_witness:
  "\<exists>s'. run_schedule (\<lambda>con. con = 7) three_threads_run three_threads = Some s' \<and> js_ran (shared s') = [4]
     \<and> (\<exists>new. handed_over s' = handed_over three_threads @ new \<and> mset new + to_append s' = to_append three_threads)"
proof -
  have r: "map_option (\<lambda>s. js_ran (shared s)) (run_schedule (\<lambda>con. con = 7) three_threads_run three_threads) = Some [4]"
    by code_simp
  then obtain s' where s': "run_schedule (\<lambda>con. con = 7) three_threads_run three_threads = Some s'" "js_ran (shared s') = [4]"
    by auto
  have "job_steps (\<lambda>con. con = 7) three_threads s'" by (rule schedule_steps [OF s'(1) job_steps.none])
  from jobs_run_in_order [OF three_threads(1) this] s' show ?thesis by blast
qed

text \<open>C22.
  When no connection on the job list asks for a descriptor while it is run, and there is no
  descriptor to give away, no schedule of the threads can block for ever or run for ever: as long
  as a thread is inside one of the functions some thread can take a step, and every schedule has
  at most \<open>job_measure\<close> steps.
\<close>

theorem joblist_calls_return:
  assumes "calm asks s" "run_schedule asks sched s = Some s'"
  shows "length sched \<le> job_measure s \<and> (quiescent s' \<or> (\<exists>i s''. thread_step asks i s' = Some s''))"
  using schedule_length [OF assms(2,1)] calm_progress thread_step_iff by (metis add_leD1)

lemma joblist_calls_return_witness:
  "\<exists>s'. run_schedule (\<lambda>con. con = 7) three_threads_run three_threads = Some s'
     \<and> (quiescent s' \<or> (\<exists>i s''. thread_step (\<lambda>con. con = 7) i s' = Some s''))"
proof -
  have "run_schedule (\<lambda>con. con = 7) three_threads_run three_threads \<noteq> None" by code_simp
  then obtain s' where "run_schedule (\<lambda>con. con = 7) three_threads_run three_threads = Some s'" by auto
  then show ?thesis using joblist_calls_return [OF three_threads(2)] by blast
qed

text \<open>C21.
  \<open>fdwaitqueue_call\<close> never returns when there is a descriptor to give away: it holds the mutex
  when it calls \<open>fdwaitqueue_unshift\<close>, which locks it again.  Whatever the other threads do, the
  mutex stays locked and the thread stays inside the call, so every later append waits too.
\<close>

theorem fdwaitqueue_call_deadlocks:
  assumes "jobs_ok s" "i < length (threads s)" "threads s ! i = (FdTest # fs, r)" "js_want_fds (shared s) \<noteq> 0"
    "16 < js_max_fds (shared s) - js_cur_fds (shared s)" "thread_step asks i s = Some s1" "job_steps asks s1 s'"
  shows "js_lock (shared s') \<and> length fs < length (fst (threads s' ! i))"
proof -
  have "jobs_ok s1" using job_step_ok [OF _ assms(1)] assms(6) thread_step_iff by blast
  then have "waits_for_itself i fs s1" using assms(2-6) by (auto simp: thread_step_Some waits_for_itself_def)
  from waits_forever [OF assms(7) this] have w: "waits_for_itself i fs s'" .
  then have "length fs < length (fst (threads s' ! i))" by (auto simp: waits_for_itself_def)
  then show ?thesis using waits_lock [OF w] by blast
qed

definition waiting_jobs :: job_sys where
  "waiting_jobs = \<lparr>threads = [([FdTest], None), ([Append JOBS 4], None)],
     shared = idle_jobs\<lparr>js_lock := True, js_want_fds := 1, js_cur_fds := 20\<rparr>\<rparr>"

lemma fdwaitqueue_call_deadlocks_witness:
  "\<exists>s1. thread_step (\<lambda>con. False) 0 waiting_jobs = Some s1
     \<and> (\<exists>s'. job_steps (\<lambda>con. False) s1 s' \<and> js_lock (shared s') \<and> fst (threads s' ! 0) \<noteq> [])"
proof -
  have ok: "jobs_ok waiting_jobs"
    by (simp add: jobs_ok_def waiting_jobs_def idle_jobs_def queues_ok_def init_queue all_frames_def)
  obtain s1 where s1: "thread_step (\<lambda>con. False) 0 waiting_jobs = Some s1"
    by (simp add: thread_step_def waiting_jobs_def)
  have "js_lock (shared s1) \<and> length ([] :: frame list) < length (fst (threads s1 ! 0))"
    by (rule fdwaitqueue_call_deadlocks [OF ok _ _ _ _ s1 job_steps.none])
      (simp_all add: waiting_jobs_def idle_jobs_def)
  then show ?thesis using s1 job_steps.none by force
qed

end
