(* ===== verification/HeaderRead.thy ===== *)
theory HeaderRead
  imports NetRead
begin

text \<open>
  Reading the header of a request, \<open>connection_handle_read_state\<close> of \<open>src/src/connections.c\<close>: the
  end of the header is looked for across the chunks of the read queue, and the header is copied
  into \<open>con->request.request\<close>.
\<close>

section \<open>Operations\<close>

text \<open>
  \<open>header_end\<close> matched from position \<open>pos\<close> on: \<open>k\<close> is the number of the chunk, \<open>j\<close> the position
  in it, and the texts are what is left of this chunk and the chunks behind it.
\<close>

fun match_header_end :: "nat \<Rightarrow> nat \<Rightarrow> nat \<Rightarrow> string list \<Rightarrow> (nat \<times> nat) option" where
  "match_header_end pos k j [] = None"
| "match_header_end pos k j ([] # cs) = match_header_end pos (Suc k) 0 cs"
| "match_header_end pos k j ((ch # s) # cs) =
     (if ch = (CRLF @ CRLF) ! pos
      then if Suc pos = 4 then Some (k, j + 1) else match_header_end (Suc pos) k (j + 1) (s # cs)
      else None)"

text \<open>After a line feed at the end of a chunk: a line feed at the start of the next one that is not empty.\<close>

fun next_line_feed :: "nat \<Rightarrow> string list \<Rightarrow> (nat \<times> nat) option" where
  "next_line_feed k [] = None"
| "next_line_feed k ([] # cs) = next_line_feed (Suc k) cs"
| "next_line_feed k ((ch # s) # cs) = (if ch = LF then Some (k, 1) else None)"

text \<open>
  One chunk: \<open>Found\<close> is the jump to \<open>found_header_end\<close>, \<open>Break\<close> the end of the inner loop only.
\<close>

datatype header_scan = Found nat nat | Break nat nat | Nothing

fun scan_chunk :: "nat \<Rightarrow> nat \<Rightarrow> string \<Rightarrow> string list \<Rightarrow> header_scan" where
  "scan_chunk k i [] cs = Nothing"
| "scan_chunk k i (ch # s) cs =
     (if ch = CR then
        (case match_header_end 1 k (i + 1) (s # cs) of
           Some (k', j) \<Rightarrow> Found k' j
         | None \<Rightarrow> scan_chunk k (i + 1) s cs)
      else if ch = LF then
        (if s \<noteq> [] then if hd s = LF then Break k (i + 2) else scan_chunk k (i + 1) s cs
         else case next_line_feed (Suc k) cs of
                Some (k', j) \<Rightarrow> Found k' j
              | None \<Rightarrow> scan_chunk k (i + 1) s cs)
      else scan_chunk k (i + 1) s cs)"

text \<open>All chunks, with \<open>last_chunk\<close> and \<open>last_offset\<close>.\<close>

fun scan_chunks :: "nat \<Rightarrow> (nat \<times> nat) option \<Rightarrow> string list \<Rightarrow> (nat \<times> nat) option" where
  "scan_chunks k lst [] = lst"
| "scan_chunks k lst (c # cs) =
     (case scan_chunk k 0 c cs of
        Found k' j \<Rightarrow> Some (k', j)
      | Break k' j \<Rightarrow> scan_chunks (Suc k) (Some (k', j)) cs
      | Nothing \<Rightarrow> scan_chunks (Suc k) lst cs)"

definition chunk_string :: "chunk \<Rightarrow> string option" where
  "chunk_string c = read_at (b_ptr (c_mem c)) (nat (c_offset c)) (chunk_avail c)"

fun chunk_strings :: "chunk list \<Rightarrow> string list option" where
  "chunk_strings [] = Some []"
| "chunk_strings (c # cs) = do { s \<leftarrow> chunk_string c; ss \<leftarrow> chunk_strings cs; Some (s # ss) }"

definition find_header_end :: "chunk list \<Rightarrow> (nat \<times> nat) option option" where
  "find_header_end cs = map_option (scan_chunks 0 None) (chunk_strings cs)"

text \<open>The chunks up to number \<open>k\<close> are copied, the last one up to \<open>off\<close>; the number counts the bytes.\<close>

fun copy_header :: "nat \<Rightarrow> nat \<Rightarrow> chunk list \<Rightarrow> buffer \<Rightarrow> (chunk list \<times> buffer \<times> int) option" where
  "copy_header k off [] b = Some ([], b, 0)"
| "copy_header k off (c # r) b = do {
     let len = (if k = 0 then off else chunk_avail c);
     s \<leftarrow> read_at (b_ptr (c_mem c)) (nat (c_offset c)) len;
     b \<leftarrow> buffer_append_string_len b s;
     let c = c\<lparr>c_offset := c_offset c + int len\<rparr>;
     if k = 0 then Some (c # r, b, int len)
     else do {
       (r, b, n) \<leftarrow> copy_header (k - 1) off r b;
       Some (c # r, b, int len + n)
     }
   }"

definition connection_handle_read_state ::
    "int \<Rightarrow> network_read_fn \<Rightarrow> con_conf \<Rightarrow> connection \<Rightarrow> (int \<times> connection) option" where
  "connection_handle_read_state now network_read cf con = do {
     let is_request_start = (cq_chunks (cn_read_queue con) = []);
     (rc, con) \<leftarrow> (if cn_is_readable con then network_read (con\<lparr>cn_read_idle_ts := now\<rparr>) else Some (0, con));
     if rc = -1 then Some (-1, con\<lparr>cn_state := CON_STATE_ERROR\<rparr>)
     else do {
       cq \<leftarrow> chunkqueue_remove_finished_chunks (cn_read_queue con);
       let con = (if 1 < cn_request_count con \<and> is_request_start then con\<lparr>cn_request_start := now\<rparr> else con);
       found \<leftarrow> find_header_end (cq_chunks cq);
       (con, len) \<leftarrow>
         (case found of
            Some (k, off) \<Rightarrow> do {
              (cs, b, n) \<leftarrow> copy_header k off (cq_chunks cq) (buffer_reset (cn_request con));
              Some (con\<lparr>cn_read_queue := cq\<lparr>cq_chunks := cs, cq_bytes_out := cq_bytes_out cq + n\<rparr>,
                        cn_request := b, cn_state := CON_STATE_REQUEST_END\<rparr>,
                    int (buffer_string_length b))
            }
          | None \<Rightarrow> do {
              len \<leftarrow> chunkqueue_length cq;
              Some ((if rc = -2 then con\<lparr>cn_read_queue := cq, cn_state := CON_STATE_ERROR\<rparr>
                     else con\<lparr>cn_read_queue := cq\<rparr>), len)
            });
       let con = (if int (cf_max_request_field_size cf) < len
                  then con\<lparr>cn_http_status := 431, cn_keep_alive := False, cn_state := CON_STATE_HANDLE_REQUEST\<rparr>
                  else con);
       cq \<leftarrow> chunkqueue_remove_finished_chunks (cn_read_queue con);
       Some (0, con\<lparr>cn_read_queue := cq\<rparr>)
     }
   }"

section \<open>The end of a header in a text\<close>

fun header_end :: "string \<Rightarrow> nat option" where
  "header_end s =
     (if take 4 s = CRLF @ CRLF then Some 4
      else if take 2 s = [LF, LF] then Some 2
      else case s of [] \<Rightarrow> None | c # r \<Rightarrow> map_option Suc (header_end r))"

declare header_end.simps [simp del]

lemma header_end_bound: "header_end s = Some n \<Longrightarrow> 2 \<le> n \<and> n \<le> length s"
proof (induction s arbitrary: n rule: header_end.induct)
  case (1 s)
  consider "take 4 s = CRLF @ CRLF" | "take 4 s \<noteq> CRLF @ CRLF" "take 2 s = [LF, LF]"
    | "take 4 s \<noteq> CRLF @ CRLF" "take 2 s \<noteq> [LF, LF]" by blast
  then show ?case
  proof cases
    case 1
    from arg_cong [OF this, of length] have "4 \<le> length s" by simp
    then show ?thesis using 1 \<open>header_end s = _\<close> by (simp add: header_end.simps [of s])
  next
    case 2
    from arg_cong [OF this(2), of length] have "2 \<le> length s" by simp
    then show ?thesis using 2 \<open>header_end s = _\<close> by (simp add: header_end.simps [of s])
  next
    case 3
    then obtain c r m where "s = c # r" "header_end r = Some m" "n = Suc m"
      using \<open>header_end s = _\<close> by (auto simp: header_end.simps [of s] split: list.splits)
    then show ?thesis using "1.IH" [OF 3 \<open>s = c # r\<close>] by auto
  qed
qed

lemma header_end_cases:
  "header_end (c # r) = (if c = CR \<and> take 3 r = [LF, CR, LF] then Some 4
     else if c = LF \<and> take 1 r = [LF] then Some 2 else map_option Suc (header_end r))"
  by (subst header_end.simps) (auto simp: numeral_eq_Suc)

lemma header_end_append: "header_end s = Some n \<Longrightarrow> header_end (s @ t) = Some n"
proof (induction s arbitrary: n)
  case Nil
  then show ?case by (simp add: header_end.simps)
next
  case (Cons c r)
  consider "c = CR \<and> take 3 r = [LF, CR, LF]" | "c = LF \<and> take 1 r = [LF]"
    | "\<not> (c = CR \<and> take 3 r = [LF, CR, LF])" "\<not> (c = LF \<and> take 1 r = [LF])" by blast
  then show ?case
  proof cases
    case 1
    from arg_cong [OF conjunct2 [OF 1], of length] have "take 3 (r @ t) = take 3 r" by simp
    then show ?thesis using 1 Cons.prems by (simp add: header_end_cases)
  next
    case 2
    from arg_cong [OF conjunct2 [OF 2], of length] have "take 1 (r @ t) = take 1 r" by (cases r) simp_all
    then show ?thesis using 2 Cons.prems by (simp add: header_end_cases)
  next
    case 3
    then obtain m where m: "header_end r = Some m" "n = Suc m" using Cons.prems by (auto simp: header_end_cases)
    note b = header_end_bound [OF m(1)]
    have t1: "take 1 (r @ t) = take 1 r" using b by simp
    have "take 3 (r @ t) \<noteq> [LF, CR, LF]" if "c = CR"
    proof (cases "3 \<le> length r")
      case True
      then show ?thesis using 3(1) that by simp
    next
      case False
      then have "length r = 2" using b by simp
      then obtain x y where r: "r = [x, y]" by (auto simp: numeral_eq_Suc length_Suc_conv)
      then show ?thesis using m(1) by (auto simp: header_end.simps split: if_splits)
    qed
    then show ?thesis using 3(2) t1 m Cons.IH [OF m(1)] by (auto simp: header_end_cases)
  qed
qed

lemma header_end_take: "header_end (s @ t) = Some n \<Longrightarrow> n \<le> length s \<Longrightarrow> header_end s = Some n"
proof (induction s arbitrary: n)
  case Nil
  then show ?case using header_end_bound by fastforce
next
  case (Cons c r)
  consider "c = CR \<and> take 3 (r @ t) = [LF, CR, LF]" | "c = LF \<and> take 1 (r @ t) = [LF]"
    | "\<not> (c = CR \<and> take 3 (r @ t) = [LF, CR, LF])" "\<not> (c = LF \<and> take 1 (r @ t) = [LF])" by blast
  then show ?case
  proof cases
    case 1
    then have "n = 4" using Cons.prems(1) by (simp add: header_end_cases)
    then show ?thesis using 1 Cons.prems(2) by (simp add: header_end_cases)
  next
    case 2
    then have "n = 2" using Cons.prems(1) by (simp add: header_end_cases)
    then show ?thesis using 2 Cons.prems(2) by (cases r) (simp_all add: header_end_cases)
  next
    case 3
    have w: "header_end (c # (r @ t)) = map_option Suc (header_end (r @ t))"
      unfolding header_end_cases [of c] using 3 by (simp only: if_False)
    then obtain m where m: "header_end (r @ t) = Some m" "n = Suc m" using Cons.prems(1) by auto
    have r: "header_end r = Some m" using Cons.IH [OF m(1)] Cons.prems(2) m(2) by simp
    have "\<not> (c = CR \<and> take 3 r = [LF, CR, LF])"
    proof
      assume a: "c = CR \<and> take 3 r = [LF, CR, LF]"
      from arg_cong [OF conjunct2 [OF a], of length] have "take 3 (r @ t) = take 3 r" by simp
      then show False using 3(1) a by simp
    qed
    moreover have "\<not> (c = LF \<and> take 1 r = [LF])" using 3(2) by (cases r) auto
    ultimately show ?thesis unfolding header_end_cases [of c] using r m(2) by (simp only: if_False option.map)
  qed
qed

text \<open>A prefix of a text that is shorter than its header has no end of a header.\<close>

lemma header_end_prefix:
  assumes "header_end (s @ t) = Some n"
  shows "header_end s = (if n \<le> length s then Some n else None)"
proof (cases "header_end s")
  case None
  then show ?thesis using header_end_take [OF assms] by auto
next
  case (Some m)
  then show ?thesis using header_end_append [OF Some, of t] header_end_bound [OF Some] assms by simp
qed

fun lf_lf_free :: "string \<Rightarrow> bool" where
  "lf_lf_free (c # d # s) = (\<not> (c = LF \<and> d = LF) \<and> lf_lf_free (d # s))"
| "lf_lf_free s = True"

lemma lf_lf_free_def: "lf_lf_free s \<longleftrightarrow> (\<forall>a b. s \<noteq> a @ [LF, LF] @ b)"
proof (induction s rule: lf_lf_free.induct)
  case (1 c d s)
  show ?case
  proof
    assume l: "lf_lf_free (c # d # s)"
    show "\<forall>a b. c # d # s \<noteq> a @ [LF, LF] @ b"
    proof (intro allI notI)
      fix a b
      assume e: "c # d # s = a @ [LF, LF] @ b"
      show False
      proof (cases a)
        case Nil
        then show False using e l by simp
      next
        case (Cons x a')
        then have "d # s = a' @ [LF, LF] @ b" using e by simp
        moreover have "lf_lf_free (d # s)" using l by simp
        ultimately show False using 1 by blast
      qed
    qed
  next
    assume a: "\<forall>a b. c # d # s \<noteq> a @ [LF, LF] @ b"
    then have "\<forall>a b. d # s \<noteq> a @ [LF, LF] @ b" by (metis append_Cons)
    moreover have "\<not> (c = LF \<and> d = LF)" using a by (metis append_Cons append_Nil)
    ultimately show "lf_lf_free (c # d # s)" using 1 by simp
  qed
qed (auto simp: Cons_eq_append_conv)

lemma lf_lf_free_tl: "lf_lf_free (c # s) \<Longrightarrow> lf_lf_free s"
  by (cases s) auto

lemma lf_lf_free_part: "lf_lf_free (a @ s @ b) \<Longrightarrow> lf_lf_free s"
  unfolding lf_lf_free_def by (metis append.assoc)

text \<open>The first end of a header is not two line feeds.\<close>

definition crlf_ended :: "string \<Rightarrow> bool" where
  "crlf_ended s \<longleftrightarrow> (\<forall>n. header_end s = Some n \<longrightarrow> lf_lf_free (take n s))"

subsection \<open>The search across chunks\<close>

text \<open>A position in a list of texts, and where it is in all of them.\<close>

definition place :: "string list \<Rightarrow> nat \<Rightarrow> nat \<Rightarrow> nat" where
  "place ts k j = length (concat (take k ts)) + j"

definition place_ok :: "string list \<Rightarrow> nat \<Rightarrow> nat \<Rightarrow> bool" where
  "place_ok ts k j \<longleftrightarrow> k < length ts \<and> 0 < j \<and> j \<le> length (ts ! k)"

lemma place_next: "k < length ts \<Longrightarrow> place ts (Suc k) 0 = place ts k (length (ts ! k))"
  by (simp add: place_def take_Suc_conv_app_nth)

lemma match_header_end_ok:
  assumes "k < length ts" "ts ! k = pre @ s" "pos < 4"
  shows "case match_header_end pos k (length pre) (s # drop (Suc k) ts) of
      None \<Rightarrow> take (4 - pos) (s @ concat (drop (Suc k) ts)) \<noteq> drop pos (CRLF @ CRLF)
    | Some (k', j) \<Rightarrow> take (4 - pos) (s @ concat (drop (Suc k) ts)) = drop pos (CRLF @ CRLF)
        \<and> place_ok ts k' j \<and> place ts k' j = place ts k (length pre) + (4 - pos)"
proof -
  have "cs = s # drop (Suc k) ts \<Longrightarrow> j = length pre \<Longrightarrow> k < length ts \<Longrightarrow> ts ! k = pre @ s \<Longrightarrow> pos < 4 \<Longrightarrow>
     case match_header_end pos k j cs of
      None \<Rightarrow> take (4 - pos) (concat cs) \<noteq> drop pos (CRLF @ CRLF)
    | Some (k', j') \<Rightarrow> take (4 - pos) (concat cs) = drop pos (CRLF @ CRLF)
        \<and> place_ok ts k' j' \<and> place ts k' j' = place ts k (length pre) + (4 - pos)" for cs j
  proof (induction pos k j cs arbitrary: pre s rule: match_header_end.induct)
    case (2 pos k j cs)
    show ?case
    proof (cases "Suc k < length ts")
      case True
      then have "cs = ts ! Suc k # drop (Suc (Suc k)) ts" using "2.prems"(1) by (simp add: Cons_nth_drop_Suc)
      from "2.IH" [OF this, of "[]"] show ?thesis
        using True "2.prems" place_next [OF "2.prems"(3)] by (simp split: option.splits prod.splits)
    next
      case False
      then have "cs = []" using "2.prems"(1) by simp
      then show ?thesis using "2.prems"(5) by auto
    qed
  next
    case (3 pos k j ch t cs)
    have s: "s = ch # t" "cs = drop (Suc k) ts" using "3.prems"(1) by simp_all
    have d: "drop pos (CRLF @ CRLF) = (CRLF @ CRLF) ! pos # drop (Suc pos) (CRLF @ CRLF)"
      by (rule Cons_nth_drop_Suc [symmetric]) (use "3.prems"(5) in simp)
    have tk: "take (4 - pos) (concat ((ch # t) # cs)) = ch # take (4 - Suc pos) (concat (t # cs))"
    proof -
      have "4 - pos = Suc (4 - Suc pos)" using "3.prems"(5) by simp
      then show ?thesis by (simp only: concat.simps append_Cons take_Suc_Cons)
    qed
    show ?case
    proof (cases "ch = (CRLF @ CRLF) ! pos")
      case True
      show ?thesis
      proof (cases "Suc pos = 4")
        case True
        then have "place_ok ts k (j + 1)" "place ts k (j + 1) = place ts k (length pre) + (4 - pos)" "pos = 3"
          using "3.prems" s by (simp_all add: place_ok_def place_def)
        then show ?thesis using \<open>ch = _\<close> s(1) by simp
      next
        case False
        have "place ts k (Suc (length pre)) + (4 - Suc pos) = place ts k (length pre) + (4 - pos)"
          using "3.prems"(5) by (simp add: place_def)
        moreover have "case match_header_end (Suc pos) k (j + 1) (t # cs) of
            None \<Rightarrow> take (4 - Suc pos) (concat (t # cs)) \<noteq> drop (Suc pos) (CRLF @ CRLF)
          | Some (k', j') \<Rightarrow> take (4 - Suc pos) (concat (t # cs)) = drop (Suc pos) (CRLF @ CRLF)
              \<and> place_ok ts k' j' \<and> place ts k' j' = place ts k (length (pre @ [ch])) + (4 - Suc pos)"
          by (rule "3.IH") (use True False "3.prems" s in auto)
        ultimately show ?thesis using True False unfolding d tk by (simp split: option.splits prod.splits)
      qed
    next
      case False
      then show ?thesis unfolding d tk by simp
    qed
  qed simp
  from this [OF refl refl assms] show ?thesis unfolding concat.simps .
qed

lemma next_line_feed_ok:
  "case next_line_feed k (drop k ts) of
      None \<Rightarrow> take 1 (concat (drop k ts)) \<noteq> [LF]
    | Some (k', j) \<Rightarrow> take 1 (concat (drop k ts)) = [LF] \<and> place_ok ts k' j \<and> place ts k' j = place ts k 0 + 1"
proof -
  have "cs = drop k ts \<Longrightarrow> case next_line_feed k cs of
      None \<Rightarrow> take 1 (concat cs) \<noteq> [LF]
    | Some (k', j) \<Rightarrow> take 1 (concat cs) = [LF] \<and> place_ok ts k' j \<and> place ts k' j = place ts k 0 + 1" for cs
  proof (induction k cs rule: next_line_feed.induct)
    case (2 k cs)
    then have k: "k < length ts" by (metis drop_all leI list.discI)
    then have t: "ts ! k = []" "cs = drop (Suc k) ts" using 2(2) by (simp_all add: Cons_nth_drop_Suc [symmetric])
    show ?case using "2.IH" [OF t(2)] place_next [OF k] t(1) by (simp split: option.splits prod.splits)
  next
    case (3 k ch s cs)
    then have k: "k < length ts" by (metis drop_all leI list.discI)
    then have "ts ! k = ch # s" using 3 by (simp add: Cons_nth_drop_Suc [symmetric])
    then show ?case using k by (simp add: place_ok_def place_def)
  qed simp
  then show ?thesis by simp
qed

text \<open>The search in one chunk, from a position on.\<close>

lemma scan_chunk_ok:
  assumes "k < length ts" "ts ! k = pre @ s"
  shows "case scan_chunk k (length pre) s (drop (Suc k) ts) of
      Nothing \<Rightarrow> header_end (s @ concat (drop (Suc k) ts)) = map_option ((+) (length s)) (header_end (concat (drop (Suc k) ts)))
    | Found k' j \<Rightarrow> place_ok ts k' j \<and> (\<exists>n. header_end (s @ concat (drop (Suc k) ts)) = Some n
        \<and> place ts k' j = place ts k (length pre) + n)
    | Break k' j \<Rightarrow> place_ok ts k' j \<and> (\<exists>n. header_end (s @ concat (drop (Suc k) ts)) = Some n
        \<and> \<not> lf_lf_free (take n (s @ concat (drop (Suc k) ts))) \<and> place ts k' j = place ts k (length pre) + n)"
  using assms(2)
proof (induction s arbitrary: pre)
  case (Cons ch s)
  let ?rest = "concat (drop (Suc k) ts)"
  have p: "ts ! k = (pre @ [ch]) @ s" using Cons.prems by simp
  note IH = Cons.IH [OF p]
  have nx: "place ts k (Suc (length pre)) = Suc (place ts k (length pre))" by (simp add: place_def)
  show ?case
  proof (cases "ch = CR")
    case True
    have m: "case match_header_end 1 k (Suc (length pre)) (s # drop (Suc k) ts) of
      None \<Rightarrow> take 3 (s @ ?rest) \<noteq> [LF, CR, LF]
    | Some (k', j) \<Rightarrow> take 3 (s @ ?rest) = [LF, CR, LF] \<and> place_ok ts k' j \<and> place ts k' j = place ts k (length pre) + 4"
      using match_header_end_ok [OF assms(1) p, of 1] nx by (simp split: option.splits prod.splits)
    show ?thesis
    proof (cases "match_header_end 1 k (Suc (length pre)) (s # drop (Suc k) ts)")
      case None
      then have "header_end ((ch # s) @ ?rest) = map_option Suc (header_end (s @ ?rest))"
        using m True by (simp add: header_end_cases)
      then show ?thesis using None True IH nx
        by (auto split: header_scan.splits simp: option.map_comp comp_def dest: lf_lf_free_tl) 
    next
      case (Some r)
      obtain k' j where "r = (k', j)" by (cases r)
      then show ?thesis using m True Some by (simp add: header_end_cases)
    qed
  next
    case ncr: False
    show ?thesis
    proof (cases "ch = LF \<and> take 1 (s @ ?rest) = [LF]")
      case False
      then have h: "header_end ((ch # s) @ ?rest) = map_option Suc (header_end (s @ ?rest))"
        using ncr by (simp only: append_Cons header_end_cases if_False simp_thms)
      have "scan_chunk k (length pre) (ch # s) (drop (Suc k) ts) = scan_chunk k (Suc (length pre)) s (drop (Suc k) ts)"
        using False ncr next_line_feed_ok [of "Suc k" ts] by (cases s) (auto split: option.splits prod.splits)
      then show ?thesis using h IH nx
        by (auto split: header_scan.splits simp: option.map_comp comp_def dest: lf_lf_free_tl)
    next
      case True
      then have h: "header_end ((ch # s) @ ?rest) = Some 2" using ncr by (simp add: header_end_cases)
      show ?thesis
      proof (cases s)
        case Nil
        then show ?thesis using True h next_line_feed_ok [of "Suc k" ts] place_next [OF assms(1)] Cons.prems
          by (auto split: option.splits prod.splits simp: place_def)
      next
        case (Cons c r)
        then have "\<not> lf_lf_free (take 2 ((ch # s) @ ?rest))" using True by (auto simp: lf_lf_free_def intro: exI [of _ "[]"])
        then show ?thesis using True h Cons Cons.prems assms(1) ncr by (simp add: place_ok_def place_def)
      qed
    qed
  qed
qed (simp add: map_option_case split: option.split)

text \<open>
  All chunks: the first end is found when it is not two line feeds in a row, for then the search
  can go on behind them.
\<close>

lemma scan_chunks_ok:
  assumes "\<forall>n. header_end (concat (drop k ts)) = Some n \<longrightarrow> lf_lf_free (take n (concat (drop k ts)))"
  shows "case scan_chunks k None (drop k ts) of
      None \<Rightarrow> header_end (concat (drop k ts)) = None
    | Some (k', j) \<Rightarrow> place_ok ts k' j \<and> (\<exists>n. header_end (concat (drop k ts)) = Some n \<and> place ts k' j = place ts k 0 + n)"
  using assms
proof (induction "length ts - k" arbitrary: k)
  case 0
  then show ?case by (simp add: header_end.simps)
next
  case (Suc m)
  then have k: "k < length ts" by simp
  then have d: "drop k ts = ts ! k # drop (Suc k) ts" by (simp add: Cons_nth_drop_Suc)
  have s: "case scan_chunk k 0 (ts ! k) (drop (Suc k) ts) of
      Nothing \<Rightarrow> header_end (concat (drop k ts)) = map_option ((+) (length (ts ! k))) (header_end (concat (drop (Suc k) ts)))
    | Found k' j \<Rightarrow> place_ok ts k' j \<and> (\<exists>n. header_end (concat (drop k ts)) = Some n
        \<and> place ts k' j = place ts k 0 + n)
    | Break k' j \<Rightarrow> place_ok ts k' j \<and> (\<exists>n. header_end (concat (drop k ts)) = Some n
        \<and> \<not> lf_lf_free (take n (concat (drop k ts))) \<and> place ts k' j = place ts k 0 + n)"
    using scan_chunk_ok [OF k, of "[]" "ts ! k"] unfolding d concat.simps list.size(3) append_Nil by simp
  show ?case
  proof (cases "scan_chunk k 0 (ts ! k) (drop (Suc k) ts)")
    case (Found k' j)
    then show ?thesis using s unfolding d by simp
  next
    case (Break k' j)
    then show ?thesis using s Suc.prems by auto
  next
    case Nothing
    then have h: "header_end (concat (drop k ts)) = map_option ((+) (length (ts ! k))) (header_end (concat (drop (Suc k) ts)))"
      using s by simp
    have "lf_lf_free (take n (concat (drop (Suc k) ts)))" if "header_end (concat (drop (Suc k) ts)) = Some n" for n
    proof -
      have "lf_lf_free (take (length (ts ! k) + n) (concat (drop k ts)))" using Suc.prems h that by simp
      then have "lf_lf_free (ts ! k @ take n (concat (drop (Suc k) ts)))" unfolding d by simp
      then show ?thesis using lf_lf_free_part [of "ts ! k" _ "[]"] by simp
    qed
    note IH = Suc.hyps(1) [OF _ allI [OF impI [OF this]]]
    have "place ts (Suc k) 0 = place ts k 0 + length (ts ! k)" using place_next [OF k] by (simp add: place_def)
    moreover have "m = length ts - Suc k" using Suc.hyps(2) by simp
    ultimately show ?thesis using IH s Nothing unfolding d by (auto split: option.splits)
  qed
qed

section \<open>What one call does\<close>

lemma live_string:
  assumes "live c" "n \<le> length (mem_text c)"
  shows "read_at (b_ptr (c_mem c)) (nat (c_offset c)) n = Some (take n (mem_text c))"
proof -
  obtain rest where r: "b_ptr (c_mem c) = map Some (buffer_content (c_mem c)) @ Some NUL # rest"
    "nat (c_offset c) + length (mem_text c) = length (buffer_content (c_mem c))"
    using live_cells [OF assms(1)] by blast
  have "buffer_content (c_mem c) = take (nat (c_offset c)) (buffer_content (c_mem c)) @ mem_text c"
    by (simp add: mem_text_def)
  then have "b_ptr (c_mem c) = map Some (take (nat (c_offset c)) (buffer_content (c_mem c))) @ map Some (take n (mem_text c))
      @ (map Some (drop n (mem_text c)) @ Some NUL # rest)"
    using r(1) by (metis append.assoc append_take_drop_id map_append)
  then show ?thesis using r(2) assms(2) by (simp only:) (rule read_at_mid, simp_all)
qed

lemma live_strings: "\<forall>c \<in> set cs. live c \<Longrightarrow> chunk_strings cs = Some (map mem_text cs)"
  by (induction cs) (simp_all add: chunk_string_def live_avail live_string)

lemma live_concat: "\<forall>c \<in> set cs. live c \<Longrightarrow> concat (map chunk_octets cs) = map MemByte (concat (map mem_text cs))"
  by (induction cs) (auto simp: live_octets live_def)

lemma remove_finished_live:
  assumes "\<forall>c \<in> set (cq_chunks cq). live c"
  shows "chunkqueue_remove_finished_chunks cq = Some cq"
  using assms by (cases "cq_chunks cq") (auto simp: chunkqueue_remove_finished_chunks.simps [of cq] live_def live_octets)

text \<open>The chunks that were copied; \<open>remove_finished\<close> then leaves the rest of the text.\<close>

lemma advanced:
  assumes "live c" "n \<le> length (mem_text c)"
  shows "chunk_wf (c\<lparr>c_offset := c_offset c + int n\<rparr>)" "mem_text (c\<lparr>c_offset := c_offset c + int n\<rparr>) = drop n (mem_text c)"
    "chunk_octets (c\<lparr>c_offset := c_offset c + int n\<rparr>) = map MemByte (drop n (mem_text c))"
proof -
  obtain rest where r: "nat (c_offset c) + length (mem_text c) = length (buffer_content (c_mem c))" "0 \<le> c_offset c"
    using live_cells [OF assms(1)] by blast
  have w: "buffer_wf (c_mem c)" "c_type c = MEM_CHUNK" using assms(1) by (simp_all add: live_def chunk_wf_def)
  show "chunk_wf (c\<lparr>c_offset := c_offset c + int n\<rparr>)"
    using r w assms(2) by (simp add: chunk_wf_def chunk_size_def buffer_string_length_content)
  show t: "mem_text (c\<lparr>c_offset := c_offset c + int n\<rparr>) = drop n (mem_text c)"
    using r(2) by (simp add: mem_text_def nat_add_distrib add.commute)
  show "chunk_octets (c\<lparr>c_offset := c_offset c + int n\<rparr>) = map MemByte (drop n (mem_text c))"
    using live_octets [of "c\<lparr>c_offset := c_offset c + int n\<rparr>"] w(2) t by simp
qed

lemma copy_header_ok:
  assumes "\<forall>c \<in> set cs. live c" "k < length cs" "off \<le> length (mem_text (cs ! k))" "buffer_wf b"
    "fits (length (buffer_content b) + (\<Sum>c\<leftarrow>cs. length (mem_text c)))"
  shows "\<exists>cs' b'. copy_header k off cs b = Some (cs', b', int (place (map mem_text cs) k off)) \<and> buffer_wf b'
    \<and> buffer_content b' = buffer_content b @ take (place (map mem_text cs) k off) (concat (map mem_text cs))
    \<and> (\<forall>c \<in> set cs'. chunk_wf c)
    \<and> concat (map chunk_octets cs') = map MemByte (drop (place (map mem_text cs) k off) (concat (map mem_text cs)))
    \<and> (\<Sum>c\<leftarrow>cs'. length (buffer_content (c_mem c))) = (\<Sum>c\<leftarrow>cs. length (buffer_content (c_mem c)))
    \<and> (\<forall>cq. cq_chunks cq = cs' \<longrightarrow> (\<exists>cq'. chunkqueue_remove_finished_chunks cq = Some cq'
         \<and> (\<forall>c \<in> set (cq_chunks cq'). live c) \<and> cq_bytes_out cq' = cq_bytes_out cq
         \<and> (\<Sum>c\<leftarrow>cq_chunks cq'. length (buffer_content (c_mem c))) \<le> (\<Sum>c\<leftarrow>cs. length (buffer_content (c_mem c)))))"
  using assms
proof (induction cs arbitrary: k b)
  case (Cons c cs)
  have c: "live c" and r: "\<forall>c \<in> set cs. live c" using Cons.prems(1) by simp_all
  have cw: "chunk_wf c" using c by (simp add: live_def)
  show ?case
  proof (cases k)
    case 0
    let ?c = "c\<lparr>c_offset := c_offset c + int off\<rparr>"
    have off: "off \<le> length (mem_text c)" using Cons.prems(3) 0 by simp
    note a = advanced [OF c off]
    have "fits (length (buffer_content b) + length (take off (mem_text c)))"
      using Cons.prems(5) off by (auto elim: fits_mono)
    then obtain b' where b': "buffer_append_string_len b (take off (mem_text c)) = Some b'" "buffer_wf b'"
        "buffer_content b' = buffer_content b @ take off (mem_text c)"
      using buffer_append_string_len_ok [OF Cons.prems(4)] buffer_content_abs by blast
    have pl: "place (map mem_text (c # cs)) k off = off" using 0 by (simp add: place_def)
    have "copy_header k off (c # cs) b = Some (?c # cs, b', int off)"
      using 0 live_string [OF c off] b'(1) by simp
    moreover have "\<exists>cq'. chunkqueue_remove_finished_chunks cq = Some cq' \<and> (\<forall>c \<in> set (cq_chunks cq'). live c)
         \<and> cq_bytes_out cq' = cq_bytes_out cq
         \<and> (\<Sum>c\<leftarrow>cq_chunks cq'. length (buffer_content (c_mem c))) \<le> (\<Sum>c\<leftarrow>c # cs. length (buffer_content (c_mem c)))"
      if q: "cq_chunks cq = ?c # cs" for cq
    proof (cases "off = length (mem_text c)")
      case True
      then have "chunkqueue_remove_finished_chunks cq
          = chunkqueue_remove_finished_chunks (chunkqueue_push_unused_chunk (cq\<lparr>cq_chunks := cs\<rparr>) ?c)"
        using q a(1,3) by (simp add: chunkqueue_remove_finished_chunks.simps [of cq])
      then show ?thesis using remove_finished_live r by simp
    next
      case False
      then have "live ?c" using a c off by (simp add: live_def)
      then show ?thesis using remove_finished_live [of cq] q r by simp
    qed
    moreover have "\<forall>c \<in> set (?c # cs). chunk_wf c" using a(1) r by (auto simp: live_def)
    moreover have "concat (map chunk_octets (?c # cs)) = map MemByte (drop off (concat (map mem_text (c # cs))))"
      using a(3) live_concat [OF r] off by simp
    ultimately show ?thesis using b' off unfolding pl by (intro exI [of _ "?c # cs"] exI [of _ b']) simp
  next
    case (Suc k')
    let ?n = "length (mem_text c)"
    let ?c = "c\<lparr>c_offset := c_offset c + int ?n\<rparr>"
    note a = advanced [OF c order_refl]
    have "fits (length (buffer_content b) + length (mem_text c))"
      using Cons.prems(5) by (auto elim: fits_mono)
    then obtain b1 where b1: "buffer_append_string_len b (mem_text c) = Some b1" "buffer_wf b1"
        "buffer_content b1 = buffer_content b @ mem_text c"
      using buffer_append_string_len_ok [OF Cons.prems(4)] buffer_content_abs by blast
    have f: "fits (length (buffer_content b1) + (\<Sum>c\<leftarrow>cs. length (mem_text c)))"
      using Cons.prems(5) b1(3) by (simp add: add.assoc)
    have k': "k' < length cs" "off \<le> length (mem_text (cs ! k'))" using Cons.prems(2,3) Suc by simp_all
    define p where "p = place (map mem_text cs) k' off"
    have pl: "place (map mem_text (c # cs)) k off = ?n + p" using Suc by (simp add: place_def p_def)
    obtain cs' b' where IH: "copy_header k' off cs b1 = Some (cs', b', int p)" "buffer_wf b'"
        "buffer_content b' = buffer_content b1 @ take p (concat (map mem_text cs))"
        "\<forall>c \<in> set cs'. chunk_wf c" "concat (map chunk_octets cs') = map MemByte (drop p (concat (map mem_text cs)))"
        "(\<Sum>c\<leftarrow>cs'. length (buffer_content (c_mem c))) = (\<Sum>c\<leftarrow>cs. length (buffer_content (c_mem c)))"
        "\<forall>cq. cq_chunks cq = cs' \<longrightarrow> (\<exists>cq'. chunkqueue_remove_finished_chunks cq = Some cq'
           \<and> (\<forall>c \<in> set (cq_chunks cq'). live c) \<and> cq_bytes_out cq' = cq_bytes_out cq
           \<and> (\<Sum>c\<leftarrow>cq_chunks cq'. length (buffer_content (c_mem c))) \<le> (\<Sum>c\<leftarrow>cs. length (buffer_content (c_mem c))))"
      using Cons.IH [OF r k' b1(2) f] unfolding p_def by blast
    have "copy_header k off (c # cs) b = Some (?c # cs', b', int (?n + p))"
      using Suc live_string [OF c order_refl] live_avail(1) [OF c] b1(1) IH(1) by (simp add: Let_def)
    moreover have "\<exists>cq'. chunkqueue_remove_finished_chunks cq = Some cq' \<and> (\<forall>c \<in> set (cq_chunks cq'). live c)
         \<and> cq_bytes_out cq' = cq_bytes_out cq
         \<and> (\<Sum>c\<leftarrow>cq_chunks cq'. length (buffer_content (c_mem c))) \<le> (\<Sum>c\<leftarrow>c # cs. length (buffer_content (c_mem c)))"
      if q: "cq_chunks cq = ?c # cs'" for cq
    proof -
      let ?q = "chunkqueue_push_unused_chunk (cq\<lparr>cq_chunks := cs'\<rparr>) ?c"
      have "chunkqueue_remove_finished_chunks cq = chunkqueue_remove_finished_chunks ?q"
        using q a(1,3) by (simp add: chunkqueue_remove_finished_chunks.simps [of cq])
      moreover obtain cq' where "chunkqueue_remove_finished_chunks ?q = Some cq'" "\<forall>c \<in> set (cq_chunks cq'). live c"
          "cq_bytes_out cq' = cq_bytes_out ?q"
          "(\<Sum>c\<leftarrow>cq_chunks cq'. length (buffer_content (c_mem c))) \<le> (\<Sum>c\<leftarrow>cs. length (buffer_content (c_mem c)))"
      proof -
        have "cq_chunks ?q = cs'" by simp
        with IH(7) show thesis using that by blast
      qed
      ultimately show ?thesis by simp
    qed
    ultimately show ?thesis using b1(3) IH(2-6) a(1,3) unfolding pl by simp
  qed
qed simp

text \<open>The search and the copy together, on a queue of text.\<close>

lemma find_header_end_ok:
  assumes "text_queue cq" "crlf_ended (queue_text cq)"
  shows "\<exists>found. find_header_end (cq_chunks cq) = Some found \<and>
    (case found of None \<Rightarrow> header_end (queue_text cq) = None
     | Some (k, j) \<Rightarrow> place_ok (map mem_text (cq_chunks cq)) k j
         \<and> header_end (queue_text cq) = Some (place (map mem_text (cq_chunks cq)) k j))"
proof -
  let ?ts = "map mem_text (cq_chunks cq)"
  have s: "chunk_strings (cq_chunks cq) = Some ?ts" using assms(1) by (simp add: live_strings text_queue_def)
  have "\<forall>n. header_end (concat (drop 0 ?ts)) = Some n \<longrightarrow> lf_lf_free (take n (concat (drop 0 ?ts)))"
    using assms(2) by (simp add: queue_text_def crlf_ended_def)
  from scan_chunks_ok [OF this] show ?thesis
    by (auto simp: find_header_end_def s queue_text_def place_def split: option.splits)
qed

lemma copied_queue:
  assumes "text_queue cq" "header_end (queue_text cq) = Some n" "place_ok (map mem_text (cq_chunks cq)) k off"
    "place (map mem_text (cq_chunks cq)) k off = n" "buffer_wf b" "fits (stored_bytes cq)" "buffer_content b = []"
  shows "\<exists>cs b' cq'. copy_header k off (cq_chunks cq) b = Some (cs, b', int n) \<and> buffer_wf b'
    \<and> buffer_content b' = take n (queue_text cq)
    \<and> chunkqueue_remove_finished_chunks (cq\<lparr>cq_chunks := cs, cq_bytes_out := cq_bytes_out cq + int n\<rparr>) = Some cq'
    \<and> text_queue cq' \<and> queue_text cq' = drop n (queue_text cq) \<and> stored_bytes cq' \<le> stored_bytes cq"
proof -
  have live: "\<forall>c \<in> set (cq_chunks cq). live c" using assms(1) by (simp add: text_queue_def)
  have m: "length (mem_text c) \<le> length (buffer_content (c_mem c))" for c by (simp add: mem_text_def)
  have "(\<Sum>c\<leftarrow>cq_chunks cq. length (mem_text c)) \<le> stored_bytes cq"
    unfolding stored_bytes_def by (intro sum_list_mono) (simp add: m)
  then have f: "fits (length (buffer_content b) + (\<Sum>c\<leftarrow>cq_chunks cq. length (mem_text c)))"
    using assms(6,7) fits_mono by simp
  have k: "k < length (cq_chunks cq)" "off \<le> length (mem_text (cq_chunks cq ! k))"
    using assms(3) by (auto simp: place_ok_def)
  obtain cs b' where c: "copy_header k off (cq_chunks cq) b = Some (cs, b', int n)" "buffer_wf b'"
      "buffer_content b' = take n (queue_text cq)" "\<forall>c \<in> set cs. chunk_wf c"
      "concat (map chunk_octets cs) = map MemByte (drop n (queue_text cq))"
      "\<forall>q. cq_chunks q = cs \<longrightarrow> (\<exists>q'. chunkqueue_remove_finished_chunks q = Some q' \<and> (\<forall>c \<in> set (cq_chunks q'). live c)
         \<and> cq_bytes_out q' = cq_bytes_out q
         \<and> (\<Sum>c\<leftarrow>cq_chunks q'. length (buffer_content (c_mem c))) \<le> stored_bytes cq)"
    using copy_header_ok [OF live k assms(5) f] assms(4,7) by (auto simp: queue_text_def stored_bytes_def)
  let ?q = "cq\<lparr>cq_chunks := cs, cq_bytes_out := cq_bytes_out cq + int n\<rparr>"
  obtain q' where q': "chunkqueue_remove_finished_chunks ?q = Some q'" "\<forall>c \<in> set (cq_chunks q'). live c"
      "(\<Sum>c\<leftarrow>cq_chunks q'. length (buffer_content (c_mem c))) \<le> stored_bytes cq"
  proof -
    have "cq_chunks ?q = cs" by simp
    with c(6) show thesis using that by blast
  qed
  have o: "cq_octets ?q = map MemByte (drop n (queue_text cq))" using c(5) by (simp add: cq_octets_def)
  have "n \<le> length (queue_text cq)" using header_end_bound [OF assms(2)] by simp
  then have "cq_wf ?q"
    using assms(1) c(4) o text_count [OF assms(1)] by (auto simp: text_queue_def cq_wf_iff unused_ok_def)
  from remove_finished_ok [OF this] have w: "cq_wf q'" "cq_octets q' = cq_octets ?q" using q'(1) by auto
  then have t: "text_queue q'" using q'(2) by (simp add: text_queue_def)
  have "queue_text q' = drop n (queue_text cq)" using text_octets [OF t] w(2) o by (simp add: MemByte_inj)
  then show ?thesis using c(1-3) q'(1,3) t by (auto simp: stored_bytes_def)
qed

text \<open>The connection while it waits for a header; the limit of the field size is not reached.\<close>

definition header_pending :: "connection \<Rightarrow> bool" where
  "header_pending con \<longleftrightarrow> text_queue (cn_read_queue con) \<and> buffer_wf (cn_request con) \<and> cn_state con = CON_STATE_READ"

definition same_body :: "connection \<Rightarrow> connection \<Rightarrow> bool" where
  "same_body con con' \<longleftrightarrow> cn_request_content_queue con' = cn_request_content_queue con \<and> cn_te_chunked con' = cn_te_chunked con
     \<and> cn_write_queue con' = cn_write_queue con \<and> cn_request_count con' = cn_request_count con"

context socket_reader begin

lemma read_state_ok:
  assumes "header_pending con" "piece x" "read_room con (length x)" "text = queue_text (cn_read_queue con) @ x"
    "crlf_ended text"
  shows "\<exists>con'. connection_handle_read_state now (rd x) cf (con\<lparr>cn_is_readable := True\<rparr>) = Some (0, con')
    \<and> same_body con con' \<and> buffer_wf (cn_request con') \<and> text_queue (cn_read_queue con')
    \<and> stored_bytes (cn_read_queue con') \<le> stored_bytes (cn_read_queue con) + length x
    \<and> \<not> cn_is_readable con'
    \<and> (case header_end text of
        None \<Rightarrow> queue_text (cn_read_queue con') = text
          \<and> cn_state con' = (if cf_max_request_field_size cf < length text then CON_STATE_HANDLE_REQUEST else CON_STATE_READ)
          \<and> (cf_max_request_field_size cf < length text \<longrightarrow> cn_http_status con' = 431 \<and> \<not> cn_keep_alive con')
      | Some n \<Rightarrow> queue_text (cn_read_queue con') = drop n text \<and> buffer_content (cn_request con') = take n text
          \<and> cn_state con' = (if cf_max_request_field_size cf < n then CON_STATE_HANDLE_REQUEST else CON_STATE_REQUEST_END)
          \<and> (cf_max_request_field_size cf < n \<longrightarrow> cn_http_status con' = 431 \<and> \<not> cn_keep_alive con'))"
proof -
  let ?con = "con\<lparr>cn_is_readable := True, cn_read_idle_ts := now\<rparr>"
  have "text_queue (cn_read_queue ?con)" "read_room ?con (length x)"
    using assms(1,3) by (simp_all add: header_pending_def read_room_def)
  from reads [OF this(1) assms(2) this(2)] obtain q m where
      q: "rd x ?con = Some (0, ?con\<lparr>cn_read_queue := q, cn_is_readable := False, cn_bytes_read := m\<rparr>)"
      "text_queue q" "queue_text q = text" "stored_bytes q = stored_bytes (cn_read_queue con) + length x"
    using assms(4) by auto
  have st: "cn_state con = CON_STATE_READ" "buffer_wf (cn_request con)" using assms(1) by (simp_all add: header_pending_def)
  have "chunkqueue_length q = Some (int (length text))"
    using chunkqueue_length_ok [of q] q(2,3) text_octets [OF q(2)] by (simp add: text_queue_def)
  note len = this
  obtain found where f: "find_header_end (cq_chunks q) = Some found"
      "case found of None \<Rightarrow> header_end text = None
       | Some (k, j) \<Rightarrow> place_ok (map mem_text (cq_chunks q)) k j \<and> header_end text = Some (place (map mem_text (cq_chunks q)) k j)"
    using find_header_end_ok [OF q(2)] assms(5) q(3) by auto
  show ?thesis
  proof (cases found)
    case None
    then show ?thesis
      using q f len st remove_finished_text [OF q(2)]
      by (auto simp: connection_handle_read_state_def same_body_def Let_def)
  next
    case (Some r)
    then obtain k j where r: "r = (k, j)" "place_ok (map mem_text (cq_chunks q)) k j"
        "header_end text = Some (place (map mem_text (cq_chunks q)) k j)" using f(2) by (cases r) auto
    define n where "n = place (map mem_text (cq_chunks q)) k j"
    have h: "header_end (queue_text q) = Some n" using r(3) q(3) by (simp add: n_def)
    have ft: "fits (stored_bytes q)" using assms(3) q(4) by (auto simp: read_room_def elim: fits_mono)
    have b0: "buffer_wf (buffer_reset (cn_request con))" "buffer_content (buffer_reset (cn_request con)) = []"
      using buffer_reset_wf [OF st(2)] by (simp_all add: buffer_content_def buffer_reset_def)
    obtain cs b' q' where c: "copy_header k j (cq_chunks q) (buffer_reset (cn_request con)) = Some (cs, b', int n)"
        "buffer_wf b'" "buffer_content b' = take n text"
        "chunkqueue_remove_finished_chunks (q\<lparr>cq_chunks := cs, cq_bytes_out := cq_bytes_out q + int n\<rparr>) = Some q'"
        "text_queue q'" "queue_text q' = drop n text" "stored_bytes q' \<le> stored_bytes q"
      using copied_queue [OF q(2) h r(2) n_def [symmetric] b0(1) ft b0(2)] unfolding q(3) by blast
    have bl: "int (buffer_string_length b') = int n"
      using header_end_bound [OF h] q(3) c(2,3) by (simp add: buffer_string_length_content)
    show ?thesis
      using q f(1) Some r(1) c bl st h remove_finished_text [OF q(2)]
      by (auto simp: connection_handle_read_state_def same_body_def Let_def)
  qed
qed

end

end
