(* ===== verification/Serve.thy ===== *)
theory Serve
  imports HeaderRead BodyRules RequestRules
begin

text \<open>
  A request from its first byte to the end of its body: the handlers of the states
  \<open>CON_STATE_READ\<close>, \<open>CON_STATE_REQUEST_END\<close> and \<open>CON_STATE_READ_POST\<close> (\<open>src/src/connections.c\<close>,
  \<open>src/src/connections-glue.c\<close>) in the order in which the state machine calls them.
\<close>

section \<open>The handlers\<close>

text \<open>What \<open>http_request_parse\<close> leaves in the connection.\<close>

definition con_of_request :: "request \<Rightarrow> connection \<Rightarrow> connection" where
  "con_of_request rq con = con\<lparr>cn_content_length := rq_content_length rq, cn_http_version := rq_version rq,
     cn_headers := rq_headers rq, cn_http_status := rq_status rq, cn_keep_alive := rq_keep_alive rq\<rparr>"

definition reset_uri :: "connection \<Rightarrow> connection" where
  "reset_uri con = con\<lparr>cn_uri_authority := buffer_reset (cn_uri_authority con), cn_uri_path := buffer_reset (cn_uri_path con),
     cn_uri_query := buffer_reset (cn_uri_query con)\<rparr>"

lemma reset_uri_fields [simp]:
  "cn_request (reset_uri con) = cn_request con" "cn_request_count (reset_uri con) = cn_request_count con"
  "cn_read_queue (reset_uri con) = cn_read_queue con" "cn_request_content_queue (reset_uri con) = cn_request_content_queue con"
  "cn_te_chunked (reset_uri con) = cn_te_chunked con" "cn_is_readable (reset_uri con) = cn_is_readable con"
  by (simp_all add: reset_uri_def)

record parse_args =
  pa_conf :: parse_conf
  pa_libc :: libc
  pa_moves :: "string \<Rightarrow> string \<Rightarrow> bool"
  pa_scheme :: string

definition connection_handle_request_end_state ::
    "parse_args \<Rightarrow> request \<Rightarrow> connection \<Rightarrow> (request \<times> connection) option" where
  "connection_handle_request_end_state pa rq con = do {
     let con = reset_uri con;
     (rc, rq) \<leftarrow> http_request_parse (pa_conf pa) (pa_libc pa) (pa_moves pa) (pa_scheme pa) (cn_request_count con)
                   (buffer_content (cn_request con)) (rq\<lparr>rq_orig_uri := []\<rparr>);
     Some (rq, (con_of_request rq con)\<lparr>cn_state := (if rc \<noteq> 0 then CON_STATE_READ_POST else CON_STATE_HANDLE_REQUEST)\<rparr>)
   }"

text \<open>
  One event \<open>FDEVENT_IN\<close>: the handler of the state the connection is in, and of the states it
  passes through.  The read queue may hold the start of the body when the header is complete, so
  the body reader is called at once, without a read.
\<close>

definition on_readable ::
    "(string \<Rightarrow> network_read_fn) \<Rightarrow> int \<Rightarrow> network_write_fn \<Rightarrow> parse_args \<Rightarrow> string \<Rightarrow>
     request \<times> connection \<times> con_conf \<times> os_env \<Rightarrow> (request \<times> connection \<times> con_conf \<times> os_env) option" where
  "on_readable rd now nw pa x = (\<lambda>(rq, con, cf, e).
     if cn_state con = CON_STATE_READ then do {
       (rc, con) \<leftarrow> connection_handle_read_state now (rd x) cf (con\<lparr>cn_is_readable := True\<rparr>);
       if cn_state con \<noteq> CON_STATE_REQUEST_END then Some (rq, con, cf, e)
       else do {
         (rq, con) \<leftarrow> connection_handle_request_end_state pa rq con;
         if cn_state con \<noteq> CON_STATE_READ_POST then Some (rq, con, cf, e)
         else do {
           (r, con, cf, e) \<leftarrow> connection_handle_read_post_state now (rd []) nw cf e con;
           Some (rq, con, cf, e)
         }
       }
     }
     else if cn_state con = CON_STATE_READ_POST then do {
       (r, con, cf, e) \<leftarrow> connection_handle_read_post_state now (rd x) nw cf e (con\<lparr>cn_is_readable := True\<rparr>);
       Some (rq, con, cf, e)
     }
     else Some (rq, con, cf, e))"

fun serve ::
    "(string \<Rightarrow> network_read_fn) \<Rightarrow> int \<Rightarrow> network_write_fn \<Rightarrow> parse_args \<Rightarrow> string list \<Rightarrow>
     request \<times> connection \<times> con_conf \<times> os_env \<Rightarrow> (request \<times> connection \<times> con_conf \<times> os_env) option" where
  "serve rd now nw pa [] s = Some s"
| "serve rd now nw pa (x # xs) s = Option.bind (on_readable rd now nw pa x s) (serve rd now nw pa xs)"

section \<open>A request with a chunked body\<close>

text \<open>What is sent: a header \<open>h\<close> that is accepted, and a message under chunked coding.\<close>

definition announces_body :: "parse_args \<Rightarrow> nat \<Rightarrow> string \<Rightarrow> request \<Rightarrow> request \<Rightarrow> bool" where
  "announces_body pa n h rq rq' \<longleftrightarrow> header_end h = Some (length h) \<and> lf_lf_free h
     \<and> http_request_parse (pa_conf pa) (pa_libc pa) (pa_moves pa) (pa_scheme pa) n h (rq\<lparr>rq_orig_uri := []\<rparr>) = Some (1, rq')
     \<and> rq_content_length rq' = -1 \<and> map_option fst (array_get_index (rq_headers rq') ''Expect'') = Some None"

definition body_empty :: "connection \<Rightarrow> bool" where
  "body_empty con \<longleftrightarrow> cq_wf (cn_request_content_queue con) \<and> cq_octets (cn_request_content_queue con) = []
     \<and> 0 \<le> cq_bytes_out (cn_request_content_queue con) \<and> cn_te_chunked con = 0"

lemma header_text:
  assumes "header_end h = Some (length h)" "lf_lf_free h" "s @ t = h @ u"
  shows "header_end s = (if length h \<le> length s then Some (length h) else None)" "crlf_ended s"
    "length h \<le> length s \<Longrightarrow> take (length h) s = h"
proof -
  have "header_end (s @ t) = Some (length h)" unfolding assms(3) by (rule header_end_append [OF assms(1)])
  from header_end_prefix [OF this] show e: "header_end s = (if length h \<le> length s then Some (length h) else None)" .
  show t: "take (length h) s = h" if "length h \<le> length s"
  proof -
    have "take (length h) (s @ t) = h" unfolding assms(3) by simp
    then show ?thesis using that by simp
  qed
  show "crlf_ended s" using e t assms(2) by (auto simp: crlf_ended_def split: if_splits)
qed

lemma expects_start:
  assumes "announces_body pa n h rq rq'" "pieces_ok ss z" "body_empty con" "reading con"
    "body_fits cf con (body_of ss) z" "pending_text con @ y = chunked_text ss z" "cn_state con = CON_STATE_READ_POST"
    "cn_content_length con = -1"
  shows "expects cf con y z (body_of ss)"
  unfolding expects_def using assms
  by (intro conjI exI [of _ "[]"] exI [of _ ss])
    (simp_all add: piece_left_def to_come_def body_empty_def awaiting_def)

context socket_reader begin

lemma on_readable_header:
  assumes "header_pending con" "body_empty con" "announces_body pa (cn_request_count con) h rq rq'" "pieces_ok ss z"
    "length h \<le> cf_max_request_field_size cf" "piece x" "read_room con (length x)"
    "(queue_text (cn_read_queue con) @ x) @ y = h @ chunked_text ss z" "body_fits cf con (body_of ss) z"
  shows "\<exists>rq1 con' cf'. on_readable rd now nw pa x (rq, con, cf, e) = Some (rq1, con', cf', e)
    \<and> stored_bytes (cn_read_queue con') \<le> stored_bytes (cn_read_queue con) + length x
    \<and> (if length h \<le> length (queue_text (cn_read_queue con) @ x)
       then rq1 = rq' \<and> (y = [] \<and> received con' (body_of ss) \<or> y \<noteq> [] \<and> expects cf' con' y z (body_of ss))
       else rq1 = rq \<and> cf' = cf \<and> header_pending con' \<and> body_empty con' \<and> cn_request_count con' = cn_request_count con
         \<and> queue_text (cn_read_queue con') = queue_text (cn_read_queue con) @ x \<and> body_fits cf con' (body_of ss) z)"
proof -
  define got where "got = queue_text (cn_read_queue con) @ x"
  have h: "header_end h = Some (length h)" "lf_lf_free h" using assms(3) by (simp_all add: announces_body_def)
  note ht = header_text [OF h assms(8) [folded got_def]]
  from read_state_ok [OF assms(1,6,7) got_def ht(2), of now cf] obtain con1 where c1:
      "connection_handle_read_state now (rd x) cf (con\<lparr>cn_is_readable := True\<rparr>) = Some (0, con1)"
      "same_body con con1" "buffer_wf (cn_request con1)" "text_queue (cn_read_queue con1)"
      "stored_bytes (cn_read_queue con1) \<le> stored_bytes (cn_read_queue con) + length x" "\<not> cn_is_readable con1"
      "case header_end got of
        None \<Rightarrow> queue_text (cn_read_queue con1) = got
          \<and> cn_state con1 = (if cf_max_request_field_size cf < length got then CON_STATE_HANDLE_REQUEST else CON_STATE_READ)
          \<and> (cf_max_request_field_size cf < length got \<longrightarrow> cn_http_status con1 = 431 \<and> \<not> cn_keep_alive con1)
      | Some n \<Rightarrow> queue_text (cn_read_queue con1) = drop n got \<and> buffer_content (cn_request con1) = take n got
          \<and> cn_state con1 = (if cf_max_request_field_size cf < n then CON_STATE_HANDLE_REQUEST else CON_STATE_REQUEST_END)
          \<and> (cf_max_request_field_size cf < n \<longrightarrow> cn_http_status con1 = 431 \<and> \<not> cn_keep_alive con1)" by blast
  have st: "cn_state con = CON_STATE_READ" using assms(1) by (simp add: header_pending_def)
  have same: "cn_request_content_queue con1 = cn_request_content_queue con" "cn_te_chunked con1 = cn_te_chunked con"
    "cn_request_count con1 = cn_request_count con" using c1(2) by (simp_all add: same_body_def)
  show ?thesis
  proof (cases "length h \<le> length got")
    case False
    then have "header_end got = None" using ht(1) by simp
    then have "queue_text (cn_read_queue con1) = got" "cn_state con1 = CON_STATE_READ" using c1(7) False assms(5) by auto
    then show ?thesis using c1(1,3-5) same st False assms(2,9)
      by (simp add: on_readable_def got_def [symmetric] header_pending_def body_empty_def body_fits_def)
  next
    case True
    have q1: "queue_text (cn_read_queue con1) = drop (length h) got" "buffer_content (cn_request con1) = h"
      "cn_state con1 = CON_STATE_REQUEST_END"
      using c1(7) True ht(1,3) assms(5) by auto
    define con2 where "con2 = (con_of_request rq' (reset_uri con1))\<lparr>cn_state := CON_STATE_READ_POST\<rparr>"
    have r: "connection_handle_request_end_state pa rq con1 = Some (rq', con2)"
      using assms(3) q1(2) same(3) by (simp add: connection_handle_request_end_state_def announces_body_def con2_def)
    have c2: "cn_read_queue con2 = cn_read_queue con1" "cn_request_content_queue con2 = cn_request_content_queue con"
      "cn_te_chunked con2 = cn_te_chunked con" "cn_content_length con2 = -1" "\<not> cn_is_readable con2"
      "cn_headers con2 = rq_headers rq'" "cn_state con2 = CON_STATE_READ_POST"
      using same assms(3) c1(6) by (simp_all add: con2_def con_of_request_def announces_body_def)
    have "drop (length h) (got @ y) = chunked_text ss z" unfolding got_def assms(8) by simp
    then have p2: "pending_text con2 @ y = chunked_text ss z" using True q1(1) c2(1) by simp
    have "fits (stored_bytes (cn_read_queue con2))"
      using assms(7) c1(5) c2(1) by (auto simp: read_room_def elim!: fits_mono)
    then have r2: "reading con2" "body_empty con2"
      using c1(4) assms(2) c2 by (simp_all add: reading_def body_empty_def)
    have f2: "body_fits cf con2 (body_of ss) z" using assms(9) c2(2) by (simp add: body_fits_def)
    note x2 = expects_start [OF assms(3,4) r2(2,1) f2 p2 c2(7,4)]
    have ex: "expect_continue nw cf con2 = Some (True, con2, cf)"
      using assms(3) c2(6) by (auto simp: expect_continue_def announces_body_def)
    obtain con3 rr con' cf' where b: "read_body cf e con2 = Some (HANDLER_GO_ON, con3, e)" "text_queue (cn_read_queue con3)"
        "body_read False cf con3 = (rr, con', cf')"
        "y = [] \<and> rr = HANDLER_GO_ON \<and> received con' (body_of ss) \<or> y \<noteq> [] \<and> expects cf' con' y z (body_of ss)
          \<and> stored_bytes (cn_read_queue con') \<le> stored_bytes (cn_read_queue con2)"
      using body_call_ok [OF x2, of e] by blast
    have "text_queue (cn_read_queue con2)" using c1(4) c2(1) by simp
    then have "connection_handle_read_post_state now (rd []) nw cf e con2 = Some (rr, con', cf', e)"
      using c2(5) ex b(1-3) by (simp add: connection_handle_read_post_state_def)
    moreover have "stored_bytes (cn_read_queue con') \<le> stored_bytes (cn_read_queue con) + length x"
      using b(4) c1(5) c2(1) by (auto simp: received_def stored_bytes_def)
    ultimately show ?thesis using True c1(1) q1(3) r c2(7) b(4) st
      by (auto simp: on_readable_def got_def [symmetric])
  qed
qed

lemma serve_body:
  assumes "expects cf con (concat xs) z bdy" "xs \<noteq> []" "\<forall>x\<in>set xs. piece x" "read_room con (length (concat xs))"
  shows "\<exists>con' cf'. serve rd now nw pa xs (rq, con, cf, e) = Some (rq, con', cf', e) \<and> received con' bdy"
  using assms
proof (induction xs arbitrary: cf con)
  case (Cons x xs)
  have f: "read_room con (length x)" using Cons.prems(4) unfolding read_room_def by (rule fits_mono) simp
  have px: "piece x" using Cons.prems(3) by simp
  have "expects cf con (x @ concat xs) z bdy" using Cons.prems(1) by simp
  from deliver_step [OF this px f, of now nw e] obtain r con' cf' where st:
      "connection_handle_read_post_state now (rd x) nw cf e (con\<lparr>cn_is_readable := True\<rparr>) = Some (r, con', cf', e)"
      "concat xs = [] \<and> r = HANDLER_GO_ON \<and> received con' bdy
       \<or> concat xs \<noteq> [] \<and> expects cf' con' (concat xs) z bdy
          \<and> stored_bytes (cn_read_queue con') \<le> stored_bytes (cn_read_queue con) + length x" by blast
  have "cn_state con = CON_STATE_READ_POST" using Cons.prems(1) by (simp add: expects_def awaiting_def)
  then have o: "on_readable rd now nw pa x (rq, con, cf, e) = Some (rq, con', cf', e)" using st(1) by (simp add: on_readable_def)
  show ?case
  proof (cases "xs = []")
    case True
    then show ?thesis using o st(2) by simp
  next
    case False
    then have "concat xs \<noteq> []" using Cons.prems(3) pieces by (cases xs) auto
    then have c: "expects cf' con' (concat xs) z bdy"
        "stored_bytes (cn_read_queue con') \<le> stored_bytes (cn_read_queue con) + length x" using st(2) by auto
    have "read_room con' (length (concat xs))"
      using Cons.prems(4) unfolding read_room_def by (rule fits_mono) (use c(2) in simp)
    then show ?thesis using Cons.IH [OF c(1) False] Cons.prems(3) o by simp
  qed
qed simp

lemma serve_request:
  assumes "header_pending con" "body_empty con" "announces_body pa (cn_request_count con) h rq rq'" "pieces_ok ss z"
    "length h \<le> cf_max_request_field_size cf" "\<forall>x\<in>set xs. piece x" "read_room con (length (concat xs))"
    "queue_text (cn_read_queue con) @ concat xs = h @ chunked_text ss z" "body_fits cf con (body_of ss) z"
    "length (queue_text (cn_read_queue con)) < length h"
  shows "\<exists>con' cf'. serve rd now nw pa xs (rq, con, cf, e) = Some (rq', con', cf', e) \<and> received con' (body_of ss)"
  using assms
proof (induction xs arbitrary: con)
  case Nil
  then have "length (queue_text (cn_read_queue con)) = length h + length (chunked_text ss z)" by (metis append_Nil2 concat.simps(1) length_append)
  then show ?case using Nil.prems(10) by simp
next
  case (Cons x xs)
  have f: "read_room con (length x)" using Cons.prems(7) unfolding read_room_def by (rule fits_mono) simp
  have px: "piece x" using Cons.prems(6) by simp
  have y: "(queue_text (cn_read_queue con) @ x) @ concat xs = h @ chunked_text ss z" using Cons.prems(8) by simp
  let ?here = "length h \<le> length (queue_text (cn_read_queue con) @ x)"
  obtain rq1 con' cf' where st: "on_readable rd now nw pa x (rq, con, cf, e) = Some (rq1, con', cf', e)"
      "stored_bytes (cn_read_queue con') \<le> stored_bytes (cn_read_queue con) + length x"
      "if ?here then rq1 = rq' \<and> (concat xs = [] \<and> received con' (body_of ss)
           \<or> concat xs \<noteq> [] \<and> expects cf' con' (concat xs) z (body_of ss))
       else rq1 = rq \<and> cf' = cf \<and> header_pending con' \<and> body_empty con' \<and> cn_request_count con' = cn_request_count con
         \<and> queue_text (cn_read_queue con') = queue_text (cn_read_queue con) @ x \<and> body_fits cf con' (body_of ss) z"
    using on_readable_header [OF Cons.prems(1-5) px f y Cons.prems(9), of now nw e] by blast
  have room: "read_room con' (length (concat xs))"
    using Cons.prems(7) unfolding read_room_def by (rule fits_mono) (use st(2) in simp)
  have ps: "\<forall>x\<in>set xs. piece x" using Cons.prems(6) by simp
  show ?case
  proof (cases ?here)
    case False
    then have s: "rq1 = rq" "cf' = cf" "header_pending con'" "body_empty con'" "cn_request_count con' = cn_request_count con"
      "queue_text (cn_read_queue con') = queue_text (cn_read_queue con) @ x" "body_fits cf con' (body_of ss) z"
      using st(3) by simp_all
    have an: "announces_body pa (cn_request_count con') h rq rq'" using Cons.prems(3) s(5) by simp
    have yy: "queue_text (cn_read_queue con') @ concat xs = h @ chunked_text ss z" using y s(6) by simp
    have sh: "length (queue_text (cn_read_queue con')) < length h" using False s(6) by simp
    from Cons.IH [OF s(3,4) an Cons.prems(4,5) ps room yy s(7) sh] show ?thesis using st(1) s(1,2) by simp
  next
    case True
    then have s: "rq1 = rq'" "concat xs = [] \<and> received con' (body_of ss)
           \<or> concat xs \<noteq> [] \<and> expects cf' con' (concat xs) z (body_of ss)" using st(3) by simp_all
    show ?thesis
    proof (cases "xs = []")
      case True
      then show ?thesis using st(1) s by simp
    next
      case False
      then have "concat xs \<noteq> []" using ps pieces by (cases xs) auto
      then have "expects cf' con' (concat xs) z (body_of ss)" using s(2) by blast
      from serve_body [OF this False ps room] show ?thesis using st(1) s(1) by simp
    qed
  qed
qed

end

section \<open>Properties\<close>

text \<open>
  C8. Where the network cuts a request does not matter, for a header that has no two line feeds in a row, is accepted by
  \<open>http_request_parse\<close>, announces a chunked body and has no \<open>Expect\<close> field, followed by a message under
  chunked coding without extensions and trailers whose body fits into 64 KiB and the configured limit:
  for every way the bytes arrive in pieces of 1 to 1023 bytes the handlers parse exactly this header
  and end with the body of the message in the content queue and nothing left on the read queue.
  (With two line feeds in a row the cut does matter, see \<open>header_depends_on_cut\<close>.)
\<close>

theorem request_in_pieces:
  assumes "header_pending con" "body_empty con" "cq_chunks (cn_read_queue con) = []"
    "announces_body pa (cn_request_count con) h rq rq'" "pieces_ok ss z" "length h \<le> cf_max_request_field_size cf"
    "concat xs = h @ chunked_text ss z" "\<forall>x\<in>set xs. socket_piece x" "body_fits cf con (concat (map snd ss)) z"
    "length (concat xs) < 2 ^ 61"
  shows "\<exists>con' cf'. serve (socket_read fionread) now nw pa xs (rq, con, cf, e) = Some (rq', con', cf', e)
    \<and> received con' (concat (map snd ss))"
proof -
  have p: "queue_text (cn_read_queue con) = []" "stored_bytes (cn_read_queue con) = 0"
    using assms(3) by (simp_all add: queue_text_def stored_bytes_def)
  have "h \<noteq> []" using assms(4) header_end_bound [of h "length h"] by (auto simp: announces_body_def)
  moreover have "read_room con (length (concat xs))" using p(2) assms(10) by (simp add: read_room_def fits_small)
  ultimately show ?thesis
    using sock.serve_request [OF assms(1,2,4,5,6,8)] p assms(7,9) by simp
qed

text \<open>A header that arrives in any pieces, with what is behind it.\<close>

definition new_connection :: connection where
  "new_connection = post_request\<lparr>cn_state := CON_STATE_READ, cn_content_length := 0\<rparr>"

definition plain_args :: parse_args where
  "plain_args = \<lparr>pa_conf = default_conf, pa_libc = plain_libc, pa_moves = (\<lambda>_ _. False), pa_scheme = ''http''\<rparr>"

lemma chunked_post_ends: "header_end chunked_post = Some (length chunked_post)" "lf_lf_free chunked_post"
  by code_simp (simp add: chunked_post_def)

lemma chunked_post_announces:
  "\<exists>rq'. announces_body plain_args 1 chunked_post empty_request rq'"
proof -
  have p: "map_option (\<lambda>(rc, rq). (rc, rq_content_length rq, map_option fst (array_get_index (rq_headers rq) ''Expect'')))
      (http_request_parse default_conf plain_libc (\<lambda>_ _. False) ''http'' 1 chunked_post empty_request) = Some (1, -1, Some None)"
    by code_simp
  then obtain rq where "http_request_parse default_conf plain_libc (\<lambda>_ _. False) ''http'' 1 chunked_post empty_request = Some (1, rq)"
      "rq_content_length rq = -1" "map_option fst (array_get_index (rq_headers rq) ''Expect'') = Some None"
    by (cases "http_request_parse default_conf plain_libc (\<lambda>_ _. False) ''http'' 1 chunked_post empty_request") auto
  moreover have "empty_request\<lparr>rq_orig_uri := []\<rparr> = empty_request" by (simp add: empty_request_def)
  ultimately show ?thesis using chunked_post_ends by (auto simp: announces_body_def plain_args_def)
qed

lemma new_connection:
  "header_pending new_connection" "body_empty new_connection" "cq_chunks (cn_read_queue new_connection) = []"
  "cn_request_count new_connection = 1" "cq_bytes_in (cn_request_content_queue new_connection) = 0"
proof -
  have "buffer_wf (cn_request post_request)" by (simp add: post_request_def)
  then show "header_pending new_connection" "body_empty new_connection" "cq_chunks (cn_read_queue new_connection) = []"
    "cn_request_count new_connection = 1" "cq_bytes_in (cn_request_content_queue new_connection) = 0"
    using post_request
    by (simp_all add: new_connection_def header_pending_def body_empty_def reading_def awaiting_def)
      (simp add: post_request_def)
qed

definition two_pieces :: "string list" where
  "two_pieces = [take 30 chunked_post, drop 30 chunked_post @ ''5'' @ CRLF @ ''hel'', ''lo'' @ CRLF @ ''0'' @ CRLF @ CRLF]"

lemma request_in_pieces_witness:
  "\<exists>rq' con' cf'. serve (socket_read None) 7 (\<lambda>con n. (0, con)) plain_args two_pieces
       (empty_request, new_connection, small_limits, full_disk) = Some (rq', con', cf', full_disk) \<and> received con' ''hello''"
proof -
  obtain rq' where an: "announces_body plain_args (cn_request_count new_connection) chunked_post empty_request rq'"
    using chunked_post_announces new_connection(4) by auto
  have d: "pieces_ok [(''5'', ''hello'')] ''0''"
    using size_digits_zero by (auto simp: pieces_ok_def size_digits_def hex_value_def hex2int_value)
  have l: "length chunked_post = 57" by code_simp
  have c: "concat two_pieces = chunked_post @ chunked_text [(''5'', ''hello'')] ''0''"
    by (simp add: two_pieces_def size_line_def)
  have "\<forall>x\<in>set two_pieces. socket_piece x" using l by (auto simp: two_pieces_def socket_piece_def)
  moreover have "body_fits small_limits new_connection (concat (map snd [(''5'', ''hello'')])) ''0''"
    using new_connection(5) by (simp add: body_fits_def small_limits_def size_line_def)
  moreover have "length (concat two_pieces) < 2 ^ 61" using l unfolding c by (simp add: size_line_def)
  moreover have "length chunked_post \<le> cf_max_request_field_size small_limits" using l by (simp add: small_limits_def)
  ultimately show ?thesis
    using request_in_pieces [where fionread = None and now = 7 and nw = "\<lambda>con n. (0, con)" and e = full_disk
        and cf = small_limits, OF new_connection(1-3) an d _ c] by auto
qed

section \<open>Where the header ends\<close>

text \<open>
  Two line feeds end the search in their chunk only: a later chunk can move the end of the header,
  so the same bytes are one request or another depending on how they arrive.
\<close>

definition split_header :: "string list" where
  "split_header = [''GET / HTTP/1.0'' @ [LF, LF] @ ''a'', ''b'' @ CRLF @ CRLF]"

lemma header_depends_on_cut:
  "scan_chunks 0 None [concat split_header] = Some (0, 16) \<and> header_end (concat split_header) = Some 16
     \<and> scan_chunks 0 None split_header = Some (1, 5)"
  by code_simp

end
