(* ===== verification/Etag.thy ===== *)
theory Etag
  imports Format Arrays "HOL-Library.Word"
begin

unbundle bit_operations_syntax

text \<open>
  Entity tags, \<open>src/src/etag.c\<close>: the comparison of a tag with the list of an \<open>If-None-Match\<close>
  header, and the construction of a tag from the status of a file.  The outer \<open>None\<close> of the
  comparison is a read behind the terminator of the tag.
\<close>

section \<open>Operations\<close>

text \<open>The states of the scan; the ones that compare hold the position in the tag.\<close>

datatype etag_state = START | CHECK nat | CHECK_QUOTED nat | SKIP | SKIP_QUOTED | TAIL

definition is_etag_space :: "char \<Rightarrow> bool" where
  "is_etag_space c \<longleftrightarrow> c = SP \<or> c = TAB \<or> c = CR \<or> c = LF"

function (sequential) etag_scan :: "bool \<Rightarrow> string \<Rightarrow> nat \<Rightarrow> etag_state \<Rightarrow> string \<Rightarrow> bool option" where
  "etag_scan weak_ok etag tok_start st [] = Some False"
| "etag_scan weak_ok etag tok_start START (c # r) =
     (if c = CHR ''W'' then
        (case r of
           CHR ''/'' # CHR 0x22 # r' \<Rightarrow>
             etag_scan weak_ok etag tok_start (if weak_ok then CHECK tok_start else SKIP) r'
         | _ \<Rightarrow> Some False)
      else if c = CHR 0x22 then etag_scan weak_ok etag tok_start (CHECK tok_start) r
      else if is_etag_space c \<or> c = CHR '','' then etag_scan weak_ok etag tok_start START r
      else Some False)"
| "etag_scan weak_ok etag tok_start (CHECK tok) (c # r) = do {
     k \<leftarrow> nth_opt (etag @ [NUL]) tok;
     let matched = (k \<noteq> NUL \<and> k = c);
     if c = CHR 0x5C then etag_scan weak_ok etag tok_start (if matched then CHECK_QUOTED (tok + 1) else SKIP_QUOTED) r
     else if c = CHR 0x22 then do {
       k \<leftarrow> nth_opt (etag @ [NUL]) (tok + 1);
       if k \<noteq> NUL then Some False
       else if matched then Some True
       else etag_scan weak_ok etag tok_start TAIL r
     }
     else etag_scan weak_ok etag tok_start (if matched then CHECK (tok + 1) else SKIP) r
   }"
| "etag_scan weak_ok etag tok_start (CHECK_QUOTED tok) (c # r) = do {
     k \<leftarrow> nth_opt (etag @ [NUL]) tok;
     etag_scan weak_ok etag tok_start (if k = NUL \<or> k \<noteq> c then SKIP else CHECK (tok + 1)) r
   }"
| "etag_scan weak_ok etag tok_start SKIP (c # r) =
     etag_scan weak_ok etag tok_start (if c = CHR 0x5C then SKIP_QUOTED else if c = CHR 0x22 then TAIL else SKIP) r"
| "etag_scan weak_ok etag tok_start SKIP_QUOTED (c # r) = etag_scan weak_ok etag tok_start SKIP r"
| "etag_scan weak_ok etag tok_start TAIL (c # r) =
     (if c = CHR '','' then etag_scan weak_ok etag tok_start START r
      else if is_etag_space c then etag_scan weak_ok etag tok_start TAIL r
      else Some False)"
  by pat_completeness auto
termination
  by (relation "measure (\<lambda>(w, e, t, st, s). length s)") auto

text \<open>\<open>line\<close> is a C string; \<open>etag\<close> is the buffer, \<open>None\<close> the null pointer.\<close>

definition etag_is_equal :: "string option \<Rightarrow> string \<Rightarrow> bool \<Rightarrow> bool option" where
  "etag_is_equal etag line weak_ok =
     (if line = ''*'' then Some True
      else case etag of
        None \<Rightarrow> Some False
      | Some etag \<Rightarrow>
          if etag = [] then Some False
          else do {
            t0 \<leftarrow> nth_opt (etag @ [NUL]) 0;
            t1 \<leftarrow> (if t0 = CHR ''W'' then nth_opt (etag @ [NUL]) 1 else Some NUL);
            if t0 = CHR ''W'' \<and> (\<not> weak_ok \<or> t1 \<noteq> CHR ''/'') then Some False
            else do {
              let tok_start = (if t0 = CHR ''W'' then 2 else 0);
              q \<leftarrow> nth_opt (etag @ [NUL]) tok_start;
              if q \<noteq> CHR 0x22 then Some False
              else etag_scan weak_ok etag (tok_start + 1) START line
            }
          })"

record etag_flags =
  ETAG_USE_INODE :: bool
  ETAG_USE_MTIME :: bool
  ETAG_USE_SIZE :: bool

definition etag_create :: "buffer \<Rightarrow> int \<Rightarrow> int \<Rightarrow> int \<Rightarrow> etag_flags \<Rightarrow> buffer option" where
  "etag_create etag ino sz mtime flags =
     (if \<not> ETAG_USE_INODE flags \<and> \<not> ETAG_USE_MTIME flags \<and> \<not> ETAG_USE_SIZE flags then Some etag
      else do {
        let etag = buffer_reset etag;
        etag \<leftarrow> (if ETAG_USE_INODE flags then do { b \<leftarrow> buffer_append_int etag ino; buffer_append_string_len b ''-'' }
                  else Some etag);
        etag \<leftarrow> (if ETAG_USE_SIZE flags then do { b \<leftarrow> buffer_append_int etag sz; buffer_append_string_len b ''-'' }
                  else Some etag);
        if ETAG_USE_MTIME flags then buffer_append_int etag mtime else Some etag
      })"

fun etag_hash :: "32 word \<Rightarrow> string \<Rightarrow> 32 word" where
  "etag_hash h [] = h"
| "etag_hash h (c # s) = etag_hash (push_bit 5 h XOR drop_bit 27 h XOR scast (of_char c :: 8 word)) s"

definition etag_mutate :: "buffer \<Rightarrow> buffer \<Rightarrow> buffer option" where
  "etag_mutate mut etag = do {
     s \<leftarrow> read_at (b_ptr etag) 0 (buffer_string_length etag);
     let h = etag_hash 0 s;
     mut \<leftarrow> buffer_copy_string_len (buffer_reset mut) [CHR 0x22];
     mut \<leftarrow> buffer_append_int mut (uint h);
     buffer_append_string_len mut [CHR 0x22]
   }"

section \<open>Lists of entity tags\<close>

text \<open>Tags of plain characters, strong or weak, as a header lists them.\<close>

datatype entity_tag = Strong string | Weak string

fun tag_text :: "entity_tag \<Rightarrow> string" where
  "tag_text (Strong t) = t"
| "tag_text (Weak t) = t"

definition plain_tag :: "string \<Rightarrow> bool" where
  "plain_tag t \<longleftrightarrow> (\<forall>c \<in> set t. c \<noteq> CHR 0x22 \<and> c \<noteq> CHR 0x5C \<and> c \<noteq> NUL)"

definition quoted :: "string \<Rightarrow> string" where
  "quoted t = CHR 0x22 # t @ [CHR 0x22]"

fun show_tag :: "entity_tag \<Rightarrow> string" where
  "show_tag (Strong t) = quoted t"
| "show_tag (Weak t) = ''W/'' @ quoted t"

fun show_tags :: "entity_tag list \<Rightarrow> string" where
  "show_tags [] = []"
| "show_tags [t] = show_tag t"
| "show_tags (t # ts) = show_tag t @ '', '' @ show_tags ts"

text \<open>A tag of the list that is compared and stops in front of the end of the other one ends the comparison.\<close>

fun compared :: "bool \<Rightarrow> entity_tag \<Rightarrow> string option" where
  "compared weak_ok (Strong t) = Some t"
| "compared weak_ok (Weak t) = (if weak_ok then Some t else None)"

fun tag_in_list :: "bool \<Rightarrow> string \<Rightarrow> entity_tag list \<Rightarrow> bool" where
  "tag_in_list weak_ok t [] = False"
| "tag_in_list weak_ok t (u # us) =
     (compared weak_ok u = Some t
      \<or> (case compared weak_ok u of Some v \<Rightarrow> \<not> (length v < length t \<and> take (length v) t = v) | None \<Rightarrow> True)
        \<and> tag_in_list weak_ok t us)"

lemma skip_tag:
  "plain_tag t \<Longrightarrow> etag_scan w e k SKIP (t @ CHR 0x22 # r) = etag_scan w e k TAIL r"
  by (induction t) (auto simp: plain_tag_def)

text \<open>The comparison of one tag.\<close>

lemma check_tag:
  assumes "plain_tag u" "plain_tag t" "e = pre @ t @ [CHR 0x22]" "NUL \<notin> set pre"
  shows "etag_scan w e k (CHECK (length pre)) (u @ CHR 0x22 # r) =
    (if u = t then Some True
     else if length u < length t \<and> take (length u) t = u then Some False
     else etag_scan w e k TAIL r)"
  using assms
proof (induction u arbitrary: pre t)
  case Nil
  then show ?case by (cases t) (auto simp: nth_opt_def nth_append plain_tag_def)
next
  case (Cons c u)
  have c: "c \<noteq> CHR 0x22" "c \<noteq> CHR 0x5C" "c \<noteq> NUL" "plain_tag u" using Cons.prems(1) by (simp_all add: plain_tag_def)
  show ?case
  proof (cases t)
    case Nil
    then show ?thesis using c skip_tag [OF c(4)] Cons.prems(3) by (simp add: nth_opt_def nth_append)
  next
    case t: (Cons d t')
    have d: "d \<noteq> NUL" "plain_tag t'" using Cons.prems(2) t by (simp_all add: plain_tag_def)
    have e: "nth_opt (e @ [NUL]) (length pre) = Some d" using Cons.prems(3) t by (simp add: nth_opt_def nth_append)
    show ?thesis
    proof (cases "c = d")
      case True
      have "e = (pre @ [d]) @ t' @ [CHR 0x22]" "NUL \<notin> set (pre @ [d])" using Cons.prems(3,4) t d by simp_all
      from Cons.IH [OF c(4) d(2) this] show ?thesis using True t e c d by simp
    next
      case False
      then show ?thesis using t e c d skip_tag [OF c(4)] by simp
    qed
  qed
qed

lemma tail_next: "etag_scan w e k TAIL ('', '' @ r) = etag_scan w e k START r"
  by (simp add: is_etag_space_def)

lemma start_tag:
  assumes "plain_tag (tag_text u)" "plain_tag t" "e = pre @ quoted t" "NUL \<notin> set pre" "k = Suc (length pre)"
  shows "etag_scan w e k START (show_tag u @ r) =
    (case compared w u of
       None \<Rightarrow> etag_scan w e k TAIL r
     | Some v \<Rightarrow> if v = t then Some True else if length v < length t \<and> take (length v) t = v then Some False
                 else etag_scan w e k TAIL r)"
proof -
  have e: "e = (pre @ [CHR 0x22]) @ t @ [CHR 0x22]" "NUL \<notin> set (pre @ [CHR 0x22])"
    using assms(3,4) by (simp_all add: quoted_def)
  note ct = check_tag [OF _ assms(2) e, where w = w and k = k and r = r]
  show ?thesis
  proof (cases u)
    case (Strong v)
    then show ?thesis using ct [of v] assms(1,5) by (simp add: quoted_def)
  next
    case (Weak v)
    then have "show_tag u @ r = CHR ''W'' # CHR ''/'' # CHR 0x22 # (v @ CHR 0x22 # r)" "plain_tag v"
      using assms(1) by (simp_all add: quoted_def)
    then show ?thesis using Weak ct [of v] assms(5) skip_tag [of v w e k r] by (cases w) simp_all
  qed
qed

lemma scan_tags:
  assumes "\<forall>u \<in> set us. plain_tag (tag_text u)" "plain_tag t" "e = pre @ quoted t" "NUL \<notin> set pre" "k = Suc (length pre)"
  shows "etag_scan w e k START (show_tags us) = Some (tag_in_list w t us)"
  using assms(1)
proof (induction us rule: show_tags.induct)
  case (2 u)
  then show ?case using start_tag [OF _ assms(2-5), of u w "[]"] by (simp split: option.split)
next
  case (3 u v us)
  then have "etag_scan w e k START (show_tags (v # us)) = Some (tag_in_list w t (v # us))" by simp
  then show ?case using 3(2) start_tag [OF _ assms(2-5), of u w "'', '' @ show_tags (v # us)"] tail_next [of w e k "show_tags (v # us)"]
    by (simp split: option.split)
qed simp

text \<open>The result for a tag without a weakness mark.\<close>

lemma etag_is_equal_list:
  assumes "\<forall>u \<in> set us. plain_tag (tag_text u)" "plain_tag t"
  shows "etag_is_equal (Some (quoted t)) (show_tags us) w = Some (tag_in_list w t us)"
proof -
  have "show_tags us \<noteq> ''*''" by (induction us rule: show_tags.induct) (auto elim: show_tag.elims simp: quoted_def)
  moreover have "quoted t \<noteq> []" "nth_opt (quoted t @ [NUL]) 0 = Some (CHR 0x22)" by (simp_all add: quoted_def nth_opt_def)
  ultimately show ?thesis using scan_tags [OF assms, of "quoted t" "[]" 1 w] by (simp add: etag_is_equal_def)
qed

lemma tag_in_list_member:
  "(\<And>u. u \<in> set us \<Longrightarrow> \<not> (length (tag_text u) < length t \<and> take (length (tag_text u)) t = tag_text u)) \<Longrightarrow>
   tag_in_list False t us \<longleftrightarrow> Strong t \<in> set us"
proof (induction us)
  case (Cons u us)
  have "tag_in_list False t us \<longleftrightarrow> Strong t \<in> set us" using Cons by simp
  then show ?case using Cons.prems [of u] by (cases u) auto
qed simp

text \<open>The tag of a file is made of digits.\<close>

lemma itostr_plain:
  assumes "0 \<le> v" "v < 2 ^ 63"
  shows "plain_tag (itostr [] v)"
proof -
  have "- (2 ^ 63) \<le> v" using assms(1) by simp
  then have i: "itostr [] v = utostr [] (nat \<bar>v\<bar>)" using itostr_abs [of v "[]"] assms by simp
  have "light_isdigit c" if "c \<in> set (itostr [] v)" for c using that utostr_digits unfolding i by blast
  moreover have "\<not> light_isdigit (CHR 0x22)" "\<not> light_isdigit (CHR 0x5C)" "\<not> light_isdigit NUL"
    by (simp_all add: light_isdigit_def)
  ultimately show ?thesis by (auto simp: plain_tag_def)
qed

lemma etag_mutate_ok:
  assumes "buffer_wf mut" "buffer_wf etag"
  shows "\<exists>m. etag_mutate mut etag = Some m \<and> buffer_wf m
    \<and> buffer_abs m = Some (quoted (itostr [] (uint (etag_hash 0 (buffer_content etag)))))"
proof -
  let ?v = "uint (etag_hash 0 (buffer_content etag))"
  have v: "- (2 ^ 63) \<le> ?v" "?v < 2 ^ 63"
  proof -
    have "- (2 ^ 63) \<le> (0::int)" by simp
    then show "- (2 ^ 63) \<le> ?v" by (rule order_trans) (rule uint_nonnegative)
    show "?v < 2 ^ 63" using uint_lt2p [of "etag_hash 0 (buffer_content etag)"] by simp
  qed
  have f: "fits 1" "fits (1 + 20)" "fits 40" by (simp_all add: fits_def PTRDIFF_MAX_def)
  obtain b1 where b1: "buffer_copy_string_len (buffer_reset mut) [CHR 0x22] = Some b1" "buffer_wf b1"
      "buffer_abs b1 = Some [CHR 0x22]"
    using buffer_copy_string_len_ok [OF buffer_reset_wf [OF assms(1)], of "[CHR 0x22]"] f(1) by auto
  have c1: "buffer_content b1 = [CHR 0x22]" using buffer_content_abs [OF b1(3)] .
  obtain b2 where b2: "buffer_append_int b1 ?v = Some b2" "buffer_wf b2" "buffer_abs b2 = Some (CHR 0x22 # itostr [] ?v)"
    using buffer_append_int_ok [OF b1(2) v] c1 f(2) by auto
  have c2: "buffer_content b2 = CHR 0x22 # itostr [] ?v" using buffer_content_abs [OF b2(3)] .
  have "fits (length (buffer_content b2) + 1)"
    using itostr_length [OF v] c2 by (intro fits_mono [OF f(3)]) simp
  then obtain b3 where "buffer_append_string_len b2 [CHR 0x22] = Some b3" "buffer_wf b3"
      "buffer_abs b3 = Some (buffer_content b2 @ [CHR 0x22])"
    using buffer_append_string_len_ok [OF b2(2), of "[CHR 0x22]"] by auto
  then show ?thesis using b1(1) b2(1) c2 read_at_content [OF assms(2)] by (simp add: etag_mutate_def quoted_def)
qed

section \<open>Properties\<close>

text \<open>C38.
  The comparison of an entity tag with the list of a header agrees with the list: it reads no
  character behind the terminator of the tag and answers yes exactly when the tag is one of the
  list, by the weak or the strong comparison, and no compared tag in front of it is cut off the
  tag itself.
\<close>

theorem etag_list_semantics:
  assumes "\<forall>u \<in> set us. plain_tag (tag_text u)" "plain_tag t"
  shows "etag_is_equal (Some (quoted t)) (show_tags us) weak_ok = Some (tag_in_list weak_ok t us)"
  by (rule etag_is_equal_list [OF assms])

lemma etag_list_semantics_witness:
  "etag_is_equal (Some (quoted ''12'')) (show_tags [Weak ''12'', Strong ''7'', Strong ''12'']) False = Some True"
  using etag_list_semantics [of "[Weak ''12'', Strong ''7'', Strong ''12'']" "''12''" False] by (simp add: plain_tag_def)

text \<open>A tag that the server sent is recognised when it comes back: \<open>etag_mutate\<close> gives a quoted text
  for every tag of a file, and in every list of tags none of which is the beginning of this one
  the comparison finds it exactly when it is there.
\<close>

theorem sent_etag_is_found:
  assumes "buffer_wf mut" "buffer_wf etag" "t = itostr [] (uint (etag_hash 0 (buffer_content etag)))"
    "\<forall>u \<in> set us. plain_tag (tag_text u) \<and> \<not> (length (tag_text u) < length t \<and> take (length (tag_text u)) t = tag_text u)"
  shows "\<exists>m. etag_mutate mut etag = Some m \<and> etag_is_equal (buffer_abs m) (show_tags us) False = Some (Strong t \<in> set us)"
proof -
  have "plain_tag t"
  proof -
    have "uint (etag_hash 0 (buffer_content etag)) < 2 ^ 32" using uint_lt2p [of "etag_hash 0 (buffer_content etag)"] by simp
    then show ?thesis unfolding assms(3) by (intro itostr_plain) auto
  qed
  moreover obtain m where "etag_mutate mut etag = Some m" "buffer_abs m = Some (quoted t)"
    using etag_mutate_ok [OF assms(1,2)] assms(3) by blast
  ultimately show ?thesis
    using etag_is_equal_list [of us t False] tag_in_list_member [of us t] assms(4) by auto
qed

lemma sent_etag_is_found_witness:
  "\<exists>m. etag_mutate buffer_init buffer_init = Some m
     \<and> etag_is_equal (buffer_abs m) (show_tags [Strong ''7'', Strong ''0'']) False = Some True"
proof -
  have h: "itostr [] (uint (etag_hash 0 (buffer_content buffer_init))) = ''0''" by code_simp
  show ?thesis
    using sent_etag_is_found [OF _ _ h [symmetric], of buffer_init "[Strong ''7'', Strong ''0'']"]
    by (simp add: plain_tag_def)
qed

section \<open>Where the comparison goes wrong\<close>

text \<open>A tag that is the beginning of the one looked for ends the comparison, though the next one matches.\<close>

lemma prefix_hides_match:
  "etag_is_equal (Some (quoted ''12'')) (show_tags [Strong ''1'', Strong ''12'']) False = Some False"
  by code_simp

text \<open>A tag without its closing quote is read behind its terminator.\<close>

lemma unclosed_tag_overread: "etag_is_equal (Some (CHR 0x22 # ''12'')) (show_tags [Strong ''12'']) False = None"
  by code_simp

end
