(* ===== verification/Timestamps.thy ===== *)
theory Timestamps
  imports Format
begin

text \<open>
  Dates: \<open>buffer_append_strftime\<close> of \<open>src/src/buffer.c\<close>, the date string of \<open>src/src/log.c\<close>, the
  cache of modification times of \<open>src/src/http-header-glue.c\<close>, and \<open>write_all\<close>.  The C library is
  the argument \<open>gmt\<close>: the text that \<open>gmtime\<close> and \<open>strftime\<close> give for a time in the one format the
  server uses.  The two caches are shared by the threads, and each operation on them runs under
  its mutex, so that what the threads do is a sequence of these operations.
\<close>

section \<open>Formatting\<close>

text \<open>
  \<open>strftime\<close> into the cells from \<open>pos\<close> on, with room for \<open>room\<close> characters.  When the text does not
  fit the result is 0 and the contents of the room are indeterminate.
\<close>

definition strftime_at :: "cells \<Rightarrow> nat \<Rightarrow> nat \<Rightarrow> string \<Rightarrow> (nat \<times> cells) option" where
  "strftime_at m pos room s =
     (if length s < room then do { m \<leftarrow> write_at m pos (s @ [NUL]); Some (length s, m) }
      else Some (0, take pos m @ replicate room None @ drop (pos + room) m))"

text \<open>\<open>s\<close> is the text of the time in the format.\<close>

definition buffer_append_strftime :: "buffer \<Rightarrow> string \<Rightarrow> string \<Rightarrow> buffer option" where
  "buffer_append_strftime b format s =
     (if format = [] then map_option fst (buffer_string_prepare_append b 0)
      else do {
        (b, buf) \<leftarrow> buffer_string_prepare_append b 255;
        (r, m) \<leftarrow> strftime_at (b_ptr b) buf (buffer_string_space b) s;
        let b = b\<lparr>b_ptr := m\<rparr>;
        (b, r) \<leftarrow> (if r = 0 \<or> buffer_string_space b \<le> r then do {
            (b, buf) \<leftarrow> buffer_string_prepare_append b 4095;
            (r, m) \<leftarrow> strftime_at (b_ptr b) buf (buffer_string_space b) s;
            Some (b\<lparr>b_ptr := m\<rparr>, r)
          } else Some (b, r));
        buffer_commit b (if buffer_string_space b \<le> r then 0 else r)
      })"

definition date_format :: string where
  "date_format = ''%a, %d %b %Y %H:%M:%S GMT''"

section \<open>The date of a response\<close>

record ts_date =
  ts_cur_ts :: int
  ts_last_generated_date_ts :: int
  ts_date_str :: buffer

definition server_init_ts :: "int \<Rightarrow> ts_date" where
  "server_init_ts now = \<lparr>ts_cur_ts = now, ts_last_generated_date_ts = 0, ts_date_str = buffer_init\<rparr>"

definition server_update_ts_date_str :: "(int \<Rightarrow> string) \<Rightarrow> ts_date \<Rightarrow> buffer \<Rightarrow> (ts_date \<times> buffer) option" where
  "server_update_ts_date_str gmt ts b = do {
     ts \<leftarrow> (if ts_cur_ts ts \<noteq> ts_last_generated_date_ts ts then do {
         (d, p) \<leftarrow> buffer_string_prepare_copy (ts_date_str ts) 255;
         d \<leftarrow> buffer_append_strftime d date_format (gmt (ts_cur_ts ts));
         Some (ts\<lparr>ts_date_str := d, ts_last_generated_date_ts := ts_cur_ts ts\<rparr>)
       } else Some ts);
     b \<leftarrow> buffer_append_string_buffer b (Some (ts_date_str ts));
     Some (ts, b)
   }"

definition server_update_cur_ts :: "ts_date \<Rightarrow> int \<Rightarrow> ts_date" where
  "server_update_cur_ts ts cur_ts = ts\<lparr>ts_cur_ts := cur_ts\<rparr>"

definition server_get_cur_ts :: "ts_date \<Rightarrow> int" where
  "server_get_cur_ts ts = ts_cur_ts ts"

section \<open>The cache of modification times\<close>

definition FILE_CACHE_MAX :: nat where "FILE_CACHE_MAX = 16"

text \<open>The entries and the static index \<open>i\<close>.  A reference to a string is the index of its entry.\<close>

record mtime_cache =
  mc_entries :: "(int \<times> buffer) list"
  mc_i :: nat

definition strftime_cache_init :: mtime_cache where
  "strftime_cache_init = \<lparr>mc_entries = replicate FILE_CACHE_MAX (-1, buffer_init), mc_i = 0\<rparr>"

fun mtime_find :: "(int \<times> buffer) list \<Rightarrow> int \<Rightarrow> nat \<Rightarrow> nat option" where
  "mtime_find [] last_mod j = None"
| "mtime_find ((t, s) # es) last_mod j = (if t = last_mod then Some j else mtime_find es last_mod (j + 1))"

definition strftime_cache_get :: "(int \<Rightarrow> string) \<Rightarrow> mtime_cache \<Rightarrow> int \<Rightarrow> (nat \<times> mtime_cache) option" where
  "strftime_cache_get gmt c last_mod =
     (case mtime_find (mc_entries c) last_mod 0 of
        Some j \<Rightarrow> Some (j, c)
      | None \<Rightarrow> do {
          let i = (if mc_i c + 1 = FILE_CACHE_MAX then 0 else mc_i c + 1);
          force_assert (i < length (mc_entries c));
          b \<leftarrow> buffer_string_set_length (snd (mc_entries c ! i)) 0;
          b \<leftarrow> buffer_append_strftime b date_format (gmt last_mod);
          Some (i, c\<lparr>mc_entries := (mc_entries c)[i := (last_mod, b)], mc_i := i\<rparr>)
        })"

text \<open>What a holder of the reference \<open>j\<close> reads.\<close>

definition mtime_text :: "mtime_cache \<Rightarrow> nat \<Rightarrow> string" where
  "mtime_text c j = buffer_content (snd (mc_entries c ! j))"

fun mtime_gets :: "(int \<Rightarrow> string) \<Rightarrow> mtime_cache \<Rightarrow> int list \<Rightarrow> mtime_cache option" where
  "mtime_gets gmt c [] = Some c"
| "mtime_gets gmt c (t # ts) = do { (j, c) \<leftarrow> strftime_cache_get gmt c t; mtime_gets gmt c ts }"

section \<open>Writing everything\<close>

text \<open>
  The loop of \<open>write_all\<close> with the answers of \<open>write\<close>: a count, or an error that is or is not
  \<open>EINTR\<close>.  The result is the returned value and what the descriptor has received; there is no
  returned value yet when the answers run out in the loop.
\<close>

datatype write_answer = Wrote nat | Interrupted | Write_error

fun write_all :: "write_answer list \<Rightarrow> string \<Rightarrow> string \<Rightarrow> (int option \<times> string) option" where
  "write_all answers [] sent = Some (Some (int (length sent)), sent)"
| "write_all [] buf sent = Some (None, sent)"
| "write_all (Interrupted # r) buf sent = write_all r buf sent"
| "write_all (Write_error # r) buf sent = Some (Some (-1), sent)"
| "write_all (Wrote n # r) buf sent =
     (if n = 0 then Some (Some (-1), sent)
      else do {
        force_assert (n \<le> length buf);
        write_all r (drop n buf) (sent @ take n buf)
      })"

section \<open>Lemmas\<close>

lemma fits_255: "fits 255" "fits 0"
  by (simp_all add: fits_def PTRDIFF_MAX_def)

lemma strftime_ok:
  assumes "buffer_wf b" "fits (length (buffer_content b) + 255)" "s \<noteq> []" "length s < 255" "format \<noteq> []"
  shows "\<exists>b'. buffer_append_strftime b format s = Some b' \<and> buffer_wf b' \<and> buffer_abs b' = Some (buffer_content b @ s)"
proof -
  let ?c = "buffer_content b"
  obtain b1 rest where b1: "buffer_string_prepare_append b 255 = Some (b1, length ?c)"
      "b_ptr b1 = map Some ?c @ Some NUL # rest" "b_used b1 = Suc (length ?c)" "b_size b1 = length (b_ptr b1)"
      "b_size b1 \<le> PTRDIFF_MAX" "length ?c + 255 < b_size b1"
    using buffer_prepare_append_ok [OF assms(1,2)] by blast
  have space: "buffer_string_space b1 = b_size b1 - Suc (length ?c)" using b1(3,6) by (simp add: buffer_string_space_def)
  then have room: "length s < buffer_string_space b1" using b1(6) assms(4) by simp
  define m where "m = map Some (?c @ s) @ Some NUL # drop (length ?c + length s + 1) (b_ptr b1)"
  have "write_at (b_ptr b1) (length ?c) (s @ [NUL]) = Some m"
    using b1(2,4,6) assms(4) by (simp add: write_at_def m_def)
  then have st: "strftime_at (b_ptr b1) (length ?c) (buffer_string_space b1) s = Some (length s, m)"
    using room by (simp add: strftime_at_def)
  have len: "length m = b_size b1" using b1(4,6) assms(4) by (simp add: m_def)
  have "\<exists>b'. buffer_commit (b1\<lparr>b_ptr := m\<rparr>) (length s) = Some b' \<and> buffer_wf b' \<and> buffer_abs b' = Some (?c @ s)
      \<and> b_size b' = b_size (b1\<lparr>b_ptr := m\<rparr>)"
    by (rule buffer_commit_ok [where rest = "Some NUL # drop (length ?c + length s + 1) (b_ptr b1)"])
      (use b1 len assms(4) in \<open>auto simp: m_def\<close>)
  then show ?thesis
    using b1(1) st room assms(3,5) by (auto simp: buffer_append_strftime_def buffer_string_space_def Let_def)
qed


text \<open>The texts of the format have 29 characters; all that matters is that the first attempt fits.\<close>

definition date_text :: "(int \<Rightarrow> string) \<Rightarrow> bool" where
  "date_text gmt \<longleftrightarrow> (\<forall>t. gmt t \<noteq> [] \<and> length (gmt t) < 255)"

lemma date_format_nonempty: "date_format \<noteq> []"
  by (simp add: date_format_def)

subsection \<open>The date string\<close>

definition ts_wf :: "(int \<Rightarrow> string) \<Rightarrow> ts_date \<Rightarrow> bool" where
  "ts_wf gmt ts \<longleftrightarrow> buffer_wf (ts_date_str ts)
     \<and> (ts_last_generated_date_ts ts \<noteq> 0 \<longrightarrow> buffer_content (ts_date_str ts) = gmt (ts_last_generated_date_ts ts))"

lemma server_init_ts_wf: "ts_wf gmt (server_init_ts now)"
  by (simp add: ts_wf_def server_init_ts_def buffer_init_wf)

lemma server_update_cur_ts_wf: "ts_wf gmt ts \<Longrightarrow> ts_wf gmt (server_update_cur_ts ts now)"
  by (simp add: ts_wf_def server_update_cur_ts_def)

lemma server_update_ts_date_str_ok:
  assumes "date_text gmt" "ts_wf gmt ts" "ts_cur_ts ts \<noteq> 0" "buffer_wf b" "fits (length (buffer_content b) + 255)"
  shows "\<exists>ts' b'. server_update_ts_date_str gmt ts b = Some (ts', b') \<and> ts_wf gmt ts' \<and> ts_cur_ts ts' = ts_cur_ts ts
           \<and> buffer_wf b' \<and> buffer_abs b' = Some (buffer_content b @ gmt (ts_cur_ts ts))"
proof -
  let ?t = "ts_cur_ts ts"
  let ?fresh = "if ?t \<noteq> ts_last_generated_date_ts ts then do {
         (d, p) \<leftarrow> buffer_string_prepare_copy (ts_date_str ts) 255;
         d \<leftarrow> buffer_append_strftime d date_format (gmt ?t);
         Some (ts\<lparr>ts_date_str := d, ts_last_generated_date_ts := ?t\<rparr>)
       } else Some ts"
  have g: "gmt ?t \<noteq> []" "length (gmt ?t) < 255" using assms(1) by (simp_all add: date_text_def)
  have "\<exists>ts1. ?fresh = Some ts1 \<and> ts_wf gmt ts1 \<and> ts_cur_ts ts1 = ?t \<and> buffer_content (ts_date_str ts1) = gmt ?t"
  proof (cases "?t = ts_last_generated_date_ts ts")
    case True
    then show ?thesis using assms(2,3) by (simp add: ts_wf_def)
  next
    case False
    have "buffer_wf (ts_date_str ts)" using assms(2) by (simp add: ts_wf_def)
    then obtain d rest where d: "buffer_string_prepare_copy (ts_date_str ts) 255 = Some (d, 0)" "b_used d = 1"
        "b_ptr d = Some NUL # rest" "b_size d = length (b_ptr d)" "b_size d \<le> PTRDIFF_MAX"
      using buffer_prepare_copy_ok [OF _ fits_255(1)] by blast
    have wf: "buffer_wf d" using d by (simp add: buffer_wf_def)
    have c: "buffer_content d = []" using d(2) by (simp add: buffer_content_def)
    obtain d' where d': "buffer_append_strftime d date_format (gmt ?t) = Some d'" "buffer_wf d'" "buffer_abs d' = Some (gmt ?t)"
      using strftime_ok [OF wf _ g date_format_nonempty] fits_255 c by auto
    then have "buffer_content d' = gmt ?t" using buffer_content_abs by blast
    then show ?thesis using False d(1) d' by (simp add: ts_wf_def)
  qed
  then obtain ts1 where ts1: "?fresh = Some ts1" "ts_wf gmt ts1" "ts_cur_ts ts1 = ?t" "buffer_content (ts_date_str ts1) = gmt ?t"
    by blast
  have "buffer_wf (ts_date_str ts1)" using ts1(2) by (simp add: ts_wf_def)
  moreover have "fits (length (buffer_content b) + length (gmt ?t))"
    by (rule fits_mono [OF assms(5)]) (use g(2) in simp)
  ultimately obtain b' where "buffer_append_string_buffer b (Some (ts_date_str ts1)) = Some b'" "buffer_wf b'"
      "buffer_abs b' = Some (buffer_content b @ gmt ?t)"
    using buffer_append_string_buffer_ok [OF assms(4), of "ts_date_str ts1", unfolded ts1(4)] by blast
  then show ?thesis
    using ts1 by (intro exI [of _ ts1] exI [of _ b']) (simp add: server_update_ts_date_str_def)
qed

subsection \<open>The cache\<close>

definition cache_ok :: "(int \<Rightarrow> string) \<Rightarrow> mtime_cache \<Rightarrow> bool" where
  "cache_ok gmt c \<longleftrightarrow> length (mc_entries c) = 16 \<and> mc_i c < 16
     \<and> (\<forall>(t, b) \<in> set (mc_entries c). buffer_wf b \<and> (t \<noteq> -1 \<longrightarrow> buffer_content b = gmt t))"

lemma cache_init_ok: "cache_ok gmt strftime_cache_init"
  by (simp add: cache_ok_def strftime_cache_init_def FILE_CACHE_MAX_def buffer_init_wf)

lemma mtime_find_Some:
  "mtime_find es t j = Some k \<Longrightarrow> j \<le> k \<and> k < j + length es \<and> fst (es ! (k - j)) = t"
proof (induction es t j rule: mtime_find.induct)
  case (2 t s es u j)
  show ?case
  proof (cases "t = u")
    case True
    then show ?thesis using "2.prems" by simp
  next
    case False
    then have "j + 1 \<le> k \<and> k < j + 1 + length es \<and> fst (es ! (k - (j + 1))) = u" using 2 by simp
    then show ?thesis by (auto simp: nth_Cons' Suc_le_eq)
  qed
qed simp


lemma buffer_clear_ok:
  assumes "buffer_wf b"
  shows "\<exists>b'. buffer_string_set_length b 0 = Some b' \<and> buffer_wf b' \<and> buffer_content b' = []"
proof -
  obtain b' ext where b': "buffer_string_set_length b 0 = Some b'" "b_used b' = 1"
      "b_ptr b' = (b_ptr b @ ext)[0 := Some NUL]" "b_size b' = length (b_ptr b')" "0 < b_size b'" "b_size b' \<le> PTRDIFF_MAX"
    using buffer_set_length_ok [of b 0] buffer_wfD [OF assms] by (auto simp: PTRDIFF_MAX_def)
  obtain r where "b_ptr b' = Some NUL # r" using b'(3-5) by (cases "b_ptr b @ ext") auto
  then have "buffer_wf b'" using b'(2,4,6) by (simp add: buffer_wf_def)
  then show ?thesis using b'(1,2) by (simp add: buffer_content_def)
qed

text \<open>A lookup keeps the cache sound, and its result reads as the text of the time asked for.\<close>

lemma strftime_cache_get_ok:
  assumes "date_text gmt" "cache_ok gmt c"
  shows "\<exists>j c'. strftime_cache_get gmt c t = Some (j, c') \<and> cache_ok gmt c' \<and> (t \<noteq> -1 \<longrightarrow> mtime_text c' j = gmt t)
           \<and> (if mtime_find (mc_entries c) t 0 = None
              then j = (mc_i c + 1) mod 16 \<and> mc_i c' = j \<and> (\<forall>k. k \<noteq> j \<longrightarrow> mc_entries c' ! k = mc_entries c ! k)
              else c' = c)"
proof -
  have c: "length (mc_entries c) = 16" "mc_i c < 16"
      "\<And>t b. (t, b) \<in> set (mc_entries c) \<Longrightarrow> buffer_wf b \<and> (t \<noteq> -1 \<longrightarrow> buffer_content b = gmt t)"
    using assms(2) by (auto simp: cache_ok_def)
  show ?thesis
  proof (cases "mtime_find (mc_entries c) t 0")
    case (Some j)
    then have j: "j < 16" "fst (mc_entries c ! j) = t" using mtime_find_Some [OF Some] c(1) by simp_all
    then have "mc_entries c ! j \<in> set (mc_entries c)" using c(1) by simp
    then have "(t, snd (mc_entries c ! j)) \<in> set (mc_entries c)" using j(2) by (metis prod.collapse)
    then have "t \<noteq> -1 \<longrightarrow> buffer_content (snd (mc_entries c ! j)) = gmt t" using c(3) by blast
    then show ?thesis using Some assms(2) by (simp add: strftime_cache_get_def mtime_text_def)
  next
    case None
    define i where "i = (mc_i c + 1) mod 16"
    have i: "(if mc_i c + 1 = FILE_CACHE_MAX then 0 else mc_i c + 1) = i" "i < 16"
      using c(2) by (auto simp: i_def FILE_CACHE_MAX_def mod_if)
    have "mc_entries c ! i \<in> set (mc_entries c)" using c(1) i(2) by simp
    then have "buffer_wf (snd (mc_entries c ! i))" using c(3) [of "fst (mc_entries c ! i)" "snd (mc_entries c ! i)"] by simp
    then obtain b1 where b1: "buffer_string_set_length (snd (mc_entries c ! i)) 0 = Some b1" "buffer_wf b1"
        "buffer_content b1 = []"
      using buffer_clear_ok by blast
    have g: "gmt t \<noteq> []" "length (gmt t) < 255" using assms(1) by (simp_all add: date_text_def)
    obtain b where b: "buffer_append_strftime b1 date_format (gmt t) = Some b" "buffer_wf b" "buffer_abs b = Some (gmt t)"
      using strftime_ok [OF b1(2) _ g date_format_nonempty] b1(3) fits_255(1) by auto
    have t: "buffer_content b = gmt t" using buffer_content_abs [OF b(3)] .
    let ?c = "c\<lparr>mc_entries := (mc_entries c)[i := (t, b)], mc_i := i\<rparr>"
    have "strftime_cache_get gmt c t = Some (i, ?c)"
      using None b1(1) b(1) c(1) i unfolding strftime_cache_get_def by (simp add: Let_def)
    moreover have "cache_ok gmt ?c"
      using c i(2) b(2) t set_update_subset_insert [of "mc_entries c" i "(t, b)"] by (auto simp: cache_ok_def)
    moreover have "mtime_text ?c i = gmt t" using c(1) i(2) t by (simp add: mtime_text_def)
    ultimately show ?thesis using None i_def by simp
  qed
qed

text \<open>
  The misses move on by one entry each: after at most \<open>length ts\<close> of them the entries that the
  index has not come by are as they were.
\<close>

lemma mtime_gets_ok:
  assumes "date_text gmt" "cache_ok gmt c"
  shows "\<exists>c' m. mtime_gets gmt c ts = Some c' \<and> cache_ok gmt c' \<and> m \<le> length ts \<and> mc_i c' = (mc_i c + m) mod 16
           \<and> (\<forall>d. m < d \<and> d \<le> 16 \<longrightarrow> mc_entries c' ! ((mc_i c + d) mod 16) = mc_entries c ! ((mc_i c + d) mod 16))"
  using assms(2)
proof (induction ts arbitrary: c)
  case Nil
  then have "mc_i c < 16" by (simp add: cache_ok_def)
  then show ?case using Nil by (intro exI [of _ c] exI [of _ 0]) simp
next
  case (Cons t ts)
  obtain j c1 where g: "strftime_cache_get gmt c t = Some (j, c1)" "cache_ok gmt c1"
      "if mtime_find (mc_entries c) t 0 = None
       then j = (mc_i c + 1) mod 16 \<and> mc_i c1 = j \<and> (\<forall>k. k \<noteq> j \<longrightarrow> mc_entries c1 ! k = mc_entries c ! k)
       else c1 = c"
    using strftime_cache_get_ok [OF assms(1) Cons.prems, of t] by blast
  obtain c' m where r: "mtime_gets gmt c1 ts = Some c'" "cache_ok gmt c'" "m \<le> length ts" "mc_i c' = (mc_i c1 + m) mod 16"
      "\<And>d. m < d \<Longrightarrow> d \<le> 16 \<Longrightarrow> mc_entries c' ! ((mc_i c1 + d) mod 16) = mc_entries c1 ! ((mc_i c1 + d) mod 16)"
    using Cons.IH [OF g(2)] by blast
  show ?case
  proof (cases "mtime_find (mc_entries c) t 0 = None")
    case False
    then show ?thesis using g r by (intro exI [of _ c'] exI [of _ m]) simp
  next
    case True
    then have h: "mc_i c1 = (mc_i c + 1) mod 16" "\<And>k. k \<noteq> (mc_i c + 1) mod 16 \<Longrightarrow> mc_entries c1 ! k = mc_entries c ! k"
      using g(3) by simp_all
    have "mc_entries c' ! ((mc_i c + d) mod 16) = mc_entries c ! ((mc_i c + d) mod 16)" if "m + 1 < d" "d \<le> 16" for d
    proof -
      have "(mc_i c1 + (d - 1)) mod 16 = (mc_i c + 1 + (d - 1)) mod 16" unfolding h(1) by (simp only: mod_simps)
      also have "\<dots> = (mc_i c + d) mod 16" using that by simp
      finally have "(mc_i c1 + (d - 1)) mod 16 = (mc_i c + d) mod 16" .
      moreover have "(mc_i c + d) mod 16 \<noteq> (mc_i c + 1) mod 16"
      proof
        assume "(mc_i c + d) mod 16 = (mc_i c + 1) mod 16"
        then have "16 dvd (mc_i c + d) - (mc_i c + 1)" using that by (simp add: mod_eq_dvd_iff_nat)
        then have "16 dvd d - 1" by simp
        then show False using that by (auto dest: dvd_imp_le)
      qed
      ultimately show ?thesis using r(5) [of "d - 1"] h(2) that by simp
    qed
    then show ?thesis using g(1,2) r h(1)
      by (intro exI [of _ c'] exI [of _ "m + 1"]) (auto simp: mod_simps)
  qed
qed


subsection \<open>Writing\<close>

text \<open>
  A result at least 0 means that everything has been written; in any case the descriptor has
  received a beginning of the text, in order.  The loop ends with the answers when each of them
  is a count: a text of \<open>n\<close> characters needs \<open>n\<close> of them at most.
\<close>

lemma write_all_prefix:
  "write_all answers buf sent = Some (rc, out)
     \<Longrightarrow> \<exists>k \<le> length buf. out = sent @ take k buf \<and> (\<forall>v. rc = Some v \<longrightarrow> v = -1 \<or> k = length buf \<and> v = int (length out))"
proof (induction answers buf sent rule: write_all.induct)
  case (1 answers sent)
  then show ?case by auto
next
  case (2 b bs sent)
  then show ?case by (intro exI [of _ 0]) simp
next
  case (3 r b bs sent)
  then show ?case by simp
next
  case (4 r b bs sent)
  then show ?case by (intro exI [of _ 0]) auto
next
  case (5 n r b bs sent)
  show ?case
  proof (cases "n = 0")
    case True
    then show ?thesis using "5.prems" by (intro exI [of _ 0]) auto
  next
    case False
    have le: "n \<le> length (b # bs)"
      using "5.prems" False by (cases "n \<le> length (b # bs)") (simp_all add: force_assert_def)
    then have rec: "write_all r (drop n (b # bs)) (sent @ take n (b # bs)) = Some (rc, out)"
      using "5.prems" False by simp
    obtain k where k: "k \<le> length (drop n (b # bs))" "out = (sent @ take n (b # bs)) @ take k (drop n (b # bs))"
        "\<forall>v. rc = Some v \<longrightarrow> v = -1 \<or> k = length (drop n (b # bs)) \<and> v = int (length out)"
      using "5.IH" [OF False _ rec, of "()"] le by (simp only: force_assert_Some) blast
    have "out = sent @ take (n + k) (b # bs)" unfolding k(2) by (simp only: take_add append_assoc)
    moreover have "n + k \<le> length (b # bs)" "k = length (drop n (b # bs)) \<longrightarrow> n + k = length (b # bs)" using k(1) le by auto
    ultimately show ?thesis using k(3) by blast
  qed
qed

lemma write_all_ends:
  "\<forall>a \<in> set answers. \<exists>n. a = Wrote n \<Longrightarrow> length buf \<le> length answers \<Longrightarrow> write_all answers buf sent = Some (rc, out)
     \<Longrightarrow> rc \<noteq> None"
proof (induction answers buf sent rule: write_all.induct)
  case (5 n r b bs sent)
  then show ?case by (cases "n = 0") (auto simp: force_assert_def split: if_splits)
qed auto

section \<open>Properties\<close>

text \<open>The \<open>Last-Modified\<close> text that the shared cache hands out is the text of the time asked for,
  after any history of lookups by any thread; and when the lookup filled an entry, its holder
  still reads that text after fifteen further lookups of other threads, although the cache hands
  out a reference to an entry that is overwritten in turn.
\<close>

theorem modification_time_reference:
  assumes "date_text gmt" "mtime_gets gmt strftime_cache_init before = Some c" "t \<noteq> -1"
    "later = [] \<or> mtime_find (mc_entries c) t 0 = None" "length later < 16"
  shows "\<exists>j c1 c2. strftime_cache_get gmt c t = Some (j, c1) \<and> mtime_gets gmt c1 later = Some c2
     \<and> mtime_text c1 j = gmt t \<and> mtime_text c2 j = gmt t"
proof -
  have c: "cache_ok gmt c" using mtime_gets_ok [OF assms(1) cache_init_ok, of before] assms(2) by auto
  obtain j c1 where g: "strftime_cache_get gmt c t = Some (j, c1)" "cache_ok gmt c1" "mtime_text c1 j = gmt t"
      "mtime_find (mc_entries c) t 0 = None \<longrightarrow> mc_i c1 = j"
    using strftime_cache_get_ok [OF assms(1) c, of t] assms(3) by (auto split: if_splits)
  obtain c2 m where r: "mtime_gets gmt c1 later = Some c2" "m \<le> length later"
      "\<And>d. m < d \<Longrightarrow> d \<le> 16 \<Longrightarrow> mc_entries c2 ! ((mc_i c1 + d) mod 16) = mc_entries c1 ! ((mc_i c1 + d) mod 16)"
    using mtime_gets_ok [OF assms(1) g(2), of later] by blast
  have "mtime_text c2 j = gmt t"
  proof (cases "later = []")
    case True
    then show ?thesis using r(1) g(3) by simp
  next
    case False
    then have "mc_i c1 = j" using assms(4) g(4) by simp
    moreover have "mc_i c1 < 16" using g(2) by (simp add: cache_ok_def)
    ultimately show ?thesis using r(2) r(3) [of 16] assms(5) g(3) by (simp add: mtime_text_def)
  qed
  then show ?thesis using g(1,3) r(1) by blast
qed

lemma modification_time_reference_witness:
  "\<exists>j c1 c2. strftime_cache_get (\<lambda>t. ''d'') strftime_cache_init 5 = Some (j, c1)
     \<and> mtime_gets (\<lambda>t. ''d'') c1 [6, 7, 5] = Some c2 \<and> mtime_text c1 j = ''d'' \<and> mtime_text c2 j = ''d''"
proof -
  have "date_text (\<lambda>t. ''d'')" by (simp add: date_text_def)
  moreover have "mtime_find (mc_entries strftime_cache_init) 5 0 = None" by code_simp
  ultimately show ?thesis
    using modification_time_reference [of "\<lambda>t. ''d''" "[]" strftime_cache_init 5 "[6, 7, 5]"] by simp
qed

section \<open>Where the cache goes wrong\<close>

text \<open>
  A reference gained by a hit can be overwritten by the very next lookup: after the times
  1 to 16 the index stands on entry 0, so a thread that asks for time 1 gets entry 1, which the
  next miss of another thread fills with another time.
\<close>

lemma hit_reference_overwritten:
  assumes "date_text gmt" "mtime_gets gmt strftime_cache_init before = Some c"
    "mtime_find (mc_entries c) t 0 = Some ((mc_i c + 1) mod 16)" "mtime_find (mc_entries c) u 0 = None" "u \<noteq> -1"
  shows "\<exists>j c2. strftime_cache_get gmt c t = Some (j, c) \<and> mtime_gets gmt c [u] = Some c2 \<and> mtime_text c2 j = gmt u"
proof -
  have c: "cache_ok gmt c" using mtime_gets_ok [OF assms(1) cache_init_ok, of before] assms(2) by auto
  obtain j c2 where "strftime_cache_get gmt c u = Some (j, c2)" "mtime_text c2 j = gmt u" "j = (mc_i c + 1) mod 16"
    using strftime_cache_get_ok [OF assms(1) c, of u] assms(4,5) by auto
  then show ?thesis using assms(3) by (simp add: strftime_cache_get_def)
qed

text \<open>The initial entries answer for the time -1 with an empty text.\<close>

lemma epoch_before_is_empty: "map_option (\<lambda>(j, c). mtime_text c j) (strftime_cache_get gmt strftime_cache_init (-1)) = Some []"
  by (simp add: strftime_cache_get_def strftime_cache_init_def FILE_CACHE_MAX_def mtime_text_def buffer_init_def
      buffer_content_def numeral_eq_Suc)

end
