(* ===== verification/ResponseHeader.thy ===== *)
theory ResponseHeader
  imports RequestHost RequestBody HttpChunk Timestamps
begin

text \<open>
  The header of a response: \<open>response_header_*\<close> of \<open>src/src/http-header-glue.c\<close>, the shared
  entries of \<open>src/src/data_string.c\<close> and \<open>http_response_write_header\<close> of \<open>src/src/response.c\<close>.

  Entries of the types \<open>TYPE_STRING\<close> and \<open>TYPE_RESPONSE\<close> belong to one array.  The five entries
  of the type \<open>TYPE_FIXED_HEADER\<close> are shared by all connections: an array refers to them, and
  what it shows is the table \<open>re_fixed\<close> at the time it is read.  \<open>du_int\<close> of such an entry tells
  which of them it is.  Keys are compared as texts: the sharing of the key buffers of
  \<open>TYPE_RESPONSE\<close> entries does not show, as nothing resets them.
\<close>

section \<open>Fixed entries\<close>

datatype http_response_fixed_type_e =
    RESP_FIXED_HEADER_CONNECTION_CLOSE | RESP_FIXED_HEADER_CONNECTION_KEEPALIVE
  | RESP_FIXED_HEADER_CONNECTION_UPGRAGE | RESP_FIXED_HEADER_TRANSFER_ENCODING_CHUNKED
  | RESP_FIXED_HEADER_ACCEPT_RANGES_BYTES

fun header_type :: "http_response_fixed_type_e \<Rightarrow> int" where
  "header_type RESP_FIXED_HEADER_CONNECTION_CLOSE = 0"
| "header_type RESP_FIXED_HEADER_CONNECTION_KEEPALIVE = 1"
| "header_type RESP_FIXED_HEADER_CONNECTION_UPGRAGE = 2"
| "header_type RESP_FIXED_HEADER_TRANSFER_ENCODING_CHUNKED = 3"
| "header_type RESP_FIXED_HEADER_ACCEPT_RANGES_BYTES = 4"

type_synonym fixed_headers = "int \<Rightarrow> data_unset"

text \<open>What the factory constructs for a type it is asked for the first time.\<close>

definition data_fixed_header_constructor :: "int \<Rightarrow> data_unset" where
  "data_fixed_header_constructor t = \<lparr>du_type = TYPE_FIXED_HEADER, du_key = None, du_is_index_key = False,
     du_value = None, du_int = t\<rparr>"

definition http_response_fixed_header_register_once ::
    "fixed_headers \<Rightarrow> http_response_fixed_type_e \<Rightarrow> string \<Rightarrow> string \<Rightarrow> fixed_headers" where
  "http_response_fixed_header_register_once fx type header_key header_value =
     (let t = header_type type in fx(t := (fx t)\<lparr>du_key := Some header_key, du_value := Some header_value\<rparr>))"

definition http_response_fixed_header_register :: fixed_headers where
  "http_response_fixed_header_register =
     (let fx = data_fixed_header_constructor;
          fx = http_response_fixed_header_register_once fx RESP_FIXED_HEADER_CONNECTION_CLOSE ''Connection'' ''close'';
          fx = http_response_fixed_header_register_once fx RESP_FIXED_HEADER_CONNECTION_KEEPALIVE ''Connection'' ''keep-alive'';
          fx = http_response_fixed_header_register_once fx RESP_FIXED_HEADER_CONNECTION_UPGRAGE ''Connection'' ''upgrade'';
          fx = http_response_fixed_header_register_once fx RESP_FIXED_HEADER_TRANSFER_ENCODING_CHUNKED
                 ''Transfer-Encoding'' ''chunked''
      in fx)"

text \<open>What an array shows with the shared entries as they are, and the table after the array was written to.\<close>

definition shown :: "fixed_headers \<Rightarrow> array \<Rightarrow> array" where
  "shown fx a = a\<lparr>a_data := map (map_option (\<lambda>d. if du_type d = TYPE_FIXED_HEADER then fx (du_int d) else d)) (a_data a)\<rparr>"

definition shared :: "fixed_headers \<Rightarrow> array \<Rightarrow> fixed_headers" where
  "shared fx a t =
     (case List.find (\<lambda>d. du_type d = TYPE_FIXED_HEADER \<and> du_int d = t) (array_entries a) of
        Some d \<Rightarrow> d | None \<Rightarrow> fx t)"

section \<open>The connection\<close>

datatype parsed_flag =
    HTTP_STATUS | HTTP_CONNECTION | HTTP_CONTENT_LENGTH | HTTP_DATE | HTTP_LOCATION
  | HTTP_TRANSFER_ENCODING | HTTP_CONTENT_LOCATION | HTTP_SET_COOKIE | HTTP_UPGRADE

text \<open>
  The configuration of a response; \<open>kbytes_per_second\<close> is with the connection, as the header
  writer changes it.
\<close>

record response_conf =
  rc_max_keep_alive_requests :: nat
  rc_max_keep_alive_idle :: nat
  rc_server_tag :: string
  rc_errorfile_prefix :: string
  rc_error_intercept :: bool
  rc_follow_symlink :: bool
  rc_range_requests :: bool

record response_con =
  re_out :: out
  re_fixed :: fixed_headers
  re_headers :: array
  re_http_status :: int
  re_http_method :: http_method_t
  re_http_version :: http_version_t
  re_mode :: con_mode
  re_keep_alive :: bool
  re_keep_alive_idle :: nat
  re_request_count :: nat
  re_file_started :: bool
  re_file_finished :: bool
  re_parsed_response :: "parsed_flag set"
  re_response_keep_alive :: bool
  re_content_length :: int
  re_error_handler_saved_status :: int
  re_kbytes_per_second :: nat
  re_bytes_header :: int
  re_uri_path :: string
  re_physical_path :: buffer
  re_etag :: buffer
  re_tmp_buf :: buffer

definition show_headers :: "response_con \<Rightarrow> array" where
  "show_headers con = shown (re_fixed con) (re_headers con)"

definition put_headers :: "response_con \<Rightarrow> array \<Rightarrow> response_con" where
  "put_headers con a = con\<lparr>re_headers := a, re_fixed := shared (re_fixed con) a\<rparr>"

definition data_response_init :: data_unset where
  "data_response_init = \<lparr>du_type = TYPE_RESPONSE, du_key = None, du_is_index_key = False, du_value = None, du_int = 0\<rparr>"

section \<open>Operations on the header table\<close>

definition response_header_insert :: "response_con \<Rightarrow> string \<Rightarrow> string \<Rightarrow> response_con option" where
  "response_header_insert con key value = do {
     let (unused, a) = array_get_unused_element (show_headers con) TYPE_STRING;
     let ds = (case unused of None \<Rightarrow> data_response_init | Some d \<Rightarrow> d);
     a \<leftarrow> array_insert_unique a (ds\<lparr>du_key := Some key, du_value := Some value\<rparr>);
     Some (put_headers con a)
   }"

text \<open>An entry found by its name is written to in place.\<close>

definition change_header :: "response_con \<Rightarrow> string \<Rightarrow> (data_unset \<Rightarrow> data_unset) \<Rightarrow> response_con option option" where
  "change_header con key f = do {
     (ndx, pos) \<leftarrow> array_get_index (show_headers con) key;
     case ndx of
       None \<Rightarrow> Some None
     | Some i \<Rightarrow> do {
         d \<leftarrow> nth_opt (a_data (show_headers con)) i;
         d \<leftarrow> d;
         Some (Some (put_headers con ((show_headers con)\<lparr>a_data := (a_data (show_headers con))[i := Some (f d)]\<rparr>)))
       }
   }"

definition response_header_overwrite :: "response_con \<Rightarrow> string \<Rightarrow> string \<Rightarrow> response_con option" where
  "response_header_overwrite con key value = do {
     r \<leftarrow> change_header con key (\<lambda>ds. ds\<lparr>du_value := Some value\<rparr>);
     case r of
       Some con \<Rightarrow> Some con
     | None \<Rightarrow> response_header_insert con key value
   }"

text \<open>A header whose value is reset is left out when the header is written.\<close>

definition drop_value :: "response_con \<Rightarrow> string \<Rightarrow> response_con option" where
  "drop_value con key = do {
     r \<leftarrow> change_header con key (\<lambda>ds. ds\<lparr>du_value := None\<rparr>);
     Some (case r of Some con \<Rightarrow> con | None \<Rightarrow> con)
   }"

text \<open>
  The shared entry goes into the array.  When it has no name yet, or a generated one, it gets the
  next number as its name, in every array that refers to it.
\<close>

definition response_header_fixed_overwrite :: "response_con \<Rightarrow> http_response_fixed_type_e \<Rightarrow> response_con option" where
  "response_header_fixed_overwrite con type = do {
     let ds = re_fixed con (header_type type);
     let ndx = a_unique_ndx (re_headers con);
     let ds = (if du_key ds = None \<or> du_is_index_key ds
               then ds\<lparr>du_key := Some (itostr [] (size_to_int ndx)), du_is_index_key := True\<rparr> else ds);
     let con = con\<lparr>re_fixed := (re_fixed con)(header_type type := ds)\<rparr>;
     a \<leftarrow> array_insert_unique (show_headers con) ds;
     Some (put_headers con a)
   }"

definition appended_value :: "string \<Rightarrow> data_unset \<Rightarrow> data_unset" where
  "appended_value value ds = ds\<lparr>du_value := buffer_joined (du_value ds) ['', '', value]\<rparr>"

definition response_header_append :: "response_con \<Rightarrow> string \<Rightarrow> string \<Rightarrow> response_con option" where
  "response_header_append con key value = do {
     r \<leftarrow> change_header con key (appended_value value);
     case r of
       Some con \<Rightarrow> Some con
     | None \<Rightarrow> response_header_insert con key value
   }"

definition response_header_fixed_append ::
    "response_con \<Rightarrow> string \<Rightarrow> string \<Rightarrow> http_response_fixed_type_e \<Rightarrow> response_con option" where
  "response_header_fixed_append con key value type = do {
     r \<leftarrow> change_header con key (appended_value value);
     case r of
       Some con \<Rightarrow> Some con
     | None \<Rightarrow> response_header_fixed_overwrite con type
   }"

section \<open>Writing the header\<close>

fun append_strings :: "buffer \<Rightarrow> string list \<Rightarrow> buffer option" where
  "append_strings b [] = Some b"
| "append_strings b (s # ss) = do { b \<leftarrow> buffer_append_string_len b s; append_strings b ss }"

definition USHRT_MAX :: int where "USHRT_MAX = 65535"

text \<open>The header \<open>X-LIGHTTPD-KBytes-per-second\<close> of a backend limits the connection.\<close>

definition kbytes_limit :: "string \<Rightarrow> nat \<Rightarrow> nat" where
  "kbytes_limit value kbytes =
     (let limit = fst (strtol 10 (cstr value))
      in if 0 < limit \<and> (limit < int kbytes \<or> kbytes = 0) then nat (min limit USHRT_MAX) else kbytes)"

text \<open>The loop over the entries: the connection, the text so far, and whether a date and a server were seen.\<close>

fun write_entries ::
    "data_unset list \<Rightarrow> response_con \<Rightarrow> buffer \<Rightarrow> bool \<Rightarrow> bool \<Rightarrow> (response_con \<times> buffer \<times> bool \<times> bool) option" where
  "write_entries [] con b have_date have_server = Some (con, b, have_date, have_server)"
| "write_entries (ds # r) con b have_date have_server =
     (let key = abs_bytes (du_key ds); value = abs_bytes (du_value ds)
      in if value = [] \<or> key = [] then write_entries r con b have_date have_server
         else if strncasecmp_eq key ''X-Sendfile'' 10 then write_entries r con b have_date have_server
         else if strncasecmp_eq key ''X-LIGHTTPD-'' 11 then
           write_entries r
             (if strncasecmp_eq (drop 11 key) ''KBytes-per-second'' 17
              then con\<lparr>re_kbytes_per_second := kbytes_limit value (re_kbytes_per_second con)\<rparr> else con)
             b have_date have_server
         else do {
           let have_date = (have_date \<or> strcasecmp_eq key ''Date'');
           let have_server = (have_server \<or> strcasecmp_eq key ''Server'');
           if strcasecmp_eq key ''Content-Encoding'' \<and> re_http_status con = 304
           then write_entries r con b have_date have_server
           else do {
             b \<leftarrow> append_strings b [CRLF, key, '': '', value];
             write_entries r con b have_date have_server
           }
         })"

definition write_status_line :: "response_con \<Rightarrow> buffer option" where
  "write_status_line con = do {
     b \<leftarrow> buffer_copy_string_len buffer_init
            (if re_http_version con = HTTP_VERSION_1_1 then ''HTTP/1.1 '' else ''HTTP/1.0 '');
     b \<leftarrow> buffer_append_int b (re_http_status con);
     b \<leftarrow> buffer_append_string_len b '' '';
     buffer_append_string b (get_http_status_name (re_http_status con))
   }"

text \<open>The date and the name of the server, when the entries have none.\<close>

definition write_own_lines ::
    "(int \<Rightarrow> string) \<Rightarrow> response_conf \<Rightarrow> ts_date \<Rightarrow> buffer \<Rightarrow> bool \<Rightarrow> bool \<Rightarrow> (ts_date \<times> buffer) option" where
  "write_own_lines gmt conf ts b have_date have_server = do {
     (ts, b) \<leftarrow> (if \<not> have_date then do {
         b \<leftarrow> buffer_append_string_len b (CRLF @ ''Date: '');
         server_update_ts_date_str gmt ts b
       } else Some (ts, b));
     b \<leftarrow> (if \<not> have_server \<and> rc_server_tag conf \<noteq> [] then do {
         b \<leftarrow> buffer_append_string_len b (CRLF @ ''Server: '');
         buffer_append_string_encoded b (rc_server_tag conf) ENCODING_HTTP_HEADER
       } else Some b);
     Some (ts, b)
   }"

text \<open>The keep-alive limits, and the entry that tells the client about the connection.\<close>

definition limit_keep_alive :: "response_conf \<Rightarrow> response_con \<Rightarrow> response_con" where
  "limit_keep_alive conf con =
     (if rc_max_keep_alive_requests conf < re_request_count con \<or> rc_max_keep_alive_idle conf = 0
      then con\<lparr>re_keep_alive := False\<rparr>
      else con\<lparr>re_keep_alive_idle := rc_max_keep_alive_idle conf\<rparr>)"

definition set_connection_header :: "response_con \<Rightarrow> response_con option" where
  "set_connection_header con =
     (if HTTP_UPGRADE \<in> re_parsed_response con \<and> re_http_version con = HTTP_VERSION_1_1
      then response_header_fixed_overwrite con RESP_FIXED_HEADER_CONNECTION_UPGRAGE
      else if \<not> re_keep_alive con
      then response_header_fixed_overwrite con RESP_FIXED_HEADER_CONNECTION_CLOSE
      else if re_http_version con = HTTP_VERSION_1_0
      then response_header_fixed_overwrite con RESP_FIXED_HEADER_CONNECTION_KEEPALIVE
      else Some con)"

definition http_response_write_header ::
    "(int \<Rightarrow> string) \<Rightarrow> response_conf \<Rightarrow> ts_date \<Rightarrow> response_con \<Rightarrow> (ts_date \<times> response_con) option" where
  "http_response_write_header gmt conf ts con = do {
     b \<leftarrow> write_status_line con;
     con \<leftarrow> set_connection_header (limit_keep_alive conf con);
     (con, b, have_date, have_server) \<leftarrow> write_entries (array_entries (show_headers con)) con b False False;
     (ts, b) \<leftarrow> write_own_lines gmt conf ts b have_date have_server;
     b \<leftarrow> buffer_append_string_len b (CRLF @ CRLF);
     let con = con\<lparr>re_bytes_header := int (buffer_string_length b)\<rparr>;
     (cq, b) \<leftarrow> chunkqueue_prepend_buffer (o_queue (re_out con)) b;
     Some (ts, con\<lparr>re_out := (re_out con)\<lparr>o_queue := cq\<rparr>\<rparr>)
   }"

section \<open>What the table shows\<close>

text \<open>
  The entries in use are all that counts: the sortedness of the index, the lookups and the
  header that is sent depend on them only.
\<close>

definition entries :: "response_con \<Rightarrow> data_unset list" where
  "entries con = array_entries (show_headers con)"

lemma array_entries_conv: "array_wf a \<Longrightarrow> array_entries a = map (\<lambda>i. the (a_data a ! i)) [0..<a_used a]"
  by (rule nth_equalityI) (auto simp: length_entries entries_nth array_wf_def)

lemma array_wf_cong:
  assumes "array_wf a" "length (a_data b) = length (a_data a)" "a_size b = a_size a" "a_used b = a_used a" "a_sorted b = a_sorted a"
    "\<And>i. i < a_used a \<Longrightarrow> a_data b ! i = a_data a ! i"
  shows "array_wf b" "array_entries b = array_entries a" "array_view b = array_view a"
proof -
  note wf = array_wfD [OF assms(1)]
  have "map (key_at b) (a_sorted b) = map (key_at a) (a_sorted a)"
    using wf(4) assms(5,6) by (auto simp: key_at_def)
  then have "sorted_wrt (<) (map (key_at b) (a_sorted b))" by (simp only: wf(7))
  then show b: "array_wf b"
    unfolding array_wf_def using wf assms(2-6) by auto
  show e: "array_entries b = array_entries a"
    using array_entries_conv [OF b] array_entries_conv [OF assms(1)] assms(4,6) by simp
  show "array_view b = array_view a" unfolding array_view_def e ..
qed

lemma array_view_entry: "array_wf a \<Longrightarrow> array_view a k = Some d \<longleftrightarrow> d \<in> set (array_entries a) \<and> entry_key d = k"
  using distinct_keys [of a] unfolding array_view_def by (subst map_of_eq_Some_iff) (auto simp: comp_def)

lemma array_view_absent: "array_view a k = None \<longleftrightarrow> (\<forall>d \<in> set (array_entries a). entry_key d \<noteq> k)"
  unfolding array_view_def by (auto simp: map_of_eq_None_iff image_iff)

text \<open>A new entry goes to the end.\<close>

lemma array_put_entries:
  assumes "array_wf a" "a_used a < a_size a"
  shows "array_entries (array_put a pos e) = array_entries a @ [e]"
  using array_wfD(1,2) [OF assms(1)] assms(2) by (simp add: array_entries_def array_put_def take_Suc_conv_app_nth)

lemma array_insert_new:
  assumes "array_wf a" "keyed e" "array_view a (entry_key e) = None"
  shows "\<exists>a'. array_insert_unique a e = Some a' \<and> array_wf a' \<and> array_entries a' = array_entries a @ [e]"
proof -
  let ?key = "abs_bytes (du_key e)" and ?g = "array_grow a"
  have ck: "ckey ?key = entry_key e" by (simp add: entry_key_def)
  obtain ndx pos where r: "array_get_index a ?key = Some (ndx, pos)" "search_result a ?key ndx pos"
    using array_get_index_ok [OF assms(1)] by blast
  note view = search_result_view [OF assms(1) r(2), unfolded ck]
  have none: "ndx = None"
  proof (cases ndx)
    case (Some i)
    then have "i < a_used a" using r(2) by (simp add: search_result_def)
    then have "a_data a ! i \<noteq> None" by (rule array_wfD(6) [OF assms(1)])
    then show ?thesis using view Some assms(3) by simp
  qed simp
  note g = array_grow_wf [OF assms(1)]
  have "search_result ?g ?key None pos"
    using array_search_cong [OF assms(1) g(1,3,4)] g(5) r(2) none by blast
  note put = array_put_wf(1) [OF g(1,2) this ck]
  have "array_insert_unique a e = Some (array_put ?g pos e)"
    using r(1) none assms(2) by (auto simp: array_insert_unique_def array_find_or_insert_def array_put_def keyed_def Let_def)
  moreover have "array_entries (array_put ?g pos e) = array_entries a @ [e]"
    using array_put_entries [OF g(1,2)] g(3,5) array_entries_conv [OF assms(1)] array_entries_conv [OF g(1)] by simp
  ultimately show ?thesis using put by blast
qed

text \<open>An entry is changed at its place.\<close>

lemma array_change:
  assumes "array_wf a" "array_view a (ckey key) = Some d" "entry_key (f d) = entry_key d"
  shows "\<exists>i pos. array_get_index a key = Some (Some i, pos) \<and> i < length (a_data a) \<and> a_data a ! i = Some d
           \<and> array_wf (a\<lparr>a_data := (a_data a)[i := Some (f d)]\<rparr>)
           \<and> array_entries (a\<lparr>a_data := (a_data a)[i := Some (f d)]\<rparr>)
             = map (\<lambda>e. if entry_key e = ckey key then f e else e) (array_entries a)"
proof -
  obtain ndx pos where r: "array_get_index a key = Some (ndx, pos)" "search_result a key ndx pos"
    using array_get_index_ok [OF assms(1)] by blast
  obtain i where i: "ndx = Some i" "a_data a ! i = Some d"
    using search_result_view [OF assms(1) r(2)] assms(2) by (cases ndx) auto
  then have u: "i < a_used a" "key_at a i = ckey key" using r(2) by (simp_all add: search_result_def)
  note wf = array_wfD [OF assms(1)]
  have l: "i < length (a_data a)" using u(1) wf(1,2) by simp
  have k: "entry_key (f d) = key_at a i" using assms(3) i(2) by (simp add: key_at_def)
  let ?a = "a\<lparr>a_data := (a_data a)[i := Some (f d)]\<rparr>"
  note wf' = array_update_wf(1) [OF assms(1) u(1) k]
  have "array_entries ?a = map (\<lambda>e. if entry_key e = ckey key then f e else e) (array_entries a)"
  proof (rule nth_equalityI)
    show "length (array_entries ?a) = length (map (\<lambda>e. if entry_key e = ckey key then f e else e) (array_entries a))"
      using length_entries [OF wf'] length_entries [OF assms(1)] by simp
  next
    fix j assume "j < length (array_entries ?a)"
    then have j: "j < a_used a" using length_entries [OF wf'] by simp
    have ja: "array_entries a ! j = the (a_data a ! j)" using j wf(1,2) by (simp add: entries_nth)
    have jb: "array_entries ?a ! j = the (a_data ?a ! j)" using j wf(1,2) by (simp add: entries_nth)
    have m: "map (\<lambda>e. if entry_key e = ckey key then f e else e) (array_entries a) ! j
        = (if key_at a j = ckey key then f (the (a_data a ! j)) else the (a_data a ! j))"
      using j length_entries [OF assms(1)] ja by (simp add: key_at_def)
    have "key_at a j = ckey key \<longleftrightarrow> j = i" using key_at_inj [OF assms(1) j u(1)] u(2) by auto
    then show "array_entries ?a ! j = map (\<lambda>e. if entry_key e = ckey key then f e else e) (array_entries a) ! j"
      unfolding m jb using l i(2) by (simp add: nth_list_update)
  qed
  then show ?thesis using r(1) i l wf' by blast
qed


lemma get_unused_entries: "array_entries (snd (array_get_unused_element a t)) = array_entries a"
  by (auto simp: array_get_unused_element_def array_entries_def find_Some_iff split: option.split)

subsection \<open>The invariant\<close>

text \<open>
  The four registered entries are as they were registered, each shared entry knows its place, and
  no string entry is left over from a list.
\<close>

definition headers_ok :: "response_con \<Rightarrow> bool" where
  "headers_ok con \<longleftrightarrow> array_wf (show_headers con)
     \<and> (\<forall>t. du_type (re_fixed con t) = TYPE_FIXED_HEADER \<and> du_int (re_fixed con t) = t)
     \<and> (\<forall>t \<in> {0..3}. re_fixed con t = http_response_fixed_header_register t)
     \<and> (\<forall>d. Some d \<in> set (a_data (show_headers con)) \<and> du_type d = TYPE_STRING \<longrightarrow> \<not> du_is_index_key d)"

lemma headers_okD:
  assumes "headers_ok con"
  shows "array_wf (show_headers con)" "\<And>t. du_type (re_fixed con t) = TYPE_FIXED_HEADER" "\<And>t. du_int (re_fixed con t) = t"
    "\<And>t. 0 \<le> t \<Longrightarrow> t \<le> 3 \<Longrightarrow> re_fixed con t = http_response_fixed_header_register t"
    "\<And>d. Some d \<in> set (a_data (show_headers con)) \<Longrightarrow> du_type d = TYPE_STRING \<Longrightarrow> \<not> du_is_index_key d"
  using assms by (auto simp: headers_ok_def)

text \<open>Everything but the table is as it was.\<close>

definition same_rest :: "response_con \<Rightarrow> response_con \<Rightarrow> bool" where
  "same_rest con con' \<longleftrightarrow> con' = con\<lparr>re_headers := re_headers con', re_fixed := re_fixed con'\<rparr>"

lemma same_rest_refl [simp]: "same_rest con con"
  by (simp add: same_rest_def)

lemma same_rest_put [simp]: "same_rest con (put_headers con a)"
  by (simp add: same_rest_def put_headers_def)

lemma same_rest_trans: "same_rest a b \<Longrightarrow> same_rest b c \<Longrightarrow> same_rest a c"
  unfolding same_rest_def by (cases a, cases b, cases c) simp

lemma entries_in_data: "d \<in> set (entries con) \<Longrightarrow> array_wf (show_headers con) \<Longrightarrow> Some d \<in> set (a_data (show_headers con))"
  using array_view_entry [of "show_headers con" "entry_key d" d] array_view_mem(1) by (simp add: entries_def)

lemma shown_fixed:
  assumes "headers_ok con" "Some d \<in> set (a_data (show_headers con))" "du_type d = TYPE_FIXED_HEADER"
  shows "d = re_fixed con (du_int d)"
proof -
  obtain x where "Some d = map_option (\<lambda>d. if du_type d = TYPE_FIXED_HEADER then re_fixed con (du_int d) else d) x"
    using assms(2) by (auto simp: show_headers_def shown_def)
  then show ?thesis using assms(3) headers_okD(2,3) [OF assms(1)] by (cases x) (auto split: if_splits)
qed

lemma entries_fixed:
  "headers_ok con \<Longrightarrow> d \<in> set (entries con) \<Longrightarrow> du_type d = TYPE_FIXED_HEADER \<Longrightarrow> d = re_fixed con (du_int d)"
  using shown_fixed entries_in_data headers_okD(1) by blast

text \<open>
  Putting an array back in place keeps its entries, when its shared entries have one contents
  each (\<open>g\<close>).
\<close>

lemma put_headers_ok:
  assumes "headers_ok con" "array_wf a" "\<And>t. 0 \<le> t \<Longrightarrow> t \<le> 3 \<Longrightarrow> g t = http_response_fixed_header_register t"
    "\<And>d. d \<in> set (array_entries a) \<Longrightarrow> du_type d = TYPE_FIXED_HEADER \<Longrightarrow> d = g (du_int d)"
    "\<And>d. Some d \<in> set (a_data a) \<Longrightarrow> du_type d = TYPE_STRING \<Longrightarrow> \<not> du_is_index_key d"
  shows "headers_ok (put_headers con a)" "entries (put_headers con a) = array_entries a"
proof -
  let ?fx = "shared (re_fixed con) a" and ?b = "show_headers (put_headers con a)"
  note fx = headers_okD(2,3,4) [OF assms(1)]
  have b: "?b = shown ?fx a" by (simp add: show_headers_def put_headers_def)
  have found: "?fx t = d \<and> d \<in> set (array_entries a) \<and> du_type d = TYPE_FIXED_HEADER \<and> du_int d = t"
    if "List.find (\<lambda>d. du_type d = TYPE_FIXED_HEADER \<and> du_int d = t) (array_entries a) = Some d" for t d
    using that by (simp add: shared_def) (auto simp: find_Some_iff)
  have fx': "du_type (?fx t) = TYPE_FIXED_HEADER \<and> du_int (?fx t) = t
      \<and> (t \<in> {0..3} \<longrightarrow> ?fx t = http_response_fixed_header_register t)" for t
  proof (cases "List.find (\<lambda>d. du_type d = TYPE_FIXED_HEADER \<and> du_int d = t) (array_entries a)")
    case None
    then have "?fx t = re_fixed con t" by (simp add: shared_def)
    then show ?thesis using fx by simp
  next
    case (Some d)
    note f = found [OF Some]
    then have "d = g t" using assms(4) [of d] by simp
    then show ?thesis using f assms(3) [of t] by simp
  qed
  have same: "a_data ?b ! i = a_data a ! i" if i: "i < a_used a" for i
  proof -
    have l: "i < length (a_data a)" using i array_wfD(1,2) [OF assms(2)] by simp
    obtain d where d: "a_data a ! i = Some d" using array_wfD(6) [OF assms(2) i] by blast
    then have mem: "d \<in> set (array_entries a)"
      using i length_entries [OF assms(2)] entries_nth [OF i] array_wfD(1,2) [OF assms(2)] nth_mem [of i "array_entries a"] by simp
    show ?thesis
    proof (cases "du_type d = TYPE_FIXED_HEADER")
      case True
      then have "List.find (\<lambda>e. du_type e = TYPE_FIXED_HEADER \<and> du_int e = du_int d) (array_entries a) \<noteq> None"
        using mem by (auto simp: find_None_iff)
      then obtain e where "List.find (\<lambda>e. du_type e = TYPE_FIXED_HEADER \<and> du_int e = du_int d) (array_entries a) = Some e" by blast
      then have "?fx (du_int d) = e" "e = g (du_int d)" using found [of "du_int d" e] assms(4) [of e] by auto
      then have "?fx (du_int d) = d" using assms(4) [OF mem True] by simp
      then show ?thesis using b d l True by (simp add: shown_def)
    next
      case False
      then show ?thesis using b d l by (simp add: shown_def)
    qed
  qed
  have cong: "array_wf ?b" "array_entries ?b = array_entries a"
    by (rule array_wf_cong [OF assms(2) _ _ _ _ same]; simp add: b shown_def)+
  have str: "\<not> du_is_index_key d" if "Some d \<in> set (a_data ?b)" "du_type d = TYPE_STRING" for d
    using that assms(5) [of d] fx' by (auto simp: b shown_def map_option_case split: if_splits option.splits)
  show "headers_ok (put_headers con a)"
    unfolding headers_ok_def using cong(1) fx' str by (simp add: put_headers_def)
  show "entries (put_headers con a) = array_entries a" unfolding entries_def by (rule cong(2))
qed


subsection \<open>Operations\<close>

lemma entries_view: "array_view (show_headers con) = map_of (map (\<lambda>d. (entry_key d, d)) (entries con))"
  by (simp add: array_view_def entries_def)

definition absent :: "response_con \<Rightarrow> string \<Rightarrow> bool" where
  "absent con key \<longleftrightarrow> (\<forall>d \<in> set (entries con). entry_key d \<noteq> ckey key)"

lemma absent_view: "absent con key \<longleftrightarrow> array_view (show_headers con) (ckey key) = None"
  by (simp add: absent_def array_view_absent entries_def)

lemma response_header_insert_ok:
  assumes "headers_ok con" "absent con key"
  shows "\<exists>con' d. response_header_insert con key value = Some con' \<and> headers_ok con' \<and> same_rest con con'
           \<and> entries con' = entries con @ [d] \<and> du_key d = Some key \<and> du_value d = Some value
           \<and> du_type d \<in> {TYPE_STRING, TYPE_RESPONSE}"
proof -
  note h = headers_okD [OF assms(1)]
  define r where "r = array_get_unused_element (show_headers con) TYPE_STRING"
  note un = array_get_unused_ok [OF h(1), of TYPE_STRING, folded r_def]
  define ds where "ds = (case fst r of None \<Rightarrow> data_response_init | Some d \<Rightarrow> d)"
  have ds: "du_type ds \<in> {TYPE_STRING, TYPE_RESPONSE} \<and> \<not> du_is_index_key ds"
  proof (cases "fst r")
    case (Some d)
    then show ?thesis using un(4) [OF Some] h(5) [of d] by (simp add: ds_def)
  qed (simp add: ds_def data_response_init_def)
  let ?e = "ds\<lparr>du_key := Some key, du_value := Some value\<rparr>"
  have e: "keyed ?e" "entry_key ?e = ckey key" using ds by (simp_all add: keyed_def entry_key_def)
  have none: "array_view (snd r) (entry_key ?e) = None"
    using assms(2) un(2) e(2) by (simp add: absent_view)
  obtain a' where a': "array_insert_unique (snd r) ?e = Some a'" "array_wf a'" "array_entries a' = array_entries (snd r) @ [?e]"
    using array_insert_new [OF un(1) e(1) none] by blast
  have ent: "array_entries a' = entries con @ [?e]"
    using a'(3) get_unused_entries [of "show_headers con" TYPE_STRING] by (simp add: entries_def r_def)
  have mem: "Some d \<in> insert (Some ?e) (insert None (set (a_data (snd r))))" if "Some d \<in> set (a_data a')" for d
    using array_insert_unique_ok [OF un(1) e(1)] none a'(1) that by (auto simp: combined_def)
  have reg: "\<And>t. 0 \<le> t \<Longrightarrow> t \<le> 3 \<Longrightarrow> re_fixed con t = http_response_fixed_header_register t" by (rule h(4))
  have fixed: "d = re_fixed con (du_int d)" if "d \<in> set (array_entries a')" "du_type d = TYPE_FIXED_HEADER" for d
    using that ent ds entries_fixed [OF assms(1)] by auto
  have str: "\<not> du_is_index_key d" if "Some d \<in> set (a_data a')" "du_type d = TYPE_STRING" for d
    using mem [OF that(1)] that(2) un(3) h(5) ds by auto
  note put = put_headers_ok [OF assms(1) a'(2) reg fixed str]
  have "response_header_insert con key value = Some (put_headers con a')"
    unfolding response_header_insert_def Let_def case_prod_beta r_def [symmetric] ds_def [symmetric] a'(1) by simp
  then show ?thesis
    proof (intro exI [of _ "put_headers con a'"] exI [of _ ?e] conjI)
      show "headers_ok (put_headers con a')" by (rule put(1))
      show "same_rest con (put_headers con a')" by (rule same_rest_put)
      show "entries (put_headers con a') = entries con @ [?e]" using put(2) ent by (rule trans)
      show "du_key ?e = Some key" "du_value ?e = Some value" by simp_all
      show "du_type ?e \<in> {TYPE_STRING, TYPE_RESPONSE}" using ds by simp
    qed
qed

text \<open>Changing the value of an entry that is not one of the registered ones.\<close>

definition value_change :: "(data_unset \<Rightarrow> data_unset) \<Rightarrow> bool" where
  "value_change f \<longleftrightarrow> (\<forall>d. f d = d\<lparr>du_value := du_value (f d)\<rparr>)"

lemma value_changeD:
  assumes "value_change f"
  shows "du_type (f d) = du_type d" "du_key (f d) = du_key d" "du_is_index_key (f d) = du_is_index_key d" "du_int (f d) = du_int d"
    "entry_key (f d) = entry_key d"
proof -
  have e: "f d = d\<lparr>du_value := du_value (f d)\<rparr>" using assms unfolding value_change_def by blast
  show t: "du_type (f d) = du_type d" "du_key (f d) = du_key d" "du_is_index_key (f d) = du_is_index_key d"
    "du_int (f d) = du_int d" by (subst e, simp)+
  show "entry_key (f d) = entry_key d" unfolding entry_key_def t(2) ..
qed

definition plain_name :: "string \<Rightarrow> bool" where
  "plain_name key \<longleftrightarrow> ckey key \<noteq> ckey ''Connection'' \<and> ckey key \<noteq> ckey ''Transfer-Encoding''"

lemma change_header_absent:
  assumes "headers_ok con" "absent con key"
  shows "change_header con key f = Some None"
proof -
  note h = headers_okD [OF assms(1)]
  obtain ndx pos where r: "array_get_index (show_headers con) key = Some (ndx, pos)" "search_result (show_headers con) key ndx pos"
    using array_get_index_ok [OF h(1)] by blast
  have "ndx = None"
  proof (cases ndx)
    case (Some i)
    then have "a_data (show_headers con) ! i \<noteq> None" using r(2) array_wfD(6) [OF h(1)] by (simp add: search_result_def)
    then show ?thesis using search_result_view [OF h(1) r(2)] Some assms(2) by (simp add: absent_view)
  qed simp
  then show ?thesis using r(1) by (simp add: change_header_def)
qed


lemma change_header_ok:
  assumes "headers_ok con" "d \<in> set (entries con)" "entry_key d = ckey key" "plain_name key" "value_change f"
  shows "\<exists>con'. change_header con key f = Some (Some con') \<and> headers_ok con' \<and> same_rest con con'
           \<and> entries con' = map (\<lambda>e. if entry_key e = ckey key then f e else e) (entries con)"
proof -
  note h = headers_okD [OF assms(1)] and vc = value_changeD [OF assms(5)]
  let ?a = "show_headers con"
  have view: "array_view ?a (ckey key) = Some d"
    using array_view_entry [OF h(1)] assms(2,3) by (simp add: entries_def)
  obtain i pos where i: "array_get_index ?a key = Some (Some i, pos)" "i < length (a_data ?a)" "a_data ?a ! i = Some d"
      "array_wf (?a\<lparr>a_data := (a_data ?a)[i := Some (f d)]\<rparr>)"
      "array_entries (?a\<lparr>a_data := (a_data ?a)[i := Some (f d)]\<rparr>)
        = map (\<lambda>e. if entry_key e = ckey key then f e else e) (array_entries ?a)"
    using array_change [OF h(1) view, of f] vc(5) by blast
  let ?b = "?a\<lparr>a_data := (a_data ?a)[i := Some (f d)]\<rparr>"
  have only: "e = d" if "e \<in> set (entries con)" "entry_key e = ckey key" for e
    using view array_view_entry [OF h(1), of "ckey key" e] that by (simp add: entries_def)
  define g where "g = (\<lambda>t. if du_type d = TYPE_FIXED_HEADER \<and> du_int d = t then f d else re_fixed con t)"
  have reg: "g t = http_response_fixed_header_register t" if "0 \<le> t" "t \<le> 3" for t
  proof (cases "du_type d = TYPE_FIXED_HEADER \<and> du_int d = t")
    case True
    then have "d = http_response_fixed_header_register t" using entries_fixed [OF assms(1,2)] h(4) [OF that] by simp
    moreover have "t \<in> {0, 1, 2, 3}" using that by auto
    ultimately have "entry_key d \<in> {ckey ''Connection'', ckey ''Transfer-Encoding''}"
      by (auto simp: entry_key_def http_response_fixed_header_register_def http_response_fixed_header_register_once_def Let_def)
    then show ?thesis using assms(3,4) by (auto simp: plain_name_def)
  next
    case False
    then show ?thesis using h(4) [OF that] by (auto simp: g_def)
  qed
  have fixed: "e = g (du_int e)" if e: "e \<in> set (array_entries ?b)" "du_type e = TYPE_FIXED_HEADER" for e
  proof -
    obtain e0 where e0: "e0 \<in> set (entries con)" "e = (if entry_key e0 = ckey key then f e0 else e0)"
      using e(1) unfolding i(5) by (auto simp: entries_def)
    show ?thesis
    proof (cases "entry_key e0 = ckey key")
      case True
      then have "e = f d" using only [OF e0(1)] e0(2) by simp
      then show ?thesis using e(2) vc by (simp add: g_def)
    next
      case False
      then have ee: "e = e0" using e0(2) by simp
      then have x: "e = re_fixed con (du_int e)" using entries_fixed [OF assms(1) e0(1)] e(2) by simp
      have "\<not> (du_type d = TYPE_FIXED_HEADER \<and> du_int d = du_int e)"
      proof
        assume a: "du_type d = TYPE_FIXED_HEADER \<and> du_int d = du_int e"
        then have "d = e" using entries_fixed [OF assms(1,2)] x by metis
        then show False using False assms(3) ee by simp
      qed
      then show ?thesis using x by (auto simp: g_def)
    qed
  qed
  have str: "\<not> du_is_index_key e" if e: "Some e \<in> set (a_data ?b)" "du_type e = TYPE_STRING" for e
  proof -
    have "Some e = Some (f d) \<or> Some e \<in> set (a_data ?a)"
      using e(1) set_update_subset_insert [of "a_data ?a" i "Some (f d)"] by auto
    then show ?thesis
      using e(2) h(5) vc nth_mem [OF i(2)] i(3) by auto
  qed
  note put = put_headers_ok [OF assms(1) i(4) reg fixed str]
  have "change_header con key f = Some (Some (put_headers con ?b))"
    using i(1-3) by (simp add: change_header_def)
  then show ?thesis
    using put(1) put(2) [unfolded i(5), folded entries_def] same_rest_put [of con ?b] by blast
qed

lemma response_header_overwrite_ok:
  assumes "headers_ok con" "plain_name key"
  shows "\<exists>con'. response_header_overwrite con key value = Some con' \<and> headers_ok con' \<and> same_rest con con'
           \<and> (if absent con key
              then \<exists>d. entries con' = entries con @ [d] \<and> du_key d = Some key \<and> du_value d = Some value
                   \<and> du_type d \<in> {TYPE_STRING, TYPE_RESPONSE}
              else entries con' = map (\<lambda>e. if entry_key e = ckey key then e\<lparr>du_value := Some value\<rparr> else e) (entries con))"
proof (cases "absent con key")
  case True
  then show ?thesis
    using change_header_absent [OF assms(1) True] response_header_insert_ok [OF assms(1) True]
    by (auto simp: response_header_overwrite_def)
next
  case False
  then obtain d where d: "d \<in> set (entries con)" "entry_key d = ckey key" by (auto simp: absent_def)
  have "value_change (\<lambda>ds. ds\<lparr>du_value := Some value\<rparr>)" by (simp add: value_change_def)
  from change_header_ok [OF assms(1) d assms(2) this] False show ?thesis
    by (auto simp: response_header_overwrite_def)
qed

lemma drop_value_ok:
  assumes "headers_ok con" "plain_name key"
  shows "\<exists>con'. drop_value con key = Some con' \<and> headers_ok con' \<and> same_rest con con'
           \<and> entries con' = map (\<lambda>e. if entry_key e = ckey key then e\<lparr>du_value := None\<rparr> else e) (entries con)"
proof (cases "absent con key")
  case True
  then have "map (\<lambda>e. if entry_key e = ckey key then e\<lparr>du_value := None\<rparr> else e) (entries con) = entries con"
    by (intro map_idI) (auto simp: absent_def)
  then show ?thesis using change_header_absent [OF assms(1) True] assms(1) by (simp add: drop_value_def)
next
  case False
  then obtain d where d: "d \<in> set (entries con)" "entry_key d = ckey key" by (auto simp: absent_def)
  have "value_change (\<lambda>ds. ds\<lparr>du_value := None\<rparr>)" by (simp add: value_change_def)
  from change_header_ok [OF assms(1) d assms(2) this] show ?thesis by (auto simp: drop_value_def)
qed


text \<open>A registered entry that is not there yet goes to the end, and a second one of its name is refused when its type differs.\<close>

definition registered :: "http_response_fixed_type_e \<Rightarrow> data_unset" where
  "registered type = http_response_fixed_header_register (header_type type)"

lemma registered_fields:
  assumes "type \<noteq> RESP_FIXED_HEADER_ACCEPT_RANGES_BYTES"
  shows "du_key (registered type) \<noteq> None" "\<not> du_is_index_key (registered type)" "du_type (registered type) = TYPE_FIXED_HEADER"
    "keyed (registered type)" "0 \<le> header_type type" "header_type type \<le> 3"
  using assms by (cases type; simp add: registered_def http_response_fixed_header_register_def keyed_def
      http_response_fixed_header_register_once_def data_fixed_header_constructor_def Let_def)+

lemma shown_update:
  assumes "headers_ok con" "fx = re_fixed con"
  shows "show_headers (con\<lparr>re_fixed := fx\<rparr>) = show_headers con" "headers_ok (con\<lparr>re_fixed := fx\<rparr>)"
  using assms by (simp_all add: show_headers_def)

lemma response_header_fixed_overwrite_ok:
  assumes "headers_ok con" "type \<noteq> RESP_FIXED_HEADER_ACCEPT_RANGES_BYTES" "\<forall>d \<in> set (entries con). entry_key d \<noteq> entry_key (registered type)"
  shows "\<exists>con'. response_header_fixed_overwrite con type = Some con' \<and> headers_ok con' \<and> same_rest con con'
           \<and> entries con' = entries con @ [registered type]"
proof -
  note h = headers_okD [OF assms(1)] and r = registered_fields [OF assms(2)]
  let ?d = "registered type" and ?t = "header_type type"
  have d: "re_fixed con ?t = ?d" using h(4) [OF r(5,6)] by (simp add: registered_def)
  have upd: "(re_fixed con)(?t := ?d) = re_fixed con" using d by auto
  have none: "array_view (show_headers con) (entry_key ?d) = None"
    using assms(3) by (simp add: array_view_absent entries_def)
  obtain a' where a': "array_insert_unique (show_headers con) ?d = Some a'" "array_wf a'"
      "array_entries a' = array_entries (show_headers con) @ [?d]"
    using array_insert_new [OF h(1) r(4) none] by blast
  have mem: "Some e \<in> insert (Some ?d) (insert None (set (a_data (show_headers con))))" if "Some e \<in> set (a_data a')" for e
    using array_insert_unique_ok [OF h(1) r(4)] none a'(1) that by (auto simp: combined_def)
  have reg: "\<And>t. 0 \<le> t \<Longrightarrow> t \<le> 3 \<Longrightarrow> re_fixed con t = http_response_fixed_header_register t" by (rule h(4))
  have fixed: "e = re_fixed con (du_int e)" if "e \<in> set (array_entries a')" "du_type e = TYPE_FIXED_HEADER" for e
  proof -
    have "e = ?d \<or> e \<in> set (entries con)" using that(1) a'(3) by (auto simp: entries_def)
    then show ?thesis
    proof
      assume "e = ?d"
      then show ?thesis using d h(3) [of ?t] by simp
    qed (rule entries_fixed [OF assms(1) _ that(2)])
  qed
  have str: "\<not> du_is_index_key e" if "Some e \<in> set (a_data a')" "du_type e = TYPE_STRING" for e
    using mem [OF that(1)] that(2) h(5) r(3) by auto
  note put = put_headers_ok [OF assms(1) a'(2) reg fixed str]
  have "response_header_fixed_overwrite con type = Some (put_headers con a')"
    using r(1,2) d upd a'(1) by (auto simp: response_header_fixed_overwrite_def Let_def)
  then show ?thesis
    using put(1) put(2) [unfolded a'(3), folded entries_def] same_rest_put [of con a'] by blast
qed

lemma fixed_overwrite_mismatch:
  assumes "headers_ok con" "type \<noteq> RESP_FIXED_HEADER_ACCEPT_RANGES_BYTES" "d \<in> set (entries con)"
    "entry_key d = entry_key (registered type)" "du_type d \<noteq> TYPE_FIXED_HEADER"
  shows "response_header_fixed_overwrite con type = None"
proof -
  note h = headers_okD [OF assms(1)] and r = registered_fields [OF assms(2)]
  let ?d = "registered type" and ?t = "header_type type"
  have d': "re_fixed con ?t = ?d" using h(4) [OF r(5,6)] by (simp add: registered_def)
  have upd: "(re_fixed con)(?t := ?d) = re_fixed con" using d' by auto
  have "array_view (show_headers con) (entry_key ?d) = Some d"
    using array_view_entry [OF h(1)] assms(3,4) by (simp add: entries_def)
  then have "array_insert_unique (show_headers con) ?d = None"
    using array_insert_unique_type_mismatch [OF h(1) r(4)] assms(5) r(3) by auto
  then show ?thesis
    using r(1,2) d' upd by (auto simp: response_header_fixed_overwrite_def Let_def)
qed

lemma reset_entries [simp]: "array_entries (array_reset a) = []"
  by (simp add: array_entries_def array_reset_def)

lemma clear_headers_ok:
  assumes "headers_ok con"
  shows "headers_ok (put_headers con (array_reset (show_headers con)))"
    "entries (put_headers con (array_reset (show_headers con))) = []"
proof -
  note h = headers_okD [OF assms]
  let ?a = "show_headers con"
  have str: "\<not> du_is_index_key e" if e: "Some e \<in> set (a_data (array_reset ?a))" "du_type e = TYPE_STRING" for e
  proof -
    have "(\<exists>d. Some d \<in> set (a_data ?a) \<and> e = data_reset d) \<or> Some e \<in> set (a_data ?a)"
    proof -
      have "Some e \<in> map_option data_reset ` set (take (a_used ?a) (a_data ?a)) \<or> Some e \<in> set (drop (a_used ?a) (a_data ?a))"
        using e(1) by (simp add: array_reset_def)
      then show ?thesis
      proof
        assume "Some e \<in> map_option data_reset ` set (take (a_used ?a) (a_data ?a))"
        then obtain x where "x \<in> set (a_data ?a)" "Some e = map_option data_reset x" using in_set_takeD by fast
        moreover obtain d where "x = Some d" "e = data_reset d"
          using \<open>Some e = map_option data_reset x\<close> by (cases x) auto
        ultimately show ?thesis by blast
      qed (auto dest: in_set_dropD)
    qed
    then show ?thesis
    proof
      assume "\<exists>d. Some d \<in> set (a_data ?a) \<and> e = data_reset d"
      then obtain d where d: "Some d \<in> set (a_data ?a)" "e = data_reset d" by blast
      then have t: "du_type d = TYPE_STRING"
        using e(2) by (cases "du_type d") (simp_all add: data_reset_def data_string_reset_def data_response_reset_def data_integer_reset_def)
      then show ?thesis using h(5) [OF d(1) t] d(2) by (simp add: data_reset_def data_string_reset_def)
    qed (use h(5) e(2) in blast)
  qed
  have wf: "array_wf (array_reset ?a)" using array_reset_wf(1) h(1) by blast
  have fixed: "e = re_fixed con (du_int e)" if "e \<in> set (array_entries (array_reset ?a))" "du_type e = TYPE_FIXED_HEADER" for e
    using that by simp
  note put = put_headers_ok [where g = "re_fixed con", OF assms wf h(4) fixed str]
  show "headers_ok (put_headers con (array_reset ?a))" by (rule put(1))
  show "entries (put_headers con (array_reset ?a)) = []" by (rule trans [OF put(2) reset_entries])
qed


section \<open>The text of a header\<close>

text \<open>What an entry contributes: the entries that are empty or meant for the server are left out.\<close>

fun sent_line :: "int \<Rightarrow> data_unset \<Rightarrow> (string \<times> string) list" where
  "sent_line status ds =
     (let key = abs_bytes (du_key ds); value = abs_bytes (du_value ds)
      in if value = [] \<or> key = [] \<or> strncasecmp_eq key ''X-Sendfile'' 10 \<or> strncasecmp_eq key ''X-LIGHTTPD-'' 11
           \<or> (strcasecmp_eq key ''Content-Encoding'' \<and> status = 304)
         then [] else [(key, value)])"

definition sent_lines :: "int \<Rightarrow> data_unset list \<Rightarrow> (string \<times> string) list" where
  "sent_lines status ds = concat (map (sent_line status) ds)"

definition has_line :: "string \<Rightarrow> (string \<times> string) list \<Rightarrow> bool" where
  "has_line name ls \<longleftrightarrow> (\<exists>(k, v) \<in> set ls. strcasecmp_eq k name)"

definition show_line :: "string \<times> string \<Rightarrow> string" where
  "show_line l = CRLF @ fst l @ '': '' @ snd l"

definition show_lines :: "(string \<times> string) list \<Rightarrow> string" where
  "show_lines ls = concat (map show_line ls)"

lemma show_lines_simps [simp]:
  "show_lines [] = []" "show_lines (l # ls) = show_line l @ show_lines ls" "show_lines (xs @ ys) = show_lines xs @ show_lines ys"
  by (simp_all add: show_lines_def)

lemma append_strings_ok:
  assumes "buffer_wf b" "fits (length (buffer_content b) + length (concat ss))" "0 < b_used b"
  shows "\<exists>b'. append_strings b ss = Some b' \<and> buffer_wf b' \<and> buffer_content b' = buffer_content b @ concat ss \<and> 0 < b_used b'"
  using assms
proof (induction ss arbitrary: b)
  case (Cons s ss)
  have "fits (length (buffer_content b) + length s)" using Cons.prems(2) by (rule fits_mono) simp
  then obtain b1 where b1: "buffer_append_string_len b s = Some b1" "buffer_wf b1" "buffer_abs b1 = Some (buffer_content b @ s)"
    using buffer_append_string_len_ok [OF Cons.prems(1)] by blast
  have c: "buffer_content b1 = buffer_content b @ s" "0 < b_used b1"
    using buffer_content_abs [OF b1(3)] b1(3) by (simp_all add: buffer_abs_def split: if_splits)
  have "fits (length (buffer_content b1) + length (concat ss))" using Cons.prems(2) c(1) by (simp add: add.assoc)
  then show ?case using Cons.IH [OF b1(2) _ c(2)] b1(1) c(1) by auto
qed simp

lemma case_differs: "strcasecmp_eq k ''Content-Encoding'' \<Longrightarrow> \<not> strcasecmp_eq k ''Date'' \<and> \<not> strcasecmp_eq k ''Server''"
  by (simp add: strcasecmp_eq_def cstr_def to_lower_def is_upper_def set_bit5_def)

lemma write_entries_ok:
  assumes "buffer_wf b" "0 < b_used b" "fits (length (buffer_content b) + length (show_lines (sent_lines (re_http_status con) ds)))"
  shows "\<exists>k b'. write_entries ds con b dt sv
             = Some (con\<lparr>re_kbytes_per_second := k\<rparr>, b', dt \<or> has_line ''Date'' (sent_lines (re_http_status con) ds),
                 sv \<or> has_line ''Server'' (sent_lines (re_http_status con) ds))
           \<and> buffer_wf b' \<and> 0 < b_used b' \<and> buffer_content b' = buffer_content b @ show_lines (sent_lines (re_http_status con) ds)"
  using assms
proof (induction ds arbitrary: con b dt sv)
  case Nil
  then show ?case by (intro exI [of _ "re_kbytes_per_second con"] exI [of _ b]) (simp add: sent_lines_def has_line_def)
next
  case (Cons d ds)
  let ?key = "abs_bytes (du_key d)" and ?val = "abs_bytes (du_value d)" and ?s = "re_http_status con"
  have split: "sent_lines ?s (d # ds) = sent_line ?s d @ sent_lines ?s ds" by (simp add: sent_lines_def)
  show ?case
  proof (cases "sent_line ?s d = []")
    case True
    then have skip: "sent_lines ?s (d # ds) = sent_lines ?s ds" by (simp add: split)
    have f: "fits (length (buffer_content b) + length (show_lines (sent_lines (re_http_status c) ds)))" if "re_http_status c = ?s" for c
      using Cons.prems(3) unfolding skip that .
    define k where "k = (if ?val = [] \<or> ?key = [] \<or> strncasecmp_eq ?key ''X-Sendfile'' 10
        \<or> \<not> strncasecmp_eq ?key ''X-LIGHTTPD-'' 11 \<or> \<not> strncasecmp_eq (drop 11 ?key) ''KBytes-per-second'' 17
      then re_kbytes_per_second con else kbytes_limit ?val (re_kbytes_per_second con))"
    define c where "c = con\<lparr>re_kbytes_per_second := k\<rparr>"
    have cs: "re_http_status c = ?s" by (simp add: c_def)
    have "write_entries (d # ds) con b dt sv = write_entries ds c b dt sv"
      using True case_differs [of ?key] by (auto simp: Let_def c_def k_def split: if_splits)
    then show ?thesis using Cons.IH [OF Cons.prems(1,2) f [OF cs], of dt sv] unfolding skip cs by (simp add: c_def)
  next
    case False
    then have l: "sent_line ?s d = [(?key, ?val)]" "?val \<noteq> []" "?key \<noteq> []" "\<not> strncasecmp_eq ?key ''X-Sendfile'' 10"
        "\<not> strncasecmp_eq ?key ''X-LIGHTTPD-'' 11" "\<not> (strcasecmp_eq ?key ''Content-Encoding'' \<and> ?s = 304)"
      by (auto simp: Let_def split: if_splits)
    have all: "sent_lines ?s (d # ds) = (?key, ?val) # sent_lines ?s ds" using l(1) by (simp add: split)
    let ?ss = "[CRLF, ?key, '': '', ?val]"
    have cc: "concat ?ss = show_line (?key, ?val)" by (simp add: show_line_def)
    have "fits (length (buffer_content b) + length (concat ?ss))"
      unfolding cc by (rule fits_mono [OF Cons.prems(3)]) (simp add: all)
    then obtain b1 where b1: "append_strings b ?ss = Some b1" "buffer_wf b1" "0 < b_used b1"
        "buffer_content b1 = buffer_content b @ show_line (?key, ?val)"
      using append_strings_ok [OF Cons.prems(1) _ Cons.prems(2), of ?ss] cc by auto
    have f: "fits (length (buffer_content b1) + length (show_lines (sent_lines ?s ds)))"
      using Cons.prems(3) by (simp add: all b1(4) add.assoc)
    show ?thesis
      using Cons.IH [OF b1(2,3) f, of "dt \<or> strcasecmp_eq ?key ''Date''" "sv \<or> strcasecmp_eq ?key ''Server''"] l b1(1,4)
      unfolding all by (auto simp: Let_def has_line_def)
  qed
qed


text \<open>The whole text: the status line, the entries, a date and a server name when they are missing.\<close>

definition status_line :: "response_con \<Rightarrow> string" where
  "status_line con =
     (if re_http_version con = HTTP_VERSION_1_1 then ''HTTP/1.1 '' else ''HTTP/1.0 '')
     @ itostr [] (re_http_status con) @ '' '' @ cstr (case get_http_status_name (re_http_status con) of None \<Rightarrow> [] | Some t \<Rightarrow> t)"

definition own_lines :: "(int \<Rightarrow> string) \<Rightarrow> response_conf \<Rightarrow> ts_date \<Rightarrow> (string \<times> string) list \<Rightarrow> (string \<times> string) list" where
  "own_lines gmt conf ts ls =
     (if has_line ''Date'' ls then [] else [(''Date'', gmt (ts_cur_ts ts))])
     @ (if has_line ''Server'' ls \<or> rc_server_tag conf = [] then []
        else [(''Server'', encode ENCODING_HTTP_HEADER (rc_server_tag conf))])"

text \<open>The entry for the persistence of the connection.\<close>

definition keep_alive_after :: "response_conf \<Rightarrow> response_con \<Rightarrow> bool" where
  "keep_alive_after conf con \<longleftrightarrow>
     re_keep_alive con \<and> \<not> (rc_max_keep_alive_requests conf < re_request_count con \<or> rc_max_keep_alive_idle conf = 0)"

definition connection_entry :: "response_conf \<Rightarrow> response_con \<Rightarrow> data_unset list" where
  "connection_entry conf con =
     (if HTTP_UPGRADE \<in> re_parsed_response con \<and> re_http_version con = HTTP_VERSION_1_1
      then [registered RESP_FIXED_HEADER_CONNECTION_UPGRAGE]
      else if \<not> keep_alive_after conf con then [registered RESP_FIXED_HEADER_CONNECTION_CLOSE]
      else if re_http_version con = HTTP_VERSION_1_0 then [registered RESP_FIXED_HEADER_CONNECTION_KEEPALIVE]
      else [])"

definition header_lines :: "(int \<Rightarrow> string) \<Rightarrow> response_conf \<Rightarrow> ts_date \<Rightarrow> response_con \<Rightarrow> (string \<times> string) list" where
  "header_lines gmt conf ts con =
     (let ls = sent_lines (re_http_status con) (entries con @ connection_entry conf con) in ls @ own_lines gmt conf ts ls)"

definition header_text :: "(int \<Rightarrow> string) \<Rightarrow> response_conf \<Rightarrow> ts_date \<Rightarrow> response_con \<Rightarrow> string" where
  "header_text gmt conf ts con = status_line con @ show_lines (header_lines gmt conf ts con) @ CRLF @ CRLF"

lemma connection_key: "type \<in> {RESP_FIXED_HEADER_CONNECTION_CLOSE, RESP_FIXED_HEADER_CONNECTION_KEEPALIVE,
    RESP_FIXED_HEADER_CONNECTION_UPGRAGE} \<Longrightarrow> entry_key (registered type) = ckey ''Connection''"
  by (auto simp: registered_def entry_key_def http_response_fixed_header_register_def
      http_response_fixed_header_register_once_def Let_def)

lemma connection_entry_ok:
  assumes "headers_ok con" "absent con ''Connection''"
  shows "\<exists>con'. set_connection_header con = Some con' \<and> headers_ok con' \<and> same_rest con con'
     \<and> entries con' = entries con
         @ (if HTTP_UPGRADE \<in> re_parsed_response con \<and> re_http_version con = HTTP_VERSION_1_1
            then [registered RESP_FIXED_HEADER_CONNECTION_UPGRAGE]
            else if \<not> re_keep_alive con then [registered RESP_FIXED_HEADER_CONNECTION_CLOSE]
            else if re_http_version con = HTTP_VERSION_1_0 then [registered RESP_FIXED_HEADER_CONNECTION_KEEPALIVE]
            else [])"
proof -
  have fixed: "\<exists>con'. response_header_fixed_overwrite con type = Some con' \<and> headers_ok con' \<and> same_rest con con'
      \<and> entries con' = entries con @ [registered type]"
    if "type \<in> {RESP_FIXED_HEADER_CONNECTION_CLOSE, RESP_FIXED_HEADER_CONNECTION_KEEPALIVE, RESP_FIXED_HEADER_CONNECTION_UPGRAGE}"
    for type
    using response_header_fixed_overwrite_ok [OF assms(1), of type] assms(2) connection_key [OF that] that
    by (auto simp: absent_def)
  show ?thesis using fixed assms(1) by (simp add: set_connection_header_def)
qed


lemma abs_content: "buffer_abs b = Some s \<Longrightarrow> buffer_content b = s \<and> 0 < b_used b"
  using buffer_content_abs [of b s] by (auto simp: buffer_abs_def split: if_splits)

lemma add_string:
  assumes "buffer_wf b" "fits n" "length (buffer_content b) + length s \<le> n"
  shows "\<exists>b'. buffer_append_string_len b s = Some b' \<and> buffer_wf b' \<and> buffer_content b' = buffer_content b @ s \<and> 0 < b_used b'"
  using buffer_append_string_len_ok [OF assms(1) fits_mono [OF assms(2,3)]] abs_content by blast

lemma add_int:
  assumes "buffer_wf b" "fits n" "length (buffer_content b) + 20 \<le> n" "- (2 ^ 63) \<le> v" "v < 2 ^ 63"
  shows "\<exists>b'. buffer_append_int b v = Some b' \<and> buffer_wf b' \<and> buffer_content b' = buffer_content b @ itostr [] v \<and> 0 < b_used b'"
  using buffer_append_int_ok [OF assms(1,4,5) fits_mono [OF assms(2,3)]] abs_content by blast

lemma new_string:
  assumes "buffer_wf b" "fits (length s)"
  shows "\<exists>b'. buffer_copy_string_len b s = Some b' \<and> buffer_wf b' \<and> buffer_content b' = s \<and> 0 < b_used b'"
  using buffer_copy_string_len_ok [OF assms] abs_content by blast

lemma status_line_ok:
  assumes "- (2 ^ 63) \<le> re_http_status con" "re_http_status con < 2 ^ 63" "fits (length (status_line con) + 300)"
  shows "\<exists>b'. write_status_line con = Some b' \<and> buffer_wf b' \<and> 0 < b_used b' \<and> buffer_content b' = status_line con"
proof -
  define v where "v = (if re_http_version con = HTTP_VERSION_1_1 then ''HTTP/1.1 '' else ''HTTP/1.0 '')"
  define d where "d = itostr [] (re_http_status con)"
  define m where "m = cstr (case get_http_status_name (re_http_status con) of None \<Rightarrow> [] | Some t \<Rightarrow> t)"
  let ?n = "length (status_line con) + 300"
  have line: "status_line con = v @ d @ '' '' @ m" by (simp add: status_line_def v_def d_def m_def)
  have v: "length v = 9" by (simp add: v_def)
  have f9: "fits (length v)" by (rule fits_mono [OF assms(3)]) (use v in simp)
  obtain b1 where b1: "buffer_copy_string_len buffer_init v = Some b1" "buffer_wf b1" "buffer_content b1 = v"
    using new_string [OF buffer_init_wf(1) f9] by blast
  have "length (buffer_content b1) + 20 \<le> ?n" using b1(3) v by simp
  then obtain b2 where b2: "buffer_append_int b1 (re_http_status con) = Some b2" "buffer_wf b2" "buffer_content b2 = buffer_content b1 @ d"
    using add_int [OF b1(2) assms(3) _ assms(1,2)] d_def by blast
  have "length (buffer_content b2) + length '' '' \<le> ?n" using b2(3) b1(3) line by simp
  then obtain b3 where b3: "buffer_append_string_len b2 '' '' = Some b3" "buffer_wf b3" "buffer_content b3 = buffer_content b2 @ '' ''"
    using add_string [OF b2(2) assms(3)] by blast
  have "length (buffer_content b3) + length m \<le> ?n" using b3(3) b2(3) b1(3) line by simp
  then obtain b4 where b4: "buffer_append_string_len b3 m = Some b4" "buffer_wf b4" "buffer_content b4 = buffer_content b3 @ m" "0 < b_used b4"
    using add_string [OF b3(2) assms(3)] by blast
  have "(case get_http_status_name (re_http_status con) of None \<Rightarrow> [] | Some t \<Rightarrow> cstr t) = m"
    unfolding m_def by (cases "get_http_status_name (re_http_status con)") (simp_all add: cstr_def)
  then have "buffer_append_string b3 (get_http_status_name (re_http_status con)) = Some b4"
    using b4(1) by (simp only: buffer_append_string_def)
  moreover have "buffer_content b4 = status_line con" using b4(3) b3(3) b2(3) b1(3) line by simp
  ultimately show ?thesis
    using b1(1) [unfolded v_def] b2(1) b3(1) b4(2,4) by (intro exI [of _ b4]) (simp add: write_status_line_def)
qed

lemma own_lines_ok:
  assumes "date_text gmt" "ts_wf gmt ts" "ts_cur_ts ts \<noteq> 0" "buffer_wf b" "0 < b_used b"
    "fits (length (buffer_content b) + length (show_lines (own_lines gmt conf ts ls)) + 300)"
  shows "\<exists>ts' b'. write_own_lines gmt conf ts b (has_line ''Date'' ls) (has_line ''Server'' ls) = Some (ts', b')
   \<and> ts_wf gmt ts' \<and> buffer_wf b' \<and> 0 < b_used b' \<and> buffer_content b' = buffer_content b @ show_lines (own_lines gmt conf ts ls)"
proof -
  let ?n = "length (buffer_content b) + length (show_lines (own_lines gmt conf ts ls)) + 300"
  let ?D = "if has_line ''Date'' ls then [] else [(''Date'', gmt (ts_cur_ts ts))]"
  let ?S = "if has_line ''Server'' ls \<or> rc_server_tag conf = [] then [] else [(''Server'', encode ENCODING_HTTP_HEADER (rc_server_tag conf))]"
  have n: "?n = length (buffer_content b) + length (show_lines ?D) + length (show_lines ?S) + 300" by (simp add: own_lines_def)
  let ?date = "\<lambda>b. if \<not> has_line ''Date'' ls then do {
         b \<leftarrow> buffer_append_string_len b (CRLF @ ''Date: '');
         server_update_ts_date_str gmt ts b
       } else Some (ts, b)"
  have "\<exists>ts' b1. ?date b = Some (ts', b1) \<and> ts_wf gmt ts' \<and> buffer_wf b1 \<and> 0 < b_used b1
      \<and> buffer_content b1 = buffer_content b @ show_lines ?D"
  proof (cases "has_line ''Date'' ls")
    case False
    have "length (buffer_content b) + length (CRLF @ ''Date: '') \<le> ?n" by simp
    then obtain b1 where b1: "buffer_append_string_len b (CRLF @ ''Date: '') = Some b1" "buffer_wf b1"
        "buffer_content b1 = buffer_content b @ CRLF @ ''Date: ''"
      using add_string [OF assms(4,6)] by metis
    have "fits (length (buffer_content b1) + 255)" by (rule fits_mono [OF assms(6)]) (use b1(3) in simp)
    then obtain ts' b2 where "server_update_ts_date_str gmt ts b1 = Some (ts', b2)" "ts_wf gmt ts'" "buffer_wf b2"
        "buffer_abs b2 = Some (buffer_content b1 @ gmt (ts_cur_ts ts))"
      using server_update_ts_date_str_ok [OF assms(1-3) b1(2)] by blast
    moreover from this abs_content have "buffer_content b2 = buffer_content b1 @ gmt (ts_cur_ts ts)" "0 < b_used b2" by blast+
    ultimately show ?thesis using False b1 by (simp add: show_line_def)
  qed (use assms in simp)
  then obtain ts' b1 where b1: "?date b = Some (ts', b1)" "ts_wf gmt ts'" "buffer_wf b1" "0 < b_used b1"
      "buffer_content b1 = buffer_content b @ show_lines ?D" by blast
  let ?server = "if \<not> has_line ''Server'' ls \<and> rc_server_tag conf \<noteq> [] then do {
         b \<leftarrow> buffer_append_string_len b1 (CRLF @ ''Server: '');
         buffer_append_string_encoded b (rc_server_tag conf) ENCODING_HTTP_HEADER
       } else Some b1"
  have "\<exists>b2. ?server = Some b2 \<and> buffer_wf b2 \<and> 0 < b_used b2 \<and> buffer_content b2 = buffer_content b1 @ show_lines ?S"
  proof (cases "has_line ''Server'' ls \<or> rc_server_tag conf = []")
    case False
    let ?e = "encode ENCODING_HTTP_HEADER (rc_server_tag conf)"
    have "length (buffer_content b1) + length (CRLF @ ''Server: '') \<le> ?n" unfolding n b1(5) using False by (simp add: show_line_def)
    then obtain b2 where b2: "buffer_append_string_len b1 (CRLF @ ''Server: '') = Some b2" "buffer_wf b2"
        "buffer_content b2 = buffer_content b1 @ CRLF @ ''Server: ''"
      using add_string [OF b1(3) assms(6)] by metis
    have "fits (length (buffer_content b2) + length ?e)"
      by (rule fits_mono [OF assms(6)]) (use n b1(5) b2(3) False in \<open>simp add: show_line_def\<close>)
    then obtain b3 where "buffer_append_string_encoded b2 (rc_server_tag conf) ENCODING_HTTP_HEADER = Some b3" "buffer_wf b3"
        "buffer_abs b3 = Some (buffer_content b2 @ ?e)"
      using buffer_append_string_encoded_ok [OF b2(2)] False by blast
    moreover from this abs_content have "buffer_content b3 = buffer_content b2 @ ?e" "0 < b_used b3" by blast+
    ultimately show ?thesis using False b2 by (simp add: show_line_def)
  qed (use b1 in auto)
  then obtain b2 where b2: "?server = Some b2" "buffer_wf b2" "0 < b_used b2" "buffer_content b2 = buffer_content b1 @ show_lines ?S"
    by blast
  have "buffer_content b2 = buffer_content b @ show_lines (own_lines gmt conf ts ls)"
    unfolding b2(4) b1(5) by (simp add: own_lines_def)
  then show ?thesis using b1(1,2) b2(1-3) by (intro exI [of _ ts'] exI [of _ b2]) (simp add: write_own_lines_def)
qed


text \<open>
  What the write queue and the connection are after the header has been written; the rest of the
  connection is as before.
\<close>

definition header_written :: "(int \<Rightarrow> string) \<Rightarrow> response_conf \<Rightarrow> ts_date \<Rightarrow> response_con \<Rightarrow> response_con \<Rightarrow> bool" where
  "header_written gmt conf ts con con' \<longleftrightarrow>
     cq_wf (o_queue (re_out con'))
     \<and> out_octets (re_out con') = map MemByte (header_text gmt conf ts con) @ out_octets (re_out con)
     \<and> o_chunked (re_out con') = o_chunked (re_out con)
     \<and> entries con' = entries con @ connection_entry conf con
     \<and> re_keep_alive con' = keep_alive_after conf con
     \<and> re_bytes_header con' = int (length (header_text gmt conf ts con))
     \<and> re_http_status con' = re_http_status con \<and> re_file_finished con' = re_file_finished con"

lemma http_response_write_header_ok:
  assumes "headers_ok con" "absent con ''Connection''" "cq_wf (o_queue (re_out con))"
    "- (2 ^ 63) \<le> re_http_status con" "re_http_status con < 2 ^ 63"
    "date_text gmt" "ts_wf gmt ts" "ts_cur_ts ts \<noteq> 0" "fits (length (header_text gmt conf ts con) + 300)"
  shows "\<exists>ts' con'. http_response_write_header gmt conf ts con = Some (ts', con') \<and> ts_wf gmt ts'
           \<and> headers_ok con' \<and> header_written gmt conf ts con con'"
proof -
  let ?ls = "sent_lines (re_http_status con) (entries con @ connection_entry conf con)"
  let ?n = "length (header_text gmt conf ts con) + 300"
  have n: "?n = length (status_line con) + length (show_lines ?ls) + length (show_lines (own_lines gmt conf ts ?ls)) + 304"
    by (simp add: header_text_def header_lines_def Let_def)
  obtain b1 where b1: "write_status_line con = Some b1" "buffer_wf b1" "0 < b_used b1" "buffer_content b1 = status_line con"
    using status_line_ok [OF assms(4,5) fits_mono [OF assms(9)]] n by auto
  define c1 where "c1 = limit_keep_alive conf con"
  have c1: "show_headers c1 = show_headers con" "entries c1 = entries con" "re_fixed c1 = re_fixed con"
    "re_keep_alive c1 = keep_alive_after conf con" "re_parsed_response c1 = re_parsed_response con"
    "re_http_version c1 = re_http_version con" "re_out c1 = re_out con" "re_http_status c1 = re_http_status con"
    "re_file_finished c1 = re_file_finished con"
    by (simp_all add: c1_def limit_keep_alive_def show_headers_def entries_def keep_alive_after_def)
  have "headers_ok c1" "absent c1 ''Connection''" using assms(1,2) c1(1-3) by (simp_all add: headers_ok_def absent_def)
  then obtain c2 where c2: "set_connection_header c1 = Some c2" "headers_ok c2" "same_rest c1 c2"
      "entries c2 = entries con @ connection_entry conf con"
    using connection_entry_ok [of c1] by (auto simp: c1 connection_entry_def)
  have s2: "re_http_status c2 = re_http_status con" "re_out c2 = re_out con" "re_file_finished c2 = re_file_finished con"
      "re_keep_alive c2 = keep_alive_after conf con"
  proof -
    have e: "c2 = c1\<lparr>re_headers := re_headers c2, re_fixed := re_fixed c2\<rparr>" using c2(3) by (simp add: same_rest_def)
    show "re_http_status c2 = re_http_status con" "re_out c2 = re_out con" "re_file_finished c2 = re_file_finished con"
      "re_keep_alive c2 = keep_alive_after conf con" by (subst e, simp add: c1)+
  qed
  have l2: "sent_lines (re_http_status c2) (array_entries (show_headers c2)) = ?ls"
    using c2(4) s2(1) by (simp add: entries_def)
  have "fits (length (buffer_content b1) + length (show_lines (sent_lines (re_http_status c2) (array_entries (show_headers c2)))))"
    unfolding l2 b1(4) by (rule fits_mono [OF assms(9)]) (use n in simp)
  from write_entries_ok [OF b1(2,3) this, of False False, unfolded l2 b1(4)]
  obtain k b2 where b2: "write_entries (array_entries (show_headers c2)) c2 b1 False False
        = Some (c2\<lparr>re_kbytes_per_second := k\<rparr>, b2, has_line ''Date'' ?ls, has_line ''Server'' ?ls)"
      "buffer_wf b2" "0 < b_used b2" "buffer_content b2 = status_line con @ show_lines ?ls" by auto
  have "fits (length (buffer_content b2) + length (show_lines (own_lines gmt conf ts ?ls)) + 300)"
    unfolding b2(4) by (rule fits_mono [OF assms(9)]) (use n in simp)
  from own_lines_ok [OF assms(6-8) b2(2,3) this]
  obtain ts' b3 where b3: "write_own_lines gmt conf ts b2 (has_line ''Date'' ?ls) (has_line ''Server'' ?ls) = Some (ts', b3)"
     "ts_wf gmt ts'" "buffer_wf b3" "0 < b_used b3"
     "buffer_content b3 = buffer_content b2 @ show_lines (own_lines gmt conf ts ?ls)" by blast
  have "length (buffer_content b3) + length (CRLF @ CRLF) \<le> ?n" using n b3(5) b2(4) by simp
  then obtain b4 where b4: "buffer_append_string_len b3 (CRLF @ CRLF) = Some b4" "buffer_wf b4"
      "buffer_content b4 = buffer_content b3 @ CRLF @ CRLF" "0 < b_used b4"
    using add_string [OF b3(3) assms(9)] by blast
  have whole: "buffer_content b4 = header_text gmt conf ts con"
    using b4(3) b3(5) b2(4) by (simp add: header_text_def header_lines_def Let_def)
  have len: "buffer_string_length b4 = length (header_text gmt conf ts con)"
    using buffer_string_length_content [OF b4(2)] whole by simp
  obtain cq m where cq: "chunkqueue_prepend_buffer (o_queue (re_out con)) b4 = Some (cq, m)" "cq_wf cq"
      "cq_octets cq = map MemByte (header_text gmt conf ts con) @ cq_octets (o_queue (re_out con))"
    using prepend_buffer_ok [OF assms(3) b4(2)] whole by auto
  define c3 where "c3 = c2\<lparr>re_kbytes_per_second := k, re_bytes_header := int (buffer_string_length b4),
    re_out := (re_out con)\<lparr>o_queue := cq\<rparr>\<rparr>"
  have same: "show_headers c3 = show_headers c2" "re_fixed c3 = re_fixed c2" by (simp_all add: c3_def show_headers_def)
  then have "headers_ok c3" "entries c3 = entries c2" using c2(2) by (simp_all add: headers_ok_def entries_def)
  moreover have "http_response_write_header gmt conf ts con = Some (ts', c3)"
    using b1(1) c1_def c2(1) b2(1) b3(1) b4(1) cq(1) s2(2) by (simp add: http_response_write_header_def c3_def)
  ultimately show ?thesis
    using b3(2) cq(2,3) c2(4) s2 len by (simp add: header_written_def out_octets_def) (simp add: c3_def)
qed

end
