(* ===== verification/ResponseStart.thy ===== *)
theory ResponseStart
  imports ResponseHeader
begin

text \<open>
  The start of a response, \<open>connection_handle_write_prepare\<close> of \<open>src/src/connections.c\<close>: error
  documents, and how the client will find the end of the body.  Everything the header writer
  sends is decided here.
\<close>

section \<open>Preparing a response\<close>

text \<open>
  Outside the connection: the files that \<open>http_chunk_append_file\<close> opens (descriptor and size),
  the content type the stat cache knows for a path (\<open>None\<close> when it has no entry), and the
  response-start hooks of the plugins.
\<close>

record response_env =
  ev_open :: "string \<Rightarrow> (int \<times> int) option"
  ev_content_type :: "string \<Rightarrow> string option"
  ev_response_start :: "response_con \<Rightarrow> handler_t \<times> response_con"

definition clear_queue :: "response_con \<Rightarrow> response_con" where
  "clear_queue con = con\<lparr>re_out := (re_out con)\<lparr>o_queue := chunkqueue_reset (o_queue (re_out con))\<rparr>\<rparr>"

definition set_chunked :: "bool \<Rightarrow> response_con \<Rightarrow> response_con" where
  "set_chunked c con = con\<lparr>re_out := (re_out con)\<lparr>o_chunked := c\<rparr>\<rparr>"

definition connection_handle_errdoc_init :: "response_con \<Rightarrow> response_con option" where
  "connection_handle_errdoc_init con = do {
     www_auth \<leftarrow> (if re_http_status con = 401
                 then map_option (map_option (\<lambda>ds. abs_bytes (du_value ds)))
                        (array_get_element_klen (show_headers con) ''WWW-Authenticate'')
                 else Some None);
     let con = clear_queue (set_chunked False (con\<lparr>re_physical_path := buffer_reset (re_physical_path con)\<rparr>));
     let con = put_headers con (array_reset (show_headers con));
     case www_auth of
       None \<Rightarrow> Some con
     | Some v \<Rightarrow> response_header_insert con ''WWW-Authenticate'' v
   }"

definition direct_method :: "response_con \<Rightarrow> response_con option" where
  "direct_method con =
     (if re_http_method con \<in> {HTTP_METHOD_GET, HTTP_METHOD_POST, HTTP_METHOD_HEAD} then Some con
      else if re_http_method con = HTTP_METHOD_OPTIONS then
        (if (re_http_status con = 0 \<or> re_http_status con = 200) \<and> re_uri_path con \<noteq> [] \<and> hd (re_uri_path con) \<noteq> CHR ''*'' then do {
           con \<leftarrow> response_header_insert con ''Allow'' ''OPTIONS, GET, HEAD, POST'';
           let con = set_chunked False (con\<lparr>re_parsed_response := re_parsed_response con - {HTTP_CONTENT_LENGTH}\<rparr>);
           Some (clear_queue (con\<lparr>re_http_status := 200, re_file_finished := True\<rparr>))
         } else Some con)
      else Some (if re_http_status con = 0 then con\<lparr>re_http_status := 501\<rparr> else con))"

definition error_page :: "int \<Rightarrow> buffer option" where
  "error_page status = do {
     b \<leftarrow> buffer_copy_string_len buffer_init
       (''<?xml version='' @ [CHR 0x22] @ ''1.0'' @ [CHR 0x22] @ '' encoding='' @ [CHR 0x22] @ ''iso-8859-1'' @ [CHR 0x22] @ ''?>'' @ [LF]
        @ ''<!DOCTYPE html PUBLIC '' @ [CHR 0x22] @ ''-//W3C//DTD XHTML 1.0 Transitional//EN'' @ [CHR 0x22, LF]
        @ ''         '' @ [CHR 0x22] @ ''http://www.w3.org/TR/xhtml1/DTD/xhtml1-transitional.dtd'' @ [CHR 0x22] @ ''>'' @ [LF]
        @ ''<html xmlns='' @ [CHR 0x22] @ ''http://www.w3.org/1999/xhtml'' @ [CHR 0x22] @ '' xml:lang='' @ [CHR 0x22] @ ''en'' @ [CHR 0x22]
        @ '' lang='' @ [CHR 0x22] @ ''en'' @ [CHR 0x22] @ ''>'' @ [LF]
        @ '' <head>'' @ [LF] @ ''  <title>'');
     b \<leftarrow> buffer_append_int b status;
     b \<leftarrow> buffer_append_string_len b '' - '';
     b \<leftarrow> buffer_append_string b (get_http_status_name status);
     b \<leftarrow> buffer_append_string_len b (''</title>'' @ [LF] @ '' </head>'' @ [LF] @ '' <body>'' @ [LF] @ ''  <h1>'');
     b \<leftarrow> buffer_append_int b status;
     b \<leftarrow> buffer_append_string_len b '' - '';
     b \<leftarrow> buffer_append_string b (get_http_status_name status);
     buffer_append_string_len b (''</h1>'' @ [LF] @ '' </body>'' @ [LF] @ ''</html>'' @ [LF])
   }"

text \<open>The static error file, when there is one.\<close>

definition error_file :: "response_env \<Rightarrow> response_conf \<Rightarrow> response_con \<Rightarrow> response_con option" where
  "error_file ev conf con =
     (if rc_errorfile_prefix conf = [] then Some con
      else do {
        b \<leftarrow> buffer_copy_string_len (re_physical_path con) (rc_errorfile_prefix conf);
        b \<leftarrow> buffer_append_int b (re_http_status con);
        b \<leftarrow> buffer_append_string_len b ''.html'';
        let con = con\<lparr>re_physical_path := b\<rparr>;
        (rc, out) \<leftarrow> http_chunk_append_file (re_out con) (buffer_abs b) (ev_open ev (buffer_content b));
        let con = con\<lparr>re_out := out\<rparr>;
        if rc = 0 then
          (let con = con\<lparr>re_file_finished := True\<rparr>
           in case ev_content_type ev (buffer_content b) of
                None \<Rightarrow> Some con
              | Some t \<Rightarrow> response_header_overwrite con ''Content-Type'' t)
        else Some con
      })"

definition error_document ::
    "response_env \<Rightarrow> response_conf \<Rightarrow> os_env \<Rightarrow> response_con \<Rightarrow> (os_env \<times> response_con) option" where
  "error_document ev conf e con = do {
     con \<leftarrow> connection_handle_errdoc_init (con\<lparr>re_file_finished := False\<rparr>);
     con \<leftarrow> error_file ev conf con;
     if \<not> re_file_finished con then do {
       let con = con\<lparr>re_physical_path := buffer_reset (re_physical_path con), re_file_finished := True\<rparr>;
       b \<leftarrow> error_page (re_http_status con);
       (rc, out, b, e) \<leftarrow> http_chunk_append_buffer e (re_out con) b;
       con \<leftarrow> response_header_overwrite (con\<lparr>re_out := out\<rparr>) ''Content-Type'' ''text/html'';
       Some (e, con)
     } else Some (e, con)
   }"

definition status_body ::
    "response_env \<Rightarrow> response_conf \<Rightarrow> os_env \<Rightarrow> response_con \<Rightarrow> (os_env \<times> response_con) option" where
  "status_body ev conf e con =
     (if re_http_status con \<in> {204, 205, 304} then
        (let con = set_chunked False (con\<lparr>re_parsed_response := re_parsed_response con - {HTTP_CONTENT_LENGTH}\<rparr>)
         in Some (e, (clear_queue con)\<lparr>re_file_finished := True\<rparr>))
      else if re_http_status con < 400 \<or> 600 \<le> re_http_status con then Some (e, con)
      else if re_mode con \<noteq> DIRECT \<and> (\<not> rc_error_intercept conf \<or> re_error_handler_saved_status con \<noteq> 0)
      then Some (e, con)
      else error_document ev conf e con)"

definition set_content_length :: "response_con \<Rightarrow> response_con option" where
  "set_content_length con =
     (if HTTP_CONTENT_LENGTH \<in> re_parsed_response con \<or> HTTP_TRANSFER_ENCODING \<in> re_parsed_response con then Some con
      else do {
        qlen \<leftarrow> chunkqueue_length (o_queue (re_out con));
        if 100 \<le> re_http_status con \<and> re_http_status con < 200 \<or> re_http_status con \<in> {204, 304}
        then drop_value con ''Content-Length''
        else if 0 < qlen \<or> re_http_method con \<noteq> HTTP_METHOD_HEAD then do {
          b \<leftarrow> buffer_copy_int (re_tmp_buf con) qlen;
          response_header_overwrite (con\<lparr>re_tmp_buf := b\<rparr>) ''Content-Length'' (buffer_content b)
        }
        else Some con
      })"

definition begin_chunked :: "response_con \<Rightarrow> response_con option" where
  "begin_chunked con = do {
     qlen \<leftarrow> chunkqueue_length (o_queue (re_out con));
     let con = set_chunked True con;
     con \<leftarrow> (if qlen \<noteq> 0 then do {
         b \<leftarrow> chunk_len_line (o_tmp (re_out con)) (nat qlen);
         (cq, b) \<leftarrow> chunkqueue_prepend_buffer (o_queue (re_out con)) b;
         cq \<leftarrow> chunkqueue_append_mem cq CRLF;
         Some (con\<lparr>re_out := (re_out con)\<lparr>o_queue := cq, o_tmp := b\<rparr>\<rparr>)
       } else Some con);
     response_header_fixed_append con ''Transfer-Encoding'' ''chunked'' RESP_FIXED_HEADER_TRANSFER_ENCODING_CHUNKED
   }"

text \<open>A backend that asked for it closes the connection.\<close>

definition follow_backend :: "response_con \<Rightarrow> response_con" where
  "follow_backend con =
     (if HTTP_CONNECTION \<in> re_parsed_response con \<and> re_keep_alive con \<and> \<not> re_response_keep_alive con
      then con\<lparr>re_keep_alive := False\<rparr> else con)"

definition set_unfinished :: "response_con \<Rightarrow> response_con option" where
  "set_unfinished con = do {
     con \<leftarrow> (if {HTTP_CONTENT_LENGTH, HTTP_TRANSFER_ENCODING, HTTP_UPGRADE} \<inter> re_parsed_response con \<noteq> {} then Some con
             else if re_http_method con = HTTP_METHOD_CONNECT \<and> re_http_status con = 200 then Some con
             else if re_http_version con = HTTP_VERSION_1_1 then begin_chunked con
             else Some (con\<lparr>re_keep_alive := False\<rparr>));
     Some (follow_backend con)
   }"

definition head_response :: "response_con \<Rightarrow> response_con option" where
  "head_response con =
     (if re_http_method con = HTTP_METHOD_HEAD then
        (let con = set_chunked False (clear_queue (con\<lparr>re_file_finished := True\<rparr>))
         in if HTTP_TRANSFER_ENCODING \<in> re_parsed_response con then drop_value con ''Transfer-Encoding'' else Some con)
      else Some con)"

text \<open>Everything up to the header; the result is -1 when a hook fails.\<close>

definition prepare_response ::
    "response_env \<Rightarrow> response_conf \<Rightarrow> os_env \<Rightarrow> response_con \<Rightarrow> (int \<times> os_env \<times> response_con) option" where
  "prepare_response ev conf e con = do {
     con \<leftarrow> (if re_mode con = DIRECT then direct_method con else Some con);
     let con = (if re_http_status con = 0 then con\<lparr>re_http_status := 403\<rparr> else con);
     (e, con) \<leftarrow> status_body ev conf e con;
     let (rc, con) = ev_response_start ev con;
     if rc \<noteq> HANDLER_GO_ON \<and> rc \<noteq> HANDLER_FINISHED then Some (-1, e, con)
     else do {
       con \<leftarrow> (if re_file_finished con then set_content_length con else set_unfinished con);
       con \<leftarrow> head_response con;
       Some (0, e, con)
     }
   }"

definition connection_handle_write_prepare ::
    "(int \<Rightarrow> string) \<Rightarrow> response_env \<Rightarrow> response_conf \<Rightarrow> os_env \<Rightarrow> ts_date \<Rightarrow> response_con
       \<Rightarrow> (int \<times> os_env \<times> ts_date \<times> response_con) option" where
  "connection_handle_write_prepare gmt ev conf e ts con = do {
     (rc, e, con) \<leftarrow> prepare_response ev conf e con;
     if rc \<noteq> 0 then Some (rc, e, ts, con)
     else do {
       (ts, con) \<leftarrow> http_response_write_header gmt conf ts con;
       Some (0, e, ts, con)
     }
   }"


section \<open>Lemmas\<close>

declare sent_line.simps [simp del]

text \<open>What the steps before the header keep: a response of the server's own, without any framing yet.\<close>

definition framing_names :: "string set" where
  "framing_names = {''Connection'', ''Transfer-Encoding'', ''Content-Length''}"

definition rest_ok :: "response_con \<Rightarrow> bool" where
  "rest_ok con \<longleftrightarrow> out_wf (re_out con) \<and> \<not> o_chunked (re_out con) \<and> buffer_wf (re_tmp_buf con)
     \<and> buffer_wf (re_physical_path con) \<and> length (out_octets (re_out con)) < 2 ^ 62
     \<and> re_parsed_response con \<inter> {HTTP_CONTENT_LENGTH, HTTP_TRANSFER_ENCODING, HTTP_UPGRADE} = {}
     \<and> 0 \<le> re_http_status con \<and> re_http_status con < 2 ^ 31"

definition ready :: "response_con \<Rightarrow> bool" where
  "ready con \<longleftrightarrow> headers_ok con \<and> rest_ok con \<and> (\<forall>n \<in> framing_names. absent con n)"

lemma same_restD:
  assumes "same_rest con con'"
  shows "rest_ok con' = rest_ok con" "re_http_status con' = re_http_status con" "re_http_method con' = re_http_method con"
    "re_http_version con' = re_http_version con" "re_file_finished con' = re_file_finished con" "re_out con' = re_out con"
    "re_keep_alive con' = re_keep_alive con" "re_parsed_response con' = re_parsed_response con"
    "re_request_count con' = re_request_count con" "re_physical_path con' = re_physical_path con"
    "re_tmp_buf con' = re_tmp_buf con" "re_mode con' = re_mode con"
proof -
  have e: "con' = con\<lparr>re_headers := re_headers con', re_fixed := re_fixed con'\<rparr>" using assms by (simp add: same_rest_def)
  show "rest_ok con' = rest_ok con" by (subst e, simp add: rest_ok_def)
  show "re_http_status con' = re_http_status con" "re_http_method con' = re_http_method con"
    "re_http_version con' = re_http_version con" "re_file_finished con' = re_file_finished con" "re_out con' = re_out con"
    "re_keep_alive con' = re_keep_alive con" "re_parsed_response con' = re_parsed_response con"
    "re_request_count con' = re_request_count con" "re_physical_path con' = re_physical_path con"
    "re_tmp_buf con' = re_tmp_buf con" "re_mode con' = re_mode con"
    by (subst e, simp)+
qed

lemma name_simps [simp]:
  "plain_name ''Content-Type''" "plain_name ''Content-Length''"
  "ckey ''Content-Type'' \<noteq> ckey ''Connection''" "ckey ''Content-Type'' \<noteq> ckey ''Transfer-Encoding''"
  "ckey ''Content-Type'' \<noteq> ckey ''Content-Length''" "ckey ''Allow'' \<noteq> ckey ''Connection''"
  "ckey ''Allow'' \<noteq> ckey ''Transfer-Encoding''" "ckey ''Allow'' \<noteq> ckey ''Content-Length''"
  "ckey ''WWW-Authenticate'' \<noteq> ckey ''Connection''" "ckey ''WWW-Authenticate'' \<noteq> ckey ''Transfer-Encoding''"
  "ckey ''WWW-Authenticate'' \<noteq> ckey ''Content-Length''"
  by (simp_all add: plain_name_def to_lower_def is_upper_def set_bit5_def)

lemma absent_append [simp]:
  "entries con' = entries con @ [d] \<Longrightarrow> absent con' n \<longleftrightarrow> absent con n \<and> entry_key d \<noteq> ckey n"
  by (auto simp: absent_def)

lemma entry_key_Some [simp]: "du_key d = Some k \<Longrightarrow> entry_key d = ckey k"
  by (simp add: entry_key_def)

lemma absent_map:
  "entries con' = map f (entries con) \<Longrightarrow> \<forall>d. entry_key (f d) = entry_key d \<Longrightarrow> absent con' n \<longleftrightarrow> absent con n"
  by (simp add: absent_def)

text \<open>Changes outside the table.\<close>

lemma entries_cong: "re_headers con' = re_headers con \<Longrightarrow> re_fixed con' = re_fixed con \<Longrightarrow> entries con' = entries con"
  by (simp add: entries_def show_headers_def)

lemma headers_cong:
  "re_headers con' = re_headers con \<Longrightarrow> re_fixed con' = re_fixed con \<Longrightarrow> headers_ok con' = headers_ok con"
  by (simp add: headers_ok_def show_headers_def)

lemma ready_cong:
  assumes "ready con" "re_headers con' = re_headers con" "re_fixed con' = re_fixed con" "rest_ok con'"
  shows "ready con'"
  using assms entries_cong [OF assms(2,3)] headers_cong [OF assms(2,3)] by (simp add: ready_def absent_def)

lemma out_wf_cong: "out_wf (out\<lparr>o_chunked := c\<rparr>) = out_wf out" "out_octets (out\<lparr>o_chunked := c\<rparr>) = out_octets out"
  by (simp_all add: out_wf_def out_octets_def)

lemma out_reset:
  "out_wf out \<Longrightarrow> out_wf (out\<lparr>o_queue := chunkqueue_reset (o_queue out)\<rparr>)"
  "out_wf out \<Longrightarrow> out_octets (out\<lparr>o_queue := chunkqueue_reset (o_queue out)\<rparr>) = []"
  using reset_ok by (simp_all add: out_wf_def out_octets_def)

lemma clear_queue_fields [simp]:
  "re_headers (clear_queue con) = re_headers con" "re_fixed (clear_queue con) = re_fixed con"
  "re_http_status (clear_queue con) = re_http_status con" "re_http_method (clear_queue con) = re_http_method con"
  "re_http_version (clear_queue con) = re_http_version con" "re_file_finished (clear_queue con) = re_file_finished con"
  "re_parsed_response (clear_queue con) = re_parsed_response con" "re_tmp_buf (clear_queue con) = re_tmp_buf con"
  "re_physical_path (clear_queue con) = re_physical_path con" "o_chunked (re_out (clear_queue con)) = o_chunked (re_out con)"
  "re_mode (clear_queue con) = re_mode con" "re_keep_alive (clear_queue con) = re_keep_alive con" "re_request_count (clear_queue con) = re_request_count con"
  by (simp_all add: clear_queue_def)

lemma set_chunked_fields [simp]:
  "re_headers (set_chunked c con) = re_headers con" "re_fixed (set_chunked c con) = re_fixed con"
  "re_http_status (set_chunked c con) = re_http_status con" "re_http_method (set_chunked c con) = re_http_method con"
  "re_http_version (set_chunked c con) = re_http_version con" "re_file_finished (set_chunked c con) = re_file_finished con"
  "re_parsed_response (set_chunked c con) = re_parsed_response con" "re_tmp_buf (set_chunked c con) = re_tmp_buf con"
  "re_physical_path (set_chunked c con) = re_physical_path con" "o_chunked (re_out (set_chunked c con)) = c"
  "re_mode (set_chunked c con) = re_mode con" "re_keep_alive (set_chunked c con) = re_keep_alive con" "re_request_count (set_chunked c con) = re_request_count con"
  "out_octets (re_out (set_chunked c con)) = out_octets (re_out con)" "out_wf (re_out (set_chunked c con)) = out_wf (re_out con)"
  by (simp_all add: set_chunked_def out_wf_cong)

lemma cleared [simp]:
  assumes "out_wf (re_out con)"
  shows "out_wf (re_out (clear_queue con))" "out_octets (re_out (clear_queue con)) = []"
  using out_reset [OF assms] by (simp_all add: clear_queue_def)

lemma reset_chunks [simp]: "cq_chunks (chunkqueue_reset cq) = []"
proof -
  have "cq_chunks (foldl chunkqueue_push_unused_chunk q cs) = cq_chunks q" for q cs
    by (induction cs arbitrary: q) (simp_all add: chunkqueue_push_unused_chunk_def Let_def split: prod.splits)
  then show ?thesis by (simp add: chunkqueue_reset_def)
qed

subsection \<open>The steps before the header\<close>

lemma readyD:
  assumes "ready con"
  shows "headers_ok con" "rest_ok con" "absent con ''Connection''" "absent con ''Transfer-Encoding''" "absent con ''Content-Length''"
  using assms by (simp_all add: ready_def framing_names_def)

lemma readyI:
  "headers_ok con \<Longrightarrow> rest_ok con \<Longrightarrow> absent con ''Connection'' \<Longrightarrow> absent con ''Transfer-Encoding'' \<Longrightarrow> absent con ''Content-Length''
     \<Longrightarrow> ready con"
  by (simp add: ready_def framing_names_def)

lemma absent_cong: "re_headers con' = re_headers con \<Longrightarrow> re_fixed con' = re_fixed con \<Longrightarrow> absent con' n = absent con n"
  by (drule (1) entries_cong) (simp add: absent_def)

lemma direct_method_ok:
  assumes "ready con" "absent con ''Allow''"
  shows "\<exists>con'. direct_method con = Some con' \<and> ready con' \<and> re_http_method con' = re_http_method con
           \<and> re_http_version con' = re_http_version con \<and> re_mode con' = re_mode con
           \<and> (re_http_status con' = re_http_status con \<or> re_http_status con' \<in> {200, 501})"
proof -
  note r = readyD [OF assms(1)]
  consider (plain) "re_http_method con \<in> {HTTP_METHOD_GET, HTTP_METHOD_POST, HTTP_METHOD_HEAD}"
    | (options) "re_http_method con = HTTP_METHOD_OPTIONS" "re_http_status con = 0 \<or> re_http_status con = 200"
        "re_uri_path con \<noteq> [] \<and> List.hd (re_uri_path con) \<noteq> CHR ''*''"
    | (same) "re_http_method con = HTTP_METHOD_OPTIONS" "\<not> ((re_http_status con = 0 \<or> re_http_status con = 200)
        \<and> re_uri_path con \<noteq> [] \<and> List.hd (re_uri_path con) \<noteq> CHR ''*'')"
    | (other) "re_http_method con \<notin> {HTTP_METHOD_GET, HTTP_METHOD_POST, HTTP_METHOD_HEAD, HTTP_METHOD_OPTIONS}"
    by blast
  then show ?thesis
  proof cases
    case plain
    then show ?thesis using assms(1) by (simp add: direct_method_def)
  next
    case options
    obtain c d where c: "response_header_insert con ''Allow'' ''OPTIONS, GET, HEAD, POST'' = Some c" "headers_ok c"
        "same_rest con c" "entries c = entries con @ [d]" "du_key d = Some ''Allow''"
      using response_header_insert_ok [OF r(1) assms(2)] by blast
    note s = same_restD [OF c(3)]
    have rest: "rest_ok c" using s(1) r(2) by simp
    define c' where "c' = clear_queue ((set_chunked False (c\<lparr>re_parsed_response := re_parsed_response c - {HTTP_CONTENT_LENGTH}\<rparr>))
      \<lparr>re_http_status := 200, re_file_finished := True\<rparr>)"
    have f: "re_headers c' = re_headers c" "re_fixed c' = re_fixed c" by (simp_all add: c'_def)
    have "rest_ok c'" using rest unfolding rest_ok_def c'_def by auto
    then have "ready c'"
      using headers_cong [OF f] c(2) r(3-5) absent_append [OF c(4)] c(5) by (intro readyI) (simp_all add: absent_cong [OF f])
    moreover have "direct_method con = Some c'"
      using options c(1) by (simp add: direct_method_def c'_def)
    ultimately show ?thesis using s by (simp add: c'_def)
  next
    case same
    then have "direct_method con = Some con" unfolding direct_method_def by (simp only: if_False) simp
    then show ?thesis using assms(1) by simp
  next
    case other
    have "ready (con\<lparr>re_http_status := 501\<rparr>)"
      using ready_cong [OF assms(1), of "con\<lparr>re_http_status := 501\<rparr>"] r(2) by (simp add: rest_ok_def)
    then show ?thesis using other assms(1) by (simp add: direct_method_def)
  qed
qed

lemma errdoc_init_ok:
  assumes "ready con"
  shows "\<exists>con'. connection_handle_errdoc_init con = Some con' \<and> ready con' \<and> re_http_method con' = re_http_method con
           \<and> re_http_version con' = re_http_version con \<and> re_http_status con' = re_http_status con
           \<and> re_file_finished con' = re_file_finished con \<and> cq_chunks (o_queue (re_out con')) = []
           \<and> (\<forall>d \<in> set (entries con'). entry_key d = ckey ''WWW-Authenticate'')"
proof -
  note r = readyD [OF assms]
  note h = headers_okD(1) [OF r(1)]
  define w where "w = (if re_http_status con = 401
    then map_option (\<lambda>ds. abs_bytes (du_value ds)) (array_view (show_headers con) (ckey ''WWW-Authenticate'')) else None)"
  have w: "(if re_http_status con = 401
                 then map_option (map_option (\<lambda>ds. abs_bytes (du_value ds)))
                        (array_get_element_klen (show_headers con) ''WWW-Authenticate'')
                 else Some None) = Some w"
    using array_get_element_ok [OF h] by (simp add: w_def)
  define c where "c = clear_queue (set_chunked False (con\<lparr>re_physical_path := buffer_reset (re_physical_path con)\<rparr>))"
  have f: "re_headers c = re_headers con" "re_fixed c = re_fixed con" by (simp_all add: c_def)
  have rest: "rest_ok c" "cq_chunks (o_queue (re_out c)) = []"
  proof -
    show "rest_ok c" using r(2) unfolding rest_ok_def c_def by (auto simp: buffer_reset_wf)
    show "cq_chunks (o_queue (re_out c)) = []" by (simp add: c_def clear_queue_def)
  qed
  define c1 where "c1 = put_headers c (array_reset (show_headers c))"
  have hc: "headers_ok c" using headers_cong [OF f] r(1) by simp
  have c1: "headers_ok c1" "entries c1 = []" using clear_headers_ok [OF hc] by (simp_all add: c1_def)
  have s1: "same_rest c c1" by (simp add: c1_def)
  have run: "connection_handle_errdoc_init con
      = (case w of None \<Rightarrow> Some c1 | Some v \<Rightarrow> response_header_insert c1 ''WWW-Authenticate'' v)"
    unfolding connection_handle_errdoc_init_def w Let_def c_def [symmetric] c1_def [symmetric] by simp
  have fields: "re_http_method c = re_http_method con" "re_http_version c = re_http_version con" "re_http_status c = re_http_status con"
      "re_file_finished c = re_file_finished con" by (simp_all add: c_def)
  have none: "absent c1 n" for n using c1(2) by (simp add: absent_def)
  show ?thesis
  proof (cases w)
    case None
    have "ready c1" using c1(1) same_restD(1) [OF s1] rest(1) none by (intro readyI) simp_all
    then show ?thesis using run None c1(2) same_restD [OF s1] fields rest(2) by simp
  next
    case (Some v)
    obtain c2 d where c2: "response_header_insert c1 ''WWW-Authenticate'' v = Some c2" "headers_ok c2" "same_rest c1 c2"
        "entries c2 = entries c1 @ [d]" "du_key d = Some ''WWW-Authenticate''"
      using response_header_insert_ok [OF c1(1) none] by blast
    have "ready c2"
      using c2(2) same_restD(1) [OF s1] same_restD(1) [OF c2(3)] rest(1) none absent_append [OF c2(4)] c2(5)
      by (intro readyI) simp_all
    then show ?thesis using run Some c2(1,4,5) c1(2) same_restD [OF s1] same_restD [OF c2(3)] fields rest(2) by simp
  qed
qed


text \<open>Setting a header that has nothing to do with the framing.\<close>

lemma overwrite_ready:
  assumes "ready con" "plain_name key" "ckey key \<noteq> ckey ''Content-Length''"
  shows "\<exists>con'. response_header_overwrite con key value = Some con' \<and> ready con' \<and> same_rest con con'"
proof -
  note r = readyD [OF assms(1)]
  obtain c where c: "response_header_overwrite con key value = Some c" "headers_ok c" "same_rest con c"
      "if absent con key
       then \<exists>d. entries c = entries con @ [d] \<and> du_key d = Some key \<and> du_value d = Some value \<and> du_type d \<in> {TYPE_STRING, TYPE_RESPONSE}
       else entries c = map (\<lambda>e. if entry_key e = ckey key then e\<lparr>du_value := Some value\<rparr> else e) (entries con)"
    using response_header_overwrite_ok [OF r(1) assms(2)] by blast
  have ab: "absent c n" if "absent con n" "ckey key \<noteq> ckey n" for n
  proof (cases "absent con key")
    case True
    then obtain d where "entries c = entries con @ [d]" "du_key d = Some key" using c(4) by auto
    then show ?thesis using that by simp
  next
    case False
    then have e: "entries c = map (\<lambda>e. if entry_key e = ckey key then e\<lparr>du_value := Some value\<rparr> else e) (entries con)" using c(4) by simp
    show ?thesis using absent_map [OF e] that by (simp add: entry_key_def)
  qed
  have "ready c"
    using c(2) same_restD(1) [OF c(3)] r ab assms(2,3) by (intro readyI) (simp_all add: plain_name_def)
  then show ?thesis using c(1,3) by blast
qed

text \<open>The files that can be opened have a size, and the path of an error file fits into a buffer.\<close>

definition env_ok :: "response_env \<Rightarrow> response_conf \<Rightarrow> bool" where
  "env_ok ev conf \<longleftrightarrow> (\<forall>p fd sz. ev_open ev p = Some (fd, sz) \<longrightarrow> 0 \<le> sz \<and> sz < 2 ^ 61) \<and> fits (length (rc_errorfile_prefix conf) + 40)"

lemma append_file_plain:
  assumes "out_wf out" "\<not> o_chunked out" "\<forall>fd sz. opened = Some (fd, sz) \<longrightarrow> 0 \<le> sz \<and> sz < 2 ^ 61"
  shows "\<exists>rc out'. http_chunk_append_file out fn opened = Some (rc, out') \<and> out_wf out' \<and> \<not> o_chunked out'
           \<and> length (out_octets out') < length (out_octets out) + 2 ^ 61 \<and> (rc \<noteq> 0 \<longrightarrow> out' = out)"
proof (cases opened)
  case None
  then show ?thesis using assms(1,2) by (simp add: http_chunk_append_file_def)
next
  case (Some p)
  obtain fd sz where p: "p = (fd, sz)" by (cases p)
  have sz: "0 \<le> sz" "sz < 2 ^ 61" using assms(3) Some p by auto
  show ?thesis
  proof (cases "sz = 0")
    case True
    then show ?thesis using assms(1,2) Some p
      by (simp add: http_chunk_append_file_def close_unused_def out_wf_def out_octets_def cq_wf_def cq_octets_def)
  next
    case False
    obtain cq where cq: "chunkqueue_append_file_fd (o_queue out) fn fd 0 sz = Some cq" "cq_wf cq"
        "cq_octets cq = cq_octets (o_queue out) @ map (FileByte (abs_bytes fn)) [0..0 + sz - 1]"
      using append_file_fd_ok [of "o_queue out" sz fn fd 0] assms(1) sz by (auto simp: out_wf_def)
    have "nat sz < 2 ^ 61" using sz by (simp add: nat_less_iff)
    then show ?thesis
      using False Some p cq assms(1,2)
      by (simp add: http_chunk_append_file_def http_chunk_append_file_fd_range_def out_wf_def out_octets_def)
  qed
qed

lemma status_digits: "0 \<le> v \<Longrightarrow> v < 2 ^ 31 \<Longrightarrow> - (2 ^ 63) \<le> v \<and> v < (2 ^ 63 :: int)"
  by simp

lemma error_file_ok:
  assumes "ready con" "env_ok ev conf" "out_octets (re_out con) = []"
  shows "\<exists>con'. error_file ev conf con = Some con' \<and> ready con' \<and> re_http_method con' = re_http_method con
           \<and> re_http_version con' = re_http_version con \<and> re_http_status con' = re_http_status con
           \<and> (re_file_finished con' \<or> re_out con' = re_out con)"
proof (cases "rc_errorfile_prefix conf = []")
  case True
  then show ?thesis using assms by (simp add: error_file_def)
next
  case False
  note r = readyD [OF assms(1)]
  have st: "- (2 ^ 63) \<le> re_http_status con" "re_http_status con < 2 ^ 63" and wf: "buffer_wf (re_physical_path con)" "out_wf (re_out con)"
    and ch: "\<not> o_chunked (re_out con)"
    using r(2) by (simp_all add: rest_ok_def)
  let ?p = "rc_errorfile_prefix conf" and ?n = "length (rc_errorfile_prefix conf) + 40"
  have n: "fits ?n" using assms(2) by (simp add: env_ok_def)
  have "length ?p \<le> ?n" by simp
  then obtain b1 where b1: "buffer_copy_string_len (re_physical_path con) ?p = Some b1" "buffer_wf b1" "buffer_content b1 = ?p"
    using new_string [OF wf(1) fits_mono [OF n]] by blast
  obtain b2 where b2: "buffer_append_int b1 (re_http_status con) = Some b2" "buffer_wf b2"
      "buffer_content b2 = ?p @ itostr [] (re_http_status con)"
    using add_int [OF b1(2) n _ st] b1(3) by auto
  have "length (itostr [] (re_http_status con)) \<le> 20" using itostr_length [OF st] by simp
  then have "length (buffer_content b2) + length ''.html'' \<le> ?n" using b2(3) by simp
  then obtain b3 where b3: "buffer_append_string_len b2 ''.html'' = Some b3" "buffer_wf b3"
    using add_string [OF b2(2) n] by blast
  have op: "\<forall>fd sz. ev_open ev (buffer_content b3) = Some (fd, sz) \<longrightarrow> 0 \<le> sz \<and> sz < 2 ^ 61"
    using assms(2) unfolding env_ok_def by blast
  obtain rc out' where o': "http_chunk_append_file (re_out con) (buffer_abs b3) (ev_open ev (buffer_content b3)) = Some (rc, out')"
      "out_wf out'" "\<not> o_chunked out'" "length (out_octets out') < 2 ^ 61" "rc \<noteq> 0 \<longrightarrow> out' = re_out con"
    using append_file_plain [OF wf(2) ch op, of "buffer_abs b3"] assms(3) by auto
  define c where "c = con\<lparr>re_physical_path := b3, re_out := out'\<rparr>"
  have f: "re_headers c = re_headers con" "re_fixed c = re_fixed con" by (simp_all add: c_def)
  have "rest_ok c" using r(2) o'(2-4) b3(2) by (simp add: rest_ok_def c_def)
  then have c: "ready c" using ready_cong [OF assms(1) f] by simp
  define c1 where "c1 = c\<lparr>re_file_finished := True\<rparr>"
  have f1: "re_headers c1 = re_headers c" "re_fixed c1 = re_fixed c" by (simp_all add: c1_def)
  have "rest_ok c1" using readyD(2) [OF c] by (simp add: rest_ok_def c1_def)
  then have c1: "ready c1" using ready_cong [OF c f1] by simp
  have run: "error_file ev conf con = (if rc = 0 then
         (case ev_content_type ev (buffer_content b3) of None \<Rightarrow> Some c1
          | Some t \<Rightarrow> response_header_overwrite c1 ''Content-Type'' t) else Some c)"
    using False b1(1) b2(1) b3(1) o'(1) by (simp add: error_file_def c_def c1_def Let_def split: option.split)
  show ?thesis
  proof (cases "rc = 0")
    case False
    then show ?thesis using run c o'(5) assms(3) by (simp add: c_def)
  next
    case True
    show ?thesis
    proof (cases "ev_content_type ev (buffer_content b3)")
      case None
      then show ?thesis using True run c1 by (simp add: c1_def c_def)
    next
      case (Some t)
      obtain c2 where c2: "response_header_overwrite c1 ''Content-Type'' t = Some c2" "ready c2" "same_rest c1 c2"
        using overwrite_ready [OF c1 name_simps(1,5)] by blast
      then show ?thesis using True run Some same_restD [OF c2(3)] by (simp add: c1_def c_def)
    qed
  qed
qed


lemma status_name_short: "length (cstr (case get_http_status_name st of None \<Rightarrow> [] | Some t \<Rightarrow> t)) \<le> 40"
proof -
  have all: "list_all (\<lambda>p. length (cstr (snd p)) \<le> 40) http_status" by code_simp
  have "length (cstr v) \<le> 40" if "keyvalue_get_value kv st = Some v" "list_all (\<lambda>p. length (cstr (snd p)) \<le> 40) kv" for kv v
    using that by (induction kv st rule: keyvalue_get_value.induct) (auto split: if_splits)
  then show ?thesis using all by (cases "get_http_status_name st") (auto simp: get_http_status_name_def cstr_def)
qed

lemma add_status_name:
  assumes "buffer_wf b" "fits n" "length (buffer_content b) + 40 \<le> n"
  shows "\<exists>b'. buffer_append_string b (get_http_status_name st) = Some b' \<and> buffer_wf b'
           \<and> length (buffer_content b') \<le> length (buffer_content b) + 40"
proof -
  let ?m = "cstr (case get_http_status_name st of None \<Rightarrow> [] | Some t \<Rightarrow> t)"
  have e: "(case get_http_status_name st of None \<Rightarrow> [] | Some t \<Rightarrow> cstr t) = ?m"
    by (cases "get_http_status_name st") (simp_all add: cstr_def)
  have "length (buffer_content b) + length ?m \<le> n" using assms(3) status_name_short [of st] by simp
  then obtain b' where "buffer_append_string_len b ?m = Some b'" "buffer_wf b'" "buffer_content b' = buffer_content b @ ?m"
    using add_string [OF assms(1,2)] by blast
  then show ?thesis using status_name_short [of st] by (simp add: buffer_append_string_def e)
qed

lemma error_page_ok:
  assumes "0 \<le> st" "st < 2 ^ 31"
  shows "\<exists>b. error_page st = Some b \<and> buffer_wf b \<and> buffer_content b \<noteq> [] \<and> length (buffer_content b) \<le> 1000"
proof -
  have n: "fits 1000" by (simp add: fits_def PTRDIFF_MAX_def)
  have st: "- (2 ^ 63) \<le> st" "st < 2 ^ 63" using assms by simp_all
  have d: "length (itostr [] st) \<le> 20" using itostr_length [OF st] by simp
  define t1 where "t1 = (''<?xml version='' @ [CHR 0x22] @ ''1.0'' @ [CHR 0x22] @ '' encoding='' @ [CHR 0x22] @ ''iso-8859-1'' @ [CHR 0x22] @ ''?>'' @ [LF]
        @ ''<!DOCTYPE html PUBLIC '' @ [CHR 0x22] @ ''-//W3C//DTD XHTML 1.0 Transitional//EN'' @ [CHR 0x22, LF]
        @ ''         '' @ [CHR 0x22] @ ''http://www.w3.org/TR/xhtml1/DTD/xhtml1-transitional.dtd'' @ [CHR 0x22] @ ''>'' @ [LF]
        @ ''<html xmlns='' @ [CHR 0x22] @ ''http://www.w3.org/1999/xhtml'' @ [CHR 0x22] @ '' xml:lang='' @ [CHR 0x22] @ ''en'' @ [CHR 0x22]
        @ '' lang='' @ [CHR 0x22] @ ''en'' @ [CHR 0x22] @ ''>'' @ [LF]
        @ '' <head>'' @ [LF] @ ''  <title>'')"
  define t2 where "t2 = (''</title>'' @ [LF] @ '' </head>'' @ [LF] @ '' <body>'' @ [LF] @ ''  <h1>'')"
  define t3 where "t3 = (''</h1>'' @ [LF] @ '' </body>'' @ [LF] @ ''</html>'' @ [LF])"
  have l: "length t1 \<le> 400" "length t2 \<le> 50" "length t3 \<le> 50" "t3 \<noteq> []" by (simp_all add: t1_def t2_def t3_def)
  have "length t1 \<le> 1000" using l(1) by simp
  then obtain b1 where b1: "buffer_copy_string_len buffer_init t1 = Some b1" "buffer_wf b1" "buffer_content b1 = t1"
    using new_string [OF buffer_init_wf(1) fits_mono [OF n]] by blast
  obtain b2 where b2: "buffer_append_int b1 st = Some b2" "buffer_wf b2" "buffer_content b2 = buffer_content b1 @ itostr [] st"
    using add_int [OF b1(2) n _ st] b1(3) l(1) by auto
  have s2: "length (buffer_content b2) \<le> 420" using b2(3) b1(3) l(1) d by simp
  obtain b3 where b3: "buffer_append_string_len b2 '' - '' = Some b3" "buffer_wf b3" "buffer_content b3 = buffer_content b2 @ '' - ''"
    using add_string [OF b2(2) n, of "'' - ''"] s2 by auto
  obtain b4 where b4: "buffer_append_string b3 (get_http_status_name st) = Some b4" "buffer_wf b4"
      "length (buffer_content b4) \<le> length (buffer_content b3) + 40"
    using add_status_name [OF b3(2) n, of st] b3(3) s2 by auto
  have s4: "length (buffer_content b4) \<le> 463" using b4(3) b3(3) s2 by simp
  obtain b5 where b5: "buffer_append_string_len b4 t2 = Some b5" "buffer_wf b5" "buffer_content b5 = buffer_content b4 @ t2"
    using add_string [OF b4(2) n, of t2] s4 l(2) by auto
  obtain b6 where b6: "buffer_append_int b5 st = Some b6" "buffer_wf b6" "buffer_content b6 = buffer_content b5 @ itostr [] st"
    using add_int [OF b5(2) n _ st] b5(3) s4 l(2) by auto
  have s6: "length (buffer_content b6) \<le> 533" using b6(3) b5(3) s4 l(2) d by simp
  obtain b7 where b7: "buffer_append_string_len b6 '' - '' = Some b7" "buffer_wf b7" "buffer_content b7 = buffer_content b6 @ '' - ''"
    using add_string [OF b6(2) n, of "'' - ''"] s6 by auto
  obtain b8 where b8: "buffer_append_string b7 (get_http_status_name st) = Some b8" "buffer_wf b8"
      "length (buffer_content b8) \<le> length (buffer_content b7) + 40"
    using add_status_name [OF b7(2) n, of st] b7(3) s6 by auto
  have s8: "length (buffer_content b8) \<le> 576" using b8(3) b7(3) s6 by simp
  obtain b9 where b9: "buffer_append_string_len b8 t3 = Some b9" "buffer_wf b9" "buffer_content b9 = buffer_content b8 @ t3"
    using add_string [OF b8(2) n, of t3] s8 l(3) by auto
  have "error_page st = Some b9"
    unfolding error_page_def t1_def [symmetric] t2_def [symmetric] t3_def [symmetric]
    using b1(1) b2(1) b3(1) b4(1) b5(1) b6(1) b7(1) b8(1) b9(1) by simp
  then show ?thesis using b9(2,3) s8 l(3,4) by auto
qed

lemma not_to_tempfile:
  assumes "out_wf out" "cq_chunks (o_queue out) = []" "n \<le> 1000"
  shows "\<not> to_tempfile out n"
proof -
  have "cq_bytes_in (o_queue out) - cq_bytes_out (o_queue out) = 0"
    using assms(1,2) by (simp add: out_wf_def cq_wf_def cq_octets_def)
  then show ?thesis using assms(2,3) by (simp add: to_tempfile_def Let_def)
qed

lemma error_document_ok:
  assumes "ready con" "env_ok ev conf"
  shows "\<exists>con'. error_document ev conf e con = Some (e, con') \<and> ready con' \<and> re_http_method con' = re_http_method con
           \<and> re_http_version con' = re_http_version con \<and> re_http_status con' = re_http_status con \<and> re_file_finished con'"
proof -
  have "ready (con\<lparr>re_file_finished := False\<rparr>)"
    using ready_cong [OF assms(1), of "con\<lparr>re_file_finished := False\<rparr>"] readyD(2) [OF assms(1)] by (simp add: rest_ok_def)
  then obtain c where c: "connection_handle_errdoc_init (con\<lparr>re_file_finished := False\<rparr>) = Some c" "ready c"
      "re_http_method c = re_http_method con" "re_http_version c = re_http_version con" "re_http_status c = re_http_status con"
      "cq_chunks (o_queue (re_out c)) = []"
    using errdoc_init_ok by force
  have "out_octets (re_out c) = []" using c(6) by (simp add: out_octets_def cq_octets_def)
  then obtain c1 where c1: "error_file ev conf c = Some c1" "ready c1" "re_http_method c1 = re_http_method c"
      "re_http_version c1 = re_http_version c" "re_http_status c1 = re_http_status c" "re_file_finished c1 \<or> re_out c1 = re_out c"
    using error_file_ok [OF c(2) assms(2)] by blast
  show ?thesis
  proof (cases "re_file_finished c1")
    case True
    then show ?thesis using c c1 by (simp add: error_document_def)
  next
    case False
    note r1 = readyD [OF c1(2)]
    have st: "0 \<le> re_http_status c1" "re_http_status c1 < 2 ^ 31" "out_wf (re_out c1)" "\<not> o_chunked (re_out c1)"
      using r1(2) by (simp_all add: rest_ok_def)
    have empty: "cq_chunks (o_queue (re_out c1)) = []" using False c1(6) c(6) by simp
    define c2 where "c2 = c1\<lparr>re_physical_path := buffer_reset (re_physical_path c1), re_file_finished := True\<rparr>"
    obtain b where b: "error_page (re_http_status c1) = Some b" "buffer_wf b" "buffer_content b \<noteq> []" "length (buffer_content b) \<le> 1000"
      using error_page_ok [OF st(1,2)] by blast
    obtain out' b' where o': "http_chunk_append_buffer e (re_out c1) b = Some (0, out', b', e)" "out_wf out'"
        "out_octets out' = out_octets (re_out c1) @ frame (o_chunked (re_out c1)) (map MemByte (buffer_content b))"
      using http_chunk_append_buffer_ok [OF st(3) b(2,3) not_to_tempfile [OF st(3) empty b(4)]] by blast
    have keep: "\<not> o_chunked out'"
      using o'(1) st(4) not_to_tempfile [OF st(3) empty b(4)] buffer_string_length_content [OF b(2)]
      by (auto simp: http_chunk_append_buffer_def Let_def split: if_splits bind_splits)
    define c3 where "c3 = c2\<lparr>re_out := out'\<rparr>"
    have f3: "re_headers c3 = re_headers c1" "re_fixed c3 = re_fixed c1" by (simp_all add: c3_def c2_def)
    have "length (out_octets out') \<le> 1000" using o'(3) st(4) b(4) empty by (simp add: frame_def out_octets_def cq_octets_def)
    then have "rest_ok c3" using r1(2) o'(2) keep by (simp add: rest_ok_def c3_def c2_def buffer_reset_wf)
    then have c3: "ready c3" using ready_cong [OF c1(2) f3] by simp
    obtain c4 where c4: "response_header_overwrite c3 ''Content-Type'' ''text/html'' = Some c4" "ready c4" "same_rest c3 c4"
      using overwrite_ready [OF c3 name_simps(1,5)] by blast
    have "error_document ev conf e con = Some (e, c4)"
      using c(1) c1(1) False b(1) o'(1) c4(1) by (simp add: error_document_def c3_def c2_def Let_def)
    then show ?thesis using c4(2) same_restD [OF c4(3)] c(3-5) c1(3-5) by (simp add: c3_def c2_def)
  qed
qed


lemma status_body_ok:
  assumes "ready con" "env_ok ev conf"
  shows "\<exists>con'. status_body ev conf e con = Some (e, con') \<and> ready con' \<and> re_http_method con' = re_http_method con
           \<and> re_http_version con' = re_http_version con \<and> re_http_status con' = re_http_status con
           \<and> (re_http_status con \<in> {204, 205, 304} \<longrightarrow> re_file_finished con' \<and> out_octets (re_out con') = [])"
proof -
  note r = readyD [OF assms(1)]
  consider (none) "re_http_status con \<in> {204, 205, 304}"
    | (as_is) "re_http_status con \<notin> {204, 205, 304}"
        "re_http_status con < 400 \<or> 600 \<le> re_http_status con
         \<or> re_mode con \<noteq> DIRECT \<and> (\<not> rc_error_intercept conf \<or> re_error_handler_saved_status con \<noteq> 0)"
    | (doc) "re_http_status con \<notin> {204, 205, 304}"
        "\<not> (re_http_status con < 400 \<or> 600 \<le> re_http_status con)"
        "\<not> (re_mode con \<noteq> DIRECT \<and> (\<not> rc_error_intercept conf \<or> re_error_handler_saved_status con \<noteq> 0))"
    by blast
  then show ?thesis
  proof cases
    case none
    define c where "c = (clear_queue (set_chunked False (con\<lparr>re_parsed_response := re_parsed_response con - {HTTP_CONTENT_LENGTH}\<rparr>)))
      \<lparr>re_file_finished := True\<rparr>"
    have f: "re_headers c = re_headers con" "re_fixed c = re_fixed con" by (simp_all add: c_def)
    have rest: "rest_ok c" "out_octets (re_out c) = []"
      using r(2) unfolding rest_ok_def c_def by auto
    have "ready c" using ready_cong [OF assms(1) f rest(1)] .
    moreover have "status_body ev conf e con = Some (e, c)" using none by (simp add: status_body_def c_def Let_def)
    ultimately show ?thesis using rest(2) by (simp add: c_def)
  next
    case as_is
    then have "status_body ev conf e con = Some (e, con)" unfolding status_body_def by auto
    then show ?thesis using as_is(1) assms(1) by simp
  next
    case doc
    then have "status_body ev conf e con = error_document ev conf e con" unfolding status_body_def by (simp only: if_False)
    then show ?thesis using doc(1) error_document_ok [OF assms, of e] by auto
  qed
qed

section \<open>Framing\<close>

text \<open>The values that the header sends under a name.\<close>

definition sent_values :: "string \<Rightarrow> (string \<times> string) list \<Rightarrow> string list" where
  "sent_values n ls = map snd (filter (\<lambda>l. ckey (fst l) = ckey n) ls)"

text \<open>
  How a client finds the end of the body: there is none after some status codes and after
  \<open>HEAD\<close>; otherwise one length, or the chunked coding, or the end of the connection.
\<close>

definition framed :: "response_con \<Rightarrow> (string \<times> string) list \<Rightarrow> bool" where
  "framed con ls \<longleftrightarrow>
     (let body = out_octets (re_out con) in
      if re_http_method con = HTTP_METHOD_HEAD then body = [] \<and> re_file_finished con \<and> \<not> o_chunked (re_out con)
      else if re_http_status con \<in> {204, 304} then
        body = [] \<and> re_file_finished con \<and> sent_values ''Content-Length'' ls = [] \<and> sent_values ''Transfer-Encoding'' ls = []
      else if re_file_finished con then
        sent_values ''Content-Length'' ls = [itostr [] (int (length body))] \<and> sent_values ''Transfer-Encoding'' ls = []
      else if re_http_version con = HTTP_VERSION_1_1 then
        o_chunked (re_out con) \<and> sent_values ''Transfer-Encoding'' ls = [''chunked''] \<and> sent_values ''Content-Length'' ls = []
        \<and> (\<exists>s. body = (if s = [] then [] else frame True s))
      else \<not> re_keep_alive con \<and> sent_values ''Connection'' ls = [''close''] \<and> sent_values ''Content-Length'' ls = []
        \<and> sent_values ''Transfer-Encoding'' ls = [])"

lemma sent_values_simps [simp]:
  "sent_values n [] = []" "sent_values n (xs @ ys) = sent_values n xs @ sent_values n ys"
  "sent_values n (l # ls) = (if ckey (fst l) = ckey n then [snd l] else []) @ sent_values n ls"
  by (simp_all add: sent_values_def)

lemma sent_line_key: "l \<in> set (sent_line st d) \<Longrightarrow> ckey (fst l) = entry_key d"
  by (auto simp: sent_line.simps Let_def entry_key_def split: if_splits)

lemma sent_values_other: "entry_key d \<noteq> ckey n \<Longrightarrow> sent_values n (sent_line st d) = []"
  using sent_line_key [of _ st d] by (force simp: sent_values_def filter_empty_conv)

lemma sent_values_absent: "\<forall>d \<in> set ds. entry_key d \<noteq> ckey n \<Longrightarrow> sent_values n (sent_lines st ds) = []"
  by (induction ds) (simp_all add: sent_lines_def sent_values_other)

lemma sent_lines_append [simp]: "sent_lines st (xs @ ys) = sent_lines st xs @ sent_lines st ys"
  by (simp add: sent_lines_def)

lemma sent_lines_one [simp]: "sent_lines st [d] = sent_line st d"
  by (simp add: sent_lines_def)

lemma own_lines_values:
  "n \<in> framing_names \<Longrightarrow> sent_values n (own_lines gmt conf ts ls) = []"
  by (auto simp: own_lines_def framing_names_def to_lower_def is_upper_def set_bit5_def)

lemma registered_line:
  "sent_line st (registered RESP_FIXED_HEADER_CONNECTION_CLOSE) = [(''Connection'', ''close'')]"
  "sent_line st (registered RESP_FIXED_HEADER_CONNECTION_KEEPALIVE) = [(''Connection'', ''keep-alive'')]"
  "sent_line st (registered RESP_FIXED_HEADER_CONNECTION_UPGRAGE) = [(''Connection'', ''upgrade'')]"
  "sent_line st (registered RESP_FIXED_HEADER_TRANSFER_ENCODING_CHUNKED) = [(''Transfer-Encoding'', ''chunked'')]"
  by (simp_all add: registered_def http_response_fixed_header_register_def http_response_fixed_header_register_once_def
      sent_line.simps Let_def strncasecmp_eq_def strcasecmp_eq_def cstr_def to_lower_def is_upper_def set_bit5_def)

lemma length_line:
  assumes "du_key d = Some ''Content-Length''" "du_value d = Some v" "v \<noteq> []"
  shows "sent_line st d = [(''Content-Length'', v)]"
  using assms by (simp add: sent_line.simps Let_def strncasecmp_eq_def strcasecmp_eq_def cstr_def to_lower_def is_upper_def set_bit5_def)


text \<open>The state of a response when only the entry of the connection is missing.\<close>

definition settled :: "response_con \<Rightarrow> bool" where
  "settled con \<longleftrightarrow> headers_ok con \<and> absent con ''Connection'' \<and> cq_wf (o_queue (re_out con))
     \<and> HTTP_UPGRADE \<notin> re_parsed_response con
     \<and> (let body = out_octets (re_out con) in
        if re_http_method con = HTTP_METHOD_HEAD then body = [] \<and> re_file_finished con \<and> \<not> o_chunked (re_out con)
        else if re_http_status con \<in> {204, 304} then
          body = [] \<and> re_file_finished con \<and> absent con ''Content-Length'' \<and> absent con ''Transfer-Encoding''
        else if re_file_finished con then
          absent con ''Transfer-Encoding'' \<and> (\<exists>es d. entries con = es @ [d] \<and> (\<forall>e \<in> set es. entry_key e \<noteq> ckey ''Content-Length'')
            \<and> du_key d = Some ''Content-Length'' \<and> du_value d = Some (itostr [] (int (length body))))
        else if re_http_version con = HTTP_VERSION_1_1 then
          o_chunked (re_out con) \<and> absent con ''Content-Length''
          \<and> (\<exists>es. entries con = es @ [registered RESP_FIXED_HEADER_TRANSFER_ENCODING_CHUNKED]
              \<and> (\<forall>e \<in> set es. entry_key e \<noteq> ckey ''Transfer-Encoding''))
          \<and> (\<exists>s. body = (if s = [] then [] else frame True s))
        else \<not> re_keep_alive con \<and> absent con ''Content-Length'' \<and> absent con ''Transfer-Encoding'')
     \<and> length (out_octets (re_out con)) < 2 ^ 63"

lemma registered_key:
  "entry_key (registered RESP_FIXED_HEADER_TRANSFER_ENCODING_CHUNKED) = ckey ''Transfer-Encoding''"
  "entry_key (registered RESP_FIXED_HEADER_CONNECTION_CLOSE) = ckey ''Connection''"
  "entry_key (registered RESP_FIXED_HEADER_CONNECTION_KEEPALIVE) = ckey ''Connection''"
  by (simp_all add: registered_def entry_key_def http_response_fixed_header_register_def
      http_response_fixed_header_register_once_def Let_def)

lemma framing_keys:
  "ckey ''Connection'' \<noteq> ckey ''Content-Length''" "ckey ''Connection'' \<noteq> ckey ''Transfer-Encoding''"
  "ckey ''Content-Length'' \<noteq> ckey ''Transfer-Encoding''"
  by (simp_all add: to_lower_def is_upper_def set_bit5_def)

lemma settled_framed:
  assumes "settled con"
  shows "framed con (header_lines gmt conf ts con)"
proof -
  let ?st = "re_http_status con" and ?c = "connection_entry conf con" and ?body = "out_octets (re_out con)"
  have up: "HTTP_UPGRADE \<notin> re_parsed_response con" using assms by (simp add: settled_def)
  have conn: "\<forall>d \<in> set ?c. entry_key d \<noteq> ckey ''Content-Length''" "\<forall>d \<in> set ?c. entry_key d \<noteq> ckey ''Transfer-Encoding''"
    using up framing_keys by (auto simp: connection_entry_def registered_key simp del: ckey_simps)
  have vals: "sent_values n (header_lines gmt conf ts con) = sent_values n (sent_lines ?st (entries con)) @ sent_values n (sent_lines ?st ?c)"
    if "n \<in> framing_names" for n
    using own_lines_values [OF that] by (simp add: header_lines_def Let_def)
  have v: "sent_values ''Content-Length'' (header_lines gmt conf ts con) = sent_values ''Content-Length'' (sent_lines ?st (entries con))"
    "sent_values ''Transfer-Encoding'' (header_lines gmt conf ts con) = sent_values ''Transfer-Encoding'' (sent_lines ?st (entries con))"
    "sent_values ''Connection'' (header_lines gmt conf ts con)
       = sent_values ''Connection'' (sent_lines ?st (entries con)) @ sent_values ''Connection'' (sent_lines ?st ?c)"
    using vals [of "''Content-Length''"] vals [of "''Transfer-Encoding''"] vals [of "''Connection''"]
      sent_values_absent [OF conn(1)] sent_values_absent [OF conn(2)] by (simp_all add: framing_names_def)
  have ab: "sent_values n (sent_lines ?st (entries con)) = []" if "absent con n" for n
    using sent_values_absent that by (simp add: absent_def)
  have last: "sent_values n (sent_lines ?st (es @ [d])) = sent_values n (sent_line ?st d)" if "\<forall>e \<in> set es. entry_key e \<noteq> ckey n" for n es d
    using sent_values_absent [OF that] by simp
  note s = assms [unfolded settled_def Let_def]
  consider (hd) "re_http_method con = HTTP_METHOD_HEAD"
    | (none) "re_http_method con \<noteq> HTTP_METHOD_HEAD" "?st \<in> {204, 304}"
    | (fin) "re_http_method con \<noteq> HTTP_METHOD_HEAD" "?st \<notin> {204, 304}" "re_file_finished con"
    | (chunked) "re_http_method con \<noteq> HTTP_METHOD_HEAD" "?st \<notin> {204, 304}" "\<not> re_file_finished con" "re_http_version con = HTTP_VERSION_1_1"
    | (close) "re_http_method con \<noteq> HTTP_METHOD_HEAD" "?st \<notin> {204, 304}" "\<not> re_file_finished con" "re_http_version con \<noteq> HTTP_VERSION_1_1"
    by blast
  then show ?thesis
  proof cases
    case hd
    then show ?thesis using s by (simp add: framed_def)
  next
    case none
    then show ?thesis using s ab v(1,2) by (simp add: framed_def)
  next
    case fin
    then obtain es d where d: "absent con ''Transfer-Encoding''" "entries con = es @ [d]"
        "\<forall>e \<in> set es. entry_key e \<noteq> ckey ''Content-Length''"
        "du_key d = Some ''Content-Length''" "du_value d = Some (itostr [] (int (length ?body)))" using s by auto
    have "int (length ?body) < 2 ^ 63" using s by simp
    then have "itostr [] (int (length ?body)) \<noteq> []" using itostr_length [of "int (length ?body)"] by auto
    then have "sent_line ?st d = [(''Content-Length'', itostr [] (int (length ?body)))]" by (rule length_line [OF d(4,5)])
    then have "sent_values ''Content-Length'' (header_lines gmt conf ts con) = [itostr [] (int (length ?body))]"
      unfolding v(1) d(2) last [OF d(3)] by simp
    then show ?thesis using fin ab [OF d(1)] v(2) by (simp add: framed_def)
  next
    case chunked
    then obtain es where d: "o_chunked (re_out con)" "absent con ''Content-Length''"
        "entries con = es @ [registered RESP_FIXED_HEADER_TRANSFER_ENCODING_CHUNKED]"
        "\<forall>e \<in> set es. entry_key e \<noteq> ckey ''Transfer-Encoding''" "\<exists>s. ?body = (if s = [] then [] else frame True s)"
      using s by auto
    have "sent_values ''Transfer-Encoding'' (header_lines gmt conf ts con) = [''chunked'']"
      unfolding v(2) d(3) last [OF d(4)] by (simp add: registered_line)
    then show ?thesis using chunked ab [OF d(2)] v(1) d(1,5) by (simp add: framed_def Let_def)
  next
    case close
    then have d: "\<not> re_keep_alive con" "absent con ''Content-Length''" "absent con ''Transfer-Encoding''" "absent con ''Connection''"
      using s by auto
    have "?c = [registered RESP_FIXED_HEADER_CONNECTION_CLOSE]" using d(1) up by (simp add: connection_entry_def keep_alive_after_def)
    then have "sent_values ''Connection'' (header_lines gmt conf ts con) = [''close'']"
      unfolding v(3) ab [OF d(4)] by (simp add: registered_line)
    then show ?thesis using close d ab v(1,2) by (simp add: framed_def Let_def)
  qed
qed


lemma cleared_used: "buffer_wf b \<Longrightarrow> buffer_wf (b\<lparr>b_used := 0\<rparr>) \<and> buffer_content (b\<lparr>b_used := 0\<rparr>) = []"
  by (simp add: buffer_wf_def buffer_content_def)

lemma copy_int_ok:
  assumes "buffer_wf b" "- (2 ^ 63) \<le> v" "v < 2 ^ 63"
  shows "\<exists>b'. buffer_copy_int b v = Some b' \<and> buffer_wf b' \<and> buffer_content b' = itostr [] v"
proof -
  have "fits 20" by (simp add: fits_def PTRDIFF_MAX_def)
  then show ?thesis
    using add_int [of "b\<lparr>b_used := 0\<rparr>" 20 v] cleared_used [OF assms(1)] assms(2,3) by (auto simp: buffer_copy_int_def)
qed

definition bodyless :: "response_con \<Rightarrow> bool" where
  "bodyless con \<longleftrightarrow> 100 \<le> re_http_status con \<and> re_http_status con < 200 \<or> re_http_status con \<in> {204, 304}"

lemma set_content_length_eq:
  assumes "HTTP_CONTENT_LENGTH \<notin> re_parsed_response con" "HTTP_TRANSFER_ENCODING \<notin> re_parsed_response con"
    "chunkqueue_length (o_queue (re_out con)) = Some qlen"
  shows "set_content_length con =
     (if bodyless con then drop_value con ''Content-Length''
      else if 0 < qlen \<or> re_http_method con \<noteq> HTTP_METHOD_HEAD then do {
          b \<leftarrow> buffer_copy_int (re_tmp_buf con) qlen;
          response_header_overwrite (con\<lparr>re_tmp_buf := b\<rparr>) ''Content-Length'' (buffer_content b)
        }
      else Some con)"
  unfolding set_content_length_def bodyless_def using assms by (simp only: simp_thms if_False bind.bind_lunit)

lemma set_content_length_ok:
  assumes "ready con"
  shows "\<exists>con'. set_content_length con = Some con' \<and> headers_ok con' \<and> absent con' ''Connection'' \<and> absent con' ''Transfer-Encoding''
           \<and> re_out con' = re_out con \<and> re_http_method con' = re_http_method con \<and> re_http_version con' = re_http_version con
           \<and> re_http_status con' = re_http_status con \<and> re_file_finished con' = re_file_finished con
           \<and> re_parsed_response con' = re_parsed_response con
           \<and> (if bodyless con \<or> re_http_method con = HTTP_METHOD_HEAD \<and> out_octets (re_out con) = [] then absent con' ''Content-Length''
              else \<exists>d. entries con' = entries con @ [d] \<and> du_key d = Some ''Content-Length''
                     \<and> du_value d = Some (itostr [] (int (length (out_octets (re_out con))))))"
proof -
  note r = readyD [OF assms]
  let ?n = "int (length (out_octets (re_out con)))"
  have rr: "HTTP_CONTENT_LENGTH \<notin> re_parsed_response con" "HTTP_TRANSFER_ENCODING \<notin> re_parsed_response con" "cq_wf (o_queue (re_out con))"
      "length (out_octets (re_out con)) < 2 ^ 62" "buffer_wf (re_tmp_buf con)"
    using r(2) by (auto simp: rest_ok_def out_wf_def)
  have q: "chunkqueue_length (o_queue (re_out con)) = Some ?n" using chunkqueue_length_ok [OF rr(3)] by (simp add: out_octets_def)
  have nn: "- (2 ^ 63) \<le> ?n" "?n < 2 ^ 63" using rr(4) by simp_all
  consider (b) "bodyless con" | (h) "\<not> bodyless con" "re_http_method con = HTTP_METHOD_HEAD" "out_octets (re_out con) = []"
    | (l) "\<not> bodyless con" "\<not> (re_http_method con = HTTP_METHOD_HEAD \<and> out_octets (re_out con) = [])" by blast
  then show ?thesis
  proof cases
    case b
    obtain c where c: "drop_value con ''Content-Length'' = Some c" "headers_ok c" "same_rest con c"
        "entries c = map (\<lambda>e. if entry_key e = ckey ''Content-Length'' then e\<lparr>du_value := None\<rparr> else e) (entries con)"
      using drop_value_ok [OF r(1) name_simps(2)] by blast
    have "absent c n = absent con n" for n using absent_map [OF c(4)] by (simp add: entry_key_def)
    then show ?thesis
      using b c(1,2) r same_restD [OF c(3)] set_content_length_eq [OF rr(1,2) q] by simp
  next
    case h
    then have "set_content_length con = Some con" using set_content_length_eq [OF rr(1,2) q] by simp
    then show ?thesis using h r by simp
  next
    case l
    obtain t where t: "buffer_copy_int (re_tmp_buf con) ?n = Some t" "buffer_wf t" "buffer_content t = itostr [] ?n"
      using copy_int_ok [OF rr(5) nn] by blast
    define c where "c = con\<lparr>re_tmp_buf := t\<rparr>"
    have f: "re_headers c = re_headers con" "re_fixed c = re_fixed con" by (simp_all add: c_def)
    have hc: "headers_ok c" using headers_cong [OF f] r(1) by simp
    have ab: "absent c n = absent con n" for n by (rule absent_cong [OF f])
    obtain c' d where c': "response_header_overwrite c ''Content-Length'' (itostr [] ?n) = Some c'" "headers_ok c'" "same_rest c c'"
        "entries c' = entries c @ [d]" "du_key d = Some ''Content-Length''" "du_value d = Some (itostr [] ?n)"
      using response_header_overwrite_ok [OF hc name_simps(2), of "itostr [] ?n"] r(5) ab by auto
    have e: "entries c = entries con" by (rule entries_cong [OF f])
    have "0 < ?n \<or> re_http_method con \<noteq> HTTP_METHOD_HEAD" using l(2) by auto
    then have "set_content_length con = Some c'"
      using l(1) t(1,3) c'(1) set_content_length_eq [OF rr(1,2) q] by (simp add: c_def)
    moreover have "absent c' ''Connection''" "absent c' ''Transfer-Encoding''"
      using r(3,4) ab absent_append [OF c'(4)] c'(5) framing_keys by (simp_all del: ckey_simps)
    ultimately show ?thesis
      using l c'(2,4-6) e same_restD [OF c'(3)] by (simp add: c_def del: absent_append) blast
  qed
qed

lemma begin_chunked_ok:
  assumes "ready con"
  shows "\<exists>con'. begin_chunked con = Some con' \<and> headers_ok con' \<and> absent con' ''Connection'' \<and> absent con' ''Content-Length''
           \<and> entries con' = entries con @ [registered RESP_FIXED_HEADER_TRANSFER_ENCODING_CHUNKED]
           \<and> cq_wf (o_queue (re_out con')) \<and> o_chunked (re_out con')
           \<and> out_octets (re_out con') = (if out_octets (re_out con) = [] then [] else frame True (out_octets (re_out con)))
           \<and> re_http_method con' = re_http_method con \<and> re_http_version con' = re_http_version con
           \<and> re_http_status con' = re_http_status con \<and> re_file_finished con' = re_file_finished con
           \<and> re_parsed_response con' = re_parsed_response con"
proof -
  note r = readyD [OF assms]
  let ?s = "out_octets (re_out con)"
  have rr: "cq_wf (o_queue (re_out con))" "length ?s < 2 ^ 62" "buffer_wf (o_tmp (re_out con))"
    using r(2) by (auto simp: rest_ok_def out_wf_def)
  have q: "chunkqueue_length (o_queue (re_out con)) = Some (int (length ?s))" using chunkqueue_length_ok [OF rr(1)] by (simp add: out_octets_def)
  let ?frame = "if int (length ?s) \<noteq> 0 then do {
         b \<leftarrow> chunk_len_line (o_tmp (re_out (set_chunked True con))) (nat (int (length ?s)));
         (cq, b) \<leftarrow> chunkqueue_prepend_buffer (o_queue (re_out (set_chunked True con))) b;
         cq \<leftarrow> chunkqueue_append_mem cq CRLF;
         Some ((set_chunked True con)\<lparr>re_out := (re_out (set_chunked True con))\<lparr>o_queue := cq, o_tmp := b\<rparr>\<rparr>)
       } else Some (set_chunked True con)"
  have "\<exists>out'. ?frame = Some (con\<lparr>re_out := out'\<rparr>) \<and> cq_wf (o_queue out') \<and> o_chunked out'
      \<and> out_octets out' = (if ?s = [] then [] else frame True ?s)"
  proof (cases "?s = []")
    case True
    then show ?thesis using rr(1) by (intro exI [of _ "(re_out con)\<lparr>o_chunked := True\<rparr>"]) (simp add: set_chunked_def out_octets_def)
  next
    case False
    have "length ?s < 2 ^ 64" using rr(2) by simp
    then obtain b where b: "chunk_len_line (o_tmp (re_out con)) (length ?s) = Some b" "buffer_wf b" "buffer_content b = hex_string (length ?s) @ CRLF"
      using chunk_len_line_ok [OF rr(3)] by blast
    obtain cq m where cq: "chunkqueue_prepend_buffer (o_queue (re_out con)) b = Some (cq, m)" "cq_wf cq"
        "cq_octets cq = map MemByte (buffer_content b) @ ?s"
      using prepend_buffer_ok [OF rr(1) b(2)] by (auto simp: out_octets_def)
    have "fits (length CRLF)" by (rule fits_mono [OF fits_18]) simp
    then obtain cq' where cq': "chunkqueue_append_mem cq CRLF = Some cq'" "cq_wf cq'" "cq_octets cq' = cq_octets cq @ map MemByte CRLF"
      using append_mem_ok [OF cq(2)] by blast
    let ?out = "(re_out con)\<lparr>o_chunked := True, o_queue := cq', o_tmp := m\<rparr>"
    have "?frame = Some (con\<lparr>re_out := ?out\<rparr>)" using False b(1) cq(1) cq'(1) by (simp add: set_chunked_def)
    then show ?thesis using False cq(3) cq' b(3)
      by (intro exI [of _ ?out]) (simp add: out_octets_def frame_def)
  qed
  then obtain out' where o': "?frame = Some (con\<lparr>re_out := out'\<rparr>)" "cq_wf (o_queue out')" "o_chunked out'"
      "out_octets out' = (if ?s = [] then [] else frame True ?s)" by blast
  define c where "c = con\<lparr>re_out := out'\<rparr>"
  have f: "re_headers c = re_headers con" "re_fixed c = re_fixed con" by (simp_all add: c_def)
  have hc: "headers_ok c" using headers_cong [OF f] r(1) by simp
  have ab: "absent c n = absent con n" for n by (rule absent_cong [OF f])
  have none: "change_header c ''Transfer-Encoding'' (appended_value ''chunked'') = Some None"
    using change_header_absent [OF hc] ab r(4) by blast
  have "\<forall>d \<in> set (entries c). entry_key d \<noteq> entry_key (registered RESP_FIXED_HEADER_TRANSFER_ENCODING_CHUNKED)"
    using r(4) ab [of "''Transfer-Encoding''"] unfolding registered_key absent_def by blast
  then obtain c' where c': "response_header_fixed_overwrite c RESP_FIXED_HEADER_TRANSFER_ENCODING_CHUNKED = Some c'" "headers_ok c'"
      "same_rest c c'" "entries c' = entries c @ [registered RESP_FIXED_HEADER_TRANSFER_ENCODING_CHUNKED]"
    using response_header_fixed_overwrite_ok [OF hc] by blast
  have "begin_chunked con = Some c'"
    using q o'(1) none c'(1) by (simp add: begin_chunked_def response_header_fixed_append_def c_def [symmetric])
  moreover have "absent c' ''Connection''" "absent c' ''Content-Length''"
    using r(3,5) ab absent_append [OF c'(4)] registered_key(1) framing_keys by (simp_all del: ckey_simps)
  ultimately show ?thesis
    using c'(2,4) entries_cong [OF f] same_restD [OF c'(3)] o'(2-4) by (simp add: c_def del: absent_append)
qed


text \<open>A response of the server's own when the body is settled: its length, the chunked coding, or the end of the connection.\<close>

lemma head_response_ok:
  assumes "headers_ok con" "cq_wf (o_queue (re_out con))" "out_wf (re_out con)" "HTTP_TRANSFER_ENCODING \<notin> re_parsed_response con"
    "re_http_method con = HTTP_METHOD_HEAD"
  shows "head_response con = Some (set_chunked False (clear_queue (con\<lparr>re_file_finished := True\<rparr>)))"
  using assms by (simp add: head_response_def Let_def)

lemma clear_queue_cq: "cq_wf (o_queue (re_out con)) \<Longrightarrow> cq_wf (o_queue (re_out (clear_queue con))) \<and> out_octets (re_out (clear_queue con)) = []"
  using reset_ok by (simp add: clear_queue_def out_octets_def)

lemma follow_backend_fields [simp]:
  "re_headers (follow_backend c) = re_headers c" "re_fixed (follow_backend c) = re_fixed c" "re_out (follow_backend c) = re_out c"
  "re_http_method (follow_backend c) = re_http_method c" "re_http_version (follow_backend c) = re_http_version c"
  "re_http_status (follow_backend c) = re_http_status c" "re_file_finished (follow_backend c) = re_file_finished c"
  "re_parsed_response (follow_backend c) = re_parsed_response c"
  by (simp_all add: follow_backend_def)

lemma follow_backend_headers [simp]:
  "headers_ok (follow_backend c) = headers_ok c" "absent (follow_backend c) n = absent c n" "entries (follow_backend c) = entries c"
  using headers_cong [of "follow_backend c" c] absent_cong [of "follow_backend c" c n] entries_cong [of "follow_backend c" c] by simp_all

lemma set_unfinished_ok:
  assumes "ready con" "re_http_method con \<noteq> HTTP_METHOD_CONNECT"
  shows "\<exists>con'. set_unfinished con = Some con' \<and> headers_ok con' \<and> absent con' ''Connection'' \<and> absent con' ''Content-Length''
           \<and> cq_wf (o_queue (re_out con')) \<and> length (out_octets (re_out con')) < 2 ^ 63
           \<and> re_http_method con' = re_http_method con \<and> re_http_version con' = re_http_version con
           \<and> re_http_status con' = re_http_status con \<and> re_file_finished con' = re_file_finished con
           \<and> re_parsed_response con' = re_parsed_response con
           \<and> (if re_http_version con = HTTP_VERSION_1_1
              then o_chunked (re_out con') \<and> entries con' = entries con @ [registered RESP_FIXED_HEADER_TRANSFER_ENCODING_CHUNKED]
                \<and> (\<exists>s. out_octets (re_out con') = (if s = [] then [] else frame True s))
              else \<not> re_keep_alive con' \<and> absent con' ''Transfer-Encoding'')"
proof -
  note r = readyD [OF assms(1)]
  have rr: "{HTTP_CONTENT_LENGTH, HTTP_TRANSFER_ENCODING, HTTP_UPGRADE} \<inter> re_parsed_response con = {}"
      "length (out_octets (re_out con)) < 2 ^ 62" "cq_wf (o_queue (re_out con))"
    using r(2) by (auto simp: rest_ok_def out_wf_def)
  show ?thesis
  proof (cases "re_http_version con = HTTP_VERSION_1_1")
    case True
    obtain c where c: "begin_chunked con = Some c" "headers_ok c" "absent c ''Connection''" "absent c ''Content-Length''"
        "entries c = entries con @ [registered RESP_FIXED_HEADER_TRANSFER_ENCODING_CHUNKED]"
        "cq_wf (o_queue (re_out c))" "o_chunked (re_out c)"
        "out_octets (re_out c) = (if out_octets (re_out con) = [] then [] else frame True (out_octets (re_out con)))"
        "re_http_method c = re_http_method con" "re_http_version c = re_http_version con"
        "re_http_status c = re_http_status con" "re_file_finished c = re_file_finished con" "re_parsed_response c = re_parsed_response con"
      using begin_chunked_ok [OF assms(1)] by blast
    have "length (hex_string (length (out_octets (re_out con)))) \<le> 16" using hex_string_length rr(2) by simp
    then have len: "length (out_octets (re_out c)) < 2 ^ 63" using rr(2) by (simp add: c(8) frame_def)
    have "set_unfinished con = Some (follow_backend c)"
      using True rr(1) assms(2) c(1) by (simp add: set_unfinished_def)
    moreover have "\<exists>s. out_octets (re_out c) = (if s = [] then [] else frame True s)" using c(8) by blast
    ultimately show ?thesis using True c(2-7,9-13) len by (simp del: absent_append)
  next
    case False
    define c where "c = con\<lparr>re_keep_alive := False\<rparr>"
    have f: "re_headers c = re_headers con" "re_fixed c = re_fixed con" by (simp_all add: c_def)
    have "set_unfinished con = Some (follow_backend c)"
      using False rr(1) assms(2) by (simp add: set_unfinished_def c_def)
    moreover have "\<not> re_keep_alive (follow_backend c)" by (simp add: follow_backend_def c_def)
    moreover have "headers_ok c" using headers_cong [OF f] r(1) by simp
    ultimately show ?thesis
      using False rr r(3-5) absent_cong [OF f] by (intro exI [of _ "follow_backend c"]) (simp add: c_def)
  qed
qed


text \<open>
  A response that can be given a length: the state between the body and the header, which the
  response-start hooks of the plugins (they add header fields) have to keep.
\<close>

definition answerable :: "response_con \<Rightarrow> bool" where
  "answerable con \<longleftrightarrow> ready con \<and> re_http_method con \<noteq> HTTP_METHOD_CONNECT \<and> 200 \<le> re_http_status con
     \<and> (re_http_status con \<in> {204, 205, 304} \<longrightarrow> re_file_finished con \<and> out_octets (re_out con) = [])"

definition hooks_ok :: "response_env \<Rightarrow> bool" where
  "hooks_ok ev \<longleftrightarrow> (\<forall>con. answerable con \<longrightarrow>
     (case ev_response_start ev con of (rc, con') \<Rightarrow> (rc = HANDLER_GO_ON \<or> rc = HANDLER_FINISHED) \<and> answerable con'))"

text \<open>A response of the server's own, before it is prepared.\<close>

definition own_response :: "response_con \<Rightarrow> bool" where
  "own_response con \<longleftrightarrow> ready con \<and> absent con ''Allow'' \<and> re_http_method con \<noteq> HTTP_METHOD_CONNECT
     \<and> (re_http_status con = 0 \<or> 200 \<le> re_http_status con)"

lemma settle_ok:
  assumes "answerable con"
  shows "\<exists>con' con''. (if re_file_finished con then set_content_length con else set_unfinished con) = Some con'
           \<and> head_response con' = Some con'' \<and> settled con'' \<and> re_http_status con'' = re_http_status con
           \<and> re_http_method con'' = re_http_method con"
proof -
  have a: "ready con" "re_http_method con \<noteq> HTTP_METHOD_CONNECT" "200 \<le> re_http_status con"
    "re_http_status con \<in> {204, 205, 304} \<longrightarrow> re_file_finished con \<and> out_octets (re_out con) = []"
    using assms by (auto simp: answerable_def)
  note r = readyD [OF a(1)]
  have rr: "HTTP_UPGRADE \<notin> re_parsed_response con" "HTTP_TRANSFER_ENCODING \<notin> re_parsed_response con" "out_wf (re_out con)"
      "cq_wf (o_queue (re_out con))" "length (out_octets (re_out con)) < 2 ^ 62" "\<not> o_chunked (re_out con)"
    using r(2) by (auto simp: rest_ok_def out_wf_def)
  obtain c where c: "(if re_file_finished con then set_content_length con else set_unfinished con) = Some c" "headers_ok c"
      "absent c ''Connection''" "cq_wf (o_queue (re_out c))" "length (out_octets (re_out c)) < 2 ^ 63"
      "re_http_method c = re_http_method con" "re_http_version c = re_http_version con"
      "re_http_status c = re_http_status con" "re_file_finished c = re_file_finished con"
      "re_parsed_response c = re_parsed_response con"
      "re_http_method con \<noteq> HTTP_METHOD_HEAD \<longrightarrow> settled c"
  proof (cases "re_file_finished con")
    case True
    obtain c where c: "set_content_length con = Some c" "headers_ok c" "absent c ''Connection''" "absent c ''Transfer-Encoding''"
        "re_out c = re_out con" "re_http_method c = re_http_method con" "re_http_version c = re_http_version con"
        "re_http_status c = re_http_status con" "re_file_finished c = re_file_finished con" "re_parsed_response c = re_parsed_response con"
        "if bodyless con \<or> re_http_method con = HTTP_METHOD_HEAD \<and> out_octets (re_out con) = [] then absent c ''Content-Length''
              else \<exists>d. entries c = entries con @ [d] \<and> du_key d = Some ''Content-Length''
                     \<and> du_value d = Some (itostr [] (int (length (out_octets (re_out con)))))"
      using set_content_length_ok [OF a(1)] by blast
    have "settled c" if "re_http_method con \<noteq> HTTP_METHOD_HEAD"
    proof (cases "re_http_status con \<in> {204, 304}")
      case True
      then have cl: "absent c ''Content-Length''" using c(11) by (simp add: bodyless_def)
      have "out_octets (re_out con) = []" using True a(4) by auto
      then show ?thesis
        using True that c(2-10) rr cl \<open>re_file_finished con\<close> by (simp add: settled_def Let_def)
    next
      case False
      then have nb: "\<not> (bodyless con \<or> re_http_method con = HTTP_METHOD_HEAD \<and> out_octets (re_out con) = [])"
        using a(3) that by (auto simp: bodyless_def)
      obtain d where d: "entries c = entries con @ [d]" "du_key d = Some ''Content-Length''"
          "du_value d = Some (itostr [] (int (length (out_octets (re_out con)))))"
        using c(11) unfolding if_not_P [OF nb] by blast
      have "\<forall>e \<in> set (entries con). entry_key e \<noteq> ckey ''Content-Length''" using r(5) by (simp add: absent_def)
      then have "\<exists>es d. entries c = es @ [d] \<and> (\<forall>e \<in> set es. entry_key e \<noteq> ckey ''Content-Length'')
            \<and> du_key d = Some ''Content-Length'' \<and> du_value d = Some (itostr [] (int (length (out_octets (re_out con)))))"
        using d by blast
      then show ?thesis
        using False that c(2-10) rr \<open>re_file_finished con\<close>
        unfolding settled_def Let_def by (simp del: ckey_simps absent_append) 
    qed
    then show ?thesis using that [of c] True c(1-10) rr(4,5) by simp
  next
    case False
    obtain c where c: "set_unfinished con = Some c" "headers_ok c" "absent c ''Connection''" "absent c ''Content-Length''"
        "cq_wf (o_queue (re_out c))" "length (out_octets (re_out c)) < 2 ^ 63"
        "re_http_method c = re_http_method con" "re_http_version c = re_http_version con"
        "re_http_status c = re_http_status con" "re_file_finished c = re_file_finished con" "re_parsed_response c = re_parsed_response con"
        "if re_http_version con = HTTP_VERSION_1_1
              then o_chunked (re_out c) \<and> entries c = entries con @ [registered RESP_FIXED_HEADER_TRANSFER_ENCODING_CHUNKED]
                \<and> (\<exists>s. out_octets (re_out c) = (if s = [] then [] else frame True s))
              else \<not> re_keep_alive c \<and> absent c ''Transfer-Encoding''"
      using set_unfinished_ok [OF a(1,2)] by blast
    have st: "re_http_status con \<notin> {204, 205, 304}" using a(4) False by blast
    have te: "\<forall>e \<in> set (entries con). entry_key e \<noteq> ckey ''Transfer-Encoding''" using r(4) by (simp add: absent_def)
    have "settled c" if "re_http_method con \<noteq> HTTP_METHOD_HEAD"
    proof (cases "re_http_version con = HTTP_VERSION_1_1")
      case True
      then have "\<exists>es. entries c = es @ [registered RESP_FIXED_HEADER_TRANSFER_ENCODING_CHUNKED]
              \<and> (\<forall>e \<in> set es. entry_key e \<noteq> ckey ''Transfer-Encoding'')" using c(12) te by auto
      moreover have "o_chunked (re_out c)" "\<exists>s. out_octets (re_out c) = (if s = [] then [] else frame True s)"
        using True c(12) by simp_all
      ultimately show ?thesis
        using False True that st c(2-11) rr(1) unfolding settled_def Let_def by (simp del: ckey_simps absent_append)
    next
      case no: False
      then show ?thesis
        using False that st c(2-12) rr(1) unfolding settled_def Let_def by (simp del: ckey_simps absent_append)
    qed
    then show ?thesis using that [of c] False c(1-3,5-11) by simp
  qed
  show ?thesis
  proof (cases "re_http_method con = HTTP_METHOD_HEAD")
    case False
    then have "head_response c = Some c" using c(6) by (simp add: head_response_def)
    then show ?thesis using False c(1,6,8,11) by simp
  next
    case True
    let ?c = "set_chunked False (clear_queue (c\<lparr>re_file_finished := True\<rparr>))"
    have h: "head_response c = Some ?c" using True c(6,10) rr(2) by (simp add: head_response_def Let_def)
    have f: "re_headers ?c = re_headers c" "re_fixed ?c = re_fixed c" by simp_all
    have q: "cq_wf (o_queue (re_out ?c))" "out_octets (re_out ?c) = []"
      using clear_queue_cq [of "c\<lparr>re_file_finished := True\<rparr>"] c(4) by (simp_all add: set_chunked_def out_octets_def)
    have "settled ?c"
      using True headers_cong [OF f] absent_cong [OF f] c(2,3,6,10) rr(1) q unfolding settled_def Let_def by simp
    moreover have "re_http_status ?c = re_http_status con" "re_http_method ?c = re_http_method con" using c(6,8) by simp_all
    ultimately show ?thesis using c(1) h by blast
  qed
qed

text \<open>All steps up to the header.\<close>

lemma prepare_response_ok:
  assumes "own_response con" "env_ok ev conf" "hooks_ok ev"
  shows "\<exists>con'. prepare_response ev conf e con = Some (0, e, con') \<and> settled con' \<and> 0 \<le> re_http_status con'
           \<and> re_http_status con' < 2 ^ 31"
proof -
  have o: "ready con" "absent con ''Allow''" "re_http_method con \<noteq> HTTP_METHOD_CONNECT"
      "re_http_status con = 0 \<or> 200 \<le> re_http_status con" using assms(1) by (simp_all add: own_response_def)
  obtain c1 where c1: "(if re_mode con = DIRECT then direct_method con else Some con) = Some c1" "ready c1"
      "re_http_method c1 = re_http_method con" "re_http_status c1 = re_http_status con \<or> re_http_status c1 \<in> {200, 501}"
    using direct_method_ok [OF o(1,2)] o(1) by (cases "re_mode con = DIRECT") auto
  define c2 where "c2 = (if re_http_status c1 = 0 then c1\<lparr>re_http_status := 403\<rparr> else c1)"
  have "rest_ok (c1\<lparr>re_http_status := 403\<rparr>)" using readyD(2) [OF c1(2)] by (simp add: rest_ok_def)
  then have r2: "ready c2" using ready_cong [OF c1(2), of "c1\<lparr>re_http_status := 403\<rparr>"] c1(2) by (simp add: c2_def)
  have s2: "200 \<le> re_http_status c2" "re_http_method c2 = re_http_method con" using o(4) c1(3,4) by (auto simp: c2_def)
  obtain c3 where c3: "status_body ev conf e c2 = Some (e, c3)" "ready c3" "re_http_method c3 = re_http_method c2"
      "re_http_status c3 = re_http_status c2"
      "re_http_status c2 \<in> {204, 205, 304} \<longrightarrow> re_file_finished c3 \<and> out_octets (re_out c3) = []"
    using status_body_ok [OF r2 assms(2), of e] by blast
  have "answerable c3" unfolding answerable_def using c3 s2 o(3) by simp
  then obtain rc c4 where c4: "ev_response_start ev c3 = (rc, c4)" "rc = HANDLER_GO_ON \<or> rc = HANDLER_FINISHED" "answerable c4"
    using assms(3) unfolding hooks_ok_def by (cases "ev_response_start ev c3") force
  obtain c5 c6 where c5: "(if re_file_finished c4 then set_content_length c4 else set_unfinished c4) = Some c5"
      "head_response c5 = Some c6" "settled c6" "re_http_status c6 = re_http_status c4"
    using settle_ok [OF c4(3)] by blast
  have "0 \<le> re_http_status c4" "re_http_status c4 < 2 ^ 31" using c4(3) by (auto simp: answerable_def ready_def rest_ok_def)
  moreover have "prepare_response ev conf e con = Some (0, e, c6)"
    using c1(1) c2_def c3(1) c4(1,2) c5(1,2) by (auto simp: prepare_response_def Let_def)
  ultimately show ?thesis using c5(3,4) by simp
qed

section \<open>Properties\<close>

text \<open>
  C9. A response of the server's own that is answered in the ordinary way is sent so that the client
  finds the end of its body, whatever the version and the error documents are: the preparation
  succeeds; a response to \<open>HEAD\<close> or with status 204 or 304 has no body; a complete body is announced
  by exactly one Content-Length with the number of queued octets and no Transfer-Encoding; an
  incomplete one is either chunked, under HTTP/1.1, with its first octets already in a chunk, or
  followed by the end of the connection, which the header says. The header is then written in
  front of the body, and the body is not touched.

  What is assumed: the header table is well-formed and has no \<open>Content-Length\<close>,
  \<open>Transfer-Encoding\<close>, \<open>Connection\<close> or \<open>Allow\<close> field yet, none of the first two nor an upgrade is
  marked as set by a backend, nothing is chunked yet and fewer than 2^62 octets are queued
  (\<open>ready\<close>, \<open>own_response\<close>); the method is any but \<open>CONNECT\<close>, and the status is 0 (not set yet) or
  from 200 on, never an interim 1xx; an error document that opens has a size below 2^61, and the
  prefix of the documents fits a buffer (\<open>env_ok\<close>); the response-start hooks of the plugins keep all
  this, leave a status of 200 or more, and give neither an error nor a wait (\<open>hooks_ok\<close>); the clock is set and
  dates print to 1 to 254 octets. The last part, on the writing of the header, holds when the header
  text fits a buffer.
\<close>

theorem own_response_is_framed:
  assumes "own_response con" "env_ok ev conf" "hooks_ok ev" "date_text gmt" "ts_wf gmt ts" "ts_cur_ts ts \<noteq> 0"
  shows "\<exists>con1. prepare_response ev conf e con = Some (0, e, con1) \<and> framed con1 (header_lines gmt conf ts con1)
     \<and> (fits (length (header_text gmt conf ts con1) + 300) \<longrightarrow>
         (\<exists>ts' con'. connection_handle_write_prepare gmt ev conf e ts con = Some (0, e, ts', con')
            \<and> header_written gmt conf ts con1 con'))"
proof -
  obtain c where c: "prepare_response ev conf e con = Some (0, e, c)" "settled c" "0 \<le> re_http_status c" "re_http_status c < 2 ^ 31"
    using prepare_response_ok [OF assms(1-3)] by blast
  have s: "headers_ok c" "absent c ''Connection''" "cq_wf (o_queue (re_out c))" using c(2) by (simp_all add: settled_def)
  have b: "- (2 ^ 63) \<le> re_http_status c" "re_http_status c < 2 ^ 63" using c(3,4) by simp_all
  have "\<exists>ts' con'. connection_handle_write_prepare gmt ev conf e ts con = Some (0, e, ts', con') \<and> header_written gmt conf ts c con'"
    if "fits (length (header_text gmt conf ts c) + 300)"
    using http_response_write_header_ok [OF s b assms(4-6) that] c(1)
    unfolding connection_handle_write_prepare_def by force
  then show ?thesis using c(1) settled_framed [OF c(2)] by blast
qed

definition plain_response :: response_con where
  "plain_response = \<lparr>re_out = \<lparr>o_queue = chunkqueue_init (None, 0), o_tmp = buffer_init, o_chunked = False, o_bufmin = False\<rparr>,
     re_fixed = http_response_fixed_header_register, re_headers = array_init, re_http_status = 0,
     re_http_method = HTTP_METHOD_GET, re_http_version = HTTP_VERSION_1_1, re_mode = DIRECT, re_keep_alive = True,
     re_keep_alive_idle = 5, re_request_count = 1, re_file_started = False, re_file_finished = False,
     re_parsed_response = {}, re_response_keep_alive = True, re_content_length = -1, re_error_handler_saved_status = 0,
     re_kbytes_per_second = 0, re_bytes_header = 0, re_uri_path = ''/x'', re_physical_path = buffer_init,
     re_etag = buffer_init, re_tmp_buf = buffer_init\<rparr>"

definition plain_env :: response_env where
  "plain_env = \<lparr>ev_open = (\<lambda>p. None), ev_content_type = (\<lambda>p. None), ev_response_start = (\<lambda>c. (HANDLER_GO_ON, c))\<rparr>"

definition plain_conf :: response_conf where
  "plain_conf = \<lparr>rc_max_keep_alive_requests = 16, rc_max_keep_alive_idle = 5, rc_server_tag = ''lighttpd'',
     rc_errorfile_prefix = ''/srv/'', rc_error_intercept = False, rc_follow_symlink = True, rc_range_requests = True\<rparr>"

lemma plain_response_own: "own_response plain_response"
proof -
  have "show_headers plain_response = array_init"
    by (simp add: show_headers_def plain_response_def shown_def array_init_def)
  moreover have "re_fixed plain_response = http_response_fixed_header_register" by (simp add: plain_response_def)
  ultimately have "headers_ok plain_response" "\<And>n. absent plain_response n"
    unfolding headers_ok_def absent_def entries_def array_entries_def using array_init_wf(1)
    by (simp_all add: http_response_fixed_header_register_def http_response_fixed_header_register_once_def
        data_fixed_header_constructor_def Let_def array_init_def del: array_init_wf)
  moreover have "rest_ok plain_response"
    using Chunk.init_ok by (simp add: rest_ok_def plain_response_def out_wf_def out_octets_def)
  ultimately show ?thesis by (simp add: own_response_def ready_def plain_response_def)
qed

lemma own_response_is_framed_witness:
  "\<exists>con1. prepare_response plain_env plain_conf full_disk plain_response = Some (0, full_disk, con1)
     \<and> framed con1 (header_lines (\<lambda>t. ''d'') plain_conf (server_init_ts 1) con1)"
proof -
  have "env_ok plain_env plain_conf" by (auto simp: env_ok_def plain_env_def plain_conf_def intro: fits_small)
  moreover have "hooks_ok plain_env" by (simp add: hooks_ok_def plain_env_def)
  moreover have "date_text (\<lambda>t. ''d'')" by (simp add: date_text_def)
  moreover have "ts_cur_ts (server_init_ts 1) \<noteq> 0" by (simp add: server_init_ts_def)
  ultimately show ?thesis
    using own_response_is_framed [OF plain_response_own _ _ _ server_init_ts_wf] by blast
qed

end
