(* ===== verification/FileResponse.thy ===== *)
theory FileResponse
  imports ResponseStart Etag
begin

text \<open>
  Files as responses, \<open>src/src/http-header-glue.c\<close>: the conditions of a request
  (\<open>http_response_handle_cachable\<close>), byte ranges (\<open>http_response_parse_range\<close>) and
  \<open>http_response_send_file\<close>, which decides between them and puts the file on the write queue.

  Parameters are what the stat cache knows of a path (\<open>fv_stat\<close>: the error is true for \<open>ENOENT\<close>)
  and \<open>strptime\<close> and \<open>mktime\<close> of the C library, on a broken-down time of any type.  The sum of the
  lengths of ranges is an integer, as in the chunk queues.
\<close>

section \<open>Operations\<close>

record 'tm date_libc =
  dl_tm :: 'tm
  dl_strptime :: "string \<Rightarrow> 'tm \<Rightarrow> bool \<times> 'tm"
  dl_mktime :: "'tm \<Rightarrow> int \<times> 'tm"



subsection \<open>Conditions\<close>

text \<open>\<open>If-Modified-Since\<close>, with the pointer to the time of the file.  The buffer on the stack has room for 30 bytes.\<close>

definition unmodified_since :: "'tm date_libc \<Rightarrow> response_con \<Rightarrow> string \<Rightarrow> string option \<Rightarrow> (handler_t \<times> response_con) option" where
  "unmodified_since dl con since mtime = do {
     let used = takeWhile (\<lambda>c. c \<noteq> CHR '';'') since;
     m \<leftarrow> mtime;
     let m = cstr m;
     if take (length used) m = used
     then Some (HANDLER_FINISHED, if length used = length m then con\<lparr>re_http_status := 304\<rparr> else con)
     else if 30 \<le> length used then Some (HANDLER_GO_ON, con)
     else do {
       let (ok, tm) = dl_strptime dl used (dl_tm dl);
       if \<not> ok then Some (HANDLER_GO_ON, con)
       else do {
         let (t_header, tm) = dl_mktime dl tm;
         let (ok, tm) = dl_strptime dl m tm;
         let (t_file, tm) = dl_mktime dl tm;
         if t_header < t_file then Some (HANDLER_GO_ON, con)
         else Some (HANDLER_FINISHED, con\<lparr>re_http_status := 304\<rparr>)
       }
     }
   }"


subsection \<open>Ranges\<close>

text \<open>The variables of the loop; \<open>rs_s\<close> is the rest of the field, a C string.\<close>

record range_state =
  rs_s :: string
  rs_start :: int
  rs_end :: int
  rs_multipart :: bool

text \<open>What stands behind a range: the end, another range, or something else (\<open>None\<close>).\<close>

definition range_rest :: "range_state \<Rightarrow> string \<Rightarrow> range_state option" where
  "range_rest st err =
     (case err of
        [] \<Rightarrow> Some (st\<lparr>rs_s := []\<rparr>)
      | c # r \<Rightarrow> if c = CHR '','' then Some (st\<lparr>rs_multipart := True, rs_s := r\<rparr>) else None)"

text \<open>
  One range, with \<open>n\<close> characters in front of its first hyphen.  The result \<open>Inl\<close> is an error, and
  whether the status is set to 416.
\<close>

definition range_next :: "int \<Rightarrow> range_state \<Rightarrow> bool + range_state" where
  "range_next st_size st =
     (let s = rs_s st;
          n = length (takeWhile (\<lambda>c. c \<noteq> CHR ''-'') s);
          behind = drop (n + 1) s
      in if n = 0 then
           (case strtol 10 s of (le, err) \<Rightarrow>
              if le = 0 then Inl True
              else case range_rest (st\<lparr>rs_end := st_size - 1, rs_start := st_size + le\<rparr>) err of
                     None \<Rightarrow> Inl False | Some st \<Rightarrow> Inr st)
         else if behind = [] \<or> List.hd behind = CHR '','' then
           (case strtol 10 s of (la, err) \<Rightarrow>
              if err = drop n s then
                (case range_rest (st\<lparr>rs_end := st_size - 1, rs_start := la\<rparr>) behind of
                   None \<Rightarrow> Inl False | Some st \<Rightarrow> Inr st)
              else Inl False)
         else
           (case strtol 10 s of (la, err) \<Rightarrow>
              if err = drop n s then
                (case strtol 10 behind of (le, err) \<Rightarrow>
                   if le < la then Inl False
                   else case range_rest (st\<lparr>rs_end := le, rs_start := la\<rparr>) err of
                          None \<Rightarrow> Inl False | Some st \<Rightarrow> Inr st)
              else Inl False))"

text \<open>The range inside the file; none is left when it starts behind the end.\<close>

definition clip_range :: "int \<Rightarrow> range_state \<Rightarrow> range_state option" where
  "clip_range st_size st =
     (let st = st\<lparr>rs_start := max (rs_start st) 0, rs_end := min (rs_end st) (st_size - 1)\<rparr>
      in if st_size - 1 < rs_start st then None else Some st)"

definition range_boundary :: string where "range_boundary = ''fkj49sn38dcn3''"

definition part_header :: "int \<Rightarrow> int \<Rightarrow> int \<Rightarrow> string option \<Rightarrow> buffer option" where
  "part_header start end st_size content_type = do {
     b \<leftarrow> buffer_copy_string_len buffer_init (CRLF @ ''--'');
     b \<leftarrow> buffer_append_string b (Some range_boundary);
     b \<leftarrow> buffer_append_string_len b (CRLF @ ''Content-Range: bytes '');
     b \<leftarrow> buffer_append_int b start;
     b \<leftarrow> buffer_append_string_len b ''-'';
     b \<leftarrow> buffer_append_int b end;
     b \<leftarrow> buffer_append_string_len b ''/'';
     b \<leftarrow> buffer_append_int b st_size;
     b \<leftarrow> buffer_append_string_len b (CRLF @ ''Content-Type: '');
     b \<leftarrow> buffer_append_string_len b (abs_bytes content_type);
     buffer_append_string_len b (CRLF @ CRLF)
   }"

text \<open>Text, or a part of the file, on the write queue, and counted.\<close>

definition queue_text_part :: "response_con \<Rightarrow> buffer \<Rightarrow> response_con option" where
  "queue_text_part con b = do {
     (cq, b') \<leftarrow> chunkqueue_append_buffer (o_queue (re_out con)) b;
     Some (con\<lparr>re_content_length := re_content_length con + int (buffer_string_length b),
               re_out := (re_out con)\<lparr>o_queue := cq\<rparr>\<rparr>)
   }"

definition queue_file_part :: "response_con \<Rightarrow> string option \<Rightarrow> int \<Rightarrow> int \<Rightarrow> response_con option" where
  "queue_file_part con path start end = do {
     cq \<leftarrow> chunkqueue_append_file (o_queue (re_out con)) path start (end - start + 1);
     Some (con\<lparr>re_content_length := re_content_length con + (end - start + 1),
               re_out := (re_out con)\<lparr>o_queue := cq\<rparr>\<rparr>)
   }"

definition queue_range ::
    "string option \<Rightarrow> int \<Rightarrow> string option \<Rightarrow> range_state \<Rightarrow> response_con \<Rightarrow> response_con option" where
  "queue_range path st_size content_type st con = do {
     con \<leftarrow> (if rs_multipart st then do {
         b \<leftarrow> part_header (rs_start st) (rs_end st) st_size content_type;
         queue_text_part con b
       } else Some con);
     queue_file_part con path (rs_start st) (rs_end st)
   }"

lemma strtol_shorter:
  assumes "strtol b s = (v, r)"
  shows "length r \<le> length s" "v \<noteq> 0 \<Longrightarrow> length r < length s"
proof -
  define t where "t = dropWhile is_space s"
  define u where "u = (if t \<noteq> [] \<and> (List.hd t = CHR ''-'' \<or> List.hd t = CHR ''+'') then List.tl t else t)"
  define hex where "hex = (2 < length u \<and> u ! 0 = CHR ''0'' \<and> (u ! 1 = CHR ''x'' \<or> u ! 1 = CHR ''X'') \<and> hex2int (u ! 2) < 16)"
  define b' where "b' = (if b = 0 then (if hex then 16 else if u \<noteq> [] \<and> List.hd u = CHR ''0'' then 8 else 10) else b)"
  define w where "w = (if b = 0 \<and> hex then drop 2 u else u)"
  define ds where "ds = takeWhile (\<lambda>c. hex2int c < b') w"
  have len: "length u \<le> length s" using length_dropWhile_le [of is_space s] by (auto simp: u_def t_def)
  have wl: "length w \<le> length s" using len by (cases "b = 0 \<and> hex") (auto simp: w_def)
  have dl: "length ds \<le> length w" by (simp add: ds_def length_takeWhile_le)
  have "\<exists>x. strtol b s = (if ds = [] then (0, s) else (x, drop (length ds) w))"
    unfolding strtol_def Let_def t_def [symmetric] u_def [symmetric] hex_def [symmetric] b'_def [symmetric] w_def [symmetric]
      ds_def [symmetric] by (rule exI, rule refl)
  then have eq: "snd (strtol b s) = (if ds = [] then s else drop (length ds) w)" "ds = [] \<longrightarrow> fst (strtol b s) = 0"
    by (auto split: if_splits)
  have r: "r = (if ds = [] then s else drop (length ds) w)" "ds = [] \<longrightarrow> v = 0" using assms eq by simp_all
  have "length r < length s" if "ds \<noteq> []"
    using that wl dl r(1) by (cases ds) simp_all
  then show "length r \<le> length s" "v \<noteq> 0 \<Longrightarrow> length r < length s" using r by (cases "ds = []"; simp)+
qed

lemma range_rest_Some:
  "range_rest st err = Some st' \<Longrightarrow> length (rs_s st') \<le> length err \<and> rs_start st' = rs_start st \<and> rs_end st' = rs_end st"
  by (auto simp: range_rest_def split: list.splits if_splits)

lemma range_next_shorter:
  assumes "range_next st_size st = Inr st'"
  shows "length (rs_s st') < length (rs_s st) \<or> rs_s st = []"
proof -
  let ?s = "rs_s st"
  let ?n = "length (takeWhile (\<lambda>c. c \<noteq> CHR ''-'') ?s)"
  let ?b = "drop (?n + 1) ?s"
  have b: "length ?b < length ?s \<or> ?s = []" by (cases ?s) auto
  show ?thesis
  proof (cases "?n = 0")
    case True
    obtain le err where r: "strtol 10 ?s = (le, err)" by (cases "strtol 10 ?s")
    then have "le \<noteq> 0" "range_rest (st\<lparr>rs_end := st_size - 1, rs_start := st_size + le\<rparr>) err = Some st'"
      using assms True by (auto simp: range_next_def Let_def split: if_splits option.splits)
    then show ?thesis using strtol_shorter(2) [OF r] range_rest_Some by fastforce
  next
    case False
    obtain la err where r: "strtol 10 ?s = (la, err)" by (cases "strtol 10 ?s")
    obtain le err' where r': "strtol 10 ?b = (le, err')" by (cases "strtol 10 ?b")
    have "\<exists>st0 e. range_rest st0 e = Some st' \<and> (e = ?b \<or> e = err')"
      using assms False r r' by (auto simp: range_next_def Let_def split: if_splits option.splits)
    then have "length (rs_s st') \<le> length ?b" using strtol_shorter(1) [OF r'] range_rest_Some by fastforce
    then show ?thesis using b le_less_trans by blast
  qed
qed

text \<open>The loop: an error or not, the variables, and the connection.\<close>

function range_loop ::
    "string option \<Rightarrow> int \<Rightarrow> string option \<Rightarrow> range_state \<Rightarrow> response_con \<Rightarrow> (bool \<times> range_state \<times> response_con) option" where
  "range_loop path st_size content_type st con =
     (if rs_s st = [] \<or> CHR ''-'' \<notin> set (rs_s st) then Some (False, st, con)
      else case range_next st_size st of
             Inl unsatisfiable \<Rightarrow> Some (True, st, if unsatisfiable then con\<lparr>re_http_status := 416\<rparr> else con)
           | Inr st' \<Rightarrow>
               (case clip_range st_size st' of
                  None \<Rightarrow> Some (True, st', con\<lparr>re_http_status := 416\<rparr>)
                | Some st'' \<Rightarrow> do {
                    con \<leftarrow> queue_range path st_size content_type st'' con;
                    range_loop path st_size content_type st'' con
                  }))"
  by pat_completeness auto
termination
proof (relation "measure (\<lambda>(path, st_size, content_type, st, con). length (rs_s st))", goal_cases)
  case (2 path st_size content_type st con st' st'' con')
  then have "rs_s st'' = rs_s st'" by (auto simp: clip_range_def Let_def split: if_splits)
  then show ?case using range_next_shorter [of st_size st st'] 2 by auto
qed simp

declare range_loop.simps [simp del]

definition end_multipart :: "response_con \<Rightarrow> response_con option" where
  "end_multipart con = do {
     b \<leftarrow> buffer_copy_string_len buffer_init (CRLF @ ''--'');
     b \<leftarrow> buffer_append_string b (Some range_boundary);
     b \<leftarrow> buffer_append_string_len b (''--'' @ CRLF);
     con \<leftarrow> queue_text_part con b;
     b \<leftarrow> buffer_copy_string_len (re_tmp_buf con) ''multipart/byteranges; boundary='';
     b \<leftarrow> buffer_append_string b (Some range_boundary);
     response_header_overwrite (con\<lparr>re_tmp_buf := b\<rparr>) ''Content-Type'' (buffer_content b)
   }"

definition content_range :: "int \<Rightarrow> range_state \<Rightarrow> response_con \<Rightarrow> response_con option" where
  "content_range st_size st con = do {
     b \<leftarrow> buffer_copy_string_len (re_tmp_buf con) ''bytes '';
     b \<leftarrow> buffer_append_int b (rs_start st);
     b \<leftarrow> buffer_append_string_len b ''-'';
     b \<leftarrow> buffer_append_int b (rs_end st);
     b \<leftarrow> buffer_append_string_len b ''/'';
     b \<leftarrow> buffer_append_int b st_size;
     response_header_insert (con\<lparr>re_tmp_buf := b\<rparr>) ''Content-Range'' (buffer_content b)
   }"

definition http_response_parse_range ::
    "response_con \<Rightarrow> string \<Rightarrow> string option \<Rightarrow> int \<Rightarrow> (int \<times> response_con) option" where
  "http_response_parse_range con http_range path st_size = do {
     let con = con\<lparr>re_content_length := 0\<rparr>;
     ds \<leftarrow> array_get_element_klen (show_headers con) ''Content-Type'';
     let content_type = (case ds of None \<Rightarrow> None | Some d \<Rightarrow> du_value d);
     (error, st, con) \<leftarrow> range_loop path st_size content_type
       \<lparr>rs_s = http_range, rs_start = 0, rs_end = st_size - 1, rs_multipart = False\<rparr> con;
     if error then Some (-1, con)
     else do {
       con \<leftarrow> (if rs_multipart st then end_multipart con else content_range st_size st con);
       Some (0, con)
     }
   }"

subsection \<open>Sending a file\<close>










section \<open>Numbers\<close>

definition digits_of :: "string \<Rightarrow> string" where
  "digits_of u = takeWhile (\<lambda>c. hex2int c < 10) u"

lemma hex2int_digit: "hex2int c < 10 \<longleftrightarrow> light_isdigit c"
  by (auto simp: hex2int_value light_isdigit_def)

lemma digits_value:
  assumes "\<forall>c \<in> set ds. light_isdigit c"
  shows "foldl (\<lambda>a c. int 10 * a + int (hex2int c)) (int k) ds = int (foldl (\<lambda>a c. 10 * a + (ucode c - 48)) k ds)"
  using assms
proof (induction ds arbitrary: k)
  case (Cons c ds)
  then have "int 10 * int k + int (hex2int c) = int (10 * k + (ucode c - 48))"
    by (auto simp: light_isdigit_def hex2int_value)
  then show ?case using Cons by (simp del: of_nat_add of_nat_mult)
qed simp

lemma digits_of_number:
  assumes "r = [] \<or> \<not> light_isdigit (List.hd r)"
  shows "digits_of (utostr [] v @ r) = utostr [] v"
  using utostr_digits [of _ v] assms
  by (cases r) (auto simp: digits_of_def hex2int_digit takeWhile_append2)

lemma utostr_not_Nil [simp]: "utostr [] v \<noteq> []"
  by (simp add: utostr_rec)

lemma number_head: "\<not> is_space (List.hd (utostr [] v))" "List.hd (utostr [] v) \<noteq> CHR ''-''" "List.hd (utostr [] v) \<noteq> CHR ''+''"
proof -
  have "light_isdigit (List.hd (utostr [] v))" by (rule utostr_digits) (rule hd_in_set, simp)
  then show "\<not> is_space (List.hd (utostr [] v))" "List.hd (utostr [] v) \<noteq> CHR ''-''" "List.hd (utostr [] v) \<noteq> CHR ''+''"
    by (auto simp: light_isdigit_def is_space_def)
qed

lemma number_value: "foldl (\<lambda>a c. int 10 * a + int (hex2int c)) 0 (utostr [] v) = int v"
  using digits_value [of "utostr [] v" 0] utostr_digits [of _ v] dec_value_utostr [of v] by (simp add: dec_value_def)

text \<open>Decimal numbers are read back, with their sign.\<close>

lemma strtol_number:
  assumes "v < 2 ^ 63" "r = [] \<or> \<not> light_isdigit (List.hd r)"
  shows "strtol 10 (utostr [] v @ r) = (int v, r)" "strtol 10 (CHR ''-'' # utostr [] v @ r) = (- int v, r)"
proof -
  have c: "clamp64 (int v) = int v" "clamp64 (- int v) = - int v" using assms(1) by (simp_all add: clamp64_def)
  have d: "takeWhile (\<lambda>c. hex2int c < 10) (utostr [] v @ r) = utostr [] v"
    using digits_of_number [OF assms(2), of v] by (simp add: digits_of_def)
  obtain x xs where x: "utostr [] v = x # xs" by (cases "utostr [] v") simp_all
  have h: "\<not> is_space x" "x \<noteq> CHR ''-''" "x \<noteq> CHR ''+''" using number_head [of v] by (simp_all add: x)
  have w: "dropWhile is_space (utostr [] v @ r) = utostr [] v @ r" by (simp add: x h(1))
  have hd: "List.hd (utostr [] v @ r) = x" by (simp add: x)
  show "strtol 10 (utostr [] v @ r) = (int v, r)"
    unfolding strtol_def Let_def w hd using h(2,3) d number_value [of v] c by simp
  have "\<not> is_space (CHR ''-'')" by (simp add: is_space_def)
  then have w': "dropWhile is_space (CHR ''-'' # utostr [] v @ r) = CHR ''-'' # utostr [] v @ r" by simp
  show "strtol 10 (CHR ''-'' # utostr [] v @ r) = (- int v, r)"
    unfolding strtol_def Let_def w' using d number_value [of v] c by simp
qed

text \<open>A negative number has its sign in front of the digits that were read.\<close>

lemma strtol_sign:
  assumes "strtol 10 s = (v, r)"
  shows "0 \<le> v \<or> (\<exists>p u. s = p @ CHR ''-'' # u \<and> (\<forall>c \<in> set p. is_space c) \<and> length r \<le> length u)"
    "s \<noteq> [] \<and> List.hd s = CHR ''-'' \<longrightarrow> v \<le> 0"
proof -
  define t where "t = dropWhile is_space s"
  define neg where "neg = (t \<noteq> [] \<and> List.hd t = CHR ''-'')"
  define u where "u = (if t \<noteq> [] \<and> (List.hd t = CHR ''-'' \<or> List.hd t = CHR ''+'') then List.tl t else t)"
  define n where "n = foldl (\<lambda>a c. int 10 * a + int (hex2int c)) 0 (digits_of u)"
  have d: "\<forall>c \<in> set (digits_of u). light_isdigit c"
    unfolding digits_of_def by (auto dest: set_takeWhileD simp: hex2int_digit)
  have n: "0 \<le> n" unfolding n_def using digits_value [OF d, of 0] by simp
  have eq: "strtol 10 s = (if digits_of u = [] then (0, s) else (clamp64 (if neg then - n else n), drop (length (digits_of u)) u))"
    unfolding strtol_def Let_def t_def [symmetric] u_def [symmetric] neg_def [symmetric] n_def digits_of_def by simp
  show "0 \<le> v \<or> (\<exists>p u. s = p @ CHR ''-'' # u \<and> (\<forall>c \<in> set p. is_space c) \<and> length r \<le> length u)"
  proof (cases "digits_of u = [] \<or> \<not> neg")
    case True
    then show ?thesis using eq assms n by (auto simp: clamp64_def split: if_splits)
  next
    case False
    then obtain w where w: "t = CHR ''-'' # w" by (cases t) (auto simp: neg_def)
    then have "u = w" by (simp add: u_def)
    then have "length r \<le> length w" using False eq assms by auto
    moreover have "takeWhile is_space s @ t = s" by (simp add: t_def)
    then have "s = takeWhile is_space s @ CHR ''-'' # w" using w by simp
    moreover have "\<forall>c \<in> set (takeWhile is_space s). is_space c" by (auto dest: set_takeWhileD)
    ultimately show ?thesis by blast
  qed
  show "s \<noteq> [] \<and> List.hd s = CHR ''-'' \<longrightarrow> v \<le> 0"
  proof
    assume a: "s \<noteq> [] \<and> List.hd s = CHR ''-''"
    then have "t = s" by (cases s) (auto simp: t_def is_space_def)
    then have neg using a by (simp add: neg_def)
    then show "v \<le> 0" using eq assms n by (auto simp: clamp64_def split: if_splits)
  qed
qed

section \<open>Ranges\<close>

text \<open>A range that passes the parser and the end of the file is not empty and inside the file.\<close>

lemma range_next_inside:
  assumes "range_next st_size st = Inr st'" "clip_range st_size st' = Some st''"
  shows "0 \<le> rs_start st''" "rs_start st'' \<le> rs_end st''" "rs_end st'' < st_size"
proof -
  let ?s = "rs_s st"
  let ?n = "length (takeWhile (\<lambda>c. c \<noteq> CHR ''-'') ?s)"
  let ?b = "drop (?n + 1) ?s"
  have c: "st'' = st'\<lparr>rs_start := max (rs_start st') 0, rs_end := min (rs_end st') (st_size - 1)\<rparr>" "max (rs_start st') 0 \<le> st_size - 1"
    using assms(2) by (auto simp: clip_range_def Let_def split: if_splits)
  have "rs_end st' = st_size - 1 \<or> 0 \<le> rs_start st' \<and> rs_start st' \<le> rs_end st'"
  proof (cases "?n = 0 \<or> ?b = [] \<or> List.hd ?b = CHR '',''")
    case True
    obtain le err where r: "strtol 10 ?s = (le, err)" by (cases "strtol 10 ?s")
    have "\<exists>st0 e. range_rest st0 e = Some st' \<and> rs_end st0 = st_size - 1"
      using assms(1) True r by (auto simp: range_next_def Let_def split: if_splits option.splits)
    then show ?thesis using range_rest_Some by fastforce
  next
    case False
    obtain la err where r: "strtol 10 ?s = (la, err)" by (cases "strtol 10 ?s")
    obtain le err' where r': "strtol 10 ?b = (le, err')" by (cases "strtol 10 ?b")
    have x: "err = drop ?n ?s" "la \<le> le" "\<exists>st0. range_rest st0 err' = Some st' \<and> rs_end st0 = le \<and> rs_start st0 = la"
      using assms(1) False r r' by (auto simp: range_next_def Let_def split: if_splits option.splits)
    have "0 \<le> la"
    proof (rule ccontr)
      assume "\<not> 0 \<le> la"
      then obtain p u where p: "?s = p @ CHR ''-'' # u" "\<forall>c \<in> set p. is_space c" "length err \<le> length u"
        using strtol_sign(1) [OF r] by blast
      have "CHR ''-'' \<notin> set p" using p(2) by (auto simp: is_space_def)
      then have "?n = length p" unfolding p(1) by (subst takeWhile_append2) auto
      then have "length err = length u + 1" using x(1) p(1) by simp
      then show False using p(3) by simp
    qed
    then show ?thesis using x(2,3) range_rest_Some by fastforce
  qed
  then show "0 \<le> rs_start st''" "rs_start st'' \<le> rs_end st''" "rs_end st'' < st_size" using c by auto
qed

text \<open>The text in front of a part, and the octets of a range on the write queue.\<close>

definition part_text :: "int \<Rightarrow> int \<Rightarrow> int \<Rightarrow> string \<Rightarrow> string" where
  "part_text a b st_size content_type = CRLF @ ''--'' @ range_boundary @ CRLF @ ''Content-Range: bytes ''
     @ itostr [] a @ ''-'' @ itostr [] b @ ''/'' @ itostr [] st_size @ CRLF @ ''Content-Type: '' @ content_type @ CRLF @ CRLF"

definition range_octets :: "string option \<Rightarrow> int \<Rightarrow> string \<Rightarrow> bool \<times> int \<times> int \<Rightarrow> octet list" where
  "range_octets path st_size content_type = (\<lambda>(multi, a, b).
     (if multi then map MemByte (part_text a b st_size content_type) else []) @ file_piece path a (b - a + 1))"

definition closing_text :: string where
  "closing_text = CRLF @ ''--'' @ range_boundary @ ''--'' @ CRLF"

text \<open>Nothing but the queue and the count of its octets changes.\<close>

definition queued_part :: "response_con \<Rightarrow> octet list \<Rightarrow> response_con \<Rightarrow> bool" where
  "queued_part con os con' \<longleftrightarrow> (\<exists>cq. cq_wf cq \<and> cq_octets cq = cq_octets (o_queue (re_out con)) @ os
     \<and> con' = con\<lparr>re_content_length := re_content_length con + int (length os), re_out := (re_out con)\<lparr>o_queue := cq\<rparr>\<rparr>)"

lemma queued_part_refl: "cq_wf (o_queue (re_out con)) \<Longrightarrow> queued_part con [] con"
  unfolding queued_part_def by (rule exI [of _ "o_queue (re_out con)"], cases con, cases "re_out con") simp

lemma queued_part_trans: "queued_part con xs c1 \<Longrightarrow> queued_part c1 ys c2 \<Longrightarrow> queued_part con (xs @ ys) c2"
  by (auto simp: queued_part_def)

lemma queued_part_wf: "queued_part con xs con' \<Longrightarrow> cq_wf (o_queue (re_out con'))"
  by (auto simp: queued_part_def)

lemma append_int_string: "- (2 ^ 63) \<le> v \<Longrightarrow> v < 2 ^ 63 \<Longrightarrow> buffer_append_int b v = buffer_append_string_len b (itostr [] v)"
  using itostr_length [of v] by (simp add: buffer_append_int_def Let_def LI_ITOSTRING_LENGTH_def)

lemma boundary_string: "buffer_append_string b (Some range_boundary) = buffer_append_string_len b range_boundary"
  by (simp add: buffer_append_string_def range_boundary_def cstr_def)

lemma part_header_ok:
  assumes "- (2 ^ 63) \<le> a" "a < 2 ^ 63" "- (2 ^ 63) \<le> b" "b < 2 ^ 63" "- (2 ^ 63) \<le> z" "z < 2 ^ 63"
    "fits (length (abs_bytes ct) + 200)"
  shows "\<exists>h. part_header a b z ct = Some h \<and> buffer_wf h \<and> buffer_content h = part_text a b z (abs_bytes ct)"
proof -
  let ?ss = "[range_boundary, CRLF @ ''Content-Range: bytes '', itostr [] a, ''-'', itostr [] b, ''/'', itostr [] z,
    CRLF @ ''Content-Type: '', abs_bytes ct, CRLF @ CRLF]"
  have run: "part_header a b z ct = do { h \<leftarrow> buffer_copy_string_len buffer_init (CRLF @ ''--''); append_strings h ?ss }"
    using assms by (simp add: part_header_def append_int_string boundary_string)
  have f: "fits (length (CRLF @ ''--''))" by (rule fits_mono [OF assms(7)]) simp
  obtain h where h: "buffer_copy_string_len buffer_init (CRLF @ ''--'') = Some h" "buffer_wf h" "buffer_content h = CRLF @ ''--''" "0 < b_used h"
    using new_string [OF buffer_init_wf(1) f] by blast
  have "length (itostr [] a) \<le> 20" "length (itostr [] b) \<le> 20" "length (itostr [] z) \<le> 20"
    using itostr_length assms by simp_all
  then have "fits (length (buffer_content h) + length (concat ?ss))"
    by (intro fits_mono [OF assms(7)]) (simp add: h(3) range_boundary_def)
  then obtain h' where "append_strings h ?ss = Some h'" "buffer_wf h'" "buffer_content h' = buffer_content h @ concat ?ss"
    using append_strings_ok [OF h(2) _ h(4)] by blast
  then show ?thesis using run h(1,3) by (simp add: part_text_def)
qed

lemma queue_text_ok:
  assumes "cq_wf (o_queue (re_out con))" "buffer_wf b"
  shows "\<exists>con'. queue_text_part con b = Some con' \<and> queued_part con (map MemByte (buffer_content b)) con'"
proof -
  obtain cq m where "chunkqueue_append_buffer (o_queue (re_out con)) b = Some (cq, m)" "cq_wf cq"
      "cq_octets cq = cq_octets (o_queue (re_out con)) @ map MemByte (buffer_content b)"
    using append_buffer_ok [OF assms] by blast
  moreover have "buffer_string_length b = length (buffer_content b)" using assms(2) by (rule buffer_string_length_content)
  ultimately show ?thesis by (auto simp: queue_text_part_def queued_part_def)
qed

lemma queue_file_ok:
  assumes "cq_wf (o_queue (re_out con))" "a \<le> b + 1"
  shows "\<exists>con'. queue_file_part con path a b = Some con' \<and> queued_part con (file_piece path a (b - a + 1)) con'"
proof -
  have l: "0 \<le> b - a + 1" using assms(2) by simp
  have e: "a + (b - a + 1) - 1 = b" by simp
  obtain cq where "chunkqueue_append_file (o_queue (re_out con)) path a (b - a + 1) = Some cq" "cq_wf cq"
      "cq_octets cq = cq_octets (o_queue (re_out con)) @ file_piece path a (b - a + 1)"
    using append_file_ok [OF assms(1) l, of path a] unfolding file_piece_def by blast
  moreover have "int (length (file_piece path a (b - a + 1))) = b - a + 1" using l by (simp add: file_piece_def)
  ultimately show ?thesis by (auto simp: queue_file_part_def queued_part_def)
qed

lemma queue_range_ok:
  assumes "cq_wf (o_queue (re_out con))" "0 \<le> rs_start st" "rs_start st \<le> rs_end st" "rs_end st < z" "z < 2 ^ 63"
    "fits (length (abs_bytes ct) + 200)"
  shows "\<exists>con'. queue_range path z ct st con = Some con'
           \<and> queued_part con (range_octets path z (abs_bytes ct) (rs_multipart st, rs_start st, rs_end st)) con'"
proof (cases "rs_multipart st")
  case False
  then show ?thesis using queue_file_ok [OF assms(1), of "rs_start st" "rs_end st" path] assms(3)
    by (simp add: queue_range_def range_octets_def)
next
  case True
  obtain h where h: "part_header (rs_start st) (rs_end st) z ct = Some h" "buffer_wf h"
      "buffer_content h = part_text (rs_start st) (rs_end st) z (abs_bytes ct)"
    using part_header_ok [OF _ _ _ _ _ assms(5,6), of "rs_start st" "rs_end st"] assms by auto
  obtain c1 where c1: "queue_text_part con h = Some c1" "queued_part con (map MemByte (buffer_content h)) c1"
    using queue_text_ok [OF assms(1) h(2)] by blast
  obtain c2 where c2: "queue_file_part c1 path (rs_start st) (rs_end st) = Some c2"
      "queued_part c1 (file_piece path (rs_start st) (rs_end st - rs_start st + 1)) c2"
    using queue_file_ok [OF queued_part_wf [OF c1(2)], of "rs_start st" "rs_end st" path] assms(3) by auto
  show ?thesis using True h(1,3) c1 c2 queued_part_trans [OF c1(2) c2(2)] by (simp add: queue_range_def range_octets_def)
qed

lemma range_rest_multi:
  "range_rest st err = Some st' \<Longrightarrow> (rs_multipart st \<longrightarrow> rs_multipart st') \<and> (rs_multipart st' \<or> rs_s st' = [])"
  by (auto simp: range_rest_def split: list.splits if_splits)

lemma range_next_multi:
  assumes "range_next z st = Inr st'" "clip_range z st' = Some st''"
  shows "rs_multipart st \<longrightarrow> rs_multipart st''" "rs_multipart st'' \<or> rs_s st'' = []"
proof -
  have "\<exists>st0 e. range_rest st0 e = Some st' \<and> rs_multipart st0 = rs_multipart st"
    using assms(1) by (auto simp: range_next_def Let_def split: if_splits option.splits prod.splits)
  then have "(rs_multipart st \<longrightarrow> rs_multipart st') \<and> (rs_multipart st' \<or> rs_s st' = [])"
    using range_rest_multi by metis
  moreover have "rs_multipart st'' = rs_multipart st'" "rs_s st'' = rs_s st'"
    using assms(2) by (auto simp: clip_range_def Let_def split: if_splits)
  ultimately show "rs_multipart st \<longrightarrow> rs_multipart st''" "rs_multipart st'' \<or> rs_s st'' = []" by simp_all
qed

text \<open>The loop queues ranges inside the file only; without a comma there is at most one.\<close>

definition inside :: "int \<Rightarrow> bool \<times> int \<times> int \<Rightarrow> bool" where
  "inside z = (\<lambda>(m, a, b). 0 \<le> a \<and> a \<le> b \<and> b < z)"

lemma range_loop_ok:
  assumes "cq_wf (o_queue (re_out con))" "z < 2 ^ 63" "fits (length (abs_bytes ct) + 200)"
  shows "\<exists>err st' ps con1 con'. range_loop path z ct st con = Some (err, st', con')
           \<and> queued_part con (concat (map (range_octets path z (abs_bytes ct)) ps)) con1
           \<and> (\<forall>p \<in> set ps. inside z p) \<and> length ps \<le> length (rs_s st)
           \<and> (con' = con1 \<or> err \<and> con' = con1\<lparr>re_http_status := 416\<rparr>)
           \<and> (rs_multipart st \<longrightarrow> rs_multipart st') \<and> (\<forall>p \<in> set ps. fst p = rs_multipart st')
           \<and> (\<not> err \<and> \<not> rs_multipart st' \<longrightarrow> st' = st \<and> ps = [] \<or> ps = [(False, rs_start st', rs_end st')])"
  using assms
proof (induction path z ct st con rule: range_loop.induct)
  case (1 path z ct st con)
  note loop = range_loop.simps [of path z ct st con]
  have none: "queued_part con (concat (map (range_octets path z (abs_bytes ct)) [])) con"
    using queued_part_refl [OF 1(2)] by simp
  have stop: ?case if "range_loop path z ct st con = Some (err, st', con')" "con' = con \<or> err \<and> con' = con\<lparr>re_http_status := 416\<rparr>"
      "\<not> err \<longrightarrow> st' = st" "rs_multipart st \<longrightarrow> rs_multipart st'" for err st' con'
    using that none by (intro exI [of _ err] exI [of _ st'] exI [of _ "[]"] exI [of _ con] exI [of _ con'] conjI) simp_all
  consider (fin) "rs_s st = [] \<or> CHR ''-'' \<notin> set (rs_s st)"
    | (bad) u where "\<not> (rs_s st = [] \<or> CHR ''-'' \<notin> set (rs_s st))" "range_next z st = Inl u"
    | (clip) st' where "\<not> (rs_s st = [] \<or> CHR ''-'' \<notin> set (rs_s st))" "range_next z st = Inr st'" "clip_range z st' = None"
    | (more) st' st'' where "\<not> (rs_s st = [] \<or> CHR ''-'' \<notin> set (rs_s st))" "range_next z st = Inr st'" "clip_range z st' = Some st''"
  proof (cases "range_next z st")
    case (Inr st')
    show ?thesis using that Inr by (cases "clip_range z st'") blast+
  qed (use that in blast)
  then show ?case
  proof cases
    case fin
    then have "range_loop path z ct st con = Some (False, st, con)" using loop by simp
    then show ?thesis by (rule stop) simp_all
  next
    case bad
    then have "range_loop path z ct st con = Some (True, st, if u then con\<lparr>re_http_status := 416\<rparr> else con)" using loop by simp
    then show ?thesis by (rule stop) simp_all
  next
    case clip
    have a: "range_loop path z ct st con = Some (True, st', con\<lparr>re_http_status := 416\<rparr>)" using loop clip by simp
    have b: "rs_multipart st \<longrightarrow> rs_multipart st'"
      using clip(2) range_rest_multi by (auto simp: range_next_def Let_def split: if_splits option.splits prod.splits)
    show ?thesis by (rule stop [OF a]) (simp_all add: b)
  next
    case more
    note in' = range_next_inside [OF more(2,3)] and mu = range_next_multi [OF more(2,3)]
    let ?p = "(rs_multipart st'', rs_start st'', rs_end st'')"
    obtain c where c: "queue_range path z ct st'' con = Some c" "queued_part con (range_octets path z (abs_bytes ct) ?p) c"
      using queue_range_ok [OF 1(2) in' 1(3,4)] by blast
    have run: "range_loop path z ct st con = range_loop path z ct st'' c" using loop more c(1) by simp
    have p: "inside z ?p" using in' by (simp add: inside_def)
    have "rs_s st'' = rs_s st'" using more(3) by (auto simp: clip_range_def Let_def split: if_splits)
    then have sh: "length (rs_s st'') < length (rs_s st)" using range_next_shorter [OF more(2)] more(1) by auto
    show ?thesis
    proof (cases "rs_multipart st''")
      case False
      then have "range_loop path z ct st'' c = Some (False, st'', c)" using mu(2) by (simp add: range_loop.simps)
      then show ?thesis using run c(2) p mu(1) False sh
        by (intro exI [of _ False] exI [of _ st''] exI [of _ "[?p]"] exI [of _ c] exI [of _ c] conjI) simp_all
    next
      case True
      from 1(1) [OF more(1,2,3) c(1) queued_part_wf [OF c(2)] 1(3,4)]
      obtain err st3 ps c1 c2 where r: "range_loop path z ct st'' c = Some (err, st3, c2)"
          "queued_part c (concat (map (range_octets path z (abs_bytes ct)) ps)) c1" "\<forall>p \<in> set ps. inside z p"
          "c2 = c1 \<or> err \<and> c2 = c1\<lparr>re_http_status := 416\<rparr>" "rs_multipart st'' \<longrightarrow> rs_multipart st3"
          "length ps \<le> length (rs_s st'')" "\<forall>p \<in> set ps. fst p = rs_multipart st3"
        by blast
      then show ?thesis
        using run p True sh queued_part_trans [OF c(2) r(2)]
        by (intro exI [of _ err] exI [of _ st3] exI [of _ "?p # ps"] exI [of _ c1] exI [of _ c2] conjI) auto
    qed
  qed
qed

subsection \<open>What is left behind\<close>





text \<open>What the functions of this file change: the status, the queue, the entity tag and the scratch buffer, and the table.\<close>

definition same_request :: "response_con \<Rightarrow> response_con \<Rightarrow> bool" where
  "same_request con con' \<longleftrightarrow> re_http_method con' = re_http_method con \<and> re_http_version con' = re_http_version con
     \<and> re_parsed_response con' = re_parsed_response con \<and> re_physical_path con' = re_physical_path con
     \<and> o_chunked (re_out con') = o_chunked (re_out con) \<and> (buffer_wf (o_tmp (re_out con)) \<longrightarrow> buffer_wf (o_tmp (re_out con')))
     \<and> re_keep_alive con' = re_keep_alive con \<and> re_request_count con' = re_request_count con"

lemma same_request_refl [simp]: "same_request con con"
  by (simp add: same_request_def)

lemma same_request_trans: "same_request a b \<Longrightarrow> same_request b c \<Longrightarrow> same_request a c"
  by (simp add: same_request_def)

lemma same_rest_request: "same_rest con con' \<Longrightarrow> same_request con con'"
  using same_restD [of con con'] by (simp add: same_request_def)

lemma queued_part_request: "queued_part con os con' \<Longrightarrow> same_request con con'"
  by (auto simp: queued_part_def same_request_def)

lemma queued_partD:
  assumes "queued_part con os con'"
  shows "re_headers con' = re_headers con" "re_fixed con' = re_fixed con" "re_http_status con' = re_http_status con"
    "re_tmp_buf con' = re_tmp_buf con" "re_etag con' = re_etag con" "re_file_finished con' = re_file_finished con"
    "out_octets (re_out con') = out_octets (re_out con) @ os"
    "re_content_length con' = re_content_length con + int (length os)" "re_mode con' = re_mode con" "cq_wf (o_queue (re_out con'))"
  using assms by (auto simp: queued_part_def out_octets_def)

lemma same_restD2:
  assumes "same_rest con con'"
  shows "re_etag con' = re_etag con" "re_content_length con' = re_content_length con"
proof -
  have e: "con' = con\<lparr>re_headers := re_headers con', re_fixed := re_fixed con'\<rparr>" using assms by (simp add: same_rest_def)
  show "re_etag con' = re_etag con" "re_content_length con' = re_content_length con" by (subst e, simp)+
qed

lemma content_range_ok:
  assumes "headers_ok con" "absent con ''Content-Range''" "buffer_wf (re_tmp_buf con)" "0 \<le> rs_start st" "rs_start st < 2 ^ 63"
    "- (2 ^ 63) \<le> rs_end st" "rs_end st < 2 ^ 63" "0 \<le> z" "z < 2 ^ 63"
  shows "\<exists>con' d t. content_range z st con = Some con' \<and> buffer_wf t \<and> headers_ok con' \<and> same_rest (con\<lparr>re_tmp_buf := t\<rparr>) con'
           \<and> entries con' = entries con @ [d] \<and> du_key d = Some ''Content-Range''
           \<and> du_value d = Some (''bytes '' @ itostr [] (rs_start st) @ ''-'' @ itostr [] (rs_end st) @ ''/'' @ itostr [] z)"
proof -
  let ?ss = "[itostr [] (rs_start st), ''-'', itostr [] (rs_end st), ''/'', itostr [] z]"
  have run: "content_range z st con = do { b \<leftarrow> buffer_copy_string_len (re_tmp_buf con) ''bytes ''; b \<leftarrow> append_strings b ?ss;
      response_header_insert (con\<lparr>re_tmp_buf := b\<rparr>) ''Content-Range'' (buffer_content b) }"
    using assms(4-9) by (simp add: content_range_def append_int_string)
  have n: "fits 200" by (simp add: fits_def PTRDIFF_MAX_def)
  have "fits (length ''bytes '')" by (rule fits_mono [OF n]) simp
  then obtain b where b: "buffer_copy_string_len (re_tmp_buf con) ''bytes '' = Some b" "buffer_wf b" "buffer_content b = ''bytes ''" "0 < b_used b"
    using new_string [OF assms(3)] by blast
  have "length (itostr [] (rs_start st)) \<le> 20" "length (itostr [] (rs_end st)) \<le> 20" "length (itostr [] z) \<le> 20"
    using itostr_length assms by simp_all
  then have "fits (length (buffer_content b) + length (concat ?ss))" by (intro fits_mono [OF n]) (simp add: b(3))
  then obtain t where t: "append_strings b ?ss = Some t" "buffer_wf t" "buffer_content t = buffer_content b @ concat ?ss"
    using append_strings_ok [OF b(2) _ b(4)] by blast
  define c where "c = con\<lparr>re_tmp_buf := t\<rparr>"
  have f: "re_headers c = re_headers con" "re_fixed c = re_fixed con" by (simp_all add: c_def)
  have "headers_ok c" "absent c ''Content-Range''" using headers_cong [OF f] absent_cong [OF f] assms(1,2) by simp_all
  then obtain c' d where c': "response_header_insert c ''Content-Range'' (buffer_content t) = Some c'" "headers_ok c'" "same_rest c c'"
      "entries c' = entries c @ [d]" "du_key d = Some ''Content-Range''" "du_value d = Some (buffer_content t)"
    using response_header_insert_ok by blast
  have "content_range z st con = Some c'"
    unfolding run using b(1) t(1) c'(1) by (simp add: c_def del: append_strings.simps)
  moreover have "entries c = entries con" by (rule entries_cong [OF f])
  moreover have "buffer_content t = ''bytes '' @ itostr [] (rs_start st) @ ''-'' @ itostr [] (rs_end st) @ ''/'' @ itostr [] z"
    by (simp add: t(3) b(3))
  ultimately show ?thesis using t(2) c'(2-6) by (intro exI [of _ c'] exI [of _ d] exI [of _ t]) (simp add: c_def)
qed

lemma end_multipart_ok:
  assumes "headers_ok con" "buffer_wf (re_tmp_buf con)" "cq_wf (o_queue (re_out con))"
  shows "\<exists>con' c1 t. end_multipart con = Some con' \<and> queued_part con (map MemByte closing_text) c1 \<and> buffer_wf t \<and> headers_ok con'
           \<and> same_rest (c1\<lparr>re_tmp_buf := t\<rparr>) con'
           \<and> (if absent con ''Content-Type''
              then \<exists>d. entries con' = entries con @ [d] \<and> du_key d = Some ''Content-Type''
                   \<and> du_value d = Some (''multipart/byteranges; boundary='' @ range_boundary)
              else entries con' = map (\<lambda>e. if entry_key e = ckey ''Content-Type''
                     then e\<lparr>du_value := Some (''multipart/byteranges; boundary='' @ range_boundary)\<rparr> else e) (entries con))"
proof -
  have n: "fits 200" by (simp add: fits_def PTRDIFF_MAX_def)
  have f1: "fits (length (CRLF @ ''--''))" by (rule fits_mono [OF n]) simp
  obtain b where b: "buffer_copy_string_len buffer_init (CRLF @ ''--'') = Some b" "buffer_wf b" "buffer_content b = CRLF @ ''--''" "0 < b_used b"
    using new_string [OF buffer_init_wf(1) f1] by blast
  have "fits (length (buffer_content b) + length (concat [range_boundary, ''--'' @ CRLF]))"
    by (rule fits_mono [OF n]) (simp add: b(3) range_boundary_def)
  then obtain h where h: "append_strings b [range_boundary, ''--'' @ CRLF] = Some h" "buffer_wf h"
      "buffer_content h = buffer_content b @ concat [range_boundary, ''--'' @ CRLF]"
    using append_strings_ok [OF b(2) _ b(4)] by blast
  have hc: "buffer_content h = closing_text" by (simp add: h(3) b(3) closing_text_def)
  obtain c1 where c1: "queue_text_part con h = Some c1" "queued_part con (map MemByte closing_text) c1"
    using queue_text_ok [OF assms(3) h(2)] hc by auto
  note q = queued_partD [OF c1(2)]
  have f2: "fits (length ''multipart/byteranges; boundary='')" by (rule fits_mono [OF n]) simp
  obtain t0 where t0: "buffer_copy_string_len (re_tmp_buf con) ''multipart/byteranges; boundary='' = Some t0" "buffer_wf t0"
      "buffer_content t0 = ''multipart/byteranges; boundary=''" "0 < b_used t0"
    using new_string [OF assms(2) f2] by blast
  have "length (buffer_content t0) + length range_boundary \<le> 200" by (simp add: t0(3) range_boundary_def)
  then obtain t where t: "buffer_append_string_len t0 range_boundary = Some t" "buffer_wf t"
      "buffer_content t = ''multipart/byteranges; boundary='' @ range_boundary"
    using add_string [OF t0(2) n] t0(3) by auto
  define c where "c = c1\<lparr>re_tmp_buf := t\<rparr>"
  have f: "re_headers c = re_headers con" "re_fixed c = re_fixed con" by (simp_all add: c_def q)
  have ok: "headers_ok c" using headers_cong [OF f] assms(1) by simp
  obtain c' where c': "response_header_overwrite c ''Content-Type'' (buffer_content t) = Some c'" "headers_ok c'" "same_rest c c'"
      "if absent c ''Content-Type''
       then \<exists>d. entries c' = entries c @ [d] \<and> du_key d = Some ''Content-Type'' \<and> du_value d = Some (buffer_content t)
              \<and> du_type d \<in> {TYPE_STRING, TYPE_RESPONSE}
       else entries c' = map (\<lambda>e. if entry_key e = ckey ''Content-Type'' then e\<lparr>du_value := Some (buffer_content t)\<rparr> else e) (entries c)"
    using response_header_overwrite_ok [OF ok name_simps(1)] by blast
  have run: "end_multipart con = do { b \<leftarrow> buffer_copy_string_len buffer_init (CRLF @ ''--'');
      b \<leftarrow> append_strings b [range_boundary, ''--'' @ CRLF]; con \<leftarrow> queue_text_part con b;
      b \<leftarrow> buffer_copy_string_len (re_tmp_buf con) ''multipart/byteranges; boundary='';
      b \<leftarrow> buffer_append_string_len b range_boundary;
      response_header_overwrite (con\<lparr>re_tmp_buf := b\<rparr>) ''Content-Type'' (buffer_content b) }"
    by (simp add: end_multipart_def boundary_string)
  have "end_multipart con = Some c'"
    unfolding run using b(1) h(1) c1(1) t0(1) t(1) c'(1) q(4) by (simp add: c_def del: append_strings.simps)
  moreover have "if absent con ''Content-Type''
       then \<exists>d. entries c' = entries con @ [d] \<and> du_key d = Some ''Content-Type''
              \<and> du_value d = Some (''multipart/byteranges; boundary='' @ range_boundary)
       else entries c' = map (\<lambda>e. if entry_key e = ckey ''Content-Type''
              then e\<lparr>du_value := Some (''multipart/byteranges; boundary='' @ range_boundary)\<rparr> else e) (entries con)"
    using c'(4) unfolding absent_cong [OF f] entries_cong [OF f] t(3) by meson
  ultimately show ?thesis using c1(2) t(2) c'(2,3) unfolding c_def by blast
qed

text \<open>The content type that the parts are announced with.\<close>

definition content_type_ptr :: "response_con \<Rightarrow> string option" where
  "content_type_ptr con = (case array_view (show_headers con) (ckey ''Content-Type'') of None \<Rightarrow> None | Some d \<Rightarrow> du_value d)"

definition content_type_of :: "response_con \<Rightarrow> string" where
  "content_type_of con = abs_bytes (content_type_ptr con)"

definition range_names :: "string set" where
  "range_names = {''Content-Range'', ''Content-Type''}"

definition absent_kept :: "response_con \<Rightarrow> response_con \<Rightarrow> bool" where
  "absent_kept con con' \<longleftrightarrow> (\<forall>n. (\<forall>m \<in> range_names. ckey n \<noteq> ckey m) \<longrightarrow> absent con' n = absent con n)"

definition answer_kept :: "response_con \<Rightarrow> response_con \<Rightarrow> bool" where
  "answer_kept con con' \<longleftrightarrow> re_file_finished con' = re_file_finished con \<and> re_etag con' = re_etag con
     \<and> re_mode con' = re_mode con \<and> absent_kept con con' \<and> same_request con con'"

lemma queued_part_kept: "queued_part con os con' \<Longrightarrow> answer_kept con con'"
  using queued_partD [of con os con'] absent_cong [of con' con] queued_part_request [of con os con']
  by (simp add: answer_kept_def absent_kept_def)

lemma answer_kept_trans: "answer_kept a b \<Longrightarrow> answer_kept b c \<Longrightarrow> answer_kept a c"
  unfolding answer_kept_def absent_kept_def using same_request_trans by auto

text \<open>The end of the reply: the closing boundary, or the field that names the range.\<close>

definition range_value :: "int \<Rightarrow> int \<Rightarrow> int \<Rightarrow> string" where
  "range_value a b z = ''bytes '' @ itostr [] a @ ''-'' @ itostr [] b @ ''/'' @ itostr [] z"

definition range_header :: "response_con \<Rightarrow> response_con \<Rightarrow> int \<Rightarrow> int \<Rightarrow> int \<Rightarrow> bool" where
  "range_header con con' a b z \<longleftrightarrow> (\<exists>d. entries con' = entries con @ [d] \<and> du_key d = Some ''Content-Range''
     \<and> du_value d = Some (range_value a b z))"

definition multipart_header :: "response_con \<Rightarrow> response_con \<Rightarrow> bool" where
  "multipart_header con con' \<longleftrightarrow> (let v = ''multipart/byteranges; boundary='' @ range_boundary in
     if absent con ''Content-Type''
     then \<exists>d. entries con' = entries con @ [d] \<and> du_key d = Some ''Content-Type'' \<and> du_value d = Some v
     else entries con' = map (\<lambda>e. if entry_key e = ckey ''Content-Type'' then e\<lparr>du_value := Some v\<rparr> else e) (entries con))"

lemma header_written_cong:
  assumes "re_headers c = re_headers con" "re_fixed c = re_fixed con"
  shows "range_header c con' a b z = range_header con con' a b z" "multipart_header c con' = multipart_header con con'"
  using entries_cong [OF assms] absent_cong [OF assms] by (simp_all add: range_header_def multipart_header_def del: ckey_simps)

lemma finish_ok:
  assumes "headers_ok con" "absent con ''Content-Range''" "cq_wf (o_queue (re_out con))" "buffer_wf (re_tmp_buf con)"
    "\<not> rs_multipart st \<longrightarrow> 0 \<le> rs_start st \<and> rs_start st < 2 ^ 63 \<and> - (2 ^ 63) \<le> rs_end st \<and> rs_end st < 2 ^ 63" "0 \<le> z" "z < 2 ^ 63"
  shows "\<exists>con'. (if rs_multipart st then end_multipart con else content_range z st con) = Some con'
     \<and> out_octets (re_out con') = out_octets (re_out con) @ map MemByte (if rs_multipart st then closing_text else [])
     \<and> re_content_length con' = re_content_length con + int (length (if rs_multipart st then closing_text else []))
     \<and> cq_wf (o_queue (re_out con')) \<and> headers_ok con' \<and> buffer_wf (re_tmp_buf con') \<and> answer_kept con con'
     \<and> re_http_status con' = re_http_status con
     \<and> (if rs_multipart st then multipart_header con con' else range_header con con' (rs_start st) (rs_end st) z)"
proof (cases "rs_multipart st")
  case True
  obtain con' c1 t where e: "end_multipart con = Some con'" "queued_part con (map MemByte closing_text) c1" "buffer_wf t" "headers_ok con'"
      "same_rest (c1\<lparr>re_tmp_buf := t\<rparr>) con'"
      "if absent con ''Content-Type''
       then \<exists>d. entries con' = entries con @ [d] \<and> du_key d = Some ''Content-Type''
              \<and> du_value d = Some (''multipart/byteranges; boundary='' @ range_boundary)
       else entries con' = map (\<lambda>e. if entry_key e = ckey ''Content-Type''
              then e\<lparr>du_value := Some (''multipart/byteranges; boundary='' @ range_boundary)\<rparr> else e) (entries con)"
    using end_multipart_ok [OF assms(1,4,3)] by blast
  note q = queued_partD [OF e(2)] and r = same_restD [OF e(5)] and r2 = same_restD2 [OF e(5)]
  have "absent con' n = absent con n" if "ckey n \<noteq> ckey ''Content-Type''" for n
  proof (cases "absent con ''Content-Type''")
    case True
    then obtain d where d: "entries con' = entries con @ [d]" "du_key d = Some ''Content-Type''" using e(6) by auto
    show ?thesis using absent_append [OF d(1)] entry_key_Some [OF d(2)] that by metis
  next
    case False
    then have "entries con' = map (\<lambda>e. if entry_key e = ckey ''Content-Type''
              then e\<lparr>du_value := Some (''multipart/byteranges; boundary='' @ range_boundary)\<rparr> else e) (entries con)" using e(6) by simp
    from absent_map [OF this] show ?thesis by (simp add: entry_key_def)
  qed
  then have "absent_kept con con'" unfolding absent_kept_def range_names_def by blast
  moreover have "same_request con con'"
    using queued_part_request [OF e(2)] r by (simp add: same_request_def)
  moreover have "multipart_header con con'" unfolding multipart_header_def Let_def by (rule e(6))
  ultimately show ?thesis using True e(1,3,4) q r r2 by (simp add: answer_kept_def)
next
  case False
  obtain con' d t where e: "content_range z st con = Some con'" "buffer_wf t" "headers_ok con'" "same_rest (con\<lparr>re_tmp_buf := t\<rparr>) con'"
      "entries con' = entries con @ [d]" "du_key d = Some ''Content-Range''"
      "du_value d = Some (''bytes '' @ itostr [] (rs_start st) @ ''-'' @ itostr [] (rs_end st) @ ''/'' @ itostr [] z)"
    using content_range_ok [OF assms(1,2,4), of st z] assms(5-7) False by blast
  note r = same_restD [OF e(4)] and r2 = same_restD2 [OF e(4)]
  have v: "du_value d = Some (range_value (rs_start st) (rs_end st) z)" using e(7) by (simp add: range_value_def)
  have "absent con' n = absent con n" if "ckey n \<noteq> ckey ''Content-Range''" for n
    using absent_append [OF e(5)] entry_key_Some [OF e(6)] that by metis
  then have "absent_kept con con'" unfolding absent_kept_def range_names_def by blast
  moreover have "same_request con con'" using r by (simp add: same_request_def)
  moreover have "range_header con con' (rs_start st) (rs_end st) z" using e(5,6) v by (simp add: range_header_def del: absent_append)
  ultimately show ?thesis using False e(1-3) r r2 assms(3) by (simp add: answer_kept_def del: absent_append)
qed

definition first_state :: "string \<Rightarrow> int \<Rightarrow> range_state" where
  "first_state r z = \<lparr>rs_s = r, rs_start = 0, rs_end = z - 1, rs_multipart = False\<rparr>"

lemma http_response_parse_range_eq:
  assumes "headers_ok con"
  shows "http_response_parse_range con r path z = do {
     (error, st, con) \<leftarrow> range_loop path z (content_type_ptr con) (first_state r z) (con\<lparr>re_content_length := 0\<rparr>);
     if error then Some (-1, con)
     else do {
       con \<leftarrow> (if rs_multipart st then end_multipart con else content_range z st con);
       Some (0, con)
     }
   }"
proof -
  have v: "show_headers (con\<lparr>re_content_length := 0\<rparr>) = show_headers con" by (simp add: show_headers_def)
  show ?thesis
    unfolding http_response_parse_range_def Let_def v array_get_element_ok [OF headers_okD(1) [OF assms]]
    by (simp add: content_type_ptr_def first_state_def)
qed

lemma http_response_parse_range_ok:
  assumes "headers_ok con" "absent con ''Content-Range''" "cq_wf (o_queue (re_out con))" "buffer_wf (re_tmp_buf con)"
    "0 \<le> z" "z < 2 ^ 63" "fits (length (content_type_of con) + 200)"
  shows "\<exists>rc con' ps m. http_response_parse_range con r path z = Some (rc, con') \<and> (rc = 0 \<or> rc = -1)
     \<and> (\<forall>p \<in> set ps. fst p = m \<and> inside z p) \<and> length ps \<le> length r
     \<and> (let os = concat (map (range_octets path z (content_type_of con)) ps) @ map MemByte (if rc = 0 \<and> m then closing_text else [])
        in out_octets (re_out con') = out_octets (re_out con) @ os \<and> re_content_length con' = int (length os))
     \<and> cq_wf (o_queue (re_out con')) \<and> headers_ok con' \<and> buffer_wf (re_tmp_buf con') \<and> answer_kept con con'
     \<and> (re_http_status con' = re_http_status con \<or> rc = -1 \<and> re_http_status con' = 416)
     \<and> (if rc = -1 then entries con' = entries con
         else if m then multipart_header con con'
         else \<exists>a b. range_header con con' a b z \<and> (ps = [(False, a, b)] \<or> ps = [] \<and> a = 0 \<and> b = z - 1))"
proof -
  define c0 where "c0 = con\<lparr>re_content_length := 0\<rparr>"
  define st where "st = first_state r z"
  define ct where "ct = content_type_ptr con"
  have ct: "abs_bytes ct = content_type_of con" by (simp add: ct_def content_type_of_def)
  have f0: "re_headers c0 = re_headers con" "re_fixed c0 = re_fixed con" by (simp_all add: c0_def)
  have w0: "cq_wf (o_queue (re_out c0))" "fits (length (abs_bytes ct) + 200)" using assms(3,7) by (simp_all add: c0_def ct)
  obtain err st' ps c1 c2 where l: "range_loop path z ct st c0 = Some (err, st', c2)"
      "queued_part c0 (concat (map (range_octets path z (abs_bytes ct)) ps)) c1" "\<forall>p \<in> set ps. inside z p" "length ps \<le> length (rs_s st)"
      "c2 = c1 \<or> err \<and> c2 = c1\<lparr>re_http_status := 416\<rparr>" "\<forall>p \<in> set ps. fst p = rs_multipart st'"
      "\<not> err \<and> \<not> rs_multipart st' \<longrightarrow> st' = st \<and> ps = [] \<or> ps = [(False, rs_start st', rs_end st')]"
    using range_loop_ok [OF w0(1) assms(6) w0(2), of path st] by blast
  note q = queued_partD [OF l(2)]
  have f1: "re_headers c1 = re_headers con" "re_fixed c1 = re_fixed con" using q(1,2) f0 by simp_all
  have h1: "headers_ok c1" "absent c1 n = absent con n" for n using headers_cong [OF f1] assms(1) absent_cong [OF f1] by simp_all
  have k0: "answer_kept con c0" using absent_cong [OF f0] by (simp add: answer_kept_def absent_kept_def c0_def same_request_def)
  have k1: "answer_kept con c1" using answer_kept_trans [OF k0 queued_part_kept [OF l(2)]] .
  show ?thesis
  proof (cases err)
    case True
    then have run: "http_response_parse_range con r path z = Some (-1, c2)"
      using http_response_parse_range_eq [OF assms(1)] l(1) by (simp add: ct_def st_def c0_def)
    have f2: "re_headers c2 = re_headers con" "re_fixed c2 = re_fixed con" using l(5) f1 by auto
    have "headers_ok c2" using headers_cong [OF f2] assms(1) by simp
    moreover have "answer_kept con c2"
    proof -
      have "absent_kept con c2" using absent_cong [OF f2] by (simp add: absent_kept_def)
      moreover have "answer_kept con c1 \<and> absent_kept con c2 \<longrightarrow> answer_kept con (c1\<lparr>re_http_status := 416\<rparr>) \<or> c2 = c1"
        using l(5) by (auto simp: answer_kept_def same_request_def)
      ultimately show ?thesis using k1 l(5) by blast
    qed
    moreover have "re_out c2 = re_out c1" "re_content_length c2 = re_content_length c1" "re_tmp_buf c2 = re_tmp_buf c1"
        "re_http_status c2 = re_http_status con \<or> re_http_status c2 = 416"
      using l(5) q(3) by (auto simp: c0_def)
    moreover have "entries c2 = entries con" by (rule entries_cong [OF f2])
    ultimately show ?thesis
      using run l(3,4,6) q assms(4) ct
      by (intro exI [of _ "-1"] exI [of _ c2] exI [of _ ps] exI [of _ "rs_multipart st'"]) (simp add: Let_def c0_def st_def first_state_def)
  next
    case False
    then have c2: "c2 = c1" using l(5) by simp
    have st': "\<not> rs_multipart st' \<longrightarrow> 0 \<le> rs_start st' \<and> rs_start st' < 2 ^ 63 \<and> - (2 ^ 63) \<le> rs_end st' \<and> rs_end st' < 2 ^ 63"
      using l(3,7) False assms(5,6) by (auto simp: inside_def st_def first_state_def)
    have "absent c1 ''Content-Range''" "buffer_wf (re_tmp_buf c1)" using h1(2) assms(2,4) q(4) by (simp_all add: c0_def)
    then obtain c3 where c3: "(if rs_multipart st' then end_multipart c1 else content_range z st' c1) = Some c3"
        "out_octets (re_out c3) = out_octets (re_out c1) @ map MemByte (if rs_multipart st' then closing_text else [])"
        "re_content_length c3 = re_content_length c1 + int (length (if rs_multipart st' then closing_text else []))"
        "cq_wf (o_queue (re_out c3))" "headers_ok c3" "buffer_wf (re_tmp_buf c3)" "answer_kept c1 c3"
        "re_http_status c3 = re_http_status c1"
        "if rs_multipart st' then multipart_header c1 c3 else range_header c1 c3 (rs_start st') (rs_end st') z"
      using finish_ok [OF h1(1) _ q(10) _ st' assms(5,6)] by blast
    have run: "http_response_parse_range con r path z = Some (0, c3)"
      using False http_response_parse_range_eq [OF assms(1)] l(1) c3(1) by (simp add: ct_def st_def c0_def c2 split del: if_split)
    have hd: "if rs_multipart st' then multipart_header con c3
        else \<exists>a b. range_header con c3 a b z \<and> (ps = [(False, a, b)] \<or> ps = [] \<and> a = 0 \<and> b = z - 1)"
      using c3(9) l(7) False header_written_cong [OF f1] by (auto simp: st_def first_state_def split: if_splits)
    show ?thesis
      using run l(3,4,6) q c3(1-8) hd answer_kept_trans [OF k1 c3(7)] ct
      by (intro exI [of _ 0] exI [of _ c3] exI [of _ ps] exI [of _ "rs_multipart st'"])
        (simp add: Let_def c0_def st_def first_state_def)
  qed
qed

subsection \<open>Ranges as a client writes them\<close>

datatype byte_range = Span nat nat | From nat | Suffix nat

fun show_range :: "byte_range \<Rightarrow> string" where
  "show_range (Span a b) = utostr [] a @ CHR ''-'' # utostr [] b"
| "show_range (From a) = utostr [] a @ ''-''"
| "show_range (Suffix n) = CHR ''-'' # utostr [] n"

fun show_ranges :: "byte_range list \<Rightarrow> string" where
  "show_ranges [] = []"
| "show_ranges [r] = show_range r"
| "show_ranges (r # r' # rs) = show_range r @ CHR '','' # show_ranges (r' # rs)"

text \<open>A range that has octets of a file of size \<open>z\<close>, and which: the first and the last.\<close>

fun satisfiable :: "int \<Rightarrow> byte_range \<Rightarrow> bool" where
  "satisfiable z (Span a b) = (a \<le> b \<and> int a < z \<and> b < 2 ^ 63)"
| "satisfiable z (From a) = (int a < z \<and> a < 2 ^ 63)"
| "satisfiable z (Suffix n) = (0 < n \<and> 0 < z \<and> n < 2 ^ 63)"

fun selected_octets :: "int \<Rightarrow> byte_range \<Rightarrow> int \<times> int" where
  "selected_octets z (Span a b) = (int a, min (int b) (z - 1))"
| "selected_octets z (From a) = (int a, z - 1)"
| "selected_octets z (Suffix n) = (max 0 (z - int n), z - 1)"

lemma no_hyphen: "CHR ''-'' \<notin> set (utostr [] v)"
  using utostr_digits [of "CHR ''-''" v] by (auto simp: light_isdigit_def)

lemma before_hyphen: "takeWhile (\<lambda>c. c \<noteq> CHR ''-'') (utostr [] v @ CHR ''-'' # r) = utostr [] v"
  using no_hyphen [of v] by (subst takeWhile_append2) auto

lemma number_not_comma: "List.hd (utostr [] v @ r) \<noteq> CHR '',''"
proof -
  have "light_isdigit (List.hd (utostr [] v))" by (rule utostr_digits) (rule hd_in_set, simp)
  then show ?thesis by (auto simp: light_isdigit_def)
qed

lemma range_shown:
  assumes "satisfiable z r" "rs_s st = show_range r @ rest" "rest = [] \<or> rest = CHR '','' # others"
  defines "m \<equiv> rs_multipart st \<or> rest \<noteq> []"
  shows "\<exists>st'. range_next z st = Inr st' \<and> clip_range z st'
     = Some (st\<lparr>rs_s := List.tl rest, rs_multipart := m, rs_start := fst (selected_octets z r), rs_end := snd (selected_octets z r)\<rparr>)"
proof -
  have rest: "rest = [] \<or> \<not> light_isdigit (List.hd rest)" using assms(3) by (auto simp: light_isdigit_def)
  have hy: "CHR ''-'' # q = [] \<or> \<not> light_isdigit (List.hd (CHR ''-'' # q))" for q by (simp add: light_isdigit_def)
  have rr: "range_rest st' rest = Some (st'\<lparr>rs_s := List.tl rest, rs_multipart := rs_multipart st' \<or> rest \<noteq> []\<rparr>)" for st'
    using assms(3) by (auto simp: range_rest_def)
  show ?thesis
  proof (cases r)
    case (Span a b)
    let ?s = "utostr [] a @ CHR ''-'' # utostr [] b @ rest"
    have v: "int a \<le> int b" "int a < z" "a < 2 ^ 63" "b < 2 ^ 63" using assms(1) Span by auto
    have s: "rs_s st = ?s" using assms(2) Span by simp
    have e: "strtol 10 ?s = (int a, CHR ''-'' # utostr [] b @ rest)" "strtol 10 (utostr [] b @ rest) = (int b, rest)"
      by (rule strtol_number(1) [OF v(3) hy], rule strtol_number(1) [OF v(4) rest])
    have n: "range_next z st = Inr (st\<lparr>rs_end := int b, rs_start := int a, rs_s := List.tl rest, rs_multipart := m\<rparr>)"
      unfolding range_next_def s before_hyphen Let_def e(1) using v(1) e(2) rr number_not_comma [of b rest] by (simp add: m_def)
    show ?thesis unfolding n using v Span by (simp add: clip_range_def Let_def)
  next
    case (From a)
    let ?s = "utostr [] a @ CHR ''-'' # rest"
    have v: "int a < z" "a < 2 ^ 63" using assms(1) From by auto
    have s: "rs_s st = ?s" using assms(2) From by simp
    have e: "strtol 10 ?s = (int a, CHR ''-'' # rest)" by (rule strtol_number(1) [OF v(2) hy])
    have n: "range_next z st = Inr (st\<lparr>rs_end := z - 1, rs_start := int a, rs_s := List.tl rest, rs_multipart := m\<rparr>)"
      unfolding range_next_def s before_hyphen Let_def e using rr assms(3) by (auto simp: m_def)
    show ?thesis unfolding n using v From by (simp add: clip_range_def Let_def)
  next
    case (Suffix k)
    let ?s = "CHR ''-'' # utostr [] k @ rest"
    have v: "0 < int k" "0 < z" "k < 2 ^ 63" using assms(1) Suffix by auto
    have s: "rs_s st = ?s" using assms(2) Suffix by simp
    have e: "strtol 10 ?s = (- int k, rest)" by (rule strtol_number(2) [OF v(3) rest])
    have n: "range_next z st = Inr (st\<lparr>rs_end := z - 1, rs_start := z + - int k, rs_s := List.tl rest, rs_multipart := m\<rparr>)"
      unfolding range_next_def s Let_def e using rr v(1) by (simp add: m_def)
    have "max (z + - int k) 0 = max 0 (z - int k)" by simp
    then show ?thesis unfolding n using v Suffix by (simp add: clip_range_def Let_def)
  qed
qed

lemma show_ranges_hyphen: "rs \<noteq> [] \<Longrightarrow> CHR ''-'' \<in> set (show_ranges rs)"
proof (induction rs rule: show_ranges.induct)
  case (2 r)
  then show ?case by (cases r) simp_all
next
  case (3 r r' rs)
  then show ?case by (cases r) simp_all
qed simp

lemma range_loop_shown:
  assumes "cq_wf (o_queue (re_out con))" "z < 2 ^ 63" "fits (length (abs_bytes ct) + 200)" "rs \<noteq> []" "\<forall>r \<in> set rs. satisfiable z r"
    "rs_s st = show_ranges rs"
  defines "m \<equiv> rs_multipart st \<or> 1 < length rs"
  shows "\<exists>st' con'. range_loop path z ct st con = Some (False, st', con')
     \<and> queued_part con (concat (map (\<lambda>r. range_octets path z (abs_bytes ct) (m, selected_octets z r)) rs)) con'
     \<and> rs_multipart st' = m \<and> (rs_start st', rs_end st') = selected_octets z (List.last rs)"
  using assms(1,4-6) unfolding m_def
proof (induction rs arbitrary: st con)
  case (Cons r rs)
  define rest where "rest = (if rs = [] then [] else CHR '','' # show_ranges rs)"
  have s: "rs_s st = show_range r @ rest" using Cons.prems(4) by (cases rs) (simp_all add: rest_def)
  have r: "rest = [] \<or> rest = CHR '','' # show_ranges rs" by (simp add: rest_def)
  have sat: "satisfiable z r" using Cons.prems(3) by simp
  define st2 where "st2 = st\<lparr>rs_s := List.tl rest, rs_multipart := rs_multipart st \<or> rest \<noteq> [],
      rs_start := fst (selected_octets z r), rs_end := snd (selected_octets z r)\<rparr>"
  obtain st1 where st1: "range_next z st = Inr st1" "clip_range z st1 = Some st2"
    using range_shown [OF sat s r] unfolding st2_def by blast
  note in' = range_next_inside [OF st1]
  have more: "\<not> (rs_s st = [] \<or> CHR ''-'' \<notin> set (rs_s st))"
    using show_ranges_hyphen [of "r # rs"] Cons.prems(4) by auto
  let ?m = "rs_multipart st \<or> 1 < length (r # rs)"
  have m: "rs_multipart st2 = ?m" by (cases rs) (simp_all add: st2_def rest_def)
  have sel: "(rs_start st2, rs_end st2) = selected_octets z r" by (simp add: st2_def)
  obtain c where c: "queue_range path z ct st2 con = Some c"
      "queued_part con (range_octets path z (abs_bytes ct) (rs_multipart st2, rs_start st2, rs_end st2)) c"
    using queue_range_ok [OF Cons.prems(1) in' assms(2,3)] by blast
  have run: "range_loop path z ct st con = range_loop path z ct st2 c"
    using range_loop.simps [of path z ct st con] more st1 c(1) by simp
  have q: "queued_part con (range_octets path z (abs_bytes ct) (?m, selected_octets z r)) c" using c(2) unfolding m sel .
  show ?case
  proof (cases "rs = []")
    case True
    then have "rs_s st2 = []" by (simp add: st2_def rest_def)
    then have "range_loop path z ct st2 c = Some (False, st2, c)" by (simp add: range_loop.simps)
    then show ?thesis using run q m sel True by (intro exI [of _ st2] exI [of _ c]) simp
  next
    case False
    have s2: "rs_s st2 = show_ranges rs" using False by (simp add: st2_def rest_def)
    have "\<forall>r \<in> set rs. satisfiable z r" using Cons.prems(3) by simp
    from Cons.IH [OF queued_part_wf [OF c(2)] False this s2]
    obtain st3 c3 where x: "range_loop path z ct st2 c = Some (False, st3, c3)"
        "queued_part c (concat (map (\<lambda>r. range_octets path z (abs_bytes ct) (rs_multipart st2 \<or> 1 < length rs, selected_octets z r)) rs)) c3"
        "rs_multipart st3 = (rs_multipart st2 \<or> 1 < length rs)" "(rs_start st3, rs_end st3) = selected_octets z (List.last rs)"
      by blast
    have mm: "(rs_multipart st2 \<or> 1 < length rs) = ?m" using m False by (cases rs) auto
    show ?thesis
      using run x(1,3,4) False queued_part_trans [OF q x(2)] unfolding mm by (intro exI [of _ st3] exI [of _ c3]) simp
  qed
qed simp

subsection \<open>The table\<close>






subsection \<open>Steps that add to the table\<close>










lemma element_absent:
  assumes "headers_ok con"
  shows "array_get_element_klen (show_headers con) k = Some (array_view (show_headers con) (ckey k))"
    "array_view (show_headers con) (ckey k) = None \<longleftrightarrow> absent con k"
  using array_get_element_ok [OF headers_okD(1) [OF assms]] by (simp_all add: absent_view)





subsection \<open>Conditions\<close>





subsection \<open>The body\<close>






lemma absent_kept_trans: "absent_kept a b \<Longrightarrow> absent_kept b c \<Longrightarrow> absent_kept a c"
  by (simp add: absent_kept_def)


subsection \<open>Sending a file\<close>












section \<open>Properties\<close>

text \<open>
  C12. Whatever a client writes in its \<open>Range\<close> field, \<open>http_response_parse_range\<close> returns, and puts
  nothing on the write queue but parts of the file that are not empty and inside of it. Either there
  are several ranges: then every part comes with the text that names exactly its octets and, when
  the field is accepted (return code 0), the closing boundary follows the last part and the field
  \<open>Content-Type\<close> says multipart with that boundary; or there is one: then its octets stand alone and
  the field \<open>Content-Range\<close> that is added names exactly them (the whole file when the field has no
  range at all and nothing is queued). When the field is refused (return code -1) no header field
  changes, the parts in front of the wrong one stay queued without a closing boundary, and the
  status may become 416. The length counted is the number of octets queued, and of the connection
  the \<open>ETag\<close> buffer, the mode, the request and the presence of every other header field are as before.
  Assumed: a well-formed header table without \<open>Content-Range\<close>, a well-formed write queue, and sizes
  of the file (below 2^63) and of the \<open>Content-Type\<close> that the buffers can hold.
\<close>

theorem ranges_stay_inside:
  assumes "headers_ok con" "absent con ''Content-Range''" "cq_wf (o_queue (re_out con))" "buffer_wf (re_tmp_buf con)"
    "0 \<le> z" "z < 2 ^ 63" "fits (length (content_type_of con) + 200)"
  shows "\<exists>rc con' ps m. http_response_parse_range con r path z = Some (rc, con') \<and> (rc = 0 \<or> rc = -1)
     \<and> (\<forall>p \<in> set ps. fst p = m \<and> inside z p) \<and> length ps \<le> length r
     \<and> (let os = concat (map (range_octets path z (content_type_of con)) ps) @ map MemByte (if rc = 0 \<and> m then closing_text else [])
        in out_octets (re_out con') = out_octets (re_out con) @ os \<and> re_content_length con' = int (length os))
     \<and> cq_wf (o_queue (re_out con')) \<and> headers_ok con' \<and> buffer_wf (re_tmp_buf con') \<and> answer_kept con con'
     \<and> (re_http_status con' = re_http_status con \<or> rc = -1 \<and> re_http_status con' = 416)
     \<and> (if rc = -1 then entries con' = entries con
         else if m then multipart_header con con'
         else \<exists>a b. range_header con con' a b z \<and> (ps = [(False, a, b)] \<or> ps = [] \<and> a = 0 \<and> b = z - 1))"
  by (rule http_response_parse_range_ok [OF assms])

text \<open>A blank in front of a suffix range: the hyphen is not the first octet, and no number is before it.\<close>

lemma blank_before_suffix_refused:
  "range_next z (st\<lparr>rs_s := '' -5''\<rparr>) = Inl False" (is ?A)
  "range_next z (st\<lparr>rs_s := ''-5''\<rparr>) = Inr (st\<lparr>rs_s := [], rs_end := z - 1, rs_start := z - 5\<rparr>)" (is ?B)
proof -
  have n: "strtol 10 '' -5'' = (-5, [])" "strtol 10 ''-5'' = (-5, [])" by code_simp+
  show ?A by (simp add: range_next_def Let_def n range_rest_def)
  show ?B by (simp add: range_next_def Let_def n range_rest_def)
qed

lemma plain_response_ok:
  "headers_ok plain_response" "\<And>n. absent plain_response n" "cq_wf (o_queue (re_out plain_response))" "buffer_wf (re_tmp_buf plain_response)"
  "content_type_of plain_response = []" "out_octets (re_out plain_response) = []"
proof -
  have r: "ready plain_response" using plain_response_own by (simp add: own_response_def)
  then show h: "headers_ok plain_response" by (rule readyD(1))
  have "show_headers plain_response = array_init"
    by (simp add: show_headers_def plain_response_def shown_def array_init_def)
  then have e: "entries plain_response = []" by (simp add: entries_def array_entries_def array_init_def)
  then show ab: "\<And>n. absent plain_response n" by (simp add: absent_def)
  then have "array_view (show_headers plain_response) (ckey ''Content-Type'') = None" using element_absent(2) [OF h] by blast
  then show "content_type_of plain_response = []" by (simp add: content_type_of_def content_type_ptr_def del: ckey_simps)
  show "cq_wf (o_queue (re_out plain_response))" "buffer_wf (re_tmp_buf plain_response)"
    using readyD(2) [OF r] by (simp_all add: rest_ok_def out_wf_def)
  show "out_octets (re_out plain_response) = []" using Chunk.init_ok(2) by (simp add: plain_response_def out_octets_def)
qed

theorem ranges_stay_inside_witness:
  "\<exists>rc con'. http_response_parse_range plain_response ''2-,-0,x'' (Some ''f'') 10 = Some (rc, con') \<and> headers_ok con'"
proof -
  have "fits (length (content_type_of plain_response) + 200)" by (simp add: plain_response_ok fits_def PTRDIFF_MAX_def)
  then show ?thesis
    using ranges_stay_inside [OF plain_response_ok(1,2,3,4), of 10 "''2-,-0,x''" "Some ''f''"] by auto
qed

text \<open>
  C11. A \<open>Range\<close> field in the plain form that clients write is answered as it asks. The plain form
  is what \<open>show_ranges\<close> prints: \<open>a-b\<close>, \<open>a-\<close> or \<open>-n\<close> with decimal numbers below 2^63 and without leading
  zeros, set apart by single commas, with no blank anywhere; and every range must be satisfiable,
  that is have octets of the file. Then a single range is answered with
  exactly these octets of the file (a last octet behind the end means the end, a suffix longer than
  the file the whole file) and a \<open>Content-Range\<close> that names them; several with one part for each, in
  their order, the closing boundary, and the \<open>Content-Type\<close> of a multipart body. Nothing is claimed
  of other spellings: a blank before a suffix range, which HTTP allows in a list, is refused
  (\<open>blank_before_suffix_refused\<close>).
\<close>

theorem ranges_answered:
  assumes "headers_ok con" "absent con ''Content-Range''" "cq_wf (o_queue (re_out con))" "buffer_wf (re_tmp_buf con)"
    "0 \<le> z" "z < 2 ^ 63" "fits (length (content_type_of con) + 200)" "rs \<noteq> []" "\<forall>r \<in> set rs. satisfiable z r"
  shows "\<exists>con'. http_response_parse_range con (show_ranges rs) path z = Some (0, con')
     \<and> (if length rs = 1
        then (\<exists>a b d. selected_octets z (List.hd rs) = (a, b) \<and> out_octets (re_out con') = out_octets (re_out con) @ file_piece path a (b - a + 1)
               \<and> entries con' = entries con @ [d] \<and> du_key d = Some ''Content-Range'' \<and> du_value d = Some (range_value a b z))
        else multipart_header con con' \<and> out_octets (re_out con') = out_octets (re_out con)
               @ concat (map (\<lambda>r. range_octets path z (content_type_of con) (True, selected_octets z r)) rs) @ map MemByte closing_text)"
proof -
  define c0 where "c0 = con\<lparr>re_content_length := 0\<rparr>"
  have f0: "re_headers c0 = re_headers con" "re_fixed c0 = re_fixed con" by (simp_all add: c0_def)
  have w: "cq_wf (o_queue (re_out c0))" "fits (length (abs_bytes (content_type_ptr con)) + 200)" "rs_s (first_state (show_ranges rs) z) = show_ranges rs"
    using assms(3,7) by (simp_all add: c0_def content_type_of_def first_state_def)
  let ?m = "1 < length rs"
  obtain st c1 where l: "range_loop path z (content_type_ptr con) (first_state (show_ranges rs) z) c0 = Some (False, st, c1)"
      "queued_part c0 (concat (map (\<lambda>r. range_octets path z (content_type_of con) (?m, selected_octets z r)) rs)) c1"
      "rs_multipart st = ?m" "(rs_start st, rs_end st) = selected_octets z (List.last rs)"
    using range_loop_shown [OF w(1) assms(6) w(2) assms(8,9) w(3), of path] by (auto simp: first_state_def content_type_of_def)
  note q = queued_partD [OF l(2)]
  have f1: "re_headers c1 = re_headers con" "re_fixed c1 = re_fixed con" using q(1,2) f0 by simp_all
  have h1: "headers_ok c1" "absent c1 ''Content-Range''" "entries c1 = entries con"
    using headers_cong [OF f1] absent_cong [OF f1] entries_cong [OF f1] assms(1,2) by (simp_all del: ckey_simps)
  have "satisfiable z (List.last rs)" using assms(8,9) by simp
  then have "0 \<le> rs_start st \<and> rs_start st < z \<and> rs_end st < z \<and> 0 \<le> rs_end st" using l(4) by (cases "List.last rs") auto
  then have st': "\<not> rs_multipart st \<longrightarrow> 0 \<le> rs_start st \<and> rs_start st < 2 ^ 63 \<and> - (2 ^ 63) \<le> rs_end st \<and> rs_end st < 2 ^ 63"
    using assms(6) by auto
  have tb: "buffer_wf (re_tmp_buf c1)" using q(4) assms(4) by (simp add: c0_def)
  obtain c3 where c3: "(if rs_multipart st then end_multipart c1 else content_range z st c1) = Some c3"
      "out_octets (re_out c3) = out_octets (re_out c1) @ map MemByte (if rs_multipart st then closing_text else [])"
      "if rs_multipart st then multipart_header c1 c3 else range_header c1 c3 (rs_start st) (rs_end st) z"
    using finish_ok [OF h1(1,2) q(10) tb st' assms(5,6)] by blast
  have run: "http_response_parse_range con (show_ranges rs) path z = Some (0, c3)"
    using http_response_parse_range_eq [OF assms(1)] l(1) c3(1) by (simp add: c0_def split del: if_split)
  have out: "out_octets (re_out c1) = out_octets (re_out con)
      @ concat (map (\<lambda>r. range_octets path z (content_type_of con) (?m, selected_octets z r)) rs)" using q(7) by (simp add: c0_def)
  show ?thesis
  proof (cases "length rs = 1")
    case True
    then obtain r where r: "rs = [r]" by (cases rs) auto
    then have "selected_octets z r = (rs_start st, rs_end st)" using l(4) by simp
    moreover have "out_octets (re_out c3) = out_octets (re_out con) @ file_piece path (rs_start st) (rs_end st - rs_start st + 1)"
      using c3(2) out l(3) r \<open>selected_octets z r = (rs_start st, rs_end st)\<close> by (simp add: range_octets_def)
    ultimately show ?thesis using run c3(3) l(3) r h1(3) by (auto simp: range_header_def)
  next
    case False
    then have ?m using assms(8) by (cases rs) auto
    then show ?thesis using run False c3(2,3) out l(3) header_written_cong(2) [OF f1] by simp
  qed
qed

theorem ranges_answered_witness:
  "\<exists>con'. http_response_parse_range plain_response ''2-4,-3'' (Some ''f'') 10 = Some (0, con')
     \<and> multipart_header plain_response con' \<and> out_octets (re_out con') = range_octets (Some ''f'') 10 [] (True, 2, 4) @ range_octets (Some ''f'') 10 [] (True, 7, 9) @ map MemByte closing_text"
proof -
  have f: "fits (length (content_type_of plain_response) + 200)" by (simp add: plain_response_ok fits_def PTRDIFF_MAX_def)
  have s: "show_ranges [Span 2 4, Suffix 3] = ''2-4,-3''" by code_simp
  show ?thesis
    using ranges_answered [OF plain_response_ok(1,2,3,4) _ _ f, of 10 "[Span 2 4, Suffix 3]" "Some ''f''"]
    by (simp add: s [simplified] plain_response_ok)
qed






section \<open>Where the code goes wrong\<close>

text \<open>A field without any range in it is answered with status 206, the whole file in \<open>Content-Range\<close>, and no body.\<close>

lemma no_range_no_body:
  "\<exists>con' d. http_response_parse_range plain_response ''x'' (Some ''f'') 10 = Some (0, con') \<and> out_octets (re_out con') = []
     \<and> entries con' = [d] \<and> du_value d = Some ''bytes 0-9/10''"
proof -
  define c0 where "c0 = plain_response\<lparr>re_content_length := 0\<rparr>"
  have f: "re_headers c0 = re_headers plain_response" "re_fixed c0 = re_fixed plain_response" by (simp_all add: c0_def)
  have l: "range_loop (Some ''f'') 10 (content_type_ptr plain_response) (first_state ''x'' 10) c0 = Some (False, first_state ''x'' 10, c0)"
    by (simp add: range_loop.simps first_state_def)
  have h: "headers_ok c0" "absent c0 ''Content-Range''" "cq_wf (o_queue (re_out c0))" "buffer_wf (re_tmp_buf c0)"
    using headers_cong [OF f] absent_cong [OF f] plain_response_ok by (simp_all add: c0_def del: ckey_simps)
  have m: "\<not> rs_multipart (first_state ''x'' 10)" by (simp add: first_state_def)
  have st: "\<not> rs_multipart (first_state ''x'' 10) \<longrightarrow> 0 \<le> rs_start (first_state ''x'' 10) \<and> rs_start (first_state ''x'' 10) < 2 ^ 63
      \<and> - (2 ^ 63) \<le> rs_end (first_state ''x'' 10) \<and> rs_end (first_state ''x'' 10) < 2 ^ 63" by (simp add: first_state_def)
  obtain c d where c: "content_range 10 (first_state ''x'' 10) c0 = Some c" "out_octets (re_out c) = out_octets (re_out c0)"
      "entries c = entries c0 @ [d]" "du_value d = Some (range_value 0 9 10)"
    using finish_ok [OF h st, of 10] m by (auto simp: first_state_def range_header_def)
  have "entries c0 = []" using entries_cong [OF f] by (simp add: entries_def show_headers_def plain_response_def shown_def array_init_def array_entries_def)
  moreover have "range_value 0 9 10 = ''bytes 0-9/10''" by code_simp
  ultimately show ?thesis
    using http_response_parse_range_eq [OF plain_response_ok(1)] l c m plain_response_ok(6) by (simp add: c0_def)
qed

text \<open>A date that is a proper beginning of the time of the file ends the handling without a status.\<close>

lemma short_date_unanswered:
  assumes "m = since @ r" "r \<noteq> []" "NUL \<notin> set m" "CHR '';'' \<notin> set since"
  shows "unmodified_since dl con since (Some m) = Some (HANDLER_FINISHED, con)"
proof -
  have m: "cstr m = m" using assms(3) by (simp add: cstr_no_nul)
  have tw: "takeWhile (\<lambda>c. c \<noteq> CHR '';'') since = since" using assms(4) by (simp add: takeWhile_eq_all_conv) (metis)
  show ?thesis unfolding unmodified_since_def Let_def tw using assms(1,2) m by simp
qed

end
