(* ===== verification/SockAddr.thy ===== *)
theory SockAddr
  imports RequestHost "HOL-Library.Word"
begin

unbundle bit_operations_syntax

text \<open>
  Socket addresses, \<open>src/src/sock_addr.c\<close>: comparison of two addresses, whole or in their first
  bits (the netmasks of conditions on the address of the client).  An IPv4 address is the 32-bit
  number \<open>ntohl(sin_addr)\<close>, an IPv6 address its 16 bytes, as both are in memory.
\<close>

section \<open>Operations\<close>

datatype sockaddr =
    AF_INET (sin_port: nat) (sin_addr: "32 word")
  | AF_INET6 (sin_port: nat) (sin6_addr: "8 word list")
  | AF_UNIX (sun_path: string)

text \<open>What \<open>sock_addr_inet_pton\<close> leaves in its argument.\<close>

definition addr6_bytes :: "nat \<Rightarrow> 8 word list" where
  "addr6_bytes n = map (\<lambda>i. word_of_nat (n div 256 ^ (15 - i))) [0..<16]"

fun sockaddr_of :: "sock_addr \<Rightarrow> sockaddr" where
  "sockaddr_of (IPv4 n) = AF_INET 0 (word_of_nat n)"
| "sockaddr_of (IPv6 n) = AF_INET6 0 (addr6_bytes n)"

fun sock_addr_get_port :: "sockaddr \<Rightarrow> nat" where
  "sock_addr_get_port (AF_INET p a) = p"
| "sock_addr_get_port (AF_INET6 p a) = p"
| "sock_addr_get_port (AF_UNIX path) = 0"

fun sock_addr_is_addr_wildcard :: "sockaddr \<Rightarrow> bool" where
  "sock_addr_is_addr_wildcard (AF_INET p a) = (a = 0)"
| "sock_addr_is_addr_wildcard (AF_INET6 p a) = (a = replicate 16 0)"
| "sock_addr_is_addr_wildcard (AF_UNIX path) = False"

fun sock_addr_is_family_eq :: "sockaddr \<Rightarrow> sockaddr \<Rightarrow> bool" where
  "sock_addr_is_family_eq (AF_INET p a) (AF_INET q b) = True"
| "sock_addr_is_family_eq (AF_INET6 p a) (AF_INET6 q b) = True"
| "sock_addr_is_family_eq (AF_UNIX s) (AF_UNIX t) = True"
| "sock_addr_is_family_eq a b = False"

fun sock_addr_is_port_eq :: "sockaddr \<Rightarrow> sockaddr \<Rightarrow> bool" where
  "sock_addr_is_port_eq (AF_INET p a) (AF_INET q b) = (p = q)"
| "sock_addr_is_port_eq (AF_INET6 p a) (AF_INET6 q b) = (p = q)"
| "sock_addr_is_port_eq (AF_UNIX s) (AF_UNIX t) = True"
| "sock_addr_is_port_eq a b = False"

fun sock_addr_is_addr_eq :: "sockaddr \<Rightarrow> sockaddr \<Rightarrow> bool" where
  "sock_addr_is_addr_eq (AF_INET p a) (AF_INET q b) = (a = b)"
| "sock_addr_is_addr_eq (AF_INET6 p a) (AF_INET6 q b) = (a = b)"
| "sock_addr_is_addr_eq (AF_UNIX s) (AF_UNIX t) = (cstr s = cstr t)"
| "sock_addr_is_addr_eq a b = False"

text \<open>\<open>IN6_IS_ADDR_V4MAPPED\<close> of the C library, and the last four bytes as a number.\<close>

definition v4mapped :: "8 word list \<Rightarrow> bool" where
  "v4mapped a \<longleftrightarrow> take 12 a = replicate 10 0 @ [0xff, 0xff]"

definition mapped_addr :: "8 word list \<Rightarrow> 32 word" where
  "mapped_addr a = word_cat (a ! 12) (word_cat (a ! 13) (word_cat (a ! 14) (a ! 15) :: 16 word) :: 24 word)"

definition netmask4 :: "nat \<Rightarrow> 32 word" where
  "netmask4 bits = NOT (push_bit (32 - (if bits \<noteq> 0 then bits else 32)) 1 - 1)"

definition netmask6 :: "nat \<Rightarrow> 32 word" where
  "netmask6 bits =
     (if bits < 128 then NOT (drop_bit (if 96 < bits then bits - 96 else 0) (NOT 0)) else NOT 0)"

text \<open>The loop over the bytes of two IPv6 addresses; it ends before the bytes do, as there are at most 128 bits.\<close>

fun addr6_match :: "8 word list \<Rightarrow> 8 word list \<Rightarrow> nat \<Rightarrow> bool" where
  "addr6_match (c # cs) (d # ds) bits =
     (let match = (if 8 \<le> bits then c = d else drop_bit (8 - bits) c = drop_bit (8 - bits) d)
      in if match \<and> 0 < bits - 8 then addr6_match cs ds (bits - 8) else match)"
| "addr6_match cs ds bits = False"

definition sock_addr_is_addr_eq_bits :: "sockaddr \<Rightarrow> sockaddr \<Rightarrow> nat \<Rightarrow> bool" where
  "sock_addr_is_addr_eq_bits a b bits =
     (case a of
        AF_INET p x \<Rightarrow>
          (let nm = netmask4 (min bits 32)
           in case b of
                AF_INET q y \<Rightarrow> x AND nm = y AND nm
              | AF_INET6 q y \<Rightarrow> v4mapped y \<and> x AND nm = mapped_addr y AND nm
              | AF_UNIX path \<Rightarrow> False)
      | AF_INET6 p x \<Rightarrow>
          (let bits = min bits 128
           in case b of
                AF_INET6 q y \<Rightarrow> addr6_match x y bits
              | AF_INET q y \<Rightarrow> v4mapped x \<and> mapped_addr x AND netmask6 bits = y AND netmask6 bits
              | AF_UNIX path \<Rightarrow> False)
      | AF_UNIX path \<Rightarrow> False)"

section \<open>Specification\<close>

text \<open>The bits of an address, the first one first.\<close>

definition bits_of :: "'a::len word \<Rightarrow> bool list" where
  "bits_of w = map (bit w) (rev [0..<LENGTH('a)])"

definition addr6_bits :: "8 word list \<Rightarrow> bool list" where
  "addr6_bits a = concat (map bits_of a)"

text \<open>
  Two addresses agree in their first bits; an IPv4 address stands for the IPv6 address that maps it,
  of which the mask of an IPv6 address counts 96 bits more.
\<close>

fun same_net :: "nat \<Rightarrow> sockaddr \<Rightarrow> sockaddr \<Rightarrow> bool" where
  "same_net n (AF_INET p x) (AF_INET q y) \<longleftrightarrow> take n (bits_of x) = take n (bits_of y)"
| "same_net n (AF_INET p x) (AF_INET6 q y) \<longleftrightarrow> v4mapped y \<and> take n (bits_of x) = take n (drop 96 (addr6_bits y))"
| "same_net n (AF_INET6 p x) (AF_INET6 q y) \<longleftrightarrow> take n (addr6_bits x) = take n (addr6_bits y)"
| "same_net n (AF_INET6 p x) (AF_INET q y) \<longleftrightarrow> v4mapped x \<and> take (n - 96) (drop 96 (addr6_bits x)) = take (n - 96) (bits_of y)"
| "same_net n a b \<longleftrightarrow> False"

fun addr_wf :: "sockaddr \<Rightarrow> bool" where
  "addr_wf (AF_INET6 p x) \<longleftrightarrow> length x = 16"
| "addr_wf a \<longleftrightarrow> True"

section \<open>Lemmas\<close>

lemma length_bits_of [simp]: "length (bits_of (w :: 'a::len word)) = LENGTH('a)"
  by (simp add: bits_of_def)

lemma take_bits_of:
  fixes x y :: "'a::len word"
  assumes "n \<le> LENGTH('a)"
  shows "take n (bits_of x) = take n (bits_of y) \<longleftrightarrow> (\<forall>i. LENGTH('a) - n \<le> i \<and> i < LENGTH('a) \<longrightarrow> bit x i = bit y i)"
proof -
  have t: "take n (bits_of z) = map (bit z) (rev [LENGTH('a) - n..<LENGTH('a)])" for z :: "'a word"
    using assms by (simp add: bits_of_def take_map take_rev)
  show ?thesis unfolding t [of x] t [of y] by (auto simp: map_eq_conv)
qed

lemma bits_of_inject: "bits_of x = bits_of y \<longleftrightarrow> x = (y :: 'a::len word)"
  using take_bits_of [of "LENGTH('a)" x y] by (auto simp: bit_eq_iff)

text \<open>A mask that keeps the bits from \<open>k\<close> on.\<close>

lemma mask_compare:
  fixes x y :: "'a::len word"
  assumes "\<And>i. i < LENGTH('a) \<Longrightarrow> bit nm i \<longleftrightarrow> k \<le> i"
  shows "x AND nm = y AND nm \<longleftrightarrow> (\<forall>i. k \<le> i \<and> i < LENGTH('a) \<longrightarrow> bit x i = bit y i)"
  using assms by (auto simp: bit_eq_iff bit_and_iff)

lemma bit_netmask4: "0 < n \<Longrightarrow> n \<le> 32 \<Longrightarrow> i < 32 \<Longrightarrow> bit (netmask4 n) i \<longleftrightarrow> 32 - n \<le> i"
proof -
  assume n: "0 < n" "n \<le> 32" "i < 32"
  have "push_bit (32 - n) 1 - 1 = (mask (32 - n) :: 32 word)" by (simp add: mask_eq_exp_minus_1 push_bit_of_1)
  then show ?thesis using n by (auto simp: netmask4_def bit_not_iff bit_mask_iff)
qed

lemma bit_netmask6: "i < 32 \<Longrightarrow> n \<le> 128 \<Longrightarrow> bit (netmask6 n) i \<longleftrightarrow> 32 - (n - 96) \<le> i"
  by (auto simp: netmask6_def bit_not_iff bit_drop_bit_eq bit_mask_iff)

lemma four_elements: "length l = 4 \<Longrightarrow> \<exists>b c d e. l = [b, c, d, e]"
  by (auto simp: numeral_eq_Suc length_Suc_conv)

lemma mapped_bits:
  assumes "length a = 16"
  shows "bits_of (mapped_addr a) = drop 96 (addr6_bits a)"
proof -
  obtain b c d e where l: "a = take 12 a @ [b, c, d, e]"
  proof -
    have "length (drop 12 a) = 4" using assms by simp
    then obtain b c d e where "drop 12 a = [b, c, d, e]" using four_elements by blast
    then show ?thesis using that by (metis append_take_drop_id)
  qed
  have t: "length (concat (map bits_of (take 12 a))) = 96"
    using assms by (simp add: length_concat comp_def sum_list_triv)
  have m: "mapped_addr a = word_cat b (word_cat c (word_cat d e :: 16 word) :: 24 word)"
    by (subst l) (simp add: mapped_addr_def nth_append assms)
  have "drop 96 (addr6_bits a) = bits_of b @ bits_of c @ bits_of d @ bits_of e"
    by (subst l) (simp add: addr6_bits_def t)
  moreover have "bits_of (mapped_addr a) = bits_of b @ bits_of c @ bits_of d @ bits_of e"
    unfolding m by (simp add: bits_of_def bit_word_cat_iff upt_rec)
  ultimately show ?thesis by simp
qed

lemma drop_bit_compare:
  fixes c d :: "'a::len word"
  assumes "n \<le> LENGTH('a)"
  shows "drop_bit (LENGTH('a) - n) c = drop_bit (LENGTH('a) - n) d \<longleftrightarrow> take n (bits_of c) = take n (bits_of d)"
proof -
  let ?k = "LENGTH('a) - n"
  have "drop_bit ?k c = drop_bit ?k d \<longleftrightarrow> (\<forall>j. bit c (?k + j) = bit d (?k + j))"
  proof
    assume "drop_bit ?k c = drop_bit ?k d"
    then show "\<forall>j. bit c (?k + j) = bit d (?k + j)" by (metis bit_drop_bit_eq comp_apply)
  qed (simp add: bit_eq_iff bit_drop_bit_eq)
  also have "\<dots> \<longleftrightarrow> (\<forall>i. ?k \<le> i \<and> i < LENGTH('a) \<longrightarrow> bit c i = bit d i)"
    by (metis bit_imp_le_length le_add1 le_add_diff_inverse)
  finally show ?thesis unfolding take_bits_of [OF assms] .
qed

lemma addr6_match_bits:
  assumes "length x = length y" "0 < n" "n \<le> 8 * length x"
  shows "addr6_match x y n \<longleftrightarrow> take n (addr6_bits x) = take n (addr6_bits y)"
  using assms
proof (induction x y n rule: addr6_match.induct)
  case (1 c cs d ds n)
  have b: "addr6_bits (c # cs) = bits_of c @ addr6_bits cs" "addr6_bits (d # ds) = bits_of d @ addr6_bits ds"
    by (simp_all add: addr6_bits_def)
  show ?case
  proof (cases "8 < n")
    case True
    have "take n (bits_of c) = bits_of c" "take n (bits_of d) = bits_of d" using True by simp_all
    then have "take n (addr6_bits (c # cs)) = take n (addr6_bits (d # ds))
        \<longleftrightarrow> bits_of c = bits_of d \<and> take (n - 8) (addr6_bits cs) = take (n - 8) (addr6_bits ds)"
      unfolding b take_append by (simp only: length_bits_of append_eq_append_conv) simp
    moreover have "addr6_match (c # cs) (d # ds) n \<longleftrightarrow> c = d \<and> addr6_match cs ds (n - 8)"
      using True by (simp add: Let_def)
    moreover have "c = d \<Longrightarrow> addr6_match cs ds (n - 8) \<longleftrightarrow> take (n - 8) (addr6_bits cs) = take (n - 8) (addr6_bits ds)"
      using "1.IH" [OF refl] "1.prems" True by simp
    ultimately show ?thesis by (auto simp: bits_of_inject)
  next
    case False
    have t: "take n (addr6_bits (c # cs)) = take n (bits_of c)" "take n (addr6_bits (d # ds)) = take n (bits_of d)"
      using False by (simp_all add: b)
    have "addr6_match (c # cs) (d # ds) n \<longleftrightarrow> (if n = 8 then c = d else drop_bit (8 - n) c = drop_bit (8 - n) d)"
      using False by (simp add: Let_def)
    then show ?thesis
      unfolding t using False drop_bit_compare [of n c d] bits_of_inject [of c d] by (cases "n = 8") simp_all
  qed
qed simp_all

text \<open>
  C39. The comparison of two addresses under a netmask, with which conditions on the address of the
  client are decided, says whether the addresses agree in the first bits that the mask counts:
  between two IPv4 addresses, two IPv6 addresses, and one of each kind, where the IPv6 address has to be one
  that maps an IPv4 address.
\<close>

theorem netmask_compares_first_bits:
  assumes "0 < n" "addr_wf a" "addr_wf b"
  shows "sock_addr_is_addr_eq_bits a b n \<longleftrightarrow> same_net n a b"
proof (cases a)
  case a: (AF_INET p x)
  have cmp: "x AND netmask4 (min n 32) = y AND netmask4 (min n 32) \<longleftrightarrow> take n (bits_of x) = take n (bits_of y)" for y
  proof -
    have t: "take n (bits_of z) = take (min n 32) (bits_of z)" for z :: "32 word" by (simp add: min_def)
    have "\<And>i. i < LENGTH(32) \<Longrightarrow> bit (netmask4 (min n 32)) i \<longleftrightarrow> 32 - min n 32 \<le> i"
      using assms(1) bit_netmask4 [of "min n 32"] by simp
    from mask_compare [OF this, of x y] show ?thesis
      unfolding t using take_bits_of [of "min n 32" x y] by simp
  qed
  show ?thesis
    using assms(3) a by (cases b) (auto simp: sock_addr_is_addr_eq_bits_def Let_def cmp mapped_bits)
next
  case a: (AF_INET6 p x)
  show ?thesis
  proof (cases b)
    case b: (AF_INET q y)
    have m: "\<And>i. i < LENGTH(32) \<Longrightarrow> bit (netmask6 (min n 128)) i \<longleftrightarrow> 32 - min (n - 96) 32 \<le> i"
      by (subst bit_netmask6) auto
    have t: "take (n - 96) (bits_of z) = take (min (n - 96) 32) (bits_of z)" for z :: "32 word" by (simp add: min_def)
    have "mapped_addr x AND netmask6 (min n 128) = y AND netmask6 (min n 128)
        \<longleftrightarrow> take (n - 96) (bits_of (mapped_addr x)) = take (n - 96) (bits_of y)"
      unfolding t using mask_compare [OF m, of "mapped_addr x" y] take_bits_of [of "min (n - 96) 32" "mapped_addr x" y] by simp
    then show ?thesis
      using assms(2) a b by (simp add: sock_addr_is_addr_eq_bits_def Let_def mapped_bits)
  next
    case b: (AF_INET6 q y)
    have "length (addr6_bits z) = 128" if "length z = 16" for z
      using that by (simp add: addr6_bits_def length_concat comp_def sum_list_triv)
    then have "take n (addr6_bits z) = take (min n 128) (addr6_bits z)" if "length z = 16" for z
      using that by (simp add: min_def)
    then show ?thesis
      using assms a b addr6_match_bits [of x y "min n 128"] by (simp add: sock_addr_is_addr_eq_bits_def Let_def)
  qed (simp_all add: a sock_addr_is_addr_eq_bits_def Let_def)
qed (cases b; simp add: sock_addr_is_addr_eq_bits_def)

theorem netmask_compares_first_bits_witness:
  "sock_addr_is_addr_eq_bits (AF_INET 0 0xC0A80100) (AF_INET 80 0xC0A801FF) 24 \<longleftrightarrow> same_net 24 (AF_INET 0 0xC0A80100) (AF_INET 80 0xC0A801FF)"
  by (rule netmask_compares_first_bits) simp_all

text \<open>With 0 bits, which stand for all bits of an IPv4 address, all IPv6 addresses are the same.\<close>

lemma zero_bits_differ:
  "sock_addr_is_addr_eq_bits (AF_INET p x) (AF_INET q y) 0 \<longleftrightarrow> x = y"
  "length a = 16 \<Longrightarrow> length b = 16 \<Longrightarrow> sock_addr_is_addr_eq_bits (AF_INET6 p a) (AF_INET6 q b) 0"
proof -
  show "sock_addr_is_addr_eq_bits (AF_INET p x) (AF_INET q y) 0 \<longleftrightarrow> x = y"
    by (simp add: sock_addr_is_addr_eq_bits_def Let_def netmask4_def)
  assume "length a = 16" "length b = 16"
  then obtain c cs d ds where "a = c # cs" "b = d # ds" by (metis length_0_conv list.exhaust zero_neq_numeral)
  moreover have "drop_bit 8 c = drop_bit 8 d" for c d :: "8 word" by (simp add: bit_eq_iff bit_drop_bit_eq)
  ultimately show "sock_addr_is_addr_eq_bits (AF_INET6 p a) (AF_INET6 q b) 0"
    by (simp add: sock_addr_is_addr_eq_bits_def Let_def)
qed

end
