(* ===== verification/Conditions.thy ===== *)
theory Conditions
  imports SockAddr Keyvalue Format Arrays
begin

text \<open>
  Conditions of the configuration (\<open>$HTTP["host"] == "..."\<close> and the others) and the cache of their results,
  the second half of \<open>src/src/configfile-glue.c\<close>.  A \<open>data_config\<close> is named by its \<open>context_ndx\<close>, which
  is unique; its parent, its neighbours in a chain of else branches and its children are names.

  The results are cached for each connection, and the evaluation of a condition that is not in the cache
  takes a mutex, which is not recursive: taking it again is the outcome \<open>Blocked\<close>.  \<open>Aborted\<close> is
  a failed assertion or an access out of bounds.
\<close>

section \<open>Operations\<close>

datatype config_cond_t =
    CONFIG_COND_UNSET | CONFIG_COND_EQ | CONFIG_COND_MATCH | CONFIG_COND_NE | CONFIG_COND_NOMATCH | CONFIG_COND_ELSE

datatype comp_key_t =
    COMP_UNSET | COMP_SERVER_SOCKET | COMP_HTTP_URL | COMP_HTTP_HOST | COMP_HTTP_REFERER | COMP_HTTP_USER_AGENT
  | COMP_HTTP_LANGUAGE | COMP_HTTP_COOKIE | COMP_HTTP_REMOTE_IP | COMP_HTTP_QUERY_STRING | COMP_HTTP_SCHEME
  | COMP_HTTP_REQUEST_METHOD | COMP_HTTP_REQUEST_HEADER

datatype cond_result_t = COND_RESULT_UNSET | COND_RESULT_SKIP | COND_RESULT_FALSE | COND_RESULT_TRUE

text \<open>\<open>dc_regex\<close> is what \<open>pcre_exec\<close> answers with the compiled expression: its result and the vector of offsets.\<close>

record data_config =
  dc_value :: array
  dc_comp_tag :: string
  dc_comp :: comp_key_t
  dc_cond :: config_cond_t
  dc_children :: "nat list"
  dc_parent :: "nat option"
  dc_prev :: "nat option"
  dc_next :: "nat option"
  dc_string :: string
  dc_regex :: "string option \<Rightarrow> int \<times> int list"

text \<open>\<open>srv->config_context\<close>: the contexts in the order of the array.\<close>

record config_context =
  cx_node :: "nat \<Rightarrow> data_config"
  cx_data :: "nat list"

text \<open>Where the text lives that a condition was compared with (\<open>comp_value\<close>).\<close>

datatype value_ref =
    Authority | Check_buf | Dst_addr_buf | Scheme | Url_path | Query | Srv_token | Header_value | Empty_string | Tmp_buf

record cond_cache_t =
  ce_result :: cond_result_t
  ce_local_result :: cond_result_t
  ce_patterncount :: int
  ce_matches :: "int list"
  ce_comp_value :: "value_ref option"

text \<open>
  What a condition reads of the connection and the server.  A buffer that is only read is its text,
  or \<open>None\<close> when it is unset.
\<close>

record cond_con =
  kc_valid :: "comp_key_t \<Rightarrow> bool"
  kc_cache :: "nat \<Rightarrow> cond_cache_t"
  kc_authority :: "string option"
  kc_scheme :: "string option"
  kc_path :: "string option"
  kc_query :: "string option"
  kc_dst_addr :: sockaddr
  kc_dst_addr_buf :: "string option"
  kc_srv_addr :: sockaddr
  kc_srv_token :: "string option"
  kc_headers :: array
  kc_http_method :: http_method_t
  kc_tmp_buf :: buffer
  kc_check_buf :: buffer

definition update_cache :: "nat \<Rightarrow> (cond_cache_t \<Rightarrow> cond_cache_t) \<Rightarrow> cond_con \<Rightarrow> cond_con" where
  "update_cache i f con = con\<lparr>kc_cache := (kc_cache con)(i := f (kc_cache con i))\<rparr>"

subsection \<open>The address of the client\<close>

definition config_addrstr_eq_remote_ip_mask :: "libc \<Rightarrow> string \<Rightarrow> int \<Rightarrow> sockaddr \<Rightarrow> int" where
  "config_addrstr_eq_remote_ip_mask lc addrstr nm_bits rmt =
     (case sock_addr_inet_pton4 lc addrstr of
        Some addr \<Rightarrow>
          if 32 < nm_bits then -1 else of_bool (sock_addr_is_addr_eq_bits (sockaddr_of addr) rmt (nat nm_bits))
      | None \<Rightarrow>
          (case sock_addr_inet_pton6 lc addrstr of
             Some addr \<Rightarrow>
               if 128 < nm_bits then -1 else of_bool (sock_addr_is_addr_eq_bits (sockaddr_of addr) rmt (nat nm_bits))
           | None \<Rightarrow> -1))"

text \<open>\<open>s\<close> is the text of the condition up to its terminator, \<open>nm_slash\<close> the position of its first slash.\<close>

definition config_addrbuf_eq_remote_ip_mask :: "libc \<Rightarrow> string \<Rightarrow> nat \<Rightarrow> sockaddr \<Rightarrow> int" where
  "config_addrbuf_eq_remote_ip_mask lc s nm_slash rmt =
     (case strtol 10 (drop (nm_slash + 1) s) of (l, err) \<Rightarrow>
        (let nm_bits = int32 l
         in if err \<noteq> [] then -1
            else if nm_bits \<le> 0 then -1
            else if 64 \<le> nm_slash then -1
            else config_addrstr_eq_remote_ip_mask lc (take nm_slash s) nm_bits rmt))"

subsection \<open>The condition itself\<close>

text \<open>The host, with the port of the server socket when only the condition names one.\<close>

definition host_value :: "data_config \<Rightarrow> cond_con \<Rightarrow> ((value_ref \<times> string option) \<times> cond_con) option" where
  "host_value dc con =
     (let l = abs_bytes (kc_authority con);
          port = sock_addr_get_port (kc_srv_addr con);
          ck_colon = CHR '':'' \<in> set (cstr (dc_string dc));
          val_colon = CHR '':'' \<in> set (cstr l)
      in if l = [] then Some ((Empty_string, Some []), con)
         else if (dc_cond dc = CONFIG_COND_NE \<or> dc_cond dc = CONFIG_COND_EQ) \<and> port \<noteq> 0 then
           (if ck_colon \<and> \<not> val_colon then do {
              b \<leftarrow> buffer_copy_string_len (kc_check_buf con) l;
              b \<leftarrow> buffer_append_string_len b '':'';
              b \<leftarrow> buffer_append_int b (int port);
              Some ((Check_buf, buffer_abs b), con\<lparr>kc_check_buf := b\<rparr>)
            } else if val_colon \<and> \<not> ck_colon then do {
              b \<leftarrow> buffer_copy_string_len (kc_check_buf con) (takeWhile (\<lambda>c. c \<noteq> CHR '':'') l);
              Some ((Check_buf, buffer_abs b), con\<lparr>kc_check_buf := b\<rparr>)
            } else Some ((Authority, Some l), con))
         else Some ((Authority, Some l), con))"

text \<open>The result, when it is decided without a comparison of texts, or else the text to compare.\<close>

definition comp_value ::
    "libc \<Rightarrow> data_config \<Rightarrow> cond_con \<Rightarrow> ((cond_result_t + value_ref \<times> string option) \<times> cond_con) option" where
  "comp_value lc dc con =
     (case dc_comp dc of
        COMP_HTTP_HOST \<Rightarrow> map_option (\<lambda>(v, con). (Inr v, con)) (host_value dc con)
      | COMP_HTTP_REMOTE_IP \<Rightarrow>
          (if dc_cond dc = CONFIG_COND_EQ \<or> dc_cond dc = CONFIG_COND_NE then
             (case index_of (CHR ''/'') (cstr (dc_string dc)) of
                Some nm_slash \<Rightarrow>
                  (let rc = config_addrbuf_eq_remote_ip_mask lc (cstr (dc_string dc)) nm_slash (kc_dst_addr con)
                   in if rc = 1 then Some (Inl (if dc_cond dc = CONFIG_COND_EQ then COND_RESULT_TRUE else COND_RESULT_FALSE), con)
                      else if rc = 0 then Some (Inl (if dc_cond dc = CONFIG_COND_EQ then COND_RESULT_FALSE else COND_RESULT_TRUE), con)
                      else Some (Inl COND_RESULT_FALSE, con))
              | None \<Rightarrow> Some (Inr (Dst_addr_buf, kc_dst_addr_buf con), con))
           else Some (Inr (Dst_addr_buf, kc_dst_addr_buf con), con))
      | COMP_HTTP_SCHEME \<Rightarrow> Some (Inr (Scheme, kc_scheme con), con)
      | COMP_HTTP_URL \<Rightarrow> Some (Inr (Url_path, kc_path con), con)
      | COMP_HTTP_QUERY_STRING \<Rightarrow> Some (Inr (Query, kc_query con), con)
      | COMP_SERVER_SOCKET \<Rightarrow> Some (Inr (Srv_token, kc_srv_token con), con)
      | COMP_HTTP_REQUEST_HEADER \<Rightarrow> do {
          ds \<leftarrow> array_get_element_klen (kc_headers con) (dc_comp_tag dc);
          Some (Inr (case ds of Some ds \<Rightarrow> (Header_value, du_value ds) | None \<Rightarrow> (Empty_string, Some [])), con)
        }
      | COMP_HTTP_REQUEST_METHOD \<Rightarrow> do {
          b \<leftarrow> buffer_copy_string (kc_tmp_buf con) (get_http_method_name (kc_http_method con));
          Some (Inr (Tmp_buf, buffer_abs b), con\<lparr>kc_tmp_buf := b\<rparr>)
        }
      | _ \<Rightarrow> Some (Inl COND_RESULT_FALSE, con))"

text \<open>
  The comparison.  The captures of a match are kept for the substitution in a rule.  A context without an
  operator falls through the switch and keeps the result there was.
\<close>

definition compare_value :: "data_config \<Rightarrow> nat \<Rightarrow> cond_result_t \<Rightarrow> value_ref \<times> string option \<Rightarrow> cond_con \<Rightarrow> cond_result_t \<times> cond_con" where
  "compare_value dc i result v con =
     (case v of (ref, l) \<Rightarrow>
        (case dc_cond dc of
           CONFIG_COND_EQ \<Rightarrow> (if l = Some (dc_string dc) then COND_RESULT_TRUE else COND_RESULT_FALSE, con)
         | CONFIG_COND_NE \<Rightarrow> (if l = Some (dc_string dc) then COND_RESULT_FALSE else COND_RESULT_TRUE, con)
         | CONFIG_COND_MATCH \<Rightarrow>
             (case dc_regex dc l of (n, m) \<Rightarrow>
                if 0 < n
                then (COND_RESULT_TRUE, update_cache i (\<lambda>e. e\<lparr>ce_matches := m, ce_patterncount := n, ce_comp_value := Some ref\<rparr>) con)
                else (COND_RESULT_FALSE, update_cache i (\<lambda>e. e\<lparr>ce_matches := m, ce_patterncount := n\<rparr>) con))
         | CONFIG_COND_NOMATCH \<Rightarrow>
             (case dc_regex dc l of (n, m) \<Rightarrow>
                if 0 < n
                then (COND_RESULT_FALSE, update_cache i (\<lambda>e. e\<lparr>ce_matches := m, ce_patterncount := n, ce_comp_value := Some ref\<rparr>) con)
                else (COND_RESULT_TRUE, update_cache i (\<lambda>e. e\<lparr>ce_matches := m, ce_patterncount := n\<rparr>) con))
         | _ \<Rightarrow> (result, con)))"

definition check_local :: "libc \<Rightarrow> config_context \<Rightarrow> cond_con \<Rightarrow> nat \<Rightarrow> cond_result_t \<Rightarrow> (cond_result_t \<times> cond_con) option" where
  "check_local lc cx con i result =
     (let dc = cx_node cx i; r = ce_local_result (kc_cache con i)
      in if \<not> kc_valid con (dc_comp dc) then Some (COND_RESULT_UNSET, con)
         else if r = COND_RESULT_TRUE \<or> r = COND_RESULT_FALSE then Some (r, con)
         else if dc_cond dc = CONFIG_COND_ELSE then Some (COND_RESULT_TRUE, con)
         else do {
           (v, con) \<leftarrow> comp_value lc dc con;
           case v of Inl r \<Rightarrow> Some (r, con) | Inr v \<Rightarrow> Some (compare_value dc i result v con)
         })"

subsection \<open>Preconditions and the cache\<close>

datatype stop = Aborted | Blocked

definition or_abort :: "'a option \<Rightarrow> stop + 'a" where
  "or_abort x = (case x of None \<Rightarrow> Inl Aborted | Some v \<Rightarrow> Inr v)"

text \<open>
  \<open>held\<close> says that the caller has the mutex.  A parent that is \<open>COND_RESULT_FALSE\<close> or
  \<open>COND_RESULT_SKIP\<close> sets the result to \<open>COND_RESULT_SKIP\<close> and goes on, as in the code.
\<close>

function config_check_cond_cached :: "libc \<Rightarrow> config_context \<Rightarrow> bool \<Rightarrow> cond_con \<Rightarrow> nat \<Rightarrow> stop + cond_result_t \<times> cond_con"
  and config_check_cond_nocache :: "libc \<Rightarrow> config_context \<Rightarrow> bool \<Rightarrow> cond_con \<Rightarrow> nat \<Rightarrow> stop + cond_result_t \<times> cond_con" where
  "config_check_cond_cached lc cx held con i =
     (if ce_result (kc_cache con i) \<noteq> COND_RESULT_UNSET then Inr (ce_result (kc_cache con i), con)
      else case config_check_cond_nocache lc cx held con i of
             Inl e \<Rightarrow> Inl e
           | Inr (r, con) \<Rightarrow>
               Inr (r, update_cache i (\<lambda>e. e\<lparr>ce_result := r,
                         ce_local_result := (if r = COND_RESULT_FALSE \<or> r = COND_RESULT_TRUE then r else ce_local_result e)\<rparr>) con))"
| "config_check_cond_nocache lc cx held con i =
     (if held then Inl Blocked
      else case (case dc_parent (cx_node cx i) of
                   None \<Rightarrow> Inr (COND_RESULT_TRUE, con)
                 | Some p \<Rightarrow> if p = 0 then Inr (COND_RESULT_TRUE, con) else config_check_cond_cached lc cx True con p) of
             Inl e \<Rightarrow> Inl e
           | Inr (rp, con) \<Rightarrow>
               if rp = COND_RESULT_UNSET then Inr (COND_RESULT_UNSET, con)
               else case (case dc_prev (cx_node cx i) of
                            None \<Rightarrow> Inr (COND_RESULT_FALSE, con)
                          | Some q \<Rightarrow> config_check_cond_cached lc cx True con q) of
                      Inl e \<Rightarrow> Inl e
                    | Inr (r, con) \<Rightarrow>
                        if r = COND_RESULT_UNSET then Inr (COND_RESULT_UNSET, con)
                        else if r = COND_RESULT_SKIP \<or> r = COND_RESULT_TRUE then Inr (COND_RESULT_SKIP, con)
                        else or_abort (check_local lc cx con i
                               (if rp = COND_RESULT_SKIP \<or> rp = COND_RESULT_FALSE then COND_RESULT_SKIP else COND_RESULT_FALSE)))"
  by pat_completeness auto
termination
  by (relation "measure (case_sum (\<lambda>(lc, cx, held, con, i). if held then 1 else 3) (\<lambda>(lc, cx, held, con, i). if held then 0 else 2))") auto

declare config_check_cond_cached.simps [simp del] config_check_cond_nocache.simps [simp del]

definition config_check_cond :: "libc \<Rightarrow> config_context \<Rightarrow> cond_con \<Rightarrow> nat \<Rightarrow> stop + bool \<times> cond_con" where
  "config_check_cond lc cx con i =
     (case config_check_cond_cached lc cx False con i of
        Inl e \<Rightarrow> Inl e | Inr (r, con) \<Rightarrow> Inr (r = COND_RESULT_TRUE, con))"

subsection \<open>Forgetting results\<close>

text \<open>
  \<open>config_cond_clear_node\<close>; its pending calls are the list.  A node is followed by the first nodes of the
  chains among its children, and by the next node of its own chain.
\<close>

definition pending_after :: "config_context \<Rightarrow> nat \<Rightarrow> nat list" where
  "pending_after cx i =
     filter (\<lambda>c. dc_prev (cx_node cx c) = None) (dc_children (cx_node cx i))
       @ (case dc_next (cx_node cx i) of None \<Rightarrow> [] | Some n \<Rightarrow> [n])"

definition is_set :: "cond_con \<Rightarrow> nat \<Rightarrow> bool" where
  "is_set con i \<longleftrightarrow> ce_result (kc_cache con i) \<noteq> COND_RESULT_UNSET"

function config_cond_clear_node :: "config_context \<Rightarrow> nat list \<Rightarrow> cond_con \<Rightarrow> cond_con" where
  "config_cond_clear_node cx [] con = con"
| "config_cond_clear_node cx (i # is) con =
     (if i \<in> set (cx_data cx) \<and> is_set con i
      then config_cond_clear_node cx (pending_after cx i @ is) (update_cache i (\<lambda>e. e\<lparr>ce_result := COND_RESULT_UNSET\<rparr>) con)
      else config_cond_clear_node cx is con)"
  by pat_completeness auto
termination
proof (relation "measures [\<lambda>(cx :: config_context, is, con). card {i \<in> set (cx_data cx). is_set con i}, \<lambda>(cx, is, con). length is]")
  fix cx :: config_context and i "is" con
  assume i: "i \<in> set (cx_data cx) \<and> is_set con i"
  let ?c = "update_cache i (\<lambda>e. e\<lparr>ce_result := COND_RESULT_UNSET\<rparr>) con"
  have "{j \<in> set (cx_data cx). is_set ?c j} \<subset> {j \<in> set (cx_data cx). is_set con j}"
    using i by (auto simp: is_set_def update_cache_def)
  then have "card {j \<in> set (cx_data cx). is_set ?c j} < card {j \<in> set (cx_data cx). is_set con j}"
    by (rule psubset_card_mono [rotated]) simp
  then show "((cx, pending_after cx i @ is, ?c), (cx, i # is, con))
      \<in> measures [\<lambda>(cx, is, con). card {i \<in> set (cx_data cx). is_set con i}, \<lambda>(cx, is, con). length is]" by simp
qed auto

definition config_cond_cache_reset_item :: "config_context \<Rightarrow> comp_key_t \<Rightarrow> cond_con \<Rightarrow> cond_con" where
  "config_cond_cache_reset_item cx item con =
     fold (\<lambda>(i, n) con.
             if item = dc_comp (cx_node cx n)
             then config_cond_clear_node cx [n] (update_cache i (\<lambda>e. e\<lparr>ce_local_result := COND_RESULT_UNSET\<rparr>) con)
             else con)
       (List.enumerate 0 (cx_data cx)) con"

definition config_cond_cache_reset :: "config_context \<Rightarrow> cond_con \<Rightarrow> cond_con" where
  "config_cond_cache_reset cx con =
     con\<lparr>kc_cache := (\<lambda>i. if i < length (cx_data cx)
                           then (kc_cache con i)\<lparr>ce_result := COND_RESULT_UNSET, ce_local_result := COND_RESULT_UNSET,
                                  ce_patterncount := 0, ce_comp_value := None\<rparr>
                           else kc_cache con i),
        kc_valid := (\<lambda>_. False)\<rparr>"

section \<open>Specification\<close>

text \<open>The text a condition is compared with.\<close>

definition host_text :: "data_config \<Rightarrow> cond_con \<Rightarrow> string option" where
  "host_text dc con =
     (let l = abs_bytes (kc_authority con);
          port = sock_addr_get_port (kc_srv_addr con);
          named = CHR '':'' \<in> set (cstr (dc_string dc));
          sent = CHR '':'' \<in> set (cstr l)
      in if l \<noteq> [] \<and> (dc_cond dc = CONFIG_COND_NE \<or> dc_cond dc = CONFIG_COND_EQ) \<and> port \<noteq> 0 \<and> named \<noteq> sent
         then Some (if named then l @ '':'' @ itostr [] (int port) else takeWhile (\<lambda>c. c \<noteq> CHR '':'') l)
         else Some l)"

definition cond_text :: "data_config \<Rightarrow> cond_con \<Rightarrow> string option" where
  "cond_text dc con =
     (case dc_comp dc of
        COMP_HTTP_HOST \<Rightarrow> host_text dc con
      | COMP_HTTP_REMOTE_IP \<Rightarrow> kc_dst_addr_buf con
      | COMP_HTTP_SCHEME \<Rightarrow> kc_scheme con
      | COMP_HTTP_URL \<Rightarrow> kc_path con
      | COMP_HTTP_QUERY_STRING \<Rightarrow> kc_query con
      | COMP_SERVER_SOCKET \<Rightarrow> kc_srv_token con
      | COMP_HTTP_REQUEST_HEADER \<Rightarrow>
          (case array_view (kc_headers con) (ckey (dc_comp_tag dc)) of Some ds \<Rightarrow> du_value ds | None \<Rightarrow> Some [])
      | _ \<Rightarrow> Some (abs_bytes (map_option cstr (get_http_method_name (kc_http_method con)))))"

text \<open>The condition, without its preconditions.\<close>

definition local_truth :: "libc \<Rightarrow> data_config \<Rightarrow> cond_con \<Rightarrow> bool" where
  "local_truth lc dc con =
     (if dc_cond dc = CONFIG_COND_ELSE then True
      else if dc_comp dc \<in> {COMP_UNSET, COMP_HTTP_REFERER, COMP_HTTP_USER_AGENT, COMP_HTTP_LANGUAGE, COMP_HTTP_COOKIE} then False
      else if dc_comp dc = COMP_HTTP_REMOTE_IP \<and> (dc_cond dc = CONFIG_COND_EQ \<or> dc_cond dc = CONFIG_COND_NE)
              \<and> CHR ''/'' \<in> set (cstr (dc_string dc))
      then config_addrbuf_eq_remote_ip_mask lc (cstr (dc_string dc)) (length (takeWhile (\<lambda>c. c \<noteq> CHR ''/'') (cstr (dc_string dc))))
             (kc_dst_addr con) = (if dc_cond dc = CONFIG_COND_EQ then 1 else 0)
      else (case dc_cond dc of
              CONFIG_COND_EQ \<Rightarrow> cond_text dc con = Some (dc_string dc)
            | CONFIG_COND_NE \<Rightarrow> cond_text dc con \<noteq> Some (dc_string dc)
            | CONFIG_COND_MATCH \<Rightarrow> 0 < fst (dc_regex dc (cond_text dc con))
            | CONFIG_COND_NOMATCH \<Rightarrow> \<not> 0 < fst (dc_regex dc (cond_text dc con))
            | _ \<Rightarrow> False))"

definition local_result :: "libc \<Rightarrow> data_config \<Rightarrow> cond_con \<Rightarrow> cond_result_t" where
  "local_result lc dc con =
     (if \<not> kc_valid con (dc_comp dc) then COND_RESULT_UNSET
      else if local_truth lc dc con then COND_RESULT_TRUE else COND_RESULT_FALSE)"

text \<open>The result with the preconditions, as the code takes them; no cache is involved.\<close>

function truth :: "libc \<Rightarrow> config_context \<Rightarrow> cond_con \<Rightarrow> nat \<Rightarrow> cond_result_t" where
  "truth lc cx con i =
     (if (case dc_parent (cx_node cx i) of
            None \<Rightarrow> False
          | Some p \<Rightarrow> if p = 0 then False else if p < i then truth lc cx con p = COND_RESULT_UNSET else True)
      then COND_RESULT_UNSET
      else case dc_prev (cx_node cx i) of
             None \<Rightarrow> local_result lc (cx_node cx i) con
           | Some q \<Rightarrow>
               if q < i then
                 (case truth lc cx con q of
                    COND_RESULT_UNSET \<Rightarrow> COND_RESULT_UNSET
                  | COND_RESULT_FALSE \<Rightarrow> local_result lc (cx_node cx i) con
                  | _ \<Rightarrow> COND_RESULT_SKIP)
               else COND_RESULT_UNSET)"
  by pat_completeness auto
termination by (relation "measure (\<lambda>(lc, cx, con, i). i)") auto

declare truth.simps [simp del]

text \<open>
  The result as it is documented: a condition inside a block is active only when that block is
  (\<open>doc/outdated/configuration.txt\<close>, and the comments on \<open>cond_result_t\<close> in \<open>base.h\<close>). The code
  differs from it inside a block that is not active (\<open>false_parent_ignored\<close>).
\<close>

function documented :: "libc \<Rightarrow> config_context \<Rightarrow> cond_con \<Rightarrow> nat \<Rightarrow> cond_result_t" where
  "documented lc cx con i =
     (case (case dc_parent (cx_node cx i) of
              None \<Rightarrow> COND_RESULT_TRUE
            | Some p \<Rightarrow> if p = 0 then COND_RESULT_TRUE else if p < i then documented lc cx con p else COND_RESULT_UNSET) of
        COND_RESULT_UNSET \<Rightarrow> COND_RESULT_UNSET
      | COND_RESULT_TRUE \<Rightarrow>
          (case dc_prev (cx_node cx i) of
             None \<Rightarrow> local_result lc (cx_node cx i) con
           | Some q \<Rightarrow>
               (case if q < i then documented lc cx con q else COND_RESULT_UNSET of
                  COND_RESULT_UNSET \<Rightarrow> COND_RESULT_UNSET
                | COND_RESULT_FALSE \<Rightarrow> local_result lc (cx_node cx i) con
                | _ \<Rightarrow> COND_RESULT_SKIP))
      | _ \<Rightarrow> COND_RESULT_SKIP)"
  by pat_completeness auto
termination by (relation "measure (\<lambda>(lc, cx, con, i). i)") (auto split: if_splits)

declare documented.simps [simp del]

text \<open>The block around the condition is decided, and is not active.\<close>

definition in_false_block :: "libc \<Rightarrow> config_context \<Rightarrow> cond_con \<Rightarrow> nat \<Rightarrow> bool" where
  "in_false_block lc cx con i \<longleftrightarrow> (case dc_parent (cx_node cx i) of
     None \<Rightarrow> False | Some p \<Rightarrow> p \<noteq> 0 \<and> documented lc cx con p \<in> {COND_RESULT_FALSE, COND_RESULT_SKIP})"

text \<open>The conditions that have to be decided first, and the shape of the contexts that the parser builds.\<close>

definition deps :: "config_context \<Rightarrow> nat \<Rightarrow> nat set" where
  "deps cx i = {p. dc_parent (cx_node cx i) = Some p \<and> p \<noteq> 0} \<union> {q. dc_prev (cx_node cx i) = Some q}"

definition cx_ok :: "config_context \<Rightarrow> bool" where
  "cx_ok cx \<longleftrightarrow> (\<forall>i \<in> set (cx_data cx).
     (\<forall>d \<in> deps cx i. d < i \<and> d \<in> set (cx_data cx))
     \<and> (\<forall>q. dc_prev (cx_node cx i) = Some q \<longrightarrow> dc_next (cx_node cx q) = Some i \<and> dc_parent (cx_node cx q) = dc_parent (cx_node cx i))
     \<and> (\<forall>p. dc_parent (cx_node cx i) = Some p \<and> p \<noteq> 0
          \<longrightarrow> i \<in> set (dc_children (cx_node cx p)) \<and> dc_cond (cx_node cx i) \<noteq> CONFIG_COND_UNSET))"

definition kc_ok :: "cond_con \<Rightarrow> bool" where
  "kc_ok con \<longleftrightarrow> array_wf (kc_headers con) \<and> buffer_wf (kc_tmp_buf con) \<and> buffer_wf (kc_check_buf con)
     \<and> fits (length (abs_bytes (kc_authority con)) + 30) \<and> sock_addr_get_port (kc_srv_addr con) < 2 ^ 16"

text \<open>A cache is coherent when what it holds is what an evaluation would give.\<close>

definition coherent :: "libc \<Rightarrow> config_context \<Rightarrow> cond_con \<Rightarrow> bool" where
  "coherent lc cx con \<longleftrightarrow> (\<forall>i \<in> set (cx_data cx).
     (is_set con i \<longrightarrow> ce_result (kc_cache con i) = truth lc cx con i \<and> (\<forall>d \<in> deps cx i. is_set con d))
     \<and> (ce_local_result (kc_cache con i) \<noteq> COND_RESULT_UNSET \<longrightarrow>
          ce_local_result (kc_cache con i) = (if local_truth lc (cx_node cx i) con then COND_RESULT_TRUE else COND_RESULT_FALSE)))"

text \<open>What an evaluation leaves alone.\<close>

definition same_view :: "cond_con \<Rightarrow> cond_con \<Rightarrow> bool" where
  "same_view con con' \<longleftrightarrow>
     (\<exists>c t b. buffer_wf t \<and> buffer_wf b \<and> con' = con\<lparr>kc_cache := c, kc_tmp_buf := t, kc_check_buf := b\<rparr>)"

section \<open>Evaluation\<close>

lemma same_viewD:
  assumes "same_view con con'"
  shows "kc_valid con' = kc_valid con" "kc_authority con' = kc_authority con" "kc_scheme con' = kc_scheme con"
    "kc_path con' = kc_path con" "kc_query con' = kc_query con" "kc_dst_addr con' = kc_dst_addr con"
    "kc_dst_addr_buf con' = kc_dst_addr_buf con" "kc_srv_addr con' = kc_srv_addr con" "kc_srv_token con' = kc_srv_token con"
    "kc_headers con' = kc_headers con" "kc_http_method con' = kc_http_method con"
  using assms by (auto simp: same_view_def)

lemma local_truth_view:
  assumes "same_view con con'"
  shows "local_truth lc dc con' = local_truth lc dc con" "local_result lc dc con' = local_result lc dc con"
proof -
  have "host_text dc con' = host_text dc con" by (simp only: host_text_def same_viewD [OF assms])
  then have "cond_text dc con' = cond_text dc con" by (simp only: cond_text_def same_viewD [OF assms])
  then show t: "local_truth lc dc con' = local_truth lc dc con" by (simp only: local_truth_def same_viewD [OF assms])
  show "local_result lc dc con' = local_result lc dc con" by (simp only: local_result_def t same_viewD [OF assms])
qed

lemma truth_view:
  assumes "same_view con con'"
  shows "truth lc cx con' i = truth lc cx con i"
proof (induction i rule: less_induct)
  case (less i)
  show ?case
    by (subst (1 2) truth.simps)
      (auto simp: less local_truth_view [OF assms] split: option.splits cond_result_t.splits)
qed

lemma same_viewI: "buffer_wf t \<Longrightarrow> buffer_wf b \<Longrightarrow> same_view con (con\<lparr>kc_cache := c, kc_tmp_buf := t, kc_check_buf := b\<rparr>)"
  by (auto simp: same_view_def)

lemma same_view_parts:
  assumes "kc_ok con"
  shows "same_view con con" "buffer_wf b \<Longrightarrow> same_view con (con\<lparr>kc_check_buf := b\<rparr>)"
    "buffer_wf b \<Longrightarrow> same_view con (con\<lparr>kc_tmp_buf := b\<rparr>)" "same_view con (update_cache i f con)"
proof -
  have w: "buffer_wf (kc_tmp_buf con)" "buffer_wf (kc_check_buf con)" using assms by (simp_all add: kc_ok_def)
  show "same_view con con" using same_viewI [OF w, of con "kc_cache con"] by simp
  show "buffer_wf b \<Longrightarrow> same_view con (con\<lparr>kc_check_buf := b\<rparr>)"
    using same_viewI [OF w(1), of b con "kc_cache con"] by simp
  show "buffer_wf b \<Longrightarrow> same_view con (con\<lparr>kc_tmp_buf := b\<rparr>)"
    using same_viewI [OF _ w(2), of b con "kc_cache con"] by simp
  show "same_view con (update_cache i f con)"
    using same_viewI [OF w, of con "(kc_cache con)(i := f (kc_cache con i))"] by (simp add: update_cache_def)
qed

lemma same_view_ok: "same_view con con' \<Longrightarrow> kc_ok con \<Longrightarrow> kc_ok con'"
  by (auto simp: kc_ok_def same_view_def)

lemma same_view_trans: "same_view a b \<Longrightarrow> same_view b c \<Longrightarrow> same_view a c"
  by (auto simp: same_view_def) blast

text \<open>Results are not touched.\<close>

definition same_results :: "cond_con \<Rightarrow> cond_con \<Rightarrow> bool" where
  "same_results con con' \<longleftrightarrow> (\<forall>j. ce_result (kc_cache con' j) = ce_result (kc_cache con j)
     \<and> ce_local_result (kc_cache con' j) = ce_local_result (kc_cache con j))"

lemma host_value_ok:
  assumes "kc_ok con"
  shows "\<exists>ref con'. host_value dc con = Some ((ref, host_text dc con), con') \<and> same_view con con' \<and> same_results con con'"
proof -
  let ?l = "abs_bytes (kc_authority con)" and ?b = "kc_check_buf con"
  have w: "buffer_wf ?b" "fits (length ?l + 30)" "sock_addr_get_port (kc_srv_addr con) < 2 ^ 16" "buffer_wf (kc_tmp_buf con)"
    using assms by (simp_all add: kc_ok_def)
  have put: "same_view con (con\<lparr>kc_check_buf := b\<rparr>) \<and> same_results con (con\<lparr>kc_check_buf := b\<rparr>)" if "buffer_wf b" for b
    using same_view_parts(2) [OF assms that] by (simp add: same_results_def)
  have none: "same_view con con \<and> same_results con con" using same_view_parts(1) [OF assms] by (simp add: same_results_def)
  have f: "fits (length ?l)" "fits (length ?l + 1)" "fits (length ?l + 1 + 20)" using w(2) by (auto intro: fits_mono)
  obtain b1 where b1: "buffer_copy_string_len ?b ?l = Some b1" "buffer_wf b1" "buffer_abs b1 = Some ?l"
    using buffer_copy_string_len_ok [OF w(1) f(1)] by blast
  have c1: "buffer_content b1 = ?l" using b1(3) by (rule buffer_content_abs)
  have f1: "fits (length (buffer_content b1) + length '':'')" using f(2) c1 by simp
  obtain b2 where b2: "buffer_append_string_len b1 '':'' = Some b2" "buffer_wf b2" "buffer_abs b2 = Some (?l @ '':'')"
    using buffer_append_string_len_ok [OF b1(2) f1] c1 by auto
  have c2: "buffer_content b2 = ?l @ '':''" using b2(3) by (rule buffer_content_abs)
  have f2: "fits (length (buffer_content b2) + 20)" using f(3) c2 by simp
  obtain b3 where b3: "buffer_append_int b2 (int (sock_addr_get_port (kc_srv_addr con))) = Some b3" "buffer_wf b3"
      "buffer_abs b3 = Some (?l @ '':'' @ itostr [] (int (sock_addr_get_port (kc_srv_addr con))))"
    using buffer_append_int_ok [OF b2(2) _ _ f2, of "int (sock_addr_get_port (kc_srv_addr con))"] w(3) c2 by auto
  have "fits (length (takeWhile (\<lambda>c. c \<noteq> CHR '':'') ?l))" using f(1) by (rule fits_mono) (simp add: length_takeWhile_le)
  then obtain b4 where b4: "buffer_copy_string_len ?b (takeWhile (\<lambda>c. c \<noteq> CHR '':'') ?l) = Some b4" "buffer_wf b4"
      "buffer_abs b4 = Some (takeWhile (\<lambda>c. c \<noteq> CHR '':'') ?l)"
    using buffer_copy_string_len_ok [OF w(1)] by blast
  show ?thesis
    using b1(1) b2(1) b3 b4 put [OF b3(2)] put [OF b4(2)] none
    by (simp add: host_value_def host_text_def Let_def)
qed

lemma index_of_iff: "index_of c s = (if c \<in> set s then Some (length (takeWhile (\<lambda>x. x \<noteq> c) s)) else None)"
  by (simp add: index_of_def)

lemma mask_result: "config_addrbuf_eq_remote_ip_mask lc s n a \<in> {-1, 0, 1}"
  by (auto simp: config_addrbuf_eq_remote_ip_mask_def config_addrstr_eq_remote_ip_mask_def Let_def
      split: prod.splits option.splits)

text \<open>A comparison of texts, in place of the switches of the code.\<close>

definition text_truth :: "data_config \<Rightarrow> string option \<Rightarrow> bool" where
  "text_truth dc l =
     (case dc_cond dc of
        CONFIG_COND_EQ \<Rightarrow> l = Some (dc_string dc)
      | CONFIG_COND_NE \<Rightarrow> l \<noteq> Some (dc_string dc)
      | CONFIG_COND_MATCH \<Rightarrow> 0 < fst (dc_regex dc l)
      | CONFIG_COND_NOMATCH \<Rightarrow> \<not> 0 < fst (dc_regex dc l)
      | _ \<Rightarrow> False)"

lemma compare_value_ok:
  assumes "kc_ok con" "dc_cond dc = CONFIG_COND_UNSET \<or> dc_cond dc = CONFIG_COND_ELSE \<longrightarrow> r0 = COND_RESULT_FALSE"
  shows "\<exists>con'. compare_value dc i r0 (ref, l) con = (if text_truth dc l then COND_RESULT_TRUE else COND_RESULT_FALSE, con')
     \<and> same_view con con' \<and> same_results con con'"
proof -
  have u: "same_results con (update_cache i (\<lambda>e. e\<lparr>ce_matches := m, ce_patterncount := n, ce_comp_value := r\<rparr>) con)"
    "same_results con (update_cache i (\<lambda>e. e\<lparr>ce_matches := m, ce_patterncount := n\<rparr>) con)" for m n r
    by (simp_all add: same_results_def update_cache_def)
  have r: "same_results con con" by (simp add: same_results_def)
  obtain n m where nm: "dc_regex dc l = (n, m)" by (cases "dc_regex dc l")
  show ?thesis
    using u r same_view_parts(1,4) [OF assms(1)] assms(2)
    by (cases "dc_cond dc") (simp_all add: compare_value_def text_truth_def nm)
qed

text \<open>A condition that is decided by a mask has no text.\<close>

definition by_mask :: "data_config \<Rightarrow> bool" where
  "by_mask dc \<longleftrightarrow> dc_comp dc = COMP_HTTP_REMOTE_IP \<and> (dc_cond dc = CONFIG_COND_EQ \<or> dc_cond dc = CONFIG_COND_NE)
     \<and> CHR ''/'' \<in> set (cstr (dc_string dc))"

definition never :: "data_config \<Rightarrow> bool" where
  "never dc \<longleftrightarrow> dc_comp dc \<in> {COMP_UNSET, COMP_HTTP_REFERER, COMP_HTTP_USER_AGENT, COMP_HTTP_LANGUAGE, COMP_HTTP_COOKIE}"

lemma local_truth_cases:
  assumes "dc_cond dc \<noteq> CONFIG_COND_ELSE"
  shows "never dc \<Longrightarrow> \<not> local_truth lc dc con"
    "by_mask dc \<Longrightarrow> local_truth lc dc con \<longleftrightarrow> config_addrbuf_eq_remote_ip_mask lc (cstr (dc_string dc))
       (length (takeWhile (\<lambda>c. c \<noteq> CHR ''/'') (cstr (dc_string dc)))) (kc_dst_addr con) = (if dc_cond dc = CONFIG_COND_EQ then 1 else 0)"
    "\<not> never dc \<Longrightarrow> \<not> by_mask dc \<Longrightarrow> local_truth lc dc con \<longleftrightarrow> text_truth dc (cond_text dc con)"
proof -
  show "never dc \<Longrightarrow> \<not> local_truth lc dc con" using assms by (simp add: local_truth_def never_def)
  show "by_mask dc \<Longrightarrow> local_truth lc dc con \<longleftrightarrow> config_addrbuf_eq_remote_ip_mask lc (cstr (dc_string dc))
       (length (takeWhile (\<lambda>c. c \<noteq> CHR ''/'') (cstr (dc_string dc)))) (kc_dst_addr con) = (if dc_cond dc = CONFIG_COND_EQ then 1 else 0)"
    using assms unfolding by_mask_def local_truth_def by (simp del: cstr_def)
  show "\<not> never dc \<Longrightarrow> \<not> by_mask dc \<Longrightarrow> local_truth lc dc con \<longleftrightarrow> text_truth dc (cond_text dc con)"
    using assms unfolding by_mask_def local_truth_def never_def text_truth_def by (simp only: if_not_P if_False simp_thms)
qed

lemma comp_value_ok:
  assumes "kc_ok con" "dc_cond dc \<noteq> CONFIG_COND_ELSE"
  shows "\<exists>v con'. comp_value lc dc con = Some (v, con') \<and> same_view con con' \<and> same_results con con'
     \<and> (if never dc \<or> by_mask dc then v = Inl (if local_truth lc dc con then COND_RESULT_TRUE else COND_RESULT_FALSE)
        else \<exists>ref. v = Inr (ref, cond_text dc con))"
proof -
  have none: "same_view con con \<and> same_results con con" using same_view_parts(1) [OF assms(1)] by (simp add: same_results_def)
  have n: "fits (length (abs_bytes (map_option cstr (get_http_method_name m))))" for m
    by (cases m) (simp_all add: get_http_method_name_def http_methods_def cstr_def fits_def PTRDIFF_MAX_def)
  show ?thesis
  proof (cases "dc_comp dc")
    case COMP_HTTP_HOST
    then show ?thesis using host_value_ok [OF assms(1), of dc] by (auto simp: comp_value_def never_def by_mask_def cond_text_def)
  next
    case COMP_HTTP_REMOTE_IP
    show ?thesis
    proof (cases "by_mask dc")
      case True
      then have "comp_value lc dc con = Some (Inl (if local_truth lc dc con then COND_RESULT_TRUE else COND_RESULT_FALSE), con)"
        using mask_result [of lc "cstr (dc_string dc)" "length (takeWhile (\<lambda>c. c \<noteq> CHR ''/'') (cstr (dc_string dc)))" "kc_dst_addr con"]
        unfolding local_truth_cases(2) [OF assms(2) True] by (auto simp: by_mask_def comp_value_def index_of_iff Let_def)
      then show ?thesis using True none by simp
    next
      case False
      then show ?thesis using COMP_HTTP_REMOTE_IP none by (auto simp: by_mask_def never_def comp_value_def index_of_iff cond_text_def)
    qed
  next
    case COMP_HTTP_REQUEST_METHOD
    have w: "buffer_wf (kc_tmp_buf con)" using assms(1) by (simp add: kc_ok_def)
    let ?t = "abs_bytes (map_option cstr (get_http_method_name (kc_http_method con)))"
    obtain b where b: "buffer_copy_string_len (kc_tmp_buf con) ?t = Some b" "buffer_wf b" "buffer_abs b = Some ?t"
      using buffer_copy_string_len_ok [OF w n] by blast
    moreover have "buffer_copy_string (kc_tmp_buf con) (get_http_method_name (kc_http_method con)) = buffer_copy_string_len (kc_tmp_buf con) ?t"
      by (cases "get_http_method_name (kc_http_method con)") (simp_all add: buffer_copy_string_def)
    ultimately show ?thesis
      using COMP_HTTP_REQUEST_METHOD same_view_parts(3) [OF assms(1) b(2)]
      by (simp add: comp_value_def never_def by_mask_def cond_text_def same_results_def)
  next
    case COMP_HTTP_REQUEST_HEADER
    have w: "array_wf (kc_headers con)" using assms(1) by (simp add: kc_ok_def)
    show ?thesis
      using COMP_HTTP_REQUEST_HEADER none array_get_element_ok [OF w, of "dc_comp_tag dc"]
      by (cases "array_view (kc_headers con) (ckey (dc_comp_tag dc))")
        (simp_all add: comp_value_def never_def by_mask_def cond_text_def)
  qed (use none local_truth_cases(1) [OF assms(2)] in \<open>simp_all add: comp_value_def never_def by_mask_def cond_text_def\<close>)
qed

lemma check_local_ok:
  assumes "kc_ok con" "ce_local_result (kc_cache con i) \<noteq> COND_RESULT_UNSET \<Longrightarrow> ce_local_result (kc_cache con i) =
      (if local_truth lc (cx_node cx i) con then COND_RESULT_TRUE else COND_RESULT_FALSE)"
    "dc_cond (cx_node cx i) = CONFIG_COND_UNSET \<longrightarrow> r0 = COND_RESULT_FALSE"
  shows "\<exists>con'. check_local lc cx con i r0 = Some (local_result lc (cx_node cx i) con, con') \<and> same_view con con' \<and> same_results con con'"
proof -
  let ?dc = "cx_node cx i" and ?r = "ce_local_result (kc_cache con i)"
  have none: "same_view con con \<and> same_results con con" using same_view_parts(1) [OF assms(1)] by (simp add: same_results_def)
  show ?thesis
  proof (cases "\<not> kc_valid con (dc_comp ?dc) \<or> ?r = COND_RESULT_TRUE \<or> ?r = COND_RESULT_FALSE \<or> dc_cond ?dc = CONFIG_COND_ELSE")
    case True
    then show ?thesis
      using assms(2) none by (auto simp: check_local_def Let_def local_result_def local_truth_def split: if_splits)
  next
    case False
    then have e: "dc_cond ?dc \<noteq> CONFIG_COND_ELSE" by simp
    obtain v c1 where c: "comp_value lc ?dc con = Some (v, c1)" "same_view con c1" "same_results con c1"
        "if never ?dc \<or> by_mask ?dc then v = Inl (if local_truth lc ?dc con then COND_RESULT_TRUE else COND_RESULT_FALSE)
         else \<exists>ref. v = Inr (ref, cond_text ?dc con)"
      using comp_value_ok [OF assms(1) e] by blast
    show ?thesis
    proof (cases "never ?dc \<or> by_mask ?dc")
      case True
      then show ?thesis using c False by (simp add: check_local_def Let_def local_result_def)
    next
      case f: False
      then obtain ref where v: "v = Inr (ref, cond_text ?dc con)" using c(4) by auto
      have r0: "dc_cond ?dc = CONFIG_COND_UNSET \<or> dc_cond ?dc = CONFIG_COND_ELSE \<longrightarrow> r0 = COND_RESULT_FALSE" using assms(3) e by simp
      obtain c2 where "compare_value ?dc i r0 (ref, cond_text ?dc con) c1
          = (if text_truth ?dc (cond_text ?dc con) then COND_RESULT_TRUE else COND_RESULT_FALSE, c2)" "same_view c1 c2" "same_results c1 c2"
        using compare_value_ok [OF same_view_ok [OF c(2) assms(1)] r0] by blast
      moreover have "local_truth lc ?dc con \<longleftrightarrow> text_truth ?dc (cond_text ?dc con)" using local_truth_cases(3) [OF e] f by blast
      moreover have "same_view con c2" using same_view_trans [OF c(2)] calculation(2) by blast
      moreover have "same_results con c2" using c(3) calculation(3) by (simp add: same_results_def)
      ultimately show ?thesis using c(1) v False by (simp add: check_local_def Let_def local_result_def)
    qed
  qed
qed

lemma held_check:
  "config_check_cond_cached lc cx True con d = (if is_set con d then Inr (ce_result (kc_cache con d), con) else Inl Blocked)"
  by (simp add: config_check_cond_cached.simps config_check_cond_nocache.simps is_set_def)

text \<open>Once the preconditions are decided, an evaluation is one of the condition itself.\<close>

lemma nocache_decided:
  assumes "cx_ok cx" "coherent lc cx con" "i \<in> set (cx_data cx)" "\<forall>d \<in> deps cx i. is_set con d"
  shows "\<exists>r0. (dc_cond (cx_node cx i) = CONFIG_COND_UNSET \<longrightarrow> r0 = COND_RESULT_FALSE) \<and> config_check_cond_nocache lc cx False con i =
     (if truth lc cx con i = COND_RESULT_SKIP then Inr (COND_RESULT_SKIP, con) else or_abort (check_local lc cx con i r0))
     \<and> (truth lc cx con i \<noteq> COND_RESULT_SKIP \<longrightarrow> truth lc cx con i = local_result lc (cx_node cx i) con)"
proof -
  have d: "d < i \<and> is_set con d \<and> ce_result (kc_cache con d) = truth lc cx con d \<and> truth lc cx con d \<noteq> COND_RESULT_UNSET"
    if "d \<in> deps cx i" for d
  proof -
    have m: "d < i" "d \<in> set (cx_data cx)" using assms(1,3) that by (auto simp: cx_ok_def)
    then show ?thesis using assms(2,4) that by (auto simp: coherent_def is_set_def)
  qed
  have ne: "local_result lc (cx_node cx i) con \<noteq> COND_RESULT_SKIP" by (simp add: local_result_def)
  have p: "p \<in> deps cx i" if "dc_parent (cx_node cx i) = Some p" "p \<noteq> 0" for p using that by (simp add: deps_def)
  have q: "q \<in> deps cx i" if "dc_prev (cx_node cx i) = Some q" for q using that by (simp add: deps_def)
  obtain rp where rp: "(case dc_parent (cx_node cx i) of None \<Rightarrow> Inr (COND_RESULT_TRUE, con)
        | Some p \<Rightarrow> if p = 0 then Inr (COND_RESULT_TRUE, con) else config_check_cond_cached lc cx True con p) = Inr (rp, con)" "rp \<noteq> COND_RESULT_UNSET"
      "\<not> (case dc_parent (cx_node cx i) of None \<Rightarrow> False
          | Some p \<Rightarrow> if p = 0 then False else if p < i then truth lc cx con p = COND_RESULT_UNSET else True)"
      "dc_cond (cx_node cx i) = CONFIG_COND_UNSET \<longrightarrow> rp = COND_RESULT_TRUE"
  proof (cases "dc_parent (cx_node cx i)")
    case None
    then show ?thesis using that by simp
  next
    case (Some a)
    moreover have "dc_cond (cx_node cx i) \<noteq> CONFIG_COND_UNSET" if "a \<noteq> 0" using Some that assms(1,3) by (auto simp: cx_ok_def)
    ultimately show ?thesis using d [OF p [OF Some]] that by (cases "a = 0") (simp_all add: held_check)
  qed
  define r0 where "r0 = (if rp = COND_RESULT_SKIP \<or> rp = COND_RESULT_FALSE then COND_RESULT_SKIP else COND_RESULT_FALSE)"
  have r0: "dc_cond (cx_node cx i) = CONFIG_COND_UNSET \<longrightarrow> r0 = COND_RESULT_FALSE" using rp(4) by (auto simp: r0_def)
  have "config_check_cond_nocache lc cx False con i =
     (if truth lc cx con i = COND_RESULT_SKIP then Inr (COND_RESULT_SKIP, con) else or_abort (check_local lc cx con i r0))
     \<and> (truth lc cx con i \<noteq> COND_RESULT_SKIP \<longrightarrow> truth lc cx con i = local_result lc (cx_node cx i) con)"
  proof (cases "dc_prev (cx_node cx i)")
    case None
    then show ?thesis
      using ne unfolding config_check_cond_nocache.simps rp(1) truth.simps [of lc cx con i] if_not_P [OF rp(3)]
      by (simp add: rp(2) r0_def)
  next
    case (Some b)
    note b = d [OF q [OF Some]]
    show ?thesis
      using b ne unfolding config_check_cond_nocache.simps rp(1) truth.simps [of lc cx con i] if_not_P [OF rp(3)]
      by (simp add: rp(2) Some held_check r0_def split: cond_result_t.split)
  qed
  then show ?thesis using r0 by blast
qed

text \<open>Outside a block that is not active the code takes a condition as documented.\<close>

lemma in_false_block_skips:
  assumes "cx_ok cx" "i \<in> set (cx_data cx)" "in_false_block lc cx con i"
  shows "documented lc cx con i = COND_RESULT_SKIP"
proof -
  obtain p where p: "dc_parent (cx_node cx i) = Some p" "p \<noteq> 0" using assms(3) by (auto simp: in_false_block_def split: option.splits)
  then have "p \<in> deps cx i" by (simp add: deps_def)
  then have "p < i" using assms(1,2) by (auto simp: cx_ok_def)
  then show ?thesis using assms(3) p by (auto simp: in_false_block_def documented.simps [of lc cx con i])
qed

lemma truth_documented:
  assumes "cx_ok cx" "i \<in> set (cx_data cx)" "\<not> in_false_block lc cx con i"
  shows "truth lc cx con i = documented lc cx con i"
  using assms(2,3)
proof (induction i rule: less_induct)
  case (less i)
  have d: "d < i" "d \<in> set (cx_data cx)" if "d \<in> deps cx i" for d using assms(1) less.prems(1) that by (auto simp: cx_ok_def)
  have q: "truth lc cx con q = documented lc cx con q" "q < i" if "dc_prev (cx_node cx i) = Some q" for q
  proof -
    have m: "q \<in> deps cx i" using that by (simp add: deps_def)
    have "dc_parent (cx_node cx q) = dc_parent (cx_node cx i)" using assms(1) less.prems(1) that by (simp add: cx_ok_def)
    then have "\<not> in_false_block lc cx con q" using less.prems(2) by (simp add: in_false_block_def)
    then show "truth lc cx con q = documented lc cx con q" "q < i" using less.IH d [OF m] by simp_all
  qed
  show ?case
  proof (cases "\<exists>p. dc_parent (cx_node cx i) = Some p \<and> p \<noteq> 0")
    case False
    then have "dc_parent (cx_node cx i) = None \<or> dc_parent (cx_node cx i) = Some 0" by (cases "dc_parent (cx_node cx i)") auto
    then show ?thesis
      unfolding truth.simps [of lc cx con i] documented.simps [of lc cx con i] using q
      by (cases "dc_prev (cx_node cx i)") (auto split: cond_result_t.split)
  next
    case True
    then obtain p where p: "dc_parent (cx_node cx i) = Some p" "p \<noteq> 0" by blast
    then have m: "p \<in> deps cx i" by (simp add: deps_def)
    have dp: "documented lc cx con p \<notin> {COND_RESULT_FALSE, COND_RESULT_SKIP}" using less.prems(2) p by (simp add: in_false_block_def)
    have "\<not> in_false_block lc cx con p" using in_false_block_skips [OF assms(1) d(2) [OF m]] dp by auto
    then have "truth lc cx con p = documented lc cx con p" using less.IH d [OF m] by simp
    then show ?thesis
      unfolding truth.simps [of lc cx con i] documented.simps [of lc cx con i] using q dp d(1) [OF m] p
      by (cases "dc_prev (cx_node cx i)"; cases "documented lc cx con p") (auto split: cond_result_t.split)
  qed
qed

lemma nocache_blocks:
  assumes "d \<in> deps cx i" "\<not> is_set con d"
  shows "config_check_cond_nocache lc cx False con i = Inl Blocked"
  using assms by (auto simp: deps_def config_check_cond_nocache.simps held_check is_set_def split: option.splits)

lemma coherent_view:
  assumes "coherent lc cx con" "same_view con con'" "same_results con con'"
  shows "coherent lc cx con'"
  using assms(1,3) local_truth_view [OF assms(2)] truth_view [OF assms(2)]
  by (simp add: coherent_def is_set_def same_results_def)

text \<open>Storing the result.\<close>

lemma coherent_store:
  assumes "coherent lc cx con" "same_view con con'" "i \<in> set (cx_data cx)" "\<forall>d \<in> deps cx i. is_set con d"
    "con' = update_cache i (\<lambda>e. e\<lparr>ce_result := r, ce_local_result := (if r = COND_RESULT_FALSE \<or> r = COND_RESULT_TRUE then r else ce_local_result e)\<rparr>) con"
    "r = truth lc cx con i" "\<not> is_set con i" "r = COND_RESULT_SKIP \<or> r = local_result lc (cx_node cx i) con"
  shows "coherent lc cx con'"
proof -
  have s: "is_set con' j \<longleftrightarrow> (if j = i then r \<noteq> COND_RESULT_UNSET else is_set con j)" for j
    using assms(5) by (simp add: is_set_def update_cache_def)
  have t: "truth lc cx con' j = truth lc cx con j" "local_truth lc dc con' = local_truth lc dc con" for j dc
    using truth_view [OF assms(2)] local_truth_view [OF assms(2)] by simp_all
  show ?thesis
    unfolding coherent_def
  proof
    fix j assume j: "j \<in> set (cx_data cx)"
    have old: "is_set con j \<longrightarrow> ce_result (kc_cache con j) = truth lc cx con j \<and> (\<forall>d \<in> deps cx j. is_set con d)"
      "ce_local_result (kc_cache con j) \<noteq> COND_RESULT_UNSET \<longrightarrow> ce_local_result (kc_cache con j)
         = (if local_truth lc (cx_node cx j) con then COND_RESULT_TRUE else COND_RESULT_FALSE)"
      using assms(1) j by (simp_all add: coherent_def)
    have mono: "is_set con d \<Longrightarrow> is_set con' d" for d using s [of d] assms(7) by auto
    show "(is_set con' j \<longrightarrow> ce_result (kc_cache con' j) = truth lc cx con' j \<and> (\<forall>d\<in>deps cx j. is_set con' d)) \<and>
         (ce_local_result (kc_cache con' j) \<noteq> COND_RESULT_UNSET \<longrightarrow> ce_local_result (kc_cache con' j)
            = (if local_truth lc (cx_node cx j) con' then COND_RESULT_TRUE else COND_RESULT_FALSE))"
    proof (cases "j = i")
      case True
      have "local_result lc (cx_node cx i) con = COND_RESULT_FALSE \<Longrightarrow> \<not> local_truth lc (cx_node cx i) con"
        "local_result lc (cx_node cx i) con = COND_RESULT_TRUE \<Longrightarrow> local_truth lc (cx_node cx i) con"
        by (auto simp: local_result_def split: if_splits)
      then show ?thesis
        using True assms(4,6,8) old(2) mono unfolding t by (auto simp: assms(5) update_cache_def)
    next
      case False
      have e: "kc_cache con' j = kc_cache con j" using False by (simp add: assms(5) update_cache_def)
      have "is_set con' j = is_set con j" using False s by simp
      then show ?thesis using old mono unfolding t e by blast
    qed
  qed
qed

lemma check_cached_ok:
  assumes "cx_ok cx" "kc_ok con" "coherent lc cx con" "i \<in> set (cx_data cx)" "is_set con i \<or> (\<forall>d \<in> deps cx i. is_set con d)"
  shows "\<exists>con'. config_check_cond_cached lc cx False con i = Inr (truth lc cx con i, con') \<and> same_view con con' \<and> coherent lc cx con'
     \<and> (\<forall>j. is_set con' j \<longleftrightarrow> is_set con j \<or> j = i \<and> truth lc cx con i \<noteq> COND_RESULT_UNSET)"
proof (cases "is_set con i")
  case True
  then have "ce_result (kc_cache con i) = truth lc cx con i" using assms(3,4) by (simp add: coherent_def)
  then have "config_check_cond_cached lc cx False con i = Inr (truth lc cx con i, con)"
    using True by (simp add: config_check_cond_cached.simps is_set_def)
  moreover have "is_set con j \<longleftrightarrow> is_set con j \<or> j = i \<and> truth lc cx con i \<noteq> COND_RESULT_UNSET" for j
    using True by blast
  ultimately show ?thesis using same_view_parts(1) [OF assms(2)] assms(3) by blast
next
  case False
  then have d: "\<forall>d \<in> deps cx i. is_set con d" using assms(5) by simp
  let ?r = "truth lc cx con i"
  obtain c1 where c1: "config_check_cond_nocache lc cx False con i = Inr (?r, c1)" "same_view con c1" "same_results con c1"
      "?r = COND_RESULT_SKIP \<or> ?r = local_result lc (cx_node cx i) con"
  proof (cases "?r = COND_RESULT_SKIP")
    case True
    then show ?thesis
      using nocache_decided [OF assms(1,3,4) d] same_view_parts(1) [OF assms(2)] that by (simp add: same_results_def)
  next
    case f: False
    have "ce_local_result (kc_cache con i) \<noteq> COND_RESULT_UNSET \<Longrightarrow> ce_local_result (kc_cache con i) =
        (if local_truth lc (cx_node cx i) con then COND_RESULT_TRUE else COND_RESULT_FALSE)"
      using assms(3,4) by (simp add: coherent_def)
    then have cl: "ce_local_result (kc_cache con i) \<noteq> COND_RESULT_UNSET \<Longrightarrow> ce_local_result (kc_cache con i) =
        (if local_truth lc (cx_node cx i) con then COND_RESULT_TRUE else COND_RESULT_FALSE)" .
    obtain r0 where r0: "dc_cond (cx_node cx i) = CONFIG_COND_UNSET \<longrightarrow> r0 = COND_RESULT_FALSE"
      "config_check_cond_nocache lc cx False con i = or_abort (check_local lc cx con i r0)" "?r = local_result lc (cx_node cx i) con"
      using nocache_decided [OF assms(1,3,4) d] f by auto
    from check_local_ok [OF assms(2) cl r0(1)] obtain c1 where
      "check_local lc cx con i r0 = Some (local_result lc (cx_node cx i) con, c1)" "same_view con c1" "same_results con c1" by blast
    then show ?thesis using that r0(2,3) by (simp add: or_abort_def)
  qed
  have k: "kc_ok c1" using same_view_ok [OF c1(2) assms(2)] .
  let ?f = "\<lambda>e. e\<lparr>ce_result := ?r, ce_local_result := (if ?r = COND_RESULT_FALSE \<or> ?r = COND_RESULT_TRUE then ?r else ce_local_result e)\<rparr>"
  let ?c2 = "update_cache i ?f c1"
  have run: "config_check_cond_cached lc cx False con i = Inr (?r, ?c2)"
    using False c1(1) by (simp add: config_check_cond_cached.simps is_set_def)
  have v: "same_view c1 ?c2" by (rule same_view_parts(4) [OF k])
  have i1: "is_set c1 = is_set con" using c1(3) by (simp add: same_results_def is_set_def fun_eq_iff)
  have "coherent lc cx ?c2"
  proof (rule coherent_store [OF coherent_view [OF assms(3) c1(2,3)] v assms(4)])
    show "\<forall>d\<in>deps cx i. is_set c1 d" "\<not> is_set c1 i" using d False by (simp_all add: i1)
    show "?r = truth lc cx c1 i" by (rule truth_view [OF c1(2), symmetric])
    show "?r = COND_RESULT_SKIP \<or> ?r = local_result lc (cx_node cx i) c1" using c1(4) local_truth_view(2) [OF c1(2)] by simp
  qed (rule refl)
  moreover have "is_set ?c2 j \<longleftrightarrow> is_set con j \<or> j = i \<and> ?r \<noteq> COND_RESULT_UNSET" for j
  proof -
    have "is_set ?c2 j \<longleftrightarrow> (if j = i then ?r \<noteq> COND_RESULT_UNSET else is_set c1 j)" by (simp add: is_set_def update_cache_def)
    then show ?thesis using False i1 by simp
  qed
  ultimately show ?thesis using run same_view_trans [OF c1(2) v] by blast
qed

section \<open>Forgetting\<close>

definition chained :: "config_context \<Rightarrow> nat \<Rightarrow> nat \<Rightarrow> bool" where
  "chained cx q i \<longleftrightarrow> dc_prev (cx_node cx i) = Some q"

text \<open>
  While nodes are pending, a result can be there without the results it depends on, but only if the
  node is pending, or will be reached from a pending one through its chain.
\<close>

definition closing :: "config_context \<Rightarrow> nat list \<Rightarrow> cond_con \<Rightarrow> bool" where
  "closing cx is con \<longleftrightarrow> (\<forall>i \<in> set (cx_data cx). is_set con i \<longrightarrow>
     (\<forall>q. chained cx q i \<longrightarrow> is_set con q \<or> i \<in> set is)
     \<and> (\<forall>p. dc_parent (cx_node cx i) = Some p \<and> p \<noteq> 0 \<longrightarrow> is_set con p \<or> (\<exists>j \<in> set is. (chained cx)\<^sup>*\<^sup>* j i)))"

lemma chained_data:
  assumes "cx_ok cx" "chained cx q i" "i \<in> set (cx_data cx)"
  shows "q \<in> set (cx_data cx)" "q < i" "dc_next (cx_node cx q) = Some i" "dc_parent (cx_node cx q) = dc_parent (cx_node cx i)"
proof -
  have q: "dc_prev (cx_node cx i) = Some q" using assms(2) by (simp add: chained_def)
  then have "q \<in> deps cx i" by (simp add: deps_def)
  then show "q \<in> set (cx_data cx)" "q < i" using assms(1,3) unfolding cx_ok_def by blast+
  show "dc_next (cx_node cx q) = Some i" "dc_parent (cx_node cx q) = dc_parent (cx_node cx i)"
    using assms(1,3) q unfolding cx_ok_def by blast+
qed

lemma closingD:
  assumes "closing cx is con" "i \<in> set (cx_data cx)" "is_set con i"
  shows "chained cx q i \<Longrightarrow> is_set con q \<or> i \<in> set is"
    "dc_parent (cx_node cx i) = Some p \<Longrightarrow> p \<noteq> 0 \<Longrightarrow> is_set con p \<or> (\<exists>j \<in> set is. (chained cx)\<^sup>*\<^sup>* j i)"
  using assms unfolding closing_def by blast+

lemma chain_data:
  assumes "cx_ok cx" "(chained cx)\<^sup>*\<^sup>* k i" "i \<in> set (cx_data cx)"
  shows "k \<in> set (cx_data cx)"
  using assms(2)
proof (induction rule: converse_rtranclp_induct)
  case base
  then show ?case by (rule assms(3))
next
  case (step y z)
  then show ?case using chained_data(1) [OF assms(1)] by blast
qed

lemma chain_head:
  assumes "cx_ok cx" "i \<in> set (cx_data cx)"
  shows "\<exists>h. (chained cx)\<^sup>*\<^sup>* h i \<and> h \<in> set (cx_data cx) \<and> dc_prev (cx_node cx h) = None \<and> dc_parent (cx_node cx h) = dc_parent (cx_node cx i)"
  using assms(2)
proof (induction i rule: less_induct)
  case (less i)
  show ?case
  proof (cases "dc_prev (cx_node cx i)")
    case None
    then show ?thesis using less.prems by blast
  next
    case (Some q)
    then have c: "chained cx q i" by (simp add: chained_def)
    note d = chained_data [OF assms(1) c less.prems]
    from less.IH [OF d(2,1)] show ?thesis using c d(4) by (metis rtranclp.rtrancl_into_rtrancl)
  qed
qed

lemma chain_pending:
  assumes "cx_ok cx" "closing cx (j # is) con" "(chained cx)\<^sup>*\<^sup>* j i" "i \<in> set (cx_data cx)" "is_set con i" "\<not> is_set con j"
  shows "\<exists>k \<in> set is. (chained cx)\<^sup>*\<^sup>* k i"
  using assms(3-5)
proof (induction rule: rtranclp_induct)
  case base
  then show ?case using assms(6) by simp
next
  case (step k i)
  have k: "k \<in> set (cx_data cx)" using chained_data(1) [OF assms(1) step.hyps(2) step.prems(1)] .
  show ?case
  proof (cases "is_set con k")
    case True
    then show ?thesis using step.IH [OF k] step.hyps(2) by (meson rtranclp.rtrancl_into_rtrancl)
  next
    case False
    then have "i \<in> set (j # is)" using closingD(1) [OF assms(2) step.prems step.hyps(2)] by blast
    moreover have "i \<noteq> j" using step.prems(2) assms(6) by blast
    ultimately show ?thesis by auto
  qed
qed

lemma closing_skip:
  assumes "cx_ok cx" "closing cx (j # is) con" "\<not> (j \<in> set (cx_data cx) \<and> is_set con j)"
  shows "closing cx is con"
  unfolding closing_def
proof (intro ballI impI conjI allI)
  fix i q assume i: "i \<in> set (cx_data cx)" "is_set con i" "chained cx q i"
  then have "is_set con q \<or> i \<in> set (j # is)" by (rule closingD(1) [OF assms(2)])
  moreover have "i \<noteq> j" using i assms(3) by blast
  ultimately show "is_set con q \<or> i \<in> set is" by simp
next
  fix i p assume i: "i \<in> set (cx_data cx)" "is_set con i" "dc_parent (cx_node cx i) = Some p \<and> p \<noteq> 0"
  have data: "(chained cx)\<^sup>*\<^sup>* k i \<Longrightarrow> k \<in> set (cx_data cx)" for k
    using chain_data [OF assms(1) _ i(1)] .
  show "is_set con p \<or> (\<exists>k\<in>set is. (chained cx)\<^sup>*\<^sup>* k i)"
  proof (rule disjCI)
    assume "\<not> (\<exists>k\<in>set is. (chained cx)\<^sup>*\<^sup>* k i)"
    moreover have "is_set con p \<or> (\<exists>k\<in>set (j # is). (chained cx)\<^sup>*\<^sup>* k i)" using closingD(2) [OF assms(2) i(1,2)] i(3) by blast
    moreover have "\<not> (chained cx)\<^sup>*\<^sup>* j i" if "\<not> (\<exists>k\<in>set is. (chained cx)\<^sup>*\<^sup>* k i)"
      using chain_pending [OF assms(1,2) _ i(1,2)] data assms(3) that by blast
    ultimately show "is_set con p" by auto
  qed
qed

lemma closing_clear:
  assumes "cx_ok cx" "closing cx (j # is) con" "j \<in> set (cx_data cx)"
  shows "closing cx (pending_after cx j @ is) (update_cache j (\<lambda>e. e\<lparr>ce_result := COND_RESULT_UNSET\<rparr>) con)"
    (is "closing cx ?is ?con")
proof -
  have s: "is_set ?con i \<longleftrightarrow> is_set con i \<and> i \<noteq> j" for i by (auto simp: is_set_def update_cache_def)
  have nxt: "n \<in> set (pending_after cx j)" if "chained cx j n" "n \<in> set (cx_data cx)" for n
    using chained_data(3) [OF assms(1) that] by (simp add: pending_after_def)
  show ?thesis
    unfolding closing_def
  proof (intro ballI impI conjI allI)
    fix i q assume i: "i \<in> set (cx_data cx)" "is_set ?con i" "chained cx q i"
    then have "is_set con q \<or> i \<in> set (j # is)" using closingD(1) [OF assms(2) i(1) _ i(3)] s by blast
    then show "is_set ?con q \<or> i \<in> set ?is" using i nxt s by auto
  next
    fix i p assume i: "i \<in> set (cx_data cx)" "is_set ?con i" "dc_parent (cx_node cx i) = Some p \<and> p \<noteq> 0"
    show "is_set ?con p \<or> (\<exists>k\<in>set ?is. (chained cx)\<^sup>*\<^sup>* k i)"
    proof (cases "p = j")
      case True
      obtain h where h: "(chained cx)\<^sup>*\<^sup>* h i" "h \<in> set (cx_data cx)" "dc_prev (cx_node cx h) = None"
          "dc_parent (cx_node cx h) = dc_parent (cx_node cx i)"
        using chain_head [OF assms(1) i(1)] by blast
      then have "h \<in> set (dc_children (cx_node cx j))" using assms(1) i(3) True by (auto simp: cx_ok_def)
      then show ?thesis using h(1,3) by (auto simp: pending_after_def)
    next
      case False
      have "is_set con p \<or> (\<exists>k\<in>set (j # is). (chained cx)\<^sup>*\<^sup>* k i)" using closingD(2) [OF assms(2) i(1)] i(2,3) s by blast
      moreover have "\<exists>n \<in> set (pending_after cx j). (chained cx)\<^sup>*\<^sup>* n i" if c: "(chained cx)\<^sup>*\<^sup>* j i"
      proof -
        have "i \<noteq> j" using i(2) s by simp
        then obtain n where n: "chained cx j n" "(chained cx)\<^sup>*\<^sup>* n i" using c by (metis converse_rtranclpE)
        have "n \<in> set (cx_data cx)" using chain_data [OF assms(1) n(2) i(1)] .
        then show ?thesis using nxt n by blast
      qed
      ultimately show ?thesis using False s by auto
    qed
  qed
qed

text \<open>Results are only forgotten.\<close>

definition forgot :: "cond_con \<Rightarrow> cond_con \<Rightarrow> bool" where
  "forgot con con' \<longleftrightarrow> (\<exists>c. con' = con\<lparr>kc_cache := c\<rparr>)
     \<and> (\<forall>j. is_set con' j \<longrightarrow> ce_result (kc_cache con' j) = ce_result (kc_cache con j))
     \<and> (\<forall>j. ce_local_result (kc_cache con' j) \<in> {COND_RESULT_UNSET, ce_local_result (kc_cache con j)})"

lemma forgot_refl: "forgot con con"
proof -
  have "con = con\<lparr>kc_cache := kc_cache con\<rparr>" by simp
  then show ?thesis unfolding forgot_def by blast
qed

lemma forgot_trans:
  assumes "forgot a b" "forgot b c"
  shows "forgot a c"
proof -
  have "is_set c j \<Longrightarrow> is_set b j" for j using assms(2) by (auto simp: forgot_def is_set_def)
  then have "\<forall>j. is_set c j \<longrightarrow> ce_result (kc_cache c j) = ce_result (kc_cache a j)"
    using assms unfolding forgot_def by metis
  moreover have "\<exists>k. c = a\<lparr>kc_cache := k\<rparr>" using assms by (auto simp: forgot_def)
  moreover have "ce_local_result (kc_cache c j) \<in> {COND_RESULT_UNSET, ce_local_result (kc_cache a j)}" for j
  proof -
    have "ce_local_result (kc_cache c j) \<in> {COND_RESULT_UNSET, ce_local_result (kc_cache b j)}"
      "ce_local_result (kc_cache b j) \<in> {COND_RESULT_UNSET, ce_local_result (kc_cache a j)}"
      using assms unfolding forgot_def by blast+
    then show ?thesis by auto
  qed
  ultimately show ?thesis unfolding forgot_def by blast
qed

lemma forgot_updates:
  "forgot con (update_cache i (\<lambda>e. e\<lparr>ce_result := COND_RESULT_UNSET\<rparr>) con)"
  "forgot con (update_cache i (\<lambda>e. e\<lparr>ce_local_result := COND_RESULT_UNSET\<rparr>) con)"
  by (auto simp: forgot_def update_cache_def is_set_def)

lemma forgotD:
  assumes "forgot con con'"
  shows "is_set con' j \<Longrightarrow> is_set con j" "kc_ok con \<Longrightarrow> same_view con con'" "kc_ok con \<Longrightarrow> kc_ok con'"
proof -
  show "is_set con' j \<Longrightarrow> is_set con j" using assms by (auto simp: forgot_def is_set_def)
  show v: "kc_ok con \<Longrightarrow> same_view con con'"
    using assms same_viewI [of "kc_tmp_buf con" "kc_check_buf con" con] by (auto simp: forgot_def kc_ok_def)
  show "kc_ok con \<Longrightarrow> kc_ok con'" using v same_view_ok by blast
qed

lemma clear_node_ok:
  assumes "cx_ok cx" "closing cx is con"
  shows "closing cx [] (config_cond_clear_node cx is con) \<and> forgot con (config_cond_clear_node cx is con)
     \<and> (\<forall>i \<in> set is. i \<in> set (cx_data cx) \<longrightarrow> \<not> is_set (config_cond_clear_node cx is con) i)"
  using assms
proof (induction cx "is" con rule: config_cond_clear_node.induct)
  case (2 cx i "is" con)
  let ?c = "update_cache i (\<lambda>e. e\<lparr>ce_result := COND_RESULT_UNSET\<rparr>) con"
  show ?case
  proof (cases "i \<in> set (cx_data cx) \<and> is_set con i")
    case True
    let ?r = "config_cond_clear_node cx (pending_after cx i @ is) ?c"
    have "closing cx (pending_after cx i @ is) ?c" using closing_clear [OF "2.prems"] True by blast
    from "2.IH"(1) [OF True "2.prems"(1) this]
    have r: "closing cx [] ?r" "forgot ?c ?r" "\<forall>k \<in> set (pending_after cx i @ is). k \<in> set (cx_data cx) \<longrightarrow> \<not> is_set ?r k" by blast+
    have "\<not> is_set ?c i" by (simp add: is_set_def update_cache_def)
    then have "\<not> is_set ?r i" using forgotD(1) [OF r(2)] by blast
    moreover have "forgot con ?r" using forgot_trans [OF forgot_updates(1) r(2)] .
    moreover have "config_cond_clear_node cx (i # is) con = ?r" using True by simp
    ultimately show ?thesis using r(1,3) by simp
  next
    case False
    have "closing cx is con" using closing_skip [OF "2.prems" False] .
    from "2.IH"(2) [OF False "2.prems"(1) this]
    have r: "closing cx [] (config_cond_clear_node cx is con)" "forgot con (config_cond_clear_node cx is con)"
        "\<forall>k \<in> set is. k \<in> set (cx_data cx) \<longrightarrow> \<not> is_set (config_cond_clear_node cx is con) k" by blast+
    moreover have "i \<in> set (cx_data cx) \<Longrightarrow> \<not> is_set (config_cond_clear_node cx is con) i"
      using False forgotD(1) [OF r(2)] by blast
    moreover have "config_cond_clear_node cx (i # is) con = config_cond_clear_node cx is con"
      unfolding config_cond_clear_node.simps(2) if_not_P [OF False] ..
    ultimately show ?thesis by simp
  qed
qed (simp add: forgot_refl)

lemma closing_local:
  "closing cx is con \<Longrightarrow> closing cx is (update_cache i (\<lambda>e. e\<lparr>ce_local_result := COND_RESULT_UNSET\<rparr>) con)"
proof -
  have "is_set (update_cache i (\<lambda>e. e\<lparr>ce_local_result := COND_RESULT_UNSET\<rparr>) con) = is_set con"
    by (simp add: is_set_def update_cache_def fun_eq_iff)
  then show "closing cx is con \<Longrightarrow> closing cx is (update_cache i (\<lambda>e. e\<lparr>ce_local_result := COND_RESULT_UNSET\<rparr>) con)"
    by (simp add: closing_def)
qed

lemma closing_more:
  assumes "closing cx [] con"
  shows "closing cx is con"
  unfolding closing_def
proof (intro ballI impI conjI allI)
  fix i q assume "i \<in> set (cx_data cx)" "is_set con i" "chained cx q i"
  then have "is_set con q \<or> i \<in> set []" by (rule closingD(1) [OF assms])
  then show "is_set con q \<or> i \<in> set is" by simp
next
  fix i p assume i: "i \<in> set (cx_data cx)" "is_set con i" "dc_parent (cx_node cx i) = Some p \<and> p \<noteq> 0"
  then have "is_set con p \<or> (\<exists>j \<in> set []. (chained cx)\<^sup>*\<^sup>* j i)" using closingD(2) [OF assms i(1,2)] by blast
  then show "is_set con p \<or> (\<exists>j \<in> set is. (chained cx)\<^sup>*\<^sup>* j i)" by simp
qed

lemma reset_items_ok:
  assumes "cx_ok cx" "closing cx [] con" "snd ` set l \<subseteq> set (cx_data cx)"
    and f: "f = (\<lambda>(i, n) con. if item = dc_comp (cx_node cx n)
      then config_cond_clear_node cx [n] (update_cache i (\<lambda>e. e\<lparr>ce_local_result := COND_RESULT_UNSET\<rparr>) con) else con)"
  shows "closing cx [] (fold f l con) \<and> forgot con (fold f l con)
     \<and> (\<forall>(i, n) \<in> set l. item = dc_comp (cx_node cx n) \<longrightarrow>
          \<not> is_set (fold f l con) n \<and> ce_local_result (kc_cache (fold f l con) i) = COND_RESULT_UNSET)"
  using assms(2,3)
proof (induction l arbitrary: con)
  case Nil
  then show ?case by (simp add: forgot_refl)
next
  case (Cons x l)
  obtain i n where x: "x = (i, n)" by (cases x)
  let ?c0 = "update_cache i (\<lambda>e. e\<lparr>ce_local_result := COND_RESULT_UNSET\<rparr>) con"
  have n: "n \<in> set (cx_data cx)" using Cons.prems(2) by (simp add: x)
  have c: "closing cx [] (f x con) \<and> forgot con (f x con) \<and> (item = dc_comp (cx_node cx n) \<longrightarrow>
      \<not> is_set (f x con) n \<and> ce_local_result (kc_cache (f x con) i) = COND_RESULT_UNSET)"
  proof (cases "item = dc_comp (cx_node cx n)")
    case True
    let ?c1 = "config_cond_clear_node cx [n] ?c0"
    have "f x con = ?c1" using True by (simp add: f x)
    moreover have r: "closing cx [] ?c1" "forgot ?c0 ?c1" "\<not> is_set ?c1 n"
    proof -
      note c = clear_node_ok [OF assms(1) closing_more [OF closing_local [OF Cons.prems(1), where i = i]], of "[n]"]
      show "closing cx [] ?c1" "forgot ?c0 ?c1" using c by blast+
      show "\<not> is_set ?c1 n" using c n by (metis list.set_intros(1))
    qed
    moreover have "forgot con ?c1" using forgot_trans [OF forgot_updates(2) r(2)] .
    moreover have "ce_local_result (kc_cache ?c1 i) = COND_RESULT_UNSET"
    proof -
      have "ce_local_result (kc_cache ?c0 i) = COND_RESULT_UNSET" by (simp add: update_cache_def)
      moreover have "ce_local_result (kc_cache ?c1 i) \<in> {COND_RESULT_UNSET, ce_local_result (kc_cache ?c0 i)}"
        using r(2) unfolding forgot_def by blast
      ultimately show ?thesis by simp
    qed
    ultimately show ?thesis by simp
  next
    case False
    then show ?thesis using Cons.prems(1) by (simp add: f x forgot_refl)
  qed
  then have "closing cx [] (f x con)" by blast
  moreover have "snd ` set l \<subseteq> set (cx_data cx)" using Cons.prems(2) by simp
  ultimately have r: "closing cx [] (fold f l (f x con)) \<and> forgot (f x con) (fold f l (f x con))
     \<and> (\<forall>(i, n) \<in> set l. item = dc_comp (cx_node cx n) \<longrightarrow>
          \<not> is_set (fold f l (f x con)) n \<and> ce_local_result (kc_cache (fold f l (f x con)) i) = COND_RESULT_UNSET)"
    by (rule Cons.IH)
  then have g: "forgot (f x con) (fold f l (f x con))" by blast
  have "item = dc_comp (cx_node cx n) \<longrightarrow> \<not> is_set (fold f l (f x con)) n
      \<and> ce_local_result (kc_cache (fold f l (f x con)) i) = COND_RESULT_UNSET"
  proof
    assume "item = dc_comp (cx_node cx n)"
    then have "\<not> is_set (f x con) n" "ce_local_result (kc_cache (f x con) i) = COND_RESULT_UNSET" using c by blast+
    then show "\<not> is_set (fold f l (f x con)) n \<and> ce_local_result (kc_cache (fold f l (f x con)) i) = COND_RESULT_UNSET"
    proof -
      have "ce_local_result (kc_cache (fold f l (f x con)) i) \<in> {COND_RESULT_UNSET, ce_local_result (kc_cache (f x con) i)}"
        using g unfolding forgot_def by blast
      moreover have "\<not> is_set (fold f l (f x con)) n" using forgotD(1) [OF g] \<open>\<not> is_set (f x con) n\<close> by blast
      ultimately show ?thesis using \<open>ce_local_result (kc_cache (f x con) i) = COND_RESULT_UNSET\<close> by simp
    qed
  qed
  moreover have "forgot con (fold f l (f x con))" using forgot_trans [OF _ g] c by blast
  moreover have "fold f (x # l) con = fold f l (f x con)" by simp
  ultimately show ?case using r unfolding x by simp
qed

text \<open>A change of what the conditions on one item read.\<close>

inductive changes :: "comp_key_t \<Rightarrow> cond_con \<Rightarrow> cond_con \<Rightarrow> bool" where
  host_changes: "changes COMP_HTTP_HOST con (con\<lparr>kc_authority := s\<rparr>)"
| scheme_changes: "changes COMP_HTTP_SCHEME con (con\<lparr>kc_scheme := s\<rparr>)"
| url_changes: "changes COMP_HTTP_URL con (con\<lparr>kc_path := s\<rparr>)"
| query_changes: "changes COMP_HTTP_QUERY_STRING con (con\<lparr>kc_query := s\<rparr>)"
| remote_ip_changes: "changes COMP_HTTP_REMOTE_IP con (con\<lparr>kc_dst_addr := a, kc_dst_addr_buf := s\<rparr>)"
| method_changes: "changes COMP_HTTP_REQUEST_METHOD con (con\<lparr>kc_http_method := m\<rparr>)"
| header_changes: "changes COMP_HTTP_REQUEST_HEADER con (con\<lparr>kc_headers := h\<rparr>)"

lemma changesD:
  assumes "changes item con con'"
  shows "kc_cache con' = kc_cache con" "kc_valid con' = kc_valid con"
    "dc_comp dc \<noteq> item \<Longrightarrow> local_truth lc dc con' = local_truth lc dc con"
proof -
  show "kc_cache con' = kc_cache con" "kc_valid con' = kc_valid con" using assms by (cases; simp)+
  assume d: "dc_comp dc \<noteq> item"
  have f: "item \<noteq> COMP_HTTP_HOST \<Longrightarrow> kc_authority con' = kc_authority con"
    "item \<noteq> COMP_HTTP_SCHEME \<Longrightarrow> kc_scheme con' = kc_scheme con"
    "item \<noteq> COMP_HTTP_URL \<Longrightarrow> kc_path con' = kc_path con"
    "item \<noteq> COMP_HTTP_QUERY_STRING \<Longrightarrow> kc_query con' = kc_query con"
    "item \<noteq> COMP_HTTP_REMOTE_IP \<Longrightarrow> kc_dst_addr con' = kc_dst_addr con \<and> kc_dst_addr_buf con' = kc_dst_addr_buf con"
    "item \<noteq> COMP_HTTP_REQUEST_METHOD \<Longrightarrow> kc_http_method con' = kc_http_method con"
    "item \<noteq> COMP_HTTP_REQUEST_HEADER \<Longrightarrow> kc_headers con' = kc_headers con"
    "kc_srv_addr con' = kc_srv_addr con \<and> kc_srv_token con' = kc_srv_token con"
    using assms by (cases; simp)+
  have h: "item \<noteq> COMP_HTTP_HOST \<Longrightarrow> host_text dc con' = host_text dc con"
    using f(1,8) by (simp only: host_text_def) simp
  have u: "item \<noteq> COMP_UNSET \<and> item \<notin> {COMP_HTTP_REFERER, COMP_HTTP_USER_AGENT, COMP_HTTP_LANGUAGE, COMP_HTTP_COOKIE, COMP_SERVER_SOCKET}"
    using assms by cases simp_all
  show "local_truth lc dc con' = local_truth lc dc con"
  proof (cases "never dc \<or> dc_cond dc = CONFIG_COND_ELSE")
    case True
    then show ?thesis by (auto simp: local_truth_def never_def)
  next
    case False
    have t: "cond_text dc con' = cond_text dc con"
      using d f h False by (cases "dc_comp dc") (simp_all add: cond_text_def never_def)
    have m: "dc_comp dc = COMP_HTTP_REMOTE_IP \<Longrightarrow> kc_dst_addr con' = kc_dst_addr con" using d f(5) by simp
    show ?thesis
    proof (cases "by_mask dc")
      case True
      then have "kc_dst_addr con' = kc_dst_addr con" using m by (simp add: by_mask_def)
      then show ?thesis using local_truth_cases(2) [OF _ True] False by simp
    next
      case f: False
      then show ?thesis using local_truth_cases(3) [OF _ _ f] False t by simp
    qed
  qed
qed

lemma reset_item_ok:
  assumes "cx_ok cx" "cx_data cx = [0..<n]" "coherent lc cx con" "changes item con con'" "kc_ok con'"
  shows "coherent lc cx (config_cond_cache_reset_item cx item con') \<and> same_view con' (config_cond_cache_reset_item cx item con')
     \<and> kc_ok (config_cond_cache_reset_item cx item con')"
proof -
  let ?r = "config_cond_cache_reset_item cx item con'"
  note same = changesD [OF assms(4)]
  have old: "is_set con' i = is_set con i" for i by (simp add: is_set_def same)
  have "closing cx [] con'"
    unfolding closing_def
  proof (intro ballI impI conjI allI)
    fix i q assume "i \<in> set (cx_data cx)" "is_set con' i" "chained cx q i"
    then have "q \<in> deps cx i" "\<forall>d \<in> deps cx i. is_set con d" using assms(3) old by (simp_all add: deps_def chained_def coherent_def)
    then show "is_set con' q \<or> i \<in> set []" using old by simp
  next
    fix i p assume "i \<in> set (cx_data cx)" "is_set con' i" "dc_parent (cx_node cx i) = Some p \<and> p \<noteq> 0"
    then have "p \<in> deps cx i" "\<forall>d \<in> deps cx i. is_set con d" using assms(3) old by (simp_all add: deps_def coherent_def)
    then show "is_set con' p \<or> (\<exists>j\<in>set []. (chained cx)\<^sup>*\<^sup>* j i)" using old by simp
  qed
  moreover have "snd ` set (List.enumerate 0 (cx_data cx)) \<subseteq> set (cx_data cx)" by (auto simp: enumerate_eq_zip dest: set_zip_rightD)
  ultimately have r: "closing cx [] ?r" "forgot con' ?r"
      "\<forall>(i, n) \<in> set (List.enumerate 0 (cx_data cx)). item = dc_comp (cx_node cx n) \<longrightarrow>
         \<not> is_set ?r n \<and> ce_local_result (kc_cache ?r i) = COND_RESULT_UNSET"
    using reset_items_ok [OF assms(1) _ _ refl, of con' "List.enumerate 0 (cx_data cx)" item]
    unfolding config_cond_cache_reset_item_def by blast+
  have item: "\<not> is_set ?r i \<and> ce_local_result (kc_cache ?r i) = COND_RESULT_UNSET"
    if i: "i \<in> set (cx_data cx)" "dc_comp (cx_node cx i) = item" for i
  proof -
    have "(i, i) \<in> set (List.enumerate 0 (cx_data cx))"
      using i(1) by (auto simp: assms(2) enumerate_eq_zip zip_same)
    then show ?thesis using r(3) i(2) by blast
  qed
  note v = forgotD(2) [OF r(2) assms(5)]
  note tv = truth_view [OF v] and lv = local_truth_view [OF v]
  have t: "is_set ?r i \<Longrightarrow> truth lc cx con' i = truth lc cx con i" if "i \<in> set (cx_data cx)" for i
    using that
  proof (induction i rule: less_induct)
    case (less i)
    have c: "dc_comp (cx_node cx i) \<noteq> item" using item less.prems by blast
    have l: "local_result lc (cx_node cx i) con' = local_result lc (cx_node cx i) con"
      using same(3) [OF c] by (simp add: local_result_def same)
    have d: "truth lc cx con' d = truth lc cx con d" if d: "d \<in> deps cx i" for d
    proof -
      have m: "d < i" "d \<in> set (cx_data cx)" using assms(1) less.prems(2) d by (auto simp: cx_ok_def)
      have "is_set ?r d"
        using closingD [OF r(1) less.prems(2,1)] d by (auto simp: deps_def chained_def)
      then show ?thesis using less.IH m by blast
    qed
    have p: "p \<in> deps cx i" if "dc_parent (cx_node cx i) = Some p" "p \<noteq> 0" for p using that by (simp add: deps_def)
    have q: "q \<in> deps cx i" if "dc_prev (cx_node cx i) = Some q" for q using that by (simp add: deps_def)
    have g: "(case dc_parent (cx_node cx i) of None \<Rightarrow> False
          | Some p \<Rightarrow> if p = 0 then False else if p < i then truth lc cx con' p = COND_RESULT_UNSET else True)
        = (case dc_parent (cx_node cx i) of None \<Rightarrow> False
          | Some p \<Rightarrow> if p = 0 then False else if p < i then truth lc cx con p = COND_RESULT_UNSET else True)"
      using d [OF p] by (cases "dc_parent (cx_node cx i)") simp_all
    show ?case
      unfolding truth.simps [of lc cx _ i] g l
      using d [OF q] by (cases "dc_prev (cx_node cx i)") simp_all
  qed
  have "coherent lc cx ?r"
    unfolding coherent_def
  proof (intro ballI conjI impI)
    fix i assume i: "i \<in> set (cx_data cx)" "is_set ?r i"
    have "ce_result (kc_cache ?r i) = ce_result (kc_cache con' i)" using r(2) i(2) unfolding forgot_def by blast
    also have "\<dots> = truth lc cx con i"
      using assms(3) i(1) forgotD(1) [OF r(2) i(2)] old by (simp add: coherent_def same)
    finally show "ce_result (kc_cache ?r i) = truth lc cx ?r i" using t [OF i(1,2)] by (simp add: tv)
    fix d assume "d \<in> deps cx i"
    then show "is_set ?r d" using closingD [OF r(1) i] by (auto simp: deps_def chained_def)
  next
    fix i assume i: "i \<in> set (cx_data cx)" "ce_local_result (kc_cache ?r i) \<noteq> COND_RESULT_UNSET"
    have c: "dc_comp (cx_node cx i) \<noteq> item" using item i by blast
    have e: "ce_local_result (kc_cache ?r i) = ce_local_result (kc_cache con i)"
      using r(2) i(2) by (simp add: forgot_def same) blast
    then show "ce_local_result (kc_cache ?r i) = (if local_truth lc (cx_node cx i) ?r then COND_RESULT_TRUE else COND_RESULT_FALSE)"
      using assms(3) i unfolding e lv same(3) [OF c] coherent_def by metis
  qed
  then show ?thesis using v forgotD(3) [OF r(2) assms(5)] by blast
qed

section \<open>Properties\<close>

text \<open>The configuration \<open>$HTTP["host"] == "a" { $HTTP["url"] == "/x" { } }\<close>, and a request for \<open>/x\<close> on another host.\<close>

definition sample_node :: data_config where
  "sample_node = \<lparr>dc_value = array_init, dc_comp_tag = [], dc_comp = COMP_HTTP_URL, dc_cond = CONFIG_COND_EQ, dc_children = [],
     dc_parent = Some 0, dc_prev = None, dc_next = None, dc_string = ''/x'', dc_regex = (\<lambda>_. (-1, []))\<rparr>"

definition sample_cx :: config_context where
  "sample_cx = \<lparr>cx_node = (\<lambda>i. if i = 0 then sample_node\<lparr>dc_comp := COMP_UNSET, dc_parent := None, dc_children := [1]\<rparr>
       else if i = 1 then sample_node\<lparr>dc_comp := COMP_HTTP_HOST, dc_string := ''a'', dc_children := [2]\<rparr>
       else sample_node\<lparr>dc_parent := Some 1\<rparr>), cx_data = [0..<3]\<rparr>"

definition sample_con :: cond_con where
  "sample_con = \<lparr>kc_valid = (\<lambda>_. True),
     kc_cache = (\<lambda>_. \<lparr>ce_result = COND_RESULT_UNSET, ce_local_result = COND_RESULT_UNSET, ce_patterncount = 0, ce_matches = [], ce_comp_value = None\<rparr>),
     kc_authority = Some ''b'', kc_scheme = Some ''http'', kc_path = Some ''/x'', kc_query = None,
     kc_dst_addr = AF_INET 1024 1, kc_dst_addr_buf = Some ''0.0.0.1'', kc_srv_addr = AF_INET 80 0, kc_srv_token = Some '':80'',
     kc_headers = array_init, kc_http_method = HTTP_METHOD_GET, kc_tmp_buf = buffer_init, kc_check_buf = buffer_init\<rparr>"

definition sample_libc :: libc where
  "sample_libc = \<lparr>inet_aton = (\<lambda>_. None), inet_pton6 = (\<lambda>_. None), inet_ntop4 = (\<lambda>_. []), inet_ntop6 = (\<lambda>_. [])\<rparr>"

lemma sample_ok:
  "cx_ok sample_cx" "cx_data sample_cx = [0..<3]" "kc_ok sample_con" "coherent sample_libc sample_cx sample_con" "\<not> is_set sample_con i"
  "deps sample_cx 1 = {}" "deps sample_cx 2 = {1}"
proof -
  show d: "deps sample_cx 1 = {}" "deps sample_cx 2 = {1}" by (auto simp: deps_def sample_cx_def sample_node_def)
  have z: "deps sample_cx 0 = {}" by (auto simp: deps_def sample_cx_def sample_node_def)
  have i: "i = 0 \<or> i = 1 \<or> i = 2" if "i \<in> set (cx_data sample_cx)" for i using that by (auto simp: sample_cx_def)
  have m: "1 \<in> set (cx_data sample_cx)" by (simp add: sample_cx_def)
  have n: "dc_prev (cx_node sample_cx i) = None" for i by (simp add: sample_cx_def sample_node_def)
  have p: "dc_parent (cx_node sample_cx i) = Some p \<Longrightarrow> p \<noteq> 0 \<Longrightarrow> i \<in> set (cx_data sample_cx) \<Longrightarrow> i \<in> set (dc_children (cx_node sample_cx p))" for i p
    using i by (auto simp: sample_cx_def sample_node_def split: if_splits)
  have "\<forall>d \<in> deps sample_cx i. d < i \<and> d \<in> set (cx_data sample_cx)" if "i \<in> set (cx_data sample_cx)" for i
    using i [OF that] z d m by auto
  moreover have "dc_cond (cx_node sample_cx i) = CONFIG_COND_EQ" for i by (simp add: sample_cx_def sample_node_def)
  ultimately show "cx_ok sample_cx" using n p by (simp add: cx_ok_def)
  show "cx_data sample_cx = [0..<3]" by (simp add: sample_cx_def)
  show "kc_ok sample_con" by (simp add: kc_ok_def sample_con_def fits_def PTRDIFF_MAX_def)
  show n: "\<not> is_set sample_con i" for i by (simp add: is_set_def sample_con_def)
  show "coherent sample_libc sample_cx sample_con" using n by (simp add: coherent_def) (simp add: sample_con_def)
qed

lemma sample_first:
  "\<exists>con1. config_check_cond sample_libc sample_cx sample_con 1 = Inr (False, con1) \<and> kc_ok con1 \<and> coherent sample_libc sample_cx con1
     \<and> same_view sample_con con1 \<and> ce_result (kc_cache con1 1) = COND_RESULT_FALSE"
proof -
  have t: "truth sample_libc sample_cx sample_con 1 = COND_RESULT_FALSE"
    by (simp add: truth.simps sample_cx_def sample_node_def local_result_def local_truth_def cond_text_def host_text_def sample_con_def cstr_def)
  have i: "1 \<in> set (cx_data sample_cx)" by (simp add: sample_ok(2))
  obtain con1 where c: "config_check_cond_cached sample_libc sample_cx False sample_con 1 = Inr (COND_RESULT_FALSE, con1)"
      "same_view sample_con con1" "coherent sample_libc sample_cx con1"
      "\<forall>j. is_set con1 j \<longleftrightarrow> is_set sample_con j \<or> j = 1"
    using check_cached_ok [OF sample_ok(1,3,4) i] sample_ok(6) t by auto
  have "ce_result (kc_cache con1 1) = truth sample_libc sample_cx con1 1" using c(3,4) i by (simp add: coherent_def)
  then show ?thesis using c t truth_view [OF c(2)] same_view_ok [OF c(2) sample_ok(3)] by (simp add: config_check_cond_def)
qed

text \<open>
  C13. \<open>config_check_cond\<close> on a coherent cache: when the result is cached, or the preconditions (the block
  around the condition, and the branch in front of an else branch) are, it returns, the cache stays
  coherent, and the answer is that of \<open>truth\<close>, the evaluation of the code without its cache. This is
  the documented one, that a condition matches only when the block around it does, unless the
  condition stands inside a block that is decided and not active: there the documentation
  and the comments ask for no match, and the code evaluates the condition on its own (\<open>false_parent_ignored\<close>, a
  finding). When neither is cached it never returns: the evaluation
  of the precondition locks the mutex that the evaluation of the condition holds.

  Assumed of the contexts (\<open>cx_ok\<close>, what the parser of the configuration builds): the block around a
  condition and the branch in front of it have smaller indices and are contexts themselves, the links
  between branches and from a block to its children agree, and a context inside a block has an
  operator. Assumed of the connection (\<open>kc_ok\<close>): a well-formed header table and buffers, a host name
  that leaves room for a port in a buffer, and a port below 2^16.
\<close>

theorem conditions_evaluated:
  assumes "cx_ok cx" "kc_ok con" "coherent lc cx con" "i \<in> set (cx_data cx)"
  shows "if is_set con i \<or> (\<forall>d \<in> deps cx i. is_set con d)
     then \<exists>con' b. config_check_cond lc cx con i = Inr (b, con')
            \<and> (b \<longleftrightarrow> truth lc cx con i = COND_RESULT_TRUE)
            \<and> (\<not> in_false_block lc cx con i \<longrightarrow> (b \<longleftrightarrow> documented lc cx con i = COND_RESULT_TRUE))
            \<and> same_view con con' \<and> coherent lc cx con'
     else config_check_cond lc cx con i = Inl Blocked"
proof (cases "is_set con i \<or> (\<forall>d \<in> deps cx i. is_set con d)")
  case True
  then show ?thesis
    using check_cached_ok [OF assms True] truth_documented [OF assms(1,4), of lc con] by (auto simp: config_check_cond_def)
next
  case False
  then obtain d where "d \<in> deps cx i" "\<not> is_set con d" by blast
  then have "config_check_cond_cached lc cx False con i = Inl Blocked"
    using nocache_blocks False by (simp add: config_check_cond_cached.simps is_set_def)
  then show ?thesis using False by (simp add: config_check_cond_def)
qed

theorem conditions_evaluated_witness:
  "(\<exists>con'. config_check_cond sample_libc sample_cx sample_con 1 = Inr (False, con') \<and> coherent sample_libc sample_cx con')
     \<and> config_check_cond sample_libc sample_cx sample_con 2 = Inl Blocked"
proof -
  have t: "truth sample_libc sample_cx sample_con 1 \<noteq> COND_RESULT_TRUE"
    by (simp add: truth.simps sample_cx_def sample_node_def local_result_def local_truth_def cond_text_def host_text_def sample_con_def cstr_def)
  have "1 \<in> set (cx_data sample_cx)" "2 \<in> set (cx_data sample_cx)" by (simp_all add: sample_ok(2))
  then show ?thesis
    using conditions_evaluated [OF sample_ok(1,3,4), of 1] conditions_evaluated [OF sample_ok(1,3,4), of 2] t sample_ok(5-7) by auto
qed

text \<open>
  C14. A condition inside a block whose own condition was found false is evaluated as if it stood alone,
  although it is documented to match only when the block does (\<open>documented\<close> gives \<open>COND_RESULT_SKIP\<close>): the
  code sets \<open>COND_RESULT_SKIP\<close> for it and goes on, so that its options are merged although the
  block around it does not apply.
\<close>

theorem false_parent_ignored:
  assumes "cx_ok cx" "kc_ok con" "coherent lc cx con" "i \<in> set (cx_data cx)"
    "dc_parent (cx_node cx i) = Some p" "p \<noteq> 0" "ce_result (kc_cache con p) = COND_RESULT_FALSE"
    "dc_prev (cx_node cx i) = None" "kc_valid con (dc_comp (cx_node cx i))"
  shows "\<exists>con'. config_check_cond lc cx con i = Inr (local_truth lc (cx_node cx i) con, con')
     \<and> documented lc cx con i = COND_RESULT_SKIP"
proof -
  have p: "is_set con p" using assms(7) by (simp add: is_set_def)
  have "deps cx i = {p}" using assms(5,6,8) by (auto simp: deps_def)
  then have d: "\<forall>d \<in> deps cx i. is_set con d" "p < i" "p \<in> set (cx_data cx)" using p assms(1,4) by (auto simp: cx_ok_def)
  then have tp: "truth lc cx con p = COND_RESULT_FALSE" using assms(3,7) p by (simp add: coherent_def)
  have "documented lc cx con p \<in> {COND_RESULT_FALSE, COND_RESULT_SKIP}"
    using truth_documented [OF assms(1) d(3), of lc con] in_false_block_skips [OF assms(1) d(3), of lc con] tp by fastforce
  then have "in_false_block lc cx con i" using assms(5,6) by (simp add: in_false_block_def)
  note sk = in_false_block_skips [OF assms(1,4) this]
  from tp have "truth lc cx con i = local_result lc (cx_node cx i) con"
    using assms(5,6,8) d(2) by (simp add: truth.simps [of lc cx con i])
  then have "truth lc cx con i = COND_RESULT_TRUE \<longleftrightarrow> local_truth lc (cx_node cx i) con"
    using assms(9) by (simp add: local_result_def)
  then show ?thesis using check_cached_ok [OF assms(1-4)] d(1) sk by (auto simp: config_check_cond_def)
qed

theorem false_parent_ignored_witness:
  "\<exists>con1 con2. config_check_cond sample_libc sample_cx sample_con 1 = Inr (False, con1)
     \<and> config_check_cond sample_libc sample_cx con1 2 = Inr (True, con2)"
proof -
  obtain con1 where c: "config_check_cond sample_libc sample_cx sample_con 1 = Inr (False, con1)" "kc_ok con1"
      "coherent sample_libc sample_cx con1" "same_view sample_con con1" "ce_result (kc_cache con1 1) = COND_RESULT_FALSE"
    using sample_first by blast
  have n: "2 \<in> set (cx_data sample_cx)" "dc_parent (cx_node sample_cx 2) = Some 1" "(1::nat) \<noteq> 0" "dc_prev (cx_node sample_cx 2) = None"
    by (simp_all add: sample_cx_def sample_node_def)
  have v: "kc_valid con1 (dc_comp (cx_node sample_cx 2))" by (simp add: same_viewD [OF c(4)] sample_con_def)
  have "local_truth sample_libc (cx_node sample_cx 2) con1"
    unfolding local_truth_view [OF c(4)] by (simp add: local_truth_def cond_text_def sample_cx_def sample_node_def sample_con_def)
  then show ?thesis
    using c(1) false_parent_ignored [OF sample_ok(1) c(2,3) n(1-3) c(5) n(4) v] by auto
qed

text \<open>
  C15. After a change of the host, the path, the address of the client or any other item,
  \<open>config_cond_cache_reset_item\<close> forgets enough: all results still cached, those of conditions that depend on the item
  through the blocks around them included, are the results an evaluation of the changed
  connection would give. The contexts are those the parser numbers: \<open>cx_data\<close> lists the indices from 0
  without a gap, and \<open>cx_ok\<close> holds of them.
\<close>

theorem reset_item_coherent:
  assumes "cx_ok cx" "cx_data cx = [0..<n]" "coherent lc cx con" "changes item con con'" "kc_ok con'"
  shows "coherent lc cx (config_cond_cache_reset_item cx item con')"
  using reset_item_ok [OF assms] by blast

theorem reset_item_coherent_witness:
  "\<exists>con1. config_check_cond sample_libc sample_cx sample_con 1 = Inr (False, con1)
     \<and> coherent sample_libc sample_cx (config_cond_cache_reset_item sample_cx COMP_HTTP_HOST (con1\<lparr>kc_authority := Some ''a''\<rparr>))"
proof -
  obtain con1 where c: "config_check_cond sample_libc sample_cx sample_con 1 = Inr (False, con1)" "kc_ok con1"
      "coherent sample_libc sample_cx con1" "same_view sample_con con1"
    using sample_first by blast
  have "kc_ok (con1\<lparr>kc_authority := Some ''a''\<rparr>)" using c(2) by (auto simp: kc_ok_def intro: fits_small)
  then show ?thesis using reset_item_coherent [OF sample_ok(1,2) c(3) host_changes] c(1) by blast
qed

end
