(* ===== verification/ConfigPatch.thy ===== *)
theory ConfigPatch
  imports Conditions Etag
begin

text \<open>
  How the options of the matching contexts become the configuration of a connection:
  \<open>config_setup_connection\<close> and \<open>config_patch_connection\<close> of \<open>src/src/configfile.c\<close>.  A
  \<open>specific_config\<close> is a function on the names of its fields that a connection has a copy of.
\<close>

section \<open>Operations\<close>

datatype conf_field =
    Http_parseopts | Allow_http11 | Mimetypes | Document_root | High_precision_timestamps | Max_keep_alive_requests
  | Max_keep_alive_idle | Max_read_idle | Max_write_idle | Max_request_size | Use_xattr | Error_handler | Error_handler_404
  | Error_intercept | Errorfile_prefix | Follow_symlink | Server_tag | Kbytes_per_second | Global_kbytes_per_second
  | Global_bytes_per_second_cnt | Global_bytes_per_second_cnt_ptr | Log_request_header | Log_response_header
  | Log_request_handling | Log_condition_handling | Log_file_not_found | Log_timeouts | Range_requests
  | Force_lowercase_filenames | Stream_request_body | Stream_response_body | Socket_perms | Etag_use_inode
  | Etag_use_mtime | Etag_use_size

text \<open>\<open>Counter_of i\<close> is the address of the counter in the configuration of context \<open>i\<close>.\<close>

datatype conf_value = Num nat | Text "string option" | Table array | Counter_of nat

record specific_config =
  sc_fields :: "conf_field \<Rightarrow> conf_value"
  sc_server_name :: "string option"

record conf_con =
  cf_conf :: "conf_field \<Rightarrow> conf_value"
  cf_server_name :: buffer
  cf_etag_flags :: etag_flags
  cf_cond :: cond_con

definition num :: "conf_value \<Rightarrow> nat" where
  "num v = (case v of Num n \<Rightarrow> n | _ \<Rightarrow> 0)"

text \<open>\<open>PATCH(x)\<close>, for the configuration of context \<open>i\<close>; the pointer to the counter points there.\<close>

definition field_of :: "specific_config \<Rightarrow> nat \<Rightarrow> conf_field \<Rightarrow> conf_value" where
  "field_of s i x = (if x = Global_bytes_per_second_cnt_ptr then Counter_of i else sc_fields s x)"

definition patch_field :: "specific_config \<Rightarrow> nat \<Rightarrow> conf_field \<Rightarrow> conf_con \<Rightarrow> conf_con" where
  "patch_field s i x con = con\<lparr>cf_conf := (cf_conf con)(x := field_of s i x)\<rparr>"

definition copy_server_name :: "specific_config \<Rightarrow> conf_con \<Rightarrow> conf_con option" where
  "copy_server_name s con = do {
     b \<leftarrow> (case sc_server_name s of
            None \<Rightarrow> buffer_copy_buffer (cf_server_name con) None
          | Some t \<Rightarrow> buffer_copy_string_len (cf_server_name con) t);
     Some (con\<lparr>cf_server_name := b\<rparr>)
   }"

definition setup_fields :: "conf_field list" where
  "setup_fields = [Http_parseopts, Allow_http11, Mimetypes, Document_root, High_precision_timestamps, Max_keep_alive_requests,
     Max_keep_alive_idle, Max_read_idle, Max_write_idle, Max_request_size, Use_xattr, Error_handler, Error_handler_404,
     Error_intercept, Errorfile_prefix, Follow_symlink, Server_tag, Kbytes_per_second, Global_kbytes_per_second,
     Global_bytes_per_second_cnt, Global_bytes_per_second_cnt_ptr, Log_request_header, Log_response_header,
     Log_request_handling, Log_condition_handling, Log_file_not_found, Log_timeouts, Range_requests,
     Force_lowercase_filenames, Stream_request_body, Stream_response_body, Socket_perms, Etag_use_inode, Etag_use_mtime, Etag_use_size]"

definition config_setup_connection :: "specific_config list \<Rightarrow> conf_con \<Rightarrow> conf_con option" where
  "config_setup_connection storage con = do {
     s \<leftarrow> nth_opt storage 0;
     copy_server_name s (fold (patch_field s 0) setup_fields con)
   }"

text \<open>The fields that an option of a context sets; \<open>server.name\<close> is copied to the connection.\<close>

definition option_fields :: "(string \<times> conf_field list) list" where
  "option_fields =
    [(''server.document-root'', [Document_root]), (''server.range-requests'', [Range_requests]),
     (''server.error-handler'', [Error_handler]), (''server.error-handler-404'', [Error_handler_404]),
     (''server.error-intercept'', [Error_intercept]), (''server.errorfile-prefix'', [Errorfile_prefix]),
     (''mimetype.assign'', [Mimetypes]), (''server.max-keep-alive-requests'', [Max_keep_alive_requests]),
     (''server.max-keep-alive-idle'', [Max_keep_alive_idle]), (''server.max-write-idle'', [Max_write_idle]),
     (''server.max-read-idle'', [Max_read_idle]), (''server.max-request-size'', [Max_request_size]),
     (''mimetype.use-xattr'', [Use_xattr]), (''etag.use-inode'', [Etag_use_inode]),
     (''etag.use-mtime'', [Etag_use_mtime]), (''etag.use-size'', [Etag_use_size]),
     (''server.follow-symlink'', [Follow_symlink]), (''server.tag'', [Server_tag]),
     (''server.stream-request-body'', [Stream_request_body]), (''server.stream-response-body'', [Stream_response_body]),
     (''connection.kbytes-per-second'', [Kbytes_per_second]), (''debug.log-request-handling'', [Log_request_handling]),
     (''debug.log-request-header'', [Log_request_header]), (''debug.log-response-header'', [Log_response_header]),
     (''debug.log-condition-handling'', [Log_condition_handling]), (''debug.log-file-not-found'', [Log_file_not_found]),
     (''debug.log-timeouts'', [Log_timeouts]), (''server.protocol-http11'', [Allow_http11]),
     (''server.force-lowercase-filenames'', [Force_lowercase_filenames]),
     (''server.kbytes-per-second'', [Global_kbytes_per_second, Global_bytes_per_second_cnt, Global_bytes_per_second_cnt_ptr]),
     (''server.socket-perms'', [Socket_perms])]"

definition fields_of_key :: "string \<Rightarrow> conf_field list" where
  "fields_of_key key = (case map_of option_fields key of None \<Rightarrow> [] | Some fs \<Rightarrow> fs)"

fun merge_options :: "specific_config \<Rightarrow> nat \<Rightarrow> data_unset list \<Rightarrow> conf_con \<Rightarrow> conf_con option" where
  "merge_options s i [] con = Some con"
| "merge_options s i (du # dus) con =
     (let key = abs_bytes (du_key du)
      in if key = ''server.name'' then do { con \<leftarrow> copy_server_name s con; merge_options s i dus con }
         else merge_options s i dus (fold (patch_field s i) (fields_of_key key) con))"

text \<open>The loop over the contexts, from index \<open>i\<close> on.\<close>

fun patch_contexts :: "libc \<Rightarrow> config_context \<Rightarrow> specific_config list \<Rightarrow> nat list \<Rightarrow> conf_con \<Rightarrow> stop + conf_con" where
  "patch_contexts lc cx storage [] con = Inr con"
| "patch_contexts lc cx storage (i # is) con =
     (let dc = cx_data cx ! i
      in case config_check_cond lc cx (cf_cond con) dc of
           Inl e \<Rightarrow> Inl e
         | Inr (t, cc) \<Rightarrow>
             (let con = con\<lparr>cf_cond := cc\<rparr>
              in if \<not> t then patch_contexts lc cx storage is con
                 else case or_abort (do { s \<leftarrow> nth_opt storage i; merge_options s i (array_entries (dc_value (cx_node cx dc))) con }) of
                        Inl e \<Rightarrow> Inl e
                      | Inr con \<Rightarrow> patch_contexts lc cx storage is con))"

definition config_patch_connection :: "libc \<Rightarrow> config_context \<Rightarrow> specific_config list \<Rightarrow> conf_con \<Rightarrow> stop + conf_con" where
  "config_patch_connection lc cx storage con =
     (case patch_contexts lc cx storage [1..<length (cx_data cx)] con of
        Inl e \<Rightarrow> Inl e
      | Inr con \<Rightarrow> Inr (con\<lparr>cf_etag_flags :=
          \<lparr>ETAG_USE_INODE = num (cf_conf con Etag_use_inode) \<noteq> 0, ETAG_USE_MTIME = num (cf_conf con Etag_use_mtime) \<noteq> 0,
           ETAG_USE_SIZE = num (cf_conf con Etag_use_size) \<noteq> 0\<rparr>\<rparr>))"

section \<open>Specification\<close>

text \<open>The fields that the options of a context set.\<close>

definition set_by :: "data_unset \<Rightarrow> conf_field set" where
  "set_by du = (if abs_bytes (du_key du) = ''server.name'' then {} else set (fields_of_key (abs_bytes (du_key du))))"

definition context_fields :: "config_context \<Rightarrow> nat \<Rightarrow> conf_field set" where
  "context_fields cx i = \<Union>(set_by ` set (array_entries (dc_value (cx_node cx i))))"

text \<open>The contexts that the code takes, and those that apply as documented.\<close>

definition taken :: "libc \<Rightarrow> config_context \<Rightarrow> cond_con \<Rightarrow> nat \<Rightarrow> bool" where
  "taken lc cx cc i \<longleftrightarrow> truth lc cx cc i = COND_RESULT_TRUE"

definition applies :: "libc \<Rightarrow> config_context \<Rightarrow> cond_con \<Rightarrow> nat \<Rightarrow> bool" where
  "applies lc cx cc i \<longleftrightarrow> documented lc cx cc i = COND_RESULT_TRUE"

text \<open>The last of the selected contexts that sets the field decides, or else the value there was.\<close>

definition merged :: "(nat \<Rightarrow> bool) \<Rightarrow> config_context \<Rightarrow> specific_config list \<Rightarrow> (conf_field \<Rightarrow> conf_value) \<Rightarrow> nat list \<Rightarrow> conf_field \<Rightarrow> conf_value" where
  "merged sel cx storage base is f =
     (case List.find (\<lambda>i. sel (cx_data cx ! i) \<and> f \<in> context_fields cx (cx_data cx ! i)) (rev is) of
        None \<Rightarrow> base f | Some i \<Rightarrow> field_of (storage ! i) i f)"

text \<open>What the conditions are about is known of the request.\<close>

definition items_known :: "config_context \<Rightarrow> cond_con \<Rightarrow> bool" where
  "items_known cx cc \<longleftrightarrow> (\<forall>i \<in> set (drop 1 (cx_data cx)). kc_valid cc (dc_comp (cx_node cx i)))"

text \<open>Every context stands behind those its result depends on.\<close>

definition in_order_upto :: "config_context \<Rightarrow> nat \<Rightarrow> bool" where
  "in_order_upto cx m \<longleftrightarrow> (\<forall>i < m. deps cx (cx_data cx ! i) \<subseteq> set (take i (cx_data cx)))"

definition in_order :: "config_context \<Rightarrow> bool" where
  "in_order cx \<longleftrightarrow> in_order_upto cx (length (cx_data cx))"

definition storage_ok :: "specific_config list \<Rightarrow> config_context \<Rightarrow> bool" where
  "storage_ok storage cx \<longleftrightarrow> length storage = length (cx_data cx)
     \<and> (\<forall>s \<in> set storage. fits (length (abs_bytes (sc_server_name s))))"

definition cf_ok :: "conf_con \<Rightarrow> bool" where
  "cf_ok con \<longleftrightarrow> kc_ok (cf_cond con) \<and> buffer_wf (cf_server_name con)"

section \<open>Merging\<close>

lemma patch_field_simps [simp]:
  "cf_cond (patch_field s i x con) = cf_cond con" "cf_server_name (patch_field s i x con) = cf_server_name con"
  by (simp_all add: patch_field_def)

lemma fold_patch [simp]:
  "cf_cond (fold (patch_field s i) fs con) = cf_cond con" "cf_server_name (fold (patch_field s i) fs con) = cf_server_name con"
  by (induction fs arbitrary: con) simp_all

lemma fold_patch_conf: "cf_conf (fold (patch_field s i) fs con) f = (if f \<in> set fs then field_of s i f else cf_conf con f)"
  by (induction fs arbitrary: con) (auto simp: patch_field_def)

lemma copy_server_name_ok:
  assumes "buffer_wf (cf_server_name con)" "fits (length (abs_bytes (sc_server_name s)))"
  shows "\<exists>b. copy_server_name s con = Some (con\<lparr>cf_server_name := b\<rparr>) \<and> buffer_wf b \<and> buffer_abs b = sc_server_name s"
proof (cases "sc_server_name s")
  case None
  then show ?thesis using buffer_copy_buffer_ok [OF assms(1), of None] by (auto simp: copy_server_name_def)
next
  case (Some t)
  then show ?thesis using buffer_copy_string_len_ok [OF assms(1), of t] assms(2) by (auto simp: copy_server_name_def)
qed

lemma merge_options_ok:
  assumes "buffer_wf (cf_server_name con)" "fits (length (abs_bytes (sc_server_name s)))"
  shows "\<exists>con'. merge_options s i dus con = Some con' \<and> cf_cond con' = cf_cond con \<and> buffer_wf (cf_server_name con')
     \<and> (\<forall>f. cf_conf con' f = (if f \<in> \<Union>(set_by ` set dus) then field_of s i f else cf_conf con f))"
  using assms(1)
proof (induction dus arbitrary: con)
  case Nil
  then show ?case by simp
next
  case (Cons du dus)
  show ?case
  proof (cases "abs_bytes (du_key du) = ''server.name''")
    case True
    obtain b where b: "copy_server_name s con = Some (con\<lparr>cf_server_name := b\<rparr>)" "buffer_wf b"
      using copy_server_name_ok [OF Cons.prems assms(2)] by blast
    have w: "buffer_wf (cf_server_name (con\<lparr>cf_server_name := b\<rparr>))" using b(2) by simp
    obtain con' where "merge_options s i dus (con\<lparr>cf_server_name := b\<rparr>) = Some con'" "cf_cond con' = cf_cond con" "buffer_wf (cf_server_name con')"
        "\<forall>f. cf_conf con' f = (if f \<in> \<Union>(set_by ` set dus) then field_of s i f else cf_conf con f)"
      using Cons.IH [OF w] by auto
    moreover have "set_by du = {}" using True by (simp add: set_by_def)
    ultimately show ?thesis using b(1) True by simp
  next
    case False
    let ?c = "fold (patch_field s i) (fields_of_key (abs_bytes (du_key du))) con"
    have "buffer_wf (cf_server_name ?c)" using Cons.prems by simp
    then obtain con' where c: "merge_options s i dus ?c = Some con'" "cf_cond con' = cf_cond con" "buffer_wf (cf_server_name con')"
        "\<forall>f. cf_conf con' f = (if f \<in> \<Union>(set_by ` set dus) then field_of s i f else cf_conf ?c f)"
      using Cons.IH [of ?c] by auto
    have "merge_options s i (du # dus) con = Some con'" using False c(1) by (simp add: Let_def)
    moreover have "cf_conf con' f = (if f \<in> \<Union>(set_by ` set (du # dus)) then field_of s i f else cf_conf con f)" for f
      using c(4) False by (simp add: fold_patch_conf set_by_def)
    ultimately show ?thesis using c(2,3) by blast
  qed
qed

text \<open>With all items known, a condition whose preconditions are decided is decided.\<close>

lemma truth_decided:
  assumes "cx_ok cx" "coherent lc cx cc" "i \<in> set (cx_data cx)" "\<forall>d \<in> deps cx i. is_set cc d" "kc_valid cc (dc_comp (cx_node cx i))"
  shows "truth lc cx cc i \<noteq> COND_RESULT_UNSET"
proof (cases "truth lc cx cc i = COND_RESULT_SKIP")
  case False
  then have "truth lc cx cc i = local_result lc (cx_node cx i) cc" using nocache_decided [OF assms(1-4)] by blast
  then show ?thesis using assms(5) by (simp add: local_result_def)
qed simp

lemma find_rev_Cons: "List.find P (rev (i # is)) = (case List.find P (rev is) of Some x \<Rightarrow> Some x | None \<Rightarrow> if P i then Some i else None)"
  by (induction "is" rule: rev_induct) auto

lemma merged_Cons:
  "merged sel cx storage base (i # is) f = merged sel cx storage
     (\<lambda>f. if sel (cx_data cx ! i) \<and> f \<in> context_fields cx (cx_data cx ! i) then field_of (storage ! i) i f else base f) is f"
  unfolding merged_def find_rev_Cons by (auto split: option.split)

lemma patch_contexts_ok:
  assumes "cx_ok cx" "storage_ok storage cx" "in_order_upto cx m" "m \<le> length (cx_data cx)" "items_known cx (cf_cond con)"
    "cf_ok con" "coherent lc cx (cf_cond con)" "1 \<le> k" "k \<le> m"
    "\<forall>j \<in> set (take k (cx_data cx)). j \<noteq> cx_data cx ! 0 \<longrightarrow> is_set (cf_cond con) j" "\<And>i. cx_data cx ! 0 \<notin> deps cx i"
  shows "\<exists>con'. patch_contexts lc cx storage [k..<m] con = Inr con' \<and> cf_ok con' \<and> coherent lc cx (cf_cond con')
     \<and> same_view (cf_cond con) (cf_cond con')
     \<and> (\<forall>j. is_set (cf_cond con') j \<longrightarrow> is_set (cf_cond con) j \<or> j \<in> set (take m (cx_data cx)))
     \<and> (\<forall>f. cf_conf con' f = merged (taken lc cx (cf_cond con)) cx storage (cf_conf con) [k..<m] f)"
  using assms(5-10)
proof (induction "m - k" arbitrary: k con)
  case 0
  then have "[k..<m] = []" by simp
  moreover have "same_view (cf_cond con) (cf_cond con)" using same_view_parts(1) 0(3) by (simp add: cf_ok_def)
  ultimately show ?case using 0 by (simp add: merged_def)
next
  case (Suc n)
  let ?N = "length (cx_data cx)" and ?i = "cx_data cx ! k"
  have k: "k < m" "k < ?N" using Suc(2) assms(4) by simp_all
  have i: "?i \<in> set (cx_data cx)" using k by simp
  have d: "\<forall>d \<in> deps cx ?i. is_set (cf_cond con) d"
  proof
    fix d assume d: "d \<in> deps cx ?i"
    then have "d \<in> set (take k (cx_data cx))" using assms(3) k by (auto simp: in_order_upto_def)
    moreover have "d \<noteq> cx_data cx ! 0" using assms(11) d by metis
    ultimately show "is_set (cf_cond con) d" using Suc.prems(6) by blast
  qed
  have kc: "kc_ok (cf_cond con)" using Suc.prems(2) by (simp add: cf_ok_def)
  obtain cc where cc: "config_check_cond_cached lc cx False (cf_cond con) ?i = Inr (truth lc cx (cf_cond con) ?i, cc)"
      "same_view (cf_cond con) cc" "coherent lc cx cc"
      "\<forall>j. is_set cc j \<longleftrightarrow> is_set (cf_cond con) j \<or> j = ?i \<and> truth lc cx (cf_cond con) ?i \<noteq> COND_RESULT_UNSET"
    using check_cached_ok [OF assms(1) kc Suc.prems(3) i] d by blast
  have run: "config_check_cond lc cx (cf_cond con) ?i = Inr (taken lc cx (cf_cond con) ?i, cc)"
    using cc(1) by (simp add: config_check_cond_def taken_def)
  have "?i = drop 1 (cx_data cx) ! (k - 1)" "k - 1 < length (drop 1 (cx_data cx))" using k Suc.prems(4) by simp_all
  then have "?i \<in> set (drop 1 (cx_data cx))" by (metis nth_mem)
  then have known: "kc_valid (cf_cond con) (dc_comp (cx_node cx ?i))" using Suc.prems(1) by (simp only: items_known_def)
  have set: "is_set cc ?i" using cc(4) truth_decided [OF assms(1) Suc.prems(3) i d] known by blast
  have kcc: "kc_ok cc" using same_view_ok [OF cc(2) kc] .
  have valid: "items_known cx cc" using Suc.prems(1) by (simp add: items_known_def same_viewD [OF cc(2)])
  have next1: "\<forall>j \<in> set (take (Suc k) (cx_data cx)). j \<noteq> cx_data cx ! 0 \<longrightarrow> is_set cc j"
    using Suc.prems(6) cc(4) set k by (auto simp: take_Suc_conv_app_nth)
  let ?base = "\<lambda>f. if taken lc cx (cf_cond con) ?i \<and> f \<in> context_fields cx ?i then field_of (storage ! k) k f else cf_conf con f"
  obtain con1 where con1: "patch_contexts lc cx storage (k # [Suc k..<m]) con = patch_contexts lc cx storage [Suc k..<m] con1"
      "cf_cond con1 = cc" "buffer_wf (cf_server_name con1)" "\<forall>f. cf_conf con1 f = ?base f"
  proof (cases "taken lc cx (cf_cond con) ?i")
    case True
    have s: "nth_opt storage k = Some (storage ! k)" "fits (length (abs_bytes (sc_server_name (storage ! k))))"
      using assms(2) k by (auto simp: storage_ok_def nth_opt_def)
    have w: "buffer_wf (cf_server_name (con\<lparr>cf_cond := cc\<rparr>))" using Suc.prems(2) by (simp add: cf_ok_def)
    from merge_options_ok [OF w s(2), of k "array_entries (dc_value (cx_node cx ?i))"]
    obtain con1 where m: "merge_options (storage ! k) k (array_entries (dc_value (cx_node cx ?i))) (con\<lparr>cf_cond := cc\<rparr>) = Some con1"
        "cf_cond con1 = cc" "buffer_wf (cf_server_name con1)"
        "\<forall>f. cf_conf con1 f = (if f \<in> context_fields cx ?i then field_of (storage ! k) k f else cf_conf con f)"
      unfolding context_fields_def by auto
    then show ?thesis using that [of con1] True run s(1) by (simp add: Let_def or_abort_def)
  next
    case False
    then show ?thesis using that [of "con\<lparr>cf_cond := cc\<rparr>"] run Suc.prems(2) by (simp add: Let_def cf_ok_def)
  qed
  have "n = m - Suc k" "cf_ok con1" using Suc(2) con1(2,3) kcc by (simp_all add: cf_ok_def)
  moreover have "1 \<le> Suc k" "Suc k \<le> m" using k by simp_all
  ultimately obtain con' where con': "patch_contexts lc cx storage [Suc k..<m] con1 = Inr con'" "cf_ok con'" "coherent lc cx (cf_cond con')"
      "same_view cc (cf_cond con')"
      "\<forall>j. is_set (cf_cond con') j \<longrightarrow> is_set cc j \<or> j \<in> set (take m (cx_data cx))" "\<forall>f. cf_conf con' f = merged (taken lc cx cc) cx storage (cf_conf con1) [Suc k..<m] f"
    using Suc(1) [of "Suc k" con1] valid cc(3) next1 con1(2) by auto
  have u: "[k..<m] = k # [Suc k..<m]" using k(1) by (rule upt_conv_Cons)
  have "cf_conf con' f = merged (taken lc cx (cf_cond con)) cx storage (cf_conf con) [k..<m] f" for f
  proof -
    have "taken lc cx cc = taken lc cx (cf_cond con)" by (simp add: taken_def truth_view [OF cc(2)] fun_eq_iff)
    moreover have "cf_conf con1 = ?base" using con1(4) by (simp add: fun_eq_iff)
    ultimately show ?thesis unfolding u merged_Cons using con'(6) by (simp add: merged_def)
  qed
  moreover have "?i \<in> set (take m (cx_data cx))" using k by (metis in_set_conv_nth length_take min_less_iff_conj nth_take)
  then have "\<forall>j. is_set (cf_cond con') j \<longrightarrow> is_set (cf_cond con) j \<or> j \<in> set (take m (cx_data cx))" using con'(5) cc(4) by blast
  moreover have "patch_contexts lc cx storage [k..<m] con = Inr con'" using con'(1) con1(1) u by simp
  ultimately show ?case using con'(2,3) same_view_trans [OF cc(2) con'(4)] by blast
qed

lemma patch_contexts_append:
  "patch_contexts lc cx storage (is @ js) con =
     (case patch_contexts lc cx storage is con of Inl e \<Rightarrow> Inl e | Inr con \<Rightarrow> patch_contexts lc cx storage js con)"
  by (induction lc cx storage "is" con rule: patch_contexts.induct) (auto simp: Let_def split: sum.split)

section \<open>Properties\<close>

lemma config_patch_ok:
  assumes "cx_ok cx" "storage_ok storage cx" "in_order cx" "items_known cx (cf_cond con)" "cf_ok con"
    "coherent lc cx (cf_cond con)" "cx_data cx \<noteq> []" "\<And>i. cx_data cx ! 0 \<notin> deps cx i"
  shows "\<exists>con'. config_patch_connection lc cx storage con = Inr con'
     \<and> (\<forall>f. cf_conf con' f = merged (taken lc cx (cf_cond con)) cx storage (cf_conf con) [1..<length (cx_data cx)] f)
     \<and> coherent lc cx (cf_cond con') \<and> cf_ok con'"
proof -
  have l: "1 \<le> length (cx_data cx)" using assms(7) by (simp add: Suc_le_eq)
  have o: "in_order_upto cx (length (cx_data cx))" using assms(3) by (simp add: in_order_def)
  have "\<forall>j \<in> set (take 1 (cx_data cx)). j \<noteq> cx_data cx ! 0 \<longrightarrow> is_set (cf_cond con) j" using assms(7) by (cases "cx_data cx") simp_all
  from patch_contexts_ok [OF assms(1,2) o order_refl assms(4-6) order_refl l this assms(8)]
  show ?thesis by (auto simp: config_patch_connection_def cf_ok_def)
qed

text \<open>Every field of the configuration is set from the first context.\<close>

lemma config_setup_ok:
  assumes "storage_ok storage cx" "cx_data cx \<noteq> []" "buffer_wf (cf_server_name con)"
  shows "\<exists>con'. config_setup_connection storage con = Some con' \<and> cf_cond con' = cf_cond con \<and> buffer_wf (cf_server_name con')
     \<and> cf_conf con' = field_of (storage ! 0) 0"
proof -
  let ?con = "fold (patch_field (storage ! 0) 0) setup_fields con"
  have s: "nth_opt storage 0 = Some (storage ! 0)" "fits (length (abs_bytes (sc_server_name (storage ! 0))))"
    using assms(1,2) by (auto simp: storage_ok_def nth_opt_def)
  have "x \<in> set setup_fields" for x by (cases x) (simp_all add: setup_fields_def)
  then have "cf_conf ?con = field_of (storage ! 0) 0" by (simp add: fun_eq_iff fold_patch_conf)
  moreover have "buffer_wf (cf_server_name ?con)" using assms(3) by simp
  ultimately show ?thesis
    using copy_server_name_ok [of ?con "storage ! 0"] s by (auto simp: config_setup_connection_def)
qed

lemma merged_cong:
  assumes "\<And>i. i \<in> set is \<Longrightarrow> sel (cx_data cx ! i) = sel' (cx_data cx ! i)"
  shows "merged sel cx storage base is f = merged sel' cx storage base is f"
proof -
  have "List.find (\<lambda>i. sel (cx_data cx ! i) \<and> f \<in> context_fields cx (cx_data cx ! i)) (rev is)
      = List.find (\<lambda>i. sel' (cx_data cx ! i) \<and> f \<in> context_fields cx (cx_data cx ! i)) (rev is)"
    by (rule find_cong) (use assms in auto)
  then show ?thesis by (simp add: merged_def)
qed

lemma taken_applies:
  assumes "cx_ok cx" "i \<in> set (cx_data cx)" "in_false_block lc cx cc i \<longrightarrow> \<not> taken lc cx cc i"
  shows "taken lc cx cc i = applies lc cx cc i"
  using assms(3) truth_documented [OF assms(1,2), of lc cc] in_false_block_skips [OF assms(1,2), of lc cc]
  by (cases "in_false_block lc cx cc i") (auto simp: taken_def applies_def)

text \<open>
  C16. When every context stands behind those its result depends on, and what they ask for is known,
  \<open>config_patch_connection\<close> returns, and each field of the configuration is that of the last
  context that is taken and sets it, or else what it was. The contexts taken are those for which \<open>truth\<close>, the
  evaluation of the code, is true. They are the contexts that apply as documented (\<open>documented\<close>: a
  block inside another only when the outer one applies) when none is taken inside a block that does not apply,
  and then each field is that of the last context that applies and sets it; in general the code also takes such blocks
  (\<open>false_parent_ignored\<close>, \<open>false_block_options_merged\<close>). Assumed besides: \<open>cx_ok\<close> of the contexts, of which the first, the global
  one, is no condition of another; one record of options for each context; well-formed buffers and a coherent cache.
\<close>

theorem options_merged:
  assumes "cx_ok cx" "storage_ok storage cx" "in_order cx" "items_known cx (cf_cond con)" "cf_ok con"
    "coherent lc cx (cf_cond con)" "cx_data cx \<noteq> []" "\<And>i. cx_data cx ! 0 \<notin> deps cx i"
  shows "\<exists>con'. config_patch_connection lc cx storage con = Inr con'
     \<and> (\<forall>f. cf_conf con' f = merged (taken lc cx (cf_cond con)) cx storage (cf_conf con) [1..<length (cx_data cx)] f)
     \<and> ((\<forall>i \<in> set (drop 1 (cx_data cx)). in_false_block lc cx (cf_cond con) i \<longrightarrow> \<not> taken lc cx (cf_cond con) i)
         \<longrightarrow> (\<forall>f. cf_conf con' f = merged (applies lc cx (cf_cond con)) cx storage (cf_conf con) [1..<length (cx_data cx)] f))
     \<and> coherent lc cx (cf_cond con') \<and> cf_ok con'"
proof -
  obtain con' where c: "config_patch_connection lc cx storage con = Inr con'" "coherent lc cx (cf_cond con')" "cf_ok con'"
      "\<forall>f. cf_conf con' f = merged (taken lc cx (cf_cond con)) cx storage (cf_conf con) [1..<length (cx_data cx)] f"
    using config_patch_ok [OF assms] by blast
  have "cf_conf con' f = merged (applies lc cx (cf_cond con)) cx storage (cf_conf con) [1..<length (cx_data cx)] f"
    if h: "\<forall>i \<in> set (drop 1 (cx_data cx)). in_false_block lc cx (cf_cond con) i \<longrightarrow> \<not> taken lc cx (cf_cond con) i" for f
    unfolding c(4) [rule_format]
  proof (rule merged_cong)
    fix i assume "i \<in> set [1..<length (cx_data cx)]"
    then have i: "cx_data cx ! i = drop 1 (cx_data cx) ! (i - 1)" "i - 1 < length (drop 1 (cx_data cx))" by auto
    then have m: "cx_data cx ! i \<in> set (drop 1 (cx_data cx))" by (metis nth_mem)
    then have "cx_data cx ! i \<in> set (cx_data cx)" by (rule in_set_dropD)
    then show "taken lc cx (cf_cond con) (cx_data cx ! i) = applies lc cx (cf_cond con) (cx_data cx ! i)"
      using taken_applies [OF assms(1)] h m by blast
  qed
  then show ?thesis using c by blast
qed

text \<open>Contexts of the sample configuration, of which the inner one sets the document root.\<close>

definition root_option :: data_unset where
  "root_option = \<lparr>du_type = TYPE_STRING, du_key = Some ''server.document-root'', du_is_index_key = False, du_value = Some ''/x'', du_int = 0\<rparr>"

definition option_cx :: config_context where
  "option_cx = sample_cx\<lparr>cx_node := \<lambda>i. (cx_node sample_cx i)
     \<lparr>dc_value := if i = 2 then \<lparr>a_data = [Some root_option], a_sorted = [0], a_used = 1, a_size = 1, a_unique_ndx = 0\<rparr> else array_init\<rparr>\<rparr>"

definition sample_storage :: "specific_config list" where
  "sample_storage = map (\<lambda>i. \<lparr>sc_fields = (\<lambda>_. Text (Some (replicate i (CHR ''r'')))), sc_server_name = None\<rparr>) [0..<3]"

definition sample_conf :: "cond_con \<Rightarrow> conf_con" where
  "sample_conf cc = \<lparr>cf_conf = (\<lambda>_. Num 0), cf_server_name = buffer_init, cf_etag_flags =
     \<lparr>ETAG_USE_INODE = False, ETAG_USE_MTIME = False, ETAG_USE_SIZE = False\<rparr>, cf_cond = cc\<rparr>"

lemma option_cx_same:
  "deps option_cx = deps sample_cx" "cx_data option_cx = [0..<3]" "cx_ok option_cx"
  "truth lc option_cx cc = truth lc sample_cx cc" "coherent lc option_cx = coherent lc sample_cx"
  "documented lc option_cx cc i = documented lc sample_cx cc i"
proof -
  have n: "dc_parent (cx_node option_cx i) = dc_parent (cx_node sample_cx i)" "dc_prev (cx_node option_cx i) = dc_prev (cx_node sample_cx i)"
    "dc_next (cx_node option_cx i) = dc_next (cx_node sample_cx i)" "dc_children (cx_node option_cx i) = dc_children (cx_node sample_cx i)" for i
    by (simp_all add: option_cx_def)
  have k: "dc_cond (cx_node option_cx i) = dc_cond (cx_node sample_cx i)" for i by (simp add: option_cx_def)
  show d: "deps option_cx = deps sample_cx" by (simp add: deps_def n fun_eq_iff)
  show data: "cx_data option_cx = [0..<3]" by (simp add: option_cx_def sample_ok(2))
  show "cx_ok option_cx" using sample_ok(1) unfolding cx_ok_def d n data sample_ok(2) k .
  have l: "local_truth lc (cx_node option_cx i) cc = local_truth lc (cx_node sample_cx i) cc" for lc i cc
  proof -
    have f: "dc_comp (cx_node option_cx i) = dc_comp (cx_node sample_cx i)" "dc_cond (cx_node option_cx i) = dc_cond (cx_node sample_cx i)"
      "dc_string (cx_node option_cx i) = dc_string (cx_node sample_cx i)" "dc_regex (cx_node option_cx i) = dc_regex (cx_node sample_cx i)"
      "dc_comp_tag (cx_node option_cx i) = dc_comp_tag (cx_node sample_cx i)"
      by (simp_all add: option_cx_def)
    show ?thesis by (simp only: local_truth_def cond_text_def host_text_def f)
  qed
  then have r: "local_result lc (cx_node option_cx i) cc = local_result lc (cx_node sample_cx i) cc" for lc i cc
    by (simp add: local_result_def) (simp add: option_cx_def)
  have t: "truth lc option_cx cc i = truth lc sample_cx cc i" for lc cc i
  proof (induction i rule: less_induct)
    case (less i)
    show ?case
      unfolding truth.simps [of lc _ cc i] n r
      using less by (cases "dc_parent (cx_node sample_cx i)"; cases "dc_prev (cx_node sample_cx i)") simp_all
  qed
  then show "truth lc option_cx cc = truth lc sample_cx cc" by (simp add: fun_eq_iff)
  have dt: "documented lc option_cx cc i = documented lc sample_cx cc i" for lc cc i
  proof (induction i rule: less_induct)
    case (less i)
    show ?case
      unfolding documented.simps [of lc _ cc i] n r
      by (cases "dc_parent (cx_node sample_cx i)"; cases "dc_prev (cx_node sample_cx i)") (auto simp: less split: cond_result_t.split)
  qed
  show "documented lc option_cx cc i = documented lc sample_cx cc i" by (rule dt)
  show "coherent lc option_cx = coherent lc sample_cx"
    by (simp add: coherent_def fun_eq_iff data sample_ok(2) d t l)
qed

lemma option_cx_ready:
  "storage_ok sample_storage option_cx" "in_order option_cx" "0 \<notin> deps option_cx i" "cx_data option_cx \<noteq> []" "cx_data option_cx ! 0 = 0"
  "[1..<3] = [1, 2::nat]" "cx_data option_cx ! 1 = 1" "cx_data option_cx ! 2 = 2" "drop 1 (cx_data option_cx) = [1, 2]"
  "context_fields option_cx 2 = {Document_root}" "sc_fields (sample_storage ! 2) Document_root = Text (Some ''rr'')"
  "context_fields option_cx 1 = {}"
proof -
  show "storage_ok sample_storage option_cx" by (auto simp: storage_ok_def sample_storage_def option_cx_same fits_def PTRDIFF_MAX_def)
  have "deps sample_cx i = {} \<or> deps sample_cx i = {1}" for i by (auto simp: deps_def sample_cx_def sample_node_def)
  then show "0 \<notin> deps option_cx i" by (metis empty_iff option_cx_same(1) singletonD zero_neq_one)
  have z: "deps sample_cx 0 = {}" by (auto simp: deps_def sample_cx_def sample_node_def)
  have data: "cx_data option_cx = [0, 1, 2]" unfolding option_cx_same(2) by code_simp
  show "[1..<3] = [1, 2::nat]" by code_simp
  have "deps option_cx (cx_data option_cx ! i) \<subseteq> set (take i (cx_data option_cx))" if "i < 3" for i
  proof -
    have "i = 0 \<or> i = 1 \<or> i = 2" using that by auto
    then show ?thesis using sample_ok(6,7) z data unfolding option_cx_same(1) by auto
  qed
  then show "in_order option_cx" by (simp add: in_order_def in_order_upto_def data)
  show "cx_data option_cx \<noteq> []" "cx_data option_cx ! 0 = 0" "cx_data option_cx ! 1 = 1" "cx_data option_cx ! 2 = 2" "drop 1 (cx_data option_cx) = [1, 2]"
    by (simp_all add: data)
  show "context_fields option_cx 2 = {Document_root}"
    by (simp add: context_fields_def option_cx_def array_entries_def set_by_def root_option_def fields_of_key_def option_fields_def)
  show "context_fields option_cx 1 = {}" by (simp add: context_fields_def option_cx_def array_entries_def array_init_def)
  show "sc_fields (sample_storage ! 2) Document_root = Text (Some ''rr'')" by (simp add: sample_storage_def numeral_2_eq_2)
qed

text \<open>The same configuration, and a request for \<open>/x\<close> on a host of one's choice.\<close>

definition host_con :: "string \<Rightarrow> cond_con" where
  "host_con h = sample_con\<lparr>kc_authority := Some h\<rparr>"

lemma host_con_ready:
  assumes "fits (length h + 30)"
  shows "cf_ok (sample_conf (host_con h))" "items_known option_cx (cf_cond (sample_conf (host_con h)))"
    "coherent sample_libc option_cx (cf_cond (sample_conf (host_con h)))"
  using assms by (simp_all add: cf_ok_def sample_conf_def option_cx_same items_known_def coherent_def is_set_def kc_ok_def host_con_def sample_con_def)

lemma host_con_truth:
  "truth sample_libc sample_cx (host_con ''a'') 1 = COND_RESULT_TRUE" "documented sample_libc sample_cx (host_con ''a'') 1 = COND_RESULT_TRUE"
  "documented sample_libc sample_cx (host_con ''a'') 2 = COND_RESULT_TRUE"
  "truth sample_libc sample_cx (host_con ''b'') 1 = COND_RESULT_FALSE" "truth sample_libc sample_cx (host_con ''b'') 2 = COND_RESULT_TRUE"
  "documented sample_libc sample_cx (host_con ''b'') 1 = COND_RESULT_FALSE" "documented sample_libc sample_cx (host_con ''b'') 2 = COND_RESULT_SKIP"
  by (simp_all add: truth.simps documented.simps host_con_def sample_cx_def sample_node_def local_result_def local_truth_def cond_text_def host_text_def
      sample_con_def cstr_def)

theorem options_merged_witness:
  "\<exists>con'. config_patch_connection sample_libc option_cx sample_storage (sample_conf (host_con ''a'')) = Inr con'
     \<and> cf_conf con' Document_root = Text (Some ''rr'') \<and> cf_conf con' Server_tag = Num 0"
proof -
  note o = option_cx_ready and t = host_con_truth
  have c: "cf_ok (sample_conf (host_con ''a''))" "items_known option_cx (cf_cond (sample_conf (host_con ''a'')))"
    "coherent sample_libc option_cx (cf_cond (sample_conf (host_con ''a'')))"
    using host_con_ready [of "''a''"] by (simp_all add: fits_def PTRDIFF_MAX_def)
  have p: "dc_parent (cx_node option_cx 1) = Some 0" "dc_parent (cx_node option_cx 2) = Some 1"
    by (simp_all add: option_cx_def sample_cx_def sample_node_def)
  have f: "\<not> in_false_block sample_libc option_cx (host_con ''a'') 1" "\<not> in_false_block sample_libc option_cx (host_con ''a'') 2"
    by (simp_all add: in_false_block_def p option_cx_same(6) t del: One_nat_def)
  have m: "merged (applies sample_libc option_cx (host_con ''a'')) option_cx sample_storage base [1..<3] Document_root = Text (Some ''rr'')"
    "merged (applies sample_libc option_cx (host_con ''a'')) option_cx sample_storage base [1..<3] Server_tag = base Server_tag" for base
    unfolding merged_def o(6) by (simp_all add: applies_def option_cx_same(6) t o(7,8,10-12) field_of_def del: One_nat_def)
  have l: "cf_cond (sample_conf (host_con ''a'')) = host_con ''a''" "cf_conf (sample_conf (host_con ''a'')) = (\<lambda>_. Num 0)"
      "length (cx_data option_cx) = 3" by (simp_all add: sample_conf_def option_cx_same(2))
  have z: "cx_data option_cx ! 0 \<notin> deps option_cx i" for i using o(3,5) by simp
  have h: "\<forall>i \<in> set (drop 1 (cx_data option_cx)). in_false_block sample_libc option_cx (host_con ''a'') i
      \<longrightarrow> \<not> taken sample_libc option_cx (host_con ''a'') i"
    unfolding o(9) using f by simp
  obtain con' where r: "config_patch_connection sample_libc option_cx sample_storage (sample_conf (host_con ''a'')) = Inr con'"
      "\<forall>f. cf_conf con' f = merged (applies sample_libc option_cx (host_con ''a'')) option_cx sample_storage (\<lambda>_. Num 0) [1..<3] f"
    using options_merged [OF option_cx_same(3) o(1,2) c(2) c(1,3) o(4) z] h unfolding l by auto
  then show ?thesis using m by auto
qed

text \<open>The same options for the host \<open>b\<close>: the inner block is taken inside an outer one that does not apply.\<close>

lemma false_block_options_merged:
  "\<exists>con'. config_patch_connection sample_libc option_cx sample_storage (sample_conf (host_con ''b'')) = Inr con'
     \<and> cf_conf con' Document_root = Text (Some ''rr'')
     \<and> documented sample_libc option_cx (host_con ''b'') 2 = COND_RESULT_SKIP"
proof -
  note o = option_cx_ready and t = host_con_truth
  have c: "cf_ok (sample_conf (host_con ''b''))" "items_known option_cx (cf_cond (sample_conf (host_con ''b'')))"
    "coherent sample_libc option_cx (cf_cond (sample_conf (host_con ''b'')))"
    using host_con_ready [of "''b''"] by (simp_all add: fits_def PTRDIFF_MAX_def)
  have m: "merged (taken sample_libc option_cx (host_con ''b'')) option_cx sample_storage base [1..<3] Document_root = Text (Some ''rr'')" for base
    unfolding merged_def o(6) by (simp add: taken_def option_cx_same(4) t o(7,8,10,11) field_of_def del: One_nat_def)
  show ?thesis
    using config_patch_ok [OF option_cx_same(3) o(1,2) c(2) c(1,3) o(4)] o(3,5) m t(7)
    by (auto simp: option_cx_same(2) option_cx_same(6) sample_conf_def)
qed

text \<open>
  C17. When a context stands in front of one its result depends on, as a condition inside an else branch
  does, no request gets past \<open>config_patch_connection\<close>: it blocks itself, holding the mutex.
\<close>

theorem misplaced_context_blocks:
  assumes "cx_ok cx" "storage_ok storage cx" "\<not> in_order cx" "items_known cx (cf_cond con)" "cf_ok con"
    "\<And>i. \<not> is_set (cf_cond con) i" "coherent lc cx (cf_cond con)" "deps cx (cx_data cx ! 0) = {}" "\<And>i. cx_data cx ! 0 \<notin> deps cx i"
  shows "config_patch_connection lc cx storage con = Inl Blocked"
proof -
  let ?N = "length (cx_data cx)"
  let ?bad = "\<lambda>i. i < ?N \<and> \<not> deps cx (cx_data cx ! i) \<subseteq> set (take i (cx_data cx))"
  define k where "k = (LEAST i. ?bad i)"
  have "\<exists>i. ?bad i" using assms(3) by (auto simp: in_order_def in_order_upto_def)
  then have k: "?bad k" unfolding k_def by (rule LeastI_ex)
  have least: "\<And>i. i < k \<Longrightarrow> \<not> ?bad i" unfolding k_def by (rule not_less_Least)
  have k1: "1 \<le> k" using k assms(8) by (cases k) auto
  have o: "in_order_upto cx k" using least k by (auto simp: in_order_upto_def)
  have "\<forall>j \<in> set (take 1 (cx_data cx)). j \<noteq> cx_data cx ! 0 \<longrightarrow> is_set (cf_cond con) j" using k(1) by (cases "cx_data cx") auto
  then obtain con' where c: "patch_contexts lc cx storage [1..<k] con = Inr con'"
      "\<forall>j. is_set (cf_cond con') j \<longrightarrow> is_set (cf_cond con) j \<or> j \<in> set (take k (cx_data cx))"
    using patch_contexts_ok [OF assms(1,2) o _ assms(4,5,7) order_refl k1 _ assms(9)] k(1) by auto
  obtain d where d: "d \<in> deps cx (cx_data cx ! k)" "d \<notin> set (take k (cx_data cx))" using k(1) by blast
  then have "\<not> is_set (cf_cond con') d" using c(2) assms(6) by blast
  moreover have "\<not> is_set (cf_cond con') (cx_data cx ! k)"
  proof
    assume "is_set (cf_cond con') (cx_data cx ! k)"
    then have m: "cx_data cx ! k \<in> set (take k (cx_data cx))" using c(2) assms(6) by blast
    then obtain i where i: "i < k" "cx_data cx ! i = cx_data cx ! k" by (auto simp: in_set_conv_nth)
    then have "deps cx (cx_data cx ! k) \<subseteq> set (take i (cx_data cx))" using o by (metis in_order_upto_def)
    then have "d \<in> set (take k (cx_data cx))" using d(1) i(1) by (meson less_imp_le set_take_subset_set_take subsetD)
    then show False using d(2) by blast
  qed
  ultimately have "config_check_cond lc cx (cf_cond con') (cx_data cx ! k) = Inl Blocked"
    using nocache_blocks [OF d(1), of "cf_cond con'" lc] by (simp add: config_check_cond_def config_check_cond_cached.simps is_set_def)
  then have "patch_contexts lc cx storage (k # [Suc k..<?N]) con' = Inl Blocked" by (simp add: Let_def)
  moreover have "[1..<?N] = [1..<k] @ k # [Suc k..<?N]" using k1 k(1) by (metis less_imp_le upt_add_eq_append upt_conv_Cons le_add_diff_inverse)
  ultimately show ?thesis using c(1) by (simp add: config_patch_connection_def patch_contexts_append)
qed

text \<open>
  The parser takes an else block out of the array of contexts, when it knows its name, and puts it
  back; its inner block has then moved to its place.
\<close>

definition context_entry :: "string \<Rightarrow> data_unset" where
  "context_entry k = \<lparr>du_type = TYPE_CONFIG, du_key = Some k, du_is_index_key = False, du_value = None, du_int = 0\<rparr>"

lemma else_block_order:
  "(do { a \<leftarrow> array_insert_unique array_init (context_entry ''global'');
         a \<leftarrow> array_insert_unique a (context_entry ''if'');
         a \<leftarrow> array_insert_unique a (context_entry ''else_tmp'');
         a \<leftarrow> array_insert_unique a (context_entry ''inner'');
         (d, a) \<leftarrow> array_extract_element_klen a ''else_tmp'';
         a \<leftarrow> array_insert_unique a (context_entry ''else'');
         Some (map (abs_bytes \<circ> du_key) (array_entries a)) })
   = Some [''global'', ''if'', ''inner'', ''else'']"
  by code_simp

text \<open>The contexts of \<open>$HTTP["host"] == "a" { } else { $HTTP["url"] == "/x" { } }\<close>, in the order in which the parser leaves them.\<close>

definition else_cx :: config_context where
  "else_cx = \<lparr>cx_node = (\<lambda>i. if i = 0 then sample_node\<lparr>dc_comp := COMP_UNSET, dc_parent := None, dc_children := [1, 2]\<rparr>
       else if i = 1 then sample_node\<lparr>dc_comp := COMP_HTTP_HOST, dc_string := ''a'', dc_next := Some 2\<rparr>
       else if i = 2 then sample_node\<lparr>dc_comp := COMP_HTTP_HOST, dc_cond := CONFIG_COND_ELSE, dc_prev := Some 1, dc_children := [3]\<rparr>
       else sample_node\<lparr>dc_parent := Some 2\<rparr>), cx_data = [0, 1, 3, 2]\<rparr>"

theorem misplaced_context_blocks_witness:
  "config_patch_connection sample_libc else_cx (replicate 4 \<lparr>sc_fields = (\<lambda>_. Num 0), sc_server_name = None\<rparr>) (sample_conf sample_con) = Inl Blocked"
proof -
  have d: "deps else_cx 0 = {}" "deps else_cx 1 = {}" "deps else_cx 2 = {1}" "deps else_cx 3 = {2}"
    by (auto simp: deps_def else_cx_def sample_node_def)
  have i: "i = 0 \<or> i = 1 \<or> i = 2 \<or> i = 3" if "i \<in> set (cx_data else_cx)" for i using that by (auto simp: else_cx_def)
  have m: "1 \<in> set (cx_data else_cx)" "2 \<in> set (cx_data else_cx)" by (simp_all add: else_cx_def)
  have "\<forall>d \<in> deps else_cx i. d < i \<and> d \<in> set (cx_data else_cx)" if "i \<in> set (cx_data else_cx)" for i
    using i [OF that] d m by auto
  moreover have "dc_prev (cx_node else_cx i) = Some q \<Longrightarrow> dc_next (cx_node else_cx q) = Some i \<and> dc_parent (cx_node else_cx q) = dc_parent (cx_node else_cx i)" for i q
    by (auto simp: else_cx_def sample_node_def split: if_splits)
  moreover have "dc_parent (cx_node else_cx i) = Some p \<Longrightarrow> p \<noteq> 0 \<Longrightarrow> i \<in> set (cx_data else_cx)
      \<Longrightarrow> i \<in> set (dc_children (cx_node else_cx p)) \<and> dc_cond (cx_node else_cx i) \<noteq> CONFIG_COND_UNSET" for i p
    using i by (auto simp: else_cx_def sample_node_def split: if_splits)
  ultimately have w: "cx_ok else_cx" unfolding cx_ok_def by blast
  have n: "\<And>i. \<not> is_set (cf_cond (sample_conf sample_con)) i" using sample_ok(5) by (simp add: sample_conf_def)
  have c: "cf_ok (sample_conf sample_con)" "items_known else_cx (cf_cond (sample_conf sample_con))"
    "coherent sample_libc else_cx (cf_cond (sample_conf sample_con))"
    using sample_ok(3,5) by (simp_all add: cf_ok_def sample_conf_def coherent_def items_known_def) (simp_all add: sample_con_def)
  have "\<not> deps else_cx (cx_data else_cx ! 2) \<subseteq> set (take 2 (cx_data else_cx))" "2 < length (cx_data else_cx)"
    using d by (simp_all add: else_cx_def)
  then have o: "\<not> in_order else_cx" unfolding in_order_def in_order_upto_def by blast
  have s: "storage_ok (replicate 4 \<lparr>sc_fields = (\<lambda>_. Num 0), sc_server_name = None\<rparr>) else_cx"
    by (simp add: storage_ok_def else_cx_def fits_def PTRDIFF_MAX_def)
  have z: "deps else_cx (cx_data else_cx ! 0) = {}" "\<And>i. cx_data else_cx ! 0 \<notin> deps else_cx i"
    using d(1) by (simp add: else_cx_def) (auto simp: deps_def else_cx_def sample_node_def)
  show ?thesis by (rule misplaced_context_blocks [OF w s o c(2) c(1) n c(3) z])
qed

end
