(* ===== verification/StatCache.thy ===== *)
theory StatCache
  imports SplayTree Format
begin

text \<open>
  The stat cache, \<open>src/src/stat_cache.c\<close>, built with \<open>lstat\<close> and without FAM and extended attributes:
  what the operating system says of a path is kept for a second, in a splay tree by the hash of
  the path.  The functions run under one mutex, so each is one step of the state; what they hand
  out is the address of an entry, which the caller uses after the mutex is free again.

  Parameters are the answers of \<open>stat\<close>, \<open>lstat\<close> and \<open>open\<close>, and the time of the server.
\<close>

section \<open>Operations\<close>

datatype errno_t = EACCES | ENAMETOOLONG | ENOENT | ENOTDIR | Other_errno

datatype file_kind = S_IFREG | S_IFDIR | S_IFLNK | S_IFOTHER

record stat_buf =
  st_kind :: file_kind
  st_ino :: int
  st_size :: int
  st_mtime :: int

record os_files =
  os_stat :: "string \<Rightarrow> errno_t + stat_buf"
  os_open :: "string \<Rightarrow> errno_t option"
  os_lstat :: "string \<Rightarrow> file_kind option"

datatype stat_engine = STAT_CACHE_ENGINE_UNSET | STAT_CACHE_ENGINE_NONE | STAT_CACHE_ENGINE_SIMPLE

record stat_cache_entry =
  sce_name :: buffer
  sce_etag :: buffer
  sce_st :: stat_buf
  sce_stat_ts :: int
  sce_is_symlink :: bool
  sce_content_type :: buffer

text \<open>The nodes of the tree hold addresses of entries; an address that is not in the heap any more was freed.\<close>

record stat_cache =
  sc_files :: "nat splay_tree"
  sc_hash_key :: buffer
  sc_heap :: "nat \<Rightarrow> stat_cache_entry option"
  sc_next :: nat

definition stat_cache_init :: stat_cache where
  "stat_cache_init = \<lparr>sc_files = Leaf, sc_hash_key = buffer_init, sc_heap = (\<lambda>_. None), sc_next = 0\<rparr>"

definition stat_cache_choose_engine :: "buffer \<Rightarrow> stat_engine \<Rightarrow> (int \<times> stat_engine) option" where
  "stat_cache_choose_engine b engine =
     (if buffer_string_is_empty b then Some (0, STAT_CACHE_ENGINE_SIMPLE)
      else do {
        simple \<leftarrow> buffer_is_equal_string b ''simple'';
        disable \<leftarrow> buffer_is_equal_string b ''disable'';
        Some (if simple then (0, STAT_CACHE_ENGINE_SIMPLE) else if disable then (0, STAT_CACHE_ENGINE_NONE) else (- 1, engine))
      })"

definition empty_stat :: stat_buf where
  "empty_stat = \<lparr>st_kind = S_IFOTHER, st_ino = 0, st_size = 0, st_mtime = 0\<rparr>"

definition stat_cache_entry_init :: stat_cache_entry where
  "stat_cache_entry_init = \<lparr>sce_name = buffer_init, sce_etag = buffer_init, sce_st = empty_stat, sce_stat_ts = 0,
     sce_is_symlink = False, sce_content_type = buffer_init\<rparr>"

definition stat_cache_entry_free :: "nat \<Rightarrow> stat_cache \<Rightarrow> stat_cache option" where
  "stat_cache_entry_free a sc = do { e \<leftarrow> sc_heap sc a; Some (sc\<lparr>sc_heap := (sc_heap sc)(a := None)\<rparr>) }"

text \<open>What a system call reads of a buffer.\<close>

definition c_name :: "buffer \<Rightarrow> string" where
  "c_name b = cstr (buffer_content b)"

subsection \<open>One file\<close>

definition stat_cache_lstat :: "os_files \<Rightarrow> buffer \<Rightarrow> int" where
  "stat_cache_lstat os dname =
     (case os_lstat os (c_name dname) of Some k \<Rightarrow> if k = S_IFLNK then 0 else 1 | None \<Rightarrow> - 1)"

definition strrchr :: "char \<Rightarrow> string \<Rightarrow> nat option" where
  "strrchr c s = (if c \<in> set s then Some (length s - 1 - length (takeWhile (\<lambda>x. x \<noteq> c) (rev s))) else None)"

lemma strrchr_less: "strrchr c s = Some i \<Longrightarrow> i < length s"
proof -
  assume a: "strrchr c s = Some i"
  then have "s \<noteq> []" by (auto simp: strrchr_def split: if_splits)
  with a show ?thesis by (auto simp: strrchr_def split: if_splits)
qed

lemma set_length_used: "buffer_string_set_length b n = Some b' \<Longrightarrow> b_used b' = n + 1"
  by (auto simp: buffer_string_set_length_def elim!: bind_SomeE)

text \<open>The loop over the directories of the path, from the last one up to the root.\<close>

function dirs_symlink :: "os_files \<Rightarrow> buffer \<Rightarrow> bool option" where
  "dirs_symlink os dname =
     (case strrchr (CHR ''/'') (c_name dname) of
        None \<Rightarrow> Some False
      | Some i \<Rightarrow>
          (case buffer_string_set_length dname i of
             None \<Rightarrow> None
           | Some dname \<Rightarrow>
               if i = 0 then Some False
               else if stat_cache_lstat os dname = 0 then Some True
               else dirs_symlink os dname))"
  by pat_completeness auto
termination
proof (relation "measure (\<lambda>(os, b). b_used b)", simp)
  fix os b i b'
  assume a: "strrchr (CHR ''/'') (c_name b) = Some i" "buffer_string_set_length b i = Some b'"
  have "i < length (c_name b)" using a(1) by (rule strrchr_less)
  also have "\<dots> \<le> b_used b - 1"
    using length_cstr [of "buffer_content b"] by (simp add: c_name_def buffer_content_def)
  finally show "((os, b'), os, b) \<in> measure (\<lambda>(os, b). b_used b)" using set_length_used [OF a(2)] by simp
qed

declare dirs_symlink.simps [simp del]

definition check_symlink :: "os_files \<Rightarrow> buffer \<Rightarrow> bool option" where
  "check_symlink os name =
     (if stat_cache_lstat os name = 0 then Some True
      else if 1 < buffer_string_length name then do {
        dname \<leftarrow> buffer_copy_buffer buffer_init (Some name);
        dirs_symlink os dname
      } else Some False)"

text \<open>\<open>stat\<close>, and for a regular file whether it can be opened.\<close>

definition check_file :: "os_files \<Rightarrow> buffer \<Rightarrow> (errno_t + stat_buf) option" where
  "check_file os name =
     (case os_stat os (c_name name) of
        Inl e \<Rightarrow> Some (Inl e)
      | Inr st \<Rightarrow>
          if st_kind st = S_IFREG then do {
            c \<leftarrow> peek (b_ptr name) (sz_sub (buffer_string_length name) 1);
            if c = CHR ''/'' then Some (Inl ENOTDIR)
            else Some (case os_open os (c_name name) of Some e \<Rightarrow> Inl e | None \<Rightarrow> Inr st)
          } else Some (Inr st))"

subsection \<open>The cache\<close>

text \<open>The entry at the root of the tree, when it is the one for the name.\<close>

definition find_entry :: "buffer \<Rightarrow> int \<Rightarrow> stat_cache \<Rightarrow> (nat \<times> stat_cache_entry) option option" where
  "find_entry name file_ndx sc =
     (case sc_files sc of
        Leaf \<Rightarrow> Some None
      | Node l k s a r \<Rightarrow>
          if k = file_ndx then do {
            e \<leftarrow> sc_heap sc a;
            eq \<leftarrow> buffer_is_equal name (sce_name e);
            Some (if eq then Some (a, e) else None)
          } else Some None)"

fun root_data :: "'d splay_tree \<Rightarrow> 'd option" where
  "root_data Leaf = None"
| "root_data (Node l k s d r) = Some d"

text \<open>A new entry replaces the one at the root with the same hash, which is freed, or is inserted.\<close>

definition add_entry :: "buffer \<Rightarrow> int \<Rightarrow> stat_cache \<Rightarrow> (nat \<times> stat_cache) option" where
  "add_entry name file_ndx sc = do {
     b \<leftarrow> buffer_copy_buffer (sce_name stat_cache_entry_init) (Some name);
     let a = sc_next sc;
     let sc = sc\<lparr>sc_heap := (sc_heap sc)(a \<mapsto> stat_cache_entry_init\<lparr>sce_name := b\<rparr>), sc_next := a + 1\<rparr>;
     sc \<leftarrow> (case sc_files sc of
              Leaf \<Rightarrow> do {
                let files = splaytree_insert Leaf file_ndx a;
                force_assert (node_size (Leaf :: nat splay_tree) + 1 = node_size files);
                Some (sc\<lparr>sc_files := files\<rparr>)
              }
            | Node l k s old r \<Rightarrow>
                if k = file_ndx then do {
                  sc \<leftarrow> stat_cache_entry_free old sc;
                  Some (sc\<lparr>sc_files := Node l k s a r\<rparr>)
                } else do {
                  let files = splaytree_insert (Node l k s old r) file_ndx a;
                  force_assert (node_size (Node l k s old r) + 1 = node_size files);
                  Some (sc\<lparr>sc_files := files\<rparr>)
                });
     force_assert (root_data (sc_files sc) = Some a);
     Some (a, sc)
   }"

definition reset_entry :: "nat \<Rightarrow> stat_cache_entry \<Rightarrow> stat_cache \<Rightarrow> stat_cache" where
  "reset_entry a e sc = sc\<lparr>sc_heap := (sc_heap sc)(a \<mapsto> e\<lparr>sce_etag := buffer_reset (sce_etag e)\<rparr>)\<rparr>"

text \<open>The part behind a cache that has no answer of this second.\<close>

definition refresh_entry ::
    "os_files \<Rightarrow> int \<Rightarrow> nat \<Rightarrow> buffer \<Rightarrow> int \<Rightarrow> nat option \<Rightarrow> stat_cache \<Rightarrow> ((errno_t + nat) \<times> stat_cache) option" where
  "refresh_entry os now follow_symlink name file_ndx sce sc = do {
     r \<leftarrow> check_file os name;
     case r of
       Inl e \<Rightarrow> Some (Inl e, sc)
     | Inr st \<Rightarrow> do {
         (a, sc) \<leftarrow> (case sce of
                       None \<Rightarrow> add_entry name file_ndx sc
                     | Some a \<Rightarrow> do { e \<leftarrow> sc_heap sc a; Some (a, reset_entry a e sc) });
         e \<leftarrow> sc_heap sc a;
         link \<leftarrow> (if follow_symlink = 0 then check_symlink os name else Some False);
         Some (Inr a, sc\<lparr>sc_heap := (sc_heap sc)(a \<mapsto> e\<lparr>sce_st := st, sce_stat_ts := now, sce_is_symlink := link\<rparr>)\<rparr>)
       }
   }"

definition stat_cache_get_entry ::
    "os_files \<Rightarrow> stat_engine \<Rightarrow> int \<Rightarrow> nat \<Rightarrow> buffer \<Rightarrow> stat_cache \<Rightarrow> ((errno_t + nat) \<times> stat_cache) option" where
  "stat_cache_get_entry os engine now follow_symlink name sc = do {
     hk \<leftarrow> buffer_copy_buffer (sc_hash_key sc) (Some name);
     hk \<leftarrow> buffer_append_int hk (int follow_symlink);
     let file_ndx = sint (hashme (c_name hk));
     let sc = sc\<lparr>sc_hash_key := hk, sc_files := splaytree_splay (sc_files sc) file_ndx\<rparr>;
     found \<leftarrow> find_entry name file_ndx sc;
     case found of
       None \<Rightarrow> refresh_entry os now follow_symlink name file_ndx None sc
     | Some (a, e) \<Rightarrow>
         if engine = STAT_CACHE_ENGINE_SIMPLE \<and> sce_stat_ts e = now \<and> follow_symlink \<noteq> 0 then Some (Inr a, sc)
         else refresh_entry os now follow_symlink name file_ndx (Some a) sc
   }"

subsection \<open>Cleaning up\<close>

fun stat_cache_tag_old_entries :: "int \<Rightarrow> (nat \<Rightarrow> stat_cache_entry option) \<Rightarrow> nat splay_tree \<Rightarrow> int list option" where
  "stat_cache_tag_old_entries now heap Leaf = Some []"
| "stat_cache_tag_old_entries now heap (Node l k s a r) = do {
     xs \<leftarrow> stat_cache_tag_old_entries now heap l;
     ys \<leftarrow> stat_cache_tag_old_entries now heap r;
     e \<leftarrow> heap a;
     Some (xs @ ys @ (if now - sce_stat_ts e > 2 then [k] else []))
   }"

fun delete_keys :: "int list \<Rightarrow> stat_cache \<Rightarrow> stat_cache option" where
  "delete_keys [] sc = Some sc"
| "delete_keys (ndx # keys) sc = do {
     let files = splaytree_splay (sc_files sc) ndx;
     let sc = sc\<lparr>sc_files := files\<rparr>;
     sc \<leftarrow> (case files of
              Leaf \<Rightarrow> Some sc
            | Node l k s a r \<Rightarrow>
                if k = ndx then do {
                  sc \<leftarrow> stat_cache_entry_free a sc;
                  Some (sc\<lparr>sc_files := splaytree_delete files ndx\<rparr>)
                } else Some sc);
     delete_keys keys sc
   }"

text \<open>The array of the keys has room for as many as the tree has nodes.\<close>

definition stat_cache_trigger_cleanup :: "int \<Rightarrow> stat_cache \<Rightarrow> stat_cache option" where
  "stat_cache_trigger_cleanup now sc =
     (if sc_files sc = Leaf then Some sc
      else do {
        keys \<leftarrow> stat_cache_tag_old_entries now (sc_heap sc) (sc_files sc);
        force_assert (int (length keys) \<le> node_size (sc_files sc));
        delete_keys keys sc
      })"

partial_function (option) stat_cache_free :: "stat_cache \<Rightarrow> stat_cache option" where
  "stat_cache_free sc =
     (case sc_files sc of
        Leaf \<Rightarrow> Some sc
      | Node l k s a r \<Rightarrow>
          Option.bind (stat_cache_entry_free a sc) (\<lambda>sc'.
          Option.bind (force_assert (s - 1 = node_size (splaytree_delete (sc_files sc) k))) (\<lambda>_.
          stat_cache_free (sc'\<lparr>sc_files := splaytree_delete (sc_files sc) k\<rparr>))))"

section \<open>Specification\<close>

text \<open>What a name is answered with when nothing is cached, and whether a symbolic link leads to it.\<close>

definition file_answer :: "os_files \<Rightarrow> string \<Rightarrow> errno_t + stat_buf" where
  "file_answer os s =
     (case os_stat os (cstr s) of
        Inl e \<Rightarrow> Inl e
      | Inr st \<Rightarrow>
          if st_kind st \<noteq> S_IFREG then Inr st
          else if last s = CHR ''/'' then Inl ENOTDIR
          else (case os_open os (cstr s) of Some e \<Rightarrow> Inl e | None \<Rightarrow> Inr st))"

definition linked :: "os_files \<Rightarrow> string \<Rightarrow> bool" where
  "linked os s \<longleftrightarrow> os_lstat os s = Some S_IFLNK
     \<or> (\<exists>i. 0 < i \<and> i < length s \<and> s ! i = CHR ''/'' \<and> os_lstat os (take i s) = Some S_IFLNK)"

text \<open>The empty name is no file.\<close>

definition os_ok :: "os_files \<Rightarrow> bool" where
  "os_ok os \<longleftrightarrow> (\<forall>st. os_stat os [] \<noteq> Inr st)"

definition file_key :: "string option \<Rightarrow> nat \<Rightarrow> int" where
  "file_key v f = sint (hashme (cstr (abs_bytes v @ itostr [] (int f))))"

text \<open>
  The nodes of the tree and the entries of the heap belong together: no entry is lost, none stands
  at two places, and each one is under a hash of its name.
\<close>

definition nodes_ok :: "(int \<Rightarrow> nat option) \<Rightarrow> (nat \<Rightarrow> stat_cache_entry option) \<Rightarrow> nat \<Rightarrow> bool" where
  "nodes_ok m heap n \<longleftrightarrow>
     (\<forall>k k' a. m k = Some a \<and> m k' = Some a \<longrightarrow> k = k')
   \<and> (\<forall>k a. m k = Some a \<longrightarrow> (\<exists>e f. heap a = Some e \<and> k = file_key (buffer_abs (sce_name e)) f))
   \<and> (\<forall>a e. heap a = Some e \<longrightarrow> a < n \<and> buffer_wf (sce_name e) \<and> buffer_wf (sce_etag e) \<and> (\<exists>k. m k = Some a))"

definition sc_ok :: "stat_cache \<Rightarrow> bool" where
  "sc_ok sc \<longleftrightarrow> tree_ok (sc_files sc) \<and> buffer_wf (sc_hash_key sc)
     \<and> nodes_ok (tree_map (sc_files sc)) (sc_heap sc) (sc_next sc)"

text \<open>The entry that the cache has for a name.\<close>

definition cached :: "stat_cache \<Rightarrow> string option \<Rightarrow> nat \<Rightarrow> (nat \<times> stat_cache_entry) option" where
  "cached sc v f = do {
     a \<leftarrow> tree_map (sc_files sc) (file_key v f);
     e \<leftarrow> sc_heap sc a;
     if buffer_abs (sce_name e) = v then Some (a, e) else None
   }"

definition fresh :: "stat_engine \<Rightarrow> int \<Rightarrow> nat \<Rightarrow> stat_cache_entry \<Rightarrow> bool" where
  "fresh engine now f e \<longleftrightarrow> engine = STAT_CACHE_ENGINE_SIMPLE \<and> sce_stat_ts e = now \<and> f \<noteq> 0"

section \<open>Symbolic links\<close>

lemma strrchr_None: "strrchr c s = None \<longleftrightarrow> c \<notin> set s"
  by (simp add: strrchr_def)

lemma strrchr_snoc: "strrchr c (s @ [d]) = (if d = c then Some (length s) else strrchr c s)"
  by (simp add: strrchr_def)

lemma strrchr_Some: "strrchr c s = Some i \<Longrightarrow> i < length s \<and> s ! i = c \<and> (\<forall>j. i < j \<and> j < length s \<longrightarrow> s ! j \<noteq> c)"
proof (induction s rule: rev_induct)
  case Nil
  then show ?case by (simp add: strrchr_def)
next
  case (snoc d s)
  then show ?case by (auto simp: strrchr_snoc nth_append less_Suc_eq split: if_splits)
qed

lemma take_cstr: "i < length (cstr s) \<Longrightarrow> take i s = take i (cstr s)"
  by (metis cstr_def less_imp_le takeWhile_eq_take min.absorb1 take_take)

lemma c_name_take:
  assumes "i < length (cstr s)"
  shows "cstr (take i s) = take i (cstr s)"
  unfolding take_cstr [OF assms] by (rule cstr_no_nul) (meson NUL_notin_cstr in_set_takeD)

definition links_above :: "os_files \<Rightarrow> string \<Rightarrow> bool" where
  "links_above os s \<longleftrightarrow> (\<exists>i. 0 < i \<and> i < length s \<and> s ! i = CHR ''/'' \<and> os_lstat os (take i s) = Some S_IFLNK)"

lemma links_above_step:
  assumes "strrchr (CHR ''/'') s = Some i"
  shows "links_above os s \<longleftrightarrow> 0 < i \<and> (os_lstat os (take i s) = Some S_IFLNK \<or> links_above os (take i s))"
proof -
  note r = strrchr_Some [OF assms]
  have j: "j < i \<or> j = i" if "j < length s" "s ! j = CHR ''/''" for j using r that by (metis linorder_less_linear)
  let ?P = "\<lambda>j. 0 < j \<and> s ! j = CHR ''/'' \<and> os_lstat os (take j s) = Some S_IFLNK"
  have "links_above os s \<longleftrightarrow> (\<exists>j < length s. ?P j)" by (auto simp: links_above_def)
  also have "\<dots> \<longleftrightarrow> ?P i \<or> (\<exists>j < i. ?P j)"
  proof
    assume "\<exists>j < length s. ?P j"
    then obtain k where k: "k < length s" "?P k" by blast
    then have "k < i \<or> k = i" using j by blast
    then show "?P i \<or> (\<exists>j < i. ?P j)" using k(2) by blast
  next
    assume "?P i \<or> (\<exists>j < i. ?P j)"
    then show "\<exists>j < length s. ?P j" using r less_trans by blast
  qed
  also have "(\<exists>j < i. ?P j) \<longleftrightarrow> links_above os (take i s)"
    using r unfolding links_above_def by (intro ex_cong1) (auto simp: min_def)
  also have "?P i \<longleftrightarrow> 0 < i \<and> os_lstat os (take i s) = Some S_IFLNK" using r by simp
  finally have "links_above os s \<longleftrightarrow> 0 < i \<and> os_lstat os (take i s) = Some S_IFLNK \<or> links_above os (take i s)" .
  moreover have "0 < i" if "links_above os (take i s)" using that by (auto simp: links_above_def)
  ultimately show ?thesis by blast
qed

lemma dirs_symlink_ok:
  assumes "buffer_wf b" "0 < b_used b" "length (buffer_content b) < 2 ^ 62"
  shows "dirs_symlink os b = Some (links_above os (c_name b))"
  using assms
proof (induction os b rule: dirs_symlink.induct)
  case (1 os b)
  show ?case
  proof (cases "strrchr (CHR ''/'') (c_name b)")
    case None
    then have "\<not> links_above os (c_name b)" by (metis links_above_def nth_mem strrchr_None)
    then show ?thesis using None by (simp add: dirs_symlink.simps)
  next
    case (Some i)
    note r = strrchr_Some [OF Some]
    have i: "i < length (cstr (buffer_content b))" using r by (simp add: c_name_def)
    then have l: "i \<le> length (buffer_content b)" using length_cstr [of "buffer_content b"] by simp
    moreover have "fits i" using l 1(4) by (intro fits_small) simp
    ultimately obtain b' where b': "buffer_string_set_length b i = Some b'" "buffer_wf b'"
        "buffer_abs b' = Some (take i (buffer_content b))" "b_used b' = i + 1"
      using buffer_truncate_ok [OF 1(2,3)] by blast
    have c: "c_name b' = take i (c_name b)"
      using buffer_content_abs [OF b'(3)] c_name_take [OF i] by (simp add: c_name_def)
    have "dirs_symlink os b' = Some (links_above os (c_name b'))" if "i \<noteq> 0" "stat_cache_lstat os b' \<noteq> 0"
      using 1(1) [OF Some b'(1) that b'(2)] b'(4) buffer_content_abs [OF b'(3)] 1(4) l by simp
    moreover have "stat_cache_lstat os b' = 0 \<longleftrightarrow> os_lstat os (take i (c_name b)) = Some S_IFLNK"
      by (simp add: stat_cache_lstat_def c split: option.split)
    ultimately show ?thesis
      unfolding dirs_symlink.simps [of os b] links_above_step [OF Some, of os] using Some b'(1) c by simp
  qed
qed

lemma lstat_links: "stat_cache_lstat os b = 0 \<longleftrightarrow> os_lstat os (c_name b) = Some S_IFLNK"
  by (simp add: stat_cache_lstat_def split: option.split)

lemma check_symlink_ok:
  assumes "buffer_wf name" "length (buffer_content name) < 2 ^ 62"
  shows "check_symlink os name = Some (linked os (c_name name))"
proof (cases "1 < buffer_string_length name \<and> stat_cache_lstat os name \<noteq> 0")
  case True
  have f: "fits (length (buffer_content name))" by (rule fits_small [OF assms(2)])
  obtain b where b: "buffer_copy_buffer buffer_init (Some name) = Some b" "buffer_wf b" "buffer_abs b = buffer_abs name"
    using buffer_copy_buffer_ok [of buffer_init "Some name"] assms(1) f by auto
  have "0 < b_used name" using True by (auto simp: buffer_string_length_def split: if_splits)
  then have "buffer_abs b = Some (buffer_content name)" using b(3) by (simp add: buffer_abs_def)
  then have "buffer_content b = buffer_content name" "0 < b_used b" by (auto simp: buffer_abs_def split: if_splits)
  then have "dirs_symlink os b = Some (links_above os (c_name name))"
    using dirs_symlink_ok [OF b(2), of os] assms(2) by (simp add: c_name_def)
  then show ?thesis
    using True b(1) lstat_links [of os name] by (simp add: check_symlink_def linked_def links_above_def)
next
  case False
  have "\<not> links_above os (c_name name)" if "\<not> 1 < buffer_string_length name"
  proof -
    have "length (c_name name) \<le> 1"
      using that length_cstr [of "buffer_content name"] buffer_string_length_content [OF assms(1)] by (simp add: c_name_def)
    then show ?thesis by (auto simp: links_above_def)
  qed
  then show ?thesis
    using False lstat_links [of os name] by (auto simp: check_symlink_def linked_def links_above_def)
qed

lemma check_file_ok:
  assumes "buffer_wf name" "os_ok os" "length (buffer_content name) < 2 ^ 62"
  shows "check_file os name = Some (file_answer os (buffer_content name))"
proof (cases "os_stat os (c_name name)")
  case (Inl e)
  then show ?thesis by (simp add: check_file_def file_answer_def c_name_def)
next
  case (Inr st)
  let ?s = "buffer_content name"
  have ne: "?s \<noteq> []" using Inr assms(2) by (auto simp: os_ok_def c_name_def cstr_def)
  then have u: "0 < b_used name" by (cases "b_used name") (auto simp: buffer_content_def)
  then obtain rest where "b_ptr name = map Some ?s @ Some NUL # rest" using assms(1) by (elim buffer_wfE) auto
  then have "peek (b_ptr name) (length ?s - 1) = Some (last ?s)" using ne by (simp add: peek_def nth_append last_conv_nth)
  moreover have "1 \<le> length ?s" "length ?s < SIZE_MOD" using ne assms(3) by (cases ?s; simp add: SIZE_MOD_def)+
  ultimately show ?thesis
    using Inr by (simp add: check_file_def file_answer_def c_name_def buffer_string_length_content [OF assms(1)])
qed

section \<open>Entries and nodes\<close>

lemma refsD:
  assumes "nodes_ok m heap n"
  shows "m k = Some a \<Longrightarrow> m k' = Some a \<Longrightarrow> k = k'"
    "m k = Some a \<Longrightarrow> \<exists>e f. heap a = Some e \<and> k = file_key (buffer_abs (sce_name e)) f"
    "heap a = Some e \<Longrightarrow> a < n \<and> buffer_wf (sce_name e) \<and> buffer_wf (sce_etag e) \<and> (\<exists>k. m k = Some a)"
  using assms unfolding nodes_ok_def by blast+

lemma refs_update:
  assumes "nodes_ok m heap n" "heap a = Some e" "sce_name e' = sce_name e" "buffer_wf (sce_etag e')"
  shows "nodes_ok m (heap(a \<mapsto> e')) n"
  unfolding nodes_ok_def
proof (intro conjI allI impI)
  note r = refsD [OF assms(1)]
  fix x y b assume "m x = Some b \<and> m y = Some b"
  then show "x = y" using r(1) by blast
next
  fix x b assume "m x = Some b"
  then show "\<exists>e'' f. (heap(a \<mapsto> e')) b = Some e'' \<and> x = file_key (buffer_abs (sce_name e'')) f"
    using refsD(2) [OF assms(1), of x b] assms(2,3) by (cases "b = a") auto
next
  fix b e'' assume "(heap(a \<mapsto> e')) b = Some e''"
  then show "b < n" "buffer_wf (sce_name e'')" "buffer_wf (sce_etag e'')" "\<exists>k. m k = Some b"
    using refsD(3) [OF assms(1), of b] refsD(3) [OF assms(1,2)] assms(3,4) by (cases "b = a"; auto)+
qed

lemma refs_delete:
  assumes "nodes_ok m heap n" "m k = Some a"
  shows "nodes_ok (m(k := None)) (heap(a := None)) n"
  unfolding nodes_ok_def
proof (intro conjI allI impI)
  note r = refsD [OF assms(1)]
  fix x y b assume "(m(k := None)) x = Some b \<and> (m(k := None)) y = Some b"
  then show "x = y" using r(1) by (auto split: if_splits)
next
  note r = refsD [OF assms(1)]
  fix x b assume "(m(k := None)) x = Some b"
  then have "m x = Some b" "x \<noteq> k" by (auto split: if_splits)
  then show "\<exists>e f. (heap(a := None)) b = Some e \<and> x = file_key (buffer_abs (sce_name e)) f"
    using r(2) [of x b] r(1) [of x b k] assms(2) by auto
next
  note r = refsD [OF assms(1)]
  fix b e assume "(heap(a := None)) b = Some e"
  then have h: "heap b = Some e" "b \<noteq> a" by (auto split: if_splits)
  then show "b < n" "buffer_wf (sce_name e)" "buffer_wf (sce_etag e)" using r(3) by blast+
  obtain x where "m x = Some b" using r(3) [OF h(1)] by blast
  then show "\<exists>x. (m(k := None)) x = Some b" using h(2) assms(2) by (intro exI [of _ x]) auto
qed

lemma refs_insert:
  assumes "nodes_ok m heap n" "m k = None" "k = file_key (buffer_abs (sce_name e)) f" "buffer_wf (sce_name e)" "buffer_wf (sce_etag e)"
  shows "nodes_ok (m(k \<mapsto> n)) (heap(n \<mapsto> e)) (n + 1)"
  unfolding nodes_ok_def
proof (intro conjI allI impI)
  note r = refsD [OF assms(1)]
  have new: "m x \<noteq> Some n" for x using r(2) [of x n] r(3) [of n] by blast
  fix x y b assume "(m(k \<mapsto> n)) x = Some b \<and> (m(k \<mapsto> n)) y = Some b"
  then show "x = y" using r(1) new by (auto split: if_splits)
next
  note r = refsD [OF assms(1)]
  fix x b assume x: "(m(k \<mapsto> n)) x = Some b"
  show "\<exists>e' f. (heap(n \<mapsto> e)) b = Some e' \<and> x = file_key (buffer_abs (sce_name e')) f"
  proof (cases "x = k")
    case True
    then show ?thesis using x assms(3) by auto
  next
    case False
    then have "m x = Some b" using x by simp
    moreover from this have "b \<noteq> n" using r(2) [of x b] r(3) [of b] by blast
    ultimately show ?thesis using r(2) [of x b] by auto
  qed
next
  note r = refsD [OF assms(1)]
  fix b e' assume h: "(heap(n \<mapsto> e)) b = Some e'"
  show "b < n + 1" "buffer_wf (sce_name e')" "buffer_wf (sce_etag e')" "\<exists>x. (m(k \<mapsto> n)) x = Some b"
  proof -
    show "b < n + 1" "buffer_wf (sce_name e')" "buffer_wf (sce_etag e')"
      using h assms(4,5) r(3) [of b e'] by (auto split: if_splits)
    show "\<exists>x. (m(k \<mapsto> n)) x = Some b"
    proof (cases "b = n")
      case False
      then obtain x where "m x = Some b" using h r(3) [of b e'] by auto
      then show ?thesis using assms(2) by (intro exI [of _ x]) auto
    qed auto
  qed
qed

lemma refs_replace:
  assumes "nodes_ok m heap n" "m k = Some old" "k = file_key (buffer_abs (sce_name e)) f" "buffer_wf (sce_name e)" "buffer_wf (sce_etag e)"
  shows "nodes_ok (m(k \<mapsto> n)) ((heap(n \<mapsto> e))(old := None)) (n + 1)"
proof -
  have "old < n" using refsD(2,3) [OF assms(1)] assms(2) by blast
  then have "(heap(n \<mapsto> e))(old := None) = (heap(old := None))(n \<mapsto> e)" by (auto simp: fun_eq_iff)
  moreover have "nodes_ok ((m(k := None))(k \<mapsto> n)) ((heap(old := None))(n \<mapsto> e)) (n + 1)"
    by (rule refs_insert [OF refs_delete [OF assms(1,2)] _ assms(3-5)]) simp
  ultimately show ?thesis by simp
qed

text \<open>A tree as the splay leaves it.\<close>

lemma root_map:
  assumes "tree_ok (Node l k s a r)"
  shows "tree_map (Node l k s a r) k = Some a" "tree_ok (Node l k s b r)"
    "tree_map (Node l k s b r) = (tree_map (Node l k s a r))(k \<mapsto> b)"
proof -
  have "below k (entries l)" "beyond k (entries r)" using assms by (simp_all add: tree_ok_iff)
  then have n: "map_of (entries l) k = None" "map_of (entries r) k = None"
    using map_of_below [of k "entries l" k] map_of_beyond [of k "entries r" k] by simp_all
  show "tree_map (Node l k s a r) k = Some a" using n by (simp add: tree_map_def map_add_def)
  show "tree_ok (Node l k s b r)" using assms by (simp add: tree_ok_iff)
  show "tree_map (Node l k s b r) = (tree_map (Node l k s a r))(k \<mapsto> b)"
    using n by (auto simp: tree_map_def map_add_def fun_eq_iff split: option.split)
qed

lemma insert_root:
  assumes "tree_ok t" "key_ok i" "tree_map t i = None"
  shows "root_data (splaytree_insert t i v) = Some v" "node_size (splaytree_insert t i v) = node_size t + 1"
proof -
  show "root_data (splaytree_insert t i v) = Some v"
  proof (cases "splaytree_splay t i")
    case (Node l k s d r)
    have "k \<noteq> i" "key_ok k"
      using splay_finds [OF Node assms(2,1)] assms(3) splay_root(3) [OF Node assms(2)] assms(1) by (auto simp: tree_ok_iff split: if_splits)
    then have "compare i k \<noteq> 0" using compare_sign [of i k] assms(2) by auto
    then show ?thesis using Node by (simp add: splaytree_insert_def Let_def)
  qed (simp add: splaytree_insert_def)
  have "root_lookup t i = None" using splay.lookup [OF assms(1,2)] assms(3) by simp
  then show "node_size (splaytree_insert t i v) = node_size t + 1" using splay.add_count(1) [OF assms(1,2)] by simp
qed

lemma file_key_ok: "key_ok (file_key v f)"
  by (simp add: file_key_def hashme_key)

section \<open>Lookups\<close>

text \<open>A tree that was splayed for a key.\<close>

definition splayed :: "int \<Rightarrow> nat splay_tree \<Rightarrow> bool" where
  "splayed i t \<longleftrightarrow> (case t of Leaf \<Rightarrow> True | Node l k s a r \<Rightarrow> k = i \<or> tree_map t i = None)"

lemma splayed_splay:
  assumes "tree_ok t" "key_ok i"
  shows "splayed i (splaytree_splay t i)"
proof (cases "splaytree_splay t i")
  case (Node l k s a r)
  then have "tree_map (splaytree_splay t i) i = (if i = k then Some a else None)"
    using splay_finds [OF Node assms(2,1)] splay_ok [OF assms(1), of i] by simp
  then show ?thesis using Node by (simp add: splayed_def)
qed (simp add: splayed_def)

lemma find_entry_ok:
  assumes "sc_ok sc" "splayed ndx (sc_files sc)" "ndx = file_key (buffer_abs name) f" "buffer_wf name"
  shows "find_entry name ndx sc = Some (cached sc (buffer_abs name) f)"
proof (cases "sc_files sc")
  case Leaf
  then show ?thesis by (simp add: find_entry_def cached_def tree_map_def)
next
  case (Node l k s a r)
  have t: "tree_ok (Node l k s a r)" using assms(1) Node by (simp add: sc_ok_def)
  show ?thesis
  proof (cases "k = ndx")
    case True
    then have m: "tree_map (sc_files sc) ndx = Some a" using root_map(1) [OF t] Node by simp
    have r: "nodes_ok (tree_map (sc_files sc)) (sc_heap sc) (sc_next sc)" using assms(1) by (simp add: sc_ok_def)
    then obtain e where e: "sc_heap sc a = Some e" using refsD(2) [OF r m] by blast
    have "buffer_is_equal name (sce_name e) = Some (buffer_abs name = buffer_abs (sce_name e))"
      using buffer_is_equal_abs [OF assms(4)] refsD(3) [OF r e] by blast
    then show ?thesis using Node True m e assms(3) by (auto simp: find_entry_def cached_def)
  next
    case False
    then have "tree_map (sc_files sc) ndx = None" using assms(2) Node by (simp add: splayed_def)
    then show ?thesis using Node False assms(3) by (simp add: find_entry_def cached_def)
  qed
qed

definition same_others :: "int \<Rightarrow> stat_cache \<Rightarrow> stat_cache \<Rightarrow> bool" where
  "same_others ndx sc sc' \<longleftrightarrow> (\<forall>k. k \<noteq> ndx \<longrightarrow> tree_map (sc_files sc') k = tree_map (sc_files sc) k
     \<and> (\<forall>a. tree_map (sc_files sc) k = Some a \<longrightarrow> sc_heap sc' a = sc_heap sc a))"

lemma add_entry_ok:
  assumes "sc_ok sc" "splayed ndx (sc_files sc)" "ndx = file_key (buffer_abs name) f" "buffer_wf name" "length (buffer_content name) < 2 ^ 62"
  shows "\<exists>sc' e. add_entry name ndx sc = Some (sc_next sc, sc') \<and> sc_ok sc'
     \<and> tree_map (sc_files sc') = (tree_map (sc_files sc))(ndx \<mapsto> sc_next sc)
     \<and> sc_heap sc' (sc_next sc) = Some e \<and> buffer_abs (sce_name e) = buffer_abs name \<and> buffer_wf (sce_etag e)
     \<and> (\<forall>a. a \<noteq> sc_next sc \<longrightarrow> sc_heap sc' a = (if tree_map (sc_files sc) ndx = Some a then None else sc_heap sc a))"
proof -
  let ?a = "sc_next sc"
  have t: "tree_ok (sc_files sc)" and r: "nodes_ok (tree_map (sc_files sc)) (sc_heap sc) ?a" and h: "buffer_wf (sc_hash_key sc)"
    using assms(1) by (simp_all add: sc_ok_def)
  have k: "key_ok ndx" using assms(3) by (simp add: file_key_ok)
  obtain b where b: "buffer_copy_buffer buffer_init (Some name) = Some b" "buffer_wf b" "buffer_abs b = buffer_abs name"
    using buffer_copy_buffer_ok [of buffer_init "Some name"] assms(4) fits_small [OF assms(5)] by auto
  define e where "e = stat_cache_entry_init\<lparr>sce_name := b\<rparr>"
  have e: "sce_name e = b" "buffer_wf (sce_name e)" "buffer_wf (sce_etag e)" "buffer_abs (sce_name e) = buffer_abs name"
      "ndx = file_key (buffer_abs (sce_name e)) f"
    using b assms(3) by (simp_all add: e_def stat_cache_entry_init_def)
  have n: "sce_name stat_cache_entry_init = buffer_init" by (simp add: stat_cache_entry_init_def)
  show ?thesis
  proof (cases "tree_map (sc_files sc) ndx")
    case None
    let ?t = "splaytree_insert (sc_files sc) ndx ?a"
    have i: "tree_ok ?t" "tree_map ?t = (tree_map (sc_files sc))(ndx \<mapsto> ?a)" using insert_ok [OF t k, of ?a] None by simp_all
    note g = insert_root [OF t k None, of ?a]
    have "\<And>l k s old r. sc_files sc = Node l k s old r \<Longrightarrow> k \<noteq> ndx" using root_map(1) t None by (metis option.distinct(1))
    then have "add_entry name ndx sc = Some (?a, sc\<lparr>sc_heap := (sc_heap sc)(?a \<mapsto> e), sc_next := ?a + 1, sc_files := ?t\<rparr>)"
      using g b(1) unfolding add_entry_def n e_def by (cases "sc_files sc") (simp_all add: Let_def)
    moreover have "sc_ok (sc\<lparr>sc_heap := (sc_heap sc)(?a \<mapsto> e), sc_next := ?a + 1, sc_files := ?t\<rparr>)"
      using refs_insert [OF r None e(5,2,3)] i h by (simp add: sc_ok_def)
    ultimately show ?thesis using i e None by auto
  next
    case (Some old)
    then obtain l s x rr where node: "sc_files sc = Node l ndx s x rr" using assms(2) by (cases "sc_files sc") (auto simp: splayed_def tree_map_def)
    then have x: "x = old" using root_map(1) [of l ndx s x rr] t Some by simp
    obtain eo where eo: "sc_heap sc old = Some eo" "old \<noteq> ?a" using refsD(2) [OF r Some] refsD(3) [OF r] by blast
    let ?h = "((sc_heap sc)(?a \<mapsto> e))(old := None)"
    have "add_entry name ndx sc = Some (?a, sc\<lparr>sc_heap := ?h, sc_next := ?a + 1, sc_files := Node l ndx s ?a rr\<rparr>)"
      using b(1) node x eo unfolding add_entry_def n e_def by (simp add: Let_def stat_cache_entry_free_def)
    moreover have "sc_ok (sc\<lparr>sc_heap := ?h, sc_next := ?a + 1, sc_files := Node l ndx s ?a rr\<rparr>)"
      using refs_replace [OF r Some e(5,2,3)] root_map(2,3) [of l ndx s x rr ?a] t node h by (simp add: sc_ok_def)
    ultimately show ?thesis using e Some eo(2) root_map(3) [of l ndx s x rr ?a] t node by auto
  qed
qed

text \<open>The answer to a request that the cache did not answer.\<close>

definition answered :: "os_files \<Rightarrow> int \<Rightarrow> nat \<Rightarrow> buffer \<Rightarrow> errno_t + nat \<Rightarrow> stat_cache \<Rightarrow> stat_cache \<Rightarrow> bool" where
  "answered os now f name r sc sc' \<longleftrightarrow>
     (case file_answer os (buffer_content name) of
        Inl err \<Rightarrow> r = Inl err \<and> sc_heap sc' = sc_heap sc \<and> tree_map (sc_files sc') = tree_map (sc_files sc)
      | Inr st \<Rightarrow> \<exists>a e. r = Inr a \<and> cached sc' (buffer_abs name) f = Some (a, e) \<and> sce_st e = st \<and> sce_stat_ts e = now
          \<and> (sce_is_symlink e \<longleftrightarrow> f = 0 \<and> linked os (c_name name))
          \<and> (case cached sc (buffer_abs name) f of None \<Rightarrow> sc_heap sc a = None | Some (b, e) \<Rightarrow> a = b))"

lemma refresh_entry_ok:
  assumes "sc_ok sc" "splayed ndx (sc_files sc)" "ndx = file_key (buffer_abs name) f" "buffer_wf name"
    "length (buffer_content name) < 2 ^ 62" "os_ok os" "sce = map_option fst (cached sc (buffer_abs name) f)"
  shows "\<exists>r sc'. refresh_entry os now f name ndx sce sc = Some (r, sc') \<and> sc_ok sc' \<and> same_others ndx sc sc'
     \<and> answered os now f name r sc sc'"
proof (cases "file_answer os (buffer_content name)")
  case (Inl err)
  then have "refresh_entry os now f name ndx sce sc = Some (Inl err, sc)"
    using check_file_ok [OF assms(4,6,5)] by (simp add: refresh_entry_def)
  then show ?thesis using Inl assms(1) by (simp add: same_others_def answered_def)
next
  case (Inr st)
  let ?x = "if sce = None then add_entry name ndx sc else do { e \<leftarrow> sc_heap sc (the sce); Some (the sce, reset_entry (the sce) e sc) }"
  have "\<exists>a sc1 e. ?x = Some (a, sc1) \<and> sc_ok sc1 \<and> same_others ndx sc sc1 \<and> tree_map (sc_files sc1) ndx = Some a
     \<and> sc_heap sc1 a = Some e \<and> buffer_abs (sce_name e) = buffer_abs name \<and> buffer_wf (sce_etag e)
     \<and> (case cached sc (buffer_abs name) f of None \<Rightarrow> sc_heap sc a = None | Some (b, e) \<Rightarrow> a = b)"
  proof (cases sce)
    case None
    obtain sc1 e where a: "add_entry name ndx sc = Some (sc_next sc, sc1)" "sc_ok sc1"
        "tree_map (sc_files sc1) = (tree_map (sc_files sc))(ndx \<mapsto> sc_next sc)" "sc_heap sc1 (sc_next sc) = Some e"
        "buffer_abs (sce_name e) = buffer_abs name" "buffer_wf (sce_etag e)"
        "\<forall>a. a \<noteq> sc_next sc \<longrightarrow> sc_heap sc1 a = (if tree_map (sc_files sc) ndx = Some a then None else sc_heap sc a)"
      using add_entry_ok [OF assms(1-5)] by metis
    have r: "nodes_ok (tree_map (sc_files sc)) (sc_heap sc) (sc_next sc)" using assms(1) by (simp add: sc_ok_def)
    have "same_others ndx sc sc1"
      unfolding same_others_def
    proof (intro allI impI conjI)
      fix k x assume k: "k \<noteq> ndx" "tree_map (sc_files sc) k = Some x"
      then have "x \<noteq> sc_next sc" using refsD(2) [OF r k(2)] refsD(3) [OF r] by blast
      moreover have "tree_map (sc_files sc) ndx \<noteq> Some x" using refsD(1) [OF r k(2)] k(1) by blast
      ultimately show "sc_heap sc1 x = sc_heap sc x" using a(7) by simp
    qed (simp add: a(3))
    moreover have "sc_heap sc (sc_next sc) = None" using refsD(3) [OF r, of "sc_next sc"] by (cases "sc_heap sc (sc_next sc)") auto
    moreover have "cached sc (buffer_abs name) f = None" using None assms(7) by simp
    ultimately show ?thesis using None a by auto
  next
    case (Some a)
    then obtain e where e: "cached sc (buffer_abs name) f = Some (a, e)" using assms(7) by auto
    then have c: "tree_map (sc_files sc) ndx = Some a" "sc_heap sc a = Some e" "buffer_abs (sce_name e) = buffer_abs name"
      using assms(3) by (auto simp: cached_def split: if_splits Option.bind_splits)
    have r: "nodes_ok (tree_map (sc_files sc)) (sc_heap sc) (sc_next sc)" using assms(1) by (simp add: sc_ok_def)
    let ?e = "e\<lparr>sce_etag := buffer_reset (sce_etag e)\<rparr>"
    have w: "buffer_wf (buffer_reset (sce_etag e))" using buffer_reset_wf refsD(3) [OF r c(2)] by blast
    then have "sc_ok (reset_entry a e sc)"
      using refs_update [OF r c(2), of ?e] assms(1) by (simp add: sc_ok_def reset_entry_def)
    moreover have "same_others ndx sc (reset_entry a e sc)"
      using refsD(1) [OF r c(1)] by (auto simp: same_others_def reset_entry_def)
    ultimately show ?thesis using Some c w e by (auto simp: reset_entry_def)
  qed
  then obtain a sc1 e where a: "?x = Some (a, sc1)" "sc_ok sc1" "same_others ndx sc sc1" "tree_map (sc_files sc1) ndx = Some a"
      "sc_heap sc1 a = Some e" "buffer_abs (sce_name e) = buffer_abs name" "buffer_wf (sce_etag e)"
      "case cached sc (buffer_abs name) f of None \<Rightarrow> sc_heap sc a = None | Some (b, e) \<Rightarrow> a = b" by blast
  define e' where "e' = e\<lparr>sce_st := st, sce_stat_ts := now, sce_is_symlink := (f = 0 \<and> linked os (c_name name))\<rparr>"
  let ?sc = "sc1\<lparr>sc_heap := (sc_heap sc1)(a \<mapsto> e')\<rparr>"
  have x: "(case sce of None \<Rightarrow> add_entry name ndx sc | Some a \<Rightarrow> do { e \<leftarrow> sc_heap sc a; Some (a, reset_entry a e sc) }) = Some (a, sc1)"
    using a(1) by (cases sce) simp_all
  have "refresh_entry os now f name ndx sce sc = Some (Inr a, ?sc)"
    unfolding refresh_entry_def using check_file_ok [OF assms(4,6,5)] Inr check_symlink_ok [OF assms(4,5), of os]
    by (simp add: x a(5) e'_def)
  moreover have "sc_ok ?sc"
    using refs_update [of "tree_map (sc_files sc1)" "sc_heap sc1" "sc_next sc1" a e e'] a(2,5,7) by (simp add: sc_ok_def e'_def)
  moreover have "same_others ndx sc ?sc"
  proof -
    have "tree_map (sc_files sc) k \<noteq> Some a" if "k \<noteq> ndx" for k
      using a(2-4) that unfolding sc_ok_def same_others_def by (metis refsD(1))
    then show ?thesis using a(3) by (auto simp: same_others_def)
  qed
  moreover have "cached ?sc (buffer_abs name) f = Some (a, e')"
    using a(4,6) assms(3) by (simp add: cached_def e'_def)
  ultimately show ?thesis using Inr a(8) by (auto simp: answered_def e'_def)
qed

lemma file_key_name:
  assumes "buffer_abs hk = Some (buffer_content name @ itostr [] (int f))" "buffer_wf name"
  shows "sint (hashme (c_name hk)) = file_key (buffer_abs name) f"
  using buffer_content_abs [OF assms(1)] abs_bytes_content [OF assms(2)] by (simp add: c_name_def file_key_def)

text \<open>The state after the splay has the same entries.\<close>

lemma splay_sc:
  assumes "sc_ok sc" "key_ok i" "buffer_wf hk"
  defines "sc' \<equiv> sc\<lparr>sc_hash_key := hk, sc_files := splaytree_splay (sc_files sc) i\<rparr>"
  shows "sc_ok sc'" "splayed i (sc_files sc')" "tree_map (sc_files sc') = tree_map (sc_files sc)" "sc_heap sc' = sc_heap sc"
    "cached sc' = cached sc"
proof -
  have t: "tree_ok (sc_files sc)" using assms(1) by (simp add: sc_ok_def)
  show m: "tree_map (sc_files sc') = tree_map (sc_files sc)" "sc_heap sc' = sc_heap sc" using splay_ok [OF t, of i] by (simp_all add: sc'_def)
  show "sc_ok sc'" using assms(1,3) splay_ok [OF t, of i] by (simp add: sc_ok_def sc'_def)
  show "splayed i (sc_files sc')" using splayed_splay [OF t assms(2)] by (simp add: sc'_def)
  show "cached sc' = cached sc" by (simp add: cached_def fun_eq_iff m)
qed

lemma get_entry_ok:
  assumes "sc_ok sc" "buffer_wf name" "length (buffer_content name) < 2 ^ 56" "f < 2 ^ 16" "os_ok os"
  shows "\<exists>r sc'. stat_cache_get_entry os engine now f name sc = Some (r, sc') \<and> sc_ok sc'
     \<and> same_others (file_key (buffer_abs name) f) sc sc'
     \<and> (case cached sc (buffer_abs name) f of
          None \<Rightarrow> answered os now f name r sc sc'
        | Some (a, e) \<Rightarrow> if fresh engine now f e then r = Inr a \<and> cached sc' (buffer_abs name) f = Some (a, e)
                         else answered os now f name r sc sc')"
proof -
  let ?ndx = "file_key (buffer_abs name) f"
  have w: "buffer_wf (sc_hash_key sc)" using assms(1) by (simp add: sc_ok_def)
  have l: "length (buffer_content name) < 2 ^ 62" using assms(3) by simp
  obtain h1 where h1: "buffer_copy_buffer (sc_hash_key sc) (Some name) = Some h1" "buffer_wf h1" "buffer_abs h1 = buffer_abs name"
    using buffer_copy_buffer_ok [OF w, of "Some name"] assms(2) fits_small [OF l] by auto
  have c: "buffer_content h1 = buffer_content name"
    using abs_bytes_content [OF h1(2)] abs_bytes_content [OF assms(2)] h1(3) by simp
  obtain hk where hk: "buffer_append_int h1 (int f) = Some hk" "buffer_wf hk" "buffer_abs hk = Some (buffer_content name @ itostr [] (int f))"
    using buffer_append_int_ok [OF h1(2), of "int f"] assms(3,4) c fits_small [of "length (buffer_content name) + 20"] by auto
  have k: "sint (hashme (c_name hk)) = ?ndx" by (rule file_key_name [OF hk(3) assms(2)])
  let ?sc = "sc\<lparr>sc_hash_key := hk, sc_files := splaytree_splay (sc_files sc) ?ndx\<rparr>"
  note s = splay_sc [OF assms(1) file_key_ok hk(2)]
  have f: "find_entry name ?ndx ?sc = Some (cached sc (buffer_abs name) f)"
    using find_entry_ok [OF s(1,2) refl assms(2)] s(5) by simp
  have u: "stat_cache_get_entry os engine now f name sc =
     (case cached sc (buffer_abs name) f of
        None \<Rightarrow> refresh_entry os now f name ?ndx None ?sc
      | Some (a, e) \<Rightarrow> if engine = STAT_CACHE_ENGINE_SIMPLE \<and> sce_stat_ts e = now \<and> f \<noteq> 0 then Some (Inr a, ?sc)
                       else refresh_entry os now f name ?ndx (Some a) ?sc)"
    unfolding stat_cache_get_entry_def Let_def h1(1) hk(1) bind.bind_lunit k f
    by (cases "cached sc (buffer_abs name) f") (simp_all add: split_def)
  have o: "same_others ?ndx sc sc'' \<longleftrightarrow> same_others ?ndx ?sc sc''" for sc''
    unfolding same_others_def s(3,4) ..
  have a: "answered os now f name r sc sc'' \<longleftrightarrow> answered os now f name r ?sc sc''" for r sc''
    unfolding answered_def s(3,4,5) ..
  have "\<exists>r sc'. refresh_entry os now f name ?ndx (map_option fst (cached sc (buffer_abs name) f)) ?sc = Some (r, sc') \<and> sc_ok sc'
      \<and> same_others ?ndx sc sc' \<and> answered os now f name r sc sc'"
    unfolding o a by (rule refresh_entry_ok [OF s(1,2) refl assms(2) l assms(5)]) (simp only: s(5))
  moreover have "same_others ?ndx sc ?sc" unfolding o by (simp add: same_others_def)
  ultimately show ?thesis
    unfolding u using s(1,5) by (cases "cached sc (buffer_abs name) f") (auto simp: fresh_def)
qed

text \<open>
  C18. \<open>stat_cache_get_entry\<close> keeps the cache well formed, with all its entries for other hashes, and
  never fails an assertion.  With the simple engine, in the second in which the entry of the name was made it returns this entry,
  if symbolic links are followed; otherwise, and always without an engine, it returns what the system says of the file now, in an
  entry with this time that is marked as a symbolic link exactly if links are not followed and
  the path or one of its directories is one.
\<close>

theorem stat_cache_answers:
  assumes "sc_ok sc" "buffer_wf name" "length (buffer_content name) < 2 ^ 56" "f < 2 ^ 16" "os_ok os"
  shows "\<exists>r sc'. stat_cache_get_entry os engine now f name sc = Some (r, sc') \<and> sc_ok sc'
     \<and> same_others (file_key (buffer_abs name) f) sc sc'
     \<and> (case cached sc (buffer_abs name) f of
          None \<Rightarrow> answered os now f name r sc sc'
        | Some (a, e) \<Rightarrow> if fresh engine now f e then r = Inr a \<and> cached sc' (buffer_abs name) f = Some (a, e)
                         else answered os now f name r sc sc')"
  by (rule get_entry_ok [OF assms])

section \<open>Cleaning up\<close>

definition old_at :: "int \<Rightarrow> stat_cache_entry \<Rightarrow> bool" where
  "old_at now e \<longleftrightarrow> now - sce_stat_ts e > 2"

lemma tag_old_entries_ok:
  assumes "\<forall>p \<in> set (entries t). heap (snd p) \<noteq> None"
  shows "\<exists>keys. stat_cache_tag_old_entries now heap t = Some keys \<and> length keys \<le> length (entries t)
     \<and> set keys = {k. \<exists>a e. (k, a) \<in> set (entries t) \<and> heap a = Some e \<and> old_at now e}"
  using assms
proof (induction t)
  case (Node l k s a r)
  have pl: "\<forall>p \<in> set (entries l). heap (snd p) \<noteq> None" and pr: "\<forall>p \<in> set (entries r). heap (snd p) \<noteq> None"
    using Node.prems by auto
  obtain xs where xs: "stat_cache_tag_old_entries now heap l = Some xs" "length xs \<le> length (entries l)"
      "set xs = {k. \<exists>a e. (k, a) \<in> set (entries l) \<and> heap a = Some e \<and> old_at now e}"
    using Node.IH(1) [OF pl] by blast
  obtain ys where ys: "stat_cache_tag_old_entries now heap r = Some ys" "length ys \<le> length (entries r)"
      "set ys = {k. \<exists>a e. (k, a) \<in> set (entries r) \<and> heap a = Some e \<and> old_at now e}"
    using Node.IH(2) [OF pr] by blast
  obtain e where e: "heap a = Some e" using Node.prems by auto
  let ?zs = "if now - sce_stat_ts e > 2 then [k] else []"
  have "stat_cache_tag_old_entries now heap (Node l k s a r) = Some (xs @ ys @ ?zs)" using xs(1) ys(1) e by simp
  moreover have "length (xs @ ys @ ?zs) \<le> length (entries (Node l k s a r))" using xs(2) ys(2) by simp
  moreover have "set (xs @ ys @ ?zs) = {k'. \<exists>a' e'. (k', a') \<in> set (entries (Node l k s a r)) \<and> heap a' = Some e' \<and> old_at now e'}"
    using xs(3) ys(3) e by (auto simp: old_at_def)
  ultimately show ?case by blast
qed simp

lemma delete_keys_ok:
  assumes "sc_ok sc" "\<forall>k \<in> set keys. key_ok k"
  shows "\<exists>sc'. delete_keys keys sc = Some sc' \<and> sc_ok sc'
     \<and> tree_map (sc_files sc') = tree_map (sc_files sc) |` (- set keys)
     \<and> (\<forall>a. sc_heap sc' a = (if \<exists>k \<in> set keys. tree_map (sc_files sc) k = Some a then None else sc_heap sc a))"
  using assms
proof (induction keys arbitrary: sc)
  case (Cons ndx keys)
  let ?t = "splaytree_splay (sc_files sc) ndx"
  have t: "tree_ok (sc_files sc)" "key_ok ndx" using Cons.prems by (simp_all add: sc_ok_def)
  have t': "tree_ok ?t" "tree_map ?t = tree_map (sc_files sc)" using splay_ok [OF t(1), of ndx] by simp_all
  have r: "nodes_ok (tree_map (sc_files sc)) (sc_heap sc) (sc_next sc)" using Cons.prems by (simp add: sc_ok_def)
  show ?case
  proof (cases "tree_map (sc_files sc) ndx")
    case None
    let ?sc = "sc\<lparr>sc_files := ?t\<rparr>"
    have "sc_ok ?sc" using Cons.prems(1) t' by (simp add: sc_ok_def)
    then obtain sc' where "delete_keys keys ?sc = Some sc'" "sc_ok sc'" "tree_map (sc_files sc') = tree_map (sc_files sc) |` (- set keys)"
        "\<forall>a. sc_heap sc' a = (if \<exists>k \<in> set keys. tree_map (sc_files sc) k = Some a then None else sc_heap sc a)"
      using Cons.IH [of ?sc] Cons.prems(2) t'(2) by auto
    moreover from this have "delete_keys (ndx # keys) sc = Some sc'"
      using splay_finds [of "sc_files sc" ndx, OF _ t(2,1)] None by (cases ?t) (auto simp: Let_def split: if_splits)
    moreover have "tree_map (sc_files sc) |` (- set keys) = tree_map (sc_files sc) |` (- set (ndx # keys))"
      using None by (auto simp: restrict_map_def fun_eq_iff)
    ultimately show ?thesis using None by auto
  next
    case (Some a)
    then obtain l s rr where node: "?t = Node l ndx s a rr"
      using splay_finds [of "sc_files sc" ndx, OF _ t(2,1)] splay_Leaf [of "sc_files sc" ndx]
      by (cases ?t) (auto simp: tree_map_def split: if_splits)
    obtain e where e: "sc_heap sc a = Some e" using refsD(2) [OF r Some] by blast
    let ?sc = "sc\<lparr>sc_heap := (sc_heap sc)(a := None), sc_files := splaytree_delete ?t ndx\<rparr>"
    have d: "tree_ok (splaytree_delete ?t ndx)" "tree_map (splaytree_delete ?t ndx) = (tree_map (sc_files sc))(ndx := None)"
      using delete_ok [OF t'(1) t(2)] t'(2) by simp_all
    have "sc_ok ?sc" using refs_delete [OF r Some] d Cons.prems(1) by (simp add: sc_ok_def)
    from Cons.IH [OF this] Cons.prems(2)
    obtain sc' where sc0: "delete_keys keys ?sc = Some sc'" "sc_ok sc'" "tree_map (sc_files sc') = tree_map (sc_files ?sc) |` (- set keys)"
        "\<forall>b. sc_heap sc' b = (if \<exists>k \<in> set keys. tree_map (sc_files ?sc) k = Some b then None else sc_heap ?sc b)" by auto
    have v: "sc_files ?sc = splaytree_delete ?t ndx" "sc_heap ?sc = (sc_heap sc)(a := None)" by simp_all
    have sc': "delete_keys keys ?sc = Some sc'" "sc_ok sc'"
        "tree_map (sc_files sc') = ((tree_map (sc_files sc))(ndx := None)) |` (- set keys)"
        "\<forall>b. sc_heap sc' b = (if \<exists>k \<in> set keys. ((tree_map (sc_files sc))(ndx := None)) k = Some b then None else ((sc_heap sc)(a := None)) b)"
      using sc0 unfolding v d(2) by blast+
    have "delete_keys (ndx # keys) sc = Some sc'" using sc'(1) node e by (simp add: Let_def stat_cache_entry_free_def)
    moreover have "sc_heap sc' b = (if \<exists>k \<in> set (ndx # keys). tree_map (sc_files sc) k = Some b then None else sc_heap sc b)" for b
      using sc'(4) Some refsD(1) [OF r] by auto
    moreover have "tree_map (sc_files sc') = tree_map (sc_files sc) |` (- set (ndx # keys))"
      unfolding sc'(3) by (auto simp: restrict_map_def fun_eq_iff)
    ultimately show ?thesis using sc'(2) by blast
  qed
qed (simp add: restrict_map_def)

lemma tree_map_entries: "tree_ok t \<Longrightarrow> (k, a) \<in> set (entries t) \<longleftrightarrow> tree_map t k = Some a"
  by (metis map_of_eq_Some_iff strict_sorted_iff tree_map_def tree_ok_def)

definition old_keys :: "int \<Rightarrow> stat_cache \<Rightarrow> int set" where
  "old_keys now sc = {k. \<exists>a e. tree_map (sc_files sc) k = Some a \<and> sc_heap sc a = Some e \<and> old_at now e}"

lemma cleanup_deletes:
  assumes "sc_ok sc"
  shows "\<exists>sc'. stat_cache_trigger_cleanup now sc = Some sc' \<and> sc_ok sc'
     \<and> tree_map (sc_files sc') = tree_map (sc_files sc) |` (- old_keys now sc)
     \<and> (\<forall>a. sc_heap sc' a = (if \<exists>k \<in> old_keys now sc. tree_map (sc_files sc) k = Some a then None else sc_heap sc a))"
proof (cases "sc_files sc = Leaf")
  case True
  then have "old_keys now sc = {}" by (simp add: old_keys_def tree_map_def)
  moreover have "stat_cache_trigger_cleanup now sc = Some sc" using True by (simp add: stat_cache_trigger_cleanup_def)
  ultimately show ?thesis using assms by (simp add: restrict_map_def)
next
  case False
  let ?m = "tree_map (sc_files sc)"
  have t: "tree_ok (sc_files sc)" and r: "nodes_ok ?m (sc_heap sc) (sc_next sc)" using assms by (simp_all add: sc_ok_def)
  note m = tree_map_entries [OF t]
  have "sc_heap sc (snd p) \<noteq> None" if "p \<in> set (entries (sc_files sc))" for p
    using that m [of "fst p" "snd p"] refsD(2) [OF r, of "fst p" "snd p"] by auto
  then have "\<forall>p \<in> set (entries (sc_files sc)). sc_heap sc (snd p) \<noteq> None" by blast
  from tag_old_entries_ok [OF this, of now]
  obtain keys where keys: "stat_cache_tag_old_entries now (sc_heap sc) (sc_files sc) = Some keys" "length keys \<le> length (entries (sc_files sc))"
      "set keys = old_keys now sc"
    unfolding old_keys_def m by blast
  have "\<forall>k \<in> set keys. key_ok k"
  proof
    fix k assume "k \<in> set keys"
    then obtain a where "?m k = Some a" using keys(3) by (auto simp: old_keys_def)
    then obtain e :: stat_cache_entry and f where "k = file_key (buffer_abs (sce_name e)) f" using refsD(2) [OF r] by blast
    then show "key_ok k" by (simp add: file_key_ok)
  qed
  from delete_keys_ok [OF assms this]
  obtain sc' where d: "delete_keys keys sc = Some sc'" "sc_ok sc'" "tree_map (sc_files sc') = ?m |` (- set keys)"
      "\<forall>a. sc_heap sc' a = (if \<exists>k \<in> set keys. ?m k = Some a then None else sc_heap sc a)" by blast
  have "int (length keys) \<le> node_size (sc_files sc)" using keys(2) t by (simp add: tree_ok_iff node_size_entries)
  then have "stat_cache_trigger_cleanup now sc = Some sc'" using False keys(1) d(1) by (simp add: stat_cache_trigger_cleanup_def)
  then show ?thesis using d(2-4) unfolding keys(3) by blast
qed

lemma cleanup_ok:
  assumes "sc_ok sc"
  shows "\<exists>sc'. stat_cache_trigger_cleanup now sc = Some sc' \<and> sc_ok sc'
     \<and> (\<forall>a. sc_heap sc' a = (case sc_heap sc a of None \<Rightarrow> None | Some e \<Rightarrow> if old_at now e then None else Some e))
     \<and> (\<forall>v f. cached sc' v f = (case cached sc v f of None \<Rightarrow> None | Some (a, e) \<Rightarrow> if old_at now e then None else Some (a, e)))"
proof -
  let ?m = "tree_map (sc_files sc)"
  have t: "tree_ok (sc_files sc)" and r: "nodes_ok ?m (sc_heap sc) (sc_next sc)" using assms by (simp_all add: sc_ok_def)
  obtain sc' where s: "stat_cache_trigger_cleanup now sc = Some sc'" "sc_ok sc'" "tree_map (sc_files sc') = ?m |` (- old_keys now sc)"
      "\<And>a. sc_heap sc' a = (if \<exists>k \<in> old_keys now sc. ?m k = Some a then None else sc_heap sc a)"
    using cleanup_deletes [OF assms, of now] by blast
  have K: "k \<in> old_keys now sc \<longleftrightarrow> old_at now e" if "?m k = Some a" "sc_heap sc a = Some e" for k a e using that by (auto simp: old_keys_def)
  have h: "sc_heap sc' a = (case sc_heap sc a of None \<Rightarrow> None | Some e \<Rightarrow> if old_at now e then None else Some e)" for a
  proof (cases "sc_heap sc a")
    case (Some e)
    then obtain k where "?m k = Some a" using refsD(3) [OF r] by blast
    then have "(\<exists>k \<in> old_keys now sc. ?m k = Some a) \<longleftrightarrow> old_at now e" using K Some by blast
    then show ?thesis using s(4) [of a] Some by simp
  qed (simp add: s(4))
  have "cached sc' v f = (case cached sc v f of None \<Rightarrow> None | Some (a, e) \<Rightarrow> if old_at now e then None else Some (a, e))" for v f
  proof (cases "?m (file_key v f)")
    case None
    then show ?thesis by (simp add: cached_def s(3) restrict_map_def)
  next
    case (Some a)
    obtain e where "sc_heap sc a = Some e" using refsD(2) [OF r Some] by blast
    then show ?thesis using Some K [OF Some] h [of a] by (simp add: cached_def s(3) restrict_map_def)
  qed
  then show ?thesis using s(1,2) h by blast
qed

text \<open>What the comment asks to keep is removed.\<close>

lemma cleanup_before_ten_seconds:
  assumes "sc_ok sc" "sc_heap sc a = Some e" "2 < now - sce_stat_ts e" "now - sce_stat_ts e \<le> 10"
  shows "\<exists>sc'. stat_cache_trigger_cleanup now sc = Some sc' \<and> sc_heap sc' a = None"
  using cleanup_ok [OF assms(1), of now] assms(2,3) by (auto simp: old_at_def)

text \<open>
  C20. \<open>stat_cache_trigger_cleanup\<close> frees exactly the entries whose last \<open>stat\<close> is more than two seconds
  ago, the limit of the code, and takes
  their nodes out of the tree; the array that it collects their hashes in is large enough. The comment
  above the function speaks of more than ten seconds: an entry checked three to ten seconds ago
  is to be kept according to it, and the code removes it (\<open>cleanup_before_ten_seconds\<close>, a finding).
\<close>

theorem cleanup_removes_old:
  assumes "sc_ok sc"
  shows "\<exists>sc'. stat_cache_trigger_cleanup now sc = Some sc' \<and> sc_ok sc'
     \<and> (\<forall>a. sc_heap sc' a = (case sc_heap sc a of None \<Rightarrow> None | Some e \<Rightarrow> if old_at now e then None else Some e))
     \<and> (\<forall>v f. cached sc' v f = (case cached sc v f of None \<Rightarrow> None | Some (a, e) \<Rightarrow> if old_at now e then None else Some (a, e)))"
  by (rule cleanup_ok [OF assms])

text \<open>
  C19. The address that \<open>stat_cache_get_entry\<close> hands out is used after the mutex is free again.  When
  another thread asks for a file whose name has the same hash, or when the cache is cleaned up and
  the entry is older than two seconds, the entry is freed while the first thread still has its address.
\<close>

theorem handed_out_entry_dangles:
  assumes "sc_ok sc" "buffer_wf name" "length (buffer_content name) < 2 ^ 56" "f < 2 ^ 16" "os_ok os"
    "stat_cache_get_entry os engine now f name sc = Some (Inr a, sc1)"
    "buffer_wf name2" "length (buffer_content name2) < 2 ^ 56" "f2 < 2 ^ 16" "os_ok os2" "buffer_abs name2 \<noteq> buffer_abs name"
    "file_key (buffer_abs name2) f2 = file_key (buffer_abs name) f" "file_answer os2 (buffer_content name2) = Inr st"
    "now + 2 < later"
  shows "(\<exists>b sc2. stat_cache_get_entry os2 engine now2 f2 name2 sc1 = Some (Inr b, sc2) \<and> sc_heap sc2 a = None)
     \<and> (\<exists>sc2. stat_cache_trigger_cleanup later sc1 = Some sc2 \<and> sc_heap sc2 a = None)"
proof -
  let ?k = "file_key (buffer_abs name) f"
  have one: "sc_ok sc1 \<and> (\<exists>e. cached sc1 (buffer_abs name) f = Some (a, e) \<and> sce_stat_ts e = now)"
    using get_entry_ok [OF assms(1-5), of engine now] assms(6)
    by (auto simp: answered_def fresh_def split: option.splits prod.splits if_splits sum.splits)
  then obtain e where e: "cached sc1 (buffer_abs name) f = Some (a, e)" "sce_stat_ts e = now" by blast
  then have m: "tree_map (sc_files sc1) ?k = Some a" "sc_heap sc1 a = Some e" "buffer_abs (sce_name e) = buffer_abs name"
    by (auto simp: cached_def split: if_splits Option.bind_splits)
  have r: "nodes_ok (tree_map (sc_files sc1)) (sc_heap sc1) (sc_next sc1)" using one by (simp add: sc_ok_def)
  have "cached sc1 (buffer_abs name2) f2 = None" using m assms(11,12) by (simp add: cached_def)
  then obtain b sc2 where b: "stat_cache_get_entry os2 engine now2 f2 name2 sc1 = Some (Inr b, sc2)" "sc_ok sc2" "same_others ?k sc1 sc2"
      "tree_map (sc_files sc2) ?k = Some b" "sc_heap sc1 b = None"
    using get_entry_ok [OF _ assms(7-10), of sc1 engine now2] one assms(12,13)
    by (auto simp: answered_def cached_def split: if_splits Option.bind_splits)
  have r2: "nodes_ok (tree_map (sc_files sc2)) (sc_heap sc2) (sc_next sc2)" using b(2) by (simp add: sc_ok_def)
  have "sc_heap sc2 a = None"
  proof (rule ccontr)
    assume "sc_heap sc2 a \<noteq> None"
    then obtain k where k: "tree_map (sc_files sc2) k = Some a" using refsD(3) [OF r2] by blast
    have "k \<noteq> ?k" using k b(4,5) m(2) by auto
    then have "tree_map (sc_files sc1) k = Some a" using b(3) k by (simp add: same_others_def)
    then show False using refsD(1) [OF r _ m(1)] \<open>k \<noteq> ?k\<close> by blast
  qed
  moreover have "\<exists>sc2. stat_cache_trigger_cleanup later sc1 = Some sc2 \<and> sc_heap sc2 a = None"
    using cleanup_ok [of sc1 later] one m(2) e(2) assms(14) by (auto simp: old_at_def)
  ultimately show ?thesis using b(1) by blast
qed

section \<open>Start and end\<close>

lemma init_cache_ok: "sc_ok stat_cache_init"
  by (simp add: stat_cache_init_def sc_ok_def tree_ok_iff nodes_ok_def tree_map_def)

text \<open>The end of the server frees every entry once, and no assertion on the sizes fails.\<close>

lemma stat_cache_free_ok:
  assumes "sc_ok sc"
  shows "\<exists>sc'. stat_cache_free sc = Some sc' \<and> sc_files sc' = Leaf \<and> (\<forall>a. sc_heap sc' a = None)"
  using assms
proof (induction "nat (node_size (sc_files sc))" arbitrary: sc rule: less_induct)
  case less
  show ?case
  proof (cases "sc_files sc")
    case Leaf
    then have "sc_heap sc a = None" for a
      using less.prems refsD(3) [of "tree_map (sc_files sc)" "sc_heap sc" "sc_next sc" a]
      by (cases "sc_heap sc a") (auto simp: sc_ok_def tree_map_def)
    then show ?thesis using Leaf by (subst stat_cache_free.simps) auto
  next
    case (Node l k s a r)
    have t: "tree_ok (sc_files sc)" and rf: "nodes_ok (tree_map (sc_files sc)) (sc_heap sc) (sc_next sc)"
      using less.prems by (simp_all add: sc_ok_def)
    have m: "tree_map (sc_files sc) k = Some a" using root_map(1) t Node by simp
    obtain e :: stat_cache_entry and f where e: "sc_heap sc a = Some e" "k = file_key (buffer_abs (sce_name e)) f" using refsD(2) [OF rf m] by blast
    then have k: "key_ok k" by (simp add: file_key_ok)
    let ?t = "splaytree_delete (sc_files sc) k"
    have d: "tree_ok ?t" "tree_map ?t = (tree_map (sc_files sc))(k := None)" using delete_ok [OF t k] by simp_all
    have n: "node_size ?t = node_size (sc_files sc) - 1"
      using splay.remove_count(1) [OF t k] splay.lookup [OF t k] m by simp
    have pos: "0 < node_size (sc_files sc)" using t Node by (simp add: tree_ok_iff)
    let ?sc = "sc\<lparr>sc_heap := (sc_heap sc)(a := None), sc_files := ?t\<rparr>"
    have "sc_ok ?sc" using refs_delete [OF rf m] d less.prems by (simp add: sc_ok_def)
    moreover have "nat (node_size (sc_files ?sc)) < nat (node_size (sc_files sc))" using n pos by simp
    ultimately obtain sc' where "stat_cache_free ?sc = Some sc'" "sc_files sc' = Leaf" "\<forall>a. sc_heap sc' a = None"
      using less.hyps [of ?sc] by blast
    moreover have "stat_cache_free sc = stat_cache_free ?sc"
      using Node e(1) n by (subst stat_cache_free.simps) (simp add: stat_cache_entry_free_def)
    ultimately show ?thesis by metis
  qed
qed

section \<open>Witnesses\<close>

text \<open>A directory \<open>/l\<close> that is a symbolic link, and regular files.\<close>

definition sample_os :: os_files where
  "sample_os = \<lparr>os_stat = (\<lambda>s. if s = [] then Inl ENOENT else Inr \<lparr>st_kind = S_IFREG, st_ino = 7, st_size = 3, st_mtime = 0\<rparr>),
     os_open = (\<lambda>_. None), os_lstat = (\<lambda>s. Some (if s = ''/l'' then S_IFLNK else S_IFREG))\<rparr>"

lemma sample_os_ok: "os_ok sample_os"
  by (simp add: os_ok_def sample_os_def)

lemma sample_name: "length s < 100 \<Longrightarrow> buffer_wf (buffer_of s)" "buffer_abs (buffer_of s) = Some s"
  using buffer_of_wf(2,3) [of s] by (simp_all add: buffer_abs_def)

lemma stat_cache_answers_witness:
  "\<exists>a sc' e. stat_cache_get_entry sample_os STAT_CACHE_ENGINE_SIMPLE 5 0 (buffer_of ''/l/x'') stat_cache_init = Some (Inr a, sc')
     \<and> cached sc' (Some ''/l/x'') 0 = Some (a, e) \<and> sce_is_symlink e"
proof -
  have "cached stat_cache_init v f = None" for v f by (simp add: cached_def stat_cache_init_def tree_map_def)
  moreover have "file_answer sample_os ''/l/x'' = Inr \<lparr>st_kind = S_IFREG, st_ino = 7, st_size = 3, st_mtime = 0\<rparr>" by code_simp
  moreover have "linked sample_os (c_name (buffer_of ''/l/x''))"
    unfolding linked_def by (intro disjI2 exI [of _ 2]) (simp add: c_name_def cstr_def sample_os_def)
  ultimately show ?thesis
    using stat_cache_answers [OF init_cache_ok, of "buffer_of ''/l/x''" 0 sample_os STAT_CACHE_ENGINE_SIMPLE 5] sample_os_ok sample_name
    by (auto simp: answered_def)
qed

lemma cleanup_removes_old_witness:
  "\<exists>a sc1 sc2. stat_cache_get_entry sample_os STAT_CACHE_ENGINE_SIMPLE 5 1 (buffer_of ''/x'') stat_cache_init = Some (Inr a, sc1)
     \<and> sc_heap sc1 a \<noteq> None \<and> stat_cache_trigger_cleanup 8 sc1 = Some sc2 \<and> sc_heap sc2 a = None"
proof -
  have c: "cached stat_cache_init v f = None" for v f by (simp add: cached_def stat_cache_init_def tree_map_def)
  have f: "file_answer sample_os ''/x'' = Inr \<lparr>st_kind = S_IFREG, st_ino = 7, st_size = 3, st_mtime = 0\<rparr>" by code_simp
  obtain a sc1 e where a: "stat_cache_get_entry sample_os STAT_CACHE_ENGINE_SIMPLE 5 1 (buffer_of ''/x'') stat_cache_init = Some (Inr a, sc1)"
      "sc_ok sc1" "cached sc1 (Some ''/x'') 1 = Some (a, e)" "sce_stat_ts e = 5"
    using get_entry_ok [OF init_cache_ok, of "buffer_of ''/x''" 1 sample_os STAT_CACHE_ENGINE_SIMPLE 5] sample_os_ok sample_name c f
    by (auto simp: answered_def)
  then have "sc_heap sc1 a = Some e" by (auto simp: cached_def split: if_splits Option.bind_splits)
  then show ?thesis using a cleanup_removes_old [OF a(2), of 8] by (auto simp: old_at_def)
qed

lemma handed_out_entry_dangles_witness:
  "\<exists>a sc1 b sc2. stat_cache_get_entry sample_os STAT_CACHE_ENGINE_SIMPLE 5 1 (buffer_of ''/d2'') stat_cache_init = Some (Inr a, sc1)
     \<and> stat_cache_get_entry sample_os STAT_CACHE_ENGINE_SIMPLE 5 1 (buffer_of ''/fp'') sc1 = Some (Inr b, sc2) \<and> sc_heap sc2 a = None"
proof -
  have c: "cached stat_cache_init v f = None" for v f by (simp add: cached_def stat_cache_init_def tree_map_def)
  have f: "file_answer sample_os ''/d2'' = Inr \<lparr>st_kind = S_IFREG, st_ino = 7, st_size = 3, st_mtime = 0\<rparr>"
    "file_answer sample_os ''/fp'' = Inr \<lparr>st_kind = S_IFREG, st_ino = 7, st_size = 3, st_mtime = 0\<rparr>" by code_simp+
  have k: "file_key (Some ''/fp'') 1 = file_key (Some ''/d2'') 1" by code_simp
  obtain a sc1 where "stat_cache_get_entry sample_os STAT_CACHE_ENGINE_SIMPLE 5 1 (buffer_of ''/d2'') stat_cache_init = Some (Inr a, sc1)"
    using get_entry_ok [OF init_cache_ok, of "buffer_of ''/d2''" 1 sample_os STAT_CACHE_ENGINE_SIMPLE 5] sample_os_ok sample_name c f(1)
    by (auto simp: answered_def)
  from this handed_out_entry_dangles [OF init_cache_ok _ _ _ sample_os_ok this, of "buffer_of ''/fp''" 1 sample_os _ 8 5]
  show ?thesis using sample_os_ok sample_name f(2) k by auto
qed

end
