(* ===== verification/Spec2Isabelle.thy ===== *)
theory Spec2Isabelle
  imports Chars Buffer Format Encode PathSimplify Arrays Chunk Tempfile HttpChunk Base64 Keyvalue RequestRules BodyRules SplayTree JobList Serve Etag FileResponse ConfigPatch StatCache
begin

text \<open>
  A verification development for lighttpd, the multithreaded fork with its own main loop
  (\<open>src/src/\<close>).  It follows a request through the server: from the bytes on the socket to a parsed
  request, to the body that the client sends, to the header and the body that are sent back, with
  the containers that all of this rests on and the queue that hands connections to the threads.

  \<^bold>\<open>The parts of the program, and how they interact\<close>

  A connection (\<open>struct connection\<close>, \<open>base.h\<close>) is driven by a state machine (\<open>connections.c\<close>).  It
  reads into a chunk queue (\<open>chunk.c\<close>), looks there for the end of the header, hands the header to
  the parser (\<open>request.c\<close>), which fills the tables of the request (\<open>array.c\<close>), checks the host, and
  says whether a body follows.  The body is read from the queue (\<open>connections-glue.c\<close>) into another
  queue, in memory or in temporary files.  The response is put on the write queue
  (\<open>http_chunk.c\<close>), gets its header (\<open>http-header-glue.c\<close>, \<open>response.c\<close>), and is written from it.
  Connections that need another turn of the state machine are on a list (\<open>joblist.c\<close>) that all
  threads share.  Everything is text in buffers (\<open>buffer.c\<close>).

  \<^bold>\<open>Which theory models what\<close>

  \<^item> \<open>Prelude\<close>, \<open>Chars\<close>: bytes, \<open>size_t\<close> with its wrap-around, assertions as the value \<open>None\<close>, cells of
    memory that can be uninitialised; the character classes and \<open>buffer_caseless_compare\<close>.
  \<^item> \<open>Buffer\<close>, \<open>Format\<close>, \<open>Encode\<close>, \<open>PathSimplify\<close>: \<open>buffer.c\<close> at the level of its cells.  \<open>buffer_wf\<close> is the
    invariant (used, size, terminator), \<open>buffer_abs\<close> the text; every operation keeps the one and
    computes a function on the other.  Numbers, hexadecimal digits, the seven encodings, the URL
    decoder and the simplification of paths each have a specification that does not mention cells.
  \<^item> \<open>Arrays\<close>: \<open>array.c\<close> with the entries of \<open>data_string.c\<close> and \<open>data_integer.c\<close>: the sorted index, the
    reused elements, insertion with the merge of values.  \<open>array_view\<close> reads an array as a map.
  \<^item> \<open>Chunk\<close>, \<open>Tempfile\<close>: \<open>chunk.c\<close>.  \<open>cq_octets\<close> is the stream of octets in a queue; an octet of a file is
    named by the file and its offset, so that no octet can be confused with another.  Descriptors,
    \<open>unlink\<close> and \<open>munmap\<close> are recorded in a trace.
  \<^item> \<open>HttpChunk\<close>: \<open>http_chunk.c\<close>, with a decoder of the chunked coding as its specification.
  \<^item> \<open>Base64\<close>, \<open>Keyvalue\<close>, \<open>Etag\<close>, \<open>SplayTree\<close>, \<open>Timestamps\<close>: \<open>base64.c\<close>, \<open>keyvalue.c\<close>, \<open>etag.c\<close>,
    \<open>splaytree.c\<close>, and the dates of \<open>log.c\<close> and \<open>http-header-glue.c\<close>.
  \<^item> \<open>RequestHost\<close>, \<open>Request\<close>: \<open>request.c\<close>, one definition for each part of the two loops of
    \<open>http_request_parse\<close>.  A read of the head goes through a checked access, and a pointer into a
    table (\<open>http_host\<close>, \<open>http_range\<close> and the others) is a reference that becomes stale when its entry is
    freed or reallocated, so that \<open>None\<close> is every access the C code must not make.
    \<open>RequestTokens\<close>, \<open>RequestSafe\<close>, \<open>RequestRules\<close> hold the lemmas: the option list, the memory
    safety by an invariant of the loops, and what an accepted request satisfies.
  \<^item> \<open>NetRead\<close>, \<open>TextQueue\<close>, \<open>HeaderRead\<close>, \<open>RequestBody\<close>: the handlers of the states \<open>READ\<close>, \<open>REQUEST_END\<close> and
    \<open>READ_POST\<close>.  \<open>BodyRead\<close> and \<open>BodyRules\<close> prove that the chunked reader does not depend on where
    the network cuts the message; \<open>Serve\<close> composes the handlers and proves it for whole requests.
  \<^item> \<open>ResponseHeader\<close>, \<open>ResponseStart\<close>: the table of the response with the entries that all connections
    share, \<open>http_response_write_header\<close>, and \<open>connection_handle_write_prepare\<close>, which decides how the
    client finds the end of the body.
  \<^item> \<open>FileResponse\<close>: \<open>http_response_send_file\<close>: the conditional fields, the ranges (one, or a body of several
    parts), the fields of the response and its body.
  \<^item> \<open>SockAddr\<close>, \<open>Conditions\<close>, \<open>ConfigPatch\<close>: the conditions of the configuration (\<open>configfile-glue.c\<close>) with the
    cache of their results and its mutex, the comparison of addresses under a mask (\<open>sock_addr.c\<close>), and how the
    options of the contexts that apply become the configuration of a connection (\<open>configfile.c\<close>).
    \<open>truth\<close> is the result of the code without cache and mutex, \<open>coherent\<close> says that the cache agrees with it, and
    \<open>documented\<close> is the result as the documentation defines it, from which the code differs inside a block that does not apply.
  \<^item> \<open>StatCache\<close>: \<open>stat_cache.c\<close>: the entries on a heap with their addresses, the splay tree of hashes, the lookup with the
    search for symbolic links, and the clean-up.
  \<^item> \<open>JobList\<close>: \<open>joblist.c\<close> as a step relation: any number of threads, each with a stack of frames of the
    functions of the file, one mutex that is not recursive.

  \<^bold>\<open>What the lemmas show\<close>

  Each container has a well-formedness predicate (\<open>buffer_wf\<close>, \<open>array_wf\<close>, \<open>cq_wf\<close>, \<open>tree_ok\<close>, \<open>headers_ok\<close>) that
  every operation keeps, and an abstraction (text, map, stream of octets) on which every operation
  is a simple function; the lemma of an operation \<open>f\<close> is called \<open>f_ok\<close> and states both.  The
  components above use these lemmas only.  Interfaces that several clients share are locales
  (the text of a buffer, the table of a header, the stream of a queue, the reader of a socket, the
  sized map of the stat cache), each interpreted on the model of the code.  Where the code does not do what it
  means to, a lemma or a property shows it on an input: the manifest lists these findings.

  \<^bold>\<open>Machine arithmetic, bounds and fuel\<close>

  A \<open>size_t\<close> is a natural number with \<open>mod 2 ^ 64\<close> written out in \<open>sz_add\<close> and \<open>sz_sub\<close>; an \<open>off_t\<close>
  is an integer whose overflow, undefined in C, is the value \<open>None\<close> where the source adds untrusted values.
  \<open>fits n\<close> says that a block of \<open>n\<close> bytes and some slack can be allocated: results that
  need more abort the server, as in the code.  All loops are structural recursions or have a
  termination proof, with four exceptions in the reader of chunked bodies and \<open>stat_cache_free\<close>, which are
  \<open>partial_function (option)\<close>: there the property \<open>chunked_reader_total\<close> and the lemmas in \<open>BodyRead\<close> and \<open>StatCache\<close> prove that they return.  No
  definition takes fuel.  Schedules of threads are arbitrary finite lists.

  \<^bold>\<open>Parameters\<close>

  What is not in the repository is an argument of the definitions that use it: the answers of
  \<open>mkstemp\<close>, \<open>read\<close>, \<open>write\<close>, \<open>close\<close> and \<open>FIONREAD\<close> (lists, or a state that answers), \<open>gmtime\<close> with
  \<open>strftime\<close>, \<open>inet_pton\<close> and \<open>inet_ntop\<close>, the captures that PCRE finds, the answers of \<open>stat\<close>, \<open>lstat\<close> and \<open>open\<close>, the hooks of plugins, and \<open>connection_state_machine\<close> for the job list.  The
  libraries for state machines, memory pools and flyweight objects are a git submodule; the one
  object that a flyweight shares is part of the state (\<open>re_fixed\<close>), as the code relies on it being the same
  for every connection.

  \<^bold>\<open>Not modelled\<close>

  The event loop and the sockets (\<open>fdevent*.c\<close>, \<open>network*.c\<close>, most of \<open>server.c\<close>): calls of the operating
  system.  The configuration language (\<open>configparser.y\<close>, generated, \<open>configfile.c\<close>) and the nested
  entries it builds (\<open>data_array.c\<close>, \<open>data_config.c\<close>).  The plugins (\<open>mod_*.c\<close>, \<open>gw_backend.c\<close>): each is a
  client of the components above.  Of the components that are modelled, log messages and the printing of tables are
  left out.  The manifest lists every part with its status.
\<close>

end
